(* ===== verification/Prelude.thy ===== *)
theory Prelude
  imports Main "HOL-Library.Word" "HOL-Library.Code_Target_Nat"
begin

text \<open>
  Shared ground of the development: the faults a C++ operation can end in, the
  result type and its bind, unsigned 32-bit counters with their wrap-around
  written out, C strings read through a suffix, and the list facts the
  components share.
\<close>

section \<open>Faults and results\<close>

text \<open>
  \<open>Assert_failed\<close> is a failed \<open>GGML_ASSERT\<close>, \<open>Abort\<close> a \<open>GGML_ABORT\<close>, the next four
  are C++ exceptions with the leading part of their message, \<open>Out_of_bounds\<close> and
  \<open>Div_by_zero\<close> stand for undefined behaviour the model makes visible, and
  \<open>Out_of_fuel\<close> says that the recursion bound given to the model was too small.
\<close>

datatype fault =
    Assert_failed
  | Abort
  | Runtime_error string
  | Invalid_argument string
  | Out_of_range string
  | Length_error string
  | Out_of_bounds
  | Div_by_zero
  | Out_of_fuel

type_synonym 'a res = "fault + 'a"

named_theorems res_intro \<open>introduction rules for results\<close>
named_theorems kv_defs \<open>definitions of the KV cache operations\<close>

fun rbind :: "'a res \<Rightarrow> ('a \<Rightarrow> 'b res) \<Rightarrow> 'b res" where
  "rbind (Inl e) f = Inl e"
| "rbind (Inr x) f = f x"

lemma rbind_cong [fundef_cong]:
  "m = m' \<Longrightarrow> (\<And>x. m' = Inr x \<Longrightarrow> f x = f' x) \<Longrightarrow> rbind m f = rbind m' f'"
  by (cases m') auto

lemma rbind_Inr_iff: "rbind m f = Inr y \<longleftrightarrow> (\<exists>x. m = Inr x \<and> f x = Inr y)"
  by (cases m) auto

lemma rbind_Inl_iff:
  "rbind m f = Inl e \<longleftrightarrow> m = Inl e \<or> (\<exists>x. m = Inr x \<and> f x = Inl e)"
  by (cases m) auto

lemma rbind_InrE [elim!]:
  assumes "rbind m f = Inr y"
  obtains x where "m = Inr x" and "f x = Inr y"
  using assms by (auto simp: rbind_Inr_iff)

lemma rbind_assoc: "rbind (rbind m f) g = rbind m (\<lambda>x. rbind (f x) g)"
  by (cases m) auto

definition guard :: "bool \<Rightarrow> fault \<Rightarrow> unit res" where
  "guard b e = (if b then Inr () else Inl e)"

lemma guard_Inr [simp]: "guard b e = Inr u \<longleftrightarrow> b"
  by (simp add: guard_def)

lemma guard_True [simp]: "guard True e = Inr ()"
  by (simp add: guard_def)

lemma guard_False [simp]: "guard False e = Inl e"
  by (simp add: guard_def)

text \<open>A fold that stops at the first fault: the shape of a C++ loop whose body may throw.\<close>

fun rfold :: "('a \<Rightarrow> 'b \<Rightarrow> 'b res) \<Rightarrow> 'a list \<Rightarrow> 'b \<Rightarrow> 'b res" where
  "rfold f [] s = Inr s"
| "rfold f (x # xs) s = rbind (f x s) (rfold f xs)"

lemma rfold_append: "rfold f (xs @ ys) s = rbind (rfold f xs s) (rfold f ys)"
proof (induction xs arbitrary: s)
  case (Cons x xs)
  then show ?case by (cases "f x s") auto
qed simp

lemma rfold_invariant:
  assumes "rfold f xs s = Inr t" "P s"
    and "\<And>x s t. x \<in> set xs \<Longrightarrow> P s \<Longrightarrow> f x s = Inr t \<Longrightarrow> P t"
  shows "P t"
  using assms by (induction xs arbitrary: s) auto

section \<open>Unsigned 32-bit counters\<close>

text \<open>
  A \<open>uint32_t\<close> counter is a natural number below \<open>2 ^ 32\<close>; every addition and
  subtraction of the source is written with the wrap-around of the type.
\<close>

definition u32_max1 :: nat where
  "u32_max1 = 4294967296"

definition u32_add :: "nat \<Rightarrow> nat \<Rightarrow> nat" where
  "u32_add a b = (a + b) mod u32_max1"

definition u32_sub :: "nat \<Rightarrow> nat \<Rightarrow> nat" where
  "u32_sub a b = (a + (u32_max1 - b mod u32_max1)) mod u32_max1"

lemma u32_add_exact [simp]: "a + b < u32_max1 \<Longrightarrow> u32_add a b = a + b"
  by (simp add: u32_add_def)

lemma u32_sub_exact [simp]:
  assumes "b \<le> a" "a < u32_max1"
  shows "u32_sub a b = a - b"
proof -
  have "a + (u32_max1 - b mod u32_max1) = (a - b) + u32_max1"
    using assms by simp
  then have "u32_sub a b = ((a - b) + u32_max1) mod u32_max1"
    by (simp only: u32_sub_def)
  also have "\<dots> = (a - b) mod u32_max1"
    by (rule mod_add_self2)
  also have "\<dots> = a - b"
    using assms by simp
  finally show ?thesis .
qed

lemma u32_sub_wraps: "u32_sub 0 1 = 4294967295"
  by (simp add: u32_sub_def u32_max1_def)

text \<open>C++ integer division truncates towards zero.\<close>

definition c_div :: "int \<Rightarrow> int \<Rightarrow> int" where
  "c_div a b = sgn a * sgn b * (\<bar>a\<bar> div \<bar>b\<bar>)"

lemma c_div_nonneg: "0 \<le> a \<Longrightarrow> 0 < b \<Longrightarrow> c_div a b = a div b"
  by (cases "a = 0") (auto simp: c_div_def)

definition int32_max :: int where
  "int32_max = 2147483647"

section \<open>Vectors\<close>

text \<open>\<open>std::vector::resize\<close>: truncate, or pad with the default element.\<close>

definition vec_resize :: "'a list \<Rightarrow> nat \<Rightarrow> 'a \<Rightarrow> 'a list" where
  "vec_resize xs n d = take n xs @ replicate (n - length xs) d"

lemma length_vec_resize [simp]: "length (vec_resize xs n d) = n"
  by (simp add: vec_resize_def)

lemma vec_resize_le: "n \<le> length xs \<Longrightarrow> vec_resize xs n d = take n xs"
  by (simp add: vec_resize_def)

definition count_if :: "('a \<Rightarrow> bool) \<Rightarrow> 'a list \<Rightarrow> nat" where
  "count_if P xs = length (filter P xs)"

lemma count_if_Nil [simp]: "count_if P [] = 0"
  by (simp add: count_if_def)

lemma count_if_Cons [simp]:
  "count_if P (x # xs) = (if P x then Suc (count_if P xs) else count_if P xs)"
  by (simp add: count_if_def)

lemma count_if_append [simp]: "count_if P (xs @ ys) = count_if P xs + count_if P ys"
  by (simp add: count_if_def)

lemma count_if_le_length: "count_if P xs \<le> length xs"
  by (simp add: count_if_def)

lemma count_if_pos: "x \<in> set xs \<Longrightarrow> P x \<Longrightarrow> 0 < count_if P xs"
  by (induction xs) auto

lemma count_if_0_iff: "count_if P xs = 0 \<longleftrightarrow> (\<forall>x \<in> set xs. \<not> P x)"
  by (induction xs) auto

lemma count_if_update:
  assumes "i < length xs"
  shows "count_if P (xs[i := y]) + (if P (xs ! i) then 1 else 0)
    = count_if P xs + (if P y then 1 else 0)"
  using assms
proof (induction xs arbitrary: i)
  case (Cons x xs)
  then show ?case by (cases i) auto
qed simp

lemma find_upt_None: "find P [0..<n] = None \<longleftrightarrow> (\<forall>i<n. \<not> P i)"
  by (auto simp: find_None_iff)

lemma find_upt_Some:
  assumes "find P [0..<n] = Some i"
  shows "i < n" "P i" "\<forall>j<i. \<not> P j"
  using assms by (auto simp: find_Some_iff)

section \<open>C strings\<close>

text \<open>
  A \<open>const char *\<close> is the suffix of the text it points at; reading at or past the
  end gives the terminating NUL.
\<close>

fun peek :: "char list \<Rightarrow> char" where
  "peek [] = CHR 0x00"
| "peek (c # _) = c"

definition peek1 :: "char list \<Rightarrow> char" where
  "peek1 s = peek (drop 1 s)"

definition nul :: char where
  "nul = CHR 0x00"

lemma peek_not_nul: "peek s \<noteq> nul \<Longrightarrow> \<exists>c r. s = c # r"
  by (cases s) (auto simp: nul_def)

end
