(* ===== verification/Batch.thy ===== *)
theory Batch
  imports Prelude
begin

text \<open>
  The batch component, \<^verbatim>\<open>src/llama-batch.h\<close> and \<^verbatim>\<open>src/llama-batch.cpp\<close>: the user's batch,
  the micro-batch handed to the model, and the sequence-aware splitter between
  them.  A nullable array is an option of a list; a pointer into the user's batch
  is the suffix it points at.  The type variable \<open>'e\<close> is one embedding row, the
  \<open>n_embd\<close> floats a \<open>memcpy\<close> of the code moves at once.
\<close>

section \<open>Batches\<close>

record 'e llama_batch =
  b_n_tokens :: int
  b_token :: "int list option"
  b_embd :: "'e list option"
  b_pos :: "int list option"
  b_n_seq_id :: "int list option"
  b_seq_id :: "int list list option"
  b_logits :: "int list option"

record 'e llama_ubatch =
  ub_equal_seqs :: bool
  ub_n_tokens :: nat
  ub_n_seq_tokens :: nat
  ub_n_seqs :: nat
  ub_token :: "int list option"
  ub_embd :: "'e list option"
  ub_pos :: "int list"
  ub_n_seq_id :: "int list"
  ub_seq_id :: "int list list"
  ub_output :: "int list"


text \<open>
  \<open>sbatch\<close>: the tokens left, the token order, the output order, and the sequences with
  the range of that order each still owns.  \<open>n_embd\<close> is absorbed by the row type.
\<close>

record llama_sbatch_seq =
  q_n_seq_id :: int
  q_seq_id :: "int list option"
  q_offset :: nat
  q_length :: nat

record 'e llama_sbatch =
  sb_n_tokens :: nat
  sb_logits_all :: bool
  sb_ids :: "nat list"
  sb_out_ids :: "nat list"
  sb_seq :: "llama_sbatch_seq list"
  sb_batch :: "'e llama_batch option"

section \<open>Reserving a micro-batch\<close>

text \<open>\<open>pop_back\<close> while the last sequence is exhausted.\<close>

definition pop_empty :: "llama_sbatch_seq list \<Rightarrow> llama_sbatch_seq list" where
  "pop_empty qs = rev (dropWhile (\<lambda>q. q_length q = 0) (rev qs))"

text \<open>
  The buffers are shown zero-filled after \<open>resize\<close>; the stale entries the vectors may
  keep from the previous micro-batch are overwritten before \<open>n_tokens\<close> covers them.
\<close>

definition reserve_ubatch ::
    "'e::zero llama_sbatch \<Rightarrow> nat \<Rightarrow> bool \<Rightarrow> 'e llama_sbatch \<times> 'e llama_ubatch" where
  "reserve_ubatch sb n has_embd =
     (sb\<lparr>sb_seq := pop_empty (sb_seq sb)\<rparr>,
      \<lparr>ub_equal_seqs = True, ub_n_tokens = 0, ub_n_seq_tokens = 0, ub_n_seqs = 0,
       ub_token = (if has_embd then None else Some (vec_resize [] n 0)),
       ub_embd = (if has_embd then Some (vec_resize [] n 0) else None),
       ub_pos = vec_resize [] n 0, ub_n_seq_id = vec_resize [] n 0,
       ub_seq_id = vec_resize [] n [], ub_output = vec_resize [] n 0\<rparr>)"

section \<open>Adding a sequence\<close>

text \<open>\<open>for (i = 0; i < n; ++i) dst[base + i] = f(i)\<close>\<close>

definition write_loop :: "'a list \<Rightarrow> nat \<Rightarrow> (nat \<Rightarrow> 'a) \<Rightarrow> nat \<Rightarrow> 'a list" where
  "write_loop dst base f n = fold (\<lambda>i xs. xs[base + i := f i]) [0..<n] dst"

text \<open>The token indices the first \<open>len\<close> slots of a sequence's range stand for.\<close>

definition seq_ids_of :: "nat list \<Rightarrow> llama_sbatch_seq \<Rightarrow> nat \<Rightarrow> nat list" where
  "seq_ids_of ids q len = map (\<lambda>i. ids ! (q_offset q + i)) [0..<len]"

text \<open>
  One payload array (\<open>token\<close> or \<open>embd\<close>): gathered through \<open>ids\<close> for equal splits,
  aliased into the batch for simple ones, \<open>nullptr\<close> when the batch has none.  Gathering
  into a buffer that \<open>reserve_ubatch\<close> left null is the null write it is in the code.
\<close>

definition gather_payload ::
    "bool \<Rightarrow> 'a list option \<Rightarrow> 'a list option \<Rightarrow> nat list \<Rightarrow> llama_sbatch_seq \<Rightarrow> nat \<Rightarrow> nat
      \<Rightarrow> 'a list option res" where
  "gather_payload equal_seqs src dst ids q base len =
     (case src of
       None \<Rightarrow> Inr None
     | Some xs \<Rightarrow>
         if equal_seqs
         then (case dst of
             None \<Rightarrow> if len = 0 then Inr None else Inl Out_of_bounds
           | Some d \<Rightarrow> Inr (Some (write_loop d base (\<lambda>i. xs ! (ids ! (q_offset q + i))) len)))
         else Inr (Some (drop (q_offset q) xs)))"

definition gather_pos ::
    "bool \<Rightarrow> int list \<Rightarrow> int list \<Rightarrow> nat list \<Rightarrow> llama_sbatch_seq \<Rightarrow> nat \<Rightarrow> nat \<Rightarrow> int list" where
  "gather_pos equal_seqs xs dst ids q base len =
     (if equal_seqs then write_loop dst base (\<lambda>i. xs ! (ids ! (q_offset q + i))) len
      else drop (q_offset q) xs)"

text \<open>The \<open>output\<close> flags and \<open>out_ids\<close>: all, as flagged by the batch, or only the last token.\<close>

definition gather_output ::
    "'e llama_sbatch \<Rightarrow> 'e llama_batch \<Rightarrow> 'e llama_ubatch \<Rightarrow> llama_sbatch_seq \<Rightarrow> nat
      \<Rightarrow> int list \<times> nat list" where
  "gather_output sb b ub q len =
     (let ids = sb_ids sb; base = ub_n_tokens ub; mine = seq_ids_of ids q len in
      if sb_logits_all sb
      then (write_loop (ub_output ub) base (\<lambda>_. 1) len, sb_out_ids sb @ mine)
      else case b_logits b of
        Some lg \<Rightarrow>
          if ub_equal_seqs ub
          then (write_loop (ub_output ub) base (\<lambda>i. lg ! (ids ! (q_offset q + i))) len,
                sb_out_ids sb @ filter (\<lambda>t. lg ! t \<noteq> 0) mine)
          else let out = drop (q_offset q) lg
               in (out, sb_out_ids sb @ map (\<lambda>i. q_offset q + i) (filter (\<lambda>i. out ! i \<noteq> 0) [0..<len]))
      | None \<Rightarrow>
          (write_loop (ub_output ub) base
             (\<lambda>i. if ids ! (q_offset q + i) = length ids - 1 then 1 else 0) len,
           sb_out_ids sb @ filter (\<lambda>t. t = length ids - 1) mine))"

text \<open>
  The accesses of the loops that gather into the reserved buffers stay inside them and
  inside \<open>ids\<close>; outside, the code has undefined behaviour, which is \<open>Out_of_bounds\<close> here.
\<close>

definition gather_in_bounds ::
    "'e llama_sbatch \<Rightarrow> 'e llama_batch \<Rightarrow> 'e llama_ubatch \<Rightarrow> llama_sbatch_seq \<Rightarrow> nat \<Rightarrow> bool" where
  "gather_in_bounds sb b ub q len =
     ((ub_equal_seqs ub \<or> sb_logits_all sb \<or> b_logits b = None \<longrightarrow>
         q_offset q + len \<le> length (sb_ids sb) \<and> ub_n_tokens ub + len \<le> length (ub_output ub)) \<and>
      (ub_equal_seqs ub \<longrightarrow> ub_n_tokens ub + len \<le> length (ub_pos ub) \<and>
         ub_n_seqs ub < length (ub_n_seq_id ub)))"

text \<open>A missing \<open>pos\<close> array is a null pointer the code would read: \<open>Out_of_bounds\<close>.\<close>

definition add_seq_to_ubatch ::
    "'e::zero llama_sbatch \<Rightarrow> 'e llama_ubatch \<Rightarrow> nat \<Rightarrow> nat
      \<Rightarrow> ('e llama_sbatch \<times> 'e llama_ubatch) res" where
  "add_seq_to_ubatch sb ub qi len =
     (let q = sb_seq sb ! qi; eq = ub_equal_seqs ub; base = ub_n_tokens ub in
      case sb_batch sb of
        None \<Rightarrow> Inl Assert_failed
      | Some b \<Rightarrow>
      rbind (guard (len \<le> q_length q) Assert_failed) (\<lambda>_.
      rbind (guard (q_n_seq_id q = 0 \<or> ub_n_seqs ub = 0 \<or> len = ub_n_tokens ub div ub_n_seqs ub)
               Assert_failed) (\<lambda>_.
      rbind (guard ((q_n_seq_id q \<noteq> 0) = eq) Assert_failed) (\<lambda>_.
      case b_pos b of
        None \<Rightarrow> Inl Out_of_bounds
      | Some ps \<Rightarrow>
      rbind (guard (gather_in_bounds sb b ub q len) Out_of_bounds) (\<lambda>_.
      rbind (gather_payload eq (b_token b) (ub_token ub) (sb_ids sb) q base len) (\<lambda>tok.
      rbind (gather_payload eq (b_embd b) (ub_embd ub) (sb_ids sb) q base len) (\<lambda>emb.
        let out = gather_output sb b ub q len;
            ub1 = ub\<lparr>
              ub_token := tok,
              ub_embd := emb,
              ub_pos := gather_pos eq ps (ub_pos ub) (sb_ids sb) q base len,
              ub_n_seq_id :=
                (if eq then (ub_n_seq_id ub)[ub_n_seqs ub := q_n_seq_id q]
                 else case b_n_seq_id b of
                   Some ns \<Rightarrow> drop (q_offset q) ns
                 | None \<Rightarrow> write_loop (ub_n_seq_id ub) (ub_n_seqs ub) (\<lambda>_. 1) len),
              ub_seq_id :=
                (if eq then
                   (case q_seq_id q of
                      Some s \<Rightarrow> (ub_seq_id ub)[ub_n_seqs ub := s] | None \<Rightarrow> ub_seq_id ub)
                 else case b_seq_id b of
                   Some ss \<Rightarrow> drop (q_offset q) ss | None \<Rightarrow> ub_seq_id ub),
              ub_output := fst out,
              ub_n_seq_tokens :=
                (if ub_n_tokens ub = 0 \<and> ub_n_seqs ub = 0 then (if eq then len else 1)
                 else ub_n_seq_tokens ub),
              ub_n_tokens := ub_n_tokens ub + len,
              ub_n_seqs := ub_n_seqs ub + (if eq then 1 else len)\<rparr>;
            sb1 = sb\<lparr>sb_out_ids := snd out,
              sb_seq := (sb_seq sb)[qi := q\<lparr>q_offset := q_offset q + len,
                                            q_length := q_length q - len\<rparr>],
              sb_n_tokens := sb_n_tokens sb - len\<rparr>
        in rbind (guard (ub_n_tokens ub1 = ub_n_seq_tokens ub1 * ub_n_seqs ub1) Assert_failed)
             (\<lambda>_. Inr (sb1, ub1)))))))))"

section \<open>Splitting\<close>

text \<open>\<open>batch->embd != nullptr\<close>, read before anything else: a missing batch is a null access.\<close>

definition has_embd :: "'e llama_sbatch \<Rightarrow> bool res" where
  "has_embd sb =
     (case sb_batch sb of None \<Rightarrow> Inl Out_of_bounds | Some b \<Rightarrow> Inr (b_embd b \<noteq> None))"

definition split_simple ::
    "'e::zero llama_sbatch \<Rightarrow> nat \<Rightarrow> ('e llama_sbatch \<times> 'e llama_ubatch) res" where
  "split_simple sb n_ubatch =
     rbind (has_embd sb) (\<lambda>e.
     let n = min (sb_n_tokens sb) n_ubatch;
         (sb, ub) = reserve_ubatch sb n e;
          ub = ub\<lparr>ub_equal_seqs := False\<rparr>
      in if sb_seq sb \<noteq> [] then
           let s = sb_seq sb ! 0 in
           rbind (guard (length (sb_seq sb) = 1 \<and> q_n_seq_id s = 0) Assert_failed) (\<lambda>_.
             add_seq_to_ubatch sb ub 0 (min (q_length s) n))
         else Inr (sb, ub))"

text \<open>The loop of \<open>split_equal\<close>, from sequence \<open>i - 1\<close> down: \<open>len\<close> is 0 until the first turn.\<close>

fun equal_loop ::
    "nat \<Rightarrow> nat \<Rightarrow> nat \<Rightarrow> nat \<Rightarrow> 'e::zero llama_sbatch \<Rightarrow> 'e llama_ubatch
      \<Rightarrow> ('e llama_sbatch \<times> 'e llama_ubatch) res" where
  "equal_loop n 0 len tot sb ub = Inr (sb, ub)"
| "equal_loop n (Suc i) len tot sb ub =
     (let s = sb_seq sb ! i in
      rbind (guard (0 < q_length s) Assert_failed) (\<lambda>_.
      let len = (if len = 0 then min (q_length s) n else len) in
      rbind (add_seq_to_ubatch sb ub i len) (\<lambda>(sb, ub).
      let tot = tot + len in
      if 1 < q_n_seq_id s then Inr (sb, ub)
      else if n < len + tot then Inr (sb, ub)
      else equal_loop n i len tot sb ub)))"

definition split_equal ::
    "'e::zero llama_sbatch \<Rightarrow> nat \<Rightarrow> ('e llama_sbatch \<times> 'e llama_ubatch) res" where
  "split_equal sb n_ubatch =
     rbind (has_embd sb) (\<lambda>e.
     let n = min (sb_n_tokens sb) n_ubatch;
         (sb, ub) = reserve_ubatch sb n e
      in if sb_seq sb \<noteq> [] then
           rbind (guard (0 < q_n_seq_id (sb_seq sb ! 0)) Assert_failed) (\<lambda>_.
             equal_loop n (length (sb_seq sb)) 0 0 sb ub)
         else Inr (sb, ub))"

definition split_seq ::
    "'e::zero llama_sbatch \<Rightarrow> nat \<Rightarrow> ('e llama_sbatch \<times> 'e llama_ubatch) res" where
  "split_seq sb n_ubatch =
     rbind (has_embd sb) (\<lambda>e.
     let n = min (sb_n_tokens sb) n_ubatch;
         (sb, ub) = reserve_ubatch sb n e
      in if sb_seq sb \<noteq> [] then
           let i = length (sb_seq sb) - 1; s = sb_seq sb ! i in
           rbind (guard (0 < q_n_seq_id s) Assert_failed) (\<lambda>_.
             add_seq_to_ubatch sb ub i (min (q_length s) n))
         else Inr (sb, ub))"

text \<open>
  The loop of \<open>llama_decode_impl\<close> and \<open>llama_encode_impl\<close> that takes micro-batches
  until no token is left; it may not end, and then has no value.
\<close>

partial_function (option) split_all ::
    "('e llama_sbatch \<Rightarrow> nat \<Rightarrow> ('e llama_sbatch \<times> 'e llama_ubatch) res) \<Rightarrow> 'e llama_sbatch
      \<Rightarrow> nat \<Rightarrow> ('e llama_sbatch \<times> 'e llama_ubatch list) res option" where
  "split_all split sb n =
     (if sb_n_tokens sb = 0 then Some (Inr (sb, []))
      else case split sb n of
        Inl e \<Rightarrow> Some (Inl e)
      | Inr (sb', ub) \<Rightarrow>
          Option.bind (split_all split sb' n)
            (\<lambda>r. Some (rbind r (\<lambda>(sb'', ubs). Inr (sb'', ub # ubs)))))"

declare split_all.simps [code]

section \<open>Loading a batch\<close>

text \<open>
  \<open>std::sort\<close> as a stable insertion sort; C++ leaves the order of equivalent elements
  open, and no property below depends on it.
\<close>

fun sort_insert :: "('a \<Rightarrow> 'a \<Rightarrow> bool) \<Rightarrow> 'a \<Rightarrow> 'a list \<Rightarrow> 'a list" where
  "sort_insert lt x [] = [x]"
| "sort_insert lt x (y # ys) = (if lt x y then x # y # ys else y # sort_insert lt x ys)"

definition std_sort :: "('a \<Rightarrow> 'a \<Rightarrow> bool) \<Rightarrow> 'a list \<Rightarrow> 'a list" where
  "std_sort lt xs = fold (sort_insert lt) xs []"

text \<open>The first index below \<open>n\<close> where two id lists differ decides; \<open>None\<close> if none does.\<close>

definition ids_differ :: "nat \<Rightarrow> int list \<Rightarrow> int list \<Rightarrow> bool option" where
  "ids_differ n xs ys =
     map_option (\<lambda>i. xs ! i < ys ! i) (find (\<lambda>i. xs ! i \<noteq> ys ! i) [0..<n])"

definition batch_n_seq :: "'e llama_batch \<Rightarrow> nat \<Rightarrow> int" where
  "batch_n_seq b a = (case b_n_seq_id b of Some ns \<Rightarrow> ns ! a | None \<Rightarrow> 1)"

definition ids_less :: "'e llama_batch \<Rightarrow> nat \<Rightarrow> nat \<Rightarrow> bool" where
  "ids_less b x y =
     (if batch_n_seq b x = batch_n_seq b y then
        case (case b_seq_id b of
                Some ss \<Rightarrow> ids_differ (nat (batch_n_seq b x)) (ss ! x) (ss ! y) | None \<Rightarrow> None) of
          Some r \<Rightarrow> r
        | None \<Rightarrow> (case b_pos b of Some ps \<Rightarrow> ps ! x < ps ! y | None \<Rightarrow> x < y)
      else batch_n_seq b y < batch_n_seq b x)"

definition seq_less :: "llama_sbatch_seq \<Rightarrow> llama_sbatch_seq \<Rightarrow> bool" where
  "seq_less x y =
     (if q_n_seq_id x = q_n_seq_id y then q_length y < q_length x
      else q_n_seq_id x < q_n_seq_id y)"

text \<open>
  One turn of "init seq": token \<open>bi\<close> at place \<open>i\<close> extends the last sequence when it has
  the same sequence ids, and opens a new one otherwise.  \<open>fresh\<close> counts the sequences
  this call has pushed (\<open>last_seq\<close> is null before the first).
\<close>

definition same_seq :: "int \<Rightarrow> int list \<Rightarrow> llama_sbatch_seq \<Rightarrow> bool" where
  "same_seq n ids q = (n = q_n_seq_id q \<and>
     (case q_seq_id q of None \<Rightarrow> n \<le> 0
      | Some js \<Rightarrow> list_all (\<lambda>j. ids ! j = js ! j) [0..<nat n]))"

fun group_seqs ::
    "int list \<Rightarrow> int list list \<Rightarrow> nat \<Rightarrow> nat list \<Rightarrow> bool \<Rightarrow> llama_sbatch_seq list
      \<Rightarrow> llama_sbatch_seq list" where
  "group_seqs ns ss i [] fresh qs = qs"
| "group_seqs ns ss i (bi # bis) fresh qs =
     (if fresh \<and> same_seq (ns ! bi) (ss ! bi) (last qs)
      then group_seqs ns ss (Suc i) bis True
             (butlast qs @ [(last qs)\<lparr>q_length := q_length (last qs) + 1\<rparr>])
      else group_seqs ns ss (Suc i) bis True
             (qs @ [\<lparr>q_n_seq_id = ns ! bi, q_seq_id = Some (ss ! bi), q_offset = i, q_length = 1\<rparr>]))"

definition from_batch ::
    "'e llama_sbatch \<Rightarrow> 'e llama_batch \<Rightarrow> bool \<Rightarrow> bool \<Rightarrow> 'e llama_sbatch res" where
  "from_batch sb b simple_split logits_all =
     rbind (guard (0 \<le> b_n_tokens b) Assert_failed) (\<lambda>_.
     let n = nat (b_n_tokens b);
         sb = sb\<lparr>sb_batch := Some b, sb_logits_all := logits_all, sb_n_tokens := n,
                 sb_ids := [0..<n], sb_out_ids := []\<rparr>
     in if simple_split
        then Inr (sb\<lparr>sb_seq := [\<lparr>q_n_seq_id = 0, q_seq_id = None, q_offset = 0, q_length = n\<rparr>]\<rparr>)
        else let ids = std_sort (ids_less b) (sb_ids sb) in
          if n = 0 then Inr (sb\<lparr>sb_ids := ids, sb_seq := std_sort seq_less (sb_seq sb)\<rparr>)
          else case (b_n_seq_id b, b_seq_id b) of
            (Some ns, Some ss) \<Rightarrow>
              Inr (sb\<lparr>sb_ids := ids,
                      sb_seq := std_sort seq_less (group_seqs ns ss 0 ids False (sb_seq sb))\<rparr>)
          | _ \<Rightarrow> Inl Out_of_bounds)"

section \<open>The allocator and the one-sequence batch\<close>

definition llama_batch_get_one :: "int list \<Rightarrow> int \<Rightarrow> 'e llama_batch" where
  "llama_batch_get_one tokens n =
     \<lparr>b_n_tokens = n, b_token = Some tokens, b_embd = None, b_pos = None, b_n_seq_id = None,
      b_seq_id = None, b_logits = None\<rparr>"

definition batch_allocr :: "'e llama_batch \<Rightarrow> int \<Rightarrow> 'e llama_batch res" where
  "batch_allocr b p0 =
     rbind (guard (0 < b_n_tokens b) Assert_failed) (\<lambda>_.
     let n = nat (b_n_tokens b) in
     Inr (b\<lparr>b_pos := (case b_pos b of None \<Rightarrow> Some (map (\<lambda>i. int i + p0) [0..<n]) | p \<Rightarrow> p),
            b_n_seq_id := (case b_n_seq_id b of None \<Rightarrow> Some (replicate n 1) | x \<Rightarrow> x),
            b_seq_id := (case b_seq_id b of None \<Rightarrow> Some (replicate n [0]) | x \<Rightarrow> x),
            b_logits := (case b_logits b of
               None \<Rightarrow> Some ((replicate n 0)[n - 1 := 1]) | x \<Rightarrow> x)\<rparr>))"

end
