(* ===== verification/KvCache.thy ===== *)
theory KvCache
  imports Batch
begin

text \<open>
  The key-value cache, \<^verbatim>\<open>src/llama-kv-cache.h\<close> and \<^verbatim>\<open>src/llama-kv-cache.cpp\<close>: the
  metadata of the cells (position, sequence set, shift, recurrent tail), the slot
  search, and the sequence operations.  The tensors behind the cells are not modelled.
  The vector \<open>cells\<close> is the list of cells, created with \<open>size\<close> entries by
  \<open>llama_kv_cache_init\<close> and never resized; a loop over \<open>i < size\<close> is a sweep over
  that list.  Positions and sequence ids are mathematical integers: the code's
  \<open>int32_t\<close> arithmetic on them is defined only where it does not overflow.
\<close>

section \<open>Cells and the cache\<close>

record llama_kv_cell =
  c_pos :: int
  c_delta :: int
  c_src :: int
  c_tail :: int
  c_seq_id :: "int set"

definition empty_cell :: llama_kv_cell where
  "empty_cell = \<lparr>c_pos = -1, c_delta = 0, c_src = -1, c_tail = -1, c_seq_id = {}\<rparr>"

definition has_seq_id :: "llama_kv_cell \<Rightarrow> int \<Rightarrow> bool" where
  "has_seq_id c s \<longleftrightarrow> s \<in> c_seq_id c"

definition is_empty_cell :: "llama_kv_cell \<Rightarrow> bool" where
  "is_empty_cell c \<longleftrightarrow> c_seq_id c = {}"

definition is_same_seq :: "llama_kv_cell \<Rightarrow> llama_kv_cell \<Rightarrow> bool" where
  "is_same_seq c d \<longleftrightarrow> c_seq_id c = c_seq_id d"

record llama_kv_cache =
  has_shift :: bool
  do_defrag :: bool
  recurrent :: bool
  v_trans :: bool
  can_shift :: bool
  head :: nat
  kv_size :: nat
  used :: nat
  kv_n :: nat
  cells :: "llama_kv_cell list"

definition kv_max_pos :: "llama_kv_cache \<Rightarrow> int" where
  "kv_max_pos kv = fold (\<lambda>c m. max m (c_pos c)) (cells kv) (-1)"

definition llama_kv_cache_get_padding :: "bool \<Rightarrow> nat" where
  "llama_kv_cache_get_padding flash_attn = (if flash_attn then 256 else 32)"

text \<open>
  \<open>alloc_ok\<close> is the outcome of creating the contexts and buffers of the K and V
  tensors, which belong to ggml.
\<close>

definition llama_kv_cache_init ::
    "llama_kv_cache \<Rightarrow> bool \<Rightarrow> bool \<Rightarrow> bool \<Rightarrow> nat \<Rightarrow> bool \<Rightarrow> bool \<times> llama_kv_cache" where
  "llama_kv_cache_init kv model_recurrent arch_deepseek2 flash_attn sz alloc_ok =
     (alloc_ok,
      kv\<lparr>has_shift := False,
         recurrent := model_recurrent,
         v_trans := \<not> model_recurrent \<and> \<not> flash_attn,
         can_shift := \<not> model_recurrent \<and> \<not> arch_deepseek2,
         head := 0, kv_size := sz, used := 0,
         cells := replicate sz empty_cell\<rparr>)"

record slot_info =
  boundaries :: "nat \<times> nat"
  found :: bool

definition slot_flag :: "bool \<Rightarrow> slot_info" where
  "slot_flag b = \<lparr>boundaries = (0, 0), found = b\<rparr>"

definition slot_range :: "nat \<Rightarrow> nat \<Rightarrow> slot_info" where
  "slot_range b e = \<lparr>boundaries = (b, e), found = True\<rparr>"

section \<open>Finding a slot\<close>

subsection \<open>Attention caches: one cell per token\<close>

text \<open>
  The first cell of the window \<open>[h, h + n)\<close> that is taken, as an offset from \<open>h\<close>.
\<close>

definition first_taken :: "llama_kv_cell list \<Rightarrow> nat \<Rightarrow> nat \<Rightarrow> nat option" where
  "first_taken cs h n = find (\<lambda>i. 0 \<le> c_pos (cs ! (h + i))) [0..<n]"

text \<open>
  The \<open>while (true)\<close> search over \<open>(head, n_tested)\<close>: the value is the last head and
  whether a window was found; \<open>None\<close> is a search that does not end.
\<close>

partial_function (option) find_window ::
    "llama_kv_cell list \<Rightarrow> nat \<Rightarrow> nat \<Rightarrow> nat \<Rightarrow> nat \<Rightarrow> (nat \<times> bool) option" where
  "find_window cs sz n h tested =
     (if sz < u32_add h n
      then find_window cs sz n 0 (u32_add tested (u32_sub sz h))
      else case first_taken cs h n of
        None \<Rightarrow> Some (h, True)
      | Some i \<Rightarrow>
          (if sz \<le> u32_add tested (i + 1)
           then Some (u32_add h (i + 1), False)
           else find_window cs sz n (u32_add h (i + 1)) (u32_add tested (i + 1))))"

declare find_window.simps [code]

definition place_token ::
    "'e llama_ubatch \<Rightarrow> nat \<Rightarrow> nat \<Rightarrow> nat \<Rightarrow> llama_kv_cell list \<Rightarrow> llama_kv_cell list" where
  "place_token ub h s k cs =
     cs[h + k := (cs ! (h + k))\<lparr>c_pos := ub_pos ub ! k,
        c_seq_id := c_seq_id (cs ! (h + k)) \<union>
          set (take (nat (ub_n_seq_id ub ! s)) (ub_seq_id ub ! s))\<rparr>]"

definition place_seq ::
    "'e llama_ubatch \<Rightarrow> nat \<Rightarrow> nat \<Rightarrow> llama_kv_cell list \<Rightarrow> llama_kv_cell list" where
  "place_seq ub h s cs =
     fold (\<lambda>i. place_token ub h s (s * ub_n_seq_tokens ub + i)) [0..<ub_n_seq_tokens ub] cs"

definition place_ubatch ::
    "'e llama_ubatch \<Rightarrow> nat \<Rightarrow> llama_kv_cell list \<Rightarrow> llama_kv_cell list" where
  "place_ubatch ub h cs = fold (place_seq ub h) [0..<ub_n_seqs ub] cs"

definition find_slot_attn ::
    "llama_kv_cache \<Rightarrow> 'e llama_ubatch \<Rightarrow> (llama_kv_cache \<times> slot_info) option" where
  "find_slot_attn kv ub =
     (let n = ub_n_tokens ub in
      if kv_size kv < n then Some (kv, slot_flag False)
      else case find_window (cells kv) (kv_size kv) n (head kv) 0 of
        None \<Rightarrow> None
      | Some (h, False) \<Rightarrow> Some (kv\<lparr>head := h\<rparr>, slot_flag False)
      | Some (h, True) \<Rightarrow>
          Some (kv\<lparr>head := h, cells := place_ubatch ub h (cells kv), used := u32_add (used kv) n\<rparr>,
                slot_range h (h + n)))"


subsection \<open>Recurrent caches: one cell per sequence\<close>

text \<open>
  The first loop of the recurrent branch: every sequence id must fit the cache, and a
  sequence that becomes shared (\<open>j > 0\<close>) gives up the cell it owned.
\<close>

definition unshare_seq ::
    "llama_kv_cell list \<times> nat \<Rightarrow> int \<Rightarrow> llama_kv_cell list \<times> nat" where
  "unshare_seq st s =
     (let cs = fst st; u = snd st; t = c_tail (cs ! nat s) in
      if 0 \<le> t then
        let cs1 = cs[nat t := (cs ! nat t)\<lparr>c_seq_id := c_seq_id (cs ! nat t) - {s}\<rparr>];
            cs2 = cs1[nat s := (cs1 ! nat s)\<lparr>c_tail := -1\<rparr>]
        in if is_empty_cell (cs2 ! nat t)
           then (cs2[nat t := (cs2 ! nat t)\<lparr>c_pos := -1, c_src := -1\<rparr>], u32_sub u 1)
           else (cs2, u)
      else (cs, u))"

fun check_seq_ids ::
    "nat \<Rightarrow> (nat \<times> int) list \<Rightarrow> llama_kv_cell list \<times> nat \<Rightarrow> bool \<times> llama_kv_cell list \<times> nat" where
  "check_seq_ids sz [] st = (True, st)"
| "check_seq_ids sz ((j, s) # xs) st =
     (if s < 0 \<or> int sz \<le> s then (False, st)
      else check_seq_ids sz xs (if 0 < j then unshare_seq st s else st))"

definition ubatch_seq_ids :: "'e llama_ubatch \<Rightarrow> (nat \<times> int) list" where
  "ubatch_seq_ids ub =
     concat (map (\<lambda>s. map (\<lambda>j. (j, ub_seq_id ub ! s ! j)) [0..<nat (ub_n_seq_id ub ! s)])
       [0..<ub_n_seqs ub])"

text \<open>The search for the next empty cell, \<open>k\<close> iterations left.\<close>

fun next_empty :: "nat \<Rightarrow> llama_kv_cell list \<Rightarrow> nat \<Rightarrow> nat \<Rightarrow> nat" where
  "next_empty 0 cs sz e = e"
| "next_empty (Suc k) cs sz e =
     (let e = (if sz \<le> e then e - sz else e) in
      if is_empty_cell (cs ! e) then e else next_empty k cs sz (e + 1))"

record range_state =
  r_cells :: "llama_kv_cell list"
  r_next :: nat
  r_min :: int
  r_max :: int

text \<open>One turn of the "find usable cell range" loop, for sequence \<open>s\<close> of the micro-batch.\<close>

definition usable_step :: "nat \<Rightarrow> 'e llama_ubatch \<Rightarrow> nat \<Rightarrow> range_state \<Rightarrow> range_state res" where
  "usable_step sz ub s st =
     (let cs = r_cells st; q = ub_seq_id ub ! s ! 0; t = c_tail (cs ! nat q);
          has_cell = (0 \<le> t \<and> card (c_seq_id (cs ! nat t)) = 1)
      in rbind (guard (0 \<le> t \<longrightarrow> has_seq_id (cs ! nat t) q) Assert_failed) (\<lambda>_.
         if has_cell
         then Inr (st\<lparr>r_min := min (r_min st) t, r_max := max (r_max st) t\<rparr>)
         else rbind (guard (r_next st < length cs) Out_of_bounds) (\<lambda>_.
           rbind (guard (is_empty_cell (cs ! r_next st)) Assert_failed) (\<lambda>_.
           let e = r_next st;
               cs1 = (if 0 \<le> t then
                  let cs' = cs[e := (cs ! e)\<lparr>c_pos := c_pos (cs ! nat t), c_src := c_src (cs ! nat t)\<rparr>];
                      cs'' = cs'[nat t := (cs' ! nat t)\<lparr>c_seq_id := c_seq_id (cs' ! nat t) - {q}\<rparr>]
                  in cs''[e := (cs'' ! e)\<lparr>c_seq_id := insert q (c_seq_id (cs'' ! e))\<rparr>]
                else cs);
               cs2 = cs1[nat q := (cs1 ! nat q)\<lparr>c_tail := int e\<rparr>];
               e' = (if s + 1 < ub_n_seqs ub then next_empty sz cs2 sz (e + 1) else e)
           in Inr \<lparr>r_cells = cs2, r_next = e', r_min = min (r_min st) (int e),
                    r_max = max (r_max st) (int e)\<rparr>))))"

definition set_tails :: "int set \<Rightarrow> int \<Rightarrow> llama_kv_cell list \<Rightarrow> llama_kv_cell list" where
  "set_tails ids t cs =
     map (\<lambda>i. if int i \<in> ids then (cs ! i)\<lparr>c_tail := t\<rparr> else cs ! i) [0..<length cs]"

text \<open>One turn of "gather and re-order": swap the cell of sequence \<open>s\<close> into place.\<close>

definition gather_step ::
    "'e llama_ubatch \<Rightarrow> int \<Rightarrow> nat \<Rightarrow> llama_kv_cell list \<Rightarrow> llama_kv_cell list res" where
  "gather_step ub mn s cs =
     (let dst = int s + mn; src = c_tail (cs ! nat (ub_seq_id ub ! s ! 0)) in
      if dst = src then Inr cs
      else rbind (guard (0 \<le> dst \<and> dst < int (length cs) \<and> 0 \<le> src \<and> src < int (length cs))
                   Out_of_bounds) (\<lambda>_.
        let d = cs ! nat dst; c = cs ! nat src;
            cs1 = cs[nat dst := d\<lparr>c_pos := c_pos c, c_src := c_src c, c_seq_id := c_seq_id c\<rparr>];
            cs2 = cs1[nat src := c\<lparr>c_pos := c_pos d, c_src := c_src d, c_seq_id := c_seq_id d\<rparr>];
            cs3 = set_tails (c_seq_id (cs2 ! nat src)) src cs2
        in Inr (set_tails (c_seq_id (cs3 ! nat dst)) dst cs3)))"

definition update_pos_step ::
    "'e llama_ubatch \<Rightarrow> int \<Rightarrow> nat \<Rightarrow> llama_kv_cell list \<Rightarrow> llama_kv_cell list res" where
  "update_pos_step ub mn s cs =
     (let last_pos = ub_pos ub ! (ub_n_seq_tokens ub * s + ub_n_seq_tokens ub - 1);
          i = int s + mn;
          ids = take (nat (ub_n_seq_id ub ! s)) (ub_seq_id ub ! s)
      in rbind (guard (0 \<le> i \<and> i < int (length cs)) Out_of_bounds) (\<lambda>_.
         Inr (set_tails (set ids) i
           (cs[nat i := (cs ! nat i)\<lparr>c_pos := last_pos, c_seq_id := set ids\<rparr>]))))"

definition find_slot_recurrent ::
    "llama_kv_cache \<Rightarrow> 'e llama_ubatch \<Rightarrow> (llama_kv_cache \<times> slot_info) res" where
  "find_slot_recurrent kv ub =
     rbind (guard (ub_equal_seqs ub) Assert_failed) (\<lambda>_.
     case check_seq_ids (kv_size kv) (ubatch_seq_ids ub) (cells kv, used kv) of
       (False, cs, u) \<Rightarrow> Inr (kv\<lparr>cells := cs, used := u\<rparr>, slot_flag False)
     | (True, cs, u) \<Rightarrow>
         let st = \<lparr>r_cells = cs, r_next = next_empty (kv_size kv) cs (kv_size kv) (head kv),
                   r_min = int (kv_size kv) - 1, r_max = 0\<rparr>
         in rbind (rfold (usable_step (kv_size kv) ub) [0..<ub_n_seqs ub] st) (\<lambda>st.
            rbind (rfold (gather_step ub (r_min st)) [0..<ub_n_seqs ub] (r_cells st)) (\<lambda>cs.
            rbind (rfold (update_pos_step ub (r_min st)) [0..<ub_n_seqs ub] cs) (\<lambda>cs.
            let n = nat ((r_max st - r_min st + 1) mod int u32_max1) in
            Inr (kv\<lparr>head := nat (r_min st mod int u32_max1), kv_n := n, cells := cs,
                   used := count_if (\<lambda>c. \<not> is_empty_cell c) cs\<rparr>,
                 slot_flag (ub_n_seqs ub \<le> n))))))"

text \<open>The whole operation; a search that does not end is \<open>Out_of_fuel\<close>.\<close>

definition llama_kv_cache_find_slot ::
    "llama_kv_cache \<Rightarrow> 'e llama_ubatch \<Rightarrow> (llama_kv_cache \<times> slot_info) res" where
  "llama_kv_cache_find_slot kv ub =
     (if recurrent kv then find_slot_recurrent kv ub
      else case find_slot_attn kv ub of None \<Rightarrow> Inl Out_of_fuel | Some r \<Rightarrow> Inr r)"


section \<open>Reading the cache\<close>

fun cell_max_loop :: "llama_kv_cell list \<Rightarrow> nat \<Rightarrow> nat" where
  "cell_max_loop cs 0 = 0"
| "cell_max_loop cs (Suc i) =
     (if 0 \<le> c_pos (cs ! i) \<and> \<not> is_empty_cell (cs ! i) then Suc i else cell_max_loop cs i)"

definition llama_kv_cache_cell_max :: "llama_kv_cache \<Rightarrow> nat" where
  "llama_kv_cache_cell_max kv = cell_max_loop (cells kv) (kv_size kv)"

definition llama_kv_cache_seq_pos_max :: "llama_kv_cache \<Rightarrow> int \<Rightarrow> int" where
  "llama_kv_cache_seq_pos_max kv s =
     fold (\<lambda>c r. if has_seq_id c s then max r (c_pos c) else r) (cells kv) 0"

definition llama_get_kv_cache_token_count :: "llama_kv_cache \<Rightarrow> nat" where
  "llama_get_kv_cache_token_count kv = sum_list (map (\<lambda>c. card (c_seq_id c)) (cells kv))"

definition llama_get_kv_cache_used_cells :: "llama_kv_cache \<Rightarrow> nat" where
  "llama_get_kv_cache_used_cells kv = used kv"

definition llama_kv_cache_can_shift :: "llama_kv_cache \<Rightarrow> bool" where
  "llama_kv_cache_can_shift kv = can_shift kv"

section \<open>Sequence operations\<close>

text \<open>
  The loops of \<open>seq_rm\<close>, \<open>seq_keep\<close> and \<open>seq_add\<close> have one shape: a body that rewrites
  cell \<open>i\<close>, tells whether \<open>used\<close> drops, and tells whether the cell is a hole where a
  new search may start; the first hole is remembered in \<open>new_head\<close> (initially \<open>size\<close>).
\<close>

record sweep_out =
  o_cell :: llama_kv_cell
  o_dec :: bool
  o_hole :: bool

fun kv_sweep ::
    "(nat \<Rightarrow> llama_kv_cell \<Rightarrow> sweep_out) \<Rightarrow> nat \<Rightarrow> nat \<Rightarrow> llama_kv_cell list \<Rightarrow> nat \<Rightarrow> nat
      \<Rightarrow> llama_kv_cell list \<times> nat \<times> nat" where
  "kv_sweep body sz i [] u nh = ([], u, nh)"
| "kv_sweep body sz i (c # cs) u nh =
     (let r = body i c;
          u' = (if o_dec r then u32_sub u 1 else u);
          nh' = (if o_hole r \<and> nh = sz then i else nh);
          rest = kv_sweep body sz (Suc i) cs u' nh'
      in (o_cell r # fst rest, snd rest))"

definition keep_cell :: "llama_kv_cell \<Rightarrow> sweep_out" where
  "keep_cell c = \<lparr>o_cell = c, o_dec = False, o_hole = False\<rparr>"

definition in_range :: "int \<Rightarrow> int \<Rightarrow> llama_kv_cell \<Rightarrow> bool" where
  "in_range p0 p1 c \<longleftrightarrow> p0 \<le> c_pos c \<and> c_pos c < p1"

definition norm_p0 :: "int \<Rightarrow> int" where
  "norm_p0 p0 = (if p0 < 0 then 0 else p0)"

definition norm_p1 :: "int \<Rightarrow> int" where
  "norm_p1 p1 = (if p1 < 0 then int32_max else p1)"

definition llama_kv_cache_clear :: "llama_kv_cache \<Rightarrow> llama_kv_cache" where
  "llama_kv_cache_clear kv =
     kv\<lparr>cells := map (\<lambda>c. c\<lparr>c_pos := -1, c_seq_id := {}, c_src := -1, c_tail := -1\<rparr>) (cells kv),
        head := 0, used := 0\<rparr>"

subsection \<open>Removing\<close>

text \<open>The recurrent guard of \<open>seq_rm\<close>: \<open>None\<close> is \<open>return false\<close>.\<close>

definition seq_rm_recurrent_guard ::
    "llama_kv_cache \<Rightarrow> int \<Rightarrow> int \<Rightarrow> int \<Rightarrow> llama_kv_cell list option" where
  "seq_rm_recurrent_guard kv s p0 p1 =
     (let cs = cells kv in
      if int (kv_size kv) \<le> s then None
      else if 0 \<le> s then
        let t = c_tail (cs ! nat s) in
        if 0 \<le> t then
          let p = c_pos (cs ! nat t) in
          if (0 < p0 \<and> p0 \<le> p) \<or> (0 < p1 \<and> p1 \<le> p) then None
          else if p0 \<le> p \<and> p < p1
          then Some (cs[nat s := (cs ! nat s)\<lparr>c_tail := -1\<rparr>])
          else Some cs
        else Some cs
      else if p0 \<noteq> p1 \<and> (p0 \<noteq> 0 \<or> p1 \<noteq> int32_max) then None
      else Some cs)"

definition seq_rm_body :: "int \<Rightarrow> int \<Rightarrow> int \<Rightarrow> llama_kv_cell \<Rightarrow> sweep_out" where
  "seq_rm_body s p0 p1 c =
     (if in_range p0 p1 c \<and> (s < 0 \<or> has_seq_id c s) then
        let c1 = (if s < 0 then c\<lparr>c_seq_id := {}\<rparr> else c\<lparr>c_seq_id := c_seq_id c - {s}\<rparr>) in
        if is_empty_cell c1
        then \<lparr>o_cell = c1\<lparr>c_pos := -1, c_src := -1\<rparr>, o_dec = 0 \<le> c_pos c1, o_hole = True\<rparr>
        else keep_cell c1
      else keep_cell c)"

definition llama_kv_cache_seq_rm ::
    "llama_kv_cache \<Rightarrow> int \<Rightarrow> int \<Rightarrow> int \<Rightarrow> bool \<times> llama_kv_cache" where
  "llama_kv_cache_seq_rm kv s p0 p1 =
     (let p0 = norm_p0 p0; p1 = norm_p1 p1 in
      case (if recurrent kv then seq_rm_recurrent_guard kv s p0 p1 else Some (cells kv)) of
        None \<Rightarrow> (False, kv)
      | Some cs \<Rightarrow>
          let (cs', u, nh) = kv_sweep (\<lambda>_. seq_rm_body s p0 p1) (kv_size kv) 0 cs (used kv) (kv_size kv)
          in (True, kv\<lparr>cells := cs', used := u,
                head := (if nh \<noteq> kv_size kv \<and> nh < head kv then nh else head kv)\<rparr>))"

subsection \<open>Copying\<close>

definition seq_cp_recurrent :: "llama_kv_cache \<Rightarrow> int \<Rightarrow> int \<Rightarrow> llama_kv_cache" where
  "seq_cp_recurrent kv src dst =
     (let sz = int (kv_size kv) in
      if 0 \<le> dst \<and> dst < sz \<and> 0 \<le> src \<and> src < sz then
        let cs = cells kv; td = c_tail (cs ! nat dst);
            st = (if 0 \<le> td then
               let cs1 = cs[nat td := (cs ! nat td)\<lparr>c_seq_id := c_seq_id (cs ! nat td) - {dst}\<rparr>];
                   cs2 = cs1[nat dst := (cs1 ! nat dst)\<lparr>c_tail := -1\<rparr>]
               in if is_empty_cell (cs2 ! nat td)
                  then (cs2[nat td := (cs2 ! nat td)\<lparr>c_pos := -1, c_delta := -1, c_src := -1\<rparr>],
                        u32_sub (used kv) 1)
                  else (cs2, used kv)
             else (cs, used kv));
            cs3 = fst st; ts = c_tail (cs3 ! nat src);
            cs4 = (if 0 \<le> ts then
               let cs' = cs3[nat ts := (cs3 ! nat ts)\<lparr>c_seq_id := insert dst (c_seq_id (cs3 ! nat ts))\<rparr>]
               in cs'[nat dst := (cs' ! nat dst)\<lparr>c_tail := c_tail (cs' ! nat src)\<rparr>]
             else cs3)
        in kv\<lparr>cells := cs4, used := snd st\<rparr>
      else kv)"

definition seq_cp_cell :: "int \<Rightarrow> int \<Rightarrow> int \<Rightarrow> int \<Rightarrow> llama_kv_cell \<Rightarrow> llama_kv_cell" where
  "seq_cp_cell src dst p0 p1 c =
     (if has_seq_id c src \<and> in_range p0 p1 c then c\<lparr>c_seq_id := insert dst (c_seq_id c)\<rparr> else c)"

definition llama_kv_cache_seq_cp ::
    "llama_kv_cache \<Rightarrow> int \<Rightarrow> int \<Rightarrow> int \<Rightarrow> int \<Rightarrow> llama_kv_cache" where
  "llama_kv_cache_seq_cp kv src dst p0 p1 =
     (if recurrent kv then seq_cp_recurrent kv src dst
      else kv\<lparr>head := 0,
              cells := map (seq_cp_cell src dst (norm_p0 p0) (norm_p1 p1)) (cells kv)\<rparr>)"

subsection \<open>Keeping one sequence\<close>

definition seq_keep_body :: "bool \<Rightarrow> int \<Rightarrow> nat \<Rightarrow> llama_kv_cell \<Rightarrow> sweep_out" where
  "seq_keep_body rec s i c =
     (let c0 = (if rec \<and> int i \<noteq> s then c\<lparr>c_tail := -1\<rparr> else c) in
      if \<not> has_seq_id c0 s
      then \<lparr>o_cell = c0\<lparr>c_pos := -1, c_src := -1, c_seq_id := {}\<rparr>, o_dec = 0 \<le> c_pos c0, o_hole = True\<rparr>
      else keep_cell (c0\<lparr>c_seq_id := {s}\<rparr>))"

definition llama_kv_cache_seq_keep :: "llama_kv_cache \<Rightarrow> int \<Rightarrow> llama_kv_cache" where
  "llama_kv_cache_seq_keep kv s =
     (let (cs', u, nh) = kv_sweep (seq_keep_body (recurrent kv) s) (kv_size kv) 0
            (cells kv) (used kv) (kv_size kv)
      in kv\<lparr>cells := cs', used := u,
            head := (if nh \<noteq> kv_size kv \<and> nh < head kv then nh else head kv)\<rparr>)"

subsection \<open>Shifting positions\<close>

text \<open>The recurrent branch shared by \<open>seq_add\<close> and \<open>seq_div\<close>: only the tail cell moves.\<close>

definition on_tail_cell ::
    "llama_kv_cache \<Rightarrow> int \<Rightarrow> int \<Rightarrow> int \<Rightarrow> (int \<Rightarrow> int) \<Rightarrow> llama_kv_cache" where
  "on_tail_cell kv s p0 p1 f =
     (if 0 \<le> s \<and> s < int (kv_size kv) then
        let t = c_tail (cells kv ! nat s); c = cells kv ! nat t in
        if 0 \<le> t \<and> has_seq_id c s \<and> in_range p0 p1 c
        then kv\<lparr>cells := (cells kv)[nat t := c\<lparr>c_pos := f (c_pos c)\<rparr>]\<rparr>
        else kv
      else kv)"

definition seq_add_body :: "int \<Rightarrow> int \<Rightarrow> int \<Rightarrow> int \<Rightarrow> llama_kv_cell \<Rightarrow> sweep_out" where
  "seq_add_body s p0 p1 d c =
     (if has_seq_id c s \<and> in_range p0 p1 c then
        let c1 = c\<lparr>c_pos := c_pos c + d, c_delta := c_delta c + d\<rparr> in
        if c_pos c1 < 0
        then \<lparr>o_cell = c1\<lparr>c_pos := -1, c_seq_id := {}\<rparr>, o_dec = \<not> is_empty_cell c1, o_hole = True\<rparr>
        else keep_cell c1
      else keep_cell c)"

definition seq_hits :: "int \<Rightarrow> int \<Rightarrow> int \<Rightarrow> llama_kv_cell list \<Rightarrow> bool" where
  "seq_hits s p0 p1 cs = list_ex (\<lambda>c. has_seq_id c s \<and> in_range p0 p1 c) cs"

definition llama_kv_cache_seq_add ::
    "llama_kv_cache \<Rightarrow> int \<Rightarrow> int \<Rightarrow> int \<Rightarrow> int \<Rightarrow> llama_kv_cache" where
  "llama_kv_cache_seq_add kv s p0 p1 d =
     (let p0 = norm_p0 p0; p1 = norm_p1 p1 in
      if p0 = p1 then kv
      else if recurrent kv then on_tail_cell kv s p0 p1 (\<lambda>p. p + d)
      else let (cs', u, nh) = kv_sweep (\<lambda>_. seq_add_body s p0 p1 d) (kv_size kv) 0
                 (cells kv) (used kv) (kv_size kv)
           in kv\<lparr>cells := cs', used := u, has_shift := has_shift kv \<or> seq_hits s p0 p1 (cells kv),
                 head := (if nh \<noteq> kv_size kv then nh else 0)\<rparr>)"

definition seq_div_cell :: "int \<Rightarrow> int \<Rightarrow> int \<Rightarrow> int \<Rightarrow> llama_kv_cell \<Rightarrow> llama_kv_cell" where
  "seq_div_cell s p0 p1 d c =
     (if has_seq_id c s \<and> in_range p0 p1 c
      then c\<lparr>c_pos := c_div (c_pos c) d, c_delta := c_delta c + (c_div (c_pos c) d - c_pos c)\<rparr>
      else c)"

definition tail_hit :: "llama_kv_cache \<Rightarrow> int \<Rightarrow> int \<Rightarrow> int \<Rightarrow> bool" where
  "tail_hit kv s p0 p1 \<longleftrightarrow> 0 \<le> s \<and> s < int (kv_size kv) \<and>
     (let t = c_tail (cells kv ! nat s); c = cells kv ! nat t
      in 0 \<le> t \<and> has_seq_id c s \<and> in_range p0 p1 c)"

text \<open>Dividing by zero is undefined behaviour as soon as one cell is hit.\<close>

definition llama_kv_cache_seq_div ::
    "llama_kv_cache \<Rightarrow> int \<Rightarrow> int \<Rightarrow> int \<Rightarrow> int \<Rightarrow> llama_kv_cache res" where
  "llama_kv_cache_seq_div kv s p0 p1 d =
     (let p0 = norm_p0 p0; p1 = norm_p1 p1 in
      if p0 = p1 then Inr kv
      else if d = 0 \<and> (if recurrent kv then tail_hit kv s p0 p1 else seq_hits s p0 p1 (cells kv))
      then Inl Div_by_zero
      else if recurrent kv then Inr (on_tail_cell kv s p0 p1 (\<lambda>p. c_div p d))
      else Inr (kv\<lparr>cells := map (seq_div_cell s p0 p1 d) (cells kv),
                  has_shift := has_shift kv \<or> seq_hits s p0 p1 (cells kv)\<rparr>))"

definition llama_kv_cache_defrag :: "llama_kv_cache \<Rightarrow> llama_kv_cache" where
  "llama_kv_cache_defrag kv = (if \<not> recurrent kv then kv\<lparr>do_defrag := True\<rparr> else kv)"


section \<open>The slot restorer\<close>

record slot_restorer =
  old_head :: nat
  old_n :: nat
  slot_boundaries :: "(nat \<times> nat) list"
  do_restore :: bool

definition restorer_init :: "llama_kv_cache \<Rightarrow> slot_restorer" where
  "restorer_init kv =
     \<lparr>old_head = head kv, old_n = kv_n kv, slot_boundaries = [], do_restore = False\<rparr>"

definition restorer_save :: "slot_restorer \<Rightarrow> slot_info \<Rightarrow> slot_restorer" where
  "restorer_save r s =
     (if found s then
        r\<lparr>do_restore := True,
          slot_boundaries := (if fst (boundaries s) \<noteq> snd (boundaries s)
             then slot_boundaries r @ [boundaries s] else slot_boundaries r)\<rparr>
      else r)"

definition restorer_restore :: "slot_restorer \<Rightarrow> llama_kv_cache \<Rightarrow> llama_kv_cache" where
  "restorer_restore r kv =
     (if do_restore r then
        let kv = kv\<lparr>head := old_head r, kv_n := old_n r\<rparr> in
        if recurrent kv then snd (llama_kv_cache_seq_rm kv (-1) (-1) (-1))
        else fold (\<lambda>b kv. snd (llama_kv_cache_seq_rm kv (-1) (int (fst b)) (int (snd b))))
               (slot_boundaries r) kv
      else kv)"

section \<open>The debug view\<close>

record llama_kv_cache_view =
  v_n_cells :: nat
  v_n_seq_max :: int
  v_token_count :: nat
  v_used_cells :: nat
  v_max_contiguous :: nat
  v_max_contiguous_idx :: int
  v_cells :: "int list option"
  v_cells_sequences :: "int list list option"

definition llama_kv_cache_view_init :: "llama_kv_cache \<Rightarrow> int \<Rightarrow> llama_kv_cache_view" where
  "llama_kv_cache_view_init kv n_seq_max =
     \<lparr>v_n_cells = 0, v_n_seq_max = n_seq_max, v_token_count = 0,
      v_used_cells = llama_get_kv_cache_used_cells kv, v_max_contiguous = 0,
      v_max_contiguous_idx = -1, v_cells = None, v_cells_sequences = None\<rparr>"

definition llama_kv_cache_view_free :: "llama_kv_cache_view \<Rightarrow> llama_kv_cache_view" where
  "llama_kv_cache_view_free v = v\<lparr>v_cells := None, v_cells_sequences := None\<rparr>"

text \<open>
  The run of empty cells under way (\<open>-1\<close> for none), the length of the longest one
  finished so far, and where it began.
\<close>

fun contig_loop :: "nat \<Rightarrow> llama_kv_cell list \<Rightarrow> int \<times> nat \<times> int \<Rightarrow> int \<times> nat \<times> int" where
  "contig_loop i [] st = st"
| "contig_loop i (c # cs) (cur, mx, ix) =
     contig_loop (Suc i) cs
       (if \<not> is_empty_cell c then
          (if 0 \<le> cur \<and> int mx < int i - cur then (-1, nat (int i - cur), cur) else (-1, mx, ix))
        else (if cur < 0 then int i else cur, mx, ix))"

definition max_contig :: "llama_kv_cell list \<Rightarrow> nat \<times> int" where
  "max_contig cs =
     (let (cur, mx, ix) = contig_loop 0 cs (-1, 0, -1) in
      if 0 \<le> cur \<and> int mx < int (length cs) - cur then (nat (int (length cs) - cur), cur)
      else (mx, ix))"

definition view_row :: "nat \<Rightarrow> llama_kv_cell \<Rightarrow> int list" where
  "view_row n c =
     (let ids = take n (sorted_list_of_set (c_seq_id c)) in ids @ replicate (n - length ids) (-1))"

definition llama_kv_cache_view_update ::
    "llama_kv_cache_view \<Rightarrow> llama_kv_cache \<Rightarrow> llama_kv_cache_view" where
  "llama_kv_cache_view_update v kv =
     (let n = nat (v_n_seq_max v); cs = cells kv;
          grow = (v_n_cells v < kv_size kv \<or> v_cells v = None);
          old_cells = (case v_cells v of None \<Rightarrow> [] | Some xs \<Rightarrow> xs);
          old_rows = (case v_cells_sequences v of None \<Rightarrow> [] | Some xs \<Rightarrow> xs);
          mc = max_contig cs
      in v\<lparr>v_n_cells := (if grow then kv_size kv else v_n_cells v),
           v_cells := Some (map (\<lambda>c. c_pos c + c_delta c) cs @ drop (length cs) old_cells),
           v_cells_sequences := Some (map (view_row n) cs @ drop (length cs) old_rows),
           v_max_contiguous := fst mc,
           v_max_contiguous_idx := snd mc,
           v_token_count := sum_list (map (\<lambda>c. card (c_seq_id c)) cs),
           v_used_cells := count_if (\<lambda>c. min (card (c_seq_id c)) n \<noteq> 0) cs\<rparr>)"

end
