(* ===== verification/KvProps.thy ===== *)
theory KvProps
  imports KvCache
begin

text \<open>
  Correctness of the attention KV cache: the well-formedness invariant, the slot
  search, the set of (sequence, position) entries a cache stands for, and what every
  sequence operation does to it.
\<close>

section \<open>Well-formed caches\<close>

definition cell_ok :: "llama_kv_cell \<Rightarrow> bool" where
  "cell_ok c \<longleftrightarrow> finite (c_seq_id c) \<and> -1 \<le> c_pos c \<and> (c_pos c < 0 \<longleftrightarrow> c_seq_id c = {})"

definition taken :: "llama_kv_cell \<Rightarrow> bool" where
  "taken c \<longleftrightarrow> \<not> is_empty_cell c"

definition kv_limit :: nat where
  "kv_limit = 1073741824"

definition kv_ok :: "llama_kv_cache \<Rightarrow> bool" where
  "kv_ok kv \<longleftrightarrow> \<not> recurrent kv \<and> length (cells kv) = kv_size kv \<and> kv_size kv \<le> kv_limit
     \<and> head kv \<le> kv_size kv \<and> (\<forall>c \<in> set (cells kv). cell_ok c)
     \<and> used kv = count_if taken (cells kv)"

definition kv_entries :: "llama_kv_cache \<Rightarrow> (int \<times> int) set" where
  "kv_entries kv = {(s, p). \<exists>c \<in> set (cells kv). s \<in> c_seq_id c \<and> c_pos c = p}"

lemma kv_okD:
  assumes "kv_ok kv"
  shows "\<not> recurrent kv" "length (cells kv) = kv_size kv" "kv_size kv \<le> kv_limit"
    "head kv \<le> kv_size kv" "\<And>c. c \<in> set (cells kv) \<Longrightarrow> cell_ok c"
    "used kv = count_if taken (cells kv)"
  using assms by (auto simp: kv_ok_def)

lemma kv_limit_u32: "3 * kv_limit < u32_max1"
  by (simp add: kv_limit_def u32_max1_def)

lemma cell_ok_empty [simp]: "cell_ok empty_cell"
  by (simp add: cell_ok_def empty_cell_def)

lemma kv_ok_init:
  assumes "sz \<le> kv_limit"
  shows "kv_ok (snd (llama_kv_cache_init kv False ds fa sz ok))"
proof -
  have "count_if taken (replicate sz empty_cell) = 0"
    by (simp add: count_if_0_iff taken_def is_empty_cell_def empty_cell_def)
  with assms show ?thesis
    by (auto simp: llama_kv_cache_init_def kv_ok_def in_set_replicate)
qed

section \<open>The slot search\<close>

definition window_free :: "llama_kv_cell list \<Rightarrow> nat \<Rightarrow> nat \<Rightarrow> bool" where
  "window_free cs n a \<longleftrightarrow> a + n \<le> length cs \<and> (\<forall>i<n. c_pos (cs ! (a + i)) < 0)"

lemma first_taken_None:
  "h + n \<le> length cs \<Longrightarrow> first_taken cs h n = None \<longleftrightarrow> window_free cs n h"
  by (auto simp: first_taken_def find_upt_None window_free_def not_le)

lemma first_taken_blocks:
  assumes "first_taken cs h n = Some i" "h \<le> a" "a \<le> h + i"
  shows "\<not> window_free cs n a"
proof
  assume free: "window_free cs n a"
  have i: "i < n" "0 \<le> c_pos (cs ! (h + i))"
    using find_upt_Some [OF assms(1) [unfolded first_taken_def]] by auto
  have "h + i - a < n" "a + (h + i - a) = h + i"
    using assms i by auto
  with free i show False
    by (metis window_free_def not_le)
qed

text \<open>
  What the search has ruled out when it stands at \<open>h\<close> having counted \<open>t\<close> cells: in the
  first pass the starts from \<open>h0\<close> to \<open>h\<close>, in the second also those below \<open>h\<close>.
\<close>

definition searched :: "llama_kv_cell list \<Rightarrow> nat \<Rightarrow> nat \<Rightarrow> nat \<Rightarrow> nat \<Rightarrow> bool" where
  "searched cs n h0 h t \<longleftrightarrow>
     (h0 \<le> h \<and> t = h - h0 \<and> (\<forall>a. h0 \<le> a \<and> a < h \<longrightarrow> \<not> window_free cs n a))
   \<or> (h0 \<le> length cs \<and> t = length cs - h0 + h \<and> (\<forall>a. h0 \<le> a \<or> a < h \<longrightarrow> \<not> window_free cs n a))
   \<or> (h = 0 \<and> length cs \<le> t \<and> (\<forall>a. \<not> window_free cs n a))"

lemma searched_wrap:
  assumes "searched cs n h0 h t" "length cs < h + n" "h \<le> length cs"
  shows "searched cs n h0 0 (t + (length cs - h))"
proof -
  have beyond: "\<not> window_free cs n a" if "h \<le> a" for a
    using that assms(2) by (auto simp: window_free_def)
  from assms(1) consider
      "h0 \<le> h" "t = h - h0" "\<forall>a. h0 \<le> a \<and> a < h \<longrightarrow> \<not> window_free cs n a"
    | "h0 \<le> length cs" "t = length cs - h0 + h" "\<forall>a. h0 \<le> a \<or> a < h \<longrightarrow> \<not> window_free cs n a"
    | "h = 0" "length cs \<le> t" "\<forall>a. \<not> window_free cs n a"
    unfolding searched_def by blast
  then show ?thesis
  proof cases
    case 1
    then have "\<forall>a. h0 \<le> a \<longrightarrow> \<not> window_free cs n a"
      using beyond by (metis not_le)
    with 1 assms(3) show ?thesis
      by (auto simp: searched_def)
  next
    case 2
    then have "\<forall>a. \<not> window_free cs n a"
      using beyond by (metis not_le)
    with 2 assms(3) show ?thesis
      by (auto simp: searched_def)
  next
    case 3
    then show ?thesis by (auto simp: searched_def)
  qed
qed

lemma searched_skip:
  assumes "searched cs n h0 h t" "first_taken cs h n = Some i" "h + n \<le> length cs"
  shows "length cs \<le> t + (i + 1) \<Longrightarrow> \<not> window_free cs n a"
    and "t + (i + 1) < length cs \<Longrightarrow> searched cs n h0 (h + (i + 1)) (t + (i + 1))"
proof -
  have blocks: "\<And>a. h \<le> a \<Longrightarrow> a < h + (i + 1) \<Longrightarrow> \<not> window_free cs n a"
    using first_taken_blocks [OF assms(2)] by simp
  have i: "i < n"
    using find_upt_Some(1) [OF assms(2) [unfolded first_taken_def]] .
  have far: "\<And>a. length cs \<le> a \<Longrightarrow> \<not> window_free cs n a"
    using i by (auto simp: window_free_def)
  from assms(1) consider
      "h0 \<le> h" "t = h - h0" "\<forall>a. h0 \<le> a \<and> a < h \<longrightarrow> \<not> window_free cs n a"
    | "h0 \<le> length cs" "t = length cs - h0 + h" "\<forall>a. h0 \<le> a \<or> a < h \<longrightarrow> \<not> window_free cs n a"
    | "h = 0" "length cs \<le> t" "\<forall>a. \<not> window_free cs n a"
    unfolding searched_def by blast
  note cases = this
  show "\<not> window_free cs n a" if stop: "length cs \<le> t + (i + 1)"
    using cases
  proof cases
    case 1
    then have "h0 = 0" "length cs \<le> h + (i + 1)"
      using stop assms(3) i by auto
    then show ?thesis
      using 1 blocks far by (metis le0 not_le order_less_le_trans)
  next
    case 2
    then have "h0 \<le> h + (i + 1)" using stop by auto
    then show ?thesis
      using 2 blocks by (metis not_le order_less_le_trans)
  next
    case 3
    then show ?thesis by blast
  qed
  show "searched cs n h0 (h + (i + 1)) (t + (i + 1))" if go: "t + (i + 1) < length cs"
    using cases
  proof cases
    case 1
    then have "\<forall>a. h0 \<le> a \<and> a < h + (i + 1) \<longrightarrow> \<not> window_free cs n a"
      using blocks by (metis not_le)
    with 1 show ?thesis by (auto simp: searched_def)
  next
    case 2
    then have "\<forall>a. h0 \<le> a \<or> a < h + (i + 1) \<longrightarrow> \<not> window_free cs n a"
      using blocks by (metis not_le)
    with 2 show ?thesis by (auto simp: searched_def)
  next
    case 3
    with go show ?thesis by simp
  qed
qed

definition window_result ::
    "llama_kv_cell list \<Rightarrow> nat \<Rightarrow> (nat \<times> bool) option \<Rightarrow> bool" where
  "window_result cs n r \<longleftrightarrow>
     (case r of None \<Rightarrow> False
      | Some (h, b) \<Rightarrow> h \<le> length cs
          \<and> (if b then window_free cs n h else \<forall>a. \<not> window_free cs n a))"

lemma find_window_total:
  assumes "sz = length cs" "sz \<le> kv_limit" "n \<le> sz" "h \<le> sz"
    and "t < sz \<or> h = 0 \<and> t \<le> 2 * sz"
    and "searched cs n h0 h t"
  shows "window_result cs n (find_window cs sz n h t)"
  using assms(4-)
proof (induction "2 * (sz - t) + (if sz < h + n then 1 else 0)" arbitrary: h t
    rule: less_induct)
  case (less h t)
  have small: "3 * sz < u32_max1"
    using assms(2) kv_limit_u32 by linarith
  then have hn: "u32_add h n = h + n"
    using less.prems assms(3) by simp
  show ?case
  proof (cases "sz < h + n")
    case True
    then have "h \<noteq> 0" using assms(3) by simp
    then have t: "t < sz" using less.prems(2) by simp
    have sub: "u32_sub sz h = sz - h"
      using less.prems(1) small by simp
    have add: "u32_add t (sz - h) = t + (sz - h)"
      using t small by simp
    have "window_result cs n (find_window cs sz n 0 (t + (sz - h)))"
    proof (rule less.hyps)
      show "2 * (sz - (t + (sz - h))) + (if sz < 0 + n then 1 else 0)
          < 2 * (sz - t) + (if sz < h + n then 1 else 0)"
        using True assms(3) by simp
      show "t + (sz - h) < sz \<or> 0 = (0::nat) \<and> t + (sz - h) \<le> 2 * sz"
        using t by (intro disjI2 conjI) auto
      show "searched cs n h0 0 (t + (sz - h))"
        using searched_wrap less.prems True assms(1) by simp
    qed simp
    then show ?thesis
      using True by (subst find_window.simps) (simp add: hn sub add)
  next
    case False
    then have fits: "h + n \<le> length cs" using assms(1) by simp
    show ?thesis
    proof (cases "first_taken cs h n")
      case None
      then have "find_window cs sz n h t = Some (h, True)"
        using False by (subst find_window.simps) (simp add: hn)
      then show ?thesis
        using None first_taken_None [OF fits] fits
        by (simp add: window_result_def)
    next
      case (Some i)
      have i: "i < n"
        using find_upt_Some(1) [OF Some [unfolded first_taken_def]] .
      then have adds: "u32_add h (i + 1) = h + (i + 1)" "u32_add t (i + 1) = t + (i + 1)"
        using less.prems(1,2) assms(3) small by auto
      show ?thesis
      proof (cases "sz \<le> t + (i + 1)")
        case True
        then have "find_window cs sz n h t = Some (h + (i + 1), False)"
          using False Some by (subst find_window.simps) (simp add: hn adds del: add_Suc_right One_nat_def)
        then show ?thesis
          using searched_skip(1) [OF less.prems(3) Some fits] True assms(1) i fits
          by (simp add: window_result_def)
      next
        case go: False
        have "window_result cs n (find_window cs sz n (h + (i + 1)) (t + (i + 1)))"
        proof (rule less.hyps)
          show "2 * (sz - (t + (i + 1))) + (if sz < h + (i + 1) + n then 1 else 0)
              < 2 * (sz - t) + (if sz < h + n then 1 else 0)"
            using go by (cases "sz < h + n") auto
          show "h + (i + 1) \<le> sz" using i fits assms(1) by simp
          show "t + (i + 1) < sz \<or> h + (i + 1) = 0 \<and> t + (i + 1) \<le> 2 * sz"
            using go by simp
          show "searched cs n h0 (h + (i + 1)) (t + (i + 1))"
            using searched_skip(2) [OF less.prems(3) Some fits] go assms(1) by simp
        qed
        then show ?thesis
          using False Some go
          by (subst find_window.simps) (simp add: hn adds del: add_Suc_right One_nat_def)
      qed
    qed
  qed
qed

lemma find_window_start:
  assumes "kv_ok kv" "n \<le> kv_size kv"
  shows "window_result (cells kv) n (find_window (cells kv) (kv_size kv) n (head kv) 0)"
proof (rule find_window_total)
  show "searched (cells kv) n (head kv) (head kv) 0"
    by (auto simp: searched_def)
qed (use assms kv_okD [OF assms(1)] in auto)


section \<open>Placing a micro-batch\<close>

text \<open>What \<open>llama_decode\<close> hands to the cache: equal shapes, and every token positioned and owned.\<close>

definition ubatch_ok :: "'e llama_ubatch \<Rightarrow> bool" where
  "ubatch_ok ub \<longleftrightarrow> ub_n_tokens ub = ub_n_seqs ub * ub_n_seq_tokens ub
     \<and> ub_n_tokens ub \<le> length (ub_pos ub) \<and> (\<forall>k < ub_n_tokens ub. 0 \<le> ub_pos ub ! k)
     \<and> (\<forall>s < ub_n_seqs ub. 0 < ub_n_seq_id ub ! s
          \<and> ub_n_seq_id ub ! s \<le> int (length (ub_seq_id ub ! s)))"

definition token_ids :: "'e llama_ubatch \<Rightarrow> nat \<Rightarrow> int set" where
  "token_ids ub s = set (take (nat (ub_n_seq_id ub ! s)) (ub_seq_id ub ! s))"

definition put_token :: "'e llama_ubatch \<Rightarrow> nat \<Rightarrow> llama_kv_cell \<Rightarrow> llama_kv_cell" where
  "put_token ub k c = c\<lparr>c_pos := ub_pos ub ! k,
     c_seq_id := c_seq_id c \<union> token_ids ub (k div ub_n_seq_tokens ub)\<rparr>"

lemma place_seq_prefix:
  assumes "m \<le> ub_n_seq_tokens ub" "h + s * ub_n_seq_tokens ub + m \<le> length cs"
  shows "fold (\<lambda>i. place_token ub h s (s * ub_n_seq_tokens ub + i)) [0..<m] cs =
    map (\<lambda>j. if h + s * ub_n_seq_tokens ub \<le> j \<and> j < h + s * ub_n_seq_tokens ub + m
             then put_token ub (j - h) (cs ! j) else cs ! j) [0..<length cs]"
  using assms
proof (induction m)
  case 0
  then show ?case by (intro nth_equalityI) auto
next
  case (Suc m)
  let ?w = "ub_n_seq_tokens ub"
  have div: "(s * ?w + m) div ?w = s"
    using Suc.prems(1) by simp
  show ?case
    using Suc
    by (auto intro!: nth_equalityI
        simp: place_token_def put_token_def token_ids_def div nth_list_update less_Suc_eq add.assoc)
qed

lemma place_ubatch_prefix:
  assumes "m \<le> ub_n_seqs ub" "h + m * ub_n_seq_tokens ub \<le> length cs"
  shows "fold (place_seq ub h) [0..<m] cs =
    map (\<lambda>j. if h \<le> j \<and> j < h + m * ub_n_seq_tokens ub
             then put_token ub (j - h) (cs ! j) else cs ! j) [0..<length cs]"
  using assms
proof (induction m)
  case 0
  then show ?case by (intro nth_equalityI) auto
next
  case (Suc m)
  have len: "h + m * ub_n_seq_tokens ub + ub_n_seq_tokens ub \<le> length cs"
    using Suc.prems(2) by simp
  then show ?case
    using Suc by (auto intro!: nth_equalityI simp: place_seq_def place_seq_prefix)
qed

lemma place_ubatch_cells:
  assumes "ubatch_ok ub" "h + ub_n_tokens ub \<le> length cs"
  shows "place_ubatch ub h cs =
    map (\<lambda>j. if h \<le> j \<and> j < h + ub_n_tokens ub then put_token ub (j - h) (cs ! j) else cs ! j)
      [0..<length cs]"
  using assms place_ubatch_prefix [of "ub_n_seqs ub" ub h cs]
  by (simp add: place_ubatch_def ubatch_ok_def)


lemma place_ubatch_nth:
  assumes "ubatch_ok ub" "h + ub_n_tokens ub \<le> length cs"
  shows "length (place_ubatch ub h cs) = length cs"
    and "j < length cs \<Longrightarrow> place_ubatch ub h cs ! j =
      (if h \<le> j \<and> j < h + ub_n_tokens ub then put_token ub (j - h) (cs ! j) else cs ! j)"
  by (simp_all add: place_ubatch_cells [OF assms])

lemma UN_set_nth: "(\<Union>x \<in> set xs. f x) = (\<Union>j<length xs. f (xs ! j))"
  by (force simp: in_set_conv_nth)

lemma count_if_card: "count_if P xs = card {i. i < length xs \<and> P (xs ! i)}"
  by (simp add: count_if_def length_filter_conv_card)

lemma count_taken_place:
  assumes "ubatch_ok ub" "window_free cs (ub_n_tokens ub) h" "\<forall>c \<in> set cs. cell_ok c"
  shows "count_if taken (place_ubatch ub h cs) = count_if taken cs + ub_n_tokens ub"
proof -
  let ?n = "ub_n_tokens ub"
  let ?new = "place_ubatch ub h cs"
  have fits: "h + ?n \<le> length cs" and free: "\<forall>i<?n. c_pos (cs ! (h + i)) < 0"
    using assms(2) by (auto simp: window_free_def)
  note cells = place_ubatch_nth [OF assms(1) fits]
  have old: "\<not> taken (cs ! j)" if "h \<le> j" "j < h + ?n" for j
    using that free [rule_format, of "j - h"] assms(3) fits
    by (auto simp: taken_def is_empty_cell_def cell_ok_def)
  have ids: "token_ids ub ((j - h) div ub_n_seq_tokens ub) \<noteq> {}" if "h \<le> j" "j < h + ?n" for j
  proof -
    have "(j - h) div ub_n_seq_tokens ub < ub_n_seqs ub"
      using that assms(1) by (simp add: ubatch_ok_def less_mult_imp_div_less)
    then show ?thesis
      using assms(1) by (fastforce simp: ubatch_ok_def token_ids_def)
  qed
  have "{i. i < length ?new \<and> taken (?new ! i)} =
      {i. i < length cs \<and> taken (cs ! i)} \<union> {h..<h + ?n}"
    using fits ids old
    by (auto simp: cells put_token_def taken_def is_empty_cell_def split: if_splits)
  moreover have "{i. i < length cs \<and> taken (cs ! i)} \<inter> {h..<h + ?n} = {}"
    using old by auto
  ultimately show ?thesis
    by (simp add: count_if_card card_Un_disjoint)
qed

definition ubatch_entries :: "'e llama_ubatch \<Rightarrow> (int \<times> int) set" where
  "ubatch_entries ub = {(s, p). \<exists>k < ub_n_tokens ub.
     p = ub_pos ub ! k \<and> s \<in> token_ids ub (k div ub_n_seq_tokens ub)}"

definition cell_entries :: "llama_kv_cell \<Rightarrow> (int \<times> int) set" where
  "cell_entries c = {(s, p). s \<in> c_seq_id c \<and> p = c_pos c}"

lemma kv_entries_cells: "kv_entries kv = (\<Union>c \<in> set (cells kv). cell_entries c)"
  by (auto simp: kv_entries_def cell_entries_def)

lemma entries_place:
  assumes "ubatch_ok ub" "window_free cs (ub_n_tokens ub) h" "\<forall>c \<in> set cs. cell_ok c"
  shows "(\<Union>c \<in> set (place_ubatch ub h cs). cell_entries c) =
    (\<Union>c \<in> set cs. cell_entries c) \<union> ubatch_entries ub"
proof -
  let ?n = "ub_n_tokens ub"
  let ?new = "place_ubatch ub h cs"
  have fits: "h + ?n \<le> length cs" and free: "\<forall>i<?n. c_pos (cs ! (h + i)) < 0"
    using assms(2) by (auto simp: window_free_def)
  note cells = place_ubatch_nth [OF assms(1) fits]
  have old: "cell_entries (cs ! j) = {}" if "h \<le> j" "j < h + ?n" for j
    using that free [rule_format, of "j - h"] assms(3) fits
    by (auto simp: cell_entries_def cell_ok_def)
  have new: "cell_entries (?new ! (h + k)) =
      {(s, p). p = ub_pos ub ! k \<and> s \<in> token_ids ub (k div ub_n_seq_tokens ub)}" if "k < ?n" for k
    using that old [of "h + k"] fits by (auto simp: cells cell_entries_def put_token_def)
  have other: "cell_entries (?new ! j) = cell_entries (cs ! j)"
    if "j < length cs" "\<not> (h \<le> j \<and> j < h + ?n)" for j
    using that by (auto simp: cells)
  have "x \<in> (\<Union>j<length cs. cell_entries (?new ! j)) \<longleftrightarrow>
      x \<in> (\<Union>j<length cs. cell_entries (cs ! j)) \<union> ubatch_entries ub" for x
  proof
    assume "x \<in> (\<Union>j<length cs. cell_entries (?new ! j))"
    then obtain j where j: "j < length cs" "x \<in> cell_entries (?new ! j)" by auto
    show "x \<in> (\<Union>j<length cs. cell_entries (cs ! j)) \<union> ubatch_entries ub"
    proof (cases "h \<le> j \<and> j < h + ?n")
      case True
      then have k: "j - h < ?n" "h + (j - h) = j" by auto
      have "x \<in> cell_entries (?new ! (h + (j - h)))"
        using j(2) k(2) by simp
      then have "x \<in> ubatch_entries ub"
        unfolding new [OF k(1)] ubatch_entries_def using k(1) by auto
      then show ?thesis by simp
    next
      case False
      then show ?thesis using j other by auto
    qed
  next
    assume "x \<in> (\<Union>j<length cs. cell_entries (cs ! j)) \<union> ubatch_entries ub"
    then consider j where "j < length cs" "x \<in> cell_entries (cs ! j)"
      | k where "k < ?n" "x \<in> cell_entries (?new ! (h + k))"
      using new by (auto simp: ubatch_entries_def)
    then show "x \<in> (\<Union>j<length cs. cell_entries (?new ! j))"
    proof cases
      case 1
      then have "\<not> (h \<le> j \<and> j < h + ?n)" using old by auto
      then show ?thesis using 1 other by auto
    next
      case 2
      then show ?thesis using fits by (intro UN_I [of "h + k"]) auto
    qed
  qed
  then show ?thesis
    by (simp only: UN_set_nth cells(1) set_eq_iff) blast
qed

lemma cell_ok_put_token:
  assumes "ubatch_ok ub" "cell_ok c" "k < ub_n_tokens ub"
  shows "cell_ok (put_token ub k c)"
proof -
  have "k div ub_n_seq_tokens ub < ub_n_seqs ub"
    using assms(1,3) by (simp add: ubatch_ok_def less_mult_imp_div_less)
  then have "token_ids ub (k div ub_n_seq_tokens ub) \<noteq> {}"
    using assms(1) by (fastforce simp: ubatch_ok_def token_ids_def)
  moreover have "0 \<le> ub_pos ub ! k"
    using assms(1,3) by (simp add: ubatch_ok_def)
  moreover have "finite (token_ids ub s)" for s
    by (simp add: token_ids_def)
  ultimately show ?thesis
    using assms(2) by (simp add: put_token_def cell_ok_def)
qed

lemma cells_ok_place:
  assumes "ubatch_ok ub" "h + ub_n_tokens ub \<le> length cs" "\<forall>c \<in> set cs. cell_ok c"
  shows "\<forall>c \<in> set (place_ubatch ub h cs). cell_ok c"
proof
  fix c assume "c \<in> set (place_ubatch ub h cs)"
  then obtain j where "j < length cs"
    "c = (if h \<le> j \<and> j < h + ub_n_tokens ub then put_token ub (j - h) (cs ! j) else cs ! j)"
    unfolding place_ubatch_cells [OF assms(1,2)] by auto
  then show "cell_ok c"
    using assms by (auto intro!: cell_ok_put_token)
qed


section \<open>Sweeps\<close>

lemma kv_sweep_cells:
  "fst (kv_sweep body sz i cs u nh) = map (\<lambda>j. o_cell (body (i + j) (cs ! j))) [0..<length cs]"
proof (induction cs arbitrary: i u nh)
  case (Cons c cs)
  have "map (\<lambda>j. o_cell (body (i + j) ((c # cs) ! j))) [0..<length (c # cs)] =
      o_cell (body i c) # map (\<lambda>j. o_cell (body (Suc i + j) (cs ! j))) [0..<length cs]"
    by (simp add: upt_conv_Cons map_Suc_upt [symmetric] del: upt_Suc)
  then show ?case by (simp add: Let_def Cons.IH del: upt_Suc)
qed simp

lemma kv_sweep_map:
  "fst (kv_sweep (\<lambda>_. b) sz i cs u nh) = map (\<lambda>c. o_cell (b c)) cs"
  by (rule nth_equalityI) (simp_all add: kv_sweep_cells)

text \<open>A body that never fills a cell and reports exactly the cells it empties.\<close>

definition sweep_honest :: "(llama_kv_cell \<Rightarrow> sweep_out) \<Rightarrow> bool" where
  "sweep_honest b \<longleftrightarrow> (\<forall>c. cell_ok c \<longrightarrow> cell_ok (o_cell (b c))
     \<and> (o_dec (b c) \<longleftrightarrow> taken c \<and> \<not> taken (o_cell (b c)))
     \<and> (taken (o_cell (b c)) \<longrightarrow> taken c))"

lemma sweep_honestD:
  assumes "sweep_honest b" "cell_ok c"
  shows "cell_ok (o_cell (b c))" "o_dec (b c) \<longleftrightarrow> taken c \<and> \<not> taken (o_cell (b c))"
    "taken (o_cell (b c)) \<Longrightarrow> taken c"
  using assms by (auto simp: sweep_honest_def)

lemma kv_sweep_used:
  assumes "sweep_honest b" "\<forall>c \<in> set cs. cell_ok c"
    "u = k + count_if taken cs" "u < u32_max1"
  shows "fst (snd (kv_sweep (\<lambda>_. b) sz i cs u nh)) = k + count_if taken (map (\<lambda>c. o_cell (b c)) cs)"
  using assms(2-4)
proof (induction cs arbitrary: i u nh k)
  case (Cons c cs)
  have c: "cell_ok c" using Cons.prems by simp
  note honest = sweep_honestD [OF assms(1) c]
  let ?u = "if o_dec (b c) then u32_sub u 1 else u"
  let ?k = "k + (if taken (o_cell (b c)) then 1 else 0)"
  have "?u = ?k + count_if taken cs"
    using Cons.prems honest by (cases "taken c") auto
  moreover have "?u < u32_max1"
    using Cons.prems honest by (cases "taken c") auto
  ultimately have "fst (snd (kv_sweep (\<lambda>_. b) sz (Suc i) cs ?u nh')) =
      ?k + count_if taken (map (\<lambda>c. o_cell (b c)) cs)" for nh'
    using Cons.prems by (intro Cons.IH) auto
  then show ?case by (simp add: Let_def del: count_if_Cons)  (simp split: if_splits)
qed simp

lemma kv_sweep_head_le:
  assumes "nh \<le> sz" "i + length cs \<le> sz"
  shows "snd (snd (kv_sweep body sz i cs u nh)) \<le> sz"
  using assms by (induction cs arbitrary: i u nh) (auto simp: Let_def)

lemma kv_sweep_head_kept:
  assumes "nh \<noteq> sz"
  shows "snd (snd (kv_sweep body sz i cs u nh)) = nh"
  using assms by (induction cs arbitrary: i u) (auto simp: Let_def)

text \<open>The remembered head is the first hole of the sweep.\<close>

lemma kv_sweep_head_first:
  assumes "i + length cs \<le> sz" "j < length cs" "o_hole (body (i + j) (cs ! j))"
  shows "snd (snd (kv_sweep body sz i cs u sz)) \<le> i + j"
  using assms
proof (induction cs arbitrary: i u j)
  case (Cons c cs)
  show ?case
  proof (cases "o_hole (body i c)")
    case True
    then show ?thesis
      using Cons.prems by (simp add: Let_def kv_sweep_head_kept)
  next
    case False
    then obtain j' where "j = Suc j'"
      using Cons.prems(3) by (cases j) auto
    then show ?thesis
      using False Cons.IH [of "Suc i" j'] Cons.prems by (simp add: Let_def)
  qed
qed simp

lemma used_bound: "kv_ok kv \<Longrightarrow> used kv < u32_max1"
  using kv_okD [of kv] count_if_le_length [of taken "cells kv"] kv_limit_u32 by linarith

lemma kv_ok_sweep:
  assumes "kv_ok kv" "sweep_honest b"
    "kv_sweep (\<lambda>_. b) (kv_size kv) 0 (cells kv) (used kv) (kv_size kv) = (cs', u, nh)"
    "cells kv' = cs'" "used kv' = u" "head kv' \<le> kv_size kv" "kv_size kv' = kv_size kv"
    "recurrent kv' = recurrent kv"
  shows "kv_ok kv'" "cells kv' = map (\<lambda>c. o_cell (b c)) (cells kv)"
proof -
  have cs': "cs' = map (\<lambda>c. o_cell (b c)) (cells kv)"
    using kv_sweep_map [of b] assms(3) by (metis fst_conv)
  have "u = 0 + count_if taken (map (\<lambda>c. o_cell (b c)) (cells kv))"
    using kv_sweep_used [of b "cells kv" "used kv" 0, OF assms(2)] assms(1,3)
      kv_okD [OF assms(1)] used_bound [OF assms(1)] by (metis add_0 fst_conv snd_conv)
  then show "kv_ok kv'"
    using assms(1,2,4-8) cs' by (auto simp: kv_ok_def sweep_honest_def)
  show "cells kv' = map (\<lambda>c. o_cell (b c)) (cells kv)"
    using assms(4) cs' by simp
qed

lemma kv_sweep_nh:
  assumes "kv_ok kv"
    "kv_sweep body (kv_size kv) 0 (cells kv) (used kv) (kv_size kv) = (cs', u, nh)"
  shows "nh \<le> kv_size kv"
  using kv_sweep_head_le [of "kv_size kv" "kv_size kv" 0 "cells kv" body "used kv"]
    assms(2) kv_okD(2) [OF assms(1)] by simp


section \<open>Every operation keeps the invariant\<close>

lemma norm_p0_nonneg [simp]: "0 \<le> norm_p0 p0"
  by (simp add: norm_p0_def)

lemmas cell_simps = cell_ok_def taken_def is_empty_cell_def has_seq_id_def in_range_def keep_cell_def

lemma honest_rm: "0 \<le> p0 \<Longrightarrow> sweep_honest (seq_rm_body s p0 p1)"
  by (auto simp: sweep_honest_def seq_rm_body_def Let_def cell_simps)

lemma honest_keep: "sweep_honest (seq_keep_body False s i)"
  by (auto simp: sweep_honest_def seq_keep_body_def Let_def cell_simps)

lemma honest_add: "0 \<le> p0 \<Longrightarrow> sweep_honest (seq_add_body s p0 p1 d)"
  by (auto simp: sweep_honest_def seq_add_body_def Let_def cell_simps)

lemma seq_keep_body_const: "seq_keep_body False s = (\<lambda>_. seq_keep_body False s 0)"
  by (intro ext) (simp add: seq_keep_body_def)

lemma seq_rm_spec:
  assumes "kv_ok kv" "llama_kv_cache_seq_rm kv s p0 p1 = (ok, kv')"
  shows "ok" "kv_ok kv'"
    "cells kv' = map (\<lambda>c. o_cell (seq_rm_body s (norm_p0 p0) (norm_p1 p1) c)) (cells kv)"
proof -
  let ?b = "seq_rm_body s (norm_p0 p0) (norm_p1 p1)"
  obtain cs' u nh where sw:
    "kv_sweep (\<lambda>_. ?b) (kv_size kv) 0 (cells kv) (used kv) (kv_size kv) = (cs', u, nh)"
    using prod_cases3 by blast
  then have kv': "(ok, kv') = (True, kv\<lparr>cells := cs', used := u,
      head := (if nh \<noteq> kv_size kv \<and> nh < head kv then nh else head kv)\<rparr>)"
    using assms(2) kv_okD(1) [OF assms(1)] by (simp add: llama_kv_cache_seq_rm_def Let_def)
  show "ok" using kv' by simp
  show "kv_ok kv'" "cells kv' = map (\<lambda>c. o_cell (?b c)) (cells kv)"
    using kv_ok_sweep [OF assms(1) honest_rm sw, of kv'] kv' kv_okD(4) [OF assms(1)] by auto
qed

lemma seq_keep_spec:
  assumes "kv_ok kv"
  shows "kv_ok (llama_kv_cache_seq_keep kv s)"
    "cells (llama_kv_cache_seq_keep kv s) = map (\<lambda>c. o_cell (seq_keep_body False s 0 c)) (cells kv)"
proof -
  let ?b = "seq_keep_body False s 0"
  obtain cs' u nh where sw:
    "kv_sweep (\<lambda>_. ?b) (kv_size kv) 0 (cells kv) (used kv) (kv_size kv) = (cs', u, nh)"
    using prod_cases3 by blast
  then have kv': "llama_kv_cache_seq_keep kv s = kv\<lparr>cells := cs', used := u,
      head := (if nh \<noteq> kv_size kv \<and> nh < head kv then nh else head kv)\<rparr>"
    using kv_okD(1) [OF assms] seq_keep_body_const
    by (simp add: llama_kv_cache_seq_keep_def Let_def)
  show "kv_ok (llama_kv_cache_seq_keep kv s)"
    "cells (llama_kv_cache_seq_keep kv s) = map (\<lambda>c. o_cell (?b c)) (cells kv)"
    using kv_ok_sweep [OF assms honest_keep sw, of "llama_kv_cache_seq_keep kv s"]
      kv' kv_okD(4) [OF assms] by auto
qed

lemma seq_add_spec:
  assumes "kv_ok kv" "norm_p0 p0 \<noteq> norm_p1 p1"
  shows "kv_ok (llama_kv_cache_seq_add kv s p0 p1 d)"
    "cells (llama_kv_cache_seq_add kv s p0 p1 d) =
      map (\<lambda>c. o_cell (seq_add_body s (norm_p0 p0) (norm_p1 p1) d c)) (cells kv)"
proof -
  let ?b = "seq_add_body s (norm_p0 p0) (norm_p1 p1) d"
  obtain cs' u nh where sw:
    "kv_sweep (\<lambda>_. ?b) (kv_size kv) 0 (cells kv) (used kv) (kv_size kv) = (cs', u, nh)"
    using prod_cases3 by blast
  then have kv': "llama_kv_cache_seq_add kv s p0 p1 d = kv\<lparr>cells := cs', used := u,
      has_shift := has_shift kv \<or> seq_hits s (norm_p0 p0) (norm_p1 p1) (cells kv),
      head := (if nh \<noteq> kv_size kv then nh else 0)\<rparr>"
    using kv_okD(1) [OF assms(1)] assms(2) by (simp add: llama_kv_cache_seq_add_def Let_def)
  show "kv_ok (llama_kv_cache_seq_add kv s p0 p1 d)"
    "cells (llama_kv_cache_seq_add kv s p0 p1 d) = map (\<lambda>c. o_cell (?b c)) (cells kv)"
    using kv_ok_sweep [OF assms(1) honest_add sw, of "llama_kv_cache_seq_add kv s p0 p1 d"]
      kv' kv_sweep_nh [OF assms(1) sw] by auto
qed

lemma count_if_map_same:
  assumes "\<And>c. c \<in> set cs \<Longrightarrow> P (f c) = P c"
  shows "count_if P (map f cs) = count_if P cs"
  using assms by (induction cs) auto

lemma seq_cp_ok: "kv_ok kv \<Longrightarrow> kv_ok (llama_kv_cache_seq_cp kv src dst p0 p1)"
proof -
  assume kv: "kv_ok kv"
  let ?f = "seq_cp_cell src dst (norm_p0 p0) (norm_p1 p1)"
  have "count_if taken (map ?f (cells kv)) = count_if taken (cells kv)"
    using kv_okD(5) [OF kv]
    by (intro count_if_map_same) (auto simp: seq_cp_cell_def cell_simps)
  then show ?thesis
    using kv by (auto simp: llama_kv_cache_seq_cp_def kv_ok_def seq_cp_cell_def cell_simps)
qed

lemma seq_div_ok:
  assumes "kv_ok kv" "0 < d" "llama_kv_cache_seq_div kv s p0 p1 d = Inr kv'"
  shows "kv_ok kv'"
proof (cases "norm_p0 p0 = norm_p1 p1")
  case True
  then show ?thesis using assms by (simp add: llama_kv_cache_seq_div_def)
next
  case False
  let ?f = "seq_div_cell s (norm_p0 p0) (norm_p1 p1) d"
  have div: "0 \<le> c_div (c_pos c) d" if "in_range (norm_p0 p0) (norm_p1 p1) c" for c
    using that assms(2) norm_p0_nonneg [of p0]
    by (simp add: in_range_def c_div_nonneg pos_imp_zdiv_nonneg_iff del: norm_p0_nonneg)
  have f: "taken (?f c) = taken c" "cell_ok c \<Longrightarrow> cell_ok (?f c)" for c
    using div [of c]
    by (auto simp: seq_div_cell_def cell_ok_def taken_def is_empty_cell_def has_seq_id_def)
  have "cells kv' = map ?f (cells kv)" "recurrent kv' = recurrent kv" "kv_size kv' = kv_size kv"
    "head kv' = head kv" "used kv' = used kv"
    using assms False kv_okD(1) [OF assms(1)]
    by (auto simp: llama_kv_cache_seq_div_def Let_def split: if_splits)
  with assms(1) f show ?thesis
    by (auto simp: kv_ok_def count_if_map_same)
qed

lemma clear_ok: "kv_ok kv \<Longrightarrow> kv_ok (llama_kv_cache_clear kv)"
  by (auto simp: kv_ok_def llama_kv_cache_clear_def cell_ok_def taken_def is_empty_cell_def
      count_if_0_iff [THEN iffD2])

lemma find_slot_spec:
  assumes "kv_ok kv" "ubatch_ok ub"
  obtains kv' si where "llama_kv_cache_find_slot kv ub = Inr (kv', si)" "kv_ok kv'"
    "found si \<longleftrightarrow> (\<exists>a. window_free (cells kv) (ub_n_tokens ub) a)"
    "found si \<Longrightarrow> boundaries si = (head kv', head kv' + ub_n_tokens ub)
      \<and> window_free (cells kv) (ub_n_tokens ub) (head kv')
      \<and> cells kv' = place_ubatch ub (head kv') (cells kv)
      \<and> kv_entries kv' = kv_entries kv \<union> ubatch_entries ub"
    "\<not> found si \<Longrightarrow> cells kv' = cells kv"
proof (cases "kv_size kv < ub_n_tokens ub")
  case True
  have "llama_kv_cache_find_slot kv ub = Inr (kv, slot_flag False)"
    using True kv_okD(1) [OF assms(1)]
    by (simp add: llama_kv_cache_find_slot_def find_slot_attn_def Let_def)
  then show thesis
    using True kv_okD(2) [OF assms(1)] assms(1)
    by (intro that [of kv "slot_flag False"]) (auto simp: slot_flag_def window_free_def)
next
  case False
  let ?n = "ub_n_tokens ub"
  note kv = kv_okD [OF assms(1)]
  obtain h b where w: "find_window (cells kv) (kv_size kv) ?n (head kv) 0 = Some (h, b)"
    "h \<le> length (cells kv)"
    "if b then window_free (cells kv) ?n h else \<forall>a. \<not> window_free (cells kv) ?n a"
    using find_window_start [OF assms(1), of ?n] False
    by (auto simp: window_result_def split: option.splits)
  show thesis
  proof (cases b)
    case True
    then have free: "window_free (cells kv) ?n h" using w(3) by simp
    then have fits: "h + ?n \<le> length (cells kv)" by (simp add: window_free_def)
    let ?kv' = "kv\<lparr>head := h, cells := place_ubatch ub h (cells kv), used := u32_add (used kv) ?n\<rparr>"
    have ok: "\<forall>c \<in> set (cells kv). cell_ok c" using kv(5) by simp
    have cnt: "count_if taken (place_ubatch ub h (cells kv)) = used kv + ?n"
      using count_taken_place [OF assms(2) free ok] kv(6) by simp
    then have "used kv + ?n < u32_max1"
      using count_if_le_length [of taken "place_ubatch ub h (cells kv)"]
        place_ubatch_nth(1) [OF assms(2) fits] kv(2,3) kv_limit_u32 by linarith
    then have "kv_ok ?kv'"
      using cnt kv(1-4) w(2) cells_ok_place [OF assms(2) fits ok] place_ubatch_nth(1) [OF assms(2) fits]
      by (simp add: kv_ok_def)
    moreover have "llama_kv_cache_find_slot kv ub = Inr (?kv', slot_range h (h + ?n))"
      using False True w(1) kv(1)
      by (simp add: llama_kv_cache_find_slot_def find_slot_attn_def Let_def)
    moreover have "kv_entries ?kv' = kv_entries kv \<union> ubatch_entries ub"
      using entries_place [OF assms(2) free ok] by (simp add: kv_entries_cells)
    ultimately show thesis
      using free by (intro that [of ?kv' "slot_range h (h + ?n)"]) (auto simp: slot_range_def)
  next
    case no: False
    let ?kv' = "kv\<lparr>head := h\<rparr>"
    have "llama_kv_cache_find_slot kv ub = Inr (?kv', slot_flag False)"
      using False no w(1) kv(1)
      by (simp add: llama_kv_cache_find_slot_def find_slot_attn_def Let_def)
    moreover have "kv_ok ?kv'" using kv w(2) by (simp add: kv_ok_def)
    ultimately show thesis
      using no w(3) by (intro that [of ?kv' "slot_flag False"]) (auto simp: slot_flag_def)
  qed
qed


section \<open>What the operations do to the entries\<close>

definition hit :: "int \<Rightarrow> int \<Rightarrow> int \<Rightarrow> bool" where
  "hit p0 p1 p \<longleftrightarrow> norm_p0 p0 \<le> p \<and> p < norm_p1 p1"

lemma entries_map:
  assumes "cells kv' = map f (cells kv)" "\<And>c. c \<in> set (cells kv) \<Longrightarrow> cell_entries (f c) = g (cell_entries c)"
    "\<And>A. g (\<Union>A) = (\<Union>a \<in> A. g a)"
  shows "kv_entries kv' = g (kv_entries kv)"
  using assms by (auto simp: kv_entries_cells)

lemma entries_rm:
  assumes "kv_ok kv"
  shows "kv_entries (snd (llama_kv_cache_seq_rm kv s p0 p1)) =
    {(t, p) \<in> kv_entries kv. \<not> ((s < 0 \<or> t = s) \<and> hit p0 p1 p)}"
  by (rule entries_map [OF seq_rm_spec(3) [OF assms prod.collapse [symmetric]]])
    (auto simp: cell_entries_def seq_rm_body_def Let_def cell_simps hit_def)

lemma entries_keep:
  assumes "kv_ok kv"
  shows "kv_entries (llama_kv_cache_seq_keep kv s) = {(t, p) \<in> kv_entries kv. t = s}"
  by (rule entries_map [OF seq_keep_spec(2) [OF assms]])
    (auto simp: cell_entries_def seq_keep_body_def Let_def cell_simps)

lemma entries_cp:
  assumes "kv_ok kv"
  shows "kv_entries (llama_kv_cache_seq_cp kv src dst p0 p1) =
    kv_entries kv \<union> {(dst, p) | p. (src, p) \<in> kv_entries kv \<and> hit p0 p1 p}"
proof -
  have "cells (llama_kv_cache_seq_cp kv src dst p0 p1) =
      map (seq_cp_cell src dst (norm_p0 p0) (norm_p1 p1)) (cells kv)"
    using kv_okD(1) [OF assms] by (simp add: llama_kv_cache_seq_cp_def)
  then show ?thesis
    by (rule entries_map)
      (auto simp: cell_entries_def seq_cp_cell_def has_seq_id_def in_range_def hit_def)
qed

text \<open>No cell of sequence \<open>s\<close> is shared with another sequence.\<close>

definition kv_alone :: "llama_kv_cache \<Rightarrow> int \<Rightarrow> bool" where
  "kv_alone kv s \<longleftrightarrow> (\<forall>c \<in> set (cells kv). s \<in> c_seq_id c \<longrightarrow> c_seq_id c = {s})"

lemma entries_add:
  assumes "kv_ok kv" "kv_alone kv s"
  shows "kv_entries (llama_kv_cache_seq_add kv s p0 p1 d) =
    {(t, p) \<in> kv_entries kv. \<not> (t = s \<and> hit p0 p1 p)}
    \<union> {(s, p + d) | p. (s, p) \<in> kv_entries kv \<and> hit p0 p1 p \<and> 0 \<le> p + d}"
proof (cases "norm_p0 p0 = norm_p1 p1")
  case True
  then show ?thesis by (auto simp: llama_kv_cache_seq_add_def hit_def)
next
  case False
  let ?g = "\<lambda>E. {(t, p) \<in> E. \<not> (t = s \<and> hit p0 p1 p)}
    \<union> {(s, p + d) | p. (s, p) \<in> E \<and> hit p0 p1 p \<and> 0 \<le> p + d}"
  show ?thesis
  proof (rule entries_map [OF seq_add_spec(2) [OF assms(1) False], where g = ?g])
    fix c assume c: "c \<in> set (cells kv)"
    show "cell_entries (o_cell (seq_add_body s (norm_p0 p0) (norm_p1 p1) d c)) = ?g (cell_entries c)"
    proof (cases "s \<in> c_seq_id c")
      case True
      then have "c_seq_id c = {s}" using assms(2) c by (auto simp: kv_alone_def)
      then show ?thesis
        by (auto simp: cell_entries_def seq_add_body_def Let_def cell_simps hit_def)
    next
      case False
      then show ?thesis
        by (auto simp: cell_entries_def seq_add_body_def Let_def cell_simps hit_def)
    qed
  qed auto
qed

lemma alone_rm:
  assumes "kv_ok kv" "kv_alone kv s"
  shows "kv_alone (snd (llama_kv_cache_seq_rm kv t p0 p1)) s"
proof -
  have "s \<in> c_seq_id (o_cell (seq_rm_body t p0 p1 c)) \<longrightarrow>
      c_seq_id (o_cell (seq_rm_body t p0 p1 c)) = {s}"
    if "s \<in> c_seq_id c \<longrightarrow> c_seq_id c = {s}" for p0 p1 c
    using that by (auto simp: seq_rm_body_def Let_def cell_simps split: if_splits)
  then show ?thesis
    using assms(2) unfolding kv_alone_def seq_rm_spec(3) [OF assms(1) prod.collapse [symmetric]]
    by simp
qed

lemma rm_ok: "kv_ok kv \<Longrightarrow> kv_ok (snd (llama_kv_cache_seq_rm kv s p0 p1))"
  by (rule seq_rm_spec(2) [OF _ prod.collapse [symmetric]])

lemma add_ok:
  assumes "kv_ok kv"
  shows "kv_ok (llama_kv_cache_seq_add kv s p0 p1 d)"
proof (cases "norm_p0 p0 = norm_p1 p1")
  case True
  then show ?thesis using assms by (simp add: llama_kv_cache_seq_add_def)
qed (rule seq_add_spec(1) [OF assms])

section \<open>The sequence store interface\<close>

text \<open>
  What callers of the cache rely on: a store of (sequence, position) entries in which
  ranges are removed and copied and one sequence can be kept.
\<close>

locale seq_store =
  fixes inv :: "'m \<Rightarrow> bool"
    and entries :: "'m \<Rightarrow> (int \<times> int) set"
    and rm :: "'m \<Rightarrow> int \<Rightarrow> int \<Rightarrow> int \<Rightarrow> 'm"
    and cp :: "'m \<Rightarrow> int \<Rightarrow> int \<Rightarrow> int \<Rightarrow> int \<Rightarrow> 'm"
    and keep :: "'m \<Rightarrow> int \<Rightarrow> 'm"
  assumes inv_rm: "inv m \<Longrightarrow> inv (rm m s p0 p1)"
    and inv_cp: "inv m \<Longrightarrow> inv (cp m s t p0 p1)"
    and inv_keep: "inv m \<Longrightarrow> inv (keep m s)"
    and rm_entries: "inv m \<Longrightarrow> entries (rm m s p0 p1) =
      {(t, p) \<in> entries m. \<not> ((s < 0 \<or> t = s) \<and> hit p0 p1 p)}"
    and cp_entries: "inv m \<Longrightarrow> entries (cp m s t p0 p1) =
      entries m \<union> {(t, p) | p. (s, p) \<in> entries m \<and> hit p0 p1 p}"
    and keep_entries: "inv m \<Longrightarrow> entries (keep m s) = {(t, p) \<in> entries m. t = s}"
begin

lemma fork_then_drop:
  assumes "inv m" "0 \<le> t" "\<And>p. (t, p) \<notin> entries m" "\<And>p. (s, p) \<in> entries m \<Longrightarrow> hit (-1) (-1) p"
  shows "entries (rm (cp m s t p0 p1) t (-1) (-1)) = entries m"
  using assms by (auto simp: rm_entries cp_entries inv_cp)

lemma fork_then_commit:
  assumes "inv m" "\<And>p. (s, p) \<in> entries m \<Longrightarrow> hit (-1) (-1) p" "\<And>p. (t, p) \<notin> entries m"
  shows "entries (keep (cp m s t (-1) (-1)) t) = {(t, p) | p. (s, p) \<in> entries m}"
  using assms by (auto simp: keep_entries cp_entries inv_cp)

lemma rm_many:
  assumes "inv m"
  shows "inv (fold (\<lambda>t m. rm m t (-1) (-1)) ts m)
    \<and> entries (fold (\<lambda>t m. rm m t (-1) (-1)) ts m) =
      {(u, p) \<in> entries m. \<not> ((\<exists>t \<in> set ts. t < 0 \<or> u = t) \<and> hit (-1) (-1) p)}"
  using assms
proof (induction ts arbitrary: m)
  case (Cons t ts)
  then show ?case
    using Cons.IH [OF inv_rm [OF Cons.prems], of t "-1" "-1"] rm_entries [OF Cons.prems]
    by auto
qed auto

lemma keep_removes_others:
  assumes "inv m" "s \<notin> set ts" "\<forall>t \<in> set ts. 0 \<le> t"
    "\<And>u p. (u, p) \<in> entries m \<Longrightarrow> (u = s \<or> u \<in> set ts) \<and> hit (-1) (-1) p"
  shows "entries (fold (\<lambda>t m. rm m t (-1) (-1)) ts m) = entries (keep m s)"
proof -
  have "entries (fold (\<lambda>t m. rm m t (-1) (-1)) ts m) =
      {(u, p) \<in> entries m. \<not> ((\<exists>t \<in> set ts. t < 0 \<or> u = t) \<and> hit (-1) (-1) p)}"
    using rm_many [OF assms(1)] by blast
  also have "\<dots> = {(u, p) \<in> entries m. u = s}"
    using assms(2-4) by fastforce
  finally show ?thesis by (simp add: keep_entries [OF assms(1)])
qed

end

lemma shifted_iff: "((s, p) \<in> {(s, q + d) | q. P q}) = P (p - d)" for p d :: int
  by (auto intro: exI [of _ "p - d"])

text \<open>A store whose positions can be shifted, for a sequence that shares no cell.\<close>

locale shift_store = seq_store +
  fixes add :: "'m \<Rightarrow> int \<Rightarrow> int \<Rightarrow> int \<Rightarrow> int \<Rightarrow> 'm"
    and alone :: "'m \<Rightarrow> int \<Rightarrow> bool"
  assumes inv_add: "inv m \<Longrightarrow> inv (add m s p0 p1 d)"
    and rm_alone: "inv m \<Longrightarrow> alone m s \<Longrightarrow> alone (rm m t p0 p1) s"
    and add_entries: "inv m \<Longrightarrow> alone m s \<Longrightarrow> entries (add m s p0 p1 d) =
      {(t, p) \<in> entries m. \<not> (t = s \<and> hit p0 p1 p)}
      \<union> {(s, p + d) | p. (s, p) \<in> entries m \<and> hit p0 p1 p \<and> 0 \<le> p + d}"
begin

lemma context_shift:
  assumes "inv m" "alone m s" "\<And>p. (s, p) \<in> entries m \<longleftrightarrow> 0 \<le> p \<and> p < n_past"
    "0 \<le> n_keep" "0 \<le> n_discard" "n_keep + n_discard \<le> n_past" "n_past < int32_max"
    "m' = add (rm m s n_keep (n_keep + n_discard)) s (n_keep + n_discard) n_past (- n_discard)"
  shows "inv m' \<and> (\<forall>p. (s, p) \<in> entries m' \<longleftrightarrow> 0 \<le> p \<and> p < n_past - n_discard)"
proof
  let ?m1 = "rm m s n_keep (n_keep + n_discard)"
  have m1: "inv ?m1" "alone ?m1 s"
    using assms(1,2) by (auto intro: inv_rm rm_alone)
  show "inv m'" using m1 by (simp add: assms(8) inv_add)
  have e1: "(s, p) \<in> entries ?m1 \<longleftrightarrow> 0 \<le> p \<and> p < n_past \<and> \<not> (n_keep \<le> p \<and> p < n_keep + n_discard)" for p
    using assms(3-7) by (auto simp: rm_entries [OF assms(1)] hit_def norm_p0_def norm_p1_def)
  have h: "hit (n_keep + n_discard) n_past p \<longleftrightarrow> n_keep + n_discard \<le> p \<and> p < n_past" for p
    using assms(4-6) by (simp add: hit_def norm_p0_def norm_p1_def)
  have eq: "(s, p) \<in> entries m' \<longleftrightarrow>
      ((s, p) \<in> entries ?m1 \<and> \<not> hit (n_keep + n_discard) n_past p)
      \<or> ((s, p + n_discard) \<in> entries ?m1 \<and> hit (n_keep + n_discard) n_past (p + n_discard)
          \<and> 0 \<le> p)" for p
    unfolding assms(8) add_entries [OF m1] Un_iff shifted_iff by simp
  show "\<forall>p. (s, p) \<in> entries m' \<longleftrightarrow> 0 \<le> p \<and> p < n_past - n_discard"
  proof
    fix p
    show "(s, p) \<in> entries m' \<longleftrightarrow> 0 \<le> p \<and> p < n_past - n_discard"
      unfolding eq h e1 using assms(4-6) by arith
  qed
qed

end

definition kv_rm :: "llama_kv_cache \<Rightarrow> int \<Rightarrow> int \<Rightarrow> int \<Rightarrow> llama_kv_cache" where
  "kv_rm kv s p0 p1 = snd (llama_kv_cache_seq_rm kv s p0 p1)"

interpretation kv: shift_store kv_ok kv_entries kv_rm llama_kv_cache_seq_cp
    llama_kv_cache_seq_keep llama_kv_cache_seq_add kv_alone
  by unfold_locales
    (simp_all add: kv_rm_def rm_ok seq_cp_ok seq_keep_spec(1) entries_rm entries_cp entries_keep
      add_ok alone_rm entries_add)

end
