(* ===== verification/KvTheorems.thy ===== *)
theory KvTheorems
  imports KvProps
begin

text \<open>
  The properties of the KV cache: the invariant over every run of operations, the slot
  search, the refinement of the sequence operations, the context shift built from them,
  and the two faults of the slot restorer.
\<close>

section \<open>Runs of operations\<close>

inductive kv_step :: "llama_kv_cache \<Rightarrow> llama_kv_cache \<Rightarrow> bool" where
  step_find: "ubatch_ok (ub :: unit llama_ubatch) \<Longrightarrow> llama_kv_cache_find_slot kv ub = Inr (kv', si)
    \<Longrightarrow> kv_step kv kv'"
| step_rm: "llama_kv_cache_seq_rm kv s p0 p1 = (ok, kv') \<Longrightarrow> kv_step kv kv'"
| step_cp: "kv_step kv (llama_kv_cache_seq_cp kv s t p0 p1)"
| step_keep: "kv_step kv (llama_kv_cache_seq_keep kv s)"
| step_add: "kv_step kv (llama_kv_cache_seq_add kv s p0 p1 d)"
| step_div: "0 < d \<Longrightarrow> llama_kv_cache_seq_div kv s p0 p1 d = Inr kv' \<Longrightarrow> kv_step kv kv'"
| step_clear: "kv_step kv (llama_kv_cache_clear kv)"
| step_defrag: "kv_step kv (llama_kv_cache_defrag kv)"

inductive kv_reachable :: "nat \<Rightarrow> llama_kv_cache \<Rightarrow> bool" for sz where
  reach_init: "llama_kv_cache_init old False ds fa sz ok = (True, kv) \<Longrightarrow> kv_reachable sz kv"
| reach_step: "kv_reachable sz kv \<Longrightarrow> kv_step kv kv' \<Longrightarrow> kv_reachable sz kv'"

inductive_cases kv_stepE: "kv_step kv kv'"

lemma kv_step_ok:
  assumes "kv_step kv kv'" "kv_ok kv"
  shows "kv_ok kv'"
  using assms
proof (cases rule: kv_step.cases)
  case (step_find ub si)
  then show ?thesis
    using find_slot_spec [OF assms(2), of ub] by (metis Inr_inject prod.inject)
next
  case (step_rm s p0 p1 ok)
  then show ?thesis using seq_rm_spec(2) assms(2) by blast
next
  case (step_div d s p0 p1)
  then show ?thesis using seq_div_ok assms(2) by blast
next
  case step_defrag
  then show ?thesis using assms(2) by (simp add: llama_kv_cache_defrag_def kv_ok_def)
qed (simp_all add: assms(2) seq_cp_ok seq_keep_spec(1) add_ok clear_ok)

lemma kv_reachable_ok_lemma: "kv_reachable sz kv \<Longrightarrow> sz \<le> kv_limit \<Longrightarrow> kv_ok kv"
proof (induction rule: kv_reachable.induct)
  case (reach_init old ds fa ok kv)
  then show ?case using kv_ok_init [of sz old ds fa ok] by simp
next
  case (reach_step kv kv')
  then show ?case using kv_step_ok by blast
qed

section \<open>Sample caches for the witnesses\<close>

definition sample_cell :: "int \<Rightarrow> int set \<Rightarrow> llama_kv_cell" where
  "sample_cell p ids = empty_cell\<lparr>c_pos := p, c_seq_id := ids\<rparr>"

definition blank_cache :: "bool \<Rightarrow> llama_kv_cell list \<Rightarrow> nat \<Rightarrow> llama_kv_cache" where
  "blank_cache rec cs u =
     \<lparr>has_shift = False, do_defrag = False, recurrent = rec, v_trans = True, can_shift = \<not> rec,
      head = 0, kv_size = length cs, used = u, kv_n = 0, cells = cs\<rparr>"

definition sample_ubatch :: "int \<Rightarrow> int list \<Rightarrow> unit llama_ubatch" where
  "sample_ubatch s ps =
     \<lparr>ub_equal_seqs = True, ub_n_tokens = length ps, ub_n_seq_tokens = length ps, ub_n_seqs = 1,
      ub_token = None, ub_embd = None, ub_pos = ps, ub_n_seq_id = [1], ub_seq_id = [[s]],
      ub_output = []\<rparr>"

text \<open>Two cells hold positions 0 and 1 of sequence 0, two cells are free.\<close>

definition sample_cache :: llama_kv_cache where
  "sample_cache = blank_cache False
     [sample_cell 0 {0}, sample_cell 1 {0}, empty_cell, empty_cell] 2"

lemmas sample_simps = sample_cache_def blank_cache_def sample_cell_def sample_ubatch_def
  empty_cell_def

lemma sample_cache_ok: "kv_ok sample_cache"
  by (simp add: sample_simps kv_ok_def kv_limit_def cell_ok_def taken_def is_empty_cell_def)

lemma sample_ubatch_ok: "\<forall>p \<in> set ps. 0 \<le> p \<Longrightarrow> ubatch_ok (sample_ubatch s ps)"
  by (auto simp: sample_ubatch_def ubatch_ok_def)

lemma sample_entries: "kv_entries sample_cache = {(0, 0), (0, 1)}"
  by (auto simp: sample_simps kv_entries_def)

section \<open>Properties\<close>

text \<open>
  C15. In every state an attention cache can reach from its initialisation through slot
  searches, removals, copies, keeps, shifts, divisions and clears, the counter \<open>used\<close>
  is the number of cells that hold a sequence, a cell is free exactly when its position
  is negative, and the search head stays inside the cache.
\<close>

theorem kv_invariant:
  assumes "kv_reachable sz kv" "sz \<le> kv_limit"
  shows "length (cells kv) = kv_size kv \<and> head kv \<le> kv_size kv
    \<and> used kv = count_if (\<lambda>c. \<not> is_empty_cell c) (cells kv)
    \<and> (\<forall>c \<in> set (cells kv). c_pos c < 0 \<longleftrightarrow> is_empty_cell c)"
proof -
  have "kv_ok kv" using kv_reachable_ok_lemma assms by blast
  then show ?thesis
    by (auto simp: kv_ok_def cell_ok_def is_empty_cell_def taken_def [abs_def])
qed

lemma sample_reachable: "kv_reachable 4 (snd (llama_kv_cache_init kv0 False False False 4 True))"
  by (rule reach_init [where ok = True and ds = False and fa = False and old = kv0])
    (simp add: llama_kv_cache_init_def)

theorem kv_invariant_witness:
  "(4::nat) \<le> kv_limit \<and> head (llama_kv_cache_seq_cp
     (snd (llama_kv_cache_init sample_cache False False False 4 True)) 0 1 0 5) \<le> 4"
proof -
  let ?kv = "llama_kv_cache_seq_cp
     (snd (llama_kv_cache_init sample_cache False False False 4 True)) 0 1 0 5"
  have r: "kv_reachable 4 ?kv"
    by (rule reach_step [OF sample_reachable step_cp])
  have l: "(4::nat) \<le> kv_limit" by (simp add: kv_limit_def)
  have "kv_size ?kv = 4"
    by (simp add: llama_kv_cache_seq_cp_def llama_kv_cache_init_def)
  with kv_invariant [OF r l] l show ?thesis by simp
qed

text \<open>
  C16. The slot search of an attention cache always ends; it succeeds exactly when some
  window of \<open>n_tokens\<close> consecutive cells is free, wherever the previous head was, and
  the slot it returns is such a window starting at the new head.
\<close>

theorem find_slot_finds:
  assumes "kv_ok kv" "ubatch_ok ub"
  shows "\<exists>kv' si. llama_kv_cache_find_slot kv ub = Inr (kv', si)
    \<and> (found si \<longleftrightarrow> (\<exists>a. a + ub_n_tokens ub \<le> kv_size kv
          \<and> (\<forall>i < ub_n_tokens ub. is_empty_cell (cells kv ! (a + i)))))
    \<and> (found si \<longrightarrow> boundaries si = (head kv', head kv' + ub_n_tokens ub)
          \<and> head kv' + ub_n_tokens ub \<le> kv_size kv
          \<and> (\<forall>i < ub_n_tokens ub. is_empty_cell (cells kv ! (head kv' + i))))
    \<and> (\<not> found si \<longrightarrow> cells kv' = cells kv)"
proof -
  have free: "window_free (cells kv) n a \<longleftrightarrow> a + n \<le> kv_size kv
      \<and> (\<forall>i < n. is_empty_cell (cells kv ! (a + i)))" for n a
    using kv_okD(2,5) [OF assms(1)] by (auto simp: window_free_def cell_ok_def is_empty_cell_def)
  show ?thesis
    by (rule find_slot_spec [OF assms]) (auto simp: free)
qed

theorem find_slot_finds_witness:
  "kv_ok sample_cache \<and> ubatch_ok (sample_ubatch 1 [0, 1])
   \<and> (\<exists>kv' si. llama_kv_cache_find_slot sample_cache (sample_ubatch 1 [0, 1]) = Inr (kv', si)
        \<and> found si)"
proof -
  have u: "ubatch_ok (sample_ubatch 1 [0, 1])" by (rule sample_ubatch_ok) simp
  have n: "ub_n_tokens (sample_ubatch 1 [0, 1]) = 2" by (simp add: sample_ubatch_def)
  have "\<exists>a. a + 2 \<le> kv_size sample_cache \<and> (\<forall>i < 2. is_empty_cell (cells sample_cache ! (a + i)))"
    by (rule exI [of _ 2]) (simp add: sample_simps is_empty_cell_def All_less_Suc2 numeral_2_eq_2)
  with find_slot_finds [OF sample_cache_ok u] sample_cache_ok u show ?thesis
    unfolding n by blast
qed

text \<open>
  C17. A successful slot search adds to the cache exactly the (sequence, position) pairs
  of the micro-batch, raises \<open>used\<close> by its number of tokens, and keeps the invariant.
\<close>

theorem find_slot_adds:
  assumes "kv_ok kv" "ubatch_ok ub" "llama_kv_cache_find_slot kv ub = Inr (kv', si)" "found si"
  shows "kv_entries kv' = kv_entries kv \<union> ubatch_entries ub
    \<and> used kv' = used kv + ub_n_tokens ub \<and> kv_ok kv'"
proof -
  from find_slot_spec [OF assms(1,2)] have kv': "kv_ok kv'"
    "window_free (cells kv) (ub_n_tokens ub) (head kv')"
    "cells kv' = place_ubatch ub (head kv') (cells kv)"
    "kv_entries kv' = kv_entries kv \<union> ubatch_entries ub"
    using assms(3,4) by (metis Inr_inject prod.inject)+
  moreover have "used kv' = used kv + ub_n_tokens ub"
    using count_taken_place [OF assms(2) kv'(2)] kv_okD(5,6) [OF assms(1)] kv_okD(6) [OF kv'(1)] kv'(3)
    by simp
  ultimately show ?thesis by simp
qed

text \<open>The slot the sample batch gets, evaluated.\<close>

definition sample_placed :: llama_kv_cache where
  "sample_placed = sample_cache\<lparr>head := 2, used := 4, cells :=
     [sample_cell 0 {0}, sample_cell 1 {0}, sample_cell 0 {1}, sample_cell 1 {1}]\<rparr>"

lemma sample_slot:
  "llama_kv_cache_find_slot sample_cache (sample_ubatch 1 [0, 1]) = Inr (sample_placed, slot_range 2 4)"
  by code_simp

theorem find_slot_adds_witness:
  "\<exists>kv' si. llama_kv_cache_find_slot sample_cache (sample_ubatch 1 [0, 1]) = Inr (kv', si)
    \<and> kv_entries kv' = {(0, 0), (0, 1), (1, 0), (1, 1)} \<and> used kv' = 4"
proof -
  have u: "ubatch_ok (sample_ubatch 1 [0, 1])" by (rule sample_ubatch_ok) simp
  have e: "ubatch_entries (sample_ubatch 1 [0, 1]) = {(1, 0), (1, 1)}"
    by (auto simp: ubatch_entries_def sample_ubatch_def token_ids_def less_Suc_eq)
  have "found (slot_range 2 4)" by (simp add: slot_range_def)
  note adds = find_slot_adds [OF sample_cache_ok u sample_slot this]
  have "kv_entries sample_placed = {(0, 0), (0, 1), (1, 0), (1, 1)}"
    using adds sample_entries e by auto
  moreover have "used sample_placed = 4"
    by (simp add: sample_placed_def)
  ultimately show ?thesis
    using sample_slot by blast
qed

text \<open>
  C18. Removing a range of a sequence deletes exactly that sequence's entries with a
  position in the range (every sequence's when the id is negative; a negative bound means
  the whole side), always succeeds on an attention cache, and leaves the search head at
  or before every cell it freed.
\<close>

theorem seq_rm_refines:
  assumes "kv_ok kv" "llama_kv_cache_seq_rm kv s p0 p1 = (ok, kv')"
  shows "ok \<and> kv_ok kv'
    \<and> kv_entries kv' = {(t, p) \<in> kv_entries kv.
         \<not> ((s < 0 \<or> t = s) \<and> norm_p0 p0 \<le> p \<and> p < norm_p1 p1)}
    \<and> (\<forall>i < kv_size kv. \<not> is_empty_cell (cells kv ! i) \<and> is_empty_cell (cells kv' ! i)
         \<longrightarrow> head kv' \<le> i)"
proof -
  let ?b = "seq_rm_body s (norm_p0 p0) (norm_p1 p1)"
  have kv': "kv' = snd (llama_kv_cache_seq_rm kv s p0 p1)" using assms(2) by simp
  obtain cs' u nh where sw:
    "kv_sweep (\<lambda>_. ?b) (kv_size kv) 0 (cells kv) (used kv) (kv_size kv) = (cs', u, nh)"
    using prod_cases3 by blast
  then have hd: "head kv' = (if nh \<noteq> kv_size kv \<and> nh < head kv then nh else head kv)"
    using assms kv_okD(1) [OF assms(1)] by (auto simp: llama_kv_cache_seq_rm_def Let_def)
  have "head kv' \<le> i" if i: "i < kv_size kv" "\<not> is_empty_cell (cells kv ! i)"
    "is_empty_cell (cells kv' ! i)" for i
  proof -
    have len: "i < length (cells kv)" using i(1) kv_okD(2) [OF assms(1)] by simp
    have "is_empty_cell (o_cell (?b (cells kv ! i)))"
      using i(3) seq_rm_spec(3) [OF assms] len by simp
    then have "o_hole (?b (cells kv ! i))"
      using i(2) by (auto simp: seq_rm_body_def Let_def keep_cell_def split: if_splits)
    then have "nh \<le> i"
      using kv_sweep_head_first [of 0 "cells kv" "kv_size kv" i "\<lambda>_. ?b" "used kv"]
        sw len kv_okD(2) [OF assms(1)] by simp
    then show ?thesis using hd i(1) by auto
  qed
  then show ?thesis
    using seq_rm_spec(1,2) [OF assms] entries_rm [OF assms(1), of s p0 p1]
    by (auto simp: kv' hit_def)
qed

theorem seq_rm_refines_witness:
  "fst (llama_kv_cache_seq_rm sample_cache 0 1 (-1))
   \<and> kv_entries (snd (llama_kv_cache_seq_rm sample_cache 0 1 (-1))) = {(0, 0)}"
proof -
  have "{(t, p) \<in> {(0 :: int, 0), (0, 1)}. \<not> ((0 < (0::int) \<or> t = 0) \<and> norm_p0 1 \<le> p \<and> p < norm_p1 (-1))}
      = {(0, 0)}"
    by (auto simp: norm_p0_def norm_p1_def int32_max_def)
  then show ?thesis
    using seq_rm_refines [OF sample_cache_ok prod.collapse [symmetric], of 0 1 "-1"]
    by (simp add: sample_entries)
qed

text \<open>
  Speculative branching: forking a sequence into an unused id, and then keeping only
  the fork, leaves exactly the original's positions under the fork's id; dropping the
  fork instead gives back the cache contents before the fork.
\<close>

theorem fork_commit_or_drop:
  assumes "kv_ok kv" "0 \<le> t" "\<And>p. (t, p) \<notin> kv_entries kv"
    "\<And>p. (s, p) \<in> kv_entries kv \<Longrightarrow> p < int32_max"
  shows "kv_entries (llama_kv_cache_seq_keep (llama_kv_cache_seq_cp kv s t (-1) (-1)) t) =
      {(t, p) | p. (s, p) \<in> kv_entries kv}
    \<and> kv_entries (snd (llama_kv_cache_seq_rm (llama_kv_cache_seq_cp kv s t (-1) (-1)) t (-1) (-1))) =
      kv_entries kv"
proof -
  have pos: "hit (-1) (-1) p" if "(s, p) \<in> kv_entries kv" for p
  proof -
    obtain c where "c \<in> set (cells kv)" "s \<in> c_seq_id c" "c_pos c = p"
      using \<open>(s, p) \<in> kv_entries kv\<close> by (auto simp: kv_entries_def)
    then have "0 \<le> p" using kv_okD(5) [OF assms(1)] by (force simp: cell_ok_def)
    then show ?thesis using assms(4) that by (simp add: hit_def norm_p0_def norm_p1_def)
  qed
  have "kv_entries (llama_kv_cache_seq_keep (llama_kv_cache_seq_cp kv s t (-1) (-1)) t) =
      {(t, p) | p. (s, p) \<in> kv_entries kv}"
    using kv.fork_then_commit [OF assms(1) pos assms(3)] .
  moreover have "kv_entries (snd (llama_kv_cache_seq_rm
      (llama_kv_cache_seq_cp kv s t (-1) (-1)) t (-1) (-1))) = kv_entries kv"
    using kv.fork_then_drop [OF assms(1-3) pos] by (simp add: kv_rm_def)
  ultimately show ?thesis ..
qed

theorem fork_commit_or_drop_witness:
  "kv_entries (llama_kv_cache_seq_keep (llama_kv_cache_seq_cp sample_cache 0 7 (-1) (-1)) 7) =
     {(7, 0), (7, 1)}"
proof -
  have "kv_entries (llama_kv_cache_seq_keep (llama_kv_cache_seq_cp sample_cache 0 7 (-1) (-1)) 7) =
      {(7, p) | p. (0, p) \<in> kv_entries sample_cache}"
    by (rule fork_commit_or_drop [OF sample_cache_ok, THEN conjunct1]) (auto simp: sample_entries int32_max_def)
  then show ?thesis by (auto simp: sample_entries)
qed

text \<open>
  Keeping one sequence is the same as removing every other one: the contents agree
  with those after a removal loop over all the other sequence ids.
\<close>

theorem seq_keep_is_rm_others:
  assumes "kv_ok kv" "s \<notin> set ts" "\<forall>t \<in> set ts. 0 \<le> t"
    "\<And>u p. (u, p) \<in> kv_entries kv \<Longrightarrow> (u = s \<or> u \<in> set ts) \<and> p < int32_max"
  shows "kv_entries (fold (\<lambda>t kv. snd (llama_kv_cache_seq_rm kv t (-1) (-1))) ts kv) =
    kv_entries (llama_kv_cache_seq_keep kv s)"
proof -
  have "(u = s \<or> u \<in> set ts) \<and> hit (-1) (-1) p" if "(u, p) \<in> kv_entries kv" for u p
  proof -
    obtain c where "c \<in> set (cells kv)" "u \<in> c_seq_id c" "c_pos c = p"
      using \<open>(u, p) \<in> kv_entries kv\<close> by (auto simp: kv_entries_def)
    then have "0 \<le> p" using kv_okD(5) [OF assms(1)] by (force simp: cell_ok_def)
    then show ?thesis using assms(4) [OF that] by (simp add: hit_def norm_p0_def norm_p1_def)
  qed
  then show ?thesis
    using kv.keep_removes_others [OF assms(1-3)] by (simp add: kv_rm_def)
qed

theorem seq_keep_is_rm_others_witness:
  "kv_entries (fold (\<lambda>t kv. snd (llama_kv_cache_seq_rm kv t (-1) (-1))) [0, 2] sample_cache) =
     kv_entries (llama_kv_cache_seq_keep sample_cache 1)"
  by (rule seq_keep_is_rm_others [OF sample_cache_ok]) (auto simp: sample_entries int32_max_def)

text \<open>The position at which cell \<open>i\<close> holds sequence \<open>s\<close>, and a sequence with one cell for each position below \<open>n\<close>.\<close>

definition kv_pos :: "llama_kv_cache \<Rightarrow> int \<Rightarrow> nat \<Rightarrow> int option" where
  "kv_pos kv s i =
     (if i < length (cells kv) \<and> s \<in> c_seq_id (cells kv ! i) then Some (c_pos (cells kv ! i)) else None)"

definition holds_once :: "llama_kv_cache \<Rightarrow> int \<Rightarrow> int \<Rightarrow> bool" where
  "holds_once kv s n \<longleftrightarrow>
     (\<forall>i p. kv_pos kv s i = Some p \<longrightarrow> 0 \<le> p \<and> p < n) \<and> (\<forall>p. 0 \<le> p \<and> p < n \<longrightarrow> (\<exists>!i. kv_pos kv s i = Some p))"

lemma kv_pos_entries: "(s, p) \<in> kv_entries kv \<longleftrightarrow> (\<exists>i. kv_pos kv s i = Some p)"
proof -
  have "kv_pos kv s i = Some p \<longleftrightarrow> i < length (cells kv) \<and> s \<in> c_seq_id (cells kv ! i) \<and> c_pos (cells kv ! i) = p" for i
    by (auto simp: kv_pos_def)
  then show ?thesis by (simp add: kv_entries_def) (metis in_set_conv_nth)
qed

lemma kv_pos_rm:
  assumes "kv_ok kv" "0 \<le> s"
  shows "kv_pos (snd (llama_kv_cache_seq_rm kv s p0 p1)) s i =
    (case kv_pos kv s i of None \<Rightarrow> None | Some p \<Rightarrow> if hit p0 p1 p then None else Some p)"
  using assms(2) unfolding kv_pos_def seq_rm_spec(3) [OF assms(1) prod.collapse [symmetric]]
  by (auto simp: seq_rm_body_def Let_def cell_simps hit_def)

lemma kv_pos_add:
  assumes "kv_ok kv" "kv_alone kv s"
  shows "kv_pos (llama_kv_cache_seq_add kv s p0 p1 d) s i =
    (case kv_pos kv s i of None \<Rightarrow> None
     | Some p \<Rightarrow> if \<not> hit p0 p1 p then Some p else if p + d < 0 then None else Some (p + d))"
proof (cases "norm_p0 p0 = norm_p1 p1")
  case True
  then show ?thesis by (auto simp: llama_kv_cache_seq_add_def hit_def split: option.splits)
next
  case False
  have "c_seq_id (cells kv ! i) = {s}" if "i < length (cells kv)" "s \<in> c_seq_id (cells kv ! i)"
    using assms(2) that by (simp add: kv_alone_def)
  then show ?thesis
    unfolding kv_pos_def seq_add_spec(2) [OF assms(1) False]
    by (auto simp: seq_add_body_def Let_def cell_simps hit_def)
qed

text \<open>Dropping \<open>k\<close> positions from \<open>a\<close> on and moving those behind down keeps the places apart.\<close>

lemma shifted_once:
  assumes "holds_once kv s n" "0 \<le> a" "0 \<le> k" "a + k \<le> n"
    and pos: "\<And>i. kv_pos kv' s i = (case kv_pos kv s i of None \<Rightarrow> None
       | Some p \<Rightarrow> if p < a then Some p else if p < a + k then None else Some (p - k))"
  shows "holds_once kv' s (n - k)"
proof -
  have at: "kv_pos kv' s i = Some p \<longleftrightarrow>
      kv_pos kv s i = Some (if p < a then p else p + k)" for i p
    unfolding pos using assms(3) by (auto split: option.splits)
  show ?thesis
    unfolding holds_once_def at
  proof (intro conjI allI impI)
    fix i p assume "kv_pos kv s i = Some (if p < a then p else p + k)"
    then have "0 \<le> (if p < a then p else p + k) \<and> (if p < a then p else p + k) < n"
      using assms(1) unfolding holds_once_def by blast
    then show "0 \<le> p" "p < n - k" using assms(2-4) by (simp_all split: if_split_asm)
  next
    fix p assume "0 \<le> p \<and> p < n - k"
    then have "0 \<le> (if p < a then p else p + k) \<and> (if p < a then p else p + k) < n"
      using assms(2-4) by simp
    then show "\<exists>!i. kv_pos kv s i = Some (if p < a then p else p + k)"
      using assms(1) unfolding holds_once_def by blast
  qed
qed

text \<open>
  C24. The context shift used when a chat outgrows its window.  Take a sequence (its id not negative) whose cells are
  shared with no other sequence and hold the positions 0 up to n_past, each in exactly one cell.
  Removing the n_discard positions after the first n_keep and shifting the rest down leaves every
  position from 0 up to n_past - n_discard in exactly one cell of the sequence, and no cell of it at
  any other position: no gap and no overlap.  The cells kept are the old ones, those behind the
  removed stretch n_discard positions lower, and the entries of the other sequences stay as they
  were.
\<close>

theorem context_shift_contiguous:
  assumes "kv_ok kv" "0 \<le> s" "kv_alone kv s" "holds_once kv s n_past"
    "0 \<le> n_keep" "0 \<le> n_discard" "n_keep + n_discard \<le> n_past" "n_past < int32_max"
    "kv' = llama_kv_cache_seq_add (snd (llama_kv_cache_seq_rm kv s n_keep (n_keep + n_discard))) s
        (n_keep + n_discard) n_past (- n_discard)"
  shows "kv_ok kv' \<and> holds_once kv' s (n_past - n_discard)
    \<and> (\<forall>i. kv_pos kv' s i = (case kv_pos kv s i of None \<Rightarrow> None
         | Some p \<Rightarrow> if p < n_keep then Some p else if p < n_keep + n_discard then None
             else Some (p - n_discard)))
    \<and> (\<forall>p. (s, p) \<in> kv_entries kv' \<longleftrightarrow> 0 \<le> p \<and> p < n_past - n_discard)
    \<and> (\<forall>t p. t \<noteq> s \<longrightarrow> ((t, p) \<in> kv_entries kv' \<longleftrightarrow> (t, p) \<in> kv_entries kv))"
proof -
  let ?kv1 = "kv_rm kv s n_keep (n_keep + n_discard)"
  have kv1: "kv_ok ?kv1" "kv_alone ?kv1 s"
    using assms(1,3) by (simp_all add: kv_rm_def rm_ok alone_rm)
  have kv': "kv' = llama_kv_cache_seq_add ?kv1 s (n_keep + n_discard) n_past (- n_discard)"
    by (simp add: assms(9) kv_rm_def)
  have range: "0 \<le> p \<and> p < n_past" if "kv_pos kv s i = Some p" for i p
    using assms(4) that by (auto simp: holds_once_def)
  have e: "(s, p) \<in> kv_entries kv \<longleftrightarrow> 0 \<le> p \<and> p < n_past" for p
    using assms(4) range by (auto simp: kv_pos_entries holds_once_def)
  have h: "hit n_keep (n_keep + n_discard) p \<longleftrightarrow> n_keep \<le> p \<and> p < n_keep + n_discard"
    "hit (n_keep + n_discard) n_past p \<longleftrightarrow> n_keep + n_discard \<le> p \<and> p < n_past" for p
    using assms(5-8) by (simp_all add: hit_def norm_p0_def norm_p1_def)
  have kept: "kv_pos ?kv1 s i = (case kv_pos kv s i of None \<Rightarrow> None
      | Some p \<Rightarrow> if n_keep \<le> p \<and> p < n_keep + n_discard then None else Some p)" for i
    by (simp only: kv_rm_def kv_pos_rm [OF assms(1,2)] h)
  have pos: "kv_pos kv' s i = (case kv_pos kv s i of None \<Rightarrow> None
      | Some p \<Rightarrow> if p < n_keep then Some p else if p < n_keep + n_discard then None
          else Some (p - n_discard))" for i
    unfolding kv' kv_pos_add [OF kv1] kept h
    using range [of i] assms(5-7) by (auto split: option.split)
  have others: "(t, p) \<in> kv_entries kv' \<longleftrightarrow> (t, p) \<in> kv_entries kv" if "t \<noteq> s" for t p
    using that assms(2) by (auto simp: kv' kv.add_entries [OF kv1] kv.rm_entries [OF assms(1)])
  show ?thesis
    using kv.context_shift [OF assms(1,3) e assms(5-8) kv'] shifted_once [OF assms(4-7) pos] pos others
    by blast
qed

text \<open>Sequence 0 out of order at positions 0 to 3, around a cell of sequence 1 and a free one.\<close>

definition shift_cache :: llama_kv_cache where
  "shift_cache = blank_cache False
     [sample_cell 2 {0}, sample_cell 0 {0}, sample_cell 7 {1}, sample_cell 3 {0}, empty_cell, sample_cell 1 {0}] 5"

theorem context_shift_contiguous_witness:
  "map (kv_pos (llama_kv_cache_seq_add (snd (llama_kv_cache_seq_rm shift_cache 0 1 2)) 0 2 4 (- 1)) 0) [0, 1, 2, 3, 4, 5] =
     [Some 1, Some 0, None, Some 2, None, None]"
proof -
  have ok: "kv_ok shift_cache"
    by (auto simp: kv_ok_def shift_cache_def sample_simps cell_ok_def taken_def is_empty_cell_def empty_cell_def
        kv_limit_def count_if_def)
  have a: "kv_alone shift_cache 0" by (auto simp: kv_alone_def shift_cache_def sample_simps empty_cell_def)
  have len: "length (cells shift_cache) = 6" by (simp add: shift_cache_def blank_cache_def)
  have at: "map (kv_pos shift_cache 0) [0, 1, 2, 3, 4, 5] = [Some 2, Some 0, None, Some 3, None, Some 1]" by code_simp
  have pos: "kv_pos shift_cache 0 i = Some p \<longleftrightarrow> (i, p) \<in> {(0, 2), (1, 0), (3, 3), (5, 1)}" for i p
  proof (cases "i < 6")
    case True
    then have "i \<in> {0, 1, 2, 3, 4, 5}" by auto
    then show ?thesis using at by (elim insertE) auto
  qed (auto simp: kv_pos_def len)
  have once: "holds_once shift_cache 0 4"
  proof -
    have "p = 0 \<or> p = 1 \<or> p = 2 \<or> p = 3" if "0 \<le> p \<and> p < 4" for p :: int
      using that by arith
    then show ?thesis unfolding holds_once_def pos by auto
  qed
  from context_shift_contiguous [OF ok order.refl a once, of 1 1] show ?thesis
    using at by (simp add: int32_max_def)
qed

text \<open>
  Rolling a failed decode back with the slot restorer gives back the contents of the
  cache from before the slot search whenever the tokens of the batch sit at positions
  equal to the indices of their cells and no older entry has a position in that range:
  the single-stream case.
\<close>

theorem restorer_rolls_back:
  assumes "kv_ok kv" "ubatch_ok ub" "llama_kv_cache_find_slot kv ub = Inr (kv1, si)" "found si"
    "\<And>k. k < ub_n_tokens ub \<Longrightarrow> ub_pos ub ! k = int (head kv1 + k)"
    "\<And>t p. (t, p) \<in> kv_entries kv \<Longrightarrow> p < int (head kv1) \<or> int (head kv1 + ub_n_tokens ub) \<le> p"
  shows "kv_entries (restorer_restore (restorer_save (restorer_init kv) si) kv1) = kv_entries kv"
proof -
  let ?n = "ub_n_tokens ub"
  from find_slot_spec [OF assms(1,2)] have kv1: "kv_ok kv1"
    "boundaries si = (head kv1, head kv1 + ?n)" "kv_entries kv1 = kv_entries kv \<union> ubatch_entries ub"
    using assms(3,4) by (metis Inr_inject prod.inject)+
  let ?kv2 = "kv1\<lparr>head := head kv, kv_n := kv_n kv\<rparr>"
  have "kv_size kv1 = kv_size kv"
    using assms(3) kv_okD(1) [OF assms(1)]
    by (auto simp: llama_kv_cache_find_slot_def find_slot_attn_def Let_def
        split: option.splits if_splits bool.splits prod.splits)
  then have ok2: "kv_ok ?kv2"
    using kv1(1) kv_okD(4) [OF assms(1)] by (simp add: kv_ok_def)
  have e2: "kv_entries ?kv2 = kv_entries kv \<union> ubatch_entries ub"
    using kv1(3) by (simp add: kv_entries_def)
  have new: "\<exists>k < ?n. p = int (head kv1 + k)" if "(t, p) \<in> ubatch_entries ub" for t p
    using that assms(5) by (auto simp: ubatch_entries_def)
  show ?thesis
  proof (cases "?n = 0")
    case True
    then have "ubatch_entries ub = {}" by (simp add: ubatch_entries_def)
    then show ?thesis
      using True assms(4) kv1(2) e2 kv_okD(1) [OF kv1(1)]
      by (simp add: restorer_restore_def restorer_save_def restorer_init_def)
  next
    case False
    then have "restorer_restore (restorer_save (restorer_init kv) si) kv1 =
        snd (llama_kv_cache_seq_rm ?kv2 (-1) (int (head kv1)) (int (head kv1 + ?n)))"
      using assms(4) kv1(2) kv_okD(1) [OF kv1(1)]
      by (simp add: restorer_restore_def restorer_save_def restorer_init_def Let_def)
    then have "kv_entries (restorer_restore (restorer_save (restorer_init kv) si) kv1) =
        {(t, p) \<in> kv_entries kv \<union> ubatch_entries ub.
           \<not> (int (head kv1) \<le> p \<and> p < int (head kv1 + ?n))}"
      using entries_rm [OF ok2] e2 by (simp add: hit_def norm_p0_def norm_p1_def)
    then show ?thesis
      using assms(6) new by (force simp: not_le)
  qed
qed

theorem restorer_rolls_back_witness:
  "kv_entries (restorer_restore (restorer_save (restorer_init sample_cache) (slot_range 2 4))
     (sample_cache\<lparr>head := 2, used := 4, cells :=
       [sample_cell 0 {0}, sample_cell 1 {0}, sample_cell 2 {0}, sample_cell 3 {0}]\<rparr>))
   = {(0, 0), (0, 1)}"
proof -
  let ?kv1 = "sample_cache\<lparr>head := 2, used := 4, cells :=
       [sample_cell 0 {0}, sample_cell 1 {0}, sample_cell 2 {0}, sample_cell 3 {0}]\<rparr>"
  have u: "ubatch_ok (sample_ubatch 0 [2, 3])" by (rule sample_ubatch_ok) simp
  have slot: "llama_kv_cache_find_slot sample_cache (sample_ubatch 0 [2, 3]) = Inr (?kv1, slot_range 2 4)"
    by code_simp
  have "kv_entries (restorer_restore (restorer_save (restorer_init sample_cache) (slot_range 2 4)) ?kv1)
      = kv_entries sample_cache"
    by (rule restorer_rolls_back [OF sample_cache_ok u slot])
      (auto simp: slot_range_def sample_ubatch_def sample_entries less_Suc_eq)
  then show ?thesis by (simp only: sample_entries)
qed

text \<open>Two cells hold positions that are not their indices.\<close>

definition shifted_cache :: llama_kv_cache where
  "shifted_cache = blank_cache False
     [sample_cell 2 {0}, sample_cell 3 {0}, empty_cell, empty_cell] 2"

definition shifted_placed :: llama_kv_cache where
  "shifted_placed = shifted_cache\<lparr>head := 2, used := 4, cells :=
     [sample_cell 2 {0}, sample_cell 3 {0}, sample_cell 0 {1}, sample_cell 1 {1}]\<rparr>"

definition shifted_rolled :: llama_kv_cache where
  "shifted_rolled = shifted_cache\<lparr>cells :=
     [empty_cell, empty_cell, sample_cell 0 {1}, sample_cell 1 {1}]\<rparr>"

lemma shifted_slot:
  "llama_kv_cache_find_slot shifted_cache (sample_ubatch 1 [0, 1]) = Inr (shifted_placed, slot_range 2 4)"
  by code_simp

lemma shifted_restore:
  "restorer_restore (restorer_save (restorer_init shifted_cache) (slot_range 2 4)) shifted_placed
     = shifted_rolled"
  by code_simp

text \<open>
  With more than one sequence the restorer removes by position where it recorded cell
  indices: two cells hold positions 2 and 3 of sequence 0, a batch with positions 0 and 1
  of sequence 1 is placed in cells 2 and 3, and the rollback deletes the old sequence and
  keeps the tokens of the failed batch.
\<close>

theorem restorer_wrong_cells:
  "\<exists>kv1 si. llama_kv_cache_find_slot shifted_cache (sample_ubatch 1 [0, 1]) = Inr (kv1, si)
    \<and> found si \<and> kv_entries shifted_cache = {(0, 2), (0, 3)}
    \<and> kv_entries (restorer_restore (restorer_save (restorer_init shifted_cache) si) kv1)
        = {(1, 0), (1, 1)}"
proof -
  have "kv_entries shifted_rolled = {(1, 0), (1, 1)}" "kv_entries shifted_cache = {(0, 2), (0, 3)}"
    by (auto simp: kv_entries_def shifted_rolled_def shifted_cache_def sample_simps)
  then show ?thesis
    using shifted_slot shifted_restore
    by (intro exI [of _ shifted_placed] exI [of _ "slot_range 2 4"]) (simp add: slot_range_def)
qed

text \<open>A recurrent cache before, during and after the rollback of its only token.\<close>

definition fresh_recurrent :: llama_kv_cache where
  "fresh_recurrent = blank_cache True [empty_cell, empty_cell] 0"

definition one_token_recurrent :: llama_kv_cache where
  "one_token_recurrent = fresh_recurrent\<lparr>kv_n := 1, used := 1,
     cells := [empty_cell\<lparr>c_pos := 0, c_seq_id := {0}, c_tail := 0\<rparr>, empty_cell]\<rparr>"

definition stale_recurrent :: llama_kv_cache where
  "stale_recurrent = fresh_recurrent\<lparr>cells := [empty_cell\<lparr>c_tail := 0\<rparr>, empty_cell]\<rparr>"

lemma recurrent_slot:
  "llama_kv_cache_find_slot fresh_recurrent (sample_ubatch 0 [0])
     = Inr (one_token_recurrent, slot_flag True)"
  by code_simp

lemma recurrent_restore:
  "restorer_restore (restorer_save (restorer_init fresh_recurrent) (slot_flag True))
     one_token_recurrent = stale_recurrent"
  by code_simp

lemma stale_slot:
  "llama_kv_cache_find_slot stale_recurrent (sample_ubatch 0 [0]) = Inl Assert_failed"
  by code_simp

text \<open>
  On a recurrent cache the same rollback clears the cells but not the tails that
  point at them, so the next slot search for the sequence fails its assertion.
\<close>

theorem recurrent_rollback_aborts:
  "llama_kv_cache_find_slot fresh_recurrent (sample_ubatch 0 [0])
       = Inr (one_token_recurrent, slot_flag True)
   \<and> llama_kv_cache_find_slot
       (restorer_restore (restorer_save (restorer_init fresh_recurrent) (slot_flag True))
          one_token_recurrent) (sample_ubatch 0 [0]) = Inl Assert_failed"
  by (simp only: recurrent_slot recurrent_restore stale_slot simp_thms)

end
