(* ===== verification/BatchProps.thy ===== *)
theory BatchProps
  imports Batch "HOL-Library.Multiset"
begin

text \<open>
  What a batch has to satisfy, what the splitter keeps between two micro-batches, and
  the lemmas that carry the batch properties: the closed form of an equal-length split
  and the rows of a micro-batch.
\<close>

section \<open>Rows\<close>

text \<open>
  One token as the model sees it: its payload, position, sequence ids and output flag.
  \<open>batch_row\<close> reads it in the user's batch, \<open>ub_row\<close> in a micro-batch, where the
  sequence arrays have one entry for every \<open>n_seq_tokens\<close> tokens.
\<close>

type_synonym 'e row = "int option \<times> 'e option \<times> int \<times> int list \<times> int"

definition seq_id_list :: "int list \<Rightarrow> int list list \<Rightarrow> nat \<Rightarrow> int list" where
  "seq_id_list ns ss i = take (nat (ns ! i)) (ss ! i)"

definition out_flag :: "bool \<Rightarrow> 'e llama_batch \<Rightarrow> nat \<Rightarrow> int" where
  "out_flag all b t =
     (if all then 1
      else case b_logits b of Some lg \<Rightarrow> lg ! t
      | None \<Rightarrow> if t = nat (b_n_tokens b) - 1 then 1 else 0)"

definition batch_row :: "bool \<Rightarrow> 'e llama_batch \<Rightarrow> nat \<Rightarrow> 'e row" where
  "batch_row all b t =
     (map_option (\<lambda>xs. xs ! t) (b_token b), map_option (\<lambda>xs. xs ! t) (b_embd b),
      the (b_pos b) ! t, seq_id_list (the (b_n_seq_id b)) (the (b_seq_id b)) t,
      out_flag all b t)"

definition batch_rows :: "bool \<Rightarrow> 'e llama_batch \<Rightarrow> 'e row list" where
  "batch_rows all b = map (batch_row all b) [0..<nat (b_n_tokens b)]"

definition ub_row :: "'e llama_ubatch \<Rightarrow> nat \<Rightarrow> 'e row" where
  "ub_row ub k =
     (map_option (\<lambda>xs. xs ! k) (ub_token ub), map_option (\<lambda>xs. xs ! k) (ub_embd ub),
      ub_pos ub ! k,
      seq_id_list (ub_n_seq_id ub) (ub_seq_id ub) (k div ub_n_seq_tokens ub),
      ub_output ub ! k)"

definition ub_rows :: "'e llama_ubatch \<Rightarrow> 'e row list" where
  "ub_rows ub = map (ub_row ub) [0..<ub_n_tokens ub]"

section \<open>Complete batches\<close>

text \<open>
  What \<open>llama_batch_allocr\<close> promises the splitter: every array is there, as long as the
  batch, with one of \<open>token\<close> and \<open>embd\<close> given.
\<close>

definition opt_len :: "nat \<Rightarrow> 'a list option \<Rightarrow> bool" where
  "opt_len n x = (case x of None \<Rightarrow> True | Some xs \<Rightarrow> length xs = n)"

definition batch_given :: "'e llama_batch \<Rightarrow> bool" where
  "batch_given b =
     (let n = nat (b_n_tokens b) in 0 \<le> b_n_tokens b \<and> (b_token b = None) \<noteq> (b_embd b = None)
       \<and> opt_len n (b_token b) \<and> opt_len n (b_embd b) \<and> opt_len n (b_pos b)
       \<and> opt_len n (b_n_seq_id b) \<and> opt_len n (b_seq_id b) \<and> opt_len n (b_logits b)
       \<and> (case (b_n_seq_id b, b_seq_id b) of
            (None, None) \<Rightarrow> True
          | (Some ns, None) \<Rightarrow> \<forall>t<n. ns ! t = 1
          | (None, Some ss) \<Rightarrow> \<forall>t<n. 1 \<le> length (ss ! t)
          | (Some ns, Some ss) \<Rightarrow> \<forall>t<n. 0 < ns ! t \<and> nat (ns ! t) \<le> length (ss ! t)))"

definition batch_ok :: "'e llama_batch \<Rightarrow> bool" where
  "batch_ok b = (batch_given b \<and> b_pos b \<noteq> None \<and> b_n_seq_id b \<noteq> None \<and> b_seq_id b \<noteq> None)"

lemma batch_okE:
  assumes "batch_ok b"
  obtains ps ns ss where
    "b_pos b = Some ps" "b_n_seq_id b = Some ns" "b_seq_id b = Some ss"
    "0 \<le> b_n_tokens b" "length ps = nat (b_n_tokens b)" "length ns = nat (b_n_tokens b)"
    "length ss = nat (b_n_tokens b)" "(b_token b = None) \<noteq> (b_embd b = None)"
    "opt_len (nat (b_n_tokens b)) (b_token b)" "opt_len (nat (b_n_tokens b)) (b_embd b)"
    "opt_len (nat (b_n_tokens b)) (b_logits b)"
    "\<forall>t<nat (b_n_tokens b). 0 < ns ! t \<and> nat (ns ! t) \<le> length (ss ! t)"
  using assms unfolding batch_ok_def batch_given_def Let_def
  by (auto simp: opt_len_def)

section \<open>Writing a block\<close>

lemma length_write_loop [simp]: "length (write_loop dst base f n) = length dst"
  by (induction n) (simp_all add: write_loop_def)

lemma write_loop_Suc:
  "write_loop dst base f (Suc n) = (write_loop dst base f n)[base + n := f n]"
  by (simp add: write_loop_def)

lemma write_loop_block:
  assumes "base + n \<le> length dst"
  shows "write_loop dst base f n = take base dst @ map f [0..<n] @ drop (base + n) dst"
  using assms
proof (induction n)
  case 0
  then show ?case by (simp add: write_loop_def)
next
  case (Suc n)
  have "write_loop dst base f (Suc n) =
      (take base dst @ map f [0..<n] @ drop (base + n) dst)[base + n := f n]"
    using Suc by (simp add: write_loop_Suc)
  moreover have "drop (base + n) dst = dst ! (base + n) # drop (base + Suc n) dst"
    using Suc.prems by (simp add: Cons_nth_drop_Suc)
  ultimately show ?case
    using Suc.prems by (simp add: list_update_append min_def)
qed

lemma take_write_loop:
  assumes "base + n \<le> length dst"
  shows "take (base + n) (write_loop dst base f n) = take base dst @ map f [0..<n]"
  using assms by (simp add: write_loop_block)

lemma take_list_update_last: "i < length xs \<Longrightarrow> take (Suc i) (xs[i := y]) = take i xs @ [y]"
  by (simp add: take_Suc_conv_app_nth)

section \<open>Sequences\<close>

definition range_of :: "llama_sbatch_seq \<Rightarrow> nat list" where
  "range_of q = [q_offset q..<q_offset q + q_length q]"

definition shrink :: "nat \<Rightarrow> llama_sbatch_seq \<Rightarrow> llama_sbatch_seq" where
  "shrink len q = q\<lparr>q_offset := q_offset q + len, q_length := q_length q - len\<rparr>"

lemma shrink_simps [simp]:
  "q_n_seq_id (shrink len q) = q_n_seq_id q"
  "q_seq_id (shrink len q) = q_seq_id q"
  "q_offset (shrink len q) = q_offset q + len"
  "q_length (shrink len q) = q_length q - len"
  by (simp_all add: shrink_def)

definition seq_le :: "llama_sbatch_seq \<Rightarrow> llama_sbatch_seq \<Rightarrow> bool" where
  "seq_le x y = (\<not> seq_less y x)"

lemma seq_le_iff:
  "seq_le x y \<longleftrightarrow>
     q_n_seq_id x < q_n_seq_id y \<or> q_n_seq_id x = q_n_seq_id y \<and> q_length y \<le> q_length x"
  by (auto simp: seq_le_def seq_less_def)

text \<open>
  A sequence that still owns tokens owns a range of \<open>ids\<close> whose tokens all carry its
  sequence ids; an exhausted one may be left over from an earlier batch.
\<close>

definition seq_ok :: "'e llama_batch \<Rightarrow> nat list \<Rightarrow> llama_sbatch_seq \<Rightarrow> bool" where
  "seq_ok b ids q =
     (0 < q_n_seq_id q \<and>
      (0 < q_length q \<longrightarrow>
         q_offset q + q_length q \<le> length ids \<and>
         (\<exists>js. q_seq_id q = Some js \<and>
            (\<forall>p \<in> set (range_of q). the (b_n_seq_id b) ! (ids ! p) = q_n_seq_id q \<and>
               take (nat (q_n_seq_id q)) (the (b_seq_id b) ! (ids ! p)) =
               take (nat (q_n_seq_id q)) js))))"

definition sb_ok :: "'e llama_batch \<Rightarrow> 'e llama_sbatch \<Rightarrow> bool" where
  "sb_ok b sb =
     (sb_batch sb = Some b \<and> length (sb_ids sb) = nat (b_n_tokens b) \<and>
      set (sb_ids sb) \<subseteq> {..<nat (b_n_tokens b)} \<and>
      sb_n_tokens sb = sum_list (map q_length (sb_seq sb)) \<and>
      (\<forall>q \<in> set (sb_seq sb). seq_ok b (sb_ids sb) q) \<and>
      sorted_wrt seq_le (sb_seq sb))"

text \<open>The batch indices of the tokens still to be handed out.\<close>

definition pending :: "'e llama_sbatch \<Rightarrow> nat list" where
  "pending sb = concat (map (\<lambda>q. seq_ids_of (sb_ids sb) q (q_length q)) (sb_seq sb))"

lemma length_seq_ids_of [simp]: "length (seq_ids_of ids q len) = len"
  by (simp add: seq_ids_of_def)

lemma seq_ids_of_0 [simp]: "seq_ids_of ids q 0 = []"
  by (simp add: seq_ids_of_def)

lemma seq_ids_of_split:
  assumes "len \<le> q_length q"
  shows "seq_ids_of ids q (q_length q) =
    seq_ids_of ids q len @ seq_ids_of ids (shrink len q) (q_length q - len)"
proof (rule nth_equalityI)
  fix i assume "i < length (seq_ids_of ids q (q_length q))"
  then show "seq_ids_of ids q (q_length q) ! i =
      (seq_ids_of ids q len @ seq_ids_of ids (shrink len q) (q_length q - len)) ! i"
    by (cases "i < len") (auto simp: seq_ids_of_def nth_append)
qed (use assms in simp)

lemma length_pending: "length (pending sb) = sum_list (map q_length (sb_seq sb))"
  by (simp add: pending_def length_concat comp_def)

lemma pop_empty_split:
  obtains zs where "qs = pop_empty qs @ zs" "\<forall>q \<in> set zs. q_length q = 0"
    "pop_empty qs \<noteq> [] \<longrightarrow> 0 < q_length (last (pop_empty qs))"
proof
  let ?zs = "rev (takeWhile (\<lambda>q. q_length q = 0) (rev qs))"
  show "qs = pop_empty qs @ ?zs"
    by (metis pop_empty_def rev_append rev_rev_ident takeWhile_dropWhile_id)
  show "\<forall>q \<in> set ?zs. q_length q = 0"
    using set_takeWhileD by fastforce
  show "pop_empty qs \<noteq> [] \<longrightarrow> 0 < q_length (last (pop_empty qs))"
    using hd_dropWhile[of "\<lambda>q. q_length q = 0" "rev qs"]
    by (auto simp: pop_empty_def last_rev)
qed

lemma pending_pop_empty [simp]: "pending (sb\<lparr>sb_seq := pop_empty (sb_seq sb)\<rparr>) = pending sb"
proof -
  obtain zs where zs: "sb_seq sb = pop_empty (sb_seq sb) @ zs" "\<forall>q \<in> set zs. q_length q = 0"
    by (rule pop_empty_split)
  have "concat (map (\<lambda>q. seq_ids_of (sb_ids sb) q (q_length q)) zs) = []"
    using zs(2) by simp
  then show ?thesis
    unfolding pending_def by (subst (2) zs(1)) simp
qed

lemma sb_ok_pop_empty:
  assumes "sb_ok b sb"
  shows "sb_ok b (sb\<lparr>sb_seq := pop_empty (sb_seq sb)\<rparr>)"
proof -
  obtain zs where zs: "sb_seq sb = pop_empty (sb_seq sb) @ zs" "\<forall>q \<in> set zs. q_length q = 0"
    by (rule pop_empty_split)
  have sub: "set (pop_empty (sb_seq sb)) \<subseteq> set (sb_seq sb)"
    by (subst (2) zs(1)) simp
  have "sum_list (map q_length zs) = 0"
    using zs(2) by simp
  then have sum: "sum_list (map q_length (sb_seq sb)) = sum_list (map q_length (pop_empty (sb_seq sb)))"
    by (subst zs(1)) simp
  have "sorted_wrt seq_le (pop_empty (sb_seq sb) @ zs)"
    using assms zs(1) by (simp add: sb_ok_def)
  then have "sorted_wrt seq_le (pop_empty (sb_seq sb))"
    by (simp add: sorted_wrt_append)
  then show ?thesis
    using assms sum sub by (auto simp: sb_ok_def)
qed

section \<open>What a micro-batch holds\<close>

text \<open>
  \<open>buf_holds n src dst ts\<close>: the buffer of capacity \<open>n\<close> starts with the entries of
  \<open>src\<close> at the batch indices \<open>ts\<close>.  \<open>ub_holds\<close>: the micro-batch holds the first \<open>len\<close>
  tokens of each sequence of \<open>gs\<close>, one block after the other.
\<close>

definition buf_holds :: "nat \<Rightarrow> 'a list \<Rightarrow> 'a list \<Rightarrow> nat list \<Rightarrow> bool" where
  "buf_holds n src dst ts = (length dst = n \<and> take (length ts) dst = map ((!) src) ts)"

definition pay_holds :: "nat \<Rightarrow> 'a list option \<Rightarrow> 'a list option \<Rightarrow> nat list \<Rightarrow> bool" where
  "pay_holds n src dst ts =
     (case src of
        None \<Rightarrow> ts \<noteq> [] \<longrightarrow> dst = None
      | Some xs \<Rightarrow> \<exists>d. dst = Some d \<and> buf_holds n xs d ts)"

definition blocks :: "nat list \<Rightarrow> nat \<Rightarrow> llama_sbatch_seq list \<Rightarrow> nat list" where
  "blocks ids len gs = concat (map (\<lambda>q. seq_ids_of ids q len) gs)"

definition ub_holds ::
    "'e llama_batch \<Rightarrow> bool \<Rightarrow> nat list \<Rightarrow> nat \<Rightarrow> nat \<Rightarrow> 'e llama_ubatch \<Rightarrow> llama_sbatch_seq list
      \<Rightarrow> bool" where
  "ub_holds b all ids len n ub gs =
     (ub_equal_seqs ub \<and> ub_n_tokens ub = len * length gs \<and> ub_n_seqs ub = length gs \<and>
      (gs \<noteq> [] \<longrightarrow> ub_n_seq_tokens ub = len) \<and>
      pay_holds n (b_token b) (ub_token ub) (blocks ids len gs) \<and>
      pay_holds n (b_embd b) (ub_embd ub) (blocks ids len gs) \<and>
      buf_holds n (the (b_pos b)) (ub_pos ub) (blocks ids len gs) \<and>
      length (ub_output ub) = n \<and>
      take (len * length gs) (ub_output ub) = map (out_flag all b) (blocks ids len gs) \<and>
      length (ub_n_seq_id ub) = n \<and> length (ub_seq_id ub) = n \<and>
      take (length gs) (ub_n_seq_id ub) = map q_n_seq_id gs \<and>
      take (length gs) (ub_seq_id ub) = map (\<lambda>q. the (q_seq_id q)) gs)"

lemma length_blocks [simp]: "length (blocks ids len gs) = len * length gs"
  by (induction gs) (simp_all add: blocks_def)

lemma blocks_snoc [simp]: "blocks ids len (gs @ [q]) = blocks ids len gs @ seq_ids_of ids q len"
  by (simp add: blocks_def)

lemma blocks_Nil [simp]: "blocks ids len [] = []"
  by (simp add: blocks_def)

lemma buf_holds_write:
  assumes "buf_holds n src dst ts" "length ts + len \<le> n"
  shows "buf_holds n src (write_loop dst (length ts) (\<lambda>i. src ! (ids ! (q_offset q + i))) len)
    (ts @ seq_ids_of ids q len)"
  using assms take_write_loop[of "length ts" len dst]
  by (simp add: buf_holds_def seq_ids_of_def comp_def)

lemma gather_payload_equal:
  assumes "pay_holds n src dst ts" "length ts + len \<le> n" "0 < len"
  shows "\<exists>d. gather_payload True src dst ids q (length ts) len = Inr d
    \<and> pay_holds n src d (ts @ seq_ids_of ids q len)"
proof (cases src)
  case None
  then show ?thesis by (simp add: gather_payload_def pay_holds_def)
next
  case (Some xs)
  then obtain d where "dst = Some d" "buf_holds n xs d ts"
    using assms(1) by (auto simp: pay_holds_def)
  then show ?thesis
    using Some assms buf_holds_write[of n xs d ts len ids q]
    by (simp add: gather_payload_def pay_holds_def)
qed

text \<open>The output flags a step writes, and the batch indices it appends to \<open>out_ids\<close>.\<close>

lemma gather_output_equal:
  assumes "ub_equal_seqs ub" "ub_n_tokens ub + len \<le> length (ub_output ub)"
    and "length (sb_ids sb) = nat (b_n_tokens b)"
  shows "gather_output sb b ub q len =
    (write_loop (ub_output ub) (ub_n_tokens ub)
       (\<lambda>i. out_flag (sb_logits_all sb) b (sb_ids sb ! (q_offset q + i))) len,
     sb_out_ids sb @ filter (\<lambda>t. out_flag (sb_logits_all sb) b t \<noteq> 0)
       (seq_ids_of (sb_ids sb) q len))"
  using assms
  by (cases "b_logits b")
     (simp_all add: gather_output_def out_flag_def[abs_def] seq_ids_of_def Let_def)

lemma take_output_equal:
  assumes "take (length ts) d = map f ts" "length ts + len \<le> length d"
  shows "take (length ts + len) (write_loop d (length ts) (\<lambda>i. f (ids ! (q_offset q + i))) len)
    = map f (ts @ seq_ids_of ids q len)"
  using assms by (simp add: take_write_loop seq_ids_of_def comp_def)

text \<open>Adding the next sequence: no assertion fails, and the micro-batch grows by its block.\<close>

lemma add_seq_equal:
  assumes ok: "batch_ok b" "sb_batch sb = Some b" "length (sb_ids sb) = nat (b_n_tokens b)"
    and q: "q = sb_seq sb ! i" "seq_ok b (sb_ids sb) q" "0 < len" "len \<le> q_length q"
    and h: "ub_holds b (sb_logits_all sb) (sb_ids sb) len n ub gs"
    and room: "len * length gs + len \<le> n"
  shows "\<exists>ub'. add_seq_to_ubatch sb ub i len =
      Inr (sb\<lparr>sb_out_ids := sb_out_ids sb @
                filter (\<lambda>t. out_flag (sb_logits_all sb) b t \<noteq> 0) (seq_ids_of (sb_ids sb) q len),
              sb_seq := (sb_seq sb)[i := shrink len q],
              sb_n_tokens := sb_n_tokens sb - len\<rparr>, ub')
    \<and> ub_holds b (sb_logits_all sb) (sb_ids sb) len n ub' (gs @ [q])"
proof -
  let ?ts = "blocks (sb_ids sb) len gs"
  note hs = h[unfolded ub_holds_def]
  obtain ps where ps: "b_pos b = Some ps"
    using ok(1) by (rule batch_okE)
  obtain js where js: "q_seq_id q = Some js" and bnd: "q_offset q + q_length q \<le> length (sb_ids sb)"
    using q by (auto simp: seq_ok_def)
  have nq: "0 < q_n_seq_id q"
    using q by (simp add: seq_ok_def)
  have gsn: "length gs < n"
  proof -
    have "length gs * 1 \<le> length gs * len"
      using q(3) by (intro mult_le_mono) simp_all
    then have "length gs \<le> len * length gs"
      by (simp only: mult_1_right mult.commute)
    then show ?thesis using room q(3) by linarith
  qed
  have room': "length ?ts + len \<le> n"
    using room by simp
  obtain tok where tok: "gather_payload True (b_token b) (ub_token ub) (sb_ids sb) q (len * length gs) len = Inr tok"
      "pay_holds n (b_token b) tok (?ts @ seq_ids_of (sb_ids sb) q len)"
    using gather_payload_equal[OF _ room' q(3)] hs unfolding length_blocks by blast
  obtain emb where emb: "gather_payload True (b_embd b) (ub_embd ub) (sb_ids sb) q (len * length gs) len = Inr emb"
      "pay_holds n (b_embd b) emb (?ts @ seq_ids_of (sb_ids sb) q len)"
    using gather_payload_equal[OF _ room' q(3)] hs unfolding length_blocks by blast
  have pos: "buf_holds n ps (write_loop (ub_pos ub) (len * length gs) (\<lambda>i. ps ! (sb_ids sb ! (q_offset q + i))) len)
      (?ts @ seq_ids_of (sb_ids sb) q len)"
    using hs ps room' buf_holds_write[of n ps "ub_pos ub" ?ts len] by simp
  have out: "take (len * length gs + len) (write_loop (ub_output ub) (len * length gs)
        (\<lambda>i. out_flag (sb_logits_all sb) b (sb_ids sb ! (q_offset q + i))) len)
      = map (out_flag (sb_logits_all sb) b) (?ts @ seq_ids_of (sb_ids sb) q len)"
    using hs room' take_output_equal[of ?ts "ub_output ub" "out_flag (sb_logits_all sb) b" len] by simp
  have gb: "gather_in_bounds sb b ub q len"
    using hs bnd q(4) room gsn by (auto simp: gather_in_bounds_def buf_holds_def)
  have div: "ub_n_seqs ub = 0 \<or> len = ub_n_tokens ub div ub_n_seqs ub"
    using hs by auto
  have nst: "ub_n_tokens ub = 0 \<and> ub_n_seqs ub = 0 \<longleftrightarrow> gs = []"
    and fin: "len * length gs + len = (if gs = [] then len else ub_n_seq_tokens ub) * (length gs + 1)"
    using hs by auto
  have nt: "ub_n_tokens ub = len * length gs" "ub_n_seqs ub = length gs" "ub_equal_seqs ub"
    using hs by auto
  have go: "gather_output sb b ub q len =
    (write_loop (ub_output ub) (len * length gs)
       (\<lambda>i. out_flag (sb_logits_all sb) b (sb_ids sb ! (q_offset q + i))) len,
     sb_out_ids sb @ filter (\<lambda>t. out_flag (sb_logits_all sb) b t \<noteq> 0)
       (seq_ids_of (sb_ids sb) q len))"
    using gather_output_equal[of ub len sb b q] hs room' ok(3) by simp
  let ?ub' = "ub\<lparr>ub_token := tok, ub_embd := emb,
      ub_pos := write_loop (ub_pos ub) (len * length gs) (\<lambda>i. ps ! (sb_ids sb ! (q_offset q + i))) len,
      ub_n_seq_id := (ub_n_seq_id ub)[length gs := q_n_seq_id q],
      ub_seq_id := (ub_seq_id ub)[length gs := js],
      ub_output := write_loop (ub_output ub) (len * length gs)
        (\<lambda>i. out_flag (sb_logits_all sb) b (sb_ids sb ! (q_offset q + i))) len,
      ub_n_seq_tokens := (if gs = [] then len else ub_n_seq_tokens ub), ub_n_tokens := len * length gs + len, ub_n_seqs := length gs + 1\<rparr>"
  have "add_seq_to_ubatch sb ub i len =
      Inr (sb\<lparr>sb_out_ids := sb_out_ids sb @
                filter (\<lambda>t. out_flag (sb_logits_all sb) b t \<noteq> 0) (seq_ids_of (sb_ids sb) q len),
              sb_seq := (sb_seq sb)[i := shrink len q],
              sb_n_tokens := sb_n_tokens sb - len\<rparr>, ?ub')"
    unfolding add_seq_to_ubatch_def Let_def q(1)[symmetric]
    using nq div q(4) gb fin
    by (simp add: ok(2) ps nst nt tok(1) emb(1) go js gather_pos_def shrink_def)
  moreover have "ub_holds b (sb_logits_all sb) (sb_ids sb) len n ?ub' (gs @ [q])"
    using hs tok(2) emb(2) pos out ps js gsn
    by (simp add: ub_holds_def take_list_update_last add.commute)
  ultimately show ?thesis by blast
qed

section \<open>The closed form of an equal-length split\<close>

text \<open>
  \<open>taken_state b sb len j\<close>: the splitter after \<open>len\<close> tokens have been taken from each
  sequence from number \<open>j\<close> on.
\<close>

definition after :: "nat \<Rightarrow> nat \<Rightarrow> llama_sbatch_seq list \<Rightarrow> llama_sbatch_seq list" where
  "after j len qs = take j qs @ map (shrink len) (drop j qs)"

definition taken_state :: "'e llama_batch \<Rightarrow> 'e llama_sbatch \<Rightarrow> nat \<Rightarrow> nat \<Rightarrow> 'e llama_sbatch" where
  "taken_state b sb len j = sb\<lparr>
     sb_out_ids := sb_out_ids sb @ filter (\<lambda>t. out_flag (sb_logits_all sb) b t \<noteq> 0)
       (blocks (sb_ids sb) len (rev (drop j (sb_seq sb)))),
     sb_seq := after j len (sb_seq sb),
     sb_n_tokens := sb_n_tokens sb - len * (length (sb_seq sb) - j)\<rparr>"

lemma taken_state_simps [simp]:
  "sb_batch (taken_state b sb len j) = sb_batch sb"
  "sb_ids (taken_state b sb len j) = sb_ids sb"
  "sb_logits_all (taken_state b sb len j) = sb_logits_all sb"
  "sb_seq (taken_state b sb len j) = after j len (sb_seq sb)"
  "sb_n_tokens (taken_state b sb len j) = sb_n_tokens sb - len * (length (sb_seq sb) - j)"
  by (simp_all add: taken_state_def)

lemma taken_state_length: "taken_state b sb len (length (sb_seq sb)) = sb"
  by (simp add: taken_state_def after_def)

lemma after_nth: "j < length qs \<Longrightarrow> after (Suc j) len qs ! j = qs ! j"
  by (simp add: after_def nth_append)

lemma after_update:
  assumes "j < length qs"
  shows "(after (Suc j) len qs)[j := shrink len (qs ! j)] = after j len qs"
proof -
  have "drop j qs = qs ! j # drop (Suc j) qs"
    using assms by (simp add: Cons_nth_drop_Suc)
  then show ?thesis
    using assms by (simp add: after_def list_update_append take_Suc_conv_app_nth)
qed

lemma rev_drop_Suc: "j < length qs \<Longrightarrow> rev (drop j qs) = rev (drop (Suc j) qs) @ [qs ! j]"
  by (metis Cons_nth_drop_Suc rev.simps(2))

lemma mult_diff_Suc: "i < n \<Longrightarrow> len * (n - i) = len * (n - Suc i) + (len::nat)"
  by (metis Suc_diff_Suc mult_Suc_right add.commute)

lemma taken_state_step:
  assumes "i < length (sb_seq sb)" "q = sb_seq sb ! i" "sb' = taken_state b sb len (Suc i)"
  shows "sb'\<lparr>sb_out_ids := sb_out_ids sb' @
        filter (\<lambda>t. out_flag (sb_logits_all sb') b t \<noteq> 0) (seq_ids_of (sb_ids sb') q len),
      sb_seq := (sb_seq sb')[i := shrink len q],
      sb_n_tokens := sb_n_tokens sb' - len\<rparr> = taken_state b sb len i"
proof -
  have "len * (length (sb_seq sb) - i) = len * (length (sb_seq sb) - Suc i) + len"
    using assms(1) by (rule mult_diff_Suc)
  then show ?thesis
    using assms by (simp add: taken_state_def after_update rev_drop_Suc)
qed

lemma equal_step:
  assumes ok: "batch_ok b" "sb_batch sb = Some b" "length (sb_ids sb) = nat (b_n_tokens b)"
    and i: "i < length (sb_seq sb)"
    and q: "seq_ok b (sb_ids sb) (sb_seq sb ! i)" "0 < len" "len \<le> q_length (sb_seq sb ! i)"
    and h: "ub_holds b (sb_logits_all sb) (sb_ids sb) len n ub (rev (drop (Suc i) (sb_seq sb)))"
    and room: "len * (length (sb_seq sb) - i) \<le> n"
  shows "\<exists>ub'. add_seq_to_ubatch (taken_state b sb len (Suc i)) ub i len =
      Inr (taken_state b sb len i, ub')
    \<and> ub_holds b (sb_logits_all sb) (sb_ids sb) len n ub' (rev (drop i (sb_seq sb)))"
proof -
  let ?sb = "taken_state b sb len (Suc i)" and ?gs = "rev (drop (Suc i) (sb_seq sb))"
  have "len * (length (sb_seq sb) - i) = len * length ?gs + len"
    using mult_diff_Suc[OF i, of len] by simp
  then have "len * length ?gs + len \<le> n"
    using room by simp
  then show ?thesis
    using add_seq_equal[of b ?sb "sb_seq sb ! i" i len n ub ?gs] ok q h
      taken_state_step[OF i refl refl, where b = b and len = len] i
    by (simp add: after_nth rev_drop_Suc)
qed

lemma equal_loop_run:
  assumes ok: "batch_ok b" "sb_batch sb = Some b" "length (sb_ids sb) = nat (b_n_tokens b)"
    and qs: "qs = sb_seq sb" and len: "0 < len"
  shows "i \<le> length qs \<Longrightarrow>
    \<forall>q \<in> set (take i qs). seq_ok b (sb_ids sb) q \<and> len \<le> q_length q \<and> q_n_seq_id q = 1 \<Longrightarrow>
    ub_holds b (sb_logits_all sb) (sb_ids sb) len n ub (rev (drop i qs)) \<Longrightarrow>
    tot = len * (length qs - i) \<Longrightarrow> tot + len \<le> n \<Longrightarrow>
    \<exists>j ub'. j \<le> i \<and> equal_loop n i len tot (taken_state b sb len i) ub = Inr (taken_state b sb len j, ub')
      \<and> ub_holds b (sb_logits_all sb) (sb_ids sb) len n ub' (rev (drop j qs))
      \<and> len * (length qs - j) \<le> n"
proof (induction i arbitrary: ub tot)
  case 0
  then show ?case by auto
next
  case (Suc i)
  have i: "i < length (sb_seq sb)"
    using Suc.prems(1) qs by simp
  have "qs ! i \<in> set (take (Suc i) qs)"
    using Suc.prems(1) by (simp add: take_Suc_conv_app_nth)
  then have q: "seq_ok b (sb_ids sb) (sb_seq sb ! i)" "len \<le> q_length (sb_seq sb ! i)"
      "q_n_seq_id (sb_seq sb ! i) = 1"
    using Suc.prems(2) qs by auto
  have tot: "tot + len = len * (length qs - i)"
    using Suc.prems(1,4) by (simp add: mult_diff_Suc)
  obtain ub1 where add: "add_seq_to_ubatch (taken_state b sb len (Suc i)) ub i len =
      Inr (taken_state b sb len i, ub1)"
    and h: "ub_holds b (sb_logits_all sb) (sb_ids sb) len n ub1 (rev (drop i (sb_seq sb)))"
    using equal_step[OF ok i q(1) len q(2)] Suc.prems(3,5) tot qs by auto
  have pos: "0 < q_length (sb_seq sb ! i)"
    using len q(2) by linarith
  have unf: "equal_loop n (Suc i) len tot (taken_state b sb len (Suc i)) ub =
      (if n < len + (tot + len) then Inr (taken_state b sb len i, ub1)
       else equal_loop n i len (tot + len) (taken_state b sb len i) ub1)"
    using add q(3) pos len i by (simp add: after_nth Let_def)
  show ?case
  proof (cases "n < len + (tot + len)")
    case True
    then have "equal_loop n (Suc i) len tot (taken_state b sb len (Suc i)) ub =
        Inr (taken_state b sb len i, ub1)"
      using unf by simp
    then show ?thesis
      using h qs tot Suc.prems(5) by (metis le_Suc_eq nat_le_linear)
  next
    case False
    have sub: "\<forall>q \<in> set (take i qs). seq_ok b (sb_ids sb) q \<and> len \<le> q_length q \<and> q_n_seq_id q = 1"
      using Suc.prems(2) set_take_subset_set_take[of i "Suc i" qs] by auto
    have "tot + len + len \<le> n"
      using False by linarith
    then obtain j ub' where "j \<le> i"
      "equal_loop n i len (tot + len) (taken_state b sb len i) ub1 = Inr (taken_state b sb len j, ub')"
      "ub_holds b (sb_logits_all sb) (sb_ids sb) len n ub' (rev (drop j qs))"
      "len * (length qs - j) \<le> n"
      using Suc.IH[OF _ sub _ tot, of ub1] h qs Suc.prems(1) by (meson Suc_leD)
    moreover have "equal_loop n (Suc i) len tot (taken_state b sb len (Suc i)) ub =
        equal_loop n i len (tot + len) (taken_state b sb len i) ub1"
      using unf False by simp
    ultimately have "j \<le> Suc i \<and> equal_loop n (Suc i) len tot (taken_state b sb len (Suc i)) ub =
        Inr (taken_state b sb len j, ub')
      \<and> ub_holds b (sb_logits_all sb) (sb_ids sb) len n ub' (rev (drop j qs))
      \<and> len * (length qs - j) \<le> n"
      by simp
    then show ?thesis by blast
  qed
qed

section \<open>One step of a splitter\<close>

lemma nth_blocks:
  assumes "k < len * length gs"
  shows "blocks ids len gs ! k = ids ! (q_offset (gs ! (k div len)) + k mod len)"
  using assms
proof (induction gs arbitrary: k)
  case (Cons q gs)
  then have len: "0 < len" by (cases len) auto
  show ?case
  proof (cases "k < len")
    case True
    then show ?thesis by (simp add: blocks_def nth_append seq_ids_of_def)
  next
    case False
    then have "k - len < len * length gs" using Cons.prems by simp
    then have "blocks ids len gs ! (k - len) =
        ids ! (q_offset (gs ! ((k - len) div len)) + (k - len) mod len)"
      by (rule Cons.IH)
    then show ?thesis
      using False len by (simp add: blocks_def nth_append le_div_geq le_mod_geq)
  qed
qed simp

lemma buf_holds_nth: "buf_holds n src dst ts \<Longrightarrow> k < length ts \<Longrightarrow> dst ! k = src ! (ts ! k)"
  by (metis buf_holds_def nth_map nth_take)

lemma pay_holds_nth:
  assumes "pay_holds n src dst ts" "k < length ts"
  shows "map_option (\<lambda>xs. xs ! k) dst = map_option (\<lambda>xs. xs ! (ts ! k)) src"
  using assms by (cases src) (auto simp: pay_holds_def buf_holds_nth)

lemma ub_holds_rows:
  assumes h: "ub_holds b all ids len n ub gs" and ok: "batch_ok b"
    and gs: "\<forall>q \<in> set gs. seq_ok b ids q \<and> len \<le> q_length q" and len: "0 < len"
  shows "ub_rows ub = map (batch_row all b) (blocks ids len gs)"
proof (rule nth_equalityI)
  show "length (ub_rows ub) = length (map (batch_row all b) (blocks ids len gs))"
    using h by (simp add: ub_rows_def ub_holds_def)
next
  fix k assume "k < length (ub_rows ub)"
  then have k: "k < len * length gs"
    using h by (simp add: ub_rows_def ub_holds_def)
  let ?t = "blocks ids len gs ! k" and ?q = "gs ! (k div len)"
  have qi: "k div len < length gs"
    using k len by (simp add: less_mult_imp_div_less mult.commute)
  then have q: "seq_ok b ids ?q" "len \<le> q_length ?q" "gs \<noteq> []"
    using gs by auto
  have "k mod len < len" using len by simp
  then have "q_offset ?q + k mod len \<in> set (range_of ?q)"
    using q(2) unfolding range_of_def set_upt atLeastLessThan_iff by linarith
  then obtain js where js: "q_seq_id ?q = Some js"
    "the (b_n_seq_id b) ! ?t = q_n_seq_id ?q"
    "take (nat (q_n_seq_id ?q)) (the (b_seq_id b) ! ?t) = take (nat (q_n_seq_id ?q)) js"
    using q len by (auto simp: seq_ok_def nth_blocks[OF k])
  have "ub_n_seq_id ub ! (k div len) = q_n_seq_id ?q" "ub_seq_id ub ! (k div len) = js"
    using h qi js(1) unfolding ub_holds_def by (metis nth_map nth_take option.sel)+
  moreover have "ub_output ub ! k = out_flag all b ?t"
    using h k unfolding ub_holds_def by (metis length_blocks nth_map nth_take)
  moreover have "ub_n_seq_tokens ub = len" "ub_n_tokens ub = len * length gs"
    using h q(3) by (simp_all add: ub_holds_def)
  moreover have "map_option (\<lambda>xs. xs ! k) (ub_token ub) = map_option (\<lambda>xs. xs ! ?t) (b_token b)"
    "map_option (\<lambda>xs. xs ! k) (ub_embd ub) = map_option (\<lambda>xs. xs ! ?t) (b_embd b)"
    "ub_pos ub ! k = the (b_pos b) ! ?t"
    using h k by (auto simp: ub_holds_def intro!: pay_holds_nth buf_holds_nth)
  ultimately show "ub_rows ub ! k = map (batch_row all b) (blocks ids len gs) ! k"
    using k js by (simp add: ub_rows_def ub_row_def batch_row_def seq_id_list_def)
qed

text \<open>Every sequence of a micro-batch names at least one id, and its arrays are long enough.\<close>

definition ub_seqs_ok :: "'e llama_ubatch \<Rightarrow> bool" where
  "ub_seqs_ok ub \<longleftrightarrow> ub_n_tokens ub \<le> length (ub_pos ub) \<and>
     (\<forall>s < ub_n_seqs ub. 0 < ub_n_seq_id ub ! s \<and> ub_n_seq_id ub ! s \<le> int (length (ub_seq_id ub ! s)))"

lemma ub_holds_seqs:
  assumes h: "ub_holds b all ids len n ub gs" and ok: "batch_ok b"
    and ids: "set ids \<subseteq> {..<nat (b_n_tokens b)}"
    and gs: "\<forall>q \<in> set gs. seq_ok b ids q \<and> len \<le> q_length q" and len: "0 < len" "len * length gs \<le> n"
  shows "ub_seqs_ok ub"
  unfolding ub_seqs_ok_def
proof (intro conjI allI impI)
  show "ub_n_tokens ub \<le> length (ub_pos ub)"
    using h len(2) by (simp add: ub_holds_def buf_holds_def)
  fix s assume "s < ub_n_seqs ub"
  then have s: "s < length gs" using h by (simp add: ub_holds_def)
  let ?q = "gs ! s"
  have q: "seq_ok b ids ?q" "0 < q_length ?q" using gs s len(1) by (auto dest!: nth_mem)
  then have "q_offset ?q \<in> set (range_of ?q)" "q_offset ?q < length ids"
    by (auto simp: range_of_def seq_ok_def)
  moreover from this obtain js where js: "q_seq_id ?q = Some js"
    "the (b_n_seq_id b) ! (ids ! q_offset ?q) = q_n_seq_id ?q"
    "take (nat (q_n_seq_id ?q)) (the (b_seq_id b) ! (ids ! q_offset ?q)) = take (nat (q_n_seq_id ?q)) js"
    using q by (auto simp: seq_ok_def)
  moreover have "ids ! q_offset ?q < nat (b_n_tokens b)"
    using ids \<open>q_offset ?q < length ids\<close> by (metis lessThan_iff nth_mem subsetD)
  ultimately have "nat (q_n_seq_id ?q) \<le> length (the (b_seq_id b) ! (ids ! q_offset ?q))"
    using ok by (auto elim!: batch_okE)
  then have "nat (q_n_seq_id ?q) \<le> length js"
    using arg_cong[OF js(3), of length] by simp
  moreover have "ub_n_seq_id ub ! s = q_n_seq_id ?q" "ub_seq_id ub ! s = js"
    using h s js(1) unfolding ub_holds_def by (metis nth_map nth_take option.sel)+
  ultimately show "0 < ub_n_seq_id ub ! s" "ub_n_seq_id ub ! s \<le> int (length (ub_seq_id ub ! s))"
    using q(1) by (auto simp: seq_ok_def)
qed

lemma mset_concat_rev: "mset (concat (rev xss)) = mset (concat xss)"
  by (induction xss) (simp_all add: ac_simps)

lemma mset_blocks_rev: "mset (blocks ids len (rev gs)) = mset (blocks ids len gs)"
  by (simp add: blocks_def mset_concat_rev flip: rev_map)

lemma mset_shrink:
  assumes "\<forall>q \<in> set gs. len \<le> q_length q"
  shows "mset (concat (map (\<lambda>q. seq_ids_of ids q (q_length q)) gs)) =
    mset (blocks ids len gs) +
    mset (concat (map (\<lambda>q. seq_ids_of ids q (q_length q)) (map (shrink len) gs)))"
  using assms
proof (induction gs)
  case (Cons q gs)
  then show ?case
    using seq_ids_of_split[of len q ids] by (simp add: blocks_def ac_simps)
qed (simp add: blocks_def)

lemma seq_ok_shrink:
  assumes "seq_ok b ids q"
  shows "seq_ok b ids (shrink len q)"
proof (cases "len < q_length q")
  case True
  then have sub: "set (range_of (shrink len q)) \<subseteq> set (range_of q)"
    by (auto simp: range_of_def)
  from True show ?thesis
    using assms subsetD[OF sub] unfolding seq_ok_def by fastforce
next
  case False
  then show ?thesis using assms by (simp add: seq_ok_def)
qed

lemma sorted_after: "sorted_wrt seq_le qs \<Longrightarrow> sorted_wrt seq_le (after j len qs)"
proof -
  assume "sorted_wrt seq_le qs"
  then have "sorted_wrt seq_le (take j qs @ drop j qs)"
    by simp
  then show ?thesis
    unfolding after_def sorted_wrt_append sorted_wrt_map
    by (auto simp: seq_le_iff elim!: sorted_wrt_mono_rel[rotated]) fastforce+
qed

lemma sum_shrink:
  assumes "\<forall>q \<in> set gs. len \<le> q_length q"
  shows "sum_list (map q_length gs) = len * length gs + sum_list (map q_length (map (shrink len) gs))"
  using assms by (induction gs) (simp_all add: algebra_simps)

lemma taken_state_ok:
  assumes ok: "sb_ok b sb" and len: "\<forall>q \<in> set (drop j (sb_seq sb)). len \<le> q_length q"
  shows "sb_ok b (taken_state b sb len j)"
    and "mset (pending sb) = mset (blocks (sb_ids sb) len (rev (drop j (sb_seq sb))))
      + mset (pending (taken_state b sb len j))"
    and "sb_n_tokens (taken_state b sb len j) + len * length (drop j (sb_seq sb)) = sb_n_tokens sb"
proof -
  let ?qs = "sb_seq sb"
  have qs: "?qs = take j ?qs @ drop j ?qs" by simp
  have sum: "sb_n_tokens sb = sum_list (map q_length (take j ?qs)) + sum_list (map q_length (drop j ?qs))"
    using ok by (simp add: sb_ok_def flip: sum_list_append map_append)
  then have sum': "sb_n_tokens sb = sum_list (map q_length (take j ?qs)) +
      (len * length (drop j ?qs) + sum_list (map q_length (map (shrink len) (drop j ?qs))))"
    using sum_shrink[OF len] by simp
  then show tok: "sb_n_tokens (taken_state b sb len j) + len * length (drop j ?qs) = sb_n_tokens sb"
    by simp
  have "\<forall>q \<in> set (after j len ?qs). seq_ok b (sb_ids sb) q"
    using ok by (auto simp: after_def sb_ok_def seq_ok_shrink dest: in_set_takeD in_set_dropD)
  moreover have "sb_n_tokens (taken_state b sb len j) = sum_list (map q_length (after j len ?qs))"
    using sum' by (simp add: after_def comp_def)
  ultimately show "sb_ok b (taken_state b sb len j)"
    using ok sorted_after[of ?qs j len] by (simp add: sb_ok_def)
  have "mset (pending sb) = mset (concat (map (\<lambda>q. seq_ids_of (sb_ids sb) q (q_length q)) (take j ?qs)))
      + mset (concat (map (\<lambda>q. seq_ids_of (sb_ids sb) q (q_length q)) (drop j ?qs)))"
    unfolding pending_def by (subst qs) (simp only: map_append concat_append mset_append)
  then show "mset (pending sb) = mset (blocks (sb_ids sb) len (rev (drop j ?qs)))
      + mset (pending (taken_state b sb len j))"
    using mset_shrink[OF len, of "sb_ids sb"]
    by (simp add: pending_def after_def mset_blocks_rev ac_simps del: map_map)
qed

text \<open>
  What every splitter promises for a non-empty batch: a non-empty micro-batch within
  the limit, of equal rows per sequence, whose tokens leave the pending ones.
\<close>

definition split_result ::
    "'e llama_batch \<Rightarrow> 'e llama_sbatch \<Rightarrow> nat \<Rightarrow> 'e llama_sbatch \<Rightarrow> 'e llama_ubatch \<Rightarrow> nat list
      \<Rightarrow> bool" where
  "split_result b sb n sb' ub ts =
     (ts \<noteq> [] \<and> length ts \<le> n \<and> ub_n_tokens ub = length ts \<and> ub_seqs_ok ub \<and>
      ub_n_tokens ub = ub_n_seq_tokens ub * ub_n_seqs ub \<and>
      ub_rows ub = map (batch_row (sb_logits_all sb) b) ts \<and>
      mset (pending sb) = mset ts + mset (pending sb') \<and>
      sb_n_tokens sb = length ts + sb_n_tokens sb' \<and>
      sb_logits_all sb' = sb_logits_all sb \<and>
      sb_out_ids sb' = sb_out_ids sb @ filter (\<lambda>t. out_flag (sb_logits_all sb) b t \<noteq> 0) ts)"

lemma reserve_holds:
  assumes "batch_ok b"
  shows "ub_holds b all ids len n (snd (reserve_ubatch sb n (b_embd b \<noteq> None))) []"
proof -
  have "(b_token b = None) \<noteq> (b_embd b = None)"
    using assms by (simp add: batch_ok_def batch_given_def Let_def)
  then show ?thesis
    by (cases "b_token b"; cases "b_embd b")
       (auto simp: ub_holds_def reserve_ubatch_def pay_holds_def buf_holds_def)
qed

lemma sb_ok_reserve:
  assumes ok: "sb_ok b sb" and pos: "0 < sb_n_tokens sb"
  obtains sb0 where "sb0 = sb\<lparr>sb_seq := pop_empty (sb_seq sb)\<rparr>" "sb_ok b sb0"
    "sb_seq sb0 \<noteq> []" "0 < q_length (last (sb_seq sb0))" "seq_ok b (sb_ids sb) (last (sb_seq sb0))"
    "\<And>n e. fst (reserve_ubatch sb n e) = sb0"
proof
  let ?sb0 = "sb\<lparr>sb_seq := pop_empty (sb_seq sb)\<rparr>"
  show ok0: "sb_ok b ?sb0" using ok by (rule sb_ok_pop_empty)
  have "sum_list (map q_length (pop_empty (sb_seq sb))) = sb_n_tokens sb"
    using ok0 by (simp add: sb_ok_def)
  then show ne: "sb_seq ?sb0 \<noteq> []" using pos by auto
  show "0 < q_length (last (sb_seq ?sb0))"
    using pop_empty_split[of "sb_seq sb"] ne by (metis llama_sbatch.select_convs(5)
        llama_sbatch.surjective llama_sbatch.update_convs(5))
  show "seq_ok b (sb_ids sb) (last (sb_seq ?sb0))"
    using ok0 ne by (simp add: sb_ok_def)
qed (simp_all add: reserve_ubatch_def)

lemma split_result_taken:
  assumes ok: "batch_ok b" "sb_ok b sb0" and sb0: "sb0 = sb\<lparr>sb_seq := pop_empty (sb_seq sb)\<rparr>"
    and len: "\<forall>q \<in> set (drop j (sb_seq sb0)). len \<le> q_length q" "0 < len"
    and j: "j < length (sb_seq sb0)" "len * (length (sb_seq sb0) - j) \<le> n"
      "len * (length (sb_seq sb0) - j) \<le> m"
    and h: "ub_holds b (sb_logits_all sb0) (sb_ids sb0) len m ub (rev (drop j (sb_seq sb0)))"
  shows "split_result b sb n (taken_state b sb0 len j) ub
    (blocks (sb_ids sb0) len (rev (drop j (sb_seq sb0))))"
proof -
  let ?gs = "rev (drop j (sb_seq sb0))"
  have gs: "\<forall>q \<in> set ?gs. seq_ok b (sb_ids sb0) q \<and> len \<le> q_length q"
    using ok(2) len(1) by (auto simp: sb_ok_def dest: in_set_dropD)
  have "length ?gs > 0" using j by simp
  then have "blocks (sb_ids sb0) len ?gs \<noteq> []"
    using len(2) by (simp flip: length_greater_0_conv del: length_rev)
  moreover have "ub_n_seq_tokens ub = len"
    using h j(1) by (simp add: ub_holds_def)
  moreover have "mset (pending sb) = mset (pending sb0)"
    by (simp add: sb0)
  moreover have "sb_n_tokens sb = sb_n_tokens sb0" "sb_logits_all sb0 = sb_logits_all sb"
    "sb_out_ids sb0 = sb_out_ids sb"
    by (simp_all add: sb0)
  ultimately show ?thesis
    using ub_holds_rows[OF h ok(1) gs len(2)] taken_state_ok(2,3)[OF ok(2) len(1)] h j(2)
      ub_holds_seqs[OF h ok(1) _ gs len(2)] j(3) ok(2)[unfolded sb_ok_def]
    by (simp add: split_result_def ub_holds_def taken_state_def)
qed

text \<open>The first sequence of a split is the last one that still owns tokens.\<close>

lemma first_block:
  assumes ok: "batch_ok b" "sb_ok b sb" and pos: "0 < sb_n_tokens sb" "0 < n_ubatch"
    and n: "n = min (sb_n_tokens sb) n_ubatch"
  obtains sb0 len ub0 ub1 i where
    "sb0 = sb\<lparr>sb_seq := pop_empty (sb_seq sb)\<rparr>" "sb_ok b sb0" "Suc i = length (sb_seq sb0)"
    "reserve_ubatch sb n (b_embd b \<noteq> None) = (sb0, ub0)"
    "len = min (q_length (sb_seq sb0 ! i)) n" "0 < len"
    "add_seq_to_ubatch sb0 ub0 i len = Inr (taken_state b sb0 len i, ub1)"
    "ub_holds b (sb_logits_all sb0) (sb_ids sb0) len n ub1 (rev (drop i (sb_seq sb0)))"
proof -
  obtain sb0 where sb0: "sb0 = sb\<lparr>sb_seq := pop_empty (sb_seq sb)\<rparr>" "sb_ok b sb0"
    "sb_seq sb0 \<noteq> []" "0 < q_length (last (sb_seq sb0))" "seq_ok b (sb_ids sb) (last (sb_seq sb0))"
    "\<And>n e. fst (reserve_ubatch sb n e) = sb0"
    using sb_ok_reserve[OF ok(2) pos(1)] by blast
  let ?qs = "sb_seq sb0" and ?ub = "snd (reserve_ubatch sb n (b_embd b \<noteq> None))"
  obtain i where i: "Suc i = length ?qs"
    using sb0(3) by (cases ?qs) auto
  have last: "last ?qs = ?qs ! i"
    using sb0(3) by (simp add: last_conv_nth flip: i)
  define len where "len = min (q_length (?qs ! i)) n"
  have len: "0 < len" "len \<le> q_length (?qs ! i)" "len \<le> n"
    unfolding len_def n using sb0(4) pos by (auto simp: last)
  have base: "sb_batch sb0 = Some b" "length (sb_ids sb0) = nat (b_n_tokens b)" "sb_ids sb0 = sb_ids sb"
    using sb0(1,2) by (simp_all add: sb_ok_def)
  have full: "taken_state b sb0 len (Suc i) = sb0"
    unfolding i by (rule taken_state_length)
  have "ub_holds b (sb_logits_all sb0) (sb_ids sb0) len n ?ub (rev (drop (Suc i) ?qs))"
    using reserve_holds[OF ok(1)] i by simp
  moreover have "i < length ?qs" "len * (length ?qs - i) \<le> n"
    using len(3) by (simp_all flip: i)
  ultimately obtain ub1 where "add_seq_to_ubatch sb0 ?ub i len = Inr (taken_state b sb0 len i, ub1)"
    "ub_holds b (sb_logits_all sb0) (sb_ids sb0) len n ub1 (rev (drop i ?qs))"
    using equal_step[OF ok(1) base(1,2), of i len n ?ub] len sb0(5) last full base(3) by auto
  moreover have "reserve_ubatch sb n (b_embd b \<noteq> None) = (sb0, ?ub)"
    using sb0(6) by (metis prod.collapse)
  ultimately show thesis
    using that[OF sb0(1,2) i _ len_def len(1)] by blast
qed

lemma split_seq_step:
  assumes ok: "batch_ok b" "sb_ok b sb" and pos: "0 < sb_n_tokens sb" "0 < n_ubatch"
  shows "\<exists>sb' ub ts. split_seq sb n_ubatch = Inr (sb', ub) \<and> sb_ok b sb'
    \<and> split_result b sb n_ubatch sb' ub ts"
proof -
  define n where "n = min (sb_n_tokens sb) n_ubatch"
  obtain sb0 len ub0 ub1 i where
    sb0: "sb0 = sb\<lparr>sb_seq := pop_empty (sb_seq sb)\<rparr>" "sb_ok b sb0" and
    i: "Suc i = length (sb_seq sb0)" and
    res: "reserve_ubatch sb n (b_embd b \<noteq> None) = (sb0, ub0)" and
    len: "len = min (q_length (sb_seq sb0 ! i)) n" "0 < len" and
    add: "add_seq_to_ubatch sb0 ub0 i len = Inr (taken_state b sb0 len i, ub1)" and
    h: "ub_holds b (sb_logits_all sb0) (sb_ids sb0) len n ub1 (rev (drop i (sb_seq sb0)))"
    using first_block[OF ok pos n_def] by metis
  have i': "length (sb_seq sb0) - 1 = i" "i < length (sb_seq sb0)" "sb_seq sb0 \<noteq> []"
    using i by auto
  have all: "\<forall>q \<in> set (drop i (sb_seq sb0)). len \<le> q_length q"
    using i' i len(1) by (auto simp flip: Cons_nth_drop_Suc)
  have one: "len * (length (sb_seq sb0) - i) \<le> n_ubatch" "len * (length (sb_seq sb0) - i) \<le> n"
    using len(1) n_def by (auto simp flip: i)
  have "0 < q_n_seq_id (sb_seq sb0 ! i)" "sb_batch sb = Some b"
    using sb0 i' by (auto simp: sb_ok_def seq_ok_def)
  then have "split_seq sb n_ubatch = Inr (taken_state b sb0 len i, ub1)"
    using add res i' len(1)
    by (simp add: split_seq_def has_embd_def n_def[symmetric] Let_def del: One_nat_def)
  moreover have "split_result b sb n_ubatch (taken_state b sb0 len i) ub1
      (blocks (sb_ids sb0) len (rev (drop i (sb_seq sb0))))"
    using len(2) i' all one by (intro split_result_taken[OF ok(1) sb0(2,1) _ _ _ _ _ h]) auto
  ultimately show ?thesis
    using taken_state_ok(1)[OF sb0(2) all] by blast
qed

text \<open>
  When the last sequence is no shared prompt, no sequence is, and all are at least as long.
\<close>

lemma no_shared_prompt:
  assumes ok: "sb_ok b sb" and i: "Suc i = length (sb_seq sb)"
    and one: "q_n_seq_id (sb_seq sb ! i) \<le> 1" and q: "q \<in> set (sb_seq sb)"
  shows "q_n_seq_id q = 1" "q_length (sb_seq sb ! i) \<le> q_length q"
proof -
  obtain k where k: "k < Suc i" "q = sb_seq sb ! k"
    using q i by (metis in_set_conv_nth)
  then have "k = i \<or> k < i" by auto
  then have "q = sb_seq sb ! i \<or> seq_le q (sb_seq sb ! i)"
    using ok i k(2) by (auto simp: sb_ok_def sorted_wrt_iff_nth_less)
  moreover have "0 < q_n_seq_id q"
    using q ok by (auto simp: sb_ok_def seq_ok_def)
  ultimately show "q_n_seq_id q = 1" "q_length (sb_seq sb ! i) \<le> q_length q"
    using one by (auto simp: seq_le_iff)
qed

lemma equal_loop_result:
  assumes ok: "batch_ok b" "sb_ok b sb" and i: "Suc i = length (sb_seq sb)"
    and len: "len = min (q_length (sb_seq sb ! i)) n" "0 < len"
    and add: "add_seq_to_ubatch sb ub0 i len = Inr (taken_state b sb len i, ub1)"
    and h: "ub_holds b (sb_logits_all sb) (sb_ids sb) len n ub1 (rev (drop i (sb_seq sb)))"
  shows "\<exists>j ub'. j < length (sb_seq sb) \<and>
      equal_loop n (length (sb_seq sb)) 0 0 sb ub0 = Inr (taken_state b sb len j, ub')
      \<and> ub_holds b (sb_logits_all sb) (sb_ids sb) len n ub' (rev (drop j (sb_seq sb)))
      \<and> len * (length (sb_seq sb) - j) \<le> n \<and> (\<forall>q \<in> set (drop j (sb_seq sb)). len \<le> q_length q)"
proof -
  let ?qs = "sb_seq sb"
  have base: "sb_batch sb = Some b" "length (sb_ids sb) = nat (b_n_tokens b)"
    "\<forall>q \<in> set ?qs. seq_ok b (sb_ids sb) q"
    using ok(2) by (simp_all add: sb_ok_def)
  have unf: "equal_loop n (length ?qs) 0 0 sb ub0 =
      (if 1 < q_n_seq_id (?qs ! i) \<or> n < len + len then Inr (taken_state b sb len i, ub1)
       else equal_loop n i len len (taken_state b sb len i) ub1)"
    using add len by (simp add: Let_def flip: i)
  have one: "drop i ?qs = [?qs ! i]" "length ?qs - i = 1" "i < length ?qs"
    using i by (auto simp flip: Cons_nth_drop_Suc)
  show ?thesis
  proof (cases "1 < q_n_seq_id (?qs ! i) \<or> n < len + len")
    case True
    then show ?thesis
      using unf h len one by (intro exI[of _ i] exI[of _ ub1]) auto
  next
    case False
    then have each: "q_n_seq_id q = 1 \<and> len \<le> q_length q" if "q \<in> set ?qs" for q
      using no_shared_prompt[OF ok(2) i _ \<open>q \<in> set ?qs\<close>] len(1) by auto
    have pre: "\<forall>q \<in> set (take i ?qs). seq_ok b (sb_ids sb) q \<and> len \<le> q_length q \<and> q_n_seq_id q = 1"
      using each base(3) by (auto dest: in_set_takeD)
    have tot: "len = len * (length ?qs - i)"
      unfolding one(2) by simp
    obtain j ub' where "j \<le> i"
      "equal_loop n i len len (taken_state b sb len i) ub1 = Inr (taken_state b sb len j, ub')"
      "ub_holds b (sb_logits_all sb) (sb_ids sb) len n ub' (rev (drop j ?qs))"
      "len * (length ?qs - j) \<le> n"
      using equal_loop_run[OF ok(1) base(1,2) refl len(2) _ pre h tot] False one(3) by auto
    then show ?thesis
      using unf False one(3) each
      by (intro exI[of _ j] exI[of _ ub']) (auto dest: in_set_dropD)
  qed
qed

lemma split_equal_step:
  assumes ok: "batch_ok b" "sb_ok b sb" and pos: "0 < sb_n_tokens sb" "0 < n_ubatch"
  shows "\<exists>sb' ub ts. split_equal sb n_ubatch = Inr (sb', ub) \<and> sb_ok b sb'
    \<and> split_result b sb n_ubatch sb' ub ts"
proof -
  define n where "n = min (sb_n_tokens sb) n_ubatch"
  obtain sb0 len ub0 ub1 i where
    sb0: "sb0 = sb\<lparr>sb_seq := pop_empty (sb_seq sb)\<rparr>" "sb_ok b sb0" and
    i: "Suc i = length (sb_seq sb0)" and
    res: "reserve_ubatch sb n (b_embd b \<noteq> None) = (sb0, ub0)" and
    len: "len = min (q_length (sb_seq sb0 ! i)) n" "0 < len" and
    add: "add_seq_to_ubatch sb0 ub0 i len = Inr (taken_state b sb0 len i, ub1)" and
    h1: "ub_holds b (sb_logits_all sb0) (sb_ids sb0) len n ub1 (rev (drop i (sb_seq sb0)))"
    using first_block[OF ok pos n_def] by metis
  obtain j ub where j: "j < length (sb_seq sb0)"
    "equal_loop n (length (sb_seq sb0)) 0 0 sb0 ub0 = Inr (taken_state b sb0 len j, ub)"
    "ub_holds b (sb_logits_all sb0) (sb_ids sb0) len n ub (rev (drop j (sb_seq sb0)))"
    "len * (length (sb_seq sb0) - j) \<le> n" "\<forall>q \<in> set (drop j (sb_seq sb0)). len \<le> q_length q"
    using equal_loop_result[OF ok(1) sb0(2) i len add h1] by auto
  have ne: "sb_seq sb0 \<noteq> []" "n \<le> n_ubatch" using i by (auto simp: n_def)
  have "0 < q_n_seq_id (sb_seq sb0 ! 0)" "sb_batch sb = Some b"
    using sb0 ne by (auto simp: sb_ok_def seq_ok_def)
  then have "split_equal sb n_ubatch = Inr (taken_state b sb0 len j, ub)"
    using j(2) res ne by (simp add: split_equal_def has_embd_def n_def[symmetric] Let_def)
  moreover have "split_result b sb n_ubatch (taken_state b sb0 len j) ub
      (blocks (sb_ids sb0) len (rev (drop j (sb_seq sb0))))"
    using j len ne by (intro split_result_taken[OF ok(1) sb0(2,1) _ _ _ _ _ j(3)]) auto
  ultimately show ?thesis
    using taken_state_ok(1)[OF sb0(2) j(5)] by blast
qed

section \<open>The simple split\<close>

definition simple_ok :: "'e llama_batch \<Rightarrow> 'e llama_sbatch \<Rightarrow> bool" where
  "simple_ok b sb =
     (sb_batch sb = Some b \<and> sb_ids sb = [0..<nat (b_n_tokens b)] \<and>
      (\<exists>q. sb_seq sb = [q] \<and> q_n_seq_id q = 0 \<and> q_offset q + q_length q = nat (b_n_tokens b) \<and>
        sb_n_tokens sb = q_length q))"

lemma seq_ids_of_upt:
  assumes "q_offset q + len \<le> n"
  shows "seq_ids_of [0..<n] q len = [q_offset q..<q_offset q + len]"
  using assms by (auto simp: seq_ids_of_def intro!: nth_equalityI)

lemma gather_output_simple:
  assumes out: "length (ub_output ub) = m" "len \<le> m" and ub: "ub_n_tokens ub = 0" "\<not> ub_equal_seqs ub"
    and ids: "sb_ids sb = [0..<nat (b_n_tokens b)]" "q_offset q + len \<le> nat (b_n_tokens b)"
    and lg: "opt_len (nat (b_n_tokens b)) (b_logits b)"
  shows "\<exists>d. gather_output sb b ub q len = (d, sb_out_ids sb @
      filter (\<lambda>t. out_flag (sb_logits_all sb) b t \<noteq> 0) [q_offset q..<q_offset q + len])
    \<and> (\<forall>k<len. d ! k = out_flag (sb_logits_all sb) b (q_offset q + k))"
proof -
  have mine: "seq_ids_of [0..<nat (b_n_tokens b)] q len = [q_offset q..<q_offset q + len]"
    using ids(2) by (rule seq_ids_of_upt)
  have wl: "write_loop (ub_output ub) 0 f len ! k = f k" if "k < len" for f k
    using that out write_loop_block[of 0 len "ub_output ub" f] by (simp add: nth_append)
  have shift: "map (\<lambda>i. q_offset q + i) (filter (\<lambda>i. P (q_offset q + i)) [0..<len]) =
      filter P [q_offset q..<q_offset q + len]" for P
    using filter_map[of P "\<lambda>i. q_offset q + i" "[0..<len]"] map_add_upt[of "q_offset q" len]
    by (simp add: comp_def add.commute)
  have wf: "filter (\<lambda>i. drop (q_offset q) l ! i \<noteq> 0) [0..<len] =
      filter (\<lambda>i. l ! (q_offset q + i) \<noteq> 0) [0..<len]" if "length l = nat (b_n_tokens b)" for l :: "int list"
    by (rule filter_cong) (use that ids(2) in auto)
  consider "sb_logits_all sb" | l where "\<not> sb_logits_all sb" "b_logits b = Some l"
    | "\<not> sb_logits_all sb" "b_logits b = None"
    by (cases "b_logits b") auto
  then show ?thesis
  proof cases
    case 1
    then show ?thesis
      using wl by (simp add: gather_output_def Let_def ids(1) mine ub out_flag_def[abs_def])
  next
    case (2 l)
    then have "length l = nat (b_n_tokens b)" using lg by (simp add: opt_len_def)
    then show ?thesis
      using 2 ub ids(2) wf shift[of "\<lambda>t. l ! t \<noteq> 0"]
      by (simp add: gather_output_def Let_def out_flag_def[abs_def])
  next
    case 3
    then show ?thesis
      using wl ids(2)
      by (auto simp: gather_output_def Let_def ids(1) mine ub out_flag_def[abs_def])
  qed
qed

lemma split_simple_step:
  assumes ok: "batch_ok b" "simple_ok b sb" and pos: "0 < sb_n_tokens sb" "0 < n_ubatch"
  shows "\<exists>sb' ub ts. split_simple sb n_ubatch = Inr (sb', ub) \<and> simple_ok b sb'
    \<and> split_result b sb n_ubatch sb' ub ts \<and> pending sb = ts @ pending sb'"
proof -
  let ?N = "nat (b_n_tokens b)" and ?all = "sb_logits_all sb"
  obtain q where q: "sb_seq sb = [q]" "q_n_seq_id q = 0" "q_offset q + q_length q = ?N"
    "sb_n_tokens sb = q_length q" and base: "sb_batch sb = Some b" "sb_ids sb = [0..<?N]"
    using ok(2) by (auto simp: simple_ok_def)
  obtain ps ns ss where b: "b_pos b = Some ps" "b_n_seq_id b = Some ns" "b_seq_id b = Some ss"
    "length ps = ?N" "length ns = ?N" "length ss = ?N"
    "opt_len ?N (b_token b)" "opt_len ?N (b_embd b)" "opt_len ?N (b_logits b)"
    using ok(1) by (rule batch_okE) blast
  define n where "n = min (sb_n_tokens sb) n_ubatch"
  have n: "0 < n" "n \<le> q_length q" "n \<le> n_ubatch" "min (q_length q) n = n"
    using pos q(4) by (auto simp: n_def)
  have pop: "pop_empty [q] = [q]"
    using n by (simp add: pop_empty_def)
  define ub0 where "ub0 = (snd (reserve_ubatch sb n (b_embd b \<noteq> None)))\<lparr>ub_equal_seqs := False\<rparr>"
  have ub0: "\<not> ub_equal_seqs ub0" "ub_n_tokens ub0 = 0" "ub_n_seqs ub0 = 0"
    "length (ub_output ub0) = n" "ub_n_seq_tokens ub0 = 0"
    by (simp_all add: ub0_def reserve_ubatch_def)
  have fst: "fst (reserve_ubatch sb n e) = sb" for e
    by (simp add: reserve_ubatch_def q(1) pop)
  have off: "q_offset q + n \<le> ?N" using q(3) n(2) by linarith
  obtain d where d: "gather_output sb b ub0 q n = (d, sb_out_ids sb @
      filter (\<lambda>t. out_flag ?all b t \<noteq> 0) [q_offset q..<q_offset q + n])"
    "\<forall>k<n. d ! k = out_flag ?all b (q_offset q + k)"
    using gather_output_simple[OF ub0(4) _ ub0(2,1) base(2) off b(9)] by auto
  define ub where "ub = ub0\<lparr>
    ub_token := map_option (drop (q_offset q)) (b_token b),
    ub_embd := map_option (drop (q_offset q)) (b_embd b), ub_pos := drop (q_offset q) ps,
    ub_n_seq_id := drop (q_offset q) ns, ub_seq_id := drop (q_offset q) ss, ub_output := d,
    ub_n_seq_tokens := 1, ub_n_tokens := n, ub_n_seqs := n\<rparr>"
  define sb' where "sb' = sb\<lparr>sb_out_ids := sb_out_ids sb @
      filter (\<lambda>t. out_flag ?all b t \<noteq> 0) [q_offset q..<q_offset q + n],
      sb_seq := [shrink n q], sb_n_tokens := sb_n_tokens sb - n\<rparr>"
  have pay: "gather_payload False src dst ids q' base n = Inr (map_option (drop (q_offset q')) src)"
    for src :: "'b list option" and dst ids q' base
    by (cases src) (simp_all add: gather_payload_def)
  have "gather_in_bounds sb b ub0 q n"
    using off base(2) ub0 by (simp add: gather_in_bounds_def)
  then have add: "add_seq_to_ubatch sb ub0 0 n = Inr (sb', ub)"
    using q n(2) d(1) b base ub0
    by (simp add: add_seq_to_ubatch_def Let_def pay gather_pos_def shrink_def ub_def sb'_def)
  obtain ubr where "reserve_ubatch sb n (b_embd b \<noteq> None) = (sb, ubr)"
    "ub0 = ubr\<lparr>ub_equal_seqs := False\<rparr>"
    using fst ub0_def by (metis prod.collapse)
  then have "split_simple sb n_ubatch = Inr (sb', ub)"
    using q(1,2) n(4) add base(1)
    by (simp add: split_simple_def has_embd_def n_def[symmetric] Let_def)
  moreover have "simple_ok b sb'"
    using q n base by (simp add: simple_ok_def sb'_def)
  moreover have pend: "pending sb = [q_offset q..<q_offset q + n] @ pending sb'"
  proof -
    have "pending sb' = [q_offset q + n..<q_offset q + q_length q]"
      using base(2) seq_ids_of_upt[of "shrink n q" "q_length q - n" ?N] q(3) n(2)
      by (simp add: pending_def sb'_def)
    moreover have "pending sb = [q_offset q..<q_offset q + q_length q]"
      using base(2) seq_ids_of_upt[of q "q_length q" ?N] q(1,3) by (simp add: pending_def)
    moreover have "[q_offset q..<q_offset q + q_length q] =
        [q_offset q..<q_offset q + n] @ [q_offset q + n..<q_offset q + q_length q]"
      using upt_add_eq_append[of "q_offset q" "q_offset q + n" "q_length q - n"] n(2)
      by (metis le_add1 le_add_diff_inverse add.assoc)
    ultimately show ?thesis by metis
  qed
  moreover have "ub_rows ub = map (batch_row ?all b) [q_offset q..<q_offset q + n]"
  proof (rule nth_equalityI)
    fix k assume "k < length (ub_rows ub)"
    then have k: "k < n" by (simp add: ub_rows_def ub_def)
    then have "q_offset q \<le> ?N" "q_offset q + k < ?N" using off by auto
    then show "ub_rows ub ! k = map (batch_row ?all b) [q_offset q..<q_offset q + n] ! k"
      using k d(2) b
      by (auto simp: ub_rows_def ub_def ub_row_def batch_row_def seq_id_list_def opt_len_def
          option.map_comp comp_def intro!: map_option_cong split: option.splits)
  qed (simp add: ub_rows_def ub_def)
  moreover have "ub_seqs_ok ub"
  proof -
    have "\<forall>t<?N. 0 < ns ! t \<and> ns ! t \<le> int (length (ss ! t))"
      using ok(1) b(2,3) by (auto elim!: batch_okE)
    then show ?thesis
      using off b(4-6) by (simp add: ub_seqs_ok_def ub_def)
  qed
  ultimately show ?thesis
    using n q(4) by (intro exI[of _ sb'] exI[of _ ub] exI[of _ "[q_offset q..<q_offset q + n]"])
      (simp add: split_result_def ub_def sb'_def)
qed

section \<open>Loading a batch\<close>

lemma mset_sort_insert [simp]: "mset (sort_insert lt x xs) = add_mset x (mset xs)"
  by (induction xs) auto

lemma mset_fold_insert: "mset (fold (sort_insert lt) xs acc) = mset xs + mset acc"
  by (induction xs arbitrary: acc) simp_all

lemma mset_std_sort [simp]: "mset (std_sort lt xs) = mset xs"
  by (simp add: std_sort_def mset_fold_insert)

lemma set_std_sort [simp]: "set (std_sort lt xs) = set xs"
  by (metis mset_std_sort set_mset_mset)

lemma length_std_sort [simp]: "length (std_sort lt xs) = length xs"
  by (metis mset_std_sort size_mset)

lemma sorted_sort_insert:
  assumes "sorted_wrt (\<lambda>x y. \<not> lt y x) xs"
    and "\<And>x y. lt x y \<Longrightarrow> \<not> lt y x" "\<And>x y z. \<not> lt y x \<Longrightarrow> \<not> lt z y \<Longrightarrow> \<not> lt z x"
  shows "sorted_wrt (\<lambda>x y. \<not> lt y x) (sort_insert lt x xs)"
  using assms(1)
proof (induction xs)
  case (Cons y ys)
  show ?case
  proof (cases "lt x y")
    case True
    have "\<not> lt z x" if "z \<in> set ys" for z
      using assms(3)[of y x z] assms(2)[OF True] Cons.prems that by simp
    then show ?thesis using Cons.prems assms(2)[OF True] True by simp
  next
    case False
    then have "set (sort_insert lt x ys) = insert x (set ys)"
      by (metis mset_sort_insert set_mset_add_mset_insert set_mset_mset)
    then show ?thesis using False Cons by simp
  qed
qed simp

lemma sorted_std_sort:
  assumes "\<And>x y. lt x y \<Longrightarrow> \<not> lt y x" "\<And>x y z. \<not> lt y x \<Longrightarrow> \<not> lt z y \<Longrightarrow> \<not> lt z x"
  shows "sorted_wrt (\<lambda>x y. \<not> lt y x) (std_sort lt xs)"
proof -
  have "sorted_wrt (\<lambda>x y. \<not> lt y x) (fold (sort_insert lt) xs acc)"
    if "sorted_wrt (\<lambda>x y. \<not> lt y x) acc" for acc
    using that
  proof (induction xs arbitrary: acc)
    case (Cons x xs)
    have "sorted_wrt (\<lambda>x y. \<not> lt y x) (sort_insert lt x acc)"
      using Cons.prems assms by (rule sorted_sort_insert)
    then show ?case using Cons.IH by simp
  qed simp
  then show ?thesis by (simp add: std_sort_def)
qed

lemma sorted_std_sort_seq: "sorted_wrt seq_le (std_sort seq_less qs)"
  unfolding seq_le_def by (rule sorted_std_sort) (auto simp: seq_less_def split: if_splits)

text \<open>
  The invariant of "init seq" after \<open>i\<close> tokens: the sequences own the first \<open>i\<close> places
  between them, and the last one ends at \<open>i\<close>.
\<close>

definition group_inv :: "'e llama_batch \<Rightarrow> nat list \<Rightarrow> nat \<Rightarrow> bool \<Rightarrow> llama_sbatch_seq list \<Rightarrow> bool" where
  "group_inv b ids i fresh qs =
     ((\<forall>q \<in> set qs. seq_ok b ids q) \<and>
      concat (map (\<lambda>q. seq_ids_of ids q (q_length q)) qs) = take i ids \<and>
      (fresh \<longrightarrow> qs \<noteq> [] \<and> q_offset (last qs) + q_length (last qs) = i \<and> 0 < q_length (last qs) \<and>
         (\<exists>t<nat (b_n_tokens b). q_seq_id (last qs) = Some (the (b_seq_id b) ! t) \<and>
            the (b_n_seq_id b) ! t = q_n_seq_id (last qs))))"

lemma same_seq_take:
  assumes "same_seq n xs q" "q_seq_id q = Some js" "nat n \<le> length xs" "nat n \<le> length js"
  shows "q_n_seq_id q = n" "take (nat n) xs = take (nat n) js"
  using assms by (auto simp: same_seq_def list_all_iff intro!: nth_equalityI)

lemma group_step_extend:
  assumes ok: "batch_ok b" and inv: "group_inv b ids i True qs"
    and ids: "length ids = nat (b_n_tokens b)" "i < length ids" "ids ! i = t" "t < nat (b_n_tokens b)"
    and same: "same_seq (the (b_n_seq_id b) ! t) (the (b_seq_id b) ! t) (last qs)"
  shows "group_inv b ids (Suc i) True (butlast qs @ [(last qs)\<lparr>q_length := q_length (last qs) + 1\<rparr>])"
proof -
  let ?q = "last qs" and ?q' = "(last qs)\<lparr>q_length := q_length (last qs) + 1\<rparr>"
  obtain u where u: "u < nat (b_n_tokens b)" "q_seq_id ?q = Some (the (b_seq_id b) ! u)"
    "the (b_n_seq_id b) ! u = q_n_seq_id ?q" and
    l: "qs \<noteq> []" "q_offset ?q + q_length ?q = i" "0 < q_length ?q"
    using inv by (auto simp: group_inv_def)
  have n: "the (b_n_seq_id b) ! t = q_n_seq_id ?q"
    using same by (simp add: same_seq_def)
  have len: "nat (q_n_seq_id ?q) \<le> length (the (b_seq_id b) ! t)"
    "nat (q_n_seq_id ?q) \<le> length (the (b_seq_id b) ! u)"
    using ok u ids(4) n by (auto elim!: batch_okE)
  have tk: "take (nat (q_n_seq_id ?q)) (the (b_seq_id b) ! t) =
      take (nat (q_n_seq_id ?q)) (the (b_seq_id b) ! u)"
    using same_seq_take(2)[OF same u(2)] n len by simp
  have qok: "seq_ok b ids ?q" using inv l(1) by (simp add: group_inv_def)
  have "range_of ?q' = range_of ?q @ [i]"
    using l by (simp add: range_of_def)
  then have "seq_ok b ids ?q'"
    using qok u(2) l(2,3) n tk ids by (auto simp: seq_ok_def)
  moreover have "seq_ids_of ids ?q' (q_length ?q') = seq_ids_of ids ?q (q_length ?q) @ [ids ! i]"
    using l(2) by (simp add: seq_ids_of_def)
  moreover have "concat (map (\<lambda>q. seq_ids_of ids q (q_length q)) (butlast qs)) @
      seq_ids_of ids ?q (q_length ?q) = take i ids"
  proof -
    have "concat (map (\<lambda>q. seq_ids_of ids q (q_length q)) (butlast qs @ [?q])) = take i ids"
      using inv l(1) by (simp add: group_inv_def)
    then show ?thesis by simp
  qed
  moreover have "\<forall>q \<in> set (butlast qs). seq_ok b ids q"
    using inv by (auto simp: group_inv_def dest: in_set_butlastD)
  ultimately show ?thesis
    using u l ids(2) by (auto simp: group_inv_def take_Suc_conv_app_nth)
qed

lemma group_step_new:
  assumes ok: "batch_ok b" and inv: "group_inv b ids i fresh qs"
    and ids: "length ids = nat (b_n_tokens b)" "i < length ids" "ids ! i = t" "t < nat (b_n_tokens b)"
  shows "group_inv b ids (Suc i) True (qs @ [\<lparr>q_n_seq_id = the (b_n_seq_id b) ! t,
    q_seq_id = Some (the (b_seq_id b) ! t), q_offset = i, q_length = 1\<rparr>])"
proof -
  have "0 < the (b_n_seq_id b) ! t"
    using ok ids(4) by (auto elim!: batch_okE)
  then show ?thesis
    using inv ids by (auto simp: group_inv_def seq_ok_def range_of_def seq_ids_of_def
        take_Suc_conv_app_nth)
qed

lemma group_seqs_inv:
  assumes ok: "batch_ok b" and ids: "length ids = nat (b_n_tokens b)" "set ids \<subseteq> {..<nat (b_n_tokens b)}"
  shows "drop i ids = rest \<Longrightarrow> group_inv b ids i fresh qs \<Longrightarrow>
    group_inv b ids (length ids) False
      (group_seqs (the (b_n_seq_id b)) (the (b_seq_id b)) i rest fresh qs)"
proof (induction rest arbitrary: i fresh qs)
  case Nil
  then show ?case by (simp add: group_inv_def)
next
  case (Cons t rest)
  have i: "i < length ids" using Cons.prems(1) by (metis drop_all linorder_not_less list.discI)
  have t: "ids ! i = t" "drop (Suc i) ids = rest"
    using Cons.prems(1) i by (metis nth_via_drop, metis drop_Suc list.sel(3) tl_drop)
  have tN: "t < nat (b_n_tokens b)"
    using ids(2) i t(1) by (metis lessThan_iff nth_mem subsetD)
  show ?case
    using Cons.IH[OF t(2) group_step_extend[OF ok _ ids(1) i t(1) tN, of qs]]
      Cons.IH[OF t(2) group_step_new[OF ok Cons.prems(2) ids(1) i t(1) tN]] Cons.prems(2)
    by (cases fresh) auto
qed

text \<open>The splitter has handed out everything it was given.\<close>

definition exhausted :: "'e llama_sbatch \<Rightarrow> bool" where
  "exhausted sb = list_all (\<lambda>q. q_length q = 0 \<and> 0 < q_n_seq_id q) (sb_seq sb)"

lemma from_batch_simple:
  assumes "batch_ok b"
  shows "\<exists>sb'. from_batch sb b True all = Inr sb' \<and> simple_ok b sb' \<and>
    pending sb' = [0..<nat (b_n_tokens b)] \<and> sb_out_ids sb' = [] \<and> sb_logits_all sb' = all"
proof -
  have "0 \<le> b_n_tokens b" using assms by (rule batch_okE)
  then show ?thesis
    by (simp add: from_batch_def simple_ok_def pending_def seq_ids_of_upt Let_def)
qed

lemma from_batch_seqs:
  assumes ok: "batch_ok b" and ex: "exhausted sb"
  shows "\<exists>sb'. from_batch sb b False all = Inr sb' \<and> sb_ok b sb' \<and>
    mset (pending sb') = mset [0..<nat (b_n_tokens b)] \<and> sb_out_ids sb' = [] \<and> sb_logits_all sb' = all"
proof -
  let ?N = "nat (b_n_tokens b)"
  obtain ns ss where b: "b_n_seq_id b = Some ns" "b_seq_id b = Some ss" "0 \<le> b_n_tokens b"
    using ok by (rule batch_okE)
  define ids where "ids = std_sort (ids_less b) [0..<?N]"
  have ids: "length ids = ?N" "set ids \<subseteq> {..<?N}" "mset ids = mset [0..<?N]"
    by (auto simp: ids_def)
  have stale: "concat (map (\<lambda>q. seq_ids_of ids q (q_length q)) (sb_seq sb)) = []"
    using ex by (auto simp: exhausted_def list_all_iff)
  have "group_inv b ids 0 False (sb_seq sb)"
    using ex stale by (auto simp: group_inv_def exhausted_def list_all_iff seq_ok_def)
  then have inv: "group_inv b ids ?N False (group_seqs ns ss 0 ids False (sb_seq sb))"
    using group_seqs_inv[OF ok ids(1,2), of 0 ids False "sb_seq sb"] ids(1) b by simp
  define qs where "qs = (if ?N = 0 then sb_seq sb else group_seqs ns ss 0 ids False (sb_seq sb))"
  have qs: "\<forall>q \<in> set qs. seq_ok b ids q" "concat (map (\<lambda>q. seq_ids_of ids q (q_length q)) qs) = ids"
    using inv ids(1) by (auto simp: qs_def group_inv_def)
  define sb' where "sb' = sb\<lparr>sb_batch := Some b, sb_logits_all := all, sb_n_tokens := ?N,
    sb_ids := ids, sb_out_ids := [], sb_seq := std_sort seq_less qs\<rparr>"
  have "from_batch sb b False all = Inr sb'"
    using b by (cases "?N = 0") (auto simp: from_batch_def Let_def ids_def sb'_def qs_def)
  moreover have pend: "mset (pending sb') = mset ids"
  proof -
    have cm: "mset (concat (map f xs)) = \<Sum>\<^sub># (image_mset (\<lambda>q. mset (f q)) (mset xs))" for f xs
      by (induction xs) auto
    show ?thesis
      using qs(2) by (simp add: pending_def sb'_def cm) (simp flip: cm)
  qed
  moreover have "sb_n_tokens sb' = sum_list (map q_length (sb_seq sb'))"
  proof -
    have "sum_list (map q_length (sb_seq sb')) = length (pending sb')"
      by (simp add: length_pending)
    also have "\<dots> = ?N"
      using pend ids(1) by (metis size_mset)
    finally show ?thesis by (simp add: sb'_def)
  qed
  then have "sb_ok b sb'"
    using qs(1) ids sorted_std_sort_seq by (simp add: sb_ok_def sb'_def)
  ultimately show ?thesis
    using ids(3) by (simp add: sb'_def)
qed

section \<open>Splitters\<close>

text \<open>
  What \<open>llama_decode_impl\<close> relies on: from a state of the invariant with tokens left,
  \<open>split\<close> returns a micro-batch as \<open>split_result\<close> says and keeps the invariant.  Then
  its loop ends, and the micro-batches partition the batch.
\<close>

locale splitter =
  fixes split :: "'e llama_sbatch \<Rightarrow> nat \<Rightarrow> ('e llama_sbatch \<times> 'e llama_ubatch) res"
    and inv :: "'e llama_batch \<Rightarrow> 'e llama_sbatch \<Rightarrow> bool"
  assumes step: "batch_ok b \<Longrightarrow> inv b sb \<Longrightarrow> 0 < sb_n_tokens sb \<Longrightarrow> 0 < n \<Longrightarrow>
      \<exists>sb' ub ts. split sb n = Inr (sb', ub) \<and> inv b sb' \<and> split_result b sb n sb' ub ts"
    and none_left: "inv b sb \<Longrightarrow> sb_n_tokens sb = length (pending sb)"
begin

lemma drain:
  assumes "batch_ok b" "inv b sb" "0 < n"
  shows "\<exists>sb' ubs ts. split_all split sb n = Some (Inr (sb', ubs)) \<and> inv b sb' \<and> pending sb' = [] \<and>
      sb_n_tokens sb' = 0 \<and>
      mset ts = mset (pending sb) \<and>
      concat (map ub_rows ubs) = map (batch_row (sb_logits_all sb) b) ts \<and>
      sb_out_ids sb' = sb_out_ids sb @ filter (\<lambda>t. out_flag (sb_logits_all sb) b t \<noteq> 0) ts \<and>
      (\<forall>ub \<in> set ubs. 0 < ub_n_tokens ub \<and> ub_n_tokens ub \<le> n \<and>
        ub_n_tokens ub = ub_n_seq_tokens ub * ub_n_seqs ub)"
  using assms(2)
proof (induction "sb_n_tokens sb" arbitrary: sb rule: less_induct)
  case less
  show ?case
  proof (cases "sb_n_tokens sb = 0")
    case True
    then have "pending sb = []" using none_left[OF less.prems] by simp
    then show ?thesis
      using True less.prems by (intro exI[of _ sb] exI[of _ "[]"] exI[of _ "[]"])
        (simp add: split_all.simps)
  next
    case False
    then obtain sb1 ub us where s: "split sb n = Inr (sb1, ub)" "inv b sb1"
      "split_result b sb n sb1 ub us"
      using step[OF assms(1) less.prems _ assms(3)] by auto
    note r = s(3)[unfolded split_result_def]
    have "sb_n_tokens sb1 < sb_n_tokens sb"
      using r by (cases us) auto
    then obtain sb' ubs ts where t: "split_all split sb1 n = Some (Inr (sb', ubs))" "inv b sb'"
      "pending sb' = []" "sb_n_tokens sb' = 0" "mset ts = mset (pending sb1)"
      "concat (map ub_rows ubs) = map (batch_row (sb_logits_all sb) b) ts"
      "sb_out_ids sb' = sb_out_ids sb1 @ filter (\<lambda>t. out_flag (sb_logits_all sb) b t \<noteq> 0) ts"
      "\<forall>ub \<in> set ubs. 0 < ub_n_tokens ub \<and> ub_n_tokens ub \<le> n \<and>
        ub_n_tokens ub = ub_n_seq_tokens ub * ub_n_seqs ub"
      using less.hyps[OF _ s(2)] r by auto
    have "split_all split sb n = Some (Inr (sb', ub # ubs))"
      using False s(1) t(1) by (simp add: split_all.simps)
    then show ?thesis
      using r t by (intro exI[of _ sb'] exI[of _ "ub # ubs"] exI[of _ "us @ ts"]) auto
  qed
qed

lemma drain_rows:
  assumes "batch_ok b" "inv b sb" "0 < n" "mset (pending sb) = mset [0..<nat (b_n_tokens b)]"
    and "sb_out_ids sb = []"
  shows "\<exists>sb' ubs. split_all split sb n = Some (Inr (sb', ubs)) \<and> inv b sb' \<and> pending sb' = [] \<and>
      mset (concat (map ub_rows ubs)) = mset (batch_rows (sb_logits_all sb) b) \<and>
      map (batch_row (sb_logits_all sb) b) (sb_out_ids sb') =
        filter (\<lambda>r. snd (snd (snd (snd r))) \<noteq> 0) (concat (map ub_rows ubs)) \<and>
      (\<forall>ub \<in> set ubs. 0 < ub_n_tokens ub \<and> ub_n_tokens ub \<le> n \<and>
        ub_n_tokens ub = ub_n_seq_tokens ub * ub_n_seqs ub)"
proof -
  obtain sb' ubs ts where t: "split_all split sb n = Some (Inr (sb', ubs))" "inv b sb'"
      "pending sb' = []" "mset ts = mset (pending sb)"
      "concat (map ub_rows ubs) = map (batch_row (sb_logits_all sb) b) ts"
      "sb_out_ids sb' = sb_out_ids sb @ filter (\<lambda>t. out_flag (sb_logits_all sb) b t \<noteq> 0) ts"
      "\<forall>ub \<in> set ubs. 0 < ub_n_tokens ub \<and> ub_n_tokens ub \<le> n \<and>
        ub_n_tokens ub = ub_n_seq_tokens ub * ub_n_seqs ub"
    using drain[OF assms(1-3)] by auto
  have "mset (concat (map ub_rows ubs)) = image_mset (batch_row (sb_logits_all sb) b) (mset ts)"
    by (simp add: t(5))
  then have "mset (concat (map ub_rows ubs)) = mset (batch_rows (sb_logits_all sb) b)"
    by (simp add: t(4) assms(4) batch_rows_def)
  moreover have "map (batch_row (sb_logits_all sb) b) (sb_out_ids sb') =
      filter (\<lambda>r. snd (snd (snd (snd r))) \<noteq> 0) (concat (map ub_rows ubs))"
    by (simp add: t(5,6) assms(5) filter_map comp_def batch_row_def)
  ultimately show ?thesis using t by blast
qed

end

text \<open>A splitter that keeps the order of the batch.\<close>

locale ordered_splitter = splitter +
  assumes in_order: "batch_ok b \<Longrightarrow> inv b sb \<Longrightarrow> 0 < sb_n_tokens sb \<Longrightarrow> 0 < n \<Longrightarrow>
      split sb n = Inr (sb', ub) \<Longrightarrow>
      map (batch_row (sb_logits_all sb) b) (pending sb) =
        ub_rows ub @ map (batch_row (sb_logits_all sb) b) (pending sb')"
begin

lemma drain_ordered:
  assumes "batch_ok b" "inv b sb" "0 < n" "split_all split sb n = Some (Inr (sb', ubs))"
  shows "concat (map ub_rows ubs) = map (batch_row (sb_logits_all sb) b) (pending sb)"
  using assms(2,4)
proof (induction "sb_n_tokens sb" arbitrary: sb ubs rule: less_induct)
  case less
  show ?case
  proof (cases "sb_n_tokens sb = 0")
    case True
    then show ?thesis
      using less.prems none_left[OF less.prems(1)] by (simp add: split_all.simps)
  next
    case False
    then obtain sb1 ub us where s: "split sb n = Inr (sb1, ub)" "inv b sb1"
      "split_result b sb n sb1 ub us"
      using step[OF assms(1) less.prems(1) _ assms(3)] by auto
    note r = s(3)[unfolded split_result_def]
    have lt: "sb_n_tokens sb1 < sb_n_tokens sb"
      using r by (cases us) auto
    obtain ubs1 where u: "ubs = ub # ubs1" "split_all split sb1 n = Some (Inr (sb', ubs1))"
      using less.prems(2) False s(1)
      by (auto simp: split_all.simps[of split sb] bind_eq_Some_conv rbind_Inr_iff)
    then show ?thesis
      using less.hyps[OF lt s(2) u(2)] in_order[OF assms(1) less.prems(1) _ assms(3) s(1)] False r
      by simp
  qed
qed

end

interpretation eq_split: splitter split_equal sb_ok
proof
  show "sb_ok b sb \<Longrightarrow> sb_n_tokens sb = length (pending sb)" for b and sb :: "'a llama_sbatch"
    by (simp add: sb_ok_def length_pending)
qed (rule split_equal_step)

interpretation seq_split: splitter split_seq sb_ok
proof
  show "sb_ok b sb \<Longrightarrow> sb_n_tokens sb = length (pending sb)" for b and sb :: "'a llama_sbatch"
    by (simp add: sb_ok_def length_pending)
qed (rule split_seq_step)

interpretation simple_split: ordered_splitter split_simple simple_ok
proof
  fix b :: "'a llama_batch" and sb :: "'a llama_sbatch"
  show "simple_ok b sb \<Longrightarrow> sb_n_tokens sb = length (pending sb)"
    by (auto simp: simple_ok_def length_pending)
next
  fix b :: "'a llama_batch" and sb :: "'a llama_sbatch" and n :: nat
  assume "batch_ok b" "simple_ok b sb" "0 < sb_n_tokens sb" "0 < n"
  then show "\<exists>sb' ub ts. split_simple sb n = Inr (sb', ub) \<and> simple_ok b sb' \<and> split_result b sb n sb' ub ts"
    using split_simple_step by blast
next
  fix b :: "'a llama_batch" and sb sb' :: "'a llama_sbatch" and n :: nat and ub
  assume "batch_ok b" "simple_ok b sb" "0 < sb_n_tokens sb" "0 < n" "split_simple sb n = Inr (sb', ub)"
  then show "map (batch_row (sb_logits_all sb) b) (pending sb) =
        ub_rows ub @ map (batch_row (sb_logits_all sb) b) (pending sb')"
    using split_simple_step[of b sb n] by (auto simp: split_result_def)
qed

section \<open>The allocator\<close>

lemma batch_allocr_spec:
  assumes "batch_given b" "0 < b_n_tokens b"
  shows "\<exists>b'. batch_allocr b p0 = Inr b' \<and> batch_ok b' \<and>
    b_n_tokens b' = b_n_tokens b \<and> b_token b' = b_token b \<and> b_embd b' = b_embd b \<and>
    (\<forall>t < nat (b_n_tokens b).
      the (b_pos b') ! t = (case b_pos b of None \<Rightarrow> int t + p0 | Some ps \<Rightarrow> ps ! t) \<and>
      (b_seq_id b = None \<longrightarrow> seq_id_list (the (b_n_seq_id b')) (the (b_seq_id b')) t = [0]) \<and>
      out_flag False b' t = out_flag False b t)"
proof -
  let ?n = "nat (b_n_tokens b)"
  have len: "opt_len ?n (b_token b)" "opt_len ?n (b_embd b)" "opt_len ?n (b_pos b)"
    "opt_len ?n (b_n_seq_id b)" "opt_len ?n (b_seq_id b)" "opt_len ?n (b_logits b)"
    "(b_token b = None) \<noteq> (b_embd b = None)"
    using assms(1) by (simp_all add: batch_given_def Let_def)
  obtain b' where b': "batch_allocr b p0 = Inr b'"
    using assms(2) by (simp add: batch_allocr_def Let_def)
  then have f: "b_n_tokens b' = b_n_tokens b" "b_token b' = b_token b" "b_embd b' = b_embd b"
    "b_pos b' = (case b_pos b of None \<Rightarrow> Some (map (\<lambda>i. int i + p0) [0..<?n]) | p \<Rightarrow> p)"
    "b_n_seq_id b' = (case b_n_seq_id b of None \<Rightarrow> Some (replicate ?n 1) | x \<Rightarrow> x)"
    "b_seq_id b' = (case b_seq_id b of None \<Rightarrow> Some (replicate ?n [0]) | x \<Rightarrow> x)"
    "b_logits b' = (case b_logits b of None \<Rightarrow> Some ((replicate ?n 0)[?n - 1 := 1]) | x \<Rightarrow> x)"
    using assms(2) by (auto simp: batch_allocr_def Let_def)
  have ids: "(case (b_n_seq_id b, b_seq_id b) of
            (None, None) \<Rightarrow> True
          | (Some ns, None) \<Rightarrow> \<forall>t<?n. ns ! t = 1
          | (None, Some ss) \<Rightarrow> \<forall>t<?n. 1 \<le> length (ss ! t)
          | (Some ns, Some ss) \<Rightarrow> \<forall>t<?n. 0 < ns ! t \<and> nat (ns ! t) \<le> length (ss ! t))"
    using assms(1) by (simp add: batch_given_def Let_def)
  have "batch_ok b'"
    using len ids assms(2) unfolding batch_ok_def batch_given_def Let_def f
    by (auto simp: opt_len_def split: option.splits)
  moreover have "\<forall>t < ?n.
      the (b_pos b') ! t = (case b_pos b of None \<Rightarrow> int t + p0 | Some ps \<Rightarrow> ps ! t) \<and>
      (b_seq_id b = None \<longrightarrow> seq_id_list (the (b_n_seq_id b')) (the (b_seq_id b')) t = [0]) \<and>
      out_flag False b' t = out_flag False b t"
    using len ids unfolding f
    by (auto simp: opt_len_def seq_id_list_def out_flag_def f nth_list_update split: option.splits)
  ultimately show ?thesis using b' f by auto
qed

end
