(* ===== verification/BatchTheorems.thy ===== *)
theory BatchTheorems
  imports BatchProps
begin

text \<open>
  The properties of the batch component: the splitters partition every complete batch,
  the allocator completes it, and what an abandoned batch leaves behind.
\<close>

section \<open>Sample batches for the witnesses\<close>

definition two_seqs :: "int llama_batch" where
  "two_seqs = \<lparr>b_n_tokens = 3, b_token = Some [11, 12, 21], b_embd = None,
     b_pos = Some [0, 1, 0], b_n_seq_id = Some [1, 1, 1], b_seq_id = Some [[0], [0], [1]],
     b_logits = Some [0, 1, 1]\<rparr>"

definition one_seq :: "int llama_batch" where
  "one_seq = \<lparr>b_n_tokens = 2, b_token = Some [31, 32], b_embd = None,
     b_pos = Some [5, 6], b_n_seq_id = Some [1, 1], b_seq_id = Some [[1], [1]],
     b_logits = Some [0, 1]\<rparr>"

definition fresh_sbatch :: "int llama_sbatch" where
  "fresh_sbatch = \<lparr>sb_n_tokens = 0, sb_logits_all = False, sb_ids = [], sb_out_ids = [],
     sb_seq = [], sb_batch = None\<rparr>"

lemma less_3_cases: "(t::nat) < 3 \<longleftrightarrow> t = 0 \<or> t = 1 \<or> t = 2"
  by auto

lemma two_seqs_ok: "batch_ok two_seqs"
  by (auto simp: batch_ok_def batch_given_def two_seqs_def opt_len_def less_3_cases)

section \<open>Properties\<close>

text \<open>
  C19. Simple splitting, used for every transformer model: whatever the micro-batch limit
  and whatever the splitter was left with, loading a complete batch and splitting until no
  token is left ends, and the micro-batches hold exactly the rows of the batch (payload,
  position, sequence ids, output flag), in order, none larger than the limit.
\<close>

theorem simple_split_in_order:
  assumes "batch_ok b" "0 < n" "from_batch sb b True all = Inr sb0"
  shows "\<exists>sb' ubs. split_all split_simple sb0 n = Some (Inr (sb', ubs)) \<and>
    concat (map ub_rows ubs) = batch_rows all b \<and>
    map (batch_row all b) (sb_out_ids sb') =
      filter (\<lambda>(_, _, _, _, out). out \<noteq> 0) (batch_rows all b) \<and>
    (\<forall>ub \<in> set ubs. 0 < ub_n_tokens ub \<and> ub_n_tokens ub \<le> n)"
proof -
  have f: "simple_ok b sb0" "pending sb0 = [0..<nat (b_n_tokens b)]" "sb_out_ids sb0 = []"
    "sb_logits_all sb0 = all"
    using from_batch_simple[OF assms(1), of sb all] assms(3) by auto
  obtain sb' ubs where r: "split_all split_simple sb0 n = Some (Inr (sb', ubs))"
    "map (batch_row all b) (sb_out_ids sb') =
      filter (\<lambda>r. snd (snd (snd (snd r))) \<noteq> 0) (concat (map ub_rows ubs))"
    "\<forall>ub \<in> set ubs. 0 < ub_n_tokens ub \<and> ub_n_tokens ub \<le> n"
    using simple_split.drain_rows[OF assms(1) f(1) assms(2)] f(2-4) by auto
  moreover have "concat (map ub_rows ubs) = batch_rows all b"
    using simple_split.drain_ordered[OF assms(1) f(1) assms(2) r(1)] f by (simp add: batch_rows_def)
  ultimately show ?thesis by (simp add: case_prod_beta')
qed

theorem simple_split_in_order_witness:
  "\<exists>sb' ubs. split_all split_simple (projr (from_batch fresh_sbatch two_seqs True False)) 2 =
      Some (Inr (sb', ubs)) \<and>
    concat (map ub_rows ubs) =
      [(Some 11, None, 0, [0], 0), (Some 12, None, 1, [0], 1), (Some 21, None, 0, [1], 1)]"
proof -
  have f: "from_batch fresh_sbatch two_seqs True False =
      Inr (projr (from_batch fresh_sbatch two_seqs True False))"
    by (simp add: from_batch_def two_seqs_def Let_def)
  have rows: "batch_rows False two_seqs =
      [(Some 11, None, 0, [0], 0), (Some 12, None, 1, [0], 1), (Some 21, None, 0, [1], 1)]"
    by code_simp
  obtain sb' ubs where
    "split_all split_simple (projr (from_batch fresh_sbatch two_seqs True False)) 2 =
      Some (Inr (sb', ubs))" "concat (map ub_rows ubs) = batch_rows False two_seqs"
    using simple_split_in_order[OF two_seqs_ok _ f, of 2] by auto
  then show ?thesis unfolding rows by blast
qed

text \<open>
  C20. Equal-length and per-sequence splitting, used for recurrent models: from a splitter
  whose last batch was consumed, loading a complete batch and splitting until no token is
  left never fails an assertion, ends, and hands out every row of the batch exactly once;
  each micro-batch is a rectangle of \<open>n_seqs\<close> times \<open>n_seq_tokens\<close> tokens within the limit,
  the output indices list the rows flagged for output in the order they were handed out,
  and the splitter can take the next batch.
\<close>

theorem equal_split_partitions:
  assumes "batch_ok b" "0 < n" "exhausted sb" "from_batch sb b False all = Inr sb0"
    and "split = split_equal \<or> split = split_seq"
  shows "\<exists>sb' ubs. split_all split sb0 n = Some (Inr (sb', ubs)) \<and> exhausted sb' \<and>
    mset (concat (map ub_rows ubs)) = mset (batch_rows all b) \<and>
    map (batch_row all b) (sb_out_ids sb') =
      filter (\<lambda>(_, _, _, _, out). out \<noteq> 0) (concat (map ub_rows ubs)) \<and>
    (\<forall>ub \<in> set ubs. 0 < ub_n_tokens ub \<and> ub_n_tokens ub \<le> n \<and>
      ub_n_tokens ub = ub_n_seq_tokens ub * ub_n_seqs ub)"
proof -
  have f: "sb_ok b sb0" "mset (pending sb0) = mset [0..<nat (b_n_tokens b)]" "sb_out_ids sb0 = []"
    "sb_logits_all sb0 = all"
    using from_batch_seqs[OF assms(1,3), of all] assms(4) by auto
  have ex: "exhausted sb'" if "sb_ok b sb'" "pending sb' = []" for sb'
    using that by (auto simp: exhausted_def list_all_iff sb_ok_def seq_ok_def pending_def seq_ids_of_def)
  show ?thesis
    using eq_split.drain_rows[OF assms(1) f(1) assms(2) f(2,3)]
      seq_split.drain_rows[OF assms(1) f(1) assms(2) f(2,3)] assms(5) f(4) ex
    by (fastforce simp: case_prod_beta')
qed

theorem equal_split_partitions_witness:
  "\<exists>sb' ubs. split_all split_equal (projr (from_batch fresh_sbatch two_seqs False False)) 2 =
      Some (Inr (sb', ubs)) \<and> exhausted sb' \<and>
    mset (concat (map ub_rows ubs)) =
      mset [(Some 11, None, 0, [0], 0), (Some 12, None, 1, [0], 1), (Some 21, None, 0, [1], 1)]"
proof -
  have f: "from_batch fresh_sbatch two_seqs False False =
      Inr (projr (from_batch fresh_sbatch two_seqs False False))"
    by (simp add: from_batch_def two_seqs_def Let_def)
  have rows: "batch_rows False two_seqs =
      [(Some 11, None, 0, [0], 0), (Some 12, None, 1, [0], 1), (Some 21, None, 0, [1], 1)]"
    by code_simp
  have ex: "exhausted fresh_sbatch"
    by (simp add: exhausted_def fresh_sbatch_def)
  obtain sb' ubs where
    "split_all split_equal (projr (from_batch fresh_sbatch two_seqs False False)) 2 =
      Some (Inr (sb', ubs))" "exhausted sb'"
    "mset (concat (map ub_rows ubs)) = mset (batch_rows False two_seqs)"
    using equal_split_partitions[OF two_seqs_ok _ ex f, of 2 split_equal] by auto
  then show ?thesis unfolding rows by blast
qed

text \<open>
  \<open>llama_batch_allocr\<close> turns every well-sized batch into a complete one, as the
  splitters need it: what the caller gave is kept, a missing position array counts on from
  \<open>p0\<close>, a missing sequence is sequence 0, and without flags only the last token is output.
\<close>

theorem allocr_completes:
  assumes "batch_given b" "0 < b_n_tokens b"
  shows "\<exists>b'. batch_allocr b p0 = Inr b' \<and> batch_ok b' \<and>
    b_n_tokens b' = b_n_tokens b \<and> b_token b' = b_token b \<and> b_embd b' = b_embd b \<and>
    (\<forall>t < nat (b_n_tokens b).
      the (b_pos b') ! t = (case b_pos b of None \<Rightarrow> int t + p0 | Some ps \<Rightarrow> ps ! t) \<and>
      (b_seq_id b = None \<longrightarrow> seq_id_list (the (b_n_seq_id b')) (the (b_seq_id b')) t = [0]) \<and>
      out_flag False b' t = out_flag False b t)"
  by (rule batch_allocr_spec[OF assms])

theorem allocr_completes_witness:
  "\<exists>b'. batch_allocr (llama_batch_get_one [7, 8] 2 :: int llama_batch) 5 = Inr b' \<and> batch_ok b' \<and>
    the (b_pos b') ! 1 = 6"
proof -
  let ?b = "llama_batch_get_one [7, 8] 2 :: int llama_batch"
  have "batch_given ?b" "b_n_tokens ?b = 2" "b_pos ?b = None"
    by (simp_all add: llama_batch_get_one_def batch_given_def opt_len_def Let_def)
  then show ?thesis
    using allocr_completes[of ?b 5] by force
qed

text \<open>
  \<open>from_batch\<close> does not clear \<open>seq\<close> when it groups by sequence: after a batch that was
  abandoned half-way (\<open>llama_decode\<close> returning early, as it does when no slot is found),
  the next batch, tokens 31 and 32 of sequence 1, yields a micro-batch in which token 32
  belongs to sequence 0, the sequence left over, and never reaches sequence 1.
\<close>

theorem abandoned_batch_leaks:
  "rbind (from_batch fresh_sbatch two_seqs False False) (\<lambda>sb.
     rbind (split_equal sb 2) (\<lambda>(sb, _).
     rbind (from_batch sb one_seq False False) (\<lambda>sb.
     rbind (split_equal sb 2) (\<lambda>(_, ub). Inr (ub_rows ub))))) =
   Inr [(Some 32, None, 6, [0], 1), (Some 31, None, 5, [1], 0)]"
  by code_simp

end
