(* ===== verification/KvDefrag.thy ===== *)
theory KvDefrag
  imports KvProps "HOL-Library.Multiset"
begin

text \<open>
  Defragmentation of an attention cache, \<^verbatim>\<open>src/llama.cpp\<close>
  (\<open>llama_kv_cache_defrag_impl\<close>, \<open>build_defrag\<close>, \<open>llama_kv_cache_update_impl\<close>): cells
  from the end are moved into the holes below \<open>used\<close>, \<open>ids\<close> records where each went,
  and the graph copies the K and V rows of the moved cells, block by block.  The rows of
  one layer are a list with one entry per cell.
\<close>

section \<open>Moving the cells\<close>

record defrag_state =
  d_cells :: "llama_kv_cell list"
  d_ids :: "nat list"
  d_head :: nat
  d_moves :: nat

text \<open>\<open>while (i0 + nh < n_used && cells[i0 + nh].is_empty()) nh++\<close>, from \<open>nh = 1\<close>.\<close>

definition hole_size :: "llama_kv_cell list \<Rightarrow> nat \<Rightarrow> nat \<Rightarrow> nat" where
  "hole_size cs n_used i0 =
     1 + length (takeWhile (\<lambda>i. is_empty_cell (cs ! i)) [i0 + 1..<n_used])"

text \<open>From the end down, count unmoved cells until there are \<open>nh\<close>: the count and where it stopped.\<close>

fun find_tail :: "llama_kv_cell list \<Rightarrow> nat list \<Rightarrow> nat \<Rightarrow> nat \<Rightarrow> nat \<Rightarrow> nat \<Rightarrow> nat \<Rightarrow> nat \<times> nat" where
  "find_tail cs ids n_kv i0 nh nf 0 = (nf, 0)"
| "find_tail cs ids n_kv i0 nh nf (Suc i) =
     (if Suc i \<le> i0 then (nf, Suc i)
      else if is_empty_cell (cs ! Suc i) \<or> ids ! Suc i \<noteq> n_kv
      then find_tail cs ids n_kv i0 nh nf i
      else if nf + 1 = nh then (nf + 1, Suc i)
      else find_tail cs ids n_kv i0 nh (nf + 1) i)"

text \<open>
  The second walk, over \<open>i1 < n_kv\<close>: moves cells to \<open>i0 + nf\<close> and counts runs; the
  last value is \<open>stop\<close>.
\<close>

function move_loop ::
    "nat \<Rightarrow> nat \<Rightarrow> nat \<Rightarrow> nat \<Rightarrow> nat \<Rightarrow> nat \<Rightarrow> nat \<Rightarrow> bool \<Rightarrow> defrag_state \<Rightarrow> defrag_state \<times> bool" where
  "move_loop n_kv n_used max_moves i0 nh i1 nf cont d =
     (if n_kv \<le> i1 then (d, False)
      else let c = d_cells d ! i1 in
        if is_empty_cell c \<or> d_ids d ! i1 \<noteq> n_kv then
          (if d_moves d = max_moves then (d, True)
           else move_loop n_kv n_used max_moves i0 nh (i1 + 1) nf False d)
        else
          let d = \<lparr>d_cells = ((d_cells d)[i0 + nf := c])[i1 := empty_cell],
                   d_ids = (d_ids d)[i1 := i0 + nf], d_head = n_used,
                   d_moves = (if cont then d_moves d else d_moves d + 1)\<rparr>
          in if nf + 1 = nh then (d, False)
             else move_loop n_kv n_used max_moves i0 nh (i1 + 1) (nf + 1) True d)"
  by pat_completeness auto
termination
  by (relation "measure (\<lambda>(n_kv, n_used, max_moves, i0, nh, i1, nf, cont, d). n_kv - i1)") auto

text \<open>The outer loop over \<open>i0 < n_used\<close>, which jumps over each hole it fills.\<close>

function defrag_loop ::
    "nat \<Rightarrow> nat \<Rightarrow> nat \<Rightarrow> nat \<Rightarrow> defrag_state \<Rightarrow> defrag_state res" where
  "defrag_loop n_kv n_used max_moves i0 d =
     (if n_used \<le> i0 then Inr d
      else if \<not> is_empty_cell (d_cells d ! i0)
      then defrag_loop n_kv n_used max_moves (i0 + 1) (d\<lparr>d_ids := (d_ids d)[i0 := i0]\<rparr>)
      else
        let nh = hole_size (d_cells d) n_used i0;
            (nf, is) = find_tail (d_cells d) (d_ids d) n_kv i0 nh 0 (n_kv - 1)
        in if nf \<noteq> nh then Inl Assert_failed
           else let (d', stop) = move_loop n_kv n_used max_moves i0 nh is 0 False d in
             if stop \<or> d_moves d' = max_moves then Inr d'
             else defrag_loop n_kv n_used max_moves (i0 + nh) d')"
  by pat_completeness auto
termination
  by (relation "measure (\<lambda>(n_kv, n_used, max_moves, i0, d). n_used - i0)")
     (auto simp: hole_size_def)

section \<open>Moving the rows\<close>

text \<open>\<open>while (i + nm < ids.size() && ids[i + nm] == id + nm) nm++\<close>, from \<open>nm = 1\<close>.\<close>

definition run_size :: "nat list \<Rightarrow> nat \<Rightarrow> nat" where
  "run_size ids i =
     1 + length (takeWhile (\<lambda>m. ids ! (i + m) = ids ! i + m) [1..<length ids - i])"

text \<open>The block copies of the graph as \<open>(source, destination, rows)\<close>, in the order they are built.\<close>

function build_defrag :: "nat list \<Rightarrow> nat \<Rightarrow> (nat \<times> nat \<times> nat) list" where
  "build_defrag ids i =
     (if length ids \<le> i then []
      else if i = ids ! i \<or> ids ! i = length ids then build_defrag ids (i + 1)
      else (i, ids ! i, run_size ids i) # build_defrag ids (i + run_size ids i))"
  by pat_completeness auto
termination
  by (relation "measure (\<lambda>(ids, i). length ids - i)") (auto simp: run_size_def)

text \<open>One copy node: the source block is read before the destination is written.\<close>

definition copy_rows :: "nat \<times> nat \<times> nat \<Rightarrow> 'd list \<Rightarrow> 'd list" where
  "copy_rows b rows = (case b of (src, dst, n) \<Rightarrow>
     fold (\<lambda>m r. r[dst + m := rows ! (src + m)]) [0..<n] rows)"

definition run_defrag :: "nat list \<Rightarrow> 'd list \<Rightarrow> 'd list" where
  "run_defrag ids rows = fold copy_rows (build_defrag ids 0) rows"

section \<open>The update before a decode\<close>

text \<open>
  \<open>max_moves\<close> is the bound the code derives from the graph size and \<open>n_layer\<close>; nothing
  is copied when no cell moved.
\<close>

definition defrag_max_moves :: "nat \<Rightarrow> nat \<Rightarrow> nat" where
  "defrag_max_moves max_nodes n_layer = (max_nodes - 2 * n_layer) div (6 * n_layer)"

definition llama_kv_cache_defrag_impl ::
    "nat \<Rightarrow> llama_kv_cache \<Rightarrow> 'd list \<Rightarrow> (llama_kv_cache \<times> 'd list) res" where
  "llama_kv_cache_defrag_impl max_moves kv rows =
     (let n_kv = llama_kv_cache_cell_max kv in
      rbind (defrag_loop n_kv (used kv) max_moves 0
        \<lparr>d_cells = cells kv, d_ids = replicate n_kv n_kv, d_head = head kv, d_moves = 0\<rparr>) (\<lambda>d.
      Inr (kv\<lparr>cells := d_cells d, head := d_head d\<rparr>,
           if d_moves d = 0 then rows else run_defrag (d_ids d) rows)))"

text \<open>
  \<open>shift\<close> is the K-shift of the row of a cell by its accumulated delta, applied for
  every model with rotary embeddings (\<open>rope\<close>).
\<close>

definition llama_kv_cache_update_impl ::
    "(int \<Rightarrow> 'd \<Rightarrow> 'd) \<Rightarrow> bool \<Rightarrow> nat \<Rightarrow> llama_kv_cache \<Rightarrow> 'd list \<Rightarrow> (llama_kv_cache \<times> 'd list) res" where
  "llama_kv_cache_update_impl shift rope max_moves kv rows =
     rbind (if has_shift kv then
         (if \<not> llama_kv_cache_can_shift kv then Inl Abort
          else Inr (kv\<lparr>has_shift := False, cells := map (\<lambda>c. c\<lparr>c_delta := 0\<rparr>) (cells kv)\<rparr>,
                    if rope then map2 (\<lambda>c r. shift (c_delta c) r) (cells kv) rows else rows))
       else Inr (kv, rows)) (\<lambda>(kv, rows).
     if do_defrag kv then
       rbind (llama_kv_cache_defrag_impl max_moves kv rows) (\<lambda>(kv, rows).
         Inr (kv\<lparr>do_defrag := False\<rparr>, rows))
     else Inr (kv, rows))"

section \<open>What a defragmentation keeps\<close>

text \<open>
  \<open>moved ids i\<close>: cell \<open>i\<close> was moved, to \<open>ids ! i\<close>.  \<open>defrag_inv cs0 n_kv U d\<close>: the state
  \<open>d\<close> of the loops is the cells \<open>cs0\<close> with the moved ones taken from at or above \<open>U\<close>
  into distinct free places below \<open>U\<close>.
\<close>

definition moved :: "nat list \<Rightarrow> nat \<Rightarrow> bool" where
  "moved ids i \<longleftrightarrow> i < length ids \<and> ids ! i \<noteq> i \<and> ids ! i \<noteq> length ids"

definition defrag_inv :: "llama_kv_cell list \<Rightarrow> nat \<Rightarrow> nat \<Rightarrow> defrag_state \<Rightarrow> bool" where
  "defrag_inv cs0 n_kv U d \<longleftrightarrow>
     length (d_cells d) = length cs0 \<and> length (d_ids d) = n_kv \<and>
     count_if taken (d_cells d) = U \<and>
     (\<forall>i < length cs0. \<not> moved (d_ids d) i \<longrightarrow> taken (cs0 ! i) \<longrightarrow> d_cells d ! i = cs0 ! i) \<and>
     (\<forall>i. moved (d_ids d) i \<longrightarrow> U \<le> i \<and> d_ids d ! i < U \<and> taken (cs0 ! i) \<and>
        \<not> taken (cs0 ! (d_ids d ! i)) \<and> d_cells d ! (d_ids d ! i) = cs0 ! i) \<and>
     inj_on ((!) (d_ids d)) {i. moved (d_ids d) i} \<and>
     (\<forall>i < length cs0. U \<le> i \<longrightarrow> d_cells d ! i = cs0 ! i \<or> \<not> taken (d_cells d ! i)) \<and>
     (d_moves d = 0 \<longrightarrow> (\<forall>i. \<not> moved (d_ids d) i))"

lemma taken_iff: "taken c \<longleftrightarrow> \<not> is_empty_cell c"
  by (simp add: taken_def)

lemma not_taken_empty [simp]: "\<not> taken empty_cell"
  by (simp add: taken_def is_empty_cell_def empty_cell_def)

lemma defrag_inv_low_free:
  assumes "defrag_inv cs0 n_kv U d" "t < U" "t < length cs0" "\<not> taken (d_cells d ! t)"
  shows "\<not> taken (cs0 ! t)"
proof -
  have "\<not> moved (d_ids d) t"
    using assms(1,2) unfolding defrag_inv_def by (metis linorder_not_less)
  then show ?thesis
    using assms(1,3,4) unfolding defrag_inv_def by metis
qed

lemma defrag_inv_move:
  assumes inv: "defrag_inv cs0 n_kv U d" and n: "n_kv \<le> length cs0" "U \<le> n_kv"
    and i: "U \<le> i" "i < n_kv" "taken (d_cells d ! i)" "d_ids d ! i = n_kv"
    and t: "t < U" "\<not> taken (d_cells d ! t)" and m: "0 < m"
  shows "defrag_inv cs0 n_kv U
    \<lparr>d_cells = ((d_cells d)[t := d_cells d ! i])[i := empty_cell], d_ids = (d_ids d)[i := t],
     d_head = h, d_moves = m\<rparr>"
proof -
  let ?ids = "(d_ids d)[i := t]" and ?cs = "((d_cells d)[t := d_cells d ! i])[i := empty_cell]"
  note v = inv[unfolded defrag_inv_def]
  have len: "length (d_ids d) = n_kv" "length (d_cells d) = length cs0"
    using v by auto
  have ti: "t \<noteq> i" "t < length cs0" "i < length cs0"
    using i t n by auto
  have same: "d_cells d ! i = cs0 ! i" "taken (cs0 ! i)"
    using v i ti by metis+
  have free: "\<not> taken (cs0 ! t)"
    using defrag_inv_low_free[OF inv t(1) ti(2) t(2)] .
  have mv: "moved ?ids k \<longleftrightarrow> k = i \<or> moved (d_ids d) k" for k
    using i t len n by (auto simp: moved_def nth_list_update)
  have ni: "\<not> moved (d_ids d) i"
    using i(4) len by (simp add: moved_def)
  have nt: "d_ids d ! k \<noteq> t" if "moved (d_ids d) k" for k
    using v that t(2) by metis
  have "count_if taken ?cs = U"
    using count_if_update[of t "d_cells d" taken "d_cells d ! i"]
      count_if_update[of i "(d_cells d)[t := d_cells d ! i]" taken empty_cell] v i t ti len
    by simp
  moreover have "\<forall>k < length cs0. \<not> moved ?ids k \<longrightarrow> taken (cs0 ! k) \<longrightarrow> ?cs ! k = cs0 ! k"
  proof (intro allI impI)
    fix k assume k: "k < length cs0" "\<not> moved ?ids k" "taken (cs0 ! k)"
    then have "k \<noteq> i" "k \<noteq> t" "d_cells d ! k = cs0 ! k" using v mv free by auto
    then show "?cs ! k = cs0 ! k" by simp
  qed
  moreover have "\<forall>k. moved ?ids k \<longrightarrow> U \<le> k \<and> ?ids ! k < U \<and> taken (cs0 ! k) \<and>
        \<not> taken (cs0 ! (?ids ! k)) \<and> ?cs ! (?ids ! k) = cs0 ! k"
  proof (intro allI impI)
    fix k assume "moved ?ids k"
    then consider "k = i" | "k \<noteq> i" "moved (d_ids d) k" using mv by auto
    then show "U \<le> k \<and> ?ids ! k < U \<and> taken (cs0 ! k) \<and>
        \<not> taken (cs0 ! (?ids ! k)) \<and> ?cs ! (?ids ! k) = cs0 ! k"
    proof cases
      case 1
      then show ?thesis using i t ti same free len by simp
    next
      case 2
      then have "U \<le> k" "d_ids d ! k < U" "taken (cs0 ! k)" "\<not> taken (cs0 ! (d_ids d ! k))"
        "d_cells d ! (d_ids d ! k) = cs0 ! k" "d_ids d ! k \<noteq> i" "d_ids d ! k \<noteq> t"
        using v nt i(1) by auto
      then show ?thesis using 2 by simp
    qed
  qed
  moreover have "inj_on ((!) ?ids) {k. moved ?ids k}"
  proof (rule inj_onI)
    fix a b assume ab: "a \<in> {k. moved ?ids k}" "b \<in> {k. moved ?ids k}" "?ids ! a = ?ids ! b"
    have inj: "inj_on ((!) (d_ids d)) {k. moved (d_ids d) k}" using v by blast
    have at: "?ids ! i = t" "\<And>k. k \<noteq> i \<Longrightarrow> ?ids ! k = d_ids d ! k"
      using i(2) len by simp_all
    have m: "a = i \<or> moved (d_ids d) a" "b = i \<or> moved (d_ids d) b"
      using ab(1,2) mv by blast+
    show "a = b"
    proof (cases "a = i \<or> b = i")
      case True
      then show ?thesis using ab(3) at m nt by metis
    next
      case False
      then show ?thesis using ab(3) at(2) m inj_onD[OF inj] by simp
    qed
  qed
  moreover have "\<forall>k < length cs0. U \<le> k \<longrightarrow> ?cs ! k = cs0 ! k \<or> \<not> taken (?cs ! k)"
    using v t(1) ti by (auto simp: nth_list_update len)
  ultimately show ?thesis
    using len m by (simp add: defrag_inv_def)
qed

lemma defrag_inv_mark:
  assumes inv: "defrag_inv cs0 n_kv U d" and i: "i < n_kv" "d_ids d ! i = n_kv"
  shows "defrag_inv cs0 n_kv U (d\<lparr>d_ids := (d_ids d)[i := i]\<rparr>)"
proof -
  have len: "length (d_ids d) = n_kv" using inv by (simp add: defrag_inv_def)
  then have "\<not> moved (d_ids d) i" using i by (simp add: moved_def)
  have mv: "moved ((d_ids d)[i := i]) k \<longleftrightarrow> moved (d_ids d) k" for k
    using i len by (auto simp: moved_def nth_list_update)
  have ne: "(d_ids d)[i := i] ! k = d_ids d ! k" if "moved (d_ids d) k" for k
    using that \<open>\<not> moved (d_ids d) i\<close> by (metis nth_list_update_neq)
  have "inj_on ((!) ((d_ids d)[i := i])) {k. moved (d_ids d) k}"
    using inv ne unfolding defrag_inv_def inj_on_def by (metis mem_Collect_eq)
  then show ?thesis
    using inv ne by (simp add: defrag_inv_def mv)
qed

section \<open>The loops keep it\<close>

definition tail_fresh :: "nat \<Rightarrow> nat \<Rightarrow> defrag_state \<Rightarrow> bool" where
  "tail_fresh n_kv U d \<longleftrightarrow>
     (\<forall>i < length (d_cells d). U \<le> i \<longrightarrow> taken (d_cells d ! i) \<longrightarrow> i < n_kv \<and> d_ids d ! i = n_kv)"

definition defrag_ok :: "llama_kv_cell list \<Rightarrow> nat \<Rightarrow> nat \<Rightarrow> defrag_state \<Rightarrow> bool" where
  "defrag_ok cs0 n_kv U d \<longleftrightarrow>
     defrag_inv cs0 n_kv U d \<and> tail_fresh n_kv U d \<and>
     (\<forall>c \<in> set (d_cells d). cell_ok c) \<and> d_head d \<le> length cs0"

definition cnt :: "llama_kv_cell list \<Rightarrow> nat \<Rightarrow> nat" where
  "cnt cs a = count_if taken (drop a cs)"

lemma cnt_step: "a < length cs \<Longrightarrow> cnt cs a = (if taken (cs ! a) then Suc (cnt cs (Suc a)) else cnt cs (Suc a))"
  by (simp add: cnt_def flip: Cons_nth_drop_Suc)

lemma cnt_end [simp]: "length cs \<le> a \<Longrightarrow> cnt cs a = 0"
  by (simp add: cnt_def)

lemma cnt_mono: "a \<le> b \<Longrightarrow> cnt cs b \<le> cnt cs a"
proof (induction b)
  case (Suc b)
  then show ?case
    by (cases "a = Suc b"; cases "b < length cs") (auto simp: cnt_step[of b] intro: le_trans split: if_splits)
qed simp

lemma cnt_all: "count_if taken cs = cnt cs 0"
  by (simp add: cnt_def)

lemma cnt_prefix:
  assumes "a \<le> b" "b \<le> length cs" "\<forall>i. a \<le> i \<and> i < b \<longrightarrow> taken (cs ! i) = v"
  shows "cnt cs a = (if v then b - a else 0) + cnt cs b"
  using assms
proof (induction "b - a" arbitrary: a)
  case (Suc k)
  then have a: "a < b" "a < length cs" by auto
  have "cnt cs (Suc a) = (if v then b - Suc a else 0) + cnt cs b"
    using Suc a by (intro Suc.hyps(1)) auto
  moreover have "taken (cs ! a) = v"
    using Suc.prems(3) a(1) by auto
  ultimately show ?case using a by (auto simp: cnt_step)
qed simp

lemma find_tail_finds:
  assumes "\<forall>i. i0 < i \<longrightarrow> i < n_kv \<longrightarrow> taken (cs ! i) \<longrightarrow> ids ! i = n_kv"
    and "i0 < U" "nh \<le> cnt cs U" "n_kv \<le> length cs"
  shows "is < n_kv \<Longrightarrow> nf = cnt cs (Suc is) \<Longrightarrow> nf < nh \<Longrightarrow>
    \<exists>k. find_tail cs ids n_kv i0 nh nf is = (nh, k) \<and> U \<le> k \<and> k < n_kv \<and> cnt cs k = nh"
proof (induction "is" arbitrary: nf)
  case 0
  have "cnt cs U \<le> cnt cs (Suc 0)" using assms(2) by (intro cnt_mono) simp
  then show ?case using 0 assms(3) by simp
next
  case (Suc i)
  have low: "i0 < Suc i"
  proof (rule ccontr)
    assume "\<not> i0 < Suc i"
    then have "cnt cs U \<le> cnt cs (Suc (Suc i))" using assms(2) by (intro cnt_mono) simp
    then show False using Suc.prems assms(3) by simp
  qed
  have len: "Suc i < length cs" using Suc.prems(1) assms(4) by simp
  have skip: "is_empty_cell (cs ! Suc i) \<or> ids ! Suc i \<noteq> n_kv \<longleftrightarrow> \<not> taken (cs ! Suc i)"
    using assms(1) low Suc.prems(1) by (auto simp: taken_iff)
  show ?case
  proof (cases "taken (cs ! Suc i)")
    case False
    then show ?thesis
      using Suc.IH[of nf] Suc.prems low len skip by (simp add: cnt_step[of "Suc i"])
  next
    case True
    then have c: "cnt cs (Suc i) = nf + 1" using len Suc.prems(2) by (simp add: cnt_step[of "Suc i"])
    have up: "U \<le> Suc i" if "nf + 1 = nh"
    proof (rule ccontr)
      assume "\<not> U \<le> Suc i"
      then have "cnt cs U \<le> cnt cs (Suc (Suc i))" by (intro cnt_mono) simp
      then show False using Suc.prems(2) assms(3) that by simp
    qed
    show ?thesis
      using Suc.IH[of "nf + 1"] Suc.prems low True skip c up by (cases "nf + 1 = nh") auto
  qed
qed

text \<open>One turn of the second walk that moves cell \<open>i\<close> to place \<open>t\<close>.\<close>

lemma defrag_ok_move:
  assumes ok: "defrag_ok cs0 n_kv U d" and n: "n_kv \<le> length cs0" "U \<le> n_kv"
    and i: "U \<le> i" "i < n_kv" "taken (d_cells d ! i)"
    and t: "t < U" "\<not> taken (d_cells d ! t)" and m: "0 < m"
  shows "defrag_ok cs0 n_kv U
    \<lparr>d_cells = ((d_cells d)[t := d_cells d ! i])[i := empty_cell], d_ids = (d_ids d)[i := t],
     d_head = U, d_moves = m\<rparr>"
proof -
  note o = ok[unfolded defrag_ok_def]
  have len: "length (d_cells d) = length cs0" "length (d_ids d) = n_kv"
    using o by (simp_all add: defrag_inv_def)
  have id: "d_ids d ! i = n_kv"
    using o i n len by (simp add: tail_fresh_def)
  have "d_cells d ! i \<in> set (d_cells d)"
    using i n len by simp
  then have "cell_ok (d_cells d ! i)" using o by blast
  then have "\<forall>c \<in> set ((d_cells d)[t := d_cells d ! i, i := empty_cell]). cell_ok c"
    using o by (metis cell_ok_empty insertE set_update_subset_insert subsetD)
  moreover have "tail_fresh n_kv U
    \<lparr>d_cells = ((d_cells d)[t := d_cells d ! i])[i := empty_cell], d_ids = (d_ids d)[i := t],
     d_head = U, d_moves = m\<rparr>"
    using o i t n len by (auto simp: tail_fresh_def nth_list_update)
  ultimately show ?thesis
    using defrag_inv_move[OF _ n i(1,2,3) id t m] o n by (simp add: defrag_ok_def)
qed

definition move_pre :: "nat \<Rightarrow> nat \<Rightarrow> nat \<Rightarrow> nat \<Rightarrow> nat \<Rightarrow> nat \<Rightarrow> bool \<Rightarrow> defrag_state \<Rightarrow> bool" where
  "move_pre n_kv U i0 nh i1 nf cont d \<longleftrightarrow>
     U \<le> i1 \<and> i0 + nh \<le> U \<and> nf < nh \<and> cnt (d_cells d) i1 = nh - nf \<and>
     (\<forall>k. nf \<le> k \<and> k < nh \<longrightarrow> \<not> taken (d_cells d ! (i0 + k))) \<and>
     (\<forall>k < nf. taken (d_cells d ! (i0 + k))) \<and>
     (cont \<longrightarrow> 0 < d_moves d) \<and> d_moves d \<le> i0 + nf"

definition move_post :: "nat \<Rightarrow> nat \<Rightarrow> nat \<Rightarrow> nat \<Rightarrow> defrag_state \<Rightarrow> defrag_state \<times> bool \<Rightarrow> bool" where
  "move_post max_moves U i0 nh d r \<longleftrightarrow>
     (\<forall>j < U. d_ids (fst r) ! j = d_ids d ! j) \<and>
     (\<forall>j < U. j < i0 \<or> i0 + nh \<le> j \<longrightarrow> d_cells (fst r) ! j = d_cells d ! j) \<and>
     d_moves (fst r) \<le> i0 + nh \<and>
     (if snd r then d_moves (fst r) = max_moves else \<forall>k < nh. taken (d_cells (fst r) ! (i0 + k)))"

lemma move_loop_ok:
  assumes "defrag_ok cs0 n_kv U d" "n_kv \<le> length cs0" "U \<le> n_kv"
    and "move_pre n_kv U i0 nh i1 nf cont d"
  shows "defrag_ok cs0 n_kv U (fst (move_loop n_kv U max_moves i0 nh i1 nf cont d)) \<and>
    move_post max_moves U i0 nh d (move_loop n_kv U max_moves i0 nh i1 nf cont d)"
  using assms(1,4)
proof (induction "n_kv - i1" arbitrary: i1 nf cont d rule: less_induct)
  case less
  note ok = less.prems(1)[unfolded defrag_ok_def]
  note p = less.prems(2)[unfolded move_pre_def]
  have len: "length (d_cells d) = length cs0" "length (d_ids d) = n_kv"
    using ok by (simp_all add: defrag_inv_def)
  have "cnt (d_cells d) n_kv = 0"
    using ok assms(3) cnt_prefix[of n_kv "length (d_cells d)" "d_cells d" False] len assms(2)
    by (force simp: tail_fresh_def)
  then have i1: "i1 < n_kv"
    using p cnt_mono[of n_kv i1 "d_cells d"] by (metis linorder_not_less le_zero_eq zero_less_diff)
  then have step: "cnt (d_cells d) i1 =
      (if taken (d_cells d ! i1) then Suc (cnt (d_cells d) (Suc i1)) else cnt (d_cells d) (Suc i1))"
    using len assms(2) by (intro cnt_step) simp
  have skip: "is_empty_cell (d_cells d ! i1) \<or> d_ids d ! i1 \<noteq> n_kv \<longleftrightarrow> \<not> taken (d_cells d ! i1)"
  proof -
    have "i1 < length (d_cells d)" using i1 len assms(2) by simp
    then have "taken (d_cells d ! i1) \<Longrightarrow> d_ids d ! i1 = n_kv"
      using ok p unfolding tail_fresh_def by blast
    then show ?thesis by (auto simp: taken_iff)
  qed
  show ?case
  proof (cases "taken (d_cells d ! i1)")
    case False
    show ?thesis
    proof (cases "d_moves d = max_moves")
      case True
      then show ?thesis
        using False i1 skip less.prems p by (simp add: move_loop.simps[of n_kv] move_post_def Let_def)
    next
      case ne: False
      have "move_pre n_kv U i0 nh (i1 + 1) nf False d"
        using p step False by (simp add: move_pre_def)
      then show ?thesis
        using less.hyps[of "i1 + 1" d nf False] less.prems(1) i1 skip False ne
        by (simp add: move_loop.simps[of n_kv _ _ _ _ i1] Let_def)
    qed
  next
    case True
    let ?m = "if cont then d_moves d else d_moves d + 1"
    let ?d = "\<lparr>d_cells = ((d_cells d)[i0 + nf := d_cells d ! i1])[i1 := empty_cell],
      d_ids = (d_ids d)[i1 := i0 + nf], d_head = U, d_moves = ?m\<rparr>"
    have t: "i0 + nf < U" "\<not> taken (d_cells d ! (i0 + nf))" "0 < ?m" using p by auto
    have ok': "defrag_ok cs0 n_kv U ?d"
      using defrag_ok_move[OF less.prems(1) assms(2,3) _ i1 True t] p by simp
    have at: "d_cells ?d ! j = (if j = i0 + nf then d_cells d ! i1 else d_cells d ! j)" if "j < U" for j
      using that p len t(1) assms(2,3) by (auto simp: nth_list_update)
    have ids: "d_ids ?d ! j = d_ids d ! j" if "j < U" for j
      using that p by auto
    have m: "?m \<le> i0 + Suc nf" using p by auto
    have unf: "move_loop n_kv U max_moves i0 nh i1 nf cont d =
        (if nf + 1 = nh then (?d, False) else move_loop n_kv U max_moves i0 nh (i1 + 1) (nf + 1) True ?d)"
      using i1 skip True by (simp add: move_loop.simps[of n_kv _ _ _ _ i1] Let_def)
    have filled: "\<forall>k < Suc nf. taken (d_cells ?d ! (i0 + k))"
      using p at True by (auto simp: less_Suc_eq)
    show ?thesis
    proof (cases "nf + 1 = nh")
      case last: True
      then have "move_post max_moves U i0 nh d (?d, False)"
        using at ids m filled p by (auto simp: move_post_def)
      then show ?thesis using unf ok' last by simp
    next
      case more: False
      have "cnt (d_cells ?d) (i1 + 1) = cnt (d_cells d) (Suc i1)"
        using p t(1) by (simp add: cnt_def drop_update_cancel)
      then have "move_pre n_kv U i0 nh (i1 + 1) (nf + 1) True ?d"
        using p step True more m t(3) filled at by (auto simp: move_pre_def)
      then have "defrag_ok cs0 n_kv U (fst (move_loop n_kv U max_moves i0 nh (i1 + 1) (nf + 1) True ?d))"
        "move_post max_moves U i0 nh ?d (move_loop n_kv U max_moves i0 nh (i1 + 1) (nf + 1) True ?d)"
        using less.hyps[of "i1 + 1" ?d "nf + 1" True] ok' i1 by auto
      moreover have "move_post max_moves U i0 nh d r" if "move_post max_moves U i0 nh ?d r" for r
        using that at ids p unfolding move_post_def by auto
      ultimately show ?thesis using unf more by simp
    qed
  qed
qed

lemma cnt_le:
  assumes "a \<le> b" "b \<le> length cs"
  shows "cnt cs a \<le> (b - a) + cnt cs b"
  using assms
proof (induction "b - a" arbitrary: a)
  case (Suc k)
  then have "cnt cs (Suc a) \<le> (b - Suc a) + cnt cs b" by (intro Suc.hyps(1)) auto
  then show ?case using Suc.hyps(2) Suc.prems by (auto simp: cnt_step)
qed simp

lemma takeWhile_upt:
  assumes "a \<le> b"
  shows "a + length (takeWhile P [a..<b]) \<le> b"
    and "\<forall>i. a \<le> i \<and> i < a + length (takeWhile P [a..<b]) \<longrightarrow> P i"
proof -
  let ?m = "length (takeWhile P [a..<b])"
  have m: "?m \<le> b - a" using length_takeWhile_le[of P "[a..<b]"] by simp
  then show "a + ?m \<le> b" using assms by simp
  show "\<forall>i. a \<le> i \<and> i < a + ?m \<longrightarrow> P i"
  proof (intro allI impI)
    fix i assume i: "a \<le> i \<and> i < a + ?m"
    then have "takeWhile P [a..<b] ! (i - a) \<in> set (takeWhile P [a..<b])"
      by (intro nth_mem) linarith
    moreover have "takeWhile P [a..<b] ! (i - a) = i"
      using i m by (subst takeWhile_nth) auto
    ultimately show "P i" by (metis set_takeWhileD)
  qed
qed

lemma hole_size_hole:
  assumes "is_empty_cell (cs ! i0)" "i0 < U"
  shows "0 < hole_size cs U i0" "i0 + hole_size cs U i0 \<le> U"
    "\<forall>k < hole_size cs U i0. \<not> taken (cs ! (i0 + k))"
proof -
  show "0 < hole_size cs U i0" by (simp add: hole_size_def)
  let ?P = "\<lambda>i. is_empty_cell (cs ! i)"
  have le: "i0 + 1 \<le> U" using assms(2) by simp
  show "i0 + hole_size cs U i0 \<le> U"
    using takeWhile_upt(1)[OF le, of ?P] by (simp add: hole_size_def)
  show "\<forall>k < hole_size cs U i0. \<not> taken (cs ! (i0 + k))"
  proof (intro allI impI)
    fix k assume k: "k < hole_size cs U i0"
    show "\<not> taken (cs ! (i0 + k))"
    proof (cases k)
      case 0
      then show ?thesis using assms(1) by (simp add: taken_iff)
    next
      case (Suc j)
      then have "is_empty_cell (cs ! (i0 + 1 + j))"
        using takeWhile_upt(2)[OF le, of ?P] k by (auto simp: hole_size_def)
      then show ?thesis using Suc by (simp add: taken_iff)
    qed
  qed
qed

definition outer_pre :: "nat \<Rightarrow> nat \<Rightarrow> nat \<Rightarrow> defrag_state \<Rightarrow> bool" where
  "outer_pre n_kv U i0 d \<longleftrightarrow>
     i0 \<le> U \<and> (\<forall>i < i0. taken (d_cells d ! i)) \<and> (\<forall>i. i0 \<le> i \<and> i < U \<longrightarrow> d_ids d ! i = n_kv) \<and>
     d_moves d \<le> i0"

text \<open>A hole at \<open>i0\<close> is found to have enough cells behind it, and is filled or the budget is spent.\<close>

lemma hole_filled:
  assumes ok: "defrag_ok cs0 n_kv U d" and n: "n_kv \<le> length cs0" "U \<le> n_kv"
    and p: "outer_pre n_kv U i0 d" and i0: "i0 < U" "is_empty_cell (d_cells d ! i0)"
    and nh: "nh = hole_size (d_cells d) U i0"
  shows "\<exists>k d' stop. find_tail (d_cells d) (d_ids d) n_kv i0 nh 0 (n_kv - 1) = (nh, k) \<and>
    move_loop n_kv U max_moves i0 nh k 0 False d = (d', stop) \<and> defrag_ok cs0 n_kv U d' \<and>
    d_moves d' \<le> U \<and> (if stop then d_moves d' = max_moves else outer_pre n_kv U (i0 + nh) d')"
proof -
  note o = ok[unfolded defrag_ok_def] and pp = p[unfolded outer_pre_def]
  let ?cs = "d_cells d"
  have len: "length ?cs = length cs0" "length (d_ids d) = n_kv" "count_if taken ?cs = U"
    using o by (simp_all add: defrag_inv_def)
  have hole: "0 < nh" "i0 + nh \<le> U" "\<forall>k < nh. \<not> taken (?cs ! (i0 + k))"
    using hole_size_hole[OF i0(2,1)] nh by auto
  have un: "\<forall>i. i0 < i \<longrightarrow> i < n_kv \<longrightarrow> taken (?cs ! i) \<longrightarrow> d_ids d ! i = n_kv"
  proof (intro allI impI)
    fix i assume i: "i0 < i" "i < n_kv" "taken (?cs ! i)"
    show "d_ids d ! i = n_kv"
    proof (cases "i < U")
      case True then show ?thesis using pp i(1) by simp
    next
      case False then show ?thesis using o i len n unfolding tail_fresh_def by auto
    qed
  qed
  have "U = i0 + cnt ?cs i0"
    using cnt_prefix[of 0 i0 ?cs True] pp len n by (simp add: cnt_all)
  moreover have "cnt ?cs i0 = cnt ?cs (i0 + nh)"
  proof -
    have "\<forall>i. i0 \<le> i \<and> i < i0 + nh \<longrightarrow> taken (?cs ! i) = False"
    proof (intro allI impI)
      fix i assume "i0 \<le> i \<and> i < i0 + nh"
      then have "\<not> taken (?cs ! (i0 + (i - i0)))" using hole(3) by (metis less_diff_conv2 add.commute)
      then show "taken (?cs ! i) = False" using \<open>i0 \<le> i \<and> i < i0 + nh\<close> by simp
    qed
    then show ?thesis using cnt_prefix[of i0 "i0 + nh" ?cs False] hole(2) len n by simp
  qed
  moreover have "cnt ?cs (i0 + nh) \<le> (U - (i0 + nh)) + cnt ?cs U"
    using hole(2) n len by (intro cnt_le) auto
  ultimately have room: "nh \<le> cnt ?cs U" using hole(2) by linarith
  have "cnt ?cs n_kv = 0"
    using o n cnt_prefix[of n_kv "length ?cs" ?cs False] len by (force simp: tail_fresh_def)
  then obtain k where k: "find_tail ?cs (d_ids d) n_kv i0 nh 0 (n_kv - 1) = (nh, k)"
    "U \<le> k" "cnt ?cs k = nh"
    using find_tail_finds[OF un i0(1) room, of "n_kv - 1" 0] len n hole(1) i0(1) by auto
  obtain d' stop where m: "move_loop n_kv U max_moves i0 nh k 0 False d = (d', stop)"
    by (cases "move_loop n_kv U max_moves i0 nh k 0 False d") auto
  have "move_pre n_kv U i0 nh k 0 False d"
    using k hole pp by (simp add: move_pre_def)
  then have r: "defrag_ok cs0 n_kv U d'" "move_post max_moves U i0 nh d (d', stop)"
    using move_loop_ok[OF ok n, of i0 nh k 0 False max_moves] m by auto
  have "outer_pre n_kv U (i0 + nh) d'" if "\<not> stop"
  proof -
    have a: "\<forall>j < U. d_ids d' ! j = d_ids d ! j" "d_moves d' \<le> i0 + nh"
      "\<forall>j < U. j < i0 \<or> i0 + nh \<le> j \<longrightarrow> d_cells d' ! j = ?cs ! j" "\<forall>k < nh. taken (d_cells d' ! (i0 + k))"
      using r(2) that by (simp_all add: move_post_def)
    have "taken (d_cells d' ! i)" if "i < i0 + nh" for i
      using a(3,4) pp i0(1) that by (metis add_diff_inverse_nat less_trans nat_add_left_cancel_less)
    then show ?thesis using a pp hole(2) by (simp add: outer_pre_def)
  qed
  moreover have "d_moves d' \<le> U" using r(2) hole(2) by (simp add: move_post_def)
  ultimately show ?thesis using k(1) m r by (auto simp: move_post_def)
qed

lemma defrag_loop_ok:
  assumes "defrag_ok cs0 n_kv U d" "n_kv \<le> length cs0" "U \<le> n_kv" "outer_pre n_kv U i0 d"
  shows "\<exists>d'. defrag_loop n_kv U max_moves i0 d = Inr d' \<and> defrag_ok cs0 n_kv U d' \<and>
    (U < max_moves \<longrightarrow> (\<forall>i < U. taken (d_cells d' ! i)))"
  using assms(1,4)
proof (induction "U - i0" arbitrary: i0 d rule: less_induct)
  case less
  note p = less.prems(2)[unfolded outer_pre_def]
  show ?case
  proof (cases "i0 < U")
    case False
    then show ?thesis using less.prems p by (simp add: defrag_loop.simps)
  next
    case True
    show ?thesis
    proof (cases "is_empty_cell (d_cells d ! i0)")
      case False
      let ?d = "d\<lparr>d_ids := (d_ids d)[i0 := i0]\<rparr>"
      have inv: "defrag_inv cs0 n_kv U d" and len: "length (d_ids d) = n_kv"
        using less.prems(1) by (simp_all add: defrag_ok_def defrag_inv_def)
      have "defrag_inv cs0 n_kv U ?d"
        using p True assms(3) by (intro defrag_inv_mark[OF inv]) auto
      then have "defrag_ok cs0 n_kv U ?d"
        using less.prems(1) True by (auto simp: defrag_ok_def tail_fresh_def)
      moreover have "outer_pre n_kv U (i0 + 1) ?d"
        using p True False by (auto simp: outer_pre_def less_Suc_eq taken_iff)
      ultimately show ?thesis
        using less.hyps[of "i0 + 1" ?d] True False by (simp add: defrag_loop.simps[of _ _ _ i0])
    next
      case empty: True
      define nh where "nh = hole_size (d_cells d) U i0"
      obtain k d' stop where h: "find_tail (d_cells d) (d_ids d) n_kv i0 nh 0 (n_kv - 1) = (nh, k)"
        "move_loop n_kv U max_moves i0 nh k 0 False d = (d', stop)" "defrag_ok cs0 n_kv U d'"
        "d_moves d' \<le> U" "if stop then d_moves d' = max_moves else outer_pre n_kv U (i0 + nh) d'"
        using hole_filled[OF less.prems(1) assms(2,3) less.prems(2) True empty nh_def] by blast
      have unf: "defrag_loop n_kv U max_moves i0 d =
          (if stop \<or> d_moves d' = max_moves then Inr d' else defrag_loop n_kv U max_moves (i0 + nh) d')"
        using True empty h(1,2) by (simp add: defrag_loop.simps[of _ _ _ i0] Let_def flip: nh_def)
      have nh: "0 < nh" "i0 + nh \<le> U" using hole_size_hole[OF empty True] nh_def by auto
      show ?thesis
      proof (cases "stop \<or> d_moves d' = max_moves")
        case True
        then have "U < max_moves \<longrightarrow> (\<forall>i < U. taken (d_cells d' ! i))"
          using h(4,5) by (auto split: if_splits)
        then show ?thesis using unf True h(3) by auto
      next
        case False
        then show ?thesis
          using less.hyps[of "i0 + nh" d'] unf h(3,5) nh True by auto
      qed
    qed
  qed
qed

section \<open>The copies of the graph\<close>

text \<open>Sources at or above a bound, destinations below it, no two the same.\<close>

definition ids_ok :: "nat \<Rightarrow> nat list \<Rightarrow> bool" where
  "ids_ok U ids \<longleftrightarrow> (\<forall>i. moved ids i \<longrightarrow> U \<le> i \<and> ids ! i < U) \<and> inj_on ((!) ids) {i. moved ids i}"

lemma length_copy_rows [simp]: "length (copy_rows b rows) = length rows"
proof -
  have "length (fold (\<lambda>m r. r[dst + m := rows ! (src + m)]) xs r) = length r" for dst src xs and r :: "'a list"
    by (induction xs arbitrary: r) simp_all
  then show ?thesis by (cases b) (simp add: copy_rows_def)
qed

lemma length_run [simp]: "length (fold copy_rows bs rows) = length rows"
  by (induction bs arbitrary: rows) simp_all

lemma copy_rows_nth:
  assumes "dst + n \<le> length rows" "j < length rows"
  shows "copy_rows (src, dst, n) rows ! j =
    (if dst \<le> j \<and> j < dst + n then rows ! (src + (j - dst)) else rows ! j)"
proof -
  have "fold (\<lambda>m r. r[dst + m := rows ! (src + m)]) [0..<n] rows ! j =
    (if dst \<le> j \<and> j < dst + n then rows ! (src + (j - dst)) else rows ! j)
    \<and> length (fold (\<lambda>m r. r[dst + m := rows ! (src + m)]) [0..<n] rows) = length rows"
    using assms(1)
  proof (induction n)
    case (Suc n)
    then show ?case using assms(2) by (auto simp: nth_list_update less_Suc_eq)
  qed (use assms in auto)
  then show ?thesis by (simp add: copy_rows_def)
qed

lemma run_size_run:
  assumes "i < length ids"
  shows "0 < run_size ids i" "i + run_size ids i \<le> length ids"
    "\<forall>m < run_size ids i. ids ! (i + m) = ids ! i + m"
proof -
  let ?P = "\<lambda>m. ids ! (i + m) = ids ! i + m"
  have le: "1 \<le> length ids - i" using assms by simp
  show "0 < run_size ids i" by (simp add: run_size_def)
  show "i + run_size ids i \<le> length ids"
    using takeWhile_upt(1)[OF le, of ?P] assms by (simp add: run_size_def)
  show "\<forall>m < run_size ids i. ?P m"
  proof (intro allI impI)
    fix m assume "m < run_size ids i"
    then show "?P m"
      using takeWhile_upt(2)[OF le, of ?P] by (cases m) (auto simp: run_size_def)
  qed
qed

lemma run_moved:
  assumes ok: "ids_ok U ids" and i: "moved ids i" and m: "m < run_size ids i"
  shows "moved ids (i + m)" "ids ! (i + m) = ids ! i + m"
proof -
  have il: "i < length ids" "U \<le> i" "ids ! i < U"
    using ok i by (auto simp: ids_ok_def moved_def)
  show "ids ! (i + m) = ids ! i + m" using run_size_run(3)[OF il(1)] m by simp
  then show "moved ids (i + m)"
    using run_size_run(2)[OF il(1)] m il by (simp add: moved_def)
qed

lemma run_defrag_nth:
  assumes ok: "ids_ok U ids" and U: "length ids \<le> length rows"
  shows "(\<forall>k. i \<le> k \<and> moved ids k \<longrightarrow> fold copy_rows (build_defrag ids i) rows ! (ids ! k) = rows ! k) \<and>
    (\<forall>j < length rows. (\<forall>k. i \<le> k \<and> moved ids k \<longrightarrow> ids ! k \<noteq> j) \<longrightarrow>
      fold copy_rows (build_defrag ids i) rows ! j = rows ! j)"
  using U
proof (induction "length ids - i" arbitrary: i rows rule: less_induct)
  case less
  let ?r = "\<lambda>i rows. fold copy_rows (build_defrag ids i) rows"
  consider "length ids \<le> i" | "i < length ids" "\<not> moved ids i" | "moved ids i"
    by (metis linorder_not_less)
  then show ?case
  proof cases
    case 1
    then show ?thesis by (auto simp: build_defrag.simps[of ids i] moved_def)
  next
    case 2
    then have c: "\<not> length ids \<le> i" "i = ids ! i \<or> ids ! i = length ids"
      unfolding moved_def by (linarith, metis)
    have "?r i rows = ?r (i + 1) rows"
      by (subst build_defrag.simps, subst if_not_P[OF c(1)], subst if_P[OF c(2)]) (rule refl)
    moreover have "i \<le> k \<and> moved ids k \<longleftrightarrow> i + 1 \<le> k \<and> moved ids k" for k
      using 2(2) by (metis Suc_eq_plus1 Suc_leD le_antisym not_less_eq_eq)
    ultimately show ?thesis using less.hyps[of "i + 1" rows] less.prems 2(1) by simp
  next
    case 3
    define n where "n = run_size ids i"
    let ?rows = "copy_rows (i, ids ! i, n) rows"
    have il: "i < length ids" "U \<le> i" "ids ! i < U"
      using 3 ok by (auto simp: ids_ok_def moved_def)
    have n: "0 < n" "i + n \<le> length ids" using run_size_run[OF il(1)] by (simp_all add: n_def)
    have blk: "moved ids (i + m)" "ids ! (i + m) = ids ! i + m" "ids ! i + m < U" if "m < n" for m
      using run_moved[OF ok 3, of m] that ok n_def by (auto simp: ids_ok_def)
    have fit: "ids ! i + n \<le> U"
      using blk(3)[of "n - 1"] n(1) by auto
    have at: "?rows ! j = (if ids ! i \<le> j \<and> j < ids ! i + n then rows ! (i + (j - ids ! i)) else rows ! j)"
      if "j < length rows" for j
      using that fit less.prems il by (intro copy_rows_nth) auto
    have c: "\<not> length ids \<le> i" "\<not> (i = ids ! i \<or> ids ! i = length ids)"
      using 3 unfolding moved_def by (linarith, metis)
    have unf: "?r i rows = ?r (i + n) ?rows"
      by (subst build_defrag.simps, subst if_not_P[OF c(1)], subst if_not_P[OF c(2)])
        (simp add: n_def)
    have IH: "\<forall>k. i + n \<le> k \<and> moved ids k \<longrightarrow> ?r (i + n) ?rows ! (ids ! k) = ?rows ! k"
      "\<forall>j < length rows. (\<forall>k. i + n \<le> k \<and> moved ids k \<longrightarrow> ids ! k \<noteq> j) \<longrightarrow> ?r (i + n) ?rows ! j = ?rows ! j"
      using less.hyps[of "i + n" ?rows] il n less.prems by auto
    have inj: "a = b" if "moved ids a" "moved ids b" "ids ! a = ids ! b" for a b
      using ok that by (auto simp: ids_ok_def inj_on_def)
    show ?thesis
    proof (intro conjI allI impI)
      fix k assume k: "i \<le> k \<and> moved ids k"
      then have kl: "U \<le> k" "k < length rows" "ids ! k < length rows"
        using ok less.prems il by (auto simp: ids_ok_def moved_def)
      show "?r i rows ! (ids ! k) = rows ! k"
      proof (cases "i + n \<le> k")
        case True
        then show ?thesis using IH(1) at[OF kl(2)] k kl(1) fit unf by auto
      next
        case False
        define m where "m = k - i"
        have m: "k = i + m" "m < n" using False k m_def by auto
        have "\<forall>k'. i + n \<le> k' \<and> moved ids k' \<longrightarrow> ids ! k' \<noteq> ids ! k"
          using inj k False by blast
        then show ?thesis using IH(2) at[OF kl(3)] blk(2)[OF m(2)] m kl(3) unf by simp
      qed
    next
      fix j assume j: "j < length rows" "\<forall>k. i \<le> k \<and> moved ids k \<longrightarrow> ids ! k \<noteq> j"
      have "\<not> (ids ! i \<le> j \<and> j < ids ! i + n)"
      proof
        assume a: "ids ! i \<le> j \<and> j < ids ! i + n"
        then have "ids ! (i + (j - ids ! i)) = j" "moved ids (i + (j - ids ! i))"
          using blk(1,2)[of "j - ids ! i"] by auto
        then show False using j(2) by (metis le_add1)
      qed
      then show "?r i rows ! j = rows ! j"
        using IH(2) j at[OF j(1)] unf by auto
    qed
  qed
qed

section \<open>Cells and rows together\<close>

definition held :: "llama_kv_cell list \<Rightarrow> 'd list \<Rightarrow> (llama_kv_cell \<times> 'd) multiset" where
  "held cs rows = mset (filter (\<lambda>(c, r). \<not> is_empty_cell c) (zip cs rows))"

lemma held_indices:
  assumes "length rows = length cs"
  shows "held cs rows = image_mset (\<lambda>i. (cs ! i, rows ! i)) (mset_set {i. i < length cs \<and> taken (cs ! i)})"
  using assms
proof (induction cs rows rule: rev_induct2)
  case (4 c cs r rows)
  let ?f = "\<lambda>cs rows i. (cs ! i, rows ! i)"
  have set: "{i. i < length (cs @ [c]) \<and> taken ((cs @ [c]) ! i)} =
      (if taken c then insert (length cs) {i. i < length cs \<and> taken (cs ! i)} else {i. i < length cs \<and> taken (cs ! i)})"
    by (auto simp: nth_append less_Suc_eq)
  have "image_mset (?f (cs @ [c]) (rows @ [r])) (mset_set {i. i < length cs \<and> taken (cs ! i)}) =
      image_mset (?f cs rows) (mset_set {i. i < length cs \<and> taken (cs ! i)})"
    using 4 by (intro image_mset_cong) (auto simp: nth_append)
  then show ?case
    using 4 unfolding set by (auto simp: held_def taken_iff nth_append)
qed (simp_all add: held_def)

definition new_place :: "nat list \<Rightarrow> nat \<Rightarrow> nat" where
  "new_place ids i = (if moved ids i then ids ! i else i)"

lemma held_moved:
  assumes inv: "defrag_inv cs0 n_kv U d" and n: "n_kv \<le> length cs0" "count_if taken cs0 = U"
    and rows: "length rows = length cs0"
  shows "held (d_cells d) (run_defrag (d_ids d) rows) = held cs0 rows"
proof -
  note v = inv[unfolded defrag_inv_def]
  let ?ids = "d_ids d" and ?r = "run_defrag (d_ids d) rows"
  let ?A = "{i. i < length cs0 \<and> taken (cs0 ! i)}"
  let ?B = "{i. i < length (d_cells d) \<and> taken (d_cells d ! i)}"
  have len: "length (d_cells d) = length cs0" "length ?ids = n_kv" using v by auto
  have ok: "ids_ok U ?ids" using v by (simp add: ids_ok_def)
  have place: "d_cells d ! new_place ?ids i = cs0 ! i" "new_place ?ids i < length cs0" if "i \<in> ?A" for i
  proof -
    have i: "i < length cs0" "taken (cs0 ! i)" using that by auto
    have "d_cells d ! new_place ?ids i = cs0 ! i \<and> new_place ?ids i < length cs0"
    proof (cases "moved ?ids i")
      case True
      then have "U \<le> i" "?ids ! i < U" "d_cells d ! (?ids ! i) = cs0 ! i" using v by blast+
      then show ?thesis using True i(1) by (simp add: new_place_def)
    next
      case False
      then have "d_cells d ! i = cs0 ! i" using v i by blast
      then show ?thesis using False i(1) by (simp add: new_place_def)
    qed
    then show "d_cells d ! new_place ?ids i = cs0 ! i" "new_place ?ids i < length cs0" by auto
  qed
  have inj: "inj_on (new_place ?ids) ?A"
  proof (rule inj_onI)
    fix a b assume ab: "a \<in> ?A" "b \<in> ?A" "new_place ?ids a = new_place ?ids b"
    have i: "inj_on ((!) ?ids) {i. moved ?ids i}" using v by blast
    have c: "\<not> (taken (cs0 ! (?ids ! k)))" if "moved ?ids k" for k using v that by blast
    consider "moved ?ids a" "moved ?ids b" | "moved ?ids a" "b = ?ids ! a"
      | "moved ?ids b" "a = ?ids ! b" | "a = b"
      using ab(3) by (cases "moved ?ids a"; cases "moved ?ids b") (auto simp: new_place_def)
    then show "a = b"
      using ab c inj_onD[OF i] by cases (auto simp: new_place_def)
  qed
  have img: "new_place ?ids ` ?A = ?B"
  proof (rule card_subset_eq)
    show "new_place ?ids ` ?A \<subseteq> ?B" using place len by auto
    have "count_if taken (d_cells d) = U" using v by blast
    then have "card ?B = U" by (simp only: count_if_card)
    moreover have "card (new_place ?ids ` ?A) = U" using inj n by (simp add: card_image count_if_card)
    ultimately show "card (new_place ?ids ` ?A) = card ?B" by simp
  qed simp
  have row: "?r ! new_place ?ids i = rows ! i" if "i \<in> ?A" for i
  proof -
    note R = run_defrag_nth[OF ok, of rows 0]
    have L: "length ?ids \<le> length rows" using n len rows by simp
    show ?thesis
    proof (cases "moved ?ids i")
      case True
      then show ?thesis using R L by (simp add: new_place_def run_defrag_def)
    next
      case False
      have "\<forall>k. moved ?ids k \<longrightarrow> ?ids ! k \<noteq> i" using v that by blast
      then show ?thesis using R L that False rows by (simp add: new_place_def run_defrag_def)
    qed
  qed
  have lr: "length ?r = length (d_cells d)" using len rows by (simp add: run_defrag_def)
  have "held (d_cells d) ?r = image_mset (\<lambda>i. (d_cells d ! i, ?r ! i)) (mset_set (new_place ?ids ` ?A))"
    using held_indices[OF lr] img by simp
  also have "\<dots> = image_mset (\<lambda>i. (cs0 ! i, rows ! i)) (mset_set ?A)"
    unfolding image_mset_mset_set[OF inj, symmetric] image_mset.compositionality comp_def
    using place(1) row by (intro image_mset_cong) auto
  also have "\<dots> = held cs0 rows"
    using held_indices[of rows cs0] rows by simp
  finally show ?thesis .
qed

lemma held_entries:
  assumes "length rows' = length (cells kv')" "length rows = length (cells kv)"
    and "held (cells kv') rows' = held (cells kv) rows"
  shows "kv_entries kv' = kv_entries kv"
proof -
  have fst: "fst ` set_mset (held cs rs) = {c \<in> set cs. \<not> is_empty_cell c}"
    if "length rs = length cs" for cs and rs :: "'a list"
    using that by (force simp: held_def set_zip in_set_conv_nth)
  have "{c \<in> set (cells kv'). \<not> is_empty_cell c} = {c \<in> set (cells kv). \<not> is_empty_cell c}"
    using fst[OF assms(1)] fst[OF assms(2)] assms(3) by simp
  moreover have "kv_entries x = {(s, p). \<exists>c \<in> {c \<in> set (cells x). \<not> is_empty_cell c}. s \<in> c_seq_id c \<and> c_pos c = p}" for x
    by (auto simp: kv_entries_def is_empty_cell_def)
  ultimately show ?thesis by presburger
qed

section \<open>Properties\<close>

lemma cell_max_loop_le: "cell_max_loop cs n \<le> n"
  by (induction n) auto

lemma cell_max_loop_taken:
  assumes "\<forall>c \<in> set cs. cell_ok c" "i < n" "n \<le> length cs" "taken (cs ! i)"
  shows "i < cell_max_loop cs n"
  using assms(2-)
proof (induction n)
  case (Suc n)
  then have "cell_ok (cs ! n)" using assms(1) by simp
  then show ?case
    using Suc by (cases "i = n") (auto simp: cell_ok_def taken_def is_empty_cell_def less_Suc_eq)
qed simp

lemma defrag_impl_spec:
  assumes kv: "kv_ok kv" and rows: "length rows = kv_size kv"
  shows "\<exists>kv' rows'. llama_kv_cache_defrag_impl max_moves kv rows = Inr (kv', rows') \<and>
    kv_ok kv' \<and> kv' = kv\<lparr>cells := cells kv', head := head kv'\<rparr> \<and> length rows' = kv_size kv \<and>
    held (cells kv') rows' = held (cells kv) rows \<and>
    (used kv < max_moves \<longrightarrow>
      (\<forall>i < kv_size kv. is_empty_cell (cells kv' ! i) \<longleftrightarrow> used kv \<le> i))"
proof -
  note k = kv_okD[OF kv]
  let ?cs = "cells kv" and ?n = "llama_kv_cache_cell_max kv" and ?U = "used kv"
  let ?d = "\<lparr>d_cells = ?cs, d_ids = replicate ?n ?n, d_head = head kv, d_moves = 0\<rparr>"
  have n: "?n \<le> length ?cs" using cell_max_loop_le k(2) by (simp add: llama_kv_cache_cell_max_def)
  have tk: "i < ?n" if "i < length ?cs" "taken (?cs ! i)" for i
    using cell_max_loop_taken[of ?cs i "length ?cs"] k that by (simp add: llama_kv_cache_cell_max_def)
  have "cnt ?cs ?n = 0"
    using cnt_prefix[of ?n "length ?cs" ?cs False] n tk by force
  then have U: "?U \<le> ?n"
    using cnt_le[of 0 ?n ?cs] n k(6) by (simp add: cnt_all)
  have nm: "\<not> moved (replicate ?n ?n) i" for i by (auto simp: moved_def)
  have "defrag_inv ?cs ?n ?U ?d"
    using k nm by (simp add: defrag_inv_def)
  then have ok: "defrag_ok ?cs ?n ?U ?d"
    using k tk by (auto simp: defrag_ok_def tail_fresh_def)
  obtain d where d: "defrag_loop ?n ?U max_moves 0 ?d = Inr d" "defrag_ok ?cs ?n ?U d"
    "?U < max_moves \<longrightarrow> (\<forall>i < ?U. taken (d_cells d ! i))"
  proof -
    have "outer_pre ?n ?U 0 ?d" using U by (simp add: outer_pre_def)
    then show thesis using defrag_loop_ok[OF ok n U, of 0 max_moves] that by metis
  qed
  note o = d(2)[unfolded defrag_ok_def]
  have inv: "defrag_inv ?cs ?n ?U d" using o by blast
  let ?rows = "if d_moves d = 0 then rows else run_defrag (d_ids d) rows"
  let ?kv = "kv\<lparr>cells := d_cells d, head := d_head d\<rparr>"
  have len: "length (d_cells d) = length ?cs" "count_if taken (d_cells d) = ?U"
    using inv by (simp_all add: defrag_inv_def)
  have run: "llama_kv_cache_defrag_impl max_moves kv rows = Inr (?kv, ?rows)"
    using d(1) by (simp add: llama_kv_cache_defrag_impl_def Let_def)
  have ok': "kv_ok ?kv"
    using k o len by (auto simp: kv_ok_def)
  have "run_defrag (d_ids d) rows = rows" if "d_moves d = 0"
  proof (rule nth_equalityI)
    fix j assume "j < length (run_defrag (d_ids d) rows)"
    then have j: "j < length rows" by (simp add: run_defrag_def)
    have nm: "\<forall>i. \<not> moved (d_ids d) i" using inv that by (simp add: defrag_inv_def)
    have "ids_ok ?U (d_ids d)" "length (d_ids d) \<le> length rows"
      using inv n rows k by (simp_all add: ids_ok_def defrag_inv_def)
    then show "run_defrag (d_ids d) rows ! j = rows ! j"
      using run_defrag_nth[of ?U "d_ids d" rows 0] j nm by (simp add: run_defrag_def)
  qed (simp add: run_defrag_def)
  then have rw: "?rows = run_defrag (d_ids d) rows" by simp
  have h: "held (d_cells d) ?rows = held ?cs rows"
    unfolding rw using held_moved[OF inv n] k rows by simp
  have cut: "is_empty_cell (d_cells d ! i) \<longleftrightarrow> ?U \<le> i" if "?U < max_moves" "i < kv_size kv" for i
  proof -
    have "cnt (d_cells d) 0 = ?U + cnt (d_cells d) ?U"
      using cnt_prefix[of 0 ?U "d_cells d" True] d(3) that(1) U n len by simp
    then have z: "cnt (d_cells d) ?U = 0" using len by (simp add: cnt_all)
    have "\<not> taken (d_cells d ! i)" if "?U \<le> i"
    proof
      assume "taken (d_cells d ! i)"
      then have "0 < cnt (d_cells d) i" using \<open>i < kv_size kv\<close> k len by (simp add: cnt_step)
      then show False using cnt_mono[OF that, of "d_cells d"] z by simp
    qed
    then show ?thesis using d(3) that by (metis linorder_not_less taken_iff)
  qed
  have "length ?rows = kv_size kv" using rows by (simp add: run_defrag_def)
  then show ?thesis using run ok' h cut by (intro exI[of _ ?kv] exI[of _ ?rows]) auto
qed

text \<open>
  C21. Defragmentation never trips its own assertion, and no cell loses its data: the pairs
  of a used cell (position, sequences, shift) and the K or V row stored under it are the
  same before and after; the cache stays well formed and, when the move budget exceeds the
  number of used cells, the used cells end up contiguous from cell 0.
\<close>

theorem defrag_keeps_data:
  assumes "kv_ok kv" "length rows = kv_size kv"
  shows "\<exists>kv' rows'. llama_kv_cache_defrag_impl max_moves kv rows = Inr (kv', rows') \<and>
    kv_ok kv' \<and> kv_entries kv' = kv_entries kv \<and>
    mset (filter (\<lambda>(c, r). \<not> is_empty_cell c) (zip (cells kv') rows')) =
      mset (filter (\<lambda>(c, r). \<not> is_empty_cell c) (zip (cells kv) rows)) \<and>
    (used kv < max_moves \<longrightarrow>
      (\<forall>i < kv_size kv. is_empty_cell (cells kv' ! i) \<longleftrightarrow> used kv \<le> i))"
proof -
  obtain kv' rows' where r: "llama_kv_cache_defrag_impl max_moves kv rows = Inr (kv', rows')"
    "kv_ok kv'" "kv' = kv\<lparr>cells := cells kv', head := head kv'\<rparr>" "length rows' = kv_size kv"
    "held (cells kv') rows' = held (cells kv) rows"
    "used kv < max_moves \<longrightarrow> (\<forall>i < kv_size kv. is_empty_cell (cells kv' ! i) \<longleftrightarrow> used kv \<le> i)"
    using defrag_impl_spec[OF assms] by blast
  have sz: "kv_size kv' = kv_size kv"
    using r(3) by (metis llama_kv_cache.select_convs(7) llama_kv_cache.surjective
        llama_kv_cache.update_convs(6,10))
  have "kv_entries kv' = kv_entries kv"
    using held_entries[OF _ _ r(5)] r(2,4) sz assms kv_okD(2) by simp
  then show ?thesis
    using r unfolding held_def by blast
qed

definition holed_cache :: llama_kv_cache where
  "holed_cache = \<lparr>has_shift = False, do_defrag = True, recurrent = False, v_trans = True,
     can_shift = True, head = 4, kv_size = 5, used = 2, kv_n = 4,
     cells = [empty_cell, empty_cell, empty_cell\<lparr>c_pos := 7, c_seq_id := {0}\<rparr>,
       empty_cell\<lparr>c_pos := 8, c_seq_id := {0}\<rparr>, empty_cell]\<rparr>"

theorem defrag_keeps_data_witness:
  "\<exists>kv' rows'. llama_kv_cache_defrag_impl 10 holed_cache ''abcde'' = Inr (kv', rows') \<and>
    (\<forall>i < 5. is_empty_cell (cells kv' ! i) \<longleftrightarrow> 2 \<le> i)"
proof -
  have "kv_ok holed_cache"
    by (simp add: holed_cache_def empty_cell_def kv_ok_def kv_limit_def cell_ok_def taken_def
        is_empty_cell_def)
  then show ?thesis
    using defrag_keeps_data[of holed_cache "''abcde''" 10] by (auto simp: holed_cache_def)
qed

lemma entries_clear_delta:
  "kv_entries (kv\<lparr>has_shift := b, cells := map (\<lambda>c. c\<lparr>c_delta := 0\<rparr>) (cells kv)\<rparr>) = kv_entries kv"
  by (auto simp: kv_entries_def)

lemma kv_ok_clear_delta:
  assumes "kv_ok kv"
  shows "kv_ok (kv\<lparr>has_shift := b, cells := map (\<lambda>c. c\<lparr>c_delta := 0\<rparr>) (cells kv)\<rparr>)"
proof -
  have "count_if taken (map (\<lambda>c. c\<lparr>c_delta := 0\<rparr>) cs) = count_if taken cs" for cs
    by (induction cs) (simp_all add: taken_def is_empty_cell_def)
  then show ?thesis
    using assms by (auto simp: kv_ok_def cell_ok_def)
qed

lemma held_clear_delta:
  "held (map (\<lambda>c. c\<lparr>c_delta := 0\<rparr>) cs) (map2 (\<lambda>c r. shift (c_delta c) r) cs rows) =
    image_mset (\<lambda>(c, r). (c\<lparr>c_delta := 0\<rparr>, shift (c_delta c) r)) (held cs rows)"
proof (induction cs arbitrary: rows)
  case (Cons c cs)
  then show ?case by (cases rows) (auto simp: held_def is_empty_cell_def)
qed (simp add: held_def)

text \<open>The update whether or not something is pending.\<close>

lemma update_impl_spec:
  assumes "kv_ok kv" "length rows = kv_size kv" "has_shift kv \<longrightarrow> llama_kv_cache_can_shift kv"
  shows "\<exists>kv' rows'. llama_kv_cache_update_impl shift rope max_moves kv rows = Inr (kv', rows') \<and>
    kv_ok kv' \<and> kv_entries kv' = kv_entries kv \<and> \<not> has_shift kv' \<and> \<not> do_defrag kv' \<and>
    length rows' = kv_size kv \<and> kv_size kv' = kv_size kv \<and>
    (has_shift kv \<and> rope \<longrightarrow> held (cells kv') rows' =
      image_mset (\<lambda>(c, r). (c\<lparr>c_delta := 0\<rparr>, shift (c_delta c) r)) (held (cells kv) rows))"
proof -
  let ?kv = "if has_shift kv then kv\<lparr>has_shift := False, cells := map (\<lambda>c. c\<lparr>c_delta := 0\<rparr>) (cells kv)\<rparr> else kv"
  let ?rows = "if has_shift kv \<and> rope then map2 (\<lambda>c r. shift (c_delta c) r) (cells kv) rows else rows"
  have ok: "kv_ok ?kv" "length ?rows = kv_size ?kv"
    using kv_ok_clear_delta[OF assms(1)] assms kv_okD(2)[OF assms(1)] by simp_all
  have h: "has_shift kv \<and> rope \<longrightarrow> held (cells ?kv) ?rows =
      image_mset (\<lambda>(c, r). (c\<lparr>c_delta := 0\<rparr>, shift (c_delta c) r)) (held (cells kv) rows)"
    by (simp add: held_clear_delta)
  have e: "kv_entries ?kv = kv_entries kv" "\<not> has_shift ?kv" "kv_size ?kv = kv_size kv"
    "do_defrag ?kv = do_defrag kv"
    by (simp_all add: entries_clear_delta)
  have unf: "llama_kv_cache_update_impl shift rope max_moves kv rows =
      (if do_defrag ?kv then rbind (llama_kv_cache_defrag_impl max_moves ?kv ?rows)
         (\<lambda>(kv, rows). Inr (kv\<lparr>do_defrag := False\<rparr>, rows)) else Inr (?kv, ?rows))"
    using assms(3) by (auto simp: llama_kv_cache_update_impl_def)
  show ?thesis
  proof (cases "do_defrag kv")
    case False
    then show ?thesis using unf ok h e by (simp del: if_split)
  next
    case True
    obtain kv' rows' where r: "llama_kv_cache_defrag_impl max_moves ?kv ?rows = Inr (kv', rows')"
      "kv_ok kv'" "kv' = ?kv\<lparr>cells := cells kv', head := head kv'\<rparr>"
      "held (cells kv') rows' = held (cells ?kv) ?rows" "length rows' = kv_size ?kv"
      using defrag_impl_spec[OF ok] by blast
    have sz: "kv_size kv' = kv_size kv" "\<not> has_shift kv'"
      using e(2,3) by (subst r(3), simp del: if_split)+
    then have "kv_entries kv' = kv_entries ?kv"
      using held_entries[OF _ _ r(4)] r(2,5) ok kv_okD(2) e(3) by metis
    moreover have "kv_ok (kv'\<lparr>do_defrag := False\<rparr>)" using r(2) by (simp add: kv_ok_def)
    moreover have "kv_entries (kv'\<lparr>do_defrag := False\<rparr>) = kv_entries kv'" by (simp add: kv_entries_def)
    moreover have "llama_kv_cache_update_impl shift rope max_moves kv rows = Inr (kv'\<lparr>do_defrag := False\<rparr>, rows')"
      using unf r(1) True e(4) by (simp del: if_split)
    ultimately show ?thesis
      using r(4,5) sz h e by (intro exI[of _ "kv'\<lparr>do_defrag := False\<rparr>"] exI[of _ rows']) (simp del: if_split)
  qed
qed

text \<open>
  C22. The update that precedes every decode applies a pending shift exactly once and then
  defragments: it cannot abort when the cache supports shifting, every used cell keeps its
  position and sequences with its delta cleared, and its row is the old one shifted by the
  old delta; both request flags are down afterwards.
\<close>

theorem update_applies_shift:
  assumes "kv_ok kv" "length rows = kv_size kv" "has_shift kv" "llama_kv_cache_can_shift kv"
  shows "\<exists>kv' rows'. llama_kv_cache_update_impl shift True max_moves kv rows = Inr (kv', rows') \<and>
    kv_ok kv' \<and> kv_entries kv' = kv_entries kv \<and> \<not> has_shift kv' \<and> \<not> do_defrag kv' \<and>
    mset (filter (\<lambda>(c, r). \<not> is_empty_cell c) (zip (cells kv') rows')) =
      image_mset (\<lambda>(c, r). (c\<lparr>c_delta := 0\<rparr>, shift (c_delta c) r))
        (mset (filter (\<lambda>(c, r). \<not> is_empty_cell c) (zip (cells kv) rows)))"
proof -
  have "has_shift kv \<longrightarrow> llama_kv_cache_can_shift kv" using assms(4) by simp
  from update_impl_spec[OF assms(1,2) this, of shift True max_moves] assms(3)
  show ?thesis unfolding held_def by blast
qed

definition shifted_holes :: llama_kv_cache where
  "shifted_holes = holed_cache\<lparr>has_shift := True,
     cells := map (\<lambda>c. c\<lparr>c_delta := 3\<rparr>) (cells holed_cache)\<rparr>"

theorem update_applies_shift_witness:
  "\<exists>kv' rows'. llama_kv_cache_update_impl (\<lambda>d r. r + d) True 10 shifted_holes [10, 20, 30, 40, 50] =
      Inr (kv', rows') \<and> \<not> has_shift kv' \<and>
    mset (filter (\<lambda>(c, r). \<not> is_empty_cell c) (zip (cells kv') rows')) =
      mset [(empty_cell\<lparr>c_pos := 7, c_seq_id := {0}\<rparr>, 33), (empty_cell\<lparr>c_pos := 8, c_seq_id := {0}\<rparr>, 43)]"
proof -
  let ?rows = "[10, 20, 30, 40, 50 :: int]"
  have pre: "kv_ok shifted_holes" "length ?rows = kv_size shifted_holes" "has_shift shifted_holes"
    "llama_kv_cache_can_shift shifted_holes"
    by (simp_all add: shifted_holes_def holed_cache_def empty_cell_def kv_ok_def kv_limit_def cell_ok_def
        taken_def is_empty_cell_def llama_kv_cache_can_shift_def)
  have used: "filter (\<lambda>(c, r). \<not> is_empty_cell c) (zip (cells shifted_holes) ?rows) =
    [(empty_cell\<lparr>c_pos := 7, c_seq_id := {0}, c_delta := 3\<rparr>, 30),
     (empty_cell\<lparr>c_pos := 8, c_seq_id := {0}, c_delta := 3\<rparr>, 40)]"
    by (simp add: shifted_holes_def holed_cache_def empty_cell_def is_empty_cell_def)
  obtain kv' rows' where r:
    "llama_kv_cache_update_impl (\<lambda>d r. r + d) True 10 shifted_holes ?rows = Inr (kv', rows')"
    "\<not> has_shift kv'"
    "mset (filter (\<lambda>(c, r). \<not> is_empty_cell c) (zip (cells kv') rows')) =
      image_mset (\<lambda>(c, r). (c\<lparr>c_delta := 0\<rparr>, r + c_delta c))
       (mset (filter (\<lambda>(c, r). \<not> is_empty_cell c) (zip (cells shifted_holes) ?rows)))"
    using update_applies_shift[OF pre, of "\<lambda>d r. r + d" 10] by blast
  from r(3) have "mset (filter (\<lambda>(c, r). \<not> is_empty_cell c) (zip (cells kv') rows')) =
      mset [(empty_cell\<lparr>c_pos := 7, c_seq_id := {0}\<rparr>, 33), (empty_cell\<lparr>c_pos := 8, c_seq_id := {0}\<rparr>, 43)]"
    unfolding used by (simp add: empty_cell_def)
  then show ?thesis using r(1,2) by blast
qed

end
