(* ===== verification/Decode.thy ===== *)
theory Decode
  imports BatchProps KvDefrag
begin

text \<open>
  Evaluating a batch: \<open>llama_decode_impl\<close> and \<open>llama_encode_impl\<close> of
  \<^verbatim>\<open>src/llama.cpp\<close>, and the output buffer of \<^verbatim>\<open>src/llama-context.cpp\<close>.  The compute
  graph belongs to ggml and the model files: it is the parameter \<open>backend\<close>, which maps
  the cache, the rows behind it and a micro-batch to a status, the new rows, and one
  output row for every token and for every sequence.  Timers, threads pools and logging
  are left out.
\<close>

section \<open>The context\<close>

datatype pooling = Pool_unspecified | Pool_none | Pool_mean | Pool_cls | Pool_last | Pool_rank

datatype status = St_success | St_aborted | St_alloc_failed | St_failed

record llama_cparams =
  cp_n_batch :: nat
  cp_n_ubatch :: nat
  cp_n_seq_max :: nat
  cp_n_threads :: int
  cp_n_threads_batch :: int
  cp_embeddings :: bool
  cp_causal_attn :: bool
  cp_flash_attn :: bool
  cp_pooling :: pooling

text \<open>\<open>over_thold used n\<close> is the float comparison of the fragmentation with \<open>defrag_thold\<close>.\<close>

record llama_model_info =
  m_n_vocab :: nat
  m_n_embd :: nat
  m_causal_attn :: bool
  m_rope :: bool
  m_max_moves :: nat
  m_over_thold :: "nat \<Rightarrow> nat \<Rightarrow> bool"
  m_defrag_on :: bool
  m_has_decoder :: bool

record ('e, 'l, 'd) graph_out =
  g_status :: status
  g_rows :: "'d list"
  g_token :: "nat \<Rightarrow> 'l"
  g_seq :: "int \<Rightarrow> 'l"

record ('e, 'l, 'd) backend =
  be_alloc :: "nat \<Rightarrow> bool"
  be_shift :: "int \<Rightarrow> 'd \<Rightarrow> 'd"
  be_compute :: "llama_kv_cache \<Rightarrow> 'd list \<Rightarrow> 'e llama_ubatch \<Rightarrow> ('e, 'l, 'd) graph_out"

text \<open>
  \<open>logits\<close> and \<open>embd\<close> are the row buffers (\<open>None\<close> for a null pointer), \<open>buf_output\<close> the
  size of the allocation behind them.
\<close>

record ('e, 'l, 'd) llama_context =
  cparams :: llama_cparams
  model :: llama_model_info
  kv_self :: llama_kv_cache
  kv_rows :: "'d list"
  sbatch :: "'e llama_sbatch"
  cx_logits_all :: bool
  output_ids :: "int list"
  output_size :: nat
  n_outputs :: nat
  logits :: "'l list option"
  embd :: "'l list option"
  embd_seq :: "int \<rightharpoonup> 'l"
  embd_enc :: "'l list"
  seq_ids_enc :: "int set list"
  buf_output :: "nat option"
  is_encoding :: bool
  n_queued_tokens :: nat

section \<open>The output buffer\<close>

definition llama_output_reserve ::
    "('e, 'l::zero, 'd) backend \<Rightarrow> ('e, 'l, 'd) llama_context \<Rightarrow> nat \<Rightarrow> nat \<times> ('e, 'l, 'd) llama_context" where
  "llama_output_reserve be cx n =
     (let cp = cparams cx; mx = max n (cp_n_seq_max cp);
          has_logits = \<not> cp_embeddings cp;
          has_embd = (cp_embeddings cp \<and> cp_pooling cp = Pool_none);
          logits_size = (if has_logits then m_n_vocab (model cx) * mx else 0);
          embd_size = (if has_embd then m_n_embd (model cx) * mx else 0);
          ids = (if output_ids cx = [] then replicate (cp_n_batch cp) 0 else output_ids cx);
          prev = (case buf_output cx of None \<Rightarrow> 0 | Some s \<Rightarrow> s);
          new = (logits_size + embd_size) * 4;
          grow = (buf_output cx = None \<or> prev < new)
      in if grow \<and> \<not> be_alloc be new
         then (0, if buf_output cx = None then cx\<lparr>output_ids := ids\<rparr>
                  else cx\<lparr>output_ids := ids, buf_output := None, logits := None, embd := None\<rparr>)
         else (mx, cx\<lparr>
           buf_output := (if grow then Some new else buf_output cx),
           logits := (if has_logits then Some (replicate mx 0) else None),
           embd := (if has_embd then Some (replicate mx 0) else None),
           output_size := mx,
           output_ids := replicate (length ids) (-1),
           n_outputs := 0\<rparr>))"

text \<open>
  \<open>llama_output_reorder\<close>: selection sort of \<open>out_ids\<close>, each swap done on the rows too.
\<close>

definition min_index :: "nat list \<Rightarrow> nat \<Rightarrow> nat" where
  "min_index xs i = fold (\<lambda>j m. if xs ! j < xs ! m then j else m) [i + 1..<length xs] i"

definition swap_at :: "nat \<Rightarrow> nat \<Rightarrow> 'a list \<Rightarrow> 'a list" where
  "swap_at i j xs = xs[i := xs ! j, j := xs ! i]"

definition reorder_step ::
    "nat \<Rightarrow> nat list \<times> 'l list option \<times> 'l list option \<Rightarrow> nat list \<times> 'l list option \<times> 'l list option" where
  "reorder_step i st = (case st of (ids, lg, em) \<Rightarrow>
     let j = min_index ids i in
     if j = i then st
     else (swap_at i j ids, map_option (swap_at i j) lg, map_option (swap_at i j) em))"

definition set_output_ids :: "nat list \<Rightarrow> int list \<Rightarrow> int list" where
  "set_output_ids ids xs = fold (\<lambda>(i, t) xs. xs[t := int i]) (zip [0..<length ids] ids) xs"

definition llama_output_reorder ::
    "('e, 'l, 'd) llama_context \<Rightarrow> ('e, 'l, 'd) llama_context res" where
  "llama_output_reorder cx =
     (let ids = sb_out_ids (sbatch cx) in
      if ids = [] then Inr cx
      else rbind (guard (n_outputs cx = length ids) Assert_failed) (\<lambda>_.
        let (ids', lg, em) = fold reorder_step [0..<length ids - 1] (ids, logits cx, embd cx)
        in Inr (cx\<lparr>logits := lg, embd := em,
             output_ids := set_output_ids ids' (replicate (length (output_ids cx)) (-1)),
             sbatch := (sbatch cx)\<lparr>sb_out_ids := []\<rparr>\<rparr>)))"

text \<open>The row index of output \<open>i\<close>, or the reason there is none (the code logs it and returns null).\<close>

definition output_row :: "('e, 'l, 'd) llama_context \<Rightarrow> int \<Rightarrow> nat res" where
  "output_row cx i =
     rbind (if i < 0 then
         (if int (n_outputs cx) + i < 0 then Inl (Runtime_error ''negative index out of range'')
          else Inr (int (n_outputs cx) + i))
       else if int (length (output_ids cx)) \<le> i then Inl (Runtime_error ''out of range'')
       else Inr (output_ids cx ! nat i)) (\<lambda>j.
     if j < 0 then Inl (Runtime_error ''batch.logits[i] != true'')
     else if int (n_outputs cx) \<le> j then Inl (Runtime_error ''corrupt output buffer'')
     else Inr (nat j))"

definition llama_get_logits_ith :: "('e, 'l, 'd) llama_context \<Rightarrow> int \<Rightarrow> 'l option" where
  "llama_get_logits_ith cx i =
     (case logits cx of None \<Rightarrow> None
      | Some rows \<Rightarrow> (case output_row cx i of Inl _ \<Rightarrow> None | Inr j \<Rightarrow> Some (rows ! j)))"

definition llama_get_embeddings_ith :: "('e, 'l, 'd) llama_context \<Rightarrow> int \<Rightarrow> 'l option" where
  "llama_get_embeddings_ith cx i =
     (case embd cx of None \<Rightarrow> None
      | Some rows \<Rightarrow> (case output_row cx i of Inl _ \<Rightarrow> None | Inr j \<Rightarrow> Some (rows ! j)))"

definition llama_get_embeddings_seq :: "('e, 'l, 'd) llama_context \<Rightarrow> int \<Rightarrow> 'l option" where
  "llama_get_embeddings_seq cx s = embd_seq cx s"

section \<open>One micro-batch\<close>

text \<open>
  The tokens of a micro-batch the graph outputs, \<open>inp_out_ids\<close> of \<open>llama_set_inputs\<close>;
  where the code leaves that tensor alone the graph keeps every token.
\<close>

definition out_tokens :: "('e, 'l, 'd) llama_context \<Rightarrow> 'e llama_ubatch \<Rightarrow> nat list res" where
  "out_tokens cx ub =
     (let n = ub_n_tokens ub; ks = filter (\<lambda>k. ub_output ub ! k \<noteq> 0) [0..<n] in
      rbind (if \<not> (m_causal_attn (model cx) \<or> cp_pooling (cparams cx) = Pool_none)
           then Inr (take (n_outputs cx) [0..<n])
         else if n_outputs cx = n then Inr [0..<n]
         else rbind (guard (n_outputs cx = length ks) Assert_failed) (\<lambda>_. Inr ks)) (\<lambda>r.
      rbind (guard (m_causal_attn (model cx) \<or> \<not> cp_causal_attn (cparams cx)) Assert_failed) (\<lambda>_.
      Inr r)))"

definition ggml_pad :: "nat \<Rightarrow> nat \<Rightarrow> nat" where
  "ggml_pad x n = (x + n - 1) div n * n"

text \<open>The cache is updated, searched, and the window \<open>n\<close> set: \<open>None\<close> when there is no slot.\<close>

definition decode_slot ::
    "('e, 'l, 'd) backend \<Rightarrow> ('e, 'l, 'd) llama_context \<Rightarrow> slot_restorer \<Rightarrow> 'e llama_ubatch
      \<Rightarrow> (('e, 'l, 'd) llama_context \<times> slot_restorer option) res" where
  "decode_slot be cx rs ub =
     rbind (llama_kv_cache_update_impl (be_shift be) (m_rope (model cx)) (m_max_moves (model cx))
              (kv_self cx) (kv_rows cx)) (\<lambda>(kv, rows).
     let kv = (if u32_add (used kv) (2 * ub_n_tokens ub) < head kv then kv\<lparr>head := 0\<rparr> else kv) in
     rbind (llama_kv_cache_find_slot kv ub) (\<lambda>(kv, slot).
     if \<not> found slot then Inr (cx\<lparr>kv_self := kv, kv_rows := rows\<rparr>, None)
     else
       let pad = llama_kv_cache_get_padding (cp_flash_attn (cparams cx));
           kv = (if recurrent kv then kv
                 else kv\<lparr>kv_n := min (kv_size kv) (max pad (ggml_pad (llama_kv_cache_cell_max kv) pad))\<rparr>)
       in Inr (cx\<lparr>kv_self := kv, kv_rows := rows\<rparr>, Some (restorer_save rs slot))))"

text \<open>\<open>tensor_get\<close> of the new rows at \<open>prev\<close>, after the assertions on the capacity.\<close>

definition store_rows :: "nat \<Rightarrow> nat \<Rightarrow> nat \<Rightarrow> 'l list option \<Rightarrow> 'l list \<Rightarrow> 'l list option res" where
  "store_rows prev total_outputs capacity buf new =
     (case buf of
        None \<Rightarrow> Inl Assert_failed
      | Some rows \<Rightarrow>
          if new = [] then Inr buf
          else rbind (guard (prev + length new \<le> total_outputs \<and> prev + length new \<le> capacity)
                       Assert_failed) (\<lambda>_.
            Inr (Some (write_loop rows prev ((!) new) (length new)))))"

text \<open>The first row of each sequence that has none yet.\<close>

definition store_seqs :: "(int \<Rightarrow> 'l) \<Rightarrow> int list \<Rightarrow> (int \<rightharpoonup> 'l) \<Rightarrow> (int \<rightharpoonup> 'l)" where
  "store_seqs f ss m = fold (\<lambda>s m. if m s = None then m(s \<mapsto> f s) else m) ss m"

definition extract_outputs ::
    "('e, 'l, 'd) llama_context \<Rightarrow> 'e llama_ubatch \<Rightarrow> ('e, 'l, 'd) graph_out \<Rightarrow> nat list \<Rightarrow> nat \<Rightarrow> nat
      \<Rightarrow> ('e, 'l, 'd) llama_context res" where
  "extract_outputs cx ub g ks prev tot =
     (if n_outputs cx = 0 then Inr cx
      else if \<not> cp_embeddings (cparams cx) then
        rbind (store_rows prev tot (output_size cx) (logits cx) (map (g_token g) ks)) (\<lambda>lg.
          Inr (cx\<lparr>logits := lg\<rparr>))
      else case cp_pooling (cparams cx) of
        Pool_none \<Rightarrow>
          rbind (store_rows prev tot (output_size cx) (embd cx) (map (g_token g) ks)) (\<lambda>em.
            Inr (cx\<lparr>embd := em\<rparr>))
      | Pool_unspecified \<Rightarrow> Inl Abort
      | _ \<Rightarrow> Inr (cx\<lparr>embd_seq := store_seqs (g_seq g)
               (map (\<lambda>s. ub_seq_id ub ! s ! 0) [0..<ub_n_seqs ub]) (embd_seq cx)\<rparr>))"

definition status_code :: "status \<Rightarrow> int" where
  "status_code s = (case s of St_success \<Rightarrow> 0 | St_aborted \<Rightarrow> 2 | St_alloc_failed \<Rightarrow> -2 | St_failed \<Rightarrow> -3)"

definition advance_head :: "llama_kv_cache \<Rightarrow> nat \<Rightarrow> llama_kv_cache" where
  "advance_head kv n =
     (let h = u32_add (head kv) n in kv\<lparr>head := (if kv_size kv \<le> h then 0 else h)\<rparr>)"

section \<open>Decoding\<close>

definition pooled :: "llama_cparams \<Rightarrow> bool" where
  "pooled cp \<longleftrightarrow> cp_embeddings cp \<and> cp_pooling cp \<noteq> Pool_none"

definition decode_split :: "('e::zero, 'l, 'd) llama_context \<Rightarrow> ('e llama_sbatch \<times> 'e llama_ubatch) res" where
  "decode_split cx =
     (if recurrent (kv_self cx) then
        (if pooled (cparams cx) then split_seq (sbatch cx) (cp_n_ubatch (cparams cx))
         else split_equal (sbatch cx) (cp_n_ubatch (cparams cx)))
      else split_simple (sbatch cx) (cp_n_ubatch (cparams cx)))"

text \<open>
  The body of the loop: \<open>Inl\<close> of the inner sum is an early return, \<open>Inr\<close> the state of
  the next turn (context, restorer, \<open>n_outputs_prev\<close>).
\<close>

definition decode_ubatch ::
    "('e::zero, 'l, 'd) backend \<Rightarrow> nat \<Rightarrow> nat \<Rightarrow> ('e, 'l, 'd) llama_context \<Rightarrow> slot_restorer \<Rightarrow> nat
      \<Rightarrow> (int \<times> ('e, 'l, 'd) llama_context + ('e, 'l, 'd) llama_context \<times> slot_restorer \<times> nat) res" where
  "decode_ubatch be tot n_all cx rs prev =
     rbind (decode_split cx) (\<lambda>(sb, ub).
     let n = ub_n_tokens ub;
         new = (if tot = n_all then n else count_if (\<lambda>k. ub_output ub ! k \<noteq> 0) [0..<n]);
         cx = cx\<lparr>sbatch := sb, n_outputs := new\<rparr>
     in rbind (guard (0 < (if n = 1 then cp_n_threads (cparams cx) else cp_n_threads_batch (cparams cx)))
                Assert_failed) (\<lambda>_.
        rbind (if m_causal_attn (model cx) then decode_slot be cx rs ub else Inr (cx, Some rs)) (\<lambda>(cx, slot).
        case slot of
          None \<Rightarrow> Inr (Inl (1, cx))
        | Some rs \<Rightarrow>
            rbind (out_tokens cx ub) (\<lambda>ks.
            let g = be_compute be (kv_self cx) (kv_rows cx) ub;
                cx = cx\<lparr>kv_rows := g_rows g\<rparr>
            in if g_status g \<noteq> St_success
               then Inr (Inl (status_code (g_status g), cx\<lparr>kv_self := restorer_restore rs (kv_self cx)\<rparr>))
               else
                 let cx = cx\<lparr>kv_self := advance_head (kv_self cx) n\<rparr>
                 in rbind (extract_outputs cx ub g ks prev tot) (\<lambda>cx. Inr (Inr (cx, rs, prev + n_outputs cx)))))))"

text \<open>"set output mappings" and the decision to defragment.\<close>

definition decode_finish :: "nat \<Rightarrow> ('e, 'l, 'd) llama_context \<Rightarrow> ('e, 'l, 'd) llama_context res" where
  "decode_finish tot cx =
     (let ids = sb_out_ids (sbatch cx) in
      rbind (guard (length ids = tot) Assert_failed) (\<lambda>_.
      let cx = cx\<lparr>output_ids := set_output_ids ids (output_ids cx),
                 sbatch := (if ids = [0..<tot] then (sbatch cx)\<lparr>sb_out_ids := []\<rparr> else sbatch cx),
                 n_outputs := tot\<rparr>;
          kv = kv_self cx
      in Inr (if cp_causal_attn (cparams cx) \<and> m_defrag_on (model cx) \<and> 128 \<le> kv_n kv
                 \<and> m_over_thold (model cx) (used kv) (kv_n kv)
              then cx\<lparr>kv_self := llama_kv_cache_defrag kv\<rparr> else cx)))"

partial_function (option) decode_loop ::
    "('e::zero, 'l, 'd) backend \<Rightarrow> nat \<Rightarrow> nat \<Rightarrow> ('e, 'l, 'd) llama_context \<Rightarrow> slot_restorer \<Rightarrow> nat
      \<Rightarrow> (int \<times> ('e, 'l, 'd) llama_context) res option" where
  "decode_loop be tot n_all cx rs prev =
     (if sb_n_tokens (sbatch cx) = 0
      then Some (rbind (decode_finish tot cx) (\<lambda>cx. Inr (0, cx)))
      else case decode_ubatch be tot n_all cx rs prev of
        Inl e \<Rightarrow> Some (Inl e)
      | Inr (Inl r) \<Rightarrow> Some (Inr r)
      | Inr (Inr (cx, rs, prev)) \<Rightarrow> decode_loop be tot n_all cx rs prev)"

declare decode_loop.simps [code]

definition tokens_valid :: "nat \<Rightarrow> 'e llama_batch \<Rightarrow> bool" where
  "tokens_valid n_vocab b =
     (case b_token b of None \<Rightarrow> True
      | Some ts \<Rightarrow> list_all (\<lambda>t. 0 \<le> t \<and> t < int n_vocab) (take (nat (b_n_tokens b)) ts))"

text \<open>The first position of a batch without positions: behind the last one in the cache.\<close>

definition decode_p0 :: "('e, 'l, 'd) llama_context \<Rightarrow> 'e llama_batch \<Rightarrow> int" where
  "decode_p0 cx inp = (if b_pos inp \<noteq> None then -1 else kv_max_pos (kv_self cx) + 1)"

definition count_outputs :: "('e, 'l, 'd) llama_context \<Rightarrow> 'e llama_batch \<Rightarrow> nat" where
  "count_outputs cx b =
     (let n = nat (b_n_tokens b) in
      case b_logits b of
        Some lg \<Rightarrow> if \<not> pooled (cparams cx) then count_if (\<lambda>x. x \<noteq> 0) (take n lg) else n
      | None \<Rightarrow> if cx_logits_all cx \<or> pooled (cparams cx) then n else 1)"

definition llama_decode_impl ::
    "('e::zero, 'l::zero, 'd) backend \<Rightarrow> ('e, 'l, 'd) llama_context \<Rightarrow> 'e llama_batch
      \<Rightarrow> (int \<times> ('e, 'l, 'd) llama_context) res option" where
  "llama_decode_impl be cx inp =
     (let cx = cx\<lparr>is_encoding := False\<rparr> in
      if b_n_tokens inp = 0 then Some (Inr (-1, cx))
      else case batch_allocr inp (decode_p0 cx inp) of
        Inl e \<Rightarrow> Some (Inl e)
      | Inr b \<Rightarrow>
          if (b_token b = None) = (b_embd b = None) then Some (Inl Assert_failed)
          else if \<not> tokens_valid (m_n_vocab (model cx)) b then Some (Inr (-1, cx))
          else let n_all = nat (b_n_tokens b); cp = cparams cx in
          if \<not> (n_all \<le> cp_n_batch cp \<and> (cp_causal_attn cp \<or> n_all \<le> cp_n_ubatch cp))
          then Some (Inl Assert_failed)
          else
            let cx = cx\<lparr>n_queued_tokens := n_queued_tokens cx + n_all, embd_seq := (\<lambda>_. None)\<rparr>;
                rs = restorer_init (kv_self cx);
                tot = count_outputs cx b
            in case from_batch (sbatch cx) b (\<not> recurrent (kv_self cx)) (tot = n_all) of
              Inl e \<Rightarrow> Some (Inl e)
            | Inr sb \<Rightarrow>
                let (room, cx) = llama_output_reserve be (cx\<lparr>sbatch := sb\<rparr>) tot
                in if room < tot then Some (Inr (-2, cx))
                   else decode_loop be tot n_all cx rs 0)"

section \<open>Encoding\<close>

definition llama_encode_impl ::
    "('e::zero, 'l::zero, 'd) backend \<Rightarrow> ('e, 'l, 'd) llama_context \<Rightarrow> 'e llama_batch
      \<Rightarrow> (int \<times> ('e, 'l, 'd) llama_context) res" where
  "llama_encode_impl be cx inp =
     (let cx = cx\<lparr>is_encoding := True\<rparr> in
      if b_n_tokens inp = 0 then Inr (-1, cx)
      else rbind (batch_allocr inp (decode_p0 cx inp)) (\<lambda>b.
      rbind (guard ((b_token b = None) \<noteq> (b_embd b = None)) Assert_failed) (\<lambda>_.
      if \<not> tokens_valid (m_n_vocab (model cx)) b then Inr (-1, cx)
      else let n = nat (b_n_tokens b); cp = cparams cx in
      rbind (guard (n \<le> cp_n_ubatch cp) Assert_failed) (\<lambda>_.
      let cx = cx\<lparr>n_queued_tokens := n_queued_tokens cx + n\<rparr> in
      rbind (from_batch (sbatch cx) b True True) (\<lambda>sb.
      rbind (split_simple sb n) (\<lambda>(sb, ub).
      let (room, cx) = llama_output_reserve be (cx\<lparr>sbatch := sb\<rparr>) n in
      if room < n then Inr (-2, cx)
      else
        let cx = cx\<lparr>output_ids := map int [0..<n] @ drop n (output_ids cx), n_outputs := n\<rparr> in
        rbind (guard (0 < (if n = 1 then cp_n_threads cp else cp_n_threads_batch cp)) Assert_failed) (\<lambda>_.
        let g = be_compute be (kv_self cx) (kv_rows cx) ub; cx = cx\<lparr>kv_rows := g_rows g\<rparr> in
        if g_status g \<noteq> St_success then Inr (status_code (g_status g), cx)
        else if m_has_decoder (model cx) then
          Inr (0, cx\<lparr>embd_enc := map (g_token g) [0..<n],
            seq_ids_enc := map (\<lambda>i. (if i < length (seq_ids_enc cx) then seq_ids_enc cx ! i else {}) \<union>
                set (take (nat (ub_n_seq_id ub ! i)) (ub_seq_id ub ! i))) [0..<n]\<rparr>)
        else if \<not> cp_embeddings cp then Inr (0, cx)
        else rbind (guard (embd cx \<noteq> None) Assert_failed) (\<lambda>_.
          case cp_pooling cp of
            Pool_none \<Rightarrow> rbind (store_rows 0 n (output_size cx) (embd cx) (map (g_token g) [0..<n]))
              (\<lambda>em. Inr (0, cx\<lparr>embd := em\<rparr>))
          | Pool_rank \<Rightarrow> Inl Abort
          | Pool_unspecified \<Rightarrow> Inl Abort
          | _ \<Rightarrow> Inr (0, cx\<lparr>embd_seq := store_seqs (g_seq g) (map (\<lambda>i. ub_seq_id ub ! i ! 0) [0..<n])
              (\<lambda>_. None)\<rparr>)))))))))"

end
