(* ===== verification/DecodeProps.thy ===== *)
theory DecodeProps
  imports Decode
begin

text \<open>
  What one turn of the decode loop keeps, for attention caches: the cache stays well
  formed and holds the entries of the tokens handed out so far, and the output buffer
  holds a row computed for each output token, in order.
\<close>

section \<open>Entries of rows\<close>

definition row_entries :: "'e row \<Rightarrow> (int \<times> int) set" where
  "row_entries r = (case r of (_, _, p, ids, _) \<Rightarrow> {(s, p) | s. s \<in> set ids})"

lemma ubatch_entries_rows: "ubatch_entries ub = (\<Union>r \<in> set (ub_rows ub). row_entries r)"
  by (auto simp: ubatch_entries_def ub_rows_def ub_row_def row_entries_def token_ids_def seq_id_list_def)

lemma ub_row_out: "snd (snd (snd (snd (ub_row ub k)))) = ub_output ub ! k"
  by (simp add: ub_row_def)

section \<open>The cache side\<close>

definition cache_ok :: "('e, 'l, 'd) llama_context \<Rightarrow> bool" where
  "cache_ok cx \<longleftrightarrow> kv_ok (kv_self cx) \<and> length (kv_rows cx) = kv_size (kv_self cx) \<and>
     (has_shift (kv_self cx) \<longrightarrow> llama_kv_cache_can_shift (kv_self cx))"

lemma find_slot_attn_keeps:
  assumes "llama_kv_cache_find_slot kv ub = Inr (kv', si)" "\<not> recurrent kv"
  shows "kv_size kv' = kv_size kv" "has_shift kv' = has_shift kv" "can_shift kv' = can_shift kv"
  using assms
  by (auto simp: llama_kv_cache_find_slot_def find_slot_attn_def Let_def
      split: option.splits if_splits bool.splits prod.splits)

lemma kv_ok_head_n: "kv_ok kv \<Longrightarrow> h \<le> kv_size kv \<Longrightarrow> kv_ok (kv\<lparr>head := h, kv_n := n\<rparr>)"
  by (simp add: kv_ok_def)

lemma restore_ok:
  assumes "kv_ok kv" "old_head rs \<le> kv_size kv"
  shows "kv_ok (restorer_restore rs kv)"
proof (cases "do_restore rs")
  case True
  let ?f = "\<lambda>b kv. snd (llama_kv_cache_seq_rm kv (-1) (int (fst b)) (int (snd b)))"
  have "kv_ok (fold ?f bs kv')" if "kv_ok kv'" for bs kv'
    using that by (induction bs arbitrary: kv') (simp_all add: rm_ok)
  then show ?thesis
    using True kv_ok_head_n[OF assms] kv_okD(1)[OF assms(1)]
    by (simp add: restorer_restore_def Let_def)
qed (use assms in \<open>simp add: restorer_restore_def\<close>)

lemma advance_head_ok: "kv_ok kv \<Longrightarrow> kv_ok (advance_head kv n)"
  by (simp add: advance_head_def kv_ok_def Let_def)

lemma decode_slot_spec:
  assumes ok: "cache_ok cx" "old_head rs \<le> kv_size (kv_self cx)"
    and ub: "ubatch_ok ub"
  shows "\<exists>kv rows slot. decode_slot be cx rs ub = Inr (cx\<lparr>kv_self := kv, kv_rows := rows\<rparr>, slot) \<and>
    cache_ok (cx\<lparr>kv_self := kv, kv_rows := rows\<rparr>) \<and> kv_size kv = kv_size (kv_self cx) \<and>
    (\<forall>rs'. slot = Some rs' \<longrightarrow> old_head rs' = old_head rs \<and>
       kv_entries kv = kv_entries (kv_self cx) \<union> ubatch_entries ub)"
proof -
  have kv: "kv_ok (kv_self cx)" "length (kv_rows cx) = kv_size (kv_self cx)"
    "has_shift (kv_self cx) \<longrightarrow> llama_kv_cache_can_shift (kv_self cx)"
    using ok(1) by (simp_all add: cache_ok_def)
  obtain kv1 rows where u: "llama_kv_cache_update_impl (be_shift be) (m_rope (model cx)) (m_max_moves (model cx))
              (kv_self cx) (kv_rows cx) = Inr (kv1, rows)" "kv_ok kv1" "kv_entries kv1 = kv_entries (kv_self cx)"
      "\<not> has_shift kv1" "length rows = kv_size (kv_self cx)" "kv_size kv1 = kv_size (kv_self cx)"
    using update_impl_spec[OF kv] by blast
  define kv2 where "kv2 = (if u32_add (used kv1) (2 * ub_n_tokens ub) < head kv1 then kv1\<lparr>head := 0\<rparr> else kv1)"
  have kv2: "kv_ok kv2" "kv_entries kv2 = kv_entries kv1" "\<not> has_shift kv2" "kv_size kv2 = kv_size kv1"
    using u(2,4) by (auto simp: kv2_def kv_ok_def kv_entries_def)
  obtain kv3 si where f: "llama_kv_cache_find_slot kv2 ub = Inr (kv3, si)" "kv_ok kv3"
    "found si \<Longrightarrow> kv_entries kv3 = kv_entries kv2 \<union> ubatch_entries ub"
    using find_slot_spec[OF kv2(1) ub] by metis
  note keep = find_slot_attn_keeps[OF f(1) kv_okD(1)[OF kv2(1)]]
  define pad where "pad = llama_kv_cache_get_padding (cp_flash_attn (cparams cx))"
  define kv4 where "kv4 = kv3\<lparr>kv_n := min (kv_size kv3) (max pad (ggml_pad (llama_kv_cache_cell_max kv3) pad))\<rparr>"
  have kv4: "kv_ok kv4" "kv_entries kv4 = kv_entries kv3" "kv_size kv4 = kv_size kv3"
    "has_shift kv4 = has_shift kv3"
    using f(2) by (simp_all add: kv4_def kv_ok_def kv_entries_def)
  have run: "decode_slot be cx rs ub =
      (if found si then Inr (cx\<lparr>kv_self := kv4, kv_rows := rows\<rparr>, Some (restorer_save rs si))
       else Inr (cx\<lparr>kv_self := kv3, kv_rows := rows\<rparr>, None))"
    using u(1) f(1) kv_okD(1)[OF f(2)]
    by (simp add: decode_slot_def Let_def kv2_def[symmetric] kv4_def pad_def)
  have sz: "kv_size kv3 = kv_size (kv_self cx)" "\<not> has_shift kv3"
    using keep kv2(3,4) u(6) by simp_all
  have co: "cache_ok (cx\<lparr>kv_self := kv3, kv_rows := rows\<rparr>)" "cache_ok (cx\<lparr>kv_self := kv4, kv_rows := rows\<rparr>)"
    using sz f(2) u(5) kv4 by (simp_all add: cache_ok_def)
  show ?thesis
  proof (cases "found si")
    case True
    then show ?thesis
      using run co(2) kv4 sz f(3) kv2(2) u(3)
      by (intro exI[of _ kv4] exI[of _ rows] exI[of _ "Some (restorer_save rs si)"])
        (simp add: restorer_save_def)
  next
    case False
    then show ?thesis
      using run co(1) sz by (intro exI[of _ kv3] exI[of _ rows] exI[of _ None]) simp
  qed
qed

section \<open>The output side\<close>

text \<open>
  \<open>row_for be all b E0 n t l\<close>: \<open>l\<close> is what the graph answered for token \<open>t\<close> of the batch.  The
  run that computed it had as its rows a consecutive stretch of at most \<open>n\<close> tokens of the batch with
  \<open>t\<close> among them, on a well-formed cache that held the entries \<open>E0\<close> from before the decode
  and those of the batch up to the end of that stretch, and nothing else.
\<close>

definition row_for ::
    "('e, 'l, 'd) backend \<Rightarrow> bool \<Rightarrow> 'e llama_batch \<Rightarrow> (int \<times> int) set \<Rightarrow> nat \<Rightarrow> nat \<Rightarrow> 'l \<Rightarrow> bool" where
  "row_for be all b E0 n t l \<longleftrightarrow> (\<exists>kv rows ub s m.
     s \<le> t \<and> t < s + m \<and> s + m \<le> nat (b_n_tokens b) \<and> m \<le> n \<and>
     ub_n_tokens ub = m \<and> ub_rows ub = map (batch_row all b) [s..<s + m] \<and>
     kv_ok kv \<and> kv_entries kv = E0 \<union> (\<Union>j < s + m. row_entries (batch_row all b j)) \<and>
     length rows = kv_size kv \<and> l = g_token (be_compute be kv rows ub) (t - s))"

lemma map_filter_upt: "map ((!) xs) (filter (\<lambda>k. P (xs ! k)) [0..<length xs]) = filter P xs"
proof -
  have "map ((!) xs) (filter (P \<circ> (!) xs) [0..<length xs]) = filter P (map ((!) xs) [0..<length xs])"
    by (simp only: filter_map)
  then show ?thesis by (simp add: map_nth comp_def)
qed

text \<open>The tokens the graph outputs are the flagged ones.\<close>

lemma out_tokens_flagged:
  assumes "m_causal_attn (model cx)"
    and "n_outputs cx = length (filter (\<lambda>k. ub_output ub ! k \<noteq> 0) [0..<ub_n_tokens ub])"
  shows "out_tokens cx ub = Inr (filter (\<lambda>k. ub_output ub ! k \<noteq> 0) [0..<ub_n_tokens ub])"
proof (cases "n_outputs cx = ub_n_tokens ub")
  case True
  then have "filter (\<lambda>k. ub_output ub ! k \<noteq> 0) [0..<ub_n_tokens ub] = [0..<ub_n_tokens ub]"
    using assms(2) by (metis diff_zero filter_id_conv length_filter_less length_upt nat_neq_iff)
  then show ?thesis using True assms by (simp add: out_tokens_def)
qed (use assms in \<open>simp add: out_tokens_def\<close>)

lemma store_rows_ok:
  assumes "buf = Some L" "prev + length new \<le> tot" "tot \<le> cap" "length L = cap"
  shows "\<exists>L'. store_rows prev tot cap buf new = Inr (Some L') \<and> length L' = cap \<and>
    take (prev + length new) L' = take prev L @ new"
proof (cases "new = []")
  case False
  have "map ((!) new) [0..<length new] = new" by (rule map_nth)
  then show ?thesis
    using assms False take_write_loop[of prev "length new" L "(!) new"]
    by (auto simp: store_rows_def)
qed (use assms in \<open>simp add: store_rows_def\<close>)

section \<open>One turn of the loop\<close>

text \<open>What the decode of an attention cache without embeddings assumes of its surroundings.\<close>

definition decode_env :: "('e, 'l, 'd) backend \<Rightarrow> llama_cparams \<Rightarrow> llama_model_info \<Rightarrow> bool" where
  "decode_env be cp md \<longleftrightarrow>
     (\<forall>kv rows ub. length (g_rows (be_compute be kv rows ub)) = length rows) \<and>
     m_causal_attn md \<and> \<not> cp_embeddings cp \<and> 0 < cp_n_threads cp \<and> 0 < cp_n_threads_batch cp \<and>
     0 < cp_n_ubatch cp"

definition flagged :: "bool \<Rightarrow> 'e llama_batch \<Rightarrow> nat \<Rightarrow> bool" where
  "flagged all b t \<longleftrightarrow> out_flag all b t \<noteq> 0"

definition turn_ok ::
    "('e, 'l, 'd) backend \<Rightarrow> 'e llama_batch \<Rightarrow> bool \<Rightarrow> (int \<times> int) set \<Rightarrow> nat \<Rightarrow> ('e, 'l, 'd) llama_context
      \<Rightarrow> slot_restorer \<Rightarrow> nat \<Rightarrow> bool" where
  "turn_ok be b all E0 n cx rs prev \<longleftrightarrow>
     (let N = nat (b_n_tokens b); sb = sbatch cx in
      cp_n_ubatch (cparams cx) = n \<and>
      cache_ok cx \<and> old_head rs \<le> kv_size (kv_self cx) \<and> decode_env be (cparams cx) (model cx) \<and>
      simple_ok b sb \<and> sb_logits_all sb = all \<and> prev = length (sb_out_ids sb) \<and>
      sb_out_ids sb @ filter (flagged all b) (pending sb) = filter (flagged all b) [0..<N] \<and>
      (\<exists>L. logits cx = Some L \<and> length L = output_size cx \<and>
         (\<forall>p < prev. row_for be all b E0 n (sb_out_ids sb ! p) (L ! p))) \<and>
      length (filter (flagged all b) [0..<N]) \<le> output_size cx \<and>
      output_ids cx = replicate (length (output_ids cx)) (-1) \<and> N \<le> length (output_ids cx) \<and>
      (\<exists>D. D @ pending sb = [0..<N] \<and>
         kv_entries (kv_self cx) = E0 \<union> (\<Union>t \<in> set D. row_entries (batch_row all b t))))"

lemma ub_output_flag:
  assumes "ub_rows ub = map (batch_row all b) ts" "k < length ts" "ub_n_tokens ub = length ts"
  shows "ub_row ub k = batch_row all b (ts ! k)" "ub_output ub ! k = out_flag all b (ts ! k)"
proof -
  have "ub_rows ub ! k = batch_row all b (ts ! k)" using assms by simp
  then show "ub_row ub k = batch_row all b (ts ! k)" using assms by (simp add: ub_rows_def)
  then show "ub_output ub ! k = out_flag all b (ts ! k)"
    using ub_row_out[of ub k] by (simp add: batch_row_def)
qed

text \<open>The flagged tokens of a micro-batch, as places and as batch indices.\<close>

lemma flagged_places:
  assumes "ub_rows ub = map (batch_row all b) ts" "ub_n_tokens ub = length ts"
  shows "map ((!) ts) (filter (\<lambda>k. ub_output ub ! k \<noteq> 0) [0..<ub_n_tokens ub]) = filter (flagged all b) ts"
proof -
  have "filter (\<lambda>k. ub_output ub ! k \<noteq> 0) [0..<ub_n_tokens ub] =
      filter (\<lambda>k. flagged all b (ts ! k)) [0..<length ts]"
    using ub_output_flag(2)[OF assms(1) _ assms(2)] assms(2)
    by (intro filter_cong) (auto simp: flagged_def)
  then show ?thesis by (simp add: map_filter_upt)
qed

lemma split_result_ubatch_ok:
  assumes ok: "batch_ok b" and r: "split_result b sb n sb' ub ts"
    and pos: "\<forall>t < nat (b_n_tokens b). 0 \<le> the (b_pos b) ! t" and ts: "set ts \<subseteq> {..<nat (b_n_tokens b)}"
  shows "ubatch_ok ub"
proof -
  note r = r[unfolded split_result_def]
  have "0 \<le> ub_pos ub ! k" if "k < ub_n_tokens ub" for k
  proof -
    have "ub_row ub k = batch_row (sb_logits_all sb) b (ts ! k)"
      using ub_output_flag(1) r \<open>k < ub_n_tokens ub\<close> by metis
    then have "ub_pos ub ! k = the (b_pos b) ! (ts ! k)" by (simp add: ub_row_def batch_row_def)
    moreover have "ts ! k < nat (b_n_tokens b)"
      using ts r \<open>k < ub_n_tokens ub\<close> by (metis lessThan_iff nth_mem subsetD)
    ultimately show ?thesis using pos by simp
  qed
  then show ?thesis
    using r by (simp add: ubatch_ok_def ub_seqs_ok_def) (metis mult.commute)
qed

lemma n_outputs_new:
  assumes "ub_rows ub = map (batch_row all b) ts" "ub_n_tokens ub = length ts" "length ts \<le> n_all"
    and all: "all \<longleftrightarrow> tot = n_all"
  shows "(if tot = n_all then ub_n_tokens ub
      else count_if (\<lambda>k. ub_output ub ! k \<noteq> 0) [0..<ub_n_tokens ub]) =
    length (filter (\<lambda>k. ub_output ub ! k \<noteq> 0) [0..<ub_n_tokens ub])"
proof (cases "tot = n_all")
  case True
  then have "filter (\<lambda>k. ub_output ub ! k \<noteq> 0) [0..<ub_n_tokens ub] = [0..<ub_n_tokens ub]"
    using ub_output_flag(2)[OF assms(1) _ assms(2)] assms(2) all
    by (intro filter_True) (simp add: out_flag_def)
  then show ?thesis using True by simp
qed (simp add: count_if_def)

lemma store_turn:
  assumes L: "logits cx = Some L" "length L = output_size cx"
    "\<forall>p < length out. R (out ! p) (L ! p)"
    and ub: "ub_rows ub = map (batch_row all b) ts" "ub_n_tokens ub = length ts"
    and ks: "ks = filter (\<lambda>k. ub_output ub ! k \<noteq> 0) [0..<ub_n_tokens ub]" "n_outputs cx = length ks"
    and fit: "length out + length ks \<le> tot" "tot \<le> output_size cx"
    and cp: "\<not> cp_embeddings (cparams cx)" and g: "\<And>k. k < length ts \<Longrightarrow> R (ts ! k) (g_token g k)"
  shows "\<exists>L'. extract_outputs cx ub g ks (length out) tot = Inr (cx\<lparr>logits := Some L'\<rparr>) \<and>
    length L' = output_size cx \<and>
    (\<forall>p < length out + length ks. R ((out @ filter (flagged all b) ts) ! p) (L' ! p))"
proof (cases "ks = []")
  case True
  then have "filter (flagged all b) ts = []"
    using flagged_places[OF ub] ks(1) by simp
  then show ?thesis
    using True L ks(2) by (intro exI[of _ L]) (simp add: extract_outputs_def)
next
  case False
  obtain L' where L': "store_rows (length out) tot (output_size cx) (logits cx) (map (g_token g) ks) = Inr (Some L')"
    "length L' = output_size cx" "take (length out + length ks) L' = take (length out) L @ map (g_token g) ks"
    using store_rows_ok[OF L(1), of "length out" "map (g_token g) ks" tot "output_size cx"] fit L(2) by auto
  have new: "map ((!) ts) ks = filter (flagged all b) ts"
    using flagged_places[OF ub] ks(1) by simp
  have "R ((out @ filter (flagged all b) ts) ! p) (L' ! p)"
    if p: "p < length out + length ks" for p
  proof -
    have at: "L' ! p = (take (length out) L @ map (g_token g) ks) ! p"
      using L'(3) p by (metis nth_take)
    show ?thesis
    proof (cases "p < length out")
      case True
      then show ?thesis using at L fit by (simp add: nth_append)
    next
      case no: False
      define i where "i = p - length out"
      have i: "i < length ks" using p no i_def by simp
      then have k: "ks ! i < ub_n_tokens ub" using ks(1) nth_mem by fastforce
      have "(out @ filter (flagged all b) ts) ! p = ts ! (ks ! i)"
        using no i unfolding new[symmetric] by (simp add: nth_append i_def)
      moreover have "L' ! p = g_token g (ks ! i)"
        using at no i L(2) fit by (simp add: nth_append i_def)
      ultimately show ?thesis using g[of "ks ! i"] k ub(2) by simp
    qed
  qed
  then show ?thesis
    using L' False ks(2) cp by (intro exI[of _ L']) (simp add: extract_outputs_def)
qed

lemma decode_turn:
  assumes ok: "batch_ok b" "turn_ok be b all E0 n cx rs prev" and left: "0 < sb_n_tokens (sbatch cx)"
    and pos: "\<forall>t < nat (b_n_tokens b). 0 \<le> the (b_pos b) ! t"
    and tot: "tot = length (filter (flagged all b) [0..<nat (b_n_tokens b)])"
    and n_all: "n_all = nat (b_n_tokens b)" "all \<longleftrightarrow> tot = n_all"
  shows "(\<exists>ret cx'. decode_ubatch be tot n_all cx rs prev = Inr (Inl (ret, cx')) \<and>
        ret \<in> {1, 2, -2, -3} \<and> kv_ok (kv_self cx')) \<or>
    (\<exists>cx' rs' prev'. decode_ubatch be tot n_all cx rs prev = Inr (Inr (cx', rs', prev')) \<and>
        turn_ok be b all E0 n cx' rs' prev' \<and> sb_n_tokens (sbatch cx') < sb_n_tokens (sbatch cx))"
proof -
  let ?N = "nat (b_n_tokens b)" and ?sb = "sbatch cx" and ?F = "filter (flagged all b)"
  let ?R = "row_for be all b E0 n"
  note t = ok(2)[unfolded turn_ok_def Let_def]
  have env: "decode_env be (cparams cx) (model cx)" and cache: "cache_ok cx"
    and head: "old_head rs \<le> kv_size (kv_self cx)" and so: "simple_ok b ?sb"
    and prev: "prev = length (sb_out_ids ?sb)" and alleq: "sb_logits_all ?sb = all"
    and out: "sb_out_ids ?sb @ ?F (pending ?sb) = ?F [0..<?N]"
    and cap: "length (?F [0..<?N]) \<le> output_size cx" and nub: "cp_n_ubatch (cparams cx) = n"
    using t by blast+
  note e = env[unfolded decode_env_def]
  obtain L where L: "logits cx = Some L" "length L = output_size cx"
    "\<forall>p < prev. ?R (sb_out_ids ?sb ! p) (L ! p)" using t by blast
  obtain D where D: "D @ pending ?sb = [0..<?N]"
    "kv_entries (kv_self cx) = E0 \<union> (\<Union>t \<in> set D. row_entries (batch_row all b t))" using t by blast
  have nrec: "\<not> recurrent (kv_self cx)" using cache by (simp add: cache_ok_def kv_ok_def)
  obtain sb' ub ts where s: "split_simple ?sb (cp_n_ubatch (cparams cx)) = Inr (sb', ub)" "simple_ok b sb'"
    "split_result b ?sb (cp_n_ubatch (cparams cx)) sb' ub ts" "pending ?sb = ts @ pending sb'"
    using split_simple_step[OF ok(1) so left] e by blast
  note r = s(3)[unfolded split_result_def]
  have ub: "ub_rows ub = map (batch_row all b) ts" "ub_n_tokens ub = length ts" using r alleq by simp_all
  have eq: "D @ ts @ pending sb' = [0..<?N]" using D(1) s(4) by simp
  have "set (D @ ts @ pending sb') = set [0..<?N]" "length (D @ ts @ pending sb') = length [0..<?N]"
    by (simp_all only: eq)
  then have tsN: "set ts \<subseteq> {..<?N}" "length ts \<le> n_all"
    unfolding n_all(1) by auto
  have "take (length ts) (drop (length D) (D @ ts @ pending sb')) = take (length ts) (drop (length D) [0..<?N])"
    by (simp only: eq)
  moreover have len: "length D + length ts \<le> ?N" using arg_cong[OF eq, of length] by simp
  ultimately have ts: "ts = [length D..<length D + length ts]" by simp
  have "take (length D) (D @ ts @ pending sb') = take (length D) [0..<?N]" by (simp only: eq)
  then have Dset: "D = [0..<length D]" using len by simp
  have uok: "ubatch_ok ub" by (rule split_result_ubatch_ok[OF ok(1) s(3) pos tsN(1)])
  define ks where "ks = filter (\<lambda>k. ub_output ub ! k \<noteq> 0) [0..<ub_n_tokens ub]"
  have new: "(if tot = n_all then ub_n_tokens ub
      else count_if (\<lambda>k. ub_output ub ! k \<noteq> 0) [0..<ub_n_tokens ub]) = length ks"
    unfolding ks_def by (rule n_outputs_new[OF ub tsN(2) n_all(2)])
  let ?cx1 = "cx\<lparr>sbatch := sb', n_outputs := length ks\<rparr>"
  have split: "decode_split cx = Inr (sb', ub)" using s(1) nrec by (simp add: decode_split_def)
  have c1: "cache_ok ?cx1" "old_head rs \<le> kv_size (kv_self ?cx1)"
    using cache head by (simp_all add: cache_ok_def)
  obtain kv rows slot where sl:
    "decode_slot be ?cx1 rs ub = Inr (?cx1\<lparr>kv_self := kv, kv_rows := rows\<rparr>, slot)"
    "cache_ok (?cx1\<lparr>kv_self := kv, kv_rows := rows\<rparr>)" "kv_size kv = kv_size (kv_self ?cx1)"
    "\<forall>rs'. slot = Some rs' \<longrightarrow> old_head rs' = old_head rs \<and>
       kv_entries kv = kv_entries (kv_self ?cx1) \<union> ubatch_entries ub"
    using decode_slot_spec[OF c1 uok] by blast
  let ?cx2 = "?cx1\<lparr>kv_self := kv, kv_rows := rows\<rparr>"
  have kvok: "kv_ok kv" using sl(2) by (simp add: cache_ok_def)
  show ?thesis
  proof (cases slot)
    case None
    then have "decode_ubatch be tot n_all cx rs prev = Inr (Inl (1, ?cx2))"
      using split new sl(1) e by (simp add: decode_ubatch_def Let_def)
    then show ?thesis using kvok by auto
  next
    case (Some rs')
    have sl4: "old_head rs' = old_head rs" "kv_entries kv = kv_entries (kv_self cx) \<union> ubatch_entries ub"
      using sl(4) Some by simp_all
    define g where "g = be_compute be kv rows ub"
    have ot: "out_tokens ?cx2 ub = Inr ks"
      using out_tokens_flagged[of ?cx2 ub] e by (simp add: ks_def)
    have unf: "decode_ubatch be tot n_all cx rs prev =
      (let cx = ?cx2\<lparr>kv_rows := g_rows g\<rparr>
       in if g_status g \<noteq> St_success
          then Inr (Inl (status_code (g_status g), cx\<lparr>kv_self := restorer_restore rs' kv\<rparr>))
          else rbind (extract_outputs (cx\<lparr>kv_self := advance_head kv (ub_n_tokens ub)\<rparr>) ub g ks prev tot)
            (\<lambda>cx. Inr (Inr (cx, rs', prev + n_outputs cx))))"
      using split new sl(1) ot e Some by (simp add: decode_ubatch_def Let_def g_def)
    show ?thesis
    proof (cases "g_status g = St_success")
      case False
      moreover have "kv_ok (restorer_restore rs' kv)"
        using restore_ok[OF kvok] sl4 head sl(3) by simp
      moreover have "status_code (g_status g) \<in> {2, -2, -3}"
        using False by (cases "g_status g") (simp_all add: status_code_def)
      ultimately show ?thesis using unf by (simp add: Let_def)
    next
      case True
      let ?cx3 = "?cx2\<lparr>kv_rows := g_rows g, kv_self := advance_head kv (ub_n_tokens ub)\<rparr>"
      have fl: "length ks = length (?F ts)"
        using flagged_places[OF ub] ks_def by (metis length_map)
      have outs: "sb_out_ids sb' = sb_out_ids ?sb @ ?F ts"
        using r alleq by (simp add: flagged_def[abs_def])
      have rest: "sb_out_ids sb' @ ?F (pending sb') = ?F [0..<?N]"
        using out outs s(4) by simp
      have fit: "length (sb_out_ids ?sb) + length ks \<le> tot"
        using arg_cong[OF rest, of length] outs fl tot by simp
      have own: "?R (ts ! k) (g_token g k)" if k: "k < length ts" for k
      proof -
        have "kv_entries kv = E0 \<union> (\<Union>j < length D + length ts. row_entries (batch_row all b j))"
        proof -
          have "set D \<union> set ts = {..<length D + length ts}"
            by (subst Dset, subst ts) (auto simp: not_less)
          then have "(\<Union>j \<in> set D. row_entries (batch_row all b j)) \<union> (\<Union>j \<in> set ts. row_entries (batch_row all b j)) =
              (\<Union>j < length D + length ts. row_entries (batch_row all b j))"
            by (simp only: UN_Un[symmetric])
          then show ?thesis
            using sl4(2) D(2) ubatch_entries_rows[of ub] ub(1) by auto
        qed
        moreover have "length rows = kv_size kv" using sl(2) by (simp add: cache_ok_def)
        moreover have "ub_rows ub = map (batch_row all b) [length D..<length D + length ts]"
          using ub(1) ts by simp
        moreover have "ts ! k = length D + k" using k by (subst ts) simp
        moreover have "length ts \<le> n" using r ub(2) nub by simp
        ultimately show ?thesis
          unfolding row_for_def using k len ub(2) kvok g_def
          by (intro exI[of _ kv] exI[of _ rows] exI[of _ ub] exI[of _ "length D"] exI[of _ "length ts"]) simp
      qed
      obtain L' where L': "extract_outputs ?cx3 ub g ks prev tot = Inr (?cx3\<lparr>logits := Some L'\<rparr>)"
        "length L' = output_size cx"
        "\<forall>p < prev + length ks. ?R ((sb_out_ids ?sb @ ?F ts) ! p) (L' ! p)"
        using store_turn[of ?cx3 L "sb_out_ids ?sb" ?R ub all b ts ks tot g]
          L ub ks_def fit cap tot e prev own by auto
      let ?cx4 = "?cx3\<lparr>logits := Some L'\<rparr>"
      have "decode_ubatch be tot n_all cx rs prev = Inr (Inr (?cx4, rs', prev + length ks))"
        using unf True L'(1) by (simp add: Let_def)
      moreover have "turn_ok be b all E0 n ?cx4 rs' (prev + length ks)"
      proof -
        have ent: "kv_entries (advance_head kv m) = kv_entries kv" "kv_size (advance_head kv m) = kv_size kv"
          "has_shift (advance_head kv m) = has_shift kv" "can_shift (advance_head kv m) = can_shift kv" for m
          by (simp_all add: advance_head_def kv_entries_def Let_def)
        have "cache_ok ?cx4"
          using sl(2) e advance_head_ok[OF kvok]
          by (simp add: cache_ok_def ent llama_kv_cache_can_shift_def g_def)
        moreover have "\<exists>D. D @ pending sb' = [0..<?N] \<and> kv_entries (advance_head kv (ub_n_tokens ub)) =
            E0 \<union> (\<Union>t \<in> set D. row_entries (batch_row all b t))"
          using eq sl4(2) D(2) ubatch_entries_rows[of ub] ub(1)
          by (intro exI[of _ "D @ ts"]) (auto simp: ent(1))
        moreover have "sb_logits_all sb' = all" using r alleq by simp
        moreover have "prev + length ks = length (sb_out_ids sb')" using outs fl prev by simp
        moreover have "\<forall>p < prev + length ks. ?R (sb_out_ids sb' ! p) (L' ! p)"
          using L'(3) outs by simp
        moreover have "old_head rs' \<le> kv_size (advance_head kv (ub_n_tokens ub))"
          using sl(3) sl4(1) head ent(2) by simp
        moreover have "output_ids cx = replicate (length (output_ids cx)) (-1)" "?N \<le> length (output_ids cx)"
          using t by blast+
        ultimately show ?thesis
          using env s(2) rest L'(2) cap nub unfolding turn_ok_def Let_def by simp
      qed
      moreover have "sb_n_tokens sb' < sb_n_tokens ?sb" using r by (cases ts) auto
      ultimately show ?thesis by auto
    qed
  qed
qed

end
