(* ===== verification/DecodeTheorems.thy ===== *)
theory DecodeTheorems
  imports DecodeProps
begin

text \<open>
  The properties of evaluating a batch: the reordering of the outputs, and what a decode
  leaves in the cache and in the output buffer.
\<close>

section \<open>Reordering\<close>

lemma length_swap_at [simp]: "length (swap_at i j xs) = length xs"
  by (simp add: swap_at_def)










lemma length_set_output_ids [simp]: "length (set_output_ids ids xs) = length xs"
proof -
  have "length (fold (\<lambda>(i, t) xs. xs[t := int i]) zs xs) = length xs" for zs :: "(nat \<times> nat) list" and xs
    by (induction zs arbitrary: xs) auto
  then show ?thesis by (simp add: set_output_ids_def)
qed

lemma set_output_ids_snoc:
  "set_output_ids (ids @ [t]) xs = (set_output_ids ids xs)[t := int (length ids)]"
  by (simp add: set_output_ids_def zip_append1 split: prod.splits)

lemma set_output_ids_other: "t \<notin> set ids \<Longrightarrow> set_output_ids ids xs ! t = xs ! t"
  by (induction ids rule: rev_induct) (simp_all add: set_output_ids_snoc, simp add: set_output_ids_def)

lemma set_output_ids_at:
  assumes "distinct ids" "i < length ids" "ids ! i < length xs"
  shows "set_output_ids ids xs ! (ids ! i) = int i"
  using assms
proof (induction ids rule: rev_induct)
  case (snoc u ids)
  show ?case
  proof (cases "i = length ids")
    case False
    then have "i < length ids" using snoc.prems(2) by simp
    moreover from this have "ids ! i \<noteq> u" using snoc.prems(1) nth_mem by fastforce
    ultimately show ?thesis
      using snoc by (simp add: set_output_ids_snoc nth_append)
  qed (use snoc.prems in \<open>simp add: set_output_ids_snoc\<close>)
qed simp


lemma output_row_known:
  assumes "distinct ids" "n_outputs cx = length ids" "\<forall>t \<in> set ids. t < length (output_ids cx)"
    and "output_ids cx = set_output_ids ids (replicate (length (output_ids cx)) (-1))"
  shows "i < length ids \<Longrightarrow> output_row cx (int (ids ! i)) = Inr i"
    and "t \<notin> set ids \<Longrightarrow> isl (output_row cx (int t))"
proof -
  show "output_row cx (int (ids ! i)) = Inr i" if i: "i < length ids"
  proof -
    have l: "ids ! i < length (output_ids cx)" using assms(3) i by simp
    then have "output_ids cx ! (ids ! i) = int i"
      using set_output_ids_at[OF assms(1) i, of "replicate (length (output_ids cx)) (-1)"] assms(4)
      by (metis length_replicate)
    then show ?thesis using l i assms(2) by (simp add: output_row_def)
  qed
  show "isl (output_row cx (int t))" if t: "t \<notin> set ids"
  proof (cases "t < length (output_ids cx)")
    case True
    then have "output_ids cx ! t = -1"
      using set_output_ids_other[OF t, of "replicate (length (output_ids cx)) (-1)"] assms(4)
      by (metis nth_replicate)
    then show ?thesis using True by (simp add: output_row_def)
  qed (simp add: output_row_def)
qed







section \<open>Decoding\<close>

text \<open>What a decode that returned 0 leaves behind.\<close>

definition decoded ::
    "('e, 'l, 'd) backend \<Rightarrow> 'e llama_batch \<Rightarrow> bool \<Rightarrow> (int \<times> int) set \<Rightarrow> nat
      \<Rightarrow> ('e, 'l, 'd) llama_context \<Rightarrow> bool" where
  "decoded be b all E0 n cx \<longleftrightarrow>
     kv_entries (kv_self cx) = E0 \<union> (\<Union>t < nat (b_n_tokens b). row_entries (batch_row all b t)) \<and>
     (\<forall>t < nat (b_n_tokens b). if flagged all b t
        then \<exists>l. llama_get_logits_ith cx (int t) = Some l \<and> row_for be all b E0 n t l
        else llama_get_logits_ith cx (int t) = None)"

lemma decode_finish_spec:
  assumes ok: "turn_ok be b all E0 n cx rs prev" and none: "sb_n_tokens (sbatch cx) = 0"
    and tot: "tot = length (filter (flagged all b) [0..<nat (b_n_tokens b)])"
  shows "\<exists>cx'. decode_finish tot cx = Inr cx' \<and> kv_ok (kv_self cx') \<and> decoded be b all E0 n cx'"
proof -
  let ?N = "nat (b_n_tokens b)" and ?ids = "filter (flagged all b) [0..<nat (b_n_tokens b)]"
  note t = ok[unfolded turn_ok_def Let_def]
  have "simple_ok b (sbatch cx)" using t by blast
  then have "length (pending (sbatch cx)) = 0"
    using none by (auto simp: simple_ok_def length_pending)
  then have pend: "pending (sbatch cx) = []" by simp
  then have ids: "sb_out_ids (sbatch cx) = ?ids"
    using t by (metis append_Nil2 filter.simps(1))
  obtain L where L: "logits cx = Some L" "length L = output_size cx"
    "\<forall>p < prev. row_for be all b E0 n (sb_out_ids (sbatch cx) ! p) (L ! p)" using t by blast
  have prev: "prev = tot" using t ids tot by metis
  obtain D where "D @ pending (sbatch cx) = [0..<?N]"
    "kv_entries (kv_self cx) = E0 \<union> (\<Union>t \<in> set D. row_entries (batch_row all b t))" using t by blast
  then have ent: "kv_entries (kv_self cx) = E0 \<union> (\<Union>t < ?N. row_entries (batch_row all b t))"
    using pend by (simp add: atLeast0LessThan)
  have kv: "kv_ok (kv_self cx)" using t by (simp add: cache_ok_def)
  define cx1 where "cx1 = cx\<lparr>output_ids := set_output_ids ?ids (output_ids cx),
                 sbatch := (if ?ids = [0..<tot] then (sbatch cx)\<lparr>sb_out_ids := []\<rparr> else sbatch cx),
                 n_outputs := tot\<rparr>"
  define cx2 where "cx2 = (if cp_causal_attn (cparams cx1) \<and> m_defrag_on (model cx1) \<and>
      128 \<le> kv_n (kv_self cx1) \<and> m_over_thold (model cx1) (used (kv_self cx1)) (kv_n (kv_self cx1))
    then cx1\<lparr>kv_self := llama_kv_cache_defrag (kv_self cx1)\<rparr> else cx1)"
  have run: "decode_finish tot cx = Inr cx2"
    using ids tot by (simp add: decode_finish_def Let_def cx1_def cx2_def)
  have same: "logits cx2 = Some L" "output_ids cx2 = set_output_ids ?ids (output_ids cx)" "n_outputs cx2 = tot"
    using L by (simp_all add: cx1_def cx2_def)
  have kv2: "kv_ok (kv_self cx2)" "kv_entries (kv_self cx2) = kv_entries (kv_self cx)"
    using kv by (auto simp: cx1_def cx2_def llama_kv_cache_defrag_def kv_ok_def kv_entries_def)
  have o: "output_ids cx = replicate (length (output_ids cx)) (-1)" "?N \<le> length (output_ids cx)"
    using t by blast+
  have pre: "distinct ?ids" "n_outputs cx2 = length ?ids" "\<forall>t \<in> set ?ids. t < length (output_ids cx2)"
    "output_ids cx2 = set_output_ids ?ids (replicate (length (output_ids cx2)) (-1))"
    using same tot o by auto
  have "if flagged all b t
        then \<exists>l. llama_get_logits_ith cx2 (int t) = Some l \<and> row_for be all b E0 n t l
        else llama_get_logits_ith cx2 (int t) = None" if tN: "t < ?N" for t
  proof (cases "flagged all b t")
    case True
    then have "t \<in> set ?ids" using tN by simp
    then obtain i where i: "i < length ?ids" "?ids ! i = t" by (metis in_set_conv_nth)
    then have "output_row cx2 (int t) = Inr i" using output_row_known(1)[OF pre] by blast
    then show ?thesis
      using True same(1) L(3) prev tot ids i by (auto simp: llama_get_logits_ith_def)
  next
    case False
    then have "isl (output_row cx2 (int t))" using output_row_known(2)[OF pre, of t] by simp
    then show ?thesis
      using False same(1) by (auto simp: llama_get_logits_ith_def split: sum.splits)
  qed
  then show ?thesis
    using run kv2 ent by (intro exI[of _ cx2]) (simp add: decoded_def)
qed

lemma decode_loop_spec:
  assumes ok: "batch_ok b" "turn_ok be b all E0 n cx rs prev"
    and pos: "\<forall>t < nat (b_n_tokens b). 0 \<le> the (b_pos b) ! t"
    and tot: "tot = length (filter (flagged all b) [0..<nat (b_n_tokens b)])"
    and n_all: "n_all = nat (b_n_tokens b)" "all \<longleftrightarrow> tot = n_all"
  shows "\<exists>ret cx'. decode_loop be tot n_all cx rs prev = Some (Inr (ret, cx')) \<and>
    ret \<in> {0, 1, 2, -2, -3} \<and> kv_ok (kv_self cx') \<and> (ret = 0 \<longrightarrow> decoded be b all E0 n cx')"
  using ok(2)
proof (induction "sb_n_tokens (sbatch cx)" arbitrary: cx rs prev rule: less_induct)
  case less
  show ?case
  proof (cases "sb_n_tokens (sbatch cx) = 0")
    case True
    then show ?thesis
      using decode_finish_spec[OF less.prems True tot] by (auto simp: decode_loop.simps)
  next
    case False
    then have left: "0 < sb_n_tokens (sbatch cx)" by simp
    from decode_turn[OF ok(1) less.prems left pos tot n_all] show ?thesis
    proof (elim disjE exE conjE)
      fix ret cx' assume "decode_ubatch be tot n_all cx rs prev = Inr (Inl (ret, cx'))"
        "ret \<in> {1, 2, -2, -3}" "kv_ok (kv_self cx')"
      then show ?thesis using False by (auto simp: decode_loop.simps)
    next
      fix cx' rs' prev' assume n: "decode_ubatch be tot n_all cx rs prev = Inr (Inr (cx', rs', prev'))"
        "turn_ok be b all E0 n cx' rs' prev'" "sb_n_tokens (sbatch cx') < sb_n_tokens (sbatch cx)"
      then have "decode_loop be tot n_all cx rs prev = decode_loop be tot n_all cx' rs' prev'"
        using False by (simp add: decode_loop.simps[of be tot n_all cx])
      then show ?thesis using less.hyps[OF n(3,2)] by simp
    qed
  qed
qed

text \<open>The state a well-behaved caller hands to \<open>llama_decode\<close>.\<close>

definition decode_pre ::
    "('e, 'l, 'd) backend \<Rightarrow> ('e, 'l, 'd) llama_context \<Rightarrow> 'e llama_batch \<Rightarrow> bool" where
  "decode_pre be cx inp \<longleftrightarrow>
     cache_ok cx \<and> decode_env be (cparams cx) (model cx) \<and> batch_given inp \<and> 0 < b_n_tokens inp \<and>
     nat (b_n_tokens inp) \<le> cp_n_batch (cparams cx) \<and>
     (cp_causal_attn (cparams cx) \<or> nat (b_n_tokens inp) \<le> cp_n_ubatch (cparams cx)) \<and>
     tokens_valid (m_n_vocab (model cx)) inp \<and>
     (\<forall>ps. b_pos inp = Some ps \<longrightarrow> (\<forall>p \<in> set ps. 0 \<le> p)) \<and>
     (output_ids cx = [] \<or> length (output_ids cx) = cp_n_batch (cparams cx))"

lemma decode_p0_encoding [simp]: "decode_p0 (cx\<lparr>is_encoding := e\<rparr>) inp = decode_p0 cx inp"
  by (simp add: decode_p0_def)

lemma kv_max_pos_ge: "-1 \<le> kv_max_pos kv"
proof -
  have "m \<le> fold (\<lambda>c m. max m (c_pos c)) cs m" for cs and m :: int
    by (induction cs arbitrary: m) (auto intro: order_trans[OF max.cobounded1])
  then show ?thesis by (simp add: kv_max_pos_def)
qed

lemma count_outputs_flagged:
  assumes "b_logits b = Some lg" "length lg = nat (b_n_tokens b)" "\<not> pooled (cparams cx)"
  shows "count_outputs cx b =
    length (filter (flagged (count_outputs cx b = nat (b_n_tokens b)) b) [0..<nat (b_n_tokens b)])"
proof -
  let ?N = "nat (b_n_tokens b)"
  have "count_outputs cx b = length (filter (\<lambda>x. x \<noteq> 0) lg)"
    using assms by (simp add: count_outputs_def count_if_def)
  also have "\<dots> = length (map ((!) lg) (filter (\<lambda>t. lg ! t \<noteq> 0) [0..<length lg]))"
    by (rule arg_cong[OF map_filter_upt[of lg "\<lambda>x. x \<noteq> 0", symmetric], of length])
  also have "\<dots> = length (filter (flagged False b) [0..<?N])"
    using assms(1,2) by (simp add: flagged_def[abs_def] out_flag_def)
  finally have c: "count_outputs cx b = length (filter (flagged False b) [0..<?N])" .
  show ?thesis
  proof (cases "count_outputs cx b = ?N")
    case True
    have "filter (flagged True b) [0..<?N] = [0..<?N]" by (simp add: flagged_def out_flag_def)
    then show ?thesis using True by simp
  qed (use c in simp)
qed

lemma batch_allocr_logits:
  assumes "batch_allocr b p0 = Inr b'"
  shows "\<exists>lg. b_logits b' = Some lg"
  using assms by (auto simp: batch_allocr_def Let_def split: option.splits)

lemma reserve_keeps:
  assumes "llama_output_reserve be cx n = (room, cx')"
  shows "kv_self cx' = kv_self cx" "kv_rows cx' = kv_rows cx" "cparams cx' = cparams cx"
    "model cx' = model cx" "sbatch cx' = sbatch cx"
  using assms unfolding llama_output_reserve_def Let_def by (simp_all split: if_split_asm) auto

lemma reserve_room:
  assumes "llama_output_reserve be cx n = (room, cx')" "\<not> room < n" "\<not> cp_embeddings (cparams cx)"
    and "0 < n \<or> (\<forall>s. be_alloc be s)"
    and "output_ids cx = [] \<or> length (output_ids cx) = cp_n_batch (cparams cx)"
  shows "logits cx' = Some (replicate (output_size cx') 0)" "n \<le> output_size cx'"
    "output_ids cx' = replicate (cp_n_batch (cparams cx)) (-1)"
proof -
  let ?mx = "max n (cp_n_seq_max (cparams cx))"
  let ?ids = "if output_ids cx = [] then replicate (cp_n_batch (cparams cx)) 0 else output_ids cx"
  have "length ?ids = cp_n_batch (cparams cx)" using assms(5) by auto
  moreover have "logits cx' = Some (replicate ?mx 0) \<and> output_size cx' = ?mx \<and>
      output_ids cx' = replicate (length ?ids) (-1)"
    using assms(1,2,3,4) unfolding llama_output_reserve_def Let_def
    by (simp only: simp_thms if_False if_True split: if_split_asm) (auto)
  ultimately show "logits cx' = Some (replicate (output_size cx') 0)" "n \<le> output_size cx'"
    "output_ids cx' = replicate (cp_n_batch (cparams cx)) (-1)" by auto
qed

lemma llama_decode_spec:
  assumes pre: "decode_pre be cx inp" and b: "batch_allocr inp (decode_p0 cx inp) = Inr b"
    and alloc: "0 < count_outputs cx b \<or> (\<forall>s. be_alloc be s)"
  shows "\<exists>ret cx'. llama_decode_impl be cx inp = Some (Inr (ret, cx')) \<and>
    ret \<in> {0, 1, 2, -2, -3} \<and> kv_ok (kv_self cx') \<and>
    (ret = 0 \<longrightarrow> decoded be b (count_outputs cx b = nat (b_n_tokens b)) (kv_entries (kv_self cx))
       (cp_n_ubatch (cparams cx)) cx')"
proof -
  note p = pre[unfolded decode_pre_def]
  let ?N = "nat (b_n_tokens b)"
  have bk: "batch_ok b" "b_n_tokens b = b_n_tokens inp" "b_token b = b_token inp" "b_embd b = b_embd inp"
    and bpos: "\<forall>t < nat (b_n_tokens inp). the (b_pos b) ! t =
      (case b_pos inp of None \<Rightarrow> int t + decode_p0 cx inp | Some ps \<Rightarrow> ps ! t)"
    using batch_allocr_spec[of inp "decode_p0 cx inp"] p b by auto
  have "0 \<le> the (b_pos b) ! t" if "t < ?N" for t
  proof (cases "b_pos inp")
    case None
    then show ?thesis
      using bpos bk(2) that kv_max_pos_ge[of "kv_self cx"] by (simp add: decode_p0_def)
  next
    case (Some ps)
    then have "length ps = ?N" using p bk(2) by (simp add: batch_given_def opt_len_def Let_def)
    then show ?thesis using Some bpos bk(2) that p by simp
  qed
  then have pos: "\<forall>t < ?N. 0 \<le> the (b_pos b) ! t" by blast
  obtain lg where lg: "b_logits b = Some lg" using batch_allocr_logits[OF b] by blast
  have lgl: "length lg = ?N" using bk(1) lg by (auto simp: batch_ok_def batch_given_def opt_len_def Let_def)
  have np: "\<not> pooled (cparams cx)" using p by (simp add: decode_env_def pooled_def)
  define all where "all = (count_outputs cx b = ?N)"
  define tot where "tot = count_outputs cx b"
  have tot: "tot = length (filter (flagged all b) [0..<?N])"
    using count_outputs_flagged[OF lg lgl np] by (simp add: tot_def all_def)
  have nrec: "\<not> recurrent (kv_self cx)" using p by (simp add: cache_ok_def kv_ok_def)
  define cx1 where "cx1 = cx\<lparr>is_encoding := False, n_queued_tokens := n_queued_tokens cx + ?N,
    embd_seq := (\<lambda>_. None)\<rparr>"
  obtain sb where sb: "from_batch (sbatch cx) b True all = Inr sb" "simple_ok b sb"
    "pending sb = [0..<?N]" "sb_out_ids sb = []" "sb_logits_all sb = all"
    using from_batch_simple[OF bk(1)] by blast
  obtain room cx2 where res: "llama_output_reserve be (cx1\<lparr>sbatch := sb\<rparr>) tot = (room, cx2)"
    by (cases "llama_output_reserve be (cx1\<lparr>sbatch := sb\<rparr>) tot") auto
  have co: "count_outputs (cx\<lparr>is_encoding := False, n_queued_tokens := q, embd_seq := m\<rparr>) b = count_outputs cx b" for q m
    by (cases "b_logits b") (simp_all add: count_outputs_def Let_def)
  have bounds: "?N \<le> cp_n_batch (cparams cx)" "cp_causal_attn (cparams cx) \<or> ?N \<le> cp_n_ubatch (cparams cx)"
    "0 < b_n_tokens inp" "tokens_valid (m_n_vocab (model cx)) b" "(b_token b = None) \<noteq> (b_embd b = None)"
    using p bk by (auto simp: tokens_valid_def batch_given_def Let_def)
  have run: "llama_decode_impl be cx inp = (if room < tot then Some (Inr (-2, cx2))
      else decode_loop be tot ?N cx2 (restorer_init (kv_self cx)) 0)"
  proof -
    let ?cx0 = "cx\<lparr>is_encoding := False\<rparr>"
    have one: "((b_token b = None) = (b_embd b = None)) = False"
      "(\<not> tokens_valid (m_n_vocab (model ?cx0)) b) = False"
      "(\<not> (?N \<le> cp_n_batch (cparams ?cx0) \<and> (cp_causal_attn (cparams ?cx0) \<or> ?N \<le> cp_n_ubatch (cparams ?cx0)))) = False"
      "(b_n_tokens inp = 0) = False"
      using bounds by auto
    have two: "?cx0\<lparr>n_queued_tokens := n_queued_tokens ?cx0 + ?N, embd_seq := (\<lambda>_. None)\<rparr> = cx1"
      "restorer_init (kv_self cx1) = restorer_init (kv_self cx)" "count_outputs cx1 b = tot"
      "from_batch (sbatch cx1) b (\<not> recurrent (kv_self cx1)) (tot = ?N) = Inr sb"
      using sb(1) nrec co by (simp_all add: cx1_def tot_def all_def)
    show ?thesis
      unfolding llama_decode_impl_def Let_def decode_p0_encoding b sum.case two
      by (simp only: one if_False sum.case two res prod.case)
  qed
  have kv2: "kv_self cx2 = kv_self cx" "kv_rows cx2 = kv_rows cx" "cparams cx2 = cparams cx"
    "model cx2 = model cx" "sbatch cx2 = sb"
    using reserve_keeps[OF res] by (simp_all add: cx1_def)
  show ?thesis
  proof (cases "room < tot")
    case True
    then show ?thesis using run kv2(1) p by (auto simp: cache_ok_def)
  next
    case False
    have fresh: "turn_ok be b all (kv_entries (kv_self cx)) (cp_n_ubatch (cparams cx)) cx2 (restorer_init (kv_self cx)) 0"
    proof -
      have "\<not> cp_embeddings (cparams cx)" "output_ids cx = [] \<or> length (output_ids cx) = cp_n_batch (cparams cx)"
        using p by (simp_all add: decode_env_def)
      then have r: "logits cx2 = Some (replicate (output_size cx2) 0)" "tot \<le> output_size cx2"
        "output_ids cx2 = replicate (cp_n_batch (cparams cx)) (-1)"
        using reserve_room[OF res False] alloc by (simp_all add: cx1_def tot_def)
      have "old_head (restorer_init (kv_self cx)) \<le> kv_size (kv_self cx)"
        using p by (simp add: restorer_init_def cache_ok_def kv_ok_def)
      moreover have "cache_ok cx2" using p kv2 by (simp add: cache_ok_def)
      ultimately show ?thesis
        unfolding turn_ok_def Let_def kv2(3-5) kv2(1)
        using p sb r tot bounds(1) by simp
    qed
    show ?thesis
      using decode_loop_spec[OF bk(1) fresh pos tot refl] run False
      by (auto simp: all_def tot_def)
  qed
qed

end
