(* ===== verification/DecodeClaims.thy ===== *)
theory DecodeClaims
  imports DecodeTheorems KvTheorems
begin

text \<open>
  The properties of a whole decode, on the model of \<open>llama_decode\<close>, with the sample
  context their witnesses run on.
\<close>

section \<open>A sample context\<close>

text \<open>
  Four cells, micro-batches of two tokens, and a graph whose output row of a token is its
  index plus the number of used cells.
\<close>

definition sample_backend :: "(int, int, int) backend" where
  "sample_backend = \<lparr>be_alloc = (\<lambda>_. True), be_shift = (\<lambda>d r. r),
     be_compute = (\<lambda>kv rows ub. \<lparr>g_status = St_success, g_rows = rows,
        g_token = (\<lambda>k. int (used kv) + int k), g_seq = (\<lambda>_. 0)\<rparr>)\<rparr>"

definition sample_cparams :: llama_cparams where
  "sample_cparams = \<lparr>cp_n_batch = 4, cp_n_ubatch = 2, cp_n_seq_max = 1, cp_n_threads = 1,
     cp_n_threads_batch = 1, cp_embeddings = False, cp_causal_attn = True, cp_flash_attn = False,
     cp_pooling = Pool_none\<rparr>"

definition sample_model :: llama_model_info where
  "sample_model = \<lparr>m_n_vocab = 10, m_n_embd = 1, m_causal_attn = True, m_rope = True, m_max_moves = 8,
     m_over_thold = (\<lambda>_ _. False), m_defrag_on = False, m_has_decoder = False\<rparr>"

definition sample_context :: "bool \<Rightarrow> nat \<Rightarrow> (int, int, int) llama_context" where
  "sample_context all n = \<lparr>cparams = sample_cparams, model = sample_model,
     kv_self = blank_cache False (replicate n empty_cell) 0, kv_rows = replicate n 0,
     sbatch = \<lparr>sb_n_tokens = 0, sb_logits_all = False, sb_ids = [], sb_out_ids = [], sb_seq = [],
       sb_batch = None\<rparr>,
     cx_logits_all = all, output_ids = [], output_size = 0, n_outputs = 0, logits = None, embd = None,
     embd_seq = (\<lambda>_. None), embd_enc = [], seq_ids_enc = [], buf_output = None, is_encoding = False,
     n_queued_tokens = 0\<rparr>"

lemmas context_simps = sample_context_def sample_model_def sample_cparams_def sample_backend_def
  blank_cache_def

lemma sample_decode_pre:
  assumes "0 < n" "n \<le> 4"
  shows "decode_pre sample_backend (sample_context all 4) (llama_batch_get_one (replicate n 7) (int n))"
proof -
  have "count_if taken (replicate 4 empty_cell) = 0"
    by (simp add: count_if_0_iff taken_def is_empty_cell_def empty_cell_def)
  then have "kv_ok (kv_self (sample_context all 4))"
    by (auto simp: kv_ok_def context_simps kv_limit_def)
  then show ?thesis
    using assms
    by (auto simp: decode_pre_def cache_ok_def decode_env_def batch_given_def llama_batch_get_one_def
        tokens_valid_def context_simps opt_len_def Let_def list_all_iff split: option.splits)
qed

text \<open>
  C1. Decoding on a context that computes logits, not embeddings (embeddings off, a model with
  causal attention), over an attention cache that is well-formed.  The context has positive thread
  counts and a positive n_ubatch, output_ids is empty or n_batch long, and a pending K-shift is only
  asked of a cache that can shift.  The batch is well-formed: not empty, at most n_batch tokens (at
  most n_ubatch when the context is not causal), every array it carries as long as its token count
  with tokens or embeddings given, token ids inside the vocabulary, no negative position.  The graph
  keeps the number of cell rows, and the batch asks for at least one output or no allocation fails.
  Then llama_decode always returns, with 0, 1 (no room in the cache), 2 (aborted), -2 (no memory) or
  -3 (the graph failed): no assertion fails and the loop over the micro-batches ends.  The cache is
  well-formed afterwards.  When it returns 0 the cache holds the old entries and one entry for every
  (token, sequence) of the batch and nothing else, and for every token flagged for output
  llama_get_logits_ith returns the row the graph computed for that very token: the answer, at the
  token's own place, of a run over a consecutive stretch of at most n_ubatch tokens of this batch that
  contains the token, on a well-formed cache holding exactly the entries from before the decode and
  those of the batch up to the end of the stretch.  The other tokens have no row.
\<close>

theorem decode_returns:
  assumes "decode_pre be cx inp" "batch_allocr inp (decode_p0 cx inp) = Inr b"
    and "0 < count_outputs cx b \<or> (\<forall>s. be_alloc be s)"
  shows "\<exists>ret cx'. llama_decode_impl be cx inp = Some (Inr (ret, cx')) \<and>
    ret \<in> {0, 1, 2, -2, -3} \<and> kv_ok (kv_self cx') \<and>
    (ret = 0 \<longrightarrow> decoded be b (count_outputs cx b = nat (b_n_tokens b)) (kv_entries (kv_self cx))
       (cp_n_ubatch (cparams cx)) cx')"
  by (rule llama_decode_spec[OF assms])

text \<open>The return code, the positions of sequence 0, and which tokens have a row.\<close>

definition sample_decode :: "bool \<Rightarrow> nat \<Rightarrow> nat \<Rightarrow> (int \<times> int list \<times> bool list) option" where
  "sample_decode all c n =
     (case llama_decode_impl sample_backend (sample_context all c)
         (llama_batch_get_one (replicate n 7) (int n)) of
        Some (Inr (ret, cx)) \<Rightarrow>
          Some (ret, map c_pos (filter (\<lambda>c. c_seq_id c = {0}) (cells (kv_self cx))),
            map (\<lambda>t. llama_get_logits_ith cx (int t) \<noteq> None) [0..<n])
      | _ \<Rightarrow> None)"

lemma sample_decode_3: "sample_decode False 4 3 = Some (0, [0, 1, 2], [False, False, True])"
  by code_simp

lemma sample_decode_all: "sample_decode True 4 3 = Some (0, [0, 1, 2], [False, False, True])"
  by code_simp

lemma sample_decode_D:
  assumes "sample_decode all c n = Some (ret, ps, os)"
  obtains cx where "llama_decode_impl sample_backend (sample_context all c)
     (llama_batch_get_one (replicate n 7) (int n)) = Some (Inr (ret, cx))"
  using assms unfolding sample_decode_def by (auto split: option.splits sum.splits prod.splits)

lemma sample_allocr:
  "batch_allocr (llama_batch_get_one [7, 7, 7] 3) 0 = Inr (\<lparr>b_n_tokens = 3, b_token = Some [7, 7, 7],
     b_embd = None, b_pos = Some [0, 1, 2], b_n_seq_id = Some [1, 1, 1],
     b_seq_id = Some [[0], [0], [0]], b_logits = Some [0, 0, 1]\<rparr> :: 'e llama_batch)"
  by (simp add: batch_allocr_def llama_batch_get_one_def numeral_3_eq_3)

theorem decode_returns_witness:
  "\<exists>cx'. llama_decode_impl sample_backend (sample_context False 4) (llama_batch_get_one [7, 7, 7] 3) =
      Some (Inr (0, cx')) \<and> kv_entries (kv_self cx') = {(0, 0), (0, 1), (0, 2)} \<and>
    llama_get_logits_ith cx' 0 = None \<and> llama_get_logits_ith cx' 2 \<noteq> None"
proof -
  let ?cx = "sample_context False 4" and ?inp = "llama_batch_get_one [7, 7, 7] 3 :: int llama_batch"
  have pre: "decode_pre sample_backend ?cx ?inp"
    using sample_decode_pre[of 3 False] by (simp add: numeral_3_eq_3)
  have p0: "decode_p0 ?cx ?inp = 0"
    by (simp add: decode_p0_def llama_batch_get_one_def kv_max_pos_def context_simps empty_cell_def
        eval_nat_numeral)
  obtain cx' where run: "llama_decode_impl sample_backend ?cx ?inp = Some (Inr (0, cx'))"
    using sample_decode_D[OF sample_decode_3] by (auto simp: numeral_3_eq_3)
  have e0: "kv_entries (kv_self ?cx) = {}"
    by (auto simp: kv_entries_def context_simps empty_cell_def)
  let ?b = "\<lparr>b_n_tokens = 3, b_token = Some [7, 7, 7], b_embd = None, b_pos = Some [0, 1, 2],
    b_n_seq_id = Some [1, 1, 1], b_seq_id = Some [[0], [0], [0]], b_logits = Some [0, 0, 1]\<rparr> :: int llama_batch"
  have co: "count_outputs ?cx ?b = 1"
    by (simp add: count_outputs_def pooled_def context_simps)
  have "decoded sample_backend ?b False {} 2 cx'"
    using decode_returns[OF pre, unfolded p0, OF sample_allocr] run co e0
    by (auto simp: context_simps)
  then have d: "kv_entries (kv_self cx') = (\<Union>t < 3. row_entries (batch_row False ?b t))"
    "\<And>t. t < 3 \<Longrightarrow> (llama_get_logits_ith cx' (int t) \<noteq> None) = flagged False ?b t"
    unfolding decoded_def by (auto split: if_splits)
  have "(\<Union>t < 3. row_entries (batch_row False ?b t)) = {(0, 0), (0, 1), (0, 2)}"
    by (auto simp: row_entries_def batch_row_def seq_id_list_def lessThan_nat_numeral lessThan_Suc)
  moreover have "\<not> flagged False ?b 0" "flagged False ?b 2"
    by (simp_all add: flagged_def out_flag_def)
  ultimately show ?thesis
    using run d(1) d(2)[of 0] d(2)[of 2] by (intro exI[of _ cx']) simp
qed

text \<open>
  A caller that sets \<open>logits_all\<close> in the context parameters and leaves \<open>batch.logits\<close> null
  gets the row of the last token only, whatever the flag says: \<open>llama_batch_allocr\<close> has filled
  in \<open>logits\<close> before \<open>llama_decode_impl\<close> looks at the flag.
\<close>

theorem logits_all_ignored:
  assumes "decode_pre be cx inp" "b_logits inp = None" "1 < b_n_tokens inp"
    and "llama_decode_impl be (cx\<lparr>cx_logits_all := True\<rparr>) inp = Some (Inr (0, cx'))"
    and "t < nat (b_n_tokens inp)"
  shows "llama_get_logits_ith cx' (int t) \<noteq> None \<longleftrightarrow> t = nat (b_n_tokens inp) - 1"
proof -
  let ?cx = "cx\<lparr>cx_logits_all := True\<rparr>"
  have pre: "decode_pre be ?cx inp"
    using assms(1) by (simp add: decode_pre_def cache_ok_def)
  have g: "batch_given inp" "0 < b_n_tokens inp" using assms(1) by (simp_all add: decode_pre_def)
  obtain b where b: "batch_allocr inp (decode_p0 ?cx inp) = Inr b"
    using batch_allocr_spec[OF g] by blast
  let ?n = "nat (b_n_tokens inp)"
  have bl: "b_n_tokens b = b_n_tokens inp" "b_logits b = Some ((replicate ?n 0)[?n - 1 := 1])"
    using b assms(2,3) by (auto simp: batch_allocr_def Let_def)
  have np: "\<not> pooled (cparams ?cx)" using assms(1) by (simp add: decode_pre_def decode_env_def pooled_def)
  have co: "count_outputs ?cx b = 1"
  proof -
    have "(replicate ?n (0::int))[?n - 1 := 1] = replicate (?n - 1) 0 @ [1]"
      using assms(3) by (cases ?n) (simp_all add: replicate_append_same[symmetric] list_update_append)
    moreover have "?n - (?n - Suc 0) = Suc 0" using assms(3) by simp
    ultimately show ?thesis
      using np bl by (simp add: count_outputs_def count_if_def)
  qed
  moreover have "(Suc 0 = nat (b_n_tokens inp)) = False" using assms(3) by simp
  ultimately have "decoded be b False (kv_entries (kv_self ?cx)) (cp_n_ubatch (cparams ?cx)) cx'"
    using llama_decode_spec[OF pre b] assms(3,4) bl by auto
  moreover have "flagged False b t \<longleftrightarrow> t = ?n - 1"
    using bl assms(5) by (auto simp: flagged_def out_flag_def nth_list_update)
  ultimately show ?thesis
    using assms(5) bl unfolding decoded_def by (metis option.distinct(1))
qed

theorem logits_all_ignored_witness:
  "\<exists>cx'. llama_decode_impl sample_backend (sample_context True 4) (llama_batch_get_one [7, 7, 7] 3) =
      Some (Inr (0, cx')) \<and> llama_get_logits_ith cx' 1 = None"
proof -
  let ?inp = "llama_batch_get_one [7, 7, 7] 3 :: int llama_batch"
  have pre: "decode_pre sample_backend (sample_context False 4) ?inp"
    using sample_decode_pre[of 3 False] by (simp add: numeral_3_eq_3)
  obtain cx' where run: "llama_decode_impl sample_backend (sample_context True 4) ?inp = Some (Inr (0, cx'))"
    using sample_decode_D[OF sample_decode_all] by (auto simp: numeral_3_eq_3)
  have same: "sample_context True 4 = (sample_context False 4)\<lparr>cx_logits_all := True\<rparr>"
    by (simp add: sample_context_def)
  have inp: "b_logits ?inp = None" "1 < b_n_tokens ?inp" "1 < nat (b_n_tokens ?inp)"
    by (simp_all add: llama_batch_get_one_def)
  show ?thesis
    using logits_all_ignored[OF pre inp(1,2) run[unfolded same] inp(3)] run
    by (auto simp: llama_batch_get_one_def)
qed



text \<open>
  When a micro-batch finds no room, \<open>llama_decode\<close> returns 1 and leaves the
  micro-batches evaluated before it in the cache: with three cells and micro-batches of two,
  four tokens leave the positions 0 and 1 behind, and no output row.
\<close>

theorem no_slot_keeps_prefix:
  "sample_decode False 3 4 = Some (1, [0, 1], [False, False, False, False])"
  by code_simp

end
