(* ===== verification/Grammar.thy ===== *)
theory Grammar
  imports Prelude
begin

unbundle bit_operations_syntax

text \<open>
  The grammar engine of \<^verbatim>\<open>src/llama-grammar.h\<close> and \<^verbatim>\<open>src/llama-grammar.cpp\<close>: rules as vectors
  of elements, pushdown stacks of pointers into them, the expansion of a stack to the
  characters it can start with, the filter over the candidate tokens and the step that
  accepts one.  A pointer to an element is the pair of its rule and its index; a stack is
  listed from its top (\<open>stack.back()\<close> of the code is the head).  Code points are 32-bit
  words, strings are byte lists without the terminating NUL.
\<close>

section \<open>Elements and stacks\<close>

datatype llama_gretype =
    Gre_end
  | Gre_alt
  | Gre_rule_ref
  | Gre_char
  | Gre_char_not
  | Gre_char_rng_upper
  | Gre_char_alt
  | Gre_char_any

record llama_grammar_element =
  e_type :: llama_gretype
  e_value :: "32 word"

definition elem :: "llama_gretype \<Rightarrow> 32 word \<Rightarrow> llama_grammar_element" where
  "elem t v = \<lparr>e_type = t, e_value = v\<rparr>"

record llama_partial_utf8 =
  p_value :: "32 word"
  n_remain :: int

type_synonym grammar_rule = "llama_grammar_element list"
type_synonym grammar_pos = "nat \<times> nat"
type_synonym grammar_stack = "grammar_pos list"

record llama_grammar_candidate =
  g_index :: nat
  g_points :: "32 word list"
  g_off :: nat
  g_partial :: llama_partial_utf8

record llama_grammar =
  g_rules :: "grammar_rule list"
  g_stacks :: "grammar_stack list"
  g_utf8 :: llama_partial_utf8

text \<open>The elements from a pointer on; a pointer outside its rule is undefined behaviour.\<close>

definition elems_at :: "grammar_rule list \<Rightarrow> grammar_pos \<Rightarrow> llama_grammar_element list" where
  "elems_at rules p = (case p of (r, i) \<Rightarrow> if r < length rules then drop i (rules ! r) else [])"

definition deref :: "grammar_rule list \<Rightarrow> grammar_pos \<Rightarrow> llama_grammar_element res" where
  "deref rules p = (case elems_at rules p of [] \<Rightarrow> Inl Out_of_bounds | e # _ \<Rightarrow> Inr e)"

definition pos_plus :: "grammar_pos \<Rightarrow> nat \<Rightarrow> grammar_pos" where
  "pos_plus p n = (fst p, snd p + n)"

section \<open>Decoding a token's bytes\<close>

text \<open>
  The streaming decoder: a sequence may begin in one token and end in another.  \<open>lookup\<close>
  is the table of sequence lengths by the high four bits of the first byte, 0 for a
  continuation byte.
\<close>

definition utf8_lookup :: "8 word \<Rightarrow> int" where
  "utf8_lookup b =
     [1, 1, 1, 1, 1, 1, 1, 1, 0, 0, 0, 0, 2, 2, 3, 4] ! unat (drop_bit 4 b)"

definition shift_in :: "32 word \<Rightarrow> 8 word \<Rightarrow> 32 word" where
  "shift_in v b = push_bit 6 v + ucast (b AND 0x3F)"

text \<open>The first loop: \<open>None\<close> is the early return on a byte that is no continuation.\<close>

fun continue_utf8 :: "8 word list \<Rightarrow> 32 word \<Rightarrow> int \<Rightarrow> (8 word list \<times> 32 word \<times> int) option" where
  "continue_utf8 [] v n = Some ([], v, n)"
| "continue_utf8 (b # bs) v n =
     (if 0 < n then
        (if drop_bit 6 b \<noteq> 2 then None else continue_utf8 bs (shift_in v b) (n - 1))
      else Some (b # bs, v, n))"

text \<open>The inner loop over the bytes that should be continuations; they are not checked.\<close>

fun take_utf8 :: "8 word list \<Rightarrow> 32 word \<Rightarrow> int \<Rightarrow> 8 word list \<times> 32 word \<times> int" where
  "take_utf8 [] v n = ([], v, n)"
| "take_utf8 (b # bs) v n =
     (if 0 < n then take_utf8 bs (shift_in v b) (n - 1) else (b # bs, v, n))"

lemma take_utf8_length: "length (fst (take_utf8 bs v n)) \<le> length bs"
  by (induction bs arbitrary: v n) (simp_all add: le_SucI)

text \<open>The second loop; \<open>None\<close> is its early return on a byte that starts no sequence.\<close>

function decode_loop_utf8 ::
    "8 word list \<Rightarrow> 32 word list \<Rightarrow> 32 word \<Rightarrow> int \<Rightarrow> (32 word list \<times> 32 word \<times> int) option" where
  "decode_loop_utf8 [] cps v n = Some (cps, v, n)"
| "decode_loop_utf8 (b # bs) cps v n =
     (let n = utf8_lookup b - 1 in
      if n < 0 then None
      else
        let v = ucast (b AND (push_bit (nat (7 - n)) 1 - 1));
            (bs', v, n) = take_utf8 bs v n
        in decode_loop_utf8 bs' (if n = 0 then cps @ [v] else cps) v n)"
  by pat_completeness auto
termination
proof (relation "measure (\<lambda>(bs, cps, v, n). length bs)")
  fix b :: "8 word" and bs and x :: int and xa and y :: "8 word list \<times> 32 word \<times> int"
    and xb z xc ya
  assume "y = take_utf8 bs xa x" "(xb, z) = y"
  then show "\<And>cps v n v' n' . ((xb, cps, v', n'), b # bs, cps', v, n) \<in> measure (\<lambda>(bs, cps, v, n). length bs)" for cps'
    using take_utf8_length[of bs xa x] by (metis case_prod_conv fst_conv in_measure le_imp_less_Suc length_Cons)
qed simp

text \<open>The loops run over \<open>src.c_str()\<close>: a NUL inside the string ends it.\<close>

definition c_bytes :: "8 word list \<Rightarrow> 8 word list" where
  "c_bytes src = takeWhile (\<lambda>b. b \<noteq> 0) src"

definition decode_utf8 ::
    "8 word list \<Rightarrow> llama_partial_utf8 \<Rightarrow> 32 word list \<times> llama_partial_utf8" where
  "decode_utf8 src p =
     (case continue_utf8 (c_bytes src) (p_value p) (n_remain p) of
        None \<Rightarrow> ([0], \<lparr>p_value = 0, n_remain = -1\<rparr>)
      | Some (bs, v, n) \<Rightarrow>
          let cps = (if 0 < n_remain p \<and> n = 0 then [v] else []) in
          (case decode_loop_utf8 bs cps v n of
             None \<Rightarrow> ([0], \<lparr>p_value = 0, n_remain = -1\<rparr>)
           | Some (cps, v, n) \<Rightarrow> (cps @ [0], \<lparr>p_value = v, n_remain = n\<rparr>)))"

section \<open>Matching a character\<close>

definition is_end_of_sequence :: "llama_grammar_element \<Rightarrow> bool" where
  "is_end_of_sequence e \<longleftrightarrow> e_type e = Gre_end \<or> e_type e = Gre_alt"

text \<open>
  The do-while of \<open>llama_grammar_match_char\<close> over the elements from \<open>pos\<close> on: \<open>k\<close> counts
  the elements passed.  \<open>pos[1]\<close> is read before anything else.
\<close>

fun match_loop :: "llama_grammar_element list \<Rightarrow> 32 word \<Rightarrow> bool \<Rightarrow> nat \<Rightarrow> (bool \<times> nat) res" where
  "match_loop (e # u # es) chr found k =
     (if e_type u = Gre_char_rng_upper then
        (let found = (found \<or> e_value e \<le> chr \<and> chr \<le> e_value u) in
         case es of
           [] \<Rightarrow> Inl Out_of_bounds
         | x # _ \<Rightarrow> if e_type x = Gre_char_alt then match_loop es chr found (k + 2)
                    else Inr (found, k + 2))
      else
        (let found = (e_type e = Gre_char_any \<or> found \<or> e_value e = chr) in
         if e_type u = Gre_char_alt then match_loop (u # es) chr found (k + 1)
         else Inr (found, k + 1)))"
| "match_loop es chr found k = Inl Out_of_bounds"

definition is_positive_char :: "llama_grammar_element \<Rightarrow> bool" where
  "is_positive_char e \<longleftrightarrow> e_type e = Gre_char \<or> e_type e = Gre_char_any"

definition llama_grammar_match_char ::
    "grammar_rule list \<Rightarrow> grammar_pos \<Rightarrow> 32 word \<Rightarrow> (bool \<times> grammar_pos) res" where
  "llama_grammar_match_char rules p chr =
     rbind (deref rules p) (\<lambda>e.
     rbind (guard (is_positive_char e \<or> e_type e = Gre_char_not) Assert_failed) (\<lambda>_.
     rbind (match_loop (elems_at rules p) chr False 0) (\<lambda>(found, k).
     Inr (found = is_positive_char e, pos_plus p k))))"

text \<open>
  The second loop, over the range \<open>[low, high]\<close> of code points the partial sequence can
  still become; \<open>pos\<close> being the loop's sign, its value is the result.
\<close>

fun partial_loop :: "llama_grammar_element list \<Rightarrow> 32 word \<Rightarrow> 32 word \<Rightarrow> bool \<Rightarrow> bool res" where
  "partial_loop (e # u # es) low high pos =
     (if e_type u = Gre_char_rng_upper then
        (if e_value e \<le> high \<and> low \<le> e_value u then Inr pos
         else case es of
           [] \<Rightarrow> Inl Out_of_bounds
         | x # _ \<Rightarrow> if e_type x = Gre_char_alt then partial_loop es low high pos else Inr (\<not> pos))
      else if e_type e = Gre_char_any then Inr True
      else if low \<le> e_value e \<and> e_value e \<le> high then Inr pos
      else if e_type u = Gre_char_alt then partial_loop (u # es) low high pos
      else Inr (\<not> pos))"
| "partial_loop es low high pos = Inl Out_of_bounds"

definition partial_low :: "llama_partial_utf8 \<Rightarrow> 32 word" where
  "partial_low p =
     (let low = push_bit (nat (n_remain p * 6)) (p_value p) in
      if low = 0 \<and> n_remain p = 2 then push_bit 11 1
      else if low = 0 \<and> n_remain p = 3 then push_bit 16 1
      else low)"

definition partial_high :: "llama_partial_utf8 \<Rightarrow> 32 word" where
  "partial_high p =
     push_bit (nat (n_remain p * 6)) (p_value p) OR (push_bit (nat (n_remain p * 6)) 1 - 1)"

definition llama_grammar_match_partial_char ::
    "grammar_rule list \<Rightarrow> grammar_pos \<Rightarrow> llama_partial_utf8 \<Rightarrow> bool res" where
  "llama_grammar_match_partial_char rules p part =
     rbind (deref rules p) (\<lambda>e.
     rbind (guard (is_positive_char e \<or> e_type e = Gre_char_not) Assert_failed) (\<lambda>_.
     if n_remain part < 0 \<or> (n_remain part = 1 \<and> p_value part < 2) then Inr False
     else partial_loop (elems_at rules p) (partial_low part) (partial_high part) (is_positive_char e)))"

section \<open>Expanding a stack\<close>

text \<open>
  The starts of the alternates of a rule: the scan that follows each of them runs to the
  next end of sequence and stops at anything but an \<open>ALT\<close>.
\<close>

fun alternate_starts :: "llama_grammar_element list \<Rightarrow> nat \<Rightarrow> nat \<Rightarrow> nat list res" where
  "alternate_starts [] start i = Inl Out_of_bounds"
| "alternate_starts (e # es) start i =
     (if \<not> is_end_of_sequence e then alternate_starts es start (Suc i)
      else if e_type e = Gre_alt
      then rbind (alternate_starts es (Suc i) (Suc i)) (\<lambda>ss. Inr (start # ss))
      else Inr [start])"

definition alternates :: "grammar_rule list \<Rightarrow> nat \<Rightarrow> grammar_pos list res" where
  "alternates rules r =
     (if r < length rules
      then rbind (alternate_starts (rules ! r) 0 0) (\<lambda>ss. Inr (map (Pair r) ss))
      else Inl Out_of_bounds)"

text \<open>\<open>push_back\<close> of a position unless it is at the end of its sequence.\<close>

definition push_pos :: "grammar_rule list \<Rightarrow> grammar_pos \<Rightarrow> grammar_stack \<Rightarrow> grammar_stack res" where
  "push_pos rules p st =
     rbind (deref rules p) (\<lambda>e. Inr (if is_end_of_sequence e then st else p # st))"

definition push_unique :: "grammar_stack \<Rightarrow> grammar_stack list \<Rightarrow> grammar_stack list" where
  "push_unique st acc = (if st \<in> set acc then acc else acc @ [st])"

text \<open>
  The recursion of \<open>llama_grammar_advance_stack\<close> need not end (a left-recursive grammar
  exhausts the C++ stack): \<open>fuel\<close> bounds its depth and \<open>Out_of_fuel\<close> is a run past it.
\<close>

fun llama_grammar_advance_stack ::
    "nat \<Rightarrow> grammar_rule list \<Rightarrow> grammar_stack \<Rightarrow> grammar_stack list \<Rightarrow> grammar_stack list res" where
  "llama_grammar_advance_stack 0 rules st acc = Inl Out_of_fuel"
| "llama_grammar_advance_stack (Suc fuel) rules [] acc = Inr (push_unique [] acc)"
| "llama_grammar_advance_stack (Suc fuel) rules (p # rest) acc =
     rbind (deref rules p) (\<lambda>e.
     case e_type e of
       Gre_rule_ref \<Rightarrow>
         rbind (alternates rules (unat (e_value e))) (\<lambda>alts.
         rfold (\<lambda>sub acc.
           rbind (push_pos rules (pos_plus p 1) rest) (\<lambda>st.
           rbind (push_pos rules sub st) (\<lambda>st.
           llama_grammar_advance_stack fuel rules st acc))) alts acc)
     | Gre_char \<Rightarrow> Inr (push_unique (p # rest) acc)
     | Gre_char_not \<Rightarrow> Inr (push_unique (p # rest) acc)
     | Gre_char_any \<Rightarrow> Inr (push_unique (p # rest) acc)
     | _ \<Rightarrow> Inl Abort)"

section \<open>Rejecting candidates\<close>

definition cand_char :: "llama_grammar_candidate \<Rightarrow> 32 word" where
  "cand_char c = g_points c ! g_off c"

text \<open>One candidate against the top of a stack: rejected, or kept with the pointer advanced.\<close>

definition classify ::
    "grammar_rule list \<Rightarrow> grammar_pos \<Rightarrow> llama_grammar_candidate
      \<Rightarrow> llama_grammar_candidate list \<times> llama_grammar_candidate list
      \<Rightarrow> (llama_grammar_candidate list \<times> llama_grammar_candidate list) res" where
  "classify rules p c st = (case st of (rejects, nexts) \<Rightarrow>
     if length (g_points c) \<le> g_off c then Inl Out_of_bounds
     else if cand_char c = 0 then
       (if n_remain (g_partial c) = 0 then Inr (rejects, nexts)
        else rbind (llama_grammar_match_partial_char rules p (g_partial c)) (\<lambda>m.
          Inr (if m then rejects else rejects @ [c], nexts)))
     else
       rbind (llama_grammar_match_char rules p (cand_char c)) (\<lambda>(m, _).
         Inr (if m then (rejects, nexts @ [c\<lparr>g_off := g_off c + 1\<rparr>]) else (rejects @ [c], nexts))))"

text \<open>
  \<open>llama_grammar_reject_candidates_for_stack\<close> and \<open>llama_grammar_reject_candidates\<close> call
  each other, one code point deeper each time: \<open>d\<close> bounds that depth.
\<close>

definition reject_at_end :: "llama_grammar_candidate list \<Rightarrow> llama_grammar_candidate list" where
  "reject_at_end cs = filter (\<lambda>c. cand_char c \<noteq> 0 \<or> n_remain (g_partial c) \<noteq> 0) cs"

fun reject_for_stack ::
    "nat \<Rightarrow> nat \<Rightarrow> grammar_rule list \<Rightarrow> grammar_stack \<Rightarrow> llama_grammar_candidate list
      \<Rightarrow> llama_grammar_candidate list res" where
  "reject_for_stack 0 fuel rules st cs = Inl Out_of_fuel"
| "reject_for_stack (Suc d) fuel rules [] cs =
     (if \<exists>c \<in> set cs. length (g_points c) \<le> g_off c then Inl Out_of_bounds
      else Inr (reject_at_end cs))"
| "reject_for_stack (Suc d) fuel rules (p # rest) cs =
     rbind (rfold (classify rules p) cs ([], [])) (\<lambda>(rejects, nexts).
     rbind (llama_grammar_match_char rules p 0) (\<lambda>(_, after).
     rbind (push_pos rules after rest) (\<lambda>st.
     rbind (llama_grammar_advance_stack fuel rules st []) (\<lambda>stacks.
     rbind (guard (stacks \<noteq> []) Assert_failed) (\<lambda>_.
     rbind (if nexts = [] then Inr []
            else rfold (reject_for_stack d fuel rules) stacks nexts) (\<lambda>rs.
     Inr (rejects @ map (\<lambda>c. c\<lparr>g_off := g_off c - 1\<rparr>) rs)))))))"

definition max_depth :: "llama_grammar_candidate list \<Rightarrow> nat" where
  "max_depth cs = Suc (fold (\<lambda>c. max (length (g_points c))) cs 0)"

definition llama_grammar_reject_candidates ::
    "nat \<Rightarrow> grammar_rule list \<Rightarrow> grammar_stack list \<Rightarrow> llama_grammar_candidate list
      \<Rightarrow> llama_grammar_candidate list res" where
  "llama_grammar_reject_candidates fuel rules stacks cs =
     rbind (guard (stacks \<noteq> []) Assert_failed) (\<lambda>_.
     if cs = [] then Inr [] else rfold (reject_for_stack (max_depth cs) fuel rules) stacks cs)"

section \<open>Accepting\<close>

definition accept_stack ::
    "nat \<Rightarrow> grammar_rule list \<Rightarrow> 32 word \<Rightarrow> grammar_stack \<Rightarrow> grammar_stack list \<Rightarrow> grammar_stack list res" where
  "accept_stack fuel rules chr st acc =
     (case st of
        [] \<Rightarrow> Inr acc
      | p # rest \<Rightarrow>
          rbind (llama_grammar_match_char rules p chr) (\<lambda>(m, after).
          if m then rbind (push_pos rules after rest) (\<lambda>st'.
            llama_grammar_advance_stack fuel rules st' acc)
          else Inr acc))"

definition llama_grammar_accept :: "nat \<Rightarrow> 32 word \<Rightarrow> llama_grammar \<Rightarrow> llama_grammar res" where
  "llama_grammar_accept fuel chr g =
     rbind (rfold (accept_stack fuel (g_rules g) chr) (g_stacks g) []) (\<lambda>stacks.
     Inr (g\<lparr>g_stacks := stacks\<rparr>))"

text \<open>
  The vocabulary is a parameter: the bytes of a token and whether it ends the
  generation.  A null vocabulary fails the assertion.
\<close>

record grammar_vocab =
  token_to_piece :: "int \<Rightarrow> 8 word list"
  token_is_eog :: "int \<Rightarrow> bool"

definition llama_grammar_accept_impl ::
    "nat \<Rightarrow> grammar_vocab option \<Rightarrow> llama_grammar \<Rightarrow> int \<Rightarrow> llama_grammar res" where
  "llama_grammar_accept_impl fuel vocab g tok =
     (case vocab of
        None \<Rightarrow> Inl Assert_failed
      | Some v \<Rightarrow>
          if token_is_eog v tok then (if [] \<in> set (g_stacks g) then Inr g else Inl Abort)
          else
            let (cps, part) = decode_utf8 (token_to_piece v tok) (g_utf8 g) in
            rbind (rfold (llama_grammar_accept fuel) (butlast cps) g) (\<lambda>g.
            let g = g\<lparr>g_utf8 := part\<rparr> in
            rbind (guard (g_stacks g \<noteq> []) Assert_failed) (\<lambda>_. Inr g)))"

text \<open>
  \<open>llama_grammar_apply_impl\<close> over the token ids of the candidate array: the value says for
  each entry whether its logit stays (\<open>False\<close> is minus infinity).
\<close>

definition grammar_candidates ::
    "grammar_vocab \<Rightarrow> llama_partial_utf8 \<Rightarrow> int list \<Rightarrow> llama_grammar_candidate list" where
  "grammar_candidates v part ids =
     concat (map (\<lambda>i.
       let piece = token_to_piece v (ids ! i) in
       if token_is_eog v (ids ! i) \<or> piece = [] \<or> hd piece = 0 then []
       else let (cps, p) = decode_utf8 piece part in
         [\<lparr>g_index = i, g_points = cps, g_off = 0, g_partial = p\<rparr>]) [0..<length ids])"

definition llama_grammar_apply_impl ::
    "nat \<Rightarrow> grammar_vocab option \<Rightarrow> llama_grammar \<Rightarrow> int list \<Rightarrow> bool list res" where
  "llama_grammar_apply_impl fuel vocab g ids =
     (case vocab of
        None \<Rightarrow> Inl Assert_failed
      | Some v \<Rightarrow>
          let allow_eog = ([] \<in> set (g_stacks g)) in
          rbind (llama_grammar_reject_candidates fuel (g_rules g) (g_stacks g)
                   (grammar_candidates v (g_utf8 g) ids)) (\<lambda>rejects.
          Inr (map (\<lambda>i.
            let piece = token_to_piece v (ids ! i) in
            if token_is_eog v (ids ! i) then allow_eog
            else piece \<noteq> [] \<and> hd piece \<noteq> 0 \<and> i \<notin> set (map g_index rejects)) [0..<length ids])))"

section \<open>Left recursion\<close>

record lr_state =
  lr_visited :: "bool list"
  lr_in_progress :: "bool list"
  lr_may_be_empty :: "bool list"

text \<open>The first scan: some alternate is empty.\<close>

fun empty_alternate :: "llama_grammar_element list \<Rightarrow> bool \<Rightarrow> bool" where
  "empty_alternate [] at_start = False"
| "empty_alternate (e # es) at_start =
     (if is_end_of_sequence e then (if at_start then True else empty_alternate es True)
      else empty_alternate es False)"

text \<open>
  The second scan, over the elements of the rule, and the recursion it makes.  The depth
  \<open>d\<close> is bounded by the number of rules, as a rule in progress is never entered again.
\<close>

fun scan_left ::
    "(nat \<Rightarrow> lr_state \<Rightarrow> (bool \<times> lr_state) res) \<Rightarrow> llama_grammar_element list \<Rightarrow> bool \<Rightarrow> lr_state
      \<Rightarrow> (bool \<times> lr_state) res" where
  "scan_left detect [] rec s = Inr (False, s)"
| "scan_left detect (e # es) rec s =
     (if e_type e = Gre_rule_ref \<and> rec then
        rbind (detect (unat (e_value e)) s) (\<lambda>(found, s).
        if found then Inr (True, s)
        else scan_left detect es (lr_may_be_empty s ! unat (e_value e)) s)
      else scan_left detect es (is_end_of_sequence e) s)"

fun llama_grammar_detect_left_recursion ::
    "nat \<Rightarrow> grammar_rule list \<Rightarrow> nat \<Rightarrow> lr_state \<Rightarrow> (bool \<times> lr_state) res" where
  "llama_grammar_detect_left_recursion 0 rules r s = Inl Out_of_fuel"
| "llama_grammar_detect_left_recursion (Suc d) rules r s =
     (if length rules \<le> r then Inl Out_of_bounds
      else if lr_in_progress s ! r then Inr (True, s)
      else
        let s = s\<lparr>lr_in_progress := (lr_in_progress s)[r := True]\<rparr>;
            s = (if empty_alternate (rules ! r) True
                 then s\<lparr>lr_may_be_empty := (lr_may_be_empty s)[r := True]\<rparr> else s)
        in rbind (scan_left (llama_grammar_detect_left_recursion d rules) (rules ! r) True s) (\<lambda>(found, s).
           if found then Inr (True, s)
           else Inr (False, s\<lparr>lr_in_progress := (lr_in_progress s)[r := False],
                             lr_visited := (lr_visited s)[r := True]\<rparr>)))"

text \<open>The loop over all rules: \<open>True\<close> is the early return of a null grammar.\<close>

definition any_left_recursion :: "grammar_rule list \<Rightarrow> bool res" where
  "any_left_recursion rules =
     (let n = length rules in
      rbind (rfold (\<lambda>i (found, s).
          if found \<or> lr_visited s ! i then Inr (found, s)
          else llama_grammar_detect_left_recursion (Suc n) rules i s) [0..<n]
        (False, \<lparr>lr_visited = replicate n False, lr_in_progress = replicate n False,
                 lr_may_be_empty = replicate n False\<rparr>)) (\<lambda>(found, _). Inr found))"

section \<open>Initialising, cloning\<close>

text \<open>Each rule is copied up to its first \<open>END\<close>, which is added back; a rule without one is overrun.\<close>

definition copy_rule :: "grammar_rule \<Rightarrow> grammar_rule res" where
  "copy_rule rule =
     (let body = takeWhile (\<lambda>e. e_type e \<noteq> Gre_end) rule in
      if length body = length rule then Inl Out_of_bounds else Inr (body @ [elem Gre_end 0]))"

definition initial_stacks ::
    "nat \<Rightarrow> grammar_rule list \<Rightarrow> nat \<Rightarrow> grammar_stack list res" where
  "initial_stacks fuel rules start =
     rbind (alternates rules start) (\<lambda>alts.
     rfold (\<lambda>sub acc. rbind (push_pos rules sub []) (\<lambda>st.
       llama_grammar_advance_stack fuel rules st acc)) alts [])"

text \<open>The first \<open>llama_grammar_init_impl\<close>: \<open>None\<close> is a null pointer.\<close>

definition llama_grammar_init_rules ::
    "nat \<Rightarrow> grammar_rule list \<Rightarrow> nat \<Rightarrow> llama_grammar option res" where
  "llama_grammar_init_rules fuel rules start =
     rbind (rfold (\<lambda>r acc. rbind (copy_rule r) (\<lambda>r. Inr (acc @ [r]))) rules []) (\<lambda>vec.
     rbind (any_left_recursion vec) (\<lambda>lr.
     if lr then Inr None
     else rbind (initial_stacks fuel vec start) (\<lambda>stacks.
       Inr (Some \<lparr>g_rules = vec, g_stacks = stacks, g_utf8 = \<lparr>p_value = 0, n_remain = 0\<rparr>\<rparr>))))"

text \<open>
  \<open>llama_grammar_clone_impl\<close> finds for each stack pointer the element of the old rules it
  points at and takes the same place in the new ones: on pairs of indices a search for
  the pair itself, and a pointer it does not find stays as it is.
\<close>

definition redirect :: "grammar_rule list \<Rightarrow> grammar_pos \<Rightarrow> grammar_pos" where
  "redirect rules p =
     fold (\<lambda>r0 q. fold (\<lambda>r1 q. if p = (r0, r1) then (r0, r1) else q) [0..<length (rules ! r0)] q)
       [0..<length rules] p"

definition llama_grammar_clone_impl :: "llama_grammar \<Rightarrow> llama_grammar" where
  "llama_grammar_clone_impl g = g\<lparr>g_stacks := map (map (redirect (g_rules g))) (g_stacks g)\<rparr>"

end
