(* ===== verification/GrammarProps.thy ===== *)
theory GrammarProps
  imports Grammar
begin

text \<open>
  What the grammar engine computes: well-formed rules and stacks, the expansion relation
  of the pushdown automaton, and the functional behaviour of the engine's operations on
  well-formed input.
\<close>

section \<open>Well-formed rules\<close>

fun char_shape :: "llama_gretype \<Rightarrow> llama_grammar_element list \<Rightarrow> bool" where
  "char_shape prev [] = True"
| "char_shape prev (e # es) =
     ((e_type e = Gre_char_rng_upper \<longrightarrow> prev \<in> {Gre_char, Gre_char_not, Gre_char_alt}) \<and>
      (e_type e = Gre_char_alt \<longrightarrow> prev \<in> {Gre_char, Gre_char_not, Gre_char_alt, Gre_char_rng_upper}) \<and>
      char_shape (e_type e) es)"

definition rule_ok :: "nat \<Rightarrow> grammar_rule \<Rightarrow> bool" where
  "rule_ok n es \<longleftrightarrow> es \<noteq> [] \<and> e_type (last es) = Gre_end \<and>
     (\<forall>e \<in> set (butlast es). e_type e \<noteq> Gre_end) \<and> char_shape Gre_end es \<and>
     (\<forall>e \<in> set es. e_type e = Gre_rule_ref \<longrightarrow> unat (e_value e) < n)"

definition rules_ok :: "grammar_rule list \<Rightarrow> bool" where
  "rules_ok rules \<longleftrightarrow> (\<forall>es \<in> set rules. rule_ok (length rules) es)"

definition at :: "grammar_rule list \<Rightarrow> grammar_pos \<Rightarrow> llama_grammar_element" where
  "at rules p = rules ! fst p ! snd p"

definition valid_pos :: "grammar_rule list \<Rightarrow> grammar_pos \<Rightarrow> bool" where
  "valid_pos rules p \<longleftrightarrow> fst p < length rules \<and> snd p < length (rules ! fst p)"

text \<open>A pointer a stack may hold, and one that may be pushed unless it is at an end.\<close>

definition sym_types :: "llama_gretype set" where
  "sym_types = {Gre_rule_ref, Gre_char, Gre_char_not, Gre_char_any}"

definition pos_ok :: "grammar_rule list \<Rightarrow> grammar_pos \<Rightarrow> bool" where
  "pos_ok rules p \<longleftrightarrow> valid_pos rules p \<and> e_type (at rules p) \<in> sym_types"

definition boundary :: "grammar_rule list \<Rightarrow> grammar_pos \<Rightarrow> bool" where
  "boundary rules p \<longleftrightarrow> valid_pos rules p \<and> e_type (at rules p) \<in> sym_types \<union> {Gre_end, Gre_alt}"

definition stack_ok :: "grammar_rule list \<Rightarrow> grammar_stack \<Rightarrow> bool" where
  "stack_ok rules st \<longleftrightarrow> (\<forall>p \<in> set st. pos_ok rules p)"

lemma stack_ok_simps [simp]:
  "stack_ok rules []" "stack_ok rules (p # st) \<longleftrightarrow> pos_ok rules p \<and> stack_ok rules st"
  by (simp_all add: stack_ok_def)

lemma elems_at_valid:
  "valid_pos rules p \<Longrightarrow> elems_at rules p = at rules p # drop (Suc (snd p)) (rules ! fst p)"
  by (cases p) (simp add: elems_at_def valid_pos_def at_def Cons_nth_drop_Suc)

lemma deref_valid [simp]: "valid_pos rules p \<Longrightarrow> deref rules p = Inr (at rules p)"
  by (simp add: deref_def elems_at_valid)

lemma rule_okD:
  assumes "rules_ok rules" "r < length rules"
  shows "rule_ok (length rules) (rules ! r)" "rules ! r \<noteq> []"
  using assms by (auto simp: rules_ok_def rule_ok_def)

lemma end_is_last:
  assumes "rules_ok rules" "valid_pos rules p"
  shows "e_type (at rules p) = Gre_end \<longleftrightarrow> Suc (snd p) = length (rules ! fst p)"
proof -
  let ?es = "rules ! fst p" and ?i = "snd p"
  have i: "?i < length ?es" "fst p < length rules" using assms(2) by (simp_all add: valid_pos_def)
  have r: "rule_ok (length rules) ?es" by (rule rule_okD(1)[OF assms(1) i(2)])
  show ?thesis
  proof (cases "Suc ?i = length ?es")
    case True
    then have "?es ! ?i = last ?es" using i by (metis diff_Suc_1 last_conv_nth length_0_conv not_less_zero)
    then show ?thesis using r True by (simp add: rule_ok_def at_def)
  next
    case False
    then have "?es ! ?i \<in> set (butlast ?es)"
      using i by (metis Suc_lessI Suc_less_eq2 diff_Suc_1 in_set_conv_nth length_butlast nth_butlast)
    then show ?thesis using r False by (auto simp: rule_ok_def at_def)
  qed
qed

lemma next_valid:
  assumes "rules_ok rules" "valid_pos rules p" "e_type (at rules p) \<noteq> Gre_end"
  shows "valid_pos rules (pos_plus p 1)"
  using end_is_last[OF assms(1,2)] assms(2,3) by (auto simp: valid_pos_def pos_plus_def)

lemma char_shape_nth:
  assumes "char_shape prev es" "i < length es"
  shows "char_shape (e_type (es ! i)) (drop (Suc i) es)"
  using assms
proof (induction es arbitrary: prev i)
  case (Cons e es)
  then show ?case by (cases i) auto
qed simp

lemma next_shape:
  assumes "rules_ok rules" "valid_pos rules p" "valid_pos rules (pos_plus p 1)"
  shows "e_type (at rules (pos_plus p 1)) = Gre_char_rng_upper \<longrightarrow>
      e_type (at rules p) \<in> {Gre_char, Gre_char_not, Gre_char_alt}"
    and "e_type (at rules (pos_plus p 1)) = Gre_char_alt \<longrightarrow>
      e_type (at rules p) \<in> {Gre_char, Gre_char_not, Gre_char_alt, Gre_char_rng_upper}"
proof -
  let ?es = "rules ! fst p" and ?i = "snd p"
  have i: "Suc ?i < length ?es" "fst p < length rules"
    using assms(3) by (simp_all add: valid_pos_def pos_plus_def)
  have "char_shape Gre_end ?es" using rule_okD(1)[OF assms(1) i(2)] by (simp add: rule_ok_def)
  then have "char_shape (e_type (?es ! ?i)) (drop (Suc ?i) ?es)"
    by (rule char_shape_nth) (use i in simp)
  moreover have "drop (Suc ?i) ?es = ?es ! Suc ?i # drop (Suc (Suc ?i)) ?es"
    using i by (simp add: Cons_nth_drop_Suc)
  ultimately show "e_type (at rules (pos_plus p 1)) = Gre_char_rng_upper \<longrightarrow>
      e_type (at rules p) \<in> {Gre_char, Gre_char_not, Gre_char_alt}"
    and "e_type (at rules (pos_plus p 1)) = Gre_char_alt \<longrightarrow>
      e_type (at rules p) \<in> {Gre_char, Gre_char_not, Gre_char_alt, Gre_char_rng_upper}"
    by (auto simp: at_def pos_plus_def)
qed

lemma not_in_class:
  "t \<noteq> Gre_char_rng_upper \<Longrightarrow> t \<noteq> Gre_char_alt \<Longrightarrow> t \<in> sym_types \<union> {Gre_end, Gre_alt}"
  by (cases t) (auto simp: sym_types_def)

lemma ref_next_boundary:
  assumes "rules_ok rules" "valid_pos rules p" "e_type (at rules p) \<in> {Gre_rule_ref, Gre_alt}"
  shows "boundary rules (pos_plus p 1)"
proof -
  have v: "valid_pos rules (pos_plus p 1)" by (rule next_valid[OF assms(1,2)]) (use assms(3) in auto)
  show ?thesis
    using v next_shape[OF assms(1,2) v] assms(3) not_in_class[of "e_type (at rules (pos_plus p 1))"]
    by (auto simp: boundary_def)
qed

section \<open>Pushing\<close>

definition put :: "grammar_rule list \<Rightarrow> grammar_pos \<Rightarrow> grammar_stack \<Rightarrow> grammar_stack" where
  "put rules p st = (if is_end_of_sequence (at rules p) then st else p # st)"

lemma push_pos_boundary [simp]: "boundary rules p \<Longrightarrow> push_pos rules p st = Inr (put rules p st)"
  by (simp add: push_pos_def put_def boundary_def)

lemma put_ok: "boundary rules p \<Longrightarrow> stack_ok rules st \<Longrightarrow> stack_ok rules (put rules p st)"
  by (auto simp: put_def boundary_def pos_ok_def is_end_of_sequence_def)

section \<open>Alternates\<close>

text \<open>An alternate starts at the start of its rule and behind every \<open>ALT\<close>.\<close>

definition alt_start :: "grammar_rule list \<Rightarrow> grammar_pos \<Rightarrow> bool" where
  "alt_start rules p \<longleftrightarrow> valid_pos rules p \<and>
     (snd p = 0 \<or> e_type (at rules (fst p, snd p - 1)) = Gre_alt)"

lemma alternate_starts_spec:
  assumes "es \<noteq> []" "e_type (last es) = Gre_end" "\<forall>e \<in> set (butlast es). e_type e \<noteq> Gre_end"
  shows "\<exists>ss. alternate_starts es start i = Inr (start # ss) \<and>
    set ss = {i + Suc j | j. j < length es \<and> e_type (es ! j) = Gre_alt} \<and>
    (\<forall>s \<in> set ss. s < i + length es)"
  using assms
proof (induction es arbitrary: start i)
  case (Cons e es)
  show ?case
  proof (cases "e_type e = Gre_end")
    case True
    then have "es = []" using Cons.prems(3) by (cases es) auto
    then show ?thesis using True by (simp add: is_end_of_sequence_def)
  next
    case False
    then have ne: "es \<noteq> []" using Cons.prems(2) by auto
    have IH: "\<exists>ss. alternate_starts es s (Suc i) = Inr (s # ss) \<and>
        set ss = {Suc i + Suc j | j. j < length es \<and> e_type (es ! j) = Gre_alt} \<and>
        (\<forall>s \<in> set ss. s < Suc i + length es)" for s
      by (rule Cons.IH[OF ne]) (use Cons.prems ne in auto)
    have split: "{i + Suc j | j. j < length (e # es) \<and> e_type ((e # es) ! j) = Gre_alt} =
        (if e_type e = Gre_alt then {Suc i} else {}) \<union>
        {Suc i + Suc j | j. j < length es \<and> e_type (es ! j) = Gre_alt}"
      by (auto simp: less_Suc_eq_0_disj)
    show ?thesis
    proof (cases "e_type e = Gre_alt")
      case True
      obtain ss where "alternate_starts es (Suc i) (Suc i) = Inr (Suc i # ss)"
        "set ss = {Suc i + Suc j | j. j < length es \<and> e_type (es ! j) = Gre_alt}"
        "\<forall>s \<in> set ss. s < Suc i + length es"
        using IH by blast
      then show ?thesis
        unfolding split using True False ne by (auto simp: is_end_of_sequence_def)
    next
      case no: False
      obtain ss where "alternate_starts es start (Suc i) = Inr (start # ss)"
        "set ss = {Suc i + Suc j | j. j < length es \<and> e_type (es ! j) = Gre_alt}"
        "\<forall>s \<in> set ss. s < Suc i + length es"
        using IH by blast
      then show ?thesis
        unfolding split using no False by (auto simp: is_end_of_sequence_def)
    qed
  qed
qed simp

lemma alternates_spec:
  assumes "rules_ok rules" "r < length rules"
  shows "\<exists>alts. alternates rules r = Inr alts \<and> alts \<noteq> [] \<and>
    set alts = {p. alt_start rules p \<and> fst p = r}"
proof -
  let ?es = "rules ! r"
  have r: "?es \<noteq> []" "e_type (last ?es) = Gre_end" "\<forall>e \<in> set (butlast ?es). e_type e \<noteq> Gre_end"
    using rule_okD(1)[OF assms] by (simp_all add: rule_ok_def)
  obtain ss where ss: "alternate_starts ?es 0 0 = Inr (0 # ss)"
    "set ss = {Suc j | j. j < length ?es \<and> e_type (?es ! j) = Gre_alt}" "\<forall>s \<in> set ss. s < length ?es"
    using alternate_starts_spec[OF r, of 0 0] by auto
  have mem: "i \<in> set (0 # ss) \<longleftrightarrow> i < length ?es \<and> (i = 0 \<or> e_type (?es ! (i - 1)) = Gre_alt)" for i
  proof (cases i)
    case (Suc j)
    have "Suc j \<in> set ss \<longleftrightarrow> j < length ?es \<and> e_type (?es ! j) = Gre_alt" using ss(2) by auto
    then show ?thesis using Suc ss(3) by auto
  qed (use r(1) in simp)
  have "set (map (Pair r) (0 # ss)) = Pair r ` set (0 # ss)" by (rule set_map)
  also have "\<dots> = {p. alt_start rules p \<and> fst p = r}"
    using mem assms(2) by (force simp: alt_start_def valid_pos_def at_def simp del: list.set)
  finally have "set (map (Pair r) (0 # ss)) = {p. alt_start rules p \<and> fst p = r}" .
  then show ?thesis using ss(1) assms(2) by (simp add: alternates_def)
qed

lemma alt_start_boundary:
  assumes "rules_ok rules" "alt_start rules p"
  shows "boundary rules p"
proof (cases "snd p = 0")
  case True
  have v: "valid_pos rules p" using assms(2) by (simp add: alt_start_def)
  then have "rule_ok (length rules) (rules ! fst p)" using rule_okD(1)[OF assms(1)] by (simp add: valid_pos_def)
  then have "char_shape Gre_end (rules ! fst p)" by (simp add: rule_ok_def)
  then have "e_type (at rules p) \<noteq> Gre_char_rng_upper" "e_type (at rules p) \<noteq> Gre_char_alt"
    using v True by (cases "rules ! fst p"; auto simp: at_def valid_pos_def)+
  then show ?thesis using v not_in_class[of "e_type (at rules p)"] by (simp add: boundary_def)
next
  case False
  let ?q = "(fst p, snd p - 1)"
  have q: "valid_pos rules ?q" "e_type (at rules ?q) = Gre_alt" "pos_plus ?q 1 = p"
    using assms(2) False by (auto simp: alt_start_def valid_pos_def pos_plus_def prod_eq_iff)
  then show ?thesis using ref_next_boundary[OF assms(1) q(1)] by simp
qed

section \<open>The expansion relation\<close>

definition starts :: "grammar_rule list \<Rightarrow> grammar_pos \<Rightarrow> grammar_pos set" where
  "starts rules p = {a. alt_start rules a \<and> fst a = unat (e_value (at rules p))}"

definition unfold_ref :: "grammar_rule list \<Rightarrow> grammar_pos \<Rightarrow> grammar_stack \<Rightarrow> grammar_pos \<Rightarrow> grammar_stack" where
  "unfold_ref rules p rest a = put rules a (put rules (pos_plus p 1) rest)"

text \<open>
  One step of the pushdown automaton that reads nothing: a rule reference on top is
  replaced by one of the alternates of its rule, in front of what follows it.
\<close>

inductive expand1 :: "grammar_rule list \<Rightarrow> grammar_stack \<Rightarrow> grammar_stack \<Rightarrow> bool" for rules where
  expand_ref: "e_type (at rules p) = Gre_rule_ref \<Longrightarrow> a \<in> starts rules p
    \<Longrightarrow> expand1 rules (p # rest) (unfold_ref rules p rest a)"

inductive_cases expand1E: "expand1 rules st st'"

inductive_simps expand1_Nil [simp]: "expand1 rules [] st'"

inductive_simps expand1_Cons: "expand1 rules (p # rest) st'"

definition ready :: "grammar_rule list \<Rightarrow> grammar_stack \<Rightarrow> bool" where
  "ready rules st \<longleftrightarrow>
     (case st of [] \<Rightarrow> True | p # _ \<Rightarrow> e_type (at rules p) \<in> {Gre_char, Gre_char_not, Gre_char_any})"

definition closure :: "grammar_rule list \<Rightarrow> grammar_stack \<Rightarrow> grammar_stack set" where
  "closure rules st = {st'. (expand1 rules)\<^sup>*\<^sup>* st st' \<and> ready rules st'}"

lemma ready_stuck: "ready rules st \<Longrightarrow> \<not> expand1 rules st st'"
  by (cases st) (auto simp: ready_def expand1_Cons)

lemma closure_ready:
  assumes "ready rules st"
  shows "closure rules st = {st}"
  using assms ready_stuck[OF assms] by (auto simp: closure_def elim: converse_rtranclpE)

lemma closure_step:
  assumes "\<not> ready rules st"
  shows "closure rules st = (\<Union>st' \<in> {st'. expand1 rules st st'}. closure rules st')"
proof
  show "closure rules st \<subseteq> (\<Union>st' \<in> {st'. expand1 rules st st'}. closure rules st')"
  proof
    fix u assume "u \<in> closure rules st"
    then have u: "(expand1 rules)\<^sup>*\<^sup>* st u" "ready rules u" by (simp_all add: closure_def)
    from u(1) show "u \<in> (\<Union>st' \<in> {st'. expand1 rules st st'}. closure rules st')"
      by (rule converse_rtranclpE) (use u assms in \<open>auto simp: closure_def\<close>)
  qed
qed (auto simp: closure_def intro: converse_rtranclp_into_rtranclp)

lemma pos_ok_cases:
  assumes "pos_ok rules p"
  obtains (ref) "e_type (at rules p) = Gre_rule_ref"
  | (chr) "e_type (at rules p) \<in> {Gre_char, Gre_char_not, Gre_char_any}"
  using assms by (auto simp: pos_ok_def sym_types_def)

lemma pos_ok_ref:
  assumes "rules_ok rules" "pos_ok rules p" "e_type (at rules p) = Gre_rule_ref"
  shows "unat (e_value (at rules p)) < length rules" "boundary rules (pos_plus p 1)"
proof -
  have v: "fst p < length rules" "snd p < length (rules ! fst p)"
    using assms(2) by (simp_all add: pos_ok_def valid_pos_def)
  then have "at rules p \<in> set (rules ! fst p)" by (simp add: at_def)
  then show "unat (e_value (at rules p)) < length rules"
    using rule_okD(1)[OF assms(1) v(1)] assms(3) by (simp add: rule_ok_def)
  show "boundary rules (pos_plus p 1)"
    using ref_next_boundary[OF assms(1)] assms(2,3) by (simp add: pos_ok_def)
qed

lemma expansion_ok:
  assumes "rules_ok rules" "stack_ok rules (p # rest)" "e_type (at rules p) = Gre_rule_ref"
    and "a \<in> starts rules p"
  shows "stack_ok rules (unfold_ref rules p rest a)"
proof -
  have "boundary rules a" using alt_start_boundary[OF assms(1)] assms(4) by (simp add: starts_def)
  then show ?thesis
    using assms(2) pos_ok_ref(2)[OF assms(1) _ assms(3)] by (simp add: put_ok unfold_ref_def)
qed

lemma expand1_ok:
  assumes "rules_ok rules" "stack_ok rules st" "expand1 rules st st'"
  shows "stack_ok rules st'"
  using assms(3) assms(1,2) by cases (auto intro!: expansion_ok)

lemma closure_ok:
  assumes "rules_ok rules" "stack_ok rules st" "st' \<in> closure rules st"
  shows "stack_ok rules st'" "ready rules st'"
proof -
  have "(expand1 rules)\<^sup>*\<^sup>* st st'" and r: "ready rules st'" using assms(3) by (simp_all add: closure_def)
  from this(1) show "stack_ok rules st'"
    by (induction rule: rtranclp_induct) (use assms expand1_ok in blast)+
  show "ready rules st'" by (rule r)
qed

section \<open>The expansion computes the closure\<close>

text \<open>What a step of the accumulating loops does: only adds, and only new stacks.\<close>

definition adds :: "'a set \<Rightarrow> 'a list \<Rightarrow> 'a list \<Rightarrow> bool" where
  "adds C acc out \<longleftrightarrow> (\<exists>zs. out = acc @ zs) \<and> set out = set acc \<union> C \<and> (distinct acc \<longrightarrow> distinct out)"

lemma adds_refl [simp]: "adds {} acc acc"
  by (simp add: adds_def)

lemma adds_trans: "adds C acc mid \<Longrightarrow> adds D mid out \<Longrightarrow> adds (C \<union> D) acc out"
  by (auto simp: adds_def)

lemma adds_push_unique: "adds {st} acc (push_unique st acc)"
  by (auto simp: adds_def push_unique_def)

lemma rfold_adds:
  assumes "\<And>x acc out. x \<in> set xs \<Longrightarrow> f x acc = Inr out \<Longrightarrow> adds (C x) acc out"
    and "rfold f xs acc = Inr out"
  shows "adds (\<Union>x \<in> set xs. C x) acc out"
  using assms
proof (induction xs arbitrary: acc)
  case (Cons x xs)
  then obtain mid where "f x acc = Inr mid" "rfold f xs mid = Inr out" by auto
  then have "adds (C x) acc mid" "adds (\<Union>x \<in> set xs. C x) mid out"
    using Cons.prems(1) Cons.IH[OF Cons.prems(1)] by simp_all
  then show ?case using adds_trans by fastforce
qed simp

text \<open>A result that is a value or the report that the fuel ran out.\<close>

definition fuel_only :: "'a res \<Rightarrow> bool" where
  "fuel_only r \<longleftrightarrow> (\<forall>e. r = Inl e \<longrightarrow> e = Out_of_fuel)"

lemma fuel_only_simps [simp]: "fuel_only (Inr x)" "fuel_only (Inl Out_of_fuel)"
  by (simp_all add: fuel_only_def)

lemma fuel_only_rbind:
  "fuel_only m \<Longrightarrow> (\<And>x. m = Inr x \<Longrightarrow> fuel_only (f x)) \<Longrightarrow> fuel_only (rbind m f)"
  by (cases m) (simp_all add: fuel_only_def)

lemma fuel_only_rfold:
  assumes "\<And>x acc. x \<in> set xs \<Longrightarrow> fuel_only (f x acc)"
  shows "fuel_only (rfold f xs acc)"
  using assms by (induction xs arbitrary: acc) (simp_all add: fuel_only_rbind)

lemma advance_chr:
  assumes "pos_ok rules p" "e_type (at rules p) \<in> {Gre_char, Gre_char_not, Gre_char_any}"
  shows "llama_grammar_advance_stack (Suc fuel) rules (p # rest) acc = Inr (push_unique (p # rest) acc)"
  using assms by (auto simp: pos_ok_def)

text \<open>The alternates of the rule a reference names, each put in front of the continuation.\<close>

lemma advance_ref:
  assumes "rules_ok rules" "pos_ok rules p" "e_type (at rules p) = Gre_rule_ref"
  obtains alts where "alts \<noteq> []" "set alts = starts rules p"
    "\<forall>fuel acc. llama_grammar_advance_stack (Suc fuel) rules (p # rest) acc =
       rfold (\<lambda>a. llama_grammar_advance_stack fuel rules (unfold_ref rules p rest a)) alts acc"
proof -
  note r = pos_ok_ref[OF assms]
  obtain alts where a: "alternates rules (unat (e_value (at rules p))) = Inr alts" "alts \<noteq> []"
    "set alts = starts rules p"
    using alternates_spec[OF assms(1) r(1)] unfolding starts_def by blast
  have "rfold (\<lambda>sub acc. rbind (push_pos rules (pos_plus p 1) rest) (\<lambda>st.
          rbind (push_pos rules sub st) (\<lambda>st. llama_grammar_advance_stack fuel rules st acc))) xs acc =
        rfold (\<lambda>a. llama_grammar_advance_stack fuel rules (unfold_ref rules p rest a)) xs acc"
    if "set xs \<subseteq> set alts" for fuel acc xs
    using that
  proof (induction xs arbitrary: acc)
    case (Cons x xs)
    then have "boundary rules x" using a(3) alt_start_boundary[OF assms(1)] by (auto simp: starts_def)
    then have "rbind (push_pos rules (pos_plus p 1) rest) (\<lambda>st. rbind (push_pos rules x st)
        (\<lambda>st. llama_grammar_advance_stack fuel rules st acc)) =
      llama_grammar_advance_stack fuel rules (unfold_ref rules p rest x) acc"
      using r(2) by (simp add: unfold_ref_def)
    then show ?case using Cons
      by (cases "llama_grammar_advance_stack fuel rules (unfold_ref rules p rest x) acc") simp_all
  qed simp
  then have "llama_grammar_advance_stack (Suc fuel) rules (p # rest) acc =
       rfold (\<lambda>a. llama_grammar_advance_stack fuel rules (unfold_ref rules p rest a)) alts acc"
    for fuel acc
    using a(1) assms(2,3) by (simp add: pos_ok_def)
  then show thesis using that a(2,3) by blast
qed

lemma closure_ref:
  assumes "rules_ok rules" "pos_ok rules p" "e_type (at rules p) = Gre_rule_ref"
  shows "closure rules (p # rest) =
    (\<Union>a \<in> starts rules p. closure rules (unfold_ref rules p rest a))"
proof -
  have "\<not> ready rules (p # rest)" using assms(3) by (simp add: ready_def)
  then have "closure rules (p # rest) = (\<Union>st' \<in> {st'. expand1 rules (p # rest) st'}. closure rules st')"
    by (rule closure_step)
  also have "{st'. expand1 rules (p # rest) st'} =
      (\<lambda>a. unfold_ref rules p rest a) `
        starts rules p"
    using assms(3) by (auto simp: expand1_Cons)
  finally show ?thesis by simp
qed

lemma advance_adds:
  assumes "rules_ok rules" "stack_ok rules st"
    and "llama_grammar_advance_stack fuel rules st acc = Inr out"
  shows "adds (closure rules st) acc out"
  using assms(2,3)
proof (induction fuel arbitrary: st acc out)
  case (Suc fuel)
  show ?case
  proof (cases st)
    case Nil
    then show ?thesis
      using Suc.prems adds_push_unique[of "[]" acc] by (simp add: closure_ready ready_def)
  next
    case (Cons p rest)
    have p: "pos_ok rules p" "stack_ok rules rest" using Suc.prems(1) Cons by auto
    from p(1) show ?thesis
    proof (cases rule: pos_ok_cases)
      case chr
      then show ?thesis
        using Suc.prems(2) Cons advance_chr[OF p(1) chr, of fuel rest acc] adds_push_unique[of "p # rest" acc]
        by (simp add: closure_ready ready_def del: llama_grammar_advance_stack.simps)
    next
      case ref
      obtain alts where "alts \<noteq> []" and a: "set alts = starts rules p"
        "\<forall>fuel acc. llama_grammar_advance_stack (Suc fuel) rules (p # rest) acc =
          rfold (\<lambda>a. llama_grammar_advance_stack fuel rules (unfold_ref rules p rest a)) alts acc"
        using advance_ref[OF assms(1) p(1) ref, of rest] by blast
      have run: "rfold (\<lambda>a. llama_grammar_advance_stack fuel rules (unfold_ref rules p rest a)) alts acc = Inr out"
        using Suc.prems(2) a(2) unfolding Cons by simp
      have "stack_ok rules (unfold_ref rules p rest x)" if "x \<in> set alts" for x
        using expansion_ok[OF assms(1) _ ref, of rest x] that a(1) p by simp
      then show ?thesis
        using rfold_adds[OF Suc.IH run] a(1) Cons closure_ref[OF assms(1) p(1) ref, of rest] by simp
    qed
  qed
qed simp

lemma advance_fuel_only:
  assumes "rules_ok rules" "stack_ok rules st"
  shows "fuel_only (llama_grammar_advance_stack fuel rules st acc)"
  using assms(2)
proof (induction fuel arbitrary: st acc)
  case (Suc fuel)
  show ?case
  proof (cases st)
    case (Cons p rest)
    have p: "pos_ok rules p" "stack_ok rules rest" using Suc.prems Cons by auto
    from p(1) show ?thesis
    proof (cases rule: pos_ok_cases)
      case ref
      obtain alts where "alts \<noteq> []" and a: "set alts = starts rules p"
        "\<forall>fuel acc. llama_grammar_advance_stack (Suc fuel) rules (p # rest) acc =
          rfold (\<lambda>a. llama_grammar_advance_stack fuel rules (unfold_ref rules p rest a)) alts acc"
        using advance_ref[OF assms(1) p(1) ref, of rest] by blast
      have "stack_ok rules (unfold_ref rules p rest x)" if "x \<in> set alts" for x
        using expansion_ok[OF assms(1) _ ref, of rest x] that a(1) p by simp
      then have "fuel_only (rfold (\<lambda>a. llama_grammar_advance_stack fuel rules (unfold_ref rules p rest a)) alts acc)"
        by (intro fuel_only_rfold Suc.IH)
      then show ?thesis using a(2) unfolding Cons by simp
    next
      case chr
      then show ?thesis
        using advance_chr[OF p(1) chr, of fuel rest acc] by (simp add: Cons del: llama_grammar_advance_stack.simps)
    qed
  qed simp
qed simp

end
