(* ===== verification/GrammarHalts.thy ===== *)
theory GrammarHalts
  imports GrammarProps
begin

text \<open>
  When the expansion of a stack ends: more fuel never changes a result, an accessible
  stack has enough, every stack of a grammar without left recursion is accessible, and a
  grammar that passes the left recursion check has none if its nullable rules have an empty
  alternate.
\<close>

section \<open>Fuel\<close>

lemma rfold_mono:
  assumes "\<And>x acc out. x \<in> set xs \<Longrightarrow> f x acc = Inr out \<Longrightarrow> g x acc = Inr out"
    and "rfold f xs acc = Inr out"
  shows "rfold g xs acc = Inr out"
  using assms
proof (induction xs arbitrary: acc)
  case (Cons x xs)
  then obtain mid where "f x acc = Inr mid" "rfold f xs mid = Inr out" by auto
  then show ?case using Cons by simp
qed simp

lemma advance_mono:
  assumes "rules_ok rules" "stack_ok rules st"
    and "llama_grammar_advance_stack n rules st acc = Inr out" "n \<le> m"
  shows "llama_grammar_advance_stack m rules st acc = Inr out"
  using assms(2-)
proof (induction n arbitrary: m st acc out)
  case (Suc n)
  obtain k where m: "m = Suc k" "n \<le> k" using Suc.prems(3) by (cases m) auto
  show ?case
  proof (cases st)
    case Nil
    then show ?thesis using Suc.prems(2) m by simp
  next
    case (Cons p rest)
    have p: "pos_ok rules p" using Suc.prems(1) Cons by simp
    from p show ?thesis
    proof (cases rule: pos_ok_cases)
      case chr
      then show ?thesis using Suc.prems(2) advance_chr[OF p chr, of n rest acc] advance_chr[OF p chr, of k rest acc]
        unfolding m Cons by (simp del: llama_grammar_advance_stack.simps)
    next
      case ref
      obtain alts where "alts \<noteq> []" and a: "set alts = starts rules p"
        "\<forall>fuel acc. llama_grammar_advance_stack (Suc fuel) rules (p # rest) acc =
          rfold (\<lambda>a. llama_grammar_advance_stack fuel rules (unfold_ref rules p rest a)) alts acc"
        using advance_ref[OF assms(1) p ref, of rest] by blast
      have run: "rfold (\<lambda>a. llama_grammar_advance_stack n rules (unfold_ref rules p rest a)) alts acc = Inr out"
        using Suc.prems(2) a(2) unfolding Cons by simp
      have "rfold (\<lambda>a. llama_grammar_advance_stack k rules (unfold_ref rules p rest a)) alts acc = Inr out"
      proof (rule rfold_mono[OF _ run])
        fix x acc out assume x: "x \<in> set alts"
          "llama_grammar_advance_stack n rules (unfold_ref rules p rest x) acc = Inr out"
        have "stack_ok rules (unfold_ref rules p rest x)"
          by (rule expansion_ok[OF assms(1) _ ref]) (use Suc.prems(1) Cons x(1) a(1) in simp_all)
        then show "llama_grammar_advance_stack k rules (unfold_ref rules p rest x) acc = Inr out"
          by (rule Suc.IH[OF _ x(2) m(2)])
      qed
      then show ?thesis using a(2) unfolding m Cons by simp
    qed
  qed
qed simp

definition halts :: "grammar_rule list \<Rightarrow> grammar_stack \<Rightarrow> bool" where
  "halts rules st \<longleftrightarrow> Wellfounded.accp (\<lambda>st' st. expand1 rules st st') st"

lemma haltsI: "(\<And>st'. expand1 rules st st' \<Longrightarrow> halts rules st') \<Longrightarrow> halts rules st"
  unfolding halts_def by (rule accp.accI) simp

lemma halts_ready: "ready rules st \<Longrightarrow> halts rules st"
  using ready_stuck by (blast intro: haltsI)

lemma rfold_total:
  assumes "\<And>x acc. x \<in> set xs \<Longrightarrow> \<exists>out. f x acc = Inr out"
  shows "\<exists>out. rfold f xs acc = Inr out"
  using assms
proof (induction xs arbitrary: acc)
  case (Cons x xs)
  then obtain mid where "f x acc = Inr mid" by (meson list.set_intros(1))
  then show ?case using Cons by simp
qed simp

lemma halts_enough:
  assumes "rules_ok rules" "halts rules st" "stack_ok rules st"
  shows "\<exists>N. \<forall>fuel \<ge> N. \<forall>acc. \<exists>out. llama_grammar_advance_stack fuel rules st acc = Inr out"
  using assms(2,3) unfolding halts_def
proof (induction rule: accp.induct)
  case (accI st)
  show ?case
  proof (cases st)
    case Nil
    have "\<exists>out. llama_grammar_advance_stack fuel rules st acc = Inr out" if "1 \<le> fuel" for fuel acc
      using that Nil by (cases fuel) simp_all
    then show ?thesis by blast
  next
    case (Cons p rest)
    have p: "pos_ok rules p" using accI(3) Cons by simp
    from p show ?thesis
    proof (cases rule: pos_ok_cases)
      case chr
      have "\<exists>out. llama_grammar_advance_stack fuel rules st acc = Inr out" if "1 \<le> fuel" for fuel acc
        using that advance_chr[OF p chr] unfolding Cons
        by (cases fuel) (simp_all del: llama_grammar_advance_stack.simps)
      then show ?thesis by blast
    next
      case ref
      obtain alts where "alts \<noteq> []" and a: "set alts = starts rules p"
        "\<forall>fuel acc. llama_grammar_advance_stack (Suc fuel) rules (p # rest) acc =
          rfold (\<lambda>a. llama_grammar_advance_stack fuel rules (unfold_ref rules p rest a)) alts acc"
        using advance_ref[OF assms(1) p ref, of rest] by blast
      have each: "\<exists>N. \<forall>fuel \<ge> N. \<forall>acc. \<exists>out.
          llama_grammar_advance_stack fuel rules (unfold_ref rules p rest x) acc = Inr out"
        if x: "x \<in> set alts" for x
      proof -
        have "stack_ok rules (unfold_ref rules p rest x)"
          by (rule expansion_ok[OF assms(1) _ ref]) (use accI(3) Cons x a(1) in simp_all)
        moreover have "expand1 rules st (unfold_ref rules p rest x)"
          using ref x a(1) unfolding Cons by (simp add: expand_ref)
        ultimately show ?thesis using accI(2) by blast
      qed
      then obtain N where N: "\<forall>x \<in> set alts. \<forall>fuel \<ge> N x. \<forall>acc. \<exists>out.
          llama_grammar_advance_stack fuel rules (unfold_ref rules p rest x) acc = Inr out"
        by metis
      have "\<exists>out. llama_grammar_advance_stack fuel rules st acc = Inr out"
        if "Suc (Max (N ` set alts)) \<le> fuel" for fuel acc
      proof -
        obtain k where k: "fuel = Suc k" "Max (N ` set alts) \<le> k"
          using Suc_le_D[OF \<open>Suc (Max (N ` set alts)) \<le> fuel\<close>] \<open>Suc (Max (N ` set alts)) \<le> fuel\<close> by auto
        have "N x \<le> Max (N ` set alts)" if "x \<in> set alts" for x using that by simp
        then have "N x \<le> k" if "x \<in> set alts" for x using k(2) that order_trans by blast
        then have "\<exists>out. rfold (\<lambda>a. llama_grammar_advance_stack k rules (unfold_ref rules p rest a)) alts acc = Inr out"
          using N by (intro rfold_total) blast
        then show ?thesis using a(2) unfolding Cons k(1) by simp
      qed
      then show ?thesis by blast
    qed
  qed
qed

lemma starts_ne:
  assumes "rules_ok rules" "pos_ok rules p" "e_type (at rules p) = Gre_rule_ref"
  shows "starts rules p \<noteq> {}"
proof -
  obtain alts where "alts \<noteq> []" "set alts = {a. alt_start rules a \<and> fst a = unat (e_value (at rules p))}"
    using alternates_spec[OF assms(1) pos_ok_ref(1)[OF assms]] by blast
  then show ?thesis by (metis set_empty2 starts_def)
qed

lemma halts_closure:
  assumes "rules_ok rules" "halts rules st" "stack_ok rules st"
  shows "closure rules st \<noteq> {}"
  using assms(2,3) unfolding halts_def
proof (induction rule: accp.induct)
  case (accI st)
  show ?case
  proof (cases "ready rules st")
    case True
    then show ?thesis by (simp add: closure_ready)
  next
    case False
    then obtain p rest where st: "st = p # rest" by (cases st) (auto simp: ready_def)
    have p: "pos_ok rules p" using accI(3) st by simp
    have ref: "e_type (at rules p) = Gre_rule_ref"
      using p False by (cases rule: pos_ok_cases) (auto simp: ready_def st)
    obtain a where "a \<in> starts rules p" using starts_ne[OF assms(1) p ref] by blast
    then have e: "expand1 rules st (unfold_ref rules p rest a)" using ref st by (simp add: expand_ref)
    then have "closure rules (unfold_ref rules p rest a) \<noteq> {}"
      using accI(2) expand1_ok[OF assms(1) accI(3)] by blast
    then show ?thesis using e closure_step[OF False] by blast
  qed
qed

section \<open>What the left recursion check guarantees\<close>

text \<open>
  \<open>exposed\<close>: everything before the position in its alternate is a reference to a rule with
  an empty alternate; the check follows exactly the references at exposed positions.
\<close>

inductive exposed :: "grammar_rule list \<Rightarrow> grammar_pos \<Rightarrow> bool" for rules where
  exposed_start: "alt_start rules p \<Longrightarrow> exposed rules p"
| exposed_next: "exposed rules p \<Longrightarrow> e_type (at rules p) = Gre_rule_ref
    \<Longrightarrow> empty_alternate (rules ! unat (e_value (at rules p))) True \<Longrightarrow> exposed rules (pos_plus p 1)"

definition left_edge :: "grammar_rule list \<Rightarrow> nat \<Rightarrow> nat \<Rightarrow> bool" where
  "left_edge rules r s \<longleftrightarrow> (\<exists>p. exposed rules p \<and> valid_pos rules p \<and> fst p = r \<and>
     e_type (at rules p) = Gre_rule_ref \<and> s = unat (e_value (at rules p)))"

definition lr_free :: "grammar_rule list \<Rightarrow> nat \<Rightarrow> bool" where
  "lr_free rules r \<longleftrightarrow> Wellfounded.accp (\<lambda>s r. left_edge rules r s) r"

text \<open>A position from which the rest of the alternate derives the empty string.\<close>

inductive vanishes :: "grammar_rule list \<Rightarrow> grammar_pos \<Rightarrow> bool" for rules where
  vanishes_end: "is_end_of_sequence (at rules p) \<Longrightarrow> vanishes rules p"
| vanishes_ref: "e_type (at rules p) = Gre_rule_ref \<Longrightarrow> a \<in> starts rules p \<Longrightarrow> vanishes rules a
    \<Longrightarrow> vanishes rules (pos_plus p 1) \<Longrightarrow> vanishes rules p"

definition nullable :: "grammar_rule list \<Rightarrow> nat \<Rightarrow> bool" where
  "nullable rules r \<longleftrightarrow> (\<exists>a. alt_start rules a \<and> fst a = r \<and> vanishes rules a)"

definition plainly_nullable :: "grammar_rule list \<Rightarrow> bool" where
  "plainly_nullable rules \<longleftrightarrow>
     (\<forall>r < length rules. nullable rules r \<longrightarrow> empty_alternate (rules ! r) True)"

text \<open>
  \<open>front\<close>: everything before the position in its alternate can derive the empty string, so that
  what stands there can come first.  A grammar is left recursive when a rule can come first in
  itself.
\<close>

inductive front :: "grammar_rule list \<Rightarrow> grammar_pos \<Rightarrow> bool" for rules where
  front_start: "alt_start rules p \<Longrightarrow> front rules p"
| front_next: "front rules p \<Longrightarrow> e_type (at rules p) = Gre_rule_ref
    \<Longrightarrow> nullable rules (unat (e_value (at rules p))) \<Longrightarrow> front rules (pos_plus p 1)"

definition first_edge :: "grammar_rule list \<Rightarrow> nat \<Rightarrow> nat \<Rightarrow> bool" where
  "first_edge rules r s \<longleftrightarrow> (\<exists>p. front rules p \<and> valid_pos rules p \<and> fst p = r \<and>
     e_type (at rules p) = Gre_rule_ref \<and> s = unat (e_value (at rules p)))"

definition left_recursive :: "grammar_rule list \<Rightarrow> bool" where
  "left_recursive rules \<longleftrightarrow> (\<exists>r. (first_edge rules)\<^sup>+\<^sup>+ r r)"

definition front_free :: "grammar_rule list \<Rightarrow> nat \<Rightarrow> bool" where
  "front_free rules r \<longleftrightarrow> Wellfounded.accp (\<lambda>s r. first_edge rules r s) r"

lemma boundary_cases:
  assumes "boundary rules p"
  obtains (fin) "is_end_of_sequence (at rules p)" | (ok) "pos_ok rules p" "\<not> is_end_of_sequence (at rules p)"
  using assms by (auto simp: boundary_def pos_ok_def is_end_of_sequence_def sym_types_def)

lemma put_end: "is_end_of_sequence (at rules p) \<Longrightarrow> put rules p st = st"
  by (simp add: put_def)

lemma put_sym: "\<not> is_end_of_sequence (at rules p) \<Longrightarrow> put rules p st = p # st"
  by (simp add: put_def)

lemma halts_ref:
  assumes "e_type (at rules p) = Gre_rule_ref"
    and "\<And>a. a \<in> starts rules p \<Longrightarrow> halts rules (unfold_ref rules p rest a)"
  shows "halts rules (p # rest)"
  by (rule haltsI) (use assms in \<open>auto simp: expand1_Cons\<close>)

lemma remaining_induct [consumes 1, case_names step]:
  assumes "valid_pos rules p"
    and "\<And>p. valid_pos rules p \<Longrightarrow> (valid_pos rules (pos_plus p 1) \<Longrightarrow> P (pos_plus p 1)) \<Longrightarrow> P p"
  shows "P p"
  using assms(1)
proof (induction "length (rules ! fst p) - snd p" arbitrary: p rule: less_induct)
  case less
  show ?case
  proof (rule assms(2)[OF less.prems])
    assume v: "valid_pos rules (pos_plus p 1)"
    then have "length (rules ! fst (pos_plus p 1)) - snd (pos_plus p 1) < length (rules ! fst p) - snd p"
      by (auto simp: valid_pos_def pos_plus_def)
    then show "P (pos_plus p 1)" using less.hyps v by blast
  qed
qed

lemma rule_halts:
  assumes ok: "rules_ok rules" and "front_free rules r"
  shows "\<forall>a rest. alt_start rules a \<longrightarrow> fst a = r \<longrightarrow> (nullable rules r \<longrightarrow> halts rules rest) \<longrightarrow>
    halts rules (put rules a rest)"
  using assms(2) unfolding front_free_def
proof (induction rule: accp.induct)
  case (accI r)
  have main: "front rules p \<longrightarrow> fst p = r \<longrightarrow> boundary rules p \<longrightarrow> (vanishes rules p \<longrightarrow> halts rules rest) \<longrightarrow>
      halts rules (put rules p rest)" if "valid_pos rules p" for p rest
    using that
  proof (induction rule: remaining_induct)
    case (step p)
    show ?case
    proof (intro impI)
      assume p: "front rules p" "fst p = r" "boundary rules p" "vanishes rules p \<longrightarrow> halts rules rest"
      from p(3) show "halts rules (put rules p rest)"
      proof (cases rule: boundary_cases)
        case fin
        then show ?thesis using p(4) by (simp add: put_end vanishes_end)
      next
        case ok
        from ok(1) show ?thesis
        proof (cases rule: pos_ok_cases)
          case chr
          then show ?thesis using ok(2) by (simp add: put_sym halts_ready ready_def)
        next
          case ref
          let ?C = "unat (e_value (at rules p))" and ?rest = "put rules (pos_plus p 1) rest"
          note r = pos_ok_ref[OF \<open>rules_ok rules\<close> ok(1) ref]
          have edge: "first_edge rules r ?C"
            unfolding first_edge_def using p(1,2) ok(1) ref by (intro exI[of _ p]) (simp add: pos_ok_def)
          have "halts rules ?rest" if n: "nullable rules ?C"
          proof -
            have "front rules (pos_plus p 1)" using p(1) ref n by (rule front_next)
            moreover have "vanishes rules p" if "vanishes rules (pos_plus p 1)"
            proof -
              obtain a where "alt_start rules a" "fst a = ?C" "vanishes rules a"
                using n by (auto simp: nullable_def)
              then show ?thesis using vanishes_ref[OF ref, of a] that by (simp add: starts_def)
            qed
            moreover have "valid_pos rules (pos_plus p 1)" "fst (pos_plus p 1) = r"
              using r(2) p(2) by (simp_all add: boundary_def pos_plus_def)
            ultimately show ?thesis using step.IH r(2) p(4) by blast
          qed
          then have "halts rules (unfold_ref rules p rest a)" if "a \<in> starts rules p" for a
            using accI(2)[OF edge] that unfolding unfold_ref_def starts_def by blast
          then show ?thesis using ok(2) ref by (simp add: put_sym halts_ref)
        qed
      qed
    qed
  qed
  show ?case
  proof (intro allI impI)
    fix a rest assume a: "alt_start rules a" "fst a = r" "nullable rules r \<longrightarrow> halts rules rest"
    have "vanishes rules a \<longrightarrow> halts rules rest" using a unfolding nullable_def by blast
    moreover have "valid_pos rules a" using a(1) by (simp add: alt_start_def)
    ultimately show "halts rules (put rules a rest)"
      using main[of a rest] a(1,2) alt_start_boundary[OF ok a(1)] front_start by blast
  qed
qed

lemma stacks_halt:
  assumes ok: "rules_ok rules" and free: "\<forall>r < length rules. front_free rules r" and "stack_ok rules st"
  shows "halts rules st"
  using assms(3)
proof (induction st)
  case (Cons p rest)
  have rest: "halts rules rest" using Cons by simp
  have "boundary rules p \<longrightarrow> halts rules (put rules p rest)" if "valid_pos rules p" for p
    using that
  proof (induction rule: remaining_induct)
    case (step p)
    show ?case
    proof
      assume "boundary rules p"
      then show "halts rules (put rules p rest)"
      proof (cases rule: boundary_cases)
        case ok: ok
        from ok(1) show ?thesis
        proof (cases rule: pos_ok_cases)
          case chr
          then show ?thesis using ok(2) by (simp add: put_sym halts_ready ready_def)
        next
          case ref
          note r = pos_ok_ref[OF \<open>rules_ok rules\<close> ok(1) ref]
          have "valid_pos rules (pos_plus p 1)" using r(2) by (simp add: boundary_def)
          from step.IH[OF this] r(2) have "halts rules (put rules (pos_plus p 1) rest)" by blast
          then have "halts rules (unfold_ref rules p rest a)" if "a \<in> starts rules p" for a
            using rule_halts[OF \<open>rules_ok rules\<close>, of "unat (e_value (at rules p))"] free r(1) that
            unfolding unfold_ref_def starts_def by blast
          then show ?thesis using ok(2) ref by (simp add: put_sym halts_ref)
        qed
      qed (simp add: put_end rest)
    qed
  qed
  moreover have "valid_pos rules p" "boundary rules p" "put rules p rest = p # rest"
    using Cons.prems by (auto simp: pos_ok_def boundary_def put_def is_end_of_sequence_def sym_types_def)
  ultimately show ?case by metis
qed (simp add: halts_ready ready_def)

section \<open>Left recursion\<close>

lemma first_edge_less:
  assumes "rules_ok rules" "first_edge rules r s"
  shows "r < length rules" "s < length rules"
proof -
  obtain p where p: "valid_pos rules p" "fst p = r" "e_type (at rules p) = Gre_rule_ref" "s = unat (e_value (at rules p))"
    using assms(2) by (auto simp: first_edge_def)
  then have "at rules p \<in> set (rules ! r)" by (auto simp: valid_pos_def at_def)
  then show "r < length rules" "s < length rules"
    using p rule_okD(1)[OF assms(1), of r] by (auto simp: valid_pos_def rule_ok_def)
qed

lemma front_free_acyclic:
  assumes "front_free rules r"
  shows "\<not> (first_edge rules)\<^sup>+\<^sup>+ r r"
  using assms unfolding front_free_def
proof (induction rule: accp.induct)
  case (accI r)
  show ?case
  proof
    assume "(first_edge rules)\<^sup>+\<^sup>+ r r"
    then obtain s where s: "first_edge rules r s" "(first_edge rules)\<^sup>*\<^sup>* s r" by (metis tranclpD)
    then have "(first_edge rules)\<^sup>+\<^sup>+ s s" by (metis rtranclp_into_tranclp1)
    then show False using accI.IH[OF s(1)] by blast
  qed
qed

lemma not_left_recursive_free:
  assumes "rules_ok rules" "\<not> left_recursive rules"
  shows "front_free rules r"
proof -
  let ?R = "{(s, r). first_edge rules r s}"
  have "?R \<subseteq> {..<length rules} \<times> {..<length rules}" using first_edge_less[OF assms(1)] by auto
  then have "finite ?R" by (rule finite_subset) simp
  moreover have "acyclic ?R"
  proof -
    have "?R = {(r, s). first_edge rules r s}\<inverse>" by auto
    moreover have "acyclic {(r, s). first_edge rules r s}"
      using assms(2) by (simp add: acyclic_def left_recursive_def tranclp_unfold)
    ultimately show ?thesis by (simp add: acyclic_converse)
  qed
  ultimately have "wf ?R" by (rule finite_acyclic_wf)
  then show ?thesis
    unfolding front_free_def
  proof (induction r rule: wf_induct_rule)
    case (less r)
    show ?case by (rule accp.accI) (rule less, simp)
  qed
qed

lemma no_left_recursion_halts:
  assumes "rules_ok rules" "\<not> left_recursive rules" "stack_ok rules st"
  shows "halts rules st"
  using stacks_halt[OF assms(1) _ assms(3)] not_left_recursive_free[OF assms(1,2)] by blast

text \<open>Where the check sees every empty rule, what it calls exposed is the front.\<close>

lemma front_exposed:
  assumes "rules_ok rules" "plainly_nullable rules" "front rules p"
  shows "exposed rules p"
  using assms(3)
proof (induction rule: front.induct)
  case (front_next p)
  obtain a where "alt_start rules a" "fst a = unat (e_value (at rules p))"
    using front_next.hyps(3) by (auto simp: nullable_def)
  then have "unat (e_value (at rules p)) < length rules" by (auto simp: alt_start_def valid_pos_def)
  then show ?case using front_next assms(2) by (intro exposed_next) (auto simp: plainly_nullable_def)
qed (rule exposed_start)

lemma lr_free_front_free:
  assumes "rules_ok rules" "plainly_nullable rules" "lr_free rules r"
  shows "front_free rules r"
proof -
  have "(\<lambda>s r. first_edge rules r s) \<le> (\<lambda>s r. left_edge rules r s)"
    using front_exposed[OF assms(1,2)] by (auto simp: first_edge_def left_edge_def)
  from accp_subset[OF this] show ?thesis using assms(3) unfolding front_free_def lr_free_def by (rule predicate1D)
qed

text \<open>
  A certificate: \<open>E\<close> contains the rules that can be empty and \<open>f\<close> falls along every first edge.
\<close>

fun ranked_elems :: "nat set \<Rightarrow> (nat \<Rightarrow> nat) \<Rightarrow> nat \<Rightarrow> bool \<Rightarrow> llama_grammar_element list \<Rightarrow> bool" where
  "ranked_elems E f r b [] = True"
| "ranked_elems E f r b (e # es) =
     (if is_end_of_sequence e then (b \<longrightarrow> r \<in> E) \<and> ranked_elems E f r True es
      else if e_type e = Gre_rule_ref then
        (b \<longrightarrow> f (unat (e_value e)) < f r) \<and> ranked_elems E f r (b \<and> unat (e_value e) \<in> E) es
      else ranked_elems E f r False es)"

definition ranked :: "nat set \<Rightarrow> (nat \<Rightarrow> nat) \<Rightarrow> grammar_rule list \<Rightarrow> bool" where
  "ranked E f rules \<longleftrightarrow> (\<forall>r \<in> {0..<length rules}. ranked_elems E f r True (rules ! r))"

lemma ranked_behind_end:
  "ranked_elems E f r b es \<Longrightarrow> j < length es \<Longrightarrow> is_end_of_sequence (es ! j) \<Longrightarrow> ranked_elems E f r True (drop (Suc j) es)"
proof (induction es arbitrary: b j)
  case (Cons e es)
  then show ?case by (cases j) (auto split: if_splits)
qed simp

lemma ranked_start:
  assumes "ranked E f rules" "alt_start rules a"
  shows "ranked_elems E f (fst a) True (drop (snd a) (rules ! fst a))"
proof (cases "snd a")
  case 0
  then show ?thesis using assms by (simp add: ranked_def alt_start_def valid_pos_def)
next
  case (Suc j)
  then have "is_end_of_sequence (rules ! fst a ! j)" "j < length (rules ! fst a)"
    using assms(2) by (auto simp: alt_start_def valid_pos_def at_def is_end_of_sequence_def)
  then show ?thesis
    using ranked_behind_end[of E f "fst a" True "rules ! fst a" j] assms Suc
    by (simp add: ranked_def alt_start_def valid_pos_def)
qed

lemma ranked_step:
  assumes "valid_pos rules p" "ranked_elems E f (fst p) True (drop (snd p) (rules ! fst p))"
    and "e_type (at rules p) = Gre_rule_ref"
  shows "f (unat (e_value (at rules p))) < f (fst p)"
    and "unat (e_value (at rules p)) \<in> E \<Longrightarrow>
      ranked_elems E f (fst (pos_plus p 1)) True (drop (snd (pos_plus p 1)) (rules ! fst (pos_plus p 1)))"
proof -
  have e: "drop (snd p) (rules ! fst p) = at rules p # drop (Suc (snd p)) (rules ! fst p)"
    using assms(1) by (simp add: valid_pos_def at_def Cons_nth_drop_Suc)
  have "\<not> is_end_of_sequence (at rules p)" using assms(3) by (simp add: is_end_of_sequence_def)
  then show "f (unat (e_value (at rules p))) < f (fst p)"
    "unat (e_value (at rules p)) \<in> E \<Longrightarrow>
      ranked_elems E f (fst (pos_plus p 1)) True (drop (snd (pos_plus p 1)) (rules ! fst (pos_plus p 1)))"
    using assms(2,3) unfolding e by (simp_all add: pos_plus_def)
qed

lemma ranked_vanishes:
  assumes "rules_ok rules" "ranked E f rules" "vanishes rules p"
    and "valid_pos rules p" "ranked_elems E f (fst p) True (drop (snd p) (rules ! fst p))"
  shows "fst p \<in> E"
  using assms(3-5)
proof (induction rule: vanishes.induct)
  case (vanishes_end p)
  have "drop (snd p) (rules ! fst p) = at rules p # drop (Suc (snd p)) (rules ! fst p)"
    using vanishes_end(2) by (simp add: valid_pos_def at_def Cons_nth_drop_Suc)
  then show ?case using vanishes_end by simp
next
  case (vanishes_ref p a)
  have a: "alt_start rules a" "fst a = unat (e_value (at rules p))" "valid_pos rules a"
    using vanishes_ref.hyps(2) unfolding starts_def alt_start_def by blast+
  have "unat (e_value (at rules p)) \<in> E"
    using vanishes_ref.IH(1)[OF a(3) ranked_start[OF assms(2) a(1)]] a(2) by simp
  moreover have "valid_pos rules (pos_plus p 1)"
    by (rule next_valid[OF assms(1) vanishes_ref.prems(1)]) (simp add: vanishes_ref.hyps(1))
  ultimately show ?case
    using vanishes_ref.IH(2) ranked_step(2)[OF vanishes_ref.prems vanishes_ref.hyps(1)]
    by (simp add: pos_plus_def)
qed

lemma ranked_not_left_recursive:
  assumes "rules_ok rules" "ranked E f rules"
  shows "\<not> left_recursive rules"
proof -
  have nullable: "r \<in> E" if "nullable rules r" for r
  proof -
    obtain a where a: "alt_start rules a" "fst a = r" "vanishes rules a" using \<open>nullable rules r\<close> unfolding nullable_def by blast
    then show ?thesis
      using ranked_vanishes[OF assms a(3) _ ranked_start[OF assms(2) a(1)]] by (simp add: alt_start_def)
  qed
  have front: "valid_pos rules p \<longrightarrow> ranked_elems E f (fst p) True (drop (snd p) (rules ! fst p))"
    if "front rules p" for p
    using that
  proof (induction rule: front.induct)
    case (front_next p)
    show ?case
    proof
      assume "valid_pos rules (pos_plus p 1)"
      then have v: "valid_pos rules p" by (simp add: valid_pos_def pos_plus_def)
      then show "ranked_elems E f (fst (pos_plus p 1)) True (drop (snd (pos_plus p 1)) (rules ! fst (pos_plus p 1)))"
        using ranked_step(2)[OF v _ front_next.hyps(2)] front_next nullable by blast
    qed
  qed (use ranked_start[OF assms(2)] in blast)
  have edge: "f s < f r" if edge: "first_edge rules r s" for r s
  proof -
    obtain p where p: "front rules p" "valid_pos rules p" "fst p = r" "e_type (at rules p) = Gre_rule_ref"
      "s = unat (e_value (at rules p))" using edge unfolding first_edge_def by blast
    then have "ranked_elems E f (fst p) True (drop (snd p) (rules ! fst p))" using front by blast
    from ranked_step(1)[OF p(2) this p(4)] show ?thesis using p(3,5) by simp
  qed
  have "f s < f r" if "(first_edge rules)\<^sup>+\<^sup>+ r s" for r s
    using that by induction (auto dest: edge intro: less_trans)
  then show ?thesis by (auto simp: left_recursive_def)
qed

section \<open>The check is sound\<close>

definition lr_sound :: "grammar_rule list \<Rightarrow> lr_state \<Rightarrow> bool" where
  "lr_sound rules s \<longleftrightarrow>
     length (lr_visited s) = length rules \<and> length (lr_in_progress s) = length rules \<and>
     length (lr_may_be_empty s) = length rules \<and>
     (\<forall>v < length rules. lr_visited s ! v \<longrightarrow> lr_free rules v) \<and>
     (\<forall>v < length rules. lr_may_be_empty s ! v \<longrightarrow> empty_alternate (rules ! v) True)"

definition lr_keeps :: "grammar_rule list \<Rightarrow> lr_state \<Rightarrow> lr_state \<Rightarrow> bool" where
  "lr_keeps rules s s' \<longleftrightarrow> (\<forall>v < length rules. lr_may_be_empty s ! v \<longrightarrow> lr_may_be_empty s' ! v)"

definition lr_found :: "grammar_rule list \<Rightarrow> nat \<Rightarrow> lr_state \<Rightarrow> lr_state \<Rightarrow> bool" where
  "lr_found rules v s s' \<longleftrightarrow> lr_sound rules s' \<and> lr_keeps rules s s' \<and> lr_free rules v \<and>
     (empty_alternate (rules ! v) True \<longrightarrow> lr_may_be_empty s' ! v)"

definition refs_free :: "grammar_rule list \<Rightarrow> nat \<Rightarrow> nat \<Rightarrow> bool" where
  "refs_free rules r i \<longleftrightarrow> (\<forall>j. i \<le> j \<longrightarrow> j < length (rules ! r) \<longrightarrow> exposed rules (r, j) \<longrightarrow>
     e_type (at rules (r, j)) = Gre_rule_ref \<longrightarrow> lr_free rules (unat (e_value (at rules (r, j)))))"

lemma refs_free_step:
  assumes "refs_free rules r (Suc i)" "i < length (rules ! r)"
    and "exposed rules (r, i) \<Longrightarrow> e_type (at rules (r, i)) = Gre_rule_ref \<Longrightarrow>
      lr_free rules (unat (e_value (at rules (r, i))))"
  shows "refs_free rules r i"
  unfolding refs_free_def
proof (intro allI impI)
  fix j assume j: "i \<le> j" "j < length (rules ! r)" "exposed rules (r, j)" "e_type (at rules (r, j)) = Gre_rule_ref"
  show "lr_free rules (unat (e_value (at rules (r, j))))"
  proof (cases "j = i")
    case False
    then have "Suc i \<le> j" using j(1) by simp
    then show ?thesis using assms(1) j(2-) unfolding refs_free_def by blast
  qed (use assms(3) j in blast)
qed

lemma exposed_cases:
  assumes "exposed rules (r, Suc i)" "\<not> alt_start rules (r, Suc i)"
  shows "exposed rules (r, i) \<and> e_type (at rules (r, i)) = Gre_rule_ref \<and>
    empty_alternate (rules ! unat (e_value (at rules (r, i)))) True"
  using assms by cases (auto simp: pos_plus_def prod_eq_iff)

lemma exposed_Suc:
  assumes "rules_ok rules" "r < length rules" "Suc i < length (rules ! r)"
  shows "exposed rules (r, Suc i) \<longleftrightarrow>
    (if e_type (at rules (r, i)) = Gre_rule_ref \<and> exposed rules (r, i)
     then empty_alternate (rules ! unat (e_value (at rules (r, i)))) True
     else is_end_of_sequence (at rules (r, i)))"
proof -
  have v: "valid_pos rules (r, i)" using assms(2,3) by (simp add: valid_pos_def)
  have ne: "e_type (at rules (r, i)) \<noteq> Gre_end" using end_is_last[OF assms(1) v] assms(3) by auto
  have st: "alt_start rules (r, Suc i) \<longleftrightarrow> e_type (at rules (r, i)) = Gre_alt"
    using assms(2,3) by (simp add: alt_start_def valid_pos_def)
  show ?thesis
  proof (cases "e_type (at rules (r, i)) = Gre_alt")
    case True
    then show ?thesis using st exposed_start[of rules "(r, Suc i)"] by (simp add: is_end_of_sequence_def)
  next
    case False
    then have "exposed rules (r, Suc i) \<longleftrightarrow> exposed rules (r, i) \<and> e_type (at rules (r, i)) = Gre_rule_ref \<and>
        empty_alternate (rules ! unat (e_value (at rules (r, i)))) True"
      using exposed_cases[of rules r i] exposed_next[of rules "(r, i)"] st by (auto simp: pos_plus_def)
    then show ?thesis using False ne by (auto simp: is_end_of_sequence_def)
  qed
qed

text \<open>
  The scan from index \<open>i\<close> of rule \<open>r\<close> with its flag: every exposed reference from there
  on is entered, and the rules entered are free of left recursion.
\<close>

lemma scan_left_sound:
  assumes "rules_ok rules" "r < length rules"
    and det: "\<And>v s s'. v < length rules \<Longrightarrow> lr_sound rules s \<Longrightarrow> detect v s = Inr (False, s') \<Longrightarrow>
      lr_found rules v s s'"
    and "scan_left detect es rec s = Inr (False, s')" "lr_sound rules s"
    and "es = drop i (rules ! r)" "i < length (rules ! r) \<longrightarrow> (rec \<longleftrightarrow> exposed rules (r, i))"
  shows "lr_sound rules s' \<and> lr_keeps rules s s' \<and> refs_free rules r i"
  using assms(4-)
proof (induction es arbitrary: i rec s)
  case Nil
  then show ?case by (simp add: lr_keeps_def refs_free_def)
next
  case (Cons e es)
  have i: "i < length (rules ! r)" using Cons.prems(3) by (metis drop_all list.distinct(1) not_le)
  have e: "at rules (r, i) = e" "es = drop (Suc i) (rules ! r)"
    using Cons.prems(3) i by (simp_all add: at_def Cons_nth_drop_Suc[symmetric])
  have rec: "rec = exposed rules (r, i)" using Cons.prems(4) i by simp
  note exp = exposed_Suc[OF assms(1,2), of i, unfolded e(1)]
  show ?case
  proof (cases "e_type e = Gre_rule_ref \<and> rec")
    case True
    let ?v = "unat (e_value e)"
    obtain s1 where d: "detect ?v s = Inr (False, s1)"
      "scan_left detect es (lr_may_be_empty s1 ! ?v) s1 = Inr (False, s')"
      using Cons.prems(1) True by (auto split: if_splits)
    have "e \<in> set (rules ! r)" using e(1) i nth_mem[of i "rules ! r"] by (simp add: at_def)
    then have vn: "?v < length rules"
      using rule_okD(1)[OF assms(1,2)] True by (simp add: rule_ok_def)
    have s1: "lr_sound rules s1" "lr_keeps rules s s1" "lr_free rules ?v"
      "empty_alternate (rules ! ?v) True \<longrightarrow> lr_may_be_empty s1 ! ?v"
      using det[OF vn Cons.prems(2) d(1)] by (simp_all add: lr_found_def)
    have "lr_may_be_empty s1 ! ?v = empty_alternate (rules ! ?v) True"
      using s1(1,4) vn by (auto simp: lr_sound_def)
    then have "Suc i < length (rules ! r) \<longrightarrow> lr_may_be_empty s1 ! ?v = exposed rules (r, Suc i)"
      using exp True rec by simp
    then have "lr_sound rules s' \<and> lr_keeps rules s1 s' \<and> refs_free rules r (Suc i)"
      by (rule Cons.IH[OF d(2) s1(1) e(2)])
    then show ?thesis
      using refs_free_step[of rules r i] i e(1) s1(2,3) by (auto simp: lr_keeps_def)
  next
    case False
    have "scan_left detect es (is_end_of_sequence e) s = Inr (False, s')"
      using Cons.prems(1) False by auto
    moreover have "Suc i < length (rules ! r) \<longrightarrow> is_end_of_sequence e = exposed rules (r, Suc i)"
      using exp False rec by auto
    ultimately have "lr_sound rules s' \<and> lr_keeps rules s s' \<and> refs_free rules r (Suc i)"
      using Cons.IH[OF _ Cons.prems(2) e(2)] by blast
    then show ?thesis
      using refs_free_step[of rules r i] i e(1) False rec by auto
  qed
qed

lemma exposed_zero: "rules_ok rules \<Longrightarrow> r < length rules \<Longrightarrow> exposed rules (r, 0)"
  using rule_okD(2) by (intro exposed_start) (auto simp: alt_start_def valid_pos_def)

lemma refs_free_rule:
  assumes "refs_free rules r 0"
  shows "lr_free rules r"
  unfolding lr_free_def
proof (rule accp.accI)
  fix v assume "left_edge rules r v"
  then obtain p where p: "exposed rules p" "valid_pos rules p" "fst p = r" "e_type (at rules p) = Gre_rule_ref"
    "v = unat (e_value (at rules p))" by (auto simp: left_edge_def)
  then have "p = (r, snd p)" "snd p < length (rules ! r)" by (auto simp: valid_pos_def prod_eq_iff)
  then show "Wellfounded.accp (\<lambda>s r. left_edge rules r s) v"
    using assms p unfolding refs_free_def lr_free_def by (metis le0)
qed

lemma not_found:
  assumes "rbind m (\<lambda>(found, s). if found then Inr (True, s) else Inr (False, g s)) = Inr (False, s')"
  shows "\<exists>s3. m = Inr (False, s3) \<and> s' = g s3"
  using assms by (cases m) (auto split: prod.splits if_splits)

lemma detect_run:
  assumes "r < length rules" "\<not> lr_in_progress s ! r"
  shows "llama_grammar_detect_left_recursion (Suc d) rules r s =
    (let s = s\<lparr>lr_in_progress := (lr_in_progress s)[r := True]\<rparr>;
         s = (if empty_alternate (rules ! r) True
              then s\<lparr>lr_may_be_empty := (lr_may_be_empty s)[r := True]\<rparr> else s)
     in rbind (scan_left (llama_grammar_detect_left_recursion d rules) (rules ! r) True s) (\<lambda>(found, s).
        if found then Inr (True, s)
        else Inr (False, s\<lparr>lr_in_progress := (lr_in_progress s)[r := False],
                          lr_visited := (lr_visited s)[r := True]\<rparr>)))"
  using assms by (simp only: llama_grammar_detect_left_recursion.simps not_le[symmetric] if_False simp_thms)

lemma detect_sound:
  assumes "rules_ok rules" "r < length rules" "lr_sound rules s"
    and "llama_grammar_detect_left_recursion d rules r s = Inr (False, s')"
  shows "lr_found rules r s s'"
  using assms(2-)
proof (induction d arbitrary: r s s')
  case (Suc d)
  let ?s1 = "s\<lparr>lr_in_progress := (lr_in_progress s)[r := True]\<rparr>"
  let ?s2 = "if empty_alternate (rules ! r) True
    then ?s1\<lparr>lr_may_be_empty := (lr_may_be_empty ?s1)[r := True]\<rparr> else ?s1"
  obtain s3 where s3: "scan_left (llama_grammar_detect_left_recursion d rules) (rules ! r) True ?s2 = Inr (False, s3)"
    "s' = s3\<lparr>lr_in_progress := (lr_in_progress s3)[r := False], lr_visited := (lr_visited s3)[r := True]\<rparr>"
  proof -
    have "\<not> lr_in_progress s ! r" using Suc.prems(3,1) by (cases "lr_in_progress s ! r") simp_all
    from Suc.prems(3)[unfolded detect_run[OF Suc.prems(1) this]]
    have "rbind (scan_left (llama_grammar_detect_left_recursion d rules) (rules ! r) True ?s2) (\<lambda>(found, s).
        if found then Inr (True, s) else Inr (False, s\<lparr>lr_in_progress := (lr_in_progress s)[r := False],
          lr_visited := (lr_visited s)[r := True]\<rparr>)) = Inr (False, s')"
      unfolding Let_def .
    from not_found[OF this] show thesis using that by blast
  qed
  have "lr_sound rules ?s2"
    using Suc.prems(1,2) by (auto simp: lr_sound_def nth_list_update)
  then have "lr_sound rules s3 \<and> lr_keeps rules ?s2 s3 \<and> refs_free rules r 0"
    using exposed_zero[OF assms(1) Suc.prems(1)]
    by (intro scan_left_sound[OF assms(1) Suc.prems(1) _ s3(1)]) (simp_all only: Suc.IH drop0 simp_thms)
  then have f: "lr_sound rules s3" "lr_keeps rules ?s2 s3" "refs_free rules r 0" by blast+
  have "lr_free rules r" by (rule refs_free_rule[OF f(3)])
  moreover have "empty_alternate (rules ! r) True \<longrightarrow> lr_may_be_empty s3 ! r" "lr_keeps rules s s3"
    using f(2) Suc.prems(1,2) by (auto simp: lr_keeps_def lr_sound_def nth_list_update split: if_splits)
  ultimately show ?case
    using f(1) s3(2) Suc.prems(1) by (auto simp: lr_found_def lr_sound_def lr_keeps_def nth_list_update)
qed simp

text \<open>A rule in progress is never entered, so the depth is bounded by the rules not in progress.\<close>

definition idle :: "bool list \<Rightarrow> nat" where
  "idle P = count_if (\<lambda>b. \<not> b) P"

lemma scan_left_total:
  assumes "\<forall>e \<in> set es. e_type e = Gre_rule_ref \<longrightarrow> unat (e_value e) < n"
    and "\<And>v s. v < n \<Longrightarrow> lr_in_progress s = P \<Longrightarrow>
      \<exists>f s'. detect v s = Inr (f, s') \<and> (\<not> f \<longrightarrow> lr_in_progress s' = P)"
    and "lr_in_progress s = P"
  shows "\<exists>f s'. scan_left detect es rec s = Inr (f, s') \<and> (\<not> f \<longrightarrow> lr_in_progress s' = P)"
  using assms(1,3)
proof (induction es arbitrary: rec s)
  case (Cons e es)
  show ?case
  proof (cases "e_type e = Gre_rule_ref \<and> rec")
    case True
    then obtain f s' where d: "detect (unat (e_value e)) s = Inr (f, s')" "\<not> f \<longrightarrow> lr_in_progress s' = P"
      using assms(2) Cons.prems by (metis list.set_intros(1))
    show ?thesis
    proof (cases f)
      case False
      then show ?thesis
        using d True Cons.IH[of s' "lr_may_be_empty s' ! unat (e_value e)"] Cons.prems(1) by simp
    qed (use d True in auto)
  next
    case False
    then show ?thesis using Cons.IH[of s "is_end_of_sequence e"] Cons.prems by auto
  qed
qed auto

lemma detect_total:
  assumes "rules_ok rules" "r < length rules" "length (lr_in_progress s) = length rules"
    and "idle (lr_in_progress s) < d"
  shows "\<exists>f s'. llama_grammar_detect_left_recursion d rules r s = Inr (f, s') \<and>
    (\<not> f \<longrightarrow> lr_in_progress s' = lr_in_progress s)"
  using assms(2-)
proof (induction d arbitrary: r s)
  case (Suc d)
  show ?case
  proof (cases "lr_in_progress s ! r")
    case True
    then show ?thesis using Suc.prems(1) by (intro exI[of _ True] exI[of _ s]) simp
  next
    case False
    let ?P = "(lr_in_progress s)[r := True]"
    have less: "idle ?P < d"
      using count_if_update[of r "lr_in_progress s" "\<lambda>b. \<not> b" True] Suc.prems False by (simp add: idle_def)
    have len: "length ?P = length rules" using Suc.prems(2) by simp
    have refs: "\<forall>e \<in> set (rules ! r). e_type e = Gre_rule_ref \<longrightarrow> unat (e_value e) < length rules"
      using rule_okD(1)[OF assms(1) Suc.prems(1)] by (simp add: rule_ok_def)
    define s2 where "s2 = (if empty_alternate (rules ! r) True
      then s\<lparr>lr_in_progress := ?P\<rparr>\<lparr>lr_may_be_empty := (lr_may_be_empty (s\<lparr>lr_in_progress := ?P\<rparr>))[r := True]\<rparr>
      else s\<lparr>lr_in_progress := ?P\<rparr>)"
    have "lr_in_progress s2 = ?P" by (simp add: s2_def)
    then obtain f s3 where s3: "scan_left (llama_grammar_detect_left_recursion d rules) (rules ! r) True s2 = Inr (f, s3)"
      "\<not> f \<longrightarrow> lr_in_progress s3 = ?P"
      using scan_left_total[OF refs, of ?P "llama_grammar_detect_left_recursion d rules" s2 True]
        Suc.IH less len by metis
    have "llama_grammar_detect_left_recursion (Suc d) rules r s =
        (if f then Inr (True, s3) else Inr (False, s3\<lparr>lr_in_progress := (lr_in_progress s3)[r := False],
           lr_visited := (lr_visited s3)[r := True]\<rparr>))"
      unfolding detect_run[OF Suc.prems(1) False] Let_def s2_def[symmetric] s3(1) by simp
    moreover have "?P[r := False] = lr_in_progress s" using False Suc.prems(1,2) by (simp add: list_update_same_conv)
    ultimately show ?thesis using s3(2) by auto
  qed
qed simp

lemma rfold_snoc: "rfold f (xs @ [x]) s = rbind (rfold f xs s) (f x)"
proof (cases "rfold f xs s")
  case (Inr t)
  then show ?thesis by (cases "f x t") (simp_all add: rfold_append)
qed (simp add: rfold_append)

lemma any_left_recursion_total:
  assumes "rules_ok rules"
  shows "\<exists>b. any_left_recursion rules = Inr b \<and> (\<not> b \<longrightarrow> (\<forall>r < length rules. lr_free rules r))"
proof -
  let ?n = "length rules"
  let ?f = "\<lambda>i (found, s). if found \<or> lr_visited s ! i then Inr (found, s)
    else llama_grammar_detect_left_recursion (Suc ?n) rules i s"
  let ?s0 = "\<lparr>lr_visited = replicate ?n False, lr_in_progress = replicate ?n False,
    lr_may_be_empty = replicate ?n False\<rparr>"
  have idle: "idle (replicate ?n False) < Suc ?n"
    using count_if_le_length[of "\<lambda>b. \<not> b" "replicate ?n False"] by (simp add: idle_def)
  have "m \<le> ?n \<Longrightarrow> \<exists>b s. rfold ?f [0..<m] (False, ?s0) = Inr (b, s) \<and>
      (\<not> b \<longrightarrow> lr_sound rules s \<and> lr_in_progress s = replicate ?n False \<and> (\<forall>r < m. lr_free rules r))" for m
  proof (induction m)
    case 0
    then show ?case by (intro exI[of _ False] exI[of _ ?s0]) (simp add: lr_sound_def)
  next
    case (Suc m)
    then obtain b s where IH: "rfold ?f [0..<m] (False, ?s0) = Inr (b, s)"
      "\<not> b \<longrightarrow> lr_sound rules s \<and> lr_in_progress s = replicate ?n False \<and> (\<forall>r < m. lr_free rules r)"
      by auto
    have split: "rfold ?f [0..<Suc m] (False, ?s0) = ?f m (b, s)"
      using rfold_snoc[of ?f "[0..<m]" m] IH(1) by (simp del: llama_grammar_detect_left_recursion.simps)
    show ?case
    proof (cases "b \<or> lr_visited s ! m")
      case True
      then show ?thesis
        unfolding split using IH(2) Suc.prems by (auto simp: lr_sound_def less_Suc_eq)
    next
      case False
      then have s: "lr_sound rules s" "lr_in_progress s = replicate ?n False" "\<forall>r < m. lr_free rules r"
        using IH(2) by auto
      have m: "m < ?n" using Suc.prems by simp
      obtain f s' where d: "llama_grammar_detect_left_recursion (Suc ?n) rules m s = Inr (f, s')"
        "\<not> f \<longrightarrow> lr_in_progress s' = lr_in_progress s"
        using detect_total[OF assms m, of s "Suc ?n"] s(2) idle by auto
      have "\<not> f \<longrightarrow> lr_found rules m s s'" using detect_sound[OF assms m s(1)] d(1) by metis
      moreover have "rfold ?f [0..<Suc m] (False, ?s0) = Inr (f, s')"
        unfolding split using False d(1) by (simp del: llama_grammar_detect_left_recursion.simps)
      ultimately show ?thesis
        using d(2) s(2,3) by (auto simp: lr_found_def less_Suc_eq)
    qed
  qed
  from this[OF order_refl] obtain b s where "rfold ?f [0..<?n] (False, ?s0) = Inr (b, s)"
    "\<not> b \<longrightarrow> (\<forall>r < ?n. lr_free rules r)" by blast
  then show ?thesis by (auto simp: any_left_recursion_def Let_def)
qed

end
