(* ===== verification/GrammarAccept.thy ===== *)
theory GrammarAccept
  imports GrammarHalts
begin

text \<open>
  Reading characters: the meaning of a character class, the stacks after a character, and
  what the candidate filter computes.
\<close>

section \<open>Character classes\<close>

text \<open>
  The elements of the class that starts a list, and the characters it names: a value that a
  range end follows stands for the range, any other value for itself.
\<close>

definition in_class_tail :: "llama_grammar_element \<Rightarrow> bool" where
  "in_class_tail e \<longleftrightarrow> e_type e = Gre_char_alt \<or> e_type e = Gre_char_rng_upper"

definition class_len :: "llama_grammar_element list \<Rightarrow> nat" where
  "class_len es = 1 + length (takeWhile in_class_tail (tl es))"

definition class_member :: "llama_grammar_element list \<Rightarrow> nat \<Rightarrow> 32 word \<Rightarrow> bool" where
  "class_member es j c \<longleftrightarrow> e_type (es ! j) \<noteq> Gre_char_rng_upper \<and>
     (if e_type (es ! Suc j) = Gre_char_rng_upper then e_value (es ! j) \<le> c \<and> c \<le> e_value (es ! Suc j)
      else e_value (es ! j) = c)"

definition in_class :: "llama_grammar_element list \<Rightarrow> 32 word \<Rightarrow> bool" where
  "in_class es c \<longleftrightarrow> e_type (hd es) = Gre_char_any \<or> (\<exists>j < class_len es. class_member es j c)"

definition tail_ok :: "llama_grammar_element list \<Rightarrow> bool" where
  "tail_ok es \<longleftrightarrow> es \<noteq> [] \<and> e_type (last es) = Gre_end"

lemma class_len_Cons: "class_len (e # u # es) = (if in_class_tail u then 1 + class_len (u # es) else 1)"
  by (simp add: class_len_def)

lemma class_member_Suc [simp]: "class_member (e # es) (Suc j) c = class_member es j c"
  by (simp add: class_member_def)

lemma class_member_0 [simp]:
  "class_member (e # u # es) 0 c \<longleftrightarrow> e_type e \<noteq> Gre_char_rng_upper \<and>
     (if e_type u = Gre_char_rng_upper then e_value e \<le> c \<and> c \<le> e_value u else e_value e = c)"
  by (simp add: class_member_def)

lemma ex_member_Cons:
  "(\<exists>j < class_len (e # u # es). class_member (e # u # es) j c) \<longleftrightarrow>
     class_member (e # u # es) 0 c \<or>
     (in_class_tail u \<and> (\<exists>j < class_len (u # es). class_member (u # es) j c))"
  by (cases "in_class_tail u") (simp_all add: class_len_Cons Ex_less_Suc2 del: class_member_0)

lemma in_class_single:
  assumes "e_type u \<noteq> Gre_char_rng_upper" "e_type e \<noteq> Gre_char_rng_upper" "e_type e \<noteq> Gre_char_any"
  shows "in_class (e # u # es) c \<longleftrightarrow> e_value e = c \<or> (e_type u = Gre_char_alt \<and> in_class (u # es) c)"
  using assms unfolding in_class_def ex_member_Cons by (auto simp: in_class_tail_def)

lemma in_class_range:
  assumes "e_type u = Gre_char_rng_upper" "e_type e \<noteq> Gre_char_rng_upper" "e_type e \<noteq> Gre_char_any"
    and "e_type x \<noteq> Gre_char_rng_upper"
  shows "in_class (e # u # x # es) c \<longleftrightarrow> e_value e \<le> c \<and> c \<le> e_value u \<or>
    (e_type x = Gre_char_alt \<and> in_class (x # es) c)"
  using assms unfolding in_class_def ex_member_Cons[of e] ex_member_Cons[of u]
  by (auto simp: in_class_tail_def)

lemma match_loop_spec:
  assumes "tail_ok es" "char_shape prev es" "es \<noteq> []" "e_type (hd es) \<in> {Gre_char, Gre_char_not, Gre_char_any, Gre_char_alt}"
  shows "match_loop es c found k = Inr (found \<or> in_class es c, k + class_len es)"
  using assms
proof (induction es c found k arbitrary: prev rule: match_loop.induct)
  case (1 e u es c found k)
  have e: "e_type e \<noteq> Gre_char_rng_upper" "e_type e \<noteq> Gre_end" using "1.prems"(4) by auto
  have sh: "char_shape (e_type e) (u # es)" using "1.prems"(2) by simp
  have tl: "tail_ok (u # es)" using "1.prems"(1) by (simp add: tail_ok_def)
  show ?case
  proof (cases "e_type u = Gre_char_rng_upper")
    case True
    then have ne: "es \<noteq> []" using tl by (auto simp: tail_ok_def)
    then obtain x es' where es: "es = x # es'" by (cases es) auto
    have any: "e_type e \<noteq> Gre_char_any" using sh True by auto
    have x: "e_type x \<noteq> Gre_char_rng_upper" using sh True es by auto
    show ?thesis
    proof (cases "e_type x = Gre_char_alt")
      case alt: True
      have "match_loop es c (found \<or> e_value e \<le> c \<and> c \<le> e_value u) (k + 2) =
          Inr ((found \<or> e_value e \<le> c \<and> c \<le> e_value u) \<or> in_class es c, k + 2 + class_len es)"
        using "1.IH"(1)[OF True refl es alt, of "e_type u"] sh tl ne alt es by (simp add: tail_ok_def)
      then show ?thesis
        using True alt es in_class_range[OF True e(1) any x, of es' c]
        by (auto simp: class_len_Cons in_class_tail_def)
    next
      case False
      then show ?thesis
        using True es x in_class_range[OF True e(1) any x, of es' c]
        by (auto simp: class_len_Cons in_class_tail_def)
    qed
  next
    case False
    show ?thesis
    proof (cases "e_type u = Gre_char_alt")
      case alt: True
      have any: "e_type e \<noteq> Gre_char_any" using sh alt by auto
      have "match_loop (u # es) c (found \<or> e_value e = c) (k + 1) =
          Inr ((found \<or> e_value e = c) \<or> in_class (u # es) c, k + 1 + class_len (u # es))"
        using "1.IH"(2)[OF False refl alt, of "e_type e"] sh tl any alt by simp
      then show ?thesis
        using False alt any in_class_single[OF False e(1) any, of es c]
        by (auto simp: class_len_Cons in_class_tail_def)
    next
      case no: False
      show ?thesis
      proof (cases "e_type e = Gre_char_any")
        case True
        then show ?thesis using False no by (simp add: in_class_def class_len_Cons in_class_tail_def)
      next
        case any: False
        then show ?thesis
          using False no in_class_single[OF False e(1) any, of es c]
          by (auto simp: class_len_Cons in_class_tail_def)
      qed
    qed
  qed
qed (auto simp: tail_ok_def)

definition after_char :: "grammar_rule list \<Rightarrow> grammar_pos \<Rightarrow> grammar_pos" where
  "after_char rules p = pos_plus p (class_len (elems_at rules p))"

definition char_matches :: "grammar_rule list \<Rightarrow> grammar_pos \<Rightarrow> 32 word \<Rightarrow> bool" where
  "char_matches rules p c \<longleftrightarrow> in_class (elems_at rules p) c = is_positive_char (at rules p)"

definition char_pos :: "grammar_rule list \<Rightarrow> grammar_pos \<Rightarrow> bool" where
  "char_pos rules p \<longleftrightarrow> valid_pos rules p \<and> e_type (at rules p) \<in> {Gre_char, Gre_char_not, Gre_char_any}"

lemma char_pos_elems:
  assumes "rules_ok rules" "char_pos rules p"
  shows "tail_ok (elems_at rules p)" "\<exists>prev. char_shape prev (elems_at rules p)"
    "elems_at rules p \<noteq> []" "hd (elems_at rules p) = at rules p"
proof -
  have v: "fst p < length rules" "snd p < length (rules ! fst p)" "valid_pos rules p"
    using assms(2) by (simp_all add: char_pos_def valid_pos_def)
  have r: "rule_ok (length rules) (rules ! fst p)" by (rule rule_okD(1)[OF assms(1) v(1)])
  have es: "elems_at rules p = drop (snd p) (rules ! fst p)"
    using v by (cases p) (simp add: elems_at_def)
  show "tail_ok (elems_at rules p)"
    unfolding es tail_ok_def using r v(2) by (simp add: rule_ok_def last_drop)
  show "\<exists>prev. char_shape prev (elems_at rules p)"
  proof (cases "snd p")
    case 0
    then show ?thesis unfolding es using r by (auto simp: rule_ok_def)
  next
    case (Suc i)
    then show ?thesis
      unfolding es using r v(2) char_shape_nth[of Gre_end "rules ! fst p" i] by (auto simp: rule_ok_def)
  qed
  show "elems_at rules p \<noteq> []" "hd (elems_at rules p) = at rules p"
    using elems_at_valid[OF v(3)] by simp_all
qed

lemma match_char_spec:
  assumes "rules_ok rules" "char_pos rules p"
  shows "llama_grammar_match_char rules p c = Inr (char_matches rules p c, after_char rules p)"
proof -
  note e = char_pos_elems[OF assms]
  obtain prev where sh: "char_shape prev (elems_at rules p)" using e(2) by blast
  have "match_loop (elems_at rules p) c False 0 = Inr (in_class (elems_at rules p) c, class_len (elems_at rules p))"
    using match_loop_spec[OF e(1) sh e(3), of c False 0] assms(2) e(4) by (auto simp: char_pos_def)
  then show ?thesis
    using assms(2)
    by (auto simp: llama_grammar_match_char_def char_pos_def is_positive_char_def char_matches_def after_char_def)
qed

lemma takeWhile_boundary:
  assumes "tail_ok (e # es)" "es \<noteq> []"
  shows "length (takeWhile in_class_tail es) < length es"
    "\<not> in_class_tail (es ! length (takeWhile in_class_tail es))"
proof -
  have "last es \<in> set es" "\<not> in_class_tail (last es)"
    using assms by (auto simp: tail_ok_def in_class_tail_def)
  then show l: "length (takeWhile in_class_tail es) < length es"
    by (metis length_takeWhile_le le_neq_implies_less takeWhile_eq_all_conv takeWhile_eq_take take_all_iff order_refl)
  show "\<not> in_class_tail (es ! length (takeWhile in_class_tail es))"
    using nth_length_takeWhile[OF l] .
qed

lemma after_char_boundary:
  assumes "rules_ok rules" "char_pos rules p"
  shows "boundary rules (after_char rules p)"
proof -
  note e = char_pos_elems[OF assms]
  have v: "fst p < length rules" "snd p < length (rules ! fst p)" "valid_pos rules p"
    using assms(2) by (simp_all add: char_pos_def valid_pos_def)
  let ?es = "drop (Suc (snd p)) (rules ! fst p)"
  have es: "elems_at rules p = at rules p # ?es" by (rule elems_at_valid[OF v(3)])
  have "e_type (at rules p) \<noteq> Gre_end" using assms(2) by (auto simp: char_pos_def)
  then have "?es \<noteq> []" using end_is_last[OF assms(1) v(3)] v(2) by auto
  from takeWhile_boundary[OF e(1)[unfolded es] this]
  have t: "length (takeWhile in_class_tail ?es) < length ?es"
    "\<not> in_class_tail (?es ! length (takeWhile in_class_tail ?es))" by auto
  have at: "at rules (after_char rules p) = ?es ! length (takeWhile in_class_tail ?es)"
    using t(1) by (simp add: after_char_def pos_plus_def at_def class_len_def es)
  then have "e_type (at rules (after_char rules p)) \<noteq> Gre_char_alt"
    "e_type (at rules (after_char rules p)) \<noteq> Gre_char_rng_upper"
    using t(2) by (auto simp: in_class_tail_def)
  then show ?thesis
    using t(1) v(1) not_in_class[of "e_type (at rules (after_char rules p))"]
    by (simp add: boundary_def valid_pos_def after_char_def pos_plus_def class_len_def es)
qed

section \<open>Reading a character\<close>

text \<open>One step of the automaton that reads a character, then expands.\<close>

definition after_stack :: "grammar_rule list \<Rightarrow> grammar_stack \<Rightarrow> grammar_stack" where
  "after_stack rules st = put rules (after_char rules (hd st)) (tl st)"

definition reads :: "grammar_rule list \<Rightarrow> 32 word \<Rightarrow> grammar_stack \<Rightarrow> grammar_stack set" where
  "reads rules c st = (if st \<noteq> [] \<and> char_matches rules (hd st) c
     then closure rules (after_stack rules st) else {})"

definition stacks_ok :: "grammar_rule list \<Rightarrow> grammar_stack list \<Rightarrow> bool" where
  "stacks_ok rules stacks \<longleftrightarrow> (\<forall>st \<in> set stacks. stack_ok rules st \<and> ready rules st)"

lemma ready_char_pos: "stack_ok rules (p # rest) \<Longrightarrow> ready rules (p # rest) \<Longrightarrow> char_pos rules p"
  by (auto simp: ready_def char_pos_def pos_ok_def)

lemma after_stack_ok:
  assumes "rules_ok rules" "stack_ok rules st" "ready rules st" "st \<noteq> []"
  shows "stack_ok rules (after_stack rules st)"
  using assms after_char_boundary[OF assms(1) ready_char_pos]
  by (cases st) (auto simp: after_stack_def intro!: put_ok)

lemma reads_ok:
  assumes "rules_ok rules" "stack_ok rules st" "ready rules st" "st' \<in> reads rules c st"
  shows "stack_ok rules st' \<and> ready rules st'"
  using assms(4) closure_ok[OF assms(1) after_stack_ok[OF assms(1-3)]]
  by (auto simp: reads_def split: if_splits)

lemma accept_stack_ready:
  assumes "rules_ok rules" "stack_ok rules st" "ready rules st"
  shows "accept_stack fuel rules c st acc =
    (if st \<noteq> [] \<and> char_matches rules (hd st) c
     then llama_grammar_advance_stack fuel rules (after_stack rules st) acc else Inr acc)"
proof (cases st)
  case (Cons p rest)
  then have p: "char_pos rules p" using ready_char_pos assms(2,3) by blast
  show ?thesis
    using match_char_spec[OF assms(1) p, of c] after_char_boundary[OF assms(1) p]
    by (simp add: accept_stack_def Cons after_stack_def)
qed (simp add: accept_stack_def)

lemma accept_adds:
  assumes "rules_ok rules" "stacks_ok rules stacks"
    and "rfold (accept_stack fuel rules c) stacks acc = Inr out"
  shows "adds (\<Union>st \<in> set stacks. reads rules c st) acc out"
proof (rule rfold_adds[OF _ assms(3)])
  fix st acc out assume st: "st \<in> set stacks" "accept_stack fuel rules c st acc = Inr out"
  then have ok: "stack_ok rules st" "ready rules st" using assms(2) by (simp_all add: stacks_ok_def)
  show "adds (reads rules c st) acc out"
  proof (cases "st \<noteq> [] \<and> char_matches rules (hd st) c")
    case True
    then have "llama_grammar_advance_stack fuel rules (after_stack rules st) acc = Inr out"
      using st(2) accept_stack_ready[OF assms(1) ok, of fuel c acc] by simp
    then show ?thesis
      using advance_adds[OF assms(1) after_stack_ok[OF assms(1) ok]] True by (simp add: reads_def)
  next
    case False
    then show ?thesis
      using st(2) accept_stack_ready[OF assms(1) ok, of fuel c acc] by (auto simp: reads_def)
  qed
qed

text \<open>Reading a text: the stacks reachable through its characters in order.\<close>

fun reads_all :: "grammar_rule list \<Rightarrow> 32 word list \<Rightarrow> grammar_stack set \<Rightarrow> grammar_stack set" where
  "reads_all rules [] S = S"
| "reads_all rules (c # cs) S = reads_all rules cs (\<Union>st \<in> S. reads rules c st)"

definition grammar_ok :: "llama_grammar \<Rightarrow> bool" where
  "grammar_ok g \<longleftrightarrow> rules_ok (g_rules g) \<and> stacks_ok (g_rules g) (g_stacks g)"

lemma accept_spec:
  assumes "grammar_ok g" "llama_grammar_accept fuel c g = Inr g'"
  shows "grammar_ok g' \<and> g_rules g' = g_rules g \<and> g_utf8 g' = g_utf8 g \<and> distinct (g_stacks g') \<and>
    set (g_stacks g') = (\<Union>st \<in> set (g_stacks g). reads (g_rules g) c st)"
proof -
  have ok: "rules_ok (g_rules g)" "stacks_ok (g_rules g) (g_stacks g)"
    using assms(1) by (simp_all add: grammar_ok_def)
  obtain out where out: "rfold (accept_stack fuel (g_rules g) c) (g_stacks g) [] = Inr out"
    "g' = g\<lparr>g_stacks := out\<rparr>"
    using assms(2) by (auto simp: llama_grammar_accept_def)
  have a: "set out = (\<Union>st \<in> set (g_stacks g). reads (g_rules g) c st)" "distinct out"
    using accept_adds[OF ok out(1)] by (simp_all add: adds_def)
  have "stacks_ok (g_rules g) out"
    unfolding stacks_ok_def
  proof
    fix st' assume "st' \<in> set out"
    then obtain st where st: "st \<in> set (g_stacks g)" "st' \<in> reads (g_rules g) c st" unfolding a(1) by blast
    then show "stack_ok (g_rules g) st' \<and> ready (g_rules g) st'"
      using reads_ok[OF ok(1) _ _ st(2)] ok(2) unfolding stacks_ok_def by blast
  qed
  then show ?thesis using a ok(1) by (simp add: out(2) grammar_ok_def)
qed

lemma accept_all_spec:
  assumes "grammar_ok g" "rfold (llama_grammar_accept fuel) cs g = Inr g'"
  shows "grammar_ok g' \<and> g_rules g' = g_rules g \<and>
    set (g_stacks g') = reads_all (g_rules g) cs (set (g_stacks g))"
  using assms
proof (induction cs arbitrary: g)
  case (Cons c cs)
  then obtain g1 where g1: "llama_grammar_accept fuel c g = Inr g1"
    "rfold (llama_grammar_accept fuel) cs g1 = Inr g'" by auto
  note a = accept_spec[OF Cons.prems(1) g1(1)]
  then have "grammar_ok g1" by simp
  from Cons.IH[OF this g1(2)] a show ?case by simp
qed simp

section \<open>Computations that settle\<close>

text \<open>With enough fuel there is a result, and it no longer depends on the fuel.\<close>

definition settles :: "(nat \<Rightarrow> 'a res) \<Rightarrow> bool" where
  "settles f \<longleftrightarrow> (\<exists>N x. \<forall>fuel \<ge> N. f fuel = Inr x)"

lemma settles_const [simp]: "settles (\<lambda>_. Inr x)"
  by (auto simp: settles_def)

lemma settles_rbind:
  assumes "settles f" "\<And>fuel x. f fuel = Inr x \<Longrightarrow> settles (\<lambda>fuel. g fuel x)"
  shows "settles (\<lambda>fuel. rbind (f fuel) (g fuel))"
proof -
  obtain N x where f: "\<forall>fuel \<ge> N. f fuel = Inr x" using assms(1) by (auto simp: settles_def)
  then obtain M y where g: "\<forall>fuel \<ge> M. g fuel x = Inr y"
    using assms(2)[of N x] by (auto simp: settles_def)
  have "\<forall>fuel \<ge> max N M. rbind (f fuel) (g fuel) = Inr y" using f g by simp
  then show ?thesis unfolding settles_def by blast
qed

lemma settles_rfold:
  assumes "\<And>x acc. x \<in> set xs \<Longrightarrow> P acc \<Longrightarrow> settles (\<lambda>fuel. f fuel x acc)"
    and "\<And>fuel x acc out. x \<in> set xs \<Longrightarrow> P acc \<Longrightarrow> f fuel x acc = Inr out \<Longrightarrow> P out" and "P acc"
  shows "settles (\<lambda>fuel. rfold (f fuel) xs acc)"
  using assms
proof (induction xs arbitrary: acc)
  case (Cons x xs)
  show ?case
    unfolding rfold.simps
  proof (rule settles_rbind)
    show "settles (\<lambda>fuel. f fuel x acc)" using Cons.prems by simp
    fix fuel mid assume "f fuel x acc = Inr mid"
    then have "P mid" using Cons.prems(2,3) by (meson list.set_intros(1))
    then show "settles (\<lambda>fuel. rfold (f fuel) xs mid)"
      using Cons.prems(1,2) by (intro Cons.IH) (meson list.set_intros(2))+
  qed
qed simp

lemma settles_advance:
  assumes "rules_ok rules" "halts rules st" "stack_ok rules st"
  shows "settles (\<lambda>fuel. llama_grammar_advance_stack fuel rules st acc)"
proof -
  obtain N where N: "\<forall>fuel \<ge> N. \<exists>out. llama_grammar_advance_stack fuel rules st acc = Inr out"
    using halts_enough[OF assms] by blast
  then obtain out where "llama_grammar_advance_stack N rules st acc = Inr out" by blast
  from advance_mono[OF assms(1,3) this] show ?thesis unfolding settles_def by blast
qed

end
