(* ===== verification/GrammarFilter.thy ===== *)
theory GrammarFilter
  imports GrammarAccept
begin

text \<open>
  The candidate filter: which candidates \<open>llama_grammar_reject_candidates\<close> rejects, and
  that it returns.
\<close>

section \<open>Partial sequences\<close>

definition member_meets :: "llama_grammar_element list \<Rightarrow> nat \<Rightarrow> 32 word \<Rightarrow> 32 word \<Rightarrow> bool" where
  "member_meets es j low high \<longleftrightarrow> e_type (es ! j) \<noteq> Gre_char_rng_upper \<and>
     (if e_type (es ! Suc j) = Gre_char_rng_upper then e_value (es ! j) \<le> high \<and> low \<le> e_value (es ! Suc j)
      else low \<le> e_value (es ! j) \<and> e_value (es ! j) \<le> high)"

definition class_meets :: "llama_grammar_element list \<Rightarrow> 32 word \<Rightarrow> 32 word \<Rightarrow> bool" where
  "class_meets es low high \<longleftrightarrow>
     e_type (hd es) = Gre_char_any \<or> (\<exists>j < class_len es. member_meets es j low high)"

lemma member_meets_Suc [simp]: "member_meets (e # es) (Suc j) low high = member_meets es j low high"
  by (simp add: member_meets_def)

lemma member_meets_0 [simp]:
  "member_meets (e # u # es) 0 low high \<longleftrightarrow> e_type e \<noteq> Gre_char_rng_upper \<and>
     (if e_type u = Gre_char_rng_upper then e_value e \<le> high \<and> low \<le> e_value u
      else low \<le> e_value e \<and> e_value e \<le> high)"
  by (simp add: member_meets_def)

lemma ex_meets_Cons:
  "(\<exists>j < class_len (e # u # es). member_meets (e # u # es) j low high) \<longleftrightarrow>
     member_meets (e # u # es) 0 low high \<or>
     (in_class_tail u \<and> (\<exists>j < class_len (u # es). member_meets (u # es) j low high))"
  by (cases "in_class_tail u") (simp_all add: class_len_Cons Ex_less_Suc2 del: member_meets_0)

lemma class_meets_single:
  assumes "e_type u \<noteq> Gre_char_rng_upper" "e_type e \<noteq> Gre_char_rng_upper" "e_type e \<noteq> Gre_char_any"
  shows "class_meets (e # u # es) low high \<longleftrightarrow> low \<le> e_value e \<and> e_value e \<le> high \<or>
    (e_type u = Gre_char_alt \<and> class_meets (u # es) low high)"
  using assms unfolding class_meets_def ex_meets_Cons by (auto simp: in_class_tail_def)

lemma class_meets_range:
  assumes "e_type u = Gre_char_rng_upper" "e_type e \<noteq> Gre_char_rng_upper" "e_type e \<noteq> Gre_char_any"
    and "e_type x \<noteq> Gre_char_rng_upper"
  shows "class_meets (e # u # x # es) low high \<longleftrightarrow> e_value e \<le> high \<and> low \<le> e_value u \<or>
    (e_type x = Gre_char_alt \<and> class_meets (x # es) low high)"
  using assms unfolding class_meets_def ex_meets_Cons[of e] ex_meets_Cons[of u]
  by (auto simp: in_class_tail_def)

lemma partial_loop_spec:
  assumes "tail_ok es" "char_shape prev es" "es \<noteq> []"
    and "e_type (hd es) \<in> {Gre_char, Gre_char_not, Gre_char_any, Gre_char_alt}"
    and "e_type (hd es) = Gre_char_any \<longrightarrow> pos"
  shows "partial_loop es low high pos = Inr (if class_meets es low high then pos else \<not> pos)"
  using assms
proof (induction es low high pos arbitrary: prev rule: partial_loop.induct)
  case (1 e u es low high pos)
  have e: "e_type e \<noteq> Gre_char_rng_upper" "e_type e \<noteq> Gre_end" using "1.prems"(4) by auto
  have sh: "char_shape (e_type e) (u # es)" using "1.prems"(2) by simp
  have tl: "tail_ok (u # es)" using "1.prems"(1) by (simp add: tail_ok_def)
  show ?case
  proof (cases "e_type u = Gre_char_rng_upper")
    case True
    then have ne: "es \<noteq> []" using tl by (auto simp: tail_ok_def)
    then obtain x es' where es: "es = x # es'" by (cases es) auto
    have any: "e_type e \<noteq> Gre_char_any" using sh True by auto
    have x: "e_type x \<noteq> Gre_char_rng_upper" using sh True es by auto
    note cm = class_meets_range[OF True e(1) any x, of es' low high]
    show ?thesis
    proof (cases "(e_value e \<le> high \<and> low \<le> e_value u) \<or> e_type x \<noteq> Gre_char_alt")
      case c: True
      then show ?thesis using True es cm by auto
    next
      case c: False
      then have "partial_loop es low high pos = Inr (if class_meets es low high then pos else \<not> pos)"
        using "1.IH"(1)[OF True _ es, of "e_type u"] sh tl ne es by (simp add: tail_ok_def)
      then show ?thesis using True es cm c by auto
    qed
  next
    case False
    show ?thesis
    proof (cases "e_type e = Gre_char_any")
      case True
      then show ?thesis using False "1.prems"(5) by (simp add: class_meets_def)
    next
      case any: False
      note cm = class_meets_single[OF False e(1) any, of es low high]
      show ?thesis
      proof (cases "(low \<le> e_value e \<and> e_value e \<le> high) \<or> e_type u \<noteq> Gre_char_alt")
        case True
        then show ?thesis using False any cm by auto
      next
        case no: False
        then have "partial_loop (u # es) low high pos = Inr (if class_meets (u # es) low high then pos else \<not> pos)"
          using "1.IH"(2)[OF False any _ _, of "e_type e"] sh tl by auto
        then show ?thesis using False any cm no by auto
      qed
    qed
  qed
qed (auto simp: tail_ok_def)

definition partial_matches :: "grammar_rule list \<Rightarrow> grammar_pos \<Rightarrow> llama_partial_utf8 \<Rightarrow> bool" where
  "partial_matches rules p part \<longleftrightarrow> \<not> (n_remain part < 0 \<or> (n_remain part = 1 \<and> p_value part < 2)) \<and>
     class_meets (elems_at rules p) (partial_low part) (partial_high part) = is_positive_char (at rules p)"

lemma match_partial_spec:
  assumes "rules_ok rules" "char_pos rules p"
  shows "llama_grammar_match_partial_char rules p part = Inr (partial_matches rules p part)"
proof -
  note e = char_pos_elems[OF assms]
  obtain prev where sh: "char_shape prev (elems_at rules p)" using e(2) by blast
  have "partial_loop (elems_at rules p) low high (is_positive_char (at rules p)) =
      Inr (class_meets (elems_at rules p) low high = is_positive_char (at rules p))" for low high
    using partial_loop_spec[OF e(1) sh e(3), of "is_positive_char (at rules p)" low high] assms(2) e(4)
    by (auto simp: char_pos_def is_positive_char_def)
  then show ?thesis
    using assms(2)
    by (auto simp: llama_grammar_match_partial_char_def char_pos_def is_positive_char_def partial_matches_def)
qed

section \<open>Good candidates\<close>

text \<open>
  The code points of a candidate that are left, and whether the automaton can read them
  from a stack and go on with the partial sequence behind them.
\<close>

definition cand_ok :: "llama_grammar_candidate \<Rightarrow> bool" where
  "cand_ok c \<longleftrightarrow> g_off c < length (g_points c) \<and> last (g_points c) = 0"

definition rest_points :: "llama_grammar_candidate \<Rightarrow> 32 word list" where
  "rest_points c = takeWhile (\<lambda>x. x \<noteq> 0) (drop (g_off c) (g_points c))"

fun good :: "grammar_rule list \<Rightarrow> llama_partial_utf8 \<Rightarrow> 32 word list \<Rightarrow> grammar_stack \<Rightarrow> bool" where
  "good rules part [] st \<longleftrightarrow> n_remain part = 0 \<or> (st \<noteq> [] \<and> partial_matches rules (hd st) part)"
| "good rules part (c # cs) st \<longleftrightarrow> (\<exists>st' \<in> reads rules c st. good rules part cs st')"

definition good_cand :: "grammar_rule list \<Rightarrow> llama_grammar_candidate \<Rightarrow> grammar_stack \<Rightarrow> bool" where
  "good_cand rules c st = good rules (g_partial c) (rest_points c) st"

definition forward :: "llama_grammar_candidate \<Rightarrow> llama_grammar_candidate" where
  "forward c = c\<lparr>g_off := g_off c + 1\<rparr>"

lemma rest_points_end: "cand_ok c \<Longrightarrow> cand_char c = 0 \<Longrightarrow> rest_points c = []"
  by (simp add: rest_points_def cand_ok_def cand_char_def Cons_nth_drop_Suc[symmetric])

lemma rest_points_step:
  assumes "cand_ok c" "cand_char c \<noteq> 0"
  shows "rest_points c = cand_char c # rest_points (forward c)" "cand_ok (forward c)"
proof -
  show "rest_points c = cand_char c # rest_points (forward c)"
    using assms by (simp add: rest_points_def cand_ok_def cand_char_def forward_def
        Cons_nth_drop_Suc[symmetric])
  have "g_off c \<noteq> length (g_points c) - 1"
    using assms last_conv_nth[of "g_points c"] by (cases "g_points c = []") (auto simp: cand_ok_def cand_char_def)
  moreover have "g_off c < length (g_points c)" "last (g_points c) = 0"
    using assms(1) by (simp_all add: cand_ok_def)
  ultimately have "Suc (g_off c) < length (g_points c)" by linarith
  then show "cand_ok (forward c)" using assms(1) by (simp add: cand_ok_def forward_def)
qed

lemma back_forward: "(forward c)\<lparr>g_off := g_off (forward c) - 1\<rparr> = c"
  by (simp add: forward_def)

lemma classify_spec:
  assumes "rules_ok rules" "char_pos rules p" "\<forall>c \<in> set cs. cand_ok c"
  shows "\<exists>rejects nexts. rfold (classify rules p) cs (r0, n0) = Inr (rejects, nexts) \<and>
    set rejects = set r0 \<union> {c \<in> set cs. if cand_char c = 0
        then n_remain (g_partial c) \<noteq> 0 \<and> \<not> partial_matches rules p (g_partial c)
        else \<not> char_matches rules p (cand_char c)} \<and>
    set nexts = set n0 \<union> forward ` {c \<in> set cs. cand_char c \<noteq> 0 \<and> char_matches rules p (cand_char c)} \<and>
    length nexts \<le> length n0 + length cs"
  using assms(3)
proof (induction cs arbitrary: r0 n0)
  case (Cons c cs)
  let ?bad = "if cand_char c = 0 then n_remain (g_partial c) \<noteq> 0 \<and> \<not> partial_matches rules p (g_partial c)
    else \<not> char_matches rules p (cand_char c)"
  let ?go = "cand_char c \<noteq> 0 \<and> char_matches rules p (cand_char c)"
  have "\<not> length (g_points c) \<le> g_off c" using Cons.prems by (simp add: cand_ok_def)
  then have step: "classify rules p c (r0, n0) =
      Inr (if ?bad then r0 @ [c] else r0, if ?go then n0 @ [forward c] else n0)"
    by (auto simp: classify_def match_partial_spec[OF assms(1,2)] match_char_spec[OF assms(1,2)] forward_def)
  obtain rejects nexts where r: "rfold (classify rules p) cs
      (if ?bad then r0 @ [c] else r0, if ?go then n0 @ [forward c] else n0) = Inr (rejects, nexts)"
    "set rejects = set (if ?bad then r0 @ [c] else r0) \<union> {c \<in> set cs. if cand_char c = 0
        then n_remain (g_partial c) \<noteq> 0 \<and> \<not> partial_matches rules p (g_partial c)
        else \<not> char_matches rules p (cand_char c)}"
    "set nexts = set (if ?go then n0 @ [forward c] else n0) \<union>
      forward ` {c \<in> set cs. cand_char c \<noteq> 0 \<and> char_matches rules p (cand_char c)}"
    "length nexts \<le> length (if ?go then n0 @ [forward c] else n0) + length cs"
    using Cons.IH[of "if ?bad then r0 @ [c] else r0" "if ?go then n0 @ [forward c] else n0"] Cons.prems by auto
  have "rfold (classify rules p) (c # cs) (r0, n0) = Inr (rejects, nexts)"
    using step r(1) by simp
  moreover have "set rejects = set r0 \<union> {x \<in> set (c # cs). if cand_char x = 0
        then n_remain (g_partial x) \<noteq> 0 \<and> \<not> partial_matches rules p (g_partial x)
        else \<not> char_matches rules p (cand_char x)}"
    unfolding r(2) by auto
  moreover have "set nexts = set n0 \<union>
      forward ` {x \<in> set (c # cs). cand_char x \<noteq> 0 \<and> char_matches rules p (cand_char x)}"
    unfolding r(3) by auto
  moreover have "length nexts \<le> length n0 + length (c # cs)" using r(4) by (auto split: if_splits)
  ultimately show ?case by blast
qed simp

lemma good_cand_Nil: "cand_ok c \<Longrightarrow> good_cand rules c [] \<longleftrightarrow> cand_char c = 0 \<and> n_remain (g_partial c) = 0"
  by (cases "cand_char c = 0")
    (simp_all add: good_cand_def rest_points_end rest_points_step(1) reads_def)

lemma good_cand_Cons:
  assumes "cand_ok c"
  shows "good_cand rules c (p # rest) \<longleftrightarrow>
    (if cand_char c = 0 then n_remain (g_partial c) = 0 \<or> partial_matches rules p (g_partial c)
     else char_matches rules p (cand_char c) \<and>
       (\<exists>st' \<in> closure rules (after_stack rules (p # rest)). good_cand rules (forward c) st'))"
proof (cases "cand_char c = 0")
  case True
  then show ?thesis using assms by (simp add: good_cand_def rest_points_end)
next
  case False
  then show ?thesis
    using rest_points_step(1)[OF assms False] by (simp add: good_cand_def reads_def forward_def)
qed

lemma rfold_filter:
  assumes "\<And>x cs rs. x \<in> set xs \<Longrightarrow> \<forall>c \<in> set cs. P c \<Longrightarrow> f x cs = Inr rs \<Longrightarrow>
      set rs = {c \<in> set cs. \<not> G x c}"
    and "rfold f xs cs = Inr rs" "\<forall>c \<in> set cs. P c"
  shows "set rs = {c \<in> set cs. \<forall>x \<in> set xs. \<not> G x c}"
  using assms
proof (induction xs arbitrary: cs)
  case (Cons x xs)
  then obtain mid where m: "f x cs = Inr mid" "rfold f xs mid = Inr rs" by auto
  have mid: "set mid = {c \<in> set cs. \<not> G x c}" using Cons.prems(1)[of x cs mid] Cons.prems(3) m(1) by simp
  have "set rs = {c \<in> set mid. \<forall>x \<in> set xs. \<not> G x c}"
    by (rule Cons.IH[OF _ m(2)]) (use Cons.prems(1,3) mid in auto)
  then show ?case using mid by auto
qed simp

lemma push_after:
  assumes "rules_ok rules" "char_pos rules p"
  shows "push_pos rules (after_char rules p) rest = Inr (after_stack rules (p # rest))"
  using after_char_boundary[OF assms] by (simp add: after_stack_def)

text \<open>What the filter of one stack does once its top is known to be a character.\<close>

lemma reject_run:
  assumes "rules_ok rules" "char_pos rules p" "\<forall>c \<in> set cs. cand_ok c"
  obtains rejects nexts where
    "\<forall>d fuel. reject_for_stack (Suc d) fuel rules (p # rest) cs =
       rbind (llama_grammar_advance_stack fuel rules (after_stack rules (p # rest)) []) (\<lambda>stacks.
       rbind (guard (stacks \<noteq> []) Assert_failed) (\<lambda>_.
       rbind (if nexts = [] then Inr [] else rfold (reject_for_stack d fuel rules) stacks nexts) (\<lambda>rs.
       Inr (rejects @ map (\<lambda>c. c\<lparr>g_off := g_off c - 1\<rparr>) rs))))"
    "set rejects = {c \<in> set cs. if cand_char c = 0
        then n_remain (g_partial c) \<noteq> 0 \<and> \<not> partial_matches rules p (g_partial c)
        else \<not> char_matches rules p (cand_char c)}"
    "set nexts = forward ` {c \<in> set cs. cand_char c \<noteq> 0 \<and> char_matches rules p (cand_char c)}"
proof -
  obtain rejects nexts where r: "rfold (classify rules p) cs ([], []) = Inr (rejects, nexts)"
    "set rejects = {c \<in> set cs. if cand_char c = 0
        then n_remain (g_partial c) \<noteq> 0 \<and> \<not> partial_matches rules p (g_partial c)
        else \<not> char_matches rules p (cand_char c)}"
    "set nexts = forward ` {c \<in> set cs. cand_char c \<noteq> 0 \<and> char_matches rules p (cand_char c)}"
    using classify_spec[OF assms, of "[]" "[]"] by auto
  have "\<forall>d fuel. reject_for_stack (Suc d) fuel rules (p # rest) cs =
       rbind (llama_grammar_advance_stack fuel rules (after_stack rules (p # rest)) []) (\<lambda>stacks.
       rbind (guard (stacks \<noteq> []) Assert_failed) (\<lambda>_.
       rbind (if nexts = [] then Inr [] else rfold (reject_for_stack d fuel rules) stacks nexts) (\<lambda>rs.
       Inr (rejects @ map (\<lambda>c. c\<lparr>g_off := g_off c - 1\<rparr>) rs))))"
    by (simp add: r(1) match_char_spec[OF assms(1,2)] push_after[OF assms(1,2)])
  then show thesis using r(2,3) by (rule that)
qed

lemma reject_spec:
  assumes "rules_ok rules" "stack_ok rules st" "ready rules st" "\<forall>c \<in> set cs. cand_ok c"
    and "reject_for_stack d fuel rules st cs = Inr rs"
  shows "set rs = {c \<in> set cs. \<not> good_cand rules c st}"
  using assms(2-)
proof (induction d arbitrary: st cs rs)
  case (Suc d)
  show ?case
  proof (cases st)
    case Nil
    then have "rs = reject_at_end cs" using Suc.prems(4) by (auto split: if_splits)
    then show ?thesis using Nil Suc.prems(3) good_cand_Nil[of _ rules] by (auto simp: reject_at_end_def)
  next
    case (Cons p rest)
    have p: "char_pos rules p" using ready_char_pos Suc.prems(1,2) Cons by blast
    obtain rejects nexts where run: "\<forall>d fuel. reject_for_stack (Suc d) fuel rules (p # rest) cs =
       rbind (llama_grammar_advance_stack fuel rules (after_stack rules (p # rest)) []) (\<lambda>stacks.
       rbind (guard (stacks \<noteq> []) Assert_failed) (\<lambda>_.
       rbind (if nexts = [] then Inr [] else rfold (reject_for_stack d fuel rules) stacks nexts) (\<lambda>rs.
       Inr (rejects @ map (\<lambda>c. c\<lparr>g_off := g_off c - 1\<rparr>) rs))))"
      and rj: "set rejects = {c \<in> set cs. if cand_char c = 0
        then n_remain (g_partial c) \<noteq> 0 \<and> \<not> partial_matches rules p (g_partial c)
        else \<not> char_matches rules p (cand_char c)}"
      and nx: "set nexts = forward ` {c \<in> set cs. cand_char c \<noteq> 0 \<and> char_matches rules p (cand_char c)}"
      by (rule reject_run[OF assms(1) p Suc.prems(3)])
    let ?st = "after_stack rules (p # rest)"
    obtain stacks rs' where s: "llama_grammar_advance_stack fuel rules ?st [] = Inr stacks"
      "(if nexts = [] then Inr [] else rfold (reject_for_stack d fuel rules) stacks nexts) = Inr rs'"
      "rs = rejects @ map (\<lambda>c. c\<lparr>g_off := g_off c - 1\<rparr>) rs'"
      using Suc.prems(4)[unfolded Cons run[rule_format]] by (auto simp: rbind_Inr_iff)
    have ok: "stack_ok rules ?st"
      using after_stack_ok[OF assms(1)] Suc.prems(1,2) Cons by blast
    have cl: "set stacks = closure rules ?st"
      using advance_adds[OF assms(1) ok s(1)] by (simp add: adds_def)
    have nok: "\<forall>c \<in> set nexts. cand_ok c" using nx Suc.prems(3) rest_points_step(2) by auto
    have rs': "set rs' = {c \<in> set nexts. \<forall>st' \<in> closure rules ?st. \<not> good_cand rules c st'}"
    proof (cases "nexts = []")
      case True
      then show ?thesis using s(2) by simp
    next
      case False
      then have f: "rfold (reject_for_stack d fuel rules) stacks nexts = Inr rs'" using s(2) by simp
      have "set rs' = {c \<in> set nexts. \<forall>st' \<in> set stacks. \<not> good_cand rules c st'}"
      proof (rule rfold_filter[OF _ f nok])
        fix x cs rs assume x: "x \<in> set stacks" "\<forall>c \<in> set cs. cand_ok c" "reject_for_stack d fuel rules x cs = Inr rs"
        then show "set rs = {c \<in> set cs. \<not> good_cand rules c x}"
          using Suc.IH closure_ok[OF assms(1) ok] cl by blast
      qed
      then show ?thesis using cl by simp
    qed
    have bk: "(\<lambda>c. c\<lparr>g_off := g_off c - 1\<rparr>) ` set rs' = {c \<in> set cs. cand_char c \<noteq> 0 \<and>
        char_matches rules p (cand_char c) \<and> (\<forall>st' \<in> closure rules ?st. \<not> good_cand rules (forward c) st')}"
      unfolding rs' nx by (force simp: back_forward[unfolded One_nat_def] image_iff)
    have "set rs = set rejects \<union> (\<lambda>c. c\<lparr>g_off := g_off c - 1\<rparr>) ` set rs'" using s(3) by simp
    then show ?thesis
      unfolding bk rj Cons using Suc.prems(3) good_cand_Cons[of _ rules p rest] by (auto split: if_splits)
  qed
qed simp

lemma reject_settles:
  assumes "rules_ok rules" "\<forall>st. stack_ok rules st \<longrightarrow> halts rules st"
    and "stack_ok rules st" "ready rules st"
    and "\<forall>c \<in> set cs. cand_ok c \<and> length (rest_points c) < d" "0 < d"
  shows "settles (\<lambda>fuel. reject_for_stack d fuel rules st cs)"
  using assms(3-)
proof (induction d arbitrary: st cs)
  case (Suc d)
  have cok: "\<forall>c \<in> set cs. cand_ok c" using Suc.prems(3) by blast
  show ?case
  proof (cases st)
    case Nil
    have "\<not> (\<exists>c \<in> set cs. length (g_points c) \<le> g_off c)" using cok by (auto simp: cand_ok_def)
    then show ?thesis unfolding Nil by simp
  next
    case (Cons p rest)
    have p: "char_pos rules p" using ready_char_pos Suc.prems(1,2) Cons by blast
    obtain rejects nexts where run: "\<forall>d fuel. reject_for_stack (Suc d) fuel rules (p # rest) cs =
       rbind (llama_grammar_advance_stack fuel rules (after_stack rules (p # rest)) []) (\<lambda>stacks.
       rbind (guard (stacks \<noteq> []) Assert_failed) (\<lambda>_.
       rbind (if nexts = [] then Inr [] else rfold (reject_for_stack d fuel rules) stacks nexts) (\<lambda>rs.
       Inr (rejects @ map (\<lambda>c. c\<lparr>g_off := g_off c - 1\<rparr>) rs))))"
      and nx: "set nexts = forward ` {c \<in> set cs. cand_char c \<noteq> 0 \<and> char_matches rules p (cand_char c)}"
      by (rule reject_run[OF assms(1) p cok])
    let ?st = "after_stack rules (p # rest)"
    have ok: "stack_ok rules ?st"
      using after_stack_ok[OF assms(1)] Suc.prems(1,2) Cons by blast
    have short: "cand_ok c \<and> length (rest_points c) < d" if "c \<in> set nexts" for c
    proof -
      obtain c0 where "c = forward c0" "c0 \<in> set cs" "cand_char c0 \<noteq> 0"
        using \<open>c \<in> set nexts\<close> nx by auto
      then show ?thesis using Suc.prems(3) rest_points_step[of c0] by fastforce
    qed
    have "settles (\<lambda>fuel. rbind (llama_grammar_advance_stack fuel rules ?st []) (\<lambda>stacks.
       rbind (guard (stacks \<noteq> []) Assert_failed) (\<lambda>_.
       rbind (if nexts = [] then Inr [] else rfold (reject_for_stack d fuel rules) stacks nexts) (\<lambda>rs.
       Inr (rejects @ map (\<lambda>c. c\<lparr>g_off := g_off c - 1\<rparr>) rs)))))"
    proof (rule settles_rbind)
      show "settles (\<lambda>fuel. llama_grammar_advance_stack fuel rules ?st [])"
        by (rule settles_advance[OF assms(1) _ ok]) (use assms(2) ok in blast)
      fix fuel stacks assume s: "llama_grammar_advance_stack fuel rules ?st [] = Inr stacks"
      have cl: "set stacks = closure rules ?st" using advance_adds[OF assms(1) ok s] by (simp add: adds_def)
      then have ne: "stacks \<noteq> []" using halts_closure[OF assms(1) _ ok] assms(2) ok by force
      have "settles (\<lambda>fuel. if nexts = [] then Inr [] else rfold (reject_for_stack d fuel rules) stacks nexts)"
      proof (cases "nexts = []")
        case False
        then have d: "0 < d" using short by (metis hd_in_set gr_zeroI less_nat_zero_code)
        have "settles (\<lambda>fuel. rfold (reject_for_stack d fuel rules) stacks nexts)"
        proof (rule settles_rfold[where P = "\<lambda>cs. \<forall>c \<in> set cs. cand_ok c \<and> length (rest_points c) < d"])
          fix x cs assume x: "x \<in> set stacks" "\<forall>c \<in> set cs. cand_ok c \<and> length (rest_points c) < d"
          then have xo: "stack_ok rules x" "ready rules x" using closure_ok[OF assms(1) ok] cl by blast+
          then show "settles (\<lambda>fuel. reject_for_stack d fuel rules x cs)" using Suc.IH x(2) d by blast
          fix fuel out assume "reject_for_stack d fuel rules x cs = Inr out"
          then have "set out \<subseteq> set cs" using reject_spec[OF assms(1) xo] x(2) by blast
          then show "\<forall>c \<in> set out. cand_ok c \<and> length (rest_points c) < d" using x(2) by blast
        qed (use short in blast)
        then show ?thesis using False by simp
      qed simp
      then have "settles (\<lambda>fuel. rbind (if nexts = [] then Inr [] else rfold (reject_for_stack d fuel rules) stacks nexts)
          (\<lambda>rs. Inr (rejects @ map (\<lambda>c. c\<lparr>g_off := g_off c - 1\<rparr>) rs)))"
        by (rule settles_rbind) simp
      then show "settles (\<lambda>fuel. rbind (guard (stacks \<noteq> []) Assert_failed) (\<lambda>_.
         rbind (if nexts = [] then Inr [] else rfold (reject_for_stack d fuel rules) stacks nexts) (\<lambda>rs.
         Inr (rejects @ map (\<lambda>c. c\<lparr>g_off := g_off c - 1\<rparr>) rs))))"
        using ne by simp
    qed
    then show ?thesis unfolding Cons by (simp only: run[rule_format])
  qed
qed simp

lemma max_depth_le:
  assumes "c \<in> set cs"
  shows "length (rest_points c) < max_depth cs"
proof -
  have mono: "m \<le> fold (\<lambda>c. max (length (g_points c))) cs m" for cs and m :: nat
    by (induction cs arbitrary: m) (auto intro: order_trans[OF max.cobounded2])
  have "length (g_points c) \<le> fold (\<lambda>c. max (length (g_points c))) cs m" for m
    using assms by (induction cs arbitrary: m) (auto intro: order_trans[OF max.cobounded1 mono])
  moreover have "length (rest_points c) \<le> length (g_points c)"
    unfolding rest_points_def by (metis length_drop length_takeWhile_le diff_le_self order_trans)
  ultimately show ?thesis by (simp add: max_depth_def le_imp_less_Suc order_trans)
qed

text \<open>The filter over all stacks.\<close>

lemma reject_candidates_spec:
  assumes "rules_ok rules" "stacks_ok rules stacks" "stacks \<noteq> []" "\<forall>c \<in> set cs. cand_ok c"
    and "llama_grammar_reject_candidates fuel rules stacks cs = Inr rs"
  shows "set rs = {c \<in> set cs. \<forall>st \<in> set stacks. \<not> good_cand rules c st}"
proof (cases "cs = []")
  case False
  then have r: "rfold (reject_for_stack (max_depth cs) fuel rules) stacks cs = Inr rs"
    using assms(3,5) by (simp add: llama_grammar_reject_candidates_def)
  show ?thesis
    by (rule rfold_filter[OF _ r assms(4)])
      (use reject_spec[OF assms(1)] assms(2) in \<open>unfold stacks_ok_def, blast\<close>)
qed (use assms(3,5) in \<open>simp add: llama_grammar_reject_candidates_def\<close>)

lemma reject_candidates_settles:
  assumes "rules_ok rules" "\<forall>st. stack_ok rules st \<longrightarrow> halts rules st"
    and "stacks_ok rules stacks" "stacks \<noteq> []" "\<forall>c \<in> set cs. cand_ok c"
  shows "settles (\<lambda>fuel. llama_grammar_reject_candidates fuel rules stacks cs)"
proof (cases "cs = []")
  case True
  then show ?thesis using assms(4) by (simp add: llama_grammar_reject_candidates_def)
next
  case False
  have d: "0 < max_depth cs" by (simp add: max_depth_def)
  have "settles (\<lambda>fuel. rfold (reject_for_stack (max_depth cs) fuel rules) stacks cs)"
  proof (rule settles_rfold[where P = "\<lambda>ds. \<forall>c \<in> set ds. cand_ok c \<and> length (rest_points c) < max_depth cs"])
    fix x ds assume x: "x \<in> set stacks" "\<forall>c \<in> set ds. cand_ok c \<and> length (rest_points c) < max_depth cs"
    then have xo: "stack_ok rules x" "ready rules x" using assms(3) by (simp_all add: stacks_ok_def)
    show "settles (\<lambda>fuel. reject_for_stack (max_depth cs) fuel rules x ds)"
      by (rule reject_settles[OF assms(1,2) xo x(2) d])
    fix fuel out assume "reject_for_stack (max_depth cs) fuel rules x ds = Inr out"
    then have "set out \<subseteq> set ds" using reject_spec[OF assms(1) xo] x(2) by blast
    then show "\<forall>c \<in> set out. cand_ok c \<and> length (rest_points c) < max_depth cs" using x(2) by blast
  qed (use assms(5) max_depth_le in blast)
  then show ?thesis using False assms(4) by (simp add: llama_grammar_reject_candidates_def)
qed

end
