(* ===== verification/GrammarPartial.thy ===== *)
theory GrammarPartial
  imports GrammarFilter
begin

text \<open>
  The partial code points at the end of a token: what a partial sequence can still become,
  and the range the engine compares it by.
\<close>

section \<open>What a sequence can become\<close>

definition completes :: "llama_partial_utf8 \<Rightarrow> 32 word \<Rightarrow> bool" where
  "completes part x \<longleftrightarrow>
     (\<exists>bs. length bs = nat (n_remain part) \<and> (\<forall>b \<in> set bs. drop_bit 6 b = 2) \<and>
        foldl shift_in (p_value part) bs = x) \<and>
     (n_remain part = 1 \<longrightarrow> 0x80 \<le> x) \<and> (n_remain part = 2 \<longrightarrow> 0x800 \<le> x) \<and>
     (n_remain part = 3 \<longrightarrow> 0x10000 \<le> x)"

lemma low_six: "unat ((b :: 8 word) AND 0x3F) < 64"
proof -
  have "b AND 0x3F = take_bit 6 b" by (simp add: take_bit_eq_mask mask_eq_exp_minus_1)
  moreover have "unat (take_bit 6 b) < 2 ^ 6"
    using take_bit_nat_less_exp[of 6 "unat b"] by (simp add: unsigned_take_bit_eq)
  ultimately show ?thesis by simp
qed

lemma unat_push_exact:
  assumes "unat (v :: 32 word) * 2 ^ m < 2 ^ 32"
  shows "unat (push_bit m v) = unat v * 2 ^ m"
proof -
  have "push_bit m v = of_nat (unat v * 2 ^ m)" by (simp add: push_bit_eq_mult)
  then show ?thesis using assms by (simp only: unat_of_nat) (simp add: take_bit_nat_eq_self)
qed

lemma unat_shift_in:
  assumes "unat v * 64 + 64 \<le> 2 ^ 32"
  shows "unat (shift_in v b) = unat v * 64 + unat (b AND 0x3F)"
proof -
  have p: "unat (push_bit 6 v) = unat v * 64" using unat_push_exact[of v 6] assms by simp
  have c: "unat (ucast (b AND 0x3F) :: 32 word) = unat (b AND 0x3F)"
    using low_six[of b] by (simp add: unsigned_ucast_eq take_bit_nat_eq_self)
  have "unat (push_bit 6 v) + unat (ucast (b AND 0x3F) :: 32 word) < 2 ^ LENGTH(32)"
    using p c low_six[of b] assms by simp
  then show ?thesis
    unfolding shift_in_def using p c unat_add_lem[THEN iffD1] by metis
qed

lemma unat_fold_shift:
  assumes "unat v * 64 ^ length bs + 64 ^ length bs \<le> 2 ^ 32"
  shows "\<exists>r < 64 ^ length bs. unat (foldl shift_in v bs) = unat v * 64 ^ length bs + r"
  using assms
proof (induction bs arbitrary: v)
  case (Cons b bs)
  let ?k = "length bs"
  have all: "(unat v * 64 + 64) * 64 ^ ?k \<le> 2 ^ 32"
    using Cons.prems by (simp add: algebra_simps)
  have one: "1 \<le> (64 :: nat) ^ ?k" by simp
  have "(unat v * 64 + 64) * 1 \<le> (unat v * 64 + 64) * 64 ^ ?k" by (rule mult_le_mono2[OF one])
  then have "(unat v * 64 + 64) * 1 \<le> 2 ^ 32" using all by (rule le_trans)
  then have "unat v * 64 + 64 \<le> 2 ^ 32" by simp
  then obtain c where c: "c < 64" "unat (shift_in v b) = unat v * 64 + c"
    using unat_shift_in low_six by blast
  have le: "c * 64 ^ ?k + 64 ^ ?k \<le> 64 * 64 ^ ?k"
    using mult_le_mono1[of "c + 1" 64 "64 ^ ?k"] c(1) by simp
  then have "unat (shift_in v b) * 64 ^ ?k + 64 ^ ?k \<le> (unat v * 64 + 64) * 64 ^ ?k"
    unfolding c(2) by (simp add: algebra_simps)
  then have "unat (shift_in v b) * 64 ^ ?k + 64 ^ ?k \<le> 2 ^ 32" using all by (rule le_trans)
  from Cons.IH[OF this] obtain r where r: "r < 64 ^ ?k"
    "unat (foldl shift_in (shift_in v b) bs) = unat (shift_in v b) * 64 ^ ?k + r" by blast
  moreover have "c * 64 ^ ?k + r < 64 ^ length (b # bs)"
    unfolding list.size power_Suc add_0_right add_Suc_right by (rule less_le_trans[OF _ le]) (simp add: r(1))
  ultimately show ?case
    using c by (intro exI[of _ "c * 64 ^ ?k + r"]) (simp add: algebra_simps)
qed simp

lemma unat_high:
  assumes "unat (v :: 32 word) * 2 ^ m + 2 ^ m \<le> 2 ^ 32" "m < 32"
  shows "unat (push_bit m v OR (push_bit m 1 - 1)) = unat v * 2 ^ m + (2 ^ m - 1)"
proof -
  have m: "push_bit m 1 - 1 = (mask m :: 32 word)" by (simp add: mask_eq_exp_minus_1 push_bit_eq_mult)
  have "push_bit m v OR mask m = push_bit m v + mask m"
    by (rule disjunctive_add[symmetric]) (auto simp: bit_push_bit_iff bit_mask_iff)
  moreover have "unat (mask m :: 32 word) = 2 ^ m - 1"
  proof -
    have "unat (of_nat (mask m) :: 32 word) = take_bit 32 (mask m)" by (simp only: unsigned_of_nat) simp
    also have "\<dots> = mask m" using assms(2) by (simp add: min_def)
    finally show ?thesis by (simp add: of_nat_mask_eq mask_eq_exp_minus_1)
  qed
  moreover have "unat (push_bit m v) = unat v * 2 ^ m"
    by (intro unat_push_exact, rule less_le_trans[OF _ assms(1)]) simp
  moreover have "unat v * 2 ^ m + (2 ^ m - 1) < 2 ^ LENGTH(32)" using assms(1) by simp
  ultimately show ?thesis unfolding m by (metis unat_add_lem)
qed

lemma completes_range:
  assumes "n_remain part \<in> {1, 2, 3}" "unat (p_value part) < 2 ^ (32 - 6 * nat (n_remain part))"
    and "completes part x"
  shows "partial_low part \<le> x" "x \<le> partial_high part" "\<not> (n_remain part = 1 \<and> p_value part < 2)"
proof -
  let ?n = "nat (n_remain part)" and ?v = "p_value part"
  have m: "nat (n_remain part * 6) = 6 * ?n" "6 * ?n < 32" using assms(1) by auto
  have sixty: "(64 :: nat) ^ k = 2 ^ (6 * k)" for k by (simp add: power_mult)
  have "(unat ?v + 1) * 2 ^ (6 * ?n) \<le> 2 ^ (32 - 6 * ?n) * 2 ^ (6 * ?n)"
    using assms(2) by (intro mult_le_mono1) simp
  also have "\<dots> = 2 ^ 32" using m(2) by (simp add: power_add[symmetric])
  finally have fit: "unat ?v * 2 ^ (6 * ?n) + 2 ^ (6 * ?n) \<le> 2 ^ 32" by simp
  obtain bs where bs: "length bs = ?n" "foldl shift_in ?v bs = x"
    using assms(3) by (auto simp: completes_def)
  obtain r where r: "r < 2 ^ (6 * ?n)" "unat x = unat ?v * 2 ^ (6 * ?n) + r"
    using unat_fold_shift[of ?v bs] fit bs by (auto simp: sixty)
  have hi: "unat (partial_high part) = unat ?v * 2 ^ (6 * ?n) + (2 ^ (6 * ?n) - 1)"
    using unat_high[OF fit m(2)] by (simp add: partial_high_def m(1))
  then show "x \<le> partial_high part" using r by (simp add: word_le_nat_alt)
  have lo: "unat (push_bit (6 * ?n) ?v) = unat ?v * 2 ^ (6 * ?n)"
    by (rule unat_push_exact) (rule less_le_trans[OF _ fit], simp)
  then have "push_bit (6 * ?n) ?v \<le> x" using r(2) by (simp add: word_le_nat_alt)
  then show "partial_low part \<le> x"
    using assms(3) by (auto simp: partial_low_def m(1) completes_def Let_def push_bit_eq_mult)
  show "\<not> (n_remain part = 1 \<and> ?v < 2)"
  proof
    assume a: "n_remain part = 1 \<and> ?v < 2"
    then have "unat ?v \<le> 1" by (simp add: word_less_nat_alt)
    then have "unat x < 128" using r a by simp
    moreover have "0x80 \<le> x" using assms(3) a by (simp add: completes_def)
    ultimately show False by (simp add: word_le_nat_alt)
  qed
qed

text \<open>Conversely every code point of the range is one the sequence can become.\<close>

lemma continuation_byte:
  assumes "c < 64"
  shows "\<exists>b :: 8 word. drop_bit 6 b = 2 \<and> unat (b AND 0x3F) = c"
proof -
  have "list_all (\<lambda>c. drop_bit 6 (0x80 OR of_nat c :: 8 word) = 2 \<and> unat ((0x80 OR of_nat c :: 8 word) AND 0x3F) = c) [0..<64]"
    by code_simp
  then show ?thesis using assms by (intro exI[of _ "0x80 OR of_nat c"]) (simp add: list_all_iff)
qed

lemma fold_shift_onto:
  assumes "unat v * 64 ^ n + 64 ^ n \<le> 2 ^ 32" "r < 64 ^ n"
  shows "\<exists>bs. length bs = n \<and> (\<forall>b \<in> set bs. drop_bit 6 b = 2) \<and> unat (foldl shift_in v bs) = unat v * 64 ^ n + r"
  using assms
proof (induction n arbitrary: r)
  case (Suc n)
  have le: "unat v * 64 ^ n + 64 ^ n \<le> 2 ^ 32" using Suc.prems(1) by simp
  have q: "r div 64 < 64 ^ n" using Suc.prems(2) by (simp add: less_mult_imp_div_less mult.commute)
  obtain bs where bs: "length bs = n" "\<forall>b \<in> set bs. drop_bit 6 b = 2"
    "unat (foldl shift_in v bs) = unat v * 64 ^ n + r div 64"
    using Suc.IH[OF le q] by blast
  obtain b :: "8 word" where b: "drop_bit 6 b = 2" "unat (b AND 0x3F) = r mod 64"
    using continuation_byte[of "r mod 64"] by auto
  have "unat (foldl shift_in v bs) + 1 \<le> unat v * 64 ^ n + 64 ^ n" using bs(3) q by simp
  then have "(unat (foldl shift_in v bs) + 1) * 64 \<le> 2 ^ 32" using Suc.prems(1) by simp
  then have "unat (shift_in (foldl shift_in v bs) b) = (unat v * 64 ^ n + r div 64) * 64 + r mod 64"
    using unat_shift_in[of "foldl shift_in v bs" b] bs(3) b(2) by simp
  also have "\<dots> = unat v * 64 ^ Suc n + r" by (simp add: algebra_simps)
  finally show ?case using bs b by (intro exI[of _ "bs @ [b]"]) auto
qed simp

lemma range_completes:
  assumes "n_remain part \<in> {1, 2, 3}" "unat (p_value part) < 2 ^ (32 - 6 * nat (n_remain part))"
    and "\<not> (n_remain part = 1 \<and> p_value part < 2)" "partial_low part \<le> x" "x \<le> partial_high part"
  shows "completes part x"
proof -
  let ?n = "nat (n_remain part)" and ?v = "p_value part"
  have m: "nat (n_remain part * 6) = 6 * ?n" "6 * ?n < 32" using assms(1) by auto
  have sixty: "(64 :: nat) ^ k = 2 ^ (6 * k)" for k by (simp add: power_mult)
  have "(unat ?v + 1) * 2 ^ (6 * ?n) \<le> 2 ^ (32 - 6 * ?n) * 2 ^ (6 * ?n)"
    using assms(2) by (intro mult_le_mono1) simp
  also have "\<dots> = 2 ^ 32" using m(2) by (simp add: power_add[symmetric])
  finally have fit: "unat ?v * 2 ^ (6 * ?n) + 2 ^ (6 * ?n) \<le> 2 ^ 32" by simp
  have lo: "unat (push_bit (6 * ?n) ?v) = unat ?v * 2 ^ (6 * ?n)"
    by (rule unat_push_exact) (rule less_le_trans[OF _ fit], simp)
  have hi: "unat (partial_high part) = unat ?v * 2 ^ (6 * ?n) + (2 ^ (6 * ?n) - 1)"
    using unat_high[OF fit m(2)] by (simp add: partial_high_def m(1))
  have low: "push_bit (6 * ?n) ?v \<le> partial_low part"
    by (cases "push_bit (6 * ?n) ?v = 0") (simp_all add: partial_low_def m(1) Let_def)
  have ge: "unat ?v * 2 ^ (6 * ?n) \<le> unat x"
    using order.trans[OF low assms(4)] lo by (simp add: word_le_nat_alt)
  have le: "unat x \<le> unat ?v * 2 ^ (6 * ?n) + (2 ^ (6 * ?n) - 1)"
    using assms(5) hi by (simp add: word_le_nat_alt)
  define r where "r = unat x - unat ?v * 2 ^ (6 * ?n)"
  have "r \<le> 2 ^ (6 * ?n) - 1" using le by (simp add: r_def)
  then have r: "r < 2 ^ (6 * ?n)" by (simp add: le_less_trans[OF _ diff_less])
  obtain bs where bs: "length bs = ?n" "\<forall>b \<in> set bs. drop_bit 6 b = 2"
    "unat (foldl shift_in ?v bs) = unat ?v * 2 ^ (6 * ?n) + r"
    using fold_shift_onto[of ?v ?n r] fit r by (auto simp: sixty)
  then have "foldl shift_in ?v bs = x" using ge by (simp only: word_unat_eq_iff) (simp add: r_def)
  moreover have "n_remain part = 1 \<longrightarrow> 0x80 \<le> x"
  proof
    assume n: "n_remain part = 1"
    then have "2 \<le> unat ?v" using assms(3) by (simp add: word_less_nat_alt)
    then show "0x80 \<le> x" using ge n by (simp add: word_le_nat_alt)
  qed
  moreover have "0x800 \<le> x" if n: "n_remain part = 2"
  proof (cases "push_bit (6 * ?n) ?v = 0")
    case True
    then show ?thesis using assms(4) n by (simp add: partial_low_def m(1) Let_def push_bit_eq_mult)
  next
    case False
    then have "0 < unat ?v" by (auto simp: unat_gt_0)
    then show ?thesis using ge n by (simp add: word_le_nat_alt)
  qed
  moreover have "0x10000 \<le> x" if n: "n_remain part = 3"
  proof (cases "push_bit (6 * ?n) ?v = 0")
    case True
    then show ?thesis using assms(4) n by (simp add: partial_low_def m(1) Let_def push_bit_eq_mult)
  next
    case False
    then have "0 < unat ?v" by (auto simp: unat_gt_0)
    then show ?thesis using ge n by (simp add: word_le_nat_alt)
  qed
  ultimately show ?thesis unfolding completes_def using bs(1,2) by blast
qed

lemma range_not_empty:
  assumes "n_remain part \<in> {1, 2, 3}" "unat (p_value part) < 2 ^ (32 - 6 * nat (n_remain part))"
  shows "partial_low part \<le> partial_high part"
proof -
  let ?n = "nat (n_remain part)" and ?v = "p_value part"
  have m: "nat (n_remain part * 6) = 6 * ?n" "6 * ?n < 32" using assms(1) by auto
  have "(unat ?v + 1) * 2 ^ (6 * ?n) \<le> 2 ^ (32 - 6 * ?n) * 2 ^ (6 * ?n)"
    using assms(2) by (intro mult_le_mono1) simp
  also have "\<dots> = 2 ^ 32" using m(2) by (simp add: power_add[symmetric])
  finally have fit: "unat ?v * 2 ^ (6 * ?n) + 2 ^ (6 * ?n) \<le> 2 ^ 32" by simp
  have lo: "unat (push_bit (6 * ?n) ?v) = unat ?v * 2 ^ (6 * ?n)"
    by (rule unat_push_exact) (rule less_le_trans[OF _ fit], simp)
  have hi: "unat (partial_high part) = unat ?v * 2 ^ (6 * ?n) + (2 ^ (6 * ?n) - 1)"
    using unat_high[OF fit m(2)] by (simp add: partial_high_def m(1))
  have "unat (partial_low part) \<le> unat (partial_high part)"
    using assms(1) hi lo by (auto simp: partial_low_def m(1) Let_def push_bit_eq_mult)
  then show ?thesis by (simp add: word_le_nat_alt)
qed

text \<open>A positive class that holds a code point the sequence can become is not refused.\<close>

lemma meets_member:
  assumes "in_class es x" "low \<le> x" "x \<le> high"
  shows "class_meets es low high"
  using assms by (auto simp: in_class_def class_meets_def class_member_def member_meets_def
      split: if_splits intro: order_trans)


text \<open>
  A class whose ranges run from the lower to the upper end meets the range of a sequence only in a
  member, and a negated class that does not meet it holds all of it.
\<close>

fun ordered_elems :: "llama_grammar_element list \<Rightarrow> bool" where
  "ordered_elems (e # u # es) =
     ((e_type u = Gre_char_rng_upper \<longrightarrow> e_value e \<le> e_value u) \<and> ordered_elems (u # es))"
| "ordered_elems es = True"

definition ranges_ordered :: "grammar_rule list \<Rightarrow> bool" where
  "ranges_ordered rules = list_all ordered_elems rules"

definition no_negated :: "grammar_rule list \<Rightarrow> bool" where
  "no_negated rules = list_all (list_all (\<lambda>e. e_type e \<noteq> Gre_char_not)) rules"

lemma ordered_at:
  "ordered_elems es \<Longrightarrow> Suc j < length es \<Longrightarrow> e_type (es ! Suc j) = Gre_char_rng_upper \<Longrightarrow> e_value (es ! j) \<le> e_value (es ! Suc j)"
proof (induction es arbitrary: j rule: ordered_elems.induct)
  case (1 e u es)
  then show ?case by (cases j) auto
qed auto

lemma ordered_drop: "ordered_elems es \<Longrightarrow> ordered_elems (drop k es)"
proof (induction es arbitrary: k rule: ordered_elems.induct)
  case (1 e u es)
  then show ?case by (cases k) auto
qed (auto simp: drop_Cons split: nat.split)

lemma class_len_less:
  assumes "tail_ok es" "e_type (hd es) \<noteq> Gre_end"
  shows "class_len es < length es"
proof -
  obtain e es' where es: "es = e # es'" "es' \<noteq> []" "e_type (last es') = Gre_end"
    using assms by (cases es) (auto simp: tail_ok_def split: if_splits)
  have "length (takeWhile in_class_tail es') \<noteq> length es'"
  proof
    assume "length (takeWhile in_class_tail es') = length es'"
    then have "takeWhile in_class_tail es' = es'" by (metis takeWhile_eq_take take_all order_refl)
    then have "in_class_tail (last es')" using es(2) by (metis last_in_set set_takeWhileD)
    then show False using es(3) by (simp add: in_class_tail_def)
  qed
  then have "length (takeWhile in_class_tail es') < length es'" using length_takeWhile_le le_neq_implies_less by blast
  then show ?thesis using es(1) by (simp add: class_len_def)
qed

lemma meets_ordered:
  assumes "class_meets es low high" "low \<le> high" "ordered_elems es" "class_len es < length es"
  shows "\<exists>x. low \<le> x \<and> x \<le> high \<and> in_class es x"
proof (cases "e_type (hd es) = Gre_char_any")
  case True
  then show ?thesis using assms(2) by (auto simp: in_class_def)
next
  case False
  then obtain j where j: "j < class_len es" "member_meets es j low high" using assms(1) by (auto simp: class_meets_def)
  have "\<exists>x. low \<le> x \<and> x \<le> high \<and> class_member es j x"
  proof (cases "e_type (es ! Suc j) = Gre_char_rng_upper")
    case True
    then have "e_value (es ! j) \<le> e_value (es ! Suc j)" using ordered_at[OF assms(3)] j(1) assms(4) by simp
    then show ?thesis using j(2) True assms(2)
      by (intro exI[of _ "max low (e_value (es ! j))"]) (auto simp: member_meets_def class_member_def)
  next
    case False
    then show ?thesis using j(2) by (auto simp: member_meets_def class_member_def)
  qed
  then show ?thesis using j(1) by (auto simp: in_class_def)
qed

text \<open>The state of a decoder: what it has of a code point fits the bits that are left.\<close>

definition utf8_ok :: "llama_partial_utf8 \<Rightarrow> bool" where
  "utf8_ok part \<longleftrightarrow> n_remain part \<le> 3 \<and> (0 < n_remain part \<longrightarrow> unat (p_value part) < 2 ^ nat (23 - 6 * n_remain part))"

lemma utf8_okD:
  assumes "utf8_ok part" "0 < n_remain part"
  shows "n_remain part \<in> {1, 2, 3}" "unat (p_value part) < 2 ^ (32 - 6 * nat (n_remain part))"
proof -
  show n: "n_remain part \<in> {1, 2, 3}" using assms by (auto simp: utf8_ok_def)
  then show "unat (p_value part) < 2 ^ (32 - 6 * nat (n_remain part))"
    using assms by (auto simp: utf8_ok_def)
qed

lemma partial_matches_sound:
  assumes "rules_ok rules" "char_pos rules p" "ranges_ordered rules" "utf8_ok part" "0 < n_remain part"
    and "partial_matches rules p part"
  shows "\<exists>x. completes part x \<and> char_matches rules p x"
proof -
  note n = utf8_okD[OF assms(4,5)]
  have v: "\<not> (n_remain part = 1 \<and> p_value part < 2)" using assms(6) by (simp add: partial_matches_def)
  have lh: "partial_low part \<le> partial_high part" by (rule range_not_empty[OF n])
  show ?thesis
  proof (cases "is_positive_char (at rules p)")
    case True
    have "elems_at rules p = drop (snd p) (rules ! fst p)" "fst p < length rules"
      using assms(2) by (cases p; simp add: elems_at_def char_pos_def valid_pos_def)+
    then have "ordered_elems (elems_at rules p)"
      using assms(3) by (simp add: ranges_ordered_def list_all_length ordered_drop)
    moreover have "class_len (elems_at rules p) < length (elems_at rules p)"
      using char_pos_elems[OF assms(1,2)] assms(2) by (intro class_len_less) (auto simp: char_pos_def)
    moreover have "class_meets (elems_at rules p) (partial_low part) (partial_high part)"
      using assms(6) True by (simp add: partial_matches_def)
    ultimately obtain x where "partial_low part \<le> x" "x \<le> partial_high part" "in_class (elems_at rules p) x"
      using meets_ordered lh by blast
    then show ?thesis using range_completes[OF n v] True by (auto simp: char_matches_def)
  next
    case False
    then have "\<not> class_meets (elems_at rules p) (partial_low part) (partial_high part)"
      using assms(6) by (simp add: partial_matches_def)
    then have "\<not> in_class (elems_at rules p) (partial_low part)" using meets_member lh by blast
    then show ?thesis using range_completes[OF n v order.refl lh] False by (auto simp: char_matches_def)
  qed
qed

lemma partial_matches_complete:
  assumes "is_positive_char (at rules p)" "utf8_ok part" "0 < n_remain part"
    and "completes part x" "char_matches rules p x"
  shows "partial_matches rules p part"
proof -
  note n = utf8_okD[OF assms(2,3)]
  note r = completes_range[OF n assms(4)]
  have "in_class (elems_at rules p) x" using assms(1,5) by (simp add: char_matches_def)
  from meets_member[OF this r(1,2)] show ?thesis using r(3) assms(1,3) by (simp add: partial_matches_def)
qed

section \<open>The decoder keeps its state\<close>

lemma shift_in_bound:
  assumes "0 < n" "n \<le> 3" "unat v < 2 ^ nat (23 - 6 * n)"
  shows "0 < n - 1 \<longrightarrow> unat (shift_in v b) < 2 ^ nat (23 - 6 * (n - 1))"
proof
  assume "0 < n - 1"
  then have n: "n = 2 \<or> n = 3" using assms(2) by auto
  then have "unat v < 2 ^ 11" using assms(3) by auto
  then have "unat (shift_in v b) = unat v * 64 + unat (b AND 0x3F)" by (intro unat_shift_in) simp
  then show "unat (shift_in v b) < 2 ^ nat (23 - 6 * (n - 1))" using n assms(3) low_six[of b] by auto
qed

lemma first_byte_bound:
  assumes "m = utf8_lookup b - 1"
  shows "m \<le> 3 \<and> (0 < m \<longrightarrow> unat (ucast (b AND (push_bit (nat (7 - m)) 1 - 1)) :: 32 word) < 2 ^ nat (23 - 6 * m))"
proof -
  have byte: "unat x < 256" for x :: "8 word" using unsigned_less[of x, where 'a = nat] by simp
  have "unat (drop_bit 4 b) < 16" using byte[of b] by (simp add: drop_bit_eq_div unat_div_distrib)
  then have "utf8_lookup b \<in> set [1, 1, 1, 1, 1, 1, 1, 1, 0, 0, 0, 0, 2, 2, 3, 4]"
    unfolding utf8_lookup_def by (intro nth_mem) simp
  then have m: "m \<le> 3" "0 < m \<longrightarrow> m = 1 \<or> m = 2 \<or> m = 3" using assms by auto
  have u: "unat (ucast (x :: 8 word) :: 32 word) = unat x" "unat x < 256" for x
    using byte[of x] by (simp_all add: unsigned_ucast_eq take_bit_nat_eq_self)
  have "b AND 0xF = take_bit 4 b" by (simp add: take_bit_eq_mask mask_eq_exp_minus_1)
  moreover have "unat (take_bit 4 b) < 2 ^ 4"
    using take_bit_nat_less_exp[of 4 "unat b"] by (simp add: unsigned_take_bit_eq)
  ultimately have "unat (b AND 0xF) < 16" by simp
  moreover have "push_bit (nat (7 - 3)) 1 - 1 = (0xF :: 8 word)" by (simp add: push_bit_eq_mult)
  ultimately have three: "unat (ucast (b AND (push_bit (nat (7 - 3)) 1 - 1)) :: 32 word) < 32" unfolding u(1) by simp
  have "unat (ucast (x :: 8 word) :: 32 word) < 2 ^ 11" "unat (ucast x :: 32 word) < 2 ^ 17" for x
    unfolding u(1) using u(2)[of x] by simp_all
  then show ?thesis using m three by auto
qed

text \<open>Each loop of the decoder hands on a state that fits.\<close>

lemma continue_ok:
  "utf8_ok \<lparr>p_value = v, n_remain = n\<rparr> \<Longrightarrow> continue_utf8 bs v n = Some (bs', v', n') \<Longrightarrow> utf8_ok \<lparr>p_value = v', n_remain = n'\<rparr>"
proof (induction bs v n rule: continue_utf8.induct)
  case (2 b bs v n)
  show ?case
  proof (cases "0 < n")
    case True
    then show ?thesis using 2 shift_in_bound[of n v b] by (simp add: utf8_ok_def split: if_splits)
  qed (use 2 in simp)
qed simp

lemma take_ok:
  "utf8_ok \<lparr>p_value = v, n_remain = n\<rparr> \<Longrightarrow> take_utf8 bs v n = (bs', v', n') \<Longrightarrow> utf8_ok \<lparr>p_value = v', n_remain = n'\<rparr>"
proof (induction bs v n rule: take_utf8.induct)
  case (2 b bs v n)
  show ?case
  proof (cases "0 < n")
    case True
    then show ?thesis using 2 shift_in_bound[of n v b] by (simp add: utf8_ok_def)
  qed (use 2 in simp)
qed simp

lemma decode_loop_ok:
  "utf8_ok \<lparr>p_value = v, n_remain = n\<rparr> \<Longrightarrow> decode_loop_utf8 bs cps v n = Some (cps', v', n') \<Longrightarrow>
     utf8_ok \<lparr>p_value = v', n_remain = n'\<rparr>"
proof (induction "length bs" arbitrary: bs cps v n rule: less_induct)
  case less
  show ?case
  proof (cases bs)
    case (Cons b rest)
    let ?m = "utf8_lookup b - 1"
    let ?v = "ucast (b AND (push_bit (nat (7 - ?m)) 1 - 1)) :: 32 word"
    obtain bs1 v1 n1 where t: "take_utf8 rest ?v ?m = (bs1, v1, n1)" by (metis prod_cases3)
    have "utf8_ok \<lparr>p_value = ?v, n_remain = ?m\<rparr>" using first_byte_bound[of ?m b] by (simp add: utf8_ok_def)
    then have ok: "utf8_ok \<lparr>p_value = v1, n_remain = n1\<rparr>" using take_ok t by blast
    have "decode_loop_utf8 bs1 (if n1 = 0 then cps @ [v1] else cps) v1 n1 = Some (cps', v', n')"
      using less.prems(2) t unfolding Cons by (simp add: Let_def split: if_splits)
    moreover have "length bs1 < length bs" using take_utf8_length[of rest ?v ?m] t Cons by simp
    ultimately show ?thesis using less.hyps ok by blast
  qed (use less.prems in simp)
qed

lemma decode_utf8_ok:
  assumes "utf8_ok part"
  shows "utf8_ok (snd (decode_utf8 src part))"
proof (cases "continue_utf8 (c_bytes src) (p_value part) (n_remain part)")
  case None
  then show ?thesis by (simp add: decode_utf8_def utf8_ok_def)
next
  case (Some r)
  obtain bs v n where r: "r = (bs, v, n)" by (cases r) auto
  have ok: "utf8_ok \<lparr>p_value = v, n_remain = n\<rparr>"
  proof (rule continue_ok)
    show "utf8_ok \<lparr>p_value = p_value part, n_remain = n_remain part\<rparr>" using assms by (simp add: utf8_ok_def)
  qed (use Some r in simp)
  show ?thesis
  proof (cases "decode_loop_utf8 bs (if 0 < n_remain part \<and> n = 0 then [v] else []) v n")
    case None
    then show ?thesis using Some r by (simp add: decode_utf8_def utf8_ok_def Let_def)
  next
    case s: (Some q)
    obtain cps v' n' where q: "q = (cps, v', n')" by (cases q) auto
    have "decode_utf8 src part = (cps' @ [0], \<lparr>p_value = v', n_remain = n'\<rparr>)" if "cps' = cps" for cps'
      using Some r s q that by (simp only: decode_utf8_def Let_def option.case prod.case)
    then show ?thesis using decode_loop_ok[OF ok s[unfolded q]] by simp
  qed
qed

end
