(* ===== verification/GrammarUtf8.thy ===== *)
theory GrammarUtf8
  imports Grammar
begin

text \<open>
  The streaming decoder of the grammar engine, \<open>decode_utf8\<close> of llama-grammar.cpp: the
  automaton it runs on well-formed text, byte by byte, and that it can be stopped and
  continued anywhere.
\<close>

section \<open>The decoder as an automaton\<close>

text \<open>
  A byte at a time: in a sequence (\<open>0 < n\<close>) the next byte must be a continuation,
  otherwise it must start a sequence.  \<open>None\<close> marks malformed text and a NUL, which would
  end the string.
\<close>

fun utf8_run :: "8 word list \<Rightarrow> 32 word list \<Rightarrow> 32 word \<Rightarrow> int \<Rightarrow> (32 word list \<times> 32 word \<times> int) option" where
  "utf8_run [] cps v n = Some (cps, v, n)"
| "utf8_run (b # bs) cps v n =
     (if 0 < n then
        (if drop_bit 6 b \<noteq> 2 then None
         else utf8_run bs (if n = 1 then cps @ [shift_in v b] else cps) (shift_in v b) (n - 1))
      else
        (let m = utf8_lookup b - 1; v = ucast (b AND (push_bit (nat (7 - m)) 1 - 1)) in
         if m < 0 \<or> b = 0 then None else utf8_run bs (if m = 0 then cps @ [v] else cps) v m))"

lemma utf8_run_append:
  "utf8_run (as @ bs) cps v n = Option.bind (utf8_run as cps v n) (\<lambda>(c, v, n). utf8_run bs c v n)"
  by (induction as arbitrary: cps v n) (auto simp: Let_def)

lemma utf8_run_cps:
  "utf8_run bs cps v n = map_option (\<lambda>(c, v, n). (cps @ c, v, n)) (utf8_run bs [] v n)"
proof (induction bs arbitrary: cps v n)
  case (Cons b bs)
  have one: "utf8_run bs (cps @ [w]) w m = map_option (\<lambda>(c, v, n). (cps @ c, v, n)) (utf8_run bs [w] w m)"
    for cps w m
    by (subst Cons, subst (2) Cons) (simp add: option.map_comp comp_def split_def)
  have stay: "utf8_run bs cps w m = map_option (\<lambda>(c, v, n). (cps @ c, v, n)) (utf8_run bs [] w m)"
    for cps w m by (rule Cons)
  show ?case
  proof (cases "0 < n")
    case True
    then show ?thesis using stay[of cps "shift_in v b" "n - 1"] one[of cps "shift_in v b"] by simp
  next
    case False
    let ?m = "utf8_lookup b - 1" and ?v = "ucast (b AND (push_bit (nat (7 - (utf8_lookup b - 1))) 1 - 1))"
    show ?thesis
      using False stay[of cps ?v ?m] one[of cps _ 0] by (simp add: Let_def)
  qed
qed simp

lemma continue_run:
  assumes "0 < n" "utf8_run bs cps v n = Some r"
  shows "\<exists>bs' v' n'. continue_utf8 bs v n = Some (bs', v', n') \<and> length bs' \<le> length bs \<and>
    (if n' = 0 then utf8_run bs' (cps @ [v']) v' 0 = Some r else bs' = [] \<and> 0 < n' \<and> r = (cps, v', n'))"
  using assms
proof (induction bs arbitrary: v n)
  case (Cons b bs)
  then have b: "drop_bit 6 b = 2" by (auto split: if_splits)
  show ?case
  proof (cases "n = 1")
    case True
    then have "utf8_run bs (cps @ [shift_in v b]) (shift_in v b) 0 = Some r" using Cons.prems(2) b by simp
    moreover have "continue_utf8 bs (shift_in v b) 0 = Some (bs, shift_in v b, 0)" by (cases bs) simp_all
    ultimately show ?thesis using True b by simp
  next
    case False
    then have "utf8_run bs cps (shift_in v b) (n - 1) = Some r" "0 < n - 1" using Cons.prems b by simp_all
    from Cons.IH[OF this(2,1)] obtain bs' v' n' where
      "continue_utf8 bs (shift_in v b) (n - 1) = Some (bs', v', n')" "length bs' \<le> length bs"
      "if n' = 0 then utf8_run bs' (cps @ [v']) v' 0 = Some r else bs' = [] \<and> 0 < n' \<and> r = (cps, v', n')"
      by blast
    then show ?thesis using Cons.prems(1) b
      by (intro exI[of _ bs'] exI[of _ v'] exI[of _ n']) (simp split del: if_split)
  qed
qed auto

lemma take_run:
  assumes "0 < n" "utf8_run bs cps v n = Some r"
  shows "\<exists>bs' v' n'. take_utf8 bs v n = (bs', v', n') \<and>
    (if n' = 0 then utf8_run bs' (cps @ [v']) v' 0 = Some r else bs' = [] \<and> 0 < n' \<and> r = (cps, v', n'))"
  using assms
proof (induction bs arbitrary: v n)
  case (Cons b bs)
  then have b: "drop_bit 6 b = 2" by (auto split: if_splits)
  show ?case
  proof (cases "n = 1")
    case True
    then have "utf8_run bs (cps @ [shift_in v b]) (shift_in v b) 0 = Some r" using Cons.prems(2) b by simp
    moreover have "take_utf8 bs (shift_in v b) 0 = (bs, shift_in v b, 0)" by (cases bs) simp_all
    ultimately show ?thesis using True by simp
  next
    case False
    then have "utf8_run bs cps (shift_in v b) (n - 1) = Some r" "0 < n - 1" using Cons.prems b by simp_all
    from Cons.IH[OF this(2,1)] show ?thesis using Cons.prems(1) by simp
  qed
qed auto

lemma take_zero [simp]: "take_utf8 bs v 0 = (bs, v, 0)"
  by (cases bs) simp_all

lemma decode_loop_run:
  assumes "n \<le> 0" "utf8_run bs cps v n = Some r"
  shows "decode_loop_utf8 bs cps v n = Some r"
  using assms
proof (induction "length bs" arbitrary: bs cps v n rule: less_induct)
  case less
  show ?case
  proof (cases bs)
    case (Cons b bs')
    let ?m = "utf8_lookup b - 1" and ?v = "ucast (b AND (push_bit (nat (7 - (utf8_lookup b - 1))) 1 - 1))"
    have m: "0 \<le> ?m" "utf8_run bs' (if ?m = 0 then cps @ [?v] else cps) ?v ?m = Some r"
      using less.prems Cons by (auto simp: Let_def split: if_splits)
    show ?thesis
    proof (cases "?m = 0")
      case True
      then show ?thesis using less.hyps[of bs' 0] m Cons by (simp add: Let_def)
    next
      case False
      then have "0 < ?m" "utf8_run bs' cps ?v ?m = Some r" using m by auto
      from take_run[OF this] obtain bs'' v' n' where t: "take_utf8 bs' ?v ?m = (bs'', v', n')"
        "if n' = 0 then utf8_run bs'' (cps @ [v']) v' 0 = Some r else bs'' = [] \<and> 0 < n' \<and> r = (cps, v', n')"
        by blast
      have "length bs'' \<le> length bs'" using take_utf8_length[of bs' ?v ?m] t(1) by simp
      then show ?thesis
        using t m(1) Cons less.hyps[of bs'' 0] by (cases "n' = 0") (simp_all add: Let_def)
    qed
  qed (use less.prems in simp)
qed

lemma run_no_nul: "utf8_run bs cps v n \<noteq> None \<Longrightarrow> c_bytes bs = bs"
  by (induction bs cps v n rule: utf8_run.induct) (auto simp: c_bytes_def Let_def split: if_splits)

lemma decode_run:
  assumes "utf8_run src [] (p_value p) (n_remain p) = Some (cps, v, n)"
  shows "decode_utf8 src p = (cps @ [0], \<lparr>p_value = v, n_remain = n\<rparr>)"
proof -
  have src: "c_bytes src = src" using assms run_no_nul[of src "[]" "p_value p" "n_remain p"] by simp
  show ?thesis
proof (cases "0 < n_remain p")
  case True
  from continue_run[OF this assms] obtain bs' v' n' where c:
    "continue_utf8 src (p_value p) (n_remain p) = Some (bs', v', n')"
    "if n' = 0 then utf8_run bs' ([] @ [v']) v' 0 = Some (cps, v, n) else bs' = [] \<and> 0 < n' \<and> (cps, v, n) = ([], v', n')"
    by blast
  then show ?thesis
    using True decode_loop_run[of 0 bs' "[v']" v' "(cps, v, n)"]
    by (cases "n' = 0") (simp_all add: decode_utf8_def src Let_def)
next
  case False
  then have "continue_utf8 src (p_value p) (n_remain p) = Some (src, p_value p, n_remain p)"
    by (cases src) simp_all
  then show ?thesis
    using False decode_loop_run[OF _ assms] by (simp add: decode_utf8_def src Let_def)
qed
qed

lemma decode_pieces:
  assumes "utf8_run (xs @ ys) [] (p_value p) (n_remain p) \<noteq> None"
  shows "decode_utf8 (xs @ ys) p =
    (let (cs, q) = decode_utf8 xs p; (ds, r) = decode_utf8 ys q in (butlast cs @ ds, r))"
proof -
  obtain cs v n where a: "utf8_run xs [] (p_value p) (n_remain p) = Some (cs, v, n)"
    using assms by (cases "utf8_run xs [] (p_value p) (n_remain p)") (auto simp: utf8_run_append)
  then obtain ds w m where b: "utf8_run ys [] v n = Some (ds, w, m)"
    using assms utf8_run_cps[of ys cs v n] by (cases "utf8_run ys [] v n") (auto simp: utf8_run_append)
  have "utf8_run (xs @ ys) [] (p_value p) (n_remain p) = Some (cs @ ds, w, m)"
    using a b utf8_run_cps[of ys cs v n] by (simp add: utf8_run_append)
  then show ?thesis
    using decode_run[OF a] decode_run[of ys "\<lparr>p_value = v, n_remain = n\<rparr>"] b decode_run
    by (simp add: butlast_append)
qed

text \<open>
  C30. Token boundaries do not matter: decoding a well-formed text in two pieces, the second
  from the partial sequence the first left, gives the code points and the partial sequence
  of decoding it at once, wherever the cut is, inside a code point too.
\<close>

theorem decode_utf8_streams:
  assumes "utf8_run (xs @ ys) [] (p_value p) (n_remain p) \<noteq> None"
  shows "decode_utf8 (xs @ ys) p =
    (let (cs, q) = decode_utf8 xs p; (ds, r) = decode_utf8 ys q in (butlast cs @ ds, r))"
  by (rule decode_pieces[OF assms])

theorem decode_utf8_streams_witness:
  "decode_utf8 [0x61, 0xE2, 0x82] \<lparr>p_value = 0, n_remain = 0\<rparr> = ([0x61, 0], \<lparr>p_value = 0x82, n_remain = 1\<rparr>) \<and>
   decode_utf8 ([0x61, 0xE2, 0x82] @ [0xAC, 0x62]) \<lparr>p_value = 0, n_remain = 0\<rparr> =
     ([0x61, 0x20AC, 0x62, 0], \<lparr>p_value = 0x62, n_remain = 0\<rparr>)"
proof -
  let ?p = "\<lparr>p_value = 0, n_remain = 0\<rparr>"
  have ok: "utf8_run ([0x61, 0xE2, 0x82] @ [0xAC, 0x62]) [] (p_value ?p) (n_remain ?p) \<noteq> None"
    by code_simp
  have "decode_utf8 [0x61, 0xE2, 0x82] ?p = ([0x61, 0], \<lparr>p_value = 0x82, n_remain = 1\<rparr>)"
    "decode_utf8 [0xAC, 0x62] \<lparr>p_value = 0x82, n_remain = 1\<rparr> = ([0x20AC, 0x62, 0], \<lparr>p_value = 0x62, n_remain = 0\<rparr>)"
    by code_simp+
  then show ?thesis using decode_utf8_streams[OF ok] by simp
qed

end
