(* ===== verification/GrammarLive.thy ===== *)
theory GrammarLive
  imports GrammarPartial GrammarUtf8
begin

text \<open>
  Grammars without left recursion, among them those that pass the check of
  \<open>llama_grammar_init_impl\<close> and hide no empty rule: every expansion of them ends, so the
  operations of the engine return, and a token the filter keeps can be accepted.
\<close>

section \<open>Hidden empty rules\<close>

text \<open>
  An alternate that only refers to rules with an empty alternate of their own is empty as
  well, and the check for left recursion does not see it: in \<open>E\<close> are the rules it sees.
\<close>

fun empty_through :: "(nat \<Rightarrow> bool) \<Rightarrow> llama_grammar_element list \<Rightarrow> bool \<Rightarrow> bool" where
  "empty_through E [] cur = False"
| "empty_through E (e # es) cur =
     (if is_end_of_sequence e then cur \<or> empty_through E es True
      else empty_through E es (cur \<and> e_type e = Gre_rule_ref \<and> E (unat (e_value e))))"

definition seen_empty :: "grammar_rule list \<Rightarrow> nat \<Rightarrow> bool" where
  "seen_empty rules r = empty_alternate (rules ! r) True"

definition no_hidden_empty :: "grammar_rule list \<Rightarrow> bool" where
  "no_hidden_empty rules \<longleftrightarrow>
     (\<forall>r \<in> {0..<length rules}. empty_through (seen_empty rules) (rules ! r) True \<longrightarrow> seen_empty rules r)"

definition checked_rules :: "grammar_rule list \<Rightarrow> bool" where
  "checked_rules rules \<longleftrightarrow> rules_ok rules \<and> any_left_recursion rules = Inr False \<and> no_hidden_empty rules"

lemma empty_through_mono: "empty_through E es False \<Longrightarrow> empty_through E es b"
  by (induction es arbitrary: b) (auto split: if_splits)

lemma empty_through_suffix:
  assumes "empty_through E (drop i es) True" "i \<le> length es"
    and "i = 0 \<or> is_end_of_sequence (es ! (i - 1))"
  shows "empty_through E es True"
proof (cases i)
  case (Suc j)
  then have e: "es = take j es @ es ! j # drop i es"
    using assms(2) by (simp add: id_take_nth_drop)
  have "empty_through E (xs @ es ! j # drop i es) b" for xs b
    using assms(1,3) Suc by (induction xs arbitrary: b) auto
  from this[of "take j es"] show ?thesis using e by simp
qed (use assms(1) in simp)

lemma vanishes_empty_through:
  assumes "rules_ok rules" "no_hidden_empty rules" "vanishes rules p" "valid_pos rules p"
  shows "empty_through (seen_empty rules) (drop (snd p) (rules ! fst p)) True"
  using assms(3,4)
proof (induction rule: vanishes.induct)
  case (vanishes_end p)
  then show ?case by (simp add: elems_at_valid[unfolded elems_at_def] valid_pos_def at_def
        Cons_nth_drop_Suc[symmetric])
next
  case (vanishes_ref p a)
  let ?r = "unat (e_value (at rules p))"
  have a: "alt_start rules a" "fst a = ?r" using vanishes_ref.hyps(2) by (simp_all add: starts_def)
  then have v: "valid_pos rules a" by (simp add: alt_start_def)
  have "empty_through (seen_empty rules) (drop (snd a) (rules ! ?r)) True"
    using vanishes_ref.IH(1)[OF v] a(2) by simp
  moreover have "snd a \<le> length (rules ! ?r)" "?r < length rules"
    using v a(2) by (simp_all add: valid_pos_def)
  moreover have "snd a = 0 \<or> is_end_of_sequence (rules ! ?r ! (snd a - 1))"
    using a by (auto simp: alt_start_def at_def is_end_of_sequence_def)
  ultimately have seen: "seen_empty rules ?r"
    using assms(2) empty_through_suffix by (metis atLeastLessThan_iff no_hidden_empty_def le0)
  have nv: "valid_pos rules (pos_plus p 1)"
    by (rule next_valid[OF assms(1) vanishes_ref.prems]) (simp add: vanishes_ref.hyps(1))
  have "empty_through (seen_empty rules) (drop (Suc (snd p)) (rules ! fst p)) True"
    using vanishes_ref.IH(2)[OF nv] by (simp add: pos_plus_def)
  then show ?case
    using vanishes_ref.hyps(1) vanishes_ref.prems seen
    by (simp add: valid_pos_def at_def Cons_nth_drop_Suc[symmetric] is_end_of_sequence_def)
qed

lemma no_hidden_plain:
  assumes "rules_ok rules" "no_hidden_empty rules"
  shows "plainly_nullable rules"
  unfolding plainly_nullable_def
proof (intro allI impI)
  fix r assume r: "r < length rules" "nullable rules r"
  then obtain a where a: "alt_start rules a" "fst a = r" "vanishes rules a" by (auto simp: nullable_def)
  then have v: "valid_pos rules a" by (simp add: alt_start_def)
  have "empty_through (seen_empty rules) (rules ! r) True"
  proof (rule empty_through_suffix)
    show "empty_through (seen_empty rules) (drop (snd a) (rules ! r)) True"
      using vanishes_empty_through[OF assms a(3) v] a(2) by simp
    show "snd a = 0 \<or> is_end_of_sequence (rules ! r ! (snd a - 1))"
      using a by (auto simp: alt_start_def at_def is_end_of_sequence_def)
  qed (use v a(2) in \<open>simp add: valid_pos_def\<close>)
  then show "empty_alternate (rules ! r) True"
    using assms(2) r(1) by (simp add: no_hidden_empty_def seen_empty_def)
qed

lemma checked_halts:
  assumes "checked_rules rules" "stack_ok rules st"
  shows "halts rules st"
proof -
  have c: "rules_ok rules" "any_left_recursion rules = Inr False" "no_hidden_empty rules"
    using assms(1) by (simp_all add: checked_rules_def)
  have "\<forall>r < length rules. lr_free rules r"
    using any_left_recursion_total[OF c(1)] c(2) by auto
  then have "\<forall>r < length rules. front_free rules r"
    using lr_free_front_free[OF c(1) no_hidden_plain[OF c(1,3)]] by blast
  then show ?thesis by (rule stacks_halt[OF c(1) _ assms(2)])
qed

text \<open>Such a grammar has no left recursion; one with hidden empty rules may have none either.\<close>

lemma checked_not_left_recursive:
  assumes "checked_rules rules"
  shows "\<not> left_recursive rules"
proof
  have c: "rules_ok rules" "any_left_recursion rules = Inr False" "no_hidden_empty rules"
    using assms by (simp_all add: checked_rules_def)
  assume "left_recursive rules"
  then obtain r where r: "(first_edge rules)\<^sup>+\<^sup>+ r r" by (auto simp: left_recursive_def)
  then obtain s where "first_edge rules r s" by (metis tranclpD)
  then have "r < length rules" using first_edge_less[OF c(1)] by blast
  then have "lr_free rules r" using any_left_recursion_total[OF c(1)] c(2) by auto
  then have "front_free rules r" by (rule lr_free_front_free[OF c(1) no_hidden_plain[OF c(1,3)]])
  then show False using front_free_acyclic r by blast
qed

definition expands :: "grammar_rule list \<Rightarrow> bool" where
  "expands rules \<longleftrightarrow> rules_ok rules \<and> \<not> left_recursive rules"

lemma checked_expands: "checked_rules rules \<Longrightarrow> expands rules"
  using checked_not_left_recursive by (simp add: expands_def checked_rules_def)

lemma expands_halts: "expands rules \<Longrightarrow> stack_ok rules st \<Longrightarrow> halts rules st"
  by (simp add: expands_def no_left_recursion_halts)

section \<open>The initial stacks\<close>

definition derives_from :: "grammar_rule list \<Rightarrow> nat \<Rightarrow> grammar_stack set" where
  "derives_from rules r = (\<Union>a \<in> {a. alt_start rules a \<and> fst a = r}. closure rules (put rules a []))"

lemma initial_run:
  assumes "rules_ok rules" "start < length rules"
  obtains alts where "alts \<noteq> []" "set alts = {a. alt_start rules a \<and> fst a = start}"
    and "\<forall>fuel. initial_stacks fuel rules start =
      rfold (\<lambda>a. llama_grammar_advance_stack fuel rules (put rules a [])) alts []"
proof -
  obtain alts where a: "alternates rules start = Inr alts" "alts \<noteq> []"
    "set alts = {a. alt_start rules a \<and> fst a = start}"
    using alternates_spec[OF assms] by blast
  have "rfold (\<lambda>sub acc. rbind (push_pos rules sub []) (\<lambda>st. llama_grammar_advance_stack fuel rules st acc)) xs acc =
      rfold (\<lambda>a. llama_grammar_advance_stack fuel rules (put rules a [])) xs acc"
    if "set xs \<subseteq> set alts" for fuel xs acc
    using that
  proof (induction xs arbitrary: acc)
    case (Cons x xs)
    then have b: "boundary rules x" using alt_start_boundary[OF assms(1)] a(3) by auto
    show ?case using Cons
      by (cases "llama_grammar_advance_stack fuel rules (put rules x []) acc") (simp_all add: b)
  qed simp
  then have "\<forall>fuel. initial_stacks fuel rules start =
      rfold (\<lambda>a. llama_grammar_advance_stack fuel rules (put rules a [])) alts []"
    using a(1) by (simp add: initial_stacks_def)
  then show thesis using a(2,3) that by blast
qed

lemma initial_settles:
  assumes "expands rules" "start < length rules"
  shows "settles (\<lambda>fuel. initial_stacks fuel rules start)"
proof -
  have ok: "rules_ok rules" using assms(1) by (simp add: expands_def)
  obtain alts where a: "set alts = {a. alt_start rules a \<and> fst a = start}"
    and run: "\<forall>fuel. initial_stacks fuel rules start =
      rfold (\<lambda>a. llama_grammar_advance_stack fuel rules (put rules a [])) alts []"
    by (rule initial_run[OF ok assms(2)])
  have "settles (\<lambda>fuel. rfold (\<lambda>a. llama_grammar_advance_stack fuel rules (put rules a [])) alts [])"
  proof (rule settles_rfold[where P = "\<lambda>_. True"])
    fix x acc assume "x \<in> set alts"
    then have "stack_ok rules (put rules x [])"
      using alt_start_boundary[OF ok] a put_ok[of rules x "[]"] by simp
    then show "settles (\<lambda>fuel. llama_grammar_advance_stack fuel rules (put rules x []) acc)"
      by (intro settles_advance[OF ok] expands_halts[OF assms(1)])
  qed simp_all
  then show ?thesis using run by simp
qed

lemma initial_spec:
  assumes "rules_ok rules" "start < length rules" "initial_stacks fuel rules start = Inr stacks"
  shows "adds (derives_from rules start) [] stacks" "stacks_ok rules stacks"
proof -
  obtain alts where a: "set alts = {a. alt_start rules a \<and> fst a = start}"
    and run: "\<forall>fuel. initial_stacks fuel rules start =
      rfold (\<lambda>a. llama_grammar_advance_stack fuel rules (put rules a [])) alts []"
    by (rule initial_run[OF assms(1,2)])
  have sok: "stack_ok rules (put rules x [])" if "alt_start rules x" for x
    using alt_start_boundary[OF assms(1) that] put_ok[of rules x "[]"] by simp
  have r: "rfold (\<lambda>a. llama_grammar_advance_stack fuel rules (put rules a [])) alts [] = Inr stacks"
    using assms(3) run by simp
  have "adds (\<Union>x \<in> set alts. closure rules (put rules x [])) [] stacks"
    by (rule rfold_adds[OF _ r]) (use advance_adds[OF assms(1)] sok a in auto)
  then show ad: "adds (derives_from rules start) [] stacks" by (simp add: a derives_from_def)
  show "stacks_ok rules stacks"
    unfolding stacks_ok_def
  proof
    fix st assume "st \<in> set stacks"
    then obtain x where "alt_start rules x" "st \<in> closure rules (put rules x [])"
      using ad by (auto simp: adds_def derives_from_def)
    then show "stack_ok rules st \<and> ready rules st" using closure_ok[OF assms(1) sok] by blast
  qed
qed

lemma derives_from_ne:
  assumes "expands rules" "start < length rules"
  shows "derives_from rules start \<noteq> {}"
proof -
  have ok: "rules_ok rules" using assms(1) by (simp add: expands_def)
  obtain alts where "alts \<noteq> []" "set alts = {a. alt_start rules a \<and> fst a = start}"
    using alternates_spec[OF ok assms(2)] by blast
  then obtain a where a: "alt_start rules a" "fst a = start" by (metis (mono_tags) list.set_sel(1) mem_Collect_eq)
  have sok: "stack_ok rules (put rules a [])"
    using alt_start_boundary[OF ok a(1)] put_ok[of rules a "[]"] by simp
  from halts_closure[OF ok expands_halts[OF assms(1) sok] sok] show ?thesis
    using a unfolding derives_from_def by blast
qed

section \<open>Initialising\<close>

lemma init_spec:
  assumes "rules_ok rules" "\<forall>r \<in> set rules. last r = elem Gre_end 0" "no_hidden_empty rules"
    and "start < length rules"
  shows "\<exists>N res. (\<forall>fuel \<ge> N. llama_grammar_init_rules fuel rules start = Inr res) \<and>
    (case res of
       None \<Rightarrow> any_left_recursion rules = Inr True
     | Some g \<Rightarrow> g_rules g = rules \<and> g_utf8 g = \<lparr>p_value = 0, n_remain = 0\<rparr> \<and> g_stacks g \<noteq> [] \<and>
         distinct (g_stacks g) \<and> set (g_stacks g) = derives_from rules start)"
proof -
  have copy: "copy_rule r = Inr r" if "r \<in> set rules" for r
  proof -
    have r: "r \<noteq> []" "e_type (last r) = Gre_end" "\<forall>e \<in> set (butlast r). e_type e \<noteq> Gre_end"
      using that assms(1) by (auto simp: rules_ok_def rule_ok_def)
    then obtain body e where s: "r = body @ [e]" by (metis rev_exhaust)
    have e: "e = elem Gre_end 0" using assms(2) that s by auto
    have "takeWhile (\<lambda>e. e_type e \<noteq> Gre_end) r = body"
      unfolding s by (subst takeWhile_append2) (use r(3) s e in \<open>auto simp: elem_def\<close>)
    then show ?thesis using s e by (simp add: copy_rule_def)
  qed
  have vec: "rfold (\<lambda>r acc. rbind (copy_rule r) (\<lambda>r. Inr (acc @ [r]))) xs acc = Inr (acc @ xs)"
    if "set xs \<subseteq> set rules" for xs acc
    using that by (induction xs arbitrary: acc) (simp_all add: copy)
  obtain b where b: "any_left_recursion rules = Inr b" using any_left_recursion_total[OF assms(1)] by blast
  show ?thesis
  proof (cases b)
    case True
    then show ?thesis
      using b vec[of rules "[]"] by (intro exI[of _ 0] exI[of _ None]) (simp add: llama_grammar_init_rules_def)
  next
    case False
    then have c: "expands rules" using assms(1,3) b by (intro checked_expands) (simp add: checked_rules_def)
    obtain N stacks where s: "\<forall>fuel \<ge> N. initial_stacks fuel rules start = Inr stacks"
      using initial_settles[OF c assms(4)] unfolding settles_def by blast
    then have "adds (derives_from rules start) [] stacks"
      using initial_spec(1)[OF assms(1,4)] by blast
    then have set: "set stacks = derives_from rules start" "distinct stacks" by (simp_all add: adds_def)
    then have "stacks \<noteq> []" using derives_from_ne[OF c assms(4)] by auto
    then show ?thesis
      using b False vec[of rules "[]"] s set
      by (intro exI[of _ N] exI[of _ "Some \<lparr>g_rules = rules, g_stacks = stacks, g_utf8 = \<lparr>p_value = 0, n_remain = 0\<rparr>\<rparr>"])
        (simp add: llama_grammar_init_rules_def)
  qed
qed

lemma init_result:
  assumes "llama_grammar_init_rules fuel rules start = Inr (Some g)" "g_rules g = rules"
  shows "any_left_recursion rules = Inr False" "initial_stacks fuel rules start = Inr (g_stacks g)"
proof -
  obtain vec where "any_left_recursion vec = Inr False" "initial_stacks fuel vec start = Inr (g_stacks g)" "g_rules g = vec"
    using assms(1) by (auto simp: llama_grammar_init_rules_def split: if_splits)
  then show "any_left_recursion rules = Inr False" "initial_stacks fuel rules start = Inr (g_stacks g)"
    using assms(2) by simp_all
qed

section \<open>Accepting and filtering return\<close>

lemma accept_settles:
  assumes "expands rules" "stacks_ok rules stacks"
  shows "settles (\<lambda>fuel. rfold (accept_stack fuel rules c) stacks acc)"
proof (rule settles_rfold[where P = "\<lambda>_. True"])
  have ok: "rules_ok rules" using assms(1) by (simp add: expands_def)
  fix st acc assume "st \<in> set stacks"
  then have st: "stack_ok rules st" "ready rules st" using assms(2) by (simp_all add: stacks_ok_def)
  show "settles (\<lambda>fuel. accept_stack fuel rules c st acc)"
  proof (cases "st \<noteq> [] \<and> char_matches rules (hd st) c")
    case True
    then have "stack_ok rules (after_stack rules st)" using after_stack_ok[OF ok st] by simp
    then show ?thesis
      using True accept_stack_ready[OF ok st] settles_advance[OF ok expands_halts[OF assms(1)]] by simp
  next
    case False
    then have "accept_stack fuel rules c st acc = Inr acc" for fuel
      unfolding accept_stack_ready[OF ok st] by (rule if_not_P)
    then show ?thesis by simp
  qed
qed simp_all

lemma accept_all_settles:
  assumes "expands (g_rules g)" "grammar_ok g"
  shows "settles (\<lambda>fuel. rfold (llama_grammar_accept fuel) cps g)"
proof (rule settles_rfold[where P = "\<lambda>g'. grammar_ok g' \<and> g_rules g' = g_rules g"])
  fix c g' assume g': "grammar_ok g' \<and> g_rules g' = g_rules g"
  then have eq: "g_rules g' = g_rules g" and st: "stacks_ok (g_rules g) (g_stacks g')"
    by (auto simp: grammar_ok_def)
  have "settles (\<lambda>fuel. rfold (accept_stack fuel (g_rules g') c) (g_stacks g') [])"
    using accept_settles[OF assms(1) st] unfolding eq .
  then show "settles (\<lambda>fuel. llama_grammar_accept fuel c g')"
    unfolding llama_grammar_accept_def by (rule settles_rbind) simp
  fix fuel out assume "llama_grammar_accept fuel c g' = Inr out"
  then show "grammar_ok out \<and> g_rules out = g_rules g" using accept_spec[of g' fuel c out] eq g' by auto
qed (use assms(2) in simp)

text \<open>What the automaton can read on from: a stack that reads the text leaves one behind.\<close>

lemma good_reads:
  assumes "good rules part cs st" "st \<in> S"
  shows "reads_all rules cs S \<noteq> {}"
  using assms
proof (induction cs arbitrary: st S)
  case (Cons c cs)
  then obtain st' where "st' \<in> reads rules c st" "good rules part cs st'" by auto
  then show ?case using Cons.IH[of st' "\<Union>st \<in> S. reads rules c st"] Cons.prems(2) by auto
qed auto

section \<open>The candidates\<close>

text \<open>The code points of a decoded token up to the first 0, which ends them.\<close>

definition shown_points :: "32 word list \<Rightarrow> 32 word list" where
  "shown_points cps = takeWhile (\<lambda>x. x \<noteq> 0) cps"

definition has_text :: "grammar_vocab \<Rightarrow> int \<Rightarrow> bool" where
  "has_text v t \<longleftrightarrow> \<not> token_is_eog v t \<and> token_to_piece v t \<noteq> [] \<and> hd (token_to_piece v t) \<noteq> 0"

definition cand_of :: "grammar_vocab \<Rightarrow> llama_partial_utf8 \<Rightarrow> int list \<Rightarrow> nat \<Rightarrow> llama_grammar_candidate" where
  "cand_of v part ids i = (let (cps, p) = decode_utf8 (token_to_piece v (ids ! i)) part in
     \<lparr>g_index = i, g_points = cps, g_off = 0, g_partial = p\<rparr>)"

lemma candidates_set:
  "set (grammar_candidates v part ids) = cand_of v part ids ` {i. i < length ids \<and> has_text v (ids ! i)}"
  by (auto simp: grammar_candidates_def cand_of_def has_text_def Let_def case_prod_beta split: if_splits)

lemma decode_ends: "fst (decode_utf8 src p) \<noteq> [] \<and> last (fst (decode_utf8 src p)) = 0"
  by (auto simp: decode_utf8_def Let_def split: option.splits prod.splits)

lemma cand_of_ok: "cand_ok (cand_of v part ids i)"
  using decode_ends[of "token_to_piece v (ids ! i)" part]
  by (auto simp: cand_ok_def cand_of_def split: prod.splits)

lemma cand_of_simps [simp]:
  "g_index (cand_of v part ids i) = i"
  "rest_points (cand_of v part ids i) = shown_points (fst (decode_utf8 (token_to_piece v (ids ! i)) part))"
  "g_partial (cand_of v part ids i) = snd (decode_utf8 (token_to_piece v (ids ! i)) part)"
  by (auto simp: cand_of_def rest_points_def shown_points_def split: prod.splits)

text \<open>Which tokens the filter keeps.\<close>

definition allowed :: "grammar_vocab \<Rightarrow> llama_grammar \<Rightarrow> int \<Rightarrow> bool" where
  "allowed v g t =
     (if token_is_eog v t then [] \<in> set (g_stacks g)
      else has_text v t \<and> (let (cps, part) = decode_utf8 (token_to_piece v t) (g_utf8 g) in
        \<exists>st \<in> set (g_stacks g). good (g_rules g) part (shown_points cps) st))"

lemma apply_spec:
  assumes "grammar_ok g" "g_stacks g \<noteq> []"
    and "llama_grammar_apply_impl fuel (Some v) g ids = Inr keep"
  shows "keep = map (allowed v g) ids"
proof -
  have ok: "rules_ok (g_rules g)" "stacks_ok (g_rules g) (g_stacks g)"
    using assms(1) by (simp_all add: grammar_ok_def)
  let ?cs = "grammar_candidates v (g_utf8 g) ids" and ?c = "cand_of v (g_utf8 g) ids"
  obtain rs where rs: "llama_grammar_reject_candidates fuel (g_rules g) (g_stacks g) ?cs = Inr rs"
    and keep: "keep = map (\<lambda>i.
            let piece = token_to_piece v (ids ! i) in
            if token_is_eog v (ids ! i) then [] \<in> set (g_stacks g)
            else piece \<noteq> [] \<and> hd piece \<noteq> 0 \<and> i \<notin> set (map g_index rs)) [0..<length ids]"
    using assms(3) by (auto simp: llama_grammar_apply_impl_def)
  have "\<forall>c \<in> set ?cs. cand_ok c" unfolding candidates_set using cand_of_ok by blast
  from reject_candidates_spec[OF ok assms(2) this rs]
  have r: "set rs = {c \<in> set ?cs. \<forall>st \<in> set (g_stacks g). \<not> good_cand (g_rules g) c st}" .
  have "i \<in> set (map g_index rs) \<longleftrightarrow> \<not> (\<exists>st \<in> set (g_stacks g). good_cand (g_rules g) (?c i) st)"
    if "i < length ids" "has_text v (ids ! i)" for i
    unfolding set_map r candidates_set using that by force
  then have "keep ! i = allowed v g (ids ! i)" if "i < length ids" for i
    using that by (auto simp: keep allowed_def has_text_def Let_def good_cand_def split_beta)
  then show ?thesis by (intro nth_equalityI) (simp_all add: keep)
qed

lemma apply_settles:
  assumes "expands (g_rules g)" "grammar_ok g" "g_stacks g \<noteq> []"
  shows "settles (\<lambda>fuel. llama_grammar_apply_impl fuel (Some v) g ids)"
proof -
  have ok: "rules_ok (g_rules g)" "stacks_ok (g_rules g) (g_stacks g)"
    using assms(2) by (simp_all add: grammar_ok_def)
  have "\<forall>c \<in> set (grammar_candidates v (g_utf8 g) ids). cand_ok c"
    unfolding candidates_set using cand_of_ok by blast
  then have "settles (\<lambda>fuel. llama_grammar_reject_candidates fuel (g_rules g) (g_stacks g)
      (grammar_candidates v (g_utf8 g) ids))"
    by (intro reject_candidates_settles[OF ok(1) _ ok(2) assms(3)]) (use expands_halts[OF assms(1)] in blast)
  then show ?thesis
    unfolding llama_grammar_apply_impl_def option.case Let_def by (rule settles_rbind) simp
qed

section \<open>What a token has to be\<close>

text \<open>
  Reading apart from the filter's way of it: a token is readable when the automaton has a stack
  left after its code points and the pending bytes, if any, can still become a code point that the
  character on top of that stack accepts.
\<close>

definition goes_on :: "grammar_rule list \<Rightarrow> llama_partial_utf8 \<Rightarrow> grammar_stack \<Rightarrow> bool" where
  "goes_on rules part st \<longleftrightarrow> n_remain part = 0 \<or>
     (0 < n_remain part \<and> st \<noteq> [] \<and> (\<exists>x. completes part x \<and> char_matches rules (hd st) x))"

definition readable :: "grammar_vocab \<Rightarrow> llama_grammar \<Rightarrow> int \<Rightarrow> bool" where
  "readable v g t \<longleftrightarrow>
     (if token_is_eog v t then [] \<in> set (g_stacks g)
      else has_text v t \<and> (let (cps, part) = decode_utf8 (token_to_piece v t) (g_utf8 g) in
        \<exists>st \<in> reads_all (g_rules g) (shown_points cps) (set (g_stacks g)). goes_on (g_rules g) part st))"

lemma reads_all_UN: "reads_all rules cs S = (\<Union>st \<in> S. reads_all rules cs {st})"
proof (induction cs arbitrary: S)
  case (Cons c cs)
  have all: "reads_all rules cs (\<Union>st \<in> S. reads rules c st) = (\<Union>st \<in> (\<Union>st \<in> S. reads rules c st). reads_all rules cs {st})"
    by (rule Cons)
  have each: "reads_all rules cs (reads rules c st) = (\<Union>st \<in> reads rules c st. reads_all rules cs {st})" for st
    by (rule Cons)
  have "reads_all rules (c # cs) {st} = reads_all rules cs (reads rules c st)" for st
    by (simp only: reads_all.simps) simp
  then have "(\<Union>st \<in> S. reads_all rules (c # cs) {st}) = (\<Union>st \<in> S. \<Union>st \<in> reads rules c st. reads_all rules cs {st})"
    by (simp only: each)
  then show ?case by (simp only: reads_all.simps(2)[of rules c cs S] all) blast
qed auto

lemma good_reads_all:
  "good rules part cs st \<longleftrightarrow> (\<exists>st' \<in> reads_all rules cs {st}. good rules part [] st')"
proof (induction cs arbitrary: st)
  case (Cons c cs)
  have "reads_all rules (c # cs) {st} = reads_all rules cs (reads rules c st)" by (simp only: reads_all.simps) simp
  also have "\<dots> = (\<Union>st \<in> reads rules c st. reads_all rules cs {st})" by (rule reads_all_UN)
  finally have r: "reads_all rules (c # cs) {st} = (\<Union>st \<in> reads rules c st. reads_all rules cs {st})" .
  have "good rules part (c # cs) st \<longleftrightarrow> (\<exists>st \<in> reads rules c st. good rules part cs st)" by simp
  also have "\<dots> \<longleftrightarrow> (\<exists>st \<in> reads rules c st. \<exists>st' \<in> reads_all rules cs {st}. good rules part [] st')"
    by (intro bex_cong refl Cons)
  finally show ?case unfolding r by blast
qed simp

lemma reads_all_ok:
  assumes "rules_ok rules" "st \<in> reads_all rules cs S" "\<forall>st \<in> S. stack_ok rules st \<and> ready rules st"
  shows "stack_ok rules st \<and> ready rules st"
  using assms(2,3)
proof (induction cs arbitrary: S)
  case (Cons c cs)
  have "stack_ok rules st' \<and> ready rules st'" if s: "s \<in> S" and st': "st' \<in> reads rules c s" for s st'
  proof -
    have "s \<noteq> []" "st' \<in> closure rules (after_stack rules s)" using st' by (simp_all add: reads_def split: if_splits)
    moreover have "stack_ok rules (after_stack rules s)"
      using after_stack_ok[OF assms(1)] Cons.prems(2) s \<open>s \<noteq> []\<close> by blast
    ultimately show ?thesis using closure_ok[OF assms(1)] by blast
  qed
  then have "\<forall>st \<in> (\<Union>st \<in> S. reads rules c st). stack_ok rules st \<and> ready rules st" by blast
  from Cons.IH[OF _ this] Cons.prems(1) show ?case by simp
qed simp

lemma ready_hd: "stack_ok rules st \<Longrightarrow> ready rules st \<Longrightarrow> st \<noteq> [] \<Longrightarrow> char_pos rules (hd st)"
  using ready_char_pos[of rules "hd st" "tl st"] by simp

lemma good_goes_on:
  assumes "rules_ok rules" "stack_ok rules st" "ready rules st" "ranges_ordered rules" "utf8_ok part"
    and "good rules part [] st"
  shows "goes_on rules part st"
proof (cases "n_remain part = 0")
  case False
  then have m: "st \<noteq> []" "partial_matches rules (hd st) part" using assms(6) by simp_all
  then have "0 < n_remain part" using False by (auto simp: partial_matches_def)
  from partial_matches_sound[OF assms(1) ready_hd[OF assms(2,3) m(1)] assms(4,5) this m(2)] m(1) this
  show ?thesis by (simp add: goes_on_def)
qed (simp add: goes_on_def)

lemma positive_pos:
  assumes "no_negated rules" "char_pos rules p"
  shows "is_positive_char (at rules p)"
proof -
  have "fst p < length rules" "snd p < length (rules ! fst p)" using assms(2) by (simp_all add: char_pos_def valid_pos_def)
  then have "e_type (at rules p) \<noteq> Gre_char_not"
    using assms(1) by (auto simp: no_negated_def list_all_length at_def)
  then show ?thesis using assms(2) by (auto simp: char_pos_def is_positive_char_def)
qed

lemma goes_on_good:
  assumes "stack_ok rules st" "ready rules st" "utf8_ok part" "goes_on rules part st"
    and "n_remain part = 0 \<or> no_negated rules"
  shows "good rules part [] st"
proof (cases "n_remain part = 0")
  case False
  then obtain x where x: "0 < n_remain part" "st \<noteq> []" "completes part x" "char_matches rules (hd st) x"
    using assms(4) by (auto simp: goes_on_def)
  have "is_positive_char (at rules (hd st))"
    using positive_pos ready_hd[OF assms(1,2) x(2)] assms(5) False by blast
  from partial_matches_complete[OF this assms(3) x(1,3,4)] x(2) show ?thesis by simp
qed simp

lemma allowed_stack:
  assumes "\<not> token_is_eog v t" "decode_utf8 (token_to_piece v t) (g_utf8 g) = (cps, part)"
  shows "allowed v g t \<longleftrightarrow> has_text v t \<and>
    (\<exists>st \<in> reads_all (g_rules g) (shown_points cps) (set (g_stacks g)). good (g_rules g) part [] st)"
proof -
  let ?R = "\<lambda>S. reads_all (g_rules g) (shown_points cps) S" and ?G = "\<lambda>st. good (g_rules g) part [] st"
  have "allowed v g t \<longleftrightarrow> has_text v t \<and> (\<exists>st \<in> set (g_stacks g). good (g_rules g) part (shown_points cps) st)"
    using assms by (simp add: allowed_def)
  moreover have "(\<exists>st \<in> set (g_stacks g). good (g_rules g) part (shown_points cps) st) \<longleftrightarrow>
      (\<exists>st \<in> set (g_stacks g). \<exists>st' \<in> ?R {st}. ?G st')"
    by (intro bex_cong refl good_reads_all)
  moreover have "?R (set (g_stacks g)) = (\<Union>st \<in> set (g_stacks g). ?R {st})" by (rule reads_all_UN)
  ultimately show ?thesis by blast
qed

lemma allowed_readable:
  assumes "grammar_ok g" "utf8_ok (g_utf8 g)"
  shows "ranges_ordered (g_rules g) \<Longrightarrow> allowed v g t \<Longrightarrow> readable v g t"
    and "readable v g t \<Longrightarrow> n_remain (snd (decode_utf8 (token_to_piece v t) (g_utf8 g))) = 0 \<or> no_negated (g_rules g) \<Longrightarrow>
      allowed v g t"
proof -
  obtain cps part where d: "decode_utf8 (token_to_piece v t) (g_utf8 g) = (cps, part)" by fastforce
  have u: "utf8_ok part" using decode_utf8_ok[OF assms(2), of "token_to_piece v t"] d by simp
  have ok: "rules_ok (g_rules g)" "\<forall>st \<in> set (g_stacks g). stack_ok (g_rules g) st \<and> ready (g_rules g) st"
    using assms(1) by (simp_all add: grammar_ok_def stacks_ok_def)
  note st = reads_all_ok[OF ok(1) _ ok(2)]
  show "readable v g t" if ordered: "ranges_ordered (g_rules g)" and allow: "allowed v g t"
  proof (cases "token_is_eog v t")
    case True
    then show ?thesis using allow by (simp add: allowed_def readable_def)
  next
    case False
    then obtain s where "has_text v t" "s \<in> reads_all (g_rules g) (shown_points cps) (set (g_stacks g))"
      "good (g_rules g) part [] s" using allow allowed_stack[OF False d] by blast
    then show ?thesis using False d good_goes_on[OF ok(1) _ _ ordered u] st by (auto simp: readable_def)
  qed
  show "allowed v g t" if read: "readable v g t"
    and whole: "n_remain (snd (decode_utf8 (token_to_piece v t) (g_utf8 g))) = 0 \<or> no_negated (g_rules g)"
  proof (cases "token_is_eog v t")
    case True
    then show ?thesis using read by (simp add: allowed_def readable_def)
  next
    case False
    then obtain s where "has_text v t" "s \<in> reads_all (g_rules g) (shown_points cps) (set (g_stacks g))"
      "goes_on (g_rules g) part s" using read d by (auto simp: readable_def)
    moreover from this have "good (g_rules g) part [] s"
      using goes_on_good[OF _ _ u, of "g_rules g" s] st[of s] whole d by simp
    ultimately show ?thesis using allowed_stack[OF False d] by blast
  qed
qed

text \<open>A kept token whose text holds no NUL is accepted and leaves the grammar alive.\<close>

lemma accept_allowed:
  assumes "expands (g_rules g)" "grammar_ok g" "allowed v g t"
    and "0 \<notin> set (butlast (fst (decode_utf8 (token_to_piece v t) (g_utf8 g))))"
  shows "\<exists>g'. (\<exists>N. \<forall>fuel \<ge> N. llama_grammar_accept_impl fuel (Some v) g t = Inr g') \<and>
    grammar_ok g' \<and> g_rules g' = g_rules g \<and> g_stacks g' \<noteq> []"
proof (cases "token_is_eog v t")
  case True
  then show ?thesis using assms(2,3) by (intro exI[of _ g]) (auto simp: allowed_def llama_grammar_accept_impl_def)
next
  case False
  obtain cps part where d: "decode_utf8 (token_to_piece v t) (g_utf8 g) = (cps, part)" by fastforce
  then have e: "cps \<noteq> []" "last cps = 0" using decode_ends[of "token_to_piece v t" "g_utf8 g"] by simp_all
  have nz: "0 \<notin> set (butlast cps)" using assms(4) d by simp
  have "cps = butlast cps @ [0]" using e by (metis append_butlast_last_id)
  then have "takeWhile (\<lambda>x. x \<noteq> 0) cps = butlast cps"
    using nz by (metis (mono_tags, lifting) takeWhile_tail takeWhile_append1 takeWhile_eq_all_conv
        append_Nil2 takeWhile_append2)
  then obtain st where st: "st \<in> set (g_stacks g)" "good (g_rules g) part (butlast cps) st"
    using assms(3) False d by (auto simp: allowed_def shown_points_def)
  obtain N g1 where g1: "\<forall>fuel \<ge> N. rfold (llama_grammar_accept fuel) (butlast cps) g = Inr g1"
    using accept_all_settles[OF assms(1,2)] unfolding settles_def by blast
  have a: "grammar_ok g1 \<and> g_rules g1 = g_rules g \<and>
      set (g_stacks g1) = reads_all (g_rules g) (butlast cps) (set (g_stacks g))"
    using accept_all_spec[OF assms(2)] g1 by blast
  then have "g_stacks g1 \<noteq> []" using good_reads[OF st(2,1)] by auto
  then have "\<forall>fuel \<ge> N. llama_grammar_accept_impl fuel (Some v) g t = Inr (g1\<lparr>g_utf8 := part\<rparr>)"
    using g1 d False by (simp add: llama_grammar_accept_impl_def Let_def)
  then show ?thesis
    using a \<open>g_stacks g1 \<noteq> []\<close> by (intro exI[of _ "g1\<lparr>g_utf8 := part\<rparr>"]) (auto simp: grammar_ok_def)
qed

section \<open>Accepting a sequence of tokens\<close>

lemma accept_impl_spec:
  assumes "grammar_ok g" "\<not> token_is_eog v t" "llama_grammar_accept_impl fuel (Some v) g t = Inr g'"
  shows "grammar_ok g' \<and> g_rules g' = g_rules g \<and> g_stacks g' \<noteq> [] \<and>
    (let (cps, part) = decode_utf8 (token_to_piece v t) (g_utf8 g) in
      g_utf8 g' = part \<and> set (g_stacks g') = reads_all (g_rules g) (butlast cps) (set (g_stacks g)))"
proof -
  obtain cps part where d: "decode_utf8 (token_to_piece v t) (g_utf8 g) = (cps, part)" by fastforce
  obtain g1 where g1: "rfold (llama_grammar_accept fuel) (butlast cps) g = Inr g1"
    "g_stacks g1 \<noteq> []" "g' = g1\<lparr>g_utf8 := part\<rparr>"
    using assms(2,3) d by (auto simp: llama_grammar_accept_impl_def Let_def)
  then show ?thesis using accept_all_spec[OF assms(1) g1(1)] d by (auto simp: grammar_ok_def)
qed

lemma reads_all_append: "reads_all rules (xs @ ys) S = reads_all rules ys (reads_all rules xs S)"
  by (induction xs arbitrary: S) simp_all

definition accept_tokens ::
    "nat \<Rightarrow> grammar_vocab \<Rightarrow> int list \<Rightarrow> llama_grammar \<Rightarrow> llama_grammar res" where
  "accept_tokens fuel v = rfold (\<lambda>t g. llama_grammar_accept_impl fuel (Some v) g t)"

definition text_of :: "grammar_vocab \<Rightarrow> int list \<Rightarrow> 8 word list" where
  "text_of v ts = concat (map (token_to_piece v) ts)"

lemma accept_tokens_spec:
  assumes "grammar_ok g" "\<forall>t \<in> set ts. \<not> token_is_eog v t"
    and "utf8_run (text_of v ts) [] (p_value (g_utf8 g)) (n_remain (g_utf8 g)) \<noteq> None"
    and "accept_tokens fuel v ts g = Inr g'"
  shows "grammar_ok g' \<and> g_rules g' = g_rules g \<and>
    (let (cps, part) = decode_utf8 (text_of v ts) (g_utf8 g) in
      g_utf8 g' = part \<and> set (g_stacks g') = reads_all (g_rules g) (butlast cps) (set (g_stacks g)))"
  using assms
proof (induction ts arbitrary: g)
  case Nil
  have "decode_utf8 [] (g_utf8 g) = ([0], g_utf8 g)" by (simp add: decode_utf8_def c_bytes_def)
  then show ?case using Nil by (simp add: accept_tokens_def text_of_def)
next
  case (Cons t ts)
  let ?xs = "token_to_piece v t" and ?ys = "text_of v ts"
  obtain g1 where g1: "llama_grammar_accept_impl fuel (Some v) g t = Inr g1" "accept_tokens fuel v ts g1 = Inr g'"
    using Cons.prems(4) by (auto simp: accept_tokens_def)
  have run: "utf8_run (?xs @ ?ys) [] (p_value (g_utf8 g)) (n_remain (g_utf8 g)) \<noteq> None"
    using Cons.prems(3) by (simp add: text_of_def)
  then obtain c w n where first: "utf8_run ?xs [] (p_value (g_utf8 g)) (n_remain (g_utf8 g)) = Some (c, w, n)"
    and rest: "utf8_run ?ys c w n \<noteq> None"
    by (cases "utf8_run ?xs [] (p_value (g_utf8 g)) (n_remain (g_utf8 g))") (auto simp: utf8_run_append)
  have d1: "decode_utf8 ?xs (g_utf8 g) = (c @ [0], \<lparr>p_value = w, n_remain = n\<rparr>)" by (rule decode_run[OF first])
  note a = accept_impl_spec[OF Cons.prems(1) _ g1(1)]
  have g1s: "grammar_ok g1" "g_rules g1 = g_rules g" "g_utf8 g1 = \<lparr>p_value = w, n_remain = n\<rparr>"
    "set (g_stacks g1) = reads_all (g_rules g) c (set (g_stacks g))"
    using a Cons.prems(2) d1 by simp_all
  have "utf8_run ?ys [] (p_value (g_utf8 g1)) (n_remain (g_utf8 g1)) \<noteq> None"
    using rest utf8_run_cps[of ?ys c w n] g1s(3) by simp
  from Cons.IH[OF g1s(1) _ this g1(2)] Cons.prems(2)
  have ih: "grammar_ok g' \<and> g_rules g' = g_rules g1 \<and>
    (let (cps, part) = decode_utf8 ?ys (g_utf8 g1) in
      g_utf8 g' = part \<and> set (g_stacks g') = reads_all (g_rules g1) (butlast cps) (set (g_stacks g1)))"
    by simp
  obtain ds r where d2: "decode_utf8 ?ys (g_utf8 g1) = (ds, r)" by fastforce
  have "decode_utf8 (?xs @ ?ys) (g_utf8 g) = (c @ ds, r)"
    using decode_pieces[OF run] d1 d2 g1s(3) by simp
  moreover have "ds \<noteq> []" using decode_ends[of ?ys "g_utf8 g1"] d2 by simp
  ultimately show ?case
    using ih d2 g1s by (simp add: text_of_def butlast_append reads_all_append)
qed

end
