(* ===== verification/GrammarTheorems.thy ===== *)
theory GrammarTheorems
  imports GrammarLive GrammarPartial
begin

text \<open>
  The properties of the grammar engine, with the grammars their witnesses run on.
\<close>

section \<open>A grammar to run\<close>

text \<open>
  \<^verbatim>\<open>root ::= [a-y] rest\<close>, \<^verbatim>\<open>rest ::= "," root | ""\<close>, and the grammar with a hidden empty
  rule \<^verbatim>\<open>root ::= a root | "x"\<close>, \<^verbatim>\<open>a ::= b\<close>, \<^verbatim>\<open>b ::= ""\<close>.
\<close>

definition list_rules :: "grammar_rule list" where
  "list_rules =
     [[elem Gre_char 97, elem Gre_char_rng_upper 121, elem Gre_rule_ref 1, elem Gre_end 0],
      [elem Gre_char 44, elem Gre_rule_ref 0, elem Gre_alt 0, elem Gre_end 0]]"

definition hidden_rules :: "grammar_rule list" where
  "hidden_rules =
     [[elem Gre_rule_ref 1, elem Gre_rule_ref 0, elem Gre_alt 0, elem Gre_char 120, elem Gre_end 0],
      [elem Gre_rule_ref 2, elem Gre_end 0],
      [elem Gre_end 0]]"

definition fresh_utf8 :: llama_partial_utf8 where
  "fresh_utf8 = \<lparr>p_value = 0, n_remain = 0\<rparr>"

definition list_grammar :: llama_grammar where
  "list_grammar = \<lparr>g_rules = list_rules, g_stacks = [[(0, 0)]], g_utf8 = fresh_utf8\<rparr>"

lemma list_rules_ok: "rules_ok list_rules"
  by code_simp

lemma list_rules_checked: "checked_rules list_rules"
  by code_simp

lemma list_grammar_ok: "grammar_ok list_grammar"
  by code_simp

text \<open>The equations for evaluation.\<close>

lemma advance_code [code]:
  "llama_grammar_advance_stack fuel rules st acc =
     (if fuel = 0 then Inl Out_of_fuel
      else case st of [] \<Rightarrow> Inr (push_unique [] acc)
      | p # rest \<Rightarrow>
         rbind (deref rules p) (\<lambda>e.
         case e_type e of
           Gre_rule_ref \<Rightarrow>
             rbind (alternates rules (unat (e_value e))) (\<lambda>alts.
             rfold (\<lambda>sub acc.
               rbind (push_pos rules (pos_plus p 1) rest) (\<lambda>st.
               rbind (push_pos rules sub st) (\<lambda>st.
               llama_grammar_advance_stack (fuel - 1) rules st acc))) alts acc)
         | Gre_char \<Rightarrow> Inr (push_unique (p # rest) acc)
         | Gre_char_not \<Rightarrow> Inr (push_unique (p # rest) acc)
         | Gre_char_any \<Rightarrow> Inr (push_unique (p # rest) acc)
         | _ \<Rightarrow> Inl Abort))"
proof (cases fuel)
  case (Suc n)
  show ?thesis unfolding Suc diff_Suc_1 by (cases st) simp_all
qed simp

lemma reject_code [code]:
  "reject_for_stack d fuel rules st cs =
     (if d = 0 then Inl Out_of_fuel
      else case st of
        [] \<Rightarrow> if \<exists>c \<in> set cs. length (g_points c) \<le> g_off c then Inl Out_of_bounds
              else Inr (reject_at_end cs)
      | p # rest \<Rightarrow>
          rbind (rfold (classify rules p) cs ([], [])) (\<lambda>(rejects, nexts).
          rbind (llama_grammar_match_char rules p 0) (\<lambda>(_, after).
          rbind (push_pos rules after rest) (\<lambda>st.
          rbind (llama_grammar_advance_stack fuel rules st []) (\<lambda>stacks.
          rbind (guard (stacks \<noteq> []) Assert_failed) (\<lambda>_.
          rbind (if nexts = [] then Inr []
                 else rfold (reject_for_stack (d - 1) fuel rules) stacks nexts) (\<lambda>rs.
          Inr (rejects @ map (\<lambda>c. c\<lparr>g_off := g_off c - 1\<rparr>) rs))))))))"
proof (cases d)
  case (Suc n)
  show ?thesis unfolding Suc diff_Suc_1 by (cases st) simp_all
qed simp

section \<open>Expansion\<close>

text \<open>
  C27. On well-formed rules and a well-formed stack, a returning run of
  llama_grammar_advance_stack adds to the stacks exactly the closure of the stack: the
  stacks the pushdown automaton reaches by replacing rule references on top until a
  character, or nothing, is on top.  What was there stays, in order, and nothing is added
  twice.
\<close>

theorem expansion_is_closure:
  assumes "rules_ok rules" "stack_ok rules st"
    and "llama_grammar_advance_stack fuel rules st acc = Inr out"
  shows "set out = set acc \<union> {st'. (expand1 rules)\<^sup>*\<^sup>* st st' \<and> ready rules st'} \<and>
    (\<exists>added. out = acc @ added) \<and> (distinct acc \<longrightarrow> distinct out)"
  using advance_adds[OF assms] by (simp add: adds_def closure_def)

theorem expansion_is_closure_witness:
  "set [[(0, 0)], [(1, 0)], []] =
     set [[(0, 0)]] \<union> {st'. (expand1 list_rules)\<^sup>*\<^sup>* [(0, 2)] st' \<and> ready list_rules st'}"
proof -
  have st: "stack_ok list_rules [(0, 2)]" by code_simp
  have run: "llama_grammar_advance_stack 5 list_rules [(0, 2)] [[(0, 0)]] = Inr [[(0, 0)], [(1, 0)], []]"
    by code_simp
  show ?thesis using expansion_is_closure[OF list_rules_ok st run] by blast
qed

text \<open>
  C28. The expansion ends on every grammar the check for left recursion lets pass and in
  which no rule is empty only through other rules: there is a fuel from which on
  llama_grammar_advance_stack returns, whatever well-formed stack it starts from, and it
  returns at least one stack, so the assertions on empty stacks cannot fail.
\<close>

theorem checked_grammars_expand:
  assumes "rules_ok rules" "any_left_recursion rules = Inr False" "no_hidden_empty rules"
    and "stack_ok rules st"
  shows "\<exists>N out. out \<noteq> [] \<and> (\<forall>fuel \<ge> N. llama_grammar_advance_stack fuel rules st [] = Inr out)"
proof -
  have c: "checked_rules rules" using assms(1-3) by (simp add: checked_rules_def)
  obtain N out where run: "\<forall>fuel \<ge> N. llama_grammar_advance_stack fuel rules st [] = Inr out"
    using settles_advance[OF assms(1) checked_halts[OF c assms(4)] assms(4)] unfolding settles_def by blast
  then have "llama_grammar_advance_stack N rules st [] = Inr out" by blast
  then have "set out = closure rules st" using advance_adds[OF assms(1,4)] by (fastforce simp: adds_def)
  then have "out \<noteq> []" using halts_closure[OF assms(1) checked_halts[OF c assms(4)] assms(4)] by auto
  then show ?thesis using run by blast
qed

theorem checked_grammars_expand_witness:
  "\<exists>N out. out \<noteq> [] \<and> (\<forall>fuel \<ge> N. llama_grammar_advance_stack fuel list_rules [(0, 2), (0, 2)] [] = Inr out)"
  by (rule checked_grammars_expand[OF list_rules_ok]) code_simp+

text \<open>
  C31. The check for left recursion that llama_grammar_init_impl makes returns on every
  well-formed grammar, never more than one call per rule deep, and when it finds nothing
  no rule refers to itself through left-most references, those behind references to rules
  with an empty alternate included.
\<close>

theorem left_recursion_check_sound:
  assumes "rules_ok rules"
  shows "\<exists>found. any_left_recursion rules = Inr found \<and>
    (found \<or> (\<forall>r < length rules. \<not> (left_edge rules)\<^sup>+\<^sup>+ r r))"
proof -
  obtain b where b: "any_left_recursion rules = Inr b" "\<not> b \<longrightarrow> (\<forall>r < length rules. lr_free rules r)"
    using any_left_recursion_total[OF assms] by blast
  have "\<not> (left_edge rules)\<^sup>+\<^sup>+ r r" if "lr_free rules r" for r
    using that unfolding lr_free_def
  proof (induction rule: accp.induct)
    case (accI r)
    show ?case
    proof
      assume "(left_edge rules)\<^sup>+\<^sup>+ r r"
      then obtain s where s: "left_edge rules r s" "(left_edge rules)\<^sup>*\<^sup>* s r" by (metis tranclpD)
      then have "(left_edge rules)\<^sup>+\<^sup>+ s s" by (metis rtranclp_into_tranclp1)
      then show False using accI.IH[OF s(1)] by blast
    qed
  qed
  then show ?thesis using b by blast
qed

theorem left_recursion_check_sound_witness:
  "any_left_recursion list_rules = Inr False \<and> \<not> (left_edge list_rules)\<^sup>+\<^sup>+ 0 0 \<and> \<not> (left_edge list_rules)\<^sup>+\<^sup>+ 1 1"
proof -
  have a: "any_left_recursion list_rules = Inr False" "length list_rules = 2" by code_simp+
  then show ?thesis using left_recursion_check_sound[OF list_rules_ok] by auto
qed

text \<open>
  C32. The check misses left recursion behind a rule that is empty through another rule: on
  \<^verbatim>\<open>root ::= a root | "x"\<close>, \<^verbatim>\<open>a ::= b\<close>, \<^verbatim>\<open>b ::= ""\<close>, well-formed, it finds nothing, and the
  initialisation then expands the root for ever, whatever the depth allowed: the C++ code
  exhausts its stack.
\<close>

theorem hidden_left_recursion_diverges:
  "rules_ok hidden_rules \<and> any_left_recursion hidden_rules = Inr False \<and> (left_edge hidden_rules)\<^sup>+\<^sup>+ 0 1 \<and>
   (\<forall>fuel. llama_grammar_init_rules fuel hidden_rules 0 = Inl Out_of_fuel)"
proof -
  have loop: "llama_grammar_advance_stack n hidden_rules [(0, 0)] acc = Inl Out_of_fuel" for n acc
  proof (induction n arbitrary: acc rule: less_induct)
    case (less n)
    consider "n = 0" | "n = Suc 0" | "n = Suc (Suc 0)" | m where "n = Suc (Suc (Suc m))"
      by (metis old.nat.exhaust)
    then show ?case
    proof cases
      case (4 m)
      then have "llama_grammar_advance_stack m hidden_rules [(0, 0)] acc = Inl Out_of_fuel" using less by simp
      then show ?thesis
        by (simp add: 4 hidden_rules_def deref_def elems_at_def elem_def alternates_def
            is_end_of_sequence_def push_pos_def pos_plus_def)
    qed (simp_all add: hidden_rules_def deref_def elems_at_def elem_def alternates_def
            is_end_of_sequence_def push_pos_def pos_plus_def)
  qed
  have "initial_stacks fuel hidden_rules 0 = Inl Out_of_fuel" for fuel
  proof -
    have "alternates hidden_rules 0 = Inr [(0, 0), (0, 3)]" "push_pos hidden_rules (0, 0) [] = Inr [(0, 0)]"
      by code_simp+
    then show ?thesis by (simp add: initial_stacks_def loop)
  qed
  moreover have "rfold (\<lambda>r acc. rbind (copy_rule r) (\<lambda>r. Inr (acc @ [r]))) hidden_rules [] = Inr hidden_rules"
    by code_simp
  moreover have "any_left_recursion hidden_rules = Inr False" by code_simp
  moreover have "left_edge hidden_rules 0 1"
    unfolding left_edge_def
  proof (intro exI conjI)
    show "exposed hidden_rules (0, 0)" by (rule exposed_start) code_simp
  qed code_simp+
  moreover have "rules_ok hidden_rules" by code_simp
  ultimately show ?thesis by (auto simp: llama_grammar_init_rules_def)
qed

section \<open>Initialising\<close>

text \<open>
  Initialising with well-formed rules returns: a null grammar when the check finds left
  recursion, and otherwise, when no rule is empty only through others, a grammar whose
  stacks are the expansions of the alternates of the start rule, each once, at least one,
  with no partial code point pending.
\<close>

theorem init_returns:
  assumes "rules_ok rules" "\<forall>r \<in> set rules. last r = elem Gre_end 0" "no_hidden_empty rules"
    and "start < length rules"
  shows "\<exists>N res. (\<forall>fuel \<ge> N. llama_grammar_init_rules fuel rules start = Inr res) \<and>
    (case res of
       None \<Rightarrow> any_left_recursion rules = Inr True
     | Some g \<Rightarrow> g_rules g = rules \<and> g_utf8 g = \<lparr>p_value = 0, n_remain = 0\<rparr> \<and> g_stacks g \<noteq> [] \<and>
         distinct (g_stacks g) \<and> set (g_stacks g) = derives_from rules start)"
  by (rule init_spec[OF assms])

theorem init_returns_witness:
  "\<exists>N res. (\<forall>fuel \<ge> N. llama_grammar_init_rules fuel list_rules 0 = Inr res) \<and>
    (case res of
       None \<Rightarrow> any_left_recursion list_rules = Inr True
     | Some g \<Rightarrow> g_rules g = list_rules \<and> g_utf8 g = \<lparr>p_value = 0, n_remain = 0\<rparr> \<and> g_stacks g \<noteq> [] \<and>
         distinct (g_stacks g) \<and> set (g_stacks g) = derives_from list_rules 0)"
  by (rule init_returns[OF list_rules_ok]) code_simp+

section \<open>Characters\<close>

text \<open>
  At a character element llama_grammar_match_char decides the class written there: the
  code point is one of the characters or inside one of the ranges of the class, or any for
  a dot, and a negated class accepts exactly the others.  The pointer it returns is behind
  the whole class, at an element a stack may hold or the end of the sequence.
\<close>

theorem match_char_decides:
  assumes "rules_ok rules" "char_pos rules p"
  shows "llama_grammar_match_char rules p c =
      Inr (in_class (elems_at rules p) c = is_positive_char (at rules p), after_char rules p) \<and>
    boundary rules (after_char rules p)"
  using match_char_spec[OF assms, of c] after_char_boundary[OF assms] by (simp add: char_matches_def)

theorem match_char_decides_witness:
  "llama_grammar_match_char list_rules (0, 0) 98 = Inr (True, (0, 2)) \<and>
   in_class (elems_at list_rules (0, 0)) 98 = is_positive_char (at list_rules (0, 0)) \<and>
   boundary list_rules (0, 2)"
proof -
  have p: "char_pos list_rules (0, 0)" by code_simp
  have run: "llama_grammar_match_char list_rules (0, 0) 98 = Inr (True, (0, 2))" by code_simp
  show ?thesis using match_char_decides[OF list_rules_ok p, of 98] run by simp
qed

text \<open>
  A token that ends inside a code point is not refused by a class that holds a code
  point the sequence can still become: whatever continuation bytes follow, if the shortest
  encoding they complete is in a class without negation, llama_grammar_match_partial_char
  says that it may match.
\<close>

theorem partial_char_not_refused:
  assumes "rules_ok rules" "char_pos rules p" "is_positive_char (at rules p)"
    and "n_remain part \<in> {1, 2, 3}" "unat (p_value part) < 2 ^ (32 - 6 * nat (n_remain part))"
    and "completes part x" "in_class (elems_at rules p) x"
  shows "llama_grammar_match_partial_char rules p part = Inr True"
proof -
  note r = completes_range[OF assms(4-6)]
  have "0 \<le> n_remain part" using assms(4) by auto
  then have "partial_matches rules p part"
    using meets_member[OF assms(7) r(1,2)] r(3) assms(3) by (simp add: partial_matches_def)
  then show ?thesis using match_partial_spec[OF assms(1,2), of part] by simp
qed

theorem partial_char_not_refused_witness:
  "llama_grammar_match_partial_char [[elem Gre_char 0xE0, elem Gre_char_rng_upper 0xFF, elem Gre_end 0]] (0, 0)
     \<lparr>p_value = 3, n_remain = 1\<rparr> = Inr True"
proof -
  let ?rules = "[[elem Gre_char 0xE0, elem Gre_char_rng_upper 0xFF, elem Gre_end 0]]"
    and ?part = "\<lparr>p_value = 3, n_remain = 1\<rparr>"
  have "foldl shift_in (p_value ?part) [0xA9] = 0xE9" "(drop_bit 6 (0xA9 :: 8 word)) = 2" by code_simp+
  then have c: "completes ?part 0xE9" unfolding completes_def by (intro conjI exI[of _ "[0xA9]"]) simp_all
  have k: "in_class (elems_at ?rules (0, 0)) 0xE9" by code_simp
  show ?thesis by (rule partial_char_not_refused[OF _ _ _ _ _ c k]) code_simp+
qed

text \<open>
  A negated class refuses too much: the token that ends in the byte C3 could go on to
  the code point E8, which \<^verbatim>\<open>[^\xE9]\<close> accepts, yet the partial match says no, as the range of
  continuations meets the excluded character.
\<close>

theorem negated_class_refuses_partial:
  "let rules = [[elem Gre_char_not 0xE9, elem Gre_end 0]]; part = \<lparr>p_value = 3, n_remain = 1\<rparr> in
   rules_ok rules \<and> completes part 0xE8 \<and>
   llama_grammar_match_char rules (0, 0) 0xE8 = Inr (True, (0, 1)) \<and>
   llama_grammar_match_partial_char rules (0, 0) part = Inr False"
proof -
  let ?part = "\<lparr>p_value = 3, n_remain = 1\<rparr>"
  have "foldl shift_in (p_value ?part) [0xA8] = 0xE8" "(drop_bit 6 (0xA8 :: 8 word)) = 2" by code_simp+
  then have "completes ?part 0xE8" unfolding completes_def by (intro conjI exI[of _ "[0xA8]"]) simp_all
  moreover have "rules_ok [[elem Gre_char_not 0xE9, elem Gre_end 0]]"
    "llama_grammar_match_char [[elem Gre_char_not 0xE9, elem Gre_end 0]] (0, 0) 0xE8 = Inr (True, (0, 1))"
    "llama_grammar_match_partial_char [[elem Gre_char_not 0xE9, elem Gre_end 0]] (0, 0) ?part = Inr False"
    by code_simp+
  ultimately show ?thesis by (simp add: Let_def)
qed

section \<open>Filtering and accepting tokens\<close>

definition sample_vocab :: grammar_vocab where
  "sample_vocab = \<lparr>token_to_piece = (\<lambda>t. [[], [0x62, 0x2C], [0x62, 0x62], [0x62, 0xC0, 0x80, 0x2C]] ! nat t),
     token_is_eog = (\<lambda>t. t = 0)\<rparr>"

text \<open>A grammar with classes beyond ASCII, and a rule that is empty only through another, as in json.gbnf:
  \<^verbatim>\<open>root ::= ws [a-z\xE0-\xFF]\<close>, \<^verbatim>\<open>ws ::= ([ \t\n] ws)?\<close>.\<close>

definition ws_rules :: "grammar_rule list" where
  "ws_rules =
     [[elem Gre_rule_ref 1, elem Gre_char 97, elem Gre_char_rng_upper 122, elem Gre_char_alt 0xE0,
       elem Gre_char_rng_upper 0xFF, elem Gre_end 0],
      [elem Gre_rule_ref 3, elem Gre_end 0],
      [elem Gre_char 32, elem Gre_char_alt 9, elem Gre_char_alt 10, elem Gre_rule_ref 1, elem Gre_end 0],
      [elem Gre_rule_ref 2, elem Gre_alt 0, elem Gre_end 0]]"

definition ws_grammar :: llama_grammar where
  "ws_grammar = \<lparr>g_rules = ws_rules, g_stacks = [[(2, 0), (0, 1)], [(0, 1)]], g_utf8 = fresh_utf8\<rparr>"

definition ws_vocab :: grammar_vocab where
  "ws_vocab = \<lparr>token_to_piece = (\<lambda>t. [[], [0x20, 0x62], [0x20, 0xC3], [0x62, 0x62], [0xC2]] ! nat t),
     token_is_eog = (\<lambda>t. t = 0)\<rparr>"

lemma ws_grammar_ok: "grammar_ok ws_grammar"
  by code_simp

lemma list_not_left_recursive: "\<not> left_recursive (g_rules list_grammar)"
  using checked_not_left_recursive[OF list_rules_checked] by (simp add: list_grammar_def)

lemma ws_not_left_recursive: "\<not> left_recursive (g_rules ws_grammar)"
proof (rule ranked_not_left_recursive)
  show "rules_ok (g_rules ws_grammar)" using ws_grammar_ok by (simp add: grammar_ok_def)
  show "ranked {1, 3} (\<lambda>r. [3, 2, 0, 1] ! r) (g_rules ws_grammar)" by code_simp
qed

text \<open>The check of the source takes \<open>ws\<close> for a rule that is not empty.\<close>

lemma ws_hides_empty: "\<not> no_hidden_empty ws_rules" "any_left_recursion ws_rules = Inr False"
  by code_simp+

text \<open>
  C26. The filter keeps what the grammar can read.  Take a well-formed grammar without left recursion
  (no rule comes first in itself, hidden empty rules allowed) with at least one stack, whose ranges run
  from the lower to the upper end and whose pending partial code point is one a decoder leaves.  With
  enough fuel llama_grammar_apply_impl returns one verdict for each token.  Every token it keeps is
  readable: an end token only when some stack is empty, any other only when it has text, some stack of
  the automaton is left after its code points (up to a code point 0), and its pending bytes, if any, can
  still become a code point that the character then on top accepts.  And it keeps every readable token
  that ends with a whole code point, and every readable token at all when no class of the grammar is
  negated (a negated class refuses a partial code point that might be excluded).
\<close>

theorem grammar_filter_exact:
  assumes "grammar_ok g" "\<not> left_recursive (g_rules g)" "g_stacks g \<noteq> []"
    and "ranges_ordered (g_rules g)" "utf8_ok (g_utf8 g)"
  shows "\<exists>N keep. (\<forall>fuel \<ge> N. llama_grammar_apply_impl fuel (Some v) g ids = Inr keep) \<and> length keep = length ids \<and>
    (\<forall>i < length ids. (keep ! i \<longrightarrow> readable v g (ids ! i)) \<and>
       (readable v g (ids ! i) \<and> (n_remain (snd (decode_utf8 (token_to_piece v (ids ! i)) (g_utf8 g))) = 0 \<or>
          no_negated (g_rules g)) \<longrightarrow> keep ! i))"
proof -
  have "expands (g_rules g)" using assms(1,2) by (simp add: expands_def grammar_ok_def)
  from apply_settles[OF this assms(1,3), of v ids] obtain N keep where
    run: "\<forall>fuel \<ge> N. llama_grammar_apply_impl fuel (Some v) g ids = Inr keep" unfolding settles_def by blast
  then have keep: "keep = map (allowed v g) ids" using apply_spec[OF assms(1,3)] by blast
  have "(keep ! i \<longrightarrow> readable v g (ids ! i)) \<and> (readable v g (ids ! i) \<and>
      (n_remain (snd (decode_utf8 (token_to_piece v (ids ! i)) (g_utf8 g))) = 0 \<or> no_negated (g_rules g)) \<longrightarrow> keep ! i)"
    if "i < length ids" for i
    using that allowed_readable[OF assms(1,5)] assms(4) by (simp add: keep)
  then show ?thesis using run keep by (intro exI[of _ N] exI[of _ keep]) simp
qed

text \<open>Kept are \<open> b\<close> and the blank with the first byte of a character up to \<open>FF\<close>, not \<open>bb\<close> and the byte C2.\<close>

theorem grammar_filter_exact_witness:
  "llama_grammar_apply_impl 9 (Some ws_vocab) ws_grammar [1, 2, 3, 4] = Inr [True, True, False, False] \<and>
   readable ws_vocab ws_grammar 1 \<and> readable ws_vocab ws_grammar 2 \<and> \<not> readable ws_vocab ws_grammar 4"
proof -
  have st: "g_stacks ws_grammar \<noteq> []" "ranges_ordered (g_rules ws_grammar)" "utf8_ok (g_utf8 ws_grammar)"
    "no_negated (g_rules ws_grammar)" by code_simp+
  obtain N keep where k: "\<forall>fuel \<ge> N. llama_grammar_apply_impl fuel (Some ws_vocab) ws_grammar [1, 2, 3, 4] = Inr keep"
    "\<forall>i < length [1, 2, 3, 4 :: int]. (keep ! i \<longrightarrow> readable ws_vocab ws_grammar ([1, 2, 3, 4] ! i)) \<and>
       (readable ws_vocab ws_grammar ([1, 2, 3, 4] ! i) \<and> (n_remain (snd (decode_utf8 (token_to_piece ws_vocab
          ([1, 2, 3, 4] ! i)) (g_utf8 ws_grammar))) = 0 \<or> no_negated (g_rules ws_grammar)) \<longrightarrow> keep ! i)"
    using grammar_filter_exact[OF ws_grammar_ok ws_not_left_recursive st(1-3), of ws_vocab "[1, 2, 3, 4]"] by blast
  have run: "llama_grammar_apply_impl 9 (Some ws_vocab) ws_grammar [1, 2, 3, 4] = Inr [True, True, False, False]"
    by code_simp
  have "keep = map (allowed ws_vocab ws_grammar) [1, 2, 3, 4]"
    using k(1) apply_spec[OF ws_grammar_ok st(1)] by blast
  moreover have "[True, True, False, False] = map (allowed ws_vocab ws_grammar) [1, 2, 3, 4]"
    by (rule apply_spec[OF ws_grammar_ok st(1) run])
  ultimately have keep: "keep = [True, True, False, False]" by simp
  have "readable ws_vocab ws_grammar ([1, 2, 3, 4] ! 0)" "readable ws_vocab ws_grammar ([1, 2, 3, 4] ! 1)"
    "\<not> readable ws_vocab ws_grammar ([1, 2, 3, 4] ! 3)"
    using k(2)[rule_format, of 0] k(2)[rule_format, of 1] k(2)[rule_format, of 3] st(4) unfolding keep by simp_all
  then show ?thesis using run by simp
qed

text \<open>
  C25. The grammar never dies on a token it let through.  Take a well-formed grammar without left
  recursion (hidden empty rules allowed) with at least one stack.  If llama_grammar_apply_impl keeps the
  logit of a token and the decoded text holds no code point 0, then llama_grammar_accept_impl
  accepts the token with enough fuel, no assertion fails, and the grammar it leaves is well
  formed and has a stack again, so that the next token can be sampled.
\<close>

theorem kept_token_is_accepted:
  assumes "grammar_ok g" "\<not> left_recursive (g_rules g)" "g_stacks g \<noteq> []"
    and "llama_grammar_apply_impl fuel (Some v) g ids = Inr keep" "i < length ids" "keep ! i"
    and "0 \<notin> set (butlast (fst (decode_utf8 (token_to_piece v (ids ! i)) (g_utf8 g))))"
  shows "\<exists>N g'. (\<forall>fuel \<ge> N. llama_grammar_accept_impl fuel (Some v) g (ids ! i) = Inr g') \<and>
    grammar_ok g' \<and> g_rules g' = g_rules g \<and> g_stacks g' \<noteq> []"
proof -
  have ex: "expands (g_rules g)" using assms(1,2) by (simp add: expands_def grammar_ok_def)
  have "allowed v g (ids ! i)" using apply_spec[OF assms(1,3,4)] assms(5,6) by simp
  from accept_allowed[OF ex assms(1) this assms(7)] show ?thesis by blast
qed

theorem kept_token_is_accepted_witness:
  "\<exists>N g'. (\<forall>fuel \<ge> N. llama_grammar_accept_impl fuel (Some ws_vocab) ws_grammar ([1, 2, 3, 4] ! 1) = Inr g') \<and>
    grammar_ok g' \<and> g_rules g' = g_rules ws_grammar \<and> g_stacks g' \<noteq> []"
proof (rule kept_token_is_accepted[OF ws_grammar_ok ws_not_left_recursive])
  show "llama_grammar_apply_impl 9 (Some ws_vocab) ws_grammar [1, 2, 3, 4] = Inr [True, True, False, False]"
    by code_simp
qed code_simp+

text \<open>
  A token with the overlong encoding C0 80 inside decodes to a code point 0, which the
  filter takes for the end of the token and accepting does not: the filter keeps the bytes
  \<^verbatim>\<open>b C0 80 ,\<close> where a letter may come, and accepting them fails the assertion that a stack
  is left.
\<close>

theorem overlong_nul_kills_grammar:
  "llama_grammar_apply_impl 9 (Some sample_vocab) list_grammar [3] = Inr [True] \<and>
   llama_grammar_accept_impl 9 (Some sample_vocab) list_grammar 3 = Inl Assert_failed"
proof
  show "llama_grammar_apply_impl 9 (Some sample_vocab) list_grammar [3] = Inr [True]" by code_simp
qed code_simp

text \<open>
  C29. How the text is cut into tokens does not matter.  Take a well-formed grammar, a sequence of
  tokens none of which ends the generation, each of them accepted by llama_grammar_accept_impl in turn,
  and whose concatenated bytes, behind the pending bytes of a partial code point, are well-formed UTF-8
  without a NUL, possibly ending inside a code point.  Then the stacks are those the automaton reaches
  by reading the code points of the concatenated bytes, and the pending partial code point is the one
  of the concatenation, also when tokens end inside a code point.
\<close>

theorem accepted_tokens_read_text:
  assumes "grammar_ok g" "\<forall>t \<in> set ts. \<not> token_is_eog v t"
    and "utf8_run (text_of v ts) [] (p_value (g_utf8 g)) (n_remain (g_utf8 g)) \<noteq> None"
    and "rfold (\<lambda>t g. llama_grammar_accept_impl fuel (Some v) g t) ts g = Inr g'"
  shows "g_utf8 g' = snd (decode_utf8 (text_of v ts) (g_utf8 g)) \<and>
    set (g_stacks g') = reads_all (g_rules g) (butlast (fst (decode_utf8 (text_of v ts) (g_utf8 g)))) (set (g_stacks g))"
  using accept_tokens_spec[OF assms(1-3), of fuel g'] assms(4) by (simp add: accept_tokens_def case_prod_beta)

theorem accepted_tokens_read_text_witness:
  "set [[(1, 0)], []] = reads_all list_rules [0x62, 0x2C, 0x62] {[(0, 0)]}"
proof -
  let ?v = "\<lparr>token_to_piece = (\<lambda>t. if t = 1 then [0x62, 0x2C] else [0x62]), token_is_eog = (\<lambda>t. t = 0)\<rparr>"
  have run: "rfold (\<lambda>t g. llama_grammar_accept_impl 9 (Some ?v) g t) [1, 2] list_grammar =
      Inr (list_grammar\<lparr>g_stacks := [[(1, 0)], []], g_utf8 := \<lparr>p_value = 0x62, n_remain = 0\<rparr>\<rparr>)"
    by code_simp
  have t: "text_of ?v [1, 2] = [0x62, 0x2C, 0x62]" by (simp add: text_of_def)
  have d: "decode_utf8 [0x62, 0x2C, 0x62] fresh_utf8 = ([0x62, 0x2C, 0x62, 0], \<lparr>p_value = 0x62, n_remain = 0\<rparr>)"
    by code_simp
  have "utf8_run [0x62, 0x2C, 0x62] [] (p_value (g_utf8 list_grammar)) (n_remain (g_utf8 list_grammar)) \<noteq> None"
    by code_simp
  then have u: "utf8_run (text_of ?v [1, 2]) [] (p_value (g_utf8 list_grammar)) (n_remain (g_utf8 list_grammar)) \<noteq> None"
    unfolding t .
  have e: "\<forall>t \<in> set [1, 2]. \<not> token_is_eog ?v t" by simp
  show ?thesis
    using accepted_tokens_read_text[OF list_grammar_ok e u run] d unfolding t by (simp add: list_grammar_def)
qed

end
