(* ===== verification/GrammarParse.thy ===== *)
theory GrammarParse
  imports Grammar
begin

unbundle bit_operations_syntax

text \<open>
  The parser of \<^verbatim>\<open>src/llama-grammar.cpp\<close>, from the text of a grammar to its rules, the
  printer of the rules and the initialisation of a grammar from its text.  A position is the
  suffix of the text that is left.  \<open>std::map symbol_ids\<close> is the list of its pairs in the
  order of insertion; its order by name, which only decides between equal ids, is not kept.
\<close>

section \<open>Characters\<close>

definition code :: "char \<Rightarrow> nat" where
  "code c = of_char c"

definition byte_of :: "char \<Rightarrow> 8 word" where
  "byte_of c = of_char c"

definition is_digit_char :: "char \<Rightarrow> bool" where
  "is_digit_char c \<longleftrightarrow> code CHR ''0'' \<le> code c \<and> code c \<le> code CHR ''9''"

definition is_word_char :: "char \<Rightarrow> bool" where
  "is_word_char c \<longleftrightarrow> (code CHR ''a'' \<le> code c \<and> code c \<le> code CHR ''z'') \<or>
     (code CHR ''A'' \<le> code c \<and> code c \<le> code CHR ''Z'') \<or> c = CHR ''-'' \<or> is_digit_char c"

text \<open>\<open>decode_utf8(const char *)\<close>: the text is not checked, only its end.\<close>

fun follow_bytes :: "nat \<Rightarrow> char list \<Rightarrow> 32 word \<Rightarrow> 32 word \<times> char list" where
  "follow_bytes n [] v = (v, [])"
| "follow_bytes n (c # s) v = (if n = 0 then (v, c # s) else follow_bytes (n - 1) s (shift_in v (byte_of c)))"

definition decode_char :: "char list \<Rightarrow> 32 word \<times> char list" where
  "decode_char s =
     (let b = byte_of (peek s);
          len = [1, 1, 1, 1, 1, 1, 1, 1, 1, 1, 1, 1, 2, 2, 3, 4] ! unat (drop_bit 4 b);
          mask = push_bit (8 - len) 1 - 1
      in follow_bytes (len - 1) (drop 1 s) (ucast (b AND mask)))"

definition hex_digit :: "char \<Rightarrow> nat option" where
  "hex_digit c =
     (if code CHR ''a'' \<le> code c \<and> code c \<le> code CHR ''f'' then Some (code c - code CHR ''a'' + 10)
      else if code CHR ''A'' \<le> code c \<and> code c \<le> code CHR ''F'' then Some (code c - code CHR ''A'' + 10)
      else if is_digit_char c then Some (code c - code CHR ''0'')
      else None)"

fun parse_hex :: "char list \<Rightarrow> nat \<Rightarrow> 32 word \<Rightarrow> (32 word \<times> char list) res" where
  "parse_hex [] n v = (if n = 0 then Inr (v, []) else Inl (Runtime_error ''expecting ''))"
| "parse_hex (c # s) n v =
     (if n = 0 then Inr (v, c # s)
      else case hex_digit c of
        None \<Rightarrow> Inl (Runtime_error ''expecting '')
      | Some d \<Rightarrow> parse_hex s (n - 1) (push_bit 4 v + of_nat d))"

function parse_space :: "bool \<Rightarrow> char list \<Rightarrow> char list" where
  "parse_space newline_ok [] = []"
| "parse_space newline_ok (c # s) =
     (if c = CHR ''#'' then parse_space newline_ok (dropWhile (\<lambda>d. d \<noteq> CHR 0x0D \<and> d \<noteq> CHR 0x0A) s)
      else if c = CHR '' '' \<or> c = CHR 0x09 \<or> (newline_ok \<and> (c = CHR 0x0D \<or> c = CHR 0x0A))
      then parse_space newline_ok s
      else c # s)"
  by pat_completeness auto
termination
  by (relation "measure (\<lambda>(b, s). length s)") (auto simp: le_imp_less_Suc length_dropWhile_le)

definition parse_name :: "char list \<Rightarrow> (string \<times> char list) res" where
  "parse_name s =
     (if s \<noteq> [] \<and> is_word_char (hd s) then Inr (takeWhile is_word_char s, dropWhile is_word_char s)
      else Inl (Runtime_error ''expecting name at ''))"

definition parse_int :: "char list \<Rightarrow> (string \<times> char list) res" where
  "parse_int s =
     (if s \<noteq> [] \<and> is_digit_char (hd s) then Inr (takeWhile is_digit_char s, dropWhile is_digit_char s)
      else Inl (Runtime_error ''expecting integer at ''))"

definition parse_char :: "char list \<Rightarrow> (32 word \<times> char list) res" where
  "parse_char s =
     (if peek s = CHR 0x5C then
        (let e = peek1 s in
         if e = CHR ''x'' then parse_hex (drop 2 s) 2 0
         else if e = CHR ''u'' then parse_hex (drop 2 s) 4 0
         else if e = CHR ''U'' then parse_hex (drop 2 s) 8 0
         else if e = CHR ''t'' then Inr (9, drop 2 s)
         else if e = CHR ''r'' then Inr (13, drop 2 s)
         else if e = CHR ''n'' then Inr (10, drop 2 s)
         else if e = CHR 0x5C \<or> e = CHR 0x22 \<or> e = CHR ''['' \<or> e = CHR '']''
         then Inr (of_nat (code e), drop 2 s)
         else Inl (Runtime_error ''unknown escape at ''))
      else if s \<noteq> [] then Inr (decode_char s)
      else Inl (Runtime_error ''unexpected end of input''))"

section \<open>Symbols and rules\<close>

record llama_grammar_parser =
  symbol_ids :: "(string \<times> 32 word) list"
  p_rules :: "grammar_rule list"

fun dec_of_nat :: "nat \<Rightarrow> string" where
  "dec_of_nat n = (if n < 10 then [char_of (48 + n)] else dec_of_nat (n div 10) @ [char_of (48 + n mod 10)])"

declare dec_of_nat.simps [simp del]

definition next_id :: "llama_grammar_parser \<Rightarrow> 32 word" where
  "next_id st = of_nat (length (symbol_ids st))"

definition get_symbol_id :: "string \<Rightarrow> llama_grammar_parser \<Rightarrow> 32 word \<times> llama_grammar_parser" where
  "get_symbol_id name st =
     (case map_of (symbol_ids st) name of
        Some i \<Rightarrow> (i, st)
      | None \<Rightarrow> (next_id st, st\<lparr>symbol_ids := symbol_ids st @ [(name, next_id st)]\<rparr>))"

text \<open>\<open>symbol_ids[name] = id\<close>: overwrites the entry when there is one.\<close>

definition ids_put :: "string \<Rightarrow> 32 word \<Rightarrow> (string \<times> 32 word) list \<Rightarrow> (string \<times> 32 word) list" where
  "ids_put k v ids = (if k \<in> fst ` set ids then map (\<lambda>(k', v'). (k', if k' = k then v else v')) ids
     else ids @ [(k, v)])"

definition generate_symbol_id :: "string \<Rightarrow> llama_grammar_parser \<Rightarrow> 32 word \<times> llama_grammar_parser" where
  "generate_symbol_id base st =
     (let i = next_id st in
      (i, st\<lparr>symbol_ids := ids_put (base @ ''_'' @ dec_of_nat (unat i)) i (symbol_ids st)\<rparr>))"

definition add_rule :: "32 word \<Rightarrow> grammar_rule \<Rightarrow> llama_grammar_parser \<Rightarrow> llama_grammar_parser" where
  "add_rule i rule st =
     (let rs = (if length (p_rules st) \<le> unat i then vec_resize (p_rules st) (unat i + 1) [] else p_rules st)
      in st\<lparr>p_rules := rs[unat i := rule]\<rparr>)"

section \<open>Repetitions\<close>

text \<open>
  \<open>std::stoul\<close> of a run of digits, and the conversion of its value to \<open>int\<close>, modulo \<open>2 ^ 32\<close>.
\<close>

definition stoul :: "string \<Rightarrow> nat res" where
  "stoul ds =
     (let n = foldl (\<lambda>n d. 10 * n + (code d - code CHR ''0'')) 0 ds in
      if n < 18446744073709551616 then Inr n else Inl (Out_of_range ''stoul''))"

definition to_int :: "nat \<Rightarrow> int" where
  "to_int n = (int n + 2147483648) mod 4294967296 - 2147483648"

text \<open>One pass of the loop that defines the optional repetitions: the state is the parser,
  \<open>rec_rule\<close> and \<open>last_rec_rule_id\<close>.\<close>

definition rec_step ::
    "string \<Rightarrow> grammar_rule \<Rightarrow> int \<Rightarrow> nat \<Rightarrow> llama_grammar_parser \<times> grammar_rule \<times> 32 word
      \<Rightarrow> llama_grammar_parser \<times> grammar_rule \<times> 32 word" where
  "rec_step name prev max_times i s = (case s of (st, rec, last_id) \<Rightarrow>
     let rec = take (length prev) rec;
         (rec_id, st) = generate_symbol_id name st;
         rec = (if 0 < i \<or> max_times < 0
                then rec @ [elem Gre_rule_ref (if max_times < 0 then rec_id else last_id)] else rec);
         rec = rec @ [elem Gre_alt 0, elem Gre_end 0]
     in (add_rule rec_id rec st, rec, rec_id))"

text \<open>\<open>max_times - min_times\<close> past the range of \<open>int\<close> is undefined behaviour.\<close>

definition handle_repetitions ::
    "string \<Rightarrow> nat \<Rightarrow> int \<Rightarrow> int \<Rightarrow> grammar_rule \<Rightarrow> llama_grammar_parser \<Rightarrow> (grammar_rule \<times> llama_grammar_parser) res" where
  "handle_repetitions name last_start min_times max_times rule st =
     (if last_start = length rule then Inl (Runtime_error ''expecting preceding item to */+/?/{ at '')
      else
        let prev = drop last_start rule;
            rule = (if min_times = 0 then take last_start rule
                    else rule @ concat (replicate (nat (min_times - 1)) prev));
            n_opt = (if max_times < 0 then 1 else max_times - min_times)
        in if int32_max < n_opt then Inl Out_of_bounds
           else
             let (st, _, last_id) = fold (rec_step name prev max_times) [0..<nat n_opt] (st, prev, 0)
             in Inr (if 0 < n_opt then rule @ [elem Gre_rule_ref last_id] else rule, st))"

text \<open>The bounds in braces, from behind the opening one.\<close>

definition parse_bounds :: "bool \<Rightarrow> char list \<Rightarrow> (int \<times> int \<times> char list) res" where
  "parse_bounds nested s =
     (if \<not> is_digit_char (peek s) then Inl (Runtime_error ''expecting an int at '')
      else
        rbind (parse_int s) (\<lambda>(ds, s).
        rbind (stoul ds) (\<lambda>n.
        let min_times = to_int n; s = parse_space nested s in
        if peek s = CHR ''}'' then Inr (min_times, min_times, parse_space nested (drop 1 s))
        else if peek s = CHR '','' then
          (let s = parse_space nested (drop 1 s) in
           rbind (if is_digit_char (peek s)
                  then rbind (parse_int s) (\<lambda>(ds, s). rbind (stoul ds) (\<lambda>n. Inr (to_int n, parse_space nested s)))
                  else Inr (-1, s)) (\<lambda>(max_times, s).
           if peek s \<noteq> CHR ''}'' then Inl (Runtime_error ''expecting '')
           else Inr (min_times, max_times, parse_space nested (drop 1 s))))
        else Inl (Runtime_error ''expecting ''))))"

section \<open>Literals and classes\<close>

lemma follow_bytes_length: "length (snd (follow_bytes n s v)) \<le> length s"
  by (induction n s v rule: follow_bytes.induct) auto

lemma parse_hex_length: "parse_hex s n v = Inr (w, s') \<Longrightarrow> length s' \<le> length s"
  by (induction s n v rule: parse_hex.induct) (auto split: option.splits if_splits)

lemma parse_char_shorter:
  assumes "parse_char s = Inr (v, s')"
  shows "length s' < length s"
proof (cases s)
  case (Cons c r)
  have "parse_hex (drop 2 s) n 0 = Inr (v, s') \<Longrightarrow> length s' < length s" for n
    using parse_hex_length[of "drop 2 s" n 0 v s'] Cons by simp
  moreover have "decode_char s = (v, s') \<Longrightarrow> length s' < length s"
    using follow_bytes_length Cons by (auto simp: decode_char_def Let_def dest: arg_cong[where f = snd])
      (metis le_imp_less_Suc snd_conv)
  ultimately show ?thesis
    using assms Cons by (auto simp: parse_char_def Let_def split: if_splits)
qed (use assms in \<open>simp add: parse_char_def\<close>)

text \<open>The characters of a literal, up to its closing quote.\<close>

function parse_literal :: "char list \<Rightarrow> grammar_rule \<Rightarrow> (char list \<times> grammar_rule) res" where
  "parse_literal s rule =
     (if peek s = CHR 0x22 then Inr (s, rule)
      else if s = [] then Inl (Runtime_error ''unexpected end of input'')
      else rbind (parse_char s) (\<lambda>r. parse_literal (snd r) (rule @ [elem Gre_char (fst r)])))"
  by pat_completeness auto
termination
  by (relation "measure (\<lambda>(s, rule). length s)") (auto dest: parse_char_shorter)

declare parse_literal.simps [simp del]

text \<open>One character or range of a class, and the class up to its closing bracket.\<close>

definition class_item ::
    "llama_gretype \<Rightarrow> nat \<Rightarrow> char list \<Rightarrow> grammar_rule \<Rightarrow> (char list \<times> grammar_rule) res" where
  "class_item start_type start s rule =
     rbind (parse_char s) (\<lambda>(v, s).
     let rule = rule @ [elem (if start < length rule then Gre_char_alt else start_type) v] in
     if peek s = CHR ''-'' \<and> peek1 s \<noteq> CHR '']'' then
       (if length s \<le> 1 then Inl (Runtime_error ''unexpected end of input'')
        else rbind (parse_char (drop 1 s)) (\<lambda>(v, s). Inr (s, rule @ [elem Gre_char_rng_upper v])))
     else Inr (s, rule))"

lemma class_item_shorter:
  assumes "class_item t n s rule = Inr (s', rule')"
  shows "length s' < length s"
proof -
  obtain v s1 where s1: "parse_char s = Inr (v, s1)"
    and r: "(let rule = rule @ [elem (if n < length rule then Gre_char_alt else t) v] in
     if peek s1 = CHR ''-'' \<and> peek1 s1 \<noteq> CHR '']'' then
       (if length s1 \<le> 1 then Inl (Runtime_error ''unexpected end of input'')
        else rbind (parse_char (drop 1 s1)) (\<lambda>(v, s). Inr (s, rule @ [elem Gre_char_rng_upper v])))
     else Inr (s1, rule)) = Inr (s', rule')"
    using assms by (auto simp: class_item_def)
  have "parse_char (drop 1 s1) = Inr (w, s2) \<Longrightarrow> length s2 \<le> length s1" for w s2
    using parse_char_shorter[of "drop 1 s1" w s2] by simp
  then have "length s' \<le> length s1" using r by (auto simp: Let_def split: if_splits)
  then show ?thesis using parse_char_shorter[OF s1] by simp
qed

function parse_class ::
    "llama_gretype \<Rightarrow> nat \<Rightarrow> char list \<Rightarrow> grammar_rule \<Rightarrow> (char list \<times> grammar_rule) res" where
  "parse_class start_type start s rule =
     (if peek s = CHR '']'' then Inr (s, rule)
      else if s = [] then Inl (Runtime_error ''unexpected end of input'')
      else rbind (class_item start_type start s rule) (\<lambda>r. parse_class start_type start (fst r) (snd r)))"
  by pat_completeness auto
termination
  by (relation "measure (\<lambda>(t, n, s, rule). length s)") (auto dest: class_item_shorter)

declare parse_class.simps [simp del]

section \<open>Sequences, alternates, rules\<close>

text \<open>The items other than a group: the position behind the item, \<open>last_sym_start\<close>, the rule.\<close>

definition parse_item ::
    "bool \<Rightarrow> string \<Rightarrow> nat \<Rightarrow> char list \<Rightarrow> grammar_rule \<Rightarrow> llama_grammar_parser
      \<Rightarrow> (char list \<times> nat \<times> grammar_rule \<times> llama_grammar_parser) res" where
  "parse_item nested name sym_at s rule st =
     (let c = peek s; n = length rule; behind = parse_space nested (drop 1 s);
          repeat = (\<lambda>lo hi pos. rbind (handle_repetitions name sym_at lo hi rule st) (\<lambda>(rule, st).
            Inr (pos, sym_at, rule, st))) in
      if c = CHR 0x22 then
        rbind (parse_literal (drop 1 s) rule) (\<lambda>(s, rule). Inr (parse_space nested (drop 1 s), n, rule, st))
      else if c = CHR ''['' then
        (let (start_type, s) = (if peek1 s = CHR ''^'' then (Gre_char_not, drop 2 s) else (Gre_char, drop 1 s)) in
         rbind (parse_class start_type n s rule) (\<lambda>(s, rule). Inr (parse_space nested (drop 1 s), n, rule, st)))
      else if is_word_char c then
        rbind (parse_name s) (\<lambda>(ref, s).
        let (i, st) = get_symbol_id ref st in
        Inr (parse_space nested s, n, rule @ [elem Gre_rule_ref i], st))
      else if c = CHR ''.'' then Inr (behind, n, rule @ [elem Gre_char_any 0], st)
      else if c = CHR ''*'' then repeat 0 (-1) behind
      else if c = CHR ''+'' then repeat 1 (-1) behind
      else if c = CHR ''?'' then repeat 0 1 behind
      else rbind (parse_bounds nested behind) (\<lambda>(lo, hi, s). repeat lo hi s))"

definition starts_item :: "char \<Rightarrow> bool" where
  "starts_item c \<longleftrightarrow> is_word_char c \<or> c \<in> set [CHR 0x22, CHR ''['', CHR ''.'', CHR ''*'', CHR ''+'', CHR ''?'', CHR ''{'']"

text \<open>
  \<open>parse_sequence\<close> is a loop over its items, with \<open>last_sym_start\<close> and \<open>pos\<close> as arguments and
  the parser of groups, \<open>parse_alternates\<close> one level deeper, as a parameter.  A pass of a
  loop reads at least one character, so the length of the text bounds the passes;
  \<open>depth\<close> bounds the nesting of groups.
\<close>

type_synonym parse_state = "char list \<times> grammar_rule \<times> llama_grammar_parser"
type_synonym group_parser = "32 word \<Rightarrow> char list \<Rightarrow> llama_grammar_parser \<Rightarrow> (char list \<times> llama_grammar_parser) res"

fun sequence_loop ::
    "nat \<Rightarrow> group_parser \<Rightarrow> bool \<Rightarrow> string \<Rightarrow> nat \<Rightarrow> char list \<Rightarrow> grammar_rule \<Rightarrow> llama_grammar_parser
      \<Rightarrow> parse_state res" where
  "sequence_loop 0 sub nested name sym_at s rule st = Inl Out_of_fuel"
| "sequence_loop (Suc n) sub nested name sym_at s rule st =
     (if peek s = CHR ''('' then
        (let (i, st) = generate_symbol_id name st in
         rbind (sub i (parse_space True (drop 1 s)) st) (\<lambda>(s, st).
         if peek s \<noteq> CHR '')'' then Inl (Runtime_error ''expecting ')' at '')
         else sequence_loop n sub nested name (length rule) (parse_space nested (drop 1 s))
                (rule @ [elem Gre_rule_ref i]) st))
      else if starts_item (peek s) then
        rbind (parse_item nested name sym_at s rule st) (\<lambda>(s, sym_at, rule, st).
        sequence_loop n sub nested name sym_at s rule st)
      else Inr (s, rule, st))"

definition parse_sequence ::
    "group_parser \<Rightarrow> bool \<Rightarrow> string \<Rightarrow> char list \<Rightarrow> grammar_rule \<Rightarrow> llama_grammar_parser \<Rightarrow> parse_state res" where
  "parse_sequence sub nested name s rule st =
     sequence_loop (Suc (length s)) sub nested name (length rule) s rule st"

fun alternates_loop ::
    "nat \<Rightarrow> group_parser \<Rightarrow> bool \<Rightarrow> string \<Rightarrow> char list \<Rightarrow> grammar_rule \<Rightarrow> llama_grammar_parser \<Rightarrow> parse_state res" where
  "alternates_loop 0 sub nested name s rule st = Inl Out_of_fuel"
| "alternates_loop (Suc n) sub nested name s rule st =
     (if peek s = CHR ''|'' then
        rbind (parse_sequence sub nested name (parse_space True (drop 1 s)) (rule @ [elem Gre_alt 0]) st)
          (\<lambda>(s, rule, st). alternates_loop n sub nested name s rule st)
      else Inr (s, rule, st))"

fun parse_alternates ::
    "nat \<Rightarrow> bool \<Rightarrow> string \<Rightarrow> 32 word \<Rightarrow> char list \<Rightarrow> llama_grammar_parser \<Rightarrow> (char list \<times> llama_grammar_parser) res" where
  "parse_alternates 0 nested name i s st = Inl Out_of_fuel"
| "parse_alternates (Suc depth) nested name i s st =
     rbind (parse_sequence (parse_alternates depth True name) nested name s [] st) (\<lambda>(s, rule, st).
     rbind (alternates_loop (Suc (length s)) (parse_alternates depth True name) nested name s rule st) (\<lambda>(s, rule, st).
     Inr (s, add_rule i (rule @ [elem Gre_end 0]) st)))"

definition parse_rule :: "nat \<Rightarrow> char list \<Rightarrow> llama_grammar_parser \<Rightarrow> (char list \<times> llama_grammar_parser) res" where
  "parse_rule depth s st =
     rbind (parse_name s) (\<lambda>(name, s).
     let s = parse_space False s; (i, st) = get_symbol_id name st in
     if take 3 s \<noteq> ''::='' then Inl (Runtime_error ''expecting ::= at '')
     else
       rbind (parse_alternates depth False name i (parse_space True (drop 3 s)) st) (\<lambda>(s, st).
       rbind (if peek s = CHR 0x0D then Inr (if peek1 s = CHR 0x0A then drop 2 s else drop 1 s)
              else if peek s = CHR 0x0A then Inr (drop 1 s)
              else if s \<noteq> [] then Inl (Runtime_error ''expecting newline or end at '')
              else Inr s) (\<lambda>s. Inr (parse_space True s, st))))"

fun parse_rules :: "nat \<Rightarrow> nat \<Rightarrow> char list \<Rightarrow> llama_grammar_parser \<Rightarrow> llama_grammar_parser res" where
  "parse_rules 0 depth s st = Inl Out_of_fuel"
| "parse_rules (Suc n) depth s st =
     (if s = [] then Inr st else rbind (parse_rule depth s st) (\<lambda>(s, st). parse_rules n depth s st))"

section \<open>The whole text\<close>

text \<open>The validation: every rule is defined, and every rule referred to that has a name.\<close>

definition undefined_ref :: "llama_grammar_parser \<Rightarrow> llama_grammar_element \<Rightarrow> bool" where
  "undefined_ref st e \<longleftrightarrow> e_type e = Gre_rule_ref \<and>
     (length (p_rules st) \<le> unat (e_value e) \<or> p_rules st ! unat (e_value e) = [])"

definition validate :: "llama_grammar_parser \<Rightarrow> unit res" where
  "validate st =
     rfold (\<lambda>rule _.
       if rule = [] then Inl (Runtime_error ''Undefined rule'')
       else rfold (\<lambda>e _.
         if undefined_ref st e \<and> (\<exists>kv \<in> set (symbol_ids st). snd kv = e_value e)
         then Inl (Runtime_error ''Undefined rule identifier '') else Inr ()) rule ())
     (p_rules st) ()"

definition is_exception :: "fault \<Rightarrow> bool" where
  "is_exception e = (case e of Runtime_error _ \<Rightarrow> True | Invalid_argument _ \<Rightarrow> True | Out_of_range _ \<Rightarrow> True | _ \<Rightarrow> False)"

text \<open>
  \<open>parse\<close>: every exception is caught and reported, the rules are cleared and the result is
  false, \<open>None\<close>; the symbols a failed parse leaves behind are not kept.
\<close>

definition llama_grammar_parse :: "char list \<Rightarrow> llama_grammar_parser option res" where
  "llama_grammar_parse text =
     (let s = takeWhile (\<lambda>c. c \<noteq> nul) text in
      case rbind (parse_rules (Suc (length s)) (Suc (length s)) (parse_space True s) \<lparr>symbol_ids = [], p_rules = []\<rparr>) (\<lambda>st.
           rbind (validate st) (\<lambda>_. Inr st)) of
        Inl e \<Rightarrow> if is_exception e then Inr None else Inl e
      | Inr st \<Rightarrow> Inr (Some st))"

text \<open>
  The second \<open>llama_grammar_init_impl\<close>: from behind the look-up of the start symbol on it
  is the first one, with the parsed rules.
\<close>

definition llama_grammar_init_str :: "nat \<Rightarrow> char list \<Rightarrow> string \<Rightarrow> llama_grammar option res" where
  "llama_grammar_init_str fuel text root =
     rbind (llama_grammar_parse text) (\<lambda>p.
     case p of
       None \<Rightarrow> Inr None
     | Some st \<Rightarrow>
         if p_rules st = [] then Inr None
         else if map_of (symbol_ids st) ''root'' = None then Inr None
         else case map_of (symbol_ids st) root of
             None \<Rightarrow> Inl (Out_of_range ''map::at'')
           | Some start \<Rightarrow> llama_grammar_init_rules fuel (p_rules st) (unat start))"

section \<open>Printing\<close>

fun hex_of_nat :: "nat \<Rightarrow> string" where
  "hex_of_nat n = (if n < 16 then [''0123456789ABCDEF'' ! n] else hex_of_nat (n div 16) @ [''0123456789ABCDEF'' ! (n mod 16)])"

declare hex_of_nat.simps [simp del]

text \<open>\<open>%04X\<close> pads with zeros to four digits.\<close>

definition print_grammar_char :: "32 word \<Rightarrow> string" where
  "print_grammar_char c =
     (if 0x20 \<le> c \<and> c \<le> 0x7F then [char_of (unat c)]
      else (let h = hex_of_nat (unat c) in ''<U+'' @ replicate (4 - length h) CHR ''0'' @ h @ ''>''))"

definition is_char_element :: "llama_grammar_element \<Rightarrow> bool" where
  "is_char_element e \<longleftrightarrow>
     e_type e \<in> set [Gre_char, Gre_char_not, Gre_char_alt, Gre_char_rng_upper, Gre_char_any]"

definition type_name :: "llama_gretype \<Rightarrow> string" where
  "type_name t = (case t of
     Gre_end \<Rightarrow> ''END'' | Gre_alt \<Rightarrow> ''ALT'' | Gre_rule_ref \<Rightarrow> ''RULE_REF'' | Gre_char \<Rightarrow> ''CHAR''
   | Gre_char_not \<Rightarrow> ''CHAR_NOT'' | Gre_char_rng_upper \<Rightarrow> ''CHAR_RNG_UPPER'' | Gre_char_alt \<Rightarrow> ''CHAR_ALT''
   | Gre_char_any \<Rightarrow> ''CHAR_ANY'')"

definition print_rule_binary :: "grammar_rule \<Rightarrow> string" where
  "print_rule_binary rule =
     concat (map (\<lambda>e. type_name (e_type e) @
       (if e_type e \<in> set [Gre_end, Gre_alt, Gre_rule_ref] then ''('' @ dec_of_nat (unat (e_value e)) @ '') ''
        else ''('' @ [CHR 0x22] @ print_grammar_char (e_value e) @ [CHR 0x22] @ '') '')) rule) @ [CHR 0x0A]"

definition print_elem ::
    "(32 word \<rightharpoonup> string) \<Rightarrow> grammar_rule \<Rightarrow> nat \<Rightarrow> string res" where
  "print_elem names rule i =
     (let e = rule ! i;
          has_char = (0 < i \<and> is_char_element (rule ! (i - 1))) in
      rbind (case e_type e of
          Gre_end \<Rightarrow> Inl (Runtime_error ''unexpected end of rule: '')
        | Gre_alt \<Rightarrow> Inr ''| ''
        | Gre_rule_ref \<Rightarrow> (case names (e_value e) of
              None \<Rightarrow> Inl (Out_of_range ''map::at'')
            | Some n \<Rightarrow> Inr (n @ '' ''))
        | Gre_char \<Rightarrow> Inr (''['' @ print_grammar_char (e_value e))
        | Gre_char_not \<Rightarrow> Inr (''[^'' @ print_grammar_char (e_value e))
        | Gre_char_rng_upper \<Rightarrow>
            (if has_char then Inr (''-'' @ print_grammar_char (e_value e))
             else Inl (Runtime_error ''LLAMA_GRETYPE_CHAR_RNG_UPPER without preceding char: ''))
        | Gre_char_alt \<Rightarrow>
            (if has_char then Inr (print_grammar_char (e_value e))
             else Inl (Runtime_error ''LLAMA_GRETYPE_CHAR_ALT without preceding char: ''))
        | Gre_char_any \<Rightarrow> Inr ''.'') (\<lambda>out.
      Inr (if is_char_element e \<and>
              e_type (rule ! (i + 1)) \<notin> set [Gre_char_alt, Gre_char_rng_upper, Gre_char_any]
           then out @ ''] '' else out)))"

definition print_rule :: "(32 word \<rightharpoonup> string) \<Rightarrow> 32 word \<Rightarrow> grammar_rule \<Rightarrow> string res" where
  "print_rule names i rule =
     (if rule = [] \<or> e_type (last rule) \<noteq> Gre_end
      then Inl (Runtime_error ''malformed rule, does not end with LLAMA_GRETYPE_END: '')
      else case names i of
          None \<Rightarrow> Inl (Out_of_range ''map::at'')
        | Some n \<Rightarrow>
            rbind (rfold (\<lambda>j out. rbind (print_elem names rule j) (\<lambda>x. Inr (out @ x)))
                [0..<length rule - 1] (n @ '' ::= '')) (\<lambda>out. Inr (out @ [CHR 0x0A])))"

text \<open>\<open>print\<close>: an exception is reported on the error stream; what was printed before it is not kept.\<close>

definition symbol_id_names :: "llama_grammar_parser \<Rightarrow> 32 word \<rightharpoonup> string" where
  "symbol_id_names st = fold (\<lambda>(k, v) m. m(v \<mapsto> k)) (symbol_ids st) Map.empty"

definition llama_grammar_print :: "llama_grammar_parser \<Rightarrow> string res" where
  "llama_grammar_print st =
     rfold (\<lambda>i out. rbind (print_rule (symbol_id_names st) (of_nat i) (p_rules st ! i)) (\<lambda>x. Inr (out @ x)))
       [0..<length (p_rules st)] []"

end
