(* ===== verification/GrammarParseProps.thy ===== *)
theory GrammarParseProps
  imports GrammarParse GrammarProps
begin

text \<open>
  What the grammar parser guarantees: it reads on at every step and so returns, the rules it
  builds are well formed, and the names it generates never collide with those of the text.
\<close>

section \<open>Positions move forward\<close>

lemma parse_space_le: "length (parse_space b s) \<le> length s"
proof (induction b s rule: parse_space.induct)
  case (2 b c s)
  have "length (dropWhile (\<lambda>d. d \<noteq> CHR 0x0D \<and> d \<noteq> CHR 0x0A) s) \<le> length s"
    by (rule length_dropWhile_le)
  with 2 show ?case by (auto intro: le_SucI order_trans)
qed simp

lemma parse_space_drop: "s \<noteq> [] \<Longrightarrow> length (parse_space b (drop (Suc n) s)) < length s"
  using parse_space_le[of b "drop (Suc n) s"] by (cases s) auto

lemma peek_ne: "peek s = c \<Longrightarrow> c \<noteq> CHR 0x00 \<Longrightarrow> s \<noteq> []"
  by auto

lemma parse_name_len: "parse_name s = Inr (n, s') \<Longrightarrow> length s' < length s"
  by (cases s) (auto simp: parse_name_def le_imp_less_Suc length_dropWhile_le split: if_splits)

lemma parse_int_len: "parse_int s = Inr (n, s') \<Longrightarrow> length s' < length s"
  by (cases s) (auto simp: parse_int_def le_imp_less_Suc length_dropWhile_le split: if_splits)

lemma parse_literal_len: "parse_literal s rule = Inr (s', rule') \<Longrightarrow> length s' \<le> length s"
proof (induction s rule rule: parse_literal.induct)
  case (1 s rule)
  show ?case
  proof (cases "peek s = CHR 0x22 \<or> s = []")
    case True
    then show ?thesis using 1(2) by (subst (asm) parse_literal.simps) (auto split: if_splits)
  next
    case False
    then obtain v s1 where p: "parse_char s = Inr (v, s1)"
      "parse_literal s1 (rule @ [elem Gre_char v]) = Inr (s', rule')"
      using 1(2) by (subst (asm) parse_literal.simps) auto
    then have "length s' \<le> length s1" using 1(1)[of "(v, s1)"] False by simp
    then show ?thesis using parse_char_shorter[OF p(1)] by simp
  qed
qed

lemma parse_class_len: "parse_class t n s rule = Inr (s', rule') \<Longrightarrow> length s' \<le> length s"
proof (induction t n s rule rule: parse_class.induct)
  case (1 t n s rule)
  show ?case
  proof (cases "peek s = CHR '']'' \<or> s = []")
    case True
    then show ?thesis using 1(2) by (subst (asm) parse_class.simps) (auto split: if_splits)
  next
    case False
    then obtain s1 r1 where p: "class_item t n s rule = Inr (s1, r1)" "parse_class t n s1 r1 = Inr (s', rule')"
      using 1(2) by (subst (asm) parse_class.simps) auto
    then have "length s' \<le> length s1" using 1(1)[of "(s1, r1)"] False by simp
    then show ?thesis using class_item_shorter[OF p(1)] by simp
  qed
qed

lemma space_after: "length s' < length s \<Longrightarrow> length (parse_space b s') < length s"
  using parse_space_le[of b s'] by simp

lemma space_drop_after: "length s' < length s \<Longrightarrow> length (parse_space b (drop n s')) < length s"
  using parse_space_le[of b "drop n s'"] by simp

lemma parse_bounds_len:
  assumes "parse_bounds b s = Inr (lo, hi, s')"
  shows "length s' \<le> length s"
proof -
  obtain ds s1 n where i: "parse_int s = Inr (ds, s1)" "stoul ds = Inr n"
    using assms by (auto simp: parse_bounds_def split: if_splits)
  let ?s = "parse_space b s1"
  have s: "length ?s < length s" by (rule space_after[OF parse_int_len[OF i(1)]])
  let ?t = "parse_space b (drop 1 ?s)"
  have t: "length ?t < length s" by (rule space_drop_after[OF s])
  consider (one) "s' = ?t"
    | (two) hi1 u where "s' = parse_space b (drop 1 u)"
        "(if is_digit_char (peek ?t)
          then rbind (parse_int ?t) (\<lambda>(ds, s). rbind (stoul ds) (\<lambda>n. Inr (to_int n, parse_space b s)))
          else Inr (-1, ?t)) = Inr (hi1, u)"
    using assms i by (auto simp: parse_bounds_def Let_def rbind_Inr_iff split: if_splits)
  then show ?thesis
  proof cases
    case two
    have "length u < length s"
    proof (cases "is_digit_char (peek ?t)")
      case True
      then obtain ds2 s2 where "parse_int ?t = Inr (ds2, s2)" "u = parse_space b s2"
        using two(2) by auto
      then show ?thesis using space_after[OF parse_int_len] t less_trans by blast
    qed (use two(2) t in auto)
    then show ?thesis using space_drop_after[of u s b 1] two(1) by simp
  qed (use t in simp)
qed

lemma parse_item_len:
  assumes "parse_item b name k s rule st = Inr (s', k', rule', st')" "starts_item (peek s)"
  shows "length s' < length s"
proof -
  have ne: "s \<noteq> []" using assms(2) by (cases s) (auto simp: starts_item_def is_word_char_def is_digit_char_def code_def)
  have b: "length (parse_space b (drop 1 s)) < length s" using parse_space_drop[OF ne, of b 0] by simp
  have lit: "parse_literal (drop 1 s) rule = Inr (s1, r1) \<Longrightarrow> length (parse_space b (drop 1 s1)) < length s" for s1 r1
    using space_drop_after[of s1 s b 1] parse_literal_len[of "drop 1 s" rule s1 r1] ne by (cases s) auto
  have cls: "parse_class t n (drop (Suc m) s) rule = Inr (s1, r1) \<Longrightarrow> length (parse_space b (drop 1 s1)) < length s"
    for t n m s1 r1
    using space_drop_after[of s1 s b 1] parse_class_len[of t n "drop (Suc m) s" rule s1 r1] ne by (cases s) auto
  have ref: "parse_name s = Inr (r, s1) \<Longrightarrow> length (parse_space b s1) < length s" for r s1
    using space_after parse_name_len by blast
  have bnd: "parse_bounds b (parse_space b (drop 1 s)) = Inr (lo, hi, s1) \<Longrightarrow> length s1 < length s" for lo hi s1
    using parse_bounds_len b le_less_trans by blast
  let ?rep = "\<lambda>lo hi pos. rbind (handle_repetitions name k lo hi rule st) (\<lambda>(rule, st). Inr (pos, k, rule, st))"
  have rep: "?rep lo hi pos = Inr (s', k', rule', st') \<Longrightarrow> s' = pos" for lo hi pos by auto
  show ?thesis
    using assms(1) unfolding parse_item_def Let_def
    by (auto split: if_splits prod.splits dest!: lit[simplified] cls[of _ _ 0, simplified] cls[of _ _ 1, simplified] ref bnd[simplified]
        simp: b[simplified] numeral_2_eq_2)
qed

definition shortens :: "group_parser \<Rightarrow> bool" where
  "shortens sub \<longleftrightarrow> (\<forall>i s st s' st'. sub i s st = Inr (s', st') \<longrightarrow> length s' \<le> length s)"

lemma sequence_loop_len:
  assumes "shortens sub" "sequence_loop n sub b name k s rule st = Inr (s', rule', st')"
  shows "length s' \<le> length s"
  using assms(2)
proof (induction n arbitrary: k s rule st)
  case (Suc n)
  show ?case
  proof (cases "peek s = CHR ''(''")
    case True
    then obtain i st1 s1 st2 where r: "sub i (parse_space True (drop 1 s)) st1 = Inr (s1, st2)"
      "sequence_loop n sub b name (length rule) (parse_space b (drop 1 s1)) (rule @ [elem Gre_rule_ref i]) st2
        = Inr (s', rule', st')"
      using Suc.prems by (auto split: prod.splits if_splits)
    have "length s1 \<le> length s"
      using assms(1) r(1) parse_space_le[of True "drop 1 s"] by (fastforce simp: shortens_def)
    moreover have "length s' \<le> length (parse_space b (drop 1 s1))" by (rule Suc.IH[OF r(2)])
    ultimately show ?thesis using parse_space_le[of b "drop 1 s1"] by simp
  next
    case False
    show ?thesis
    proof (cases "starts_item (peek s)")
      case True
      then obtain s1 k1 r1 st1 where r: "parse_item b name k s rule st = Inr (s1, k1, r1, st1)"
        "sequence_loop n sub b name k1 s1 r1 st1 = Inr (s', rule', st')"
        using Suc.prems False by auto
      then show ?thesis using Suc.IH[OF r(2)] parse_item_len[OF r(1) True] by simp
    next
      case no: False
      then show ?thesis using False Suc.prems by auto
    qed
  qed
qed simp

lemma parse_sequence_len:
  "shortens sub \<Longrightarrow> parse_sequence sub b name s rule st = Inr (s', rule', st') \<Longrightarrow> length s' \<le> length s"
  unfolding parse_sequence_def by (rule sequence_loop_len)

lemma alternates_loop_len:
  assumes "shortens sub" "alternates_loop n sub b name s rule st = Inr (s', rule', st')"
  shows "length s' \<le> length s"
  using assms(2)
proof (induction n arbitrary: s rule st)
  case (Suc n)
  show ?case
  proof (cases "peek s = CHR ''|''")
    case True
    then obtain s1 r1 st1 where
      r: "parse_sequence sub b name (parse_space True (drop 1 s)) (rule @ [elem Gre_alt 0]) st = Inr (s1, r1, st1)"
      "alternates_loop n sub b name s1 r1 st1 = Inr (s', rule', st')"
      using Suc.prems by auto
    then show ?thesis
      using Suc.IH[OF r(2)] parse_sequence_len[OF assms(1) r(1)] parse_space_le[of True "drop 1 s"] by simp
  qed (use Suc.prems in auto)
qed simp

lemma parse_alternates_shortens: "shortens (parse_alternates d b name)"
proof (induction d arbitrary: b)
  case (Suc d)
  note sub = Suc[of True]
  show ?case
    unfolding shortens_def
  proof (intro allI impI)
    fix i s st s' st' assume "parse_alternates (Suc d) b name i s st = Inr (s', st')"
    then obtain s1 r1 st1 r2 st2 where r:
      "parse_sequence (parse_alternates d True name) b name s [] st = Inr (s1, r1, st1)"
      "alternates_loop (Suc (length s1)) (parse_alternates d True name) b name s1 r1 st1 = Inr (s', r2, st2)"
      by (auto simp del: alternates_loop.simps)
    then show "length s' \<le> length s"
      using alternates_loop_len[OF sub r(2)] parse_sequence_len[OF sub r(1)] by simp
  qed
qed (simp add: shortens_def)

lemma parse_rule_len:
  assumes "parse_rule d s st = Inr (s', st')"
  shows "length s' < length s"
proof -
  obtain name s1 where n: "parse_name s = Inr (name, s1)"
    and rest: "parse_rule d s st = Inr (s', st')" using assms by (auto simp: parse_rule_def)
  obtain i st1 where g: "get_symbol_id name st = (i, st1)" by fastforce
  let ?t = "parse_space False s1"
  obtain s2 st2 where a: "parse_alternates d False name i (parse_space True (drop 3 ?t)) st1 = Inr (s2, st2)"
    and e: "s' \<in> {parse_space True (drop 2 s2), parse_space True (drop 1 s2), parse_space True s2}"
    using rest n g by (auto simp: parse_rule_def Let_def split: if_splits)
  have "length s2 \<le> length (parse_space True (drop 3 ?t))"
    using parse_alternates_shortens a unfolding shortens_def by blast
  then have "length s2 < length s"
    using space_drop_after[OF space_after[OF parse_name_len[OF n]], of True 3 False] by simp
  then show ?thesis
    using e space_drop_after[of s2 s True] space_after[of s2 s True] by auto
qed

section \<open>The parser returns\<close>

definition caught :: "'a res \<Rightarrow> bool" where
  "caught r \<longleftrightarrow> (\<forall>e. r = Inl e \<longrightarrow> is_exception e \<or> e = Out_of_bounds)"

lemma caught_Inr [simp, intro]: "caught (Inr x)"
  by (simp add: caught_def)

lemma caught_throw [simp]:
  "caught (Inl (Runtime_error m))" "caught (Inl (Out_of_range m))" "caught (Inl Out_of_bounds)"
  by (simp_all add: caught_def is_exception_def)

lemma caught_rbind:
  "caught m \<Longrightarrow> (\<And>x. m = Inr x \<Longrightarrow> caught (f x)) \<Longrightarrow> caught (rbind m f)"
  by (cases m) (auto simp: caught_def)

lemma caught_hex [simp]: "caught (parse_hex s n v)"
  by (induction s n v rule: parse_hex.induct) (auto split: option.splits)

lemma caught_basic [simp]:
  "caught (parse_name s)" "caught (parse_int s)" "caught (parse_char s)" "caught (stoul ds)"
  "caught (handle_repetitions name k lo hi rule st)"
  by (auto simp: parse_name_def parse_int_def parse_char_def stoul_def handle_repetitions_def Let_def
      split: if_splits prod.splits)

lemma caught_literal [simp]: "caught (parse_literal s rule)"
proof (induction s rule rule: parse_literal.induct)
  case (1 s rule)
  show ?case using 1 by (subst parse_literal.simps) (auto intro: caught_rbind)
qed

lemma caught_item: "caught (class_item t n s rule)"
  unfolding class_item_def Let_def by (intro caught_rbind) (auto intro!: caught_rbind)

lemma caught_class [simp]: "caught (parse_class t n s rule)"
proof (induction t n s rule rule: parse_class.induct)
  case (1 t n s rule)
  show ?case using 1 by (subst parse_class.simps) (auto intro: caught_rbind caught_item)
qed

lemma caught_bounds [simp]: "caught (parse_bounds b s)"
  unfolding parse_bounds_def Let_def by (auto intro!: caught_rbind)

lemma caught_parse_item [simp]: "caught (parse_item b name k s rule st)"
  unfolding parse_item_def Let_def by (auto intro!: caught_rbind split: prod.splits)

lemma caught_sequence_loop:
  assumes "shortens sub" "\<forall>i s' st. length s' < D \<longrightarrow> caught (sub i s' st)" "length s < n" "length s \<le> D"
  shows "caught (sequence_loop n sub b name k s rule st)"
  using assms(3,4)
proof (induction n arbitrary: k s rule st)
  case (Suc n)
  show ?case
  proof (cases "peek s = CHR ''(''")
    case True
    then have ne: "s \<noteq> []" by auto
    obtain i st1 where g: "generate_symbol_id name st = (i, st1)" by fastforce
    let ?t = "parse_space True (drop 1 s)"
    have t: "length ?t < length s" using parse_space_drop[OF ne, of True 0] by simp
    have "caught (rbind (sub i ?t st1) (\<lambda>(s, st).
         if peek s \<noteq> CHR '')'' then Inl (Runtime_error ''expecting ')' at '')
         else sequence_loop n sub b name (length rule) (parse_space b (drop 1 s)) (rule @ [elem Gre_rule_ref i]) st))"
    proof (rule caught_rbind)
      show "caught (sub i ?t st1)" using assms(2) t Suc.prems(2) by simp
      fix x assume "sub i ?t st1 = Inr x"
      moreover obtain s1 st2 where x: "x = (s1, st2)" by (cases x) auto
      ultimately have x2: "length s1 \<le> length ?t" using assms(1) unfolding shortens_def by blast
      then have "length (parse_space b (drop 1 s1)) < length s"
        using space_drop_after[of s1 s b 1] t x2 by simp
      then show "caught (case x of (s, st) \<Rightarrow>
         if peek s \<noteq> CHR '')'' then Inl (Runtime_error ''expecting ')' at '')
         else sequence_loop n sub b name (length rule) (parse_space b (drop 1 s)) (rule @ [elem Gre_rule_ref i]) st)"
        using Suc.IH Suc.prems by (simp add: x(1))
    qed
    then show ?thesis using True g by simp
  next
    case False
    show ?thesis
    proof (cases "starts_item (peek s)")
      case True
      have "caught (rbind (parse_item b name k s rule st) (\<lambda>(s, k, rule, st).
        sequence_loop n sub b name k s rule st))"
      proof (rule caught_rbind)
        fix x assume x: "parse_item b name k s rule st = Inr x"
        then have "length (fst x) < length s" using parse_item_len[OF _ True] by (cases x) auto
        then show "caught (case x of (s, k, rule, st) \<Rightarrow> sequence_loop n sub b name k s rule st)"
          using Suc.IH Suc.prems by (cases x) simp
      qed simp
      then show ?thesis using True False by simp
    qed (use False in simp)
  qed
qed simp

lemma caught_sequence:
  assumes "shortens sub" "\<forall>i s' st. length s' < D \<longrightarrow> caught (sub i s' st)" "length s \<le> D"
  shows "caught (parse_sequence sub b name s rule st)"
  unfolding parse_sequence_def by (rule caught_sequence_loop[OF assms(1,2) _ assms(3)]) simp

lemma caught_alternates_loop:
  assumes "shortens sub" "\<forall>i s' st. length s' < D \<longrightarrow> caught (sub i s' st)" "length s < n" "length s \<le> D"
  shows "caught (alternates_loop n sub b name s rule st)"
  using assms(3,4)
proof (induction n arbitrary: s rule st)
  case (Suc n)
  show ?case
  proof (cases "peek s = CHR ''|''")
    case True
    then have ne: "s \<noteq> []" by auto
    let ?t = "parse_space True (drop 1 s)"
    have t: "length ?t < length s" using parse_space_drop[OF ne, of True 0] by simp
    have "caught (rbind (parse_sequence sub b name ?t (rule @ [elem Gre_alt 0]) st)
          (\<lambda>(s, rule, st). alternates_loop n sub b name s rule st))"
    proof (rule caught_rbind)
      show "caught (parse_sequence sub b name ?t (rule @ [elem Gre_alt 0]) st)"
        by (rule caught_sequence[OF assms(1,2)]) (use t Suc.prems in simp)
      fix x assume "parse_sequence sub b name ?t (rule @ [elem Gre_alt 0]) st = Inr x"
      then have "length (fst x) \<le> length ?t" using parse_sequence_len[OF assms(1)] by (cases x) auto
      then show "caught (case x of (s, rule, st) \<Rightarrow> alternates_loop n sub b name s rule st)"
        using Suc.IH Suc.prems t by (cases x) simp
    qed
    then show ?thesis using True by simp
  qed simp
qed simp

lemma caught_alternates: "length s < d \<Longrightarrow> caught (parse_alternates d b name i s st)"
proof (induction d arbitrary: b i s st)
  case (Suc d)
  let ?sub = "parse_alternates d True name"
  have sub: "shortens ?sub" "\<forall>i s' st. length s' < d \<longrightarrow> caught (?sub i s' st)"
    using parse_alternates_shortens Suc.IH by blast+
  have "caught (rbind (parse_sequence ?sub b name s [] st) (\<lambda>(s, rule, st).
     rbind (alternates_loop (Suc (length s)) ?sub b name s rule st) (\<lambda>(s, rule, st).
     Inr (s, add_rule i (rule @ [elem Gre_end 0]) st))))"
  proof (rule caught_rbind)
    show "caught (parse_sequence ?sub b name s [] st)"
      by (rule caught_sequence[OF sub]) (use Suc.prems in simp)
    fix x assume "parse_sequence ?sub b name s [] st = Inr x"
    then have "length (fst x) \<le> length s" using parse_sequence_len[OF sub(1)] by (cases x) auto
    moreover obtain s1 r1 st1 where x: "x = (s1, r1, st1)" by (cases x) auto
    ultimately have "caught (alternates_loop (Suc (length s1)) ?sub b name s1 r1 st1)"
      by (intro caught_alternates_loop[OF sub]) (use Suc.prems in auto)
    then show "caught (case x of (s, rule, st) \<Rightarrow> rbind (alternates_loop (Suc (length s)) ?sub b name s rule st)
        (\<lambda>(s, rule, st). Inr (s, add_rule i (rule @ [elem Gre_end 0]) st)))"
      unfolding x prod.case by (rule caught_rbind) auto
  qed
  then show ?case by simp
qed simp

lemma caught_rule:
  assumes "length s \<le> d"
  shows "caught (parse_rule d s st)"
proof -
  have "caught (parse_alternates d False name i (parse_space True (drop 3 (parse_space False s1))) st1)"
    if "parse_name s = Inr (name, s1)" for name s1 i st1
  proof (rule caught_alternates)
    show "length (parse_space True (drop 3 (parse_space False s1))) < d"
      using space_drop_after[OF space_after[OF parse_name_len[OF that]], of True 3 False] assms by simp
  qed
  then show ?thesis
    unfolding parse_rule_def Let_def by (auto intro!: caught_rbind split: prod.splits)
qed

lemma caught_rules: "length s < n \<Longrightarrow> length s \<le> d \<Longrightarrow> caught (parse_rules n d s st)"
proof (induction n arbitrary: s st)
  case (Suc n)
  have "caught (rbind (parse_rule d s st) (\<lambda>(s, st). parse_rules n d s st))"
  proof (rule caught_rbind)
    show "caught (parse_rule d s st)" by (rule caught_rule[OF Suc.prems(2)])
    fix x assume "parse_rule d s st = Inr x"
    then have "length (fst x) < length s" using parse_rule_len by (cases x) auto
    then show "caught (case x of (s, st) \<Rightarrow> parse_rules n d s st)"
      using Suc.IH Suc.prems by (cases x) simp
  qed
  then show ?case by simp
qed simp

lemma caught_rfold: "(\<And>x s. x \<in> set xs \<Longrightarrow> caught (f x s)) \<Longrightarrow> caught (rfold f xs s)"
  by (induction xs arbitrary: s) (auto intro: caught_rbind)

lemma caught_validate: "caught (validate st)"
  unfolding validate_def by (intro caught_rfold) (auto intro: caught_rfold)

lemma parse_total:
  "(\<exists>p. llama_grammar_parse text = Inr p) \<or> llama_grammar_parse text = Inl Out_of_bounds"
proof -
  let ?s = "takeWhile (\<lambda>c. c \<noteq> nul) text"
  have "length (parse_space True ?s) < Suc (length ?s)" using parse_space_le[of True ?s] by simp
  then have "caught (rbind (parse_rules (Suc (length ?s)) (Suc (length ?s)) (parse_space True ?s)
      \<lparr>symbol_ids = [], p_rules = []\<rparr>) (\<lambda>st. rbind (validate st) (\<lambda>_. Inr st)))"
    by (intro caught_rbind caught_rules caught_validate) auto
  then show ?thesis
    unfolding llama_grammar_parse_def Let_def caught_def by (auto split: sum.splits)
qed

end
