(* ===== verification/GrammarParseOk.thy ===== *)
theory GrammarParseOk
  imports GrammarParseProps
begin

text \<open>
  The rules and symbols the parser builds: the invariant of its state, kept by every
  operation, and what it gives once the text has been read and validated.
\<close>

section \<open>Names\<close>

lemma dec_value: "foldl (\<lambda>n d. 10 * n + (code d - 48)) 0 (dec_of_nat n) = n"
proof (induction n rule: dec_of_nat.induct)
  case (1 n)
  show ?case
  proof (cases "n < 10")
    case True
    then have "dec_of_nat n = [char_of (48 + n)]" by (subst dec_of_nat.simps) (rule if_P)
    then show ?thesis using True by (simp add: code_def)
  next
    case False
    then have d: "dec_of_nat n = dec_of_nat (n div 10) @ [char_of (48 + n mod 10)]"
      by (subst dec_of_nat.simps) (rule if_not_P)
    have "code (char_of (48 + n mod 10)) = 48 + n mod 10" by (simp add: code_def)
    then show ?thesis using 1[OF False] by (simp add: d)
  qed
qed

lemma dec_inj: "dec_of_nat m = dec_of_nat n \<Longrightarrow> m = n"
  using dec_value[of m] dec_value[of n] by metis

definition word_name :: "string \<Rightarrow> bool" where
  "word_name n \<longleftrightarrow> (\<forall>c \<in> set n. is_word_char c)"

definition generated_name :: "string \<Rightarrow> 32 word \<Rightarrow> string" where
  "generated_name base i = base @ ''_'' @ dec_of_nat (unat i)"

lemma underscore_no_word: "\<not> is_word_char CHR ''_''"
  by (simp add: is_word_char_def is_digit_char_def code_def)

lemma generated_inj:
  assumes "word_name a" "word_name b" "generated_name a i = generated_name b j"
  shows "i = j"
proof -
  have a: "dropWhile (\<lambda>c. c \<noteq> CHR ''_'') (generated_name n k) = CHR ''_'' # dec_of_nat (unat k)"
    if "word_name n" for n k
  proof -
    have "\<forall>c \<in> set n. c \<noteq> CHR ''_''" using that underscore_no_word by (auto simp: word_name_def)
    then have "dropWhile (\<lambda>c. c \<noteq> CHR ''_'') (n @ ''_'' @ dec_of_nat (unat k)) =
        dropWhile (\<lambda>c. c \<noteq> CHR ''_'') (''_'' @ dec_of_nat (unat k))"
      by (intro dropWhile_append2) auto
    then show ?thesis by (simp add: generated_name_def)
  qed
  have "CHR ''_'' # dec_of_nat (unat i) = CHR ''_'' # dec_of_nat (unat j)"
    by (rule trans[OF a[OF assms(1), symmetric]
        trans[OF arg_cong[OF assms(3), of "dropWhile (\<lambda>c. c \<noteq> CHR ''_'')"] a[OF assms(2)]]])
  then have "dec_of_nat (unat i) = dec_of_nat (unat j)" by (rule list.inject[THEN iffD1, THEN conjunct2])
  then have "unat i = unat j" by (rule dec_inj)
  then show ?thesis by (rule unsigned_word_eqI)
qed

lemma generated_no_word: "\<not> word_name (generated_name base i)"
  using underscore_no_word by (simp add: word_name_def generated_name_def)

text \<open>
  The symbol table: no name twice, the ids counting up from 0, every name either one of the
  text or generated for its own id.
\<close>

definition ids_ok :: "(string \<times> 32 word) list \<Rightarrow> bool" where
  "ids_ok ids \<longleftrightarrow> distinct (map fst ids) \<and> map snd ids = map of_nat [0..<length ids] \<and>
     (\<forall>(k, v) \<in> set ids. word_name k \<or> (\<exists>base. word_name base \<and> k = generated_name base v))"

definition id_values :: "llama_grammar_parser \<Rightarrow> 32 word set" where
  "id_values st = snd ` set (symbol_ids st)"

lemma ids_ok_snoc:
  assumes "ids_ok ids" "k \<notin> fst ` set ids" "word_name k \<or> (\<exists>base. word_name base \<and> k = generated_name base (of_nat (length ids)))"
  shows "ids_ok (ids @ [(k, of_nat (length ids))])"
  using assms by (auto simp: ids_ok_def)

lemma ids_ok_entry:
  assumes "ids_ok ids" "(k, v) \<in> set ids"
  shows "\<exists>n < length ids. v = of_nat n" "word_name k \<or> (\<exists>base. word_name base \<and> k = generated_name base v)"
proof -
  have "v \<in> set (map snd ids)" using assms(2) by force
  then have "v \<in> set (map of_nat [0..<length ids])" using assms(1) unfolding ids_ok_def by metis
  then show "\<exists>n < length ids. v = of_nat n" by auto
  show "word_name k \<or> (\<exists>base. word_name base \<and> k = generated_name base v)"
    using assms unfolding ids_ok_def by blast
qed

lemma ids_put_keeps:
  assumes "ids_ok ids" "word_name base" "generated_name base i \<in> fst ` set ids"
  shows "ids_put (generated_name base i) i ids = ids"
proof -
  have "(k', if k' = generated_name base i then i else v') = (k', v')" if "(k', v') \<in> set ids" for k' v'
  proof (cases "k' = generated_name base i")
    case True
    then obtain b where "word_name b" "k' = generated_name b v'"
      using ids_ok_entry(2)[OF assms(1) \<open>(k', v') \<in> set ids\<close>] generated_no_word[of base i] by metis
    then show ?thesis using True generated_inj[OF assms(2)] by metis
  qed simp
  then have "map (\<lambda>(k', v'). (k', if k' = generated_name base i then i else v')) ids = map id ids"
    by (intro map_cong) auto
  then show ?thesis using assms(3) by (simp add: ids_put_def)
qed

lemma generate_spec:
  assumes "ids_ok (symbol_ids st)" "word_name base" "generate_symbol_id base st = (i, st')"
  shows "ids_ok (symbol_ids st')" "id_values st \<subseteq> id_values st'" "p_rules st' = p_rules st"
    "length (symbol_ids st) \<le> length (symbol_ids st')"
    and "i \<in> id_values st'" "unat i < length (symbol_ids st')"
proof -
  let ?ids = "symbol_ids st" and ?k = "generated_name base (next_id st)"
  have e: "i = next_id st" "st' = st\<lparr>symbol_ids := ids_put ?k (next_id st) ?ids\<rparr>"
    using assms(3) by (auto simp: generate_symbol_id_def generated_name_def Let_def)
  have un: "unat (of_nat n :: 32 word) \<le> n" for n by (simp add: unat_of_nat)
  show "p_rules st' = p_rules st" using e by simp
  have "ids_ok (symbol_ids st') \<and> id_values st \<subseteq> id_values st' \<and> length ?ids \<le> length (symbol_ids st') \<and>
    i \<in> id_values st' \<and> unat i < length (symbol_ids st')"
  proof (cases "?k \<in> fst ` set ?ids")
    case True
    then have st: "symbol_ids st' = ?ids" using ids_put_keeps[OF assms(1,2)] e by simp
    obtain v where v: "(?k, v) \<in> set ?ids" using True by auto
    then obtain b where "word_name b" "?k = generated_name b v"
      using ids_ok_entry(2)[OF assms(1) v] generated_no_word[of base "next_id st"] by metis
    then have "v = i" using generated_inj[OF assms(2)] e(1) by metis
    then have iv: "i \<in> id_values st'" using v st by (force simp: id_values_def)
    obtain n where "n < length ?ids" "i = of_nat n"
      using ids_ok_entry(1)[OF assms(1) v] \<open>v = i\<close> by blast
    then show ?thesis using assms(1) st iv un[of n] by (simp add: id_values_def)
  next
    case False
    then have st: "symbol_ids st' = ?ids @ [(?k, next_id st)]" using e by (simp add: ids_put_def)
    have "ids_ok (?ids @ [(?k, of_nat (length ?ids))])"
      by (rule ids_ok_snoc[OF assms(1) False]) (use assms(2) in \<open>auto simp: next_id_def\<close>)
    moreover have "unat i < length (symbol_ids st')"
      using un[of "length ?ids"] st e(1) by (simp add: next_id_def)
    ultimately show ?thesis using st e(1) by (auto simp: id_values_def next_id_def)
  qed
  then show "ids_ok (symbol_ids st')" "id_values st \<subseteq> id_values st'"
    "length (symbol_ids st) \<le> length (symbol_ids st')" "i \<in> id_values st'" "unat i < length (symbol_ids st')"
    by simp_all
qed

lemma get_symbol_spec:
  assumes "ids_ok (symbol_ids st)" "word_name name" "get_symbol_id name st = (i, st')"
  shows "ids_ok (symbol_ids st')" "id_values st \<subseteq> id_values st'" "p_rules st' = p_rules st"
    "length (symbol_ids st) \<le> length (symbol_ids st')"
    and "i \<in> id_values st'" "unat i < length (symbol_ids st')" "map_of (symbol_ids st') name = Some i"
proof -
  let ?ids = "symbol_ids st"
  have un: "unat (of_nat n :: 32 word) \<le> n" for n by (simp add: unat_of_nat)
  have "p_rules st' = p_rules st \<and> ids_ok (symbol_ids st') \<and> id_values st \<subseteq> id_values st' \<and>
    length ?ids \<le> length (symbol_ids st') \<and> i \<in> id_values st' \<and> unat i < length (symbol_ids st') \<and>
    map_of (symbol_ids st') name = Some i"
  proof (cases "map_of ?ids name")
    case (Some j)
    then have e: "i = j" "st' = st" using assms(3) by (simp_all add: get_symbol_id_def)
    have v: "(name, j) \<in> set ?ids" using Some by (rule map_of_SomeD)
    then have iv: "i \<in> id_values st" using e(1) by (force simp: id_values_def)
    obtain n where "n < length ?ids" "i = of_nat n" using ids_ok_entry(1)[OF assms(1) v] e(1) by blast
    then show ?thesis using Some assms(1) e iv un[of n] by simp
  next
    case None
    then have new: "name \<notin> fst ` set ?ids" by (simp add: map_of_eq_None_iff)
    have e: "i = of_nat (length ?ids)" "st' = st\<lparr>symbol_ids := ?ids @ [(name, of_nat (length ?ids))]\<rparr>"
      using None assms(3) by (auto simp: get_symbol_id_def next_id_def)
    have "map_of (?ids @ [(name, of_nat (length ?ids) :: 32 word)]) name = Some i"
      using None e(1) by (simp add: map_add_def)
    then show ?thesis
      using ids_ok_snoc[OF assms(1) new] assms(2) e un[of "length ?ids"] by (auto simp: id_values_def le_imp_less_Suc)
  qed
  then show "ids_ok (symbol_ids st')" "id_values st \<subseteq> id_values st'" "p_rules st' = p_rules st"
    "length (symbol_ids st) \<le> length (symbol_ids st')"
    "i \<in> id_values st'" "unat i < length (symbol_ids st')" "map_of (symbol_ids st') name = Some i"
    by simp_all
qed

section \<open>Shapes\<close>

definition tail_type :: "llama_gretype \<Rightarrow> bool" where
  "tail_type t \<longleftrightarrow> t = Gre_char_rng_upper \<or> t = Gre_char_alt"

definition fresh :: "grammar_rule \<Rightarrow> bool" where
  "fresh es \<longleftrightarrow> es = [] \<or> \<not> tail_type (e_type (hd es))"

definition end_type :: "llama_gretype \<Rightarrow> grammar_rule \<Rightarrow> llama_gretype" where
  "end_type t es = (if es = [] then t else e_type (last es))"

lemma shape_append: "char_shape t (xs @ ys) \<longleftrightarrow> char_shape t xs \<and> char_shape (end_type t xs) ys"
  by (induction xs arbitrary: t) (auto simp: end_type_def)

lemma shape_fresh: "fresh es \<Longrightarrow> char_shape t es = char_shape t' es"
  by (cases es) (auto simp: fresh_def tail_type_def)

lemma shape_fresh_append:
  "char_shape t xs \<Longrightarrow> fresh ys \<Longrightarrow> char_shape t' ys \<Longrightarrow> char_shape t (xs @ ys)"
  using shape_fresh[of ys "end_type t xs" t'] by (simp add: shape_append)

lemma shape_drop: "char_shape t es \<Longrightarrow> fresh (drop k es) \<Longrightarrow> char_shape t' (drop k es)"
  by (metis append_take_drop_id shape_append shape_fresh)

lemma shape_take: "char_shape t es \<Longrightarrow> char_shape t (take k es)"
  by (metis append_take_drop_id shape_append)

text \<open>A rule under construction: no end yet, well shaped, its references known.\<close>

definition elem_ok :: "32 word set \<Rightarrow> llama_grammar_element \<Rightarrow> bool" where
  "elem_ok V e \<longleftrightarrow> e_type e \<noteq> Gre_end \<and> (e_type e = Gre_rule_ref \<longrightarrow> e_value e \<in> V)"

definition body_ok :: "32 word set \<Rightarrow> grammar_rule \<Rightarrow> bool" where
  "body_ok V es \<longleftrightarrow> (\<forall>e \<in> set es. elem_ok V e) \<and> char_shape Gre_end es"

definition done_ok :: "32 word set \<Rightarrow> grammar_rule \<Rightarrow> bool" where
  "done_ok V es \<longleftrightarrow> es = [] \<or> (\<exists>body. es = body @ [elem Gre_end 0] \<and> body_ok V body)"

lemma body_ok_mono: "body_ok V es \<Longrightarrow> V \<subseteq> W \<Longrightarrow> body_ok W es"
  by (auto simp: body_ok_def elem_ok_def)

lemma done_ok_mono: "done_ok V es \<Longrightarrow> V \<subseteq> W \<Longrightarrow> done_ok W es"
  by (auto simp: done_ok_def intro: body_ok_mono)

lemma body_ok_Nil [simp]: "body_ok V []"
  by (simp add: body_ok_def)

lemma body_ok_append: "body_ok V xs \<Longrightarrow> body_ok V ys \<Longrightarrow> fresh ys \<Longrightarrow> body_ok V (xs @ ys)"
  using shape_fresh_append by (auto simp: body_ok_def)

lemma body_ok_snoc:
  assumes "body_ok V xs" "elem_ok V e" "\<not> tail_type (e_type e)"
  shows "body_ok V (xs @ [e])"
  by (rule body_ok_append[OF assms(1)])
    (use assms(2,3) in \<open>auto simp: body_ok_def fresh_def tail_type_def\<close>)

lemma body_ok_take: "body_ok V es \<Longrightarrow> body_ok V (take k es)"
  using shape_take by (auto simp: body_ok_def dest: in_set_takeD)

lemma body_ok_drop: "body_ok V es \<Longrightarrow> fresh (drop k es) \<Longrightarrow> body_ok V (drop k es)"
  using shape_drop by (auto simp: body_ok_def dest: in_set_dropD)

lemma body_ok_concat: "body_ok V xs \<Longrightarrow> fresh xs \<Longrightarrow> body_ok V (concat (replicate n xs)) \<and> fresh (concat (replicate n xs))"
proof (induction n)
  case (Suc n)
  then have "fresh (xs @ concat (replicate n xs))" by (cases xs) (auto simp: fresh_def)
  then show ?case using Suc body_ok_append by simp
qed (simp add: fresh_def)

section \<open>The state\<close>

definition parser_ok :: "llama_grammar_parser \<Rightarrow> bool" where
  "parser_ok st \<longleftrightarrow> ids_ok (symbol_ids st) \<and> length (p_rules st) \<le> length (symbol_ids st) \<and>
     (\<forall>es \<in> set (p_rules st). done_ok (id_values st) es)"

definition extends :: "llama_grammar_parser \<Rightarrow> llama_grammar_parser \<Rightarrow> bool" where
  "extends st st' \<longleftrightarrow> parser_ok st' \<and> id_values st \<subseteq> id_values st' \<and>
     length (symbol_ids st) \<le> length (symbol_ids st')"

lemma extends_refl [simp]: "parser_ok st \<Longrightarrow> extends st st"
  by (simp add: extends_def)

lemma extends_trans: "extends st st1 \<Longrightarrow> extends st1 st2 \<Longrightarrow> extends st st2"
  by (auto simp: extends_def)

lemma add_rule_ok:
  assumes "parser_ok st" "unat i < length (symbol_ids st)" "done_ok (id_values st) rule"
  shows "extends st (add_rule i rule st)"
proof -
  let ?rs = "if length (p_rules st) \<le> unat i then vec_resize (p_rules st) (unat i + 1) [] else p_rules st"
  have len: "length ?rs \<le> length (symbol_ids st)" using assms(1,2) by (simp add: parser_ok_def)
  have "\<forall>es \<in> set ?rs. done_ok (id_values st) es"
    using assms(1) by (auto simp: parser_ok_def vec_resize_def done_ok_def dest: in_set_takeD)
  then have "\<forall>es \<in> set (?rs[unat i := rule]). done_ok (id_values st) es"
    using assms(3) set_update_subset_insert by fastforce
  then show ?thesis using assms(1) len
    by (simp add: extends_def parser_ok_def add_rule_def Let_def id_values_def)
qed

lemma generate_ok:
  assumes "parser_ok st" "word_name base" "generate_symbol_id base st = (i, st')"
  shows "extends st st'" "i \<in> id_values st'" "unat i < length (symbol_ids st')"
proof -
  have ids: "ids_ok (symbol_ids st)" using assms(1) by (simp add: parser_ok_def)
  note g = generate_spec[OF ids assms(2,3)]
  show "extends st st'"
    using assms(1) g done_ok_mono by (fastforce simp: extends_def parser_ok_def)
qed (use generate_spec[OF _ assms(2,3)] assms(1) in \<open>simp_all add: parser_ok_def\<close>)

lemma get_symbol_ok:
  assumes "parser_ok st" "word_name base" "get_symbol_id base st = (i, st')"
  shows "extends st st'" "i \<in> id_values st'" "unat i < length (symbol_ids st')"
proof -
  have ids: "ids_ok (symbol_ids st)" using assms(1) by (simp add: parser_ok_def)
  note g = get_symbol_spec[OF ids assms(2,3)]
  show "extends st st'"
    using assms(1) g done_ok_mono by (fastforce simp: extends_def parser_ok_def)
qed (use get_symbol_spec[OF _ assms(2,3)] assms(1) in \<open>simp_all add: parser_ok_def\<close>)

lemma ref_ok: "i \<in> V \<Longrightarrow> elem_ok V (elem Gre_rule_ref i)" "elem_ok V (elem Gre_alt 0)" "elem_ok V (elem Gre_char v)"
  "elem_ok V (elem Gre_char_any v)" "elem_ok V (elem Gre_char_alt v)" "elem_ok V (elem Gre_char_rng_upper v)"
  "elem_ok V (elem Gre_char_not v)"
  by (simp_all add: elem_ok_def elem_def)

lemma elem_type [simp]: "e_type (elem t v) = t" "e_value (elem t v) = v"
  by (simp_all add: elem_def)

lemma fresh_snoc: "fresh (xs @ ys) \<longleftrightarrow> (if xs = [] then fresh ys else fresh xs)"
  by (auto simp: fresh_def)

section \<open>Repetitions\<close>

lemma rec_step_ok:
  assumes "parser_ok st" "word_name name" "body_ok (id_values st) prev"
    and "0 < i \<Longrightarrow> last_id \<in> id_values st"
    and "rec_step name prev m i (st, rec, last_id) = (st', rec', last')" "take (length prev) rec = prev"
  shows "extends st st'" "last' \<in> id_values st'" "take (length prev) rec' = prev"
proof -
  obtain j st1 where g: "generate_symbol_id name st = (j, st1)" by fastforce
  note gok = generate_ok[OF assms(1,2) g]
  let ?rec = "if 0 < i \<or> m < 0 then prev @ [elem Gre_rule_ref (if m < 0 then j else last_id)] else prev"
  let ?body = "?rec @ [elem Gre_alt 0]"
  have e: "st' = add_rule j (?body @ [elem Gre_end 0]) st1" "rec' = ?body @ [elem Gre_end 0]" "last' = j"
    using assms(5,6) g by (auto simp: rec_step_def Let_def)
  have sub: "id_values st \<subseteq> id_values st1" using gok(1) by (simp add: extends_def)
  have prev: "body_ok (id_values st1) prev" by (rule body_ok_mono[OF assms(3) sub])
  have "(if m < 0 then j else last_id) \<in> id_values st1" if "0 < i \<or> m < 0"
    using that assms(4) sub gok(2) by auto
  then have "body_ok (id_values st1) ?rec"
    using prev by (auto intro!: body_ok_snoc ref_ok simp: tail_type_def)
  then have "body_ok (id_values st1) ?body" by (intro body_ok_snoc ref_ok) (auto simp: tail_type_def)
  then have "extends st1 st'"
    unfolding e(1) using gok(1,3) by (intro add_rule_ok) (auto simp: extends_def done_ok_def)
  then show "extends st st'" "last' \<in> id_values st'"
    using extends_trans[OF gok(1)] gok(2) e(3) by (auto simp: extends_def)
  show "take (length prev) rec' = prev" using e(2) by auto
qed

lemma rec_steps_ok:
  assumes "parser_ok st" "word_name name" "body_ok (id_values st) prev" "take (length prev) rec = prev"
    and "0 < a \<Longrightarrow> last_id \<in> id_values st"
    and "fold (rec_step name prev m) [a..<b] (st, rec, last_id) = (st', rec', last')"
  shows "extends st st' \<and> (a < b \<longrightarrow> last' \<in> id_values st')"
  using assms
proof (induction "b - a" arbitrary: a st rec last_id)
  case (Suc n)
  then have ab: "[a..<b] = a # [Suc a..<b]" by (simp add: upt_conv_Cons)
  obtain st1 rec1 last1 where s: "rec_step name prev m a (st, rec, last_id) = (st1, rec1, last1)"
    by (metis prod_cases3)
  note ok = rec_step_ok[OF Suc.prems(1-3,5) s Suc.prems(4)]
  have rest: "fold (rec_step name prev m) [Suc a..<b] (st1, rec1, last1) = (st', rec', last')"
    using Suc.prems(6) ab s by simp
  have p: "parser_ok st1" "body_ok (id_values st1) prev"
    using ok(1) body_ok_mono[OF Suc.prems(3)] by (auto simp: extends_def)
  have "extends st1 st' \<and> (Suc a < b \<longrightarrow> last' \<in> id_values st')"
    by (rule Suc.hyps(1)[OF _ p(1) Suc.prems(2) p(2) ok(3) ok(2) rest]) (use Suc.hyps(2) in simp_all)
  moreover have "last' = last1" "st' = st1" if "\<not> Suc a < b" using rest that by simp_all
  ultimately show ?case using extends_trans[OF ok(1)] ok(2) by blast
qed simp

lemma handle_ok:
  assumes "parser_ok st" "word_name name" "body_ok (id_values st) rule" "fresh (drop k rule)" "k \<le> length rule"
    and "handle_repetitions name k lo hi rule st = Inr (rule', st')"
  shows "extends st st' \<and> body_ok (id_values st') rule' \<and> fresh (drop k rule') \<and> k \<le> length rule'"
proof -
  let ?prev = "drop k rule"
  let ?rule = "if lo = 0 then take k rule else rule @ concat (replicate (nat (lo - 1)) ?prev)"
  let ?n = "if hi < 0 then 1 else hi - lo"
  have k: "k \<noteq> length rule" using assms(6) by (auto simp: handle_repetitions_def)
  then have ne: "?prev \<noteq> []" using assms(5) by simp
  obtain st1 rec1 last1 where f: "fold (rec_step name ?prev hi) [0..<nat ?n] (st, ?prev, 0) = (st1, rec1, last1)"
    by (metis prod_cases3)
  have r: "rule' = (if 0 < ?n then ?rule @ [elem Gre_rule_ref last1] else ?rule)" "st' = st1"
    using assms(6) k f by (auto simp: handle_repetitions_def Let_def split: if_splits)
  have prev: "body_ok (id_values st) ?prev" by (rule body_ok_drop[OF assms(3,4)])
  have ok: "extends st st1 \<and> (0 < nat ?n \<longrightarrow> last1 \<in> id_values st1)"
    by (rule rec_steps_ok[OF assms(1,2) prev _ _ f]) simp_all
  then have sub: "id_values st \<subseteq> id_values st1" by (simp add: extends_def)
  have b: "body_ok (id_values st) ?rule"
    using body_ok_take[OF assms(3)] body_ok_append[OF assms(3)] body_ok_concat[OF prev assms(4)] by simp
  have "fresh (drop k ?rule)" "k \<le> length ?rule"
    using assms(4,5) ne by (auto simp: fresh_def)
  moreover have "fresh (drop k (?rule @ [elem Gre_rule_ref last1]))"
    using calculation by (auto simp: fresh_snoc) (simp_all add: fresh_def tail_type_def)
  moreover have "body_ok (id_values st1) rule'"
  proof (cases "0 < ?n")
    case True
    then have "last1 \<in> id_values st1" using ok by simp
    then have "body_ok (id_values st1) (?rule @ [elem Gre_rule_ref last1])"
      by (intro body_ok_snoc[OF body_ok_mono[OF b sub]] ref_ok(1)) (simp_all add: tail_type_def)
    then show ?thesis using True r(1) by simp
  next
    case False
    then have "rule' = ?rule" using r(1) by simp
    then show ?thesis using body_ok_mono[OF b sub] by simp
  qed
  ultimately show ?thesis using ok unfolding r by auto
qed

section \<open>Items\<close>

text \<open>What parsing more of a rule keeps: the rule is extended and stays well formed.\<close>

definition grown :: "32 word set \<Rightarrow> nat \<Rightarrow> grammar_rule \<Rightarrow> bool" where
  "grown V k rule \<longleftrightarrow> body_ok V rule \<and> fresh (drop k rule) \<and> k \<le> length rule"

lemma grown_end [simp]: "grown V (length rule) rule \<longleftrightarrow> body_ok V rule"
  by (simp add: grown_def fresh_def)

lemma grown_snoc:
  assumes "grown V k rule" "elem_ok V e" "\<not> tail_type (e_type e)"
  shows "grown V k (rule @ [e])"
  using assms body_ok_snoc[of V rule e] by (auto simp: grown_def fresh_snoc) (simp add: fresh_def)

lemma literal_grown:
  assumes "parse_literal s rule = Inr (s', rule')" "grown V k rule"
  shows "grown V k rule'"
  using assms
proof (induction s rule rule: parse_literal.induct)
  case (1 s rule)
  show ?case
  proof (cases "peek s = CHR 0x22 \<or> s = []")
    case True
    then show ?thesis using 1(2,3) by (subst (asm) parse_literal.simps) (auto split: if_splits)
  next
    case False
    then obtain v s1 where p: "parse_char s = Inr (v, s1)"
      "parse_literal s1 (rule @ [elem Gre_char v]) = Inr (s', rule')"
      using 1(2) by (subst (asm) parse_literal.simps) auto
    have "grown V k (rule @ [elem Gre_char v])"
      by (intro grown_snoc 1(3) ref_ok) (simp add: tail_type_def)
    then show ?thesis using 1(1)[of "(v, s1)"] False p by simp
  qed
qed

text \<open>Inside a class the last element is one a range or a further character may follow.\<close>

definition class_open :: "nat \<Rightarrow> grammar_rule \<Rightarrow> bool" where
  "class_open k rule \<longleftrightarrow> k < length rule \<longrightarrow>
     e_type (last rule) \<in> {Gre_char, Gre_char_not, Gre_char_alt, Gre_char_rng_upper}"

lemma class_item_grown:
  assumes "class_item t k s rule = Inr (s', rule')" "grown V k rule" "class_open k rule"
    and "t \<in> {Gre_char, Gre_char_not}"
  shows "grown V k rule' \<and> class_open k rule'"
proof -
  obtain v s1 where v: "parse_char s = Inr (v, s1)" using assms(1) by (auto simp: class_item_def)
  let ?t = "if k < length rule then Gre_char_alt else t"
  let ?r1 = "rule @ [elem ?t v]"
  have r1: "grown V k ?r1"
  proof (cases "k < length rule")
    case True
    then have ne: "rule \<noteq> []" by auto
    have "char_shape Gre_end ?r1"
      using assms(2,3) True ne by (auto simp: grown_def body_ok_def shape_append end_type_def class_open_def)
    moreover have "fresh (drop k ?r1)"
      using assms(2) True by (auto simp: grown_def fresh_snoc)
    ultimately show ?thesis
      using assms(2) True by (auto simp: grown_def body_ok_def ref_ok)
  next
    case False
    have "elem_ok V (elem ?t v)" using assms(4) False by (auto simp: ref_ok)
    then show ?thesis
      by (intro grown_snoc[OF assms(2)]) (use assms(4) False in \<open>auto simp: tail_type_def\<close>)
  qed
  have last1: "e_type (last ?r1) \<in> {Gre_char, Gre_char_not, Gre_char_alt}" using assms(4) by auto
  consider "rule' = ?r1" | w where "rule' = ?r1 @ [elem Gre_char_rng_upper w]"
    using assms(1) v by (auto simp: class_item_def Let_def split: if_splits)
  then show ?thesis
  proof cases
    case 1
    then show ?thesis using r1 last1 by (auto simp: class_open_def)
  next
    case (2 w)
    have k: "k < length ?r1" using r1 assms(2) by (auto simp: grown_def)
    have "char_shape Gre_end rule'"
      using r1 last1 by (auto simp: 2 grown_def body_ok_def shape_append end_type_def)
    moreover have "fresh (drop k rule')"
      using r1 k by (auto simp: 2 grown_def fresh_snoc) (auto simp: fresh_def)
    ultimately show ?thesis
      using r1 by (auto simp: 2 grown_def body_ok_def ref_ok class_open_def)
  qed
qed

lemma class_grown:
  assumes "parse_class t k s rule = Inr (s', rule')" "grown V k rule" "class_open k rule"
    and "t \<in> {Gre_char, Gre_char_not}"
  shows "grown V k rule'"
  using assms
proof (induction t k s rule rule: parse_class.induct)
  case (1 t k s rule)
  show ?case
  proof (cases "peek s = CHR '']'' \<or> s = []")
    case True
    then show ?thesis using 1(2,3) by (subst (asm) parse_class.simps) (auto split: if_splits)
  next
    case False
    then obtain s1 r1 where p: "class_item t k s rule = Inr (s1, r1)" "parse_class t k s1 r1 = Inr (s', rule')"
      using 1(2) by (subst (asm) parse_class.simps) auto
    then show ?thesis using 1(1)[of "(s1, r1)"] False class_item_grown[OF p(1) 1(3-5)] 1(5) by simp
  qed
qed

lemma parse_name_word: "parse_name s = Inr (n, s') \<Longrightarrow> word_name n"
  by (auto simp: parse_name_def word_name_def dest: set_takeWhileD split: if_splits)

lemma parse_item_ok:
  assumes "parse_item b name k s rule st = Inr (s', k', rule', st')"
    and "parser_ok st" "word_name name" "grown (id_values st) k rule"
  shows "extends st st' \<and> grown (id_values st') k' rule'"
proof -
  have here: "grown (id_values st) (length rule) rule" using assms(4) by (simp add: grown_def fresh_def)
  have lit: "parse_literal u rule = Inr (s1, r1) \<Longrightarrow> grown (id_values st) (length rule) r1" for u s1 r1
    using literal_grown here by blast
  have cls: "parse_class t (length rule) u rule = Inr (s1, r1) \<Longrightarrow> t \<in> {Gre_char, Gre_char_not} \<Longrightarrow>
      grown (id_values st) (length rule) r1" for t u s1 r1
    using class_grown[OF _ here] by (simp add: class_open_def)
  have ref: "extends st st1 \<and> grown (id_values st1) (length rule) (rule @ [elem Gre_rule_ref i])"
    if p: "parse_name u = Inr (n, s1)" and g: "get_symbol_id n st = (i, st1)" for u n s1 i st1
  proof -
    note ok = get_symbol_ok[OF assms(2) parse_name_word[OF p] g]
    have "grown (id_values st1) (length rule) rule"
      using here ok(1) by (auto simp: extends_def intro: body_ok_mono)
    then show ?thesis using ok by (auto intro!: grown_snoc ref_ok simp: tail_type_def)
  qed
  have rep: "extends st st1 \<and> grown (id_values st1) k r1"
    if "handle_repetitions name k lo hi rule st = Inr (r1, st1)" for lo hi r1 st1
    using handle_ok[OF assms(2,3) _ _ _ that] assms(4) by (auto simp: grown_def)
  have any: "grown (id_values st) (length rule) (rule @ [elem Gre_char_any 0])"
    by (intro grown_snoc here ref_ok) (simp add: tail_type_def)
  show ?thesis
    using assms(1) any extends_refl[OF assms(2)] unfolding parse_item_def Let_def
    by (auto split: if_splits prod.splits dest!: lit cls rep dest: ref)
qed

section \<open>Sequences, alternates, rules\<close>

definition group_ok :: "group_parser \<Rightarrow> bool" where
  "group_ok sub \<longleftrightarrow> (\<forall>i s st s' st'. parser_ok st \<longrightarrow> unat i < length (symbol_ids st) \<longrightarrow>
     sub i s st = Inr (s', st') \<longrightarrow> extends st st')"

lemma sequence_loop_ok:
  assumes "group_ok sub" "word_name name"
    and "sequence_loop n sub b name k s rule st = Inr (s', rule', st')"
    and "parser_ok st" "grown (id_values st) k rule"
  shows "extends st st' \<and> body_ok (id_values st') rule'"
  using assms(3-5)
proof (induction n arbitrary: k s rule st)
  case (Suc n)
  show ?case
  proof (cases "peek s = CHR ''(''")
    case True
    obtain i st1 where g: "generate_symbol_id name st = (i, st1)" by fastforce
    then obtain s1 st2 where r: "sub i (parse_space True (drop 1 s)) st1 = Inr (s1, st2)"
      "sequence_loop n sub b name (length rule) (parse_space b (drop 1 s1)) (rule @ [elem Gre_rule_ref i]) st2
        = Inr (s', rule', st')"
      using Suc.prems(1) True by (auto split: if_splits)
    note gok = generate_ok[OF Suc.prems(2) assms(2) g]
    have e1: "extends st1 st2"
      using assms(1) gok r(1) unfolding group_ok_def extends_def by blast
    have e2: "extends st st2" by (rule extends_trans[OF gok(1) e1])
    have "grown (id_values st2) (length rule) (rule @ [elem Gre_rule_ref i])"
    proof (intro grown_snoc ref_ok(1))
      show "grown (id_values st2) (length rule) rule"
        using Suc.prems(3) e2 body_ok_mono by (auto simp: grown_def fresh_def extends_def)
      show "i \<in> id_values st2" using gok(2) e1 by (auto simp: extends_def)
    qed (simp add: tail_type_def)
    from Suc.IH[OF r(2) _ this] show ?thesis using e2 extends_trans by (auto simp: extends_def)
  next
    case False
    show ?thesis
    proof (cases "starts_item (peek s)")
      case True
      then obtain s1 k1 r1 st1 where r: "parse_item b name k s rule st = Inr (s1, k1, r1, st1)"
        "sequence_loop n sub b name k1 s1 r1 st1 = Inr (s', rule', st')"
        using Suc.prems(1) False by auto
      have ok: "extends st st1" "grown (id_values st1) k1 r1"
        using parse_item_ok[OF r(1) Suc.prems(2) assms(2) Suc.prems(3)] by simp_all
      from Suc.IH[OF r(2) _ ok(2)] ok(1) show ?thesis using extends_trans by (auto simp: extends_def)
    next
      case no: False
      then show ?thesis using False Suc.prems by (auto simp: grown_def)
    qed
  qed
qed simp

lemma parse_sequence_ok:
  assumes "group_ok sub" "word_name name" "parse_sequence sub b name s rule st = Inr (s', rule', st')"
    and "parser_ok st" "body_ok (id_values st) rule"
  shows "extends st st' \<and> body_ok (id_values st') rule'"
  using sequence_loop_ok[OF assms(1,2) assms(3)[unfolded parse_sequence_def] assms(4)] assms(5) by simp

lemma alternates_loop_ok:
  assumes "group_ok sub" "word_name name"
    and "alternates_loop n sub b name s rule st = Inr (s', rule', st')"
    and "parser_ok st" "body_ok (id_values st) rule"
  shows "extends st st' \<and> body_ok (id_values st') rule'"
  using assms(3-5)
proof (induction n arbitrary: s rule st)
  case (Suc n)
  show ?case
  proof (cases "peek s = CHR ''|''")
    case True
    then obtain s1 r1 st1 where
      r: "parse_sequence sub b name (parse_space True (drop 1 s)) (rule @ [elem Gre_alt 0]) st = Inr (s1, r1, st1)"
      "alternates_loop n sub b name s1 r1 st1 = Inr (s', rule', st')"
      using Suc.prems(1) by auto
    have "body_ok (id_values st) (rule @ [elem Gre_alt 0])"
      by (intro body_ok_snoc Suc.prems(3) ref_ok) (simp add: tail_type_def)
    from parse_sequence_ok[OF assms(1,2) r(1) Suc.prems(2) this]
    have ok: "extends st st1" "body_ok (id_values st1) r1" by simp_all
    from Suc.IH[OF r(2) _ ok(2)] ok(1) show ?thesis using extends_trans by (auto simp: extends_def)
  qed (use Suc.prems in auto)
qed simp

lemma parse_alternates_ok:
  assumes "word_name name"
  shows "group_ok (parse_alternates d b name)"
proof (induction d arbitrary: b)
  case (Suc d)
  note sub = Suc[of True]
  show ?case
    unfolding group_ok_def
  proof (intro allI impI)
    fix i s st s' st'
    assume st: "parser_ok st" "unat i < length (symbol_ids st)"
      and run: "parse_alternates (Suc d) b name i s st = Inr (s', st')"
    obtain s1 r1 st1 r2 st2 where r:
      "parse_sequence (parse_alternates d True name) b name s [] st = Inr (s1, r1, st1)"
      "alternates_loop (Suc (length s1)) (parse_alternates d True name) b name s1 r1 st1 = Inr (s', r2, st2)"
      "st' = add_rule i (r2 @ [elem Gre_end 0]) st2"
      using run by (auto simp del: alternates_loop.simps)
    have one: "extends st st1" "body_ok (id_values st1) r1"
      using parse_sequence_ok[OF sub assms r(1) st(1)] by simp_all
    then have two: "extends st1 st2" "body_ok (id_values st2) r2"
      using alternates_loop_ok[OF sub assms r(2)] by (simp_all add: extends_def)
    have "extends st2 st'"
      unfolding r(3) by (rule add_rule_ok) (use one two st(2) in \<open>auto simp: extends_def done_ok_def\<close>)
    then show "extends st st'" using extends_trans one(1) two(1) by blast
  qed
qed (simp add: group_ok_def)

lemma parse_rule_ok:
  assumes "parser_ok st" "parse_rule d s st = Inr (s', st')"
  shows "extends st st'"
proof -
  obtain name s1 where n: "parse_name s = Inr (name, s1)" using assms(2) by (auto simp: parse_rule_def)
  note w = parse_name_word[OF n]
  obtain i st1 where g: "get_symbol_id name st = (i, st1)" by fastforce
  obtain t s2 where a: "parse_alternates d False name i t st1 = Inr (s2, st')"
    using assms(2) n g by (auto simp: parse_rule_def Let_def split: if_splits)
  note ok = get_symbol_ok[OF assms(1) w g]
  have "extends st1 st'"
    using parse_alternates_ok[OF w] ok a unfolding group_ok_def extends_def by blast
  then show ?thesis using extends_trans[OF ok(1)] by blast
qed

lemma parse_rules_ok: "parser_ok st \<Longrightarrow> parse_rules n d s st = Inr st' \<Longrightarrow> extends st st'"
proof (induction n arbitrary: s st)
  case (Suc n)
  show ?case
  proof (cases "s = []")
    case False
    then obtain s1 st1 where r: "parse_rule d s st = Inr (s1, st1)" "parse_rules n d s1 st1 = Inr st'"
      using Suc.prems(2) by auto
    have "extends st st1" by (rule parse_rule_ok[OF Suc.prems(1) r(1)])
    then show ?thesis using Suc.IH[OF _ r(2)] extends_trans by (auto simp: extends_def)
  qed (use Suc.prems in simp)
qed simp

section \<open>What validation adds\<close>

lemma rfold_unit: "rfold (\<lambda>x _. f x) xs () = Inr () \<longleftrightarrow> (\<forall>x \<in> set xs. f x = Inr ())"
  by (induction xs) (auto simp: rbind_Inr_iff)

lemma validate_iff:
  "validate st = Inr () \<longleftrightarrow> (\<forall>es \<in> set (p_rules st). es \<noteq> [] \<and>
     (\<forall>e \<in> set es. \<not> (undefined_ref st e \<and> e_value e \<in> id_values st)))"
  unfolding validate_def rfold_unit by (force simp: rfold_unit id_values_def)

lemma validated_rules:
  assumes "parser_ok st" "validate st = Inr ()"
  shows "rules_ok (p_rules st)" "\<forall>es \<in> set (p_rules st). last es = elem Gre_end 0"
proof -
  have each: "rule_ok (length (p_rules st)) es \<and> last es = elem Gre_end 0" if es: "es \<in> set (p_rules st)" for es
  proof -
    have "es \<noteq> []" using assms(2) es by (simp add: validate_iff)
    then obtain body where b: "es = body @ [elem Gre_end 0]" "body_ok (id_values st) body"
      using assms(1) es by (auto simp: parser_ok_def done_ok_def)
    have "unat (e_value e) < length (p_rules st)" if e: "e \<in> set es" "e_type e = Gre_rule_ref" for e
    proof -
      have "e \<in> set body" using e b(1) by auto
      then have "e_value e \<in> id_values st" using b(2) e(2) by (auto simp: body_ok_def elem_ok_def)
      then have "\<not> undefined_ref st e" using assms(2) es e(1) by (auto simp: validate_iff)
      then show ?thesis using e(2) by (simp add: undefined_ref_def)
    qed
    then show ?thesis
      using b by (auto simp: rule_ok_def body_ok_def elem_ok_def shape_append)
  qed
  then show "rules_ok (p_rules st)" "\<forall>es \<in> set (p_rules st). last es = elem Gre_end 0"
    by (simp_all add: rules_ok_def)
qed

lemma parsed:
  assumes "llama_grammar_parse text = Inr (Some st)"
  shows "parser_ok st" "validate st = Inr ()"
proof -
  let ?s = "takeWhile (\<lambda>c. c \<noteq> nul) text" and ?empty = "\<lparr>symbol_ids = [], p_rules = []\<rparr>"
  have p: "parse_rules (Suc (length ?s)) (Suc (length ?s)) (parse_space True ?s) ?empty = Inr st"
    "validate st = Inr ()"
    using assms unfolding llama_grammar_parse_def Let_def by (auto split: sum.splits if_splits)
  have "parser_ok ?empty" by (simp add: parser_ok_def ids_ok_def)
  then have "extends ?empty st" using p(1) by (rule parse_rules_ok)
  then show "parser_ok st" by (simp add: extends_def)
  show "validate st = Inr ()" by (rule p(2))
qed

end
