(* ===== verification/GrammarParseTheorems.thy ===== *)
theory GrammarParseTheorems
  imports GrammarParseOk GrammarLive
begin

text \<open>
  The properties of the grammar parser: it returns, the rules it gives the engine are well
  formed, repetitions become the rules the comments promise, and the texts it mishandles.
\<close>

section \<open>Printing\<close>

lemma id_named:
  assumes "ids_ok (symbol_ids st)" "v \<in> id_values st"
  shows "\<exists>n. symbol_id_names st v = Some n"
proof -
  have "\<exists>n. fold (\<lambda>(k, v) m. m(v \<mapsto> k)) ids m v = Some n"
    if "v \<in> snd ` set ids \<or> (\<exists>n. m v = Some n)" for ids :: "(string \<times> 32 word) list" and m
    using that
  proof (induction ids arbitrary: m)
    case (Cons a ids)
    have "\<exists>n. fold (\<lambda>(k, v) m. m(v \<mapsto> k)) ids (m(snd a \<mapsto> fst a)) v = Some n"
      by (rule Cons.IH) (use Cons.prems in auto)
    then show ?case by (cases a) (simp del: fun_upd_apply)
  qed simp
  then show ?thesis using assms(2) by (simp add: symbol_id_names_def id_values_def)
qed

lemma rule_index_named:
  assumes "parser_ok st" "i < length (p_rules st)"
  shows "of_nat i \<in> id_values st"
proof -
  have i: "i < length (symbol_ids st)" using assms by (simp add: parser_ok_def)
  have "of_nat i \<in> set (map of_nat [0..<length (symbol_ids st)] :: 32 word list)" using i by auto
  then have "of_nat i \<in> set (map snd (symbol_ids st))"
    using assms(1) by (simp add: parser_ok_def ids_ok_def)
  then show ?thesis by (simp add: id_values_def)
qed

lemma shape_prev:
  assumes "char_shape t es" "i < length es" "tail_type (e_type (es ! i))" "t = Gre_end"
  shows "0 < i \<and> is_char_element (es ! (i - 1))"
proof -
  have "es = take i es @ es ! i # drop (Suc i) es" using assms(2) by (simp add: id_take_nth_drop)
  then have "char_shape (end_type t (take i es)) [es ! i]"
    using assms(1) by (metis append_Cons append_Nil shape_append)
  then have e: "end_type t (take i es) \<in> {Gre_char, Gre_char_not, Gre_char_alt, Gre_char_rng_upper}"
    using assms(3) by (auto simp: tail_type_def)
  then have i: "0 < i" using assms(4) by (cases "i = 0") (auto simp: end_type_def)
  then have "last (take i es) = es ! (i - 1)" using assms(2) by (subst last_conv_nth) auto
  then show ?thesis using e i assms(2) by (auto simp: end_type_def is_char_element_def split: if_splits)
qed

lemma print_elem_returns:
  assumes "parser_ok st" "body_ok (id_values st) body" "i < length body"
  shows "\<exists>out. print_elem (symbol_id_names st) (body @ [elem Gre_end 0]) i = Inr out"
proof -
  let ?e = "body ! i"
  have ids: "ids_ok (symbol_ids st)" using assms(1) by (simp add: parser_ok_def)
  have e: "elem_ok (id_values st) ?e" "char_shape Gre_end body" using assms(2,3) by (simp_all add: body_ok_def)
  have nth: "(body @ [elem Gre_end 0]) ! i = ?e" "0 < i \<Longrightarrow> (body @ [elem Gre_end 0]) ! (i - 1) = body ! (i - 1)"
    using assms(3) by (simp_all add: nth_append)
  have t: "tail_type (e_type ?e) \<Longrightarrow> 0 < i \<and> is_char_element (body ! (i - 1))"
    using shape_prev[OF e(2) assms(3)] by simp
  have r: "e_type ?e = Gre_rule_ref \<Longrightarrow> \<exists>n. symbol_id_names st (e_value ?e) = Some n"
    using id_named[OF ids] e(1) by (simp add: elem_ok_def)
  show ?thesis
    using e(1) r t nth by (cases "e_type ?e") (auto simp: print_elem_def Let_def tail_type_def elem_ok_def)
qed

lemma rfold_returns:
  assumes "\<And>x s. x \<in> set xs \<Longrightarrow> \<exists>t. f x s = Inr t"
  shows "\<exists>t. rfold f xs s = Inr t"
  using assms
proof (induction xs arbitrary: s)
  case (Cons x xs)
  then obtain t where "f x s = Inr t" by (meson list.set_intros(1))
  then show ?case using Cons by simp
qed simp

lemma print_returns:
  assumes "parser_ok st" "validate st = Inr ()"
  shows "\<exists>out. llama_grammar_print st = Inr out"
  unfolding llama_grammar_print_def
proof (rule rfold_returns)
  fix i out assume "i \<in> set [0..<length (p_rules st)]"
  then have i: "i < length (p_rules st)" by simp
  have ids: "ids_ok (symbol_ids st)" using assms(1) by (simp add: parser_ok_def)
  have mem: "p_rules st ! i \<in> set (p_rules st)" using i by simp
  have "p_rules st ! i \<noteq> []" using assms(2) mem by (simp add: validate_iff)
  then obtain body where b: "p_rules st ! i = body @ [elem Gre_end 0]" "body_ok (id_values st) body"
    using assms(1) mem by (auto simp: parser_ok_def done_ok_def)
  obtain n where n: "symbol_id_names st (of_nat i) = Some n"
    using id_named[OF ids rule_index_named[OF assms(1) i]] by blast
  have "\<exists>x. rfold (\<lambda>j out. rbind (print_elem (symbol_id_names st) (body @ [elem Gre_end 0]) j) (\<lambda>x. Inr (out @ x)))
      [0..<length body] (n @ '' ::= '') = Inr x"
  proof (rule rfold_returns)
    fix j out assume "j \<in> set [0..<length body]"
    then show "\<exists>x. rbind (print_elem (symbol_id_names st) (body @ [elem Gre_end 0]) j) (\<lambda>x. Inr (out @ x)) = Inr x"
      using print_elem_returns[OF assms(1) b(2), of j] by auto
  qed
  then show "\<exists>x. rbind (print_rule (symbol_id_names st) (of_nat i) (p_rules st ! i)) (\<lambda>x. Inr (out @ x)) = Inr x"
    using b(1) n by (auto simp: print_rule_def)
qed

section \<open>Parsing a text\<close>

text \<open>
  \<^verbatim>\<open>root ::= item ("," item)*\<close> and \<^verbatim>\<open>item ::= [a-z]{2,3}\<close>
\<close>

definition newline :: char where
  "newline = CHR 0x0A"

definition list_text :: string where
  "list_text = ''root ::= item ('' @ [CHR 0x22] @ '','' @ [CHR 0x22] @ '' item)*'' @ [newline] @ ''item ::= [a-z]{2,3}''"

definition list_parser :: llama_grammar_parser where
  "list_parser = \<lparr>symbol_ids = [(''root'', 0), (''item'', 1), (''root_2'', 2), (''root_3'', 3), (''item_4'', 4)],
     p_rules =
       [[elem Gre_rule_ref 1, elem Gre_rule_ref 3, elem Gre_end 0],
        [elem Gre_char 97, elem Gre_char_rng_upper 122, elem Gre_char 97, elem Gre_char_rng_upper 122,
         elem Gre_rule_ref 4, elem Gre_end 0],
        [elem Gre_char 44, elem Gre_rule_ref 1, elem Gre_end 0],
        [elem Gre_rule_ref 2, elem Gre_rule_ref 3, elem Gre_alt 0, elem Gre_end 0],
        [elem Gre_char 97, elem Gre_char_rng_upper 122, elem Gre_alt 0, elem Gre_end 0]]\<rparr>"

lemma list_parsed: "llama_grammar_parse list_text = Inr (Some list_parser)"
  by code_simp

text \<open>
  C34. Parsing ends on every text: it gives a parser state, or false after an exception it
  caught; the only other end is the overflow of the subtraction of the bounds of a
  repetition.  No loop and no nesting of groups runs past the length of the text.
\<close>

theorem parse_returns:
  "(\<exists>p. llama_grammar_parse text = Inr p) \<or> llama_grammar_parse text = Inl Out_of_bounds"
  by (rule parse_total)

text \<open>
  C33. Whatever text the parser accepts, the rules it hands to the engine are well formed:
  every rule ends with its only END, ranges and further characters stand behind a
  character, every reference is to a defined rule.  No name has two ids and no id two
  names, those generated for groups and repetitions included.
\<close>

theorem parsed_rules_well_formed:
  assumes "llama_grammar_parse text = Inr (Some st)"
  shows "rules_ok (p_rules st) \<and> (\<forall>es \<in> set (p_rules st). last es = elem Gre_end 0) \<and>
    distinct (map fst (symbol_ids st)) \<and> map snd (symbol_ids st) = map of_nat [0..<length (symbol_ids st)]"
  using validated_rules[OF parsed[OF assms]] parsed(1)[OF assms] by (simp add: parser_ok_def ids_ok_def)

theorem parsed_rules_well_formed_witness:
  "rules_ok (p_rules list_parser) \<and> distinct (map fst (symbol_ids list_parser))"
  using parsed_rules_well_formed[OF list_parsed] by blast

text \<open>
  The printer never throws on what the parser accepted: every rule and every reference
  has a name, and every range or further character a character before it.
\<close>

theorem print_never_throws:
  assumes "llama_grammar_parse text = Inr (Some st)"
  shows "\<exists>out. llama_grammar_print st = Inr out"
  by (rule print_returns[OF parsed[OF assms]])

theorem print_never_throws_witness:
  "(\<exists>out. llama_grammar_print list_parser = Inr out) \<and>
   print_rule (symbol_id_names list_parser) 3 (p_rules list_parser ! 3) = Inr (''root_3 ::= root_2 root_3 | '' @ [newline])"
proof
  show "\<exists>out. llama_grammar_print list_parser = Inr out"
    by (rule print_never_throws[OF list_parsed])
qed code_simp

text \<open>
  From text to a live grammar: when the text parses, defines root and hides no empty rule,
  the initialisation returns with enough fuel, a null pointer exactly when the check finds
  left recursion, and otherwise a well-formed grammar with at least one stack, whose
  expansions all end.
\<close>

theorem init_from_text:
  assumes "llama_grammar_parse text = Inr (Some st)" "map_of (symbol_ids st) ''root'' = Some start"
    and "unat start < length (p_rules st)" "no_hidden_empty (p_rules st)"
  shows "\<exists>N res. (\<forall>fuel \<ge> N. llama_grammar_init_str fuel text ''root'' = Inr res) \<and>
    (case res of
       None \<Rightarrow> any_left_recursion (p_rules st) = Inr True
     | Some g \<Rightarrow> checked_rules (g_rules g) \<and> grammar_ok g \<and> g_stacks g \<noteq> [] \<and>
         set (g_stacks g) = derives_from (p_rules st) (unat start))"
proof -
  have ok: "rules_ok (p_rules st)" "\<forall>es \<in> set (p_rules st). last es = elem Gre_end 0"
    by (rule validated_rules[OF parsed[OF assms(1)]])+
  have ne: "p_rules st \<noteq> []" using assms(3) by auto
  have run: "llama_grammar_init_str fuel text ''root'' = llama_grammar_init_rules fuel (p_rules st) (unat start)" for fuel
    using assms(1,2) ne by (simp add: llama_grammar_init_str_def)
  obtain N res where N: "\<forall>fuel \<ge> N. llama_grammar_init_rules fuel (p_rules st) (unat start) = Inr res"
    and res: "case res of
       None \<Rightarrow> any_left_recursion (p_rules st) = Inr True
     | Some g \<Rightarrow> g_rules g = p_rules st \<and> g_utf8 g = \<lparr>p_value = 0, n_remain = 0\<rparr> \<and> g_stacks g \<noteq> [] \<and>
         distinct (g_stacks g) \<and> set (g_stacks g) = derives_from (p_rules st) (unat start)"
    using init_spec[OF ok assms(4,3)] by blast
  have "case res of None \<Rightarrow> any_left_recursion (p_rules st) = Inr True
     | Some g \<Rightarrow> checked_rules (g_rules g) \<and> grammar_ok g \<and> g_stacks g \<noteq> [] \<and>
         set (g_stacks g) = derives_from (p_rules st) (unat start)"
  proof (cases res)
    case (Some g)
    then have g: "g_rules g = p_rules st" "g_stacks g \<noteq> []" "set (g_stacks g) = derives_from (p_rules st) (unat start)"
      using res by simp_all
    have "llama_grammar_init_rules N (p_rules st) (unat start) = Inr (Some g)" using N Some by simp
    then have lr: "any_left_recursion (p_rules st) = Inr False"
      and st: "initial_stacks N (p_rules st) (unat start) = Inr (g_stacks g)"
      using init_result g(1) ok by blast+
    have "stacks_ok (p_rules st) (g_stacks g)" by (rule initial_spec(2)[OF ok(1) assms(3) st])
    then show ?thesis
      using Some g lr ok(1) assms(4) by (simp add: checked_rules_def grammar_ok_def)
  qed (use res in simp)
  then show ?thesis using N run by auto
qed

theorem init_from_text_witness:
  "\<exists>N res. (\<forall>fuel \<ge> N. llama_grammar_init_str fuel list_text ''root'' = Inr res) \<and>
    (case res of
       None \<Rightarrow> any_left_recursion (p_rules list_parser) = Inr True
     | Some g \<Rightarrow> checked_rules (g_rules g) \<and> grammar_ok g \<and> g_stacks g \<noteq> [] \<and>
         set (g_stacks g) = derives_from (p_rules list_parser) (unat (0 :: 32 word)))"
  by (rule init_from_text[OF list_parsed]) code_simp+

section \<open>Repetitions\<close>

lemma unat_small: "n < 2 ^ 32 \<Longrightarrow> unat (of_nat n :: 32 word) = n"
  by (simp add: unsigned_of_nat take_bit_nat_eq_self)

lemma generate_fresh:
  assumes "ids_ok (symbol_ids st)" "word_name name" "length (symbol_ids st) < 2 ^ 32"
  shows "generate_symbol_id name st = (next_id st,
    st\<lparr>symbol_ids := symbol_ids st @ [(generated_name name (next_id st), next_id st)]\<rparr>)"
proof -
  have "generated_name name (next_id st) \<notin> fst ` set (symbol_ids st)"
  proof
    assume "generated_name name (next_id st) \<in> fst ` set (symbol_ids st)"
    then obtain v where v: "(generated_name name (next_id st), v) \<in> set (symbol_ids st)" by auto
    then obtain base where "word_name base" "generated_name name (next_id st) = generated_name base v"
      using ids_ok_entry(2)[OF assms(1) v] generated_no_word[of name "next_id st"] by metis
    then have "next_id st = v" using generated_inj[OF assms(2)] by metis
    moreover obtain n where n: "n < length (symbol_ids st)" "v = of_nat n"
      using ids_ok_entry(1)[OF assms(1) v] by blast
    ultimately have "unat (of_nat (length (symbol_ids st)) :: 32 word) = unat (of_nat n :: 32 word)"
      by (simp add: next_id_def)
    then show False using assms(3) n(1) by (simp add: unat_small)
  qed
  then show ?thesis by (simp add: generate_symbol_id_def ids_put_def Let_def generated_name_def)
qed

lemma add_last_rule:
  assumes "length (p_rules st) \<le> n" "n < 2 ^ 32"
  shows "length (p_rules (add_rule (of_nat n) rule st)) = Suc n"
    "p_rules (add_rule (of_nat n) rule st) ! n = rule"
    "r < length (p_rules st) \<Longrightarrow> p_rules (add_rule (of_nat n) rule st) ! r = p_rules st ! r"
    "symbol_ids (add_rule (of_nat n) rule st) = symbol_ids st"
proof -
  have n: "unat (of_nat n :: 32 word) = n" using assms(2) by (simp add: unat_small)
  then show "length (p_rules (add_rule (of_nat n) rule st)) = Suc n"
    "p_rules (add_rule (of_nat n) rule st) ! n = rule"
    "symbol_ids (add_rule (of_nat n) rule st) = symbol_ids st"
    using assms(1) by (simp_all add: add_rule_def)
  assume "r < length (p_rules st)"
  then show "p_rules (add_rule (of_nat n) rule st) ! r = p_rules st ! r"
    using assms(1) by (simp add: add_rule_def n vec_resize_def nth_append)
qed

text \<open>The rule a pass of the loop defines, and the state after the passes.\<close>

definition optional_rule :: "nat \<Rightarrow> grammar_rule \<Rightarrow> bool \<Rightarrow> nat \<Rightarrow> grammar_rule" where
  "optional_rule n0 prev unbounded j = prev @
     (if unbounded then [elem Gre_rule_ref (of_nat (n0 + j))]
      else if 0 < j then [elem Gre_rule_ref (of_nat (n0 + j - 1))] else []) @ [elem Gre_alt 0, elem Gre_end 0]"

lemma rec_steps_run:
  assumes "parser_ok st" "word_name name" "length (symbol_ids st) + m \<le> 2 ^ 32"
  shows "\<exists>st' rec last. fold (rec_step name prev hi) [0..<m] (st, prev, 0) = (st', rec, last) \<and>
    ids_ok (symbol_ids st') \<and> length (symbol_ids st') = length (symbol_ids st) + m \<and>
    length (p_rules st') \<le> length (symbol_ids st) + m \<and> take (length prev) rec = prev \<and>
    (0 < m \<longrightarrow> last = of_nat (length (symbol_ids st) + m - 1)) \<and>
    (\<forall>r < length (p_rules st). p_rules st' ! r = p_rules st ! r) \<and>
    (\<forall>j < m. length (symbol_ids st) + j < length (p_rules st') \<and>
      p_rules st' ! (length (symbol_ids st) + j) = optional_rule (length (symbol_ids st)) prev (hi < 0) j) \<and>
    length (p_rules st) \<le> length (p_rules st')"
  using assms(3)
proof (induction m)
  case 0
  then show ?case using assms(1) by (simp add: parser_ok_def)
next
  case (Suc m)
  let ?base = "length (symbol_ids st)" and ?n = "length (symbol_ids st) + m"
  have le: "?n \<le> 2 ^ 32" using Suc.prems by simp
  obtain st1 rec1 last1 where f: "fold (rec_step name prev hi) [0..<m] (st, prev, 0) = (st1, rec1, last1)"
    and ids: "ids_ok (symbol_ids st1)" "length (symbol_ids st1) = ?n"
    and len: "length (p_rules st1) \<le> ?n" and tk: "take (length prev) rec1 = prev"
    and lst: "0 < m \<longrightarrow> last1 = of_nat (?n - 1)"
    and old: "\<forall>r < length (p_rules st). p_rules st1 ! r = p_rules st ! r"
    and new: "\<forall>j < m. ?base + j < length (p_rules st1) \<and> p_rules st1 ! (?base + j) = optional_rule ?base prev (hi < 0) j"
    and grow: "length (p_rules st) \<le> length (p_rules st1)"
    using Suc.IH[OF le] by blast
  have n: "?n < 2 ^ 32" using Suc.prems by simp
  let ?i = "of_nat ?n :: 32 word"
  let ?st2 = "st1\<lparr>symbol_ids := symbol_ids st1 @ [(generated_name name ?i, ?i)]\<rparr>"
  have g: "generate_symbol_id name st1 = (?i, ?st2)"
    using generate_fresh[OF ids(1) assms(2)] n ids(2) by (simp add: next_id_def)
  note gs = generate_spec(1)[OF ids(1) assms(2) g]
  let ?rule = "optional_rule ?base prev (hi < 0) m"
  have step: "rec_step name prev hi m (st1, rec1, last1) = (add_rule ?i ?rule ?st2, ?rule, ?i)"
    using g tk lst by (auto simp: rec_step_def Let_def optional_rule_def)
  have l2: "length (p_rules ?st2) \<le> ?n" using len by simp
  note a = add_last_rule[OF l2 n, where rule = ?rule]
  have "p_rules (add_rule ?i ?rule ?st2) ! r = p_rules st ! r" if "r < length (p_rules st)" for r
    using a(3)[of r] old that grow by simp
  moreover have "?base + j < length (p_rules (add_rule ?i ?rule ?st2)) \<and>
      p_rules (add_rule ?i ?rule ?st2) ! (?base + j) = optional_rule ?base prev (hi < 0) j" if "j < Suc m" for j
    using a(1,2) a(3)[of "?base + j"] new that by (cases "j = m") auto
  moreover have "fold (rec_step name prev hi) [0..<Suc m] (st, prev, 0) = (add_rule ?i ?rule ?st2, ?rule, ?i)"
    using f step by simp
  moreover have "ids_ok (symbol_ids (add_rule ?i ?rule ?st2))" using gs a(4) by simp
  moreover have "take (length prev) ?rule = prev" by (simp add: optional_rule_def)
  ultimately show ?case using a(1,4) ids(2) len grow by simp
qed

lemma repeat_prefix:
  assumes "0 \<le> lo"
  shows "(if lo = 0 then take k rule else rule @ concat (replicate (nat (lo - 1)) (drop k rule))) =
    take k rule @ concat (replicate (nat lo) (drop k rule))"
proof (cases "lo = 0")
  case False
  then have "nat lo = Suc (nat (lo - 1))" using assms by simp
  then have "take k rule @ concat (replicate (nat lo) (drop k rule)) =
      (take k rule @ drop k rule) @ concat (replicate (nat (lo - 1)) (drop k rule))" by simp
  then show ?thesis using False by simp
qed simp

text \<open>
  C35. A repetition becomes the rules the comment over the code promises.  \<open>S{m,n}\<close> is m
  copies of S followed, if m is less than n, by a reference to the last of n - m new rules,
  each of which is S and the rule before it, or nothing; \<open>S{m,}\<close>, and with it \<open>S*\<close> and \<open>S+\<close>,
  is m copies and a new rule that is S and the rule itself, or nothing.  The rules defined
  before stay as they are.
\<close>

theorem repetition_rules:
  assumes "parser_ok st" "word_name name" "k < length rule" "0 \<le> lo" "hi < 0 \<or> lo \<le> hi" "hi \<le> int32_max"
    and "n = (if hi < 0 then 1 else nat (hi - lo))" "length (symbol_ids st) + n \<le> 2 ^ 32"
  shows "\<exists>st'. handle_repetitions name k lo hi rule st = Inr
      (take k rule @ concat (replicate (nat lo) (drop k rule)) @
        (if 0 < n then [elem Gre_rule_ref (of_nat (length (symbol_ids st) + n - 1))] else []), st') \<and>
    (\<forall>j < n. p_rules st' ! (length (symbol_ids st) + j) =
      optional_rule (length (symbol_ids st)) (drop k rule) (hi < 0) j) \<and>
    (\<forall>r < length (p_rules st). p_rules st' ! r = p_rules st ! r)"
proof -
  let ?prev = "drop k rule"
  obtain st' rec last where f: "fold (rec_step name ?prev hi) [0..<n] (st, ?prev, 0) = (st', rec, last)"
    and l: "0 < n \<longrightarrow> last = of_nat (length (symbol_ids st) + n - 1)"
    and r: "\<forall>r < length (p_rules st). p_rules st' ! r = p_rules st ! r"
      "\<forall>j < n. length (symbol_ids st) + j < length (p_rules st') \<and>
        p_rules st' ! (length (symbol_ids st) + j) = optional_rule (length (symbol_ids st)) ?prev (hi < 0) j"
    using rec_steps_run[OF assms(1,2,8)] by blast
  have n: "nat (if hi < 0 then 1 else hi - lo) = n" "(0 < (if hi < 0 then 1 else hi - lo)) = (0 < n)"
    "\<not> int32_max < (if hi < 0 then 1 else hi - lo)"
    using assms(4-7) by (auto simp: int32_max_def)
  have "handle_repetitions name k lo hi rule st = Inr
      (take k rule @ concat (replicate (nat lo) ?prev) @ (if 0 < n then [elem Gre_rule_ref last] else []), st')"
    using assms(3) n f unfolding handle_repetitions_def Let_def repeat_prefix[OF assms(4)] by simp
  then show ?thesis using l r by auto
qed

theorem repetition_rules_witness:
  "\<exists>st'. handle_repetitions ''root'' 1 1 3 [elem Gre_char 97, elem Gre_char 98] list_parser = Inr
      ([elem Gre_char 97, elem Gre_char 98, elem Gre_rule_ref 6], st') \<and>
    p_rules st' ! 6 = [elem Gre_char 98, elem Gre_rule_ref 5, elem Gre_alt 0, elem Gre_end 0]"
proof -
  let ?rule = "[elem Gre_char 97, elem Gre_char 98]"
  have ok: "parser_ok list_parser" by (rule parsed(1)[OF list_parsed])
  have ids: "length (symbol_ids list_parser) = 5" by code_simp
  have "\<exists>st'. handle_repetitions ''root'' 1 1 3 ?rule list_parser = Inr
      (take 1 ?rule @ concat (replicate (nat 1) (drop 1 ?rule)) @
        (if 0 < (2 :: nat) then [elem Gre_rule_ref (of_nat (length (symbol_ids list_parser) + 2 - 1))] else []), st') \<and>
    (\<forall>j < 2. p_rules st' ! (length (symbol_ids list_parser) + j) =
      optional_rule (length (symbol_ids list_parser)) (drop 1 ?rule) ((3 :: int) < 0) j) \<and>
    (\<forall>r < length (p_rules list_parser). p_rules st' ! r = p_rules list_parser ! r)"
    by (rule repetition_rules[OF ok]) (simp_all add: ids int32_max_def word_name_def, code_simp)
  then obtain st' where h: "handle_repetitions ''root'' 1 1 3 ?rule list_parser =
      Inr ([elem Gre_char 97, elem Gre_char 98, elem Gre_rule_ref 6], st')"
    and o: "\<forall>j < 2. p_rules st' ! (5 + j) = optional_rule 5 [elem Gre_char 98] False j"
    unfolding ids by auto
  have "p_rules st' ! 6 = optional_rule 5 [elem Gre_char 98] False 1"
    using o[rule_format, of 1] by simp
  then show ?thesis using h by (auto simp: optional_rule_def)
qed

section \<open>Texts the parser mishandles\<close>

text \<open>
  The bounds of a repetition are not checked: \<open>x{3,2}\<close> is taken for \<open>x{3,3}\<close> without a
  word, and a bound past \<open>2 ^ 32\<close> is reduced modulo \<open>2 ^ 32\<close>, so that \<open>x{4294967297}\<close>
  reads as \<open>x{1}\<close>; a lower bound that wraps to a negative one makes the subtraction of the
  bounds overflow.
\<close>

theorem repetition_bounds_unchecked:
  "llama_grammar_parse ''root ::= .{3,2}'' = llama_grammar_parse ''root ::= .{3,3}'' \<and>
   llama_grammar_parse ''root ::= .{4294967297}'' = llama_grammar_parse ''root ::= .{1}'' \<and>
   llama_grammar_parse ''root ::= .{1}'' \<noteq> Inr None \<and>
   llama_grammar_parse ''root ::= .{2147483648,5}'' = Inl Out_of_bounds"
  by code_simp

text \<open>
  The start symbol is not checked: initialising looks for a symbol named root, whatever
  the start symbol asked for, and then takes the id of the latter unchecked, so a grammar
  without it throws std::out_of_range through llama_grammar_init_impl; and a symbol that
  only a removed repetition mentions, \<open>root{0}\<close>, has an id and no rule, so that the rules are
  read out of bounds.
\<close>

theorem start_symbol_unchecked:
  "llama_grammar_init_str fuel ''root ::= .'' ''main'' = Inl (Out_of_range ''map::at'') \<and>
   llama_grammar_init_str fuel ''main ::= root{0}'' ''root'' = Inl Out_of_bounds"
proof -
  have p: "llama_grammar_parse ''root ::= .'' =
      Inr (Some \<lparr>symbol_ids = [(''root'', 0)], p_rules = [[elem Gre_char_any 0, elem Gre_end 0]]\<rparr>)"
    "llama_grammar_parse ''main ::= root{0}'' =
      Inr (Some \<lparr>symbol_ids = [(''main'', 0), (''root'', 1)], p_rules = [[elem Gre_end 0]]\<rparr>)"
    by code_simp+
  have r: "rfold (\<lambda>r acc. rbind (copy_rule r) (\<lambda>r. Inr (acc @ [r]))) [[elem Gre_end 0]] [] = Inr [[elem Gre_end 0]]"
    "any_left_recursion [[elem Gre_end 0]] = Inr False" "alternates [[elem Gre_end 0]] 1 = Inl Out_of_bounds"
    by code_simp+
  have i: "initial_stacks fuel [[elem Gre_end 0]] 1 = Inl Out_of_bounds"
    using r(3) by (simp add: initial_stacks_def)
  then have "llama_grammar_init_rules fuel [[elem Gre_end 0]] 1 = Inl Out_of_bounds"
    unfolding llama_grammar_init_rules_def r(1) rbind.simps r(2) by simp
  then show ?thesis
    by (simp add: llama_grammar_init_str_def p)
qed

end
