(* ===== verification/Unicode.thy ===== *)
theory Unicode
  imports Prelude
begin

text \<open>
  The text layer under the tokenizers, unicode.h and unicode.cpp: UTF-8 encoding and
  decoding of code points, code point flags, the byte alphabet of byte-level BPE, and
  \<open>unicode_regex_split\<close> with its two hand-written splitters.

  A \<open>std::string\<close> is an \<open>8 word list\<close>, a code point a \<open>32 word\<close>, a position or length
  (\<open>size_t\<close>) a natural number.  The generated tables of unicode-data.cpp are the fields of
  \<open>unicode_data\<close>, the regex engine of the C++ library the fields of \<open>std_regex\<close>; both are
  arguments of the operations that read them.
\<close>

unbundle bit_operations_syntax

section \<open>Code point flags\<close>

type_synonym unicode_cpt_flags = "16 word"

definition UNDEFINED :: unicode_cpt_flags where "UNDEFINED = 0x0001"
definition NUMBER :: unicode_cpt_flags where "NUMBER = 0x0002"
definition LETTER :: unicode_cpt_flags where "LETTER = 0x0004"
definition SEPARATOR :: unicode_cpt_flags where "SEPARATOR = 0x0008"
definition ACCENT_MARK :: unicode_cpt_flags where "ACCENT_MARK = 0x0010"
definition PUNCTUATION :: unicode_cpt_flags where "PUNCTUATION = 0x0020"
definition SYMBOL :: unicode_cpt_flags where "SYMBOL = 0x0040"
definition CONTROL :: unicode_cpt_flags where "CONTROL = 0x0080"
definition MASK_CATEGORIES :: unicode_cpt_flags where "MASK_CATEGORIES = 0x00FF"

text \<open>The bit fields, from the lowest bit on.\<close>

definition is_number :: "unicode_cpt_flags \<Rightarrow> bool" where "is_number f = bit f 1"
definition is_letter :: "unicode_cpt_flags \<Rightarrow> bool" where "is_letter f = bit f 2"
definition is_whitespace :: "unicode_cpt_flags \<Rightarrow> bool" where "is_whitespace f = bit f 8"
definition is_nfd :: "unicode_cpt_flags \<Rightarrow> bool" where "is_nfd f = bit f 11"

definition category_flag :: "unicode_cpt_flags \<Rightarrow> unicode_cpt_flags" where
  "category_flag f = f AND MASK_CATEGORIES"

section \<open>UTF-8\<close>

definition unicode_len_utf8 :: "8 word \<Rightarrow> nat" where
  "unicode_len_utf8 src = [1, 1, 1, 1, 1, 1, 1, 1, 1, 1, 1, 1, 2, 2, 3, 4] ! unat (drop_bit 4 src)"

definition unicode_cpt_to_utf8 :: "32 word \<Rightarrow> 8 word list res" where
  "unicode_cpt_to_utf8 cpt =
     (if cpt \<le> 0x7f then Inr [ucast cpt]
      else if 0x80 \<le> cpt \<and> cpt \<le> 0x7ff then
        Inr [0xc0 OR ucast (drop_bit 6 cpt AND 0x1f), 0x80 OR ucast (cpt AND 0x3f)]
      else if 0x800 \<le> cpt \<and> cpt \<le> 0xffff then
        Inr [0xe0 OR ucast (drop_bit 12 cpt AND 0x0f), 0x80 OR ucast (drop_bit 6 cpt AND 0x3f),
             0x80 OR ucast (cpt AND 0x3f)]
      else if 0x10000 \<le> cpt \<and> cpt \<le> 0x10ffff then
        Inr [0xf0 OR ucast (drop_bit 18 cpt AND 0x07), 0x80 OR ucast (drop_bit 12 cpt AND 0x3f),
             0x80 OR ucast (drop_bit 6 cpt AND 0x3f), 0x80 OR ucast (cpt AND 0x3f)]
      else Inl (Invalid_argument ''invalid codepoint''))"

fun unicode_cpts_to_utf8 :: "32 word list \<Rightarrow> 8 word list res" where
  "unicode_cpts_to_utf8 [] = Inr []"
| "unicode_cpts_to_utf8 (c # cs) =
     rbind (unicode_cpt_to_utf8 c) (\<lambda>s. rbind (unicode_cpts_to_utf8 cs) (\<lambda>r. Inr (s @ r)))"

text \<open>The test for a continuation byte, and the low bits of a byte as part of a code point.\<close>

definition is_cont :: "8 word \<Rightarrow> bool" where
  "is_cont b \<longleftrightarrow> b AND 0xc0 = 0x80"

definition low_bits :: "8 word \<Rightarrow> 8 word \<Rightarrow> 32 word" where
  "low_bits b m = ucast (b AND m)"

text \<open>
  The decoder takes the string and an offset and returns the code point and the offset
  behind it.  Reading \<open>utf8[offset + k]\<close> is guarded by a length test in the source.
\<close>

definition unicode_cpt_from_utf8 :: "8 word list \<Rightarrow> nat \<Rightarrow> (32 word \<times> nat) res" where
  "unicode_cpt_from_utf8 utf8 offset =
     (if \<not> offset < length utf8 then Inl Assert_failed
      else
       let b0 = utf8 ! offset; b1 = utf8 ! (offset + 1); b2 = utf8 ! (offset + 2); b3 = utf8 ! (offset + 3);
           invalid = Inl (Invalid_argument ''invalid character'')
       in
       if b0 AND 0x80 = 0 then Inr (ucast b0, offset + 1)
       else if b0 AND 0x40 = 0 then invalid
       else if b0 AND 0x20 = 0 then
         (if offset + 1 \<ge> length utf8 \<or> \<not> is_cont b1 then invalid
          else Inr (push_bit 6 (low_bits b0 0x1f) OR low_bits b1 0x3f, offset + 2))
       else if b0 AND 0x10 = 0 then
         (if offset + 2 \<ge> length utf8 \<or> \<not> is_cont b1 \<or> \<not> is_cont b2 then invalid
          else Inr (push_bit 12 (low_bits b0 0x0f) OR push_bit 6 (low_bits b1 0x3f) OR low_bits b2 0x3f,
                    offset + 3))
       else if b0 AND 0x08 = 0 then
         (if offset + 3 \<ge> length utf8 \<or> \<not> is_cont b1 \<or> \<not> is_cont b2 \<or> \<not> is_cont b3 then invalid
          else Inr (push_bit 18 (low_bits b0 0x07) OR push_bit 12 (low_bits b1 0x3f)
                      OR push_bit 6 (low_bits b2 0x3f) OR low_bits b3 0x3f, offset + 4))
       else Inl (Invalid_argument ''failed to convert utf8 to codepoint''))"

lemma cpt_from_utf8_advances:
  assumes "unicode_cpt_from_utf8 utf8 off = Inr (c, off')"
  shows "off < off'" "off' \<le> length utf8" "off' \<le> off + 4"
  using assms by (auto simp: unicode_cpt_from_utf8_def Let_def split: if_splits)

function cpts_from_offset :: "8 word list \<Rightarrow> nat \<Rightarrow> 32 word list res" where
  "cpts_from_offset utf8 offset =
     (if offset < length utf8 then
        rbind (unicode_cpt_from_utf8 utf8 offset)
          (\<lambda>(c, offset'). rbind (cpts_from_offset utf8 offset') (\<lambda>cs. Inr (c # cs)))
      else Inr [])"
  by pat_completeness auto
termination
  by (relation "measure (\<lambda>(utf8, offset). length utf8 - offset)")
     (auto dest: cpt_from_utf8_advances)

declare cpts_from_offset.simps [simp del]

definition unicode_cpts_from_utf8 :: "8 word list \<Rightarrow> 32 word list res" where
  "unicode_cpts_from_utf8 utf8 = cpts_from_offset utf8 0"

section \<open>The tables and the flags array\<close>

record range_nfd =
  nfd_first :: "32 word"
  nfd_last :: "32 word"
  nfd_nfd :: "32 word"

record unicode_data =
  unicode_ranges_flags :: "(32 word \<times> unicode_cpt_flags) list"
  unicode_set_whitespace :: "32 word list"
  unicode_map_lowercase :: "(32 word \<times> 32 word) list"
  unicode_map_uppercase :: "(32 word \<times> 32 word) list"
  unicode_ranges_nfd :: "range_nfd list"

definition MAX_CODEPOINTS :: "32 word" where
  "MAX_CODEPOINTS = 0x110000"

text \<open>
  The vector of \<open>MAX_CODEPOINTS\<close> flags is a function of its index; setting a range or one
  flag bit is a function update, in the order of the source's loops.
\<close>

definition set_range ::
    "(32 word \<times> unicode_cpt_flags) \<times> (32 word \<times> unicode_cpt_flags)
      \<Rightarrow> (32 word \<Rightarrow> unicode_cpt_flags) \<Rightarrow> 32 word \<Rightarrow> unicode_cpt_flags" where
  "set_range r a cpt = (if fst (fst r) \<le> cpt \<and> cpt < fst (snd r) then snd (fst r) else a cpt)"

definition set_flag ::
    "nat \<Rightarrow> 32 word \<Rightarrow> (32 word \<Rightarrow> unicode_cpt_flags) \<Rightarrow> 32 word \<Rightarrow> unicode_cpt_flags" where
  "set_flag n c a cpt = (if cpt = c then a cpt OR push_bit n 1 else a cpt)"

definition unicode_cpt_flags_array :: "unicode_data \<Rightarrow> 32 word \<Rightarrow> unicode_cpt_flags" where
  "unicode_cpt_flags_array D =
     (let rs = unicode_ranges_flags D;
          a0 = (\<lambda>_. UNDEFINED);
          a1 = fold set_range (zip rs (tl rs)) a0;
          a2 = fold (set_flag 8) (unicode_set_whitespace D) a1;
          a3 = fold (\<lambda>p. set_flag 9 (snd p)) (unicode_map_lowercase D) a2;
          a4 = fold (\<lambda>p. set_flag 10 (snd p)) (unicode_map_uppercase D) a3
      in fold (\<lambda>r. set_flag 11 (nfd_nfd r)) (unicode_ranges_nfd D) a4)"

definition unicode_cpt_flags_from_cpt :: "unicode_data \<Rightarrow> 32 word \<Rightarrow> unicode_cpt_flags" where
  "unicode_cpt_flags_from_cpt D cpt =
     (if cpt < MAX_CODEPOINTS then unicode_cpt_flags_array D cpt else UNDEFINED)"

definition unicode_cpt_flags_from_utf8 :: "unicode_data \<Rightarrow> 8 word list \<Rightarrow> unicode_cpt_flags res" where
  "unicode_cpt_flags_from_utf8 D utf8 =
     (if utf8 = [] then Inr UNDEFINED
      else rbind (unicode_cpt_from_utf8 utf8 0) (\<lambda>(c, _). Inr (unicode_cpt_flags_from_cpt D c)))"

text \<open>
  The binary searches \<open>std::upper_bound\<close> and \<open>std::lower_bound\<close> on a sorted table give the
  first entry above, or not below, the key.  \<open>upper_bound - 1\<close> is undefined when no entry is
  at or below the key.
\<close>

definition normalize_nfd1 :: "unicode_data \<Rightarrow> 32 word \<Rightarrow> 32 word res" where
  "normalize_nfd1 D cpt =
     (case rev (takeWhile (\<lambda>r. \<not> cpt < nfd_first r) (unicode_ranges_nfd D)) of
        [] \<Rightarrow> Inl Out_of_bounds
      | r # _ \<Rightarrow> Inr (if nfd_first r \<le> cpt \<and> cpt \<le> nfd_last r then nfd_nfd r else cpt))"

fun unicode_cpts_normalize_nfd :: "unicode_data \<Rightarrow> 32 word list \<Rightarrow> 32 word list res" where
  "unicode_cpts_normalize_nfd D [] = Inr []"
| "unicode_cpts_normalize_nfd D (c # cs) =
     rbind (normalize_nfd1 D c) (\<lambda>d. rbind (unicode_cpts_normalize_nfd D cs) (\<lambda>ds. Inr (d # ds)))"

definition unicode_tolower :: "unicode_data \<Rightarrow> 32 word \<Rightarrow> 32 word" where
  "unicode_tolower D cpt =
     (case dropWhile (\<lambda>p. fst p < cpt) (unicode_map_lowercase D) of
        [] \<Rightarrow> cpt
      | (k, v) # _ \<Rightarrow> if k = cpt then v else cpt)"

section \<open>The byte alphabet\<close>

text \<open>
  The bytes that stand for themselves, in the order of the three loops of both map builders.
\<close>

definition direct_bytes :: "nat list" where
  "direct_bytes = [0x21..<0x7F] @ [0xA1..<0xAD] @ [0xAE..<0x100]"

definition put_byte_utf8 :: "nat \<Rightarrow> nat \<Rightarrow> (8 word \<rightharpoonup> 8 word list) \<Rightarrow> (8 word \<rightharpoonup> 8 word list) res" where
  "put_byte_utf8 ch c m = rbind (unicode_cpt_to_utf8 (of_nat c)) (\<lambda>s. Inr (m(of_nat ch \<mapsto> s)))"

definition unicode_byte_to_utf8_map :: "(8 word \<rightharpoonup> 8 word list) res" where
  "unicode_byte_to_utf8_map =
     rbind (rfold (\<lambda>ch m. put_byte_utf8 ch ch m) direct_bytes Map.empty)
       (\<lambda>m. rbind
          (rfold (\<lambda>ch (m, n). if m (of_nat ch) = None
                    then rbind (put_byte_utf8 ch (256 + n) m) (\<lambda>m. Inr (m, n + 1)) else Inr (m, n))
             [0..<256] (m, 0))
          (\<lambda>(m, n). Inr m))"

definition put_utf8_byte :: "nat \<Rightarrow> nat \<Rightarrow> (8 word list \<rightharpoonup> 8 word) \<Rightarrow> (8 word list \<rightharpoonup> 8 word) res" where
  "put_utf8_byte c ch m = rbind (unicode_cpt_to_utf8 (of_nat c)) (\<lambda>s. Inr (m(s \<mapsto> of_nat ch)))"

definition unicode_utf8_to_byte_map :: "(8 word list \<rightharpoonup> 8 word) res" where
  "unicode_utf8_to_byte_map =
     rbind (rfold (\<lambda>ch m. put_utf8_byte ch ch m) direct_bytes Map.empty)
       (\<lambda>m. rbind
          (rfold (\<lambda>ch (m, n). rbind (unicode_cpt_to_utf8 (of_nat ch)) (\<lambda>s.
                    if m s = None
                    then rbind (put_utf8_byte (256 + n) ch m) (\<lambda>m. Inr (m, n + 1)) else Inr (m, n)))
             [0..<256] (m, 0))
          (\<lambda>(m, n). Inr m))"

definition unicode_byte_to_utf8 :: "8 word \<Rightarrow> 8 word list res" where
  "unicode_byte_to_utf8 b =
     rbind unicode_byte_to_utf8_map
       (\<lambda>m. case m b of Some s \<Rightarrow> Inr s | None \<Rightarrow> Inl (Out_of_range ''unordered_map::at''))"

definition unicode_utf8_to_byte :: "8 word list \<Rightarrow> 8 word res" where
  "unicode_utf8_to_byte utf8 =
     rbind unicode_utf8_to_byte_map
       (\<lambda>m. case m utf8 of Some b \<Rightarrow> Inr b | None \<Rightarrow> Inl (Out_of_range ''unordered_map::at''))"

fun encode_bytes :: "8 word list \<Rightarrow> 8 word list res" where
  "encode_bytes [] = Inr []"
| "encode_bytes (b # bs) =
     rbind (unicode_byte_to_utf8 b) (\<lambda>s. rbind (encode_bytes bs) (\<lambda>r. Inr (s @ r)))"

definition encode_word :: "8 word list \<Rightarrow> 8 word list res" where
  "encode_word w =
     rbind (unicode_cpts_from_utf8 w) (\<lambda>utf_word.
       rbind (unicode_cpts_to_utf8 utf_word) (\<lambda>text_utf. encode_bytes text_utf))"

fun unicode_byte_encoding_process :: "8 word list list \<Rightarrow> 8 word list list res" where
  "unicode_byte_encoding_process [] = Inr []"
| "unicode_byte_encoding_process (w # ws) =
     rbind (encode_word w) (\<lambda>e. rbind (unicode_byte_encoding_process ws) (\<lambda>es. Inr (e # es)))"

end
