(* ===== verification/UnicodeSplit.thy ===== *)
theory UnicodeSplit
  imports Unicode
begin

text \<open>
  \<open>unicode_regex_split\<close> of unicode.cpp: the hand-written splitters for the GPT-2 and LLaMA-3
  pre-tokenizer expressions, the fallback to the library's regex engine on a collapsed text,
  and the assembly of the words.
\<close>

section \<open>A window of the text\<close>

text \<open>
  The closures of a splitter read the code points \<open>cs\<close> inside the window from \<open>ini\<close> to \<open>fin\<close>
  (\<open>offset_ini\<close>, \<open>offset_end\<close>); outside they give \<open>OUT_OF_RANGE\<close> and empty flags.
\<close>

record window =
  w_data :: unicode_data
  w_cpts :: "32 word list"
  w_ini :: nat
  w_end :: nat

definition OUT_OF_RANGE :: "32 word" where
  "OUT_OF_RANGE = 0xFFFFFFFF"

definition get_cpt :: "window \<Rightarrow> nat \<Rightarrow> 32 word" where
  "get_cpt w pos = (if w_ini w \<le> pos \<and> pos < w_end w then w_cpts w ! pos else OUT_OF_RANGE)"

definition get_flags :: "window \<Rightarrow> nat \<Rightarrow> unicode_cpt_flags" where
  "get_flags w pos =
     (if w_ini w \<le> pos \<and> pos < w_end w
      then unicode_cpt_flags_from_cpt (w_data w) (w_cpts w ! pos) else 0)"

text \<open>The state of a splitter: \<open>_prev_end\<close> and \<open>bpe_offsets\<close>.  \<open>_add_token\<close> also returns the length.\<close>

record splitting =
  s_prev_end :: nat
  s_offsets :: "nat list"

definition add_token :: "window \<Rightarrow> nat \<Rightarrow> splitting \<Rightarrow> (nat \<times> splitting) res" where
  "add_token w fin s =
     rbind (guard (s_prev_end s \<le> fin \<and> fin \<le> w_end w) Assert_failed) (\<lambda>_.
       let len = fin - s_prev_end s in
       Inr (len, \<lparr>s_prev_end = fin,
                  s_offsets = (if 0 < len then s_offsets s @ [len] else s_offsets s)\<rparr>))"

text \<open>
  A scanning loop moves on while the flags at the position pass a test.  Every test of the
  source fails on the empty flags, so each of them stops at the end of the window at the
  latest; the bound says so for the recursion (\<open>scan_loop\<close> in UnicodeProps gives the loop's
  own equation).
\<close>

function scan :: "(unicode_cpt_flags \<Rightarrow> bool) \<Rightarrow> window \<Rightarrow> nat \<Rightarrow> nat" where
  "scan P w pos = (if pos < w_end w \<and> P (get_flags w pos) then scan P w (pos + 1) else pos)"
  by pat_completeness auto
termination by (relation "measure (\<lambda>(_, w, pos). w_end w - pos)") auto

declare scan.simps [simp del]

definition is_other :: "unicode_cpt_flags \<Rightarrow> bool" where
  "is_other f \<longleftrightarrow> \<not> (is_whitespace f \<or> is_letter f \<or> is_number f) \<and> f \<noteq> 0"

definition ascii :: "char \<Rightarrow> 32 word" where
  "ascii c = of_char c"

text \<open>The end of both splitters: \<open>\s+(?!\S)\<close>, \<open>\s+\<close>, and a code point that matches nothing.\<close>

definition whitespace_step :: "window \<Rightarrow> nat \<Rightarrow> nat \<Rightarrow> splitting \<Rightarrow> (nat \<times> splitting) res" where
  "whitespace_step w pos num_whitespaces s =
     (if num_whitespaces > 1 \<and> get_cpt w (pos + num_whitespaces) \<noteq> OUT_OF_RANGE then
        let pos = pos + (num_whitespaces - 1) in
        rbind (add_token w pos s) (\<lambda>(_, s). Inr (pos, s))
      else if num_whitespaces > 0 then
        let pos = pos + num_whitespaces in
        rbind (add_token w pos s) (\<lambda>(_, s). Inr (pos, s))
      else rbind (add_token w (pos + 1) s) (\<lambda>(_, s). Inr (pos + 1, s)))"

section \<open>The GPT-2 splitter\<close>

definition gpt2_step :: "window \<Rightarrow> nat \<Rightarrow> splitting \<Rightarrow> (nat \<times> splitting) res" where
  "gpt2_step w pos s =
     (let cpt = get_cpt w pos; flags = get_flags w pos;
          cpt_next = get_cpt w (pos + 1); cpt_next_next = get_cpt w (pos + 2);
          apostrophe = cpt = ascii CHR 0x27 \<and> pos + 1 < w_end w
      in
      if apostrophe \<and> cpt_next \<in> {ascii CHR ''s'', ascii CHR ''t'', ascii CHR ''m'', ascii CHR ''d''} then
        rbind (add_token w (pos + 2) s) (\<lambda>(n, s). Inr (pos + n, s))
      else if apostrophe \<and> pos + 2 < w_end w
          \<and> (cpt_next = ascii CHR ''r'' \<and> cpt_next_next = ascii CHR ''e''
             \<or> cpt_next = ascii CHR ''v'' \<and> cpt_next_next = ascii CHR ''e''
             \<or> cpt_next = ascii CHR ''l'' \<and> cpt_next_next = ascii CHR ''l'') then
        rbind (add_token w (pos + 3) s) (\<lambda>(n, s). Inr (pos + n, s))
      else
       let space = cpt = ascii CHR '' '';
           flags2 = (if space then get_flags w (pos + 1) else flags);
           pos1 = (if space then pos + 1 else pos)
       in
       if is_letter flags2 then
         let pos = scan is_letter w pos1 in
         rbind (add_token w pos s) (\<lambda>(_, s). Inr (pos, s))
       else if is_number flags2 then
         let pos = scan is_number w pos1 in
         rbind (add_token w pos s) (\<lambda>(_, s). Inr (pos, s))
       else if is_other flags2 then
         let pos = scan is_other w pos1 in
         rbind (add_token w pos s) (\<lambda>(_, s). Inr (pos, s))
       else
        whitespace_step w pos (scan is_whitespace w pos - pos) s)"

section \<open>The LLaMA-3 splitter\<close>

text \<open>The number loop emits a token after every third digit.\<close>

function llama3_numbers :: "window \<Rightarrow> nat \<Rightarrow> nat \<Rightarrow> splitting \<Rightarrow> (nat \<times> splitting) res" where
  "llama3_numbers w ini pos s =
     (if pos < w_end w \<and> is_number (get_flags w pos) then
        if pos + 1 - ini \<ge> 3
        then rbind (add_token w (pos + 1) s) (\<lambda>(_, s). llama3_numbers w (pos + 1) (pos + 1) s)
        else llama3_numbers w ini (pos + 1) s
      else Inr (pos, s))"
  by pat_completeness auto
termination by (relation "measure (\<lambda>(w, _, pos, _). w_end w - pos)") auto

declare llama3_numbers.simps [simp del]

definition is_crlf :: "32 word \<Rightarrow> bool" where
  "is_crlf c \<longleftrightarrow> c = ascii CHR 0x0D \<or> c = ascii CHR 0x0A"

function scan_crlf :: "window \<Rightarrow> nat \<Rightarrow> nat" where
  "scan_crlf w pos = (if pos < w_end w \<and> is_crlf (get_cpt w pos) then scan_crlf w (pos + 1) else pos)"
  by pat_completeness auto
termination by (relation "measure (\<lambda>(w, pos). w_end w - pos)") auto

declare scan_crlf.simps [simp del]

text \<open>\<open>last_end_r_or_n\<close> over the whitespace from \<open>pos\<close> up to \<open>fin\<close>.\<close>

definition last_end_crlf :: "window \<Rightarrow> nat \<Rightarrow> nat \<Rightarrow> nat" where
  "last_end_crlf w pos fin =
     fold (\<lambda>p l. if is_crlf (get_cpt w p) then p + 1 else l) [pos..<fin] 0"

definition llama3_step :: "window \<Rightarrow> nat \<Rightarrow> splitting \<Rightarrow> (nat \<times> splitting) res" where
  "llama3_step w pos s =
     (let cpt = get_cpt w pos; flags = get_flags w pos;
          cpt_next = unicode_tolower (w_data w) (get_cpt w (pos + 1));
          cpt_next_next = unicode_tolower (w_data w) (get_cpt w (pos + 2));
          apostrophe = cpt = ascii CHR 0x27 \<and> pos + 1 < w_end w
      in
      if apostrophe \<and> cpt_next \<in> {ascii CHR ''s'', ascii CHR ''t'', ascii CHR ''m'', ascii CHR ''d''} then
        rbind (add_token w (pos + 2) s) (\<lambda>(n, s). Inr (pos + n, s))
      else if apostrophe \<and> pos + 2 < w_end w
          \<and> (cpt_next = ascii CHR ''r'' \<and> cpt_next_next = ascii CHR ''e''
             \<or> cpt_next = ascii CHR ''v'' \<and> cpt_next_next = ascii CHR ''e''
             \<or> cpt_next = ascii CHR ''l'' \<and> cpt_next_next = ascii CHR ''l'') then
        rbind (add_token w (pos + 3) s) (\<lambda>(n, s). Inr (pos + n, s))
      else if \<not> (is_crlf cpt \<or> is_number flags)
          \<and> (is_letter flags \<or> is_letter (get_flags w (pos + 1))) then
        let pos = scan is_letter w (pos + 1) in
        rbind (add_token w pos s) (\<lambda>(_, s). Inr (pos, s))
      else if is_number flags then
        rbind (llama3_numbers w pos pos s) (\<lambda>(pos, s).
          rbind (add_token w pos s) (\<lambda>(_, s). Inr (pos, s)))
      else
       let space = cpt = ascii CHR '' '';
           flags2 = (if space then get_flags w (pos + 1) else flags)
       in
       if \<not> (is_whitespace flags2 \<or> is_letter flags2 \<or> is_number flags2) \<and> flags \<noteq> 0 then
         let pos = scan_crlf w (scan is_other w (if space then pos + 1 else pos)) in
         rbind (add_token w pos s) (\<lambda>(_, s). Inr (pos, s))
       else
        let num_whitespaces = scan is_whitespace w pos - pos;
            last_end_r_or_n = last_end_crlf w pos (pos + num_whitespaces)
        in
        if last_end_r_or_n > 0 then
          rbind (add_token w last_end_r_or_n s) (\<lambda>(_, s). Inr (last_end_r_or_n, s))
        else whitespace_step w pos num_whitespaces s)"

section \<open>The loops of both splitters\<close>

text \<open>
  Both splitters run their step from the start of every window to its end.  Every step moves
  forward, so the length of the window is fuel enough (\<open>split_loop_total\<close> in UnicodeProps).
\<close>

fun split_loop ::
    "(window \<Rightarrow> nat \<Rightarrow> splitting \<Rightarrow> (nat \<times> splitting) res) \<Rightarrow> nat \<Rightarrow> window \<Rightarrow> nat \<Rightarrow> splitting
      \<Rightarrow> splitting res" where
  "split_loop step 0 w pos s = (if pos < w_end w then Inl Out_of_fuel else Inr s)"
| "split_loop step (Suc fuel) w pos s =
     (if pos < w_end w then rbind (step w pos s) (\<lambda>(pos, s). split_loop step fuel w pos s) else Inr s)"

fun split_windows ::
    "(window \<Rightarrow> nat \<Rightarrow> splitting \<Rightarrow> (nat \<times> splitting) res) \<Rightarrow> unicode_data \<Rightarrow> 32 word list
      \<Rightarrow> nat \<Rightarrow> nat list \<Rightarrow> nat list \<Rightarrow> nat list res" where
  "split_windows step D cpts start [] bpe_offsets = Inr bpe_offsets"
| "split_windows step D cpts start (off # offs) bpe_offsets =
     (let w = \<lparr>w_data = D, w_cpts = cpts, w_ini = start, w_end = start + off\<rparr> in
      rbind (guard (w_end w \<le> length cpts) Assert_failed) (\<lambda>_.
        rbind (split_loop step off w start \<lparr>s_prev_end = start, s_offsets = bpe_offsets\<rparr>) (\<lambda>s.
          split_windows step D cpts (start + off) offs (s_offsets s))))"

definition unicode_regex_split_custom_gpt2 :: "unicode_data \<Rightarrow> 8 word list \<Rightarrow> nat list \<Rightarrow> nat list res" where
  "unicode_regex_split_custom_gpt2 D txt offsets =
     rbind (unicode_cpts_from_utf8 txt) (\<lambda>cpts. split_windows gpt2_step D cpts 0 offsets [])"

definition unicode_regex_split_custom_llama3 :: "unicode_data \<Rightarrow> 8 word list \<Rightarrow> nat list \<Rightarrow> nat list res" where
  "unicode_regex_split_custom_llama3 D txt offsets =
     rbind (unicode_cpts_from_utf8 txt) (\<lambda>cpts. split_windows llama3_step D cpts 0 offsets [])"

section \<open>The splitter on the library's regex engine\<close>

text \<open>
  \<open>std::regex_iterator\<close> over a window gives the positions and lengths of the matches in it;
  \<open>None\<close> is \<open>std::regex_error\<close>.  The wide engine is the same on \<open>wchar_t\<close>, and
  \<open>wide_from_utf8\<close> is \<open>wstring_convert::from_bytes\<close>, where \<open>None\<close> is \<open>std::range_error\<close>.
\<close>

record std_regex =
  re_bytes :: "8 word list \<Rightarrow> 8 word list \<Rightarrow> (nat \<times> nat) list option"
  re_wide :: "32 word list \<Rightarrow> 32 word list \<Rightarrow> (nat \<times> nat) list option"
  wide_from_utf8 :: "8 word list \<Rightarrow> 32 word list option"

fun stl_matches :: "(nat \<times> nat) list \<Rightarrow> nat \<Rightarrow> nat \<Rightarrow> nat list" where
  "stl_matches [] start_idx offset = (if start_idx < offset then [offset - start_idx] else [])"
| "stl_matches ((position, len) # ms) start_idx offset =
     (if position > start_idx then [position - start_idx] else [])
       @ len # stl_matches ms (position + len) offset"

text \<open>\<open>it text\<close> is the iterator on an expression that has been compiled.\<close>

fun unicode_regex_split_stl ::
    "('c list \<Rightarrow> (nat \<times> nat) list option) \<Rightarrow> 'c list \<Rightarrow> nat \<Rightarrow> nat list \<Rightarrow> nat list option" where
  "unicode_regex_split_stl it txt start [] = Some []"
| "unicode_regex_split_stl it txt start (off # offs) =
     (case it (take off (drop start txt)) of
        None \<Rightarrow> None
      | Some ms \<Rightarrow>
          map_option ((@) (stl_matches ms 0 off)) (unicode_regex_split_stl it txt (start + off) offs))"

section \<open>The choice of a splitter\<close>

text \<open>
  String literals of the source as bytes; in the literals below a tilde stands for the
  backslash.
\<close>

definition bytes_of :: "string \<Rightarrow> 8 word list" where
  "bytes_of s = map (\<lambda>c. if c = CHR ''~'' then 0x5C else of_char c) s"

definition gpt2_regex :: "8 word list" where
  "gpt2_regex = bytes_of
     (CHR 0x27 # ''s|'t|'re|'ve|'m|'ll|'d| ?~p{L}+| ?~p{N}+| ?[^~s~p{L}~p{N}]+|~s+(?!~S)'')"

definition llama3_tail :: string where
  "llama3_tail =
     ''|[^~r~n~p{L}~p{N}]?~p{L}+|~p{N}{1,3}| ?[^~s~p{L}~p{N}]+[~r~n]*|~s*[~r~n]+|~s+(?!~S)|~s+''"

definition llama3_regex :: "8 word list" where
  "llama3_regex = bytes_of (''(?i:'s|'t|'re|'ve|'m|'ll|'d)'' @ llama3_tail)"

definition llama3_regex_brackets :: "8 word list" where
  "llama3_regex_brackets = bytes_of
     (''(?:'[sS]|'[tT]|'[rR][eE]|'[vV][eE]|'[mM]|'[lL][lL]|'[dD])'' @ llama3_tail)"

definition unicode_regex_split_custom ::
    "unicode_data \<Rightarrow> 8 word list \<Rightarrow> 8 word list \<Rightarrow> nat list \<Rightarrow> nat list res" where
  "unicode_regex_split_custom D txt regex_expr offsets =
     (if regex_expr = gpt2_regex then unicode_regex_split_custom_gpt2 D txt offsets
      else if regex_expr = llama3_regex \<or> regex_expr = llama3_regex_brackets
      then unicode_regex_split_custom_llama3 D txt offsets
      else Inr [])"

section \<open>Collapsing the text and the expression\<close>

definition k_ucat_enum :: "(8 word list \<times> unicode_cpt_flags) list" where
  "k_ucat_enum =
     [(bytes_of ''~p{L}'', LETTER), (bytes_of ''~p{M}'', ACCENT_MARK), (bytes_of ''~p{N}'', NUMBER),
      (bytes_of ''~p{P}'', PUNCTUATION), (bytes_of ''~p{S}'', SYMBOL)]"

definition k_ucat_cpt :: "(unicode_cpt_flags \<times> 8 word) list" where
  "k_ucat_cpt = [(NUMBER, 0xD1), (LETTER, 0xD2), (PUNCTUATION, 0xD3), (ACCENT_MARK, 0xD4), (SYMBOL, 0xD5)]"

definition k_ucat_map :: "(unicode_cpt_flags \<times> 8 word list) list" where
  "k_ucat_map =
     [(NUMBER, bytes_of ''0-9''), (LETTER, bytes_of ''A-Za-z''),
      (PUNCTUATION, bytes_of ''!-#%-*,-/:-;?-@~[-~]_~{~}''),
      (ACCENT_MARK, []), (SYMBOL, bytes_of ''~$~+<->^`~|'')]"

text \<open>\<open>std::string::find\<close> different from \<open>npos\<close>.\<close>

fun has_infix :: "8 word list \<Rightarrow> 8 word list \<Rightarrow> bool" where
  "has_infix p s = (take (length p) s = p \<or> (case s of [] \<Rightarrow> False | _ # s' \<Rightarrow> has_infix p s'))"

declare has_infix.simps [simp del]

definition has_category :: "8 word list \<Rightarrow> bool" where
  "has_category regex_expr = list_ex (\<lambda>ucat. has_infix (fst ucat) regex_expr) k_ucat_enum"

definition collapse_cpt :: "unicode_data \<Rightarrow> 32 word \<Rightarrow> 8 word" where
  "collapse_cpt D cpt =
     (if cpt < 128 then ucast cpt
      else let flags = unicode_cpt_flags_from_cpt D cpt in
        if is_whitespace flags then 0x0B
        else case map_of k_ucat_cpt (category_flag flags) of Some b \<Rightarrow> b | None \<Rightarrow> 0xD0)"

text \<open>
  The loop over the expression, with the byte before the position (\<open>regex_expr[i - 1]\<close>; none
  at the start) and whether it is inside a bracket.
\<close>

abbreviation (input) byte :: "char \<Rightarrow> 8 word" where
  "byte c \<equiv> of_char c"

function collapse_regex :: "8 word list \<Rightarrow> 8 word option \<Rightarrow> bool \<Rightarrow> 8 word list" where
  "collapse_regex [] prev inside = []"
| "collapse_regex (c # r) prev inside =
     (if c = byte CHR ''['' \<and> prev \<noteq> Some (byte CHR 0x5C) then c # collapse_regex r (Some c) True
      else if inside \<and> c = byte CHR '']'' \<and> prev \<noteq> Some (byte CHR 0x5C)
        then c # collapse_regex r (Some c) False
      else
       let pat = take 5 (c # r) in
       if c = byte CHR 0x5C \<and> 4 < length (c # r) \<and> r ! 0 = byte CHR ''p'' \<and> r ! 1 = byte CHR ''{''
          \<and> r ! 3 = byte CHR ''}'' \<and> map_of k_ucat_enum pat \<noteq> None then
         let cat = the (map_of k_ucat_enum pat);
             cls = the (map_of k_ucat_cpt cat) # the (map_of k_ucat_map cat)
         in (if inside then cls else byte CHR ''['' # cls @ [byte CHR '']''])
              @ collapse_regex (drop 4 r) (Some (byte CHR ''}'')) inside
       else c # collapse_regex r (Some c) inside)"
  by pat_completeness auto
termination by (relation "measure (\<lambda>(s, _, _). length s)") auto

declare collapse_regex.simps(2) [simp del]

section \<open>The whole split\<close>

definition regex_error :: fault where
  "regex_error = Runtime_error ''Failed to process regex''"

definition stl_split ::
    "unicode_data \<Rightarrow> std_regex \<Rightarrow> 32 word list \<Rightarrow> 8 word list \<Rightarrow> 8 word list \<Rightarrow> nat list \<Rightarrow> nat list res" where
  "stl_split D R cpts text_collapsed regex_expr bpe_offsets =
     (if has_category regex_expr then
        rbind (unicode_cpts_from_utf8 regex_expr) (\<lambda>cpts_regex.
          if list_ex (\<lambda>c. 128 \<le> c) cpts_regex
          then Inl (Runtime_error
                 ''Regex includes both unicode categories and non-ASCII characters - not supported'')
          else case unicode_regex_split_stl (re_bytes R (collapse_regex regex_expr None False))
                      text_collapsed 0 bpe_offsets of
                 None \<Rightarrow> Inl regex_error | Some offs \<Rightarrow> Inr offs)
      else case wide_from_utf8 R regex_expr of
        None \<Rightarrow> Inl (Runtime_error ''wstring_convert::from_bytes'')
      | Some wregex_expr \<Rightarrow>
          let wtext = map (\<lambda>c. if 0x7F < c \<and> is_whitespace (unicode_cpt_flags_from_cpt D c) then 0x0B else c)
                        cpts in
          (case unicode_regex_split_stl (re_wide R wregex_expr) wtext 0 bpe_offsets of
             None \<Rightarrow> Inl regex_error | Some offs \<Rightarrow> Inr offs))"

definition split_by ::
    "unicode_data \<Rightarrow> std_regex \<Rightarrow> 8 word list \<Rightarrow> 32 word list \<Rightarrow> 8 word list \<Rightarrow> 8 word list \<Rightarrow> nat list
      \<Rightarrow> nat list res" where
  "split_by D R txt cpts text_collapsed regex_expr bpe_offsets =
     rbind (unicode_regex_split_custom D txt regex_expr bpe_offsets) (\<lambda>tmp.
       if tmp \<noteq> [] then Inr tmp else stl_split D R cpts text_collapsed regex_expr bpe_offsets)"

fun take_words :: "32 word list \<Rightarrow> nat list \<Rightarrow> 8 word list list res" where
  "take_words cpts [] = Inr []"
| "take_words cpts (off # offs) =
     (if length cpts < off then Inl Out_of_bounds
      else rbind (unicode_cpts_to_utf8 (take off cpts)) (\<lambda>w.
        rbind (take_words (drop off cpts) offs) (\<lambda>ws. Inr (w # ws))))"

definition unicode_regex_split ::
    "unicode_data \<Rightarrow> std_regex \<Rightarrow> 8 word list \<Rightarrow> 8 word list list \<Rightarrow> 8 word list list res" where
  "unicode_regex_split D R txt regex_exprs =
     rbind (unicode_cpts_from_utf8 txt) (\<lambda>cpts.
       let need_collapse = list_ex has_category regex_exprs;
           text_collapsed = (if need_collapse then map (collapse_cpt D) cpts else [])
       in
       rbind (rfold (\<lambda>re offs. split_by D R txt cpts text_collapsed re offs) regex_exprs [length cpts])
         (\<lambda>bpe_offsets. rbind (take_words cpts bpe_offsets) unicode_byte_encoding_process))"

end
