(* ===== verification/UnicodeRegex.thy ===== *)
theory UnicodeRegex
  imports UnicodeSplit
begin

text \<open>
  The reference for the hand-written splitters: the two pre-tokenizer expressions as syntax
  trees, and a backtracking matcher that lists the lengths of all matches at the start of a
  text in the order in which a backtracking engine tries them.
\<close>

section \<open>Expressions and their matches\<close>

text \<open>
  \<open>Rep P lo hi\<close> is a greedy repetition of a character class, \<open>Not_ahead P\<close> the negative
  lookahead for one character of the class.
\<close>

datatype rx =
    Rep "32 word \<Rightarrow> bool" nat "nat option"
  | Not_ahead "32 word \<Rightarrow> bool"
  | Seq rx rx
  | Alt rx rx

definition run :: "(32 word \<Rightarrow> bool) \<Rightarrow> 32 word list \<Rightarrow> nat" where
  "run P s = length (takeWhile P s)"

fun rx_matches :: "rx \<Rightarrow> 32 word list \<Rightarrow> nat list" where
  "rx_matches (Rep P lo hi) s =
     rev [lo..<Suc (case hi of None \<Rightarrow> run P s | Some h \<Rightarrow> min h (run P s))]"
| "rx_matches (Not_ahead P) s = (if s \<noteq> [] \<and> P (hd s) then [] else [0])"
| "rx_matches (Seq a b) s = concat (map (\<lambda>n. map ((+) n) (rx_matches b (drop n s))) (rx_matches a s))"
| "rx_matches (Alt a b) s = rx_matches a s @ rx_matches b s"

fun head_option :: "'a list \<Rightarrow> 'a option" where
  "head_option [] = None"
| "head_option (x # _) = Some x"

definition rx_first :: "rx \<Rightarrow> 32 word list \<Rightarrow> nat option" where
  "rx_first r s = head_option (rx_matches r s)"

text \<open>
  The text cut into consecutive first matches; \<open>None\<close> when a position has no match or only an
  empty one.
\<close>

function rx_split :: "rx \<Rightarrow> 32 word list \<Rightarrow> nat list option" where
  "rx_split r s =
     (if s = [] then Some []
      else case rx_first r s of
        Some (Suc n) \<Rightarrow> map_option ((#) (Suc n)) (rx_split r (drop (Suc n) s))
      | _ \<Rightarrow> None)"
  by pat_completeness auto
termination by (relation "measure (\<lambda>(_, s). length s)") auto

declare rx_split.simps [simp del]

section \<open>The two expressions\<close>

definition chr :: "(32 word \<Rightarrow> bool) \<Rightarrow> rx" where "chr P = Rep P 1 (Some 1)"
definition opt :: "(32 word \<Rightarrow> bool) \<Rightarrow> rx" where "opt P = Rep P 0 (Some 1)"
definition plus1 :: "(32 word \<Rightarrow> bool) \<Rightarrow> rx" where "plus1 P = Rep P 1 None"
definition star :: "(32 word \<Rightarrow> bool) \<Rightarrow> rx" where "star P = Rep P 0 None"

definition one_of :: "char list \<Rightarrow> 32 word \<Rightarrow> bool" where
  "one_of cs c = (c \<in> set (map ascii cs))"

definition cls :: "unicode_data \<Rightarrow> (unicode_cpt_flags \<Rightarrow> bool) \<Rightarrow> 32 word \<Rightarrow> bool" where
  "cls D f c = f (unicode_cpt_flags_from_cpt D c)"

text \<open>\<open>[^\s\p{L}\p{N}]\<close>\<close>

definition no_word :: "unicode_cpt_flags \<Rightarrow> bool" where
  "no_word f \<longleftrightarrow> \<not> (is_whitespace f \<or> is_letter f \<or> is_number f)"

text \<open>An apostrophe and one or two more characters.\<close>

definition short1 :: "char list \<Rightarrow> rx" where
  "short1 a = Seq (chr (one_of [CHR 0x27])) (chr (one_of a))"

definition short2 :: "char list \<Rightarrow> char list \<Rightarrow> rx" where
  "short2 a b = Seq (chr (one_of [CHR 0x27])) (Seq (chr (one_of a)) (chr (one_of b)))"

text \<open>The last two alternatives of both expressions: \<open>\s+(?!\S)\<close> and \<open>\s+\<close>.\<close>

definition spaces_rx :: "unicode_data \<Rightarrow> rx" where
  "spaces_rx D = Alt (Seq (plus1 (cls D is_whitespace)) (Not_ahead (\<lambda>c. \<not> cls D is_whitespace c)))
     (plus1 (cls D is_whitespace))"

definition gpt2_rx :: "unicode_data \<Rightarrow> rx" where
  "gpt2_rx D =
     Alt (short1 ''s'') (Alt (short1 ''t'') (Alt (short2 ''r'' ''e'') (Alt (short2 ''v'' ''e'')
     (Alt (short1 ''m'') (Alt (short2 ''l'' ''l'') (Alt (short1 ''d'')
     (Alt (Seq (opt (one_of '' '')) (plus1 (cls D is_letter)))
     (Alt (Seq (opt (one_of '' '')) (plus1 (cls D is_number)))
     (Alt (Seq (opt (one_of '' '')) (plus1 (cls D no_word)))
       (spaces_rx D))))))))))"

definition crlf :: "char list" where "crlf = [CHR 0x0D, CHR 0x0A]"

definition llama3_rx :: "unicode_data \<Rightarrow> rx" where
  "llama3_rx D =
     Alt (short1 ''sS'') (Alt (short1 ''tT'') (Alt (short2 ''rR'' ''eE'') (Alt (short2 ''vV'' ''eE'')
     (Alt (short1 ''mM'') (Alt (short2 ''lL'' ''lL'') (Alt (short1 ''dD'')
     (Alt (Seq (opt (\<lambda>c. \<not> one_of crlf c \<and> \<not> cls D is_letter c \<and> \<not> cls D is_number c))
             (plus1 (cls D is_letter)))
     (Alt (Rep (cls D is_number) 1 (Some 3))
     (Alt (Seq (opt (one_of '' '')) (Seq (plus1 (cls D no_word)) (star (one_of crlf))))
     (Alt (Seq (star (cls D is_whitespace)) (plus1 (one_of crlf)))
       (spaces_rx D)))))))))))"

text \<open>
  What the splitters rely on in the tables of unicode-data.cpp: every code point has a flag,
  no letter is a number, nor is the apostrophe, the space and the line breaks are whitespace only, and the letters
  of the contractions are the lower case of themselves and of their capital alone.
\<close>

definition lower_pair :: "unicode_data \<Rightarrow> char \<Rightarrow> char \<Rightarrow> bool" where
  "lower_pair D l u \<longleftrightarrow> (\<forall>c. unicode_tolower D c = ascii l \<longleftrightarrow> c = ascii l \<or> c = ascii u)"

definition plain_space :: "unicode_data \<Rightarrow> char \<Rightarrow> bool" where
  "plain_space D c \<longleftrightarrow> (let f = unicode_cpt_flags_from_cpt D (ascii c) in
     is_whitespace f \<and> \<not> is_letter f \<and> \<not> is_number f)"

definition good_tables :: "unicode_data \<Rightarrow> bool" where
  "good_tables D \<longleftrightarrow>
     (\<forall>c. unicode_cpt_flags_from_cpt D c \<noteq> 0 \<and> \<not> (cls D is_letter c \<and> cls D is_number c))
     \<and> plain_space D CHR '' '' \<and> plain_space D CHR 0x0D \<and> plain_space D CHR 0x0A
     \<and> \<not> cls D is_number (ascii CHR 0x27)
     \<and> lower_pair D CHR ''s'' CHR ''S'' \<and> lower_pair D CHR ''t'' CHR ''T'' \<and> lower_pair D CHR ''m'' CHR ''M''
     \<and> lower_pair D CHR ''d'' CHR ''D'' \<and> lower_pair D CHR ''r'' CHR ''R'' \<and> lower_pair D CHR ''e'' CHR ''E''
     \<and> lower_pair D CHR ''v'' CHR ''V'' \<and> lower_pair D CHR ''l'' CHR ''L''"

end
