(* ===== verification/UnicodeProps.thy ===== *)
theory UnicodeProps
  imports UnicodeSplit
begin

text \<open>
  Lemmas on the text layer: the bits of a UTF-8 sequence, that decoding undoes encoding at
  any offset, and the byte alphabet as a pair of inverse maps.
\<close>

section \<open>Bits\<close>

lemma and_masks:
  "(x :: 'a::len word) AND 0x07 = take_bit 3 x" "x AND 0x0f = take_bit 4 x"
  "x AND 0x1f = take_bit 5 x" "x AND 0x3f = take_bit 6 x"
  by (simp_all add: take_bit_eq_mask mask_eq_exp_minus_1)

lemma take_bit_less: 
  assumes "(c :: 32 word) < 2 ^ k" "k < 32" 
  shows "take_bit k c = c"
proof -
  have "uint c < 2 ^ k" using assms word_2p_lem[of k c] by (simp add: word_size)
  then have "uint (take_bit k c) = uint c" by (simp add: unsigned_take_bit_eq take_bit_int_eq_self)
  then show ?thesis by (simp only: word_uint_eq_iff)
qed

lemma ucast_low:
  assumes "k \<le> 8" "take_bit k (a :: 8 word) = 0"
  shows "ucast (take_bit k (a OR ucast (take_bit k (x :: 32 word)))) = take_bit k x"
  using assms by (intro bit_word_eqI) (auto simp: bit_simps bit_eq_iff)

lemma bit_tests:
  "(b :: 8 word) AND 0x80 = 0 \<longleftrightarrow> \<not> bit b 7" "b AND 0x40 = 0 \<longleftrightarrow> \<not> bit b 6"
  "b AND 0x20 = 0 \<longleftrightarrow> \<not> bit b 5" "b AND 0x10 = 0 \<longleftrightarrow> \<not> bit b 4" "b AND 0x08 = 0 \<longleftrightarrow> \<not> bit b 3"
  using and_exp_eq_0_iff_not_bit[of b 7] and_exp_eq_0_iff_not_bit[of b 6] and_exp_eq_0_iff_not_bit[of b 5]
    and_exp_eq_0_iff_not_bit[of b 4] and_exp_eq_0_iff_not_bit[of b 3]
  by simp_all

lemma bit_low_ucast: "bit (ucast (take_bit k (x :: 32 word)) :: 8 word) n \<longleftrightarrow> n < k \<and> n < 8 \<and> bit x n"
  by (auto simp: bit_simps)

lemma cont_byte: "is_cont (0x80 OR ucast (take_bit 6 (x :: 32 word)))"
proof -
  have "(0x80 OR ucast (take_bit 6 x)) AND 0xc0 = ((0x80 AND 0xc0) OR (ucast (take_bit 6 x) AND 0xc0) :: 8 word)"
    by (rule bit.conj_disj_distrib2)
  also have "ucast (take_bit 6 x) AND 0xc0 = (0 :: 8 word)"
  proof (rule bit_word_eqI)
    fix n assume "n < LENGTH(8)"
    then have "n \<in> {0,1,2,3,4,5,6,7}" by auto
    then show "bit (ucast (take_bit 6 x) AND 0xc0 :: 8 word) n = bit (0 :: 8 word) n"
      by (auto simp: bit_and_iff bit_low_ucast)
  qed
  finally show ?thesis by (simp add: is_cont_def)
qed

lemma bits2:
  "c < 2 ^ 11 \<Longrightarrow> push_bit 6 (take_bit 5 (drop_bit 6 c)) OR take_bit 6 c = (c :: 32 word)"
proof (rule bit_word_eqI)
  fix n assume "c < 2 ^ 11" "n < LENGTH(32)"
  moreover have "bit c n \<longleftrightarrow> n < 11 \<and> bit c n"
    by (subst (1) take_bit_less[OF \<open>c < 2 ^ 11\<close>, symmetric]) (simp_all add: bit_take_bit_iff)
  ultimately show "bit (push_bit 6 (take_bit 5 (drop_bit 6 c)) OR take_bit 6 c) n = bit c n"
    by (auto simp: bit_simps)
qed

lemma bits3:
  "c < 2 ^ 16 \<Longrightarrow> push_bit 12 (take_bit 4 (drop_bit 12 c)) OR push_bit 6 (take_bit 6 (drop_bit 6 c))
     OR take_bit 6 c = (c :: 32 word)"
proof (rule bit_word_eqI)
  fix n assume "c < 2 ^ 16" "n < LENGTH(32)"
  moreover have "bit c n \<longleftrightarrow> n < 16 \<and> bit c n"
    by (subst (1) take_bit_less[OF \<open>c < 2 ^ 16\<close>, symmetric]) (simp_all add: bit_take_bit_iff)
  ultimately show "bit (push_bit 12 (take_bit 4 (drop_bit 12 c)) OR push_bit 6 (take_bit 6 (drop_bit 6 c))
     OR take_bit 6 c) n = bit c n"
    by (cases "n < 6"; cases "n < 12") (auto simp: bit_simps)
qed

lemma bits4:
  "c < 2 ^ 21 \<Longrightarrow> push_bit 18 (take_bit 3 (drop_bit 18 c)) OR push_bit 12 (take_bit 6 (drop_bit 12 c))
     OR push_bit 6 (take_bit 6 (drop_bit 6 c)) OR take_bit 6 c = (c :: 32 word)"
proof (rule bit_word_eqI)
  fix n assume "c < 2 ^ 21" "n < LENGTH(32)"
  moreover have "bit c n \<longleftrightarrow> n < 21 \<and> bit c n"
    by (subst (1) take_bit_less[OF \<open>c < 2 ^ 21\<close>, symmetric]) (simp_all add: bit_take_bit_iff)
  ultimately show "bit (push_bit 18 (take_bit 3 (drop_bit 18 c)) OR push_bit 12 (take_bit 6 (drop_bit 12 c))
     OR push_bit 6 (take_bit 6 (drop_bit 6 c)) OR take_bit 6 c) n = bit c n"
    by (cases "n < 6"; cases "n < 12"; cases "n < 18") (auto simp: bit_simps)
qed

section \<open>Decoding undoes encoding\<close>

lemma cpt_to_utf8_Inr: "(\<exists>e. unicode_cpt_to_utf8 c = Inr e) \<longleftrightarrow> c \<le> 0x10ffff"
  by (auto simp: unicode_cpt_to_utf8_def word_le_nat_alt)

lemma cpt_to_utf8_cases:
  assumes "unicode_cpt_to_utf8 c = Inr e"
  obtains (one) "c < 2 ^ 7" "e = [ucast c]"
  | (two) "c < 2 ^ 11" "e = [0xc0 OR ucast (take_bit 5 (drop_bit 6 c)), 0x80 OR ucast (take_bit 6 c)]"
  | (three) "c < 2 ^ 16" "e = [0xe0 OR ucast (take_bit 4 (drop_bit 12 c)),
      0x80 OR ucast (take_bit 6 (drop_bit 6 c)), 0x80 OR ucast (take_bit 6 c)]"
  | (four) "c < 2 ^ 21" "e = [0xf0 OR ucast (take_bit 3 (drop_bit 18 c)),
      0x80 OR ucast (take_bit 6 (drop_bit 12 c)), 0x80 OR ucast (take_bit 6 (drop_bit 6 c)),
      0x80 OR ucast (take_bit 6 c)]"
proof -
  have le: "c \<le> 0x7f \<Longrightarrow> c < 2 ^ 7" "c \<le> 0x7ff \<Longrightarrow> c < 2 ^ 11" "c \<le> 0xffff \<Longrightarrow> c < 2 ^ 16"
    "c \<le> 0x10ffff \<Longrightarrow> c < 2 ^ 21"
    by (simp_all add: word_less_nat_alt word_le_nat_alt)
  show thesis
    using assms le that by (auto simp: unicode_cpt_to_utf8_def and_masks split: if_splits)
qed

lemma bit_lead:
  "bit (0xc0 :: 8 word) 7" "bit (0xc0 :: 8 word) 6" "\<not> bit (0xc0 :: 8 word) 5"
  "bit (0xe0 :: 8 word) 7" "bit (0xe0 :: 8 word) 6" "bit (0xe0 :: 8 word) 5" "\<not> bit (0xe0 :: 8 word) 4"
  "bit (0xf0 :: 8 word) 7" "bit (0xf0 :: 8 word) 6" "bit (0xf0 :: 8 word) 5" "bit (0xf0 :: 8 word) 4"
  "\<not> bit (0xf0 :: 8 word) 3"
  by simp_all

lemma nth_behind: "(p @ xs) ! length p = xs ! 0" "(p @ xs) ! (length p + n) = xs ! n"
  by (simp_all add: nth_append)

lemma nth_behind_Suc:
  "(p @ xs) ! Suc (length p) = xs ! 1" "(p @ xs) ! Suc (Suc (length p)) = xs ! 2"
  "(p @ xs) ! Suc (Suc (Suc (length p))) = xs ! 3"
  using nth_behind(2)[of p xs 1] nth_behind(2)[of p xs 2] nth_behind(2)[of p xs 3]
  by (simp_all add: numeral_eq_Suc)

lemma low_bits_enc:
  "low_bits (0xc0 OR ucast (take_bit 5 x)) 0x1f = take_bit 5 x"
  "low_bits (0xe0 OR ucast (take_bit 4 x)) 0x0f = take_bit 4 x"
  "low_bits (0xf0 OR ucast (take_bit 3 x)) 0x07 = take_bit 3 x"
  "low_bits (0x80 OR ucast (take_bit 6 x)) 0x3f = take_bit 6 x"
  unfolding low_bits_def and_masks by (rule ucast_low; simp)+

lemma decode_encoded:
  assumes "unicode_cpt_to_utf8 c = Inr e"
  shows "unicode_cpt_from_utf8 (p @ e @ q) (length p) = Inr (c, length p + length e)"
  using assms
proof (cases rule: cpt_to_utf8_cases)
  case one
  have "bit c 7 \<longleftrightarrow> bit (take_bit 7 c) 7" using take_bit_less[OF one(1)] by simp
  then have "\<not> bit (ucast c :: 8 word) 7" by (simp add: bit_simps)
  moreover have "ucast (ucast c :: 8 word) = c"
  proof -
    have "ucast (ucast c :: 8 word) = take_bit 8 c"
      by (rule bit_word_eqI) (auto simp: bit_simps)
    also have "\<dots> = c" using one(1) by (intro take_bit_less) (simp_all add: word_less_nat_alt)
    finally show ?thesis .
  qed
  ultimately show ?thesis using one(2)
    by (simp add: unicode_cpt_from_utf8_def Let_def nth_behind bit_tests)
next
  case two
  then show ?thesis
    by (simp add: unicode_cpt_from_utf8_def Let_def nth_behind nth_behind_Suc bit_tests bit_or_iff bit_lead bit_low_ucast
        cont_byte low_bits_enc bits2)
next
  case three
  then show ?thesis
    by (simp add: unicode_cpt_from_utf8_def Let_def nth_behind nth_behind_Suc bit_tests bit_or_iff bit_lead bit_low_ucast
        cont_byte low_bits_enc bits3)
next
  case four
  then show ?thesis
    by (simp add: unicode_cpt_from_utf8_def Let_def nth_behind nth_behind_Suc bit_tests bit_or_iff bit_lead bit_low_ucast
        cont_byte low_bits_enc bits4)
qed

lemma cpt_to_utf8_nonempty: "unicode_cpt_to_utf8 c = Inr e \<Longrightarrow> e \<noteq> []"
  by (erule cpt_to_utf8_cases) auto

lemma cpt_to_utf8_inj:
  assumes "unicode_cpt_to_utf8 c = Inr e" "unicode_cpt_to_utf8 d = Inr e"
  shows "c = d"
  using decode_encoded[OF assms(1), of "[]" "[]"] decode_encoded[OF assms(2), of "[]" "[]"] by simp

text \<open>Decoding at an offset runs through an encoded text and goes on behind it.\<close>

lemma decode_all_encoded:
  assumes "unicode_cpts_to_utf8 cs = Inr t"
  shows "cpts_from_offset (p @ t @ q) (length p)
    = rbind (cpts_from_offset (p @ t @ q) (length (p @ t))) (\<lambda>r. Inr (cs @ r))"
  using assms
proof (induction cs arbitrary: t p)
  case Nil
  then show ?case by (cases "cpts_from_offset (p @ q) (length p)") auto
next
  case (Cons c cs)
  then obtain e r where e: "unicode_cpt_to_utf8 c = Inr e" and r: "unicode_cpts_to_utf8 cs = Inr r" "t = e @ r"
    by auto
  have "cpts_from_offset (p @ t @ q) (length p)
      = rbind (cpts_from_offset (p @ t @ q) (length (p @ e))) (\<lambda>cs. Inr (c # cs))"
    using decode_encoded[OF e, of p "r @ q"] cpt_to_utf8_nonempty[OF e] r(2)
    by (subst cpts_from_offset.simps) simp
  also have "cpts_from_offset (p @ t @ q) (length (p @ e))
      = rbind (cpts_from_offset (p @ t @ q) (length (p @ t))) (\<lambda>r. Inr (cs @ r))"
    using Cons.IH[OF r(1), of "p @ e"] r(2) by (simp add: add.assoc)
  finally show ?case by (simp add: rbind_assoc)
qed

lemma decode_end [simp]: "cpts_from_offset s (length s) = Inr []"
  by (subst cpts_from_offset.simps) simp

lemma cpts_round_trip:
  "unicode_cpts_to_utf8 cs = Inr t \<Longrightarrow> unicode_cpts_from_utf8 t = Inr cs"
  using decode_all_encoded[of cs t "[]" "[]"] by (simp add: unicode_cpts_from_utf8_def)

lemma cpts_to_utf8_append:
  "unicode_cpts_to_utf8 (as @ bs)
    = rbind (unicode_cpts_to_utf8 as) (\<lambda>s. rbind (unicode_cpts_to_utf8 bs) (\<lambda>t. Inr (s @ t)))"
proof (induction as)
  case Nil
  show ?case by (cases "unicode_cpts_to_utf8 bs") auto
next
  case (Cons a as)
  then show ?case
    by (cases "unicode_cpt_to_utf8 a"; cases "unicode_cpts_to_utf8 as"; cases "unicode_cpts_to_utf8 bs") auto
qed

section \<open>The byte alphabet\<close>

text \<open>The code point that stands for a byte, and its encoding.\<close>

definition enc :: "nat \<Rightarrow> 8 word list" where
  "enc c = projr (unicode_cpt_to_utf8 (of_nat c))"

definition rank :: "nat \<Rightarrow> nat" where
  "rank ch = length (filter (\<lambda>c. c \<notin> set direct_bytes) [0..<ch])"

definition byte_cpt :: "nat \<Rightarrow> nat" where
  "byte_cpt ch = (if ch \<in> set direct_bytes then ch else 256 + rank ch)"

lemma rank_le: "rank ch \<le> ch"
  unfolding rank_def using length_filter_le[of _ "[0..<ch]"] by simp

lemma rank_Suc: "rank (Suc ch) = (if ch \<in> set direct_bytes then rank ch else Suc (rank ch))"
  by (simp add: rank_def)

lemma rank_mono: "a \<le> b \<Longrightarrow> rank a \<le> rank b"
  by (induction rule: dec_induct) (auto simp: rank_Suc)

lemma rank_inj:
  assumes "a \<notin> set direct_bytes" "b \<notin> set direct_bytes" "rank a = rank b"
  shows "a = b"
proof (rule ccontr)
  assume "a \<noteq> b"
  then consider "Suc a \<le> b" | "Suc b \<le> a" by linarith
  then show False
    using rank_mono[of "Suc a" b] rank_mono[of "Suc b" a] assms by cases (auto simp: rank_Suc)
qed

lemma direct_bytes_less: "ch \<in> set direct_bytes \<Longrightarrow> ch < 256"
  by (auto simp: direct_bytes_def)

lemma byte_cpt_inj: "byte_cpt a = byte_cpt b \<Longrightarrow> a = b"
  using direct_bytes_less rank_inj by (fastforce simp: byte_cpt_def split: if_splits)

lemma byte_cpt_less: "ch < 256 \<Longrightarrow> byte_cpt ch < 512"
  using rank_le[of ch] by (auto simp: byte_cpt_def)

lemma encodes: "c < 512 \<Longrightarrow> unicode_cpt_to_utf8 (of_nat c) = Inr (enc c)"
proof -
  assume "c < 512"
  then have "(of_nat c :: 32 word) \<le> 0x10ffff" by (simp add: word_le_nat_alt unat_of_nat)
  then show ?thesis unfolding enc_def using cpt_to_utf8_Inr[of "of_nat c"] by auto
qed

lemma enc_inj: "c < 512 \<Longrightarrow> d < 512 \<Longrightarrow> enc c = enc d \<Longrightarrow> c = d"
proof -
  assume *: "c < 512" "d < 512" "enc c = enc d"
  then have "(of_nat c :: 32 word) = of_nat d" using cpt_to_utf8_inj encodes by metis
  then have "unat (of_nat c :: 32 word) = unat (of_nat d :: 32 word)" by simp
  then show "c = d" using * by (simp add: unat_of_nat)
qed

lemma byte_less: "unat (b :: 8 word) < 256"
  using unsigned_less[of b, where 'a = nat] by simp

lemma of_nat_byte_eq: "a < 256 \<Longrightarrow> (of_nat a = (b :: 8 word)) \<longleftrightarrow> a = unat b"
  by (auto simp: unat_of_nat)


lemma byte_map_direct:
  assumes "set xs \<subseteq> {..<256}"
  shows "rfold (\<lambda>ch m. put_byte_utf8 ch ch m) xs m
    = Inr (\<lambda>b. if unat b \<in> set xs then Some (enc (unat b)) else m b)"
  using assms
proof (induction xs arbitrary: m)
  case (Cons x xs)
  then have "x < 256" by simp
  then have "put_byte_utf8 x x m = Inr (m(of_nat x \<mapsto> enc x))"
    by (simp add: put_byte_utf8_def encodes)
  with Cons show ?case by (auto simp: of_nat_byte_eq unat_of_nat fun_eq_iff)
qed simp

lemma byte_map_filled:
  assumes "k \<le> 256"
  shows "rfold (\<lambda>ch (m, n). if m (of_nat ch) = None
                    then rbind (put_byte_utf8 ch (256 + n) m) (\<lambda>m. Inr (m, n + 1)) else Inr (m, n))
             [0..<k] (\<lambda>b. if unat b \<in> set direct_bytes then Some (enc (unat b)) else None, 0)
    = Inr (\<lambda>b. if unat b \<in> set direct_bytes \<or> unat b < k then Some (enc (byte_cpt (unat b))) else None,
           rank k)"
  using assms
proof (induction k)
  case 0
  then show ?case by (auto simp: byte_cpt_def rank_def)
next
  case (Suc k)
  let ?m = "\<lambda>b :: 8 word. if unat b \<in> set direct_bytes \<or> unat b < k then Some (enc (byte_cpt (unat b))) else None"
  have k: "unat (of_nat k :: 8 word) = k" using Suc.prems by (simp add: unat_of_nat)
  have "rank k < 256" using rank_le[of k] Suc.prems by simp
  then have put: "put_byte_utf8 k (256 + rank k) ?m = Inr (?m(of_nat k \<mapsto> enc (256 + rank k)))"
    using encodes[of "256 + rank k"] by (simp add: put_byte_utf8_def)
  show ?case
  proof (cases "k \<in> set direct_bytes")
    case True
    then show ?thesis using Suc k
      by (auto simp: rfold_append rank_Suc fun_eq_iff less_Suc_eq)
  next
    case False
    then have "?m(of_nat k \<mapsto> enc (256 + rank k))
      = (\<lambda>b. if unat b \<in> set direct_bytes \<or> unat b < Suc k then Some (enc (byte_cpt (unat b))) else None)"
      using Suc.prems k by (auto simp: fun_eq_iff byte_cpt_def less_Suc_eq of_nat_byte_eq[symmetric])
    then show ?thesis using Suc k put False by (simp add: rfold_append rank_Suc)
  qed
qed

lemma byte_to_utf8_map:
  "unicode_byte_to_utf8_map = Inr (\<lambda>b. Some (enc (byte_cpt (unat b))))"
proof -
  have "set direct_bytes \<subseteq> {..<256}" using direct_bytes_less by auto
  note d = byte_map_direct[OF this, of Map.empty]
  show ?thesis
    unfolding unicode_byte_to_utf8_map_def d
    using byte_map_filled[of 256] byte_less by simp
qed

lemma byte_to_utf8: "unicode_byte_to_utf8 b = Inr (enc (byte_cpt (unat b)))"
  by (simp add: unicode_byte_to_utf8_def byte_to_utf8_map)

text \<open>The inverse map, by the invariant that it holds exactly the bytes entered so far.\<close>

definition byte_entries :: "(nat \<Rightarrow> bool) \<Rightarrow> (8 word list \<rightharpoonup> 8 word) \<Rightarrow> bool" where
  "byte_entries P m \<longleftrightarrow>
     (\<forall>s b. m s = Some b \<longleftrightarrow> P (unat b) \<and> s = enc (byte_cpt (unat b)))"

lemma byte_entries_put:
  assumes "byte_entries P m" "ch < 256" "byte_cpt ch = c"
  shows "\<exists>m'. put_utf8_byte c ch m = Inr m' \<and> byte_entries (\<lambda>x. P x \<or> x = ch) m'"
proof -
  have c: "c < 512" using assms byte_cpt_less by blast
  have ch: "unat (of_nat ch :: 8 word) = ch" using assms(2) by (simp add: unat_of_nat)
  have "put_utf8_byte c ch m = Inr (m(enc c \<mapsto> of_nat ch))"
    by (simp add: put_utf8_byte_def encodes[OF c])
  moreover have "byte_entries (\<lambda>x. P x \<or> x = ch) (m(enc c \<mapsto> of_nat ch))"
    unfolding byte_entries_def
  proof (intro allI)
    fix s and b :: "8 word"
    have b: "byte_cpt (unat b) < 512" using byte_cpt_less[OF byte_less] .
    have "enc c = enc (byte_cpt (unat b)) \<longleftrightarrow> ch = unat b"
      using enc_inj[OF c b] byte_cpt_inj assms(3) by auto
    moreover have "of_nat ch = b \<longleftrightarrow> ch = unat b" using assms(2) by (rule of_nat_byte_eq)
    ultimately show "(m(enc c \<mapsto> of_nat ch)) s = Some b
        \<longleftrightarrow> (P (unat b) \<or> unat b = ch) \<and> s = enc (byte_cpt (unat b))"
      using assms(1) unfolding byte_entries_def by (cases "s = enc c") auto
  qed
  ultimately show ?thesis by blast
qed


lemma byte_entries_empty: "byte_entries (\<lambda>_. False) Map.empty"
  by (simp add: byte_entries_def)

lemma byte_entries_cong: "byte_entries P m \<Longrightarrow> (\<And>x. x < 256 \<Longrightarrow> P x = Q x) \<Longrightarrow> byte_entries Q m"
  by (simp add: byte_entries_def byte_less)

lemma utf8_map_direct:
  assumes "set xs \<subseteq> set direct_bytes" "byte_entries P m"
  shows "\<exists>m'. rfold (\<lambda>ch m. put_utf8_byte ch ch m) xs m = Inr m' \<and> byte_entries (\<lambda>x. P x \<or> x \<in> set xs) m'"
  using assms
proof (induction xs arbitrary: m P)
  case (Cons x xs)
  then have "x < 256" "byte_cpt x = x" using direct_bytes_less by (auto simp: byte_cpt_def)
  from byte_entries_put[OF Cons.prems(2) this] obtain m1 where
    m1: "put_utf8_byte x x m = Inr m1" "byte_entries (\<lambda>y. P y \<or> y = x) m1" by blast
  from Cons.IH[OF _ m1(2)] Cons.prems(1) obtain m' where
    "rfold (\<lambda>ch m. put_utf8_byte ch ch m) xs m1 = Inr m'"
    "byte_entries (\<lambda>y. (P y \<or> y = x) \<or> y \<in> set xs) m'" by auto
  then show ?case using m1(1) by (auto elim: byte_entries_cong)
qed auto

definition fill_utf8 :: "nat \<Rightarrow> (8 word list \<rightharpoonup> 8 word) \<times> nat \<Rightarrow> ((8 word list \<rightharpoonup> 8 word) \<times> nat) res" where
  "fill_utf8 ch = (\<lambda>(m, n). rbind (unicode_cpt_to_utf8 (of_nat ch)) (\<lambda>s.
                    if m s = None
                    then rbind (put_utf8_byte (256 + n) ch m) (\<lambda>m. Inr (m, n + 1)) else Inr (m, n)))"

lemma fill_utf8_step:
  "k < 256 \<Longrightarrow> fill_utf8 k (m, n) =
     (if m (enc k) = None then rbind (put_utf8_byte (256 + n) k m) (\<lambda>m. Inr (m, n + 1)) else Inr (m, n))"
  by (simp add: fill_utf8_def encodes)

lemma utf8_map_filled:
  assumes "byte_entries (\<lambda>x. x \<in> set direct_bytes) m" "k \<le> 256"
  shows "\<exists>m'. rfold fill_utf8 [0..<k] (m, 0) = Inr (m', rank k)
    \<and> byte_entries (\<lambda>x. x \<in> set direct_bytes \<or> x < k) m'"
  using assms(2)
proof (induction k)
  case 0
  then show ?case using assms(1) by (simp add: rank_def)
next
  case (Suc k)
  then obtain m' where m': "rfold fill_utf8 [0..<k] (m, 0) = Inr (m', rank k)"
    "byte_entries (\<lambda>x. x \<in> set direct_bytes \<or> x < k) m'" by auto
  have k: "k < 256" using Suc.prems by simp
  have free: "m' (enc k) = None \<longleftrightarrow> k \<notin> set direct_bytes"
  proof -
    have "m' (enc k) = Some b \<longleftrightarrow> unat b \<in> set direct_bytes \<and> unat b = k" for b
      using enc_inj[OF _ byte_cpt_less[OF byte_less[of b]], of k] k m'(2)
      unfolding byte_entries_def by (auto simp: byte_cpt_def)
    moreover have "unat (of_nat k :: 8 word) = k" using k by (simp add: unat_of_nat)
    ultimately show ?thesis by (metis not_None_eq)
  qed
  show ?case
  proof (cases "k \<in> set direct_bytes")
    case True
    with free m' k show ?thesis
      by (auto simp: rfold_append fill_utf8_step rank_Suc less_Suc_eq elim!: byte_entries_cong)
  next
    case False
    then have "byte_cpt k = 256 + rank k" by (simp add: byte_cpt_def)
    from byte_entries_put[OF m'(2) k this] obtain m2 where
      "put_utf8_byte (256 + rank k) k m' = Inr m2"
      "byte_entries (\<lambda>x. (x \<in> set direct_bytes \<or> x < k) \<or> x = k) m2" by blast
    with False free m' k show ?thesis
      by (auto simp: rfold_append fill_utf8_step rank_Suc less_Suc_eq elim!: byte_entries_cong)
  qed
qed

lemma utf8_to_byte_map: "\<exists>m. unicode_utf8_to_byte_map = Inr m \<and> byte_entries (\<lambda>_. True) m"
proof -
  from utf8_map_direct[OF order_refl byte_entries_empty] obtain m where
    m: "rfold (\<lambda>ch m. put_utf8_byte ch ch m) direct_bytes Map.empty = Inr m"
    "byte_entries (\<lambda>x. x \<in> set direct_bytes) m" by auto
  from utf8_map_filled[OF m(2), of 256] obtain m' where
    m': "rfold fill_utf8 [0..<256] (m, 0) = Inr (m', rank 256)" and
    e: "byte_entries (\<lambda>x. x \<in> set direct_bytes \<or> x < 256) m'" by auto
  have "byte_entries (\<lambda>_. True) m'" using e by (rule byte_entries_cong) simp
  moreover have "unicode_utf8_to_byte_map = Inr m'"
    using m(1) m' unfolding unicode_utf8_to_byte_map_def fill_utf8_def by simp
  ultimately show ?thesis by blast
qed

lemma utf8_to_byte_iff:
  "unicode_utf8_to_byte s = Inr b \<longleftrightarrow> unicode_byte_to_utf8 b = Inr s"
proof -
  obtain m where m: "unicode_utf8_to_byte_map = Inr m" and e: "byte_entries (\<lambda>_. True) m"
    using utf8_to_byte_map by blast
  have "unicode_utf8_to_byte s = Inr b \<longleftrightarrow> m s = Some b"
    by (simp add: unicode_utf8_to_byte_def m split: option.split)
  also have "\<dots> \<longleftrightarrow> s = enc (byte_cpt (unat b))" using e by (simp add: byte_entries_def)
  finally show ?thesis by (auto simp: byte_to_utf8)
qed

lemma encode_bytes_total: "\<exists>s. encode_bytes bs = Inr s"
  by (induction bs) (auto simp: byte_to_utf8)

lemma encode_bytes_cpts:
  "encode_bytes bs = Inr s \<Longrightarrow> unicode_cpts_to_utf8 (map (\<lambda>b. of_nat (byte_cpt (unat b))) bs) = Inr s"
proof (induction bs arbitrary: s)
  case (Cons b bs)
  then show ?case using encodes[OF byte_cpt_less[OF byte_less[of b]]] by (auto simp: byte_to_utf8)
qed simp

text \<open>The length announced by the first byte of an encoding is its length.\<close>

lemma drop_bit_lead:
  "drop_bit 4 (a OR ucast (take_bit 3 (x :: 32 word)) :: 8 word) = drop_bit 4 a"
  "drop_bit 4 (a OR ucast (take_bit 4 x) :: 8 word) = drop_bit 4 a"
  "drop_bit 4 (a OR ucast (take_bit 5 x) :: 8 word) = (if bit x 4 then drop_bit 4 a OR 1 else drop_bit 4 a)"
  by (rule bit_word_eqI; auto simp: bit_simps)+

lemma unat_drop_bit_4: "unat (drop_bit 4 (b :: 8 word)) = unat b div 16"
  by (simp add: drop_bit_eq_div unat_div_distrib)

lemma len_utf8_lead:
  assumes "unicode_cpt_to_utf8 c = Inr e"
  shows "unicode_len_utf8 (hd e) = length e"
  using assms
proof (cases rule: cpt_to_utf8_cases)
  case one
  then have "unat c < 128" by (simp add: word_less_nat_alt)
  then have "unat (ucast c :: 8 word) < 128" by (simp add: unsigned_ucast_eq take_bit_eq_mod)
  then have "unat (drop_bit 4 (ucast c :: 8 word)) < 8" unfolding unat_drop_bit_4 by simp
  moreover have "[1, 1, 1, 1, 1, 1, 1, 1, 1, 1, 1, 1, 2, 2, 3, 4] ! k = (1 :: nat)" if "k < 8" for k
    using that by (auto simp: less_Suc_eq numeral_eq_Suc)
  ultimately show ?thesis using one(2) by (simp add: unicode_len_utf8_def)
qed (simp_all only: unicode_len_utf8_def list.sel drop_bit_lead, auto)

text \<open>The byte alphabet has no blank and no line break, and encoding can be undone.\<close>

lemma low_byte_alone:
  assumes "unicode_cpt_to_utf8 c = Inr e" "b \<in> set e" "\<not> bit b 7"
  shows "c = ucast b"
  using assms(1)
proof (cases rule: cpt_to_utf8_cases)
  case one
  then have "unat c < 128" by (simp add: word_less_nat_alt)
  then have "unat (ucast (ucast c :: 8 word) :: 32 word) = unat c"
    by (simp add: unsigned_ucast_eq take_bit_eq_mod unat_mod_distrib)
  then have "ucast (ucast c :: 8 word) = c" by (simp only: word_unat_eq_iff)
  then show ?thesis using one assms(2) by simp
qed (use assms(2,3) bit_lead in \<open>auto simp: bit_or_iff\<close>)

lemma byte_alphabet_breaks:
  assumes "ch < 256"
  shows "0x20 \<notin> set (enc (byte_cpt ch)) \<and> 0x0A \<notin> set (enc (byte_cpt ch))"
proof -
  have e: "unicode_cpt_to_utf8 (of_nat (byte_cpt ch)) = Inr (enc (byte_cpt ch))"
    using encodes[OF byte_cpt_less[OF assms]] .
  have c: "unat (of_nat (byte_cpt ch) :: 32 word) = byte_cpt ch" "byte_cpt ch \<noteq> 0x20" "byte_cpt ch \<noteq> 0x0A"
    using byte_cpt_less[OF assms] by (simp add: unat_of_nat, auto simp: byte_cpt_def direct_bytes_def)
  have "\<not> bit (0x20 :: 8 word) 7" "\<not> bit (0x0A :: 8 word) 7" by (simp_all add: bit_numeral_rec)
  from low_byte_alone[OF e _ this(1)] low_byte_alone[OF e _ this(2)] c show ?thesis
    by (auto dest!: arg_cong[of _ _ unat])
qed

end
