(* ===== verification/UnicodeSplitProps.thy ===== *)
theory UnicodeSplitProps
  imports UnicodeProps
begin

text \<open>
  Both hand-written splitters move forward by at least one code point in every step, emit
  exactly the lengths they moved over, and so cut every window into non-empty pieces that add
  up to it.  The step is the interface of the locale \<open>forward_step\<close>; its two interpretations
  are the splitters.
\<close>

section \<open>Positions and flags\<close>

lemma scan_ge: "pos \<le> scan P w pos"
proof (induction P w pos rule: scan.induct)
  case (1 P w pos)
  then show ?case by (subst scan.simps) auto
qed

lemma scan_le: "pos \<le> w_end w \<Longrightarrow> scan P w pos \<le> w_end w"
proof (induction P w pos rule: scan.induct)
  case (1 P w pos)
  then show ?case by (subst scan.simps) auto
qed

text \<open>The equation of the source's loop, for tests that fail on the empty flags.\<close>

lemma scan_loop:
  "\<not> P 0 \<Longrightarrow> scan P w pos = (if P (get_flags w pos) then scan P w (pos + 1) else pos)"
  by (subst scan.simps) (auto simp: get_flags_def)

lemma scan_step: "pos < w_end w \<Longrightarrow> P (get_flags w pos) \<Longrightarrow> pos < scan P w pos"
  by (subst scan.simps) (use scan_ge[of "Suc pos" P w] in auto)

lemma no_flags [simp]: "\<not> is_letter 0" "\<not> is_number 0" "\<not> is_whitespace 0" "\<not> is_other 0"
  by (simp_all add: is_letter_def is_number_def is_whitespace_def is_other_def)

lemma flags_inside: "P (get_flags w pos) \<Longrightarrow> \<not> P 0 \<Longrightarrow> pos < w_end w"
  by (auto simp: get_flags_def split: if_splits)

lemma scan_crlf_bounds:
  "pos \<le> scan_crlf w pos \<and> (pos \<le> w_end w \<longrightarrow> scan_crlf w pos \<le> w_end w)"
proof (induction w pos rule: scan_crlf.induct)
  case (1 w pos)
  then show ?case by (subst (1 2) scan_crlf.simps) auto
qed

lemma last_end_crlf_Suc:
  "last_end_crlf w pos (Suc fin) = (if pos \<le> fin \<and> is_crlf (get_cpt w fin) then fin + 1
      else last_end_crlf w pos fin)"
  by (simp add: last_end_crlf_def)

lemma last_end_crlf_bounds:
  "last_end_crlf w pos fin = 0 \<or> pos < last_end_crlf w pos fin \<and> last_end_crlf w pos fin \<le> fin"
proof (induction fin)
  case (Suc fin)
  then show ?case by (auto simp: last_end_crlf_Suc)
qed (simp add: last_end_crlf_def)

section \<open>Moving forward\<close>

text \<open>
  From \<open>pos\<close> with everything before it emitted, a step ends at a later position inside the
  window with everything before that emitted, in non-empty pieces.
\<close>

definition moved :: "window \<Rightarrow> nat \<Rightarrow> splitting \<Rightarrow> (nat \<times> splitting) res \<Rightarrow> bool" where
  "moved w pos s r \<longleftrightarrow>
     (\<exists>pos' ls. r = Inr (pos', \<lparr>s_prev_end = pos', s_offsets = s_offsets s @ ls\<rparr>)
        \<and> pos < pos' \<and> pos' \<le> w_end w \<and> sum_list ls = pos' - pos \<and> 0 \<notin> set ls)"

lemma add_token_exact:
  assumes "s_prev_end s = pos" "pos < fin" "fin \<le> w_end w"
  shows "add_token w fin s = Inr (fin - pos, \<lparr>s_prev_end = fin, s_offsets = s_offsets s @ [fin - pos]\<rparr>)"
  using assms by (simp add: add_token_def Let_def)

lemma moved_token:
  assumes "s_prev_end s = pos" "pos < fin" "fin \<le> w_end w"
  shows "moved w pos s (rbind (add_token w fin s) (\<lambda>(n, s). Inr (fin, s)))"
    and "moved w pos s (rbind (add_token w fin s) (\<lambda>(n, s). Inr (pos + n, s)))"
  using assms by (auto simp: moved_def add_token_exact)

lemma moved_if:
  "(c \<Longrightarrow> moved w pos s a) \<Longrightarrow> (\<not> c \<Longrightarrow> moved w pos s b) \<Longrightarrow> moved w pos s (if c then a else b)"
  by simp

text \<open>The run of a scanning loop that starts behind an optional space.\<close>

lemma scan_run:
  assumes "pos < w_end w" "\<not> P 0" "P (if space then get_flags w (pos + 1) else get_flags w pos)"
  shows "pos < scan P w (if space then pos + 1 else pos)" "scan P w (if space then pos + 1 else pos) \<le> w_end w"
  using assms flags_inside[of P w "pos + 1"] scan_step[of "pos + 1" w P] scan_step[of pos w P]
    scan_le[of "pos + 1" w P] scan_le[of pos w P] by (auto split: if_splits)

locale forward_step =
  fixes step :: "window \<Rightarrow> nat \<Rightarrow> splitting \<Rightarrow> (nat \<times> splitting) res"
  assumes step_moves:
    "w_ini w \<le> pos \<Longrightarrow> pos < w_end w \<Longrightarrow> s_prev_end s = pos \<Longrightarrow> moved w pos s (step w pos s)"
begin

lemma split_loop_total:
  assumes "w_ini w \<le> pos" "pos \<le> w_end w" "s_prev_end s = pos" "w_end w - pos \<le> fuel"
  shows "\<exists>ls. split_loop step fuel w pos s
      = Inr \<lparr>s_prev_end = w_end w, s_offsets = s_offsets s @ ls\<rparr>
    \<and> sum_list ls = w_end w - pos \<and> 0 \<notin> set ls"
  using assms
proof (induction fuel arbitrary: pos s)
  case 0
  then show ?case by (intro exI[of _ "[]"]) (cases s; simp)
next
  case (Suc fuel)
  show ?case
  proof (cases "pos < w_end w")
    case False
    with Suc.prems show ?thesis by (intro exI[of _ "[]"]) (cases s; simp)
  next
    case True
    from step_moves[OF Suc.prems(1) True Suc.prems(3)] obtain pos' ls where
      st: "step w pos s = Inr (pos', \<lparr>s_prev_end = pos', s_offsets = s_offsets s @ ls\<rparr>)"
      "pos < pos'" "pos' \<le> w_end w" "sum_list ls = pos' - pos" "0 \<notin> set ls"
      unfolding moved_def by blast
    have "w_ini w \<le> pos'" "w_end w - pos' \<le> fuel" using Suc.prems st(2) by simp_all
    from Suc.IH[of pos' "\<lparr>s_prev_end = pos', s_offsets = s_offsets s @ ls\<rparr>", OF this(1) st(3) _ this(2)]
    obtain ls' where "split_loop step fuel w pos' \<lparr>s_prev_end = pos', s_offsets = s_offsets s @ ls\<rparr>
        = Inr \<lparr>s_prev_end = w_end w, s_offsets = s_offsets s @ ls @ ls'\<rparr>"
      "sum_list ls' = w_end w - pos'" "0 \<notin> set ls'" by auto
    with st True show ?thesis by (intro exI[of _ "ls @ ls'"]) simp
  qed
qed

text \<open>Every window of the input becomes a run of non-empty pieces that adds up to it.\<close>

lemma split_windows_pieces:
  assumes "start + sum_list offs \<le> length cpts"
  shows "\<exists>pieces. split_windows step D cpts start offs out = Inr (out @ concat pieces)
    \<and> map sum_list pieces = offs \<and> 0 \<notin> set (concat pieces)"
  using assms
proof (induction offs arbitrary: start out)
  case Nil
  show ?case by (intro exI[of _ "[]"]) simp
next
  case (Cons off offs)
  let ?w = "\<lparr>w_data = D, w_cpts = cpts, w_ini = start, w_end = start + off\<rparr>"
  from split_loop_total[of ?w start "\<lparr>s_prev_end = start, s_offsets = out\<rparr>" off]
  obtain ls where ls: "split_loop step off ?w start \<lparr>s_prev_end = start, s_offsets = out\<rparr>
      = Inr \<lparr>s_prev_end = start + off, s_offsets = out @ ls\<rparr>" "sum_list ls = off" "0 \<notin> set ls"
    by auto
  from Cons.IH[of "start + off" "out @ ls"] Cons.prems obtain pieces where
    "split_windows step D cpts (start + off) offs (out @ ls) = Inr ((out @ ls) @ concat pieces)"
    "map sum_list pieces = offs" "0 \<notin> set (concat pieces)" by (auto simp: add.assoc)
  with ls Cons.prems show ?case by (intro exI[of _ "ls # pieces"]) (simp add: Let_def guard_def)
qed

end

section \<open>The two splitters\<close>

lemma gpt2_step_moves:
  assumes pos: "w_ini w \<le> pos" "pos < w_end w" and s: "s_prev_end s = pos"
  shows "moved w pos s (gpt2_step w pos s)"
  unfolding gpt2_step_def whitespace_step_def Let_def
  by (intro moved_if moved_token[OF s] scan_run[OF pos(2)])
    (use pos scan_le[of pos w is_whitespace] in \<open>simp_all, (linarith+)?\<close>)

interpretation gpt2: forward_step gpt2_step
  by unfold_locales (rule gpt2_step_moves)

text \<open>The number loop of the LLaMA-3 splitter cuts a run of digits into threes.\<close>

fun threes :: "nat \<Rightarrow> nat list" where
  "threes n = (if n = 0 then [] else if n < 3 then [n] else 3 # threes (n - 3))"

declare threes.simps [simp del]

lemma threes_step: "3 \<le> n \<Longrightarrow> threes n = 3 # threes (n - 3)"
  by (subst threes.simps) simp

lemma threes_pieces: "sum_list (threes n) = n \<and> 0 \<notin> set (threes n)"
  by (induction n rule: threes.induct) (subst (1 2) threes.simps, auto)

lemma llama3_numbers_threes:
  assumes "ini \<le> pos" "pos \<le> w_end w" "pos - ini < 3" "s_prev_end s = ini"
  shows "rbind (llama3_numbers w ini pos s) (\<lambda>(pos, s). rbind (add_token w pos s) (\<lambda>(_, s). Inr (pos, s)))
    = Inr (scan is_number w pos, \<lparr>s_prev_end = scan is_number w pos,
        s_offsets = s_offsets s @ threes (scan is_number w pos - ini)\<rparr>)"
  using assms
proof (induction w ini pos s rule: llama3_numbers.induct)
  case (1 w ini pos s)
  show ?case
  proof (cases "pos < w_end w \<and> is_number (get_flags w pos)")
    case False
    then have "scan is_number w pos = pos" by (subst scan.simps) auto
    moreover have "threes (pos - ini) = (if pos = ini then [] else [pos - ini])"
      using 1(3,5) by (subst threes.simps) auto
    ultimately show ?thesis
      using False 1(3-6) by (subst llama3_numbers.simps) (auto simp: add_token_def Let_def)
  next
    case True
    then have sc: "scan is_number w pos = scan is_number w (pos + 1)" by (subst scan.simps) auto
    show ?thesis
    proof (cases "pos + 1 - ini \<ge> 3")
      case True': True
      then have fin: "pos + 1 = ini + 3" using 1(3,5) by simp
      have tok: "add_token w (pos + 1) s
          = Inr (3, \<lparr>s_prev_end = pos + 1, s_offsets = s_offsets s @ [3]\<rparr>)"
        using True fin 1(6) by (simp add: add_token_exact)
      have "threes (scan is_number w (pos + 1) - ini) = 3 # threes (scan is_number w (pos + 1) - (pos + 1))"
        using threes_step[of "scan is_number w (pos + 1) - ini"] fin scan_ge[of "pos + 1" is_number w]
        by (simp add: numeral_3_eq_3)
      then show ?thesis
        using 1(1)[OF True True' tok refl] True True' tok sc
        by (subst llama3_numbers.simps) simp
    next
      case False': False
      then show ?thesis
        using 1(2)[OF True False'] 1(3-6) True sc by (subst llama3_numbers.simps) simp
    qed
  qed
qed

lemma moved_numbers:
  assumes "w_ini w \<le> pos" "pos < w_end w" "s_prev_end s = pos" "is_number (get_flags w pos)"
  shows "moved w pos s (rbind (llama3_numbers w pos pos s)
    (\<lambda>(pos, s). rbind (add_token w pos s) (\<lambda>(_, s). Inr (pos, s))))"
  using assms llama3_numbers_threes[of pos pos w s] threes_pieces scan_step[of pos w is_number]
    scan_le[of pos w is_number]
  by (simp add: moved_def)

lemma llama3_step_moves:
  assumes pos: "w_ini w \<le> pos" "pos < w_end w" and s: "s_prev_end s = pos"
  shows "moved w pos s (llama3_step w pos s)"
proof -
  let ?space = "get_cpt w pos = ascii CHR '' ''"
  let ?p = "if ?space then pos + 1 else pos"
  let ?f = "if ?space then get_flags w (pos + 1) else get_flags w pos"
  have other: "pos < scan_crlf w (scan is_other w ?p)" "scan_crlf w (scan is_other w ?p) \<le> w_end w"
    if "\<not> (is_whitespace ?f \<or> is_letter ?f \<or> is_number ?f) \<and> get_flags w pos \<noteq> 0"
  proof -
    have "pos < scan is_other w ?p"
    proof (cases ?space)
      case True
      then show ?thesis using scan_ge[of "pos + 1" is_other w] by simp
    next
      case False
      then show ?thesis using that pos scan_step[of pos w is_other] by (auto simp: is_other_def)
    qed
    moreover have "scan is_other w ?p \<le> w_end w" using pos by (auto intro!: scan_le)
    ultimately show "pos < scan_crlf w (scan is_other w ?p)" "scan_crlf w (scan is_other w ?p) \<le> w_end w"
      using scan_crlf_bounds[of "scan is_other w ?p" w] by auto
  qed
  have letters: "pos < scan is_letter w (pos + 1)" "scan is_letter w (pos + 1) \<le> w_end w"
    using pos scan_ge[of "pos + 1" is_letter w] scan_le[of "pos + 1" w is_letter] by auto
  show ?thesis
    unfolding llama3_step_def whitespace_step_def Let_def
    by (intro moved_if moved_token[OF s] moved_numbers[OF pos s] other letters)
      (use pos scan_le[of pos w is_whitespace]
         last_end_crlf_bounds[of w pos "pos + (scan is_whitespace w pos - pos)"] in \<open>simp_all, (linarith+)?\<close>)
qed

interpretation llama3: forward_step llama3_step
  by unfold_locales (rule llama3_step_moves)

end
