(* ===== verification/UnicodeRegexProps.thy ===== *)
theory UnicodeRegexProps
  imports UnicodeRegex UnicodeSplitProps
begin

text \<open>
  The hand-written splitters against their expressions: how the first match of each
  alternative is found, what the scanning loops of the source compute on the rest of the
  window, and that every step takes exactly the first match.
\<close>

section \<open>First matches\<close>

lemma head_option_append: "head_option (xs @ ys) = (if xs = [] then head_option ys else head_option xs)"
  by (cases xs) auto

lemma head_option_None: "head_option xs = None \<longleftrightarrow> xs = []"
  by (cases xs) auto

lemma head_option_map: "head_option (map f xs) = map_option f (head_option xs)"
  by (cases xs) auto

lemma first_Alt: "rx_first (Alt a b) s = (case rx_first a s of None \<Rightarrow> rx_first b s | Some n \<Rightarrow> Some n)"
  by (cases "rx_matches a s") (auto simp: rx_first_def)

lemma chr_matches: "rx_matches (chr P) s = (if s \<noteq> [] \<and> P (hd s) then [Suc 0] else [])"
  by (cases s) (auto simp: chr_def run_def)

lemma opt_matches: "rx_matches (opt P) s = (if s \<noteq> [] \<and> P (hd s) then [Suc 0, 0] else [0])"
  by (cases s) (auto simp: opt_def run_def)

lemma plus_Suc_0: "(+) (Suc 0) = Suc" "(+) 0 = (\<lambda>n :: nat. n)"
  by auto

lemma first_chr_Seq:
  "rx_first (Seq (chr P) r) s = (if s \<noteq> [] \<and> P (hd s) then map_option Suc (rx_first r (tl s)) else None)"
  by (cases s) (auto simp: rx_first_def chr_matches head_option_map plus_Suc_0)

lemma first_chr: "rx_first (chr P) s = (if s \<noteq> [] \<and> P (hd s) then Some 1 else None)"
  by (simp add: rx_first_def chr_matches)

lemma first_opt_Seq:
  "rx_first (Seq (opt P) r) s =
     (if s \<noteq> [] \<and> P (hd s) \<and> rx_first r (tl s) \<noteq> None then map_option Suc (rx_first r (tl s))
      else rx_first r s)"
  by (cases s) (auto simp: rx_first_def opt_matches head_option_map head_option_None
      head_option_append plus_Suc_0)

lemma run_0: "run P s = 0 \<longleftrightarrow> s = [] \<or> \<not> P (hd s)"
  by (cases s) (auto simp: run_def)

lemma first_plus1: "rx_first (plus1 P) s = (if run P s = 0 then None else Some (run P s))"
  by (auto simp: rx_first_def plus1_def)

lemma first_upto: "0 < h \<Longrightarrow> rx_first (Rep P 1 (Some h)) s = (if run P s = 0 then None else Some (min h (run P s)))"
  by (auto simp: rx_first_def min_def)

lemma plus1_star_matches:
  "rx_matches (plus1 P) s = rev [1..<Suc (run P s)]" "rx_matches (star P) s = rev [0..<Suc (run P s)]"
  by (simp_all add: plus1_def star_def)

lemma first_plus1_star:
  "rx_first (Seq (plus1 P) (star Q)) s =
     (if run P s = 0 then None else Some (run P s + run Q (drop (run P s) s)))"
  by (auto simp: rx_first_def plus1_star_matches)

lemma run_le: "run P s \<le> length s"
  by (simp add: run_def length_takeWhile_le)

lemma run_drop: "run P s = length s \<or> \<not> P (hd (drop (run P s) s)) \<and> run P s < length s"
  by (induction s) (auto simp: run_def)

lemma run_nth: "i < run P s \<Longrightarrow> P (s ! i)"
  unfolding run_def by (metis nth_mem set_takeWhileD takeWhile_nth)

text \<open>\<open>\s+(?!\S)\<close>: all of the run at the end of the text, one less before other text.\<close>

lemma first_spaces:
  "rx_first (spaces_rx D) s =
     (let n = run (cls D is_whitespace) s in
      if n = 0 then None else if n = length s then Some n else if n = 1 then Some 1 else Some (n - 1))"
proof -
  let ?P = "cls D is_whitespace" and ?n = "run (cls D is_whitespace) s"
  let ?f = "\<lambda>n. map ((+) n) (rx_matches (Not_ahead (\<lambda>c. \<not> ?P c)) (drop n s))"
  have m: "rx_matches (Seq (plus1 ?P) (Not_ahead (\<lambda>c. \<not> ?P c))) s = concat (map ?f (rev [1..<Suc ?n]))"
    by (simp add: plus1_def)
  have top: "?f ?n = (if ?n = length s then [?n] else [])"
    using run_drop[of ?P s] by auto
  have below: "?f (?n - 1) = [?n - 1]" if "1 < ?n"
  proof -
    have "?n - 1 < length s" using that run_le[of ?P s] by simp
    then have "hd (drop (?n - 1) s) = s ! (?n - 1)" by (simp add: hd_drop_conv_nth)
    then show ?thesis using run_nth[of "?n - 1" ?P s] that by simp
  qed
  consider "?n = 0" | "?n = 1" | k where "?n = Suc (Suc k)" by (metis One_nat_def not0_implies_Suc)
  then show ?thesis
  proof cases
    case 3
    then have "rev [1..<Suc ?n] = ?n # (?n - 1) # rev [1..<?n - 1]" by simp
    then have "rx_matches (Seq (plus1 ?P) (Not_ahead (\<lambda>c. \<not> ?P c))) s
        = ?f ?n @ ?f (?n - 1) @ concat (map ?f (rev [1..<?n - 1]))"
      unfolding m by (simp only: list.map concat.simps)
    then show ?thesis using 3 top below by (simp add: spaces_rx_def rx_first_def)
  qed (use m top in \<open>auto simp: spaces_rx_def rx_first_def plus1_def\<close>)
qed

section \<open>The rest of the window\<close>

definition rest :: "window \<Rightarrow> nat \<Rightarrow> 32 word list" where
  "rest w pos = take (w_end w - pos) (drop pos (w_cpts w))"

text \<open>A window inside the text, and no code point that looks like the end of the window.\<close>

definition window_ok :: "window \<Rightarrow> bool" where
  "window_ok w \<longleftrightarrow> w_end w \<le> length (w_cpts w) \<and> OUT_OF_RANGE \<notin> set (w_cpts w)"

lemma length_rest: "window_ok w \<Longrightarrow> length (rest w pos) = w_end w - pos"
  by (auto simp: rest_def window_ok_def min_def)

lemma rest_Nil: "w_end w \<le> pos \<Longrightarrow> rest w pos = []"
  by (simp add: rest_def)

lemma drop_rest: "drop n (rest w pos) = rest w (pos + n)"
  by (simp add: rest_def drop_take add.commute)

lemma rest_Cons:
  assumes "window_ok w" "w_ini w \<le> pos" "pos < w_end w"
  shows "rest w pos = get_cpt w pos # rest w (Suc pos)"
proof -
  have "pos < length (w_cpts w)" using assms by (simp add: window_ok_def)
  then have "drop pos (w_cpts w) = w_cpts w ! pos # drop (Suc pos) (w_cpts w)"
    by (simp add: Cons_nth_drop_Suc)
  moreover have "w_end w - pos = Suc (w_end w - Suc pos)" using assms(3) by simp
  ultimately show ?thesis using assms by (simp add: rest_def get_cpt_def)
qed

lemma flags_cls: "w_ini w \<le> pos \<Longrightarrow> pos < w_end w \<Longrightarrow> f (get_flags w pos) = cls (w_data w) f (get_cpt w pos)"
  by (simp add: get_flags_def cls_def get_cpt_def)

lemma flags_next:
  assumes "window_ok w" "w_ini w \<le> pos" "\<not> f 0"
  shows "f (get_flags w pos) \<longleftrightarrow> 0 < run (cls (w_data w) f) (rest w pos)"
proof (cases "pos < w_end w")
  case True
  then show ?thesis using assms by (simp add: flags_cls rest_Cons run_def)
next
  case False
  then show ?thesis using assms by (simp add: get_flags_def rest_Nil run_def)
qed

lemma run_Cons: "run P (x # xs) = (if P x then Suc (run P xs) else 0)" "run P [] = 0"
  by (simp_all add: run_def)

lemma scan_rest:
  assumes "window_ok w" "w_ini w \<le> pos"
  shows "scan P w pos = pos + run (cls (w_data w) P) (rest w pos)"
  using assms
proof (induction P w pos rule: scan.induct)
  case (1 P w pos)
  show ?case
  proof (cases "pos < w_end w")
    case True
    then show ?thesis using 1 by (subst scan.simps) (simp add: flags_cls rest_Cons run_Cons)
  next
    case False
    then show ?thesis by (subst scan.simps) (simp add: rest_Nil run_Cons)
  qed
qed

lemma scan_crlf_rest:
  assumes "window_ok w" "w_ini w \<le> pos"
  shows "scan_crlf w pos = pos + run (one_of crlf) (rest w pos)"
  using assms
proof (induction w pos rule: scan_crlf.induct)
  case (1 w pos)
  have c: "is_crlf c = one_of crlf c" for c by (auto simp: is_crlf_def one_of_def crlf_def)
  show ?case
  proof (cases "pos < w_end w")
    case True
    then show ?thesis using 1 by (subst scan_crlf.simps) (simp add: c rest_Cons run_Cons)
  next
    case False
    then show ?thesis by (subst scan_crlf.simps) (simp add: rest_Nil run_Cons)
  qed
qed

lemma out_of_range:
  assumes "window_ok w" "w_ini w \<le> pos"
  shows "get_cpt w pos = OUT_OF_RANGE \<longleftrightarrow> w_end w \<le> pos"
  using assms by (auto simp: get_cpt_def window_ok_def in_set_conv_nth)

lemma get_cpt_ascii:
  assumes "window_ok w" "w_ini w \<le> pos" "get_cpt w pos = ascii c"
  shows "pos < w_end w"
proof -
  have "ascii c \<noteq> OUT_OF_RANGE"
  proof
    assume "ascii c = OUT_OF_RANGE"
    then have "unat (ascii c) = unat OUT_OF_RANGE" by simp
    moreover have "unat (ascii c) < 256"
      by (cases c) (simp add: ascii_def)
    ultimately show False by (simp add: OUT_OF_RANGE_def)
  qed
  then show ?thesis using assms by (auto simp: get_cpt_def split: if_splits)
qed

section \<open>A step of a splitter as a length\<close>

text \<open>\<open>takes w pos s r n\<close>: the step's outcome \<open>r\<close> emits one piece of length \<open>n\<close>.\<close>

definition takes :: "window \<Rightarrow> nat \<Rightarrow> splitting \<Rightarrow> (nat \<times> splitting) res \<Rightarrow> nat \<Rightarrow> bool" where
  "takes w pos s r n \<longleftrightarrow> r = Inr (pos + n, \<lparr>s_prev_end = pos + n, s_offsets = s_offsets s @ [n]\<rparr>)"

lemma takes_token:
  assumes "s_prev_end s = pos" "fin = pos + n" "0 < n" "fin \<le> w_end w"
  shows "takes w pos s (rbind (add_token w fin s) (\<lambda>(_, s). Inr (fin, s))) n"
    and "takes w pos s (rbind (add_token w fin s) (\<lambda>(k, s). Inr (pos + k, s))) n"
  using assms by (simp_all add: takes_def add_token_exact)

lemma takes_if:
  "(c \<Longrightarrow> takes w pos s a n) \<Longrightarrow> (\<not> c \<Longrightarrow> takes w pos s b m) \<Longrightarrow>
    takes w pos s (if c then a else b) (if c then n else m)"
  by simp

lemma takes_if2:
  "(c \<Longrightarrow> takes w pos s a n) \<Longrightarrow> (\<not> c \<Longrightarrow> takes w pos s b n) \<Longrightarrow> takes w pos s (if c then a else b) n"
  by simp

text \<open>The lengths the source takes, read off the rest of the window.\<close>

definition space_len :: "unicode_data \<Rightarrow> 32 word list \<Rightarrow> nat" where
  "space_len D r = (let n = run (cls D is_whitespace) r in
     if 1 < n \<and> n \<noteq> length r then n - 1 else n)"

definition gpt2_len :: "window \<Rightarrow> nat \<Rightarrow> nat" where
  "gpt2_len w pos =
     (let cpt = get_cpt w pos; cpt_next = get_cpt w (pos + 1); cpt_next_next = get_cpt w (pos + 2);
          apostrophe = cpt = ascii CHR 0x27 \<and> pos + 1 < w_end w;
          sp = (if cpt = ascii CHR '' '' then 1 else 0);
          len = (\<lambda>P. run (cls (w_data w) P) (rest w (pos + sp)))
      in if apostrophe \<and> cpt_next \<in> {ascii CHR ''s'', ascii CHR ''t'', ascii CHR ''m'', ascii CHR ''d''} then 2
      else if apostrophe \<and> pos + 2 < w_end w
          \<and> (cpt_next = ascii CHR ''r'' \<and> cpt_next_next = ascii CHR ''e''
             \<or> cpt_next = ascii CHR ''v'' \<and> cpt_next_next = ascii CHR ''e''
             \<or> cpt_next = ascii CHR ''l'' \<and> cpt_next_next = ascii CHR ''l'') then 3
      else if 0 < len is_letter then sp + len is_letter
      else if 0 < len is_number then sp + len is_number
      else if 0 < len is_other then sp + len is_other
      else space_len (w_data w) (rest w pos))"

lemma if_flags:
  assumes "window_ok w" "w_ini w \<le> pos" "\<not> f 0"
  shows "f (if b then get_flags w (pos + 1) else get_flags w pos)
    \<longleftrightarrow> 0 < run (cls (w_data w) f) (rest w (pos + (if b then 1 else 0)))"
  using flags_next[of w pos f] flags_next[of w "pos + 1" f] assms by auto

lemma scan_if:
  assumes "window_ok w" "w_ini w \<le> pos"
  shows "scan P w (if b then pos + 1 else pos)
    = pos + ((if b then 1 else 0) + run (cls (w_data w) P) (rest w (pos + (if b then 1 else 0))))"
  using scan_rest[OF assms] scan_rest[of w "pos + 1"] assms by auto

lemma rest_bound:
  assumes "window_ok w" "pos < w_end w"
  shows "pos + ((if b then 1 else 0) + run P (rest w (pos + (if b then 1 else 0)))) \<le> w_end w"
  using run_le[of P "rest w (pos + (if b then 1 else 0))"] assms by (auto simp: length_rest)

lemma good_nonzero: "good_tables D \<Longrightarrow> f \<noteq> 0 \<or> \<not> cls D (\<lambda>g. g = f) c"
  by (auto simp: good_tables_def cls_def)

lemma other_no_word: "good_tables D \<Longrightarrow> cls D is_other = cls D no_word"
  by (auto simp: good_tables_def cls_def is_other_def no_word_def)

lemma some_class:
  assumes "good_tables D"
  shows "cls D is_letter c \<or> cls D is_number c \<or> cls D is_other c \<or> cls D is_whitespace c"
  using assms by (auto simp: good_tables_def cls_def is_other_def)

lemma spaces_takes:
  assumes "window_ok w" "w_ini w \<le> pos" "pos < w_end w" "s_prev_end s = pos"
    and n: "0 < run (cls (w_data w) is_whitespace) (rest w pos)"
  shows "takes w pos s
      (whitespace_step w pos (scan is_whitespace w pos - pos) s)
      (space_len (w_data w) (rest w pos))"
proof -
  let ?n = "run (cls (w_data w) is_whitespace) (rest w pos)"
  have "get_cpt w (pos + ?n) = OUT_OF_RANGE \<longleftrightarrow> w_end w \<le> pos + ?n" using assms by (simp add: out_of_range)
  moreover have le: "?n \<le> w_end w - pos" using run_le[of _ "rest w pos"] assms by (simp add: length_rest)
  ultimately have "get_cpt w (pos + ?n) = OUT_OF_RANGE \<longleftrightarrow> ?n = length (rest w pos)"
    using assms(3) by (auto simp: length_rest[OF assms(1)])
  then show ?thesis
    unfolding whitespace_step_def space_len_def Let_def scan_rest[OF assms(1,2)] add_diff_cancel_left'
    using n le assms(3) by (intro takes_if2 takes_token[OF assms(4)]) (simp_all, auto)
qed

text \<open>When no other alternative applies, the rest starts with whitespace.\<close>

lemma leaves_whitespace:
  assumes g: "good_tables (w_data w)" and w: "window_ok w" "w_ini w \<le> pos" "pos < w_end w"
    and none: "\<not> 0 < run (cls (w_data w) is_letter) (rest w (pos + (if b then 1 else 0)))"
      "\<not> 0 < run (cls (w_data w) is_number) (rest w (pos + (if b then 1 else 0)))"
      "\<not> 0 < run (cls (w_data w) is_other) (rest w (pos + (if b then 1 else 0)))"
    and b: "b = (get_cpt w pos = ascii CHR '' '')"
  shows "0 < run (cls (w_data w) is_whitespace) (rest w pos)"
proof (cases b)
  case True
  then show ?thesis using g w b
    by (simp add: rest_Cons run_Cons good_tables_def plain_space_def Let_def cls_def)
next
  case False
  then show ?thesis using none some_class[OF g, of "get_cpt w pos"] w
    by (simp add: rest_Cons run_Cons split: if_splits)
qed

lemma gpt2_step_takes:
  assumes g: "good_tables (w_data w)" and w: "window_ok w" "w_ini w \<le> pos" "pos < w_end w"
    and s: "s_prev_end s = pos"
  shows "takes w pos s (gpt2_step w pos s) (gpt2_len w pos)"
  unfolding gpt2_step_def gpt2_len_def Let_def
      if_flags[where f = is_letter, OF w(1,2) no_flags(1)] if_flags[where f = is_number, OF w(1,2) no_flags(2)]
      if_flags[where f = is_other, OF w(1,2) no_flags(4)] scan_if[OF w(1,2)]
  by (intro takes_if takes_token[OF s] rest_bound[OF w(1,3)] spaces_takes[OF w s]
      leaves_whitespace[OF g w])
    (use w in \<open>simp_all\<close>)

section \<open>The length is the first match\<close>

lemma first_short1:
  "rx_first (short1 a) r =
     (if r \<noteq> [] \<and> hd r = ascii CHR 0x27 \<and> tl r \<noteq> [] \<and> one_of a (hd (tl r)) then Some 2 else None)"
  by (simp add: short1_def first_chr_Seq first_chr one_of_def)

lemma first_short2:
  "rx_first (short2 a b) r =
     (if r \<noteq> [] \<and> hd r = ascii CHR 0x27 \<and> tl r \<noteq> [] \<and> one_of a (hd (tl r))
         \<and> tl (tl r) \<noteq> [] \<and> one_of b (hd (tl (tl r))) then Some 3 else None)"
  by (simp add: short2_def first_chr_Seq first_chr one_of_def)

lemma first_opt_plus1:
  "rx_first (Seq (opt P) (plus1 Q)) r =
     (if r \<noteq> [] \<and> P (hd r) \<and> 0 < run Q (tl r) then Some (Suc (run Q (tl r)))
      else if 0 < run Q r then Some (run Q r) else None)"
  by (simp add: first_opt_Seq first_plus1)

text \<open>The rest of the window one and two positions on, as tails.\<close>

lemma rest_tails:
  assumes "window_ok w" "w_ini w \<le> pos" "pos < w_end w"
  shows "rest w pos \<noteq> []" "hd (rest w pos) = get_cpt w pos" "tl (rest w pos) = rest w (pos + 1)"
    "rest w (pos + 1) \<noteq> [] \<longleftrightarrow> pos + 1 < w_end w"
    "pos + 1 < w_end w \<Longrightarrow> hd (rest w (pos + 1)) = get_cpt w (pos + 1)"
    "tl (rest w (pos + 1)) = rest w (pos + 2)"
    "rest w (pos + 2) \<noteq> [] \<longleftrightarrow> pos + 2 < w_end w"
    "pos + 2 < w_end w \<Longrightarrow> hd (rest w (pos + 2)) = get_cpt w (pos + 2)"
proof -
  show "tl (rest w (pos + 1)) = rest w (pos + 2)"
    using assms by (cases "pos + 1 < w_end w") (auto simp: rest_Cons rest_Nil)
  have ne: "rest w p \<noteq> [] \<longleftrightarrow> p < w_end w" for p using length_rest[OF assms(1), of p] by (cases "p < w_end w") (auto simp: rest_Nil)
  show "rest w (pos + 1) \<noteq> [] \<longleftrightarrow> pos + 1 < w_end w" "rest w (pos + 2) \<noteq> [] \<longleftrightarrow> pos + 2 < w_end w"
    by (rule ne)+
  show "pos + 1 < w_end w \<Longrightarrow> hd (rest w (pos + 1)) = get_cpt w (pos + 1)"
    "pos + 2 < w_end w \<Longrightarrow> hd (rest w (pos + 2)) = get_cpt w (pos + 2)"
    using assms by (simp_all add: rest_Cons)
qed (use assms in \<open>simp_all add: rest_Cons\<close>)

lemma ascii_inj: "ascii a = ascii b \<longleftrightarrow> a = b"
proof -
  have "unat (ascii c) = of_char c" for c by (cases c) (simp add: ascii_def)
  then show ?thesis by (metis of_char_eq_iff)
qed

lemma contraction_chain:
  assumes "r \<or> v \<or> l \<Longrightarrow> \<not> (s \<or> t \<or> m \<or> d)"
  shows "(case if ap \<and> s then Some 2 else None of
      None \<Rightarrow> (case if ap \<and> t then Some 2 else None of
        None \<Rightarrow> (case if ap \<and> r \<and> e \<and> ee then Some 3 else None of
          None \<Rightarrow> (case if ap \<and> v \<and> e \<and> ee then Some 3 else None of
            None \<Rightarrow> (case if ap \<and> m then Some 2 else None of
              None \<Rightarrow> (case if ap \<and> l \<and> e \<and> ll then Some 3 else None of
                None \<Rightarrow> (case if ap \<and> d then Some 2 else None of None \<Rightarrow> X | Some n \<Rightarrow> Some n)
              | Some n \<Rightarrow> Some n)
            | Some n \<Rightarrow> Some n)
          | Some n \<Rightarrow> Some n)
        | Some n \<Rightarrow> Some n)
      | Some n \<Rightarrow> Some n)
    | Some n \<Rightarrow> Some n)
    = (if ap \<and> (s \<or> t \<or> m \<or> d) then Some (2 :: nat)
       else if ap \<and> e \<and> (r \<and> ee \<or> v \<and> ee \<or> l \<and> ll) then Some 3 else X)"
  using assms by (cases ap; cases s; cases t; cases m; cases d) auto

lemma first_contractions:
  assumes w: "window_ok w" "w_ini w \<le> pos" "pos < w_end w"
  shows "rx_first (Alt (short1 ''s'') (Alt (short1 ''t'') (Alt (short2 ''r'' ''e'') (Alt (short2 ''v'' ''e'')
     (Alt (short1 ''m'') (Alt (short2 ''l'' ''l'') (Alt (short1 ''d'') X))))))) (rest w pos) =
   (let cpt = get_cpt w pos; cpt_next = get_cpt w (pos + 1); cpt_next_next = get_cpt w (pos + 2);
        apostrophe = cpt = ascii CHR 0x27 \<and> pos + 1 < w_end w
    in if apostrophe \<and> cpt_next \<in> {ascii CHR ''s'', ascii CHR ''t'', ascii CHR ''m'', ascii CHR ''d''} then Some 2
      else if apostrophe \<and> pos + 2 < w_end w
          \<and> (cpt_next = ascii CHR ''r'' \<and> cpt_next_next = ascii CHR ''e''
             \<or> cpt_next = ascii CHR ''v'' \<and> cpt_next_next = ascii CHR ''e''
             \<or> cpt_next = ascii CHR ''l'' \<and> cpt_next_next = ascii CHR ''l'') then Some 3
      else rx_first X (rest w pos))"
proof -
  let ?c1 = "get_cpt w (pos + 1)" and ?c2 = "get_cpt w (pos + 2)" and ?e = "pos + 2 < w_end w"
  let ?ap = "get_cpt w pos = ascii CHR 0x27 \<and> pos + 1 < w_end w"
  note t = rest_tails[OF w]
  have s1: "rx_first (short1 a) (rest w pos) = (if ?ap \<and> one_of a ?c1 then Some 2 else None)" for a
    using t by (auto simp: first_short1)
  have s2: "rx_first (short2 a b) (rest w pos) =
      (if ?ap \<and> one_of a ?c1 \<and> ?e \<and> one_of b ?c2 then Some 3 else None)" for a b
    using t by (auto simp: first_short2)
  show ?thesis
    unfolding first_Alt s1 s2 one_of_def Let_def list.map list.set insert_iff empty_iff
    by (simp only: simp_thms, rule contraction_chain) (auto simp: ascii_inj)
qed

lemma first_contractions_ci:
  assumes w: "window_ok w" "w_ini w \<le> pos" "pos < w_end w" and g: "good_tables (w_data w)"
  shows "rx_first (Alt (short1 ''sS'') (Alt (short1 ''tT'') (Alt (short2 ''rR'' ''eE'') (Alt (short2 ''vV'' ''eE'')
     (Alt (short1 ''mM'') (Alt (short2 ''lL'' ''lL'') (Alt (short1 ''dD'') X))))))) (rest w pos) =
   (let cpt = get_cpt w pos; cpt_next = unicode_tolower (w_data w) (get_cpt w (pos + 1));
        cpt_next_next = unicode_tolower (w_data w) (get_cpt w (pos + 2));
        apostrophe = cpt = ascii CHR 0x27 \<and> pos + 1 < w_end w
    in if apostrophe \<and> cpt_next \<in> {ascii CHR ''s'', ascii CHR ''t'', ascii CHR ''m'', ascii CHR ''d''} then Some 2
      else if apostrophe \<and> pos + 2 < w_end w
          \<and> (cpt_next = ascii CHR ''r'' \<and> cpt_next_next = ascii CHR ''e''
             \<or> cpt_next = ascii CHR ''v'' \<and> cpt_next_next = ascii CHR ''e''
             \<or> cpt_next = ascii CHR ''l'' \<and> cpt_next_next = ascii CHR ''l'') then Some 3
      else rx_first X (rest w pos))"
proof -
  let ?c1 = "get_cpt w (pos + 1)" and ?c2 = "get_cpt w (pos + 2)" and ?e = "pos + 2 < w_end w"
  let ?ap = "get_cpt w pos = ascii CHR 0x27 \<and> pos + 1 < w_end w"
  note t = rest_tails[OF w]
  have s1: "rx_first (short1 a) (rest w pos) = (if ?ap \<and> one_of a ?c1 then Some 2 else None)" for a
    using t by (auto simp: first_short1)
  have s2: "rx_first (short2 a b) (rest w pos) =
      (if ?ap \<and> one_of a ?c1 \<and> ?e \<and> one_of b ?c2 then Some 3 else None)" for a b
    using t by (auto simp: first_short2)
  have low: "one_of [l, u] c \<longleftrightarrow> unicode_tolower (w_data w) c = ascii l" if "lower_pair (w_data w) l u" for l u c
    using that by (auto simp: one_of_def lower_pair_def)
  have pairs: "one_of ''sS'' c \<longleftrightarrow> unicode_tolower (w_data w) c = ascii CHR ''s''"
    "one_of ''tT'' c \<longleftrightarrow> unicode_tolower (w_data w) c = ascii CHR ''t''"
    "one_of ''mM'' c \<longleftrightarrow> unicode_tolower (w_data w) c = ascii CHR ''m''"
    "one_of ''dD'' c \<longleftrightarrow> unicode_tolower (w_data w) c = ascii CHR ''d''"
    "one_of ''rR'' c \<longleftrightarrow> unicode_tolower (w_data w) c = ascii CHR ''r''"
    "one_of ''eE'' c \<longleftrightarrow> unicode_tolower (w_data w) c = ascii CHR ''e''"
    "one_of ''vV'' c \<longleftrightarrow> unicode_tolower (w_data w) c = ascii CHR ''v''"
    "one_of ''lL'' c \<longleftrightarrow> unicode_tolower (w_data w) c = ascii CHR ''l''" for c
    using g by (auto intro!: low simp: good_tables_def)
  show ?thesis
    unfolding first_Alt s1 s2 pairs Let_def insert_iff empty_iff
    by (simp only: simp_thms, rule contraction_chain) (auto simp: ascii_inj)
qed

lemma if_Some: "(\<not> c \<Longrightarrow> y = Some b) \<Longrightarrow> (if c then Some a else y) = Some (if c then a else b)"
  by simp

lemma gpt2_first:
  assumes g: "good_tables (w_data w)" and w: "window_ok w" "w_ini w \<le> pos" "pos < w_end w"
  shows "rx_first (gpt2_rx (w_data w)) (rest w pos) = Some (gpt2_len w pos)"
proof -
  note t = rest_tails[OF w]
  let ?c = "get_cpt w pos" and ?c1 = "get_cpt w (pos + 1)" and ?c2 = "get_cpt w (pos + 2)"
  have space: "\<not> cls (w_data w) P (ascii CHR '' '')" if "P \<in> {is_letter, is_number, no_word}" for P
    using g that by (auto simp: good_tables_def plain_space_def cls_def Let_def no_word_def)
  have opt: "rx_first (Seq (opt (one_of '' '')) (plus1 (cls (w_data w) P))) (rest w pos) =
      (let sp = if ?c = ascii CHR '' '' then 1 else 0;
           n = run (cls (w_data w) P) (rest w (pos + sp))
       in if 0 < n then Some (sp + n) else None)" if "P \<in> {is_letter, is_number, no_word}" for P
    using t w space[OF that] by (auto simp: first_opt_plus1 one_of_def Let_def rest_Cons run_Cons)
  have spaces: "rx_first (spaces_rx (w_data w)) (rest w pos) = Some (space_len (w_data w) (rest w pos))"
    if "0 < run (cls (w_data w) is_whitespace) (rest w pos)"
    using that by (auto simp: first_spaces space_len_def Let_def)
  show ?thesis
    unfolding gpt2_rx_def first_contractions[OF w] gpt2_len_def Let_def
    by (intro if_Some)
      (use spaces leaves_whitespace[OF g w _ _ _ refl] opt[of is_letter] opt[of is_number] opt[of no_word]
        in \<open>simp add: first_Alt Let_def other_no_word[OF g]\<close>)
qed

section \<open>The LLaMA-3 step\<close>

definition crlf_len :: "32 word list \<Rightarrow> nat" where
  "crlf_len xs = length (dropWhile (\<lambda>c. \<not> one_of crlf c) (rev xs))"

lemma crlf_len_snoc: "crlf_len (xs @ [x]) = (if one_of crlf x then Suc (length xs) else crlf_len xs)"
  by (simp add: crlf_len_def)

lemma crlf_len_le: "crlf_len xs \<le> length xs"
  unfolding crlf_len_def using length_dropWhile_le[of _ "rev xs"] by simp

lemma last_end_crlf_len:
  assumes w: "window_ok w" "w_ini w \<le> pos" and "pos + n \<le> w_end w"
  shows "last_end_crlf w pos (pos + n) =
    (if crlf_len (take n (rest w pos)) = 0 then 0 else pos + crlf_len (take n (rest w pos)))"
  using assms(3)
proof (induction n)
  case 0
  then show ?case by (simp add: last_end_crlf_def crlf_len_def)
next
  case (Suc n)
  have c: "is_crlf c = one_of crlf c" for c by (auto simp: is_crlf_def one_of_def crlf_def)
  have n: "n < length (rest w pos)" using Suc.prems by (simp add: length_rest[OF w(1)])
  have "rest w pos ! n = hd (rest w (pos + n))" using n by (metis hd_drop_conv_nth drop_rest)
  also have "\<dots> = get_cpt w (pos + n)" using Suc.prems w by (simp add: rest_Cons)
  finally have "take (Suc n) (rest w pos) = take n (rest w pos) @ [get_cpt w (pos + n)]"
    using n by (simp add: take_Suc_conv_app_nth)
  then show ?case using Suc n by (simp add: c crlf_len_snoc last_end_crlf_Suc)
qed

text \<open>\<open>\s*[\r\n]+\<close>: up to the last line break of the run of whitespace.\<close>

lemma first_line_breaks:
  assumes "\<And>c. one_of crlf c \<Longrightarrow> P c"
  shows "rx_first (Seq (star P) (plus1 (one_of crlf))) r =
    (let k = crlf_len (take (run P r) r) in if k = 0 then None else Some k)"
proof -
  let ?C = "one_of crlf" and ?n = "run P r"
  let ?f = "\<lambda>j. map ((+) j) (rx_matches (plus1 ?C) (drop j r))"
  have head: "head_option (?f j) = (if run ?C (drop j r) = 0 then None else Some (j + run ?C (drop j r)))" for j
    using first_plus1[of ?C "drop j r"] by (auto simp: head_option_map rx_first_def)
  have step: "head_option (concat (map ?f (rev [0..<Suc k]))) =
      (if run ?C (drop k r) = 0 then head_option (concat (map ?f (rev [0..<k])))
       else Some (k + run ?C (drop k r)))" for k
    using head[of k]
    by (cases "rx_matches (plus1 ?C) (drop k r)") (auto simp: head_option_append split: if_splits)
  have up: "head_option (concat (map ?f (rev [0..<k]))) =
      (let l = crlf_len (take k r) in if l = 0 then None else Some l)"
    if "k \<le> length r" "run ?C (drop k r) = 0" for k
    using that
  proof (induction k)
    case 0
    then show ?case by (simp add: crlf_len_def)
  next
    case (Suc k)
    then have k: "k < length r" and d: "drop k r = r ! k # drop (Suc k) r" by (simp_all add: Cons_nth_drop_Suc)
    have t: "take (Suc k) r = take k r @ [r ! k]" using k by (simp add: take_Suc_conv_app_nth)
    show ?case
      using Suc k unfolding step t crlf_len_snoc by (simp add: d run_Cons Let_def)
  qed
  have "run ?C (drop ?n r) = 0"
    using run_drop[of P r] assms by (auto simp: run_0)
  then have "head_option (concat (map ?f (rev [0..<Suc ?n]))) =
      (let l = crlf_len (take ?n r) in if l = 0 then None else Some l)"
    unfolding step using up[OF run_le] by simp
  then show ?thesis by (simp add: rx_first_def plus1_star_matches del: upt_Suc)
qed

end
