(* ===== verification/UnicodeRegexLoop.thy ===== *)
theory UnicodeRegexLoop
  imports UnicodeRegexProps
begin

text \<open>
  The LLaMA-3 step against its expression, and both splitters as a whole: the locale
  \<open>regex_step\<close> extends \<open>forward_step\<close> by the law that a step cuts off what the matcher cuts
  off first, and shows once that the loops then cut the text as the matcher does.
\<close>

section \<open>The LLaMA-3 step\<close>

definition llama3_len :: "window \<Rightarrow> nat \<Rightarrow> nat" where
  "llama3_len w pos =
     (let cpt = get_cpt w pos; flags = get_flags w pos;
          cpt_next = unicode_tolower (w_data w) (get_cpt w (pos + 1));
          cpt_next_next = unicode_tolower (w_data w) (get_cpt w (pos + 2));
          apostrophe = cpt = ascii CHR 0x27 \<and> pos + 1 < w_end w;
          space = cpt = ascii CHR '' '';
          flags2 = (if space then get_flags w (pos + 1) else flags);
          sp = (if space then 1 else 0);
          others = run (cls (w_data w) is_other) (rest w (pos + sp));
          blanks = run (cls (w_data w) is_whitespace) (rest w pos);
          breaks = crlf_len (take blanks (rest w pos))
      in if apostrophe \<and> cpt_next \<in> {ascii CHR ''s'', ascii CHR ''t'', ascii CHR ''m'', ascii CHR ''d''} then 2
      else if apostrophe \<and> pos + 2 < w_end w
          \<and> (cpt_next = ascii CHR ''r'' \<and> cpt_next_next = ascii CHR ''e''
             \<or> cpt_next = ascii CHR ''v'' \<and> cpt_next_next = ascii CHR ''e''
             \<or> cpt_next = ascii CHR ''l'' \<and> cpt_next_next = ascii CHR ''l'') then 3
      else if \<not> (is_crlf cpt \<or> is_number flags) \<and> (is_letter flags \<or> is_letter (get_flags w (pos + 1)))
        then 1 + run (cls (w_data w) is_letter) (rest w (pos + 1))
      else if is_number flags then min 3 (run (cls (w_data w) is_number) (rest w pos))
      else if \<not> (is_whitespace flags2 \<or> is_letter flags2 \<or> is_number flags2) \<and> flags \<noteq> 0
        then sp + others + run (one_of crlf) (rest w (pos + sp + others))
      else if 0 < breaks then breaks else space_len (w_data w) (rest w pos))"

lemma crlf_is_crlf: "is_crlf c = one_of crlf c"
  by (auto simp: is_crlf_def one_of_def crlf_def)

lemma good_flags:
  assumes "good_tables D"
  shows "unicode_cpt_flags_from_cpt D c \<noteq> 0" "\<not> (cls D is_letter c \<and> cls D is_number c)"
    "one_of crlf c \<Longrightarrow> cls D is_whitespace c" "one_of crlf c \<Longrightarrow> \<not> cls D is_letter c"
    "one_of crlf c \<Longrightarrow> \<not> cls D is_number c"
    "cls D is_whitespace (ascii CHR '' '')" "\<not> cls D is_letter (ascii CHR '' '')"
    "\<not> cls D is_number (ascii CHR '' '')"
  using assms by (auto simp: good_tables_def plain_space_def cls_def Let_def one_of_def crlf_def)

text \<open>Behind the other alternatives the rest of the window starts with whitespace.\<close>

lemma llama3_leaves_whitespace:
  assumes g: "good_tables (w_data w)" and w: "window_ok w" "w_ini w \<le> pos" "pos < w_end w"
    and l: "\<not> (\<not> (is_crlf (get_cpt w pos) \<or> is_number (get_flags w pos))
        \<and> (is_letter (get_flags w pos) \<or> is_letter (get_flags w (pos + 1))))"
    and n: "\<not> is_number (get_flags w pos)"
    and f2: "f2 = (if get_cpt w pos = ascii CHR '' '' then get_flags w (pos + 1) else get_flags w pos)"
    and o: "\<not> (\<not> (is_whitespace f2 \<or> is_letter f2 \<or> is_number f2) \<and> get_flags w pos \<noteq> 0)"
  shows "cls (w_data w) is_whitespace (get_cpt w pos)"
proof (cases "get_cpt w pos = ascii CHR '' ''")
  case True
  then show ?thesis using good_flags(6)[OF g] by simp
next
  case False
  have nz: "get_flags w pos \<noteq> 0" using w good_flags(1)[OF g] by (simp add: get_flags_def)
  then have "is_whitespace (get_flags w pos) \<or> is_letter (get_flags w pos)" using o n False f2 by auto
  moreover have "\<not> is_letter (get_flags w pos)"
    using l n good_flags(4)[OF g, of "get_cpt w pos"] w by (auto simp: flags_cls crlf_is_crlf)
  ultimately show ?thesis using w by (simp add: flags_cls)
qed

lemma llama3_first:
  assumes g: "good_tables (w_data w)" and w: "window_ok w" "w_ini w \<le> pos" "pos < w_end w"
  shows "rx_first (llama3_rx (w_data w)) (rest w pos) = Some (llama3_len w pos)"
proof -
  note t = rest_tails[OF w] and gf = good_flags[OF g]
  let ?D = "w_data w" and ?c = "get_cpt w pos"
  let ?r = "rest w pos" and ?r1 = "rest w (pos + 1)"
  have r: "?r = ?c # ?r1" using rest_Cons[OF w] by simp
  have fl: "f (get_flags w pos) = cls ?D f ?c" for f by (rule flags_cls[OF w(2,3)])
  have fn: "is_letter (get_flags w (pos + 1)) \<longleftrightarrow> 0 < run (cls ?D is_letter) ?r1"
    using flags_next[of w "pos + 1" is_letter] w by simp
  have letters: "rx_first (Seq (opt (\<lambda>c. \<not> one_of crlf c \<and> \<not> cls ?D is_letter c \<and> \<not> cls ?D is_number c))
             (plus1 (cls ?D is_letter))) ?r =
      (if \<not> (is_crlf ?c \<or> is_number (get_flags w pos)) \<and> (is_letter (get_flags w pos) \<or> is_letter (get_flags w (pos + 1)))
       then Some (1 + run (cls ?D is_letter) ?r1) else None)"
    unfolding first_opt_plus1 fn fl r crlf_is_crlf using gf(2)[of ?c] gf(4)[of ?c]
    by (auto simp: run_Cons)
  have numbers: "rx_first (Rep (cls ?D is_number) 1 (Some 3)) ?r =
      (if is_number (get_flags w pos) then Some (min 3 (run (cls ?D is_number) ?r)) else None)"
    using first_upto[of 3 "cls ?D is_number" ?r] by (auto simp: fl r run_Cons)
  let ?sp = "if ?c = ascii CHR '' '' then 1 else 0 :: nat"
  let ?o = "run (cls ?D is_other) (rest w (pos + ?sp))"
  have sp0: "?c = ascii CHR '' '' \<Longrightarrow> run (cls ?D is_other) ?r = 0"
    using gf(6) by (auto simp: r run_Cons cls_def is_other_def)
  have others: "rx_first (Seq (opt (one_of '' '')) (Seq (plus1 (cls ?D no_word)) (star (one_of crlf)))) ?r =
      (if 0 < ?o then Some (?sp + ?o + run (one_of crlf) (rest w (pos + ?sp + ?o))) else None)"
    using t sp0
    by (cases "?c = ascii CHR '' ''")
      (auto simp: first_opt_Seq first_plus1_star other_no_word[OF g, symmetric] one_of_def drop_rest add.assoc)
  have breaks: "rx_first (Seq (star (cls ?D is_whitespace)) (plus1 (one_of crlf))) ?r =
      (let k = crlf_len (take (run (cls ?D is_whitespace) ?r) ?r) in if k = 0 then None else Some k)"
    by (rule first_line_breaks) (rule gf(3))
  have spaces: "rx_first (spaces_rx ?D) ?r = Some (space_len ?D ?r)" if "cls ?D is_whitespace ?c"
    using that by (auto simp: first_spaces space_len_def Let_def r run_Cons)
  let ?f2 = "if ?c = ascii CHR '' '' then get_flags w (pos + 1) else get_flags w pos"
  have nw: "\<not> (is_whitespace ?f2 \<or> is_letter ?f2 \<or> is_number ?f2) \<and> get_flags w pos \<noteq> 0 \<longleftrightarrow>
      0 < ?o \<or> ?c = ascii CHR '' '' \<and> ?r1 = []"
  proof (cases "?c = ascii CHR '' ''")
    case False
    then show ?thesis using fl[of "\<lambda>f. f = 0"]
      by (auto simp: fl r run_Cons cls_def is_other_def)
  next
    case True
    have "get_flags w pos \<noteq> 0" using gf(1) w by (simp add: get_flags_def)
    moreover have "get_flags w (pos + 1) = 0 \<longleftrightarrow> ?r1 = []"
      using gf(1) w t(4) by (auto simp: get_flags_def)
    moreover have "is_other (get_flags w (pos + 1)) \<longleftrightarrow> 0 < run (cls ?D is_other) ?r1"
      using flags_next[of w "pos + 1" is_other] w by simp
    ultimately show ?thesis using True by (auto simp: is_other_def)
  qed
  have lone: "rx_first (spaces_rx ?D) ?r = Some 1" "crlf_len (take (run (cls ?D is_whitespace) ?r) ?r) = 0"
    "run (one_of crlf) (rest w (Suc pos)) = 0" "run (cls ?D is_other) (rest w (Suc pos)) = 0"
    if "?c = ascii CHR '' ''" "?r1 = []"
    using that gf(6) by (auto simp: r first_spaces run_Cons crlf_len_def one_of_def crlf_def ascii_inj)
  have tail: "rx_first (spaces_rx ?D) ?r = Some (space_len ?D ?r)"
    if "\<not> (\<not> (is_crlf ?c \<or> is_number (get_flags w pos)) \<and> (is_letter (get_flags w pos) \<or> is_letter (get_flags w (pos + 1))))"
      "\<not> is_number (get_flags w pos)" "\<not> (0 < ?o \<or> ?c = ascii CHR '' '' \<and> ?r1 = [])"
    using spaces[OF llama3_leaves_whitespace[OF g w that(1,2) refl]] that(3) nw by blast
  show ?thesis
    unfolding llama3_rx_def first_contractions_ci[OF w g] llama3_len_def Let_def nw
    unfolding first_Alt letters numbers others breaks Let_def
    by (intro if_Some, cases "?c = ascii CHR '' '' \<and> ?r1 = []")
      (use lone in \<open>simp\<close>, use tail in \<open>auto\<close>)
qed

section \<open>Steps as cuts\<close>

text \<open>A step cuts the rest of the window as the matcher does.\<close>

definition cuts :: "rx \<Rightarrow> window \<Rightarrow> nat \<Rightarrow> splitting \<Rightarrow> (nat \<times> splitting) res \<Rightarrow> bool" where
  "cuts r w pos s res \<longleftrightarrow>
     (\<forall>pos' s'. res = Inr (pos', s') \<longrightarrow>
       (\<exists>ls. s_offsets s' = s_offsets s @ ls
         \<and> rx_split r (rest w pos) = map_option ((@) ls) (rx_split r (rest w pos'))))"

lemma split_first:
  assumes "rest w pos \<noteq> []" "rx_first r (rest w pos) = Some n" "0 < n"
  shows "rx_split r (rest w pos) = map_option ((#) n) (rx_split r (rest w (pos + n)))"
  using assms by (cases n) (subst rx_split.simps, simp add: drop_rest)+

lemma takes_cuts:
  assumes "takes w pos s res n" "rest w pos \<noteq> []" "rx_first r (rest w pos) = Some n" "0 < n"
  shows "cuts r w pos s res"
proof -
  have "(@) [n] = (#) n" by auto
  then show ?thesis
    using assms(1) split_first[OF assms(2-4)] by (auto simp: cuts_def takes_def intro!: exI[of _ "[n]"])
qed

lemma takes_pos: "takes w pos s res n \<Longrightarrow> moved w pos s res \<Longrightarrow> 0 < n"
  by (auto simp: takes_def moved_def)

lemma run_shift: "k \<le> run P r \<Longrightarrow> run P (drop k r) = run P r - k"
proof (induction k arbitrary: r)
  case (Suc k)
  then show ?case by (cases r) (auto simp: run_Cons split: if_splits)
qed simp

lemma map_option_append: "map_option ((#) x) (map_option ((@) xs) m) = map_option (\<lambda>ys. x # xs @ ys) m"
  by (cases m) auto

lemma numbers_cut:
  assumes g: "good_tables (w_data w)" and w: "window_ok w"
  shows "w_ini w \<le> pos \<Longrightarrow> m = run (cls (w_data w) is_number) (rest w pos) \<Longrightarrow>
    rx_split (llama3_rx (w_data w)) (rest w pos)
      = map_option ((@) (threes m)) (rx_split (llama3_rx (w_data w)) (rest w (pos + m)))"
proof (induction m arbitrary: pos rule: less_induct)
  case (less m)
  let ?N = "cls (w_data w) is_number"
  show ?case
  proof (cases "m = 0")
    case True
    then show ?thesis by (simp add: threes.simps[of 0] option.map_ident_strong)
  next
    case False
    then have ne: "rest w pos \<noteq> []" and N: "?N (hd (rest w pos))" using less.prems by (auto simp: run_0)
    then have pos: "pos < w_end w" using rest_Nil[of w pos] by force
    then have num: "?N (get_cpt w pos)" using N w less.prems by (simp add: rest_Cons)
    have "get_cpt w pos \<noteq> ascii CHR 0x27" using num g by (auto simp: good_tables_def)
    then have "llama3_len w pos = min 3 m"
      using num less.prems pos by (simp add: llama3_len_def flags_cls)
    then have first: "rx_first (llama3_rx (w_data w)) (rest w pos) = Some (min 3 m)"
      using llama3_first[OF g w less.prems(1) pos] by simp
    note cut = split_first[OF ne first]
    show ?thesis
    proof (cases "3 \<le> m")
      case True
      have "m - 3 = run ?N (rest w (pos + 3))"
        using run_shift[of 3 ?N "rest w pos"] less.prems True by (simp add: drop_rest)
      from less.IH[OF _ _ this] less.prems True False cut show ?thesis
        by (simp add: threes_step map_option_append min_def)
    next
      case False': False
      then have "threes m = [m]" using False by (subst threes.simps) simp
      moreover have "(@) [m] = (#) m" by auto
      ultimately show ?thesis using cut False False' by (simp add: min_def)
    qed
  qed
qed

lemma llama3_step_takes:
  assumes g: "good_tables (w_data w)" and w: "window_ok w" "w_ini w \<le> pos" "pos < w_end w"
    and s: "s_prev_end s = pos" and n: "\<not> is_number (get_flags w pos)"
  shows "takes w pos s (llama3_step w pos s) (llama3_len w pos)"
proof -
  let ?D = "w_data w" and ?b = "get_cpt w pos = ascii CHR '' ''"
  have sc: "scan is_letter w (pos + 1) = pos + (1 + run (cls ?D is_letter) (rest w (pos + 1)))"
    using scan_rest[of w "pos + 1" is_letter] w by simp
  have bound: "pos + (1 + run (cls ?D is_letter) (rest w (pos + 1))) \<le> w_end w"
    using run_le[of "cls ?D is_letter" "rest w (pos + 1)"] w by (simp add: length_rest)
  let ?sp = "if ?b then 1 else 0 :: nat"
  let ?o = "run (cls ?D is_other) (rest w (pos + ?sp))"
  have crlf: "scan_crlf w (pos + (?sp + ?o)) = pos + (?sp + ?o + run (one_of crlf) (rest w (pos + ?sp + ?o)))"
    using scan_crlf_rest[of w "pos + (?sp + ?o)"] w by (simp add: add.assoc)
  have others: "pos + (?sp + ?o + run (one_of crlf) (rest w (pos + ?sp + ?o))) \<le> w_end w"
    using run_le[of "one_of crlf" "rest w (pos + ?sp + ?o)"] rest_bound[OF w(1,3), of ?b "cls ?D is_other"] w
    by (simp add: length_rest)
  have pos_others: "0 < ?sp + ?o + run (one_of crlf) (rest w (pos + ?sp + ?o))"
    if "\<not> (is_whitespace (if ?b then get_flags w (pos + 1) else get_flags w pos)
        \<or> is_letter (if ?b then get_flags w (pos + 1) else get_flags w pos)
        \<or> is_number (if ?b then get_flags w (pos + 1) else get_flags w pos)) \<and> get_flags w pos \<noteq> 0"
    using that flags_next[of w pos is_other] w by (auto simp: is_other_def)
  let ?ws = "run (cls ?D is_whitespace) (rest w pos)"
  have blanks: "?ws \<le> length (rest w pos)" by (rule run_le)
  then have last: "last_end_crlf w pos (pos + ?ws) = (if crlf_len (take ?ws (rest w pos)) = 0 then 0
      else pos + crlf_len (take ?ws (rest w pos)))"
    using last_end_crlf_len[OF w(1,2), of ?ws] w by (simp add: length_rest)
  then have last_pos: "last_end_crlf w pos (pos + ?ws) > 0 \<longleftrightarrow> 0 < crlf_len (take ?ws (rest w pos))"
    by simp
  have breaks: "pos + crlf_len (take ?ws (rest w pos)) \<le> w_end w"
    using crlf_len_le[of "take ?ws (rest w pos)"] blanks w by (auto simp: length_rest)
  have run_ws: "scan is_whitespace w pos - pos = ?ws" using scan_rest[OF w(1,2)] by simp
  have ws: "0 < ?ws" if "cls ?D is_whitespace (get_cpt w pos)" using that w by (simp add: rest_Cons run_Cons)
  note leaves = llama3_leaves_whitespace[OF g w _ n refl]
  have tail: "takes w pos s (whitespace_step w pos ?ws s) (space_len ?D (rest w pos))"
    if "cls ?D is_whitespace (get_cpt w pos)"
    using spaces_takes[OF w s ws[OF that]] run_ws by simp
  show ?thesis
    unfolding llama3_step_def llama3_len_def Let_def run_ws sc scan_if[OF w(1,2)] crlf last_pos
    by (intro takes_if takes_token[OF s] bound others pos_others tail leaves)
      (use w n breaks last in \<open>simp_all\<close>)
qed

lemma llama3_step_cuts:
  assumes g: "good_tables (w_data w)" and w: "window_ok w" "w_ini w \<le> pos" "pos < w_end w"
    and s: "s_prev_end s = pos"
  shows "cuts (llama3_rx (w_data w)) w pos s (llama3_step w pos s)"
proof (cases "is_number (get_flags w pos)")
  case False
  note t = llama3_step_takes[OF g w s False]
  have "rest w pos \<noteq> []" using rest_Cons[OF w] by simp
  then show ?thesis
    using takes_cuts[OF t _ llama3_first[OF g w]] takes_pos[OF t llama3_step_moves[OF w(2,3) s]] by blast
next
  case True
  then have N: "cls (w_data w) is_number (get_cpt w pos)" using w by (simp add: flags_cls)
  then have "get_cpt w pos \<noteq> ascii CHR 0x27" using g by (auto simp: good_tables_def)
  then have "llama3_step w pos s = rbind (llama3_numbers w pos pos s)
      (\<lambda>(pos, s). rbind (add_token w pos s) (\<lambda>(_, s). Inr (pos, s)))"
    using True by (simp add: llama3_step_def)
  also have "\<dots> = Inr (scan is_number w pos, \<lparr>s_prev_end = scan is_number w pos,
      s_offsets = s_offsets s @ threes (scan is_number w pos - pos)\<rparr>)"
    using llama3_numbers_threes[of pos pos w s] w s by simp
  finally show ?thesis
    using numbers_cut[OF g w(1,2) refl] scan_rest[OF w(1,2), of is_number] by (simp add: cuts_def)
qed

lemma gpt2_step_cuts:
  assumes g: "good_tables (w_data w)" and w: "window_ok w" "w_ini w \<le> pos" "pos < w_end w"
    and s: "s_prev_end s = pos"
  shows "cuts (gpt2_rx (w_data w)) w pos s (gpt2_step w pos s)"
proof -
  note t = gpt2_step_takes[OF g w s]
  have "rest w pos \<noteq> []" using rest_Cons[OF w] by simp
  then show ?thesis
    using takes_cuts[OF t _ gpt2_first[OF g w]] takes_pos[OF t gpt2_step_moves[OF w(2,3) s]] by blast
qed

section \<open>The loops\<close>

text \<open>The text cut at the offsets of an earlier expression.\<close>

fun cut_text :: "nat list \<Rightarrow> 'a list \<Rightarrow> 'a list list" where
  "cut_text [] cs = []"
| "cut_text (off # offs) cs = take off cs # cut_text offs (drop off cs)"

locale regex_step = forward_step step
  for step :: "window \<Rightarrow> nat \<Rightarrow> splitting \<Rightarrow> (nat \<times> splitting) res" +
  fixes r :: "unicode_data \<Rightarrow> rx"
  assumes step_cuts:
    "good_tables (w_data w) \<Longrightarrow> window_ok w \<Longrightarrow> w_ini w \<le> pos \<Longrightarrow> pos < w_end w \<Longrightarrow> s_prev_end s = pos
      \<Longrightarrow> cuts (r (w_data w)) w pos s (step w pos s)"
begin

lemma split_loop_cuts:
  assumes g: "good_tables (w_data w)" and w: "window_ok w" and "w_ini w \<le> pos" "s_prev_end s = pos"
    and "split_loop step fuel w pos s = Inr s'"
  shows "\<exists>ls. s_offsets s' = s_offsets s @ ls \<and> rx_split (r (w_data w)) (rest w pos) = Some ls"
  using assms(3-)
proof (induction fuel arbitrary: pos s)
  case 0
  then show ?case by (auto simp: rest_Nil rx_split.simps split: if_splits)
next
  case (Suc fuel)
  show ?case
  proof (cases "pos < w_end w")
    case False
    then show ?thesis using Suc.prems by (auto simp: rest_Nil rx_split.simps)
  next
    case True
    from step_moves[OF Suc.prems(1) True Suc.prems(2)] obtain pos' s1 where
      st: "step w pos s = Inr (pos', s1)" "s_prev_end s1 = pos'" "pos < pos'"
      unfolding moved_def by auto
    with step_cuts[OF g w Suc.prems(1) True Suc.prems(2)] obtain ls where
      ls: "s_offsets s1 = s_offsets s @ ls"
      "rx_split (r (w_data w)) (rest w pos) = map_option ((@) ls) (rx_split (r (w_data w)) (rest w pos'))"
      unfolding cuts_def by auto
    from Suc.IH[of pos' s1] Suc.prems st True obtain ls' where
      "s_offsets s' = s_offsets s1 @ ls'" "rx_split (r (w_data w)) (rest w pos') = Some ls'" by auto
    with ls show ?thesis by simp
  qed
qed

lemma split_windows_cut:
  assumes g: "good_tables D" and no: "OUT_OF_RANGE \<notin> set cpts" and "start + sum_list offs \<le> length cpts"
  shows "\<exists>pieces. split_windows step D cpts start offs out = Inr (out @ concat pieces)
    \<and> map (rx_split (r D)) (cut_text offs (drop start cpts)) = map Some pieces"
  using assms(3)
proof (induction offs arbitrary: start out)
  case Nil
  show ?case by simp
next
  case (Cons off offs)
  let ?w = "\<lparr>w_data = D, w_cpts = cpts, w_ini = start, w_end = start + off\<rparr>"
  let ?s = "\<lparr>s_prev_end = start, s_offsets = out\<rparr>"
  have w: "window_ok ?w" using Cons.prems no by (simp add: window_ok_def)
  from split_loop_total[of ?w start ?s off] obtain s' where
    s': "split_loop step off ?w start ?s = Inr s'" by auto
  from split_loop_cuts[OF _ w _ _ s'] g obtain ls where
    ls: "s_offsets s' = out @ ls" "rx_split (r D) (rest ?w start) = Some ls" by auto
  have "rest ?w start = take off (drop start cpts)" by (simp add: rest_def)
  moreover from Cons.IH[of "start + off" "s_offsets s'"] Cons.prems obtain pieces where
    "split_windows step D cpts (start + off) offs (s_offsets s') = Inr (s_offsets s' @ concat pieces)"
    "map (rx_split (r D)) (cut_text offs (drop (start + off) cpts)) = map Some pieces"
    by (auto simp: add.assoc)
  ultimately show ?case
    using s' ls Cons.prems by (intro exI[of _ "ls # pieces"]) (simp add: Let_def guard_def add.commute)
qed

end

interpretation gpt2: regex_step gpt2_step gpt2_rx
  by unfold_locales (rule gpt2_step_cuts)

interpretation llama3: regex_step llama3_step llama3_rx
  by unfold_locales (rule llama3_step_cuts)

end
