(* ===== verification/UnicodeTheorems.thy ===== *)
theory UnicodeTheorems
  imports UnicodeRegexLoop
begin

text \<open>
  The properties of the text layer: encoding and decoding, the two splitters against their
  expressions, and what \<open>unicode_regex_split\<close> keeps of the text.
\<close>

section \<open>Lemmas on whole texts\<close>

lemma decoded_small:
  assumes "unicode_cpt_from_utf8 s off = Inr (c, off')"
  shows "\<not> bit c 31"
proof -
  have low: "\<not> bit (low_bits b m) n" if "8 \<le> n" for b m n
    using that bit_imp_le_length[of b n] by (auto simp: low_bits_def bit_simps)
  have "\<not> bit (ucast b :: 32 word) 31" for b :: "8 word"
    using bit_imp_le_length[of b 31] by (auto simp: bit_simps)
  with assms low show ?thesis
    by (auto simp: unicode_cpt_from_utf8_def Let_def bit_or_iff bit_push_bit_iff split: if_splits)
qed

lemma decoded_in_range: "cpts_from_offset s off = Inr cs \<Longrightarrow> OUT_OF_RANGE \<notin> set cs"
proof (induction s off arbitrary: cs rule: cpts_from_offset.induct)
  case (1 s off)
  have "bit OUT_OF_RANGE 31" by (simp add: OUT_OF_RANGE_def)
  show ?case
  proof (cases "off < length s")
    case False
    then show ?thesis using 1(2) by (subst (asm) cpts_from_offset.simps) auto
  next
    case True
    from 1(2) True obtain c off' r where
      "unicode_cpt_from_utf8 s off = Inr (c, off')" "cpts_from_offset s off' = Inr r" "cs = c # r"
      by (subst (asm) cpts_from_offset.simps) auto
    moreover from this(1) have "c \<noteq> OUT_OF_RANGE" using decoded_small \<open>bit OUT_OF_RANGE 31\<close> by blast
    ultimately show ?thesis using 1(1)[OF True, of "(c, off')"] by auto
  qed
qed

text \<open>A binary search on a sorted table is a lookup.\<close>

lemma tolower_lookup:
  assumes "sorted_wrt (<) (map fst (unicode_map_lowercase D))"
  shows "unicode_tolower D c = (case map_of (unicode_map_lowercase D) c of Some v \<Rightarrow> v | None \<Rightarrow> c)"
proof -
  have "(case dropWhile (\<lambda>p. fst p < c) t of [] \<Rightarrow> c | (k, v) # _ \<Rightarrow> if k = c then v else c)
      = (case map_of t c of Some v \<Rightarrow> v | None \<Rightarrow> c)"
    if "sorted_wrt (<) (map fst t)" for t :: "(32 word \<times> 32 word) list"
    using that
  proof (induction t)
    case (Cons p t)
    show ?case
    proof (cases "fst p < c")
      case True
      then show ?thesis using Cons by (cases p) auto
    next
      case False
      then have "map_of t c = None" if "fst p \<noteq> c"
        using Cons.prems that unfolding map_of_eq_None_iff by force
      then show ?thesis using False by (cases p) auto
    qed
  qed simp
  then show ?thesis using assms unfolding unicode_tolower_def by blast
qed

section \<open>What a splitter keeps\<close>

text \<open>
  \<open>std::regex_iterator\<close> gives its matches from left to right, without overlap and inside the
  text.
\<close>

fun matches_ok :: "nat \<Rightarrow> nat \<Rightarrow> (nat \<times> nat) list \<Rightarrow> bool" where
  "matches_ok start n [] \<longleftrightarrow> start \<le> n"
| "matches_ok start n ((p, l) # ms) \<longleftrightarrow> start \<le> p \<and> matches_ok (p + l) n ms"

definition iterates :: "('c list \<Rightarrow> (nat \<times> nat) list option) \<Rightarrow> bool" where
  "iterates it \<longleftrightarrow> (\<forall>s ms. it s = Some ms \<longrightarrow> matches_ok 0 (length s) ms)"

definition regex_ok :: "std_regex \<Rightarrow> bool" where
  "regex_ok R \<longleftrightarrow> (\<forall>e. iterates (re_bytes R e)) \<and> (\<forall>e. iterates (re_wide R e))"

lemma stl_matches_sum: "matches_ok start n ms \<Longrightarrow> start + sum_list (stl_matches ms start n) = n"
  by (induction ms start n rule: stl_matches.induct) auto

lemma stl_split_sum:
  assumes "iterates it" "unicode_regex_split_stl it txt start offs = Some out"
    "start + sum_list offs \<le> length txt"
  shows "sum_list out = sum_list offs"
  using assms(2,3)
proof (induction offs arbitrary: start out)
  case (Cons off offs)
  from Cons.prems obtain ms r where ms: "it (take off (drop start txt)) = Some ms"
    "unicode_regex_split_stl it txt (start + off) offs = Some r" "out = stl_matches ms 0 off @ r"
    by (auto split: option.splits)
  have "length (take off (drop start txt)) = off" using Cons.prems(2) by simp
  then have "matches_ok 0 off ms" using assms(1) ms(1) unfolding iterates_def by metis
  from stl_matches_sum[OF this] Cons.IH[OF ms(2)] Cons.prems(2) ms(3) show ?case by simp
qed simp

lemma custom_sum:
  assumes "unicode_cpts_from_utf8 txt = Inr cpts" "sum_list offs = length cpts"
  shows "\<exists>out. unicode_regex_split_custom D txt re offs = Inr out \<and> (out \<noteq> [] \<longrightarrow> sum_list out = length cpts)"
proof -
  have *: "sum_list (concat p) = sum_list (map sum_list p)" for p :: "nat list list"
    by (induction p) auto
  show ?thesis
    using gpt2.split_windows_pieces[of 0 offs cpts D "[]"] llama3.split_windows_pieces[of 0 offs cpts D "[]"] assms
    by (auto simp: unicode_regex_split_custom_def unicode_regex_split_custom_gpt2_def
        unicode_regex_split_custom_llama3_def *)
qed

lemma stl_split_keeps:
  assumes "regex_ok R" "stl_split D R cpts tc re offs = Inr out" "sum_list offs = length cpts"
    "has_category re \<Longrightarrow> length tc = length cpts"
  shows "sum_list out = length cpts"
  using assms stl_split_sum[of "re_bytes R (collapse_regex re None False)" tc 0 offs out]
    stl_split_sum[of "re_wide R w" "map (\<lambda>c. if 0x7F < c \<and> is_whitespace (unicode_cpt_flags_from_cpt D c) then 0x0B else c) cpts" 0 offs out for w]
  by (auto simp: stl_split_def regex_ok_def rbind_Inr_iff Let_def split: if_splits option.splits)

lemma split_by_keeps:
  assumes "regex_ok R" "unicode_cpts_from_utf8 txt = Inr cpts" "sum_list offs = length cpts"
    "split_by D R txt cpts tc re offs = Inr out" "has_category re \<Longrightarrow> length tc = length cpts"
  shows "sum_list out = length cpts"
  using assms custom_sum[OF assms(2,3), of D re] stl_split_keeps[OF assms(1) _ assms(3,5)]
  by (auto simp: split_by_def split: if_splits)

lemma take_words_concat:
  assumes "take_words cpts offs = Inr ws" "sum_list offs = length cpts"
  shows "unicode_cpts_to_utf8 cpts = Inr (concat ws) \<and> (\<forall>w \<in> set ws. \<exists>cs. unicode_cpts_to_utf8 cs = Inr w)"
  using assms
proof (induction cpts offs arbitrary: ws rule: take_words.induct)
  case (2 cpts off offs)
  from 2(2) obtain w r where le: "off \<le> length cpts" and w: "unicode_cpts_to_utf8 (take off cpts) = Inr w"
    and r: "take_words (drop off cpts) offs = Inr r" "ws = w # r" by (auto split: if_splits)
  from 2(1)[OF _ w r(1)] le 2(3) have IH: "unicode_cpts_to_utf8 (drop off cpts) = Inr (concat r)"
    "\<forall>w \<in> set r. \<exists>cs. unicode_cpts_to_utf8 cs = Inr w" by auto
  have "unicode_cpts_to_utf8 cpts = unicode_cpts_to_utf8 (take off cpts @ drop off cpts)" by simp
  also have "\<dots> = Inr (w @ concat r)" unfolding cpts_to_utf8_append using w IH(1) by simp
  finally show ?case using r(2) w IH(2) by auto
qed simp

lemma encode_bytes_append:
  "encode_bytes (as @ bs) = rbind (encode_bytes as) (\<lambda>s. rbind (encode_bytes bs) (\<lambda>t. Inr (s @ t)))"
proof (induction as)
  case Nil
  then show ?case using encode_bytes_total[of bs] by auto
next
  case (Cons a as)
  then show ?case using encode_bytes_total[of bs] encode_bytes_total[of as] by (auto simp: byte_to_utf8)
qed

lemma byte_encoding_concat:
  assumes "\<forall>w \<in> set ws. \<exists>cs. unicode_cpts_to_utf8 cs = Inr w"
  shows "\<exists>es. unicode_byte_encoding_process ws = Inr es \<and> encode_bytes (concat ws) = Inr (concat es)
    \<and> list_all2 (\<lambda>w e. encode_bytes w = Inr e) ws es"
  using assms
proof (induction ws)
  case (Cons w ws)
  from Cons.prems obtain cs where "unicode_cpts_to_utf8 cs = Inr w" by auto
  then have "encode_word w = encode_bytes w" by (simp add: encode_word_def cpts_round_trip)
  with Cons show ?case using encode_bytes_total[of w] by (auto simp: encode_bytes_append)
qed simp

section \<open>Checking a table\<close>

text \<open>
  \<open>table_check\<close> is an executable test of a table that implies \<open>good_tables\<close>: the category
  flags come from the ranges alone, and the lower case from a sorted table.
\<close>

definition lower_check :: "(32 word \<times> 32 word) list \<Rightarrow> char \<Rightarrow> char \<Rightarrow> bool" where
  "lower_check t l u \<longleftrightarrow> map_of t (ascii l) = None \<and> map_of t (ascii u) = Some (ascii l)
     \<and> list_all (\<lambda>(k, v). v = ascii l \<longrightarrow> k = ascii u) t"

definition table_check :: "unicode_data \<Rightarrow> bool" where
  "table_check D \<longleftrightarrow>
     list_all (\<lambda>(_, f). f \<noteq> 0 \<and> \<not> (is_letter f \<and> is_number f)) (butlast (unicode_ranges_flags D))
     \<and> plain_space D CHR '' '' \<and> plain_space D CHR 0x0D \<and> plain_space D CHR 0x0A
     \<and> \<not> cls D is_number (ascii CHR 0x27)
     \<and> sorted_wrt (<) (map fst (unicode_map_lowercase D))
     \<and> list_all (\<lambda>(l, u). lower_check (unicode_map_lowercase D) l u)
         (zip ''stmdrevl'' ''STMDREVL'')"

lemma lower_check_pair:
  assumes "sorted_wrt (<) (map fst (unicode_map_lowercase D))" "lower_check (unicode_map_lowercase D) l u"
  shows "lower_pair D l u"
  using assms(2) map_of_SomeD[of "unicode_map_lowercase D"]
  by (fastforce simp: lower_check_def lower_pair_def tolower_lookup[OF assms(1)] list_all_iff
      split: option.split)

lemma set_flag_bits: "bit (set_flag n c a d) m \<longleftrightarrow> bit (a d) m \<or> c = d \<and> n = m \<and> m < 16"
  by (auto simp: set_flag_def bit_simps)

lemma fold_set_flag_low:
  assumes "m < 8" "\<forall>x \<in> set xs. 8 \<le> h x"
  shows "bit (fold (\<lambda>x. set_flag (h x) (k x)) xs a d) m = bit (a d) m"
  using assms by (induction xs arbitrary: a) (auto simp: set_flag_bits)

lemma fold_set_flag_mono: "bit (a d) m \<Longrightarrow> bit (fold (\<lambda>x. set_flag (h x) (k x)) xs a d) m"
  by (induction xs arbitrary: a) (auto simp: set_flag_bits)

lemma fold_set_range_values:
  "fold set_range rs a d \<in> insert (a d) ((snd \<circ> fst) ` set rs)"
proof (induction rs arbitrary: a)
  case (Cons r rs)
  show ?case using Cons[of "set_range r a"] by (auto simp: set_range_def split: if_splits)
qed simp

lemma zip_tl_fst: "fst ` set (zip xs (tl xs)) \<subseteq> set (butlast xs)"
proof (induction xs)
  case (Cons x xs)
  then show ?case by (cases xs) auto
qed simp

text \<open>The flags of a code point: those of a range, with helper flags added above the categories.\<close>

lemma flags_array_value:
  obtains f where "f = UNDEFINED \<or> f \<in> snd ` set (butlast (unicode_ranges_flags D))"
    "\<And>m. m < 8 \<Longrightarrow> bit (unicode_cpt_flags_array D c) m = bit f m"
    "\<And>m. bit f m \<Longrightarrow> bit (unicode_cpt_flags_array D c) m"
proof -
  let ?rs = "unicode_ranges_flags D"
  let ?f = "fold set_range (zip ?rs (tl ?rs)) (\<lambda>_. UNDEFINED) c"
  have "?f = UNDEFINED \<or> ?f \<in> snd ` set (butlast ?rs)"
    using fold_set_range_values[of "zip ?rs (tl ?rs)" "\<lambda>_. UNDEFINED" c] image_mono[OF zip_tl_fst[of ?rs], of snd]
    by (auto simp: image_comp)
  moreover have "bit (unicode_cpt_flags_array D c) m = bit ?f m" if "m < 8" for m
    using that by (simp add: unicode_cpt_flags_array_def Let_def fold_set_flag_low
        fold_set_flag_low[where h = "\<lambda>_. 8" and k = "\<lambda>x. x"])
  moreover have "bit ?f m \<Longrightarrow> bit (unicode_cpt_flags_array D c) m" for m
    by (simp add: unicode_cpt_flags_array_def Let_def fold_set_flag_mono
        fold_set_flag_mono[where h = "\<lambda>_. 8" and k = "\<lambda>x. x"])
  ultimately show thesis using that by blast
qed

lemma table_check_good:
  assumes "table_check D"
  shows "good_tables D"
proof -
  have flags: "unicode_cpt_flags_from_cpt D c \<noteq> 0 \<and> \<not> (cls D is_letter c \<and> cls D is_number c)" for c
  proof (cases "c < MAX_CODEPOINTS")
    case False
    then show ?thesis by (simp add: unicode_cpt_flags_from_cpt_def cls_def UNDEFINED_def is_letter_def)
  next
    case True
    obtain f where f: "f = UNDEFINED \<or> f \<in> snd ` set (butlast (unicode_ranges_flags D))"
      "\<And>m. m < 8 \<Longrightarrow> bit (unicode_cpt_flags_array D c) m = bit f m"
      "\<And>m. bit f m \<Longrightarrow> bit (unicode_cpt_flags_array D c) m" using flags_array_value[of D c] by blast
    from f(1) assms have "f \<noteq> 0" "\<not> (is_letter f \<and> is_number f)"
      by (auto simp: table_check_def list_all_iff UNDEFINED_def is_letter_def)
    moreover from this(1) obtain m where "bit f m" by (metis bit_0_eq bot_apply bit_word_eqI bot_bool_def)
    ultimately show ?thesis using True f(2)[of 1] f(2)[of 2] f(3)[of m]
      by (auto simp: unicode_cpt_flags_from_cpt_def cls_def is_letter_def is_number_def)
  qed
  have "lower_pair D l u" if "(l, u) \<in> set (zip ''stmdrevl'' ''STMDREVL'')" for l u
    using assms that lower_check_pair unfolding table_check_def list_all_iff by blast
  then show ?thesis using assms flags unfolding good_tables_def table_check_def by simp
qed

text \<open>
  A table for the ASCII range, in the form of unicode-data.cpp, with the case pairs of the
  contractions.
\<close>

definition ascii_data :: unicode_data where
  "ascii_data = \<lparr>
     unicode_ranges_flags = [(0, CONTROL), (0x20, SEPARATOR), (0x21, PUNCTUATION), (0x24, SYMBOL),
       (0x25, PUNCTUATION), (0x30, NUMBER), (0x3A, PUNCTUATION), (0x41, LETTER), (0x5B, PUNCTUATION),
       (0x61, LETTER), (0x7B, PUNCTUATION), (0x7F, CONTROL), (0x80, UNDEFINED), (0x110000, 0)],
     unicode_set_whitespace = [0x09, 0x0A, 0x0B, 0x0C, 0x0D, 0x20],
     unicode_map_lowercase = [(0x44, 0x64), (0x45, 0x65), (0x4C, 0x6C), (0x4D, 0x6D), (0x52, 0x72),
       (0x53, 0x73), (0x54, 0x74), (0x56, 0x76)],
     unicode_map_uppercase = [(0x64, 0x44), (0x65, 0x45), (0x6C, 0x4C), (0x6D, 0x4D), (0x72, 0x52),
       (0x73, 0x53), (0x74, 0x54), (0x76, 0x56)],
     unicode_ranges_nfd = [\<lparr>nfd_first = 0, nfd_last = 0, nfd_nfd = 0\<rparr>]\<rparr>"

lemma ascii_data_good: "good_tables ascii_data"
proof (rule table_check_good)
  have fl: "unicode_cpt_flags_from_cpt ascii_data (ascii CHR '' '') = 0x108"
    "unicode_cpt_flags_from_cpt ascii_data (ascii CHR 0x0D) = 0x180"
    "unicode_cpt_flags_from_cpt ascii_data (ascii CHR 0x0A) = 0x180"
    "unicode_cpt_flags_from_cpt ascii_data (ascii CHR 0x27) = 0x20"
    by code_simp+
  have r: "list_all (\<lambda>(_, f). f \<noteq> 0 \<and> \<not> (is_letter f \<and> is_number f)) (butlast (unicode_ranges_flags ascii_data))"
    by (simp add: ascii_data_def is_letter_def is_number_def CONTROL_def SEPARATOR_def PUNCTUATION_def
        SYMBOL_def NUMBER_def LETTER_def UNDEFINED_def)
  have l: "list_all (\<lambda>(l, u). lower_check (unicode_map_lowercase ascii_data) l u) (zip ''stmdrevl'' ''STMDREVL'')"
    by (simp add: lower_check_def ascii_data_def ascii_def)
  show "table_check ascii_data"
    unfolding table_check_def using r l
    by (simp add: plain_space_def fl is_whitespace_def is_letter_def is_number_def cls_def)
      (simp add: ascii_data_def)
qed

section \<open>Encoding and decoding\<close>

text \<open>
  C38. UTF-8 round trip.  \<open>unicode_cpt_to_utf8\<close> encodes exactly the code points up to U+10FFFF
  and throws \<open>invalid_argument\<close> beyond them; and wherever the encoding stands in a text,
  \<open>unicode_cpt_from_utf8\<close> at that offset reads the code point back and stops right behind it,
  at the length \<open>unicode_len_utf8\<close> announces from the first byte.
\<close>

theorem utf8_round_trip:
  "case unicode_cpt_to_utf8 c of
     Inl f \<Rightarrow> 0x10FFFF < c \<and> f = Invalid_argument ''invalid codepoint''
   | Inr e \<Rightarrow> c \<le> 0x10FFFF
       \<and> unicode_cpt_from_utf8 (before @ e @ behind) (length before) = Inr (c, length before + length e)
       \<and> unicode_len_utf8 (hd e) = length e"
proof (cases "unicode_cpt_to_utf8 c")
  case (Inl f)
  then have "\<not> c \<le> 0x10FFFF" using cpt_to_utf8_Inr[of c] by auto
  moreover have "f = Invalid_argument ''invalid codepoint''"
    using Inl by (auto simp: unicode_cpt_to_utf8_def split: if_splits)
  ultimately show ?thesis using Inl by simp
next
  case (Inr e)
  then show ?thesis using cpt_to_utf8_Inr[of c] decode_encoded[OF Inr] len_utf8_lead[OF Inr] by auto
qed

section \<open>The hand-written splitters\<close>

text \<open>
  C37. The GPT-2 splitter is its expression.  On tables that satisfy \<open>good_tables\<close> the
  hand-written loop of \<open>unicode_regex_split_custom_gpt2\<close> returns, for every piece the earlier
  expressions left, the lengths of the consecutive first matches a backtracking engine finds
  for \<open>'s|'t|'re|'ve|'m|'ll|'d| ?\p{L}+| ?\p{N}+| ?[^\s\p{L}\p{N}]+|\s+(?!\S)|\s+\<close>, and every
  position has such a match.
\<close>

theorem gpt2_splits_by_regex:
  assumes "good_tables D" and "unicode_cpts_from_utf8 txt = Inr cpts" and "sum_list offsets \<le> length cpts"
  shows "\<exists>pieces. unicode_regex_split_custom_gpt2 D txt offsets = Inr (concat pieces)
    \<and> map (rx_split (gpt2_rx D)) (cut_text offsets cpts) = map Some pieces"
  using gpt2.split_windows_cut[OF assms(1) decoded_in_range, of "txt" 0 cpts 0 offsets "[]"] assms(2,3)
  by (simp add: unicode_regex_split_custom_gpt2_def unicode_cpts_from_utf8_def)

theorem gpt2_splits_by_regex_witness:
  "\<exists>pieces. unicode_regex_split_custom_gpt2 ascii_data (bytes_of ''I'm 12  ok!'') [11] = Inr (concat pieces)
    \<and> map (rx_split (gpt2_rx ascii_data)) (cut_text [11] (map ascii ''I'm 12  ok!'')) = map Some pieces"
proof -
  have "unicode_cpts_from_utf8 (bytes_of ''I'm 12  ok!'') = Inr (map ascii ''I'm 12  ok!'')"
    by code_simp
  from gpt2_splits_by_regex[OF ascii_data_good this, of "[11]"] show ?thesis by simp
qed

text \<open>
  C36. The LLaMA-3 splitter is its expression: the same for the loop of
  \<open>unicode_regex_split_custom_llama3\<close> and
  \<open>(?:'[sS]|'[tT]|'[rR][eE]|'[vV][eE]|'[mM]|'[lL][lL]|'[dD])|[^\r\n\p{L}\p{N}]?\p{L}+|\p{N}{1,3}|\<close>
  \<open> ?[^\s\p{L}\p{N}]+[\r\n]*|\s*[\r\n]+|\s+(?!\S)|\s+\<close>, although the loop takes a whole run of
  digits in one step and tests other flags than the expression names.
\<close>

theorem llama3_splits_by_regex:
  assumes "good_tables D" and "unicode_cpts_from_utf8 txt = Inr cpts" and "sum_list offsets \<le> length cpts"
  shows "\<exists>pieces. unicode_regex_split_custom_llama3 D txt offsets = Inr (concat pieces)
    \<and> map (rx_split (llama3_rx D)) (cut_text offsets cpts) = map Some pieces"
  using llama3.split_windows_cut[OF assms(1) decoded_in_range, of "txt" 0 cpts 0 offsets "[]"] assms(2,3)
  by (simp add: unicode_regex_split_custom_llama3_def unicode_cpts_from_utf8_def)

theorem llama3_splits_by_regex_witness:
  "\<exists>pieces. unicode_regex_split_custom_llama3 ascii_data (bytes_of ''I'M 1234 (ok)'') [13] = Inr (concat pieces)
    \<and> map (rx_split (llama3_rx ascii_data)) (cut_text [13] (map ascii ''I'M 1234 (ok)'')) = map Some pieces"
proof -
  have "unicode_cpts_from_utf8 (bytes_of ''I'M 1234 (ok)'') = Inr (map ascii ''I'M 1234 (ok)'')"
    by code_simp
  from llama3_splits_by_regex[OF ascii_data_good this, of "[13]"] show ?thesis by simp
qed

section \<open>The whole split\<close>

lemma split_all_keeps:
  assumes "regex_ok R" "unicode_cpts_from_utf8 txt = Inr cpts"
    "rfold (\<lambda>re offs. split_by D R txt cpts tc re offs) res offs = Inr out" "sum_list offs = length cpts"
    "\<forall>re \<in> set res. has_category re \<longrightarrow> length tc = length cpts"
  shows "sum_list out = length cpts"
  using assms(3,4,5)
proof (induction res arbitrary: offs)
  case (Cons re res)
  then show ?case using split_by_keeps[OF assms(1,2) Cons.prems(2)] by fastforce
qed simp

text \<open>A library that finds a match in texts of six characters only.\<close>

definition six_library :: std_regex where
  "six_library = \<lparr>re_bytes = (\<lambda>_ _. None), re_wide = (\<lambda>_ s. Some (if length s = 6 then [(4, 2)] else [])),
     wide_from_utf8 = (\<lambda>e. Some (map ucast e))\<rparr>"

lemma six_library_ok: "regex_ok six_library"
  by (simp add: regex_ok_def iterates_def six_library_def)

text \<open>A split with it.\<close>

lemma six_split:
  "\<exists>ws. unicode_regex_split ascii_data six_library (bytes_of ''I'm 12'') [bytes_of ''[0-9]+''] = Inr ws"
proof -
  let ?t = "bytes_of ''I'm 12''" and ?e = "bytes_of ''[0-9]+''" and ?c = "map ascii ''I'm 12''"
  have c: "unicode_cpts_from_utf8 ?t = Inr ?c" by code_simp
  have h: "\<not> has_category ?e" "?e \<noteq> gpt2_regex" "?e \<noteq> llama3_regex" "?e \<noteq> llama3_regex_brackets" by code_simp+
  then have sp: "split_by ascii_data six_library ?t ?c [] ?e [6] = Inr [4, 2]"
    by (simp add: split_by_def unicode_regex_split_custom_def stl_split_def six_library_def)
  have w: "take_words ?c [4, 2] = Inr [bytes_of ''I'm '', bytes_of ''12'']" by code_simp
  obtain es where es: "unicode_byte_encoding_process [bytes_of ''I'm '', bytes_of ''12''] = Inr es"
    using byte_encoding_concat take_words_concat[OF w] by fastforce
  have "length ?c = 6" by simp
  then have "unicode_regex_split ascii_data six_library ?t [?e] = Inr es"
    using h(1) by (simp only: unicode_regex_split_def c rbind.simps Let_def list.pred_inject list_ex_iff list.set ball_simps bex_simps
        simp_thms if_False rfold.simps sp w es)
  then show ?thesis by blast
qed

text \<open>The words, before and after the byte encoding.\<close>

lemma regex_split_words:
  assumes "regex_ok R" and "unicode_regex_split D R txt regex_exprs = Inr ws"
  shows "\<exists>cpts us. unicode_cpts_from_utf8 txt = Inr cpts \<and> unicode_cpts_to_utf8 cpts = Inr (concat us)
    \<and> encode_bytes (concat us) = Inr (concat ws) \<and> list_all2 (\<lambda>u w. encode_bytes u = Inr w) us ws"
proof -
  from assms(2) obtain cpts offs ws' where cpts: "unicode_cpts_from_utf8 txt = Inr cpts"
    and offs: "rfold (\<lambda>re offs. split_by D R txt cpts
        (if list_ex has_category regex_exprs then map (collapse_cpt D) cpts else []) re offs)
        regex_exprs [length cpts] = Inr offs"
    and ws': "take_words cpts offs = Inr ws'" "unicode_byte_encoding_process ws' = Inr ws"
    unfolding unicode_regex_split_def Let_def by blast
  have "sum_list offs = length cpts"
    using split_all_keeps[OF assms(1) cpts offs] by (auto simp: list_ex_iff)
  from take_words_concat[OF ws'(1) this] byte_encoding_concat[of ws'] ws'(2) cpts show ?thesis
    by (intro exI[of _ cpts] exI[of _ ws']) auto
qed

text \<open>
  Splitting loses nothing.  Whatever expressions are used, hand-written or through the
  library, the words \<open>unicode_regex_split\<close> returns, put together, are the byte-alphabet form of
  the text's own code points: no code point is dropped, repeated or moved.
\<close>

theorem regex_split_keeps_text:
  assumes "regex_ok R" and "unicode_regex_split D R txt regex_exprs = Inr ws"
  shows "\<exists>cpts t. unicode_cpts_from_utf8 txt = Inr cpts \<and> unicode_cpts_to_utf8 cpts = Inr t
    \<and> encode_bytes t = Inr (concat ws)"
  using regex_split_words[OF assms] by blast

theorem regex_split_keeps_text_witness:
  "\<exists>ws cpts t. unicode_regex_split ascii_data six_library (bytes_of ''I'm 12'') [bytes_of ''[0-9]+''] = Inr ws
    \<and> unicode_cpts_from_utf8 (bytes_of ''I'm 12'') = Inr cpts \<and> unicode_cpts_to_utf8 cpts = Inr t
    \<and> encode_bytes t = Inr (concat ws)"
  using six_split regex_split_keeps_text[OF six_library_ok] by blast

end
