(* ===== verification/Vocab.thy ===== *)
theory Vocab
  imports Unicode
begin

text \<open>
  The vocabulary as the tokenizers see it, \<open>struct llama_vocab\<close> and its \<open>impl\<close> in
  llama-vocab.h and llama-vocab.cpp: token data, special tokens, flags, the two directions of
  the token map, and the queries on them.

  Scores are values of a linear order \<open>'f\<close> (\<open>float\<close> without NaN); a token is an \<open>int\<close>.
\<close>

section \<open>Token data\<close>

type_synonym llama_token = int

abbreviation LLAMA_TOKEN_NULL :: llama_token where
  "LLAMA_TOKEN_NULL \<equiv> -1"

datatype llama_vocab_type =
    LLAMA_VOCAB_TYPE_NONE
  | LLAMA_VOCAB_TYPE_SPM
  | LLAMA_VOCAB_TYPE_BPE
  | LLAMA_VOCAB_TYPE_WPM
  | LLAMA_VOCAB_TYPE_UGM
  | LLAMA_VOCAB_TYPE_RWKV

datatype llama_vocab_pre_type =
    PRE_TYPE_DEFAULT
  | PRE_TYPE_LLAMA3
  | PRE_TYPE_DEEPSEEK_LLM
  | PRE_TYPE_DEEPSEEK_CODER
  | PRE_TYPE_FALCON
  | PRE_TYPE_MPT
  | PRE_TYPE_STARCODER
  | PRE_TYPE_GPT2
  | PRE_TYPE_REFACT
  | PRE_TYPE_COMMAND_R
  | PRE_TYPE_STABLELM2
  | PRE_TYPE_QWEN2
  | PRE_TYPE_OLMO
  | PRE_TYPE_DBRX
  | PRE_TYPE_SMAUG
  | PRE_TYPE_PORO
  | PRE_TYPE_CHATGLM3
  | PRE_TYPE_CHATGLM4
  | PRE_TYPE_VIKING
  | PRE_TYPE_JAIS
  | PRE_TYPE_TEKKEN
  | PRE_TYPE_SMOLLM
  | PRE_TYPE_CODESHELL
  | PRE_TYPE_BLOOM
  | PRE_TYPE_GPT3_FINNISH
  | PRE_TYPE_EXAONE
  | PRE_TYPE_CHAMELEON
  | PRE_TYPE_MINERVA
  | PRE_TYPE_DEEPSEEK3_LLM

type_synonym llama_token_attr = "32 word"

definition ATTR_UNKNOWN :: llama_token_attr where "ATTR_UNKNOWN = 0x001"
definition ATTR_UNUSED :: llama_token_attr where "ATTR_UNUSED = 0x002"
definition ATTR_NORMAL :: llama_token_attr where "ATTR_NORMAL = 0x004"
definition ATTR_CONTROL :: llama_token_attr where "ATTR_CONTROL = 0x008"
definition ATTR_USER_DEFINED :: llama_token_attr where "ATTR_USER_DEFINED = 0x010"
definition ATTR_BYTE :: llama_token_attr where "ATTR_BYTE = 0x020"
definition ATTR_LSTRIP :: llama_token_attr where "ATTR_LSTRIP = 0x080"
definition ATTR_RSTRIP :: llama_token_attr where "ATTR_RSTRIP = 0x100"

record 'f token_data =
  td_text :: "8 word list"
  td_score :: 'f
  td_attr :: llama_token_attr

text \<open>The parts of the vocabulary's state that tokenizing and detokenizing read.\<close>

record 'f llama_vocab =
  v_type :: llama_vocab_type
  v_pre_type :: llama_vocab_pre_type
  v_max_token_len :: int
  v_bos_id :: llama_token
  v_eos_id :: llama_token
  v_unk_id :: llama_token
  v_sep_id :: llama_token
  v_add_space_prefix :: bool
  v_add_bos :: bool
  v_add_eos :: bool
  v_ignore_merges :: bool
  v_clean_spaces :: bool
  v_remove_extra_whitespaces :: bool
  v_escape_whitespaces :: bool
  v_treat_whitespace_as_suffix :: bool
  v_token_to_id :: "8 word list \<rightharpoonup> llama_token"
  v_id_to_token :: "'f token_data list"
  v_cache_special_tokens :: "llama_token list"
  v_cache_token_to_piece :: "8 word list list"
  v_bpe_ranks :: "(8 word list \<times> 8 word list) \<rightharpoonup> int"
  v_eog_ids :: "llama_token list"

section \<open>Access by a signed index\<close>

text \<open>\<open>std::vector::at\<close> throws; \<open>operator[]\<close> outside the vector is undefined.\<close>

definition vec_at :: "'a list \<Rightarrow> int \<Rightarrow> 'a res" where
  "vec_at xs i = (if 0 \<le> i \<and> i < int (length xs) then Inr (xs ! nat i) else Inl (Out_of_range ''vector''))"

definition vec_get :: "'a list \<Rightarrow> int \<Rightarrow> 'a res" where
  "vec_get xs i = (if 0 \<le> i \<and> i < int (length xs) then Inr (xs ! nat i) else Inl Out_of_bounds)"

lemma vec_get_Inr: "vec_get xs i = Inr x \<longleftrightarrow> 0 \<le> i \<and> i < int (length xs) \<and> x = xs ! nat i"
  by (auto simp: vec_get_def)

lemma vec_at_Inr: "vec_at xs i = Inr x \<longleftrightarrow> 0 \<le> i \<and> i < int (length xs) \<and> x = xs ! nat i"
  by (auto simp: vec_at_def)

section \<open>Queries\<close>

definition n_tokens :: "'f llama_vocab \<Rightarrow> nat" where
  "n_tokens v = length (v_id_to_token v)"

definition has_vocab :: "'f llama_vocab \<Rightarrow> unit res" where
  "has_vocab v = guard (v_type v \<noteq> LLAMA_VOCAB_TYPE_NONE) Assert_failed"

definition get_token_data :: "'f llama_vocab \<Rightarrow> llama_token \<Rightarrow> 'f token_data res" where
  "get_token_data v tok = rbind (has_vocab v) (\<lambda>_. vec_at (v_id_to_token v) tok)"

definition token_get_attr :: "'f llama_vocab \<Rightarrow> llama_token \<Rightarrow> llama_token_attr res" where
  "token_get_attr v tok = rbind (get_token_data v tok) (\<lambda>d. Inr (td_attr d))"

definition has_attr :: "'f llama_vocab \<Rightarrow> llama_token \<Rightarrow> llama_token_attr \<Rightarrow> bool res" where
  "has_attr v tok a =
     rbind (has_vocab v) (\<lambda>_. rbind (vec_get (v_id_to_token v) tok) (\<lambda>d. Inr (td_attr d AND a \<noteq> 0)))"

definition is_normal :: "'f llama_vocab \<Rightarrow> llama_token \<Rightarrow> bool res" where
  "is_normal v tok = has_attr v tok ATTR_NORMAL"

definition is_unknown :: "'f llama_vocab \<Rightarrow> llama_token \<Rightarrow> bool res" where
  "is_unknown v tok = has_attr v tok ATTR_UNKNOWN"

definition is_control :: "'f llama_vocab \<Rightarrow> llama_token \<Rightarrow> bool res" where
  "is_control v tok = has_attr v tok ATTR_CONTROL"

definition is_byte :: "'f llama_vocab \<Rightarrow> llama_token \<Rightarrow> bool res" where
  "is_byte v tok = has_attr v tok ATTR_BYTE"

definition is_user_defined :: "'f llama_vocab \<Rightarrow> llama_token \<Rightarrow> bool res" where
  "is_user_defined v tok = has_attr v tok ATTR_USER_DEFINED"

definition is_unused :: "'f llama_vocab \<Rightarrow> llama_token \<Rightarrow> bool res" where
  "is_unused v tok = has_attr v tok ATTR_UNUSED"

definition is_eog :: "'f llama_vocab \<Rightarrow> llama_token \<Rightarrow> bool" where
  "is_eog v tok \<longleftrightarrow> tok \<noteq> LLAMA_TOKEN_NULL \<and> tok \<in> set (v_eog_ids v)"

definition text_to_token :: "'f llama_vocab \<Rightarrow> 8 word list \<Rightarrow> llama_token res" where
  "text_to_token v txt =
     rbind (has_vocab v) (\<lambda>_. Inr (case v_token_to_id v txt of Some t \<Rightarrow> t | None \<Rightarrow> LLAMA_TOKEN_NULL))"

definition token_at :: "'f llama_vocab \<Rightarrow> 8 word list \<Rightarrow> llama_token res" where
  "token_at v txt = (case v_token_to_id v txt of
     Some t \<Rightarrow> Inr t | None \<Rightarrow> Inl (Out_of_range ''unordered_map::at''))"

text \<open>A rank is asked for only between texts without a space and a line break.\<close>

definition find_bpe_rank :: "'f llama_vocab \<Rightarrow> 8 word list \<Rightarrow> 8 word list \<Rightarrow> int res" where
  "find_bpe_rank v token_left token_right =
     rbind (guard (0x20 \<notin> set token_left) Assert_failed) (\<lambda>_.
     rbind (guard (0x0A \<notin> set token_left) Assert_failed) (\<lambda>_.
     rbind (guard (0x20 \<notin> set token_right) Assert_failed) (\<lambda>_.
     rbind (guard (0x0A \<notin> set token_right) Assert_failed) (\<lambda>_.
       Inr (case v_bpe_ranks v (token_left, token_right) of None \<Rightarrow> -1 | Some r \<Rightarrow> r)))))"

section \<open>Byte tokens\<close>

definition hex_upper :: "8 word \<Rightarrow> 8 word" where
  "hex_upper n = (if n < 10 then 0x30 + n else 0x37 + n)"

text \<open>\<open>"<0xAB>"\<close>, and the byte as a C string of its own.\<close>

definition byte_token_text :: "8 word \<Rightarrow> 8 word list" where
  "byte_token_text ch = [0x3C, 0x30, 0x78, hex_upper (drop_bit 4 ch), hex_upper (ch AND 15), 0x3E]"

definition byte_to_token :: "'f llama_vocab \<Rightarrow> 8 word \<Rightarrow> llama_token res" where
  "byte_to_token v ch =
     (case v_type v of
        LLAMA_VOCAB_TYPE_NONE \<Rightarrow> Inl Assert_failed
      | LLAMA_VOCAB_TYPE_SPM \<Rightarrow>
          (case v_token_to_id v (byte_token_text ch) of
             Some t \<Rightarrow> Inr t | None \<Rightarrow> token_at v (if ch = 0 then [] else [ch]))
      | LLAMA_VOCAB_TYPE_UGM \<Rightarrow>
          (case v_token_to_id v (byte_token_text ch) of
             Some t \<Rightarrow> Inr t | None \<Rightarrow> token_at v (if ch = 0 then [] else [ch]))
      | LLAMA_VOCAB_TYPE_WPM \<Rightarrow> rbind (unicode_byte_to_utf8 ch) (token_at v)
      | LLAMA_VOCAB_TYPE_BPE \<Rightarrow> rbind (unicode_byte_to_utf8 ch) (token_at v)
      | LLAMA_VOCAB_TYPE_RWKV \<Rightarrow> Inl Abort)"

text \<open>\<open>strtol\<close> in base 16: blanks, a sign, an optional prefix, then digits up to the first other byte.\<close>

definition hex_value :: "8 word \<Rightarrow> nat option" where
  "hex_value c =
     (if 0x30 \<le> c \<and> c \<le> 0x39 then Some (unat (c - 0x30))
      else if 0x41 \<le> c \<and> c \<le> 0x46 then Some (unat (c - 0x37))
      else if 0x61 \<le> c \<and> c \<le> 0x66 then Some (unat (c - 0x57)) else None)"

fun hex_digits :: "8 word list \<Rightarrow> int \<Rightarrow> int" where
  "hex_digits [] acc = acc"
| "hex_digits (c # cs) acc =
     (case hex_value c of None \<Rightarrow> acc | Some d \<Rightarrow> hex_digits cs (16 * acc + int d))"

definition c_isspace :: "8 word \<Rightarrow> bool" where
  "c_isspace c \<longleftrightarrow> c = 0x20 \<or> (0x09 \<le> c \<and> c \<le> 0x0D)"

definition skip_0x :: "8 word list \<Rightarrow> 8 word list" where
  "skip_0x s = (case s of
     a # b # c # r \<Rightarrow> if a = 0x30 \<and> (b = 0x78 \<or> b = 0x58) \<and> hex_value c \<noteq> None then c # r else s
   | _ \<Rightarrow> s)"

definition strtol16 :: "8 word list \<Rightarrow> int" where
  "strtol16 s = (case dropWhile c_isspace s of
     [] \<Rightarrow> 0
   | c # r \<Rightarrow> if c = 0x2D then - hex_digits (skip_0x r) 0
              else if c = 0x2B then hex_digits (skip_0x r) 0
              else hex_digits (skip_0x (c # r)) 0)"

definition token_to_byte :: "'f llama_vocab \<Rightarrow> llama_token \<Rightarrow> 8 word res" where
  "token_to_byte v tok =
     rbind (has_vocab v) (\<lambda>_.
     rbind (rbind (is_byte v tok) (\<lambda>b. guard b Assert_failed)) (\<lambda>_.
     rbind (vec_at (v_id_to_token v) tok) (\<lambda>d.
       if v_type v = LLAMA_VOCAB_TYPE_SPM \<or> v_type v = LLAMA_VOCAB_TYPE_UGM then
         (if length (td_text d) < 3 then Inl (Out_of_range ''basic_string::substr'')
          else Inr (of_int (strtol16 (takeWhile (\<lambda>c. c \<noteq> 0) (take 2 (drop 3 (td_text d)))))))
       else Inl Abort)))"

end
