(* ===== verification/VocabMerge.thy ===== *)
theory VocabMerge
  imports Vocab
begin

text \<open>
  What the SPM and BPE sessions of llama-vocab.cpp share (they repeat the code): the chain of
  symbols over a text, its construction from the UTF-8 lead bytes, and the loop that pops
  bigrams and merges neighbours.

  A symbol's \<open>text\<close> pointer is an offset into the text the session works on.  The work queue
  is the list of its elements, and \<open>pick\<close> says which of them \<open>std::priority_queue\<close> brings out:
  the library promises a maximal one but not which of several.
\<close>

section \<open>Symbols\<close>

record llm_symbol =
  sym_prev :: int
  sym_next :: int
  sym_text :: nat
  sym_n :: nat

definition sym_string :: "8 word list \<Rightarrow> llm_symbol \<Rightarrow> 8 word list" where
  "sym_string txt s = take (sym_n s) (drop (sym_text s) txt)"

lemma len_utf8_pos: "0 < unicode_len_utf8 c \<and> unicode_len_utf8 c \<le> 4"
proof -
  have "unat (drop_bit 4 c) < 16"
    using unsigned_less[of c, where 'a = nat] by (simp add: drop_bit_eq_div unat_div_distrib)
  moreover have "0 < [1, 1, 1, 1, 1, 1, 1, 1, 1, 1, 1, 1, 2, 2, 3, 4 :: nat] ! k
      \<and> [1, 1, 1, 1, 1, 1, 1, 1, 1, 1, 1, 1, 2, 2, 3, 4] ! k \<le> (4 :: nat)" if "k < 16" for k
    using that by (auto simp: less_Suc_eq numeral_eq_Suc)
  ultimately show ?thesis by (simp add: unicode_len_utf8_def)
qed

text \<open>The loop that splits the text into UTF-8 characters.\<close>

function split_symbols :: "8 word list \<Rightarrow> nat \<Rightarrow> int \<Rightarrow> llm_symbol list" where
  "split_symbols txt offs index =
     (if offs < length txt then
        let n = min (unicode_len_utf8 (txt ! offs)) (length txt - offs) in
        \<lparr>sym_prev = index - 1, sym_next = (if offs + n = length txt then -1 else index + 1),
         sym_text = offs, sym_n = n\<rparr> # split_symbols txt (offs + n) (index + 1)
      else [])"
  by pat_completeness auto
termination
proof (relation "measure (\<lambda>(txt, offs, _). length txt - offs)")
  fix s :: "8 word list" and offs n :: nat and index :: int
  assume "offs < length s" "n = min (unicode_len_utf8 (s ! offs)) (length s - offs)"
  then show "((s, offs + n, index + 1), s, offs, index) \<in> measure (\<lambda>(s, offs, _). length s - offs)"
    using len_utf8_pos[of "s ! offs"] by auto
qed simp

declare split_symbols.simps [simp del]

section \<open>The merge loop\<close>

record 'b merging =
  m_text :: "8 word list"
  m_symbols :: "llm_symbol list"
  m_queue :: "'b list"

text \<open>Merge the right symbol into the left one and take it out of the chain.\<close>

definition merge_symbols :: "int \<Rightarrow> int \<Rightarrow> llm_symbol list \<Rightarrow> llm_symbol list res" where
  "merge_symbols left right syms =
     rbind (vec_get syms left) (\<lambda>l.
     rbind (vec_get syms right) (\<lambda>r.
       let syms1 = syms[nat left := l\<lparr>sym_n := sym_n l + sym_n r\<rparr>];
           syms2 = syms1[nat right := (syms1 ! nat right)\<lparr>sym_n := 0\<rparr>];
           next_of_right = sym_next (syms2 ! nat right);
           syms3 = syms2[nat left := (syms2 ! nat left)\<lparr>sym_next := next_of_right\<rparr>]
       in if 0 \<le> next_of_right then
            rbind (vec_get syms3 next_of_right) (\<lambda>x.
              Inr (syms3[nat next_of_right := x\<lparr>sym_prev := left\<rparr>]))
          else Inr syms3))"

definition sym_of :: "('b, 'z) merging_scheme \<Rightarrow> int \<Rightarrow> llm_symbol res" where
  "sym_of st i = vec_get (m_symbols st) i"

text \<open>
  The body of the loop for a popped bigram.  \<open>fresh\<close> is the session's test that the bigram is
  not outdated, \<open>add\<close> its \<open>try_add_bigram\<close> or \<open>add_new_bigram\<close>.
\<close>

definition merge_one ::
    "('b \<Rightarrow> int) \<Rightarrow> ('b \<Rightarrow> int) \<Rightarrow> (8 word list \<Rightarrow> llm_symbol \<Rightarrow> llm_symbol \<Rightarrow> 'b \<Rightarrow> bool)
      \<Rightarrow> (int \<Rightarrow> int \<Rightarrow> ('b, 'z) merging_scheme \<Rightarrow> ('b, 'z) merging_scheme res)
      \<Rightarrow> 'b \<Rightarrow> ('b, 'z) merging_scheme \<Rightarrow> ('b, 'z) merging_scheme res" where
  "merge_one left right fresh add b st =
     rbind (sym_of st (left b)) (\<lambda>l.
     rbind (sym_of st (right b)) (\<lambda>r.
       if sym_n l = 0 \<or> sym_n r = 0 \<or> \<not> fresh (m_text st) l r b then Inr st
       else
         rbind (merge_symbols (left b) (right b) (m_symbols st)) (\<lambda>syms.
         let st = st\<lparr>m_symbols := syms\<rparr> in
         rbind (sym_of st (left b)) (\<lambda>l.
         rbind (add (sym_prev l) (left b) st) (\<lambda>st.
           add (left b) (sym_next l) st)))))"

text \<open>
  The loop.  Every round removes a bigram, and one that adds two has emptied a symbol, so the
  bound \<open>queue_bound\<close> is never reached (\<open>merge_loop_total\<close> in VocabMergeProps).
\<close>

fun merge_loop ::
    "('b list \<Rightarrow> nat) \<Rightarrow> ('b \<Rightarrow> ('b, 'z) merging_scheme \<Rightarrow> ('b, 'z) merging_scheme res)
      \<Rightarrow> nat \<Rightarrow> ('b, 'z) merging_scheme \<Rightarrow> ('b, 'z) merging_scheme res" where
  "merge_loop pick one 0 st = (if m_queue st = [] then Inr st else Inl Out_of_fuel)"
| "merge_loop pick one (Suc fuel) st =
     (if m_queue st = [] then Inr st
      else
        let k = pick (m_queue st) in
        rbind (vec_get (m_queue st) (int k)) (\<lambda>b.
          rbind (one b (st\<lparr>m_queue := take k (m_queue st) @ drop (Suc k) (m_queue st)\<rparr>))
            (\<lambda>st. merge_loop pick one fuel st)))"

definition live :: "llm_symbol list \<Rightarrow> nat" where
  "live syms = count_if (\<lambda>s. 0 < sym_n s) syms"

definition queue_bound :: "('b, 'z) merging_scheme \<Rightarrow> nat" where
  "queue_bound st = 2 * live (m_symbols st) + length (m_queue st)"

text \<open>Seeding the queue with all neighbours, \<open>i = 1, ..., size - 1\<close>.\<close>

definition seed_queue ::
    "(int \<Rightarrow> int \<Rightarrow> ('b, 'z) merging_scheme \<Rightarrow> ('b, 'z) merging_scheme res)
      \<Rightarrow> ('b, 'z) merging_scheme \<Rightarrow> ('b, 'z) merging_scheme res" where
  "seed_queue add st = rfold (\<lambda>i st. add (int i - 1) (int i) st) [1..<length (m_symbols st)] st"

end
