(* ===== verification/VocabBpe.thy ===== *)
theory VocabBpe
  imports VocabMerge UnicodeSplit
begin

text \<open>
  The BPE tokenizer and its session of llama-vocab.cpp (\<open>llm_tokenizer_bpe\<close>,
  \<open>llm_tokenizer_bpe_session\<close>): the expressions of every pre-tokenizer, the merging of each
  word by rank, the list of finished symbols, and their tokens.
\<close>

section \<open>The expressions\<close>

text \<open>
  In \<open>bytes_of\<close> the character \<open>~\<close> stands for a backslash; expressions with a tilde, a control
  character or bytes beyond ASCII are written as their bytes.
\<close>

definition newline_regex :: "8 word list" where
  "newline_regex =
    [0x5B, 0x0D, 0x0A, 0x5D]"

definition deepseek_llm_regex2 :: "8 word list" where
  "deepseek_llm_regex2 =
    [0x5C, 0x73, 0x3F, 0x5B, 0x41, 0x2D, 0x5A, 0x61, 0x2D, 0x7A, 0xC2, 0xB5, 0xC3, 0x80, 0x2D, 0xC3,
     0x96, 0xC3, 0x98, 0x2D, 0xC3, 0xB6, 0xC3, 0xB8, 0x2D, 0xC6, 0xBA, 0xC6, 0xBC, 0x2D, 0xC6, 0xBF,
     0xC7, 0x84, 0x2D, 0xCA, 0x93, 0xCA, 0x95, 0x2D, 0xCA, 0xAF, 0xCD, 0xB0, 0x2D, 0xCD, 0xB3, 0xCD,
     0xB6, 0xCD, 0xB7, 0xCD, 0xBB, 0x2D, 0xCD, 0xBD, 0xCD, 0xBF, 0xCE, 0x86, 0xCE, 0x88, 0x2D, 0xCE,
     0x8A, 0xCE, 0x8C, 0xCE, 0x8E, 0x2D, 0xCE, 0xA1, 0xCE, 0xA3, 0x2D, 0xCF, 0xB5, 0xCF, 0xB7, 0x2D,
     0xD2, 0x81, 0xD2, 0x8A, 0x2D, 0xD4, 0xAF, 0xD4, 0xB1, 0x2D, 0xD5, 0x96, 0xE1, 0x82, 0xA0, 0x2D,
     0xE1, 0x83, 0x85, 0xE1, 0x8E, 0xA0, 0x2D, 0xE1, 0x8F, 0xB5, 0xE1, 0x8F, 0xB8, 0x2D, 0xE1, 0x8F,
     0xBD, 0xE1, 0xB2, 0x90, 0x2D, 0xE1, 0xB2, 0xBA, 0xE1, 0xB2, 0xBD, 0x2D, 0xE1, 0xB2, 0xBF, 0xE1,
     0xB4, 0x80, 0x2D, 0xE1, 0xB4, 0xAB, 0xE1, 0xB5, 0xAB, 0x2D, 0xE1, 0xB5, 0xB7, 0xE1, 0xB5, 0xB9,
     0x2D, 0xE1, 0xB6, 0x9A, 0xE1, 0xB8, 0x80, 0x2D, 0xE1, 0xBC, 0x95, 0xE1, 0xBC, 0x98, 0x2D, 0xE1,
     0xBC, 0x9D, 0xE1, 0xBC, 0xA0, 0x2D, 0xE1, 0xBD, 0x85, 0xE1, 0xBD, 0x88, 0x2D, 0xE1, 0xBD, 0x8D,
     0xE1, 0xBD, 0x90, 0x2D, 0xE1, 0xBD, 0x97, 0xE1, 0xBD, 0x99, 0xE1, 0xBD, 0x9B, 0xE1, 0xBD, 0x9D,
     0xE1, 0xBD, 0x9F, 0x2D, 0xE1, 0xBD, 0xBD, 0xE1, 0xBE, 0x80, 0x2D, 0xE1, 0xBE, 0xB4, 0xE1, 0xBE,
     0xB6, 0x2D, 0xE1, 0xBE, 0xBC, 0xE1, 0xBE, 0xBE, 0xE1, 0xBF, 0x82, 0x2D, 0xE1, 0xBF, 0x84, 0xE1,
     0xBF, 0x86, 0x2D, 0xE1, 0xBF, 0x8C, 0xE1, 0xBF, 0x90, 0x2D, 0xE1, 0xBF, 0x93, 0xE1, 0xBF, 0x96,
     0x2D, 0xE1, 0xBF, 0x9B, 0xE1, 0xBF, 0xA0, 0x2D, 0xE1, 0xBF, 0xAC, 0xE1, 0xBF, 0xB2, 0x2D, 0xE1,
     0xBF, 0xB4, 0xE1, 0xBF, 0xB6, 0x2D, 0xE1, 0xBF, 0xBC, 0xE2, 0x84, 0x82, 0xE2, 0x84, 0x87, 0xE2,
     0x84, 0x8A, 0x2D, 0xE2, 0x84, 0x93, 0xE2, 0x84, 0x95, 0xE2, 0x84, 0x99, 0x2D, 0xE2, 0x84, 0x9D,
     0xE2, 0x84, 0xA4, 0xE2, 0x84, 0xA6, 0xE2, 0x84, 0xA8, 0xE2, 0x84, 0xAA, 0x2D, 0xE2, 0x84, 0xAD,
     0xE2, 0x84, 0xAF, 0x2D, 0xE2, 0x84, 0xB4, 0xE2, 0x84, 0xB9, 0xE2, 0x84, 0xBC, 0x2D, 0xE2, 0x84,
     0xBF, 0xE2, 0x85, 0x85, 0x2D, 0xE2, 0x85, 0x89, 0xE2, 0x85, 0x8E, 0xE2, 0x86, 0x83, 0xE2, 0x86,
     0x84, 0xE2, 0xB0, 0x80, 0x2D, 0xE2, 0xB1, 0xBB, 0xE2, 0xB1, 0xBE, 0x2D, 0xE2, 0xB3, 0xA4, 0xE2,
     0xB3, 0xAB, 0x2D, 0xE2, 0xB3, 0xAE, 0xE2, 0xB3, 0xB2, 0xE2, 0xB3, 0xB3, 0xEA, 0x99, 0x80, 0x2D,
     0xEA, 0x99, 0xAD, 0xEA, 0x9A, 0x80, 0x2D, 0xEA, 0x9A, 0x9B, 0xEA, 0x9C, 0xA2, 0x2D, 0xEA, 0x9D,
     0xAF, 0xEA, 0x9D, 0xB1, 0x2D, 0xEA, 0x9E, 0x87, 0xEA, 0x9E, 0x8B, 0x2D, 0xEA, 0x9E, 0x8E, 0xEA,
     0xAD, 0xB0, 0x2D, 0xEA, 0xAE, 0xBF, 0xEF, 0xAC, 0x80, 0x2D, 0xEF, 0xAC, 0x86, 0xEF, 0xAC, 0x93,
     0x2D, 0xEF, 0xAC, 0x97, 0xEF, 0xBC, 0xA1, 0x2D, 0xEF, 0xBC, 0xBA, 0xEF, 0xBD, 0x81, 0x2D, 0xEF,
     0xBD, 0x9A, 0xF0, 0x90, 0x90, 0x80, 0x2D, 0xF0, 0x90, 0x91, 0x8F, 0xF0, 0x90, 0x92, 0xB0, 0x2D,
     0xF0, 0x90, 0x93, 0x93, 0xF0, 0x90, 0x93, 0x98, 0x2D, 0xF0, 0x90, 0x93, 0xBB, 0xF0, 0x90, 0xB2,
     0x80, 0x2D, 0xF0, 0x90, 0xB2, 0xB2, 0xF0, 0x90, 0xB3, 0x80, 0x2D, 0xF0, 0x90, 0xB3, 0xB2, 0xF0,
     0x91, 0xA2, 0xA0, 0x2D, 0xF0, 0x91, 0xA3, 0x9F, 0xF0, 0x9E, 0xA4, 0x80, 0x2D, 0xF0, 0x9E, 0xA5,
     0x83, 0x5D, 0x2B]"

definition deepseek_llm_regex3 :: "8 word list" where
  "deepseek_llm_regex3 =
    [0x5C, 0x73, 0x3F, 0x5B, 0x21, 0x2D, 0x2F, 0x3A, 0x2D, 0x7E, 0xEF, 0xBC, 0x81, 0x2D, 0xEF, 0xBC,
     0x8F, 0xEF, 0xBC, 0x9A, 0x2D, 0xEF, 0xBD, 0x9E, 0xE2, 0x80, 0x98, 0x2D, 0xE2, 0x80, 0x9F, 0xE3,
     0x80, 0x80, 0x2D, 0xE3, 0x80, 0x82, 0x5D, 0x2B]"

definition deepseek_llm_regex4 :: "8 word list" where
  "deepseek_llm_regex4 = bytes_of ''~s+$''"

definition cjk_regex :: "8 word list" where
  "cjk_regex =
    [0x5B, 0xE4, 0xB8, 0x80, 0x2D, 0xE9, 0xBE, 0xA5, 0xE0, 0xA0, 0x80, 0x2D, 0xE4, 0xB8, 0x80, 0xEA,
     0xB0, 0x80, 0x2D, 0xED, 0x9F, 0xBF, 0x5D, 0x2B]"

definition digits_regex :: "8 word list" where
  "digits_regex = bytes_of ''~p{N}+''"

definition three_numbers_regex :: "8 word list" where
  "three_numbers_regex = bytes_of ''~p{N}{1,3}''"

definition deepseek3_llm_regex2 :: "8 word list" where
  "deepseek3_llm_regex2 =
    [0x5B, 0xE4, 0xB8, 0x80, 0x2D, 0xE9, 0xBE, 0xA5, 0xE3, 0x81, 0x80, 0x2D, 0xE3, 0x82, 0x9F, 0xE3,
     0x82, 0xA0, 0x2D, 0xE3, 0x83, 0xBF, 0x5D, 0x2B]"

definition deepseek3_llm_regex3 :: "8 word list" where
  "deepseek3_llm_regex3 =
    [0x5B, 0x21, 0x22, 0x23, 0x24, 0x25, 0x26, 0x27, 0x28, 0x29, 0x2A, 0x2B, 0x2C, 0x5C, 0x2D, 0x2E,
     0x2F, 0x3A, 0x3B, 0x3C, 0x3D, 0x3E, 0x3F, 0x40, 0x5C, 0x5B, 0x5C, 0x5C, 0x5C, 0x5D, 0x5E, 0x5F,
     0x60, 0x7B, 0x7C, 0x7D, 0x7E, 0x5D, 0x5B, 0x41, 0x2D, 0x5A, 0x61, 0x2D, 0x7A, 0x5D, 0x2B, 0x7C,
     0x5B, 0x5E, 0x0D, 0x0A, 0x5C, 0x70, 0x7B, 0x4C, 0x7D, 0x5C, 0x70, 0x7B, 0x50, 0x7D, 0x5C, 0x70,
     0x7B, 0x53, 0x7D, 0x5D, 0x3F, 0x5B, 0x5C, 0x70, 0x7B, 0x4C, 0x7D, 0x5C, 0x70, 0x7B, 0x4D, 0x7D,
     0x5D, 0x2B, 0x7C, 0x20, 0x3F, 0x5B, 0x5C, 0x70, 0x7B, 0x50, 0x7D, 0x5C, 0x70, 0x7B, 0x53, 0x7D,
     0x5D, 0x2B, 0x5B, 0x0D, 0x0A, 0x5D, 0x2A, 0x7C, 0x5C, 0x73, 0x2A, 0x5B, 0x0D, 0x0A, 0x5D, 0x2B,
     0x7C, 0x5C, 0x73, 0x2B, 0x28, 0x3F, 0x21, 0x5C, 0x53, 0x29, 0x7C, 0x5C, 0x73, 0x2B]"

definition deepseek_coder_regex2 :: "8 word list" where
  "deepseek_coder_regex2 = bytes_of ''~s?~p{L}+''"

definition deepseek_coder_regex3 :: "8 word list" where
  "deepseek_coder_regex3 = bytes_of ''~s?~p{P}+''"

definition digit_regex :: "8 word list" where
  "digit_regex = bytes_of ''~p{N}''"

definition falcon_regex1 :: "8 word list" where
  "falcon_regex1 =
    [0x5B, 0x5C, 0x70, 0x7B, 0x50, 0x7D, 0x5C, 0x24, 0x5C, 0x2B, 0x3C, 0x3D, 0x3E, 0x5C, 0x5E, 0x7E,
     0x5C, 0x7C, 0x60, 0x5D, 0x2B]"

definition three_digits_regex :: "8 word list" where
  "three_digits_regex = bytes_of ''[0-9][0-9][0-9]''"

definition stablelm2_regex :: "8 word list" where
  "stablelm2_regex = bytes_of
     (''(?:'[sS]|'[tT]|'[rR][eE]|'[vV][eE]|'[mM]|'[lL][lL]|'[dD])|[^~r~n~p{L}~p{N}]?~p{L'' @
      ''}+|~p{N}| ?[^~s~p{L}~p{N}]+[~r~n]*|~s*[~r~n]+|~s+(?!~S)|~s+'')"

definition poro_regex :: "8 word list" where
  "poro_regex =
    [0x20, 0x3F, 0x5B, 0x5E, 0x28, 0x5C, 0x73, 0x7C, 0x2E, 0x2C, 0x21, 0x3F, 0xE2, 0x80, 0xA6, 0xE3,
     0x80, 0x82, 0xEF, 0xBC, 0x8C, 0xE3, 0x80, 0x81, 0xE0, 0xA5, 0xA4, 0xDB, 0x94, 0xD8, 0x8C, 0x29,
     0x5D, 0x2B]"

definition tekken_regex :: "8 word list" where
  "tekken_regex = bytes_of
     (''[^~r~n~p{L}~p{N}]?((?=[~p{L}])([^a-z]))*((?=[~p{L}])([^A-Z]))+|[^~r~n~p{L}~p{N}]'' @
      ''?((?=[~p{L}])([^a-z]))+((?=[~p{L}])([^A-Z]))*|~p{N}| ?[^~s~p{L}~p{N}]+[~r~n/]*|~'' @
      ''s*[~r~n]+|~s+(?!~S)|~s+'')"

definition chameleon_regex1 :: "8 word list" where
  "chameleon_regex1 = bytes_of ''<sentinel:[0-9]+>''"

definition chameleon_regex2 :: "8 word list" where
  "chameleon_regex2 = bytes_of ''(IMGIMG)((A|B|C|D|E|F|G|H|I){1,4})Z''"

definition chameleon_regex3 :: "8 word list" where
  "chameleon_regex3 = bytes_of ''([~t~n]|    |  )''"

definition chameleon_regex5 :: "8 word list" where
  "chameleon_regex5 =
    [0x5B, 0x5C, 0x70, 0x7B, 0x50, 0x7D, 0x21, 0x2D, 0x2F, 0x3A, 0x2D, 0x40, 0x5C, 0x5B, 0x2D, 0x60,
     0x7B, 0x2D, 0x7E, 0x5D]"

definition default_regex1 :: "8 word list" where
  "default_regex1 =
    [0x5B, 0x5C, 0x70, 0x7B, 0x50, 0x7D, 0x5C, 0x24, 0x5C, 0x2B, 0x3C, 0x3D, 0x3E, 0x5C, 0x5E, 0x7E,
     0x5C, 0x7C, 0x5D, 0x2B]"

definition bpe_regex_exprs :: "llama_vocab_pre_type \<Rightarrow> 8 word list list" where
  "bpe_regex_exprs t =
     (if t = PRE_TYPE_LLAMA3 then [llama3_regex_brackets]
      else if t \<in> {PRE_TYPE_DBRX, PRE_TYPE_SMAUG} then [llama3_regex_brackets]
      else if t = PRE_TYPE_DEEPSEEK_LLM then [newline_regex, deepseek_llm_regex2,
          deepseek_llm_regex3, deepseek_llm_regex4, cjk_regex, digits_regex]
      else if t = PRE_TYPE_DEEPSEEK3_LLM then [three_numbers_regex, deepseek3_llm_regex2,
          deepseek3_llm_regex3]
      else if t = PRE_TYPE_DEEPSEEK_CODER then [newline_regex, deepseek_coder_regex2,
          deepseek_coder_regex3, cjk_regex, digit_regex]
      else if t = PRE_TYPE_FALCON then [falcon_regex1, gpt2_regex, three_digits_regex]
      else if t \<in> {PRE_TYPE_STARCODER, PRE_TYPE_REFACT, PRE_TYPE_COMMAND_R,
          PRE_TYPE_SMOLLM, PRE_TYPE_CODESHELL, PRE_TYPE_EXAONE, PRE_TYPE_MINERVA} then
          [digit_regex, gpt2_regex]
      else if t \<in> {PRE_TYPE_GPT2, PRE_TYPE_MPT, PRE_TYPE_OLMO, PRE_TYPE_JAIS} then
          [gpt2_regex]
      else if t \<in> {PRE_TYPE_STABLELM2, PRE_TYPE_QWEN2} then [stablelm2_regex]
      else if t \<in> {PRE_TYPE_PORO, PRE_TYPE_BLOOM, PRE_TYPE_GPT3_FINNISH} then [poro_regex]
      else if t = PRE_TYPE_CHATGLM4 then [llama3_regex_brackets]
      else if t = PRE_TYPE_VIKING then [poro_regex, digit_regex]
      else if t = PRE_TYPE_TEKKEN then [tekken_regex]
      else if t = PRE_TYPE_CHAMELEON then [chameleon_regex1, chameleon_regex2,
          chameleon_regex3, digit_regex, chameleon_regex5, gpt2_regex]
      else [default_regex1, gpt2_regex, digits_regex, three_digits_regex])"

definition llm_tokenizer_bpe :: "'f llama_vocab \<Rightarrow> 8 word list list res" where
  "llm_tokenizer_bpe v =
     rbind (guard (v_type v = LLAMA_VOCAB_TYPE_BPE) Assert_failed) (\<lambda>_. Inr (bpe_regex_exprs (v_pre_type v)))"

section \<open>Merging one word\<close>

record llm_bigram_bpe =
  bb_left :: int
  bb_right :: int
  bb_text :: "8 word list"
  bb_rank :: int
  bb_size :: nat

definition bpe_less :: "llm_bigram_bpe \<Rightarrow> llm_bigram_bpe \<Rightarrow> bool" where
  "bpe_less l r \<longleftrightarrow> bb_rank l > bb_rank r \<or> (bb_rank l = bb_rank r \<and> bb_left l > bb_left r)"

definition bpe_add_new_bigram ::
    "'f llama_vocab \<Rightarrow> int \<Rightarrow> int \<Rightarrow> llm_bigram_bpe merging \<Rightarrow> llm_bigram_bpe merging res" where
  "bpe_add_new_bigram v left right st =
     (if left = -1 \<or> right = -1 then Inr st
      else
       rbind (sym_of st left) (\<lambda>l.
       rbind (sym_of st right) (\<lambda>r.
         let left_token = sym_string (m_text st) l; right_token = sym_string (m_text st) r in
         rbind (find_bpe_rank v left_token right_token) (\<lambda>rank_found.
           if rank_found < 0 then Inr st
           else Inr (st\<lparr>m_queue := m_queue st @ [\<lparr>bb_left = left, bb_right = right,
                       bb_text = left_token @ right_token, bb_rank = rank_found,
                       bb_size = length left_token + length right_token\<rparr>]\<rparr>)))))"

text \<open>A bigram is outdated when its text is no longer that of its two symbols.\<close>

definition bpe_fresh :: "8 word list \<Rightarrow> llm_symbol \<Rightarrow> llm_symbol \<Rightarrow> llm_bigram_bpe \<Rightarrow> bool" where
  "bpe_fresh txt l r b \<longleftrightarrow> sym_string txt l @ sym_string txt r = bb_text b"

abbreviation bpe_merge_one ::
    "'f llama_vocab \<Rightarrow> llm_bigram_bpe \<Rightarrow> llm_bigram_bpe merging \<Rightarrow> llm_bigram_bpe merging res" where
  "bpe_merge_one v \<equiv> merge_one bb_left bb_right bpe_fresh (bpe_add_new_bigram v)"

text \<open>A word that is a token as a whole is not split when merges are ignored for it.\<close>

definition bpe_word_symbols :: "'f llama_vocab \<Rightarrow> 8 word list \<Rightarrow> llm_symbol list res" where
  "bpe_word_symbols v word =
     (if v_ignore_merges v then
        rbind (text_to_token v word) (\<lambda>t.
          Inr (if t \<noteq> LLAMA_TOKEN_NULL
               then [\<lparr>sym_prev = -1, sym_next = -1, sym_text = 0, sym_n = length word\<rparr>]
               else split_symbols word 0 0))
      else Inr (split_symbols word 0 0))"

text \<open>The finished symbols of all words: a symbol with the word its \<open>text\<close> points into.\<close>

record final_symbol = llm_symbol +
  fs_word :: "8 word list"

definition put_final ::
    "8 word list \<Rightarrow> llm_symbol \<Rightarrow> final_symbol list \<times> int \<Rightarrow> (final_symbol list \<times> int) res" where
  "put_final word s acc =
     (let (symbols_final, final_prev_index) = acc;
          new = \<lparr>sym_prev = final_prev_index, sym_next = -1, sym_text = sym_text s, sym_n = sym_n s,
                 fs_word = word\<rparr>
      in if sym_n s = 0 then Inr acc
         else if final_prev_index \<noteq> -1 then
           rbind (vec_get symbols_final final_prev_index) (\<lambda>p.
             Inr (symbols_final[nat final_prev_index := p\<lparr>sym_next := int (length symbols_final)\<rparr>] @ [new],
                  int (length symbols_final)))
         else Inr (symbols_final @ [new], int (length symbols_final)))"

definition bpe_word ::
    "(llm_bigram_bpe list \<Rightarrow> nat) \<Rightarrow> 'f llama_vocab \<Rightarrow> 8 word list
      \<Rightarrow> final_symbol list \<times> int \<Rightarrow> (final_symbol list \<times> int) res" where
  "bpe_word pick v word acc =
     rbind (bpe_word_symbols v word) (\<lambda>syms.
     rbind (seed_queue (bpe_add_new_bigram v) \<lparr>m_text = word, m_symbols = syms, m_queue = []\<rparr>) (\<lambda>st.
     rbind (merge_loop pick (bpe_merge_one v) (queue_bound st) st) (\<lambda>st.
       rfold (put_final word) (m_symbols st) acc)))"

section \<open>The tokens\<close>

text \<open>A symbol that is no token gives the tokens of its bytes; a byte without a token gives none.\<close>

fun bpe_byte_tokens :: "'f llama_vocab \<Rightarrow> 8 word list \<Rightarrow> llama_token list res" where
  "bpe_byte_tokens v [] = Inr []"
| "bpe_byte_tokens v (b # bs) =
     rbind (text_to_token v [b]) (\<lambda>t.
     rbind (bpe_byte_tokens v bs) (\<lambda>ts. Inr (if t \<noteq> LLAMA_TOKEN_NULL then t # ts else ts)))"

definition bpe_symbol_tokens :: "'f llama_vocab \<Rightarrow> 8 word list \<Rightarrow> llama_token list res" where
  "bpe_symbol_tokens v s =
     rbind (text_to_token v s) (\<lambda>token.
       if token = LLAMA_TOKEN_NULL then bpe_byte_tokens v s else Inr [token])"

fun bpe_output ::
    "'f llama_vocab \<Rightarrow> final_symbol list \<Rightarrow> nat \<Rightarrow> int \<Rightarrow> llama_token list \<Rightarrow> llama_token list res" where
  "bpe_output v syms 0 i output = (if i = -1 then Inr output else Inl Out_of_fuel)"
| "bpe_output v syms (Suc fuel) i output =
     (if i = -1 then Inr output
      else rbind (vec_get syms i) (\<lambda>s.
        if sym_n s = 0 then bpe_output v syms fuel (sym_next s) output
        else rbind (bpe_symbol_tokens v (take (sym_n s) (drop (sym_text s) (fs_word s)))) (\<lambda>ts.
          bpe_output v syms fuel (sym_next s) (output @ ts))))"

definition bpe_tokenize ::
    "(llm_bigram_bpe list \<Rightarrow> nat) \<Rightarrow> unicode_data \<Rightarrow> std_regex \<Rightarrow> 'f llama_vocab \<Rightarrow> 8 word list list
      \<Rightarrow> 8 word list \<Rightarrow> llama_token list \<Rightarrow> llama_token list res" where
  "bpe_tokenize pick D R v regex_exprs txt output =
     rbind (unicode_regex_split D R txt regex_exprs) (\<lambda>word_collection.
     rbind (rfold (bpe_word pick v) word_collection ([], -1)) (\<lambda>(symbols_final, _).
       if symbols_final = [] then Inr output
       else bpe_output v symbols_final (length symbols_final) 0 output))"

definition bpe_append_bos :: "'f llama_vocab \<Rightarrow> llama_token list \<Rightarrow> llama_token list res" where
  "bpe_append_bos v output =
     (if v_add_bos v then
        rbind (guard (v_bos_id v \<noteq> LLAMA_TOKEN_NULL) Assert_failed) (\<lambda>_. Inr (output @ [v_bos_id v]))
      else Inr output)"

definition bpe_append_eos :: "'f llama_vocab \<Rightarrow> llama_token list \<Rightarrow> llama_token list res" where
  "bpe_append_eos v output =
     (if v_add_eos v then
        rbind (guard (v_eos_id v \<noteq> LLAMA_TOKEN_NULL) Assert_failed) (\<lambda>_. Inr (output @ [v_eos_id v]))
      else Inr output)"

end
