(* ===== verification/VocabMergeProps.thy ===== *)
theory VocabMergeProps
  imports VocabMerge
begin

text \<open>
  The chain of symbols as an invariant, and the merge loop: it ends, keeps the text, and stops
  only when no two neighbours can be merged any more.  The bigrams of a session are the
  interface of the locale \<open>merger\<close>.
\<close>

section \<open>The chain\<close>

text \<open>
  \<open>links syms p off is fin\<close>: the symbols at the indices \<open>is\<close> are linked in this order, the
  first behind \<open>p\<close>, and cover the text from \<open>off\<close> to \<open>fin\<close> with no gap and no empty symbol.
\<close>

fun links :: "llm_symbol list \<Rightarrow> int \<Rightarrow> nat \<Rightarrow> nat list \<Rightarrow> nat \<Rightarrow> bool" where
  "links syms p off [] fin \<longleftrightarrow> off = fin"
| "links syms p off (i # is) fin \<longleftrightarrow>
     i < length syms \<and> 0 < sym_n (syms ! i) \<and> sym_prev (syms ! i) = p \<and> sym_text (syms ! i) = off
     \<and> sym_next (syms ! i) = (case is of [] \<Rightarrow> -1 | j # _ \<Rightarrow> int j)
     \<and> links syms (int i) (off + sym_n (syms ! i)) is fin"

definition chain_ok :: "8 word list \<Rightarrow> llm_symbol list \<Rightarrow> nat list \<Rightarrow> bool" where
  "chain_ok txt syms is \<longleftrightarrow>
     links syms (-1) 0 is (length txt) \<and> sorted_wrt (<) is \<and> hd is = 0 \<and> is \<noteq> []
     \<and> (\<forall>k < length syms. k \<notin> set is \<longrightarrow> sym_n (syms ! k) = 0)"

definition pieces :: "8 word list \<Rightarrow> llm_symbol list \<Rightarrow> nat list \<Rightarrow> 8 word list list" where
  "pieces txt syms is = map (\<lambda>i. sym_string txt (syms ! i)) is"

lemma links_le: "links syms p off is fin \<Longrightarrow> off \<le> fin"
  by (induction syms p off "is" fin rule: links.induct) auto

lemma links_text:
  "links syms p off is fin \<Longrightarrow> fin \<le> length txt \<Longrightarrow>
    concat (pieces txt syms is) = take (fin - off) (drop off txt)"
proof (induction syms p off "is" fin rule: links.induct)
  case (2 syms p off i "is" fin)
  then have le: "off + sym_n (syms ! i) \<le> fin"
    using links_le[of syms "int i" "off + sym_n (syms ! i)" "is" fin] by simp
  have "take (fin - off) (drop off txt)
      = take (sym_n (syms ! i)) (drop off txt) @ take (fin - off - sym_n (syms ! i)) (drop (sym_n (syms ! i)) (drop off txt))"
    using le by (subst take_add[symmetric]) simp
  then show ?case using 2 le by (simp add: pieces_def sym_string_def add.commute)
qed (simp add: pieces_def)

lemma chain_text: "chain_ok txt syms is \<Longrightarrow> concat (pieces txt syms is) = txt"
  using links_text[of syms "-1" 0 "is" "length txt" "txt"] by (simp add: chain_ok_def)

lemma links_alive: "links syms p off is fin \<Longrightarrow> i \<in> set is \<Longrightarrow> i < length syms \<and> 0 < sym_n (syms ! i)"
  by (induction syms p off "is" fin rule: links.induct) auto

lemma chain_alive:
  "chain_ok txt syms is \<Longrightarrow> i \<in> set is \<longleftrightarrow> i < length syms \<and> 0 < sym_n (syms ! i)"
  using links_alive[of syms "-1" 0 "is" "length txt" i] by (auto simp: chain_ok_def)

text \<open>A symbol of the chain with its right neighbour.\<close>

lemma links_split:
  "links syms p off (xs @ i # ys) fin \<Longrightarrow>
     i < length syms \<and> 0 < sym_n (syms ! i) \<and> sym_prev (syms ! i) = (if xs = [] then p else int (last xs))
     \<and> sym_next (syms ! i) = (case ys of [] \<Rightarrow> -1 | j # _ \<Rightarrow> int j)
     \<and> links syms (int i) (sym_text (syms ! i) + sym_n (syms ! i)) ys fin"
proof (induction xs arbitrary: p off)
  case Nil
  then show ?case by (simp only: append_Nil links.simps) simp
next
  case (Cons x xs)
  then have "links syms (int x) (off + sym_n (syms ! x)) (xs @ i # ys) fin"
    by (simp only: append_Cons links.simps)
  from Cons.IH[OF this] show ?case by (cases xs) simp_all
qed

lemma set_tlD: "x \<in> set (tl xs) \<Longrightarrow> x \<in> set xs"
  by (cases xs) auto

lemma links_next:
  assumes "links syms p off is fin" "i \<in> set is" "sym_next (syms ! i) = int j"
  obtains xs ys where "is = xs @ i # j # ys"
proof -
  from assms(2) obtain xs ys where "is" : "is = xs @ i # ys" by (metis split_list)
  from links_split[OF assms(1)[unfolded this]] assms(3) have "ys \<noteq> [] \<and> hd ys = j"
    by (cases ys) auto
  with "is" that show thesis by (cases ys) auto
qed

text \<open>The same links hold for symbols that agree on the chain, up to the first link back.\<close>

lemma links_cong:
  assumes "links syms p off is fin" "length syms' = length syms"
    "\<And>i. i \<in> set is \<Longrightarrow> sym_n (syms' ! i) = sym_n (syms ! i) \<and> sym_text (syms' ! i) = sym_text (syms ! i)
      \<and> sym_next (syms' ! i) = sym_next (syms ! i)"
    "\<And>i. i \<in> set (tl is) \<Longrightarrow> sym_prev (syms' ! i) = sym_prev (syms ! i)"
    "is \<noteq> [] \<Longrightarrow> sym_prev (syms' ! hd is) = p'"
  shows "links syms' p' off is fin"
  using assms
proof (induction "is" arbitrary: p p' off)
  case (Cons i "is")
  have "links syms' (int i) (off + sym_n (syms ! i)) is fin"
  proof (rule Cons.IH)
    show "links syms (int i) (off + sym_n (syms ! i)) is fin" using Cons.prems(1) by simp
    show "sym_prev (syms' ! hd is) = int i" if "is \<noteq> []"
      using that Cons.prems(1) Cons.prems(4)[of "hd is"] by (cases "is") auto
  qed (use Cons.prems in \<open>auto dest: set_tlD\<close>)
  then show ?case using Cons.prems by simp
qed simp

text \<open>The last symbol of a prefix may get a new successor and a new length.\<close>

lemma links_prefix:
  assumes "links syms p off (xs @ i # j # ys) fin" "distinct (xs @ i # j # ys)"
    and "length syms' = length syms"
    and other: "\<And>k. k \<in> set xs \<union> set ys \<Longrightarrow> sym_n (syms' ! k) = sym_n (syms ! k)
      \<and> sym_text (syms' ! k) = sym_text (syms ! k) \<and> sym_next (syms' ! k) = sym_next (syms ! k)"
    and prev: "\<And>k. k \<in> set xs \<union> set (tl ys) \<Longrightarrow> sym_prev (syms' ! k) = sym_prev (syms ! k)"
    and i: "sym_n (syms' ! i) = sym_n (syms ! i) + sym_n (syms ! j)" "sym_text (syms' ! i) = sym_text (syms ! i)"
      "sym_prev (syms' ! i) = sym_prev (syms ! i)" "sym_next (syms' ! i) = sym_next (syms ! j)"
    and y: "ys \<noteq> [] \<Longrightarrow> sym_prev (syms' ! hd ys) = int i"
  shows "links syms' p off (xs @ i # ys) fin"
  using assms(1,2) other prev
proof (induction xs arbitrary: p off)
  case Nil
  then have l: "links syms (int j) (off + sym_n (syms ! i) + sym_n (syms ! j)) ys fin" by simp
  have "links syms' (int i) (off + sym_n (syms ! i) + sym_n (syms ! j)) ys fin"
    by (rule links_cong[OF l assms(3)]) (use Nil y in \<open>auto dest: set_tlD\<close>)
  then show ?case using Nil i assms(3) by (simp add: add.assoc)
next
  case (Cons x xs)
  have "links syms' (int x) (off + sym_n (syms ! x)) (xs @ i # ys) fin"
    by (rule Cons.IH) (use Cons.prems in auto)
  moreover have "x < length syms" "sym_prev (syms ! x) = p" "sym_text (syms ! x) = off" "0 < sym_n (syms ! x)"
    "sym_next (syms ! x) = (case xs @ i # ys of [] \<Rightarrow> -1 | j # _ \<Rightarrow> int j)"
    using Cons.prems(1) by (simp_all) (cases xs; simp)
  moreover have "sym_n (syms' ! x) = sym_n (syms ! x)" "sym_text (syms' ! x) = sym_text (syms ! x)"
    "sym_next (syms' ! x) = sym_next (syms ! x)" "sym_prev (syms' ! x) = sym_prev (syms ! x)"
    using Cons.prems(3)[of x] Cons.prems(4)[of x] by simp_all
  ultimately show ?case using assms(3) by simp
qed

text \<open>The pieces of a chain are not empty, and there are no more of them than symbols.\<close>

lemma chain_facts:
  assumes "chain_ok txt syms is"
  shows "[] \<notin> set (pieces txt syms is)" "length is \<le> length syms"
    "Suc k < length is \<Longrightarrow> sym_next (syms ! (is ! k)) = int (is ! Suc k)"
proof -
  have l: "links syms (-1) 0 is (length txt)" using assms by (simp add: chain_ok_def)
  have "sym_string txt (syms ! i) \<noteq> []" if i: "i \<in> set is" for i
  proof -
    from i obtain xs ys where s: "is = xs @ i # ys" by (metis split_list)
    note f = links_split[OF l[unfolded s]]
    then have "sym_text (syms ! i) + sym_n (syms ! i) \<le> length txt" using links_le by blast
    then show ?thesis using f by (simp add: sym_string_def)
  qed
  then show "[] \<notin> set (pieces txt syms is)" by (fastforce simp: pieces_def)
  have "distinct is" "set is \<subseteq> {..<length syms}"
    using assms chain_alive[OF assms] by (auto simp: chain_ok_def strict_sorted_iff)
  then show "length is \<le> length syms"
    using card_mono[of "{..<length syms}" "set is"] by (simp add: distinct_card)
  assume k: "Suc k < length is"
  have s: "is = take k is @ is ! k # drop (Suc k) is" using k by (simp add: id_take_nth_drop)
  have d: "drop (Suc k) is = is ! Suc k # drop (Suc (Suc k)) is" using k by (simp add: Cons_nth_drop_Suc)
  have "links syms (-1) 0 (take k is @ is ! k # drop (Suc k) is) (length txt)" using l s by simp
  from links_split[OF this] show "sym_next (syms ! (is ! k)) = int (is ! Suc k)" using d by simp
qed

section \<open>One merge\<close>

text \<open>What \<open>merge_symbols\<close> leaves behind, field by field.\<close>

definition merged :: "nat \<Rightarrow> nat \<Rightarrow> llm_symbol list \<Rightarrow> llm_symbol list \<Rightarrow> bool" where
  "merged i j syms syms' \<longleftrightarrow> length syms' = length syms
     \<and> sym_n (syms' ! i) = sym_n (syms ! i) + sym_n (syms ! j) \<and> sym_n (syms' ! j) = 0
     \<and> sym_next (syms' ! i) = sym_next (syms ! j)
     \<and> (\<forall>k < length syms. k \<noteq> i \<longrightarrow> k \<noteq> j \<longrightarrow> sym_n (syms' ! k) = sym_n (syms ! k))
     \<and> (\<forall>k < length syms. k \<noteq> i \<longrightarrow> sym_next (syms' ! k) = sym_next (syms ! k))
     \<and> (\<forall>k < length syms. sym_text (syms' ! k) = sym_text (syms ! k))
     \<and> (\<forall>k < length syms. sym_prev (syms' ! k) = (if sym_next (syms ! j) = int k then int i else sym_prev (syms ! k)))"

lemma merge_symbols_merged:
  assumes "i < length syms" "j < length syms" "i \<noteq> j" "sym_next (syms ! j) < int (length syms)"
  shows "\<exists>syms'. merge_symbols (int i) (int j) syms = Inr syms' \<and> merged i j syms syms'"
proof -
  let ?s1 = "syms[i := (syms ! i)\<lparr>sym_n := sym_n (syms ! i) + sym_n (syms ! j)\<rparr>]"
  let ?s2 = "?s1[j := (?s1 ! j)\<lparr>sym_n := 0\<rparr>]"
  let ?x = "sym_next (?s2 ! j)"
  let ?s3 = "?s2[i := (?s2 ! i)\<lparr>sym_next := ?x\<rparr>]"
  define t where "t = ?s3"
  have x: "?x = sym_next (syms ! j)" using assms by (simp add: nth_list_update)
  have len: "length t = length syms" by (simp add: t_def)
  have t: "sym_n (t ! k) = (if k = i then sym_n (syms ! i) + sym_n (syms ! j) else if k = j then 0 else sym_n (syms ! k))"
    "sym_next (t ! k) = (if k = i then sym_next (syms ! j) else sym_next (syms ! k))"
    "sym_text (t ! k) = sym_text (syms ! k)" "sym_prev (t ! k) = sym_prev (syms ! k)" if "k < length syms" for k
    using that assms unfolding t_def by (auto simp: nth_list_update)
  have m: "merge_symbols (int i) (int j) syms =
      (if 0 \<le> ?x then rbind (vec_get t ?x) (\<lambda>y. Inr (t[nat ?x := y\<lparr>sym_prev := int i\<rparr>])) else Inr t)"
    using assms unfolding t_def by (simp add: merge_symbols_def vec_get_def Let_def)
  show ?thesis
  proof (cases "0 \<le> ?x")
    case False
    then have "merge_symbols (int i) (int j) syms = Inr t" unfolding m by simp
    moreover have "merged i j syms t"
      unfolding merged_def using t len assms(1-3) x False by auto
    ultimately show ?thesis by blast
  next
    case True
    then obtain k where k: "?x = int k" "k < length syms" using assms(4) x by (metis nonneg_int_cases of_nat_less_iff)
    then have "merge_symbols (int i) (int j) syms = Inr (t[k := (t ! k)\<lparr>sym_prev := int i\<rparr>])"
      unfolding m using True len by (simp add: vec_get_def)
    moreover have "merged i j syms (t[k := (t ! k)\<lparr>sym_prev := int i\<rparr>])"
      unfolding merged_def using k t len assms(1-3) x by (auto simp: nth_list_update)
    ultimately show ?thesis by blast
  qed
qed

text \<open>Merging two neighbours of the chain takes the right one out and keeps everything else.\<close>

lemma merged_chain:
  assumes c: "chain_ok txt syms (xs @ i # j # ys)" and m: "merged i j syms syms'"
  shows "chain_ok txt syms' (xs @ i # ys)"
proof -
  let ?is = "xs @ i # j # ys"
  have l: "links syms (-1) 0 ?is (length txt)" and so: "sorted_wrt (<) ?is"
    and dead: "\<forall>k < length syms. k \<notin> set ?is \<longrightarrow> sym_n (syms ! k) = 0" and hd: "hd ?is = 0"
    using c by (simp_all add: chain_ok_def)
  have d: "distinct ?is" using so strict_sorted_iff by blast
  have alive: "k < length syms" if "k \<in> set ?is" for k using links_alive[OF l that] by simp
  have j: "sym_next (syms ! j) = (case ys of [] \<Rightarrow> -1 | y # _ \<Rightarrow> int y)"
    using links_split[of syms "-1" 0 "xs @ [i]" j ys] l by simp
  have prev: "sym_prev (syms' ! k) = sym_prev (syms ! k)" if "k \<in> set ?is" "\<nexists>zs. ys = k # zs" for k
    using m alive[OF that(1)] that(2) j by (auto simp: merged_def split: list.splits)
  have "links syms' (-1) 0 (xs @ i # ys) (length txt)"
  proof (rule links_prefix[OF l d])
    show "length syms' = length syms" using m by (simp add: merged_def)
    show "sym_n (syms' ! k) = sym_n (syms ! k) \<and> sym_text (syms' ! k) = sym_text (syms ! k)
        \<and> sym_next (syms' ! k) = sym_next (syms ! k)" if "k \<in> set xs \<union> set ys" for k
      using that d m alive[of k] by (auto simp: merged_def)
    show "sym_prev (syms' ! k) = sym_prev (syms ! k)" if "k \<in> set xs \<union> set (tl ys)" for k
      by (rule prev) (use that d in \<open>auto dest: set_tlD\<close>)
    show "sym_n (syms' ! i) = sym_n (syms ! i) + sym_n (syms ! j)" "sym_text (syms' ! i) = sym_text (syms ! i)"
      "sym_next (syms' ! i) = sym_next (syms ! j)"
      using m alive[of i] by (simp_all add: merged_def)
    show "sym_prev (syms' ! i) = sym_prev (syms ! i)" by (rule prev) (use d in auto)
    show "sym_prev (syms' ! hd ys) = int i" if "ys \<noteq> []"
      using that m j alive[of "hd ys"] by (cases ys) (auto simp: merged_def)
  qed
  moreover have "sorted_wrt (<) (xs @ i # ys)" using so by (simp add: sorted_wrt_append)
  moreover have "sym_n (syms' ! k) = 0" if "k < length syms'" "k \<notin> set (xs @ i # ys)" for k
    using that m dead by (cases "k = j") (auto simp: merged_def)
  moreover have "hd (xs @ i # ys) = 0" using hd by (cases xs) auto
  ultimately show ?thesis by (simp add: chain_ok_def)
qed

lemma merged_live:
  assumes "merged i j syms syms'" "i < length syms" "j < length syms" "i \<noteq> j"
    "0 < sym_n (syms ! i)" "0 < sym_n (syms ! j)"
  shows "Suc (live syms') = live syms"
proof -
  let ?P = "\<lambda>s. 0 < sym_n s"
  have len: "length syms' = length syms" using assms by (simp add: merged_def)
  have c: "live s = card {k. k < length s \<and> ?P (s ! k)}" for s
    by (simp add: live_def count_if_def length_filter_conv_card)
  have A: "{k. k < length syms \<and> ?P (syms ! k)} = insert j {k. k < length syms' \<and> ?P (syms' ! k)}"
    (is "?A = insert j ?B")
  proof (intro set_eqI)
    fix k show "k \<in> ?A \<longleftrightarrow> k \<in> insert j ?B"
      using assms len by (cases "k = i"; cases "k = j") (auto simp: merged_def)
  qed
  have "j \<notin> {k. k < length syms' \<and> ?P (syms' ! k)}" using assms by (simp add: merged_def)
  then show ?thesis unfolding c A by simp
qed

section \<open>The initial chain\<close>

lemma split_symbols_links:
  assumes "length pre = m" "off \<le> length txt"
  shows "links (pre @ split_symbols txt off (int m)) (int m - 1) off
    [m..<m + length (split_symbols txt off (int m))] (length txt)"
  using assms
proof (induction "length txt - off" arbitrary: pre m off rule: less_induct)
  case less
  show ?case
  proof (cases "off < length txt")
    case False
    then show ?thesis using less.prems by (simp add: split_symbols.simps)
  next
    case True
    define n where "n = min (unicode_len_utf8 (txt ! off)) (length txt - off)"
    have n: "0 < n" "off + n \<le> length txt" using True len_utf8_pos[of "txt ! off"] by (auto simp: n_def)
    define x where "x = \<lparr>sym_prev = int m - 1, sym_next = (if off + n = length txt then -1 else int m + 1),
         sym_text = off, sym_n = n\<rparr>"
    define r where "r = split_symbols txt (off + n) (int m + 1)"
    have eq: "split_symbols txt off (int m) = x # r"
      using True by (subst split_symbols.simps) (simp add: Let_def n_def x_def r_def)
    have IH: "links (pre @ x # r) (int m) (off + n) [Suc m..<Suc m + length r] (length txt)"
      using less.hyps[of "off + n" "pre @ [x]" "Suc m"] less.prems n by (simp add: add.commute r_def)
    have "r = [] \<longleftrightarrow> off + n = length txt"
      using n unfolding r_def by (subst split_symbols.simps) (simp add: Let_def)
    then have "sym_next x = (case [Suc m..<Suc m + length r] of [] \<Rightarrow> -1 | j # _ \<Rightarrow> int j)"
      by (cases r) (auto simp: upt_conv_Cons x_def simp del: upt_Suc)
    moreover have "[m..<m + length (x # r)] = m # [Suc m..<Suc m + length r]"
      by (simp add: upt_conv_Cons del: upt_Suc)
    moreover have "(pre @ x # r) ! m = x" "m < length (pre @ x # r)" using less.prems(1) by auto
    ultimately show ?thesis
      using IH n unfolding eq by (simp add: x_def del: upt_Suc)
  qed
qed

lemma split_symbols_chain:
  assumes "txt \<noteq> []"
  shows "chain_ok txt (split_symbols txt 0 0) [0..<length (split_symbols txt 0 0)]"
proof -
  have "split_symbols txt 0 0 \<noteq> []" using assms by (subst split_symbols.simps) (simp add: Let_def)
  then show ?thesis
    using split_symbols_links[of "[]" 0 0 "txt"] by (auto simp: chain_ok_def upt_conv_Cons)
qed

lemma links_neighbours:
  "links syms p off (xs @ i # j # ys) fin \<Longrightarrow>
     sym_text (syms ! j) = sym_text (syms ! i) + sym_n (syms ! i) \<and> sym_text (syms ! j) + sym_n (syms ! j) \<le> fin"
proof -
  assume "links syms p off (xs @ i # j # ys) fin"
  then have "links syms (int i) (sym_text (syms ! i) + sym_n (syms ! i)) (j # ys) fin"
    using links_split[of syms p off xs i "j # ys" fin] by blast
  then show ?thesis using links_le by (auto simp: links_le)
qed

section \<open>The interface of a session\<close>

text \<open>Joining the piece at \<open>k\<close> with its right neighbour.\<close>

definition join_at :: "nat \<Rightarrow> 'a list list \<Rightarrow> 'a list list" where
  "join_at k ps = take k ps @ (ps ! k @ ps ! Suc k) # drop (Suc (Suc k)) ps"

text \<open>
  The characters a text is split into, and what the pieces are: concatenations of characters,
  each a single one or with the property \<open>P\<close> of a merged text.
\<close>

definition utf8_chars :: "8 word list \<Rightarrow> 8 word list list" where
  "utf8_chars t = map (sym_string t) (split_symbols t 0 0)"

definition piece_ok :: "8 word list set \<Rightarrow> (8 word list \<Rightarrow> bool) \<Rightarrow> 8 word list \<Rightarrow> bool" where
  "piece_ok C P s \<longleftrightarrow> s \<in> concat ` lists C \<and> (s \<in> C \<or> P s)"

lemma piece_char: "s \<in> C \<Longrightarrow> piece_ok C P s"
  unfolding piece_ok_def using image_eqI[of s concat "[s]" "lists C"] by simp

lemma piece_join: "piece_ok C P s \<Longrightarrow> piece_ok C P t \<Longrightarrow> P (s @ t) \<Longrightarrow> piece_ok C P (s @ t)"
  unfolding piece_ok_def using image_eqI[of "s @ t" concat _ "lists C"]
  by (elim conjE imageE) (metis append_in_lists_conv concat_append)

text \<open>
  What the loop needs of a session: \<open>add\<close> does nothing for a missing neighbour, and for two
  adjacent symbols it pushes a fresh bigram if their texts join and nothing otherwise.
  \<open>made\<close> is what a bigram knows of the symbols it was pushed for, \<open>P\<close> what holds of a merged text, \<open>J\<close> an
  invariant of the session's own fields.
\<close>

locale merger =
  fixes left right :: "'b \<Rightarrow> int"
    and fresh :: "8 word list \<Rightarrow> llm_symbol \<Rightarrow> llm_symbol \<Rightarrow> 'b \<Rightarrow> bool"
    and add :: "int \<Rightarrow> int \<Rightarrow> ('b, 'z) merging_scheme \<Rightarrow> ('b, 'z) merging_scheme res"
    and ok_text :: "8 word list \<Rightarrow> bool"
    and joins :: "8 word list \<Rightarrow> 8 word list \<Rightarrow> bool"
    and made :: "8 word list \<Rightarrow> llm_symbol \<Rightarrow> llm_symbol \<Rightarrow> 'b \<Rightarrow> bool"
    and P :: "8 word list \<Rightarrow> bool"
    and J :: "('b, 'z) merging_scheme \<Rightarrow> bool"
  assumes add_none: "l = -1 \<or> r = -1 \<Longrightarrow> add l r st = Inr st"
    and add_pair: "ok_text (m_text st) \<Longrightarrow> J st \<Longrightarrow> i < length (m_symbols st) \<Longrightarrow> j < length (m_symbols st) \<Longrightarrow>
      L = m_symbols st ! i \<Longrightarrow> R = m_symbols st ! j \<Longrightarrow> sym_text R = sym_text L + sym_n L \<Longrightarrow>
      sym_text R + sym_n R \<le> length (m_text st) \<Longrightarrow>
      \<exists>st'. add (int i) (int j) st = Inr st' \<and> J st' \<and> m_text st' = m_text st \<and> m_symbols st' = m_symbols st
        \<and> (m_queue st' = m_queue st \<and> \<not> joins (sym_string (m_text st) L) (sym_string (m_text st) R)
           \<or> (\<exists>b. m_queue st' = m_queue st @ [b] \<and> left b = int i \<and> right b = int j
                \<and> fresh (m_text st) L R b \<and> made (m_text st) L R b))"
    and fresh_cong: "sym_n L' = sym_n L \<Longrightarrow> sym_text L' = sym_text L \<Longrightarrow> sym_n R' = sym_n R \<Longrightarrow>
      sym_text R' = sym_text R \<Longrightarrow> fresh s L' R' b = fresh s L R b"
    and made_cong: "sym_n L' = sym_n L \<Longrightarrow> sym_text L' = sym_text L \<Longrightarrow> sym_n R' = sym_n R \<Longrightarrow>
      sym_text R' = sym_text R \<Longrightarrow> made s L' R' b = made s L R b"
    and made_fresh: "made s L (R\<lparr>sym_n := n\<rparr>) b \<Longrightarrow> n \<le> sym_n R \<Longrightarrow> fresh s L R b \<Longrightarrow>
      sym_text R = sym_text L + sym_n L \<Longrightarrow> sym_text R + sym_n R \<le> length s \<Longrightarrow> n = sym_n R"
    and made_P: "made s L R b \<Longrightarrow> sym_text R = sym_text L + sym_n L \<Longrightarrow> P (sym_string s L @ sym_string s R)"
    and J_symbols: "J st \<Longrightarrow> J (st\<lparr>m_symbols := S\<rparr>)"
    and J_queue: "J st \<Longrightarrow> J (st\<lparr>m_queue := q\<rparr>)"
begin

definition queued :: "('b, 'z) merging_scheme \<Rightarrow> 'b \<Rightarrow> bool" where
  "queued st b \<longleftrightarrow> (\<exists>i j. left b = int i \<and> right b = int j \<and> i < length (m_symbols st) \<and> j < length (m_symbols st)
     \<and> i \<noteq> j
     \<and> (0 < sym_n (m_symbols st ! i) \<longrightarrow> 0 < sym_n (m_symbols st ! j) \<longrightarrow> sym_next (m_symbols st ! i) = int j
          \<and> (\<exists>n \<le> sym_n (m_symbols st ! j). made (m_text st) (m_symbols st ! i) ((m_symbols st ! j)\<lparr>sym_n := n\<rparr>) b)))"

definition inv :: "8 word list set \<Rightarrow> ('b, 'z) merging_scheme \<Rightarrow> nat list \<Rightarrow> bool" where
  "inv C st is \<longleftrightarrow> ok_text (m_text st) \<and> J st \<and> chain_ok (m_text st) (m_symbols st) is
     \<and> (\<forall>b \<in> set (m_queue st). queued st b)
     \<and> (\<forall>i \<in> set is. piece_ok C P (sym_string (m_text st) (m_symbols st ! i)))"

text \<open>Every pair of neighbours outside \<open>X\<close> that joins has a fresh bigram in the queue.\<close>

definition sat :: "(nat \<times> nat) set \<Rightarrow> ('b, 'z) merging_scheme \<Rightarrow> nat list \<Rightarrow> bool" where
  "sat X st is \<longleftrightarrow> (\<forall>i \<in> set is. \<forall>j. sym_next (m_symbols st ! i) = int j \<longrightarrow> (i, j) \<notin> X \<longrightarrow>
     joins (sym_string (m_text st) (m_symbols st ! i)) (sym_string (m_text st) (m_symbols st ! j)) \<longrightarrow>
     (\<exists>b \<in> set (m_queue st). left b = int i \<and> right b = int j
        \<and> fresh (m_text st) (m_symbols st ! i) (m_symbols st ! j) b))"

lemma neighbours:
  assumes "chain_ok txt syms is" "i \<in> set is" "sym_next (syms ! i) = int j"
  obtains xs ys where "is = xs @ i # j # ys" "j \<in> set is" "i < length syms" "j < length syms" "i \<noteq> j"
    "sym_text (syms ! j) = sym_text (syms ! i) + sym_n (syms ! i)"
    "sym_text (syms ! j) + sym_n (syms ! j) \<le> length txt"
proof -
  have l: "links syms (-1) 0 is (length txt)" and so: "sorted_wrt (<) is" using assms(1) by (simp_all add: chain_ok_def)
  from links_next[OF l assms(2,3)] obtain xs ys where is': "is = xs @ i # j # ys" .
  have "i \<noteq> j" using so is' by (auto simp: sorted_wrt_append)
  then show thesis
    using that[OF is'] links_neighbours[OF l[unfolded is']] is'
      chain_alive[OF assms(1), of i] chain_alive[OF assms(1), of j] by simp
qed

lemma add_keeps:
  assumes inv: "inv C st is" and sat: "sat X st is" and i: "i \<in> set is" "sym_next (m_symbols st ! i) = int j"
  shows "\<exists>st'. add (int i) (int j) st = Inr st' \<and> inv C st' is \<and> sat (X - {(i, j)}) st' is
    \<and> m_text st' = m_text st \<and> m_symbols st' = m_symbols st \<and> length (m_queue st') \<le> Suc (length (m_queue st))"
proof -
  have c: "chain_ok (m_text st) (m_symbols st) is" using inv by (simp add: inv_def)
  from neighbours[OF c i] have b: "i < length (m_symbols st)" "j < length (m_symbols st)" "i \<noteq> j"
    "sym_text (m_symbols st ! j) = sym_text (m_symbols st ! i) + sym_n (m_symbols st ! i)"
    "sym_text (m_symbols st ! j) + sym_n (m_symbols st ! j) \<le> length (m_text st)" by blast+
  from add_pair[OF _ _ b(1,2) refl refl b(4,5)] inv obtain st' where
    st': "add (int i) (int j) st = Inr st'" "J st'" "m_text st' = m_text st" "m_symbols st' = m_symbols st"
    and q: "m_queue st' = m_queue st \<and> \<not> joins (sym_string (m_text st) (m_symbols st ! i)) (sym_string (m_text st) (m_symbols st ! j))
      \<or> (\<exists>b. m_queue st' = m_queue st @ [b] \<and> left b = int i \<and> right b = int j
           \<and> fresh (m_text st) (m_symbols st ! i) (m_symbols st ! j) b
           \<and> made (m_text st) (m_symbols st ! i) (m_symbols st ! j) b)"
    unfolding inv_def by blast
  have "queued st' b'" if "left b' = int i" "right b' = int j"
      "made (m_text st) (m_symbols st ! i) (m_symbols st ! j) b'" for b'
    unfolding queued_def using that b i(2) st'(3,4)
    by (intro exI[of _ i] exI[of _ j]) (auto intro!: exI[of _ "sym_n (m_symbols st ! j)"])
  moreover have "queued st' b'" if "queued st b'" for b'
    using that st'(3,4) unfolding queued_def by auto
  ultimately have "inv C st' is"
    using inv st' q unfolding inv_def by auto
  moreover have "sat (X - {(i, j)}) st' is"
    using sat st' q unfolding sat_def by (elim disjE exE conjE) fastforce+
  ultimately show ?thesis using st' q by auto
qed

text \<open>The same for a link that may be missing.\<close>

lemma add_link:
  assumes inv: "inv C st is" and sat: "sat X st is"
    and u: "u = -1 \<or> v = -1 \<or> (\<exists>i \<in> set is. \<exists>j. u = int i \<and> v = int j \<and> sym_next (m_symbols st ! i) = int j)"
  shows "\<exists>st'. add u v st = Inr st' \<and> inv C st' is \<and> sat (X - {(i, j). int i = u \<and> int j = v}) st' is
    \<and> m_text st' = m_text st \<and> m_symbols st' = m_symbols st \<and> length (m_queue st') \<le> Suc (length (m_queue st))"
proof (cases "u = -1 \<or> v = -1")
  case True
  then have "X - {(i, j). int i = u \<and> int j = v} = X" by auto
  then show ?thesis using add_none[OF True] assms by auto
next
  case False
  with u obtain i j where "i \<in> set is" "u = int i" "v = int j" "sym_next (m_symbols st ! i) = int j" by blast
  moreover from this have "{(i, j)} = {(i, j). int i = u \<and> int j = v}" by auto
  ultimately show ?thesis using add_keeps[OF inv sat, of i j] by simp
qed

lemma string_cong:
  "sym_n s' = sym_n s \<Longrightarrow> sym_text s' = sym_text s \<Longrightarrow> sym_string t s' = sym_string t s"
  by (simp add: sym_string_def)

text \<open>
  One merge in the chain: the situation behind \<open>merge_symbols\<close>, with the right symbol \<open>j\<close> merged
  into its left neighbour \<open>i\<close>.
\<close>

definition merging_at where
  "merging_at C st is xs i j ys S' \<longleftrightarrow> inv C st is \<and> is = xs @ i # j # ys \<and> merged i j (m_symbols st) S'"

lemma merging_at_facts:
  assumes "merging_at C st is xs i j ys S'"
  shows "chain_ok (m_text st) (m_symbols st) is" "distinct is" "chain_ok (m_text st) S' (xs @ i # ys)"
    "length S' = length (m_symbols st)" "i \<noteq> j" "sym_next (m_symbols st ! i) = int j"
    "k \<in> set is \<Longrightarrow> k < length (m_symbols st)"
    "k < length (m_symbols st) \<Longrightarrow> k \<noteq> i \<Longrightarrow> k \<noteq> j \<Longrightarrow> sym_n (S' ! k) = sym_n (m_symbols st ! k)"
    "k < length (m_symbols st) \<Longrightarrow> sym_text (S' ! k) = sym_text (m_symbols st ! k)"
    "k < length (m_symbols st) \<Longrightarrow> k \<noteq> i \<Longrightarrow> sym_next (S' ! k) = sym_next (m_symbols st ! k)"
proof -
  from assms have c: "chain_ok (m_text st) (m_symbols st) is" and is': "is = xs @ i # j # ys"
    and m: "merged i j (m_symbols st) S'" unfolding merging_at_def inv_def by blast+
  show "chain_ok (m_text st) (m_symbols st) is" by (rule c)
  show d: "distinct is" using c by (auto simp: chain_ok_def strict_sorted_iff)
  show "chain_ok (m_text st) S' (xs @ i # ys)" using merged_chain[OF c[unfolded is'] m] .
  show "i \<noteq> j" using d is' by auto
  have "links (m_symbols st) (-1) 0 (xs @ i # j # ys) (length (m_text st))"
    using c is' by (simp add: chain_ok_def)
  from links_split[OF this] show "sym_next (m_symbols st ! i) = int j" by simp
  show "k \<in> set is \<Longrightarrow> k < length (m_symbols st)" using chain_alive[OF c] by blast
qed (use assms in \<open>simp_all add: merging_at_def merged_def\<close>)

lemma merged_inv:
  assumes M: "merging_at C st is xs i j ys S'" and P: "piece_ok C P (sym_string (m_text st) (S' ! i))"
  shows "inv C (st\<lparr>m_symbols := S'\<rparr>) (xs @ i # ys)"
proof -
  let ?S = "m_symbols st" and ?t = "m_text st" and ?st = "st\<lparr>m_symbols := S'\<rparr>"
  note f = merging_at_facts[OF M]
  have inv: "inv C st is" and is': "is = xs @ i # j # ys" and m: "merged i j ?S S'"
    using M unfolding merging_at_def by blast+
  have ij: "i < length ?S" "j < length ?S" using f(7)[of i] f(7)[of j] is' by simp_all
  show ?thesis
    unfolding inv_def
  proof (intro conjI ballI)
    show "ok_text (m_text ?st)" "J ?st" using inv J_symbols by (simp_all add: inv_def)
    show "chain_ok (m_text ?st) (m_symbols ?st) (xs @ i # ys)" using f(3) by simp
    show "queued ?st x" if "x \<in> set (m_queue ?st)" for x
    proof -
      from that inv have "queued st x" by (simp add: inv_def)
      then obtain l r where x: "left x = int l" "right x = int r" "l < length ?S" "r < length ?S" "l \<noteq> r"
        "0 < sym_n (?S ! l) \<longrightarrow> 0 < sym_n (?S ! r) \<longrightarrow> sym_next (?S ! l) = int r
           \<and> (\<exists>n \<le> sym_n (?S ! r). made ?t (?S ! l) ((?S ! r)\<lparr>sym_n := n\<rparr>) x)"
        unfolding queued_def by auto
      have "sym_next (S' ! l) = int r \<and> (\<exists>n \<le> sym_n (S' ! r). made ?t (S' ! l) ((S' ! r)\<lparr>sym_n := n\<rparr>) x)"
        if n: "0 < sym_n (S' ! l)" "0 < sym_n (S' ! r)"
      proof -
        have alive: "k < length ?S \<Longrightarrow> 0 < sym_n (S' ! k) \<Longrightarrow> k \<noteq> j \<and> 0 < sym_n (?S ! k)" for k
          using m f(8)[of k] chain_alive[OF f(1), of i] is' by (cases "k = i") (auto simp: merged_def)
        have al: "l \<noteq> j" "0 < sym_n (?S ! l)" "r \<noteq> j" "0 < sym_n (?S ! r)"
          using alive[OF x(3) n(1)] alive[OF x(4) n(2)] by auto
        with x(6) obtain a where nr: "sym_next (?S ! l) = int r" "r \<noteq> j" "l \<noteq> j" "a \<le> sym_n (?S ! r)"
          "made ?t (?S ! l) ((?S ! r)\<lparr>sym_n := a\<rparr>) x" by auto
        moreover from this have l: "l \<noteq> i" using f(6) by auto
        moreover have "sym_n (?S ! r) \<le> sym_n (S' ! r)"
          using f(8)[OF x(4) _ nr(2)] m by (cases "r = i") (auto simp: merged_def)
        moreover have "made ?t (S' ! l) ((S' ! r)\<lparr>sym_n := a\<rparr>) x = made ?t (?S ! l) ((?S ! r)\<lparr>sym_n := a\<rparr>) x"
          by (rule made_cong) (use f(8)[OF x(3) l nr(3)] f(9)[OF x(3)] f(9)[OF x(4)] in simp_all)
        ultimately show ?thesis using f(10)[OF x(3)] by (auto intro!: exI[of _ a])
      qed
      then show ?thesis using x f(4) unfolding queued_def by auto
    qed
    show "piece_ok C P (sym_string (m_text ?st) (m_symbols ?st ! k))"
      if "k \<in> set (xs @ i # ys)" for k
    proof (cases "k = i")
      case False
      then have k: "k \<in> set is" "k \<noteq> j" using that is' f(2) by auto
      then show ?thesis using inv string_cong[OF f(8) f(9)] f(7)[OF k(1)] False by (simp add: inv_def)
    qed (use P in simp)
  qed
qed

lemma merged_sat:
  assumes M: "merging_at C st is xs i j ys S'" and sat: "sat {} (st\<lparr>m_queue := b # m_queue st\<rparr>) is"
    and b: "left b = int i"
  shows "sat {(k, l). int k = sym_prev (S' ! i) \<and> l = i \<or> k = i \<and> int l = sym_next (S' ! i)}
    (st\<lparr>m_symbols := S'\<rparr>) (xs @ i # ys)"
  unfolding sat_def
proof (intro ballI allI impI)
  let ?S = "m_symbols st" and ?t = "m_text st" and ?st = "st\<lparr>m_symbols := S'\<rparr>"
  let ?p = "sym_prev (S' ! i)" and ?n = "sym_next (S' ! i)"
  note f = merging_at_facts[OF M]
  have is': "is = xs @ i # j # ys" using M by (simp add: merging_at_def)
  fix k l
  assume k: "k \<in> set (xs @ i # ys)" and n: "sym_next (m_symbols ?st ! k) = int l"
    and X: "(k, l) \<notin> {(k, l). int k = ?p \<and> l = i \<or> k = i \<and> int l = ?n}"
    and jn: "joins (sym_string (m_text ?st) (m_symbols ?st ! k)) (sym_string (m_text ?st) (m_symbols ?st ! l))"
  have ki: "k \<noteq> i" using X n by auto
  have kj: "k \<noteq> j" "k \<in> set is" using k is' f(2) by auto
  have n': "sym_next (S' ! k) = int l" using n by simp
  from neighbours[OF f(3) k n'] obtain us vs where spl: "xs @ i # ys = us @ k # l # vs" by blast
  have "l \<noteq> i"
  proof
    assume "l = i"
    with spl have "xs @ i # ys = (us @ [k]) @ i # vs" by simp
    moreover have "links S' (-1) 0 (xs @ i # ys) (length ?t)" using f(3) by (simp add: chain_ok_def)
    ultimately have "?p = int k" using links_split[of S' "-1" 0 "us @ [k]" i vs] by simp
    with X \<open>l = i\<close> show False by simp
  qed
  moreover have lis: "l \<in> set (xs @ i # ys)" using spl by simp
  moreover have "l \<noteq> j" using lis is' f(2) by auto
  ultimately have l: "l \<noteq> i" "l \<noteq> j" "l \<in> set is" using is' by auto
  have sk: "sym_n (S' ! k) = sym_n (?S ! k)" "sym_text (S' ! k) = sym_text (?S ! k)" "sym_next (S' ! k) = sym_next (?S ! k)"
    and sl: "sym_n (S' ! l) = sym_n (?S ! l)" "sym_text (S' ! l) = sym_text (?S ! l)"
    using f(7)[OF kj(2)] f(7)[OF l(3)] f(8-10) ki kj(1) l(1,2) by simp_all
  have "\<exists>x \<in> set (b # m_queue st). left x = int k \<and> right x = int l \<and> fresh ?t (?S ! k) (?S ! l) x"
    using sat[unfolded sat_def] kj(2) n jn sk sl string_cong[OF sk(1,2)] string_cong[OF sl(1,2)] by simp
  then obtain x where x: "x \<in> set (m_queue st)" "left x = int k" "right x = int l" "fresh ?t (?S ! k) (?S ! l) x"
    using b ki by auto
  then show "\<exists>x \<in> set (m_queue ?st). left x = int k \<and> right x = int l
      \<and> fresh (m_text ?st) (m_symbols ?st ! k) (m_symbols ?st ! l) x"
    using fresh_cong[OF sk(1,2) sl(1,2)] by auto
qed

text \<open>The neighbours of a symbol that was merged get their bigrams; all others keep theirs.\<close>

lemma merged_adds:
  assumes c: "chain_ok t (m_symbols st) (xs @ i # ys)" and inv: "inv C st (xs @ i # ys)"
    and pn: "p = sym_prev (m_symbols st ! i)" "n = sym_next (m_symbols st ! i)"
    and sat: "sat {(k, l). int k = p \<and> l = i \<or> k = i \<and> int l = n} st (xs @ i # ys)"
  shows "\<exists>st'. rbind (add p (int i) st) (\<lambda>st. add (int i) n st) = Inr st' \<and> inv C st' (xs @ i # ys)
    \<and> sat {} st' (xs @ i # ys) \<and> m_text st' = m_text st \<and> m_symbols st' = m_symbols st
    \<and> length (m_queue st') \<le> Suc (Suc (length (m_queue st)))"
proof -
  have l: "links (m_symbols st) (-1) 0 (xs @ i # ys) (length t)" using c by (simp add: chain_ok_def)
  note ends = links_split[OF l]
  have p: "p = -1 \<or> int i = -1 \<or> (\<exists>k \<in> set (xs @ i # ys). \<exists>l. p = int k \<and> int i = int l
      \<and> sym_next (m_symbols st ! k) = int l)"
  proof (cases xs rule: rev_cases)
    case (snoc us k)
    then have "sym_next (m_symbols st ! k) = int i"
      using links_split[of "m_symbols st" "-1" 0 us k "i # ys"] l by simp
    then show ?thesis using ends snoc pn by auto
  qed (use ends pn in simp)
  from add_link[OF inv sat p] obtain st1 where st1: "add p (int i) st = Inr st1" "inv C st1 (xs @ i # ys)"
    "sat ({(k, l). int k = p \<and> l = i \<or> k = i \<and> int l = n} - {(k, l). int k = p \<and> int l = int i}) st1 (xs @ i # ys)"
    "m_text st1 = m_text st" "m_symbols st1 = m_symbols st" "length (m_queue st1) \<le> Suc (length (m_queue st))"
    by auto
  have n: "int i = -1 \<or> n = -1 \<or> (\<exists>k \<in> set (xs @ i # ys). \<exists>l. int i = int k \<and> n = int l
      \<and> sym_next (m_symbols st1 ! k) = int l)"
    using ends st1(5) pn by (auto split: list.splits)
  have none: "{(k, l). int k = p \<and> l = i \<or> k = i \<and> int l = n} - {(k, l). int k = p \<and> int l = int i}
      - {(k, l). int k = int i \<and> int l = n} = {}" by auto
  from add_link[OF st1(2,3) n, unfolded none] st1 show ?thesis by force
qed

lemma merging_pieces:
  assumes M: "merging_at C st is xs i j ys S'"
    and joined: "sym_string (m_text st) (S' ! i) = sym_string (m_text st) (m_symbols st ! i) @ sym_string (m_text st) (m_symbols st ! j)"
  shows "pieces (m_text st) S' (xs @ i # ys) = join_at (length xs) (pieces (m_text st) (m_symbols st) is)"
proof -
  let ?f = "\<lambda>S. map (\<lambda>i. sym_string (m_text st) (S ! i))"
  note f = merging_at_facts[OF M]
  have is': "is = xs @ i # j # ys" using M by (simp add: merging_at_def)
  have same: "sym_string (m_text st) (S' ! k) = sym_string (m_text st) (m_symbols st ! k)" if "k \<in> set xs \<union> set ys" for k
    by (rule string_cong) (use that f(2) f(7)[of k] f(8)[of k] f(9)[of k] is' in auto)
  have "?f S' xs = ?f (m_symbols st) xs" "?f S' ys = ?f (m_symbols st) ys" using same by auto
  then show ?thesis using joined by (simp add: pieces_def is' join_at_def nth_append)
qed

text \<open>A fresh bigram between living symbols was made for them as they are now.\<close>

lemma queued_made:
  assumes c: "chain_ok (m_text st) (m_symbols st) is" and q: "queued st b" and ij: "left b = int i" "right b = int j"
    and alive: "0 < sym_n (m_symbols st ! i)" "0 < sym_n (m_symbols st ! j)"
      "fresh (m_text st) (m_symbols st ! i) (m_symbols st ! j) b"
  shows "made (m_text st) (m_symbols st ! i) (m_symbols st ! j) b"
proof -
  let ?S = "m_symbols st"
  from q ij alive obtain n where n: "i < length ?S" "sym_next (?S ! i) = int j" "n \<le> sym_n (?S ! j)"
    "made (m_text st) (?S ! i) ((?S ! j)\<lparr>sym_n := n\<rparr>) b" unfolding queued_def by auto
  have "i \<in> set is" using chain_alive[OF c] n(1) alive(1) by blast
  from neighbours[OF c this n(2)] made_fresh[OF n(4,3) alive(3)] have "n = sym_n (?S ! j)" by blast
  then show ?thesis using n(4) by simp
qed

lemma merge_one_merges:
  assumes inv: "inv C st is" and sat: "sat {} (st\<lparr>m_queue := b # m_queue st\<rparr>) is"
    and q: "queued st b" and ij: "left b = int i" "right b = int j"
    and alive: "0 < sym_n (m_symbols st ! i)" "0 < sym_n (m_symbols st ! j)"
      "fresh (m_text st) (m_symbols st ! i) (m_symbols st ! j) b"
  shows "\<exists>st' is'. merge_one left right fresh add b st = Inr st' \<and> inv C st' is' \<and> sat {} st' is'
    \<and> m_text st' = m_text st \<and> queue_bound st' \<le> queue_bound st
    \<and> (\<exists>xs ys. is = xs @ i # j # ys
         \<and> pieces (m_text st) (m_symbols st') is' = join_at (length xs) (pieces (m_text st) (m_symbols st) is))"
proof -
  let ?S = "m_symbols st" and ?t = "m_text st"
  have c: "chain_ok ?t ?S is" using inv by (simp add: inv_def)
  have b: "i < length ?S" "j < length ?S" "i \<noteq> j" "sym_next (?S ! i) = int j"
    using q ij alive unfolding queued_def by auto
  have "i \<in> set is" using chain_alive[OF c] b alive by blast
  from neighbours[OF c this b(4)] obtain xs ys where is': "is = xs @ i # j # ys"
    and adj: "sym_text (?S ! j) = sym_text (?S ! i) + sym_n (?S ! i)" by blast
  have made: "made ?t (?S ! i) (?S ! j) b" using queued_made[OF c q ij alive] .
  have "links ?S (-1) 0 ((xs @ [i]) @ j # ys) (length ?t)" using c is' by (simp add: chain_ok_def)
  from links_split[OF this] chain_alive[OF c] is' have "sym_next (?S ! j) < int (length ?S)"
    by (auto split: list.splits)
  from merge_symbols_merged[OF b(1-3) this] obtain S' where
    S': "merge_symbols (int i) (int j) ?S = Inr S'" and m: "merged i j ?S S'" by blast
  have M: "merging_at C st is xs i j ys S'" using inv is' m by (simp add: merging_at_def)
  have joined: "sym_string ?t (S' ! i) = sym_string ?t (?S ! i) @ sym_string ?t (?S ! j)"
    using m b(1) adj by (simp add: sym_string_def merged_def take_add add.commute)
  moreover have "piece_ok C P (sym_string ?t (?S ! i))" "piece_ok C P (sym_string ?t (?S ! j))"
    using inv is' by (simp_all add: inv_def)
  ultimately have P: "piece_ok C P (sym_string ?t (S' ! i))"
    using made_P[OF made adj] piece_join by simp
  let ?st = "st\<lparr>m_symbols := S'\<rparr>"
  have "chain_ok ?t (m_symbols ?st) (xs @ i # ys)" using merging_at_facts(3)[OF M] by simp
  from merged_adds[OF this merged_inv[OF M P] refl refl] merged_sat[OF M sat ij(1)]
  obtain st2 where st2: "rbind (add (sym_prev (S' ! i)) (int i) (st\<lparr>m_symbols := S'\<rparr>))
      (\<lambda>st. add (int i) (sym_next (S' ! i)) st) = Inr st2" "inv C st2 (xs @ i # ys)" "sat {} st2 (xs @ i # ys)"
    "m_text st2 = ?t" "m_symbols st2 = S'" "length (m_queue st2) \<le> Suc (Suc (length (m_queue st)))"
    by auto
  have "merge_one left right fresh add b st = Inr st2"
    using ij b(1,2) alive S' st2(1) merging_at_facts(4)[OF M]
    by (simp add: merge_one_def sym_of_def vec_get_def)
  moreover have "queue_bound st2 \<le> queue_bound st"
    using merged_live[OF m b(1-3) alive(1,2)] st2 by (simp add: queue_bound_def)
  moreover have "pieces ?t S' (xs @ i # ys) = join_at (length xs) (pieces ?t ?S is)"
    using merging_pieces[OF M joined] .
  ultimately show ?thesis using st2 is' by blast
qed

text \<open>An outdated bigram is dropped, and no pair of neighbours was waiting for it.\<close>

lemma merge_one_skips:
  assumes sat: "sat {} (st\<lparr>m_queue := b # m_queue st\<rparr>) is" and c: "chain_ok (m_text st) (m_symbols st) is"
    and ij: "left b = int i" "right b = int j" "i < length (m_symbols st)" "j < length (m_symbols st)"
    and out: "sym_n (m_symbols st ! i) = 0 \<or> sym_n (m_symbols st ! j) = 0
      \<or> \<not> fresh (m_text st) (m_symbols st ! i) (m_symbols st ! j) b"
  shows "merge_one left right fresh add b st = Inr st \<and> sat {} st is"
proof
  show "merge_one left right fresh add b st = Inr st"
    using ij out by (auto simp: merge_one_def sym_of_def vec_get_def)
  show "sat {} st is"
    unfolding sat_def
  proof (intro ballI allI impI)
    fix k l
    assume k: "k \<in> set is" "sym_next (m_symbols st ! k) = int l"
      and "joins (sym_string (m_text st) (m_symbols st ! k)) (sym_string (m_text st) (m_symbols st ! l))"
    with sat obtain x where x: "x \<in> set (b # m_queue st)" "left x = int k" "right x = int l"
      "fresh (m_text st) (m_symbols st ! k) (m_symbols st ! l) x"
      unfolding sat_def by fastforce
    have "0 < sym_n (m_symbols st ! k)" "0 < sym_n (m_symbols st ! l)"
      using neighbours[OF c k] chain_alive[OF c] k(1) by blast+
    then have "x \<noteq> b" using out ij x by auto
    with x show "\<exists>x \<in> set (m_queue st). left x = int k \<and> right x = int l
        \<and> fresh (m_text st) (m_symbols st ! k) (m_symbols st ! l) x" by auto
  qed
qed

section \<open>The loop\<close>

text \<open>
  What is kept of the pieces when the popped bigram is merged is kept by the loop.
\<close>

definition merge_safe :: "8 word list set \<Rightarrow> ('b list \<Rightarrow> nat) \<Rightarrow> (8 word list list \<Rightarrow> bool) \<Rightarrow> bool" where
  "merge_safe C pick Q \<longleftrightarrow> (\<forall>st is b i j xs ys. inv C st is \<longrightarrow> sat {} st is \<longrightarrow> m_queue st \<noteq> [] \<longrightarrow>
     b = m_queue st ! pick (m_queue st) \<longrightarrow> left b = int i \<longrightarrow> right b = int j \<longrightarrow> is = xs @ i # j # ys \<longrightarrow>
     0 < sym_n (m_symbols st ! i) \<longrightarrow> 0 < sym_n (m_symbols st ! j) \<longrightarrow>
     fresh (m_text st) (m_symbols st ! i) (m_symbols st ! j) b \<longrightarrow>
     Q (pieces (m_text st) (m_symbols st) is) \<longrightarrow>
     Q (join_at (length xs) (pieces (m_text st) (m_symbols st) is)))"

text \<open>
  The loop returns within its bound, with the text and the chain intact and an empty queue, so
  that no two neighbours join any more.
\<close>

lemma merge_loop_rule:
  assumes pick: "\<And>q. q \<noteq> [] \<Longrightarrow> pick q < length q" and Q: "merge_safe C pick Q"
    and "inv C st is" "sat {} st is" "queue_bound st \<le> fuel" "Q (pieces (m_text st) (m_symbols st) is)"
  shows "\<exists>st' is'. merge_loop pick (merge_one left right fresh add) fuel st = Inr st'
    \<and> inv C st' is' \<and> sat {} st' is' \<and> m_queue st' = [] \<and> m_text st' = m_text st
    \<and> Q (pieces (m_text st) (m_symbols st') is')"
  using assms(3-)
proof (induction fuel arbitrary: st "is")
  case 0
  then show ?case by (auto simp: queue_bound_def)
next
  case (Suc fuel)
  show ?case
  proof (cases "m_queue st = []")
    case True
    then show ?thesis using Suc.prems by auto
  next
    case False
    let ?q = "m_queue st" and ?k = "pick (m_queue st)"
    let ?b = "?q ! ?k" and ?st = "st\<lparr>m_queue := take (pick (m_queue st)) (m_queue st) @ drop (Suc (pick (m_queue st))) (m_queue st)\<rparr>"
    have k: "?k < length ?q" using pick[OF False] .
    have parts: "set ?q = insert ?b (set (m_queue ?st))"
      by (subst id_take_nth_drop[OF k]) auto
    have inv: "inv C ?st is" using Suc.prems(1) parts J_queue unfolding inv_def queued_def by auto
    have sat: "sat {} (?st\<lparr>m_queue := ?b # m_queue ?st\<rparr>) is" using Suc.prems(2) parts unfolding sat_def by auto
    have q: "queued ?st ?b" using Suc.prems(1) parts unfolding inv_def queued_def by auto
    then obtain i j where ij: "left ?b = int i" "right ?b = int j" "i < length (m_symbols ?st)"
      "j < length (m_symbols ?st)" unfolding queued_def by blast
    have less: "Suc (queue_bound ?st) = queue_bound st" using k by (simp add: queue_bound_def)
    have "\<exists>st1 is1. merge_one left right fresh add ?b ?st = Inr st1 \<and> inv C st1 is1 \<and> sat {} st1 is1
      \<and> m_text st1 = m_text ?st \<and> queue_bound st1 \<le> queue_bound ?st
      \<and> Q (pieces (m_text st) (m_symbols st1) is1)"
    proof (cases "sym_n (m_symbols ?st ! i) = 0 \<or> sym_n (m_symbols ?st ! j) = 0
        \<or> \<not> fresh (m_text ?st) (m_symbols ?st ! i) (m_symbols ?st ! j) ?b")
      case True
      have "chain_ok (m_text ?st) (m_symbols ?st) is" using inv by (simp add: inv_def)
      from merge_one_skips[OF sat this ij True] inv Suc.prems(4) show ?thesis by auto
    next
      case False
      then obtain st1 is1 xs ys where m: "merge_one left right fresh add ?b ?st = Inr st1" "inv C st1 is1"
        "sat {} st1 is1" "m_text st1 = m_text ?st" "queue_bound st1 \<le> queue_bound ?st" "is = xs @ i # j # ys"
        "pieces (m_text ?st) (m_symbols st1) is1 = join_at (length xs) (pieces (m_text ?st) (m_symbols ?st) is)"
        using merge_one_merges[OF inv sat q ij(1,2)] by blast
      have "Q (join_at (length xs) (pieces (m_text st) (m_symbols st) is))"
        by (rule Q[unfolded merge_safe_def, rule_format, OF Suc.prems(1,2) \<open>m_queue st \<noteq> []\<close> refl ij(1,2) m(6)])
          (use False Suc.prems(4) in simp_all)
      with m show ?thesis by auto
    qed
    then obtain st1 is1 where st1: "merge_one left right fresh add ?b ?st = Inr st1" "inv C st1 is1"
      "sat {} st1 is1" "m_text st1 = m_text st" "queue_bound st1 \<le> queue_bound ?st"
      "Q (pieces (m_text st1) (m_symbols st1) is1)" by auto
    from Suc.IH[OF st1(2,3) _ st1(6)] st1(5) less Suc.prems(3) obtain st' is' where
      "merge_loop pick (merge_one left right fresh add) fuel st1 = Inr st'" "inv C st' is'" "sat {} st' is'"
      "m_queue st' = []" "m_text st' = m_text st1" "Q (pieces (m_text st1) (m_symbols st') is')" by auto
    with st1 False k show ?thesis by (auto simp: vec_get_def Let_def)
  qed
qed

text \<open>Seeding the queue leaves no pair of neighbours without its bigram.\<close>

lemma seed_total:
  assumes inv: "inv C st is" and is': "is = [0..<length (m_symbols st)]"
    and next_one: "\<And>i. Suc i < length (m_symbols st) \<Longrightarrow> sym_next (m_symbols st ! i) = int (Suc i)"
    and last_one: "sym_next (m_symbols st ! (length (m_symbols st) - 1)) = -1"
  shows "\<exists>st'. seed_queue add st = Inr st' \<and> inv C st' is \<and> sat {} st' is \<and> m_text st' = m_text st
    \<and> m_symbols st' = m_symbols st"
proof -
  let ?n = "length (m_symbols st)"
  have nxt: "l = Suc k" if "k \<in> set is" "sym_next (m_symbols st ! k) = int l" for k l
  proof (cases "Suc k < ?n")
    case True
    then show ?thesis using next_one[of k] that by simp
  next
    case False
    then have "k = ?n - 1" using that(1) is' by auto
    then show ?thesis using last_one that(2) by simp
  qed
  have step: "m \<le> ?n \<Longrightarrow> \<exists>st'. rfold (\<lambda>i st. add (int i - 1) (int i) st) [1..<m] st = Inr st' \<and> inv C st' is
      \<and> sat {(i, j). m \<le> j} st' is \<and> m_text st' = m_text st \<and> m_symbols st' = m_symbols st" for m
  proof (induction m)
    case 0
    have "sat {(i, j). 0 \<le> j} st is" by (simp add: sat_def)
    then show ?case using inv by auto
  next
    case (Suc m)
    then obtain st1 where st1: "rfold (\<lambda>i st. add (int i - 1) (int i) st) [1..<m] st = Inr st1" "inv C st1 is"
      "sat {(i, j). m \<le> j} st1 is" "m_text st1 = m_text st" "m_symbols st1 = m_symbols st" by auto
    show ?case
    proof (cases m)
      case 0
      have "sat {(i, j). 1 \<le> j} st is"
        unfolding sat_def using nxt by fastforce
      then show ?thesis using inv 0 by auto
    next
      case (Suc i)
      then have i: "i \<in> set is" "sym_next (m_symbols st1 ! i) = int m"
        using Suc.prems is' next_one[of i] st1(5) by auto
      from add_keeps[OF st1(2,3) i] obtain st2 where st2: "add (int i) (int m) st1 = Inr st2" "inv C st2 is"
        "sat ({(i, j). m \<le> j} - {(i, m)}) st2 is" "m_text st2 = m_text st" "m_symbols st2 = m_symbols st"
        using st1 by auto
      have "sat {(i, j). Suc m \<le> j} st2 is"
        unfolding sat_def
      proof (intro ballI allI impI)
        fix k l assume k: "k \<in> set is" "sym_next (m_symbols st2 ! k) = int l" "(k, l) \<notin> {(i, j). Suc m \<le> j}"
          "joins (sym_string (m_text st2) (m_symbols st2 ! k)) (sym_string (m_text st2) (m_symbols st2 ! l))"
        have "l = Suc k" using nxt k(1,2) st2(5) by simp
        then have "(k, l) \<notin> {(i, j). m \<le> j} - {(i, m)}" using k(3) Suc by auto
        with st2(3) k show "\<exists>b \<in> set (m_queue st2). left b = int k \<and> right b = int l
            \<and> fresh (m_text st2) (m_symbols st2 ! k) (m_symbols st2 ! l) b"
          unfolding sat_def by blast
      qed
      with st1 st2 Suc show ?thesis by (auto simp: rfold_append)
    qed
  qed
  from step[OF order_refl] obtain st' where st': "seed_queue add st = Inr st'" "inv C st' is"
    "sat {(i, j). ?n \<le> j} st' is" "m_text st' = m_text st" "m_symbols st' = m_symbols st"
    unfolding seed_queue_def by blast
  have "sat {} st' is"
    unfolding sat_def
  proof (intro ballI allI impI)
    fix k l assume k: "k \<in> set is" "sym_next (m_symbols st' ! k) = int l"
      "joins (sym_string (m_text st') (m_symbols st' ! k)) (sym_string (m_text st') (m_symbols st' ! l))"
    have "chain_ok (m_text st') (m_symbols st') is" using st'(2) by (simp add: inv_def)
    from neighbours[OF this k(1,2)] have "l < ?n" using st'(5) by metis
    with st'(3) k show "\<exists>b \<in> set (m_queue st'). left b = int k \<and> right b = int l
        \<and> fresh (m_text st') (m_symbols st' ! k) (m_symbols st' ! l) b"
      unfolding sat_def by auto
  qed
  then show ?thesis using st' by blast
qed

text \<open>
  A session on a text: the queue is seeded, the loop runs to its end, and the chain that is
  left has the text as its pieces, each a character of the text or a merged one, with no two
  neighbours that join.
\<close>

lemma session_rule:
  assumes pick: "\<And>q. q \<noteq> [] \<Longrightarrow> pick q < length q"
    and Q: "merge_safe (set (utf8_chars t)) pick Q" "Q (utf8_chars t)"
    and st: "ok_text t" "J st" "m_text st = t" "m_symbols st = split_symbols t 0 0" "m_queue st = []" "t \<noteq> []"
  shows "\<exists>st1 st2 is. seed_queue add st = Inr st1
    \<and> merge_loop pick (merge_one left right fresh add) (queue_bound st1) st1 = Inr st2
    \<and> J st2 \<and> m_text st2 = t \<and> chain_ok t (m_symbols st2) is \<and> Q (pieces t (m_symbols st2) is)
    \<and> (\<forall>p \<in> set (pieces t (m_symbols st2) is). piece_ok (set (utf8_chars t)) P p)
    \<and> (\<forall>k. Suc k < length is \<longrightarrow>
         \<not> joins (pieces t (m_symbols st2) is ! k) (pieces t (m_symbols st2) is ! Suc k))"
proof -
  let ?S = "split_symbols t 0 0" and ?C = "set (utf8_chars t)"
  have c: "chain_ok t ?S [0..<length ?S]" using split_symbols_chain[OF st(6)] .
  have inv0: "inv ?C st [0..<length ?S]" unfolding inv_def using c st by (auto simp: utf8_chars_def intro: piece_char)
  have nx: "sym_next (?S ! i) = int (Suc i)" if "Suc i < length ?S" for i
    using chain_facts(3)[OF c, of i] that by simp
  have ne: "?S \<noteq> []" using c by (auto simp: chain_ok_def)
  then have "[0..<length ?S] = [0..<length ?S - 1] @ [length ?S - 1]"
    by (metis Suc_diff_1 length_greater_0_conv upt_Suc_append zero_le)
  then have "links ?S (-1) 0 ([0..<length ?S - 1] @ [length ?S - 1]) (length t)"
    using c by (simp add: chain_ok_def)
  from links_split[OF this] have lastone: "sym_next (?S ! (length ?S - 1)) = -1" by simp
  from seed_total[OF inv0] nx lastone st obtain st1 where st1:
    "seed_queue add st = Inr st1" "inv ?C st1 [0..<length ?S]" "sat {} st1 [0..<length ?S]" "m_text st1 = t" "m_symbols st1 = ?S" by auto
  have "pieces t ?S [0..<length ?S] = utf8_chars t"
    unfolding pieces_def utf8_chars_def by (metis map_map map_nth comp_apply map_cong)
  then have Q1: "Q (pieces (m_text st1) (m_symbols st1) [0..<length ?S])" using Q(2) st1(4,5) by simp
  from merge_loop_rule[OF pick Q(1) st1(2,3) order_refl Q1] obtain st2 "is" where st2:
    "merge_loop pick (merge_one left right fresh add) (queue_bound st1) st1 = Inr st2" "inv ?C st2 is"
    "sat {} st2 is" "m_queue st2 = []" "m_text st2 = t" "Q (pieces t (m_symbols st2) is)" using st1(4) by auto
  have i2: "J st2" "chain_ok t (m_symbols st2) is"
    "\<forall>i \<in> set is. piece_ok ?C P (sym_string t (m_symbols st2 ! i))"
    using st2(2,5) unfolding inv_def by blast+
  have "\<not> joins (pieces t (m_symbols st2) is ! k) (pieces t (m_symbols st2) is ! Suc k)" if k: "Suc k < length is" for k
    using chain_facts(3)[OF i2(2) k] st2(3,4,5) k unfolding sat_def pieces_def
    by (auto dest!: bspec[of _ _ "is ! k"])
  moreover have "\<forall>p \<in> set (pieces t (m_symbols st2) is). piece_ok ?C P p"
    using i2(3) by (simp add: pieces_def)
  ultimately show ?thesis using st1(1) st2(1,5,6) i2(1,2) by blast
qed

lemma session_total:
  assumes "\<And>q. q \<noteq> [] \<Longrightarrow> pick q < length q"
    and "ok_text t" "J st" "m_text st = t" "m_symbols st = split_symbols t 0 0" "m_queue st = []" "t \<noteq> []"
  shows "\<exists>st1 st2 is. seed_queue add st = Inr st1
    \<and> merge_loop pick (merge_one left right fresh add) (queue_bound st1) st1 = Inr st2
    \<and> J st2 \<and> m_text st2 = t \<and> chain_ok t (m_symbols st2) is
    \<and> (\<forall>p \<in> set (pieces t (m_symbols st2) is). piece_ok (set (utf8_chars t)) P p)
    \<and> (\<forall>k. Suc k < length is \<longrightarrow>
         \<not> joins (pieces t (m_symbols st2) is ! k) (pieces t (m_symbols st2) is ! Suc k))"
  using session_rule[of pick t "\<lambda>_. True" st] assms by (simp add: merge_safe_def)

end

end
