(* ===== verification/VocabGreedy.thy ===== *)
theory VocabGreedy
  imports VocabMergeProps
begin

text \<open>
  The merge loop against a plain reference: again and again join the neighbours of highest
  priority, the leftmost of several.  The locale \<open>greedy_merger\<close> extends \<open>merger\<close> by the priority
  of a pair and what a bigram stores of it.
\<close>

section \<open>The reference\<close>

text \<open>\<open>val a b\<close> is the priority of joining the neighbours \<open>a\<close> and \<open>b\<close>, if they join at all.\<close>

definition at_most :: "'k::linorder option \<Rightarrow> 'k \<Rightarrow> bool" where
  "at_most x p \<longleftrightarrow> (case x of None \<Rightarrow> True | Some q \<Rightarrow> q \<le> p)"

definition is_best :: "('a list \<Rightarrow> 'a list \<Rightarrow> 'k::linorder option) \<Rightarrow> 'a list list \<Rightarrow> nat \<Rightarrow> bool" where
  "is_best val ps k \<longleftrightarrow> (case val (ps ! k) (ps ! Suc k) of None \<Rightarrow> False
     | Some p \<Rightarrow> list_all (\<lambda>j. at_most (val (ps ! j) (ps ! Suc j)) p) [0..<length ps - 1])"

definition best_at :: "('a list \<Rightarrow> 'a list \<Rightarrow> 'k::linorder option) \<Rightarrow> 'a list list \<Rightarrow> nat option" where
  "best_at val ps = List.find (is_best val ps) [0..<length ps - 1]"

lemma best_at_less: "best_at val ps = Some k \<Longrightarrow> Suc k < length ps"
  by (auto simp: best_at_def find_Some_iff)

lemma length_join_at: "Suc k < length ps \<Longrightarrow> length (join_at k ps) = length ps - 1"
  by (simp add: join_at_def)

function greedy :: "('a list \<Rightarrow> 'a list \<Rightarrow> 'k::linorder option) \<Rightarrow> 'a list list \<Rightarrow> 'a list list" where
  "greedy val ps = (case best_at val ps of None \<Rightarrow> ps | Some k \<Rightarrow> greedy val (join_at k ps))"
  by pat_completeness auto
termination
  by (relation "measure (\<lambda>(_, ps). length ps)") (auto dest: best_at_less simp: length_join_at)

declare greedy.simps [simp del]

lemma best_at_SomeI:
  assumes "Suc k < length ps" "val (ps ! k) (ps ! Suc k) = Some p"
    and le: "\<And>j q. Suc j < length ps \<Longrightarrow> val (ps ! j) (ps ! Suc j) = Some q \<Longrightarrow> q \<le> p"
    and less: "\<And>j q. j < k \<Longrightarrow> val (ps ! j) (ps ! Suc j) = Some q \<Longrightarrow> q < p"
  shows "best_at val ps = Some k"
proof -
  have "is_best val ps k"
    unfolding is_best_def using assms(2) le[of j for j] by (fastforce simp: list_all_iff at_most_def less_diff_conv split: option.split)
  moreover have "\<not> is_best val ps j" if "j < k" for j
  proof
    assume j: "is_best val ps j"
    then obtain q where q: "val (ps ! j) (ps ! Suc j) = Some q" unfolding is_best_def by (auto split: option.splits)
    then have "at_most (val (ps ! k) (ps ! Suc k)) q"
      using j assms(1) unfolding is_best_def by (auto simp: list_all_iff)
    then show False using less[OF that q] assms(2) by (simp add: at_most_def)
  qed
  ultimately show ?thesis
    unfolding best_at_def find_Some_iff using assms(1) by (intro exI[of _ k]) auto
qed

lemma best_at_NoneI:
  "(\<And>k. Suc k < length ps \<Longrightarrow> val (ps ! k) (ps ! Suc k) = None) \<Longrightarrow> best_at val ps = None"
  by (auto simp: best_at_def find_None_iff is_best_def)

section \<open>The work queue\<close>

text \<open>
  What \<open>std::priority_queue\<close> promises of a comparator: \<open>pop\<close> brings out an element that is less
  than no other.  With the comparators of the sessions this is a bigram of the highest priority,
  the leftmost of several.
\<close>

definition picks_top :: "('b \<Rightarrow> 'b \<Rightarrow> bool) \<Rightarrow> ('b list \<Rightarrow> nat) \<Rightarrow> bool" where
  "picks_top cmp pick \<longleftrightarrow> (\<forall>q. q \<noteq> [] \<longrightarrow> pick q < length q \<and> list_all (\<lambda>b. \<not> cmp (q ! pick q) b) q)"

definition not_behind :: "('b \<Rightarrow> int) \<Rightarrow> ('b \<Rightarrow> 'k::linorder) \<Rightarrow> 'b \<Rightarrow> 'b \<Rightarrow> bool" where
  "not_behind left key x b \<longleftrightarrow> key b < key x \<or> key b = key x \<and> left x \<le> left b"

definition picks_best :: "('b \<Rightarrow> int) \<Rightarrow> ('b \<Rightarrow> 'k::linorder) \<Rightarrow> ('b list \<Rightarrow> nat) \<Rightarrow> bool" where
  "picks_best left key pick \<longleftrightarrow>
     (\<forall>q. q \<noteq> [] \<longrightarrow> pick q < length q \<and> list_all (not_behind left key (q ! pick q)) q)"

lemma picks_bestD:
  "picks_best left key pick \<Longrightarrow> q \<noteq> [] \<Longrightarrow> pick q < length q"
  "picks_best left key pick \<Longrightarrow> q \<noteq> [] \<Longrightarrow> b \<in> set q \<Longrightarrow> not_behind left key (q ! pick q) b"
  by (auto simp: picks_best_def list_all_iff)

text \<open>Such a queue exists: the first element that is behind no other.\<close>

definition first_best :: "('b \<Rightarrow> int) \<Rightarrow> ('b \<Rightarrow> 'k::linorder) \<Rightarrow> 'b list \<Rightarrow> nat" where
  "first_best left key q =
     (case List.find (\<lambda>k. list_all (not_behind left key (q ! k)) q) [0..<length q] of None \<Rightarrow> 0 | Some k \<Rightarrow> k)"

lemma not_behind_max: "q \<noteq> [] \<Longrightarrow> \<exists>x \<in> set q. list_all (not_behind left key x) q"
proof (induction q)
  case (Cons b q)
  show ?case
  proof (cases "q = []")
    case False
    then obtain x where x: "x \<in> set q" "list_all (not_behind left key x) q" using Cons.IH by blast
    show ?thesis
    proof (cases "not_behind left key x b")
      case False
      then have "not_behind left key b b" "\<And>y. not_behind left key x y \<Longrightarrow> not_behind left key b y"
        by (auto simp: not_behind_def)
      then show ?thesis using x by (auto simp: list_all_iff)
    qed (use x in auto)
  qed (simp add: not_behind_def)
qed simp

lemma first_best_picks:
  fixes left :: "'b \<Rightarrow> int"
  shows "picks_best left key (first_best left key)"
  unfolding picks_best_def
proof (intro allI impI)
  fix q :: "'b list" assume "q \<noteq> []"
  from not_behind_max[OF this, of left key] obtain k where
    k: "k < length q" "list_all (not_behind left key (q ! k)) q" by (metis in_set_conv_nth)
  then have "List.find (\<lambda>k. list_all (not_behind left key (q ! k)) q) [0..<length q] \<noteq> None"
    by (auto simp: find_None_iff)
  then obtain m where m: "List.find (\<lambda>k. list_all (not_behind left key (q ! k)) q) [0..<length q] = Some m" by blast
  show "first_best left key q < length q \<and> list_all (not_behind left key (q ! first_best left key q)) q"
    unfolding first_best_def m using m[unfolded find_Some_iff] by auto
qed

section \<open>Greedy sessions\<close>

locale greedy_merger = merger left right fresh add ok_text joins made P J
  for left right :: "'b \<Rightarrow> int" and fresh
    and add :: "int \<Rightarrow> int \<Rightarrow> ('b, 'z) merging_scheme \<Rightarrow> ('b, 'z) merging_scheme res"
    and ok_text joins made P J +
  fixes val :: "8 word list \<Rightarrow> 8 word list \<Rightarrow> 'k::linorder option" and key :: "'b \<Rightarrow> 'k"
  assumes made_val: "made s L R b \<Longrightarrow> val (sym_string s L) (sym_string s R) = Some (key b)"
    and val_joins: "val x y \<noteq> None \<longleftrightarrow> joins x y"
begin

lemma popped_best:
  assumes inv: "inv C st is" and sat: "sat {} st is"
    and b: "b \<in> set (m_queue st)" "left b = int i" "right b = int j"
    and best: "\<And>x. x \<in> set (m_queue st) \<Longrightarrow> not_behind left key b x"
    and alive: "0 < sym_n (m_symbols st ! i)" "0 < sym_n (m_symbols st ! j)"
      "fresh (m_text st) (m_symbols st ! i) (m_symbols st ! j) b"
    and is': "is = xs @ i # j # ys"
  shows "best_at val (pieces (m_text st) (m_symbols st) is) = Some (length xs)"
proof -
  let ?S = "m_symbols st" and ?t = "m_text st"
  let ?ps = "pieces ?t ?S is"
  have c: "chain_ok ?t ?S is" and q: "\<forall>x \<in> set (m_queue st). queued st x" using inv by (simp_all add: inv_def)
  have so: "sorted_wrt (<) is" using c by (simp add: chain_ok_def)
  have nth: "?ps ! k = sym_string ?t (?S ! (is ! k))" if "k < length is" for k using that by (simp add: pieces_def)
  have len: "length ?ps = length is" by (simp add: pieces_def)
  have ij: "is ! length xs = i" "is ! Suc (length xs) = j" using is' by (simp_all add: nth_append)
  have pq: "\<exists>x \<in> set (m_queue st). left x = int (is ! k) \<and> key x = q"
    if k: "Suc k < length is" "val (?ps ! k) (?ps ! Suc k) = Some q" for k q
  proof -
    have "joins (sym_string ?t (?S ! (is ! k))) (sym_string ?t (?S ! (is ! Suc k)))"
      using val_joins[of "?ps ! k" "?ps ! Suc k"] k nth by simp
    moreover note nx = chain_facts(3)[OF c k(1)]
    ultimately obtain x where x: "x \<in> set (m_queue st)" "left x = int (is ! k)" "right x = int (is ! Suc k)"
      "fresh ?t (?S ! (is ! k)) (?S ! (is ! Suc k)) x" using sat k(1) unfolding sat_def by fastforce
    have "0 < sym_n (?S ! (is ! k))" "0 < sym_n (?S ! (is ! Suc k))"
      using chain_alive[OF c] k(1) by (meson Suc_lessD nth_mem)+
    from made_val[OF queued_made[OF c _ x(2,3) this x(4)]] q x(1) k nth have "key x = q" by simp
    then show ?thesis using x by blast
  qed
  have "made ?t (?S ! i) (?S ! j) b" using queued_made[OF c _ b(2,3) alive] q b(1) by blast
  then have "val (?ps ! length xs) (?ps ! Suc (length xs)) = Some (key b)"
    using made_val nth[of "length xs"] nth[of "Suc (length xs)"] ij is' by simp
  then show ?thesis
  proof (rule best_at_SomeI[rotated])
    show "Suc (length xs) < length ?ps" using is' len by simp
    fix k v assume k: "Suc k < length ?ps" "val (?ps ! k) (?ps ! Suc k) = Some v"
    then obtain x where x: "x \<in> set (m_queue st)" "key x = v" using pq len by auto
    then show "v \<le> key b" using best[OF x(1)] by (auto simp: not_behind_def)
  next
    fix k v assume k: "k < length xs" "val (?ps ! k) (?ps ! Suc k) = Some v"
    then obtain x where x: "x \<in> set (m_queue st)" "left x = int (is ! k)" "key x = v" using pq[of k v] is' by auto
    have "is ! k < i" using so k(1) ij(1) is' sorted_wrt_nth_less[OF so, of k "length xs"] by simp
    then show "v < key b" using best[OF x(1)] x b(2) by (auto simp: not_behind_def)
  qed
qed

text \<open>A merge is a step of the reference, and where no neighbours join the reference is at its end.\<close>

lemma greedy_safe:
  assumes "picks_best left key pick"
  shows "merge_safe C pick (\<lambda>ps. greedy val ps = g)"
  unfolding merge_safe_def
proof (intro allI impI)
  fix st "is" b i j xs ys
  assume a: "inv C st is" "sat {} st is" "m_queue st \<noteq> []" "b = m_queue st ! pick (m_queue st)"
    "left b = int i" "right b = int j" "is = xs @ i # j # ys"
    "0 < sym_n (m_symbols st ! i)" "0 < sym_n (m_symbols st ! j)"
    "fresh (m_text st) (m_symbols st ! i) (m_symbols st ! j) b"
    "greedy val (pieces (m_text st) (m_symbols st) is) = g"
  have "b \<in> set (m_queue st)" using picks_bestD(1)[OF assms a(3)] a(4) by simp
  from popped_best[OF a(1,2) this a(5,6) _ a(8-10,7)] picks_bestD(2)[OF assms a(3)] a(4)
  have "best_at val (pieces (m_text st) (m_symbols st) is) = Some (length xs)" by blast
  then show "greedy val (join_at (length xs) (pieces (m_text st) (m_symbols st) is)) = g"
    using a(11) greedy.simps[of val "pieces (m_text st) (m_symbols st) is"] by simp
qed

lemma greedy_ends:
  assumes "\<And>k. Suc k < length ps \<Longrightarrow> \<not> joins (ps ! k) (ps ! Suc k)"
  shows "greedy val ps = ps"
proof -
  have "best_at val ps = None" by (rule best_at_NoneI) (use assms val_joins in blast)
  then show ?thesis by (simp add: greedy.simps)
qed

lemma session_greedy:
  assumes pick: "picks_best left key pick"
    and st: "ok_text t" "J st" "m_text st = t" "m_symbols st = split_symbols t 0 0" "m_queue st = []" "t \<noteq> []"
  shows "\<exists>st1 st2 is. seed_queue add st = Inr st1
    \<and> merge_loop pick (merge_one left right fresh add) (queue_bound st1) st1 = Inr st2
    \<and> J st2 \<and> m_text st2 = t \<and> chain_ok t (m_symbols st2) is
    \<and> pieces t (m_symbols st2) is = greedy val (utf8_chars t)"
proof -
  from session_rule[OF picks_bestD(1)[OF pick] greedy_safe[OF pick] refl st] obtain st1 st2 "is" where
    s: "seed_queue add st = Inr st1" "merge_loop pick (merge_one left right fresh add) (queue_bound st1) st1 = Inr st2"
      "J st2" "m_text st2 = t" "chain_ok t (m_symbols st2) is"
    and g: "greedy val (pieces t (m_symbols st2) is) = greedy val (utf8_chars t)"
    and irr: "\<forall>k. Suc k < length is \<longrightarrow>
         \<not> joins (pieces t (m_symbols st2) is ! k) (pieces t (m_symbols st2) is ! Suc k)" by blast
  have "greedy val (pieces t (m_symbols st2) is) = pieces t (m_symbols st2) is"
    by (rule greedy_ends) (use irr in \<open>simp add: pieces_def\<close>)
  with s g show ?thesis by auto
qed

end

end
