(* ===== verification/VocabBpeProps.thy ===== *)
theory VocabBpeProps
  imports VocabBpe VocabGreedy
begin

text \<open>
  The BPE session as an instance of \<open>merger\<close>, the list of finished symbols, and what a text is
  cut into.
\<close>

definition bpe_joins :: "'f llama_vocab \<Rightarrow> 8 word list \<Rightarrow> 8 word list \<Rightarrow> bool" where
  "bpe_joins v a b \<longleftrightarrow> (case v_bpe_ranks v (a, b) of None \<Rightarrow> False | Some r \<Rightarrow> 0 \<le> r)"

text \<open>A pair has the higher priority the lower its rank.\<close>

definition bpe_val :: "'f llama_vocab \<Rightarrow> 8 word list \<Rightarrow> 8 word list \<Rightarrow> int option" where
  "bpe_val v a b = (case v_bpe_ranks v (a, b) of None \<Rightarrow> None | Some r \<Rightarrow> if 0 \<le> r then Some (- r) else None)"

lemma bpe_val_joins: "bpe_val v a b \<noteq> None \<longleftrightarrow> bpe_joins v a b"
  by (simp add: bpe_val_def bpe_joins_def split: option.split)

definition bpe_made :: "'f llama_vocab \<Rightarrow> 8 word list \<Rightarrow> llm_symbol \<Rightarrow> llm_symbol \<Rightarrow> llm_bigram_bpe \<Rightarrow> bool" where
  "bpe_made v s L R b \<longleftrightarrow> bb_text b = sym_string s L @ sym_string s R
     \<and> bpe_val v (sym_string s L) (sym_string s R) = Some (- bb_rank b)"

definition bpe_merged :: "'f llama_vocab \<Rightarrow> 8 word list \<Rightarrow> bool" where
  "bpe_merged v s \<longleftrightarrow> (\<exists>a b. s = a @ b \<and> bpe_joins v a b)"

text \<open>What the assertions of \<open>find_bpe_rank\<close> ask of a word.\<close>

definition no_breaks :: "8 word list \<Rightarrow> bool" where
  "no_breaks s \<longleftrightarrow> 0x20 \<notin> set s \<and> 0x0A \<notin> set s"

lemma no_breaks_string: "no_breaks s \<Longrightarrow> no_breaks (sym_string s x)"
  by (auto simp: no_breaks_def sym_string_def dest: in_set_takeD in_set_dropD)

lemma find_bpe_rank_total:
  "no_breaks a \<Longrightarrow> no_breaks b \<Longrightarrow>
    find_bpe_rank v a b = Inr (case v_bpe_ranks v (a, b) of None \<Rightarrow> -1 | Some r \<Rightarrow> r)"
  by (simp add: find_bpe_rank_def no_breaks_def)

lemma bpe_add_pair:
  assumes "no_breaks (m_text st)"
    and ij: "i < length (m_symbols st)" "j < length (m_symbols st)"
    and LR: "L = m_symbols st ! i" "R = m_symbols st ! j"
  shows "\<exists>st'. bpe_add_new_bigram v (int i) (int j) st = Inr st' \<and> m_text st' = m_text st
      \<and> m_symbols st' = m_symbols st
      \<and> (m_queue st' = m_queue st \<and> \<not> bpe_joins v (sym_string (m_text st) L) (sym_string (m_text st) R)
         \<or> (\<exists>b. m_queue st' = m_queue st @ [b] \<and> bb_left b = int i \<and> bb_right b = int j
              \<and> bpe_fresh (m_text st) L R b \<and> bpe_made v (m_text st) L R b))"
proof -
  let ?l = "sym_string (m_text st) L" and ?r = "sym_string (m_text st) R"
  have red: "bpe_add_new_bigram v (int i) (int j) st =
      (if \<not> bpe_joins v ?l ?r then Inr st
       else Inr (st\<lparr>m_queue := m_queue st @ [\<lparr>bb_left = int i, bb_right = int j, bb_text = ?l @ ?r,
              bb_rank = the (v_bpe_ranks v (?l, ?r)), bb_size = length ?l + length ?r\<rparr>]\<rparr>))"
    using ij no_breaks_string[OF assms(1), of L] no_breaks_string[OF assms(1), of R]
    by (simp add: bpe_add_new_bigram_def sym_of_def vec_get_def LR[symmetric] find_bpe_rank_total
        bpe_joins_def Let_def split: option.split)
  show ?thesis
    unfolding red by (cases "bpe_joins v ?l ?r") (auto simp: bpe_fresh_def bpe_made_def bpe_joins_def bpe_val_def split: option.splits)
qed

interpretation bpe: merger bb_left bb_right bpe_fresh "bpe_add_new_bigram v"
    no_breaks "bpe_joins v" "bpe_made v" "bpe_merged v" "\<lambda>_. True"
  for v :: "'f llama_vocab"
proof (unfold_locales, goal_cases)
  case (2 st i j L R)
  then show ?case using bpe_add_pair[of st i j L R v] by simp
next
  case (5 s L n R b)
  then have "take n (drop (sym_text R) s) = take (sym_n R) (drop (sym_text R) s)"
    by (simp add: bpe_made_def bpe_fresh_def sym_string_def)
  from arg_cong[OF this, of length] 5 show ?case by simp
next
  case (6 s L R b)
  then show ?case unfolding bpe_merged_def bpe_made_def using bpe_val_joins[of v] by fastforce
qed (simp_all add: bpe_add_new_bigram_def bpe_fresh_def bpe_made_def sym_string_def)

lemma bpe_less_iff: "\<not> bpe_less x b \<longleftrightarrow> not_behind bb_left (\<lambda>b. - bb_rank b) x b"
  by (auto simp: bpe_less_def not_behind_def)

lemma bpe_picks_top: "picks_top bpe_less pick \<longleftrightarrow> picks_best bb_left (\<lambda>b. - bb_rank b) pick"
  by (simp add: picks_top_def picks_best_def bpe_less_iff)

interpretation bpe_greedy: greedy_merger bb_left bb_right bpe_fresh "bpe_add_new_bigram v"
    no_breaks "bpe_joins v" "bpe_made v" "bpe_merged v" "\<lambda>_. True" "bpe_val v" "\<lambda>b. - bb_rank b"
  for v :: "'f llama_vocab"
  by unfold_locales (simp_all add: bpe_made_def flip: bpe_val_joins)

section \<open>One word\<close>

text \<open>The pieces of a word: itself if it is taken as a whole, else what the merges leave.\<close>

definition bpe_irreducible :: "'f llama_vocab \<Rightarrow> 8 word list list \<Rightarrow> bool" where
  "bpe_irreducible v ps \<longleftrightarrow> (\<forall>k. Suc k < length ps \<longrightarrow> \<not> bpe_joins v (ps ! k) (ps ! Suc k))"

definition word_cut :: "'f llama_vocab \<Rightarrow> 8 word list \<Rightarrow> 8 word list list \<Rightarrow> bool" where
  "word_cut v w ps \<longleftrightarrow> concat ps = w \<and> [] \<notin> set ps
     \<and> (ps = [w] \<and> v_ignore_merges v \<and> v_token_to_id v w \<noteq> None
        \<or> bpe_irreducible v ps \<and> (\<forall>p \<in> set ps. piece_ok (set (utf8_chars w)) (bpe_merged v) p))"

text \<open>The pieces by the reference.\<close>

definition bpe_pieces :: "'f llama_vocab \<Rightarrow> 8 word list \<Rightarrow> 8 word list list" where
  "bpe_pieces v w =
     (if v_ignore_merges v \<and> v_token_to_id v w \<notin> {None, Some LLAMA_TOKEN_NULL}
      then (if w = [] then [] else [w])
      else greedy (bpe_val v) (utf8_chars w))"

text \<open>Symbols of the final list: linked one after the other.\<close>

definition final_string :: "final_symbol \<Rightarrow> 8 word list" where
  "final_string s = take (sym_n s) (drop (sym_text s) (fs_word s))"

definition final_ok :: "final_symbol list \<Rightarrow> bool" where
  "final_ok fs \<longleftrightarrow> (\<forall>i < length fs. 0 < sym_n (fs ! i)
     \<and> sym_next (fs ! i) = (if Suc i < length fs then int (Suc i) else -1))"

lemma final_next: "final_string (s\<lparr>sym_next := n\<rparr>) = final_string s"
  by (simp add: final_string_def)

lemma put_final_skip: "sym_n s = 0 \<Longrightarrow> put_final w s acc = Inr acc"
  by (simp add: put_final_def Let_def split: prod.split)

lemma put_final_appends:
  assumes "final_ok fs" "0 < sym_n s"
  shows "\<exists>fs'. put_final w s (fs, int (length fs) - 1) = Inr (fs', int (length fs') - 1) \<and> final_ok fs'
    \<and> map final_string fs' = map final_string fs @ [sym_string w s]"
proof (cases "fs = []")
  case True
  then show ?thesis
    using assms(2) by (simp add: put_final_def final_ok_def final_string_def sym_string_def)
next
  case False
  let ?k = "length fs - 1"
  let ?fs = "fs[?k := (fs ! ?k)\<lparr>sym_next := int (length fs)\<rparr>]
    @ [\<lparr>sym_prev = int (length fs) - 1, sym_next = -1, sym_text = sym_text s, sym_n = sym_n s, fs_word = w\<rparr>]"
  have k: "?k < length fs" "nat (int (length fs) - 1) = ?k" using False by (simp_all add: nat_diff_distrib)
  have "put_final w s (fs, int (length fs) - 1) = Inr (?fs, int (length ?fs) - 1)"
    using False assms(2) k by (auto simp: put_final_def vec_get_def)
  moreover have "final_ok ?fs"
    using assms False by (auto simp: final_ok_def nth_append nth_list_update)
  moreover have "map final_string (fs[?k := (fs ! ?k)\<lparr>sym_next := int (length fs)\<rparr>]) = map final_string fs"
    using k(1) list_update_id[of "map final_string fs" ?k]
    by (simp add: map_update final_next)
  then have "map final_string ?fs = map final_string fs @ [sym_string w s]"
    by (simp add: final_string_def sym_string_def)
  ultimately show ?thesis by blast
qed

lemma put_all_final:
  "final_ok fs \<Longrightarrow> \<exists>fs'. rfold (put_final w) ss (fs, int (length fs) - 1) = Inr (fs', int (length fs') - 1)
     \<and> final_ok fs' \<and> map final_string fs' = map final_string fs @ map (sym_string w) (filter (\<lambda>s. 0 < sym_n s) ss)"
proof (induction ss arbitrary: fs)
  case (Cons s ss)
  show ?case
  proof (cases "sym_n s = 0")
    case True
    then show ?thesis using Cons.IH[OF Cons.prems] by (simp add: put_final_skip)
  next
    case False
    then have s: "0 < sym_n s" by simp
    from put_final_appends[OF Cons.prems this, of w] obtain fs1 where
      fs1: "put_final w s (fs, int (length fs) - 1) = Inr (fs1, int (length fs1) - 1)" "final_ok fs1"
        "map final_string fs1 = map final_string fs @ [sym_string w s]" by blast
    from Cons.IH[OF fs1(2)] fs1(1,3) s show ?thesis by auto
  qed
qed simp

text \<open>The chain's indices are the positions of its living symbols, in order.\<close>

lemma chain_filter:
  assumes "chain_ok txt syms is"
  shows "map (sym_string txt) (filter (\<lambda>s. 0 < sym_n s) syms) = pieces txt syms is"
proof -
  have "is = filter (\<lambda>i. 0 < sym_n (syms ! i)) [0..<length syms]"
  proof (rule strict_sorted_equal)
    show "sorted_wrt (<) is" using assms by (simp add: chain_ok_def)
    show "sorted_wrt (<) (filter (\<lambda>i. 0 < sym_n (syms ! i)) [0..<length syms])"
      by (simp add: sorted_wrt_filter)
    show "set is = set (filter (\<lambda>i. 0 < sym_n (syms ! i)) [0..<length syms])"
      using chain_alive[OF assms] by auto
  qed
  moreover have "filter (\<lambda>s. 0 < sym_n s) syms = map ((!) syms) (filter (\<lambda>i. 0 < sym_n (syms ! i)) [0..<length syms])"
    by (metis (no_types, lifting) comp_def filter_cong filter_map map_nth)
  ultimately show ?thesis by (simp add: pieces_def)
qed

text \<open>What a run of the merge loop leaves of a word.\<close>

definition left_of_word :: "(llm_bigram_bpe list \<Rightarrow> nat) \<Rightarrow> 'f llama_vocab \<Rightarrow> 8 word list \<Rightarrow> 8 word list list \<Rightarrow> bool" where
  "left_of_word pick v w ps \<longleftrightarrow>
     (let st = \<lparr>m_text = w, m_symbols = split_symbols w 0 0, m_queue = []\<rparr> in
      \<exists>st1 st2 is. seed_queue (bpe_add_new_bigram v) st = Inr st1
        \<and> merge_loop pick (bpe_merge_one v) (queue_bound st1) st1 = Inr st2
        \<and> chain_ok w (m_symbols st2) is \<and> ps = pieces w (m_symbols st2) is)"

abbreviation taken_whole :: "'f llama_vocab \<Rightarrow> 8 word list \<Rightarrow> bool" where
  "taken_whole v w \<equiv> v_ignore_merges v \<and> v_token_to_id v w \<notin> {None, Some LLAMA_TOKEN_NULL}"

text \<open>One word: its pieces are appended to the finished symbols.\<close>

lemma bpe_word_appends:
  assumes v: "v_type v \<noteq> LLAMA_VOCAB_TYPE_NONE" and fs: "final_ok fs"
    and ps: "if taken_whole v w \<or> w = [] then ps = (if w = [] then [] else [w]) else left_of_word pick v w ps"
  shows "\<exists>fs'. bpe_word pick v w (fs, int (length fs) - 1) = Inr (fs', int (length fs') - 1) \<and> final_ok fs'
    \<and> map final_string fs' = map final_string fs @ ps"
proof -
  have syms: "bpe_word_symbols v w =
      Inr (if taken_whole v w then [\<lparr>sym_prev = -1, sym_next = -1, sym_text = 0, sym_n = length w\<rparr>]
           else split_symbols w 0 0)"
    using v by (auto simp: bpe_word_symbols_def text_to_token_def has_vocab_def split: option.splits)
  have q: "merge_loop pick (bpe_merge_one v) n \<lparr>m_text = w, m_symbols = S, m_queue = []\<rparr>
      = Inr \<lparr>m_text = w, m_symbols = S, m_queue = []\<rparr>" for n S
    by (cases n) simp_all
  show ?thesis
  proof (cases "taken_whole v w \<or> w = []")
    case True
    let ?S = "if taken_whole v w then [\<lparr>sym_prev = -1, sym_next = -1, sym_text = 0, sym_n = length w\<rparr>]
      else split_symbols w 0 0"
    have "seed_queue (bpe_add_new_bigram v) \<lparr>m_text = w, m_symbols = ?S, m_queue = []\<rparr>
        = Inr \<lparr>m_text = w, m_symbols = ?S, m_queue = []\<rparr>"
      using True by (auto simp: seed_queue_def split_symbols.simps)
    with syms q have "bpe_word pick v w (fs, int (length fs) - 1) = rfold (put_final w) ?S (fs, int (length fs) - 1)"
      by (simp add: bpe_word_def)
    moreover have "map (sym_string w) (filter (\<lambda>s. 0 < sym_n s) ?S) = ps"
      using True ps by (auto simp: sym_string_def split_symbols.simps)
    ultimately show ?thesis using put_all_final[OF fs, of w ?S] by auto
  next
    case False
    with ps obtain st1 st2 "is" where
      "seed_queue (bpe_add_new_bigram v) \<lparr>m_text = w, m_symbols = split_symbols w 0 0, m_queue = []\<rparr> = Inr st1"
      "merge_loop pick (bpe_merge_one v) (queue_bound st1) st1 = Inr st2"
      and c: "chain_ok w (m_symbols st2) is" "ps = pieces w (m_symbols st2) is"
      unfolding left_of_word_def Let_def by auto
    with syms False have "bpe_word pick v w (fs, int (length fs) - 1)
        = rfold (put_final w) (m_symbols st2) (fs, int (length fs) - 1)" by (auto simp: bpe_word_def)
    with put_all_final[OF fs, of w "m_symbols st2"] chain_filter[OF c(1)] c(2) show ?thesis by auto
  qed
qed

text \<open>The pieces of a word, for any queue and for one that picks the best bigram.\<close>

lemma left_of_word_cut:
  assumes pick: "\<And>q. q \<noteq> [] \<Longrightarrow> pick q < length q" and w: "no_breaks w" "w \<noteq> []"
  shows "\<exists>ps. left_of_word pick v w ps \<and> word_cut v w ps"
proof -
  let ?st = "\<lparr>m_text = w, m_symbols = split_symbols w 0 0, m_queue = []\<rparr> :: llm_bigram_bpe merging"
  from bpe.session_total[of pick w ?st v] pick w obtain st1 st2 "is" where
    r: "seed_queue (bpe_add_new_bigram v) ?st = Inr st1"
      "merge_loop pick (bpe_merge_one v) (queue_bound st1) st1 = Inr st2"
    and c: "chain_ok w (m_symbols st2) is"
    and P: "\<forall>p \<in> set (pieces w (m_symbols st2) is). piece_ok (set (utf8_chars w)) (bpe_merged v) p"
    and irr: "\<forall>k. Suc k < length is \<longrightarrow>
      \<not> bpe_joins v (pieces w (m_symbols st2) is ! k) (pieces w (m_symbols st2) is ! Suc k)"
    by auto
  have "word_cut v w (pieces w (m_symbols st2) is)"
    using chain_text[OF c] chain_facts(1)[OF c] P irr
    by (simp add: word_cut_def bpe_irreducible_def pieces_def)
  then show ?thesis using r c unfolding left_of_word_def Let_def by blast
qed

lemma left_of_word_greedy:
  assumes pick: "picks_best bb_left (\<lambda>b. - bb_rank b) pick" and w: "no_breaks w" "w \<noteq> []"
  shows "left_of_word pick v w (greedy (bpe_val v) (utf8_chars w))"
proof -
  let ?st = "\<lparr>m_text = w, m_symbols = split_symbols w 0 0, m_queue = []\<rparr> :: llm_bigram_bpe merging"
  from bpe_greedy.session_greedy[OF pick w(1), of ?st v] w(2) show ?thesis
    unfolding left_of_word_def Let_def by fastforce
qed

text \<open>All words.\<close>

lemma bpe_words_total:
  assumes v: "v_type v \<noteq> LLAMA_VOCAB_TYPE_NONE"
    and C: "\<And>w. w \<in> set ws \<Longrightarrow> \<exists>ps. C w ps \<and>
      (if taken_whole v w \<or> w = [] then ps = (if w = [] then [] else [w]) else left_of_word pick v w ps)"
    and "final_ok fs"
  shows "\<exists>fs' pss. rfold (bpe_word pick v) ws (fs, int (length fs) - 1) = Inr (fs', int (length fs') - 1)
    \<and> final_ok fs' \<and> map final_string fs' = map final_string fs @ concat pss \<and> list_all2 C ws pss"
  using assms(2,3)
proof (induction ws arbitrary: fs)
  case Nil
  then show ?case by (intro exI[of _ fs] exI[of _ "[]"]) simp
next
  case (Cons w ws)
  then obtain ps where ps: "C w ps"
    "if taken_whole v w \<or> w = [] then ps = (if w = [] then [] else [w]) else left_of_word pick v w ps"
    by (meson list.set_intros(1))
  from bpe_word_appends[OF v Cons.prems(2) ps(2)] obtain fs1 where fs1:
    "bpe_word pick v w (fs, int (length fs) - 1) = Inr (fs1, int (length fs1) - 1)" "final_ok fs1"
    "map final_string fs1 = map final_string fs @ ps" by blast
  from Cons.IH[OF Cons.prems(1) fs1(2)] obtain fs2 pss where
    "rfold (bpe_word pick v) ws (fs1, int (length fs1) - 1) = Inr (fs2, int (length fs2) - 1)" "final_ok fs2"
    "map final_string fs2 = map final_string fs1 @ concat pss" "list_all2 C ws pss" by auto
  with fs1 ps(1) show ?case by (intro exI[of _ fs2] exI[of _ "ps # pss"]) simp
qed

section \<open>The output\<close>

definition bpe_emit :: "'f llama_vocab \<Rightarrow> 8 word list \<Rightarrow> llama_token list" where
  "bpe_emit v s = (case v_token_to_id v s of
     Some t \<Rightarrow> if t \<noteq> LLAMA_TOKEN_NULL then [t] else []
   | None \<Rightarrow> [])"

definition bpe_emits :: "'f llama_vocab \<Rightarrow> 8 word list \<Rightarrow> llama_token list" where
  "bpe_emits v s = (if bpe_emit v s \<noteq> [] then bpe_emit v s else concat (map (\<lambda>b. bpe_emit v [b]) s))"

lemma bpe_byte_tokens_total:
  "v_type v \<noteq> LLAMA_VOCAB_TYPE_NONE \<Longrightarrow> bpe_byte_tokens v s = Inr (concat (map (\<lambda>b. bpe_emit v [b]) s))"
  by (induction s) (auto simp: text_to_token_def has_vocab_def bpe_emit_def split: option.splits)

lemma bpe_symbol_tokens_total:
  "v_type v \<noteq> LLAMA_VOCAB_TYPE_NONE \<Longrightarrow> bpe_symbol_tokens v s = Inr (bpe_emits v s)"
  by (auto simp: bpe_symbol_tokens_def text_to_token_def has_vocab_def bpe_emits_def bpe_byte_tokens_total
      bpe_emit_def split: option.splits)

lemma bpe_output_total:
  assumes v: "v_type v \<noteq> LLAMA_VOCAB_TYPE_NONE" and ok: "final_ok fs"
  shows "n \<le> length fs \<Longrightarrow> n \<le> fuel \<Longrightarrow>
    bpe_output v fs fuel (if n = 0 then -1 else int (length fs - n)) out
      = Inr (out @ concat (map (\<lambda>s. bpe_emits v (final_string s)) (drop (length fs - n) fs)))"
proof (induction n arbitrary: fuel out)
  case 0
  then show ?case by (cases fuel) simp_all
next
  case (Suc n)
  then obtain f where f: "fuel = Suc f" by (cases fuel) auto
  let ?i = "length fs - Suc n"
  have i: "?i < length fs" "length fs - n = Suc ?i" using Suc.prems(1) by simp_all
  have nx: "sym_next (fs ! ?i) = (if n = 0 then -1 else int (length fs - n))" "sym_n (fs ! ?i) \<noteq> 0"
    using ok i unfolding final_ok_def by auto
  have "bpe_output v fs fuel (int ?i) out
      = bpe_output v fs f (if n = 0 then -1 else int (length fs - n)) (out @ bpe_emits v (final_string (fs ! ?i)))"
    using i(1) nx unfolding f by (simp add: vec_get_def bpe_symbol_tokens_total[OF v] final_string_def)
  also have "\<dots> = Inr (out @ bpe_emits v (final_string (fs ! ?i))
      @ concat (map (\<lambda>s. bpe_emits v (final_string s)) (drop (length fs - n) fs)))"
    using Suc.IH[of f] Suc.prems f by simp
  finally show ?case using Cons_nth_drop_Suc[OF i(1)] i(2) by (simp flip: Cons_nth_drop_Suc)
qed

lemma bpe_tokenize_cuts:
  assumes v: "v_type v \<noteq> LLAMA_VOCAB_TYPE_NONE" and ws: "unicode_regex_split D R txt res = Inr ws"
    and C: "\<And>w. w \<in> set ws \<Longrightarrow> \<exists>ps. C w ps \<and>
      (if taken_whole v w \<or> w = [] then ps = (if w = [] then [] else [w]) else left_of_word pick v w ps)"
  shows "\<exists>pss. bpe_tokenize pick D R v res txt out = Inr (out @ concat (map (bpe_emits v) (concat pss)))
    \<and> list_all2 C ws pss"
proof -
  have "final_ok []" by (simp add: final_ok_def)
  from bpe_words_total[of v ws C pick "[]", OF v C this] obtain fs pss where fs:
    "rfold (bpe_word pick v) ws ([], -1) = Inr (fs, int (length fs) - 1)" "final_ok fs"
    "map final_string fs = concat pss" "list_all2 C ws pss" by auto
  have "concat (map (bpe_emits v) (concat pss)) = concat (map (\<lambda>s. bpe_emits v (final_string s)) fs)"
    unfolding fs(3)[symmetric] by (simp add: comp_def)
  moreover have "bpe_tokenize pick D R v res txt out
      = Inr (out @ concat (map (\<lambda>s. bpe_emits v (final_string s)) fs))"
    using bpe_output_total[OF v fs(2), of "length fs" "length fs" out] ws fs(1)
    by (cases "fs = []") (simp_all add: bpe_tokenize_def)
  ultimately show ?thesis using fs(4) by metis
qed

lemma bpe_tokenize_words:
  assumes pick: "\<And>q. q \<noteq> [] \<Longrightarrow> pick q < length q" and v: "v_type v \<noteq> LLAMA_VOCAB_TYPE_NONE"
    and ws: "unicode_regex_split D R txt res = Inr ws" "\<forall>w \<in> set ws. no_breaks w"
  shows "\<exists>pss. bpe_tokenize pick D R v res txt out = Inr (out @ concat (map (bpe_emits v) (concat pss)))
    \<and> list_all2 (word_cut v) ws pss"
proof (rule bpe_tokenize_cuts[OF v ws(1)])
  fix w assume "w \<in> set ws"
  then have w: "no_breaks w" using ws(2) by blast
  have whole: "word_cut v w (if w = [] then [] else [w])" if "taken_whole v w \<or> w = []"
    using that by (auto simp: word_cut_def bpe_irreducible_def)
  show "\<exists>ps. word_cut v w ps \<and>
      (if taken_whole v w \<or> w = [] then ps = (if w = [] then [] else [w]) else left_of_word pick v w ps)"
    using whole left_of_word_cut[OF pick w, of v] by (cases "taken_whole v w \<or> w = []") auto
qed

text \<open>With a queue that picks the best bigram the tokens are those of the reference.\<close>

lemma bpe_tokenize_greedy:
  assumes pick: "picks_top bpe_less pick" and v: "v_type v \<noteq> LLAMA_VOCAB_TYPE_NONE"
    and ws: "unicode_regex_split D R txt res = Inr ws" "\<forall>w \<in> set ws. no_breaks w"
  shows "bpe_tokenize pick D R v res txt out
    = Inr (out @ concat (map (bpe_emits v) (concat (map (bpe_pieces v) ws))))"
proof -
  have e: "bpe_pieces v [] = []"
    by (simp add: bpe_pieces_def utf8_chars_def split_symbols.simps greedy.simps best_at_def)
  have "\<exists>ps. ps = bpe_pieces v w \<and>
      (if taken_whole v w \<or> w = [] then ps = (if w = [] then [] else [w]) else left_of_word pick v w ps)"
    if "w \<in> set ws" for w
    using left_of_word_greedy[OF pick[unfolded bpe_picks_top], of w v] that ws(2) e by (auto simp: bpe_pieces_def)
  from bpe_tokenize_cuts[OF v ws(1), of "\<lambda>w ps. ps = bpe_pieces v w", OF this] obtain pss where
    "bpe_tokenize pick D R v res txt out = Inr (out @ concat (map (bpe_emits v) (concat pss)))"
    "list_all2 (\<lambda>w ps. ps = bpe_pieces v w) ws pss" by blast
  moreover from this(2) have "pss = map (bpe_pieces v) ws" by (induction rule: list_all2_induct) simp_all
  ultimately show ?thesis by simp
qed

end
