(* ===== verification/VocabPiece.thy ===== *)
theory VocabPiece
  imports Vocab
begin

text \<open>
  From tokens back to text: \<open>replace_all\<close> of llama-impl.cpp and, of llama-vocab.cpp, the
  escaping of blanks, \<open>llama_decode_text\<close>, \<open>llama_unescape_rwkv_token\<close>, \<open>token_to_piece\<close> and
  \<open>detokenize\<close> with its three cleaning passes over the caller's buffer.

  A size that the code casts to \<open>int32_t\<close> is taken to fit.
\<close>

section \<open>Texts\<close>

text \<open>\<open>std::string::find\<close> from a position; \<open>None\<close> is \<open>npos\<close>.\<close>

definition str_find :: "8 word list \<Rightarrow> 8 word list \<Rightarrow> nat \<Rightarrow> nat option" where
  "str_find s p pos =
     List.find (\<lambda>i. i + length p \<le> length s \<and> take (length p) (drop i s) = p) [pos..<Suc (length s)]"

lemma str_find_Some:
  assumes "str_find s p pos = Some i"
  shows "pos \<le> i" "i + length p \<le> length s" "take (length p) (drop i s) = p"
  using assms by (auto simp: str_find_def find_Some_iff nth_append)

function replace_from :: "8 word list \<Rightarrow> 8 word list \<Rightarrow> 8 word list \<Rightarrow> nat \<Rightarrow> 8 word list \<Rightarrow> 8 word list" where
  "replace_from s search replace last_pos builder =
     (if search = [] then s
      else case str_find s search last_pos of
        None \<Rightarrow> builder @ drop last_pos s
      | Some pos \<Rightarrow> replace_from s search replace (pos + length search)
                      (builder @ take (pos - last_pos) (drop last_pos s) @ replace))"
  by pat_completeness auto
termination
proof (relation "measure (\<lambda>(s, _, _, last_pos, _). length s - last_pos)")
  fix s search r b :: "8 word list" and last_pos pos
  assume "search \<noteq> []" "str_find s search last_pos = Some pos"
  moreover from this have "0 < length search" "last_pos \<le> pos" "pos + length search \<le> length s"
    using str_find_Some(1,2) by auto
  ultimately show "((s, search, r, pos + length search, b @ take (pos - last_pos) (drop last_pos s) @ r),
      s, search, r, last_pos, b) \<in> measure (\<lambda>(s, _, _, last_pos, _). length s - last_pos)" by (cases search) simp_all
qed simp

declare replace_from.simps [simp del]

definition replace_all :: "8 word list \<Rightarrow> 8 word list \<Rightarrow> 8 word list \<Rightarrow> 8 word list" where
  "replace_all s search replace = (if search = [] then s else replace_from s search replace 0 [])"

definition escaped_space :: "8 word list" where
  "escaped_space = [0xE2, 0x96, 0x81]"

definition llama_escape_whitespace :: "8 word list \<Rightarrow> 8 word list" where
  "llama_escape_whitespace s = replace_all s [0x20] escaped_space"

definition llama_unescape_whitespace :: "8 word list \<Rightarrow> 8 word list" where
  "llama_unescape_whitespace s = replace_all s escaped_space [0x20]"

text \<open>\<open>format("%02x", c)\<close> for a byte.\<close>

definition hex02x :: "8 word \<Rightarrow> 8 word list" where
  "hex02x c = map (\<lambda>n. if n < 10 then 0x30 + n else 0x57 + n) [drop_bit 4 c, c AND 15]"

definition unk_byte :: "8 word list" where
  "unk_byte = map of_char ''[UNK_BYTE_0x''"

fun decode_cpts :: "8 word list \<Rightarrow> 32 word list \<Rightarrow> 8 word list \<Rightarrow> 8 word list res" where
  "decode_cpts txt [] decoded_text = Inr decoded_text"
| "decode_cpts txt (cpt # cpts) decoded_text =
     rbind (unicode_cpt_to_utf8 cpt) (\<lambda>utf8.
       case unicode_utf8_to_byte utf8 of
         Inr b \<Rightarrow> decode_cpts txt cpts (decoded_text @ [b])
       | Inl (Out_of_range _) \<Rightarrow>
           decode_cpts txt cpts (decoded_text @ unk_byte @ concat (map hex02x utf8) @ txt @ [0x5D])
       | Inl e \<Rightarrow> Inl e)"

definition llama_decode_text :: "8 word list \<Rightarrow> 8 word list res" where
  "llama_decode_text txt = rbind (unicode_cpts_from_utf8 txt) (\<lambda>cpts. decode_cpts txt cpts [])"

text \<open>The parser of RWKV's escapes, one character at a time; \<open>char\<close> is signed.\<close>

record rwkv_parser =
  rp_escaping :: bool
  rp_hex_remaining :: "8 word"
  rp_hex_acc :: "8 word"
  rp_output :: "8 word list"

definition rwkv_step :: "8 word \<Rightarrow> rwkv_parser \<Rightarrow> rwkv_parser" where
  "rwkv_step c st =
     (if rp_hex_remaining st \<noteq> 0 then
        let val = (if sint c \<ge> 0x61 then c - 0x61 + 10 else c - 0x30);
            hex_acc = push_bit 4 (rp_hex_acc st) + val;
            hex_remaining = rp_hex_remaining st - 1
        in if hex_remaining = 0
           then st\<lparr>rp_hex_remaining := 0, rp_hex_acc := 0, rp_output := rp_output st @ [hex_acc]\<rparr>
           else st\<lparr>rp_hex_remaining := hex_remaining, rp_hex_acc := hex_acc\<rparr>
      else if rp_escaping st then
        let st' = (if c = 0x74 then st\<lparr>rp_output := rp_output st @ [0x09]\<rparr>
                   else if c = 0x6E then st\<lparr>rp_output := rp_output st @ [0x0A]\<rparr>
                   else if c = 0x72 then st\<lparr>rp_output := rp_output st @ [0x0D]\<rparr>
                   else if c = 0x78 then st\<lparr>rp_hex_remaining := 2\<rparr>
                   else st\<lparr>rp_output := rp_output st @ [c]\<rparr>)
        in st'\<lparr>rp_escaping := False\<rparr>
      else if c = 0x5C then st\<lparr>rp_escaping := True\<rparr>
      else st\<lparr>rp_output := rp_output st @ [c]\<rparr>)"

definition llama_unescape_rwkv_token :: "8 word list \<Rightarrow> 8 word list" where
  "llama_unescape_rwkv_token escaped =
     rp_output (fold rwkv_step escaped
       \<lparr>rp_escaping = False, rp_hex_remaining = 0, rp_hex_acc = 0, rp_output = []\<rparr>)"

section \<open>The piece of a token\<close>

text \<open>
  A call gives the returned number and the bytes written at the start of the buffer; a negative
  number is the size that did not fit, with nothing written.
\<close>

fun skip_spaces :: "nat \<Rightarrow> 8 word list \<Rightarrow> 8 word list" where
  "skip_spaces (Suc n) (c # cs) = (if c = 0x20 then skip_spaces n cs else c # cs)"
| "skip_spaces 0 cs = cs"
| "skip_spaces n [] = []"

lemma skip_spaces_code [code]:
  "skip_spaces n s = (case s of [] \<Rightarrow> [] | c # cs \<Rightarrow> if n = 0 then s else if c = 0x20 then skip_spaces (n - 1) cs else s)"
  by (cases n; cases s) auto

definition try_copy :: "int \<Rightarrow> int \<Rightarrow> 8 word list \<Rightarrow> int \<times> 8 word list" where
  "try_copy len lstrip s =
     (let s' = skip_spaces (nat lstrip) s in
      if len < int (length s') then (- int (length s'), []) else (int (length s'), s'))"

definition attr_special :: llama_token_attr where
  "attr_special = ATTR_UNKNOWN OR ATTR_CONTROL"

definition token_to_piece ::
    "'f llama_vocab \<Rightarrow> llama_token \<Rightarrow> int \<Rightarrow> int \<Rightarrow> bool \<Rightarrow> (int \<times> 8 word list) res" where
  "token_to_piece v tok len lstrip special =
     rbind (token_get_attr v tok) (\<lambda>attr.
       if \<not> special \<and> attr AND attr_special \<noteq> 0 then Inr (0, [])
       else if v_cache_token_to_piece v \<noteq> [] then
         rbind (vec_at (v_cache_token_to_piece v) tok) (\<lambda>s. Inr (try_copy len lstrip s))
       else if 0 \<le> tok \<and> tok < int (length (v_id_to_token v)) then
         let token_text = td_text (v_id_to_token v ! nat tok) in
         if v_type v \<in> {LLAMA_VOCAB_TYPE_WPM, LLAMA_VOCAB_TYPE_SPM, LLAMA_VOCAB_TYPE_UGM} then
           (if attr AND (attr_special OR ATTR_USER_DEFINED) \<noteq> 0 then Inr (try_copy len lstrip token_text)
            else if attr AND ATTR_NORMAL \<noteq> 0 then
              Inr (try_copy len lstrip (llama_unescape_whitespace token_text))
            else if attr AND ATTR_BYTE \<noteq> 0 then
              rbind (token_to_byte v tok) (\<lambda>b. Inr (try_copy len lstrip [b]))
            else Inr (0, []))
         else if v_type v = LLAMA_VOCAB_TYPE_BPE then
           (if attr AND (attr_special OR ATTR_USER_DEFINED) \<noteq> 0 then Inr (try_copy len lstrip token_text)
            else if attr AND ATTR_NORMAL \<noteq> 0 then
              rbind (llama_decode_text token_text) (\<lambda>s. Inr (try_copy len lstrip s))
            else Inr (0, []))
         else if v_type v = LLAMA_VOCAB_TYPE_RWKV then
           let s = llama_unescape_rwkv_token token_text in
           if int (length s) > len then Inr (- int (length s), []) else Inr (int (length s), s)
         else Inl Abort
       else Inr (0, []))"

text \<open>
  The piece as the cache holds it: a first call into the string's internal buffer of
  \<open>capacity\<close> bytes, and a second one into a buffer of the size the first returned.
\<close>

definition token_to_piece_for_cache :: "nat \<Rightarrow> 'f llama_vocab \<Rightarrow> llama_token \<Rightarrow> bool \<Rightarrow> 8 word list res" where
  "token_to_piece_for_cache capacity v tok special =
     rbind (token_to_piece v tok (int capacity) 0 special) (\<lambda>(n_chars, piece).
       if n_chars < 0 then
         rbind (token_to_piece v tok (- n_chars) 0 special) (\<lambda>(check, piece).
           rbind (guard (check = - n_chars) Assert_failed) (\<lambda>_. Inr piece))
       else Inr piece)"

section \<open>Cleaning the text in place\<close>

abbreviation is_end_mark :: "8 word \<Rightarrow> bool" where
  "is_end_mark x \<equiv> x = 0x3F \<or> x = 0x21 \<or> x = 0x2E \<or> x = 0x2C"

text \<open>
  Each pass reads \<open>text[i]\<close> and writes \<open>text[total]\<close> in the same buffer; \<open>total\<close> is the length
  kept so far.  First pass: a blank before \<open>? ! . ,\<close> goes.
\<close>

definition clean_marks_step :: "nat \<Rightarrow> 8 word list \<times> nat \<Rightarrow> 8 word list \<times> nat" where
  "clean_marks_step i = (\<lambda>(t, n).
     let x = t ! i; n' = (if t ! (i - 1) = 0x20 \<and> is_end_mark x then n - 1 else n) in
     (t[n' := x], n' + 1))"

definition clean_marks :: "8 word list \<Rightarrow> nat \<Rightarrow> 8 word list \<times> nat" where
  "clean_marks t total1 = fold clean_marks_step [1..<total1] (t, if total1 \<noteq> 0 then 1 else 0)"

text \<open>Second pass: the blanks around a single apostrophe go; the one behind is overwritten by NUL.\<close>

function clean_quotes_from :: "nat \<Rightarrow> nat \<Rightarrow> 8 word list \<times> nat \<Rightarrow> 8 word list \<times> nat" where
  "clean_quotes_from total2 i st =
     (if i < total2 then
        let (t, n) = st; x = t ! i in
        if x = 0x27 \<and> i + 1 < total2 \<and> t ! (i - 1) = 0x20 \<and> t ! (i + 1) = 0x20
        then clean_quotes_from total2 (i + 2) (t[i + 1 := 0, n - 1 := x], n)
        else clean_quotes_from total2 (i + 1) (t[n := x], n + 1)
      else st)"
  by pat_completeness auto
termination
  by (relation "measure (\<lambda>(total2, i, _). total2 - i)") auto

declare clean_quotes_from.simps [simp del]

definition clean_quotes :: "8 word list \<Rightarrow> nat \<Rightarrow> 8 word list \<times> nat" where
  "clean_quotes t total2 = clean_quotes_from total2 1 (t, if total2 \<noteq> 0 then 1 else 0)"

text \<open>Third pass: the blank before \<open>'s\<close>, \<open>'m\<close>, \<open>'re\<close> and \<open>'ve\<close> goes.\<close>

definition contracts :: "nat \<Rightarrow> 8 word list \<Rightarrow> nat \<Rightarrow> bool" where
  "contracts total3 t i \<longleftrightarrow>
     t ! (i - 1) = 0x20 \<and> t ! i = 0x27 \<and> i + 1 < total3
     \<and> (let x1 = t ! (i + 1) in
        if x1 = 0x74 \<or> x1 = 0x64 then False
        else if x1 = 0x73 \<or> x1 = 0x6D then True
        else if i + 2 < total3 then
          (let x2 = t ! (i + 2) in
           if x1 = 0x6C \<and> x2 = 0x6C then False
           else (x1 = 0x72 \<and> x2 = 0x65) \<or> (x1 = 0x76 \<and> x2 = 0x65))
        else False)"

definition clean_contractions_step :: "nat \<Rightarrow> nat \<Rightarrow> 8 word list \<times> nat \<Rightarrow> 8 word list \<times> nat" where
  "clean_contractions_step total3 i = (\<lambda>(t, n).
     let x = t ! i; n' = (if contracts total3 t i then n - 1 else n) in
     (t[n' := x], n' + 1))"

definition clean_contractions :: "8 word list \<Rightarrow> nat \<Rightarrow> 8 word list \<times> nat" where
  "clean_contractions t total3 =
     fold (clean_contractions_step total3) [1..<total3] (t, if total3 \<noteq> 0 then 1 else 0)"

section \<open>Detokenizing\<close>

text \<open>
  The loop over the tokens.  The buffer's content from its start is \<open>txt\<close>, always \<open>text_len_max - avail\<close>
  bytes unless a piece did not fit; \<open>total\<close> counts what is needed.
\<close>

record detok =
  dt_avail :: int
  dt_total :: int
  dt_text :: "8 word list"
  dt_remove_space :: bool

definition detok_token :: "'f llama_vocab \<Rightarrow> bool \<Rightarrow> llama_token \<Rightarrow> detok \<Rightarrow> detok res" where
  "detok_token v unparse_special tok st =
     rbind (guard (0 \<le> dt_avail st) Assert_failed) (\<lambda>_.
     rbind (token_to_piece v tok (dt_avail st) (if dt_remove_space st then 1 else 0) unparse_special)
       (\<lambda>(n_chars, piece).
         if n_chars < 0 then
           Inr (st\<lparr>dt_remove_space := False, dt_avail := 0, dt_total := dt_total st - n_chars\<rparr>)
         else if n_chars > 0 then
           Inr (st\<lparr>dt_remove_space := False, dt_avail := dt_avail st - n_chars,
                   dt_text := dt_text st @ piece, dt_total := dt_total st + n_chars\<rparr>)
         else Inr (st\<lparr>dt_remove_space := False\<rparr>)))"

text \<open>
  The result is the returned number and the first bytes of the buffer that the caller may use.
  Negative sizes stand for the needed one.
\<close>

definition detokenize ::
    "'f llama_vocab \<Rightarrow> llama_token list \<Rightarrow> int \<Rightarrow> bool \<Rightarrow> bool \<Rightarrow> (int \<times> 8 word list) res" where
  "detokenize v tokens text_len_max remove_special unparse_special =
     (if v_type v = LLAMA_VOCAB_TYPE_NONE then Inr (0, [])
      else
       let strip_bos = remove_special \<and> v_add_bos v \<and> tokens \<noteq> [] \<and> hd tokens = v_bos_id v;
           remove_space = (if strip_bos then False else v_add_space_prefix v);
           tokens1 = (if strip_bos then tl tokens else tokens);
           tokens2 = (if remove_special \<and> v_add_eos v \<and> tokens1 \<noteq> [] \<and> last tokens1 = v_eos_id v
                      then butlast tokens1 else tokens1)
       in rbind (rfold (detok_token v unparse_special) tokens2
                  \<lparr>dt_avail = text_len_max, dt_total = 0, dt_text = [], dt_remove_space = remove_space\<rparr>)
            (\<lambda>st.
              if dt_total st > text_len_max then Inr (- dt_total st, dt_text st)
              else
               let (t3, total3) =
                     (if v_clean_spaces v then
                        let (t1, n1) = clean_marks (dt_text st) (nat (dt_total st));
                            (t2, n2) = clean_quotes t1 n1
                        in clean_contractions t2 n2
                      else (dt_text st, nat (dt_total st)))
               in Inr (if int total3 \<le> text_len_max then int total3 else - int total3, take total3 t3)))"

text \<open>\<open>llama_vocab::detokenize\<close> into a string of its own, whose first size is \<open>capacity\<close> at least.\<close>

definition detokenize_string :: "nat \<Rightarrow> 'f llama_vocab \<Rightarrow> llama_token list \<Rightarrow> bool \<Rightarrow> 8 word list res" where
  "detokenize_string capacity v tokens special =
     rbind (detokenize v tokens (int (max capacity (length tokens))) False special) (\<lambda>(n_chars, txt).
       if n_chars < 0 then
         rbind (detokenize v tokens (- n_chars) False special) (\<lambda>(n_chars2, txt2).
           rbind (guard (n_chars2 \<le> - n_chars) Assert_failed) (\<lambda>_.
             if n_chars2 < 0 then Inl (Length_error ''basic_string::resize'') else Inr (take (nat n_chars2) txt2)))
       else Inr (take (nat n_chars) txt))"

end
