(* ===== verification/VocabPieceProps.thy ===== *)
theory VocabPieceProps
  imports VocabPiece
begin

text \<open>
  The size protocol of \<open>token_to_piece\<close>, the cleaning passes as functions on the text, and what
  \<open>detokenize\<close> returns.
\<close>

section \<open>Pieces without a buffer\<close>

definition piece_text :: "'f llama_vocab \<Rightarrow> llama_token \<Rightarrow> bool \<Rightarrow> 8 word list res" where
  "piece_text v tok special =
     rbind (token_get_attr v tok) (\<lambda>attr.
       if \<not> special \<and> attr AND attr_special \<noteq> 0 then Inr []
       else if v_cache_token_to_piece v \<noteq> [] then vec_at (v_cache_token_to_piece v) tok
       else
         let token_text = td_text (v_id_to_token v ! nat tok) in
         if v_type v \<in> {LLAMA_VOCAB_TYPE_WPM, LLAMA_VOCAB_TYPE_SPM, LLAMA_VOCAB_TYPE_UGM} then
           (if attr AND (attr_special OR ATTR_USER_DEFINED) \<noteq> 0 then Inr token_text
            else if attr AND ATTR_NORMAL \<noteq> 0 then Inr (llama_unescape_whitespace token_text)
            else if attr AND ATTR_BYTE \<noteq> 0 then rbind (token_to_byte v tok) (\<lambda>b. Inr [b])
            else Inr [])
         else if v_type v = LLAMA_VOCAB_TYPE_BPE then
           (if attr AND (attr_special OR ATTR_USER_DEFINED) \<noteq> 0 then Inr token_text
            else if attr AND ATTR_NORMAL \<noteq> 0 then llama_decode_text token_text
            else Inr [])
         else if v_type v = LLAMA_VOCAB_TYPE_RWKV then Inr (llama_unescape_rwkv_token token_text)
         else Inl Abort)"

text \<open>RWKV pieces that do not come from the cache keep their leading blanks.\<close>

definition strips :: "'f llama_vocab \<Rightarrow> bool" where
  "strips v \<longleftrightarrow> v_type v \<noteq> LLAMA_VOCAB_TYPE_RWKV \<or> v_cache_token_to_piece v \<noteq> []"

lemma try_copy_Nil: "0 \<le> len \<Longrightarrow> try_copy len l [] = (0, [])"
  by (cases "nat l") (simp_all add: try_copy_def)

lemma token_to_piece_text:
  assumes "0 \<le> len"
  shows "token_to_piece v tok len lstrip special
    = rbind (piece_text v tok special) (\<lambda>s. Inr (try_copy len (if strips v then lstrip else 0) s))"
proof (cases "token_get_attr v tok")
  case (Inr attr)
  then have tok: "0 \<le> tok" "tok < int (length (v_id_to_token v))"
    by (auto simp: token_get_attr_def get_token_data_def vec_at_Inr)
  show ?thesis
    using Inr tok assms try_copy_Nil[of len lstrip] try_copy_Nil[of len 0]
    unfolding token_to_piece_def piece_text_def strips_def
    by (simp add: rbind_assoc try_copy_def Let_def split: if_splits)
qed (simp add: token_to_piece_def piece_text_def)

lemma try_copy_fits: "int (length s) \<le> len \<Longrightarrow> try_copy len 0 s = (int (length s), s)"
  by (simp add: try_copy_def)

lemma try_copy_0: "try_copy len 0 s = (if len < int (length s) then (- int (length s), []) else (int (length s), s))"
  by (simp add: try_copy_def)

lemma cached_piece: "token_to_piece_for_cache capacity v tok special = piece_text v tok special"
proof (cases "piece_text v tok special")
  case (Inr s)
  then show ?thesis by (simp add: token_to_piece_for_cache_def token_to_piece_text try_copy_0)
qed (simp add: token_to_piece_for_cache_def token_to_piece_text)

section \<open>A pass over the text in place\<close>

text \<open>The positions that survive: \<open>D i\<close> says that the blank before \<open>i\<close> is taken out at \<open>i\<close>.\<close>

definition surviving :: "(nat \<Rightarrow> bool) \<Rightarrow> nat \<Rightarrow> 8 word list \<Rightarrow> 8 word list" where
  "surviving D m t = map ((!) t) (filter (\<lambda>j. \<not> (Suc j < m \<and> D (Suc j))) [0..<m])"

definition pass_step :: "(8 word list \<Rightarrow> nat \<Rightarrow> bool) \<Rightarrow> nat \<Rightarrow> 8 word list \<times> nat \<Rightarrow> 8 word list \<times> nat" where
  "pass_step D i = (\<lambda>(t, n). let n' = (if D t i then n - 1 else n) in (t[n' := t ! i], n' + 1))"

lemma surviving_snoc:
  assumes "0 < m"
  shows "surviving D (Suc m) t = (if D m then butlast (surviving D m t) else surviving D m t) @ [t ! m]"
    and "surviving D m t \<noteq> []" "last (surviving D m t) = t ! (m - 1)"
proof -
  obtain k where k: "m = Suc k" using assms by (cases m) auto
  let ?f = "\<lambda>m. filter (\<lambda>j. \<not> (Suc j < m \<and> D (Suc j))) "
  have c: "?f (Suc m) [0..<k] = ?f m [0..<k]" using k by (intro filter_cong) auto
  have m: "surviving D m t = map ((!) t) (?f m [0..<k]) @ [t ! k]"
    by (simp add: surviving_def k)
  have "surviving D (Suc m) t = map ((!) t) (?f (Suc m) [0..<k]) @ (if D m then [] else [t ! k]) @ [t ! m]"
    by (simp add: surviving_def k)
  then show "surviving D (Suc m) t = (if D m then butlast (surviving D m t) else surviving D m t) @ [t ! m]"
    using c m by simp
  show "surviving D m t \<noteq> []" "last (surviving D m t) = t ! (m - 1)" using m k by simp_all
qed

lemma surviving_length: "length (surviving D m t) \<le> m"
  unfolding surviving_def using length_filter_le[of _ "[0..<m]"] by simp

lemma pass_fold:
  assumes D: "\<And>t' i. length t' = length t \<Longrightarrow> 0 < i \<Longrightarrow> i < m \<Longrightarrow> (\<And>j. i - 1 \<le> j \<Longrightarrow> t' ! j = t ! j) \<Longrightarrow> D t' i = D t i"
    and m: "0 < k" "k \<le> m" "m \<le> length t"
  shows "\<exists>t' n. fold (pass_step D) [1..<k] (t, 1) = (t', n) \<and> length t' = length t \<and> n \<le> k
    \<and> (\<forall>j \<ge> k - 1. t' ! j = t ! j) \<and> take n t' = surviving (D t) k t"
  using m(1,2)
proof (induction k)
  case (Suc k)
  show ?case
  proof (cases "k = 0")
    case True
    have "t \<noteq> []" using m by auto
    then have "take 1 t = surviving (D t) 1 t" by (cases t) (simp_all add: surviving_def)
    then show ?thesis using True by simp
  next
    case False
    with Suc obtain t' n where IH: "fold (pass_step D) [1..<k] (t, 1) = (t', n)" "length t' = length t" "n \<le> k"
      "\<forall>j \<ge> k - 1. t' ! j = t ! j" "take n t' = surviving (D t) k t" by auto
    let ?n = "if D t k then n - 1 else n"
    have k: "0 < k" "k < m" using False Suc.prems by simp_all
    have Dk: "D t' k = D t k" by (rule D[OF IH(2) k]) (use IH(4) in simp)
    have "n \<noteq> 0" using surviving_snoc(2)[OF k(1), of "D t" t] IH(5) by (metis take_0)
    have n: "?n \<le> k" "?n < length t'" using IH(2,3) k m(3) by auto
    have tk: "t' ! k = t ! k" using IH(4) by simp
    have "fold (pass_step D) [1..<Suc k] (t, 1) = (t'[?n := t ! k], ?n + 1)"
      using IH(1) k(1) Dk tk by (simp add: pass_step_def Let_def)
    moreover have "(t'[?n := t ! k]) ! j = t ! j" if "k \<le> j" for j
      using that IH(4) n tk by (cases "?n = j") auto
    moreover have "take (?n + 1) (t'[?n := t ! k]) = take ?n t' @ [t ! k]"
      using n(2) by (simp add: take_Suc_conv_app_nth)
    moreover have "take ?n t' @ [t ! k] = surviving (D t) (Suc k) t"
    proof -
      have "take (n - 1) t' = butlast (take n t')" using IH(2,3) k m(3) by (simp add: butlast_take)
      then show ?thesis using surviving_snoc(1)[OF k(1), of "D t" t] IH(5) by auto
    qed
    ultimately show ?thesis using IH(2,3) n(1) by auto
  qed
qed simp

text \<open>The first and the third pass on a text of exactly that length.\<close>

lemma pass_takes:
  assumes D: "\<And>t' i. length t' = length t \<Longrightarrow> 0 < i \<Longrightarrow> i < m \<Longrightarrow> (\<And>j. i - 1 \<le> j \<Longrightarrow> t' ! j = t ! j) \<Longrightarrow> D t' i = D t i"
    and m: "m \<le> length t"
  shows "\<exists>t' n. fold (pass_step D) [1..<m] (t, if m \<noteq> 0 then 1 else 0) = (t', n) \<and> length t' = length t
    \<and> n \<le> m \<and> take n t' = surviving (D t) m t"
proof (cases "m = 0")
  case False
  then have "0 < m" by simp
  have "\<exists>t' n. fold (pass_step D) [1..<m] (t, 1) = (t', n) \<and> length t' = length t \<and> n \<le> m
      \<and> (\<forall>j \<ge> m - 1. t' ! j = t ! j) \<and> take n t' = surviving (D t) m t"
    by (rule pass_fold[of t m D m, OF _ \<open>0 < m\<close> order_refl m]) (rule D)
  with False show ?thesis by auto
qed (simp add: surviving_def)

text \<open>The same on the list: a blank goes when what is behind it says so.\<close>

fun unblank :: "(8 word list \<Rightarrow> bool) \<Rightarrow> 8 word list \<Rightarrow> 8 word list" where
  "unblank P [] = []"
| "unblank P (c # r) = (if c = 0x20 \<and> P r then unblank P r else c # unblank P r)"

lemma surviving_Cons:
  "surviving D (Suc m) (c # t) = (if 0 < m \<and> D 1 then [] else [c]) @ surviving (\<lambda>i. D (Suc i)) m t"
proof -
  have "[0..<Suc m] = 0 # map Suc [0..<m]" by (simp add: map_Suc_upt upt_conv_Cons)
  then show ?thesis by (simp add: surviving_def filter_map comp_def)
qed

lemma surviving_unblank:
  assumes "\<not> P []" "\<And>i. 0 < i \<Longrightarrow> i < length t \<Longrightarrow> D i = (t ! (i - 1) = 0x20 \<and> P (drop i t))"
  shows "surviving D (length t) t = unblank P t"
  using assms(2)
proof (induction t arbitrary: D)
  case Nil
  then show ?case by (simp add: surviving_def)
next
  case (Cons c t)
  have "surviving (\<lambda>i. D (Suc i)) (length t) t = unblank P t"
  proof (rule Cons.IH)
    fix i assume "0 < i" "i < length t"
    then show "D (Suc i) = (t ! (i - 1) = 0x20 \<and> P (drop i t))"
      using Cons.prems[of "Suc i"] by (cases i) auto
  qed
  moreover have "0 < length t \<and> D 1 \<longleftrightarrow> c = 0x20 \<and> P t"
    using Cons.prems[of 1] assms(1) by (cases t) auto
  ultimately show ?case by (simp add: surviving_Cons)
qed

definition marks_behind :: "8 word list \<Rightarrow> bool" where
  "marks_behind r \<longleftrightarrow> (case r of [] \<Rightarrow> False | x # _ \<Rightarrow> is_end_mark x)"

definition contraction_behind :: "8 word list \<Rightarrow> bool" where
  "contraction_behind r \<longleftrightarrow> (\<exists>q \<in> {[0x27, 0x73], [0x27, 0x6D], [0x27, 0x72, 0x65], [0x27, 0x76, 0x65]}.
     take (length q) r = q)"

lemma clean_marks_unblank:
  "\<exists>t' n. clean_marks t (length t) = (t', n) \<and> length t' = length t \<and> n \<le> length t
     \<and> take n t' = unblank marks_behind t"
proof -
  let ?D = "\<lambda>t i. t ! (i - 1) = 0x20 \<and> is_end_mark (t ! i)"
  have "clean_marks_step = pass_step ?D"
    by (rule ext) (simp add: clean_marks_step_def pass_step_def Let_def)
  moreover have "\<exists>t' n. fold (pass_step ?D) [1..<length t] (t, if length t \<noteq> 0 then 1 else 0) = (t', n)
      \<and> length t' = length t \<and> n \<le> length t \<and> take n t' = surviving (?D t) (length t) t"
    by (rule pass_takes) simp_all
  moreover have "surviving (?D t) (length t) t = unblank marks_behind t"
    by (rule surviving_unblank) (auto simp: marks_behind_def Cons_nth_drop_Suc[symmetric])
  ultimately show ?thesis by (simp add: clean_marks_def)
qed

lemma contracts_behind:
  assumes "0 < i" "i < length t"
  shows "contracts (length t) t i \<longleftrightarrow> t ! (i - 1) = 0x20 \<and> contraction_behind (drop i t)"
proof -
  have d: "drop i t = t ! i # drop (Suc i) t" using assms by (simp add: Cons_nth_drop_Suc)
  show ?thesis
  proof (cases "Suc i < length t")
    case False
    then show ?thesis using d by (simp add: contracts_def contraction_behind_def)
  next
    case True
    then have d2: "drop (Suc i) t = t ! Suc i # drop (Suc (Suc i)) t" by (simp add: Cons_nth_drop_Suc)
    show ?thesis
    proof (cases "Suc (Suc i) < length t")
      case False
      then show ?thesis
        using True d d2 by (auto simp: contracts_def contraction_behind_def Let_def)
    next
      case True
      then have d3: "drop (Suc (Suc i)) t = t ! Suc (Suc i) # drop (Suc (Suc (Suc i))) t" by (simp add: Cons_nth_drop_Suc)
      show ?thesis
        using True d d2 d3 by (auto simp: contracts_def contraction_behind_def Let_def)
    qed
  qed
qed

lemma surviving_cong:
  "(\<And>i. 0 < i \<Longrightarrow> i < m \<Longrightarrow> D i = D' i) \<Longrightarrow> (\<And>i. i < m \<Longrightarrow> t ! i = t' ! i) \<Longrightarrow> surviving D m t = surviving D' m t'"
  unfolding surviving_def by (intro map_cong filter_cong) auto

lemma clean_contractions_unblank:
  assumes "m \<le> length t"
  shows "\<exists>t' n. clean_contractions t m = (t', n) \<and> length t' = length t \<and> n \<le> m
     \<and> take n t' = unblank contraction_behind (take m t)"
proof -
  let ?D = "contracts m"
  have "clean_contractions_step m = pass_step ?D"
    by (rule ext) (simp add: clean_contractions_step_def pass_step_def Let_def)
  moreover have "\<exists>t' n. fold (pass_step ?D) [1..<m] (t, if m \<noteq> 0 then 1 else 0) = (t', n)
      \<and> length t' = length t \<and> n \<le> m \<and> take n t' = surviving (?D t) m t"
    by (rule pass_takes) (auto simp: contracts_def assms)
  moreover have "surviving (?D t) m t = surviving (?D (take m t)) m (take m t)"
    by (rule surviving_cong) (auto simp: contracts_def Let_def)
  moreover have "surviving (?D (take m t)) (length (take m t)) (take m t) = unblank contraction_behind (take m t)"
    by (rule surviving_unblank) (use assms contracts_behind[of _ "take m t"] in \<open>auto simp: contraction_behind_def\<close>)
  ultimately show ?thesis using assms by (simp add: clean_contractions_def)
qed

text \<open>The second pass.\<close>

fun unquote :: "8 word list \<Rightarrow> 8 word list" where
  "unquote (a # b # c # r) =
     (if a = 0x20 \<and> b = 0x27 \<and> c = 0x20 then b # unquote r else a # unquote (b # c # r))"
| "unquote r = r"

lemma clean_quotes_skip:
  assumes "i < m" "\<not> (t ! i = 0x27 \<and> i + 1 < m \<and> t ! (i - 1) = 0x20 \<and> t ! (i + 1) = 0x20)"
  shows "clean_quotes_from m i (t, n) = clean_quotes_from m (Suc i) (t[n := t ! i], Suc n)"
  using assms by (subst clean_quotes_from.simps) (auto simp: Let_def)

lemma drop_Cons_D:
  assumes "drop i (take m t) = b # r" "m \<le> length t"
  shows "i < m" "t ! i = b" "drop (Suc i) (take m t) = r"
proof -
  show i: "i < m" using assms by (metis drop_eq_Nil length_take linorder_not_less list.distinct(1) min.absorb2)
  have "drop i (take m t) = t ! i # drop (Suc i) (take m t)"
    using i assms(2) Cons_nth_drop_Suc[of i "take m t"] by simp
  then show "t ! i = b" "drop (Suc i) (take m t) = r" using assms(1) by simp_all
qed

lemma clean_quotes_run:
  assumes "take n t = out @ [a]" "t ! (i - 1) = a" "drop i (take m t) = r" "0 < i" "n \<le> i" "i \<le> m" "m \<le> length t"
  shows "\<exists>t' n'. clean_quotes_from m i (t, n) = (t', n') \<and> length t' = length t \<and> n' \<le> m
    \<and> take n' t' = out @ unquote (a # r)"
  using assms
proof (induction "length r" arbitrary: n t out a i r rule: less_induct)
  case less
  show ?case
  proof (cases r)
    case Nil
    then have "i = m" using less.prems(3,6,7) by simp
    then show ?thesis using less.prems Nil by (auto simp: clean_quotes_from.simps)
  next
    case (Cons b r')
    note b = drop_Cons_D[OF less.prems(3)[unfolded Cons] less.prems(7)]
    have n: "n < length t" using less.prems(5,7) b(1) by simp
    have "length (take n t) = Suc (length out)" unfolding less.prems(1) by simp
    then have n: "n < length t" "length out = n - 1" "0 < n" using n by simp_all
    show ?thesis
    proof (cases "b = 0x27 \<and> a = 0x20 \<and> r' \<noteq> [] \<and> hd r' = 0x20")
      case False
      have "\<not> (t ! i = 0x27 \<and> i + 1 < m \<and> t ! (i - 1) = 0x20 \<and> t ! (i + 1) = 0x20)"
        using False b less.prems(2,7) hd_drop_conv_nth[of "Suc i" "take m t"] by auto
      from clean_quotes_skip[OF b(1) this, of n]
      have step: "clean_quotes_from m i (t, n) = clean_quotes_from m (Suc i) (t[n := b], Suc n)"
        using b(2) by simp
      have "take (Suc n) (t[n := b]) = (out @ [a]) @ [b]"
        using n(1) less.prems(1) by (simp add: take_Suc_conv_app_nth)
      moreover have "t[n := b] ! (Suc i - 1) = b" using b(2) n(1) less.prems(5) by (simp add: nth_list_update)
      moreover have "drop (Suc i) (take m (t[n := b])) = r'"
        using b(3) less.prems(5) by (simp add: take_update_swap drop_update_cancel)
      ultimately have "\<exists>t' n'. clean_quotes_from m (Suc i) (t[n := b], Suc n) = (t', n')
          \<and> length t' = length (t[n := b]) \<and> n' \<le> m \<and> take n' t' = (out @ [a]) @ unquote (b # r')"
        using b(1) less.prems(5,7) Cons by (intro less.hyps) simp_all
      moreover have "unquote (a # r) = a # unquote (b # r')"
        using False Cons by (cases r') auto
      ultimately show ?thesis using step by simp
    next
      case True
      then obtain r2 where r2: "r' = 0x20 # r2" by (cases r') auto
      note c = drop_Cons_D[OF b(3)[unfolded r2] less.prems(7)]
      let ?t = "t[i + 1 := 0, n - 1 := 0x27]"
      have step: "clean_quotes_from m i (t, n) = clean_quotes_from m (i + 2) (?t, n)"
        using True b(1,2) c(1,2) less.prems(2) by (subst clean_quotes_from.simps) (simp add: Let_def)
      have "take n (t[i + 1 := 0]) = out @ [a]" using less.prems(1,5) by simp
      then have tk: "take n ?t = out @ [0x27]" 
        using n by (simp add: take_update_swap list_update_append)
      have d: "drop (i + 2) (take m ?t) = r2"
        using c(3) n(3) less.prems(5) by (simp add: take_update_swap drop_update_cancel)
      have z: "?t ! (i + 1) = 0" using c(1) n(3) less.prems(5,7) by (simp add: nth_list_update)
      have uq: "unquote (a # r) = 0x27 # unquote r2" using True Cons r2 by simp
      show ?thesis
      proof (cases r2)
        case Nil
        then have "\<not> i + 2 < m" using d less.prems(7) by simp
        then have "clean_quotes_from m (i + 2) (?t, n) = (?t, n)" by (simp add: clean_quotes_from.simps)
        then show ?thesis using step tk uq Nil less.prems(5,6) by simp
      next
        case (Cons e r3)
        have lt: "m \<le> length ?t" using less.prems(7) by simp
        note e = drop_Cons_D[OF d[unfolded Cons] lt]
        have "\<not> (?t ! (i + 2) = 0x27 \<and> i + 2 + 1 < m \<and> ?t ! (i + 2 - 1) = 0x20 \<and> ?t ! (i + 2 + 1) = 0x20)"
          using z by simp
        from clean_quotes_skip[OF e(1) this, of n]
        have step2: "clean_quotes_from m (i + 2) (?t, n) = clean_quotes_from m (Suc (i + 2)) (?t[n := e], Suc n)"
          using e(2) by simp
        have "take (Suc n) (?t[n := e]) = (out @ [0x27]) @ [e]"
          using n(1) tk by (simp add: take_Suc_conv_app_nth)
        moreover have "?t[n := e] ! (Suc (i + 2) - 1) = e"
          using e(2) less.prems(5) by (simp add: nth_list_update)
        moreover have "drop (Suc (i + 2)) (take m (?t[n := e])) = r3"
          using e(3) less.prems(5) by (simp add: take_update_swap drop_update_cancel)
        ultimately have "\<exists>t' n'. clean_quotes_from m (Suc (i + 2)) (?t[n := e], Suc n) = (t', n')
            \<and> length t' = length (?t[n := e]) \<and> n' \<le> m \<and> take n' t' = (out @ [0x27]) @ unquote (e # r3)"
          using e(1) less.prems(5,7) Cons r2 \<open>r = b # r'\<close> by (intro less.hyps) simp_all
        then show ?thesis using step step2 uq Cons by simp
      qed
    qed
  qed
qed

lemma clean_quotes_unquote:
  assumes "m \<le> length t"
  shows "\<exists>t' n. clean_quotes t m = (t', n) \<and> length t' = length t \<and> n \<le> m \<and> take n t' = unquote (take m t)"
proof (cases "m = 0")
  case True
  then show ?thesis by (simp add: clean_quotes_def clean_quotes_from.simps)
next
  case False
  then have "t \<noteq> []" using assms by auto
  then have t: "take m t = hd t # drop 1 (take m t)" "take 1 t = [hd t]" "t ! 0 = hd t"
    using False by (cases t; cases m; simp)+
  from clean_quotes_run[of 1 t "[]" "hd t" 1 m "drop 1 (take m t)"] t False assms show ?thesis
    by (simp add: clean_quotes_def)
qed

text \<open>All three passes.\<close>

definition clean_text :: "8 word list \<Rightarrow> 8 word list" where
  "clean_text t = unblank contraction_behind (unquote (unblank marks_behind t))"

lemma clean_passes:
  "\<exists>t' n. (let (t1, n1) = clean_marks t (length t); (t2, n2) = clean_quotes t1 n1 in clean_contractions t2 n2) = (t', n)
     \<and> n \<le> length t \<and> length t' = length t \<and> take n t' = clean_text t"
proof -
  obtain t1 n1 where 1: "clean_marks t (length t) = (t1, n1)" "length t1 = length t" "n1 \<le> length t"
    "take n1 t1 = unblank marks_behind t" using clean_marks_unblank by blast
  then obtain t2 n2 where 2: "clean_quotes t1 n1 = (t2, n2)" "length t2 = length t" "n2 \<le> n1"
    "take n2 t2 = unquote (take n1 t1)" using clean_quotes_unquote[of n1 t1] by auto
  then obtain t3 n3 where 3: "clean_contractions t2 n2 = (t3, n3)" "n3 \<le> n2" "length t3 = length t"
    "take n3 t3 = unblank contraction_behind (take n2 t2)"
    using clean_contractions_unblank[of n2 t2] 1 by auto
  from 1 2 3 show ?thesis by (simp add: clean_text_def)
qed

section \<open>Detokenizing\<close>

text \<open>The text of a list of tokens, the first one without a leading blank if asked for.\<close>

fun detok_text :: "'f llama_vocab \<Rightarrow> bool \<Rightarrow> bool \<Rightarrow> llama_token list \<Rightarrow> 8 word list res" where
  "detok_text v special remove_space [] = Inr []"
| "detok_text v special remove_space (t # ts) =
     rbind (piece_text v t special) (\<lambda>s.
     rbind (detok_text v special False ts) (\<lambda>r.
       Inr ((if remove_space \<and> strips v then skip_spaces 1 s else s) @ r)))"

definition detok_inv :: "int \<Rightarrow> detok \<Rightarrow> bool" where
  "detok_inv m st \<longleftrightarrow> 0 \<le> dt_avail st
     \<and> (dt_avail st = m - dt_total st \<or> dt_avail st = 0 \<and> m < dt_total st)"

lemma detok_token_step:
  assumes "detok_inv m st" "piece_text v tok special = Inr s"
    and p: "p = (if dt_remove_space st \<and> strips v then skip_spaces 1 s else s)"
  shows "\<exists>st'. detok_token v special tok st = Inr st' \<and> detok_inv m st' \<and> \<not> dt_remove_space st'
    \<and> dt_total st' = dt_total st + int (length p) \<and> (dt_total st' \<le> m \<longrightarrow> dt_text st' = dt_text st @ p)"
proof -
  have a: "0 \<le> dt_avail st" using assms(1) by (simp add: detok_inv_def)
  have "try_copy (dt_avail st) (if strips v then if dt_remove_space st then 1 else 0 else 0) s
      = (if dt_avail st < int (length p) then (- int (length p), []) else (int (length p), p))"
    by (simp add: p try_copy_def Let_def)
  then have "token_to_piece v tok (dt_avail st) (if dt_remove_space st then 1 else 0) special
      = Inr (if dt_avail st < int (length p) then (- int (length p), []) else (int (length p), p))"
    by (simp only: token_to_piece_text[OF a] assms(2) rbind.simps)
  then show ?thesis
    using assms(1) a unfolding detok_token_def detok_inv_def by auto
qed

lemma detok_fold:
  assumes "detok_inv m st"
  shows "case detok_text v special (dt_remove_space st) toks of
     Inl e \<Rightarrow> rfold (detok_token v special) toks st = Inl e
   | Inr s \<Rightarrow> \<exists>st'. rfold (detok_token v special) toks st = Inr st' \<and> detok_inv m st'
       \<and> dt_total st' = dt_total st + int (length s) \<and> (dt_total st' \<le> m \<longrightarrow> dt_text st' = dt_text st @ s)"
  using assms
proof (induction toks arbitrary: st)
  case (Cons tok toks)
  show ?case
  proof (cases "piece_text v tok special")
    case (Inl e)
    have "0 \<le> dt_avail st" using Cons.prems by (simp add: detok_inv_def)
    then show ?thesis using Inl by (simp add: detok_token_def token_to_piece_text)
  next
    case (Inr s)
    let ?p = "if dt_remove_space st \<and> strips v then skip_spaces 1 s else s"
    from detok_token_step[OF Cons.prems Inr refl] obtain st1 where st1:
      "detok_token v special tok st = Inr st1" "detok_inv m st1" "\<not> dt_remove_space st1"
      "dt_total st1 = dt_total st + int (length ?p)" "dt_total st1 \<le> m \<longrightarrow> dt_text st1 = dt_text st @ ?p" by blast
    from Cons.IH[OF st1(2)] st1(3) have IH: "case detok_text v special False toks of
       Inl e \<Rightarrow> rfold (detok_token v special) toks st1 = Inl e
     | Inr s \<Rightarrow> \<exists>st'. rfold (detok_token v special) toks st1 = Inr st' \<and> detok_inv m st'
         \<and> dt_total st' = dt_total st1 + int (length s) \<and> (dt_total st' \<le> m \<longrightarrow> dt_text st' = dt_text st1 @ s)"
      by simp
    show ?thesis
    proof (cases "detok_text v special False toks")
      case (Inl e)
      then show ?thesis using IH st1(1) Inr by simp
    next
      case (Inr r)
      then obtain st' where st': "rfold (detok_token v special) toks st1 = Inr st'" "detok_inv m st'"
        "dt_total st' = dt_total st1 + int (length r)" "dt_total st' \<le> m \<longrightarrow> dt_text st' = dt_text st1 @ r"
        using IH by auto
      have "dt_total st' = dt_total st + int (length (?p @ r))" using st'(3) st1(4) by simp
      moreover have "dt_total st' \<le> m \<longrightarrow> dt_text st' = dt_text st @ ?p @ r"
        using st'(3,4) st1(5) by auto
      ultimately show ?thesis using Inr \<open>piece_text v tok special = Inr s\<close> st1(1) st'(1,2) by auto
    qed
  qed
qed simp

text \<open>The tokens that are left after the special ones are removed, and whether a blank goes.\<close>

definition inner_tokens :: "'f llama_vocab \<Rightarrow> bool \<Rightarrow> llama_token list \<Rightarrow> llama_token list" where
  "inner_tokens v remove_special tokens =
     (let t1 = (if remove_special \<and> v_add_bos v \<and> tokens \<noteq> [] \<and> hd tokens = v_bos_id v then tl tokens else tokens)
      in if remove_special \<and> v_add_eos v \<and> t1 \<noteq> [] \<and> last t1 = v_eos_id v then butlast t1 else t1)"

definition blank_goes :: "'f llama_vocab \<Rightarrow> bool \<Rightarrow> llama_token list \<Rightarrow> bool" where
  "blank_goes v remove_special tokens \<longleftrightarrow>
     v_add_space_prefix v \<and> \<not> (remove_special \<and> v_add_bos v \<and> tokens \<noteq> [] \<and> hd tokens = v_bos_id v)"

definition cleaned :: "'f llama_vocab \<Rightarrow> 8 word list \<Rightarrow> 8 word list" where
  "cleaned v s = (if v_clean_spaces v then clean_text s else s)"

lemma detokenize_result:
  assumes "v_type v \<noteq> LLAMA_VOCAB_TYPE_NONE" "0 \<le> m"
  shows "case detok_text v unparse (blank_goes v rs tokens) (inner_tokens v rs tokens) of
     Inl e \<Rightarrow> detokenize v tokens m rs unparse = Inl e
   | Inr s \<Rightarrow> if int (length s) \<le> m
       then detokenize v tokens m rs unparse = Inr (int (length (cleaned v s)), cleaned v s)
       else \<exists>part. detokenize v tokens m rs unparse = Inr (- int (length s), part)"
proof -
  let ?strip = "rs \<and> v_add_bos v \<and> tokens \<noteq> [] \<and> hd tokens = v_bos_id v"
  let ?st = "\<lparr>dt_avail = m, dt_total = 0, dt_text = [], dt_remove_space = blank_goes v rs tokens\<rparr>"
  have inv: "detok_inv m ?st" using assms(2) by (simp add: detok_inv_def)
  have b: "(if ?strip then False else v_add_space_prefix v) = blank_goes v rs tokens"
    by (auto simp: blank_goes_def)
  let ?fin = "\<lambda>st. if dt_total st > m then Inr (- dt_total st, dt_text st)
              else
               let (t3, total3) =
                     (if v_clean_spaces v then
                        let (t1, n1) = clean_marks (dt_text st) (nat (dt_total st));
                            (t2, n2) = clean_quotes t1 n1
                        in clean_contractions t2 n2
                      else (dt_text st, nat (dt_total st)))
               in Inr (if int total3 \<le> m then int total3 else - int total3, take total3 t3) :: (int \<times> 8 word list) res"
  have eq: "detokenize v tokens m rs unparse
      = rbind (rfold (detok_token v unparse) (inner_tokens v rs tokens) ?st) ?fin"
    using assms(1) b by (simp add: detokenize_def inner_tokens_def Let_def)
  show ?thesis
  proof (cases "detok_text v unparse (blank_goes v rs tokens) (inner_tokens v rs tokens)")
    case (Inl e)
    then show ?thesis using detok_fold[OF inv, of v unparse "inner_tokens v rs tokens"] eq by simp
  next
    case (Inr s)
    then obtain st where st: "rfold (detok_token v unparse) (inner_tokens v rs tokens) ?st = Inr st"
      "dt_total st = int (length s)" "dt_total st \<le> m \<longrightarrow> dt_text st = s"
      using detok_fold[OF inv, of v unparse "inner_tokens v rs tokens"] by auto
    have r: "detokenize v tokens m rs unparse = ?fin st" using eq st(1) by simp
    show ?thesis
    proof (cases "int (length s) \<le> m")
      case False
      then show ?thesis using Inr r st(2) by auto
    next
      case True
      have "?fin st = Inr (int (length (cleaned v s)), cleaned v s)"
      proof (cases "v_clean_spaces v")
        case False
        then show ?thesis using True st by (simp add: cleaned_def)
      next
        case clean: True
        from clean_passes[of s] obtain t' n where t': "(let (t1, n1) = clean_marks s (length s);
            (t2, n2) = clean_quotes t1 n1 in clean_contractions t2 n2) = (t', n)" "n \<le> length s"
          "length t' = length s" "take n t' = clean_text s" by blast
        then have "length (clean_text s) = n" by (metis length_take min.absorb2)
        then show ?thesis
          using True st clean t' by (simp add: cleaned_def)
      qed
      then show ?thesis using Inr r True by simp
    qed
  qed
qed

end
