(* ===== verification/VocabBpeText.thy ===== *)
theory VocabBpeText
  imports VocabBpeProps VocabPieceProps UnicodeTheorems
begin

text \<open>
  BPE on the byte alphabet: what the pieces of a word stand for, and the way back from tokens
  to the text.
\<close>

section \<open>Characters of an encoded text\<close>

lemma split_symbols_encoded:
  "unicode_cpts_to_utf8 cs = Inr t \<Longrightarrow>
    map (sym_string (p @ t)) (split_symbols (p @ t) (length p) i) = map (\<lambda>c. projr (unicode_cpt_to_utf8 c)) cs"
proof (induction cs arbitrary: p t i)
  case Nil
  then show ?case by (simp add: split_symbols.simps)
next
  case (Cons c cs)
  then obtain e r where e: "unicode_cpt_to_utf8 c = Inr e" "unicode_cpts_to_utf8 cs = Inr r" "t = e @ r" by auto
  have ne: "e \<noteq> []" using cpt_to_utf8_nonempty[OF e(1)] .
  then have "(p @ t) ! length p = hd e" using e(3) by (simp add: nth_append hd_conv_nth)
  then have n: "min (unicode_len_utf8 ((p @ t) ! length p)) (length (p @ t) - length p) = length e"
    using len_utf8_lead[OF e(1)] e(3) by simp
  have "length p < length (p @ t)" using ne e(3) by simp
  then have s: "split_symbols (p @ t) (length p) i =
      \<lparr>sym_prev = i - 1, sym_next = (if length p + length e = length (p @ t) then -1 else i + 1),
       sym_text = length p, sym_n = length e\<rparr> # split_symbols (p @ t) (length p + length e) (i + 1)"
    by (subst split_symbols.simps) (simp only: n Let_def if_True)
  have "map (sym_string ((p @ e) @ r)) (split_symbols ((p @ e) @ r) (length (p @ e)) (i + 1))
      = map (\<lambda>c. projr (unicode_cpt_to_utf8 c)) cs" by (rule Cons.IH[OF e(2)])
  moreover have "sym_string (p @ t) \<lparr>sym_prev = a, sym_next = b, sym_text = length p, sym_n = length e\<rparr> = e" for a b
    using e(3) by (simp add: sym_string_def)
  ultimately show ?case unfolding s using e(1,3) by simp
qed

lemma utf8_chars_cpts:
  "unicode_cpts_to_utf8 cs = Inr t \<Longrightarrow> utf8_chars t = map (\<lambda>c. projr (unicode_cpt_to_utf8 c)) cs"
  using split_symbols_encoded[of cs t "[]" 0] by (simp add: utf8_chars_def)

lemma utf8_chars_encoded:
  assumes "encode_bytes q = Inr w"
  shows "utf8_chars w = map (\<lambda>b. enc (byte_cpt (unat b))) q"
  using utf8_chars_cpts[OF encode_bytes_cpts[OF assms]] by (simp add: enc_def)

section \<open>Encoding and decoding bytes\<close>

lemma decode_cpts_encoded:
  "decode_cpts txt (map (\<lambda>b. of_nat (byte_cpt (unat b))) q) out = Inr (out @ q)"
proof (induction q arbitrary: out)
  case (Cons b q)
  have "unicode_utf8_to_byte (enc (byte_cpt (unat b))) = Inr b" by (simp add: utf8_to_byte_iff byte_to_utf8)
  then show ?case using Cons encodes[OF byte_cpt_less[OF byte_less[of b]]] by simp
qed simp

lemma decode_text_encoded: "encode_bytes q = Inr s \<Longrightarrow> llama_decode_text s = Inr q"
  using cpts_round_trip[OF encode_bytes_cpts[of q s]] by (simp add: llama_decode_text_def decode_cpts_encoded)

lemma encode_bytes_inj: "encode_bytes q = Inr s \<Longrightarrow> encode_bytes r = Inr s \<Longrightarrow> q = r"
  using decode_text_encoded[of q s] decode_text_encoded[of r s] by simp

lemma encode_bytes_concat:
  "list_all2 (\<lambda>q p. encode_bytes q = Inr p) qs ps \<Longrightarrow> encode_bytes (concat qs) = Inr (concat ps)"
  by (induction qs ps rule: list_all2_induct) (auto simp: encode_bytes_append)

lemma encoded_no_breaks: "encode_bytes q = Inr w \<Longrightarrow> no_breaks w"
proof (induction q arbitrary: w)
  case (Cons b q)
  then show ?case using byte_alphabet_breaks[OF byte_less[of b]]
    by (fastforce simp: no_breaks_def byte_to_utf8)
qed (simp add: no_breaks_def)

text \<open>Every piece of an encoded word encodes some bytes.\<close>

lemma chars_encode:
  assumes "encode_bytes q = Inr w" "p \<in> concat ` lists (set (utf8_chars w))"
  shows "\<exists>r. encode_bytes r = Inr p"
proof -
  from assms(2) obtain cs where cs: "set cs \<subseteq> set (utf8_chars w)" "p = concat cs" by auto
  have "\<exists>r. encode_bytes r = Inr (concat cs)"
    using cs(1)
  proof (induction cs)
    case (Cons c cs)
    then obtain r where r: "encode_bytes r = Inr (concat cs)" by auto
    have "c \<in> (\<lambda>b. enc (byte_cpt (unat b))) ` set q"
      using Cons.prems by (simp add: utf8_chars_encoded[OF assms(1)])
    then obtain b :: "8 word" where "c = enc (byte_cpt (unat b))" by blast
    with r have "encode_bytes (b # r) = Inr (concat (c # cs))" by (simp add: byte_to_utf8)
    then show ?case by blast
  qed (auto intro: exI[of _ "[]"])
  then show ?thesis using cs(2) by simp
qed

lemma word_cut_encodes:
  assumes "encode_bytes q = Inr w" "word_cut v w ps"
  shows "\<exists>qs. list_all2 (\<lambda>r p. encode_bytes r = Inr p) qs ps \<and> concat qs = q"
proof -
  have "\<forall>p \<in> set ps. \<exists>r. encode_bytes r = Inr p"
    using assms(2) chars_encode[OF assms(1)] assms(1) unfolding word_cut_def piece_ok_def
    by (elim conjE disjE) auto
  then have "\<exists>qs. list_all2 (\<lambda>r p. encode_bytes r = Inr p) qs ps"
    by (induction ps) (auto simp: list_all2_Cons2)
  then obtain qs where qs: "list_all2 (\<lambda>r p. encode_bytes r = Inr p) qs ps" by blast
  have "encode_bytes (concat qs) = Inr w"
    using encode_bytes_concat[OF qs] assms(2) by (simp add: word_cut_def)
  then have "concat qs = q" using encode_bytes_inj assms(1) by blast
  then show ?thesis using qs by blast
qed

section \<open>A vocabulary that is closed under merging\<close>

text \<open>A normal token with this text.\<close>

definition plain_token :: "'f llama_vocab \<Rightarrow> 8 word list \<Rightarrow> bool" where
  "plain_token v s \<longleftrightarrow> (case v_token_to_id v s of None \<Rightarrow> False
     | Some t \<Rightarrow> 0 \<le> t \<and> t < int (n_tokens v) \<and> td_text (v_id_to_token v ! nat t) = s
         \<and> td_attr (v_id_to_token v ! nat t) = ATTR_NORMAL)"

definition bpe_closed :: "'f llama_vocab \<Rightarrow> bool" where
  "bpe_closed v \<longleftrightarrow> (\<forall>b s. unicode_byte_to_utf8 b = Inr s \<longrightarrow> plain_token v s)
     \<and> (\<forall>a b. bpe_joins v a b \<longrightarrow> plain_token v (a @ b))"

text \<open>The cache of pieces is empty or was filled by \<open>token_to_piece_for_cache\<close>.\<close>

definition pieces_cached :: "'f llama_vocab \<Rightarrow> bool" where
  "pieces_cached v \<longleftrightarrow> v_cache_token_to_piece v = []
     \<or> length (v_cache_token_to_piece v) = n_tokens v
       \<and> (\<forall>i < n_tokens v. \<exists>capacity. token_to_piece_for_cache capacity (v\<lparr>v_cache_token_to_piece := []\<rparr>) (int i) True
            = Inr (v_cache_token_to_piece v ! i))"

lemma attr_bits [simp]:
  "ATTR_NORMAL AND attr_special = 0" "ATTR_NORMAL \<noteq> 0"
  "ATTR_NORMAL AND (attr_special OR ATTR_USER_DEFINED) = 0"
  by (simp_all add: ATTR_NORMAL_def attr_special_def ATTR_UNKNOWN_def ATTR_CONTROL_def ATTR_USER_DEFINED_def)

text \<open>The cache does not change a piece.\<close>

lemma piece_text_cached:
  assumes "pieces_cached v" "0 \<le> t" "t < int (n_tokens v)"
    "special \<or> td_attr (v_id_to_token v ! nat t) AND attr_special = 0"
    and ok: "piece_text (v\<lparr>v_cache_token_to_piece := []\<rparr>) t True = Inr s"
  shows "piece_text v t special = Inr s"
proof -
  let ?v = "v\<lparr>v_cache_token_to_piece := []\<rparr>"
  have at: "token_get_attr v t = Inr (td_attr (v_id_to_token v ! nat t))"
    using assms(2,3) ok by (auto simp: token_get_attr_def get_token_data_def vec_at_def n_tokens_def
        piece_text_def has_vocab_def guard_def split: if_splits)
  show ?thesis
  proof (cases "v_cache_token_to_piece v = []")
    case True
    then have "?v = v" by simp
    then show ?thesis using ok assms(4) at by (auto simp: piece_text_def)
  next
    case False
    then obtain capacity where "token_to_piece_for_cache capacity ?v t True = Inr (v_cache_token_to_piece v ! nat t)"
      and l: "length (v_cache_token_to_piece v) = n_tokens v"
      using assms(1,2,3) unfolding pieces_cached_def by (metis nat_0_le nat_less_iff)
    then have "v_cache_token_to_piece v ! nat t = s" using ok by (simp add: cached_piece)
    then show ?thesis using False at assms(2-4) l by (auto simp: piece_text_def vec_at_def)
  qed
qed

section \<open>There and back\<close>

lemma piece_plain:
  assumes "v_type v = LLAMA_VOCAB_TYPE_BPE" "pieces_cached v" "plain_token v s" "encode_bytes q = Inr s"
  shows "bpe_emits v s = [the (v_token_to_id v s)]" "piece_text v (the (v_token_to_id v s)) special = Inr q"
proof -
  from assms(3) obtain t where t: "v_token_to_id v s = Some t" "0 \<le> t" "t < int (n_tokens v)"
    "td_text (v_id_to_token v ! nat t) = s" "td_attr (v_id_to_token v ! nat t) = ATTR_NORMAL"
    by (auto simp: plain_token_def split: option.splits)
  then show "bpe_emits v s = [the (v_token_to_id v s)]"
    by (auto simp: bpe_emits_def bpe_emit_def)
  have "token_get_attr (v\<lparr>v_cache_token_to_piece := []\<rparr>) t = Inr ATTR_NORMAL"
    using t(2,3,5) assms(1) by (simp add: token_get_attr_def get_token_data_def has_vocab_def vec_at_def n_tokens_def)
  then have "piece_text (v\<lparr>v_cache_token_to_piece := []\<rparr>) t True = Inr q"
    using t(4) assms(1) decode_text_encoded[OF assms(4)] by (simp add: piece_text_def)
  from piece_text_cached[OF assms(2) t(2,3) _ this] t(1,5)
  show "piece_text v (the (v_token_to_id v s)) special = Inr q" by simp
qed

lemma word_cut_plain:
  assumes closed: "bpe_closed v" and q: "encode_bytes q = Inr w" and cut: "word_cut v w ps"
    and whole: "v_ignore_merges v \<Longrightarrow> v_token_to_id v w \<noteq> None \<Longrightarrow> plain_token v w"
  shows "\<forall>p \<in> set ps. plain_token v p"
proof
  fix p assume p: "p \<in> set ps"
  from cut consider "ps = [w]" "v_ignore_merges v" "v_token_to_id v w \<noteq> None"
    | "piece_ok (set (utf8_chars w)) (bpe_merged v) p" using p unfolding word_cut_def by blast
  then show "plain_token v p"
  proof cases
    case 1
    then show ?thesis using whole p by simp
  next
    case 2
    then consider "p \<in> set (utf8_chars w)" | "bpe_merged v p" unfolding piece_ok_def by blast
    then show ?thesis
    proof cases
      case 1
      then have "p \<in> (\<lambda>b. enc (byte_cpt (unat b))) ` set q" by (simp add: utf8_chars_encoded[OF q])
      then obtain b :: "8 word" where "p = enc (byte_cpt (unat b))" by blast
      then show ?thesis using closed by (simp add: bpe_closed_def byte_to_utf8)
    next
      case 2
      then show ?thesis using closed by (auto simp: bpe_closed_def bpe_merged_def)
    qed
  qed
qed

lemma detok_plain:
  assumes v: "v_type v = LLAMA_VOCAB_TYPE_BPE" "pieces_cached v"
  shows "list_all2 (\<lambda>q p. encode_bytes q = Inr p) qs ps \<Longrightarrow> \<forall>p \<in> set ps. plain_token v p \<Longrightarrow>
    detok_text v special False (concat (map (bpe_emits v) ps)) = Inr (concat qs)"
proof (induction qs ps rule: list_all2_induct)
  case (Cons q qs p ps)
  then show ?case using piece_plain[OF v, of p q] by simp
qed simp

lemma words_plain:
  assumes "bpe_closed v" "list_all2 (\<lambda>u w. encode_bytes u = Inr w) us ws" "list_all2 (word_cut v) ws pss"
    and "\<forall>w \<in> set ws. v_ignore_merges v \<longrightarrow> v_token_to_id v w \<noteq> None \<longrightarrow> plain_token v w"
  shows "\<exists>qs. list_all2 (\<lambda>q p. encode_bytes q = Inr p) qs (concat pss) \<and> concat qs = concat us
    \<and> (\<forall>p \<in> set (concat pss). plain_token v p)"
  using assms(2-4)
proof (induction ws arbitrary: us pss rule: list.induct)
  case (Cons w ws)
  from Cons.prems obtain u us' ps pss' where e: "us = u # us'" "pss = ps # pss'" "encode_bytes u = Inr w"
    "word_cut v w ps" "list_all2 (\<lambda>u w. encode_bytes u = Inr w) us' ws" "list_all2 (word_cut v) ws pss'"
    by (auto simp: list_all2_Cons1 list_all2_Cons2)
  from Cons.IH[OF e(5,6)] Cons.prems(3) obtain qs where qs:
    "list_all2 (\<lambda>q p. encode_bytes q = Inr p) qs (concat pss')" "concat qs = concat us'"
    "\<forall>p \<in> set (concat pss'). plain_token v p" by auto
  from word_cut_encodes[OF e(3,4)] obtain q1 where q1:
    "list_all2 (\<lambda>r p. encode_bytes r = Inr p) q1 ps" "concat q1 = u" by blast
  have "\<forall>p \<in> set ps. plain_token v p"
    by (rule word_cut_plain[OF assms(1) e(3,4)]) (use Cons.prems(3) in auto)
  with qs q1 e show ?case
    by (intro exI[of _ "q1 @ qs"]) (auto intro: list_all2_appendI)
qed simp

lemma split_no_breaks:
  assumes "regex_ok R" "unicode_regex_split D R txt exprs = Inr ws"
  shows "\<forall>w \<in> set ws. no_breaks w"
proof -
  from regex_split_words[OF assms] obtain us where "list_all2 (\<lambda>u w. encode_bytes u = Inr w) us ws" by blast
  then show ?thesis by (fastforce simp: list_all2_conv_all_nth in_set_conv_nth intro: encoded_no_breaks)
qed

lemma bpe_there_and_back:
  assumes pick: "\<And>q. q \<noteq> [] \<Longrightarrow> pick q < length q"
    and v: "v_type v = LLAMA_VOCAB_TYPE_BPE" "bpe_closed v" "pieces_cached v"
    and ws: "regex_ok R" "unicode_regex_split D R txt exprs = Inr ws"
      "\<forall>w \<in> set ws. v_ignore_merges v \<longrightarrow> v_token_to_id v w \<noteq> None \<longrightarrow> plain_token v w"
    and t: "unicode_cpts_to_utf8 cs = Inr txt"
  shows "\<exists>toks. bpe_tokenize pick D R v exprs txt out = Inr (out @ toks) \<and> detok_text v special False toks = Inr txt"
proof -
  from regex_split_words[OF ws(1,2)] obtain cpts us where us: "unicode_cpts_from_utf8 txt = Inr cpts"
    "unicode_cpts_to_utf8 cpts = Inr (concat us)" "list_all2 (\<lambda>u w. encode_bytes u = Inr w) us ws" by blast
  have c: "concat us = txt" using us(1,2) cpts_round_trip[OF t] t by simp
  from bpe_tokenize_words[OF pick _ ws(2) split_no_breaks[OF ws(1,2)], of v out] v(1) obtain pss where pss:
    "bpe_tokenize pick D R v exprs txt out = Inr (out @ concat (map (bpe_emits v) (concat pss)))"
    "list_all2 (word_cut v) ws pss" by auto
  from words_plain[OF v(2) us(3) pss(2) ws(3)] obtain qs where qs:
    "list_all2 (\<lambda>q p. encode_bytes q = Inr p) qs (concat pss)" "concat qs = concat us"
    "\<forall>p \<in> set (concat pss). plain_token v p" by blast
  from detok_plain[OF v(1,3) qs(1,3)] pss(1) qs(2) c show ?thesis by auto
qed

end
