(* ===== verification/VocabSpm.thy ===== *)
theory VocabSpm
  imports VocabMerge
begin

text \<open>
  The SPM session of llama-vocab.cpp (\<open>llm_tokenizer_spm_session\<close>): byte-level merging of UTF-8
  characters by token score, with the byte fallback of \<open>resegment\<close>.
\<close>

record 'f llm_bigram_spm =
  bs_left :: int
  bs_right :: int
  bs_score :: 'f
  bs_size :: nat

definition spm_less :: "'f::linorder llm_bigram_spm \<Rightarrow> 'f llm_bigram_spm \<Rightarrow> bool" where
  "spm_less l r \<longleftrightarrow> bs_score l < bs_score r \<or> (bs_score l = bs_score r \<and> bs_left l > bs_left r)"

text \<open>The session: the symbols, the work queue and the map \<open>rev_merge\<close>.\<close>

record 'f spm_session = "'f llm_bigram_spm merging" +
  rev_merge :: "8 word list \<rightharpoonup> int \<times> int"

definition spm_try_add_bigram ::
    "'f llama_vocab \<Rightarrow> int \<Rightarrow> int \<Rightarrow> 'f spm_session \<Rightarrow> 'f spm_session res" where
  "spm_try_add_bigram v left right st =
     (if left = -1 \<or> right = -1 then Inr st
      else
       rbind (sym_of st left) (\<lambda>l.
       rbind (sym_of st right) (\<lambda>r.
       rbind (guard (sym_text l + (sym_n l + sym_n r) \<le> length (m_text st)) Out_of_bounds) (\<lambda>_.
       let piece = take (sym_n l + sym_n r) (drop (sym_text l) (m_text st)) in
       rbind (text_to_token v piece) (\<lambda>token.
         if token = LLAMA_TOKEN_NULL then Inr st
         else if \<not> (0 \<le> token \<and> token < int (n_tokens v)) then Inr st
         else
          rbind (get_token_data v token) (\<lambda>tok_data.
            Inr (st\<lparr>m_queue := m_queue st @ [\<lparr>bs_left = left, bs_right = right,
                       bs_score = td_score tok_data, bs_size = length piece\<rparr>],
                    rev_merge := (rev_merge st)(piece \<mapsto> (left, right))\<rparr>)))))))"

definition spm_fresh :: "8 word list \<Rightarrow> llm_symbol \<Rightarrow> llm_symbol \<Rightarrow> 'f llm_bigram_spm \<Rightarrow> bool" where
  "spm_fresh txt l r b \<longleftrightarrow> sym_n l + sym_n r = bs_size b"

abbreviation spm_merge_one ::
    "'f llama_vocab \<Rightarrow> 'f llm_bigram_spm \<Rightarrow> 'f spm_session \<Rightarrow> 'f spm_session res" where
  "spm_merge_one v \<equiv> merge_one bs_left bs_right spm_fresh (spm_try_add_bigram v)"

text \<open>Symbols that did not form a token are put out as bytes.\<close>

fun bytes_to_tokens :: "'f llama_vocab \<Rightarrow> 8 word list \<Rightarrow> llama_token list res" where
  "bytes_to_tokens v [] = Inr []"
| "bytes_to_tokens v (b # bs) =
     rbind (byte_to_token v b) (\<lambda>t. rbind (bytes_to_tokens v bs) (\<lambda>ts. Inr (t # ts)))"

text \<open>\<open>resegment\<close>, with the depth of its recursion bounded.\<close>

fun spm_resegment :: "'f llama_vocab \<Rightarrow> 'f spm_session \<Rightarrow> nat \<Rightarrow> llm_symbol \<Rightarrow> llama_token list res" where
  "spm_resegment v st 0 s = Inl Out_of_fuel"
| "spm_resegment v st (Suc fuel) s =
     (let piece = sym_string (m_text st) s in
      rbind (text_to_token v piece) (\<lambda>token.
        if token \<noteq> LLAMA_TOKEN_NULL then Inr [token]
        else case rev_merge st piece of
          None \<Rightarrow> bytes_to_tokens v piece
        | Some (first, second) \<Rightarrow>
            rbind (sym_of st first) (\<lambda>a. rbind (spm_resegment v st fuel a) (\<lambda>xs.
            rbind (sym_of st second) (\<lambda>b. rbind (spm_resegment v st fuel b) (\<lambda>ys. Inr (xs @ ys)))))))"

text \<open>The output loop, \<open>for (int i = 0; i != -1; i = symbols[i].next)\<close>.\<close>

fun spm_output :: "'f llama_vocab \<Rightarrow> 'f spm_session \<Rightarrow> nat \<Rightarrow> int \<Rightarrow> llama_token list \<Rightarrow> llama_token list res" where
  "spm_output v st 0 i output = (if i = -1 then Inr output else Inl Out_of_fuel)"
| "spm_output v st (Suc fuel) i output =
     (if i = -1 then Inr output
      else rbind (sym_of st i) (\<lambda>s.
        rbind (spm_resegment v st (Suc (length (m_symbols st))) s) (\<lambda>ts.
          spm_output v st fuel (sym_next s) (output @ ts))))"

definition spm_tokenize ::
    "('f llm_bigram_spm list \<Rightarrow> nat) \<Rightarrow> 'f llama_vocab \<Rightarrow> 8 word list \<Rightarrow> llama_token list
      \<Rightarrow> llama_token list res" where
  "spm_tokenize pick v txt output =
     (let st = \<lparr>m_text = txt, m_symbols = split_symbols txt 0 0, m_queue = [], rev_merge = Map.empty\<rparr> in
      rbind (seed_queue (spm_try_add_bigram v) st) (\<lambda>st.
      rbind (merge_loop pick (spm_merge_one v) (queue_bound st) st) (\<lambda>st.
        spm_output v st (Suc (length (m_symbols st))) 0 output)))"

end
