(* ===== verification/VocabSpmProps.thy ===== *)
theory VocabSpmProps
  imports VocabSpm VocabGreedy
begin

text \<open>
  The SPM session as an instance of \<open>merger\<close>, and what it puts out for the pieces it ends with.
\<close>

text \<open>Two texts join when together they are the text of a token of the vocabulary.\<close>

definition spm_token :: "'f llama_vocab \<Rightarrow> 8 word list \<Rightarrow> bool" where
  "spm_token v s \<longleftrightarrow> (case v_token_to_id v s of None \<Rightarrow> False | Some t \<Rightarrow> 0 \<le> t \<and> t < int (n_tokens v))"

definition spm_joins :: "'f llama_vocab \<Rightarrow> 8 word list \<Rightarrow> 8 word list \<Rightarrow> bool" where
  "spm_joins v a b \<longleftrightarrow> spm_token v (a @ b)"

text \<open>The priority of a pair is the score of the token it makes.\<close>

definition spm_val :: "'f llama_vocab \<Rightarrow> 8 word list \<Rightarrow> 8 word list \<Rightarrow> 'f option" where
  "spm_val v a b = (case v_token_to_id v (a @ b) of None \<Rightarrow> None
     | Some t \<Rightarrow> if 0 \<le> t \<and> t < int (n_tokens v) then Some (td_score (v_id_to_token v ! nat t)) else None)"

lemma spm_val_joins: "spm_val v a b \<noteq> None \<longleftrightarrow> spm_joins v a b"
  by (simp add: spm_val_def spm_joins_def spm_token_def split: option.split)

definition spm_made :: "'f llama_vocab \<Rightarrow> 8 word list \<Rightarrow> llm_symbol \<Rightarrow> llm_symbol \<Rightarrow> 'f llm_bigram_spm \<Rightarrow> bool" where
  "spm_made v s L R b \<longleftrightarrow> bs_size b = sym_n L + sym_n R
     \<and> spm_val v (sym_string s L) (sym_string s R) = Some (bs_score b)"

lemma spm_made_token: "spm_made v s L R b \<Longrightarrow> spm_token v (sym_string s L @ sym_string s R)"
  using spm_val_joins[of v "sym_string s L" "sym_string s R"] by (simp add: spm_made_def spm_joins_def)

text \<open>\<open>rev_merge\<close> holds texts of tokens only.\<close>

definition spm_inv :: "'f llama_vocab \<Rightarrow> 'f spm_session \<Rightarrow> bool" where
  "spm_inv v st \<longleftrightarrow> (\<forall>s \<in> dom (rev_merge st). spm_token v s)"

lemma strings_join: "sym_text r = sym_text l + sym_n l \<Longrightarrow>
    take (sym_n l + sym_n r) (drop (sym_text l) t) = sym_string t l @ sym_string t r"
  by (simp add: sym_string_def take_add add.commute)

lemma spm_add_pair:
  assumes "v_type v \<noteq> LLAMA_VOCAB_TYPE_NONE" "spm_inv v st"
    and ij: "i < length (m_symbols st)" "j < length (m_symbols st)"
    and LR: "L = m_symbols st ! i" "R = m_symbols st ! j"
    and adj: "sym_text R = sym_text L + sym_n L" "sym_text R + sym_n R \<le> length (m_text st)"
  shows "\<exists>st'. spm_try_add_bigram v (int i) (int j) st = Inr st' \<and> spm_inv v st' \<and> m_text st' = m_text st
      \<and> m_symbols st' = m_symbols st
      \<and> (m_queue st' = m_queue st \<and> \<not> spm_joins v (sym_string (m_text st) L) (sym_string (m_text st) R)
         \<or> (\<exists>b. m_queue st' = m_queue st @ [b] \<and> bs_left b = int i \<and> bs_right b = int j
              \<and> spm_fresh (m_text st) L R b \<and> spm_made v (m_text st) L R b))"
proof -
  let ?p = "sym_string (m_text st) L @ sym_string (m_text st) R"
  have p: "take (sym_n L + sym_n R) (drop (sym_text L) (m_text st)) = ?p" using strings_join[OF adj(1)] .
  have len: "length ?p = sym_n L + sym_n R" using adj by (simp add: sym_string_def)
  have red: "spm_try_add_bigram v (int i) (int j) st =
      (case v_token_to_id v ?p of None \<Rightarrow> Inr st
       | Some t \<Rightarrow> if 0 \<le> t \<and> t < int (n_tokens v) then
           Inr (st\<lparr>m_queue := m_queue st @ [\<lparr>bs_left = int i, bs_right = int j,
                     bs_score = td_score (v_id_to_token v ! nat t), bs_size = length ?p\<rparr>],
                   rev_merge := (rev_merge st)(?p \<mapsto> (int i, int j))\<rparr>) else Inr st)"
    using assms(1) ij adj unfolding spm_try_add_bigram_def
    by (auto simp: sym_of_def vec_get_def LR[symmetric] p text_to_token_def has_vocab_def Let_def
        get_token_data_def vec_at_def n_tokens_def split: option.split)
  show ?thesis
  proof (cases "spm_token v ?p")
    case False
    then have "spm_try_add_bigram v (int i) (int j) st = Inr st"
      unfolding red by (auto simp: spm_token_def split: option.splits)
    then show ?thesis using False assms(2) by (auto simp: spm_joins_def)
  next
    case True
    then obtain t where "v_token_to_id v ?p = Some t" "0 \<le> t" "t < int (n_tokens v)"
      by (auto simp: spm_token_def split: option.splits)
    then show ?thesis
      unfolding red using True assms(2) len by (auto simp: spm_inv_def spm_fresh_def spm_made_def spm_val_def)
  qed
qed

interpretation spm: merger bs_left bs_right spm_fresh "spm_try_add_bigram v"
    "\<lambda>_. v_type v \<noteq> LLAMA_VOCAB_TYPE_NONE" "spm_joins v" "spm_made v" "spm_token v" "spm_inv v"
  for v :: "'f::linorder llama_vocab"
proof (unfold_locales, goal_cases)
  case (2 st i j L R)
  then show ?case by (intro spm_add_pair)
next
  case (4 L' L R' R s b)
  then show ?case by (simp add: spm_made_def sym_string_def)
qed (simp_all add: spm_try_add_bigram_def spm_fresh_def spm_inv_def spm_made_token, simp add: spm_made_def)

lemma spm_less_iff: "\<not> spm_less x b \<longleftrightarrow> not_behind bs_left bs_score x b"
  by (auto simp: spm_less_def not_behind_def)

lemma spm_picks_top: "picks_top spm_less pick \<longleftrightarrow> picks_best bs_left bs_score pick"
  by (simp add: picks_top_def picks_best_def spm_less_iff)

interpretation spm_greedy: greedy_merger bs_left bs_right spm_fresh "spm_try_add_bigram v"
    "\<lambda>_. v_type v \<noteq> LLAMA_VOCAB_TYPE_NONE" "spm_joins v" "spm_made v" "spm_token v" "spm_inv v" "spm_val v" bs_score
  for v :: "'f::linorder llama_vocab"
  by unfold_locales (simp_all add: spm_made_def flip: spm_val_joins)

section \<open>The output\<close>

text \<open>The tokens of one final piece: its own token, or the tokens of its bytes.\<close>

definition spm_emit :: "'f llama_vocab \<Rightarrow> 8 word list \<Rightarrow> llama_token list res" where
  "spm_emit v piece = rbind (text_to_token v piece)
     (\<lambda>t. if t \<noteq> LLAMA_TOKEN_NULL then Inr [t] else bytes_to_tokens v piece)"

fun emit_all :: "('p \<Rightarrow> llama_token list res) \<Rightarrow> 'p list \<Rightarrow> llama_token list res" where
  "emit_all f [] = Inr []"
| "emit_all f (p # ps) = rbind (f p) (\<lambda>xs. rbind (emit_all f ps) (\<lambda>ys. Inr (xs @ ys)))"

text \<open>
  A text that is in \<open>rev_merge\<close> is the text of a token, so the recursive branch of
  \<open>resegment\<close> is never taken.
\<close>

lemma resegment_emits:
  assumes "v_type v \<noteq> LLAMA_VOCAB_TYPE_NONE" "spm_inv v st"
  shows "spm_resegment v st (Suc fuel) s = spm_emit v (sym_string (m_text st) s)"
proof (cases "rev_merge st (sym_string (m_text st) s)")
  case None
  then show ?thesis
    by (cases "text_to_token v (sym_string (m_text st) s)") (auto simp: spm_emit_def Let_def)
next
  case (Some p)
  then have "spm_token v (sym_string (m_text st) s)" using assms(2) by (auto simp: spm_inv_def)
  then have "\<exists>t. text_to_token v (sym_string (m_text st) s) = Inr t \<and> t \<noteq> LLAMA_TOKEN_NULL"
    using assms(1) by (auto simp: spm_token_def text_to_token_def has_vocab_def split: option.splits)
  then show ?thesis by (auto simp: spm_emit_def Let_def)
qed

lemma output_links:
  assumes v: "v_type v \<noteq> LLAMA_VOCAB_TYPE_NONE" "spm_inv v st"
  shows "links (m_symbols st) p off is fin \<Longrightarrow> length is \<le> fuel \<Longrightarrow>
    spm_output v st fuel (case is of [] \<Rightarrow> -1 | i # _ \<Rightarrow> int i) out
      = rbind (emit_all (spm_emit v) (pieces (m_text st) (m_symbols st) is)) (\<lambda>ts. Inr (out @ ts))"
proof (induction "is" arbitrary: p off fuel out)
  case Nil
  then show ?case by (cases fuel) (simp_all add: pieces_def)
next
  case (Cons i "is")
  then obtain f where f: "fuel = Suc f" by (cases fuel) auto
  have i: "i < length (m_symbols st)" "sym_next (m_symbols st ! i) = (case is of [] \<Rightarrow> -1 | j # _ \<Rightarrow> int j)"
    and l: "links (m_symbols st) (int i) (off + sym_n (m_symbols st ! i)) is fin" using Cons.prems(1) by auto
  let ?e = "spm_emit v (sym_string (m_text st) (m_symbols st ! i))"
  have "spm_output v st fuel (int i) out = rbind ?e
      (\<lambda>ts. spm_output v st f (case is of [] \<Rightarrow> -1 | j # _ \<Rightarrow> int j) (out @ ts))"
    using i f resegment_emits[OF v] by (simp add: sym_of_def vec_get_def del: spm_resegment.simps)
  also have "\<dots> = rbind ?e (\<lambda>xs. rbind (emit_all (spm_emit v) (pieces (m_text st) (m_symbols st) is))
      (\<lambda>ts. Inr (out @ xs @ ts)))"
    using Cons.IH[OF l] Cons.prems(2) f by simp
  finally show ?case by (simp add: pieces_def rbind_assoc)
qed

text \<open>The pieces the merge loop ends with, and the tokens put out for them.\<close>

lemma spm_tokenize_chain:
  assumes v: "v_type v \<noteq> LLAMA_VOCAB_TYPE_NONE"
    and r: "seed_queue (spm_try_add_bigram v)
      \<lparr>m_text = txt, m_symbols = split_symbols txt 0 0, m_queue = [], rev_merge = Map.empty\<rparr> = Inr st1"
      "merge_loop pick (spm_merge_one v) (queue_bound st1) st1 = Inr st2"
    and J: "spm_inv v st2" "m_text st2 = txt" and c: "chain_ok txt (m_symbols st2) is"
  shows "spm_tokenize pick v txt out
    = rbind (emit_all (spm_emit v) (pieces txt (m_symbols st2) is)) (\<lambda>ts. Inr (out @ ts))"
proof -
  have l: "links (m_symbols st2) (-1) 0 is (length txt)" using c by (simp add: chain_ok_def)
  have "(case is of [] \<Rightarrow> -1 | i # _ \<Rightarrow> int i) = 0" using c by (cases "is") (auto simp: chain_ok_def)
  then show ?thesis
    using output_links[OF v J(1) l le_SucI[OF chain_facts(2)[OF c]], of out] r J(2)
    by (simp add: spm_tokenize_def del: spm_output.simps)
qed

lemma spm_tokenize_pieces:
  fixes v :: "'f::linorder llama_vocab"
  assumes v: "v_type v \<noteq> LLAMA_VOCAB_TYPE_NONE" and pick: "\<And>q. q \<noteq> [] \<Longrightarrow> pick q < length q"
    and ne: "txt \<noteq> []"
  shows "\<exists>ps. spm_tokenize pick v txt out = rbind (emit_all (spm_emit v) ps) (\<lambda>ts. Inr (out @ ts))
    \<and> concat ps = txt \<and> [] \<notin> set ps
    \<and> (\<forall>p \<in> set ps. piece_ok (set (utf8_chars txt)) (spm_token v) p)
    \<and> (\<forall>i. Suc i < length ps \<longrightarrow> \<not> spm_token v (ps ! i @ ps ! Suc i))"
proof -
  let ?st = "\<lparr>m_text = txt, m_symbols = split_symbols txt 0 0, m_queue = [], rev_merge = Map.empty\<rparr>"
  have "spm_inv v ?st" by (simp add: spm_inv_def)
  from spm.session_total[OF pick v this _ _ _ ne] obtain st1 st2 "is" where
    r: "seed_queue (spm_try_add_bigram v) ?st = Inr st1" "merge_loop pick (spm_merge_one v) (queue_bound st1) st1 = Inr st2"
    and J: "spm_inv v st2" "m_text st2 = txt" and c: "chain_ok txt (m_symbols st2) is"
    and P: "\<forall>p \<in> set (pieces txt (m_symbols st2) is). piece_ok (set (utf8_chars txt)) (spm_token v) p"
    and irr: "\<forall>k. Suc k < length is \<longrightarrow>
      \<not> spm_joins v (pieces txt (m_symbols st2) is ! k) (pieces txt (m_symbols st2) is ! Suc k)"
    by auto
  show ?thesis
    using spm_tokenize_chain[OF v r J c] chain_text[OF c] chain_facts(1)[OF c] P irr
    by (intro exI[of _ "pieces txt (m_symbols st2) is"]) (simp add: spm_joins_def pieces_def)
qed

text \<open>With a queue that picks the best bigram the pieces are those of the reference.\<close>

lemma spm_tokenize_greedy:
  fixes v :: "'f::linorder llama_vocab"
  assumes v: "v_type v \<noteq> LLAMA_VOCAB_TYPE_NONE" and pick: "picks_top spm_less pick" and ne: "txt \<noteq> []"
  shows "spm_tokenize pick v txt out
    = rbind (emit_all (spm_emit v) (greedy (spm_val v) (utf8_chars txt))) (\<lambda>ts. Inr (out @ ts))"
proof -
  let ?st = "\<lparr>m_text = txt, m_symbols = split_symbols txt 0 0, m_queue = [], rev_merge = Map.empty\<rparr>"
  have "spm_inv v ?st" by (simp add: spm_inv_def)
  from spm_greedy.session_greedy[OF pick[unfolded spm_picks_top] v this _ _ _ ne] obtain st1 st2 "is" where
    "seed_queue (spm_try_add_bigram v) ?st = Inr st1" "merge_loop pick (spm_merge_one v) (queue_bound st1) st1 = Inr st2"
    "spm_inv v st2" "m_text st2 = txt" "chain_ok txt (m_symbols st2) is"
    "pieces txt (m_symbols st2) is = greedy (spm_val v) (utf8_chars txt)" by auto
  then show ?thesis using spm_tokenize_chain[OF v] by metis
qed

end
