(* ===== verification/VocabTrie.thy ===== *)
theory VocabTrie
  imports VocabPiece
begin

text \<open>
  \<open>struct naive_trie\<close> of llama-vocab.cpp and the RWKV tokenizer built on it: the vocabulary is
  unescaped into a trie and the text is cut by the longest match.
\<close>

section \<open>The trie\<close>

datatype naive_trie =
  Naive_trie (children: "8 word \<rightharpoonup> naive_trie") (has_value: bool) (trie_value: llama_token)

definition empty_trie :: naive_trie where
  "empty_trie = Naive_trie Map.empty False 0"

fun trie_insert :: "8 word list \<Rightarrow> llama_token \<Rightarrow> naive_trie \<Rightarrow> naive_trie" where
  "trie_insert [] val t = Naive_trie (children t) True val"
| "trie_insert (c # key) val t =
     Naive_trie ((children t)(c \<mapsto>
         (case children t c of Some u \<Rightarrow> trie_insert key val u | None \<Rightarrow> trie_insert key val empty_trie)))
       (has_value t) (trie_value t)"

text \<open>\<open>get_longest_prefix\<close> on the key behind \<open>offset\<close>; it returns the offset it got to.\<close>

fun get_longest_prefix :: "naive_trie \<Rightarrow> 8 word list \<Rightarrow> nat \<Rightarrow> nat" where
  "get_longest_prefix t [] offset = offset"
| "get_longest_prefix t (c # key) offset =
     (case children t c of Some u \<Rightarrow> get_longest_prefix u key (offset + 1) | None \<Rightarrow> offset)"

definition traverse :: "naive_trie \<Rightarrow> 8 word \<Rightarrow> naive_trie option" where
  "traverse t c = children t c"

section \<open>The RWKV tokenizer\<close>

text \<open>The constructor's loop over the token ids.\<close>

definition llm_tokenizer_rwkv :: "'f llama_vocab \<Rightarrow> naive_trie res" where
  "llm_tokenizer_rwkv v =
     rfold (\<lambda>i t. rbind (get_token_data v (int i)) (\<lambda>data.
              Inr (trie_insert (llama_unescape_rwkv_token (td_text data)) (int i) t)))
       [0..<n_tokens v] empty_trie"

text \<open>\<open>std::string::operator[]\<close>: NUL at the end, undefined behind it.\<close>

definition str_get :: "8 word list \<Rightarrow> nat \<Rightarrow> 8 word res" where
  "str_get s i = (if i < length s then Inr (s ! i) else if i = length s then Inr 0 else Inl Out_of_bounds)"

text \<open>The inner loop, from a node reached with the character at \<open>position\<close>.\<close>

function rwkv_longest :: "8 word list \<Rightarrow> naive_trie option \<Rightarrow> nat \<Rightarrow> llama_token \<Rightarrow> nat \<Rightarrow> (llama_token \<times> nat) res" where
  "rwkv_longest txt node position token_id token_length =
     (case node of
        None \<Rightarrow> Inr (token_id, token_length)
      | Some nd \<Rightarrow>
          let (tid, tlen) = (if has_value nd then (trie_value nd, position + 1) else (token_id, token_length)) in
          rbind (str_get txt (position + 1)) (\<lambda>c. rwkv_longest txt (traverse nd c) (position + 1) tid tlen))"
  by pat_completeness auto
termination
  by (relation "measure (\<lambda>(txt, _, position, _). Suc (length txt) - position)")
     (auto simp: str_get_def split: if_splits)

declare rwkv_longest.simps [simp del]

text \<open>
  The outer loop, one unit of fuel a round; \<open>position = token_length\<close> need not go forward
  (\<open>rwkv_never_returns\<close> in VocabTheorems).
\<close>

fun rwkv_tokenize :: "'f llama_vocab \<Rightarrow> naive_trie \<Rightarrow> nat \<Rightarrow> 8 word list \<Rightarrow> nat \<Rightarrow> llama_token list \<Rightarrow> llama_token list res" where
  "rwkv_tokenize v t fuel txt position output =
     (if position < length txt then
        (case fuel of
           0 \<Rightarrow> Inl Out_of_fuel
         | Suc fuel \<Rightarrow>
            (case traverse t (txt ! position) of
               None \<Rightarrow> rwkv_tokenize v t fuel txt (position + 1) (output @ [v_unk_id v])
             | Some node \<Rightarrow>
                 rbind (rwkv_longest txt (Some node) position 0 0) (\<lambda>(token_id, token_length).
                   rwkv_tokenize v t fuel txt token_length (output @ [token_id]))))
      else Inr output)"

declare rwkv_tokenize.simps [simp del]

end
