(* ===== verification/VocabTrieProps.thy ===== *)
theory VocabTrieProps
  imports VocabTrie "HOL-Library.Sublist"
begin

text \<open>
  The trie as a dictionary with prefixes (locale \<open>prefix_dictionary\<close>), and the RWKV tokenizer
  against the longest match.
\<close>

section \<open>A dictionary that knows its prefixes\<close>

locale prefix_dictionary =
  fixes emp :: 't
    and ins :: "'c list \<Rightarrow> 'v \<Rightarrow> 't \<Rightarrow> 't"
    and look :: "'t \<Rightarrow> 'c list \<Rightarrow> 'v option"
    and reaches :: "'t \<Rightarrow> 'c list \<Rightarrow> bool"
  assumes look_emp: "look emp k = None"
    and look_ins: "look (ins k v t) = (look t)(k \<mapsto> v)"
    and reaches_emp: "reaches emp s \<longleftrightarrow> s = []"
    and reaches_ins: "reaches (ins k v t) s \<longleftrightarrow> reaches t s \<or> prefix s k"
begin

definition build :: "('c list \<times> 'v) list \<Rightarrow> 't" where
  "build kvs = fold (\<lambda>(k, v). ins k v) kvs emp"

lemma build_snoc: "build (kvs @ [(k, v)]) = ins k v (build kvs)"
  by (simp add: build_def)

lemma look_build: "look (build kvs) = map_of (rev kvs)"
proof (induction kvs rule: rev_induct)
  case (snoc kv kvs)
  then show ?case by (cases kv) (simp add: build_snoc look_ins)
qed (simp add: build_def look_emp fun_eq_iff)

lemma reaches_build: "reaches (build kvs) s \<longleftrightarrow> s = [] \<or> (\<exists>k \<in> fst ` set kvs. prefix s k)"
proof (induction kvs rule: rev_induct)
  case (snoc kv kvs)
  then show ?case by (cases kv) (auto simp: build_snoc reaches_ins)
qed (simp add: build_def reaches_emp)

lemma reaches_look: "look (build kvs) (s @ u) \<noteq> None \<Longrightarrow> reaches (build kvs) s"
proof -
  assume "look (build kvs) (s @ u) \<noteq> None"
  then have "s @ u \<in> fst ` set kvs" by (simp add: look_build map_of_eq_None_iff)
  then show ?thesis unfolding reaches_build by (intro disjI2 bexI[of _ "s @ u"]) simp_all
qed

end

section \<open>The naive trie is one\<close>

fun trie_node :: "naive_trie \<Rightarrow> 8 word list \<Rightarrow> naive_trie option" where
  "trie_node t [] = Some t"
| "trie_node t (c # s) = (case children t c of None \<Rightarrow> None | Some u \<Rightarrow> trie_node u s)"

definition node_value :: "naive_trie \<Rightarrow> llama_token option" where
  "node_value t = (if has_value t then Some (trie_value t) else None)"

definition trie_look :: "naive_trie \<Rightarrow> 8 word list \<Rightarrow> llama_token option" where
  "trie_look t s = (case trie_node t s of None \<Rightarrow> None | Some u \<Rightarrow> node_value u)"

definition trie_reaches :: "naive_trie \<Rightarrow> 8 word list \<Rightarrow> bool" where
  "trie_reaches t s \<longleftrightarrow> trie_node t s \<noteq> None"

lemma trie_look_Nil: "trie_look t [] = node_value t"
  by (simp add: trie_look_def)

lemma trie_look_Cons: "trie_look t (c # s) = (case children t c of None \<Rightarrow> None | Some u \<Rightarrow> trie_look u s)"
  by (simp add: trie_look_def split: option.split)

lemma trie_reaches_Cons:
  "trie_reaches t [] \<longleftrightarrow> True"
  "trie_reaches t (c # s) \<longleftrightarrow> (case children t c of None \<Rightarrow> False | Some u \<Rightarrow> trie_reaches u s)"
  by (simp_all add: trie_reaches_def split: option.split)

lemma look_empty_trie: "trie_look empty_trie s = None"
  by (cases s) (simp_all add: trie_look_def empty_trie_def node_value_def)

lemma look_trie_insert: "trie_look (trie_insert k v t) s = (if s = k then Some v else trie_look t s)"
proof (induction k v t arbitrary: s rule: trie_insert.induct)
  case (1 v t)
  then show ?case by (cases s) (simp_all add: trie_look_Nil trie_look_Cons node_value_def)
next
  case (2 c k v t)
  then show ?case
    by (cases s) (auto simp: trie_look_Nil trie_look_Cons node_value_def look_empty_trie split: option.splits)
qed

lemma reaches_empty_trie: "trie_reaches empty_trie s \<longleftrightarrow> s = []"
  by (cases s) (simp_all add: trie_reaches_Cons empty_trie_def)

lemma reaches_trie_insert: "trie_reaches (trie_insert k v t) s \<longleftrightarrow> trie_reaches t s \<or> prefix s k"
proof (induction k v t arbitrary: s rule: trie_insert.induct)
  case (1 v t)
  then show ?case by (cases s) (simp_all add: trie_reaches_Cons)
next
  case (2 c k v t)
  then show ?case
    by (cases s) (auto simp: trie_reaches_Cons reaches_empty_trie split: option.splits)
qed

interpretation trie: prefix_dictionary empty_trie trie_insert trie_look trie_reaches
  by unfold_locales
    (auto simp: look_empty_trie look_trie_insert reaches_empty_trie reaches_trie_insert)

text \<open>\<open>get_longest_prefix\<close> goes on as long as some key does: to the end of the longest prefix that is reached.\<close>

lemma get_longest_prefix_shift: "get_longest_prefix t s (n + m) = n + get_longest_prefix t s m"
  by (induction t s m rule: get_longest_prefix.induct) (auto simp: add.assoc split: option.split)

lemma get_longest_prefix_reaches:
  "k \<le> get_longest_prefix t s 0 \<longleftrightarrow> k \<le> length s \<and> trie_reaches t (take k s)"
proof (induction s arbitrary: t k)
  case (Cons c s)
  have "get_longest_prefix u s 1 = Suc (get_longest_prefix u s 0)" for u
    using get_longest_prefix_shift[of u s 1 0] by simp
  then show ?case using Cons.IH by (cases k) (auto simp: trie_reaches_Cons split: option.splits)
qed (auto simp: trie_reaches_Cons)

section \<open>The RWKV vocabulary in the trie\<close>

definition rwkv_texts :: "'f llama_vocab \<Rightarrow> (8 word list \<times> llama_token) list" where
  "rwkv_texts v = map (\<lambda>i. (llama_unescape_rwkv_token (td_text (v_id_to_token v ! i)), int i)) [0..<n_tokens v]"

text \<open>The token of a text: the last of several with the same text.\<close>

definition rwkv_dict :: "'f llama_vocab \<Rightarrow> 8 word list \<Rightarrow> llama_token option" where
  "rwkv_dict v = map_of (rev (rwkv_texts v))"

lemma rwkv_trie_is_built:
  assumes "v_type v \<noteq> LLAMA_VOCAB_TYPE_NONE"
  shows "llm_tokenizer_rwkv v = Inr (trie.build (rwkv_texts v))"
proof -
  have "rfold (\<lambda>i t. rbind (get_token_data v (int i)) (\<lambda>data.
          Inr (trie_insert (llama_unescape_rwkv_token (td_text data)) (int i) t))) ns t
      = Inr (fold (\<lambda>(k, x). trie_insert k x)
          (map (\<lambda>i. (llama_unescape_rwkv_token (td_text (v_id_to_token v ! i)), int i)) ns) t)"
    if "set ns \<subseteq> {0..<n_tokens v}" for ns t
    using that assms
    by (induction ns arbitrary: t) (auto simp: get_token_data_def has_vocab_def vec_at_def n_tokens_def)
  then show ?thesis by (simp add: llm_tokenizer_rwkv_def trie.build_def rwkv_texts_def)
qed

section \<open>The longest match\<close>

text \<open>The length of the longest prefix of \<open>s\<close>, perhaps the empty one, that \<open>M\<close> has.\<close>

definition longest :: "('c list \<Rightarrow> 'v option) \<Rightarrow> 'c list \<Rightarrow> nat option" where
  "longest M s = List.find (\<lambda>k. M (take k s) \<noteq> None) (rev [0..<Suc (length s)])"

lemma longest_Nil: "longest M [] = (if M [] = None then None else Some 0)"
  by (simp add: longest_def)

lemma find_append: "List.find P (xs @ ys) = (case List.find P xs of None \<Rightarrow> List.find P ys | Some x \<Rightarrow> Some x)"
  by (induction xs) simp_all

lemma find_map: "List.find P (map f xs) = map_option f (List.find (\<lambda>x. P (f x)) xs)"
  by (induction xs) simp_all

lemma longest_Cons:
  "longest M (c # s) = (case longest (\<lambda>u. M (c # u)) s of
     Some k \<Rightarrow> Some (Suc k) | None \<Rightarrow> if M [] = None then None else Some 0)"
proof -
  have "rev [0..<Suc (length (c # s))] = map Suc (rev [0..<Suc (length s)]) @ [0]"
    by (simp only: rev_map[symmetric] map_Suc_upt) (simp add: upt_conv_Cons del: upt_Suc)
  then have "longest M (c # s) = (case List.find (\<lambda>k. M (take k (c # s)) \<noteq> None) (map Suc (rev [0..<Suc (length s)])) of
      None \<Rightarrow> if M [] = None then None else Some 0 | Some x \<Rightarrow> Some x)"
    by (simp add: longest_def find_append del: upt_Suc split: option.split)
  then show ?thesis by (simp add: find_map longest_def option.case_eq_if del: upt_Suc)
qed

text \<open>The inner loop below a node.\<close>

fun deepest :: "naive_trie \<Rightarrow> 8 word list \<Rightarrow> nat \<Rightarrow> llama_token \<times> nat \<Rightarrow> llama_token \<times> nat" where
  "deepest t [] n acc = (if has_value t then (trie_value t, n) else acc)"
| "deepest t (c # s) n acc =
     (let acc' = (if has_value t then (trie_value t, n) else acc) in
      case children t c of None \<Rightarrow> acc' | Some u \<Rightarrow> deepest u s (Suc n) acc')"

lemma longest_none: "longest (\<lambda>_. None) s = None"
  by (simp add: longest_def find_None_iff)

lemma deepest_longest:
  "deepest t s n acc = (case longest (trie_look t) s of
     None \<Rightarrow> acc | Some k \<Rightarrow> (the (trie_look t (take k s)), n + k))"
proof (induction s arbitrary: t n acc)
  case Nil
  then show ?case by (simp add: longest_Nil trie_look_Nil node_value_def)
next
  case (Cons c s)
  have look: "(\<lambda>u. trie_look t (c # u)) = (case children t c of None \<Rightarrow> \<lambda>_. None | Some t' \<Rightarrow> trie_look t')"
    by (auto simp: trie_look_Cons split: option.split)
  show ?case
    unfolding longest_Cons look
    by (cases "children t c") (auto simp: Let_def Cons.IH longest_none trie_look_Nil trie_look_Cons node_value_def split: option.splits)
qed

text \<open>The terminating NUL of the text is read as well; no text of a token goes on with one.\<close>

definition no_nul_inside :: "naive_trie \<Rightarrow> bool" where
  "no_nul_inside t \<longleftrightarrow> (\<forall>s. trie_reaches t s \<longrightarrow> 0 \<notin> set s)"

lemma no_nul_child:
  assumes "no_nul_inside t" shows "children t 0 = None" "children t c = Some u \<Longrightarrow> no_nul_inside u"
proof -
  from assms have "\<not> trie_reaches t [0]" by (auto simp: no_nul_inside_def)
  then show "children t 0 = None" by (auto simp: trie_reaches_Cons split: option.splits)
  assume u: "children t c = Some u"
  then have "trie_reaches u s \<Longrightarrow> trie_reaches t (c # s)" for s by (simp add: trie_reaches_Cons)
  with assms show "no_nul_inside u" unfolding no_nul_inside_def by fastforce
qed

lemma rwkv_longest_deepest:
  "p < length txt \<Longrightarrow> no_nul_inside t \<Longrightarrow>
    rwkv_longest txt (Some t) p tid tlen = Inr (deepest t (drop (Suc p) txt) (Suc p) (tid, tlen))"
proof (induction "length txt - p" arbitrary: p t tid tlen rule: less_induct)
  case less
  define acc where "acc = (if has_value t then (trie_value t, Suc p) else (tid, tlen))"
  have step: "rwkv_longest txt (Some t) p tid tlen =
      rbind (str_get txt (Suc p)) (\<lambda>c. rwkv_longest txt (traverse t c) (Suc p) (fst acc) (snd acc))"
    by (subst rwkv_longest.simps) (simp add: acc_def split: prod.split)
  have leaf: "rwkv_longest txt None q i n = Inr (i, n)" for q i n by (simp add: rwkv_longest.simps)
  show ?case
  proof (cases "Suc p < length txt")
    case False
    then have "Suc p = length txt" using less.prems(1) by simp
    then show ?thesis
      unfolding step using no_nul_child(1)[OF less.prems(2)] by (simp add: str_get_def traverse_def leaf acc_def)
  next
    case True
    then have d: "drop (Suc p) txt = txt ! Suc p # drop (Suc (Suc p)) txt" by (simp add: Cons_nth_drop_Suc)
    show ?thesis
    proof (cases "children t (txt ! Suc p)")
      case None
      then show ?thesis unfolding step d using True by (simp add: str_get_def traverse_def leaf acc_def)
    next
      case (Some u)
      have "rwkv_longest txt (Some u) (Suc p) (fst acc) (snd acc)
          = Inr (deepest u (drop (Suc (Suc p)) txt) (Suc (Suc p)) acc)"
        using less.hyps[OF _ True no_nul_child(2)[OF less.prems(2) Some]] True by simp
      then show ?thesis unfolding step d using True Some by (simp add: str_get_def traverse_def acc_def Let_def)
    qed
  qed
qed

text \<open>The reference: from the front, the longest token, or the unknown token for a byte that starts none.\<close>

function longest_matches :: "('c list \<Rightarrow> 'v option) \<Rightarrow> 'v \<Rightarrow> 'c list \<Rightarrow> 'v list" where
  "longest_matches M unk [] = []"
| "longest_matches M unk (c # s) = (case longest (\<lambda>u. M (c # u)) s of
     None \<Rightarrow> unk # longest_matches M unk s
   | Some k \<Rightarrow> the (M (c # take k s)) # longest_matches M unk (drop k s))"
  by pat_completeness auto
termination by (relation "measure (\<lambda>(_, _, s). length s)") simp_all

lemma longest_le: "longest M s = Some k \<Longrightarrow> k \<le> length s"
  unfolding longest_def by (metis atLeastLessThan_iff find_Some_iff less_Suc_eq_le nth_mem set_rev set_upt)

lemma longest_some: "k \<le> length s \<Longrightarrow> M (take k s) \<noteq> None \<Longrightarrow> \<exists>m. longest M s = Some m"
  by (cases "longest M s") (auto simp: longest_def find_None_iff simp del: upt_Suc)

text \<open>What the vocabulary must have: with every text also its first byte, and no NUL behind that.\<close>

definition rwkv_closed :: "(8 word list \<times> llama_token) list \<Rightarrow> bool" where
  "rwkv_closed kvs \<longleftrightarrow> list_all (\<lambda>(k, _). k \<noteq> [] \<longrightarrow> [hd k] \<in> fst ` set kvs \<and> 0 \<notin> set (tl k)) kvs"

lemma reaches_below:
  assumes "traverse (trie.build kvs) c = Some u" "trie_reaches u s"
  shows "\<exists>k \<in> fst ` set kvs. prefix (c # s) k"
  using trie.reaches_build[of kvs "c # s"] assms by (simp add: trie_reaches_Cons traverse_def)

lemma no_nul_below:
  assumes "list_all (\<lambda>(k, _). 0 \<notin> set (tl k)) kvs" "traverse (trie.build kvs) c = Some u"
  shows "no_nul_inside u"
  unfolding no_nul_inside_def
proof (intro allI impI)
  fix s assume "trie_reaches u s"
  from reaches_below[OF assms(2) this] obtain k where "k \<in> fst ` set kvs" "prefix (c # s) k" by blast
  then show "0 \<notin> set s" using assms(1) by (fastforce simp: list_all_iff prefix_def)
qed

lemma rwkv_closed_node:
  assumes "rwkv_closed kvs" "traverse (trie.build kvs) c = Some u"
  shows "no_nul_inside u" "trie_look u s = map_of (rev kvs) (c # s)" "map_of (rev kvs) [c] \<noteq> None"
proof -
  have u: "children (trie.build kvs) c = Some u" using assms(2) by (simp add: traverse_def)
  show l: "trie_look u s = map_of (rev kvs) (c # s)" for s
    using trie.look_build[of kvs] u by (metis trie_look_Cons option.simps(5))
  have "0 \<notin> set (tl k)" if "(k, x) \<in> set kvs" for k x
    using assms(1) that by (cases k) (force simp: rwkv_closed_def list_all_iff)+
  then show "no_nul_inside u" by (intro no_nul_below[OF _ assms(2)]) (auto simp: list_all_iff)
  have "trie_reaches u []" by (simp add: trie_reaches_def)
  from reaches_below[OF assms(2) this] obtain k x where "(k, x) \<in> set kvs" "k \<noteq> []" "hd k = c" by (auto simp: prefix_def)
  then have "[c] \<in> fst ` set kvs" using assms(1) by (force simp: rwkv_closed_def list_all_iff)
  then show "map_of (rev kvs) [c] \<noteq> None" by (auto simp: map_of_eq_None_iff)
qed

lemma rwkv_no_node:
  assumes "traverse (trie.build kvs) c = None"
  shows "map_of (rev kvs) (c # s) = None"
  using trie.look_build[of kvs] assms by (metis trie_look_Cons traverse_def option.simps(4))

lemma rwkv_tokenize_longest:
  assumes "rwkv_closed kvs"
  shows "length s \<le> p + fuel \<Longrightarrow> rwkv_tokenize v (trie.build kvs) fuel s p out
    = Inr (out @ longest_matches (map_of (rev kvs)) (v_unk_id v) (drop p s))"
proof (induction fuel arbitrary: p out)
  case 0
  then show ?case by (subst rwkv_tokenize.simps) simp
next
  case (Suc fuel)
  let ?M = "map_of (rev kvs)" and ?t = "trie.build kvs"
  show ?case
  proof (cases "p < length s")
    case True
    then have d: "drop p s = s ! p # drop (Suc p) s" by (simp add: Cons_nth_drop_Suc)
    show ?thesis
    proof (cases "traverse ?t (s ! p)")
      case None
      have "rwkv_tokenize v ?t (Suc fuel) s p out = rwkv_tokenize v ?t fuel s (Suc p) (out @ [v_unk_id v])"
        using True None by (subst rwkv_tokenize.simps) simp
      then show ?thesis using Suc True rwkv_no_node[OF None] by (simp add: d longest_none)
    next
      case (Some u)
      note n = rwkv_closed_node[OF assms Some]
      let ?L = "longest (\<lambda>u. ?M (s ! p # u)) (drop (Suc p) s)"
      obtain k where k: "?L = Some k"
        using longest_some[of 0 _ "\<lambda>u. ?M (s ! p # u)"] n(3) by auto
      have look: "trie_look u = (\<lambda>w. ?M (s ! p # w))" using n(2) by blast
      have le: "k \<le> length s - Suc p" using longest_le[OF k] by simp
      have "rwkv_longest s (Some u) p 0 0 = Inr (the (?M (s ! p # take k (drop (Suc p) s))), Suc p + k)"
        using rwkv_longest_deepest[OF True n(1), of 0 0] k by (simp add: deepest_longest look)
      then have "rwkv_tokenize v ?t (Suc fuel) s p out
          = rwkv_tokenize v ?t fuel s (Suc p + k) (out @ [the (?M (s ! p # take k (drop (Suc p) s)))])"
        using True Some by (subst rwkv_tokenize.simps) simp
      then show ?thesis using Suc True k by (simp add: d add.commute)
    qed
  next
    case False
    then show ?thesis by (subst rwkv_tokenize.simps) simp
  qed
qed

text \<open>
  A text that begins like a token but has no token as a prefix: the round at its front ends
  where it began.
\<close>

lemma rwkv_stuck:
  assumes "traverse t (s ! 0) = Some u" "no_nul_inside u" "s \<noteq> []"
    and "longest (trie_look u) (drop 1 s) = None"
  shows "rwkv_tokenize v t fuel s 0 out = Inl Out_of_fuel"
proof (induction fuel arbitrary: out)
  case 0
  then show ?case using assms(3) by (subst rwkv_tokenize.simps) simp
next
  case (Suc fuel)
  have "rwkv_longest s (Some u) 0 0 0 = Inr (0, 0)"
    using rwkv_longest_deepest[OF _ assms(2), of 0 s 0 0] assms(3,4) by (simp add: deepest_longest)
  then show ?case using assms(1,3) Suc by (subst rwkv_tokenize.simps) simp
qed

end
