(* ===== verification/VocabTheorems.thy ===== *)
theory VocabTheorems
  imports VocabBpeText VocabSpmProps VocabTrieProps
begin

text \<open>
  The properties of the vocabulary layer: what the tokenizers cut a text into, and the way back
  from tokens to text.
\<close>

section \<open>A vocabulary of bytes\<close>

text \<open>One normal token for every byte, one for \<open>12\<close>, the only merge, and the control token \<open><s>\<close>.\<close>

definition byte_vocab :: "int llama_vocab" where
  "byte_vocab = \<lparr>v_type = LLAMA_VOCAB_TYPE_BPE, v_pre_type = PRE_TYPE_GPT2, v_max_token_len = 2,
     v_bos_id = 257, v_eos_id = -1, v_unk_id = -1, v_sep_id = -1, v_add_space_prefix = False,
     v_add_bos = True, v_add_eos = False, v_ignore_merges = False, v_clean_spaces = False,
     v_remove_extra_whitespaces = False, v_escape_whitespaces = True, v_treat_whitespace_as_suffix = False,
     v_token_to_id = (\<lambda>s. if s = [0x31, 0x32] then Some 256
       else case unicode_utf8_to_byte s of Inr b \<Rightarrow> Some (uint b) | Inl _ \<Rightarrow> None),
     v_id_to_token = map (\<lambda>n. \<lparr>td_text = enc (byte_cpt n), td_score = 0, td_attr = ATTR_NORMAL\<rparr>) [0..<256]
       @ [\<lparr>td_text = [0x31, 0x32], td_score = 0, td_attr = ATTR_NORMAL\<rparr>,
          \<lparr>td_text = [0x3C, 0x73, 0x3E], td_score = 0, td_attr = ATTR_CONTROL\<rparr>],
     v_cache_special_tokens = [257], v_cache_token_to_piece = [],
     v_bpe_ranks = [([0x31], [0x32]) \<mapsto> 0], v_eog_ids = []\<rparr>"

lemma byte_vocab_closed: "bpe_closed byte_vocab"
proof -
  have byte: "plain_token byte_vocab s" if "unicode_byte_to_utf8 b = Inr s" for b s
  proof -
    have s: "s = enc (byte_cpt (unat b))" using that by (simp add: byte_to_utf8)
    have e: "unicode_cpt_to_utf8 (of_nat (byte_cpt (unat b))) = Inr s"
      using encodes[OF byte_cpt_less[OF byte_less[of b]]] s by simp
    have "s \<noteq> [0x31, 0x32]"
    proof
      assume s2: "s = [0x31, 0x32]"
      have "of_nat (byte_cpt (unat b)) = (ucast (0x31 :: 8 word) :: 32 word)"
        by (rule low_byte_alone[OF e]) (simp_all add: s2 bit_numeral_rec)
      moreover have "of_nat (byte_cpt (unat b)) = (ucast (0x32 :: 8 word) :: 32 word)"
        by (rule low_byte_alone[OF e]) (simp_all add: s2 bit_numeral_rec)
      ultimately show False by simp
    qed
    moreover have "unicode_utf8_to_byte s = Inr b" using that by (simp add: utf8_to_byte_iff)
    ultimately have t: "v_token_to_id byte_vocab s = Some (uint b)" by (simp only: byte_vocab_def llama_vocab.simps) simp
    have n: "n_tokens byte_vocab = 258" by (simp add: n_tokens_def byte_vocab_def del: upt_rec_numeral)
    have u: "nat (uint b) = unat b" "unat b < 256" "uint b < 258"
      using byte_less[of b] uint_lt2p[of b] by simp_all
    have "v_id_to_token byte_vocab ! unat b = \<lparr>td_text = s, td_score = 0, td_attr = ATTR_NORMAL\<rparr>"
      using u(2) s by (simp only: byte_vocab_def llama_vocab.simps) (simp add: nth_append del: upt_rec_numeral)
    then show ?thesis using t n u by (simp add: plain_token_def)
  qed
  moreover have "plain_token byte_vocab (a @ b)" if "bpe_joins byte_vocab a b" for a b
    using that by (auto simp: bpe_joins_def plain_token_def byte_vocab_def n_tokens_def nth_append
        simp del: upt_rec_numeral split: if_splits option.splits)
  ultimately show ?thesis unfolding bpe_closed_def by blast
qed

section \<open>BPE\<close>

text \<open>
  BPE there and back.  Take a vocabulary that has a normal token for every character of the
  byte alphabet and for every pair with a merge rank, and whose piece cache is empty or filled by
  \<open>token_to_piece_for_cache\<close>.  For every well-formed UTF-8 text that \<open>unicode_regex_split\<close> splits,
  whatever the order in which the work queue hands out its bigrams, \<open>tokenize\<close> returns (no
  assertion of \<open>find_bpe_rank\<close> fires) and \<open>detokenize\<close> of the tokens into a string gives back
  the text byte for byte, for every size of the string's first buffer.
\<close>

theorem bpe_round_trip:
  assumes "\<And>q. q \<noteq> [] \<Longrightarrow> pick q < length q"
    and "v_type v = LLAMA_VOCAB_TYPE_BPE" "bpe_closed v" "pieces_cached v" "\<not> v_clean_spaces v" "\<not> v_add_space_prefix v"
    and "regex_ok R" "unicode_regex_split D R s regex_exprs = Inr ws"
    and "\<forall>w \<in> set ws. v_ignore_merges v \<longrightarrow> v_token_to_id v w \<noteq> None \<longrightarrow> plain_token v w"
    and "unicode_cpts_to_utf8 cs = Inr s"
  shows "\<exists>toks. bpe_tokenize pick D R v regex_exprs s [] = Inr toks
    \<and> detokenize_string capacity v toks special = Inr s"
proof -
  from bpe_there_and_back[OF assms(1-4,7-10), where special = special and out = "[]"] obtain toks where toks:
    "bpe_tokenize pick D R v regex_exprs s [] = Inr toks" "detok_text v special False toks = Inr s" by auto
  have "inner_tokens v False toks = toks" "\<not> blank_goes v False toks"
    using assms(6) by (simp_all add: inner_tokens_def blank_goes_def)
  then have d: "if int (length s) \<le> m then detokenize v toks m False special = Inr (int (length s), s)
      else \<exists>part. detokenize v toks m False special = Inr (- int (length s), part)" if "0 \<le> m" for m
    using detokenize_result[where v = v and unparse = special and rs = False and tokens = toks and m = m]
      that toks(2) assms(2,5) by (simp add: cleaned_def)
  have "detokenize_string capacity v toks special = Inr s"
    using d[of "int (max capacity (length toks))"] d[of "int (length s)"]
    by (auto simp: detokenize_string_def split: if_splits)
  with toks(1) show ?thesis by blast
qed

theorem bpe_round_trip_witness:
  "\<exists>toks. bpe_tokenize (\<lambda>_. 0) ascii_data six_library byte_vocab [bytes_of ''[0-9]+''] (bytes_of ''I'm 12'') [] = Inr toks
    \<and> detokenize_string 15 byte_vocab toks False = Inr (bytes_of ''I'm 12'')"
proof -
  obtain ws where ws: "unicode_regex_split ascii_data six_library (bytes_of ''I'm 12'') [bytes_of ''[0-9]+''] = Inr ws"
    using six_split by blast
  have v: "v_type byte_vocab = LLAMA_VOCAB_TYPE_BPE" "pieces_cached byte_vocab" "\<not> v_clean_spaces byte_vocab"
    "\<not> v_add_space_prefix byte_vocab" "\<not> v_ignore_merges byte_vocab"
    by (simp_all add: byte_vocab_def pieces_cached_def del: upt_rec_numeral)
  have t: "unicode_cpts_to_utf8 (map ascii ''I'm 12'') = Inr (bytes_of ''I'm 12'')" by code_simp
  show ?thesis
    by (rule bpe_round_trip[OF _ v(1) byte_vocab_closed v(2-4) six_library_ok ws _ t]) (simp_all add: v(5))
qed

section \<open>Merging\<close>



text \<open>
  C4. SPM merges by score.  With a work queue that brings out a bigram \<open>comparator\<close> puts behind no
  other, \<open>tokenize\<close> of a text that is not empty puts out, piece by piece, the tokens of the plain
  algorithm: the pair of neighbours whose joined text is the token of highest score, the leftmost
  of several, is joined until no neighbours make a token; a piece that is no token is put
  out as its bytes.  The recursion of \<open>resegment\<close> through \<open>rev_merge\<close> is never entered.
\<close>

theorem spm_merges_by_score:
  fixes v :: "'f::linorder llama_vocab"
  assumes "picks_top spm_less pick" and "v_type v = LLAMA_VOCAB_TYPE_SPM" and "s \<noteq> []"
  shows "spm_tokenize pick v s out
    = rbind (emit_all (spm_emit v) (greedy (spm_val v) (utf8_chars s))) (\<lambda>ts. Inr (out @ ts))"
  by (rule spm_tokenize_greedy) (simp_all add: assms)

text \<open>A vocabulary of \<open>a\<close>, \<open>b\<close>, \<open>ab\<close>, \<open>ba\<close>, the last of the highest score.\<close>

definition ab_vocab :: "int llama_vocab" where
  "ab_vocab = byte_vocab\<lparr>v_type := LLAMA_VOCAB_TYPE_SPM,
     v_token_to_id := map_of [([0x61], 0), ([0x62], 1), ([0x61, 0x62], 2), ([0x62, 0x61], 3)],
     v_id_to_token := map (\<lambda>(s, n). \<lparr>td_text = s, td_score = n, td_attr = ATTR_NORMAL\<rparr>)
       [([0x61], 0), ([0x62], 0), ([0x61, 0x62], 1), ([0x62, 0x61], 2)]\<rparr>"

theorem spm_merges_by_score_witness:
  "spm_tokenize (first_best bs_left bs_score) ab_vocab (bytes_of ''abab'') [7] = Inr [7, 0, 3, 1]"
proof -
  have p: "picks_top spm_less (first_best bs_left bs_score)"
    using first_best_picks by (simp add: spm_picks_top)
  have v: "v_type ab_vocab = LLAMA_VOCAB_TYPE_SPM" by (simp add: ab_vocab_def)
  have t: "v_token_to_id ab_vocab = map_of [([0x61], 0), ([0x62], 1), ([0x61, 0x62], 2), ([0x62, 0x61], 3)]"
    "v_id_to_token ab_vocab = map (\<lambda>(s, n). \<lparr>td_text = s, td_score = n, td_attr = ATTR_NORMAL\<rparr>)
       [([0x61], 0), ([0x62], 0), ([0x61, 0x62], 1), ([0x62, 0x61], 2)]" by (simp_all add: ab_vocab_def)
  have val: "spm_val ab_vocab x y = (if x @ y = [0x61] \<or> x @ y = [0x62] then Some 0 else if x @ y = [0x61, 0x62] then Some 1
      else if x @ y = [0x62, 0x61] then Some 2 else None)" for x y
    by (simp add: spm_val_def t n_tokens_def)
  have "utf8_chars (bytes_of ''abab'') = [[0x61], [0x62], [0x61], [0x62]]" by code_simp
  moreover have "greedy (spm_val ab_vocab) [[0x61], [0x62], [0x61], [0x62]] = [[0x61], [0x62, 0x61], [0x62]]"
    unfolding ext[OF ext[OF val]] by code_simp
  moreover have "emit_all (spm_emit ab_vocab) [[0x61], [0x62, 0x61], [0x62]] = Inr [0, 3, 1]"
    by (simp add: spm_emit_def text_to_token_def has_vocab_def v t)
  ultimately show ?thesis
    by (subst spm_merges_by_score[OF p v]) (simp_all add: bytes_of_def)
qed

section \<open>RWKV\<close>

text \<open>
  C10. RWKV takes the longest match.  When a vocabulary that has the first byte of a token's text
  as a token too, and no NUL inside a text, is loaded into the trie, \<open>tokenize\<close> returns
  after at most one round per byte, and its tokens are: from the front, the longest token that
  the rest of the text starts with (the last one loaded of several with the same text), and the
  unknown token for a byte that is none.
\<close>

theorem rwkv_takes_longest:
  assumes "v_type v = LLAMA_VOCAB_TYPE_RWKV" and "llm_tokenizer_rwkv v = Inr t"
    and "rwkv_closed (rwkv_texts v)" and "length s \<le> fuel"
  shows "rwkv_tokenize v t fuel s 0 out = Inr (out @ longest_matches (rwkv_dict v) (v_unk_id v) s)"
  using rwkv_tokenize_longest[OF assms(3), of s 0 fuel v out] rwkv_trie_is_built[of v] assms(1,2,4)
  by (simp add: rwkv_dict_def)

definition ab_rwkv :: "int llama_vocab" where
  "ab_rwkv = ab_vocab\<lparr>v_type := LLAMA_VOCAB_TYPE_RWKV\<rparr>"

lemma ab_rwkv_texts: "rwkv_texts ab_rwkv = [([0x61], 0), ([0x62], 1), ([0x61, 0x62], 2), ([0x62, 0x61], 3)]"
proof -
  have t: "v_id_to_token ab_rwkv = [\<lparr>td_text = [0x61], td_score = 0, td_attr = ATTR_NORMAL\<rparr>,
      \<lparr>td_text = [0x62], td_score = 0, td_attr = ATTR_NORMAL\<rparr>,
      \<lparr>td_text = [0x61, 0x62], td_score = 1, td_attr = ATTR_NORMAL\<rparr>,
      \<lparr>td_text = [0x62, 0x61], td_score = 2, td_attr = ATTR_NORMAL\<rparr>]"
    by (simp add: ab_rwkv_def ab_vocab_def)
  have u: "llama_unescape_rwkv_token [0x61] = [0x61]" "llama_unescape_rwkv_token [0x62] = [0x62]"
    "llama_unescape_rwkv_token [0x61, 0x62] = [0x61, 0x62]" "llama_unescape_rwkv_token [0x62, 0x61] = [0x62, 0x61]"
    by code_simp+
  show ?thesis by (simp add: rwkv_texts_def n_tokens_def t u upt_rec)
qed

theorem rwkv_takes_longest_witness:
  "\<exists>t. llm_tokenizer_rwkv ab_rwkv = Inr t
    \<and> rwkv_tokenize ab_rwkv t 5 (bytes_of ''abba!'') 0 [] = Inr [2, 3, -1]"
proof -
  have v: "v_type ab_rwkv = LLAMA_VOCAB_TYPE_RWKV" "v_unk_id ab_rwkv = -1"
    by (simp_all add: ab_rwkv_def ab_vocab_def byte_vocab_def)
  then obtain t where t: "llm_tokenizer_rwkv ab_rwkv = Inr t" using rwkv_trie_is_built[of ab_rwkv] by auto
  have c: "rwkv_closed (rwkv_texts ab_rwkv)" unfolding ab_rwkv_texts by code_simp
  have "longest_matches (rwkv_dict ab_rwkv) (-1) (bytes_of ''abba!'') = [2, 3, -1]"
    unfolding rwkv_dict_def ab_rwkv_texts by code_simp
  then show ?thesis using rwkv_takes_longest[OF v(1) t c, of "bytes_of ''abba!''" 5 "[]"] t v(2) by (simp add: bytes_of_def)
qed

text \<open>
  C39. RWKV may never return.  Take any vocabulary without a NUL inside a token's text, and a text
  that begins with the first byte of some token but has no token as a prefix: \<open>position\<close> is
  set to \<open>token_length\<close>, which is still 0, so every round starts at the front again and appends
  token 0.  No number of rounds ends the loop.
\<close>

theorem rwkv_never_returns:
  assumes "v_type v = LLAMA_VOCAB_TYPE_RWKV" and "llm_tokenizer_rwkv v = Inr t"
    and "list_all (\<lambda>(k, _). 0 \<notin> set (tl k)) (rwkv_texts v)"
    and "list_ex (\<lambda>(k, _). k \<noteq> [] \<and> hd k = c) (rwkv_texts v)"
    and "list_all (\<lambda>n. rwkv_dict v (c # take n s) = None) [0..<Suc (length s)]"
  shows "rwkv_tokenize v t fuel (c # s) 0 out = Inl Out_of_fuel"
proof -
  have t: "t = trie.build (rwkv_texts v)" using rwkv_trie_is_built[of v] assms(1,2) by simp
  obtain k where "k \<in> fst ` set (rwkv_texts v)" "k \<noteq> []" "hd k = c" using assms(4) by (force simp: list_ex_iff)
  then have "prefix [c] k" by (cases k) auto
  then have "trie_reaches t [c]" using trie.reaches_build[of "rwkv_texts v" "[c]"] t \<open>k \<in> _\<close> by blast
  then obtain u where u: "traverse t c = Some u" by (auto simp: trie_reaches_Cons traverse_def split: option.splits)
  have "no_nul_inside u" using no_nul_below[OF assms(3)] u t by blast
  moreover have "trie_look u = (\<lambda>w. rwkv_dict v (c # w))"
    using trie.look_build[of "rwkv_texts v"] u unfolding t rwkv_dict_def traverse_def by (metis trie_look_Cons option.simps(5))
  then have "longest (trie_look u) s = None"
    using assms(5) by (auto simp: longest_def find_None_iff list_all_iff simp del: upt_Suc)
  ultimately show ?thesis using rwkv_stuck[of t "c # s" u v fuel out] u by simp
qed

text \<open>With \<open>ab\<close> as the only token starting with \<open>a\<close>, the text \<open>ac\<close> does it.\<close>

theorem rwkv_never_returns_witness:
  "let v = ab_rwkv\<lparr>v_id_to_token := [\<lparr>td_text = [0x61, 0x62], td_score = 0, td_attr = ATTR_NORMAL\<rparr>]\<rparr> in
    \<exists>t. llm_tokenizer_rwkv v = Inr t \<and> rwkv_tokenize v t 1000 (bytes_of ''ac'') 0 [] = Inl Out_of_fuel"
proof -
  let ?v = "ab_rwkv\<lparr>v_id_to_token := [\<lparr>td_text = [0x61, 0x62], td_score = 0, td_attr = ATTR_NORMAL\<rparr>]\<rparr>"
  have u: "llama_unescape_rwkv_token [0x61, 0x62] = [0x61, 0x62]" by code_simp
  have k: "rwkv_texts ?v = [([0x61, 0x62], 0)]" by (simp add: rwkv_texts_def n_tokens_def u)
  have v: "v_type ?v = LLAMA_VOCAB_TYPE_RWKV" by (simp add: ab_rwkv_def)
  then obtain t where t: "llm_tokenizer_rwkv ?v = Inr t" using rwkv_trie_is_built[of ?v] by auto
  have "rwkv_tokenize ?v t 1000 (0x61 # [0x63]) 0 [] = Inl Out_of_fuel"
    by (rule rwkv_never_returns[OF v t]) (simp_all add: k rwkv_dict_def)
  then show ?thesis using t by (auto simp: Let_def bytes_of_def)
qed

end
