(* ===== verification/VocabWpm.thy ===== *)
theory VocabWpm
  imports VocabPiece
begin

text \<open>
  The WPM (BERT) session of llama-vocab.cpp (\<open>llm_tokenizer_wpm_session\<close>): the text is normalised
  and split into words, and each word is covered by longest matches from the left.  The
  \<open>assert\<close> of \<open>preprocess\<close>, which a release build drops, is left out.
\<close>

section \<open>Preprocessing\<close>

definition is_punctuation :: "unicode_cpt_flags \<Rightarrow> bool" where "is_punctuation f = bit f 5"
definition is_symbol :: "unicode_cpt_flags \<Rightarrow> bool" where "is_symbol f = bit f 6"
definition is_control_cpt :: "unicode_cpt_flags \<Rightarrow> bool" where "is_control_cpt f = bit f 7"

definition is_chinese_char :: "32 word \<Rightarrow> bool" where
  "is_chinese_char cpt \<longleftrightarrow>
     (0x04E00 \<le> cpt \<and> cpt \<le> 0x09FFF) \<or>
     (0x03400 \<le> cpt \<and> cpt \<le> 0x04DBF) \<or>
     (0x20000 \<le> cpt \<and> cpt \<le> 0x2A6DF) \<or>
     (0x2A700 \<le> cpt \<and> cpt \<le> 0x2B73F) \<or>
     (0x2B740 \<le> cpt \<and> cpt \<le> 0x2B81F) \<or>
     (0x2B920 \<le> cpt \<and> cpt \<le> 0x2CEAF) \<or>
     (0x0F900 \<le> cpt \<and> cpt \<le> 0x0FAFF) \<or>
     (0x2F800 \<le> cpt \<and> cpt \<le> 0x2FA1F)"

text \<open>\<open>words\<close> is never empty; its last element is the word under construction.\<close>

definition finish_word :: "8 word list list \<Rightarrow> 8 word list list" where
  "finish_word words = (if last words \<noteq> [] then words @ [[]] else words)"

definition wpm_step :: "unicode_data \<Rightarrow> 32 word \<Rightarrow> 8 word list list \<Rightarrow> 8 word list list res" where
  "wpm_step D cpt words =
     (let flags = unicode_cpt_flags_from_cpt D cpt in
      if is_whitespace flags then Inr (finish_word words)
      else if cpt = 0 \<or> cpt = 0xFFFD \<or> is_control_cpt flags then Inr words
      else rbind (unicode_cpt_to_utf8 (unicode_tolower D cpt)) (\<lambda>s.
        if is_punctuation flags \<or> (cpt < 0x7F \<and> is_symbol flags) \<or> is_chinese_char cpt then
          let words = finish_word words in Inr (butlast words @ [s] @ [[]])
        else Inr (butlast words @ [last words @ s])))"

definition wpm_preprocess :: "unicode_data \<Rightarrow> 8 word list \<Rightarrow> 8 word list list res" where
  "wpm_preprocess D txt =
     rbind (unicode_cpts_from_utf8 txt) (\<lambda>cpts.
     rbind (unicode_cpts_normalize_nfd D cpts) (\<lambda>cpts_nfd.
     rbind (rfold (wpm_step D) cpts_nfd [[]]) (\<lambda>words.
       Inr (if last words = [] then butlast words else words))))"

section \<open>Matching\<close>

text \<open>The loop over the possible match ends \<open>j\<close>, downwards.\<close>

fun wpm_match :: "'f llama_vocab \<Rightarrow> 8 word list \<Rightarrow> nat \<Rightarrow> nat \<Rightarrow> (llama_token \<times> nat) option res" where
  "wpm_match v word1 i 0 = Inr None"
| "wpm_match v word1 i (Suc j) =
     (if i < Suc j then
        rbind (text_to_token v (take (Suc j - i) (drop i word1))) (\<lambda>tid.
          if tid \<noteq> LLAMA_TOKEN_NULL then Inr (Some (tid, Suc j)) else wpm_match v word1 i j)
      else Inr None)"

lemma wpm_match_end: "wpm_match v w i j = Inr (Some (t, k)) \<Longrightarrow> i < k \<and> k \<le> j"
  by (induction v w i j rule: wpm_match.induct) (auto split: if_splits)

definition wpm_last_end :: "'f llama_vocab \<Rightarrow> nat \<Rightarrow> nat \<Rightarrow> nat" where
  "wpm_last_end v n i = nat (min (int n) (int i + v_max_token_len v + 1))"

text \<open>The loop over the characters; \<open>None\<close> is the case that nothing matches and all is discarded.\<close>

function wpm_chars :: "'f llama_vocab \<Rightarrow> 8 word list \<Rightarrow> nat \<Rightarrow> nat \<Rightarrow> llama_token list \<Rightarrow> llama_token list res" where
  "wpm_chars v word1 current_tokens i output =
     (if i < length word1 then
        rbind (wpm_match v word1 i (wpm_last_end v (length word1) i)) (\<lambda>r. case r of
            Some (tid, j) \<Rightarrow> wpm_chars v word1 current_tokens j (output @ [tid])
          | None \<Rightarrow> Inr (take current_tokens output))
      else Inr output)"
  by pat_completeness auto
termination
  by (relation "measure (\<lambda>(_, w, _, i, _). length w - i)") (auto dest: wpm_match_end)

declare wpm_chars.simps [simp del]

definition wpm_word :: "'f llama_vocab \<Rightarrow> 8 word list \<Rightarrow> llama_token list \<Rightarrow> llama_token list res" where
  "wpm_word v word output =
     (if word = [] then Inr output
      else rbind (wpm_chars v (escaped_space @ word) (length output) 0 output) (\<lambda>output'.
        Inr (if length output = length output' then output' @ [v_unk_id v] else output')))"

definition wpm_tokenize :: "unicode_data \<Rightarrow> 'f llama_vocab \<Rightarrow> 8 word list \<Rightarrow> llama_token list \<Rightarrow> llama_token list res" where
  "wpm_tokenize D v txt output =
     rbind (wpm_preprocess D txt) (\<lambda>words. rfold (wpm_word v) words output)"

end
