(* ===== verification/VocabUgm.thy ===== *)
theory VocabUgm
  imports VocabTrie VocabMerge
begin

text \<open>
  The UGM (Unigram) tokenizer of llama-vocab.cpp (\<open>llm_tokenizer_ugm\<close>, \<open>llm_tokenizer_ugm_session\<close>):
  the precompiled map of replacements, the normalisation of a text, and the Viterbi search
  for the best tokenization.

  Scores are values of a linear order with the operations of \<open>float_ops\<close>: the sum in double precision,
  its rounding to \<open>float\<close>, the float subtraction of the penalty, and the constants.
\<close>

record 'f float_ops =
  fo_add :: "'f \<Rightarrow> 'f \<Rightarrow> 'f"
  fo_round :: "'f \<Rightarrow> 'f"
  fo_sub :: "'f \<Rightarrow> 'f \<Rightarrow> 'f"
  fo_zero :: 'f
  fo_ten :: 'f
  fo_max :: 'f
  fo_neg_max :: 'f

section \<open>The tokenizer\<close>

record 'f llm_tokenizer_ugm =
  ug_prefix_replacements :: "8 word list"
  ug_xcda_array :: "32 word list"
  ug_user_defined :: naive_trie
  ug_token_matcher :: naive_trie
  ug_min_score :: 'f
  ug_max_score :: 'f
  ug_unknown_score :: 'f

text \<open>Four bytes as a little-endian integer.\<close>

definition le32 :: "8 word list \<Rightarrow> 32 word" where
  "le32 bs = ucast (bs ! 0) OR push_bit 8 (ucast (bs ! 1)) OR push_bit 16 (ucast (bs ! 2)) OR push_bit 24 (ucast (bs ! 3))"

definition ugm_charsmap :: "8 word list \<Rightarrow> (32 word list \<times> 8 word list) res" where
  "ugm_charsmap charsmap =
     (if charsmap = [] then Inr ([], [])
      else if length charsmap < 4 then Inl Out_of_bounds
      else
       let blob_size = unat (le32 charsmap) in
       if length charsmap \<le> blob_size + 4 then Inl (Runtime_error ''Index out of array bounds in precompiled charsmap!'')
       else Inr (map (\<lambda>i. le32 (drop (4 + 4 * i) charsmap)) [0..<blob_size div 4], drop (4 + blob_size) charsmap))"

text \<open>One token of the vocabulary.\<close>

definition ugm_add_token ::
    "'f::linorder llama_vocab \<Rightarrow> nat \<Rightarrow> 'f llm_tokenizer_ugm \<Rightarrow> 'f llm_tokenizer_ugm res" where
  "ugm_add_token v i t =
     rbind (get_token_data v (int i)) (\<lambda>data.
     rbind (is_normal v (int i)) (\<lambda>normal.
     rbind (is_user_defined v (int i)) (\<lambda>user_defined.
     rbind (is_unused v (int i)) (\<lambda>unused.
       let t1 = (if normal then t\<lparr>ug_min_score := min (ug_min_score t) (td_score data),
                                  ug_max_score := max (ug_max_score t) (td_score data)\<rparr> else t);
           t2 = (if normal \<or> user_defined \<or> unused
                 then t1\<lparr>ug_token_matcher := trie_insert (td_text data) (int i) (ug_token_matcher t1)\<rparr> else t1)
       in Inr (if user_defined
               then t2\<lparr>ug_user_defined := trie_insert (td_text data) 0 (ug_user_defined t2)\<rparr> else t2)))))"

definition make_llm_tokenizer_ugm ::
    "'f::linorder float_ops \<Rightarrow> 'f llama_vocab \<Rightarrow> 8 word list \<Rightarrow> 'f llm_tokenizer_ugm res" where
  "make_llm_tokenizer_ugm F v charsmap =
     rbind (ugm_charsmap charsmap) (\<lambda>(xcda, replacements).
     rbind (rfold (ugm_add_token v) [0..<n_tokens v]
        \<lparr>ug_prefix_replacements = replacements, ug_xcda_array = xcda, ug_user_defined = empty_trie,
         ug_token_matcher = empty_trie, ug_min_score = fo_max F, ug_max_score = fo_neg_max F,
         ug_unknown_score = fo_zero F\<rparr>) (\<lambda>t.
       Inr (t\<lparr>ug_unknown_score := fo_sub F (ug_min_score t) (fo_ten F)\<rparr>)))"

section \<open>The replacements\<close>

text \<open>\<open>struct xcda_array_view\<close>.  The bound of \<open>get_node\<close> lets the index behind the array pass.\<close>

definition get_node :: "32 word list \<Rightarrow> 32 word \<Rightarrow> 32 word res" where
  "get_node xcda index =
     (if length xcda < unat index then Inl (Runtime_error ''Index out of array bounds in XCDA array!'')
      else vec_get xcda (uint index))"

definition get_base :: "32 word list \<Rightarrow> 32 word \<Rightarrow> 32 word res" where
  "get_base xcda index = rbind (get_node xcda index) (\<lambda>packed_node.
     Inr (push_bit (unat (drop_bit 6 (packed_node AND push_bit 9 1))) (drop_bit 10 packed_node)))"

definition get_lcheck :: "32 word list \<Rightarrow> 32 word \<Rightarrow> 32 word res" where
  "get_lcheck xcda index = rbind (get_node xcda index) (\<lambda>packed_node. Inr (packed_node AND (push_bit 31 1 OR 0xFF)))"

definition get_leaf :: "32 word list \<Rightarrow> 32 word \<Rightarrow> bool res" where
  "get_leaf xcda index = rbind (get_node xcda index) (\<lambda>packed_node. Inr (bit packed_node 8))"

definition get_value :: "32 word list \<Rightarrow> 32 word \<Rightarrow> 32 word res" where
  "get_value xcda index = rbind (get_node xcda index) (\<lambda>packed_node. Inr (packed_node AND (push_bit 31 1 - 1)))"

text \<open>The walk along the input: the length of the longest match so far and the place of its replacement.\<close>

fun xcda_walk :: "32 word list \<Rightarrow> 8 word list \<Rightarrow> 32 word \<Rightarrow> nat \<Rightarrow> nat \<times> 32 word \<Rightarrow> (nat \<times> 32 word) res" where
  "xcda_walk xcda [] node_index k longest = Inr longest"
| "xcda_walk xcda (c # cs) node_index k longest =
     (if c = 0 then Inr longest
      else
       let node_index = node_index XOR ucast c in
       rbind (get_lcheck xcda node_index) (\<lambda>lcheck.
         if lcheck \<noteq> ucast c then Inr longest
         else
          rbind (get_leaf xcda node_index) (\<lambda>is_leaf.
          rbind (get_base xcda node_index) (\<lambda>base.
          let node_index = node_index XOR base in
          if is_leaf then
            rbind (get_value xcda node_index) (\<lambda>val. xcda_walk xcda cs node_index (Suc k) (Suc k, val))
          else xcda_walk xcda cs node_index (Suc k) longest))))"

definition xcda_longest :: "32 word list \<Rightarrow> 8 word list \<Rightarrow> (nat \<times> 32 word) res" where
  "xcda_longest xcda s =
     (if 0 < length xcda then rbind (get_base xcda 0) (\<lambda>node_index. xcda_walk xcda s node_index 0 (0, 0))
      else Inr (0, 0))"

text \<open>\<open>strlen\<close> of a replacement, and its characters; without a NUL it reads on behind the array.\<close>

definition c_string :: "8 word list \<Rightarrow> 8 word list res" where
  "c_string s = (if 0 \<in> set s then Inr (takeWhile (\<lambda>c. c \<noteq> 0) s) else Inl Out_of_bounds)"

record normalization_result =
  nr_normalized :: "8 word list"
  nr_consumed_input :: nat

definition replacement_character :: "8 word list" where
  "replacement_character = [0xEF, 0xBF, 0xBD]"

definition normalize_prefix :: "'f llm_tokenizer_ugm \<Rightarrow> 8 word list \<Rightarrow> nat \<Rightarrow> normalization_result res" where
  "normalize_prefix t input input_offset =
     (if input_offset = length input then Inr \<lparr>nr_normalized = [], nr_consumed_input = 0\<rparr>
      else
       let rest = drop input_offset input; user_defined = get_longest_prefix (ug_user_defined t) rest 0 in
       if 0 < user_defined then
         Inr \<lparr>nr_normalized = take user_defined rest, nr_consumed_input = user_defined\<rparr>
       else
        rbind (xcda_longest (ug_xcda_array t) rest) (\<lambda>(longest_prefix_length, longest_prefix_offset).
        if 0 < longest_prefix_length then
          (if length (ug_prefix_replacements t) \<le> unat longest_prefix_offset
           then Inl (Runtime_error ''Index out of array bounds in precompiled charsmap!'')
           else rbind (c_string (drop (unat longest_prefix_offset) (ug_prefix_replacements t))) (\<lambda>r.
                  Inr \<lparr>nr_normalized = r, nr_consumed_input = longest_prefix_length\<rparr>))
        else
          case unicode_cpt_from_utf8 input input_offset of
            Inr (_, prefix_offset) \<Rightarrow>
              Inr \<lparr>nr_normalized = take (prefix_offset - input_offset) rest,
                   nr_consumed_input = prefix_offset - input_offset\<rparr>
          | Inl (Invalid_argument _) \<Rightarrow>
              Inr \<lparr>nr_normalized = replacement_character, nr_consumed_input = 1\<rparr>
          | Inl e \<Rightarrow> Inl e))"

lemma normalize_prefix_consumes:
  assumes "normalize_prefix t input off = Inr r" "off < length input"
  shows "0 < nr_consumed_input r"
  using assms cpt_from_utf8_advances(1)[of input off]
  by (auto simp: normalize_prefix_def Let_def split: if_splits sum.splits fault.splits)

section \<open>Normalisation\<close>

text \<open>The flags of \<open>normalize\<close>, which stay the same, and one byte of a normalised prefix.\<close>

definition ugm_space :: "'f llama_vocab \<Rightarrow> 8 word list" where
  "ugm_space v = (if v_escape_whitespaces v then escaped_space else [0x20])"

definition shall_prepend_space :: "'f llama_vocab \<Rightarrow> bool" where
  "shall_prepend_space v \<longleftrightarrow> \<not> v_treat_whitespace_as_suffix v \<and> v_add_space_prefix v"

definition shall_append_space :: "'f llama_vocab \<Rightarrow> bool" where
  "shall_append_space v \<longleftrightarrow> v_treat_whitespace_as_suffix v \<and> v_add_space_prefix v"

record normalizing =
  nz_normalized :: "8 word list"
  nz_is_space_prepended :: bool
  nz_processing_non_ws :: bool

definition normalize_char :: "'f llama_vocab \<Rightarrow> 8 word \<Rightarrow> normalizing \<Rightarrow> normalizing" where
  "normalize_char v c st =
     (if c \<noteq> 0x20 then
        let st1 = (if \<not> nz_processing_non_ws st then
                     let st0 = st\<lparr>nz_processing_non_ws := True\<rparr> in
                     if (shall_prepend_space v \<and> \<not> nz_is_space_prepended st0) \<or> v_remove_extra_whitespaces v
                     then st0\<lparr>nz_normalized := nz_normalized st0 @ ugm_space v, nz_is_space_prepended := True\<rparr>
                     else st0
                   else st)
        in st1\<lparr>nz_normalized := nz_normalized st1 @ [c]\<rparr>
      else
        let st1 = (if nz_processing_non_ws st then st\<lparr>nz_processing_non_ws := False\<rparr> else st)
        in if \<not> v_remove_extra_whitespaces v
           then st1\<lparr>nz_normalized := nz_normalized st1 @ ugm_space v\<rparr> else st1)"

function normalize_from ::
    "'f llama_vocab \<Rightarrow> 'f llm_tokenizer_ugm \<Rightarrow> 8 word list \<Rightarrow> nat \<Rightarrow> normalizing \<Rightarrow> normalizing res" where
  "normalize_from v t input input_offset st =
     (if input_offset < length input then
        rbind (normalize_prefix t input input_offset) (\<lambda>norm_res.
          normalize_from v t input (input_offset + nr_consumed_input norm_res)
            (fold (normalize_char v) (nr_normalized norm_res) st))
      else Inr st)"
  by pat_completeness auto
termination
  by (relation "measure (\<lambda>(_, _, input, off, _). length input - off)") (auto dest: normalize_prefix_consumes)

declare normalize_from.simps [simp del]

definition ugm_normalize :: "'f llama_vocab \<Rightarrow> 'f llm_tokenizer_ugm \<Rightarrow> 8 word list \<Rightarrow> 8 word list res" where
  "ugm_normalize v t input =
     rbind (normalize_from v t input 0
              \<lparr>nz_normalized = [], nz_is_space_prepended = False, nz_processing_non_ws = False\<rparr>) (\<lambda>st.
       Inr (if shall_append_space v then nz_normalized st @ ugm_space v else nz_normalized st))"

section \<open>The best tokenization\<close>

record 'f best_tokenization =
  bt_token_id :: llama_token
  bt_input_offset :: nat
  bt_score_sum :: 'f

text \<open>The challenger takes the place if its score, not yet rounded, is higher.\<close>

definition ugm_challenge ::
    "'f::linorder float_ops \<Rightarrow> llama_token \<Rightarrow> nat \<Rightarrow> 'f \<Rightarrow> nat \<Rightarrow> 'f best_tokenization list \<Rightarrow> 'f best_tokenization list" where
  "ugm_challenge F token_id input_offset challenger_score place results =
     (if bt_score_sum (results ! place) < challenger_score
      then results[place := \<lparr>bt_token_id = token_id, bt_input_offset = input_offset,
                             bt_score_sum = fo_round F challenger_score\<rparr>]
      else results)"

definition ugm_token_score :: "'f float_ops \<Rightarrow> 'f llama_vocab \<Rightarrow> llama_token \<Rightarrow> 'f res" where
  "ugm_token_score F v token_id =
     rbind (get_token_data v token_id) (\<lambda>token_data.
     rbind (is_user_defined v token_id) (\<lambda>u.
       Inr (if u then fo_zero F else td_score token_data)))"

text \<open>The tokens that start at \<open>input_offset\<close>, by a walk down the trie.\<close>

function ugm_walk ::
    "'f::linorder float_ops \<Rightarrow> 'f llama_vocab \<Rightarrow> 8 word list \<Rightarrow> nat \<Rightarrow> nat \<Rightarrow> naive_trie option \<Rightarrow> nat
      \<Rightarrow> bool \<times> 'f best_tokenization list \<Rightarrow> (bool \<times> 'f best_tokenization list) res" where
  "ugm_walk F v normalized input_offset n_utf8_code_units node prefix_offset st =
     (if prefix_offset \<le> length normalized then
        case node of
          None \<Rightarrow> Inr st
        | Some nd \<Rightarrow>
            rbind (if has_value nd then
                     let (found, results) = st in
                     rbind (ugm_token_score F v (trie_value nd)) (\<lambda>token_score.
                       Inr (found \<or> prefix_offset - input_offset = n_utf8_code_units,
                            ugm_challenge F (trie_value nd) input_offset
                              (fo_add F (bt_score_sum (results ! input_offset)) token_score) prefix_offset results))
                   else Inr st) (\<lambda>st.
            rbind (str_get normalized prefix_offset) (\<lambda>c.
              ugm_walk F v normalized input_offset n_utf8_code_units (traverse nd c) (prefix_offset + 1) st))
      else Inr st)"
  by pat_completeness auto
termination
  by (relation "measure (\<lambda>(_, _, s, _, _, _, p, _). Suc (length s) - p)") auto

declare ugm_walk.simps [simp del]

text \<open>
  One code point after the other.  The sum for the unknown token is one of two floats, so it is
  rounded before it is compared.
\<close>

function ugm_forward ::
    "'f::linorder float_ops \<Rightarrow> 'f llama_vocab \<Rightarrow> 'f llm_tokenizer_ugm \<Rightarrow> 8 word list \<Rightarrow> nat
      \<Rightarrow> 'f best_tokenization list \<Rightarrow> 'f best_tokenization list res" where
  "ugm_forward F v t normalized input_offset results =
     (if input_offset < length normalized then
        let n = min (unicode_len_utf8 (normalized ! input_offset)) (length normalized - input_offset) in
        rbind (ugm_walk F v normalized input_offset n
                 (traverse (ug_token_matcher t) (normalized ! input_offset)) (input_offset + 1)
                 (False, results)) (\<lambda>(single_codepoint_token_found, results).
          ugm_forward F v t normalized (input_offset + n)
            (if single_codepoint_token_found then results
             else ugm_challenge F (v_unk_id v) input_offset
                    (fo_round F (fo_add F (bt_score_sum (results ! input_offset)) (ug_unknown_score t))) (input_offset + n) results))
      else Inr results)"
  by pat_completeness auto
termination
proof (relation "measure (\<lambda>(_, _, _, s, off, _). length s - off)", goal_cases)
  case (2 F v t s off results n x y z)
  then show ?case using len_utf8_pos[of "s ! off"] by auto
qed simp

declare ugm_forward.simps [simp del]

text \<open>
  Backtracking from the end.  The source's \<open>tokenization\<close> is a reference to the last element, which
  the loop overwrites; that element is not read again.
\<close>

fun ugm_backtrack ::
    "llama_token \<Rightarrow> 'f best_tokenization list \<Rightarrow> nat \<Rightarrow> 'f best_tokenization \<Rightarrow> bool \<Rightarrow> llama_token list \<Rightarrow> llama_token list res" where
  "ugm_backtrack unk results 0 tokenization is_prev_unknown output = Inl Out_of_fuel"
| "ugm_backtrack unk results (Suc fuel) tokenization is_prev_unknown output =
     (let is_unknown = (bt_token_id tokenization = unk);
          output = (if is_prev_unknown \<and> is_unknown then output else output @ [bt_token_id tokenization])
      in if bt_input_offset tokenization = 0 then Inr output
         else rbind (vec_get results (int (bt_input_offset tokenization))) (\<lambda>next'.
                ugm_backtrack unk results fuel next' is_unknown output))"

definition ugm_search ::
    "'f::linorder float_ops \<Rightarrow> 'f llama_vocab \<Rightarrow> 'f llm_tokenizer_ugm \<Rightarrow> 8 word list \<Rightarrow> 'f best_tokenization list res" where
  "ugm_search F v t normalized =
     ugm_forward F v t normalized 0
       ((replicate (Suc (length normalized))
           \<lparr>bt_token_id = v_unk_id v, bt_input_offset = 0, bt_score_sum = fo_neg_max F\<rparr>)
        [0 := \<lparr>bt_token_id = v_unk_id v, bt_input_offset = 0, bt_score_sum = fo_zero F\<rparr>])"

definition ugm_tokenize ::
    "'f::linorder float_ops \<Rightarrow> 'f llama_vocab \<Rightarrow> 'f llm_tokenizer_ugm \<Rightarrow> 8 word list \<Rightarrow> llama_token list
      \<Rightarrow> llama_token list res" where
  "ugm_tokenize F v t txt output =
     rbind (ugm_normalize v t txt) (\<lambda>normalized.
       if normalized = [] then Inr output
       else
        rbind (ugm_search F v t normalized) (\<lambda>results.
        rbind (ugm_backtrack (v_unk_id v) results (length results) (results ! length normalized) False []) (\<lambda>ts.
          Inr (output @ rev ts))))"

end
