(* ===== verification/VocabPartition.thy ===== *)
theory VocabPartition
  imports VocabPiece
begin

text \<open>
  \<open>tokenizer_st_partition\<close> of llama-vocab.cpp: the special tokens are cut out of the raw text
  before any tokenizer sees it.  The buffer is the list of the \<open>forward_list\<close>'s elements, an
  iterator is an index into it.
\<close>

section \<open>Fragments\<close>

text \<open>A token, or a piece of the raw text: offset and length.\<close>

datatype fragment_buffer_variant = Frag_token llama_token | Frag_text nat nat

definition make_text_fragment :: "8 word list \<Rightarrow> nat \<Rightarrow> nat \<Rightarrow> fragment_buffer_variant res" where
  "make_text_fragment raw_text offset length' =
     rbind (guard (1 \<le> length') Assert_failed) (\<lambda>_.
     rbind (guard (offset + length' \<le> length raw_text) Assert_failed) (\<lambda>_.
       Inr (Frag_text offset length')))"

definition emplace_after :: "nat \<Rightarrow> 'a \<Rightarrow> 'a list \<Rightarrow> 'a list" where
  "emplace_after it x buffer = take (Suc it) buffer @ x # drop (Suc it) buffer"

definition erase_nth :: "nat \<Rightarrow> 'a list \<Rightarrow> 'a list" where
  "erase_nth n buffer = take n buffer @ drop (Suc n) buffer"

section \<open>One special token\<close>

fun lstrip_length :: "8 word list \<Rightarrow> nat \<Rightarrow> nat \<Rightarrow> nat" where
  "lstrip_length raw_text offset 0 = 0"
| "lstrip_length raw_text offset (Suc n) =
     (if c_isspace (raw_text ! (offset + n)) then lstrip_length raw_text offset n else Suc n)"

fun rstrip_from :: "8 word list \<Rightarrow> nat \<Rightarrow> nat \<Rightarrow> nat \<times> nat" where
  "rstrip_from raw_text offset 0 = (offset, 0)"
| "rstrip_from raw_text offset (Suc n) =
     (if c_isspace (raw_text ! offset) then rstrip_from raw_text (Suc offset) n else (offset, Suc n))"

text \<open>A text fragment behind the iterator, if there is anything in it.\<close>

definition put_text ::
    "8 word list \<Rightarrow> nat \<Rightarrow> nat \<Rightarrow> fragment_buffer_variant list \<times> nat
      \<Rightarrow> (fragment_buffer_variant list \<times> nat) res" where
  "put_text raw_text offset n st =
     (let (buffer, it) = st in
      if 0 < n then
        rbind (make_text_fragment raw_text offset n) (\<lambda>x. Inr (emplace_after it x buffer, Suc it))
      else Inr st)"

text \<open>The loop over the matches in one fragment, with its number of rounds bounded.\<close>

fun st_loop ::
    "8 word list \<Rightarrow> 'f token_data \<Rightarrow> llama_token \<Rightarrow> nat \<Rightarrow> nat \<Rightarrow> nat \<Rightarrow> fragment_buffer_variant list \<times> nat
      \<Rightarrow> (fragment_buffer_variant list \<times> nat) res" where
  "st_loop raw_text data special_id 0 base_offset base_length st = Inl Out_of_fuel"
| "st_loop raw_text data special_id (Suc fuel) base_offset base_length st =
     (case str_find raw_text (td_text data) base_offset of
        None \<Rightarrow> Inr st
      | Some match \<Rightarrow>
         let n = length (td_text data); source = snd st in
         if base_offset + base_length < match + n then Inr st
         else
          rbind (if base_offset < match then
                   put_text raw_text base_offset
                     (if td_attr data AND ATTR_LSTRIP \<noteq> 0
                      then lstrip_length raw_text base_offset (match - base_offset)
                      else match - base_offset) st
                 else Inr st) (\<lambda>(buffer, it).
          let buffer = emplace_after it (Frag_token special_id) buffer; it = Suc it in
          if match + n < base_offset + base_length then
            let right_offset = match + n;
                right_length = base_length - ((match - base_offset) + n);
                (right_offset, right_length) =
                  (if td_attr data AND ATTR_RSTRIP \<noteq> 0
                   then rstrip_from raw_text right_offset right_length
                   else (right_offset, right_length))
            in rbind (put_text raw_text right_offset right_length (buffer, it)) (\<lambda>(buffer, it).
                 st_loop raw_text data special_id fuel right_offset right_length
                   (erase_nth source buffer, it - 1))
          else Inr (erase_nth source buffer, it - 1)))"

text \<open>The loop over the fragments of the buffer.\<close>

fun st_sweep ::
    "8 word list \<Rightarrow> 'f token_data \<Rightarrow> llama_token \<Rightarrow> nat \<Rightarrow> fragment_buffer_variant list \<times> nat
      \<Rightarrow> fragment_buffer_variant list res" where
  "st_sweep raw_text data special_id fuel (buffer, it) =
     (if it < length buffer then
        case fuel of
          0 \<Rightarrow> Inl Out_of_fuel
        | Suc fuel \<Rightarrow>
            rbind (case buffer ! it of
                     Frag_text offset n \<Rightarrow> st_loop raw_text data special_id (Suc n) offset n (buffer, it)
                   | Frag_token t \<Rightarrow> Inr (buffer, it))
              (\<lambda>(buffer, it). st_sweep raw_text data special_id fuel (buffer, Suc it))
      else Inr buffer)"

declare st_sweep.simps [simp del]

text \<open>Control and unknown tokens are ignored unless special tokens are to be parsed.\<close>

definition skips_special :: "bool \<Rightarrow> 'f token_data \<Rightarrow> bool" where
  "skips_special parse_special data \<longleftrightarrow> \<not> parse_special \<and> td_attr data AND (ATTR_CONTROL OR ATTR_UNKNOWN) \<noteq> 0"

definition st_token ::
    "'f llama_vocab \<Rightarrow> bool \<Rightarrow> 8 word list \<Rightarrow> llama_token \<Rightarrow> fragment_buffer_variant list
      \<Rightarrow> fragment_buffer_variant list res" where
  "st_token v parse_special raw_text special_id buffer =
     rbind (get_token_data v special_id) (\<lambda>data.
       if skips_special parse_special data then Inr buffer
       else st_sweep raw_text data special_id (length buffer) (buffer, 0))"

definition tokenizer_st_partition ::
    "'f llama_vocab \<Rightarrow> bool \<Rightarrow> 8 word list \<Rightarrow> fragment_buffer_variant list \<Rightarrow> fragment_buffer_variant list res" where
  "tokenizer_st_partition v parse_special raw_text buffer =
     rfold (st_token v parse_special raw_text) (v_cache_special_tokens v) buffer"

end
