(* ===== verification/VocabTokenize.thy ===== *)
theory VocabTokenize
  imports VocabSpm VocabBpe VocabWpm VocabUgm VocabPartition
begin

text \<open>
  \<open>impl::init_tokenizer\<close>, \<open>impl::tokenize\<close> and \<open>llama_vocab::tokenize\<close> of llama-vocab.cpp: the raw
  text is partitioned at the special tokens and every text fragment goes to the session of the
  vocabulary's type.  What the sessions take from elsewhere is the record \<open>tokenize_env\<close>.
\<close>

record 'f tokenize_env =
  te_data :: unicode_data
  te_regex :: std_regex
  te_float :: "'f float_ops"
  te_pick_spm :: "'f llm_bigram_spm list \<Rightarrow> nat"
  te_pick_bpe :: "llm_bigram_bpe list \<Rightarrow> nat"

section \<open>The tokenizer of a vocabulary\<close>

datatype 'f llm_tokenizer =
    Tokenizer_spm
  | Tokenizer_bpe "8 word list list"
  | Tokenizer_wpm
  | Tokenizer_ugm "'f llm_tokenizer_ugm"
  | Tokenizer_rwkv naive_trie

definition init_tokenizer ::
    "'f::linorder tokenize_env \<Rightarrow> 'f llama_vocab \<Rightarrow> 8 word list \<Rightarrow> 'f llm_tokenizer res" where
  "init_tokenizer E v precompiled_charsmap =
     (case v_type v of
        LLAMA_VOCAB_TYPE_SPM \<Rightarrow> Inr Tokenizer_spm
      | LLAMA_VOCAB_TYPE_BPE \<Rightarrow> rbind (llm_tokenizer_bpe v) (\<lambda>exprs. Inr (Tokenizer_bpe exprs))
      | LLAMA_VOCAB_TYPE_WPM \<Rightarrow> Inr Tokenizer_wpm
      | LLAMA_VOCAB_TYPE_UGM \<Rightarrow>
          rbind (make_llm_tokenizer_ugm (te_float E) v precompiled_charsmap) (\<lambda>t. Inr (Tokenizer_ugm t))
      | LLAMA_VOCAB_TYPE_RWKV \<Rightarrow> rbind (llm_tokenizer_rwkv v) (\<lambda>t. Inr (Tokenizer_rwkv t))
      | LLAMA_VOCAB_TYPE_NONE \<Rightarrow> Inl Abort)"

section \<open>The fragments\<close>

definition fragment_text :: "8 word list \<Rightarrow> nat \<Rightarrow> nat \<Rightarrow> 8 word list" where
  "fragment_text raw_text offset n = take n (drop offset raw_text)"

text \<open>The loop over the fragments, for a session \<open>tokenize\<close> that appends to the output.\<close>

definition tokenize_fragment ::
    "(8 word list \<Rightarrow> llama_token list \<Rightarrow> llama_token list res) \<Rightarrow> 8 word list \<Rightarrow> fragment_buffer_variant
      \<Rightarrow> llama_token list \<Rightarrow> llama_token list res" where
  "tokenize_fragment tokenize raw_text fragment output =
     (case fragment of
        Frag_text offset n \<Rightarrow> tokenize (fragment_text raw_text offset n) output
      | Frag_token t \<Rightarrow> Inr (output @ [t]))"

text \<open>SPM adds a blank in front of a text at the beginning and behind a special token.\<close>

definition spm_fragment ::
    "'f::linorder tokenize_env \<Rightarrow> 'f llama_vocab \<Rightarrow> 8 word list \<Rightarrow> fragment_buffer_variant
      \<Rightarrow> llama_token list \<times> bool \<Rightarrow> (llama_token list \<times> bool) res" where
  "spm_fragment E v raw_text fragment st =
     (let (output, is_prev_special) = st in
      case fragment of
        Frag_text offset n \<Rightarrow>
          let txt = (if v_add_space_prefix v \<and> is_prev_special then [0x20] else []) @ fragment_text raw_text offset n
          in rbind (spm_tokenize (te_pick_spm E) v (llama_escape_whitespace txt) output) (\<lambda>output. Inr (output, False))
      | Frag_token t \<Rightarrow> Inr (output @ [t], True))"

definition push_token :: "bool \<Rightarrow> llama_token \<Rightarrow> llama_token list \<Rightarrow> llama_token list res" where
  "push_token add t output =
     (if add then rbind (guard (t \<noteq> LLAMA_TOKEN_NULL) Assert_failed) (\<lambda>_. Inr (output @ [t])) else Inr output)"

definition tokenize_spm ::
    "'f::linorder tokenize_env \<Rightarrow> 'f llama_vocab \<Rightarrow> 8 word list \<Rightarrow> bool \<Rightarrow> fragment_buffer_variant list \<Rightarrow> llama_token list res" where
  "tokenize_spm E v raw_text add_special fragments =
     rbind (push_token (add_special \<and> v_add_bos v) (v_bos_id v) []) (\<lambda>output.
     rbind (rfold (spm_fragment E v raw_text) fragments (output, True)) (\<lambda>(output, _).
       push_token (add_special \<and> v_add_eos v) (v_eos_id v) output))"

definition tokenize_bpe ::
    "'f tokenize_env \<Rightarrow> 'f llama_vocab \<Rightarrow> 8 word list list \<Rightarrow> 8 word list \<Rightarrow> bool \<Rightarrow> fragment_buffer_variant list
      \<Rightarrow> llama_token list res" where
  "tokenize_bpe E v exprs raw_text add_special fragments =
     rbind (if add_special then bpe_append_bos v [] else Inr []) (\<lambda>output.
     rbind (rfold (tokenize_fragment (bpe_tokenize (te_pick_bpe E) (te_data E) (te_regex E) v exprs) raw_text)
              fragments output) (\<lambda>output.
       if add_special then bpe_append_eos v output else Inr output))"

definition tokenize_wpm ::
    "'f tokenize_env \<Rightarrow> 'f llama_vocab \<Rightarrow> 8 word list \<Rightarrow> bool \<Rightarrow> fragment_buffer_variant list \<Rightarrow> llama_token list res" where
  "tokenize_wpm E v raw_text add_special fragments =
     rbind (push_token add_special (v_bos_id v) []) (\<lambda>output.
     rbind (rfold (tokenize_fragment (wpm_tokenize (te_data E) v) raw_text) fragments output) (\<lambda>output.
       push_token add_special (v_sep_id v) output))"

definition tokenize_ugm ::
    "'f::linorder tokenize_env \<Rightarrow> 'f llama_vocab \<Rightarrow> 'f llm_tokenizer_ugm \<Rightarrow> 8 word list \<Rightarrow> bool
      \<Rightarrow> fragment_buffer_variant list \<Rightarrow> llama_token list res" where
  "tokenize_ugm E v t raw_text add_special fragments =
     rbind (push_token (add_special \<and> v_add_bos v) (v_bos_id v) []) (\<lambda>output.
     rbind (rfold (tokenize_fragment (ugm_tokenize (te_float E) v t) raw_text) fragments output) (\<lambda>output.
       push_token (add_special \<and> v_add_eos v) (v_eos_id v) output))"

text \<open>RWKV adds no special tokens; the rounds of its loop are bounded by the length of the text.\<close>

definition tokenize_rwkv ::
    "'f llama_vocab \<Rightarrow> naive_trie \<Rightarrow> 8 word list \<Rightarrow> fragment_buffer_variant list \<Rightarrow> llama_token list res" where
  "tokenize_rwkv v t raw_text fragments =
     rfold (tokenize_fragment (\<lambda>s. rwkv_tokenize v t (length s) s 0) raw_text) fragments []"

section \<open>tokenize\<close>

text \<open>The casts of the tokenizer object follow the vocabulary's type, for which it was made.\<close>

definition impl_tokenize ::
    "'f::linorder tokenize_env \<Rightarrow> 'f llama_vocab \<Rightarrow> 'f llm_tokenizer option \<Rightarrow> 8 word list \<Rightarrow> bool \<Rightarrow> bool
      \<Rightarrow> llama_token list res" where
  "impl_tokenize E v tokenizer raw_text add_special parse_special =
     (case tokenizer of
        None \<Rightarrow> Inl Assert_failed
      | Some tk \<Rightarrow>
          rbind (if raw_text = [] then Inr []
                 else rbind (make_text_fragment raw_text 0 (length raw_text)) (\<lambda>f.
                        tokenizer_st_partition v parse_special raw_text [f])) (\<lambda>fragments.
          case tk of
            Tokenizer_spm \<Rightarrow> tokenize_spm E v raw_text add_special fragments
          | Tokenizer_bpe exprs \<Rightarrow> tokenize_bpe E v exprs raw_text add_special fragments
          | Tokenizer_wpm \<Rightarrow> tokenize_wpm E v raw_text add_special fragments
          | Tokenizer_ugm t \<Rightarrow> tokenize_ugm E v t raw_text add_special fragments
          | Tokenizer_rwkv t \<Rightarrow> tokenize_rwkv v t raw_text fragments))"

text \<open>Into a buffer of \<open>n_tokens_max\<close> tokens: what is returned, and the tokens written.\<close>

definition llama_tokenize ::
    "'f::linorder tokenize_env \<Rightarrow> 'f llama_vocab \<Rightarrow> 'f llm_tokenizer option \<Rightarrow> 8 word list \<Rightarrow> int \<Rightarrow> bool \<Rightarrow> bool
      \<Rightarrow> (int \<times> llama_token list) res" where
  "llama_tokenize E v tokenizer txt n_tokens_max add_special parse_special =
     rbind (impl_tokenize E v tokenizer txt add_special parse_special) (\<lambda>res.
       if n_tokens_max < int (length res) then Inr (- int (length res), [])
       else Inr (int (length res), res))"

end
