(* ===== verification/VocabPartitionProps.thy ===== *)
theory VocabPartitionProps
  imports VocabPartition
begin

text \<open>
  The partition against a plain reference: every text fragment is replaced by what the matches of
  the special token cut it into; and what the fragments cover.
\<close>

section \<open>The reference\<close>

definition left_part :: "8 word list \<Rightarrow> 'f token_data \<Rightarrow> nat \<Rightarrow> nat \<Rightarrow> nat" where
  "left_part raw d off n = (if td_attr d AND ATTR_LSTRIP \<noteq> 0 then lstrip_length raw off n else n)"

definition right_part :: "8 word list \<Rightarrow> 'f token_data \<Rightarrow> nat \<Rightarrow> nat \<Rightarrow> nat \<times> nat" where
  "right_part raw d off n = (if td_attr d AND ATTR_RSTRIP \<noteq> 0 then rstrip_from raw off n else (off, n))"

lemma lstrip_facts:
  "lstrip_length raw off n \<le> n
   \<and> (\<forall>k. lstrip_length raw off n \<le> k \<longrightarrow> k < n \<longrightarrow> c_isspace (raw ! (off + k)))"
  by (induction raw off n rule: lstrip_length.induct) (auto simp: less_Suc_eq)

lemma rstrip_facts:
  "rstrip_from raw off n = (o', n') \<Longrightarrow>
     off \<le> o' \<and> o' + n' = off + n \<and> (\<forall>k. off \<le> k \<longrightarrow> k < o' \<longrightarrow> c_isspace (raw ! k))"
proof (induction raw off n rule: rstrip_from.induct)
  case (2 raw off n)
  then show ?case by (auto split: if_splits) (metis Suc_leI le_neq_implies_less)
qed auto

lemma left_part_facts:
  "left_part raw d off n \<le> n"
  "left_part raw d off n \<le> k \<Longrightarrow> k < n \<Longrightarrow> c_isspace (raw ! (off + k))"
  "td_attr d AND ATTR_LSTRIP = 0 \<Longrightarrow> left_part raw d off n = n"
  using lstrip_facts[of raw off n] by (auto simp: left_part_def split: if_splits)

lemma right_part_facts:
  assumes "right_part raw d off n = (o', n')"
  shows "off \<le> o'" "o' + n' = off + n" "off \<le> k \<Longrightarrow> k < o' \<Longrightarrow> c_isspace (raw ! k)"
    "td_attr d AND ATTR_RSTRIP = 0 \<Longrightarrow> o' = off"
  using assms rstrip_facts[of raw off n o' n'] by (auto simp: right_part_def split: if_splits)

text \<open>The first match in a fragment.\<close>

definition match_in :: "8 word list \<Rightarrow> 'f token_data \<Rightarrow> nat \<Rightarrow> nat \<Rightarrow> nat option" where
  "match_in raw d off n = (case str_find raw (td_text d) off of None \<Rightarrow> None
     | Some m \<Rightarrow> if off + n < m + length (td_text d) then None else Some m)"

lemma match_in_facts:
  assumes "match_in raw d off n = Some m"
  shows "off \<le> m" "m + length (td_text d) \<le> off + n" "m + length (td_text d) \<le> length raw"
    "take (length (td_text d)) (drop m raw) = td_text d"
  using assms str_find_Some[of raw "td_text d" off m] by (auto simp: match_in_def split: option.splits if_splits)

text \<open>What a fragment is cut into; a token with an empty text would match for ever.\<close>

function text_cuts :: "8 word list \<Rightarrow> 'f token_data \<Rightarrow> llama_token \<Rightarrow> nat \<Rightarrow> nat \<Rightarrow> fragment_buffer_variant list" where
  "text_cuts raw d sid off n =
     (if td_text d = [] \<or> n = 0 then []
      else case match_in raw d off n of
        None \<Rightarrow> [Frag_text off n]
      | Some m \<Rightarrow>
          (let l = left_part raw d off (m - off); (ro, rn) = right_part raw d (m + length (td_text d)) (off + n - (m + length (td_text d)))
           in (if l = 0 then [] else [Frag_text off l]) @ Frag_token sid # text_cuts raw d sid ro rn))"
  by pat_completeness auto
termination
proof (relation "measure (\<lambda>(_, _, _, _, n). n)")
  fix raw :: "8 word list" and d :: "'f token_data" and sid :: llama_token and off n m l rp ro rn
  assume a: "\<not> (td_text d = [] \<or> n = 0)" "match_in raw d off n = Some m"
    "rp = right_part raw d (m + length (td_text d)) (off + n - (m + length (td_text d)))" "(ro, rn) = rp"
  have "ro + rn = off + n" "m + length (td_text d) \<le> ro" "off \<le> m" "0 < length (td_text d)"
    using right_part_facts(1,2)[of raw d _ _ ro rn] match_in_facts(1,2)[OF a(2)] a by auto
  moreover have "1 \<le> length (td_text d)" using a(1) by (cases "td_text d") auto
  ultimately show "((raw, d, sid, ro, rn), raw, d, sid, off, n) \<in> measure (\<lambda>(_, _, _, _, n). n)" by simp
qed simp

declare text_cuts.simps [simp del]

lemma cuts_None: "td_text d \<noteq> [] \<Longrightarrow> 0 < n \<Longrightarrow> match_in raw d off n = None \<Longrightarrow> text_cuts raw d sid off n = [Frag_text off n]"
  by (simp add: text_cuts.simps)

lemma cuts_Some:
  assumes "td_text d \<noteq> []" "match_in raw d off n = Some m"
    "right_part raw d (m + length (td_text d)) (off + n - (m + length (td_text d))) = (ro, rn)"
  shows "text_cuts raw d sid off n =
    (if left_part raw d off (m - off) = 0 then [] else [Frag_text off (left_part raw d off (m - off))])
      @ Frag_token sid # text_cuts raw d sid ro rn"
proof -
  have "n \<noteq> 0" using match_in_facts(1,2)[OF assms(2)] assms(1) by (cases "td_text d") auto
  then show ?thesis using assms by (subst text_cuts.simps) (simp add: Let_def)
qed

lemma cuts_0: "text_cuts raw d sid off 0 = []"
  by (simp add: text_cuts.simps)

lemma cuts_not_Nil: "td_text d \<noteq> [] \<Longrightarrow> 0 < n \<Longrightarrow> text_cuts raw d sid off n \<noteq> []"
  by (subst text_cuts.simps) (auto simp: Let_def split: option.split prod.split)

section \<open>The loop implements the reference\<close>

text \<open>The buffer around the iterator.\<close>

lemma emplace_at: "it = length pre + length ds \<Longrightarrow> emplace_after it x (pre @ y # ds @ post) = pre @ y # ds @ x # post"
  by (simp add: emplace_after_def)

lemma erase_at: "n = length pre \<Longrightarrow> erase_nth n (pre @ y # post) = pre @ post"
  by (simp add: erase_nth_def)

definition text_if :: "nat \<Rightarrow> nat \<Rightarrow> fragment_buffer_variant list" where
  "text_if off n = (if n = 0 then [] else [Frag_text off n])"

lemma put_text_at:
  assumes "off + n \<le> length raw" "it = length pre + length ds"
  shows "put_text raw off n (pre @ y # ds @ post, it)
    = Inr (pre @ y # ds @ text_if off n @ post, it + length (text_if off n))"
  using assms emplace_at[OF assms(2)] by (simp add: put_text_def make_text_fragment_def text_if_def)

lemma st_loop_round:
  assumes m: "match_in raw d off n = Some m" and le: "off + n \<le> length raw" and it: "it = length pre"
    and r: "right_part raw d (m + length (td_text d)) (off + n - (m + length (td_text d))) = (ro, rn)"
    and c: "ls = text_if off (left_part raw d off (m - off))"
  shows "st_loop raw d sid (Suc fuel) off n (pre @ y # post, it) =
    (if m + length (td_text d) < off + n
     then st_loop raw d sid fuel ro rn
       (pre @ ls @ Frag_token sid # text_if ro rn @ post, length (pre @ ls) + length (text_if ro rn))
     else Inr (pre @ ls @ Frag_token sid # post, length (pre @ ls)))"
proof -
  let ?t = "td_text d" and ?L = "left_part raw d off (m - off)"
  note f = match_in_facts[OF m]
  have find: "str_find raw ?t off = Some m" "\<not> off + n < m + length ?t"
    using m by (auto simp: match_in_def split: option.splits if_splits)
  have L: "off + ?L \<le> length raw" using left_part_facts(1)[of raw d off "m - off"] f le by simp
  have left: "(if off < m then put_text raw off
        (if td_attr d AND ATTR_LSTRIP \<noteq> 0 then lstrip_length raw off (m - off) else m - off) (pre @ y # post, it)
      else Inr (pre @ y # post, it)) = Inr (pre @ y # ls @ post, it + length ls)"
  proof (cases "off < m")
    case True
    then show ?thesis using put_text_at[OF L, of it pre "[]" y post] it c by (simp add: left_part_def)
  next
    case False
    then have "?L = 0" using left_part_facts(1)[of raw d off "m - off"] by simp
    then show ?thesis using False c by (simp add: text_if_def)
  qed
  have tok: "emplace_after (it + length ls) (Frag_token sid) (pre @ y # ls @ post)
      = pre @ y # ls @ Frag_token sid # post" by (rule emplace_at) (simp add: it)
  have len: "n - (m - off + length ?t) = off + n - (m + length ?t)" using f(1) by simp
  have R: "ro + rn \<le> length raw" using right_part_facts(2)[OF r] f le by simp
  have right: "put_text raw ro rn (pre @ y # ls @ Frag_token sid # post, Suc (it + length ls))
      = Inr (pre @ y # ls @ Frag_token sid # text_if ro rn @ post, Suc (it + length ls) + length (text_if ro rn))"
    using put_text_at[OF R, of "Suc (it + length ls)" pre "ls @ [Frag_token sid]" y post] it by simp
  have erase: "erase_nth it (pre @ y # zs) = pre @ zs" for zs by (rule erase_at[OF it])
  have strip: "(if td_attr d AND ATTR_RSTRIP \<noteq> 0 then rstrip_from raw (m + length ?t) (n - (m - off + length ?t))
      else (m + length ?t, n - (m - off + length ?t))) = (ro, rn)"
    using r unfolding right_part_def len .
  have "st_loop raw d sid (Suc fuel) off n (pre @ y # post, it) =
    (if m + length ?t < off + n
     then st_loop raw d sid fuel ro rn
       (pre @ ls @ Frag_token sid # text_if ro rn @ post, Suc (it + length ls) + length (text_if ro rn) - 1)
     else Inr (pre @ ls @ Frag_token sid # post, Suc (it + length ls) - 1))"
    unfolding st_loop.simps find(1) option.case Let_def strip snd_conv left
    using find(2) by (simp add: tok right erase)
  then show ?thesis by (simp add: it)
qed

lemma st_loop_cuts:
  assumes t: "td_text d \<noteq> []"
  shows "0 < n \<Longrightarrow> off + n \<le> length raw \<Longrightarrow> n < fuel \<Longrightarrow> it = length pre \<Longrightarrow>
    st_loop raw d sid fuel off n (pre @ Frag_text off n # post, it)
      = Inr (pre @ text_cuts raw d sid off n @ post, length (pre @ text_cuts raw d sid off n) - 1)"
proof (induction n arbitrary: off fuel it pre rule: less_induct)
  case (less n)
  then obtain f where f: "fuel = Suc f" by (cases fuel) auto
  show ?case
  proof (cases "match_in raw d off n")
    case None
    then have "st_loop raw d sid fuel off n (pre @ Frag_text off n # post, it) = Inr (pre @ Frag_text off n # post, it)"
      unfolding f by (auto simp: match_in_def Let_def split: option.splits if_splits)
    then show ?thesis using cuts_None[OF t less.prems(1) None] less.prems(4) by simp
  next
    case (Some m)
    let ?e = "m + length (td_text d)"
    obtain ro rn where r: "right_part raw d ?e (off + n - ?e) = (ro, rn)" by fastforce
    note mf = match_in_facts[OF Some] and rf = right_part_facts[OF r]
    let ?ls = "text_if off (left_part raw d off (m - off))"
    have c: "text_cuts raw d sid off n = ?ls @ Frag_token sid # text_cuts raw d sid ro rn"
      using cuts_Some[OF t Some r] by (simp add: text_if_def)
    note round = st_loop_round[OF Some less.prems(2,4) r refl, of sid f "Frag_text off n" post]
    show ?thesis
    proof (cases "?e < off + n")
      case False
      then have "rn = 0" using rf(1,2) by simp
      then show ?thesis using round False c unfolding f by (simp add: cuts_0)
    next
      case True
      have rn: "ro + rn = off + n" "rn < n" using rf(1,2) mf(1) t True by (cases "td_text d"; simp)+
      show ?thesis
      proof (cases "rn = 0")
        case False
        have "st_loop raw d sid f ro rn ((pre @ ?ls @ [Frag_token sid]) @ Frag_text ro rn # post, length (pre @ ?ls @ [Frag_token sid]))
          = Inr ((pre @ ?ls @ [Frag_token sid]) @ text_cuts raw d sid ro rn @ post,
              length ((pre @ ?ls @ [Frag_token sid]) @ text_cuts raw d sid ro rn) - 1)"
          by (rule less.IH) (use rn False less.prems(2,3) f in auto)
        then show ?thesis using round True False c unfolding f by (simp add: text_if_def)
      next
        case r0: True
        then obtain f' where f': "f = Suc f'" using less.prems(1,3) f by (cases f) auto
        have "\<not> ro + rn < i + length (td_text d) \<Longrightarrow> str_find raw (td_text d) ro = Some i \<Longrightarrow> False" for i
          using str_find_Some(1)[of raw "td_text d" ro i] r0 t by (cases "td_text d") auto
        then have "st_loop raw d sid f ro rn st = Inr st" for st
          unfolding f' by (auto simp: Let_def split: option.split)
        then show ?thesis using round True r0 c unfolding f by (simp add: text_if_def cuts_0)
      qed
    qed
  qed
qed

text \<open>All fragments of the buffer.\<close>

definition cut_fragment :: "8 word list \<Rightarrow> 'f token_data \<Rightarrow> llama_token \<Rightarrow> fragment_buffer_variant \<Rightarrow> fragment_buffer_variant list" where
  "cut_fragment raw d sid x = (case x of Frag_token t \<Rightarrow> [x] | Frag_text off n \<Rightarrow> text_cuts raw d sid off n)"

definition frag_ok :: "8 word list \<Rightarrow> fragment_buffer_variant \<Rightarrow> bool" where
  "frag_ok raw x \<longleftrightarrow> (case x of Frag_token t \<Rightarrow> True | Frag_text off n \<Rightarrow> 0 < n \<and> off + n \<le> length raw)"

lemma st_sweep_cuts:
  assumes t: "td_text d \<noteq> []"
  shows "list_all (frag_ok raw) post \<Longrightarrow> length post \<le> fuel \<Longrightarrow> it = length pre \<Longrightarrow>
    st_sweep raw d sid fuel (pre @ post, it) = Inr (pre @ concat (map (cut_fragment raw d sid) post))"
proof (induction post arbitrary: fuel it pre)
  case Nil
  then show ?case by (simp add: st_sweep.simps)
next
  case (Cons x post)
  then obtain f where f: "fuel = Suc f" by (cases fuel) auto
  let ?c = "cut_fragment raw d sid x"
  have IH: "st_sweep raw d sid f ((pre @ ?c) @ post, length (pre @ ?c))
      = Inr ((pre @ ?c) @ concat (map (cut_fragment raw d sid) post))"
    by (rule Cons.IH) (use Cons.prems f in auto)
  show ?case
  proof (cases x)
    case (Frag_token t)
    then show ?thesis using IH Cons.prems(3) by (subst st_sweep.simps) (simp add: f cut_fragment_def)
  next
    case (Frag_text off n)
    then have o: "0 < n" "off + n \<le> length raw" using Cons.prems(1) by (simp_all add: frag_ok_def)
    have c: "?c = text_cuts raw d sid off n" "?c \<noteq> []"
      using Frag_text cuts_not_Nil[OF t o(1)] by (simp_all add: cut_fragment_def)
    have "Suc (length (pre @ ?c) - 1) = length (pre @ ?c)" using c(2) by (cases ?c) auto
    then show ?thesis
      using IH c(1) st_loop_cuts[OF t o lessI Cons.prems(3), of sid post] Cons.prems(3) Frag_text
      by (subst st_sweep.simps) (simp add: f)
  qed
qed

section \<open>What the fragments cover\<close>

definition occurs_in :: "8 word list \<Rightarrow> 8 word list \<Rightarrow> nat \<Rightarrow> nat \<Rightarrow> bool" where
  "occurs_in raw t off n \<longleftrightarrow> (\<exists>i \<ge> off. i + length t \<le> off + n \<and> take (length t) (drop i raw) = t)"

lemma str_find_None_occurs:
  assumes "str_find raw t off = None" "off + n \<le> length raw" shows "\<not> occurs_in raw t off n"
  using assms by (auto simp: occurs_in_def str_find_def find_None_iff simp del: upt_Suc)

lemma str_find_first:
  assumes "str_find raw t off = Some m" "off \<le> i" "i < m" "i + length t \<le> length raw"
  shows "take (length t) (drop i raw) \<noteq> t"
proof -
  from assms(1) obtain k where k: "k < Suc (length raw) - off" "m = off + k"
    "\<forall>j < k. \<not> (off + j + length t \<le> length raw \<and> take (length t) (drop (off + j) raw) = t)"
    unfolding str_find_def find_Some_iff by (auto simp del: upt_Suc)
  then show ?thesis using assms(2-4) k(3)[rule_format, of "i - off"] by auto
qed

lemma no_match_occurs:
  assumes "match_in raw d off n = None" "off + n \<le> length raw"
  shows "\<not> occurs_in raw (td_text d) off n"
proof (cases "str_find raw (td_text d) off")
  case None
  then show ?thesis using str_find_None_occurs assms(2) by blast
next
  case (Some m)
  then have "off + n < m + length (td_text d)" using assms(1) by (simp add: match_in_def split: if_splits)
  show ?thesis
  proof
    assume "occurs_in raw (td_text d) off n"
    then obtain i where i: "off \<le> i" "i + length (td_text d) \<le> off + n"
      "take (length (td_text d)) (drop i raw) = td_text d" unfolding occurs_in_def by blast
    then have "i < m" using \<open>off + n < _\<close> by linarith
    then show False using str_find_first[OF Some i(1)] i(2,3) assms(2) by simp
  qed
qed

lemma left_no_occurs:
  assumes "match_in raw d off n = Some m" "l \<le> m - off" "td_text d \<noteq> []"
  shows "\<not> occurs_in raw (td_text d) off l"
proof -
  note f = match_in_facts[OF assms(1)]
  have find: "str_find raw (td_text d) off = Some m" using assms(1) by (auto simp: match_in_def split: option.splits if_splits)
  have t: "0 < length (td_text d)" using assms(3) by simp
  show ?thesis
  proof
    assume "occurs_in raw (td_text d) off l"
    then obtain i where i: "off \<le> i" "i + length (td_text d) \<le> off + l"
      "take (length (td_text d)) (drop i raw) = td_text d" unfolding occurs_in_def by blast
    then have "i < m" using t f(1) assms(2) by linarith
    then show False using str_find_first[OF find i(1)] i(2,3) f(1,3) assms(2) by simp
  qed
qed

lemma occurs_in_sub: "occurs_in raw t o' n' \<Longrightarrow> off \<le> o' \<Longrightarrow> o' + n' \<le> off + n \<Longrightarrow> occurs_in raw t off n"
  unfolding occurs_in_def by (meson le_trans)

text \<open>The parts of a fragment lie in it and do not contain the special token.\<close>

definition cut_part :: "8 word list \<Rightarrow> 'f token_data \<Rightarrow> llama_token \<Rightarrow> nat \<Rightarrow> nat \<Rightarrow> fragment_buffer_variant \<Rightarrow> bool" where
  "cut_part raw d sid off n x \<longleftrightarrow> (case x of Frag_token t \<Rightarrow> t = sid
     | Frag_text o' n' \<Rightarrow> 0 < n' \<and> off \<le> o' \<and> o' + n' \<le> off + n \<and> \<not> occurs_in raw (td_text d) o' n')"

lemma cut_part_simps [simp]:
  "cut_part raw d sid off n (Frag_token t) \<longleftrightarrow> t = sid"
  "cut_part raw d sid off n (Frag_text o' n') \<longleftrightarrow>
     0 < n' \<and> off \<le> o' \<and> o' + n' \<le> off + n \<and> \<not> occurs_in raw (td_text d) o' n'"
  by (simp_all add: cut_part_def)

lemma cuts_parts:
  assumes "td_text d \<noteq> []"
  shows "off + n \<le> length raw \<Longrightarrow> list_all (cut_part raw d sid off n) (text_cuts raw d sid off n)"
proof (induction n arbitrary: off rule: less_induct)
  case (less n)
  show ?case
  proof (cases "n = 0")
    case False
    then have n: "0 < n" by simp
    show ?thesis
    proof (cases "match_in raw d off n")
      case None
      then show ?thesis using cuts_None[OF assms n None] no_match_occurs[OF None less.prems] n by simp
    next
      case (Some m)
      let ?e = "m + length (td_text d)" and ?l = "left_part raw d off (m - off)"
      obtain ro rn where r: "right_part raw d ?e (off + n - ?e) = (ro, rn)" by fastforce
      note mf = match_in_facts[OF Some] and rf = right_part_facts[OF r]
      have t: "0 < length (td_text d)" using assms by simp
      have rn: "ro + rn = off + n" "rn < n" "off \<le> ro" using rf(1,2) mf(1,2) t by linarith+
      have "list_all (cut_part raw d sid ro rn) (text_cuts raw d sid ro rn)"
        using less.IH[OF rn(2)] rn(1) less.prems by simp
      then have "list_all (cut_part raw d sid off n) (text_cuts raw d sid ro rn)"
        using rn by (auto simp: list_all_iff cut_part_def split: fragment_buffer_variant.splits)
      moreover have "?l \<le> m - off" by (rule left_part_facts(1))
      ultimately show ?thesis
        using cuts_Some[OF assms Some r] left_no_occurs[OF Some _ assms, of ?l] mf(1,2) by auto
    qed
  qed (simp add: cuts_0)
qed

text \<open>
  Fragments spell a text when, read one after the other, they give it; between them blanks may
  be left out where \<open>strips\<close> allows it.
\<close>

abbreviation special_data :: "'f llama_vocab \<Rightarrow> llama_token \<Rightarrow> 'f token_data" where
  "special_data v t \<equiv> v_id_to_token v ! nat t"

definition frag_bytes :: "'f llama_vocab \<Rightarrow> 8 word list \<Rightarrow> fragment_buffer_variant \<Rightarrow> 8 word list" where
  "frag_bytes v raw x = (case x of Frag_token t \<Rightarrow> td_text (special_data v t) | Frag_text off n \<Rightarrow> take n (drop off raw))"

inductive spells :: "'f llama_vocab \<Rightarrow> 8 word list \<Rightarrow> bool \<Rightarrow> 8 word list \<Rightarrow> fragment_buffer_variant list \<Rightarrow> bool"
  for v raw blanks where
  spells_Nil: "spells v raw blanks [] []"
| spells_blank: "blanks \<Longrightarrow> c_isspace c \<Longrightarrow> spells v raw blanks s fs \<Longrightarrow> spells v raw blanks (c # s) fs"
| spells_frag: "spells v raw blanks s fs \<Longrightarrow> spells v raw blanks (frag_bytes v raw x @ s) (x # fs)"

lemma spells_append:
  "spells v raw b s fs \<Longrightarrow> spells v raw b s' fs' \<Longrightarrow> spells v raw b (s @ s') (fs @ fs')"
proof (induction rule: spells.induct)
  case (spells_frag s fs x)
  then show ?case using spells.spells_frag[of v raw b "s @ s'" "fs @ fs'" x] by simp
qed (simp_all add: spells.intros)

lemma spells_blanks:
  assumes "b \<or> s = []" "\<And>c. c \<in> set s \<Longrightarrow> c_isspace c" shows "spells v raw b s []"
  using assms by (induction s) (auto intro: spells.intros)

lemma spells_exact: "spells v raw False s fs \<Longrightarrow> s = concat (map (frag_bytes v raw) fs)"
  by (induction s fs rule: spells.induct) simp_all

lemma spells_replace:
  assumes "spells v raw b s fs" "\<And>x. x \<in> set fs \<Longrightarrow> spells v raw b (frag_bytes v raw x) (f x)"
  shows "spells v raw b s (concat (map f fs))"
  using assms
proof (induction rule: spells.induct)
  case (spells_frag s fs x)
  then show ?case using spells_append[of v raw b "frag_bytes v raw x" "f x" s] by simp
qed (simp_all add: spells.intros)

text \<open>A range of the raw text, cut at a position.\<close>

lemma range_split: "o' + n' = off + n \<Longrightarrow> off \<le> o' \<Longrightarrow>
    take n (drop off raw) = take (o' - off) (drop off raw) @ take n' (drop o' raw)"
  using take_add[of "o' - off" n' "drop off raw"] by (simp add: add.commute)

lemma blanks_range:
  assumes "\<And>k. off \<le> k \<Longrightarrow> k < e \<Longrightarrow> c_isspace (raw ! k)" "e \<le> length raw" "off < e \<Longrightarrow> b"
  shows "spells v raw b (take (e - off) (drop off raw)) []"
proof (rule spells_blanks)
  show "b \<or> take (e - off) (drop off raw) = []" using assms(3) by (cases "off < e") auto
  show "c_isspace c" if "c \<in> set (take (e - off) (drop off raw))" for c
    using that assms(1,2) by (auto simp: in_set_conv_nth)
qed

definition strips_blanks :: "'f token_data \<Rightarrow> bool" where
  "strips_blanks d \<longleftrightarrow> td_attr d AND ATTR_LSTRIP \<noteq> 0 \<or> td_attr d AND ATTR_RSTRIP \<noteq> 0"

lemma cuts_spell:
  assumes t: "td_text d \<noteq> []" and d: "special_data v sid = d" and b: "strips_blanks d \<longrightarrow> b"
  shows "off + n \<le> length raw \<Longrightarrow> spells v raw b (take n (drop off raw)) (text_cuts raw d sid off n)"
proof (induction n arbitrary: off rule: less_induct)
  case (less n)
  show ?case
  proof (cases "n = 0 \<or> match_in raw d off n = None")
    case True
    then show ?thesis
      using cuts_None[OF t, of n raw off sid] spells_frag[OF spells_Nil, of v raw b "Frag_text off n"]
      by (cases "n = 0") (auto simp: cuts_0 frag_bytes_def intro: spells.intros)
  next
    case False
    then obtain m where m: "match_in raw d off n = Some m" by blast
    let ?e = "m + length (td_text d)" and ?l = "left_part raw d off (m - off)"
    obtain ro rn where r: "right_part raw d ?e (off + n - ?e) = (ro, rn)" by fastforce
    note mf = match_in_facts[OF m] and rf = right_part_facts[OF r] and lf = left_part_facts[where raw = raw and d = d and off = off and n = "m - off"]
    have t0: "0 < length (td_text d)" using t by simp
    have rn: "ro + rn = off + n" "rn < n" "off \<le> ro" using rf(1,2) mf(1,2) t0 by linarith+
    have left: "spells v raw b (take ?l (drop off raw)) (if ?l = 0 then [] else [Frag_text off ?l])"
      using spells_frag[OF spells_Nil, of v raw b "Frag_text off ?l"] by (auto simp: frag_bytes_def intro: spells.intros)
    have lgap: "spells v raw b (take (m - (off + ?l)) (drop (off + ?l) raw)) []"
    proof (rule blanks_range)
      show "c_isspace (raw ! k)" if "off + ?l \<le> k" "k < m" for k using lf(2)[of "k - off"] that by simp
      show "b" if "off + ?l < m" using lf(3) that b mf(1) by (auto simp: strips_blanks_def)
    qed (use mf in simp)
    have tok: "spells v raw b (td_text d) [Frag_token sid]"
      using spells_frag[OF spells_Nil, of v raw b "Frag_token sid"] d by (simp add: frag_bytes_def)
    have rgap: "spells v raw b (take (ro - ?e) (drop ?e raw)) []"
      by (rule blanks_range) (use rf less.prems rn b in \<open>auto simp: strips_blanks_def\<close>)
    have right: "spells v raw b (take rn (drop ro raw)) (text_cuts raw d sid ro rn)"
      using less.IH[OF rn(2)] rn(1) less.prems by simp
    have s: "take n (drop off raw) = take ?l (drop off raw) @ take (m - (off + ?l)) (drop (off + ?l) raw)
        @ td_text d @ take (ro - ?e) (drop ?e raw) @ take rn (drop ro raw)"
      using range_split[of m "off + n - m" off n raw] range_split[of "off + ?l" "m - (off + ?l)" off "m - off" raw]
        range_split[of ?e "off + n - ?e" m "off + n - m" raw] range_split[of ro rn ?e "off + n - ?e" raw]
        mf(1,2,4) lf(1) rf(1) rn(1) by simp
    show ?thesis
      using spells_append[OF left spells_append[OF lgap spells_append[OF tok spells_append[OF rgap right]]]]
        cuts_Some[OF t m r] s by simp
  qed
qed

section \<open>The partition\<close>

text \<open>The special tokens that are looked for.\<close>

definition searched_tokens :: "'f llama_vocab \<Rightarrow> bool \<Rightarrow> llama_token list" where
  "searched_tokens v parse_special = filter (\<lambda>t. \<not> skips_special parse_special (special_data v t)) (v_cache_special_tokens v)"

definition specials_ok :: "'f llama_vocab \<Rightarrow> bool \<Rightarrow> bool" where
  "specials_ok v parse_special \<longleftrightarrow> v_type v \<noteq> LLAMA_VOCAB_TYPE_NONE
     \<and> list_all (\<lambda>t. 0 \<le> t \<and> t < int (n_tokens v)) (v_cache_special_tokens v)
     \<and> list_all (\<lambda>t. td_text (special_data v t) \<noteq> []) (searched_tokens v parse_special)"

text \<open>What has been reached when the tokens \<open>ts\<close> are done.\<close>

definition parted :: "'f llama_vocab \<Rightarrow> 8 word list \<Rightarrow> bool \<Rightarrow> llama_token list \<Rightarrow> fragment_buffer_variant list \<Rightarrow> bool" where
  "parted v raw blanks ts frags \<longleftrightarrow> spells v raw blanks raw frags
     \<and> list_all (\<lambda>x. case x of Frag_token t \<Rightarrow> t \<in> set ts
          | Frag_text off n \<Rightarrow> 0 < n \<and> off + n \<le> length raw
              \<and> list_all (\<lambda>t. \<not> occurs_in raw (td_text (special_data v t)) off n) ts) frags"

lemma parted_cut:
  assumes p: "parted v raw b ts frags" and t: "td_text (special_data v sid) \<noteq> []"
    and b: "strips_blanks (special_data v sid) \<longrightarrow> b"
  shows "parted v raw b (ts @ [sid]) (concat (map (cut_fragment raw (special_data v sid) sid) frags))"
proof -
  let ?d = "special_data v sid" and ?c = "cut_fragment raw (special_data v sid) sid"
  have ok: "frag_ok raw x" if "x \<in> set frags" for x
    using p that by (auto simp: parted_def list_all_iff frag_ok_def split: fragment_buffer_variant.splits)
  have "spells v raw b raw (concat (map ?c frags))"
  proof (rule spells_replace)
    show "spells v raw b raw frags" using p by (simp add: parted_def)
    show "spells v raw b (frag_bytes v raw x) (?c x)" if "x \<in> set frags" for x
      using ok[OF that] cuts_spell[OF t refl b, where raw = raw] spells_frag[OF spells_Nil, of v raw b x]
      by (cases x) (simp_all add: cut_fragment_def frag_ok_def frag_bytes_def)
  qed
  moreover have "list_all (\<lambda>y. case y of Frag_token t \<Rightarrow> t \<in> set (ts @ [sid])
      | Frag_text off n \<Rightarrow> 0 < n \<and> off + n \<le> length raw
          \<and> list_all (\<lambda>t. \<not> occurs_in raw (td_text (special_data v t)) off n) (ts @ [sid])) (?c x)"
    if x: "x \<in> set frags" for x
  proof (cases x)
    case (Frag_token t)
    then show ?thesis using p x by (auto simp: parted_def list_all_iff cut_fragment_def)
  next
    case (Frag_text off n)
    then have f: "off + n \<le> length raw" "list_all (\<lambda>t. \<not> occurs_in raw (td_text (special_data v t)) off n) ts"
      using p x by (auto simp: parted_def list_all_iff)
    have "list_all (cut_part raw ?d sid off n) (text_cuts raw ?d sid off n)" by (rule cuts_parts[OF t f(1)])
    then show ?thesis
      using f occurs_in_sub[of raw _ _ _ off n] unfolding Frag_text cut_fragment_def
      by (fastforce simp: list_all_iff cut_part_def split: fragment_buffer_variant.splits)
  qed
  ultimately show ?thesis by (simp add: parted_def list_all_iff)
qed

lemma partition_parts:
  assumes ok: "specials_ok v parse_special" and b: "list_ex (\<lambda>t. strips_blanks (special_data v t)) (searched_tokens v parse_special) \<longrightarrow> b"
    and p: "parted v raw b [] frags"
  shows "\<exists>frags'. tokenizer_st_partition v parse_special raw frags = Inr frags'
    \<and> parted v raw b (searched_tokens v parse_special) frags'"
proof -
  have "\<exists>frags'. rfold (st_token v parse_special raw) ts frags = Inr frags'
      \<and> parted v raw b (done @ filter (\<lambda>t. \<not> skips_special parse_special (special_data v t)) ts) frags'"
    if "set ts \<subseteq> set (v_cache_special_tokens v)" "parted v raw b done frags" for ts "done" frags
    using that
  proof (induction ts arbitrary: "done" frags)
    case (Cons t ts)
    let ?d = "special_data v t"
    have d: "get_token_data v t = Inr ?d"
      using ok Cons.prems(1) by (auto simp: specials_ok_def list_all_iff get_token_data_def has_vocab_def vec_at_def n_tokens_def)
    show ?case
    proof (cases "skips_special parse_special ?d")
      case True
      then show ?thesis using Cons.IH[OF _ Cons.prems(2)] Cons.prems(1) d by (simp add: st_token_def)
    next
      case False
      then have s: "t \<in> set (searched_tokens v parse_special)" using Cons.prems(1) by (simp add: searched_tokens_def)
      then have t: "td_text ?d \<noteq> []" using ok by (simp add: specials_ok_def list_all_iff)
      have "strips_blanks ?d \<longrightarrow> b" using b s by (auto simp: list_ex_iff)
      note c = parted_cut[OF Cons.prems(2) t this]
      have "list_all (frag_ok raw) frags"
        using Cons.prems(2) by (auto simp: parted_def list_all_iff frag_ok_def split: fragment_buffer_variant.splits)
      then have "st_token v parse_special raw t frags = Inr (concat (map (cut_fragment raw ?d t) frags))"
        using st_sweep_cuts[OF t, of raw frags "length frags" 0 "[]" t] False d by (simp add: st_token_def)
      then show ?thesis using Cons.IH[OF _ c] Cons.prems(1) False by simp
    qed
  qed simp
  from this[OF order_refl p] show ?thesis by (simp add: tokenizer_st_partition_def searched_tokens_def)
qed

lemma parted_start: "raw \<noteq> [] \<Longrightarrow> parted v raw b [] [Frag_text 0 (length raw)]"
  using spells_frag[OF spells_Nil, of v raw b "Frag_text 0 (length raw)"] by (simp add: parted_def frag_bytes_def)

end
