(* ===== verification/VocabWpmProps.thy ===== *)
theory VocabWpmProps
  imports VocabWpm
begin

text \<open>The WPM session against the cover of each word by longest tokens.\<close>

section \<open>The reference\<close>

text \<open>
  The longest token that \<open>s\<close> starts with, up to one byte more than the longest token; and the cover of
  a word by such tokens.
\<close>

definition token_of :: "'f llama_vocab \<Rightarrow> 8 word list \<Rightarrow> llama_token option" where
  "token_of v s = (case v_token_to_id v s of None \<Rightarrow> None
     | Some t \<Rightarrow> if t = LLAMA_TOKEN_NULL then None else Some t)"

definition longest_token :: "'f llama_vocab \<Rightarrow> 8 word list \<Rightarrow> nat option" where
  "longest_token v s =
     List.find (\<lambda>k. token_of v (take k s) \<noteq> None) (rev [1..<Suc (nat (min (int (length s)) (v_max_token_len v + 1)))])"

lemma longest_token_pos: "longest_token v s = Some k \<Longrightarrow> 0 < k \<and> k \<le> length s"
  unfolding longest_token_def find_Some_iff
  by (metis (no_types, lifting) One_nat_def Suc_le_eq atLeastLessThan_iff length_rev less_Suc_eq_le min.cobounded1
      nat_int nat_mono nth_mem order.trans set_rev set_upt)

function wpm_cover :: "'f llama_vocab \<Rightarrow> 8 word list \<Rightarrow> llama_token list option" where
  "wpm_cover v s =
     (if s = [] then Some []
      else case longest_token v s of
        None \<Rightarrow> None
      | Some k \<Rightarrow> map_option ((#) (the (token_of v (take k s)))) (wpm_cover v (drop k s)))"
  by pat_completeness auto
termination
  by (relation "measure (\<lambda>(_, s). length s)") (auto dest!: longest_token_pos)

declare wpm_cover.simps [simp del]

lemma wpm_match_longest:
  assumes v: "v_type v \<noteq> LLAMA_VOCAB_TYPE_NONE"
  shows "wpm_match v w i (i + n) = Inr (map_option (\<lambda>k. (the (token_of v (take k (drop i w))), i + k))
    (List.find (\<lambda>k. token_of v (take k (drop i w)) \<noteq> None) (rev [1..<Suc n])))"
proof (induction n)
  case 0
  then show ?case by (cases i) simp_all
next
  case (Suc n)
  have t: "text_to_token v s = Inr (case token_of v s of None \<Rightarrow> LLAMA_TOKEN_NULL | Some t \<Rightarrow> t)" for s
    using v by (simp add: text_to_token_def has_vocab_def token_of_def split: option.split)
  have nn: "token_of v s = Some t \<Longrightarrow> t \<noteq> LLAMA_TOKEN_NULL" for s t
    by (auto simp: token_of_def split: option.splits if_splits)
  show ?case
    using Suc t[of "take (Suc n) (drop i w)"] nn[of "take (Suc n) (drop i w)"]
    by (cases "token_of v (take (Suc n) (drop i w))") auto
qed

lemma wpm_chars_cover:
  assumes v: "v_type v \<noteq> LLAMA_VOCAB_TYPE_NONE" "0 \<le> v_max_token_len v"
  shows "i \<le> length w \<Longrightarrow> c \<le> length out \<Longrightarrow> wpm_chars v w c i out = Inr (case wpm_cover v (drop i w) of
    None \<Rightarrow> take c out | Some ts \<Rightarrow> out @ ts)"
proof (induction "length w - i" arbitrary: i out rule: less_induct)
  case less
  show ?case
  proof (cases "i < length w")
    case False
    then show ?thesis using less.prems by (subst wpm_chars.simps) (simp add: wpm_cover.simps)
  next
    case True
    let ?n = "nat (min (int (length (drop i w))) (v_max_token_len v + 1))"
    have e: "wpm_last_end v (length w) i = i + ?n"
      using True v(2) by (simp add: wpm_last_end_def min_def nat_add_distrib nat_diff_distrib of_nat_diff split: if_splits)
    have m: "wpm_match v w i (i + ?n) = Inr (map_option (\<lambda>k. (the (token_of v (take k (drop i w))), i + k))
        (longest_token v (drop i w)))"
      using wpm_match_longest[OF v(1), of w i ?n] by (simp add: longest_token_def)
    have c: "wpm_cover v (drop i w) = (case longest_token v (drop i w) of
        None \<Rightarrow> None
      | Some k \<Rightarrow> map_option ((#) (the (token_of v (take k (drop i w))))) (wpm_cover v (drop (i + k) w)))"
      using True by (subst wpm_cover.simps) (simp add: add.commute split: option.split)
    show ?thesis
    proof (cases "longest_token v (drop i w)")
      case None
      then show ?thesis using True m c by (subst wpm_chars.simps) (simp add: e)
    next
      case (Some k)
      then have k: "0 < k" "i + k \<le> length w" using longest_token_pos[OF Some] True by auto
      have IH: "wpm_chars v w c (i + k) (out @ [t]) = Inr (case wpm_cover v (drop (i + k) w) of
          None \<Rightarrow> take c (out @ [t]) | Some ts \<Rightarrow> (out @ [t]) @ ts)" for t
        using less.hyps[of "i + k" "out @ [t]"] k True less.prems(2) by simp
      show ?thesis
        using True m c Some less.prems(2) IH
        by (subst wpm_chars.simps) (auto simp: e split: option.split)
    qed
  qed
qed
text \<open>The tokens of a word: its cover with the phantom space in front, or the unknown token.\<close>

definition wpm_emit :: "'f llama_vocab \<Rightarrow> 8 word list \<Rightarrow> llama_token list" where
  "wpm_emit v word = (if word = [] then []
     else case wpm_cover v (escaped_space @ word) of None \<Rightarrow> [v_unk_id v] | Some ts \<Rightarrow> ts)"

lemma wpm_cover_not_Nil: "s \<noteq> [] \<Longrightarrow> wpm_cover v s \<noteq> Some []"
  by (subst wpm_cover.simps) (auto split: option.splits)

lemma wpm_word_emits:
  assumes "v_type v \<noteq> LLAMA_VOCAB_TYPE_NONE" "0 \<le> v_max_token_len v"
  shows "wpm_word v word out = Inr (out @ wpm_emit v word)"
  using wpm_chars_cover[OF assms, of 0 "escaped_space @ word" "length out" out]
    wpm_cover_not_Nil[of "escaped_space @ word" v]
  by (auto simp: wpm_word_def wpm_emit_def split: option.split)

lemma wpm_words_emit:
  assumes "v_type v \<noteq> LLAMA_VOCAB_TYPE_NONE" "0 \<le> v_max_token_len v"
  shows "rfold (wpm_word v) words out = Inr (out @ concat (map (wpm_emit v) words))"
  by (induction words arbitrary: out) (simp_all add: wpm_word_emits[OF assms])

text \<open>The texts of a cover's tokens give the word.\<close>

lemma wpm_cover_text:
  assumes "\<And>s t. token_of v s = Some t \<Longrightarrow> f t = s"
  shows "wpm_cover v s = Some ts \<Longrightarrow> concat (map f ts) = s"
proof (induction "length s" arbitrary: s ts rule: less_induct)
  case less
  show ?case
  proof (cases "s = []")
    case True
    then show ?thesis using less.prems by (simp add: wpm_cover.simps)
  next
    case False
    then obtain k ts' where k: "longest_token v s = Some k" "wpm_cover v (drop k s) = Some ts'"
      "ts = the (token_of v (take k s)) # ts'"
      using less.prems by (subst (asm) wpm_cover.simps) (auto split: option.splits)
    then have "token_of v (take k s) \<noteq> None" by (auto simp: longest_token_def find_Some_iff)
    moreover have "0 < k" using longest_token_pos[OF k(1)] by simp
    then have "concat (map f ts') = drop k s" using less.hyps[OF _ k(2)] False by simp
    ultimately show ?thesis using assms k(3) by auto
  qed
qed

end
