(* ===== verification/VocabTokenizeProps.thy ===== *)
theory VocabTokenizeProps
  imports VocabTokenize VocabPartitionProps VocabWpmProps VocabBpeText VocabSpmProps VocabTrieProps
begin

text \<open>
  The composition: a raw text through the partition and the sessions, and for BPE the way back
  through \<open>detokenize\<close>.
\<close>

section \<open>Special tokens\<close>

text \<open>
  The special tokens are looked for with their text, they are control, unknown or user-defined
  tokens, and none strips blanks.
\<close>

definition specials_plain :: "'f llama_vocab \<Rightarrow> bool" where
  "specials_plain v \<longleftrightarrow> list_all (\<lambda>t. td_attr (special_data v t) AND (attr_special OR ATTR_USER_DEFINED) \<noteq> 0
     \<and> \<not> strips_blanks (special_data v t)) (v_cache_special_tokens v)"

lemma searched_cached: "t \<in> set (searched_tokens v ps) \<Longrightarrow> t \<in> set (v_cache_special_tokens v)"
  by (simp add: searched_tokens_def)

lemma special_piece:
  assumes v: "v_type v = LLAMA_VOCAB_TYPE_BPE" "pieces_cached v"
    and t: "specials_ok v ps" "specials_plain v" "t \<in> set (searched_tokens v ps)"
  shows "piece_text v t True = Inr (td_text (special_data v t))"
proof -
  have r: "0 \<le> t" "t < int (n_tokens v)" "td_attr (special_data v t) AND (attr_special OR ATTR_USER_DEFINED) \<noteq> 0"
    using t searched_cached[OF t(3)] by (auto simp: specials_ok_def specials_plain_def list_all_iff)
  let ?v = "v\<lparr>v_cache_token_to_piece := []\<rparr>"
  have "token_get_attr ?v t = Inr (td_attr (special_data v t))"
    using r v(1) by (simp add: token_get_attr_def get_token_data_def has_vocab_def vec_at_def n_tokens_def)
  then have "piece_text ?v t True = Inr (td_text (special_data v t))"
    using r(3) v(1) by (simp add: piece_text_def)
  then show ?thesis by (intro piece_text_cached[OF v(2) r(1,2)]) simp_all
qed

lemma detok_append:
  "detok_text v special False (xs @ ys)
    = rbind (detok_text v special False xs) (\<lambda>s. rbind (detok_text v special False ys) (\<lambda>t. Inr (s @ t)))"
proof (induction xs)
  case Nil
  then show ?case by (cases "detok_text v special False ys") simp_all
qed (simp add: rbind_assoc)

section \<open>The fragments of a BPE text\<close>

text \<open>What a text must be to come back: well-formed, split by the expressions, and its words plain.\<close>

definition bpe_text_ok :: "unicode_data \<Rightarrow> std_regex \<Rightarrow> 'f llama_vocab \<Rightarrow> 8 word list list \<Rightarrow> 8 word list \<Rightarrow> bool" where
  "bpe_text_ok D R v exprs s \<longleftrightarrow> (\<exists>cs. unicode_cpts_to_utf8 cs = Inr s)
     \<and> (\<exists>ws. unicode_regex_split D R s exprs = Inr ws
          \<and> (\<forall>w \<in> set ws. v_ignore_merges v \<longrightarrow> v_token_to_id v w \<noteq> None \<longrightarrow> plain_token v w))"

definition fragment_ok :: "'f tokenize_env \<Rightarrow> 'f llama_vocab \<Rightarrow> 8 word list list \<Rightarrow> 8 word list \<Rightarrow> fragment_buffer_variant \<Rightarrow> bool" where
  "fragment_ok E v exprs raw x = (case x of Frag_token t \<Rightarrow> True
     | Frag_text off n \<Rightarrow> bpe_text_ok (te_data E) (te_regex E) v exprs (fragment_text raw off n))"

lemma bpe_fragments_back:
  assumes pick: "\<And>q. q \<noteq> [] \<Longrightarrow> te_pick_bpe E q < length q"
    and v: "v_type v = LLAMA_VOCAB_TYPE_BPE" "bpe_closed v" "pieces_cached v" "regex_ok (te_regex E)"
    and s: "specials_ok v ps" "specials_plain v"
  shows "list_all (fragment_ok E v exprs raw) frags \<Longrightarrow>
    list_all (\<lambda>x. case x of Frag_token t \<Rightarrow> t \<in> set (searched_tokens v ps) | _ \<Rightarrow> True) frags \<Longrightarrow>
    \<exists>toks. rfold (tokenize_fragment (bpe_tokenize (te_pick_bpe E) (te_data E) (te_regex E) v exprs) raw) frags out
        = Inr (out @ toks)
      \<and> detok_text v True False toks = Inr (concat (map (frag_bytes v raw) frags))"
proof (induction frags arbitrary: out)
  case (Cons x frags)
  have "\<exists>toks. tokenize_fragment (bpe_tokenize (te_pick_bpe E) (te_data E) (te_regex E) v exprs) raw x out = Inr (out @ toks)
      \<and> detok_text v True False toks = Inr (frag_bytes v raw x)"
  proof (cases x)
    case (Frag_token t)
    then have "piece_text v t True = Inr (td_text (special_data v t))"
      using special_piece[OF v(1,3) s] Cons.prems(2) by simp
    then show ?thesis using Frag_token by (auto simp: tokenize_fragment_def frag_bytes_def)
  next
    case (Frag_text off n)
    then obtain cs ws where
      "unicode_cpts_to_utf8 cs = Inr (fragment_text raw off n)"
      "unicode_regex_split (te_data E) (te_regex E) (fragment_text raw off n) exprs = Inr ws"
      "\<forall>w \<in> set ws. v_ignore_merges v \<longrightarrow> v_token_to_id v w \<noteq> None \<longrightarrow> plain_token v w"
      using Cons.prems(1) by (auto simp: fragment_ok_def bpe_text_ok_def)
    from bpe_there_and_back[OF pick v(1-4) this(2,3,1), of out True] show ?thesis
      using Frag_text by (auto simp: tokenize_fragment_def frag_bytes_def fragment_text_def)
  qed
  then obtain toks where toks:
    "tokenize_fragment (bpe_tokenize (te_pick_bpe E) (te_data E) (te_regex E) v exprs) raw x out = Inr (out @ toks)"
    "detok_text v True False toks = Inr (frag_bytes v raw x)" by blast
  from Cons.IH[of "out @ toks"] Cons.prems obtain toks' where
    "rfold (tokenize_fragment (bpe_tokenize (te_pick_bpe E) (te_data E) (te_regex E) v exprs) raw) frags (out @ toks)
      = Inr ((out @ toks) @ toks')"
    "detok_text v True False toks' = Inr (concat (map (frag_bytes v raw) frags))" by auto
  with toks show ?case by (intro exI[of _ "toks @ toks'"]) (simp add: detok_append)
qed simp

section \<open>BPE there and back\<close>

text \<open>The tokens between the added special ones.\<close>

lemma inner_added:
  assumes "v_add_bos v \<longrightarrow> v_bos_id v \<noteq> LLAMA_TOKEN_NULL" "v_add_eos v \<longrightarrow> v_eos_id v \<noteq> LLAMA_TOKEN_NULL"
  shows "inner_tokens v special ((if special \<and> v_add_bos v then [v_bos_id v] else []) @ toks
      @ (if special \<and> v_add_eos v then [v_eos_id v] else [])) = toks"
  by (auto simp: inner_tokens_def Let_def)

lemma bpe_tokenize_back:
  assumes pick: "\<And>q. q \<noteq> [] \<Longrightarrow> te_pick_bpe E q < length q"
    and v: "v_type v = LLAMA_VOCAB_TYPE_BPE" "bpe_closed v" "pieces_cached v" "regex_ok (te_regex E)"
    and s: "specials_ok v ps" "specials_plain v"
    and ids: "v_add_bos v \<longrightarrow> v_bos_id v \<noteq> LLAMA_TOKEN_NULL" "v_add_eos v \<longrightarrow> v_eos_id v \<noteq> LLAMA_TOKEN_NULL"
    and raw: "raw \<noteq> []" "tokenizer_st_partition v ps raw [Frag_text 0 (length raw)] = Inr frags"
      "list_all (fragment_ok E v exprs raw) frags"
  shows "\<exists>toks. impl_tokenize E v (Some (Tokenizer_bpe exprs)) raw special ps = Inr toks
    \<and> detok_text v True False (inner_tokens v special toks) = Inr raw"
proof -
  have "\<not> list_ex (\<lambda>t. strips_blanks (special_data v t)) (searched_tokens v ps)"
    using s(2) by (auto simp: list_ex_iff specials_plain_def list_all_iff searched_tokens_def)
  then have "parted v raw False (searched_tokens v ps) frags"
    using partition_parts[OF s(1), of False, OF _ parted_start[OF raw(1)]] raw(2) by auto
  then have p: "spells v raw False raw frags"
    "list_all (\<lambda>x. case x of Frag_token t \<Rightarrow> t \<in> set (searched_tokens v ps) | _ \<Rightarrow> True) frags"
    by (auto simp: parted_def list_all_iff split: fragment_buffer_variant.splits)
  let ?bos = "if special \<and> v_add_bos v then [v_bos_id v] else []"
  let ?eos = "if special \<and> v_add_eos v then [v_eos_id v] else []"
  from bpe_fragments_back[OF pick v s raw(3) p(2), of ?bos] obtain toks where toks:
    "rfold (tokenize_fragment (bpe_tokenize (te_pick_bpe E) (te_data E) (te_regex E) v exprs) raw) frags ?bos = Inr (?bos @ toks)"
    "detok_text v True False toks = Inr raw"
    using spells_exact[OF p(1)] by auto
  have "make_text_fragment raw 0 (length raw) = Inr (Frag_text 0 (length raw))"
    using raw(1) by (cases raw) (simp_all add: make_text_fragment_def)
  moreover have "(if special then bpe_append_bos v [] else Inr []) = Inr ?bos"
    using ids(1) by (simp add: bpe_append_bos_def)
  moreover have "(if special then bpe_append_eos v out else Inr out) = Inr (out @ ?eos)" for out
    using ids(2) by (simp add: bpe_append_eos_def)
  ultimately have "impl_tokenize E v (Some (Tokenizer_bpe exprs)) raw special ps = Inr (?bos @ toks @ ?eos)"
    using raw(1,2) toks(1) by (simp add: impl_tokenize_def tokenize_bpe_def)
  then show ?thesis using inner_added[OF ids, of special toks] toks(2) by auto
qed

end
