(* ===== verification/VocabUgmProps.thy ===== *)
theory VocabUgmProps
  imports VocabUgm VocabTrieProps
begin

text \<open>
  The Viterbi search of the UGM session: the walk down the trie as the list of the edges that
  leave a code point, and the table as the best scores of all ways to a place.
\<close>

declare upt_Suc [simp del]

section \<open>Edges\<close>

definition cpt_length :: "8 word list \<Rightarrow> nat \<Rightarrow> nat" where
  "cpt_length s i = min (unicode_len_utf8 (s ! i)) (length s - i)"

lemma cpt_length_pos: "i < length s \<Longrightarrow> 0 < cpt_length s i \<and> i + cpt_length s i \<le> length s"
  using len_utf8_pos[of "s ! i"] by (auto simp: cpt_length_def)

text \<open>The sum that challenges an entry: in double precision for a token, in float for the unknown one.\<close>

definition edge_sum :: "'f float_ops \<Rightarrow> bool \<Rightarrow> 'f \<Rightarrow> 'f \<Rightarrow> 'f" where
  "edge_sum F in_double a w = (if in_double then fo_add F a w else fo_round F (fo_add F a w))"

text \<open>The token of the \<open>k\<close> bytes at \<open>i\<close>: its id, its end, its weight, and that it is summed in double.\<close>

definition token_edge ::
    "'f float_ops \<Rightarrow> 'f llama_vocab \<Rightarrow> 'f llm_tokenizer_ugm \<Rightarrow> 8 word list \<Rightarrow> nat \<Rightarrow> nat \<Rightarrow> (llama_token \<times> nat \<times> 'f \<times> bool) list" where
  "token_edge F v t s i k = (case trie_look (ug_token_matcher t) (take k (drop i s)) of
      None \<Rightarrow> []
    | Some tok \<Rightarrow> [(tok, i + k, case ugm_token_score F v tok of Inr w \<Rightarrow> w | Inl _ \<Rightarrow> fo_zero F, True)])"

definition ugm_edges ::
    "'f float_ops \<Rightarrow> 'f llama_vocab \<Rightarrow> 'f llm_tokenizer_ugm \<Rightarrow> 8 word list \<Rightarrow> nat \<Rightarrow> (llama_token \<times> nat \<times> 'f \<times> bool) list" where
  "ugm_edges F v t s i = concat (map (token_edge F v t s i) [1..<Suc (length s - i)])
     @ (if token_edge F v t s i (cpt_length s i) = [] then [(v_unk_id v, i + cpt_length s i, ug_unknown_score t, False)] else [])"

definition challenge_edge ::
    "'f::linorder float_ops \<Rightarrow> nat \<Rightarrow> llama_token \<times> nat \<times> 'f \<times> bool \<Rightarrow> 'f best_tokenization list \<Rightarrow> 'f best_tokenization list" where
  "challenge_edge F i e res = (case e of (tok, j, w, d) \<Rightarrow>
     ugm_challenge F tok i (edge_sum F d (bt_score_sum (res ! i)) w) j res)"

definition tokens_in_range :: "'f llama_vocab \<Rightarrow> naive_trie \<Rightarrow> bool" where
  "tokens_in_range v T \<longleftrightarrow> (\<forall>s tok. trie_look T s = Some tok \<longrightarrow> 0 \<le> tok \<and> tok < int (n_tokens v))"

lemma ugm_token_score_total:
  "v_type v \<noteq> LLAMA_VOCAB_TYPE_NONE \<Longrightarrow> 0 \<le> tok \<Longrightarrow> tok < int (n_tokens v) \<Longrightarrow> \<exists>w. ugm_token_score F v tok = Inr w"
  by (simp add: ugm_token_score_def get_token_data_def is_user_defined_def has_attr_def has_vocab_def
      vec_at_def vec_get_def n_tokens_def)

text \<open>The matcher that the constructor builds holds token ids only.\<close>

lemma ugm_matcher_range:
  assumes "make_llm_tokenizer_ugm F v charsmap = Inr t"
  shows "tokens_in_range v (ug_token_matcher t)"
proof -
  from assms obtain x r t0 where
    f: "rfold (ugm_add_token v) [0..<n_tokens v] \<lparr>ug_prefix_replacements = r, ug_xcda_array = x,
      ug_user_defined = empty_trie, ug_token_matcher = empty_trie, ug_min_score = fo_max F,
      ug_max_score = fo_neg_max F, ug_unknown_score = fo_zero F\<rparr> = Inr t0"
    and t: "ug_token_matcher t = ug_token_matcher t0"
    by (auto simp: make_llm_tokenizer_ugm_def split: prod.splits)
  have "tokens_in_range v (ug_token_matcher t0)"
  proof (rule rfold_invariant[OF f])
    show "tokens_in_range v (ug_token_matcher u')"
      if "i \<in> set [0..<n_tokens v]" "tokens_in_range v (ug_token_matcher u)" "ugm_add_token v i u = Inr u'" for i u u'
      using that by (auto simp: ugm_add_token_def Let_def tokens_in_range_def look_trie_insert split: if_splits)
  qed (simp add: tokens_in_range_def look_empty_trie)
  then show ?thesis using t by simp
qed

text \<open>The walk tries the edges in the order of their length.\<close>

lemma trie_node_snoc: "trie_node T (u @ [c]) = (case trie_node T u of None \<Rightarrow> None | Some nd \<Rightarrow> children nd c)"
  by (induction T u rule: trie_node.induct) (auto split: option.split)

lemma trie_node_None: "trie_node T u = None \<Longrightarrow> trie_look T (u @ x) = None"
proof -
  have "trie_node T (u @ x) = None" if "trie_node T u = None" using that
    by (induction T u rule: trie_node.induct) (auto split: option.splits)
  then show "trie_node T u = None \<Longrightarrow> trie_look T (u @ x) = None" by (simp add: trie_look_def)
qed

lemma take_prefix_look:
  assumes "trie_node T (take k s) = None" "k \<le> m"
  shows "trie_look T (take m s) = None"
proof -
  have "take m s = take k s @ take (m - k) (drop k s)" using assms(2) by (simp flip: take_add)
  then show ?thesis using trie_node_None[OF assms(1)] by simp
qed

lemma walk_edges:
  assumes v: "v_type v \<noteq> LLAMA_VOCAB_TYPE_NONE" "tokens_in_range v (ug_token_matcher t)"
  shows "0 < k \<Longrightarrow> i + k \<le> Suc (length s) \<Longrightarrow> (i + k \<le> length s \<Longrightarrow> nd = trie_node (ug_token_matcher t) (take k (drop i s))) \<Longrightarrow>
    ugm_walk F v s i n nd (i + k) (found, res)
      = Inr (found \<or> list_ex (\<lambda>m. m = n \<and> token_edge F v t s i m \<noteq> []) [k..<Suc (length s - i)],
             fold (challenge_edge F i) (concat (map (token_edge F v t s i) [k..<Suc (length s - i)])) res)"
proof (induction "Suc (length s) - (i + k)" arbitrary: k nd found res rule: less_induct)
  case less
  let ?T = "ug_token_matcher t"
  show ?case
  proof (cases "i + k \<le> length s")
    case False
    then have "[k..<Suc (length s - i)] = []" using less.prems(1,2) by simp
    then show ?thesis using False by (subst ugm_walk.simps) simp
  next
    case True
    then have nd: "nd = trie_node ?T (take k (drop i s))" using less.prems(3) by blast
    have range: "[k..<Suc (length s - i)] = k # [Suc k..<Suc (length s - i)]" by (rule upt_conv_Cons) (use True in linarith)
    show ?thesis
    proof (cases nd)
      case None
      then have "token_edge F v t s i m = []" if "k \<le> m" for m
        using take_prefix_look[of ?T k "drop i s" m] nd that by (simp add: token_edge_def)
      then have "concat (map (token_edge F v t s i) [k..<Suc (length s - i)]) = []"
        "\<not> list_ex (\<lambda>m. m = n \<and> token_edge F v t s i m \<noteq> []) [k..<Suc (length s - i)]"
        by (auto simp: list_ex_iff)
      then show ?thesis unfolding None by (subst ugm_walk.simps) (simp only: option.case if_cancel fold_simps simp_thms id_apply)
    next
      case (Some node)
      have nd': "trie_node ?T (take k (drop i s)) = Some node" using nd Some by simp
      then have look: "trie_look ?T (take k (drop i s)) = node_value node" by (simp add: trie_look_def)
      have step: "(if has_value node then
            let (found, results) = (found, res) in
            rbind (ugm_token_score F v (trie_value node)) (\<lambda>token_score.
              Inr (found \<or> (i + k) - i = n, ugm_challenge F (trie_value node) i
                (fo_add F (bt_score_sum (results ! i)) token_score) (i + k) results))
          else Inr (found, res))
        = Inr (found \<or> (k = n \<and> token_edge F v t s i k \<noteq> []), fold (challenge_edge F i) (token_edge F v t s i k) res)"
      proof (cases "has_value node")
        case True
        then have "0 \<le> trie_value node \<and> trie_value node < int (n_tokens v)"
          using v(2) look unfolding tokens_in_range_def node_value_def by presburger
        then obtain w where "ugm_token_score F v (trie_value node) = Inr w" using ugm_token_score_total[OF v(1)] by blast
        then show ?thesis using True look by (simp add: token_edge_def node_value_def challenge_edge_def edge_sum_def)
      qed (simp add: token_edge_def look node_value_def)
      have snoc: "take (Suc k) (drop i s) = take k (drop i s) @ [s ! (i + k)]" if "i + k < length s"
        using that by (simp add: take_Suc_conv_app_nth)
      have next': "Suc (i + k) \<le> length s \<Longrightarrow> traverse node (s ! (i + k)) = trie_node ?T (take (Suc k) (drop i s))"
        using nd' snoc by (simp add: traverse_def trie_node_snoc)
      obtain c where c: "str_get s (i + k) = Inr c" "i + k < length s \<Longrightarrow> c = s ! (i + k)"
        using True by (cases "i + k < length s") (auto simp: str_get_def)
      have IH: "ugm_walk F v s i n (traverse node c) (i + Suc k) (found', res')
        = Inr (found' \<or> list_ex (\<lambda>m. m = n \<and> token_edge F v t s i m \<noteq> []) [Suc k..<Suc (length s - i)],
             fold (challenge_edge F i) (concat (map (token_edge F v t s i) [Suc k..<Suc (length s - i)])) res')" for found' res'
        by (rule less.hyps) (use True next' c in auto)
      show ?thesis
        using True Some step c(1) IH by (subst ugm_walk.simps) (simp add: range)
    qed
  qed
qed

text \<open>The places where a code point starts.\<close>

function cpt_starts :: "8 word list \<Rightarrow> nat \<Rightarrow> nat list" where
  "cpt_starts s i = (if i < length s then i # cpt_starts s (i + cpt_length s i) else [])"
  by pat_completeness auto
termination
proof (relation "measure (\<lambda>(s, i). length s - i)", goal_cases)
  case (2 s i)
  then show ?case using cpt_length_pos[of i s] by auto
qed simp

declare cpt_starts.simps [simp del]

lemma cpt_starts_less: "i \<in> set (cpt_starts s off) \<Longrightarrow> off \<le> i \<and> i < length s"
proof (induction s off rule: cpt_starts.induct)
  case (1 s off)
  then show ?case by (subst (asm) (2) cpt_starts.simps) (fastforce split: if_splits)
qed

lemma forward_edges:
  assumes v: "v_type v \<noteq> LLAMA_VOCAB_TYPE_NONE" "tokens_in_range v (ug_token_matcher t)"
  shows "ugm_forward F v t s off res
    = Inr (fold (\<lambda>i. fold (challenge_edge F i) (ugm_edges F v t s i)) (cpt_starts s off) res)"
proof (induction s off arbitrary: res rule: cpt_starts.induct)
  case (1 s off)
  show ?case
  proof (cases "off < length s")
    case False
    then show ?thesis by (simp add: ugm_forward.simps cpt_starts.simps)
  next
    case True
    let ?n = "cpt_length s off"
    let ?te = "concat (map (token_edge F v t s off) [1..<Suc (length s - off)])"
    let ?found = "list_ex (\<lambda>m. m = ?n \<and> token_edge F v t s off m \<noteq> []) [1..<Suc (length s - off)]"
    have n: "1 \<le> ?n" "?n < Suc (length s - off)" using cpt_length_pos[OF True] by linarith+
    have found: "?found \<longleftrightarrow> token_edge F v t s off ?n \<noteq> []"
      using n by (auto simp: list_ex_iff)
    have node: "traverse (ug_token_matcher t) (s ! off) = trie_node (ug_token_matcher t) (take 1 (drop off s))"
      using True by (simp add: traverse_def take_Suc_conv_app_nth Cons_nth_drop_Suc[symmetric] split: option.split)
    have walk: "ugm_walk F v s off ?n (traverse (ug_token_matcher t) (s ! off)) (off + 1) (False, res)
        = Inr (?found, fold (challenge_edge F off) ?te res)"
      using walk_edges[OF v, of 1 off s "traverse (ug_token_matcher t) (s ! off)" F ?n False res] node True by simp
    have "ugm_forward F v t s off res = ugm_forward F v t s (off + ?n)
        (fold (challenge_edge F off) (ugm_edges F v t s off) res)"
      using True walk found
      by (subst ugm_forward.simps) (auto simp: Let_def cpt_length_def[symmetric] ugm_edges_def challenge_edge_def edge_sum_def)
    then show ?thesis using 1[OF True] True by (subst cpt_starts.simps) simp
  qed
qed

section \<open>Paths and scores\<close>

text \<open>What the proof needs of the float operations; rounding and sums of finite floats have it.\<close>

definition float_ops_ok :: "'f::linorder float_ops \<Rightarrow> bool" where
  "float_ops_ok F \<longleftrightarrow> (\<forall>a b. a \<le> b \<longrightarrow> fo_round F a \<le> fo_round F b)
     \<and> (\<forall>a b w. a \<le> b \<longrightarrow> fo_add F a w \<le> fo_add F b w)
     \<and> (\<forall>a. fo_round F (fo_round F a) = fo_round F a)
     \<and> fo_round F (fo_zero F) = fo_zero F \<and> fo_round F (fo_neg_max F) = fo_neg_max F"

text \<open>The ways to a place: tokens with their weights, one edge after the other from the front.\<close>

inductive ugm_path ::
    "'f float_ops \<Rightarrow> 'f llama_vocab \<Rightarrow> 'f llm_tokenizer_ugm \<Rightarrow> 8 word list \<Rightarrow> nat \<Rightarrow> (llama_token \<times> 'f) list \<Rightarrow> bool"
  for F v t s where
  path_start: "ugm_path F v t s 0 []"
| path_edge: "ugm_path F v t s i p \<Longrightarrow> i \<in> set (cpt_starts s 0) \<Longrightarrow> (tok, j, w, d) \<in> set (ugm_edges F v t s i)
    \<Longrightarrow> ugm_path F v t s j (p @ [(tok, w)])"

definition path_score :: "'f float_ops \<Rightarrow> (llama_token \<times> 'f) list \<Rightarrow> 'f" where
  "path_score F p = foldl (\<lambda>a (_, w). fo_round F (fo_add F a w)) (fo_zero F) p"

lemma path_score_snoc: "path_score F (p @ [(tok, w)]) = fo_round F (fo_add F (path_score F p) w)"
  by (simp add: path_score_def)

text \<open>No sum falls to the value the table starts with.\<close>

definition no_underflow :: "'f::linorder float_ops \<Rightarrow> 'f llama_vocab \<Rightarrow> 'f llm_tokenizer_ugm \<Rightarrow> 8 word list \<Rightarrow> bool" where
  "no_underflow F v t s \<longleftrightarrow> (\<forall>i p tok j w d. ugm_path F v t s i p \<longrightarrow> i \<in> set (cpt_starts s 0) \<longrightarrow>
     (tok, j, w, d) \<in> set (ugm_edges F v t s i) \<longrightarrow> fo_neg_max F < edge_sum F d (path_score F p) w)"

lemma ugm_edges_forward:
  assumes "(tok, j, w, d) \<in> set (ugm_edges F v t s i)" "i < length s"
  shows "i < j" "j \<le> length s"
  using assms cpt_length_pos[OF assms(2)]
  by (auto simp: ugm_edges_def token_edge_def split: option.splits if_splits)

text \<open>Some edge leads to the next code point.\<close>

lemma ugm_edge_next:
  assumes "i < length s" obtains tok w d where "(tok, i + cpt_length s i, w, d) \<in> set (ugm_edges F v t s i)"
proof (cases "token_edge F v t s i (cpt_length s i)")
  case Nil
  then have "(v_unk_id v, i + cpt_length s i, ug_unknown_score t, False) \<in> set (ugm_edges F v t s i)" by (simp add: ugm_edges_def)
  then show thesis by (rule that)
next
  case (Cons e es)
  then obtain tok w d where "(tok, i + cpt_length s i, w, d) \<in> set (token_edge F v t s i (cpt_length s i))"
    by (auto simp: token_edge_def split: option.splits)
  moreover have "cpt_length s i \<in> set [1..<Suc (length s - i)]" using cpt_length_pos[OF assms] unfolding set_upt by simp linarith
  ultimately have "(tok, i + cpt_length s i, w, d) \<in> set (ugm_edges F v t s i)"
    unfolding ugm_edges_def set_append set_concat set_map by blast
  then show thesis by (rule that)
qed

section \<open>The table\<close>

abbreviation score_at :: "'f best_tokenization list \<Rightarrow> nat \<Rightarrow> 'f" where
  "score_at res j \<equiv> bt_score_sum (res ! j)"

text \<open>An entry that was set by an edge from a place in \<open>done\<close>.\<close>

definition set_by ::
    "'f float_ops \<Rightarrow> 'f llama_vocab \<Rightarrow> 'f llm_tokenizer_ugm \<Rightarrow> 8 word list \<Rightarrow> nat set \<Rightarrow> 'f best_tokenization list \<Rightarrow> nat \<Rightarrow> bool" where
  "set_by F v t s dn res j \<longleftrightarrow> (\<exists>i tok w d. i \<in> dn \<and> (tok, j, w, d) \<in> set (ugm_edges F v t s i)
     \<and> res ! j = \<lparr>bt_token_id = tok, bt_input_offset = i, bt_score_sum = fo_round F (fo_add F (score_at res i) w)\<rparr>)"

text \<open>
  The table when the edges \<open>es\<close> (from places below \<open>off\<close>, or from \<open>off\<close> itself) have been tried.
\<close>

definition table_ok ::
    "'f::linorder float_ops \<Rightarrow> 'f llama_vocab \<Rightarrow> 'f llm_tokenizer_ugm \<Rightarrow> 8 word list \<Rightarrow> nat set
      \<Rightarrow> (nat \<times> nat \<times> 'f) set \<Rightarrow> 'f best_tokenization list \<Rightarrow> bool" where
  "table_ok F v t s dn es res \<longleftrightarrow> length res = Suc (length s)
     \<and> res ! 0 = \<lparr>bt_token_id = v_unk_id v, bt_input_offset = 0, bt_score_sum = fo_zero F\<rparr>
     \<and> (\<forall>j. 0 < j \<longrightarrow> j \<le> length s \<longrightarrow> set_by F v t s dn res j
          \<or> res ! j = \<lparr>bt_token_id = v_unk_id v, bt_input_offset = 0, bt_score_sum = fo_neg_max F\<rparr>)
     \<and> (\<forall>(i, j, w) \<in> es. fo_round F (fo_add F (score_at res i) w) \<le> score_at res j \<and> set_by F v t s dn res j)"

lemma table_okD:
  assumes "table_ok F v t s dn es res"
  shows "length res = Suc (length s)" "score_at res 0 = fo_zero F"
    "0 < j \<Longrightarrow> j \<le> length s \<Longrightarrow> \<not> set_by F v t s dn res j \<Longrightarrow> score_at res j = fo_neg_max F"
    "(i, j, w) \<in> es \<Longrightarrow> fo_round F (fo_add F (score_at res i) w) \<le> score_at res j"
    "(i, j, w) \<in> es \<Longrightarrow> set_by F v t s dn res j"
proof -
  note T = assms[unfolded table_ok_def]
  show "length res = Suc (length s)" "score_at res 0 = fo_zero F" using T by simp_all
  show "0 < j \<Longrightarrow> j \<le> length s \<Longrightarrow> \<not> set_by F v t s dn res j \<Longrightarrow> score_at res j = fo_neg_max F"
    using T by (metis best_tokenization.select_convs(3))
  show "(i, j, w) \<in> es \<Longrightarrow> fo_round F (fo_add F (score_at res i) w) \<le> score_at res j"
    "(i, j, w) \<in> es \<Longrightarrow> set_by F v t s dn res j" using T by fastforce+
qed

lemma table_rounded:
  assumes "table_ok F v t s dn es res" "float_ops_ok F" "j \<le> length s"
  shows "fo_round F (score_at res j) = score_at res j"
proof (cases "0 < j \<and> set_by F v t s dn res j")
  case True
  then show ?thesis using assms(2) by (auto simp: set_by_def float_ops_ok_def)
next
  case False
  then show ?thesis using table_okD(2,3)[OF assms(1)] assms(2,3) by (cases "j = 0") (auto simp: float_ops_ok_def)
qed

lemma set_by_other:
  assumes "set_by F v t s dn res j'" "j' \<noteq> j" "\<And>i. i \<in> dn \<Longrightarrow> i \<noteq> j"
  shows "set_by F v t s dn (res[j := x]) j'"
proof -
  from assms(1) obtain i tok w d where s: "i \<in> dn" "(tok, j', w, d) \<in> set (ugm_edges F v t s i)"
    "res ! j' = \<lparr>bt_token_id = tok, bt_input_offset = i, bt_score_sum = fo_round F (fo_add F (score_at res i) w)\<rparr>"
    unfolding set_by_def by blast
  then have "res[j := x] ! j' = \<lparr>bt_token_id = tok, bt_input_offset = i,
      bt_score_sum = fo_round F (fo_add F (score_at (res[j := x]) i) w)\<rparr>"
    using assms(2) assms(3)[OF s(1)] by simp
  then show ?thesis using s unfolding set_by_def by blast
qed

lemma table_challenge:
  assumes T: "table_ok F v t s dn es res" and F: "float_ops_ok F" and i: "i < length s" "i \<in> dn" "dn \<subseteq> {..i}"
    and es: "fst ` es \<subseteq> dn" and e: "(tok, j, w, d) \<in> set (ugm_edges F v t s i)"
    and u: "fo_neg_max F < edge_sum F d (score_at res i) w"
  shows "table_ok F v t s dn (insert (i, j, w) es) (challenge_edge F i (tok, j, w, d) res)
    \<and> score_at (challenge_edge F i (tok, j, w, d) res) i = score_at res i"
proof -
  note j = ugm_edges_forward[OF e i(1)]
  have dj: "k \<noteq> j" if "k \<in> dn" for k using that i(3) j(1) by auto
  have mono: "fo_round F a \<le> fo_round F b" if "a \<le> b" for a b using F that by (simp add: float_ops_ok_def)
  note r = table_rounded[OF T F j(2)]
  let ?c = "edge_sum F d (score_at res i) w"
  have sum: "fo_round F ?c = fo_round F (fo_add F (score_at res i) w)"
    using F by (simp add: edge_sum_def float_ops_ok_def)
  show ?thesis
  proof (cases "score_at res j < ?c")
    case False
    then have c: "challenge_edge F i (tok, j, w, d) res = res" by (simp add: challenge_edge_def ugm_challenge_def)
    have "score_at res j \<noteq> fo_neg_max F" using False u by auto
    then have "set_by F v t s dn res j" using table_okD(3)[OF T _ j(2)] j(1) by auto
    moreover have "fo_round F (fo_add F (score_at res i) w) \<le> score_at res j" using mono[of ?c "score_at res j"] False r sum by simp
    ultimately show ?thesis using T c unfolding table_ok_def by auto
  next
    case True
    let ?x = "\<lparr>bt_token_id = tok, bt_input_offset = i, bt_score_sum = fo_round F (fo_add F (score_at res i) w)\<rparr>"
    have c: "challenge_edge F i (tok, j, w, d) res = res[j := ?x]"
      using True sum by (simp add: challenge_edge_def ugm_challenge_def)
    have len: "j < length res" using table_okD(1)[OF T] j(2) by simp
    have at: "score_at (res[j := ?x]) k = score_at res k" if "k \<noteq> j" for k using that by simp
    have atj: "score_at (res[j := ?x]) j = fo_round F (fo_add F (score_at res i) w)" using len by simp
    have sj: "set_by F v t s dn (res[j := ?x]) j"
      unfolding set_by_def using i(2) e len j(1) by (intro exI[of _ i] exI[of _ tok] exI[of _ w] exI[of _ d]) simp
    have other: "set_by F v t s dn (res[j := ?x]) k" if "set_by F v t s dn res k" for k
      using set_by_other[OF that _ dj] sj by (cases "k = j") auto
    have up: "score_at res k \<le> score_at (res[j := ?x]) k" for k
    proof (cases "k = j")
      case True
      then show ?thesis using atj mono[of "score_at res j" ?c] \<open>score_at res j < _\<close> r sum by simp
    qed (simp add: at)
    have "fo_round F (fo_add F (score_at (res[j := ?x]) k) w') \<le> score_at (res[j := ?x]) l \<and> set_by F v t s dn (res[j := ?x]) l"
      if "(k, l, w') \<in> insert (i, j, w) es" for k l w'
    proof (cases "(k, l, w') = (i, j, w)")
      case True
      then show ?thesis using sj atj at[of i] j(1) by simp
    next
      case False
      then have kl: "(k, l, w') \<in> es" using that by auto
      then have "k \<in> dn" using es by force
      then have "score_at (res[j := ?x]) k = score_at res k" using at dj[OF \<open>k \<in> dn\<close>] by simp
      then show ?thesis using table_okD(4,5)[OF T kl] up[of l] other order_trans by fastforce
    qed
    moreover have "set_by F v t s dn (res[j := ?x]) k \<or> res[j := ?x] ! k =
        \<lparr>bt_token_id = v_unk_id v, bt_input_offset = 0, bt_score_sum = fo_neg_max F\<rparr>" if "0 < k" "k \<le> length s" for k
      using T that sj other[of k] unfolding table_ok_def by (cases "k = j") auto
    moreover have "res[j := ?x] ! 0 = res ! 0" using j(1) by simp
    moreover have "length (res[j := ?x]) = Suc (length s)" using table_okD(1)[OF T] by simp
    moreover have "res ! 0 = \<lparr>bt_token_id = v_unk_id v, bt_input_offset = 0, bt_score_sum = fo_zero F\<rparr>"
      using T by (simp add: table_ok_def)
    ultimately have "table_ok F v t s dn (insert (i, j, w) es) (res[j := ?x])"
      unfolding table_ok_def by (intro conjI allI impI ballI) (simp, simp, blast, blast)
    then show ?thesis unfolding c using at[of i] j(1) by simp
  qed
qed

section \<open>The search\<close>

definition edges_of :: "'f float_ops \<Rightarrow> 'f llama_vocab \<Rightarrow> 'f llm_tokenizer_ugm \<Rightarrow> 8 word list \<Rightarrow> nat set \<Rightarrow> (nat \<times> nat \<times> 'f) set" where
  "edges_of F v t s dn = {(i, j, w). i \<in> dn \<and> (\<exists>tok d. (tok, j, w, d) \<in> set (ugm_edges F v t s i))}"

lemma table_grow: "table_ok F v t s dn es res \<Longrightarrow> dn \<subseteq> dn' \<Longrightarrow> table_ok F v t s dn' es res"
  unfolding table_ok_def set_by_def by blast

lemma table_place:
  assumes T: "table_ok F v t s dn (edges_of F v t s dn) res" and F: "float_ops_ok F" and i: "i < length s" "dn \<subseteq> {..<i}"
    and u: "\<And>tok j w d. (tok, j, w, d) \<in> set (ugm_edges F v t s i) \<Longrightarrow> fo_neg_max F < edge_sum F d (score_at res i) w"
  shows "table_ok F v t s (insert i dn) (edges_of F v t s (insert i dn)) (fold (challenge_edge F i) (ugm_edges F v t s i) res)"
proof -
  let ?E = "edges_of F v t s dn" and ?dn = "insert i dn"
  have "table_ok F v t s ?dn (?E \<union> {(i, j, w) | j w. \<exists>tok d. (tok, j, w, d) \<in> set es}) (fold (challenge_edge F i) es res)
      \<and> score_at (fold (challenge_edge F i) es res) i = score_at res i"
    if "set es \<subseteq> set (ugm_edges F v t s i)" for es
    using that
  proof (induction es rule: rev_induct)
    case Nil
    then show ?case using table_grow[OF T, of ?dn] by auto
  next
    case (snoc e es)
    obtain tok j w d where e: "e = (tok, j, w, d)" by (cases e)
    let ?res = "fold (challenge_edge F i) es res" and ?es = "?E \<union> {(i, j, w) | j w. \<exists>tok d. (tok, j, w, d) \<in> set es}"
    have IH: "table_ok F v t s ?dn ?es ?res" "score_at ?res i = score_at res i" using snoc by simp_all
    have m: "(tok, j, w, d) \<in> set (ugm_edges F v t s i)" using snoc.prems e by simp
    have "table_ok F v t s ?dn (insert (i, j, w) ?es) (challenge_edge F i (tok, j, w, d) ?res)
        \<and> score_at (challenge_edge F i (tok, j, w, d) ?res) i = score_at ?res i"
    proof (rule table_challenge[OF IH(1) F i(1) _ _ _ m])
      show "?dn \<subseteq> {..i}" using i(2) by auto
      show "fst ` ?es \<subseteq> ?dn" by (auto simp: edges_of_def)
      show "fo_neg_max F < edge_sum F d (score_at ?res i) w" using u[OF m] IH(2) by simp
    qed simp
    moreover have "insert (i, j, w) ?es = ?E \<union> {(i, j, w) | j w. \<exists>tok d. (tok, j, w, d) \<in> set (es @ [e])}"
      using e by auto
    ultimately show ?case using IH(2) e by simp
  qed
  from this[OF order_refl] have "table_ok F v t s ?dn (?E \<union> {(i, j, w) | j w. \<exists>tok d. (tok, j, w, d) \<in> set (ugm_edges F v t s i)})
    (fold (challenge_edge F i) (ugm_edges F v t s i) res)" by blast
  moreover have "?E \<union> {(i, j, w) | j w. \<exists>tok d. (tok, j, w, d) \<in> set (ugm_edges F v t s i)} = edges_of F v t s ?dn"
    by (auto simp: edges_of_def)
  ultimately show ?thesis by simp
qed

text \<open>The table when all places before \<open>off\<close> are done; every one of them is the end of an edge.\<close>

definition search_inv ::
    "'f::linorder float_ops \<Rightarrow> 'f llama_vocab \<Rightarrow> 'f llm_tokenizer_ugm \<Rightarrow> 8 word list \<Rightarrow> nat \<Rightarrow> nat set \<Rightarrow> 'f best_tokenization list \<Rightarrow> bool" where
  "search_inv F v t s off dn res \<longleftrightarrow> table_ok F v t s dn (edges_of F v t s dn) res \<and> dn \<subseteq> {..<off} \<and> off \<le> length s
     \<and> dn \<union> set (cpt_starts s off) = set (cpt_starts s 0)
     \<and> (\<forall>i \<in> insert off dn. i = 0 \<or> (\<exists>k w. (k, i, w) \<in> edges_of F v t s dn))"

text \<open>Following the entries back gives a way with the score of the table.\<close>

fun emit_back :: "llama_token \<Rightarrow> bool \<Rightarrow> llama_token list \<Rightarrow> llama_token list" where
  "emit_back unk prev [] = []"
| "emit_back unk prev (x # xs) = (if prev \<and> x = unk then [] else [x]) @ emit_back unk (x = unk) xs"

lemma table_traces:
  assumes I: "search_inv F v t s off dn res"
  shows "j = 0 \<or> set_by F v t s dn res j \<Longrightarrow> \<exists>p. ugm_path F v t s j p \<and> path_score F p = score_at res j \<and> length p \<le> j
    \<and> (0 < j \<longrightarrow> (\<forall>fuel prev out. length p \<le> fuel \<longrightarrow>
         ugm_backtrack (v_unk_id v) res fuel (res ! j) prev out = Inr (out @ emit_back (v_unk_id v) prev (rev (map fst p)))))"
proof (induction j rule: less_induct)
  case (less j)
  note T = conjunct1[OF I[unfolded search_inv_def]]
  have dn: "dn \<subseteq> set (cpt_starts s 0)" using I unfolding search_inv_def by blast
  show ?case
  proof (cases "j = 0")
    case True
    then show ?thesis using table_okD(2)[OF T] by (auto simp: path_score_def intro!: exI[of _ "[]"] path_start)
  next
    case False
    with less.prems have "set_by F v t s dn res j" by simp
    then obtain i tok w d where e: "i \<in> dn" "(tok, j, w, d) \<in> set (ugm_edges F v t s i)"
      "res ! j = \<lparr>bt_token_id = tok, bt_input_offset = i, bt_score_sum = fo_round F (fo_add F (score_at res i) w)\<rparr>"
      unfolding set_by_def by blast
    have i: "i \<in> set (cpt_starts s 0)" "i < length s" using e(1) dn cpt_starts_less[of i s 0] by auto
    have ij: "i < j" using ugm_edges_forward(1)[OF e(2) i(2)] .
    have "i = 0 \<or> (\<exists>k w. (k, i, w) \<in> edges_of F v t s dn)" using I e(1) unfolding search_inv_def by blast
    then have "i = 0 \<or> set_by F v t s dn res i" using table_okD(5)[OF T] by blast
    from less.IH[OF ij this] obtain p where p: "ugm_path F v t s i p" "path_score F p = score_at res i" "length p \<le> i"
      "0 < i \<longrightarrow> (\<forall>fuel prev out. length p \<le> fuel \<longrightarrow>
         ugm_backtrack (v_unk_id v) res fuel (res ! i) prev out = Inr (out @ emit_back (v_unk_id v) prev (rev (map fst p))))"
      by blast
    have len: "length res = Suc (length s)" using table_okD(1)[OF T] .
    have "ugm_backtrack (v_unk_id v) res fuel (res ! j) prev out
        = Inr (out @ emit_back (v_unk_id v) prev (rev (map fst (p @ [(tok, w)]))))" if f: "length (p @ [(tok, w)]) \<le> fuel" for fuel prev out
    proof -
      obtain f' where f': "fuel = Suc f'" "length p \<le> f'" using f by (cases fuel) auto
      have "p = []" if "i = 0" using p(3) that by simp
      then show ?thesis
        using p(4) e(3) f' len i(2) by (cases "i = 0") (simp_all add: vec_get_def Let_def)
    qed
    then show ?thesis
      using path_edge[OF p(1) i(1) e(2)] p(2,3) e(3) ij
      by (intro exI[of _ "p @ [(tok, w)]"]) (simp add: path_score_snoc)
  qed
qed

lemma search_step:
  assumes I: "search_inv F v t s off dn res" and F: "float_ops_ok F" "no_underflow F v t s" and off: "off < length s"
  shows "search_inv F v t s (off + cpt_length s off) (insert off dn)
    (fold (challenge_edge F off) (ugm_edges F v t s off) res)"
proof -
  note T = conjunct1[OF I[unfolded search_inv_def]]
  have starts: "cpt_starts s off = off # cpt_starts s (off + cpt_length s off)" using off by (subst cpt_starts.simps) simp
  have b: "dn \<subseteq> {..<off}" "off \<in> set (cpt_starts s 0)" "dn \<union> set (cpt_starts s off) = set (cpt_starts s 0)"
    using I starts unfolding search_inv_def by auto
  have "off = 0 \<or> set_by F v t s dn res off" using I table_okD(5)[OF T] unfolding search_inv_def by blast
  from table_traces[OF I this] obtain p where p: "ugm_path F v t s off p" "path_score F p = score_at res off" by blast
  have "fo_neg_max F < edge_sum F d (score_at res off) w" if "(tok, j, w, d) \<in> set (ugm_edges F v t s off)" for tok j w d
    using F(2) p b(2) that unfolding no_underflow_def by metis
  from table_place[OF T F(1) off b(1) this]
  have "table_ok F v t s (insert off dn) (edges_of F v t s (insert off dn)) (fold (challenge_edge F off) (ugm_edges F v t s off) res)" .
  moreover from ugm_edge_next[OF off] obtain tok w d where "(tok, off + cpt_length s off, w, d) \<in> set (ugm_edges F v t s off)" .
  then have "(off, off + cpt_length s off, w) \<in> edges_of F v t s (insert off dn)" by (auto simp: edges_of_def)
  moreover have "edges_of F v t s dn \<subseteq> edges_of F v t s (insert off dn)" by (auto simp: edges_of_def)
  ultimately have "\<forall>i \<in> insert (off + cpt_length s off) (insert off dn).
      i = 0 \<or> (\<exists>k w. (k, i, w) \<in> edges_of F v t s (insert off dn))"
    using I unfolding search_inv_def by (metis (no_types, lifting) insert_iff subset_iff)
  moreover have "insert off dn \<subseteq> {..<off + cpt_length s off}" using b(1) cpt_length_pos[OF off] by auto
  moreover have "insert off dn \<union> set (cpt_starts s (off + cpt_length s off)) = set (cpt_starts s 0)" using b(3) starts by auto
  ultimately show ?thesis
    using \<open>table_ok F v t s (insert off dn) _ _\<close> cpt_length_pos[OF off] unfolding search_inv_def by blast
qed

lemma search_all:
  assumes F: "float_ops_ok F" "no_underflow F v t s"
  shows "search_inv F v t s off dn res \<Longrightarrow> search_inv F v t s (length s) (set (cpt_starts s 0))
    (fold (\<lambda>i. fold (challenge_edge F i) (ugm_edges F v t s i)) (cpt_starts s off) res)"
proof (induction "length s - off" arbitrary: off dn res rule: less_induct)
  case less
  show ?case
  proof (cases "off < length s")
    case True
    have "cpt_starts s off = off # cpt_starts s (off + cpt_length s off)" using True by (subst cpt_starts.simps) simp
    moreover have "length s - (off + cpt_length s off) < length s - off" using cpt_length_pos[OF True] by linarith
    ultimately show ?thesis using less.hyps[OF _ search_step[OF less.prems F True]] by simp
  next
    case False
    then have o: "cpt_starts s off = []" by (subst cpt_starts.simps) simp
    moreover have "off = length s" using False less.prems unfolding search_inv_def by linarith
    moreover have "dn = set (cpt_starts s 0)" using less.prems o unfolding search_inv_def by auto
    ultimately show ?thesis using less.prems by (simp only: o fold_simps)
  qed
qed

text \<open>No way has a higher score than the table.\<close>

lemma search_bounds:
  assumes I: "search_inv F v t s (length s) (set (cpt_starts s 0)) res" and F: "float_ops_ok F"
  shows "ugm_path F v t s j p \<Longrightarrow> path_score F p \<le> score_at res j"
proof (induction rule: ugm_path.induct)
  case path_start
  then show ?case using I table_okD(2)[of F v t s _ _ res] unfolding search_inv_def by (auto simp: path_score_def)
next
  case (path_edge i p tok j w d)
  note T = conjunct1[OF I[unfolded search_inv_def]]
  have "(i, j, w) \<in> edges_of F v t s (set (cpt_starts s 0))" using path_edge by (auto simp: edges_of_def)
  from table_okD(4)[OF T this] have "fo_round F (fo_add F (score_at res i) w) \<le> score_at res j" .
  moreover have "fo_round F (fo_add F (path_score F p) w) \<le> fo_round F (fo_add F (score_at res i) w)"
    using F path_edge.IH unfolding float_ops_ok_def by blast
  ultimately show ?case unfolding path_score_snoc by (rule order_trans[rotated])
qed

text \<open>Runs of unknown tokens are merged into one.\<close>

fun merge_unknown :: "llama_token \<Rightarrow> llama_token list \<Rightarrow> llama_token list" where
  "merge_unknown unk [] = []"
| "merge_unknown unk (x # xs) =
     (if x = unk \<and> xs \<noteq> [] \<and> hd xs = unk then merge_unknown unk xs else x # merge_unknown unk xs)"

lemma emit_back_snoc:
  "emit_back unk prev (ys @ [x]) = emit_back unk prev ys @
     (if (if ys = [] then prev else last ys = unk) \<and> x = unk then [] else [x])"
  by (induction ys arbitrary: prev) auto

lemma emit_back_rev: "rev (emit_back unk False (rev xs)) = merge_unknown unk xs"
proof (induction xs)
  case (Cons x xs)
  have "emit_back unk False (rev (x # xs)) = emit_back unk False (rev xs)
      @ (if x = unk \<and> xs \<noteq> [] \<and> hd xs = unk then [] else [x])"
    by (simp add: emit_back_snoc last_rev)
  then show ?case using Cons by simp
qed simp

lemma ugm_search_best:
  assumes v: "v_type v \<noteq> LLAMA_VOCAB_TYPE_NONE" and t: "tokens_in_range v (ug_token_matcher t)"
    and F: "float_ops_ok F" "no_underflow F v t s" and s: "s \<noteq> []"
  shows "\<exists>res p. ugm_search F v t s = Inr res \<and> length res = Suc (length s) \<and> ugm_path F v t s (length s) p
    \<and> (\<forall>q. ugm_path F v t s (length s) q \<longrightarrow> path_score F q \<le> path_score F p)
    \<and> ugm_backtrack (v_unk_id v) res (length res) (res ! length s) False []
        = Inr (rev (merge_unknown (v_unk_id v) (map fst p)))"
proof -
  let ?d = "\<lparr>bt_token_id = v_unk_id v, bt_input_offset = 0, bt_score_sum = fo_neg_max F\<rparr>"
  let ?r0 = "(replicate (Suc (length s)) ?d)[0 := \<lparr>bt_token_id = v_unk_id v, bt_input_offset = 0, bt_score_sum = fo_zero F\<rparr>]"
  have at: "?r0 ! 0 = \<lparr>bt_token_id = v_unk_id v, bt_input_offset = 0, bt_score_sum = fo_zero F\<rparr>" by simp
  have "?r0 ! j = ?d" if "0 < j" "j \<le> length s" for j using that by (cases j) simp_all
  then have "search_inv F v t s 0 {} ?r0"
    unfolding search_inv_def table_ok_def using at by (auto simp: edges_of_def)
  from search_all[OF F this] obtain res where res: "ugm_search F v t s = Inr res"
    and I: "search_inv F v t s (length s) (set (cpt_starts s 0)) res"
    using forward_edges[OF v t, of F s 0 ?r0] unfolding ugm_search_def by auto
  note T = conjunct1[OF I[unfolded search_inv_def]]
  have "length s = 0 \<or> set_by F v t s (set (cpt_starts s 0)) res (length s)"
    using I table_okD(5)[OF T] unfolding search_inv_def by blast
  from table_traces[OF I this] s obtain p where p: "ugm_path F v t s (length s) p"
    "path_score F p = score_at res (length s)" "length p \<le> length s"
    "\<And>fuel. length p \<le> fuel \<Longrightarrow> ugm_backtrack (v_unk_id v) res fuel (res ! length s) False []
        = Inr (emit_back (v_unk_id v) False (rev (map fst p)))" by auto
  have len: "length res = Suc (length s)" using table_okD(1)[OF T] .
  have "emit_back (v_unk_id v) False (rev (map fst p)) = rev (merge_unknown (v_unk_id v) (map fst p))"
    using emit_back_rev[of "v_unk_id v" "map fst p"] by (metis rev_rev_ident)
  then have "ugm_backtrack (v_unk_id v) res (length res) (res ! length s) False []
      = Inr (rev (merge_unknown (v_unk_id v) (map fst p)))" using p(3) p(4)[of "length res"] len by simp
  moreover have "path_score F q \<le> path_score F p" if "ugm_path F v t s (length s) q" for q
    using search_bounds[OF I F(1) that] p(2) by simp
  ultimately show ?thesis using res len p(1) by blast
qed

end
