(* ===== verification/VocabClaims.thy ===== *)
theory VocabClaims
  imports VocabTheorems VocabTokenizeProps VocabUgmProps
begin

text \<open>
  The properties of the whole of \<open>tokenize\<close>: the partition at the special tokens, the way there
  and back for BPE, the covers of WPM and the best tokenization of UGM.
\<close>

section \<open>The partition\<close>

text \<open>
  C12. The partition at the special tokens.  When the special tokens that are looked for have
  texts, \<open>tokenizer_st_partition\<close> of a raw text returns (no assertion of a fragment fails, and the
  loops end), its fragments read one after the other spell the raw text, with blanks left out only
  when one of these tokens strips them, its tokens are among those looked for, and no text
  fragment is empty, leaves the raw text or still contains the text of any of them.
\<close>

theorem partition_spells_text:
  assumes "specials_ok v parse_special" and "raw_text \<noteq> []"
  shows "\<exists>fragments. tokenizer_st_partition v parse_special raw_text [Frag_text 0 (length raw_text)] = Inr fragments
    \<and> spells v raw_text (list_ex (\<lambda>t. strips_blanks (special_data v t)) (searched_tokens v parse_special)) raw_text fragments
    \<and> list_all (\<lambda>x. case x of Frag_token t \<Rightarrow> t \<in> set (searched_tokens v parse_special)
        | Frag_text off n \<Rightarrow> 0 < n \<and> off + n \<le> length raw_text
            \<and> list_all (\<lambda>t. \<not> occurs_in raw_text (td_text (special_data v t)) off n) (searched_tokens v parse_special)) fragments"
  using partition_parts[OF assms(1) _ parted_start[OF assms(2)]] unfolding parted_def by blast

text \<open>\<open>a\<close>, \<open>b\<close>, and two special tokens, the second of which takes the blanks around it away.\<close>

definition tag_vocab :: "int llama_vocab" where
  "tag_vocab = \<lparr>v_type = LLAMA_VOCAB_TYPE_SPM, v_pre_type = PRE_TYPE_DEFAULT, v_max_token_len = 3,
     v_bos_id = 2, v_eos_id = -1, v_unk_id = 0, v_sep_id = -1, v_add_space_prefix = False,
     v_add_bos = False, v_add_eos = False, v_ignore_merges = False, v_clean_spaces = False,
     v_remove_extra_whitespaces = False, v_escape_whitespaces = True, v_treat_whitespace_as_suffix = False,
     v_token_to_id = map_of [([0x61], 0), ([0x62], 1), (bytes_of ''<s>'', 2), (bytes_of ''<t>'', 3)],
     v_id_to_token = [\<lparr>td_text = [0x61], td_score = 0, td_attr = ATTR_NORMAL\<rparr>,
       \<lparr>td_text = [0x62], td_score = 0, td_attr = ATTR_NORMAL\<rparr>,
       \<lparr>td_text = bytes_of ''<s>'', td_score = 0, td_attr = ATTR_CONTROL\<rparr>,
       \<lparr>td_text = bytes_of ''<t>'', td_score = 0, td_attr = ATTR_USER_DEFINED OR ATTR_LSTRIP OR ATTR_RSTRIP\<rparr>],
     v_cache_special_tokens = [2, 3], v_cache_token_to_piece = [], v_bpe_ranks = Map.empty, v_eog_ids = []\<rparr>"

theorem partition_spells_text_witness:
  "tokenizer_st_partition tag_vocab True (bytes_of ''a<s>b <t> a'') [Frag_text 0 11]
      = Inr [Frag_text 0 1, Frag_token 2, Frag_text 4 1, Frag_token 3, Frag_text 10 1]
    \<and> spells tag_vocab (bytes_of ''a<s>b <t> a'') True (bytes_of ''a<s>b <t> a'')
        [Frag_text 0 1, Frag_token 2, Frag_text 4 1, Frag_token 3, Frag_text 10 1]"
proof -
  have ok: "specials_ok tag_vocab True" by code_simp
  have b: "list_ex (\<lambda>t. strips_blanks (special_data tag_vocab t)) (searched_tokens tag_vocab True)" by code_simp
  have l: "length (bytes_of ''a<s>b <t> a'') = 11" by (simp add: bytes_of_def)
  have "bytes_of ''a<s>b <t> a'' \<noteq> []" by (simp add: bytes_of_def)
  note c = partition_spells_text[OF ok this, unfolded l]
  have e: "tokenizer_st_partition tag_vocab True (bytes_of ''a<s>b <t> a'') [Frag_text 0 11]
      = Inr [Frag_text 0 1, Frag_token 2, Frag_text 4 1, Frag_token 3, Frag_text 10 1]" by code_simp
  show ?thesis using c b unfolding e by simp
qed

section \<open>There and back\<close>

text \<open>
  C2. tokenize and detokenize.  Take a BPE vocabulary that has a normal token for every character of
  the byte alphabet and for every pair with a merge rank, that does not add a blank in front
  (add_space_prefix off, as BPE vocabularies have it), whose special tokens have texts and do not
  strip blanks, whose BOS and EOS exist when they are to be added, and whose piece cache is empty or
  filled.  Take a raw text that is not empty and whose text fragments, between the special tokens, are
  well-formed UTF-8 that the pre-tokenizer's expressions split without an error; when the vocabulary
  ignores merges (ignore_merges) every word of the split that is a token is a normal one.  Then, with
  or without the special tokens at the ends and with or without special tokens parsed in the text,
  tokenize returns, and detokenize of its tokens, with the added ones removed, into a buffer of the raw
  text's size gives back the raw text: byte for byte when the vocabulary does not clean spaces, and as
  the three passes of the clean-up rewrite it when it does (clean_spaces, the default of BPE).
\<close>

theorem tokenize_round_trip:
  fixes v :: "'f::linorder llama_vocab"
  assumes "\<And>q. q \<noteq> [] \<Longrightarrow> te_pick_bpe E q < length q"
    and "v_type v = LLAMA_VOCAB_TYPE_BPE" "bpe_closed v" "pieces_cached v" "regex_ok (te_regex E)"
    and "\<not> v_add_space_prefix v"
    and "specials_ok v parse_special" "specials_plain v"
    and "v_add_bos v \<longrightarrow> v_bos_id v \<noteq> LLAMA_TOKEN_NULL" "v_add_eos v \<longrightarrow> v_eos_id v \<noteq> LLAMA_TOKEN_NULL"
    and "raw_text \<noteq> []"
    and "tokenizer_st_partition v parse_special raw_text [Frag_text 0 (length raw_text)] = Inr fragments"
    and "list_all (fragment_ok E v regex_exprs raw_text) fragments"
  shows "\<exists>toks. impl_tokenize E v (Some (Tokenizer_bpe regex_exprs)) raw_text special parse_special = Inr toks
    \<and> detokenize v toks (int (length raw_text)) special True = Inr (int (length (cleaned v raw_text)), cleaned v raw_text)
    \<and> (\<not> v_clean_spaces v \<longrightarrow> cleaned v raw_text = raw_text)"
proof -
  from bpe_tokenize_back[OF assms(1-5,7-13), where special = special] obtain toks where toks:
    "impl_tokenize E v (Some (Tokenizer_bpe regex_exprs)) raw_text special parse_special = Inr toks"
    "detok_text v True False (inner_tokens v special toks) = Inr raw_text" by blast
  have "\<not> blank_goes v special toks" using assms(6) by (simp add: blank_goes_def)
  then show ?thesis
    using toks assms(2) detokenize_result[where v = v and m = "int (length raw_text)" and unparse = True and rs = special and tokens = toks] by (auto simp: cleaned_def)
qed

theorem tokenize_round_trip_witness:
  "\<exists>toks. impl_tokenize \<lparr>te_data = ascii_data, te_regex = six_library, te_float = undefined,
        te_pick_spm = (\<lambda>_. 0), te_pick_bpe = (\<lambda>_. 0)\<rparr> byte_vocab
      (Some (Tokenizer_bpe [bytes_of ''[0-9]+''])) (bytes_of ''<s>I'm 12'') True True = Inr toks
    \<and> detokenize byte_vocab toks 9 True True = Inr (9, bytes_of ''<s>I'm 12'')"
proof -
  let ?E = "\<lparr>te_data = ascii_data, te_regex = six_library, te_float = undefined,
    te_pick_spm = (\<lambda>_. 0), te_pick_bpe = (\<lambda>_. 0)\<rparr> :: int tokenize_env"
  let ?raw = "bytes_of ''<s>I'm 12''" and ?x = "[bytes_of ''[0-9]+'']"
  have v: "v_type byte_vocab = LLAMA_VOCAB_TYPE_BPE" "pieces_cached byte_vocab" "\<not> v_clean_spaces byte_vocab"
    "\<not> v_add_space_prefix byte_vocab" "v_cache_special_tokens byte_vocab = [257]" "v_bos_id byte_vocab = 257"
    "\<not> v_add_eos byte_vocab" "\<not> v_ignore_merges byte_vocab"
    by (simp_all add: byte_vocab_def pieces_cached_def del: upt_rec_numeral)
  have n: "n_tokens byte_vocab = 258" by (simp add: n_tokens_def byte_vocab_def del: upt_rec_numeral)
  have d: "v_id_to_token byte_vocab ! 257 = \<lparr>td_text = [0x3C, 0x73, 0x3E], td_score = 0, td_attr = ATTR_CONTROL\<rparr>"
    by (simp add: byte_vocab_def nth_append del: upt_rec_numeral)
  have s: "searched_tokens byte_vocab True = [257]" by (simp add: searched_tokens_def v skips_special_def)
  have ok: "specials_ok byte_vocab True" by (simp add: specials_ok_def v n s d)
  have plain: "specials_plain byte_vocab" unfolding specials_plain_def v(5) by (simp add: d) code_simp
  have len: "length ?raw = 9" by (simp add: bytes_of_def)
  have ne: "?raw \<noteq> []" by (simp add: bytes_of_def)
  have p: "tokenizer_st_partition byte_vocab True ?raw [Frag_text 0 (length ?raw)] = Inr [Frag_token 257, Frag_text 3 6]"
  proof -
    have g: "get_token_data byte_vocab 257 = Inr (v_id_to_token byte_vocab ! 257)"
      using n by (simp add: get_token_data_def has_vocab_def vec_at_def n_tokens_def v)
    have "st_sweep ?raw \<lparr>td_text = [0x3C, 0x73, 0x3E], td_score = 0 :: int, td_attr = ATTR_CONTROL\<rparr> 257 1 ([Frag_text 0 9], 0)
        = Inr [Frag_token 257, Frag_text 3 6]" by code_simp
    then show ?thesis
      by (simp add: tokenizer_st_partition_def v(5) st_token_def g len d skips_special_def)
  qed
  have t: "fragment_text ?raw 3 6 = bytes_of ''I'm 12''" by (simp add: fragment_text_def bytes_of_def)
  have "unicode_cpts_to_utf8 (map ascii ''I'm 12'') = Inr (bytes_of ''I'm 12'')" by code_simp
  then have c: "\<exists>cs. unicode_cpts_to_utf8 cs = Inr (bytes_of ''I'm 12'')" by (rule exI[of _ "map ascii ''I'm 12''"])
  have b: "bpe_text_ok ascii_data six_library byte_vocab ?x (bytes_of ''I'm 12'')"
    unfolding bpe_text_ok_def using c six_split v(8) by blast
  have f: "list_all (fragment_ok ?E byte_vocab ?x ?raw) [Frag_token 257, Frag_text 3 6]"
    using b by (simp add: fragment_ok_def t)
  have "\<exists>toks. impl_tokenize ?E byte_vocab (Some (Tokenizer_bpe ?x)) ?raw True True = Inr toks
    \<and> detokenize byte_vocab toks (int (length ?raw)) True True
      = Inr (int (length (cleaned byte_vocab ?raw)), cleaned byte_vocab ?raw)
    \<and> (\<not> v_clean_spaces byte_vocab \<longrightarrow> cleaned byte_vocab ?raw = ?raw)"
    by (rule tokenize_round_trip[OF _ v(1) byte_vocab_closed v(2) _ v(4) ok plain _ _ ne p f])
      (simp_all add: six_library_ok v)
  moreover have "cleaned byte_vocab ?raw = ?raw" by (simp add: cleaned_def v(3))
  ultimately show ?thesis by (simp only: len) simp
qed

section \<open>WPM\<close>

text \<open>
  C13. WPM covers its words.  When \<open>preprocess\<close> splits a text into words, \<open>tokenize\<close> returns, and its
  tokens are, word by word, the cover of the word with the phantom space in front: the longest
  token that its rest starts with, again and again, and for a word where this gets stuck the
  unknown token alone.
\<close>

theorem wpm_covers_words:
  assumes "v_type v = LLAMA_VOCAB_TYPE_WPM" "0 \<le> v_max_token_len v"
    and "wpm_preprocess D txt = Inr words"
  shows "wpm_tokenize D v txt out = Inr (out @ concat (map (wpm_emit v) words))"
  using assms wpm_words_emit[of v words out] by (simp add: wpm_tokenize_def)

text \<open>Tables of one range of letters, the blank and one pair of cases; \<open>#ab\<close> without a cover for \<open>c\<close>.\<close>

definition tiny_data :: unicode_data where
  "tiny_data = \<lparr>unicode_ranges_flags = [(0, LETTER), (0x110000, UNDEFINED)], unicode_set_whitespace = [0x20],
     unicode_map_lowercase = [(0x41, 0x61)], unicode_map_uppercase = [(0x61, 0x41)],
     unicode_ranges_nfd = [\<lparr>nfd_first = 0, nfd_last = 0, nfd_nfd = 0\<rparr>]\<rparr>"

definition wpm_vocab :: "int llama_vocab" where
  "wpm_vocab = tag_vocab\<lparr>v_type := LLAMA_VOCAB_TYPE_WPM, v_max_token_len := 5,
     v_token_to_id := map_of [(escaped_space @ [0x61], 1), (escaped_space @ [0x61, 0x62], 2), ([0x62], 3)]\<rparr>"

theorem wpm_covers_words_witness:
  "wpm_tokenize tiny_data wpm_vocab (bytes_of ''Abb ac a'') [9] = Inr [9, 2, 3, 0, 1]"
proof -
  have v: "v_type wpm_vocab = LLAMA_VOCAB_TYPE_WPM" "0 \<le> v_max_token_len wpm_vocab" by code_simp+
  have p: "wpm_preprocess tiny_data (bytes_of ''Abb ac a'') = Inr [bytes_of ''abb'', bytes_of ''ac'', bytes_of ''a'']" by code_simp
  have e: "wpm_emit wpm_vocab (bytes_of ''abb'') = [2, 3]" "wpm_emit wpm_vocab (bytes_of ''ac'') = [0]"
    "wpm_emit wpm_vocab (bytes_of ''a'') = [1]" by code_simp+
  show ?thesis using wpm_covers_words[OF v p, of "[9]"] by (simp add: e del: bytes_of_def)
qed

section \<open>UGM\<close>

text \<open>
  C11. UGM finds the best tokenization.  For scores whose rounding and double-precision sums keep the
  order, and sums that stay above the value the table starts with, \<open>tokenize\<close> of a normalised
  text that is not empty returns the tokens of a way from its front to its end, each token
  starting at a code point, with the unknown token where no token is the code point, whose
  score no other way exceeds; runs of unknown tokens are merged into one.
\<close>

theorem ugm_finds_best:
  assumes "v_type v = LLAMA_VOCAB_TYPE_UGM" and "make_llm_tokenizer_ugm F v charsmap = Inr t"
    and "float_ops_ok F" and "ugm_normalize v t txt = Inr s" "s \<noteq> []" and "no_underflow F v t s"
  shows "\<exists>p. ugm_path F v t s (length s) p
    \<and> (\<forall>q. ugm_path F v t s (length s) q \<longrightarrow> path_score F q \<le> path_score F p)
    \<and> ugm_tokenize F v t txt out = Inr (out @ merge_unknown (v_unk_id v) (map fst p))"
proof -
  have "v_type v \<noteq> LLAMA_VOCAB_TYPE_NONE" using assms(1) by simp
  from ugm_search_best[OF this ugm_matcher_range[OF assms(2)] assms(3,6,5)] show ?thesis
    using assms(4,5) by (auto simp: ugm_tokenize_def)
qed

text \<open>Exact scores, for the witness.\<close>

definition int_ops :: "int float_ops" where
  "int_ops = \<lparr>fo_add = (+), fo_round = (\<lambda>x. x), fo_sub = (-), fo_zero = 0, fo_ten = 10, fo_max = 1000, fo_neg_max = -1000\<rparr>"

lemma int_ops_ok: "float_ops_ok int_ops"
  by (simp add: float_ops_ok_def int_ops_def)

lemma int_no_underflow:
  assumes "list_all (\<lambda>i. list_all (\<lambda>(tok, j, w, d). - c \<le> w) (ugm_edges int_ops v t s i)) [0..<length s]"
    and "0 \<le> c" "c * int (length s) < 1000"
  shows "no_underflow int_ops v t s"
proof -
  have w: "- c \<le> w" if "(tok, j, w, d) \<in> set (ugm_edges int_ops v t s i)" "i < length s" for i tok j w d
    using assms(1) that by (auto simp: list_all_iff)
  have path: "- c * int j \<le> path_score int_ops p" if "ugm_path int_ops v t s j p" for j p
    using that
  proof (induction rule: ugm_path.induct)
    case (path_edge i p tok j w d)
    have i: "i < length s" using cpt_starts_less[OF path_edge(2)] by simp
    have "int i + 1 \<le> int j" using ugm_edges_forward(1)[OF path_edge(3) i] by simp
    then have "c * (int i + 1) \<le> c * int j" using assms(2) by (rule mult_left_mono)
    moreover have "path_score int_ops (p @ [(tok, w)]) = path_score int_ops p + w"
      by (simp add: path_score_snoc int_ops_def)
    ultimately show ?case using path_edge.IH w[OF path_edge(3) i] by (simp add: algebra_simps)
  qed (simp add: path_score_def int_ops_def)
  have "- 1000 < path_score int_ops p + w"
    if e: "ugm_path int_ops v t s i p" "i \<in> set (cpt_starts s 0)" "(tok, j, w, d) \<in> set (ugm_edges int_ops v t s i)" for i p tok j w d
  proof -
    have i: "i < length s" using cpt_starts_less[OF e(2)] by simp
    then have "c * (int i + 1) \<le> c * int (length s)" using assms(2) by (intro mult_left_mono) simp_all
    then show ?thesis using path[OF e(1)] w[OF e(3) i] assms(3) by (simp add: algebra_simps)
  qed
  then show ?thesis unfolding no_underflow_def by (simp add: int_ops_def edge_sum_def)
qed

text \<open>\<open>a\<close>, \<open>b\<close> and \<open>ab\<close>, the last cheaper than the two; \<open>c\<close> is unknown.\<close>

definition ugm_vocab :: "int llama_vocab" where
  "ugm_vocab = tag_vocab\<lparr>v_type := LLAMA_VOCAB_TYPE_UGM, v_unk_id := 3, v_cache_special_tokens := [],
     v_id_to_token := [\<lparr>td_text = [0x61], td_score = -2, td_attr = ATTR_NORMAL\<rparr>,
       \<lparr>td_text = [0x62], td_score = -3, td_attr = ATTR_NORMAL\<rparr>,
       \<lparr>td_text = [0x61, 0x62], td_score = -4, td_attr = ATTR_NORMAL\<rparr>,
       \<lparr>td_text = bytes_of ''<unk>'', td_score = 0, td_attr = ATTR_UNKNOWN\<rparr>]\<rparr>"


definition ugm_tokenizer :: "int llm_tokenizer_ugm" where
  "ugm_tokenizer = (case make_llm_tokenizer_ugm int_ops ugm_vocab [] of Inr t \<Rightarrow> t | Inl _ \<Rightarrow> undefined)"

theorem ugm_finds_best_witness:
  "\<exists>p. ugm_path int_ops ugm_vocab ugm_tokenizer (bytes_of ''abccb'') 5 p
    \<and> merge_unknown 3 (map fst p) = [2, 3, 1]
    \<and> ugm_tokenize int_ops ugm_vocab ugm_tokenizer (bytes_of ''abccb'') [7] = Inr [7, 2, 3, 1]"
proof -
  have v: "v_type ugm_vocab = LLAMA_VOCAB_TYPE_UGM" "v_unk_id ugm_vocab = 3" by code_simp+
  have "case make_llm_tokenizer_ugm int_ops ugm_vocab [] of Inr t \<Rightarrow> True | Inl _ \<Rightarrow> False" by code_simp
  then have t: "make_llm_tokenizer_ugm int_ops ugm_vocab [] = Inr ugm_tokenizer"
    unfolding ugm_tokenizer_def by (auto split: sum.splits)
  have n: "ugm_normalize ugm_vocab ugm_tokenizer (bytes_of ''abccb'') = Inr (bytes_of ''abccb'')" by code_simp
  have ne: "bytes_of ''abccb'' \<noteq> []" "length (bytes_of ''abccb'') = 5" by (simp_all add: bytes_of_def)
  have "list_all (\<lambda>i. list_all (\<lambda>(tok, j, w, d). - 14 \<le> w) (ugm_edges int_ops ugm_vocab ugm_tokenizer (bytes_of ''abccb'') i))
      [0..<length (bytes_of ''abccb'')]" by code_simp
  from int_no_underflow[OF this] ne(2) have u: "no_underflow int_ops ugm_vocab ugm_tokenizer (bytes_of ''abccb'')" by simp
  from ugm_finds_best[OF v(1) t int_ops_ok n ne(1) u, of "[7]"] obtain p where
    "ugm_path int_ops ugm_vocab ugm_tokenizer (bytes_of ''abccb'') 5 p"
    "ugm_tokenize int_ops ugm_vocab ugm_tokenizer (bytes_of ''abccb'') [7] = Inr ([7] @ merge_unknown 3 (map fst p))"
    unfolding ne(2) v(2) by blast
  moreover have "ugm_tokenize int_ops ugm_vocab ugm_tokenizer (bytes_of ''abccb'') [7] = Inr [7, 2, 3, 1]" by code_simp
  ultimately show ?thesis by auto
qed

lemma is_cont_bits:
  assumes "is_cont c" shows "c AND 0x80 \<noteq> 0" "c AND 0x40 = 0"
proof -
  have "c AND 0x80 = (c AND 0xc0) AND 0x80" "c AND 0x40 = (c AND 0xc0) AND 0x40" by (simp_all add: and.assoc)
  with assms show "c AND 0x80 \<noteq> 0" "c AND 0x40 = 0" by (simp_all add: is_cont_def)
qed

text \<open>
  UGM tears characters apart.  \<open>normalize_prefix\<close> takes any part of a user-defined token's text
  for the token, so that two bytes which are one character, and of which only the first begins
  a user-defined token, are normalised to that byte and a replacement character, although the
  text is well-formed and names no user-defined token.
\<close>

theorem ugm_tears_character:
  assumes "unicode_cpt_from_utf8 [b, c] 0 = Inr (cpt, 2)"
    and "trie_reaches (ug_user_defined t) [b]" "\<not> trie_reaches (ug_user_defined t) [b, c]"
    and "\<not> trie_reaches (ug_user_defined t) [c]" "ug_xcda_array t = []"
    and "\<not> v_add_space_prefix v" "\<not> v_remove_extra_whitespaces v"
  shows "ugm_normalize v t [b, c] = Inr (b # replacement_character)"
proof -
  have bits: "b AND 0x80 \<noteq> 0" "is_cont c"
    using assms(1) by (auto simp: unicode_cpt_from_utf8_def Let_def split: if_splits)
  then have c: "c AND 0x80 \<noteq> 0" "c AND 0x40 = 0" by (simp_all add: is_cont_bits)
  have nb: "b \<noteq> 0x20" using bits(1) by auto
  have "get_longest_prefix (ug_user_defined t) [b, c] 0 = 1"
    using get_longest_prefix_reaches[of 1 "ug_user_defined t" "[b, c]"]
      get_longest_prefix_reaches[of 2 "ug_user_defined t" "[b, c]"] assms(2,3) by simp
  then have p0: "normalize_prefix t [b, c] 0 = Inr \<lparr>nr_normalized = [b], nr_consumed_input = 1\<rparr>"
    by (simp add: normalize_prefix_def Let_def)
  have "get_longest_prefix (ug_user_defined t) [c] 0 = 0"
    using get_longest_prefix_reaches[of 1 "ug_user_defined t" "[c]"] assms(4) by simp
  moreover have "unicode_cpt_from_utf8 [b, c] 1 = Inl (Invalid_argument ''invalid character'')"
    using c by (simp add: unicode_cpt_from_utf8_def Let_def)
  ultimately have p1: "normalize_prefix t [b, c] 1 = Inr \<lparr>nr_normalized = replacement_character, nr_consumed_input = 1\<rparr>"
    using assms(5) by (simp add: normalize_prefix_def xcda_longest_def Let_def)
  have "normalize_from v t [b, c] 0 st = Inr (fold (normalize_char v) (b # replacement_character) st)" for st
    using p0 p1 by (subst normalize_from.simps, simp, subst normalize_from.simps, simp, subst normalize_from.simps, simp)
  then show ?thesis
    using assms(6,7) nb by (simp add: ugm_normalize_def normalize_char_def shall_prepend_space_def shall_append_space_def
        replacement_character_def)
qed


text \<open>With the user-defined token U+00E9, the text U+00E0.\<close>

theorem ugm_tears_character_witness:
  "ugm_normalize ugm_vocab (ugm_tokenizer\<lparr>ug_user_defined := trie_insert [0xC3, 0xA9] 0 empty_trie, ug_xcda_array := []\<rparr>)
     [0xC3, 0xA0] = Inr [0xC3, 0xEF, 0xBF, 0xBD]"
proof -
  let ?t = "ugm_tokenizer\<lparr>ug_user_defined := trie_insert [0xC3, 0xA9] 0 empty_trie, ug_xcda_array := []\<rparr>"
  have c: "unicode_cpt_from_utf8 [0xC3, 0xA0] 0 = Inr (0xE0, 2)" by code_simp
  have "ugm_normalize ugm_vocab ?t [0xC3, 0xA0] = Inr (0xC3 # replacement_character)"
    by (rule ugm_tears_character[OF c])
      (simp_all add: reaches_trie_insert reaches_empty_trie ugm_vocab_def tag_vocab_def del: trie_insert.simps)
  then show ?thesis by (simp add: replacement_character_def)
qed

text \<open>\<open>get_node\<close> tests the index with \<open>>\<close>: the index right behind the array is read.\<close>

lemma get_node_reads_behind:
  "unat index = length xcda \<Longrightarrow> get_node xcda index = Inl Out_of_bounds"
  using uint_nat[of index] by (simp add: get_node_def vec_get_def)

section \<open>Detokenizing\<close>

lemma length_cleaned: "length (cleaned v s) \<le> length s"
proof -
  from clean_passes[of s] obtain t n where "n \<le> length s" "length t = length s" "take n t = clean_text s" by blast
  then have "length (clean_text s) \<le> length s" by (metis length_take min.absorb2)
  then show ?thesis by (simp add: cleaned_def)
qed

text \<open>
  C14. What detokenize returns, for every vocabulary that is not empty and a text_len_max that is not
  negative.  Let the text of the tokens be that of their pieces in a row, without a BOS in front and an
  EOS at the end when these are to be removed, and without the blank in front of the first piece when
  the vocabulary adds one and no BOS was removed.  If a piece fails, the call fails like it.  If the
  text fits into the buffer it is written, cleaned of blanks when the vocabulary says so, and its
  length is returned.  If it does not fit the result is negative: for a vocabulary that does not
  clean spaces the number of characters that would have been returned, and for every vocabulary a
  size that holds the result, so that the call with a buffer of that size writes the whole text.
\<close>

theorem detokenize_returns:
  assumes "v_type v \<noteq> LLAMA_VOCAB_TYPE_NONE" "0 \<le> text_len_max"
  shows "case detok_text v unparse_special (blank_goes v remove_special tokens) (inner_tokens v remove_special tokens) of
     Inl e \<Rightarrow> detokenize v tokens text_len_max remove_special unparse_special = Inl e
   | Inr s \<Rightarrow> if int (length s) \<le> text_len_max
       then detokenize v tokens text_len_max remove_special unparse_special = Inr (int (length (cleaned v s)), cleaned v s)
       else \<exists>n part. detokenize v tokens text_len_max remove_special unparse_special = Inr (- n, part)
         \<and> 0 < n \<and> int (length (cleaned v s)) \<le> n \<and> (\<not> v_clean_spaces v \<longrightarrow> n = int (length (cleaned v s)))
         \<and> detokenize v tokens n remove_special unparse_special = Inr (int (length (cleaned v s)), cleaned v s)"
proof (cases "detok_text v unparse_special (blank_goes v remove_special tokens) (inner_tokens v remove_special tokens)")
  case (Inr s)
  show ?thesis
    using Inr detokenize_result[OF assms, where unparse = unparse_special and rs = remove_special and tokens = tokens]
      detokenize_result[OF assms(1), where m = "int (length s)" and unparse = unparse_special and rs = remove_special and tokens = tokens]
      length_cleaned[of v s] assms(2)
    by (auto simp: cleaned_def)
qed (use detokenize_result[OF assms, where unparse = unparse_special and rs = remove_special and tokens = tokens] in simp)

text \<open>\<open>a\<close>, a blank with \<open>?\<close>, and the added blank, in a vocabulary that cleans.\<close>

definition clean_vocab :: "int llama_vocab" where
  "clean_vocab = tag_vocab\<lparr>v_clean_spaces := True, v_add_space_prefix := True, v_add_bos := True,
     v_token_to_id := map_of [(escaped_space @ [0x61], 0), (escaped_space @ [0x3F], 1), (escaped_space, 4), ([0x61], 5)],
     v_id_to_token := [\<lparr>td_text = escaped_space @ [0x61], td_score = 0, td_attr = ATTR_NORMAL\<rparr>,
       \<lparr>td_text = escaped_space @ [0x3F], td_score = 0, td_attr = ATTR_NORMAL\<rparr>,
       \<lparr>td_text = bytes_of ''<s>'', td_score = 0, td_attr = ATTR_CONTROL\<rparr>,
       \<lparr>td_text = bytes_of ''<t>'', td_score = 0, td_attr = ATTR_CONTROL\<rparr>,
       \<lparr>td_text = escaped_space, td_score = 0, td_attr = ATTR_NORMAL\<rparr>,
       \<lparr>td_text = [0x61], td_score = 0, td_attr = ATTR_NORMAL\<rparr>]\<rparr>"

theorem detokenize_returns_witness:
  "detokenize clean_vocab [0, 1] 3 False False = Inr (2, bytes_of ''a?'')"
proof -
  have v: "v_type clean_vocab \<noteq> LLAMA_VOCAB_TYPE_NONE" by code_simp
  have d: "detok_text clean_vocab False (blank_goes clean_vocab False [0, 1]) (inner_tokens clean_vocab False [0, 1])
      = Inr (bytes_of ''a ?'')" by code_simp
  have c: "cleaned clean_vocab (bytes_of ''a ?'') = bytes_of ''a?''" by code_simp
  have l: "length (bytes_of ''a ?'') = 3" "length (bytes_of ''a?'') = 2" by (simp_all add: bytes_of_def)
  show ?thesis using detokenize_returns[OF v, where text_len_max = 3 and unparse_special = False and remove_special = False and tokens = "[0, 1]"] unfolding d by (simp add: c l del: bytes_of_def)
qed

text \<open>
  The negative return is not the number of characters that would have been returned: the two
  tokens have two characters, but a buffer for two gets \<open>-3\<close>.
\<close>

lemma detok_size_overstated:
  "detokenize clean_vocab [0, 1] 2 False False = Inr (-3, bytes_of ''a'')"
  "detokenize clean_vocab [0, 1] 3 False False = Inr (2, bytes_of ''a?'')"
  by code_simp+

text \<open>The blank that \<open>tokenize\<close> adds stays when the BOS that it adds is removed.\<close>

lemma bos_keeps_blank:
  "impl_tokenize \<lparr>te_data = tiny_data, te_regex = six_library, te_float = int_ops,
      te_pick_spm = first_best bs_left bs_score, te_pick_bpe = (\<lambda>_. 0)\<rparr> clean_vocab (Some Tokenizer_spm)
      (bytes_of ''a'') True False = Inr [2, 0]"
  "detokenize clean_vocab [2, 0] 9 True False = Inr (2, bytes_of '' a'')"
  by code_simp+

end
