(* ===== verification/Sample.thy ===== *)
theory Sample
  imports Vocab
begin

text \<open>
  The candidates of \<^verbatim>\<open>include/llama.h\<close> and the samplers of \<^verbatim>\<open>src/llama-sampling.cpp\<close> that
  transform them: softmax, top-k, top-p, min-p, typical, the temperatures, XTC and mirostat.

  Floats are values of a linear order, without a NaN and with one zero, under the operations of
  \<open>floats\<close>; \<open>'d\<close> are the doubles.  Sorting and random numbers are the C++ library's: the record
  \<open>library\<close>, whose \<open>'g\<close> is the state of a generator and \<open>'e\<close> that of the random device.  A sort
  leaves open how equal logits are arranged.
\<close>

record 'f llama_token_data =
  tk_id :: llama_token
  tk_logit :: 'f
  tk_p :: 'f

text \<open>
  The array of candidates.  \<open>size\<close> only shrinks and what lies behind it is not read again, so the
  list is the part in front of \<open>size\<close>.
\<close>

record 'f llama_token_data_array =
  cur_data :: "'f llama_token_data list"
  cur_selected :: int
  cur_sorted :: bool

text \<open>\<open>fl_dec m e\<close> is the literal \<open>m\<close> times ten to the minus \<open>e\<close>.\<close>

record ('f, 'd) floats =
  fl_add :: "'f \<Rightarrow> 'f \<Rightarrow> 'f"
  fl_sub :: "'f \<Rightarrow> 'f \<Rightarrow> 'f"
  fl_mul :: "'f \<Rightarrow> 'f \<Rightarrow> 'f"
  fl_div :: "'f \<Rightarrow> 'f \<Rightarrow> 'f"
  fl_neg :: "'f \<Rightarrow> 'f"
  fl_abs :: "'f \<Rightarrow> 'f"
  fl_exp :: "'f \<Rightarrow> 'f"
  fl_log :: "'f \<Rightarrow> 'f"
  fl_log2 :: "'f \<Rightarrow> 'f"
  fl_pow :: "'f \<Rightarrow> 'f \<Rightarrow> 'f"
  fl_dec :: "int \<Rightarrow> nat \<Rightarrow> 'f"
  fl_of_int :: "int \<Rightarrow> 'f"
  fl_to_int :: "'f \<Rightarrow> int"
  fl_neg_inf :: 'f
  fl_neg_max :: 'f
  fl_double :: "'f \<Rightarrow> 'd"
  fl_float :: "'d \<Rightarrow> 'f"
  db_add :: "'d \<Rightarrow> 'd \<Rightarrow> 'd"
  db_sub :: "'d \<Rightarrow> 'd \<Rightarrow> 'd"
  db_mul :: "'d \<Rightarrow> 'd \<Rightarrow> 'd"
  db_div :: "'d \<Rightarrow> 'd \<Rightarrow> 'd"
  db_exp :: "'d \<Rightarrow> 'd"
  db_pow :: "'d \<Rightarrow> 'd \<Rightarrow> 'd"
  db_of_int :: "int \<Rightarrow> 'd"

abbreviation fl_zero :: "('f, 'd) floats \<Rightarrow> 'f" where
  "fl_zero F \<equiv> fl_of_int F 0"

abbreviation fl_one :: "('f, 'd) floats \<Rightarrow> 'f" where
  "fl_one F \<equiv> fl_of_int F 1"

record ('f, 'g, 'e) library =
  lb_sort :: "'f llama_token_data list \<Rightarrow> 'f llama_token_data list"
  lb_partial_sort :: "nat \<Rightarrow> 'f llama_token_data list \<Rightarrow> 'f llama_token_data list"
  lb_sort_indices :: "'f list \<Rightarrow> nat list"
  lb_discrete :: "'f list \<Rightarrow> 'g \<Rightarrow> nat \<times> 'g"
  lb_uniform :: "'g \<Rightarrow> 'f \<times> 'g"
  lb_seed :: "32 word \<Rightarrow> 'g"
  lb_random :: "'e \<Rightarrow> 32 word \<times> 'e"

section \<open>Softmax and temperature\<close>

definition sort_candidates ::
    "('f, 'g, 'e) library \<Rightarrow> 'f llama_token_data_array \<Rightarrow> 'f llama_token_data_array" where
  "sort_candidates L cur_p =
     (if cur_sorted cur_p then cur_p
      else cur_p\<lparr>cur_data := lb_sort L (cur_data cur_p), cur_sorted := True\<rparr>)"

definition llama_sampler_softmax_impl ::
    "('f, 'd) floats \<Rightarrow> ('f, 'g, 'e) library \<Rightarrow> 'f llama_token_data_array \<Rightarrow> 'f llama_token_data_array res" where
  "llama_sampler_softmax_impl F L cur_p =
     rbind (guard (cur_data cur_p \<noteq> []) Assert_failed) (\<lambda>_.
       let cur_p = sort_candidates L cur_p;
           max_l = tk_logit (hd (cur_data cur_p));
           exps = map (\<lambda>t. t\<lparr>tk_p := fl_exp F (fl_sub F (tk_logit t) max_l)\<rparr>) (cur_data cur_p);
           cum_sum = foldl (fl_add F) (fl_zero F) (map tk_p exps)
       in Inr (cur_p\<lparr>cur_data := map (\<lambda>t. t\<lparr>tk_p := fl_div F (tk_p t) cum_sum\<rparr>) exps\<rparr>))"

text \<open>
  The loop for a temperature that is not positive: \<open>max_i\<close> is the best candidate so far, every
  other one behind the loop gets minus infinity.
\<close>

definition set_logit :: "'f \<Rightarrow> nat \<Rightarrow> 'f llama_token_data list \<Rightarrow> 'f llama_token_data list" where
  "set_logit l i xs = xs[i := (xs ! i)\<lparr>tk_logit := l\<rparr>]"

definition temp_zero_step ::
    "('f::linorder, 'd) floats \<Rightarrow> nat \<Rightarrow> 'f llama_token_data list \<times> nat \<times> 'f \<Rightarrow> 'f llama_token_data list \<times> nat \<times> 'f" where
  "temp_zero_step F i st =
     (let (xs, max_i, max_l) = st in
      if tk_logit (xs ! i) > max_l then (set_logit (fl_neg_inf F) max_i xs, i, tk_logit (xs ! i))
      else (set_logit (fl_neg_inf F) i xs, max_i, max_l))"

definition llama_sampler_temp_impl ::
    "('f::linorder, 'd) floats \<Rightarrow> 'f llama_token_data_array \<Rightarrow> 'f \<Rightarrow> 'f llama_token_data_array res" where
  "llama_sampler_temp_impl F cur_p temp =
     (if temp \<le> fl_zero F then
        (if cur_data cur_p = [] then Inl Out_of_bounds
         else let xs = cur_data cur_p;
                  (xs, _) = fold (temp_zero_step F) [1..<length xs] (xs, 0, tk_logit (hd xs))
              in Inr (cur_p\<lparr>cur_data := xs\<rparr>))
      else Inr (cur_p\<lparr>cur_data := map (\<lambda>t. t\<lparr>tk_logit := fl_div F (tk_logit t) temp\<rparr>) (cur_data cur_p)\<rparr>))"

section \<open>Top-k\<close>

text \<open>
  The bucket sort for more than 128 of them.  The bucket of a logit; the buckets' sizes; from the
  highest bucket down, the first one with which \<open>k\<close> candidates are there, and their number; and
  the candidates moved to their bucket's place, through one write pointer per bucket.
\<close>

definition bucket_of :: "('f, 'd) floats \<Rightarrow> 'f \<Rightarrow> nat" where
  "bucket_of F val =
     (let nbuckets = 128; bucket_low = fl_of_int F (-10); bucket_high = fl_of_int F 10;
          bucket_scale = fl_div F (fl_of_int F nbuckets) (fl_sub F bucket_high bucket_low);
          bucket_inter = fl_mul F (fl_neg F bucket_low) bucket_scale;
          ib = fl_to_int F (fl_add F (fl_mul F bucket_scale val) bucket_inter)
      in nat (max 0 (min (nbuckets - 1) ib)))"

definition histogram :: "nat list \<Rightarrow> nat list" where
  "histogram bucket_idx = fold (\<lambda>b histo. histo[b := histo ! b + 1]) bucket_idx (replicate 128 0)"

fun lowest_bucket :: "nat list \<Rightarrow> nat \<Rightarrow> nat \<Rightarrow> nat \<Rightarrow> nat \<times> nat" where
  "lowest_bucket histo k nhave ib =
     (let nhave = nhave + histo ! ib in
      if k \<le> nhave \<or> ib = 0 then (ib, nhave) else lowest_bucket histo k nhave (ib - 1))"

declare lowest_bucket.simps [simp del]

definition bucket_ptrs :: "nat list \<Rightarrow> nat \<Rightarrow> nat list" where
  "bucket_ptrs histo ib = map (\<lambda>j. sum_list (map (\<lambda>j. histo ! j) [Suc j..<128])) (rev [ib..<128])"

definition move_candidate ::
    "nat \<Rightarrow> nat \<times> 'f llama_token_data \<Rightarrow> 'f llama_token_data list \<times> nat list \<Rightarrow> 'f llama_token_data list \<times> nat list" where
  "move_candidate ib jt st =
     (let (j, t) = jt; (tmp, ptrs) = st; q = 127 - j in
      if ib \<le> j then (tmp[ptrs ! q := t], ptrs[q := ptrs ! q + 1]) else (tmp, ptrs))"

text \<open>Every full bucket is sorted, of the lowest one as many as are needed; \<open>ptr\<close> and \<open>ndone\<close> agree.\<close>

definition sort_bucket ::
    "('f, 'g, 'e) library \<Rightarrow> nat list \<Rightarrow> nat \<Rightarrow> 'f llama_token_data list \<times> nat \<Rightarrow> 'f llama_token_data list \<times> nat" where
  "sort_bucket L histo j st =
     (let (tmp, ptr) = st in
      (take ptr tmp @ lb_sort L (take (histo ! j) (drop ptr tmp)) @ drop (ptr + histo ! j) tmp, ptr + histo ! j))"

definition bucket_sort ::
    "('f, 'd) floats \<Rightarrow> ('f, 'g, 'e) library \<Rightarrow> nat \<Rightarrow> 'f llama_token_data list \<Rightarrow> 'f llama_token_data list" where
  "bucket_sort F L k xs =
     (let bucket_idx = map (\<lambda>t. bucket_of F (tk_logit t)) xs;
          histo = histogram bucket_idx;
          (ib, nhave) = lowest_bucket histo k 0 127;
          (tmp, _) = fold (move_candidate ib) (zip bucket_idx xs)
                       (replicate nhave \<lparr>tk_id = 0, tk_logit = fl_zero F, tk_p = fl_zero F\<rparr>, bucket_ptrs histo ib);
          (tmp, ndone) = fold (sort_bucket L histo) (rev [Suc ib..<128]) (tmp, 0)
      in take k (take ndone tmp @ lb_partial_sort L (k - ndone) (take (histo ! ib) (drop ndone tmp))))"

definition llama_sampler_top_k_impl ::
    "('f, 'd) floats \<Rightarrow> ('f, 'g, 'e) library \<Rightarrow> 'f llama_token_data_array \<Rightarrow> int \<Rightarrow> 'f llama_token_data_array" where
  "llama_sampler_top_k_impl F L cur_p k =
     (let xs = cur_data cur_p;
          k = (if k \<le> 0 then length xs else min (nat k) (length xs))
      in if cur_sorted cur_p then cur_p\<lparr>cur_data := take k xs\<rparr>
         else cur_p\<lparr>cur_data := (if k \<le> 128 then take k (lb_partial_sort L k xs) else bucket_sort F L k xs),
                   cur_sorted := True\<rparr>)"

section \<open>Top-p, min-p and typical\<close>

text \<open>The index behind the last candidate to keep.\<close>

fun top_p_loop ::
    "('f::linorder, 'd) floats \<Rightarrow> 'f \<Rightarrow> nat \<Rightarrow> nat \<Rightarrow> 'f \<Rightarrow> 'f llama_token_data list \<Rightarrow> nat" where
  "top_p_loop F p min_keep i cum_sum [] = i"
| "top_p_loop F p min_keep i cum_sum (t # ts) =
     (let cum_sum = fl_add F cum_sum (tk_p t) in
      if p \<le> cum_sum \<and> min_keep \<le> i + 1 then i + 1 else top_p_loop F p min_keep (i + 1) cum_sum ts)"

definition llama_sampler_top_p_apply ::
    "('f::linorder, 'd) floats \<Rightarrow> ('f, 'g, 'e) library \<Rightarrow> 'f \<Rightarrow> nat \<Rightarrow> 'f llama_token_data_array
      \<Rightarrow> 'f llama_token_data_array res" where
  "llama_sampler_top_p_apply F L p min_keep cur_p =
     (if fl_one F \<le> p then Inr cur_p
      else rbind (llama_sampler_softmax_impl F L cur_p) (\<lambda>cur_p.
        let last_idx = top_p_loop F p min_keep 0 (fl_zero F) (cur_data cur_p)
        in Inr (cur_p\<lparr>cur_data := take last_idx (cur_data cur_p)\<rparr>)))"

fun min_p_loop :: "'f::linorder \<Rightarrow> nat \<Rightarrow> nat \<Rightarrow> 'f llama_token_data list \<Rightarrow> nat" where
  "min_p_loop min_logit min_keep i [] = i"
| "min_p_loop min_logit min_keep i (t # ts) =
     (if tk_logit t < min_logit \<and> min_keep \<le> i then i else min_p_loop min_logit min_keep (i + 1) ts)"

definition llama_sampler_min_p_apply ::
    "('f::linorder, 'd) floats \<Rightarrow> ('f, 'g, 'e) library \<Rightarrow> 'f \<Rightarrow> nat \<Rightarrow> 'f llama_token_data_array
      \<Rightarrow> 'f llama_token_data_array" where
  "llama_sampler_min_p_apply F L p min_keep cur_p =
     (if p \<le> fl_zero F \<or> cur_data cur_p = [] then cur_p
      else
        let max_logit = fold (\<lambda>t m. max m (tk_logit t)) (cur_data cur_p) (fl_neg_max F);
            min_logit = fl_add F max_logit (fl_log F p);
            filtered_tokens = filter (\<lambda>t. min_logit \<le> tk_logit t) (cur_data cur_p)
        in if \<not> cur_sorted cur_p \<and> min_keep \<le> length filtered_tokens
           then cur_p\<lparr>cur_data := filtered_tokens\<rparr>
           else
             let cur_p = sort_candidates L cur_p;
                 min_logit = fl_add F (tk_logit (hd (cur_data cur_p))) (fl_log F p);
                 i = min_p_loop min_logit min_keep 1 (tl (cur_data cur_p))
             in cur_p\<lparr>cur_data := take i (cur_data cur_p)\<rparr>)"

text \<open>\<open>min_keep - 1\<close> is a \<open>size_t\<close>.\<close>

fun typical_loop ::
    "('f::linorder, 'd) floats \<Rightarrow> 'f llama_token_data list \<Rightarrow> 'f \<Rightarrow> nat \<Rightarrow> nat \<Rightarrow> 'f \<Rightarrow> nat list \<Rightarrow> nat" where
  "typical_loop F xs p min_keep i cum_sum [] = i"
| "typical_loop F xs p min_keep i cum_sum (idx # indices) =
     (let cum_sum = fl_add F cum_sum (tk_p (xs ! idx)) in
      if p < cum_sum \<and> (min_keep + (2 ^ 64 - 1)) mod 2 ^ 64 \<le> i then i + 1
      else typical_loop F xs p min_keep (i + 1) cum_sum indices)"

definition llama_sampler_typical_apply ::
    "('f::linorder, 'd) floats \<Rightarrow> ('f, 'g, 'e) library \<Rightarrow> 'f \<Rightarrow> nat \<Rightarrow> 'f llama_token_data_array
      \<Rightarrow> 'f llama_token_data_array res" where
  "llama_sampler_typical_apply F L p min_keep cur_p =
     (if fl_one F \<le> p then Inr cur_p
      else rbind (llama_sampler_softmax_impl F L cur_p) (\<lambda>cur_p.
        let xs = cur_data cur_p;
            entropy = foldl (\<lambda>e t. fl_add F e (fl_mul F (fl_neg F (tk_p t)) (fl_log F (tk_p t)))) (fl_zero F) xs;
            shifted_scores = map (\<lambda>t. fl_abs F (fl_sub F (fl_neg F (fl_log F (tk_p t))) entropy)) xs;
            indices = lb_sort_indices L shifted_scores;
            last_idx = typical_loop F xs p min_keep 0 (fl_zero F) indices
        in Inr (cur_p\<lparr>cur_data := map (\<lambda>idx. xs ! idx) (take last_idx indices), cur_sorted := False\<rparr>)))"

section \<open>Dynamic temperature\<close>

text \<open>The probabilities are computed again in double precision, from the logits scaled by \<open>dyn_temp\<close>.\<close>

definition softmax_double :: "('f, 'd) floats \<Rightarrow> 'f llama_token_data list \<Rightarrow> 'f llama_token_data list" where
  "softmax_double F xs =
     (let max_l = fl_double F (tk_logit (hd xs));
          ps = map (\<lambda>t. db_exp F (db_sub F (fl_double F (tk_logit t)) max_l)) xs;
          cum_sum = foldl (db_add F) (db_of_int F 0) ps
      in map (\<lambda>(t, p). t\<lparr>tk_p := fl_float F (db_div F (fl_double F (fl_float F p)) cum_sum)\<rparr>) (zip xs ps))"

definition llama_sampler_temp_ext_apply ::
    "('f::linorder, 'd) floats \<Rightarrow> ('f, 'g, 'e) library \<Rightarrow> 'f \<Rightarrow> 'f \<Rightarrow> 'f \<Rightarrow> 'f llama_token_data_array
      \<Rightarrow> 'f llama_token_data_array res" where
  "llama_sampler_temp_ext_apply F L temp delta exponent cur_p =
     (if fl_zero F < delta then
        let min_temp = max (fl_zero F) (fl_sub F temp delta);
            max_temp = fl_add F temp delta
        in if length (cur_data cur_p) \<le> 1 then Inr cur_p
        else
          let max_entropy = fl_neg F (fl_log F (fl_div F (fl_one F) (fl_of_int F (int (length (cur_data cur_p))))))
          in rbind (llama_sampler_softmax_impl F L cur_p) (\<lambda>cur_p.
          let entropy = foldl (\<lambda>e t. if fl_zero F < tk_p t then fl_sub F e (fl_mul F (tk_p t) (fl_log F (tk_p t))) else e)
                          (fl_zero F) (cur_data cur_p);
              normalized_entropy = fl_div F entropy max_entropy;
              dyn_temp = fl_add F min_temp
                (fl_mul F (fl_sub F max_temp min_temp) (fl_pow F normalized_entropy exponent))
          in rbind (llama_sampler_temp_impl F cur_p dyn_temp) (\<lambda>cur_p.
             Inr (cur_p\<lparr>cur_data := softmax_double F (cur_data cur_p)\<rparr>)))
      else llama_sampler_temp_impl F cur_p temp)"

section \<open>Random choices\<close>

text \<open>
  The default seed asks the random device (or the clock) for one.  A distribution over no
  candidate at all gives index 0.
\<close>

definition LLAMA_DEFAULT_SEED :: "32 word" where
  "LLAMA_DEFAULT_SEED = 0xFFFFFFFF"

definition get_rng_seed :: "('f, 'g, 'e) library \<Rightarrow> 32 word \<Rightarrow> 'e \<Rightarrow> 32 word \<times> 'e" where
  "get_rng_seed L seed e = (if seed = LLAMA_DEFAULT_SEED then lb_random L e else (seed, e))"

definition llama_sample_dist ::
    "('f, 'g, 'e) library \<Rightarrow> 'f llama_token_data_array \<Rightarrow> 'g \<Rightarrow> nat \<times> 'g" where
  "llama_sample_dist L cur_p rng = lb_discrete L (map tk_p (cur_data cur_p)) rng"

record 'g llama_sampler_dist =
  di_seed :: "32 word"
  di_seed_cur :: "32 word"
  di_rng :: 'g

definition llama_sampler_dist_apply ::
    "('f, 'd) floats \<Rightarrow> ('f, 'g, 'e) library \<Rightarrow> 'g llama_sampler_dist \<Rightarrow> 'f llama_token_data_array
      \<Rightarrow> ('g llama_sampler_dist \<times> 'f llama_token_data_array) res" where
  "llama_sampler_dist_apply F L ctx cur_p =
     rbind (llama_sampler_softmax_impl F L cur_p) (\<lambda>cur_p.
     let (idx, rng) = llama_sample_dist L cur_p (di_rng ctx)
     in Inr (ctx\<lparr>di_rng := rng\<rparr>, cur_p\<lparr>cur_selected := int idx\<rparr>))"

definition llama_sampler_greedy_apply ::
    "'f::linorder llama_token_data_array \<Rightarrow> 'f llama_token_data_array" where
  "llama_sampler_greedy_apply cur_p =
     (let xs = cur_data cur_p in
      cur_p\<lparr>cur_selected := int (fold (\<lambda>i sel. if tk_logit (xs ! i) > tk_logit (xs ! sel) then i else sel)
                                 [1..<length xs] 0)\<rparr>)"

section \<open>XTC\<close>

record ('f, 'g) llama_sampler_xtc =
  xt_probability :: 'f
  xt_threshold :: 'f
  xt_min_keep :: nat
  xt_seed :: "32 word"
  xt_seed_cur :: "32 word"
  xt_rng :: 'g

fun xtc_loop :: "'f::linorder \<Rightarrow> nat \<Rightarrow> nat \<Rightarrow> 'f llama_token_data list \<Rightarrow> nat" where
  "xtc_loop threshold i pos_last [] = pos_last"
| "xtc_loop threshold i pos_last (t # ts) =
     (if threshold \<le> tk_p t then xtc_loop threshold (i + 1) i ts else pos_last)"

definition llama_sample_xtc_apply ::
    "('f::linorder, 'd) floats \<Rightarrow> ('f, 'g, 'e) library \<Rightarrow> ('f, 'g) llama_sampler_xtc \<Rightarrow> 'f llama_token_data_array
      \<Rightarrow> (('f, 'g) llama_sampler_xtc \<times> 'f llama_token_data_array) res" where
  "llama_sample_xtc_apply F L ctx cur_p =
     (if xt_probability ctx \<le> fl_zero F \<or> xt_threshold ctx > fl_dec F 5 1 \<or> length (cur_data cur_p) < 2
      then Inr (ctx, cur_p)
      else
        let (chance, rng) = lb_uniform L (xt_rng ctx); ctx = ctx\<lparr>xt_rng := rng\<rparr> in
        if chance > xt_probability ctx then Inr (ctx, cur_p)
        else rbind (llama_sampler_softmax_impl F L cur_p) (\<lambda>cur_p.
          let xs = cur_data cur_p; pos_last = xtc_loop (xt_threshold ctx) 0 0 xs in
          if xt_min_keep ctx \<le> length xs - pos_last \<and> 0 < pos_last
          then Inr (ctx, cur_p\<lparr>cur_data := drop pos_last xs\<rparr>)
          else Inr (ctx, cur_p)))"

section \<open>Mirostat\<close>

record ('f, 'g) llama_sampler_mirostat =
  mi_n_vocab :: int
  mi_seed :: "32 word"
  mi_seed_cur :: "32 word"
  mi_tau :: 'f
  mi_eta :: 'f
  mi_m :: int
  mi_mu :: 'f
  mi_rng :: 'g

record ('f, 'g) llama_sampler_mirostat_v2 =
  m2_seed :: "32 word"
  m2_seed_cur :: "32 word"
  m2_tau :: 'f
  m2_eta :: 'f
  m2_mu :: 'f
  m2_rng :: 'g

text \<open>
  The estimate runs over the first \<open>size_t(m - 1)\<close> pairs of neighbours.  An index behind the
  candidates would be read out of bounds.
\<close>

definition mirostat_s_hat :: "('f, 'd) floats \<Rightarrow> int \<Rightarrow> 'f llama_token_data list \<Rightarrow> 'f" where
  "mirostat_s_hat F m xs =
     (let n = min (nat ((m - 1) mod 2 ^ 64)) (length xs - 1);
          (sum_ti_bi, sum_ti_sq) = fold (\<lambda>i (bi, sq).
             let t_i = fl_log F (fl_div F (fl_of_int F (int i + 2)) (fl_of_int F (int i + 1)));
                 b_i = fl_log F (fl_div F (tk_p (xs ! i)) (tk_p (xs ! Suc i)))
             in (fl_add F bi (fl_mul F t_i b_i), fl_add F sq (fl_mul F t_i t_i)))
            [0..<n] (fl_zero F, fl_zero F)
      in fl_div F sum_ti_bi sum_ti_sq)"

definition selected_token :: "nat \<Rightarrow> 'f llama_token_data_array \<Rightarrow> 'f llama_token_data res" where
  "selected_token idx cur_p = (if idx < length (cur_data cur_p) then Inr (cur_data cur_p ! idx) else Inl Out_of_bounds)"

definition mirostat_mu :: "('f, 'd) floats \<Rightarrow> 'f \<Rightarrow> 'f \<Rightarrow> 'f \<Rightarrow> 'f \<Rightarrow> 'f" where
  "mirostat_mu F tau eta mu p =
     (let observed_surprise = fl_neg F (fl_log2 F p); e = fl_sub F observed_surprise tau
      in fl_sub F mu (fl_mul F eta e))"

definition llama_sampler_mirostat_apply ::
    "('f, 'd) floats \<Rightarrow> ('f, 'g, 'e) library \<Rightarrow> ('f, 'g) llama_sampler_mirostat \<Rightarrow> 'f llama_token_data_array
      \<Rightarrow> (('f, 'g) llama_sampler_mirostat \<times> 'f llama_token_data_array) res" where
  "llama_sampler_mirostat_apply F L ctx cur_p =
     rbind (llama_sampler_softmax_impl F L cur_p) (\<lambda>cur_p.
     let s_hat = mirostat_s_hat F (mi_m ctx) (cur_data cur_p);
         epsilon_hat = fl_sub F s_hat (fl_one F);
         k = fl_pow F
               (fl_div F (fl_mul F epsilon_hat (fl_pow F (fl_of_int F 2) (mi_mu ctx)))
                  (fl_sub F (fl_one F) (fl_pow F (fl_of_int F (mi_n_vocab ctx)) (fl_neg F epsilon_hat))))
               (fl_div F (fl_one F) s_hat);
         cur_p = llama_sampler_top_k_impl F L cur_p (max (fl_to_int F k) 1)
     in rbind (llama_sampler_softmax_impl F L cur_p) (\<lambda>cur_p.
     let (idx, rng) = llama_sample_dist L cur_p (mi_rng ctx) in
     rbind (selected_token idx cur_p) (\<lambda>t.
     Inr (ctx\<lparr>mi_rng := rng, mi_mu := mirostat_mu F (mi_tau ctx) (mi_eta ctx) (mi_mu ctx) (tk_p t)\<rparr>,
          cur_p\<lparr>cur_selected := int idx\<rparr>))))"

definition llama_sampler_mirostat_v2_apply ::
    "('f::linorder, 'd) floats \<Rightarrow> ('f, 'g, 'e) library \<Rightarrow> ('f, 'g) llama_sampler_mirostat_v2 \<Rightarrow> 'f llama_token_data_array
      \<Rightarrow> (('f, 'g) llama_sampler_mirostat_v2 \<times> 'f llama_token_data_array) res" where
  "llama_sampler_mirostat_v2_apply F L ctx cur_p =
     rbind (llama_sampler_softmax_impl F L cur_p) (\<lambda>cur_p.
     let kept = takeWhile (\<lambda>t. \<not> fl_neg F (fl_log2 F (tk_p t)) > m2_mu ctx) (cur_data cur_p);
         kept = (if kept = [] then take 1 (cur_data cur_p) else kept)
     in rbind (llama_sampler_softmax_impl F L (cur_p\<lparr>cur_data := kept\<rparr>)) (\<lambda>cur_p.
     let (idx, rng) = llama_sample_dist L cur_p (m2_rng ctx) in
     rbind (selected_token idx cur_p) (\<lambda>t.
     Inr (ctx\<lparr>m2_rng := rng, m2_mu := mirostat_mu F (m2_tau ctx) (m2_eta ctx) (m2_mu ctx) (tk_p t)\<rparr>,
          cur_p\<lparr>cur_selected := int idx\<rparr>))))"

section \<open>Logit bias\<close>

text \<open>A bias is added where the candidate stands at the index of its id; for the others the array is searched.\<close>

record 'f llama_logit_bias =
  lb_token :: llama_token
  lb_bias :: 'f

definition add_bias :: "('f, 'd) floats \<Rightarrow> 'f \<Rightarrow> 'f llama_token_data \<Rightarrow> 'f llama_token_data" where
  "add_bias F b t = t\<lparr>tk_logit := fl_add F (tk_logit t) b\<rparr>"

definition bias_in_place ::
    "('f, 'd) floats \<Rightarrow> 'f llama_logit_bias \<Rightarrow> 'f llama_token_data list \<times> 'f llama_logit_bias list
      \<Rightarrow> 'f llama_token_data list \<times> 'f llama_logit_bias list" where
  "bias_in_place F lb st =
     (let (xs, to_search) = st; i = nat (lb_token lb) in
      if 0 \<le> lb_token lb \<and> i < length xs \<and> tk_id (xs ! i) = lb_token lb
      then (xs[i := add_bias F (lb_bias lb) (xs ! i)], to_search)
      else (xs, to_search @ [lb]))"

definition llama_sampler_logit_bias_apply ::
    "('f, 'd) floats \<Rightarrow> 'f llama_logit_bias list \<Rightarrow> 'f llama_token_data_array \<Rightarrow> 'f llama_token_data_array" where
  "llama_sampler_logit_bias_apply F logit_bias cur_p =
     (let (xs, to_search) = fold (bias_in_place F) logit_bias (cur_data cur_p, []) in
      cur_p\<lparr>cur_data := map (\<lambda>t. case find (\<lambda>lb. tk_id t = lb_token lb) to_search of
                                 None \<Rightarrow> t | Some lb \<Rightarrow> add_bias F (lb_bias lb) t) xs\<rparr>)"

end
