(* ===== verification/SampleRing.thy ===== *)
theory SampleRing
  imports Sample
begin

text \<open>
  The samplers of \<^verbatim>\<open>src/llama-sampling.cpp\<close> that look back at the accepted tokens: the ring
  buffer they keep, the repetition penalties and DRY.
\<close>

section \<open>The ring buffer\<close>

record 'a ring_buffer =
  rb_capacity :: nat
  rb_sz :: nat
  rb_first :: nat
  rb_pos :: nat
  rb_data :: "'a list"

definition make_ring_buffer :: "'a \<Rightarrow> nat \<Rightarrow> 'a ring_buffer" where
  "make_ring_buffer z cap = \<lparr>rb_capacity = cap, rb_sz = 0, rb_first = 0, rb_pos = 0, rb_data = replicate cap z\<rparr>"

definition ring_front :: "'a ring_buffer \<Rightarrow> 'a res" where
  "ring_front r =
     (if rb_sz r = 0 then Inl (Runtime_error ''ring buffer is empty'') else Inr (rb_data r ! rb_first r))"

definition ring_back :: "'a ring_buffer \<Rightarrow> 'a res" where
  "ring_back r =
     (if rb_sz r = 0 then Inl (Runtime_error ''ring buffer is empty'') else Inr (rb_data r ! rb_pos r))"

definition ring_push_back :: "'a \<Rightarrow> 'a ring_buffer \<Rightarrow> 'a ring_buffer res" where
  "ring_push_back value r =
     (if rb_capacity r = 0 then Inl (Runtime_error ''ring buffer: capacity is zero'')
      else
        let r = (if rb_sz r = rb_capacity r then r\<lparr>rb_first := (rb_first r + 1) mod rb_capacity r\<rparr>
                 else r\<lparr>rb_sz := rb_sz r + 1\<rparr>)
        in Inr (r\<lparr>rb_data := (rb_data r)[rb_pos r := value], rb_pos := (rb_pos r + 1) mod rb_capacity r\<rparr>))"

definition ring_pop_front :: "'a ring_buffer \<Rightarrow> ('a \<times> 'a ring_buffer) res" where
  "ring_pop_front r =
     (if rb_sz r = 0 then Inl (Runtime_error ''ring buffer is empty'')
      else Inr (rb_data r ! rb_first r,
                r\<lparr>rb_first := (rb_first r + 1) mod rb_capacity r, rb_sz := rb_sz r - 1\<rparr>))"

definition ring_rat :: "nat \<Rightarrow> 'a ring_buffer \<Rightarrow> 'a res" where
  "ring_rat i r =
     (if rb_sz r \<le> i then Inl (Runtime_error ''ring buffer: index out of bounds'')
      else Inr (rb_data r ! ((rb_first r + rb_sz r - i - 1) mod rb_capacity r)))"

definition ring_to_vector :: "'a ring_buffer \<Rightarrow> 'a list" where
  "ring_to_vector r = map (\<lambda>i. rb_data r ! ((rb_first r + i) mod rb_capacity r)) [0..<rb_sz r]"

definition ring_clear :: "'a ring_buffer \<Rightarrow> 'a ring_buffer" where
  "ring_clear r = r\<lparr>rb_sz := 0, rb_first := 0, rb_pos := 0\<rparr>"

section \<open>Repetition penalties\<close>

record 'f llama_sampler_penalties =
  pe_last_n :: int
  pe_repeat :: 'f
  pe_freq :: 'f
  pe_present :: 'f
  pe_prev :: "llama_token ring_buffer"
  pe_token_count :: "llama_token \<rightharpoonup> int"

definition llama_sampler_init_penalties :: "int \<Rightarrow> 'f \<Rightarrow> 'f \<Rightarrow> 'f \<Rightarrow> 'f llama_sampler_penalties" where
  "llama_sampler_init_penalties penalty_last_n repeat freq present =
     (let penalty_last_n = max penalty_last_n 0 in
      \<lparr>pe_last_n = penalty_last_n, pe_repeat = repeat, pe_freq = freq, pe_present = present,
       pe_prev = make_ring_buffer 0 (nat penalty_last_n), pe_token_count = Map.empty\<rparr>)"

text \<open>\<open>map[key] += d\<close>: a missing key starts at 0.\<close>

definition count_add :: "llama_token \<Rightarrow> int \<Rightarrow> (llama_token \<rightharpoonup> int) \<Rightarrow> (llama_token \<rightharpoonup> int)" where
  "count_add tok d m = m(tok \<mapsto> (case m tok of None \<Rightarrow> 0 | Some c \<Rightarrow> c) + d)"

definition forget_token :: "llama_token \<Rightarrow> (llama_token \<rightharpoonup> int) \<Rightarrow> (llama_token \<rightharpoonup> int)" where
  "forget_token old m =
     (let m = count_add old (-1) m in if m old = Some 0 then m(old := None) else m)"

definition llama_sampler_penalties_accept ::
    "llama_token \<Rightarrow> 'f llama_sampler_penalties \<Rightarrow> 'f llama_sampler_penalties res" where
  "llama_sampler_penalties_accept tok ctx =
     (if pe_last_n ctx = 0 then Inr ctx
      else
        let m = count_add tok 1 (pe_token_count ctx) in
        rbind (if nat (pe_last_n ctx) \<le> rb_sz (pe_prev ctx)
               then rbind (ring_front (pe_prev ctx)) (\<lambda>old. Inr (forget_token old m))
               else Inr m) (\<lambda>m.
        rbind (ring_push_back tok (pe_prev ctx)) (\<lambda>prev.
        Inr (ctx\<lparr>pe_prev := prev, pe_token_count := m\<rparr>))))"

text \<open>
  The penalty of one candidate.  The source asserts \<open>0 < count \<le> penalty_last_n\<close>.
\<close>

definition penalize ::
    "('f::linorder, 'd) floats \<Rightarrow> 'f llama_sampler_penalties \<Rightarrow> 'f llama_token_data \<Rightarrow> 'f llama_token_data res" where
  "penalize F ctx t =
     (case pe_token_count ctx (tk_id t) of
        None \<Rightarrow> Inr t
      | Some count \<Rightarrow>
          rbind (guard (0 < count \<and> count \<le> pe_last_n ctx) Assert_failed) (\<lambda>_.
          let l = (if tk_logit t \<le> fl_zero F then fl_mul F (tk_logit t) (pe_repeat ctx)
                   else fl_div F (tk_logit t) (pe_repeat ctx))
          in Inr (t\<lparr>tk_logit := fl_sub F l
               (fl_add F (fl_mul F (fl_of_int F count) (pe_freq ctx))
                  (fl_mul F (fl_of_int F (if 0 < count then 1 else 0)) (pe_present ctx)))\<rparr>)))"

definition llama_sampler_penalties_apply ::
    "('f::linorder, 'd) floats \<Rightarrow> 'f llama_sampler_penalties \<Rightarrow> 'f llama_token_data_array \<Rightarrow> 'f llama_token_data_array res" where
  "llama_sampler_penalties_apply F ctx cur_p =
     (if pe_last_n ctx = 0 \<or> (pe_repeat ctx = fl_one F \<and> pe_freq ctx = fl_zero F \<and> pe_present ctx = fl_zero F)
      then Inr cur_p
      else rbind (rfold (\<lambda>t acc. rbind (penalize F ctx t) (\<lambda>t. Inr (acc @ [t]))) (cur_data cur_p) []) (\<lambda>xs.
        Inr (cur_p\<lparr>cur_data := xs, cur_sorted := False\<rparr>)))"

definition llama_sampler_penalties_reset :: "'f llama_sampler_penalties \<Rightarrow> 'f llama_sampler_penalties" where
  "llama_sampler_penalties_reset ctx = ctx\<lparr>pe_prev := ring_clear (pe_prev ctx), pe_token_count := Map.empty\<rparr>"

text \<open>The clone gets the buffer but not the counts.\<close>

definition llama_sampler_penalties_clone :: "'f llama_sampler_penalties \<Rightarrow> 'f llama_sampler_penalties" where
  "llama_sampler_penalties_clone ctx =
     (llama_sampler_init_penalties (pe_last_n ctx) (pe_repeat ctx) (pe_freq ctx) (pe_present ctx))
       \<lparr>pe_prev := pe_prev ctx\<rparr>"

section \<open>DRY\<close>

text \<open>
  \<open>dr_breakers\<close> is the multimap from the first token of a sequence breaker to the rest of it, its
  entries in the order of their insertion.
\<close>

record 'f llama_sampler_dry =
  dr_total_context_size :: int
  dr_multiplier :: 'f
  dr_base :: 'f
  dr_allowed_length :: int
  dr_penalty_last_n :: int
  dr_breakers :: "(llama_token \<times> llama_token list) list"
  dr_repeat_count :: "int list"
  dr_max_token_repeat :: "llama_token \<rightharpoonup> int"
  dr_last_tokens :: "llama_token ring_buffer"

definition dry_off :: "('f::linorder, 'd) floats \<Rightarrow> 'f \<Rightarrow> 'f \<Rightarrow> int \<Rightarrow> bool" where
  "dry_off F multiplier base penalty_last_n \<longleftrightarrow>
     multiplier = fl_zero F \<or> base < fl_one F \<or> penalty_last_n = 0"

text \<open>
  \<open>llama_sampler_init_dry\<close> and its variant for tests, with the breakers already processed.  A
  negative context size asks for a vector longer than there can be.
\<close>

definition make_llama_sampler_dry ::
    "('f::linorder, 'd) floats \<Rightarrow> int \<Rightarrow> 'f \<Rightarrow> 'f \<Rightarrow> int \<Rightarrow> int \<Rightarrow> (llama_token \<times> llama_token list) list
      \<Rightarrow> 'f llama_sampler_dry res" where
  "make_llama_sampler_dry F context_size multiplier base allowed_length penalty_last_n breakers =
     (let effective = (if penalty_last_n = -1 then context_size else max penalty_last_n 0);
          dry_enabled = (\<not> dry_off F multiplier base penalty_last_n);
          n = (if dry_enabled then effective else 0)
      in if n < 0 then Inl (Length_error ''vector'')
         else Inr \<lparr>dr_total_context_size = context_size, dr_multiplier = multiplier, dr_base = base,
                dr_allowed_length = allowed_length, dr_penalty_last_n = penalty_last_n,
                dr_breakers = breakers, dr_repeat_count = replicate (nat n) 0,
                dr_max_token_repeat = Map.empty, dr_last_tokens = make_ring_buffer 0 (nat n)\<rparr>)"

definition llama_sampler_init_dry_testing ::
    "('f::linorder, 'd) floats \<Rightarrow> int \<Rightarrow> 'f \<Rightarrow> 'f \<Rightarrow> int \<Rightarrow> int \<Rightarrow> llama_token list list \<Rightarrow> 'f llama_sampler_dry res" where
  "llama_sampler_init_dry_testing F context_size multiplier base allowed_length penalty_last_n seq_breakers =
     rbind (make_llama_sampler_dry F context_size multiplier base allowed_length penalty_last_n []) (\<lambda>ctx.
     Inr (ctx\<lparr>dr_breakers := map (\<lambda>b. (hd b, tl b)) (filter (\<lambda>b. b \<noteq> []) seq_breakers)\<rparr>))"

definition llama_sampler_dry_accept ::
    "('f::linorder, 'd) floats \<Rightarrow> llama_token \<Rightarrow> 'f llama_sampler_dry \<Rightarrow> 'f llama_sampler_dry res" where
  "llama_sampler_dry_accept F tok ctx =
     (if dry_off F (dr_multiplier ctx) (dr_base ctx) (dr_penalty_last_n ctx) then Inr ctx
      else rbind (ring_push_back tok (dr_last_tokens ctx)) (\<lambda>r. Inr (ctx\<lparr>dr_last_tokens := r\<rparr>)))"

text \<open>Step 1: the longest breaker that starts \<open>i\<close> tokens from the end, and where the repetition is cut.\<close>

fun tail_matches :: "llama_token ring_buffer \<Rightarrow> nat \<Rightarrow> llama_token list \<Rightarrow> bool res" where
  "tail_matches r i [] = Inr True"
| "tail_matches r i (t # ts) =
     rbind (ring_rat (i - 1) r) (\<lambda>x. if t \<noteq> x then Inr False else tail_matches r (i - 1) ts)"

definition longest_breaker ::
    "llama_token ring_buffer \<Rightarrow> nat \<Rightarrow> llama_token list list \<Rightarrow> int res" where
  "longest_breaker r i tails =
     rfold (\<lambda>ts longest_match.
       if longest_match < int (length ts) \<and> length ts \<le> i then
         rbind (tail_matches r i ts) (\<lambda>match. Inr (if match then int (length ts) else longest_match))
       else Inr longest_match) tails (-1)"

fun breaker_loop ::
    "llama_token ring_buffer \<Rightarrow> (llama_token \<times> llama_token list) list \<Rightarrow> int \<Rightarrow> nat list \<Rightarrow> int res" where
  "breaker_loop r breakers rep_limit [] = Inr rep_limit"
| "breaker_loop r breakers rep_limit (i # is) =
     rbind (ring_rat i r) (\<lambda>tok.
     rbind (longest_breaker r i (map snd (filter (\<lambda>b. fst b = tok) breakers))) (\<lambda>longest_match.
       if 0 \<le> longest_match then Inr (int i - longest_match)
       else breaker_loop r breakers rep_limit is))"

text \<open>
  Step 2, the Z-algorithm from the end of the context.  \<open>match_from\<close> is both inner loops:
  comparing position \<open>n\<close> with position \<open>n + k\<close> as long as they agree.
\<close>

function match_from :: "llama_token ring_buffer \<Rightarrow> nat \<Rightarrow> nat \<Rightarrow> nat \<Rightarrow> nat res" where
  "match_from r len k n =
     (if n + k < len then
        rbind (ring_rat n r) (\<lambda>a. rbind (ring_rat (n + k) r) (\<lambda>b.
          if a = b then match_from r len k (Suc n) else Inr n))
      else Inr n)"
  by pat_completeness auto
termination
  by (relation "measure (\<lambda>(_, len, k, n). len - (n + k))") auto

declare match_from.simps [simp del]

definition z_step ::
    "llama_token ring_buffer \<Rightarrow> nat \<Rightarrow> int \<Rightarrow> nat \<Rightarrow> int list \<times> int \<times> int \<Rightarrow> (int list \<times> int \<times> int) res" where
  "z_step r len rep_limit k st =
     (let (count, lt, rt) = st; l = len - 1 in
      if int k > rt then
        rbind (match_from r len k 0) (\<lambda>n.
          Inr (count[l - k := min (int n) rep_limit],
               if 0 < n then (int k, int k + int n - 1) else (lt, rt)))
      else
        let p = int k - lt; right_part_len = rt - int k + 1; z = count ! (l - nat p) in
        if z < right_part_len then Inr (count[l - k := min z rep_limit], lt, rt)
        else
          rbind (match_from r len k (nat (rt + 1) - k)) (\<lambda>n.
            Inr (count[l - k := min (int n) rep_limit], int k, int (n + k) - 1)))"

definition dry_counts :: "llama_token ring_buffer \<Rightarrow> nat \<Rightarrow> int \<Rightarrow> int list res" where
  "dry_counts r len rep_limit =
     rbind (rfold (z_step r len rep_limit) [1..<len] (replicate len 0, 0, 0)) (\<lambda>st. Inr (fst st))"

text \<open>Step 3: the longest repetition each token would continue.\<close>

definition dry_repeats ::
    "llama_token ring_buffer \<Rightarrow> nat \<Rightarrow> int \<Rightarrow> int list \<Rightarrow> (llama_token \<rightharpoonup> int) res" where
  "dry_repeats r len allowed_length count =
     rfold (\<lambda>i m.
       let repeat_len = count ! i in
       if allowed_length \<le> repeat_len then
         rbind (ring_rat (len - 2 - i) r) (\<lambda>tok.
         Inr (case m tok of
                None \<Rightarrow> m(tok \<mapsto> repeat_len)
              | Some x \<Rightarrow> if x < repeat_len then m(tok \<mapsto> repeat_len) else m))
       else Inr m) [0..<len - 1] Map.empty"

text \<open>Step 4: the penalty, unless the token alone is a breaker.\<close>

definition dry_penalize ::
    "('f::linorder, 'd) floats \<Rightarrow> 'f llama_sampler_dry \<Rightarrow> 'f llama_token_data \<Rightarrow> 'f llama_token_data" where
  "dry_penalize F ctx t =
     (let max_exponent = (if dr_base ctx > fl_dec F 1000001 6
                          then fl_to_int F (fl_div F (fl_dec F 887228391 7) (fl_log F (dr_base ctx))) else 0)
      in case dr_max_token_repeat ctx (tk_id t) of
           None \<Rightarrow> t
         | Some n \<Rightarrow>
             if list_ex (\<lambda>b. fst b = tk_id t \<and> snd b = []) (dr_breakers ctx) then t
             else
               let repeat_exp = n - dr_allowed_length ctx;
                   repeat_exp = (if 0 < max_exponent \<and> max_exponent < repeat_exp then max_exponent else repeat_exp);
                   penalty = fl_float F (db_mul F (fl_double F (dr_multiplier ctx))
                               (db_pow F (fl_double F (dr_base ctx)) (db_of_int F repeat_exp)))
               in t\<lparr>tk_logit := fl_sub F (tk_logit t) penalty\<rparr>)"

definition llama_sampler_dry_apply ::
    "('f::linorder, 'd) floats \<Rightarrow> 'f llama_sampler_dry \<Rightarrow> 'f llama_token_data_array
      \<Rightarrow> ('f llama_sampler_dry \<times> 'f llama_token_data_array) res" where
  "llama_sampler_dry_apply F ctx cur_p =
     (if dry_off F (dr_multiplier ctx) (dr_base ctx) (dr_penalty_last_n ctx) then Inr (ctx, cur_p)
      else
        let effective = (if dr_penalty_last_n ctx = -1 then dr_total_context_size ctx
                         else max (dr_penalty_last_n ctx) 0);
            last_n_repeat = min (min (int (rb_sz (dr_last_tokens ctx))) effective) (dr_total_context_size ctx);
            len = nat last_n_repeat; r = dr_last_tokens ctx
        in if last_n_repeat \<le> dr_allowed_length ctx then Inr (ctx, cur_p)
        else if last_n_repeat < 0 then Inl (Length_error ''vector::_M_fill_assign'')
        else
          let ctx = ctx\<lparr>dr_repeat_count := replicate len 0, dr_max_token_repeat := Map.empty\<rparr> in
          rbind (breaker_loop r (dr_breakers ctx) last_n_repeat [0..<len]) (\<lambda>rep_limit.
          if rep_limit < dr_allowed_length ctx then Inr (ctx, cur_p)
          else
            rbind (dry_counts r len rep_limit) (\<lambda>count.
            rbind (dry_repeats r len (dr_allowed_length ctx) count) (\<lambda>m.
            let ctx = ctx\<lparr>dr_repeat_count := count, dr_max_token_repeat := m\<rparr> in
            Inr (ctx, cur_p\<lparr>cur_data := map (dry_penalize F ctx) (cur_data cur_p), cur_sorted := False\<rparr>)))))"

definition llama_sampler_dry_reset :: "'f llama_sampler_dry \<Rightarrow> 'f llama_sampler_dry" where
  "llama_sampler_dry_reset ctx =
     ctx\<lparr>dr_last_tokens := ring_clear (dr_last_tokens ctx), dr_repeat_count := [], dr_max_token_repeat := Map.empty\<rparr>"

definition llama_sampler_dry_clone ::
    "('f::linorder, 'd) floats \<Rightarrow> 'f llama_sampler_dry \<Rightarrow> 'f llama_sampler_dry res" where
  "llama_sampler_dry_clone F ctx =
     rbind (make_llama_sampler_dry F (dr_total_context_size ctx) (dr_multiplier ctx) (dr_base ctx)
              (dr_allowed_length ctx) (dr_penalty_last_n ctx) []) (\<lambda>result.
     Inr (result\<lparr>dr_breakers := dr_breakers ctx, dr_repeat_count := dr_repeat_count ctx,
                 dr_max_token_repeat := dr_max_token_repeat ctx, dr_last_tokens := dr_last_tokens ctx\<rparr>))"

end
