(* ===== verification/SampleVocab.thy ===== *)
theory SampleVocab
  imports SampleRing VocabTokenize
begin

text \<open>
  The samplers of \<^verbatim>\<open>src/llama-sampling.cpp\<close> that read the vocabulary: the sequence breakers DRY
  is set up with, and infill.
\<close>

section \<open>Sequence breakers\<close>

text \<open>
  How far \<open>str\<close> goes on in \<open>word\<close> from \<open>pos\<close>: the index behind the last compared byte, or \<open>None\<close>
  when a byte differs.
\<close>

function overlap_from :: "8 word list \<Rightarrow> 8 word list \<Rightarrow> nat \<Rightarrow> nat \<Rightarrow> nat option" where
  "overlap_from word str pos i =
     (if i < length str \<and> i + pos < length word then
        (if word ! (pos + i) \<noteq> str ! i then None else overlap_from word str pos (Suc i))
      else Some i)"
  by pat_completeness auto
termination
  by (relation "measure (\<lambda>(_, str, _, i). length str - i)") auto

declare overlap_from.simps [simp del]

definition add_breaker ::
    "llama_token \<Rightarrow> llama_token list \<Rightarrow> (llama_token \<times> llama_token list) list \<Rightarrow> (llama_token \<times> llama_token list) list" where
  "add_breaker tok tail breakers = (if (tok, tail) \<in> set breakers then breakers else breakers @ [(tok, tail)])"

definition overlaps_at ::
    "(8 word list \<Rightarrow> llama_token list res) \<Rightarrow> int \<Rightarrow> llama_token \<Rightarrow> 8 word list \<Rightarrow> 8 word list \<Rightarrow> nat
      \<Rightarrow> (llama_token \<times> llama_token list) list \<Rightarrow> (llama_token \<times> llama_token list) list res" where
  "overlaps_at tokenize max_tail_len tok word str pos breakers =
     (if word ! pos \<noteq> hd str then Inr breakers
      else case overlap_from word str pos 1 of
        None \<Rightarrow> Inr breakers
      | Some i \<Rightarrow>
          rbind (tokenize (drop i str)) (\<lambda>tokenization.
          Inr (add_breaker tok
                 (if 0 \<le> max_tail_len then take (nat max_tail_len) tokenization else tokenization) breakers)))"

text \<open>
  \<open>get_overlapping_token_sequences\<close>, with \<open>detokenize\<close> and \<open>tokenize\<close> of the vocabulary.
\<close>

definition overlapping_token ::
    "nat \<Rightarrow> 'f llama_vocab \<Rightarrow> (8 word list \<Rightarrow> llama_token list res) \<Rightarrow> 8 word list \<Rightarrow> int \<Rightarrow> nat
      \<Rightarrow> (llama_token \<times> llama_token list) list \<Rightarrow> (llama_token \<times> llama_token list) list res" where
  "overlapping_token capacity v tokenize str max_tail_len token_id breakers =
     rbind (detokenize_string capacity v [int token_id] True) (\<lambda>word.
       if str_find word str 0 \<noteq> None then Inr (breakers @ [(int token_id, [])])
       else rfold (overlaps_at tokenize max_tail_len (int token_id) word str) [0..<length word] breakers)"

definition get_overlapping_token_sequences ::
    "nat \<Rightarrow> 'f llama_vocab \<Rightarrow> (8 word list \<Rightarrow> llama_token list res) \<Rightarrow> 8 word list \<Rightarrow> int
      \<Rightarrow> (llama_token \<times> llama_token list) list \<Rightarrow> (llama_token \<times> llama_token list) list res" where
  "get_overlapping_token_sequences capacity v tokenize str max_tail_len breakers =
     rfold (overlapping_token capacity v tokenize str max_tail_len) [0..<n_tokens v] breakers"

text \<open>\<open>llama_sampler_init_dry\<close>: empty breakers are skipped, long ones cut to 40 bytes.\<close>

definition llama_sampler_init_dry ::
    "('f::linorder, 'd) floats \<Rightarrow> 'f tokenize_env \<Rightarrow> nat \<Rightarrow> 'f llama_vocab \<Rightarrow> 'f llm_tokenizer option
      \<Rightarrow> int \<Rightarrow> 'f \<Rightarrow> 'f \<Rightarrow> int \<Rightarrow> int \<Rightarrow> 8 word list list \<Rightarrow> 'f llama_sampler_dry res" where
  "llama_sampler_init_dry F E capacity v tokenizer context_size multiplier base allowed_length penalty_last_n seq_breakers =
     rbind (if dry_off F multiplier base penalty_last_n then Inr []
            else rfold (\<lambda>s breakers.
                   if s = [] then Inr breakers
                   else get_overlapping_token_sequences capacity v
                          (\<lambda>txt. impl_tokenize E v tokenizer txt False False) (take 40 s) 20 breakers)
                 seq_breakers []) (\<lambda>breakers.
     make_llama_sampler_dry F context_size multiplier base allowed_length penalty_last_n breakers)"

section \<open>Infill\<close>

text \<open>\<open>in_eot\<close> is the vocabulary's \<open>token_eot()\<close>.  Of the two buffers only the lengths matter between calls.\<close>

record 'f llama_sampler_infill =
  in_vocab :: "'f llama_vocab"
  in_eot :: llama_token
  in_buf0 :: nat
  in_buf1 :: nat

definition llama_sampler_init_infill :: "'f llama_vocab \<Rightarrow> llama_token \<Rightarrow> 'f llama_sampler_infill" where
  "llama_sampler_init_infill v eot = \<lparr>in_vocab = v, in_eot = eot, in_buf0 = 512, in_buf1 = 512\<rparr>"

text \<open>
  A piece that does not fit gives the negative of its length, and the buffer is resized to that
  number, which no vector can have.
\<close>

definition infill_piece :: "'f llama_vocab \<Rightarrow> nat \<Rightarrow> llama_token \<Rightarrow> (int \<times> 8 word list) res" where
  "infill_piece v buf tok =
     rbind (token_to_piece v tok (int buf) 0 False) (\<lambda>(len, piece).
       if len < 0 then Inl (Length_error ''vector::_M_default_append'') else Inr (len, piece))"

definition set_p :: "'f \<Rightarrow> nat \<Rightarrow> 'f llama_token_data list \<Rightarrow> 'f llama_token_data list" where
  "set_p p i xs = xs[i := (xs ! i)\<lparr>tk_p := p\<rparr>]"

text \<open>
  One pair of the double loop.  The source leaves the inner loop when \<open>i0\<close> has no logit left; that
  stays so, and the remaining rounds do nothing.
\<close>

definition infill_pair ::
    "('f::linorder, 'd) floats \<Rightarrow> 'f llama_sampler_infill \<Rightarrow> nat \<Rightarrow> nat \<Rightarrow> 'f llama_token_data list
      \<Rightarrow> 'f llama_token_data list res" where
  "infill_pair F ctx i0 i1 xs =
     (if tk_logit (xs ! i0) = fl_neg_inf F \<or> i0 = i1 \<or> tk_logit (xs ! i1) = fl_neg_inf F then Inr xs
      else
        rbind (infill_piece (in_vocab ctx) (in_buf0 ctx) (tk_id (xs ! i0))) (\<lambda>(len0, piece0).
        rbind (infill_piece (in_vocab ctx) (in_buf1 ctx) (tk_id (xs ! i1))) (\<lambda>(len1, piece1).
          if 0 < len0 \<and> len0 \<le> len1 \<and> take (nat len0) piece0 = take (nat len0) piece1 then
            let (dst, src) = (if tk_p (xs ! i1) > tk_p (xs ! i0) then (i1, i0) else (i0, i1));
                xs = set_p (fl_add F (tk_p (xs ! dst)) (tk_p (xs ! src))) dst xs
            in Inr (set_p (fl_zero F) src (set_logit (fl_neg_inf F) src xs))
          else Inr xs)))"

definition infill_combine ::
    "('f::linorder, 'd) floats \<Rightarrow> 'f llama_sampler_infill \<Rightarrow> 'f llama_token_data list \<Rightarrow> 'f llama_token_data list res" where
  "infill_combine F ctx xs =
     rfold (\<lambda>i0 xs. rfold (infill_pair F ctx i0) [0..<length xs] xs) [0..<length xs] xs"

definition sum_p :: "('f, 'd) floats \<Rightarrow> 'f llama_token_data list \<Rightarrow> 'f" where
  "sum_p F xs = foldl (\<lambda>s t. fl_add F s (tk_p t)) (fl_zero F) xs"

definition normalize_p :: "('f, 'd) floats \<Rightarrow> 'f llama_token_data list \<Rightarrow> 'f llama_token_data list" where
  "normalize_p F xs = map (\<lambda>t. t\<lparr>tk_p := fl_div F (tk_p t) (sum_p F xs)\<rparr>) xs"

definition llama_sampler_infill_apply ::
    "('f::linorder, 'd) floats \<Rightarrow> ('f, 'g, 'e) library \<Rightarrow> 'f llama_sampler_infill \<Rightarrow> 'f llama_token_data_array
      \<Rightarrow> 'f llama_token_data_array res" where
  "llama_sampler_infill_apply F L ctx cur_p =
     rbind (llama_sampler_softmax_impl F L cur_p) (\<lambda>cur_p.
     let xs = cur_data cur_p; eog = (\<lambda>t. is_eog (in_vocab ctx) (tk_id t));
         p_eog_sum = sum_p F (filter eog xs); p_txt_sum = sum_p F (filter (\<lambda>t. \<not> eog t) xs)
     in if fl_mul F (fl_mul F (fl_of_int F 3) p_eog_sum) (fl_of_int F (int (length xs))) > p_txt_sum
        then Inr (cur_p\<lparr>cur_data := normalize_p F (filter eog xs)\<rparr>)
        else
          rbind (infill_combine F ctx xs) (\<lambda>xs.
          let kept = filter (\<lambda>t. \<not> (tk_p t < fl_dec F 2 1 \<and> \<not> eog t)) xs;
              n_non_eog = length (filter (\<lambda>t. \<not> eog t) kept)
          in if n_non_eog = 0 then
               Inr (cur_p\<lparr>cur_data := [(hd (kept @ xs))\<lparr>tk_id := in_eot ctx, tk_logit := fl_one F\<rparr>]\<rparr>)
             else
               let xs = normalize_p F kept;
                   thold = fl_float F (db_div F (db_of_int F 1) (db_of_int F (int n_non_eog + 1)))
               in Inr (cur_p\<lparr>cur_data := normalize_p F (filter (\<lambda>t. \<not> (tk_p t < thold \<and> \<not> eog t)) xs)\<rparr>)))"

end
