(* ===== verification/SampleChain.thy ===== *)
theory SampleChain
  imports SampleVocab GrammarParse Decode
begin

text \<open>
  The sampler interface of \<^verbatim>\<open>src/llama-sampling.cpp\<close>: a sampler is an interface table and a
  context, here a datatype with one constructor per table; the chain; and
  \<open>llama_sampler_sample\<close>.  A sampler belongs to one chain only, as the documentation asks, so that
  it is a part of the chain's value.  Names, freeing and time measurement are left out.
\<close>

section \<open>Samplers\<close>

record llama_sampler_grammar =
  gr_vocab :: "grammar_vocab option"
  gr_str :: string
  gr_root :: string
  gr_grammar :: "llama_grammar option"

datatype ('f, 'g) llama_sampler =
    Smpl_chain "('f, 'g) llama_sampler list" int
  | Smpl_greedy
  | Smpl_dist "'g llama_sampler_dist"
  | Smpl_softmax
  | Smpl_top_k int
  | Smpl_top_p 'f nat
  | Smpl_min_p 'f nat
  | Smpl_typical 'f nat
  | Smpl_temp 'f
  | Smpl_temp_ext 'f 'f 'f
  | Smpl_xtc "('f, 'g) llama_sampler_xtc"
  | Smpl_mirostat "('f, 'g) llama_sampler_mirostat"
  | Smpl_mirostat_v2 "('f, 'g) llama_sampler_mirostat_v2"
  | Smpl_grammar llama_sampler_grammar
  | Smpl_penalties "'f llama_sampler_penalties"
  | Smpl_dry "'f llama_sampler_dry"
  | Smpl_logit_bias int "'f llama_logit_bias list"
  | Smpl_infill "'f llama_sampler_infill"

section \<open>Setting up\<close>

definition llama_sampler_init_dist ::
    "('f, 'g, 'e) library \<Rightarrow> 32 word \<Rightarrow> 'e \<Rightarrow> 'g llama_sampler_dist \<times> 'e" where
  "llama_sampler_init_dist L seed e =
     (let (seed_cur, e) = get_rng_seed L seed e
      in (\<lparr>di_seed = seed, di_seed_cur = seed_cur, di_rng = lb_seed L seed_cur\<rparr>, e))"

definition llama_sampler_init_xtc ::
    "('f, 'g, 'e) library \<Rightarrow> 'f \<Rightarrow> 'f \<Rightarrow> nat \<Rightarrow> 32 word \<Rightarrow> 'e \<Rightarrow> ('f, 'g) llama_sampler_xtc \<times> 'e" where
  "llama_sampler_init_xtc L p t min_keep seed e =
     (let (seed_cur, e) = get_rng_seed L seed e
      in (\<lparr>xt_probability = p, xt_threshold = t, xt_min_keep = min_keep, xt_seed = seed,
           xt_seed_cur = seed_cur, xt_rng = lb_seed L seed_cur\<rparr>, e))"

definition llama_sampler_init_mirostat ::
    "('f, 'd) floats \<Rightarrow> ('f, 'g, 'e) library \<Rightarrow> int \<Rightarrow> 32 word \<Rightarrow> 'f \<Rightarrow> 'f \<Rightarrow> int \<Rightarrow> 'e
      \<Rightarrow> ('f, 'g) llama_sampler_mirostat \<times> 'e" where
  "llama_sampler_init_mirostat F L n_vocab seed tau eta m e =
     (let (seed_cur, e) = get_rng_seed L seed e
      in (\<lparr>mi_n_vocab = n_vocab, mi_seed = seed, mi_seed_cur = seed_cur, mi_tau = tau, mi_eta = eta, mi_m = m,
           mi_mu = fl_mul F (fl_of_int F 2) tau, mi_rng = lb_seed L seed_cur\<rparr>, e))"

definition llama_sampler_init_mirostat_v2 ::
    "('f, 'd) floats \<Rightarrow> ('f, 'g, 'e) library \<Rightarrow> 32 word \<Rightarrow> 'f \<Rightarrow> 'f \<Rightarrow> 'e \<Rightarrow> ('f, 'g) llama_sampler_mirostat_v2 \<times> 'e" where
  "llama_sampler_init_mirostat_v2 F L seed tau eta e =
     (let (seed_cur, e) = get_rng_seed L seed e
      in (\<lparr>m2_seed = seed, m2_seed_cur = seed_cur, m2_tau = tau, m2_eta = eta,
           m2_mu = fl_mul F (fl_of_int F 2) tau, m2_rng = lb_seed L seed_cur\<rparr>, e))"

text \<open>No grammar for a null or empty text; one that does not parse is null too.\<close>

definition llama_sampler_init_grammar ::
    "nat \<Rightarrow> grammar_vocab option \<Rightarrow> string \<Rightarrow> string \<Rightarrow> llama_sampler_grammar res" where
  "llama_sampler_init_grammar fuel v str root =
     (if str = [] then Inr \<lparr>gr_vocab = v, gr_str = [], gr_root = [], gr_grammar = None\<rparr>
      else rbind (llama_grammar_init_str fuel str root) (\<lambda>g.
        Inr \<lparr>gr_vocab = v, gr_str = str, gr_root = root, gr_grammar = g\<rparr>))"

section \<open>Accept\<close>

definition llama_sampler_grammar_accept_impl ::
    "nat \<Rightarrow> llama_token \<Rightarrow> llama_sampler_grammar \<Rightarrow> llama_sampler_grammar res" where
  "llama_sampler_grammar_accept_impl fuel tok ctx =
     (case gr_grammar ctx of
        None \<Rightarrow> Inr ctx
      | Some g \<Rightarrow> rbind (llama_grammar_accept_impl fuel (gr_vocab ctx) g tok) (\<lambda>g.
          Inr (ctx\<lparr>gr_grammar := Some g\<rparr>)))"

fun llama_sampler_accept ::
      "('f::linorder, 'd) floats \<Rightarrow> nat \<Rightarrow> llama_token \<Rightarrow> ('f, 'g) llama_sampler \<Rightarrow> ('f, 'g) llama_sampler res"
  and llama_sampler_chain_accept ::
      "('f, 'd) floats \<Rightarrow> nat \<Rightarrow> llama_token \<Rightarrow> ('f, 'g) llama_sampler list \<Rightarrow> ('f, 'g) llama_sampler list res" where
  "llama_sampler_accept F fuel tok (Smpl_chain ss n) =
     rbind (llama_sampler_chain_accept F fuel tok ss) (\<lambda>ss. Inr (Smpl_chain ss (n + 1)))"
| "llama_sampler_accept F fuel tok (Smpl_grammar c) =
     rbind (llama_sampler_grammar_accept_impl fuel tok c) (\<lambda>c. Inr (Smpl_grammar c))"
| "llama_sampler_accept F fuel tok (Smpl_penalties c) =
     rbind (llama_sampler_penalties_accept tok c) (\<lambda>c. Inr (Smpl_penalties c))"
| "llama_sampler_accept F fuel tok (Smpl_dry c) =
     rbind (llama_sampler_dry_accept F tok c) (\<lambda>c. Inr (Smpl_dry c))"
| "llama_sampler_accept F fuel tok s = Inr s"
| "llama_sampler_chain_accept F fuel tok [] = Inr []"
| "llama_sampler_chain_accept F fuel tok (s # ss) =
     rbind (llama_sampler_accept F fuel tok s) (\<lambda>s.
     rbind (llama_sampler_chain_accept F fuel tok ss) (\<lambda>ss. Inr (s # ss)))"

section \<open>Apply\<close>

text \<open>The grammar takes the logit of every candidate it rejects; \<open>sorted\<close> stays as it was.\<close>

definition llama_sampler_grammar_apply ::
    "('f, 'd) floats \<Rightarrow> nat \<Rightarrow> llama_sampler_grammar \<Rightarrow> 'f llama_token_data_array \<Rightarrow> 'f llama_token_data_array res" where
  "llama_sampler_grammar_apply F fuel ctx cur_p =
     (case gr_grammar ctx of
        None \<Rightarrow> Inr cur_p
      | Some g \<Rightarrow>
          rbind (llama_grammar_apply_impl fuel (gr_vocab ctx) g (map tk_id (cur_data cur_p))) (\<lambda>keep.
          Inr (cur_p\<lparr>cur_data := map (\<lambda>(t, k). if k then t else t\<lparr>tk_logit := fl_neg_inf F\<rparr>)
                                  (zip (cur_data cur_p) keep)\<rparr>)))"

fun llama_sampler_apply ::
      "('f::linorder, 'd) floats \<Rightarrow> ('f, 'g, 'e) library \<Rightarrow> nat \<Rightarrow> ('f, 'g) llama_sampler \<Rightarrow> 'f llama_token_data_array
        \<Rightarrow> (('f, 'g) llama_sampler \<times> 'f llama_token_data_array) res"
  and llama_sampler_chain_apply ::
      "('f, 'd) floats \<Rightarrow> ('f, 'g, 'e) library \<Rightarrow> nat \<Rightarrow> ('f, 'g) llama_sampler list \<Rightarrow> 'f llama_token_data_array
        \<Rightarrow> (('f, 'g) llama_sampler list \<times> 'f llama_token_data_array) res" where
  "llama_sampler_apply F L fuel (Smpl_chain ss n) cur_p =
     rbind (llama_sampler_chain_apply F L fuel ss cur_p) (\<lambda>(ss, cur_p). Inr (Smpl_chain ss n, cur_p))"
| "llama_sampler_apply F L fuel Smpl_greedy cur_p = Inr (Smpl_greedy, llama_sampler_greedy_apply cur_p)"
| "llama_sampler_apply F L fuel (Smpl_dist c) cur_p =
     rbind (llama_sampler_dist_apply F L c cur_p) (\<lambda>(c, cur_p). Inr (Smpl_dist c, cur_p))"
| "llama_sampler_apply F L fuel Smpl_softmax cur_p =
     rbind (llama_sampler_softmax_impl F L cur_p) (\<lambda>cur_p. Inr (Smpl_softmax, cur_p))"
| "llama_sampler_apply F L fuel (Smpl_top_k k) cur_p = Inr (Smpl_top_k k, llama_sampler_top_k_impl F L cur_p k)"
| "llama_sampler_apply F L fuel (Smpl_top_p p m) cur_p =
     rbind (llama_sampler_top_p_apply F L p m cur_p) (\<lambda>cur_p. Inr (Smpl_top_p p m, cur_p))"
| "llama_sampler_apply F L fuel (Smpl_min_p p m) cur_p = Inr (Smpl_min_p p m, llama_sampler_min_p_apply F L p m cur_p)"
| "llama_sampler_apply F L fuel (Smpl_typical p m) cur_p =
     rbind (llama_sampler_typical_apply F L p m cur_p) (\<lambda>cur_p. Inr (Smpl_typical p m, cur_p))"
| "llama_sampler_apply F L fuel (Smpl_temp t) cur_p =
     rbind (llama_sampler_temp_impl F cur_p t) (\<lambda>cur_p. Inr (Smpl_temp t, cur_p))"
| "llama_sampler_apply F L fuel (Smpl_temp_ext t d x) cur_p =
     rbind (llama_sampler_temp_ext_apply F L t d x cur_p) (\<lambda>cur_p. Inr (Smpl_temp_ext t d x, cur_p))"
| "llama_sampler_apply F L fuel (Smpl_xtc c) cur_p =
     rbind (llama_sample_xtc_apply F L c cur_p) (\<lambda>(c, cur_p). Inr (Smpl_xtc c, cur_p))"
| "llama_sampler_apply F L fuel (Smpl_mirostat c) cur_p =
     rbind (llama_sampler_mirostat_apply F L c cur_p) (\<lambda>(c, cur_p). Inr (Smpl_mirostat c, cur_p))"
| "llama_sampler_apply F L fuel (Smpl_mirostat_v2 c) cur_p =
     rbind (llama_sampler_mirostat_v2_apply F L c cur_p) (\<lambda>(c, cur_p). Inr (Smpl_mirostat_v2 c, cur_p))"
| "llama_sampler_apply F L fuel (Smpl_grammar c) cur_p =
     rbind (llama_sampler_grammar_apply F fuel c cur_p) (\<lambda>cur_p. Inr (Smpl_grammar c, cur_p))"
| "llama_sampler_apply F L fuel (Smpl_penalties c) cur_p =
     rbind (llama_sampler_penalties_apply F c cur_p) (\<lambda>cur_p. Inr (Smpl_penalties c, cur_p))"
| "llama_sampler_apply F L fuel (Smpl_dry c) cur_p =
     rbind (llama_sampler_dry_apply F c cur_p) (\<lambda>(c, cur_p). Inr (Smpl_dry c, cur_p))"
| "llama_sampler_apply F L fuel (Smpl_logit_bias n bs) cur_p =
     Inr (Smpl_logit_bias n bs, llama_sampler_logit_bias_apply F bs cur_p)"
| "llama_sampler_apply F L fuel (Smpl_infill c) cur_p =
     rbind (llama_sampler_infill_apply F L c cur_p) (\<lambda>cur_p. Inr (Smpl_infill c, cur_p))"
| "llama_sampler_chain_apply F L fuel [] cur_p = Inr ([], cur_p)"
| "llama_sampler_chain_apply F L fuel (s # ss) cur_p =
     rbind (llama_sampler_apply F L fuel s cur_p) (\<lambda>(s, cur_p).
     rbind (llama_sampler_chain_apply F L fuel ss cur_p) (\<lambda>(ss, cur_p). Inr (s # ss, cur_p)))"

section \<open>Reset\<close>

definition llama_sampler_dist_reset :: "('f, 'g, 'e) library \<Rightarrow> 'g llama_sampler_dist \<Rightarrow> 'e \<Rightarrow> 'g llama_sampler_dist \<times> 'e" where
  "llama_sampler_dist_reset L ctx e =
     (let (s, e) = get_rng_seed L (di_seed ctx) e in (ctx\<lparr>di_seed_cur := s, di_rng := lb_seed L s\<rparr>, e))"

definition llama_sampler_xtc_reset ::
    "('f, 'g, 'e) library \<Rightarrow> ('f, 'g) llama_sampler_xtc \<Rightarrow> 'e \<Rightarrow> ('f, 'g) llama_sampler_xtc \<times> 'e" where
  "llama_sampler_xtc_reset L ctx e =
     (let (s, e) = get_rng_seed L (xt_seed ctx) e in (ctx\<lparr>xt_seed_cur := s, xt_rng := lb_seed L s\<rparr>, e))"

definition llama_sampler_mirostat_reset ::
    "('f, 'd) floats \<Rightarrow> ('f, 'g, 'e) library \<Rightarrow> ('f, 'g) llama_sampler_mirostat \<Rightarrow> 'e
      \<Rightarrow> ('f, 'g) llama_sampler_mirostat \<times> 'e" where
  "llama_sampler_mirostat_reset F L ctx e =
     (let ctx = ctx\<lparr>mi_mu := fl_mul F (fl_of_int F 2) (mi_tau ctx)\<rparr>; (s, e) = get_rng_seed L (mi_seed ctx) e
      in (ctx\<lparr>mi_seed_cur := s, mi_rng := lb_seed L s\<rparr>, e))"

definition llama_sampler_mirostat_v2_reset ::
    "('f, 'd) floats \<Rightarrow> ('f, 'g, 'e) library \<Rightarrow> ('f, 'g) llama_sampler_mirostat_v2 \<Rightarrow> 'e
      \<Rightarrow> ('f, 'g) llama_sampler_mirostat_v2 \<times> 'e" where
  "llama_sampler_mirostat_v2_reset F L ctx e =
     (let ctx = ctx\<lparr>m2_mu := fl_mul F (fl_of_int F 2) (m2_tau ctx)\<rparr>; (s, e) = get_rng_seed L (m2_seed ctx) e
      in (ctx\<lparr>m2_seed_cur := s, m2_rng := lb_seed L s\<rparr>, e))"

text \<open>The grammar is parsed anew.\<close>

definition llama_sampler_grammar_reset :: "nat \<Rightarrow> llama_sampler_grammar \<Rightarrow> llama_sampler_grammar res" where
  "llama_sampler_grammar_reset fuel ctx =
     (if gr_grammar ctx = None then Inr ctx
      else rbind (llama_grammar_init_str fuel (gr_str ctx) (gr_root ctx)) (\<lambda>g. Inr (ctx\<lparr>gr_grammar := g\<rparr>)))"

fun llama_sampler_reset ::
      "('f, 'd) floats \<Rightarrow> ('f, 'g, 'e) library \<Rightarrow> nat \<Rightarrow> ('f, 'g) llama_sampler \<Rightarrow> 'e \<Rightarrow> (('f, 'g) llama_sampler \<times> 'e) res"
  and llama_sampler_chain_reset ::
      "('f, 'd) floats \<Rightarrow> ('f, 'g, 'e) library \<Rightarrow> nat \<Rightarrow> ('f, 'g) llama_sampler list \<Rightarrow> 'e
        \<Rightarrow> (('f, 'g) llama_sampler list \<times> 'e) res" where
  "llama_sampler_reset F L fuel (Smpl_chain ss n) e =
     rbind (llama_sampler_chain_reset F L fuel ss e) (\<lambda>(ss, e). Inr (Smpl_chain ss 0, e))"
| "llama_sampler_reset F L fuel (Smpl_dist c) e = (let (c, e) = llama_sampler_dist_reset L c e in Inr (Smpl_dist c, e))"
| "llama_sampler_reset F L fuel (Smpl_xtc c) e = (let (c, e) = llama_sampler_xtc_reset L c e in Inr (Smpl_xtc c, e))"
| "llama_sampler_reset F L fuel (Smpl_mirostat c) e =
     (let (c, e) = llama_sampler_mirostat_reset F L c e in Inr (Smpl_mirostat c, e))"
| "llama_sampler_reset F L fuel (Smpl_mirostat_v2 c) e =
     (let (c, e) = llama_sampler_mirostat_v2_reset F L c e in Inr (Smpl_mirostat_v2 c, e))"
| "llama_sampler_reset F L fuel (Smpl_grammar c) e =
     rbind (llama_sampler_grammar_reset fuel c) (\<lambda>c. Inr (Smpl_grammar c, e))"
| "llama_sampler_reset F L fuel (Smpl_penalties c) e = Inr (Smpl_penalties (llama_sampler_penalties_reset c), e)"
| "llama_sampler_reset F L fuel (Smpl_dry c) e = Inr (Smpl_dry (llama_sampler_dry_reset c), e)"
| "llama_sampler_reset F L fuel s e = Inr (s, e)"
| "llama_sampler_chain_reset F L fuel [] e = Inr ([], e)"
| "llama_sampler_chain_reset F L fuel (s # ss) e =
     rbind (llama_sampler_reset F L fuel s e) (\<lambda>(s, e).
     rbind (llama_sampler_chain_reset F L fuel ss e) (\<lambda>(ss, e). Inr (s # ss, e)))"

section \<open>Clone\<close>

text \<open>
  Every seeded sampler is made anew, which may ask the random device, and then given the state of
  the old one.  The first mirostat copies that state to the old sampler itself.
\<close>

definition llama_sampler_dist_clone :: "('f, 'g, 'e) library \<Rightarrow> 'g llama_sampler_dist \<Rightarrow> 'e \<Rightarrow> 'g llama_sampler_dist \<times> 'e" where
  "llama_sampler_dist_clone L ctx e =
     (let (result, e) = llama_sampler_init_dist L (di_seed ctx) e in (result\<lparr>di_rng := di_rng ctx\<rparr>, e))"

definition llama_sampler_xtc_clone ::
    "('f, 'g, 'e) library \<Rightarrow> ('f, 'g) llama_sampler_xtc \<Rightarrow> 'e \<Rightarrow> ('f, 'g) llama_sampler_xtc \<times> 'e" where
  "llama_sampler_xtc_clone L ctx e =
     (let (result, e) = llama_sampler_init_xtc L (xt_probability ctx) (xt_threshold ctx) (xt_min_keep ctx) (xt_seed ctx) e
      in (result\<lparr>xt_rng := xt_rng ctx\<rparr>, e))"

definition llama_sampler_mirostat_clone ::
    "('f, 'd) floats \<Rightarrow> ('f, 'g, 'e) library \<Rightarrow> ('f, 'g) llama_sampler_mirostat \<Rightarrow> 'e
      \<Rightarrow> ('f, 'g) llama_sampler_mirostat \<times> 'e" where
  "llama_sampler_mirostat_clone F L ctx e =
     llama_sampler_init_mirostat F L (mi_n_vocab ctx) (mi_seed ctx) (mi_tau ctx) (mi_eta ctx) (mi_m ctx) e"

definition llama_sampler_mirostat_v2_clone ::
    "('f, 'd) floats \<Rightarrow> ('f, 'g, 'e) library \<Rightarrow> ('f, 'g) llama_sampler_mirostat_v2 \<Rightarrow> 'e
      \<Rightarrow> ('f, 'g) llama_sampler_mirostat_v2 \<times> 'e" where
  "llama_sampler_mirostat_v2_clone F L ctx e =
     (let (result, e) = llama_sampler_init_mirostat_v2 F L (m2_seed ctx) (m2_tau ctx) (m2_eta ctx) e
      in (result\<lparr>m2_mu := m2_mu ctx, m2_rng := m2_rng ctx\<rparr>, e))"

definition llama_sampler_grammar_clone :: "llama_sampler_grammar \<Rightarrow> llama_sampler_grammar" where
  "llama_sampler_grammar_clone ctx =
     (case gr_grammar ctx of
        None \<Rightarrow> \<lparr>gr_vocab = gr_vocab ctx, gr_str = [], gr_root = [], gr_grammar = None\<rparr>
      | Some g \<Rightarrow> \<lparr>gr_vocab = gr_vocab ctx, gr_str = gr_str ctx, gr_root = gr_root ctx,
                   gr_grammar = Some (llama_grammar_clone_impl g)\<rparr>)"

fun llama_sampler_clone ::
      "('f::linorder, 'd) floats \<Rightarrow> ('f, 'g, 'e) library \<Rightarrow> ('f, 'g) llama_sampler \<Rightarrow> 'e \<Rightarrow> (('f, 'g) llama_sampler \<times> 'e) res"
  and llama_sampler_chain_clone ::
      "('f, 'd) floats \<Rightarrow> ('f, 'g, 'e) library \<Rightarrow> ('f, 'g) llama_sampler list \<Rightarrow> 'e
        \<Rightarrow> (('f, 'g) llama_sampler list \<times> 'e) res" where
  "llama_sampler_clone F L (Smpl_chain ss n) e =
     rbind (llama_sampler_chain_clone F L ss e) (\<lambda>(ss, e). Inr (Smpl_chain ss 0, e))"
| "llama_sampler_clone F L (Smpl_dist c) e = (let (c, e) = llama_sampler_dist_clone L c e in Inr (Smpl_dist c, e))"
| "llama_sampler_clone F L (Smpl_xtc c) e = (let (c, e) = llama_sampler_xtc_clone L c e in Inr (Smpl_xtc c, e))"
| "llama_sampler_clone F L (Smpl_mirostat c) e =
     (let (c, e) = llama_sampler_mirostat_clone F L c e in Inr (Smpl_mirostat c, e))"
| "llama_sampler_clone F L (Smpl_mirostat_v2 c) e =
     (let (c, e) = llama_sampler_mirostat_v2_clone F L c e in Inr (Smpl_mirostat_v2 c, e))"
| "llama_sampler_clone F L (Smpl_grammar c) e = Inr (Smpl_grammar (llama_sampler_grammar_clone c), e)"
| "llama_sampler_clone F L (Smpl_penalties c) e = Inr (Smpl_penalties (llama_sampler_penalties_clone c), e)"
| "llama_sampler_clone F L (Smpl_dry c) e = rbind (llama_sampler_dry_clone F c) (\<lambda>c. Inr (Smpl_dry c, e))"
| "llama_sampler_clone F L (Smpl_infill c) e =
     Inr (Smpl_infill (llama_sampler_init_infill (in_vocab c) (in_eot c)), e)"
| "llama_sampler_clone F L s e = Inr (s, e)"
| "llama_sampler_chain_clone F L [] e = Inr ([], e)"
| "llama_sampler_chain_clone F L (s # ss) e =
     rbind (llama_sampler_clone F L s e) (\<lambda>(s, e).
     rbind (llama_sampler_chain_clone F L ss e) (\<lambda>(ss, e). Inr (s # ss, e)))"

section \<open>The chain as a container\<close>

definition llama_sampler_chain_init :: "('f, 'g) llama_sampler" where
  "llama_sampler_chain_init = Smpl_chain [] 0"

text \<open>These cast the context to a chain's; of another sampler that is undefined.\<close>

definition chain_parts :: "('f, 'g) llama_sampler \<Rightarrow> ('f, 'g) llama_sampler list res" where
  "chain_parts chain = (case chain of Smpl_chain ss n \<Rightarrow> Inr ss | _ \<Rightarrow> Inl Out_of_bounds)"

definition llama_sampler_chain_add ::
    "('f, 'g) llama_sampler \<Rightarrow> ('f, 'g) llama_sampler \<Rightarrow> ('f, 'g) llama_sampler res" where
  "llama_sampler_chain_add chain smpl =
     (case chain of Smpl_chain ss n \<Rightarrow> Inr (Smpl_chain (ss @ [smpl]) n) | _ \<Rightarrow> Inl Out_of_bounds)"

definition llama_sampler_chain_get ::
    "('f, 'g) llama_sampler \<Rightarrow> int \<Rightarrow> ('f, 'g) llama_sampler option res" where
  "llama_sampler_chain_get chain i =
     rbind (chain_parts chain) (\<lambda>ss.
       Inr (if i < 0 \<or> int (length ss) \<le> i then None else Some (ss ! nat i)))"

definition llama_sampler_chain_remove ::
    "('f, 'g) llama_sampler \<Rightarrow> int \<Rightarrow> (('f, 'g) llama_sampler option \<times> ('f, 'g) llama_sampler) res" where
  "llama_sampler_chain_remove chain i =
     (case chain of
        Smpl_chain ss n \<Rightarrow>
          Inr (if i < 0 \<or> int (length ss) \<le> i then (None, chain)
               else (Some (ss ! nat i), Smpl_chain (take (nat i) ss @ drop (Suc (nat i)) ss) n))
      | _ \<Rightarrow> Inl Out_of_bounds)"

definition llama_sampler_chain_n :: "('f, 'g) llama_sampler \<Rightarrow> nat res" where
  "llama_sampler_chain_n chain = rbind (chain_parts chain) (\<lambda>ss. Inr (length ss))"

text \<open>From the last sampler of a chain to the first; only three kinds have a seed to show.\<close>

fun llama_sampler_get_seed :: "('f, 'g) llama_sampler \<Rightarrow> 32 word"
  and chain_seed :: "('f, 'g) llama_sampler list \<Rightarrow> 32 word" where
  "llama_sampler_get_seed (Smpl_dist c) = di_seed_cur c"
| "llama_sampler_get_seed (Smpl_mirostat c) = mi_seed_cur c"
| "llama_sampler_get_seed (Smpl_mirostat_v2 c) = m2_seed_cur c"
| "llama_sampler_get_seed (Smpl_chain ss n) = chain_seed ss"
| "llama_sampler_get_seed s = LLAMA_DEFAULT_SEED"
| "chain_seed [] = LLAMA_DEFAULT_SEED"
| "chain_seed (s # ss) =
     (let later = chain_seed ss in if later \<noteq> LLAMA_DEFAULT_SEED then later else llama_sampler_get_seed s)"

definition perf_n_sample :: "('f, 'g) llama_sampler option \<Rightarrow> int res" where
  "perf_n_sample chain = (case chain of Some (Smpl_chain ss n) \<Rightarrow> Inr (max 0 n) | _ \<Rightarrow> Inl Abort)"

definition llama_perf_sampler_reset :: "('f, 'g) llama_sampler option \<Rightarrow> ('f, 'g) llama_sampler res" where
  "llama_perf_sampler_reset chain = (case chain of Some (Smpl_chain ss n) \<Rightarrow> Inr (Smpl_chain ss 0) | _ \<Rightarrow> Inl Abort)"

section \<open>Sampling a token\<close>

text \<open>
  \<open>read row i\<close> is the logit of token \<open>i\<close> in a row of the output buffer.  Without logits the
  source reads through a null pointer.
\<close>

definition sample_candidates :: "('f, 'd) floats \<Rightarrow> (nat \<Rightarrow> 'f) \<Rightarrow> nat \<Rightarrow> 'f llama_token_data_array" where
  "sample_candidates F row n_vocab =
     \<lparr>cur_data = map (\<lambda>i. \<lparr>tk_id = int i, tk_logit = row i, tk_p = fl_zero F\<rparr>) [0..<n_vocab],
      cur_selected = -1, cur_sorted = False\<rparr>"

definition sample_row ::
    "('f::linorder, 'd) floats \<Rightarrow> ('f, 'g, 'e) library \<Rightarrow> nat \<Rightarrow> ('f, 'g) llama_sampler \<Rightarrow> (nat \<Rightarrow> 'f) \<Rightarrow> nat
      \<Rightarrow> (llama_token \<times> ('f, 'g) llama_sampler) res" where
  "sample_row F L fuel smpl row n_vocab =
     rbind (llama_sampler_apply F L fuel smpl (sample_candidates F row n_vocab)) (\<lambda>(smpl, cur_p).
     rbind (guard (0 \<le> cur_selected cur_p \<and> cur_selected cur_p < int (length (cur_data cur_p))) Assert_failed) (\<lambda>_.
     let tok = tk_id (cur_data cur_p ! nat (cur_selected cur_p)) in
     rbind (llama_sampler_accept F fuel tok smpl) (\<lambda>smpl. Inr (tok, smpl))))"

definition llama_sampler_sample ::
    "('f::linorder, 'd) floats \<Rightarrow> ('f, 'g, 'e) library \<Rightarrow> nat \<Rightarrow> ('l \<Rightarrow> nat \<Rightarrow> 'f) \<Rightarrow> ('f, 'g) llama_sampler
      \<Rightarrow> ('b, 'l, 'r) llama_context \<Rightarrow> int \<Rightarrow> (llama_token \<times> ('f, 'g) llama_sampler) res" where
  "llama_sampler_sample F L fuel read smpl ctx idx =
     (case llama_get_logits_ith ctx idx of
        None \<Rightarrow> Inl Out_of_bounds
      | Some row \<Rightarrow> sample_row F L fuel smpl (read row) (m_n_vocab (model ctx)))"

end
