(* ===== verification/SampleProps.thy ===== *)
theory SampleProps
  imports Sample "HOL-Library.Multiset"
begin

text \<open>
  What the samplers ask of the C++ library, and top-k: the bucket sort selects the same candidates
  a full sort would, in order.
\<close>

section \<open>The library\<close>

definition sorted_desc :: "'f::linorder llama_token_data list \<Rightarrow> bool" where
  "sorted_desc xs \<longleftrightarrow> sorted_wrt (\<lambda>a b. tk_logit b \<le> tk_logit a) xs"

definition dominates :: "'f::linorder llama_token_data list \<Rightarrow> 'f llama_token_data list \<Rightarrow> bool" where
  "dominates xs ys \<longleftrightarrow> (\<forall>a \<in> set xs. \<forall>b \<in> set ys. tk_logit b \<le> tk_logit a)"

definition library_ok :: "('f::linorder, 'g, 'e) library \<Rightarrow> bool" where
  "library_ok L \<longleftrightarrow>
     (\<forall>xs. mset (lb_sort L xs) = mset xs \<and> sorted_desc (lb_sort L xs))
   \<and> (\<forall>k xs. k \<le> length xs \<longrightarrow> mset (lb_partial_sort L k xs) = mset xs
        \<and> sorted_desc (take k (lb_partial_sort L k xs))
        \<and> dominates (take k (lb_partial_sort L k xs)) (drop k (lb_partial_sort L k xs)))
   \<and> (\<forall>ss. mset (lb_sort_indices L ss) = mset [0..<length ss]
        \<and> sorted_wrt (\<lambda>i j. ss ! i \<le> ss ! j) (lb_sort_indices L ss))
   \<and> (\<forall>ps g. ps \<noteq> [] \<longrightarrow> fst (lb_discrete L ps g) < length ps)"

lemma library_sort:
  assumes "library_ok L"
  shows "mset (lb_sort L xs) = mset xs" "sorted_desc (lb_sort L xs)" "set (lb_sort L xs) = set xs"
    "length (lb_sort L xs) = length xs"
  using assms mset_eq_setD[of "lb_sort L xs" xs] mset_eq_length[of "lb_sort L xs" xs] by (auto simp: library_ok_def)

lemma library_partial_sort:
  assumes "library_ok L" "k \<le> length xs"
  shows "mset (lb_partial_sort L k xs) = mset xs" "sorted_desc (take k (lb_partial_sort L k xs))"
    "dominates (take k (lb_partial_sort L k xs)) (drop k (lb_partial_sort L k xs))"
    "set (lb_partial_sort L k xs) = set xs" "length (lb_partial_sort L k xs) = length xs"
  using assms mset_eq_setD[of "lb_partial_sort L k xs" xs] mset_eq_length[of "lb_partial_sort L k xs" xs]
  by (auto simp: library_ok_def)

lemma sorted_desc_append: "sorted_desc (xs @ ys) \<longleftrightarrow> sorted_desc xs \<and> sorted_desc ys \<and> dominates xs ys"
  by (auto simp: sorted_desc_def dominates_def sorted_wrt_append)

lemma sorted_desc_Nil [simp]: "sorted_desc []"
  by (simp add: sorted_desc_def)

lemma sorted_desc_take: "sorted_desc xs \<Longrightarrow> sorted_desc (take n xs)"
  by (simp add: sorted_desc_def sorted_wrt_take)

lemma dominates_sub: "dominates xs ys \<Longrightarrow> set xs' \<subseteq> set xs \<Longrightarrow> set ys' \<subseteq> set ys \<Longrightarrow> dominates xs' ys'"
  by (auto simp: dominates_def)

section \<open>A selection of the best\<close>

text \<open>\<open>ys\<close> are \<open>k\<close> candidates of highest logit of \<open>xs\<close>, in descending order.\<close>

definition best_k :: "nat \<Rightarrow> 'f::linorder llama_token_data list \<Rightarrow> 'f llama_token_data list \<Rightarrow> bool" where
  "best_k k xs ys \<longleftrightarrow> length ys = k \<and> sorted_desc ys \<and> (\<exists>rest. mset xs = mset (ys @ rest) \<and> dominates ys rest)"

lemma best_kI:
  "length ys = k \<Longrightarrow> sorted_desc ys \<Longrightarrow> mset (ys @ rest) = mset xs \<Longrightarrow> dominates ys rest \<Longrightarrow> best_k k xs ys"
  unfolding best_k_def by metis

lemma best_k_sorted:
  assumes "sorted_desc xs" "k \<le> length xs"
  shows "best_k k xs (take k xs)"
proof -
  have "sorted_desc (take k xs @ drop k xs)" using assms by simp
  then have "sorted_desc (take k xs)" "dominates (take k xs) (drop k xs)" unfolding sorted_desc_append by auto
  then show ?thesis using assms(2)
    by (intro best_kI[of _ _ "drop k xs"]) (simp_all only: append_take_drop_id length_take min_absorb2)
qed

lemma best_k_partial:
  assumes "library_ok L" "k \<le> length xs"
  shows "best_k k xs (take k (lb_partial_sort L k xs))"
  using library_partial_sort[OF assms] assms(2)
  by (intro best_kI[of _ _ "drop k (lb_partial_sort L k xs)"]) (simp_all only: append_take_drop_id length_take min_absorb2)

section \<open>Buckets\<close>

lemma bucket_of_less [simp]: "bucket_of F val < 128"
  by (simp add: bucket_of_def Let_def)

lemma histogram_counts:
  assumes "list_all (\<lambda>b. b < 128) bs"
  shows "histogram bs = map (count_list bs) [0..<128]"
proof -
  have "fold (\<lambda>b histo. histo[b := histo ! b + 1]) bs hs = map (\<lambda>j. hs ! j + count_list bs j) [0..<128]"
    if "length hs = 128" for hs :: "nat list"
    using that assms
  proof (induction bs arbitrary: hs)
    case Nil
    then show ?case by (auto intro: nth_equalityI)
  next
    case (Cons b bs)
    then show ?case by (auto simp: nth_list_update)
  qed
  then show ?thesis by (simp add: histogram_def)
qed

definition above :: "nat list \<Rightarrow> nat \<Rightarrow> nat" where
  "above histo ib = sum_list (map (\<lambda>j. histo ! j) [Suc ib..<128])"

lemma above_step: "ib < 128 \<Longrightarrow> histo ! ib + above histo ib = sum_list (map (\<lambda>j. histo ! j) [ib..<128])"
  by (simp add: above_def upt_conv_Cons del: upt_Suc)

lemma lowest_bucket_spec:
  assumes "k \<le> sum_list (map (\<lambda>j. histo ! j) [0..<128])"
  shows "i < 128 \<Longrightarrow> above histo i < k \<Longrightarrow> \<exists>ib. lowest_bucket histo k (above histo i) i = (ib, above histo ib + histo ! ib)
    \<and> ib < 128 \<and> above histo ib < k \<and> k \<le> above histo ib + histo ! ib"
proof (induction i)
  case 0
  then show ?case using assms above_step[of 0 histo] by (subst lowest_bucket.simps) (auto simp: Let_def)
next
  case (Suc i)
  show ?case
  proof (cases "k \<le> above histo (Suc i) + histo ! Suc i")
    case True
    then show ?thesis using Suc.prems by (subst lowest_bucket.simps) auto
  next
    case False
    have "above histo i = above histo (Suc i) + histo ! Suc i"
      using above_step[of "Suc i" histo] Suc.prems by (simp add: above_def)
    then show ?thesis using Suc False by (subst lowest_bucket.simps) auto
  qed
qed

section \<open>Moving the candidates\<close>

lemma concat_update:
  "q < length bl \<Longrightarrow> m < length (bl ! q) \<Longrightarrow>
     (concat bl)[sum_list (map length (take q bl)) + m := t] = concat (bl[q := (bl ! q)[m := t]])"
proof (induction bl arbitrary: q)
  case (Cons b bl)
  show ?case
  proof (cases q)
    case 0
    then show ?thesis using Cons.prems by (simp add: list_update_append1)
  next
    case (Suc p)
    then have "length b \<le> length b + sum_list (map length (take p bl)) + m" by simp
    then show ?thesis using Cons Suc by (simp add: list_update_append add.assoc)
  qed
qed simp

text \<open>
  The candidates by their bucket, from the highest down to \<open>ib\<close>, and the target as it fills up: the
  blocks of the buckets one after the other, each filled from its front.
\<close>

definition in_bucket :: "('f, 'd) floats \<Rightarrow> nat \<Rightarrow> 'f llama_token_data list \<Rightarrow> 'f llama_token_data list" where
  "in_bucket F j xs = filter (\<lambda>t. bucket_of F (tk_logit t) = j) xs"

definition filled ::
    "('f, 'd) floats \<Rightarrow> 'f llama_token_data \<Rightarrow> nat list \<Rightarrow> nat \<Rightarrow> 'f llama_token_data list \<Rightarrow> 'f llama_token_data list list" where
  "filled F z histo ib ys =
     map (\<lambda>j. in_bucket F j ys @ replicate (histo ! j - length (in_bucket F j ys)) z) (rev [ib..<128])"

definition write_ptrs ::
    "('f, 'd) floats \<Rightarrow> nat list \<Rightarrow> nat \<Rightarrow> 'f llama_token_data list \<Rightarrow> nat list" where
  "write_ptrs F histo ib ys = map (\<lambda>j. above histo j + length (in_bucket F j ys)) (rev [ib..<128])"

lemma length_in_bucket: "length (in_bucket F j xs) = count_list (map (\<lambda>t. bucket_of F (tk_logit t)) xs) j"
  by (induction xs) (auto simp: in_bucket_def)

lemma rev_upt_nth: "q < 128 - ib \<Longrightarrow> rev [ib..<128] ! q = 127 - q"
  by (simp add: rev_nth)

lemma take_rev_upt: "ib \<le> j \<Longrightarrow> j < 128 \<Longrightarrow> take (127 - j) (rev [ib..<128]) = rev [Suc j..<128]"
  by (simp add: take_rev)

lemma filled_lengths:
  assumes room: "\<And>j. ib \<le> j \<Longrightarrow> j < 128 \<Longrightarrow> length (in_bucket F j ys) \<le> histo ! j" and j: "ib \<le> j" "j < 128"
  shows "sum_list (map length (take (127 - j) (filled F z histo ib ys))) = above histo j"
proof -
  have "map length (take (127 - j) (filled F z histo ib ys)) = map (\<lambda>j. histo ! j) (rev [Suc j..<128])"
    unfolding filled_def take_map take_rev_upt[OF j] using room j by simp
  then show ?thesis by (simp only: rev_map[symmetric] sum_list_rev above_def)
qed

lemma move_candidate_fills:
  assumes room: "\<And>j. ib \<le> j \<Longrightarrow> j < 128 \<Longrightarrow> length (in_bucket F j (ys @ [t])) \<le> histo ! j"
  shows "move_candidate ib (bucket_of F (tk_logit t), t) (concat (filled F z histo ib ys), write_ptrs F histo ib ys)
    = (concat (filled F z histo ib (ys @ [t])), write_ptrs F histo ib (ys @ [t]))"
proof -
  let ?b = "bucket_of F (tk_logit t)"
  have same: "in_bucket F j (ys @ [t]) = in_bucket F j ys" if "j \<noteq> ?b" for j
    using that by (simp add: in_bucket_def)
  have more: "in_bucket F ?b (ys @ [t]) = in_bucket F ?b ys @ [t]" by (simp add: in_bucket_def)
  show ?thesis
  proof (cases "ib \<le> ?b")
    case False
    then have "filled F z histo ib (ys @ [t]) = filled F z histo ib ys"
      "write_ptrs F histo ib (ys @ [t]) = write_ptrs F histo ib ys"
      unfolding filled_def write_ptrs_def using same by (auto intro!: map_cong)
    then show ?thesis using False by (simp add: move_candidate_def)
  next
    case True
    let ?q = "127 - ?b"
    have b: "?b < 128" by simp
    have q1: "?q < 128 - ib" using True b by arith
    have q: "?q < 128 - ib" "rev [ib..<128] ! ?q = ?b"
    proof -
      have "127 - ?q = ?b" using b by arith
      then show "rev [ib..<128] ! ?q = ?b" using rev_upt_nth[OF q1] by metis
    qed (rule q1)
    have fits: "length (in_bucket F ?b ys) < histo ! ?b" using room[OF True b] more by simp
    have at: "filled F z histo ib ys ! ?q = in_bucket F ?b ys @ replicate (histo ! ?b - length (in_bucket F ?b ys)) z"
      using q by (simp add: filled_def)
    have room': "length (in_bucket F j ys) \<le> histo ! j" if "ib \<le> j" "j < 128" for j
      using room[OF that] by (auto simp: in_bucket_def split: if_splits)
    have up: "(filled F z histo ib ys)[?q := (filled F z histo ib ys ! ?q)[length (in_bucket F ?b ys) := t]]
        = filled F z histo ib (ys @ [t])"
    proof (rule nth_equalityI)
      fix i assume "i < length ((filled F z histo ib ys)[?q := (filled F z histo ib ys ! ?q)[length (in_bucket F ?b ys) := t]])"
      then have i: "i < 128 - ib" by (simp add: filled_def)
      show "(filled F z histo ib ys)[?q := (filled F z histo ib ys ! ?q)[length (in_bucket F ?b ys) := t]] ! i
          = filled F z histo ib (ys @ [t]) ! i"
      proof (cases "i = ?q")
        case True
        have m: "histo ! ?b - length (in_bucket F ?b ys) = Suc (histo ! ?b - length (in_bucket F ?b (ys @ [t])))"
          using fits more by simp
        have "filled F z histo ib (ys @ [t]) ! ?q
            = in_bucket F ?b (ys @ [t]) @ replicate (histo ! ?b - length (in_bucket F ?b (ys @ [t]))) z"
          using q by (simp add: filled_def)
        moreover have "(filled F z histo ib ys ! ?q)[length (in_bucket F ?b ys) := t]
            = in_bucket F ?b (ys @ [t]) @ replicate (histo ! ?b - length (in_bucket F ?b (ys @ [t]))) z"
          unfolding at m by (simp add: more list_update_append)
        ultimately show ?thesis using True q by (simp add: filled_def)
      next
        case False
        then have "rev [ib..<128] ! i \<noteq> ?b" using i b by (simp add: rev_upt_nth)
        then show ?thesis using False i same by (simp add: filled_def)
      qed
    qed (simp add: filled_def)
    have ptr: "write_ptrs F histo ib ys ! ?q = above histo ?b + length (in_bucket F ?b ys)"
      using q by (simp add: write_ptrs_def)
    have ptrs: "(write_ptrs F histo ib ys)[?q := write_ptrs F histo ib ys ! ?q + 1] = write_ptrs F histo ib (ys @ [t])"
    proof (rule nth_equalityI)
      fix i assume "i < length ((write_ptrs F histo ib ys)[?q := write_ptrs F histo ib ys ! ?q + 1])"
      then have i: "i < 128 - ib" by (simp add: write_ptrs_def)
      show "(write_ptrs F histo ib ys)[?q := write_ptrs F histo ib ys ! ?q + 1] ! i = write_ptrs F histo ib (ys @ [t]) ! i"
      proof (cases "i = ?q")
        case True
        then show ?thesis using q more by (simp add: write_ptrs_def)
      next
        case False
        then have "rev [ib..<128] ! i \<noteq> ?b" using i b by (simp add: rev_upt_nth)
        then show ?thesis using False i same by (simp add: write_ptrs_def)
      qed
    qed (simp add: write_ptrs_def)
    have "(concat (filled F z histo ib ys))[above histo ?b + length (in_bucket F ?b ys) := t]
        = concat (filled F z histo ib (ys @ [t]))"
      using concat_update[of ?q "filled F z histo ib ys" "length (in_bucket F ?b ys)" t]
        filled_lengths[OF room' True b, of z] q fits at up by (simp add: filled_def)
    then show ?thesis using True ptr ptrs by (simp add: move_candidate_def)
  qed
qed

lemma filled_all:
  assumes "\<And>j. ib \<le> j \<Longrightarrow> j < 128 \<Longrightarrow> length (in_bucket F j xs) = histo ! j"
  shows "filled F z histo ib xs = map (\<lambda>j. in_bucket F j xs) (rev [ib..<128])"
  using assms by (simp add: filled_def)

lemma in_bucket_prefix: "length (in_bucket F j (take n xs)) \<le> length (in_bucket F j xs)"
proof -
  have "in_bucket F j xs = in_bucket F j (take n xs) @ in_bucket F j (drop n xs)"
    unfolding in_bucket_def filter_append[symmetric] by simp
  then show ?thesis by simp
qed

lemma moved_candidates:
  assumes h: "\<And>j. ib \<le> j \<Longrightarrow> j < 128 \<Longrightarrow> length (in_bucket F j xs) = histo ! j" and ib: "ib < 128"
  shows "fst (fold (move_candidate ib) (zip (map (\<lambda>t. bucket_of F (tk_logit t)) xs) xs)
      (replicate (above histo ib + histo ! ib) z, bucket_ptrs histo ib))
    = concat (map (\<lambda>j. in_bucket F j xs) (rev [ib..<128]))"
proof -
  let ?zs = "zip (map (\<lambda>t. bucket_of F (tk_logit t)) xs) xs"
  have start: "replicate (above histo ib + histo ! ib) z = concat (filled F z histo ib [])"
  proof -
    have "concat (map (\<lambda>j. replicate (histo ! j) z) js) = replicate (sum_list (map (\<lambda>j. histo ! j) js)) z" for js
      by (induction js) (simp_all add: replicate_add)
    moreover have "sum_list (map (\<lambda>j. histo ! j) (rev [ib..<128])) = above histo ib + histo ! ib"
      using above_step[OF ib, of histo] by (simp only: rev_map[symmetric] sum_list_rev add.commute)
    ultimately show ?thesis by (simp add: filled_def in_bucket_def)
  qed
  have ptrs: "bucket_ptrs histo ib = write_ptrs F histo ib []"
    by (simp add: bucket_ptrs_def write_ptrs_def above_def in_bucket_def)
  have "fold (move_candidate ib) (take n ?zs) (concat (filled F z histo ib []), write_ptrs F histo ib [])
      = (concat (filled F z histo ib (take n xs)), write_ptrs F histo ib (take n xs))" for n
  proof (induction n)
    case (Suc n)
    show ?case
    proof (cases "n < length xs")
      case True
      then have tk: "take (Suc n) xs = take n xs @ [xs ! n]" by (simp add: take_Suc_conv_app_nth)
      have "take (Suc n) ?zs = take n ?zs @ [(bucket_of F (tk_logit (xs ! n)), xs ! n)]"
        using True by (simp add: take_Suc_conv_app_nth)
      moreover have "length (in_bucket F j (take n xs @ [xs ! n])) \<le> histo ! j" if "ib \<le> j" "j < 128" for j
        using in_bucket_prefix[of F j "Suc n" xs] h[OF that] tk by simp
      ultimately show ?thesis using Suc move_candidate_fills[of ib F "take n xs" "xs ! n" histo z] tk by simp
    qed (use Suc in simp)
  qed simp
  from this[of "length xs"] show ?thesis unfolding start ptrs using filled_all[OF h] by simp
qed

section \<open>Sorting the buckets\<close>

lemma sort_buckets:
  assumes "library_ok L" "\<And>j. j \<in> set js \<Longrightarrow> length (B j) = histo ! j"
  shows "fold (sort_bucket L histo) js (front @ concat (map B js) @ rest, length front)
    = (front @ concat (map (\<lambda>j. lb_sort L (B j)) js) @ rest, length front + sum_list (map (\<lambda>j. histo ! j) js))"
  using assms(2)
proof (induction js arbitrary: front)
  case (Cons j js)
  have "sort_bucket L histo j (front @ concat (map B (j # js)) @ rest, length front)
      = ((front @ lb_sort L (B j)) @ concat (map B js) @ rest, length (front @ lb_sort L (B j)))"
    using Cons.prems library_sort(4)[OF assms(1), of "B j"] by (simp add: sort_bucket_def)
  then show ?case using Cons.IH[of "front @ lb_sort L (B j)"] Cons.prems library_sort(4)[OF assms(1), of "B j"] by simp
qed simp

definition buckets_mono :: "('f::linorder, 'd) floats \<Rightarrow> bool" where
  "buckets_mono F \<longleftrightarrow> (\<forall>a b. a \<le> b \<longrightarrow> bucket_of F a \<le> bucket_of F b)"

lemma dominates_by_bucket:
  assumes F: "buckets_mono F"
    and less: "\<And>a b. a \<in> set xs \<Longrightarrow> b \<in> set ys \<Longrightarrow> bucket_of F (tk_logit b) < bucket_of F (tk_logit a)"
  shows "dominates xs ys"
  unfolding dominates_def
proof (intro ballI)
  fix a b assume ab: "a \<in> set xs" "b \<in> set ys"
  show "tk_logit b \<le> tk_logit a"
  proof (rule ccontr)
    assume "\<not> tk_logit b \<le> tk_logit a"
    then have "bucket_of F (tk_logit a) \<le> bucket_of F (tk_logit b)" using F by (simp add: buckets_mono_def)
    then show False using less[OF ab] by simp
  qed
qed

lemma sorted_buckets:
  assumes L: "library_ok L" and F: "buckets_mono F"
  shows "sorted_desc (concat (map (\<lambda>j. lb_sort L (in_bucket F j xs)) (rev [i..<n])))"
proof (induction n)
  case (Suc n)
  have "dominates (lb_sort L (in_bucket F n xs)) (concat (map (\<lambda>j. lb_sort L (in_bucket F j xs)) (rev [i..<n])))"
    by (rule dominates_by_bucket[OF F]) (auto simp: library_sort(3)[OF L] in_bucket_def)
  then show ?case using Suc library_sort(2)[OF L] by (simp add: sorted_desc_append)
qed simp

lemma mset_buckets: "mset (concat (map (\<lambda>j. in_bucket F j xs) js)) = mset xs"
  if "distinct js" "set js = {0..<128}" for js
proof -
  have "mset (concat (map (\<lambda>j. filter (\<lambda>t. f t = j) xs) js)) = mset (filter (\<lambda>t. f t \<in> set js) xs)"
    if "distinct js" for f :: "'x \<Rightarrow> nat" and xs js
    using that
  proof (induction js)
    case (Cons j js)
    have "mset (filter (\<lambda>t. f t \<in> set (j # js)) xs) = mset (filter (\<lambda>t. f t = j) xs) + mset (filter (\<lambda>t. f t \<in> set js) xs)"
      using Cons.prems by (induction xs) auto
    then show ?case using Cons by simp
  qed simp
  from this[OF that(1), of "\<lambda>t. bucket_of F (tk_logit t)" xs] show ?thesis by (simp add: in_bucket_def that(2))
qed

lemma take_blocks:
  assumes "length A = n" "length B = h" "n \<le> k"
  shows "take k (take n (A @ B) @ P (take h (drop n (A @ B)))) = A @ take (k - n) (P B)"
  using assms by auto

lemma bucket_sort_best:
  assumes L: "library_ok L" and F: "buckets_mono F" and k: "0 < k" "k \<le> length xs"
  shows "best_k k xs (bucket_sort F L k xs)"
proof -
  let ?idx = "map (\<lambda>t. bucket_of F (tk_logit t)) xs"
  let ?histo = "histogram ?idx"
  have histo: "?histo ! j = length (in_bucket F j xs)" if "j < 128" for j
    using that by (simp add: histogram_counts list_all_iff length_in_bucket)
  have "map (\<lambda>j. ?histo ! j) [0..<128] = map (\<lambda>j. length (in_bucket F j xs)) [0..<128]"
    using histo by (intro map_cong) auto
  also have "sum_list \<dots> = length xs"
  proof -
    have "length (concat (map (\<lambda>j. in_bucket F j xs) [0..<128])) = length xs"
      using mset_eq_length[OF mset_buckets[of "[0..<128]" F xs]] by (simp only: distinct_upt set_upt simp_thms)
    then show ?thesis by (simp only: length_concat map_map comp_def)
  qed
  finally have total: "k \<le> sum_list (map (\<lambda>j. ?histo ! j) [0..<128])" using k(2) by simp
  have top: "above ?histo 127 = 0" by (simp add: above_def)
  obtain ib where ib: "lowest_bucket ?histo k 0 127 = (ib, above ?histo ib + ?histo ! ib)" "ib < 128"
    "above ?histo ib < k" "k \<le> above ?histo ib + ?histo ! ib"
    using lowest_bucket_spec[OF total, of 127] top k(1) by auto
  let ?high = "rev [Suc ib..<128]" and ?low = "in_bucket F ib xs" and ?n = "above ?histo ib"
  let ?front = "concat (map (\<lambda>j. lb_sort L (in_bucket F j xs)) ?high)"
  let ?part = "lb_partial_sort L (k - ?n) ?low"
  have blocks: "concat (map (\<lambda>j. in_bucket F j xs) (rev [ib..<128])) = concat (map (\<lambda>j. in_bucket F j xs) ?high) @ ?low"
    using ib(2) by (simp add: upt_conv_Cons del: upt_Suc)
  have n: "sum_list (map (\<lambda>j. ?histo ! j) ?high) = ?n" by (simp only: above_def rev_map[symmetric] sum_list_rev)
  have "fold (sort_bucket L ?histo) ?high (concat (map (\<lambda>j. in_bucket F j xs) (rev [ib..<128])), 0) = (?front @ ?low, ?n)"
    using sort_buckets[OF L, of ?high "\<lambda>j. in_bucket F j xs" ?histo "[]" ?low] histo n unfolding blocks by simp
  then have sorted: "bucket_sort F L k xs = take k (take ?n (?front @ ?low)
      @ lb_partial_sort L (k - ?n) (take (?histo ! ib) (drop ?n (?front @ ?low))))"
    using moved_candidates[of ib F xs ?histo "\<lparr>tk_id = 0, tk_logit = fl_zero F, tk_p = fl_zero F\<rparr>"] histo ib
    by (simp add: bucket_sort_def Let_def split_beta del: take_append drop_append)
  have front: "length ?front = ?n"
  proof -
    have "map length (map (\<lambda>j. lb_sort L (in_bucket F j xs)) ?high) = map (\<lambda>j. ?histo ! j) ?high"
      using histo by (simp add: library_sort(4)[OF L])
    then show ?thesis using n by (simp only: length_concat)
  qed
  have kn: "k - ?n \<le> length ?low" using ib histo by simp
  have result: "bucket_sort F L k xs = ?front @ take (k - ?n) ?part"
    unfolding sorted by (rule take_blocks[OF front histo[OF ib(2), symmetric]]) (use ib(3) in simp)
  let ?below = "concat (map (\<lambda>j. in_bucket F j xs) [0..<ib])"
  show ?thesis unfolding result
  proof (rule best_kI)
    show "length (?front @ take (k - ?n) ?part) = k"
      using ib(3) kn unfolding length_append front length_take library_partial_sort(5)[OF L kn] by simp
    have part: "set (take (k - ?n) ?part) \<subseteq> set ?low" "set (drop (k - ?n) ?part) \<subseteq> set ?low"
      using set_take_subset[of "k - ?n" ?part] set_drop_subset[of "k - ?n" ?part] library_partial_sort(4)[OF L kn] by auto
    have up: "dominates ?front ?low"
      by (rule dominates_by_bucket[OF F]) (auto simp: library_sort(3)[OF L] in_bucket_def)
    show "sorted_desc (?front @ take (k - ?n) ?part)"
      using sorted_buckets[OF L F] library_partial_sort(2)[OF L kn] dominates_sub[OF up subset_refl part(1)]
      by (simp add: sorted_desc_append)
    have "dominates ?front ?below" "dominates ?low ?below"
      by (rule dominates_by_bucket[OF F], force simp: library_sort(3)[OF L] in_bucket_def)+
    then show "dominates (?front @ take (k - ?n) ?part) (drop (k - ?n) ?part @ ?below)"
      using library_partial_sort(3)[OF L kn] part up by (fastforce simp: dominates_def)
    have all: "mset (concat (map (\<lambda>j. in_bucket F j xs) (?high @ ib # [0..<ib]))) = mset xs"
      using ib(2) by (intro mset_buckets) auto
    have "mset ?front = mset (concat (map (\<lambda>j. in_bucket F j xs) ?high))"
      by (simp add: mset_concat library_sort(1)[OF L] comp_def)
    moreover have "mset (take (k - ?n) ?part) + mset (drop (k - ?n) ?part) = mset ?low"
      using library_partial_sort(1)[OF L kn] by (simp only: mset_append[symmetric] append_take_drop_id)
    ultimately show "mset ((?front @ take (k - ?n) ?part) @ drop (k - ?n) ?part @ ?below) = mset xs"
      using all by (simp add: ac_simps)
  qed
qed

text \<open>Top-k as a whole.\<close>

lemma top_k_best:
  assumes L: "library_ok L" and F: "buckets_mono F" and s: "cur_sorted cur_p \<longrightarrow> sorted_desc (cur_data cur_p)"
  shows "best_k (if k \<le> 0 then length (cur_data cur_p) else min (nat k) (length (cur_data cur_p))) (cur_data cur_p)
      (cur_data (llama_sampler_top_k_impl F L cur_p k))"
    and "cur_sorted (llama_sampler_top_k_impl F L cur_p k)"
    and "cur_selected (llama_sampler_top_k_impl F L cur_p k) = cur_selected cur_p"
proof -
  let ?xs = "cur_data cur_p"
  define K where "K = (if k \<le> 0 then length ?xs else min (nat k) (length ?xs))"
  have k: "K \<le> length ?xs" by (simp add: K_def)
  have data: "cur_data (llama_sampler_top_k_impl F L cur_p k) =
      (if cur_sorted cur_p then take K ?xs
       else if K \<le> 128 then take K (lb_partial_sort L K ?xs) else bucket_sort F L K ?xs)"
    by (simp add: llama_sampler_top_k_impl_def Let_def K_def)
  have "best_k K ?xs (cur_data (llama_sampler_top_k_impl F L cur_p k))"
    unfolding data using s best_k_sorted[OF _ k] best_k_partial[OF L k] bucket_sort_best[OF L F _ k] by auto
  then show "best_k (if k \<le> 0 then length ?xs else min (nat k) (length ?xs)) ?xs
      (cur_data (llama_sampler_top_k_impl F L cur_p k))" by (simp only: K_def)
qed (simp_all add: llama_sampler_top_k_impl_def Let_def)

end
