(* ===== verification/SampleRingProps.thy ===== *)
theory SampleRingProps
  imports SampleRing
begin

text \<open>
  The ring buffer as a window on the last tokens.  The window is the interface of the locale
  \<open>window\<close>, with what is left of any run of pushes; the ring buffer interprets it.  On it rest the
  counts of the repetition penalties.
\<close>

section \<open>A bounded window\<close>

definition last_n :: "nat \<Rightarrow> 'a list \<Rightarrow> 'a list" where
  "last_n n xs = drop (length xs - n) xs"

lemma length_last_n [simp]: "length (last_n n xs) = min n (length xs)"
  by (simp add: last_n_def)

lemma last_n_all: "length xs \<le> n \<Longrightarrow> last_n n xs = xs"
  by (simp add: last_n_def)

lemma last_n_snoc:
  assumes "0 < n"
  shows "last_n n (xs @ [x]) =
    (if length (last_n n xs) < n then last_n n xs else tl (last_n n xs)) @ [x]"
proof (cases "length xs < n")
  case False
  then have "length (xs @ [x]) - n = Suc (length xs - n)" "length xs - n < length xs" using assms by auto
  then show ?thesis using False by (simp add: last_n_def drop_Suc tl_drop)
qed (use assms in \<open>simp add: last_n_def\<close>)

locale window =
  fixes content :: "'q \<Rightarrow> 'a list"
    and cap :: "'q \<Rightarrow> nat"
    and ok :: "'q \<Rightarrow> bool"
    and push :: "'a \<Rightarrow> 'q \<Rightarrow> 'q res"
    and front :: "'q \<Rightarrow> 'a res"
    and recent :: "nat \<Rightarrow> 'q \<Rightarrow> 'a res"
  assumes bounded: "ok q \<Longrightarrow> length (content q) \<le> cap q"
    and push_ok: "ok q \<Longrightarrow> 0 < cap q \<Longrightarrow>
      \<exists>q'. push a q = Inr q' \<and> ok q' \<and> cap q' = cap q
        \<and> content q' = (if length (content q) < cap q then content q else tl (content q)) @ [a]"
    and front_ok: "ok q \<Longrightarrow> content q \<noteq> [] \<Longrightarrow> front q = Inr (hd (content q))"
    and recent_ok: "ok q \<Longrightarrow> i < length (content q) \<Longrightarrow> recent i q = Inr (rev (content q) ! i)"
begin

lemma push_last:
  assumes "ok q" "0 < cap q" "content q = last_n (cap q) xs"
  shows "\<exists>q'. push a q = Inr q' \<and> ok q' \<and> cap q' = cap q \<and> content q' = last_n (cap q) (xs @ [a])"
  using push_ok[OF assms(1,2), of a] unfolding assms(3) last_n_snoc[OF assms(2), of xs a] .

lemma push_all:
  assumes "ok q" "0 < cap q" "content q = last_n (cap q) xs"
  shows "\<exists>q'. rfold push as q = Inr q' \<and> ok q' \<and> cap q' = cap q \<and> content q' = last_n (cap q) (xs @ as)"
  using assms
proof (induction as arbitrary: q xs)
  case (Cons a as)
  obtain q' where q': "push a q = Inr q'" "ok q'" "cap q' = cap q" "content q' = last_n (cap q) (xs @ [a])"
    using push_last[OF Cons.prems] by blast
  show ?case using Cons.IH[of q' "xs @ [a]"] q' Cons.prems(2) by simp
qed simp

end

section \<open>The ring buffer is one\<close>

definition ring_ok :: "'a ring_buffer \<Rightarrow> bool" where
  "ring_ok r \<longleftrightarrow> length (rb_data r) = rb_capacity r \<and> rb_sz r \<le> rb_capacity r
     \<and> (0 < rb_capacity r \<longrightarrow> rb_first r < rb_capacity r \<and> rb_pos r = (rb_first r + rb_sz r) mod rb_capacity r)"

lemma ring_ok_make [simp]: "ring_ok (make_ring_buffer z n)"
  by (simp add: ring_ok_def make_ring_buffer_def)

lemma ring_ok_clear: "ring_ok r \<Longrightarrow> ring_ok (ring_clear r)"
  by (simp add: ring_ok_def ring_clear_def)

lemma length_ring_to_vector [simp]: "length (ring_to_vector r) = rb_sz r"
  by (simp add: ring_to_vector_def)

lemma ring_to_vector_make [simp]: "ring_to_vector (make_ring_buffer z n) = []"
  by (simp add: ring_to_vector_def make_ring_buffer_def)

lemma ring_to_vector_clear [simp]: "ring_to_vector (ring_clear r) = []"
  by (simp add: ring_to_vector_def ring_clear_def)

lemma ring_index:
  fixes a i n :: nat
  assumes "a < n" "i < n"
  shows "(a + i) mod n = (if a + i < n then a + i else a + i - n)"
  using assms by (simp add: mod_if)

lemma ring_index_inj:
  fixes a i j n :: nat
  assumes "a < n" "i < n" "j < n"
  shows "(a + i) mod n = (a + j) mod n \<longleftrightarrow> i = j"
  using assms by (auto simp: ring_index split: if_splits)

lemma ring_push_room:
  assumes ok: "ring_ok r" and cap: "rb_sz r < rb_capacity r"
  shows "\<exists>r'. ring_push_back x r = Inr r' \<and> ring_ok r' \<and> rb_capacity r' = rb_capacity r
    \<and> ring_to_vector r' = ring_to_vector r @ [x]"
proof -
  let ?c = "rb_capacity r" and ?f = "rb_first r" and ?s = "rb_sz r" and ?d = "rb_data r"
  have f: "?f < ?c" "rb_pos r = (?f + ?s) mod ?c" "length ?d = ?c" using ok cap by (auto simp: ring_ok_def)
  have "map (\<lambda>i. ?d[(?f + ?s) mod ?c := x] ! ((?f + i) mod ?c)) [0..<?s] = ring_to_vector r"
    unfolding ring_to_vector_def
  proof (intro map_cong refl)
    fix i assume "i \<in> set [0..<?s]"
    then have "(?f + ?s) mod ?c \<noteq> (?f + i) mod ?c" using ring_index_inj[OF f(1) cap, of i] cap by auto
    then show "?d[(?f + ?s) mod ?c := x] ! ((?f + i) mod ?c) = ?d ! ((?f + i) mod ?c)" by simp
  qed
  then show ?thesis using ok cap f
    by (auto simp: ring_push_back_def ring_ok_def ring_to_vector_def mod_Suc_eq)
qed

lemma ring_push_full:
  assumes ok: "ring_ok r" and cap: "0 < rb_capacity r" "rb_sz r = rb_capacity r"
  shows "\<exists>r'. ring_push_back x r = Inr r' \<and> ring_ok r' \<and> rb_capacity r' = rb_capacity r
    \<and> ring_to_vector r' = tl (ring_to_vector r) @ [x]"
proof -
  obtain m where c: "rb_capacity r = Suc m" using cap by (cases "rb_capacity r") auto
  let ?f = "rb_first r" and ?d = "rb_data r"
  have f: "?f < Suc m" "rb_pos r = (?f + Suc m) mod Suc m" "length ?d = Suc m"
    using ok cap c unfolding ring_ok_def by auto
  then have f: "?f < Suc m" "rb_pos r = ?f" "length ?d = Suc m" by (simp_all only: mod_add_self2 mod_less)
  have at: "((?f + 1) mod Suc m + i) mod Suc m = (?f + Suc i) mod Suc m" for i
    by (metis add.assoc add_Suc_right mod_add_left_eq plus_1_eq_Suc)
  have other: "?f \<noteq> Suc (?f + i) mod Suc m" if "i < m" for i
    using ring_index_inj[OF f(1), of "Suc i" 0] that f(1) by fastforce
  have wrap: "Suc (?f + m) mod Suc m = ?f" using mod_add_self2[of ?f "Suc m"] f(1) by simp
  have "map (\<lambda>i. ?d[?f := x] ! (((?f + 1) mod Suc m + i) mod Suc m)) [0..<Suc m]
      = map (\<lambda>i. ?d ! ((?f + Suc i) mod Suc m)) [0..<m] @ [x]"
    unfolding at using f other wrap by (auto intro!: map_cong)
  moreover have "tl (ring_to_vector r) = map (\<lambda>i. ?d ! ((?f + Suc i) mod Suc m)) [0..<m]"
    unfolding ring_to_vector_def c cap(2) by (simp add: upt_conv_Cons map_Suc_upt[symmetric] comp_def del: upt_Suc)
  moreover have "Suc (Suc ?f mod Suc m + m) mod Suc m = Suc ?f mod Suc m"
    by (metis add_Suc_right mod_add_self2 mod_mod_trivial)
  ultimately show ?thesis using ok cap f c
    by (auto simp: ring_push_back_def ring_ok_def ring_to_vector_def mod_Suc_eq)
qed

lemma ring_front_hd: "ring_ok r \<Longrightarrow> ring_to_vector r \<noteq> [] \<Longrightarrow> ring_front r = Inr (hd (ring_to_vector r))"
  by (auto simp: ring_front_def ring_to_vector_def ring_ok_def hd_map)

lemma ring_rat_rev: "ring_ok r \<Longrightarrow> i < rb_sz r \<Longrightarrow> ring_rat i r = Inr (rev (ring_to_vector r) ! i)"
  by (simp add: ring_rat_def ring_to_vector_def rev_nth)

interpretation ring: window ring_to_vector rb_capacity ring_ok ring_push_back ring_front ring_rat
proof
  fix q :: "'a ring_buffer" and a
  assume "ring_ok q" "0 < rb_capacity q"
  then show "\<exists>q'. ring_push_back a q = Inr q' \<and> ring_ok q' \<and> rb_capacity q' = rb_capacity q
      \<and> ring_to_vector q' =
          (if length (ring_to_vector q) < rb_capacity q then ring_to_vector q else tl (ring_to_vector q)) @ [a]"
    using ring_push_room[of q a] ring_push_full[of q a] by (auto simp: ring_ok_def)
qed (auto simp: ring_front_hd ring_rat_rev ring_ok_def)

lemma ring_pop:
  assumes "ring_ok r" "ring_to_vector r \<noteq> []"
  shows "\<exists>r'. ring_pop_front r = Inr (hd (ring_to_vector r), r') \<and> ring_ok r' \<and> ring_to_vector r' = tl (ring_to_vector r)"
proof -
  obtain m where c: "rb_sz r = Suc m" using assms(2) by (cases "rb_sz r") (auto simp: ring_to_vector_def)
  have at: "((rb_first r + 1) mod rb_capacity r + i) mod rb_capacity r = (rb_first r + Suc i) mod rb_capacity r" for i
    by (metis add.assoc add_Suc_right mod_add_left_eq plus_1_eq_Suc)
  show ?thesis using assms(1) c at
    by (auto simp: ring_pop_front_def ring_ok_def ring_to_vector_def upt_conv_Cons map_Suc_upt[symmetric] comp_def
        simp del: upt_Suc mod_Suc_eq)
qed

section \<open>The counts of the penalties\<close>

definition token_counts :: "llama_token list \<Rightarrow> (llama_token \<rightharpoonup> int)" where
  "token_counts ts t = (if t \<in> set ts then Some (int (count_list ts t)) else None)"

definition penalties_ok :: "'f llama_sampler_penalties \<Rightarrow> bool" where
  "penalties_ok ctx \<longleftrightarrow> 0 \<le> pe_last_n ctx \<and> ring_ok (pe_prev ctx)
     \<and> rb_capacity (pe_prev ctx) = nat (pe_last_n ctx)
     \<and> pe_token_count ctx = token_counts (ring_to_vector (pe_prev ctx))"

lemma count_list_pos: "t \<in> set ts \<Longrightarrow> 0 < count_list ts t"
  using count_list_0_iff[of ts t] by auto

lemma count_list_le: "count_list ts t \<le> length ts"
  by (induction ts) auto

lemma token_counts_snoc: "count_add t 1 (token_counts ts) = token_counts (ts @ [t])"
  by (auto simp: fun_eq_iff token_counts_def count_add_def count_list_0_iff)

lemma token_counts_tl: "ts \<noteq> [] \<Longrightarrow> forget_token (hd ts) (token_counts ts) = token_counts (tl ts)"
  by (cases ts) (auto simp: fun_eq_iff token_counts_def forget_token_def count_add_def count_list_0_iff Let_def)

lemma penalties_ok_init: "penalties_ok (llama_sampler_init_penalties n a b c)"
  by (auto simp: penalties_ok_def llama_sampler_init_penalties_def token_counts_def make_ring_buffer_def
      ring_to_vector_def ring_ok_def fun_eq_iff Let_def)

text \<open>Accepting a token moves the window on by one.\<close>

lemma penalties_accept:
  assumes ok: "penalties_ok ctx" and w: "ring_to_vector (pe_prev ctx) = last_n (nat (pe_last_n ctx)) ts"
  shows "\<exists>r. llama_sampler_penalties_accept t ctx
      = Inr (ctx\<lparr>pe_prev := r, pe_token_count := token_counts (ring_to_vector r)\<rparr>)
    \<and> ring_ok r \<and> rb_capacity r = nat (pe_last_n ctx) \<and> ring_to_vector r = last_n (nat (pe_last_n ctx)) (ts @ [t])"
proof (cases "pe_last_n ctx = 0")
  case True
  then have "pe_token_count ctx = token_counts (ring_to_vector (pe_prev ctx))" "ring_to_vector (pe_prev ctx) = []"
    using ok w by (simp_all add: penalties_ok_def last_n_def)
  then show ?thesis using True ok
    by (intro exI[of _ "pe_prev ctx"])
      (auto simp: llama_sampler_penalties_accept_def penalties_ok_def last_n_def)
next
  case False
  let ?r = "pe_prev ctx" and ?ts = "ring_to_vector (pe_prev ctx)"
  have r: "ring_ok ?r" "0 < rb_capacity ?r" "rb_capacity ?r = nat (pe_last_n ctx)"
    "pe_token_count ctx = token_counts ?ts" using ok False by (auto simp: penalties_ok_def)
  obtain r' where r': "ring_push_back t ?r = Inr r'" "ring_ok r'" "rb_capacity r' = rb_capacity ?r"
    "ring_to_vector r' = (if length ?ts < rb_capacity ?r then ?ts else tl ?ts) @ [t]"
    using ring.push_ok[OF r(1,2), of t] by blast
  have new: "ring_to_vector r' = last_n (nat (pe_last_n ctx)) (ts @ [t])"
    using last_n_snoc[of "nat (pe_last_n ctx)" ts t] r(2,3) unfolding r'(4) w by simp
  show ?thesis
  proof (cases "length ?ts < rb_capacity ?r")
    case True
    then show ?thesis using r r' new False
      by (intro exI[of _ r']) (auto simp: llama_sampler_penalties_accept_def token_counts_snoc)
  next
    case full: False
    then have ne: "?ts \<noteq> []" using r(2) by (auto simp del: length_ring_to_vector)
    then have "forget_token (hd ?ts) (token_counts (?ts @ [t])) = token_counts (tl ?ts @ [t])"
      using token_counts_tl[of "?ts @ [t]"] by simp
    then show ?thesis using r r' new False full ring.front_ok[OF r(1) ne]
      by (intro exI[of _ r']) (auto simp: llama_sampler_penalties_accept_def token_counts_snoc)
  qed
qed

lemma penalties_accept_all:
  assumes "penalties_ok ctx" "ring_to_vector (pe_prev ctx) = last_n (nat (pe_last_n ctx)) ts"
  shows "\<exists>r. rfold llama_sampler_penalties_accept us ctx
      = Inr (ctx\<lparr>pe_prev := r, pe_token_count := token_counts (ring_to_vector r)\<rparr>)
    \<and> ring_ok r \<and> rb_capacity r = nat (pe_last_n ctx) \<and> ring_to_vector r = last_n (nat (pe_last_n ctx)) (ts @ us)"
  using assms
proof (induction us arbitrary: ctx ts)
  case Nil
  then show ?case by (intro exI[of _ "pe_prev ctx"]) (auto simp: penalties_ok_def)
next
  case (Cons u us)
  obtain r where r: "llama_sampler_penalties_accept u ctx
      = Inr (ctx\<lparr>pe_prev := r, pe_token_count := token_counts (ring_to_vector r)\<rparr>)"
    "ring_ok r" "rb_capacity r = nat (pe_last_n ctx)" "ring_to_vector r = last_n (nat (pe_last_n ctx)) (ts @ [u])"
    using penalties_accept[OF Cons.prems, of u] by blast
  let ?c = "ctx\<lparr>pe_prev := r, pe_token_count := token_counts (ring_to_vector r)\<rparr>"
  have "penalties_ok ?c" using r Cons.prems(1) by (simp add: penalties_ok_def)
  then show ?case using Cons.IH[of ?c "ts @ [u]"] r by simp
qed

section \<open>What is penalised\<close>

text \<open>The window's tokens, each by the number of times it is there.\<close>

definition penalized ::
    "('f::linorder, 'd) floats \<Rightarrow> 'f \<Rightarrow> 'f \<Rightarrow> 'f \<Rightarrow> llama_token list \<Rightarrow> 'f llama_token_data \<Rightarrow> 'f llama_token_data" where
  "penalized F repeat freq present ts t =
     (if tk_id t \<in> set ts then
        t\<lparr>tk_logit := fl_sub F
            (if tk_logit t \<le> fl_zero F then fl_mul F (tk_logit t) repeat else fl_div F (tk_logit t) repeat)
            (fl_add F (fl_mul F (fl_of_int F (int (count_list ts (tk_id t)))) freq) (fl_mul F (fl_one F) present))\<rparr>
      else t)"

lemma rfold_map: "(\<And>x. x \<in> set xs \<Longrightarrow> f x = Inr (g x)) \<Longrightarrow>
    rfold (\<lambda>x acc. rbind (f x) (\<lambda>y. Inr (acc @ [y]))) xs acc = Inr (acc @ map g xs)"
  by (induction xs arbitrary: acc) auto

lemma penalties_apply:
  assumes ok: "penalties_ok ctx"
  shows "llama_sampler_penalties_apply F ctx cur_p =
    Inr (if pe_last_n ctx = 0 \<or> (pe_repeat ctx = fl_one F \<and> pe_freq ctx = fl_zero F \<and> pe_present ctx = fl_zero F)
         then cur_p
         else cur_p\<lparr>cur_data := map (penalized F (pe_repeat ctx) (pe_freq ctx) (pe_present ctx) (ring_to_vector (pe_prev ctx)))
                                (cur_data cur_p), cur_sorted := False\<rparr>)"
proof -
  let ?ts = "ring_to_vector (pe_prev ctx)"
  have "penalize F ctx t = Inr (penalized F (pe_repeat ctx) (pe_freq ctx) (pe_present ctx) ?ts t)" for t
  proof (cases "tk_id t \<in> set ?ts")
    case True
    have "count_list ?ts (tk_id t) \<le> nat (pe_last_n ctx)"
      using ok count_list_le[of ?ts "tk_id t"] ring.bounded[of "pe_prev ctx"] by (simp add: penalties_ok_def)
    then have "int (count_list ?ts (tk_id t)) \<le> pe_last_n ctx" using ok by (simp add: penalties_ok_def le_nat_iff)
    then show ?thesis using ok True count_list_pos[OF True]
      by (simp add: penalize_def penalized_def penalties_ok_def token_counts_def Let_def)
  qed (use ok in \<open>simp add: penalize_def penalized_def penalties_ok_def token_counts_def\<close>)
  then show ?thesis
    using rfold_map[of "cur_data cur_p" "penalize F ctx"
        "penalized F (pe_repeat ctx) (pe_freq ctx) (pe_present ctx) ?ts" "[]"]
    by (simp add: llama_sampler_penalties_apply_def)
qed

end
