(* ===== verification/SampleDryProps.thy ===== *)
theory SampleDryProps
  imports SampleRingProps
begin

text \<open>
  DRY against its meaning: the counts of the Z-algorithm are lengths of common prefixes, the cut at
  a sequence breaker is the first one found, and the table holds for every token the longest
  repetition it would continue.  \<open>u\<close> is the part of the history DRY looks at, newest token first.
\<close>

section \<open>Common prefixes\<close>

fun common :: "'a list \<Rightarrow> 'a list \<Rightarrow> nat" where
  "common (x # xs) (y # ys) = (if x = y then Suc (common xs ys) else 0)"
| "common xs ys = 0"

lemma common_ge: "n \<le> common xs ys \<longleftrightarrow> n \<le> length xs \<and> n \<le> length ys \<and> (\<forall>i < n. xs ! i = ys ! i)"
proof (induction xs ys arbitrary: n rule: common.induct)
  case (1 x xs y ys)
  then show ?case by (cases n) (auto simp: less_Suc_eq_0_disj)
qed auto

text \<open>How far the text goes on like its own beginning from \<open>k\<close> on.\<close>

definition again :: "'a list \<Rightarrow> nat \<Rightarrow> nat" where
  "again u k = common u (drop k u)"

lemma again_ge: "k \<le> length u \<Longrightarrow> n \<le> again u k \<longleftrightarrow> k + n \<le> length u \<and> (\<forall>i < n. u ! i = u ! (k + i))"
  by (auto simp: again_def common_ge)

lemma again_le: "k \<le> length u \<Longrightarrow> k + again u k \<le> length u"
  using again_ge[of k u "again u k"] by simp

lemma again_nth: "k \<le> length u \<Longrightarrow> i < again u k \<Longrightarrow> u ! i = u ! (k + i)"
  using again_ge[of k u "again u k"] by simp

lemma again_stop: "k + again u k < length u \<Longrightarrow> u ! again u k \<noteq> u ! (k + again u k)"
  using again_ge[of k u "Suc (again u k)"] again_ge[of k u "again u k"] by (auto simp: less_Suc_eq)

text \<open>Inside a box that begins at \<open>l\<close> the text is the one at its beginning.\<close>

lemma again_inside:
  assumes l: "l < k" "k < l + again u l" "l \<le> length u"
  shows "again u (k - l) < l + again u l - k \<Longrightarrow> again u k = again u (k - l)"
    and "l + again u l - k \<le> again u (k - l) \<Longrightarrow> l + again u l - k \<le> again u k"
proof -
  let ?R = "l + again u l - k" and ?p = "k - l"
  have len: "k \<le> length u" "?p \<le> length u" "l + again u l \<le> length u" using again_le[OF l(3)] l by auto
  have same: "u ! (k + i) = u ! (?p + i)" if "i < ?R" for i
    using again_nth[OF l(3), of "?p + i"] that l by simp
  show "again u k = again u ?p" if less: "again u ?p < ?R"
  proof (rule antisym)
    show "again u ?p \<le> again u k"
      using again_nth[OF len(2)] same less len l by (auto simp: again_ge[OF len(1)])
    show "again u k \<le> again u ?p"
    proof (rule ccontr)
      assume "\<not> again u k \<le> again u ?p"
      then have "u ! again u ?p = u ! (k + again u ?p)" using again_nth[OF len(1)] by simp
      moreover have "?p + again u ?p < length u" using less len l by linarith
      ultimately show False using same[OF less] again_stop[of ?p u] by simp
    qed
  qed
  show "?R \<le> again u k" if "?R \<le> again u ?p"
    using that again_nth[OF len(2)] same len l by (auto simp: again_ge[OF len(1)])
qed

section \<open>The Z-algorithm\<close>

definition shows_recent :: "'a ring_buffer \<Rightarrow> 'a list \<Rightarrow> bool" where
  "shows_recent r u \<longleftrightarrow> (\<forall>i < length u. ring_rat i r = Inr (u ! i))"

lemma match_from_again:
  assumes r: "shows_recent r u" and k: "k \<le> length u"
  shows "n \<le> again u k \<Longrightarrow> match_from r (length u) k n = Inr (again u k)"
proof (induction "length u - (n + k)" arbitrary: n rule: less_induct)
  case less
  show ?case
  proof (cases "n + k < length u")
    case True
    then have at: "ring_rat n r = Inr (u ! n)" "ring_rat (n + k) r = Inr (u ! (n + k))"
      using r by (auto simp: shows_recent_def)
    show ?thesis
    proof (cases "u ! n = u ! (n + k)")
      case same: True
      then have "Suc n \<le> again u k"
        using less.prems True by (auto simp: again_ge[OF k] less_Suc_eq add.commute)
      then show ?thesis using less.hyps[of "Suc n"] True at same by (subst match_from.simps) simp
    next
      case False
      then have "again u k = n" using less.prems again_nth[OF k, of n] by (auto simp: add.commute le_less)
      then show ?thesis using True at False by (subst match_from.simps) simp
    qed
  next
    case False
    then have "again u k = n" using less.prems again_le[OF k] by simp
    then show ?thesis using False by (subst match_from.simps) simp
  qed
qed

definition counts_below :: "'a list \<Rightarrow> int \<Rightarrow> nat \<Rightarrow> int list" where
  "counts_below u rl m =
     map (\<lambda>i. if length u - m \<le> i \<and> i < length u - 1 then min (int (again u (length u - 1 - i))) rl else 0)
       [0..<length u]"

definition z_box :: "'a list \<Rightarrow> nat \<Rightarrow> int \<Rightarrow> int \<Rightarrow> bool" where
  "z_box u k lt rt \<longleftrightarrow> rt < int k
     \<or> (\<exists>l. lt = int l \<and> 1 \<le> l \<and> l < k \<and> rt = int (l + again u l) - 1)"

lemma counts_below_nth:
  "1 \<le> k \<Longrightarrow> k < m \<Longrightarrow> m \<le> length u \<Longrightarrow> counts_below u rl m ! (length u - 1 - k) = min (int (again u k)) rl"
  by (auto simp: counts_below_def)

lemma counts_below_Suc:
  assumes "1 \<le> k" "k < length u"
  shows "(counts_below u rl k)[length u - 1 - k := min (int (again u k)) rl] = counts_below u rl (Suc k)"
proof (rule nth_equalityI)
  fix i assume "i < length ((counts_below u rl k)[length u - 1 - k := min (int (again u k)) rl])"
  then have i: "i < length u" by (simp add: counts_below_def)
  show "(counts_below u rl k)[length u - 1 - k := min (int (again u k)) rl] ! i = counts_below u rl (Suc k) ! i"
  proof (cases "i = length u - 1 - k")
    case True
    then show ?thesis using assms counts_below_nth[of k "Suc k" u rl] i by (simp add: counts_below_def)
  next
    case False
    then have "length u - k \<le> i \<longleftrightarrow> length u - Suc k \<le> i" using assms i by auto
    then show ?thesis using False i by (simp add: counts_below_def)
  qed
qed (simp add: counts_below_def)

lemma z_step_counts:
  assumes r: "shows_recent r u" and k: "1 \<le> k" "k < length u" and rl: "0 \<le> rl" and box: "z_box u k lt rt"
  shows "\<exists>lt' rt'. z_step r (length u) rl k (counts_below u rl k, lt, rt) = Inr (counts_below u rl (Suc k), lt', rt')
    \<and> z_box u (Suc k) lt' rt'"
proof (cases "int k > rt")
  case True
  have "match_from r (length u) k 0 = Inr (again u k)" using match_from_again[OF r, of k 0] k by simp
  then show ?thesis using True k counts_below_Suc[OF k, of rl]
    by (auto simp: z_step_def z_box_def intro!: exI[of _ k])
next
  case False
  then obtain l where l: "lt = int l" "1 \<le> l" "l < k" "rt = int (l + again u l) - 1"
    using box by (auto simp: z_box_def)
  have p: "nat (int k - lt) = k - l" "1 \<le> k - l" "k - l < k" using l by auto
  have c: "counts_below u rl k ! (length u - 1 - (k - l)) = min (int (again u (k - l))) rl"
    using counts_below_nth[of "k - l" k u rl] p k by simp
  have in_box: "l < k" "k < l + again u l" "l \<le> length u" using l k False by auto
  have R: "rt - int k + 1 = int (l + again u l - k)" "nat (rt + 1) - k = l + again u l - k" using l(4) in_box by auto
  show ?thesis
  proof (cases "min (int (again u (k - l))) rl < int (l + again u l - k)")
    case True
    have "min (int (again u (k - l))) rl = min (int (again u k)) rl"
      using again_inside[OF in_box] True by (cases "again u (k - l) < l + again u l - k") auto
    then show ?thesis using False True c p R counts_below_Suc[OF k, of rl] l
      by (auto simp: z_step_def z_box_def Let_def)
  next
    case big: False
    then have "l + again u l - k \<le> again u k" using again_inside(2)[OF in_box] by simp
    then have "match_from r (length u) k (l + again u l - k) = Inr (again u k)"
      using match_from_again[OF r] k by simp
    then show ?thesis using False big c p R counts_below_Suc[OF k, of rl] k
      by (auto simp: z_step_def z_box_def Let_def add.commute intro!: exI[of _ k])
  qed
qed

lemma dry_counts_again:
  assumes r: "shows_recent r u" and rl: "0 \<le> rl" and u: "u \<noteq> []"
  shows "dry_counts r (length u) rl = Inr (counts_below u rl (length u))"
proof -
  have "\<exists>lt rt. rfold (z_step r (length u) rl) [1..<Suc m] (replicate (length u) 0, 0, 0)
      = Inr (counts_below u rl (Suc m), lt, rt) \<and> z_box u (Suc m) lt rt" if "m < length u" for m
    using that
  proof (induction m)
    case 0
    have "counts_below u rl 1 = replicate (length u) 0"
      by (rule nth_equalityI) (auto simp: counts_below_def)
    then show ?case by (simp add: z_box_def)
  next
    case (Suc m)
    then obtain lt rt where st: "rfold (z_step r (length u) rl) [1..<Suc m] (replicate (length u) 0, 0, 0)
        = Inr (counts_below u rl (Suc m), lt, rt)" "z_box u (Suc m) lt rt" by auto
    obtain lt' rt' where stp: "z_step r (length u) rl (Suc m) (counts_below u rl (Suc m), lt, rt)
        = Inr (counts_below u rl (Suc (Suc m)), lt', rt')" "z_box u (Suc (Suc m)) lt' rt'"
      using z_step_counts[OF r _ _ rl st(2)] Suc.prems by auto
    have "[1..<Suc (Suc m)] = [1..<Suc m] @ [Suc m]" by simp
    then show ?case using st(1) stp by (simp add: rfold_append del: upt_Suc)
  qed
  from this[of "length u - 1"] show ?thesis using u by (auto simp: dry_counts_def)
qed

section \<open>The longest repetition\<close>

text \<open>
  The lengths of the repetitions that token \<open>t\<close> would continue: it stands behind an earlier copy of
  the last tokens.
\<close>

definition repeats :: "llama_token list \<Rightarrow> int \<Rightarrow> int \<Rightarrow> llama_token \<Rightarrow> int list" where
  "repeats u rl allowed_length t =
     map (\<lambda>k. min (int (again u k)) rl)
       (filter (\<lambda>k. u ! (k - 1) = t \<and> allowed_length \<le> min (int (again u k)) rl) [1..<length u])"

definition longest_repeat :: "llama_token list \<Rightarrow> int \<Rightarrow> int \<Rightarrow> llama_token \<Rightarrow> int option" where
  "longest_repeat u rl allowed_length t =
     (let rs = repeats u rl allowed_length t in if rs = [] then None else Some (Max (set rs)))"

definition max_some :: "int option \<Rightarrow> int \<Rightarrow> int option" where
  "max_some x n = Some (case x of None \<Rightarrow> n | Some y \<Rightarrow> max y n)"

definition best_of :: "int list \<Rightarrow> int option" where
  "best_of rs = fold (\<lambda>n x. max_some x n) rs None"

lemma best_of_Max: "best_of rs = (if rs = [] then None else Some (Max (set rs)))"
proof (induction rs rule: rev_induct)
  case (snoc x rs)
  then show ?case by (cases "rs = []") (auto simp: best_of_def max_some_def max.commute)
qed (simp add: best_of_def)

lemma repeat_step:
  assumes "shows_recent r u" "i < length u - 1" "count ! i = n"
  shows "(let repeat_len = count ! i in
     if allowed_length \<le> repeat_len then
       rbind (ring_rat (length u - 2 - i) r) (\<lambda>tok.
       Inr (case m tok of
              None \<Rightarrow> m(tok \<mapsto> repeat_len)
            | Some x \<Rightarrow> if x < repeat_len then m(tok \<mapsto> repeat_len) else m))
     else Inr m) =
     Inr (\<lambda>t. if u ! (length u - 2 - i) = t \<and> allowed_length \<le> n then max_some (m t) n else m t)"
  using assms by (auto simp: shows_recent_def max_some_def fun_eq_iff split: option.split)

lemma dry_repeats_fold:
  assumes r: "shows_recent r u" and n: "n \<le> length u - 1"
  shows "rfold (\<lambda>i m.
       let repeat_len = count ! i in
       if allowed_length \<le> repeat_len then
         rbind (ring_rat (length u - 2 - i) r) (\<lambda>tok.
         Inr (case m tok of
                None \<Rightarrow> m(tok \<mapsto> repeat_len)
              | Some x \<Rightarrow> if x < repeat_len then m(tok \<mapsto> repeat_len) else m))
       else Inr m) [0..<n] Map.empty
    = Inr (\<lambda>t. best_of (map ((!) count)
        (filter (\<lambda>i. u ! (length u - 2 - i) = t \<and> allowed_length \<le> count ! i) [0..<n])))"
  using n
proof (induction n)
  case (Suc n)
  then have "n < length u - 1" by simp
  from repeat_step[OF r this refl, where count = count and allowed_length = allowed_length] Suc show ?case
    by (auto simp: rfold_append best_of_def fun_eq_iff)
qed (simp add: best_of_def)

lemma dry_repeats_longest:
  assumes r: "shows_recent r u" and u: "u \<noteq> []"
  shows "dry_repeats r (length u) allowed_length (counts_below u rl (length u)) = Inr (longest_repeat u rl allowed_length)"
proof -
  let ?n = "length u - 1"
  let ?c = "counts_below u rl (length u)"
  have c: "?c ! i = min (int (again u (?n - i))) rl" if "i < ?n" for i
    using that by (simp add: counts_below_def)
  have "map ((!) ?c) (filter (\<lambda>i. u ! (length u - 2 - i) = t \<and> allowed_length \<le> ?c ! i) [0..<?n])
      = rev (repeats u rl allowed_length t)" for t
  proof -
    have mirror: "rev [Suc 0..<length u] = map (\<lambda>i. length u - Suc i) [0..<length u - Suc 0]"
      by (rule nth_equalityI) (auto simp: rev_nth)
    have at: "?c ! i = min (int (again u (?n - i))) rl" "?n - i - 1 = length u - 2 - i" if "i < ?n" for i
      using c[OF that] by auto
    have "rev (repeats u rl allowed_length t) = map (\<lambda>i. min (int (again u (?n - i))) rl)
        (filter (\<lambda>i. u ! (?n - i - 1) = t \<and> allowed_length \<le> min (int (again u (?n - i))) rl) [0..<?n])"
      by (simp add: repeats_def rev_map rev_filter mirror filter_map comp_def del: upt_Suc)
    then show ?thesis using at by (auto intro!: map_cong filter_cong)
  qed
  then show ?thesis using dry_repeats_fold[OF r, of ?n ?c allowed_length]
    by (auto simp: dry_repeats_def longest_repeat_def best_of_Max fun_eq_iff Let_def)
qed

section \<open>Sequence breakers\<close>

text \<open>
  A breaker stands \<open>i\<close> tokens from the end: its first token there, the rest of it towards the end.
\<close>

definition breaks_at :: "llama_token list \<Rightarrow> nat \<Rightarrow> llama_token \<times> llama_token list \<Rightarrow> bool" where
  "breaks_at u i b \<longleftrightarrow> fst b = u ! i \<and> length (snd b) \<le> i
     \<and> list_all (\<lambda>j. snd b ! j = u ! (i - 1 - j)) [0..<length (snd b)]"

definition break_lengths :: "llama_token list \<Rightarrow> nat \<Rightarrow> (llama_token \<times> llama_token list) list \<Rightarrow> int list" where
  "break_lengths u i bs = map (\<lambda>b. int (length (snd b))) (filter (breaks_at u i) bs)"

definition cut_limit :: "llama_token list \<Rightarrow> (llama_token \<times> llama_token list) list \<Rightarrow> int" where
  "cut_limit u bs =
     (case find (\<lambda>i. break_lengths u i bs \<noteq> []) [0..<length u] of
        None \<Rightarrow> int (length u)
      | Some i \<Rightarrow> int i - Max (set (break_lengths u i bs)))"

lemma tail_matches_at:
  assumes r: "shows_recent r u"
  shows "length ts \<le> i \<Longrightarrow> i < length u \<Longrightarrow> tail_matches r i ts = Inr (list_all (\<lambda>j. ts ! j = u ! (i - 1 - j)) [0..<length ts])"
proof (induction ts arbitrary: i)
  case (Cons t ts)
  have at: "ring_rat (i - 1) r = Inr (u ! (i - 1))" using r Cons.prems by (auto simp: shows_recent_def)
  have "list_all (\<lambda>j. (t # ts) ! j = u ! (i - 1 - j)) [0..<length (t # ts)]
      \<longleftrightarrow> t = u ! (i - 1) \<and> list_all (\<lambda>j. ts ! j = u ! (i - 1 - 1 - j)) [0..<length ts]"
  proof -
    have "[0..<length (t # ts)] = 0 # map Suc [0..<length ts]"
      by (simp add: map_Suc_upt upt_conv_Cons del: upt_Suc)
    then show ?thesis by (simp add: list.pred_map comp_def)
  qed
  then show ?case using Cons.IH[of "i - 1"] Cons.prems at by simp
qed simp

lemma longest_breaker_max:
  assumes r: "shows_recent r u" and i: "i < length u"
  shows "rfold (\<lambda>ts longest_match.
       if longest_match < int (length ts) \<and> length ts \<le> i then
         rbind (tail_matches r i ts) (\<lambda>match. Inr (if match then int (length ts) else longest_match))
       else Inr longest_match) (map snd (filter (\<lambda>b. fst b = u ! i) bs)) m
    = Inr (fold max (break_lengths u i bs) m)"
proof (induction bs arbitrary: m)
  case (Cons b bs)
  show ?case
  proof (cases "fst b = u ! i")
    case True
    then show ?thesis using Cons tail_matches_at[OF r _ i, of "snd b"]
      by (auto simp: break_lengths_def breaks_at_def max_def)
  next
    case False
    then show ?thesis using Cons by (simp add: break_lengths_def breaks_at_def)
  qed
qed (simp add: break_lengths_def)

lemma fold_max_neg:
  fixes ls :: "int list"
  assumes "list_all (\<lambda>l. 0 \<le> l) ls"
  shows "fold max ls (-1) = (if ls = [] then -1 else Max (set ls))"
proof (cases "ls = []")
  case False
  then have "0 \<le> Max (set ls)" using assms by (auto simp: list_all_iff neq_Nil_conv Max_ge_iff)
  then show ?thesis using False Max.set_eq_fold[of "-1" ls] by simp
qed simp

lemma break_lengths_bounds: "list_all (\<lambda>l. 0 \<le> l \<and> l \<le> int i) (break_lengths u i bs)"
  by (auto simp: break_lengths_def breaks_at_def list_all_iff)

lemma longest_breaker_at:
  assumes r: "shows_recent r u" and i: "i < length u"
  shows "longest_breaker r i (map snd (filter (\<lambda>b. fst b = u ! i) bs))
    = Inr (if break_lengths u i bs = [] then -1 else Max (set (break_lengths u i bs)))"
  using longest_breaker_max[OF r i, of bs "-1"] fold_max_neg[of "break_lengths u i bs"] break_lengths_bounds[of i u bs]
  by (simp add: longest_breaker_def list_all_iff)

lemma break_lengths_Max:
  assumes "break_lengths u i bs \<noteq> []"
  shows "0 \<le> Max (set (break_lengths u i bs))" "Max (set (break_lengths u i bs)) \<le> int i"
  using break_lengths_bounds[of i u bs] assms by (auto simp: list_all_iff neq_Nil_conv Max_ge_iff Max_le_iff)

lemma breaker_loop_finds:
  assumes r: "shows_recent r u"
  shows "list_all (\<lambda>i. i < length u) is \<Longrightarrow> breaker_loop r bs rl is =
    Inr (case find (\<lambda>i. break_lengths u i bs \<noteq> []) is of
           None \<Rightarrow> rl | Some i \<Rightarrow> int i - Max (set (break_lengths u i bs)))"
proof (induction "is")
  case (Cons i "is")
  then have i: "i < length u" "ring_rat i r = Inr (u ! i)" using r by (auto simp: shows_recent_def)
  show ?case using Cons i longest_breaker_at[OF r i(1), of bs] break_lengths_Max(1)[of u i bs] by simp
qed simp

lemma cut_limit_nonneg: "0 \<le> cut_limit u bs"
  using break_lengths_Max(2)[of u _ bs] by (auto simp: cut_limit_def find_Some_iff split: option.split)

section \<open>The sampler\<close>

definition dry_quiet :: "llama_token list \<Rightarrow> (llama_token \<times> llama_token list) list \<Rightarrow> int \<Rightarrow> bool" where
  "dry_quiet u bs allowed_length \<longleftrightarrow> int (length u) \<le> allowed_length \<or> cut_limit u bs < allowed_length"

lemma dry_apply_recent:
  assumes on: "\<not> dry_off F (dr_multiplier ctx) (dr_base ctx) (dr_penalty_last_n ctx)"
    and allowed: "0 \<le> dr_allowed_length ctx"
    and e: "e = (if dr_penalty_last_n ctx = -1 then dr_total_context_size ctx else max (dr_penalty_last_n ctx) 0)"
    and u: "u = take (nat (min (min (int (rb_sz (dr_last_tokens ctx))) e) (dr_total_context_size ctx)))
                  (rev (ring_to_vector (dr_last_tokens ctx)))"
    and ok: "ring_ok (dr_last_tokens ctx)"
  shows "\<exists>ctx'. llama_sampler_dry_apply F ctx cur_p =
      Inr (ctx', if dry_quiet u (dr_breakers ctx) (dr_allowed_length ctx) then cur_p
                 else cur_p\<lparr>cur_data := map (dry_penalize F ctx') (cur_data cur_p), cur_sorted := False\<rparr>)
    \<and> (\<exists>count m. ctx' = ctx\<lparr>dr_repeat_count := count, dr_max_token_repeat := m\<rparr>
        \<and> (\<not> dry_quiet u (dr_breakers ctx) (dr_allowed_length ctx)
             \<longrightarrow> m = longest_repeat u (cut_limit u (dr_breakers ctx)) (dr_allowed_length ctx)))"
proof -
  let ?r = "dr_last_tokens ctx" and ?bs = "dr_breakers ctx" and ?a = "dr_allowed_length ctx"
  let ?n = "min (min (int (rb_sz ?r)) e) (dr_total_context_size ctx)"
  have len: "length u = nat ?n" using u by simp
  have r: "shows_recent ?r u" using ring.recent_ok[OF ok] by (simp add: shows_recent_def u)
  show ?thesis
  proof (cases "?n \<le> ?a")
    case True
    then have "dry_quiet u ?bs ?a" using allowed len by (simp add: dry_quiet_def)
    moreover have "llama_sampler_dry_apply F ctx cur_p = Inr (ctx, cur_p)"
      using True on unfolding llama_sampler_dry_apply_def Let_def e[symmetric] by simp
    ultimately show ?thesis
      by (intro exI[of _ ctx] conjI exI[of _ "dr_repeat_count ctx"] exI[of _ "dr_max_token_repeat ctx"]) simp_all
  next
    case False
    then have n: "\<not> ?n < 0" "u \<noteq> []" "int (length u) = ?n" using allowed len by auto
    have cut: "breaker_loop ?r ?bs ?n [0..<nat ?n] = Inr (cut_limit u ?bs)"
      using breaker_loop_finds[OF r, of "[0..<length u]" ?bs "int (length u)"]
      by (simp only: n(3)[symmetric] nat_int) (simp add: cut_limit_def list_all_iff)
    show ?thesis
    proof (cases "cut_limit u ?bs < ?a")
      case True
      then have "dry_quiet u ?bs ?a" by (simp add: dry_quiet_def)
      then show ?thesis using True False n(1) on cut unfolding llama_sampler_dry_apply_def Let_def e[symmetric]
        by auto
    next
      case ok: False
      then have "\<not> dry_quiet u ?bs ?a" using False n(3) by (simp add: dry_quiet_def)
      then show ?thesis using ok False n(1) on cut dry_counts_again[OF r cut_limit_nonneg[of u ?bs] n(2)]
          dry_repeats_longest[OF r n(2), of ?a "cut_limit u ?bs"] unfolding llama_sampler_dry_apply_def Let_def e[symmetric]
        by (auto simp: len[symmetric])
    qed
  qed
qed

end
