(* ===== verification/SampleChainProps.thy ===== *)
theory SampleChainProps
  imports SampleChain SampleProps SampleDryProps
begin

text \<open>
  A chain of samplers: what every sampler keeps of the candidates, so that none of the assertions
  and exceptions of the source is reached and a token of the vocabulary comes out, again and again.
\<close>

section \<open>Candidates\<close>

definition cands_ok :: "nat \<Rightarrow> 'f llama_token_data_array \<Rightarrow> bool" where
  "cands_ok n cur_p \<longleftrightarrow> cur_data cur_p \<noteq> [] \<and> (\<forall>t \<in> set (cur_data cur_p). 0 \<le> tk_id t \<and> tk_id t < int n)"

lemma cands_ok_ids:
  "cands_ok n cur_p \<Longrightarrow> cur_data cur_q \<noteq> [] \<Longrightarrow> tk_id ` set (cur_data cur_q) \<subseteq> tk_id ` set (cur_data cur_p) \<Longrightarrow> cands_ok n cur_q"
  by (fastforce simp: cands_ok_def)

lemma cands_ok_sub:
  "cands_ok n cur_p \<Longrightarrow> cur_data cur_q \<noteq> [] \<Longrightarrow> set (cur_data cur_q) \<subseteq> set (cur_data cur_p) \<Longrightarrow> cands_ok n cur_q"
  by (auto simp: cands_ok_def)

lemma cands_ok_take: "cands_ok n cur_p \<Longrightarrow> 0 < i \<Longrightarrow> cands_ok n (cur_p\<lparr>cur_data := take i (cur_data cur_p)\<rparr>)"
  by (auto simp: cands_ok_def dest: in_set_takeD)

lemma cands_ok_drop: "cands_ok n cur_p \<Longrightarrow> i < length (cur_data cur_p) \<Longrightarrow> cands_ok n (cur_p\<lparr>cur_data := drop i (cur_data cur_p)\<rparr>)"
  by (auto simp: cands_ok_def dest: in_set_dropD)

lemma cands_ok_map: "cands_ok n cur_p \<Longrightarrow> (\<And>t. tk_id (f t) = tk_id t) \<Longrightarrow> cands_ok n (cur_p\<lparr>cur_data := map f (cur_data cur_p)\<rparr>)"
  by (auto simp: cands_ok_def)

lemma cands_ok_flags [simp]:
  "cands_ok n (cur_p\<lparr>cur_selected := i\<rparr>) = cands_ok n cur_p" "cands_ok n (cur_p\<lparr>cur_sorted := b\<rparr>) = cands_ok n cur_p"
  by (simp_all add: cands_ok_def)

lemma cands_ok_sort: "library_ok L \<Longrightarrow> cands_ok n cur_p \<Longrightarrow> cands_ok n (sort_candidates L cur_p)"
  using library_sort(3)[of L "cur_data cur_p"] library_sort(4)[of L "cur_data cur_p"]
  by (auto simp: cands_ok_def sort_candidates_def)

definition selected_ok :: "'f llama_token_data_array \<Rightarrow> bool" where
  "selected_ok cur_p \<longleftrightarrow> 0 \<le> cur_selected cur_p \<and> cur_selected cur_p < int (length (cur_data cur_p))"

lemma softmax_keeps:
  assumes L: "library_ok L" and c: "cands_ok n cur_p"
  shows "\<exists>cur_q. llama_sampler_softmax_impl F L cur_p = Inr cur_q \<and> cands_ok n cur_q
    \<and> length (cur_data cur_q) = length (cur_data cur_p) \<and> cur_sorted cur_q"
proof -
  have "length (cur_data (sort_candidates L cur_p)) = length (cur_data cur_p)"
    by (simp add: sort_candidates_def library_sort(4)[OF L])
  then show ?thesis using c cands_ok_sort[OF L c]
    by (auto simp: llama_sampler_softmax_impl_def Let_def sort_candidates_def intro!: cands_ok_map) (auto simp: cands_ok_def)
qed

lemma fold_temp_zero:
  "\<exists>ys a b. fold (temp_zero_step F) is (xs, i, l) = (ys, a, b) \<and> map tk_id ys = map tk_id xs"
proof (induction "is" arbitrary: xs i l)
  case (Cons j "is")
  have keep: "map tk_id (set_logit v k ys) = map tk_id ys" for v k and ys :: "'a llama_token_data list"
    by (cases "k < length ys") (simp_all add: set_logit_def map_update list_update_same_conv list_update_beyond)
  show ?case using Cons.IH[of "set_logit (fl_neg_inf F) i xs"] Cons.IH[of "set_logit (fl_neg_inf F) j xs"]
    by (auto simp: temp_zero_step_def Let_def keep)
qed simp

lemma temp_keeps:
  assumes c: "cands_ok n cur_p"
  shows "\<exists>cur_q. llama_sampler_temp_impl F cur_p temp = Inr cur_q \<and> cands_ok n cur_q"
proof -
  obtain ys a b where z: "fold (temp_zero_step F) [1..<length (cur_data cur_p)]
      (cur_data cur_p, 0, tk_logit (hd (cur_data cur_p))) = (ys, a, b)" "map tk_id ys = map tk_id (cur_data cur_p)"
    using fold_temp_zero[of F "[1..<length (cur_data cur_p)]" "cur_data cur_p" 0 "tk_logit (hd (cur_data cur_p))"] by blast
  have "tk_id ` set ys = tk_id ` set (cur_data cur_p)" "length ys = length (cur_data cur_p)"
    using z(2) by (metis list.set_map, metis length_map)
  then have "cands_ok n (cur_p\<lparr>cur_data := ys\<rparr>)" using c by (intro cands_ok_ids[OF c]) (auto simp: cands_ok_def)
  then show ?thesis using z(1) c by (auto simp: llama_sampler_temp_impl_def cands_ok_def)
qed

lemma top_p_loop_bounds: "i \<le> top_p_loop F p m i s xs \<and> (xs \<noteq> [] \<longrightarrow> i < top_p_loop F p m i s xs)"
proof (induction xs arbitrary: i s)
  case (Cons t xs)
  show ?case using Cons.IH[of "i + 1" "fl_add F s (tk_p t)"] by (auto simp: Let_def)
qed simp

lemma min_p_loop_ge: "i \<le> min_p_loop l m i xs"
proof (induction xs arbitrary: i)
  case (Cons t xs)
  show ?case using Cons.IH[of "i + 1"] by auto
qed simp

lemma typical_loop_pos: "xs \<noteq> [] \<Longrightarrow> i < typical_loop F ys p m i s xs"
proof (induction xs arbitrary: i s)
  case (Cons t xs)
  show ?case
  proof (cases "xs = []")
    case False
    then show ?thesis using Cons.IH[of "i + 1" "fl_add F s (tk_p (ys ! t))"] by (simp add: Let_def)
  qed (simp add: Let_def)
qed simp

lemma xtc_loop_less: "p < i \<or> p = 0 \<Longrightarrow> p < i + length xs \<Longrightarrow> xtc_loop h i p xs < i + length xs"
proof (induction xs arbitrary: i p)
  case (Cons t xs)
  then show ?case using Cons.IH[of i "i + 1"] by auto
qed simp

section \<open>The samplers one by one\<close>

lemma top_k_keeps:
  assumes L: "library_ok L" and F: "buckets_mono F" and c: "cands_ok n cur_p"
  shows "cands_ok n (llama_sampler_top_k_impl F L cur_p k)"
proof (cases "cur_sorted cur_p")
  case True
  then show ?thesis using c cands_ok_take[OF c, of "if k \<le> 0 then length (cur_data cur_p) else min (nat k) (length (cur_data cur_p))"]
    by (auto simp: llama_sampler_top_k_impl_def Let_def cands_ok_def)
next
  case False
  obtain rest where r: "mset (cur_data cur_p) = mset (cur_data (llama_sampler_top_k_impl F L cur_p k) @ rest)"
    "length (cur_data (llama_sampler_top_k_impl F L cur_p k)) =
       (if k \<le> 0 then length (cur_data cur_p) else min (nat k) (length (cur_data cur_p)))"
    using top_k_best(1)[OF L F, of cur_p k] False unfolding best_k_def by blast
  then have "set (cur_data (llama_sampler_top_k_impl F L cur_p k)) \<subseteq> set (cur_data cur_p)"
    using mset_eq_setD[OF r(1)] by auto
  moreover have "cur_data (llama_sampler_top_k_impl F L cur_p k) \<noteq> []"
    using r(2) c by (auto simp: cands_ok_def split: if_splits simp flip: length_greater_0_conv)
  ultimately show ?thesis using cands_ok_sub[OF c] by blast
qed

lemma top_p_keeps:
  assumes L: "library_ok L" and c: "cands_ok n cur_p"
  shows "\<exists>cur_q. llama_sampler_top_p_apply F L p m cur_p = Inr cur_q \<and> cands_ok n cur_q"
proof -
  obtain cur_q where q: "llama_sampler_softmax_impl F L cur_p = Inr cur_q" "cands_ok n cur_q"
    using softmax_keeps[OF L c] by blast
  then have "0 < top_p_loop F p m 0 (fl_zero F) (cur_data cur_q)"
    using top_p_loop_bounds[of 0 F p m "fl_zero F" "cur_data cur_q"] by (simp add: cands_ok_def)
  then show ?thesis using q c cands_ok_take[OF q(2)] by (auto simp: llama_sampler_top_p_apply_def)
qed

lemma min_p_keeps:
  assumes L: "library_ok L" and c: "cands_ok n cur_p" and m: "p \<le> fl_zero F \<or> 0 < m \<or> cur_sorted cur_p"
  shows "cands_ok n (llama_sampler_min_p_apply F L p m cur_p)"
    and "cur_sorted cur_p \<Longrightarrow> cur_sorted (llama_sampler_min_p_apply F L p m cur_p)"
proof -
  have "cands_ok n (cur_p\<lparr>cur_data := filter P (cur_data cur_p)\<rparr>)"
    if "m \<le> length (filter P (cur_data cur_p))" "\<not> cur_sorted cur_p" "\<not> p \<le> fl_zero F" for P
    using that m by (intro cands_ok_sub[OF c]) auto
  moreover have "0 < min_p_loop l m 1 xs" for l and xs :: "'a llama_token_data list"
    using min_p_loop_ge[of 1 l m xs] by simp
  ultimately show "cands_ok n (llama_sampler_min_p_apply F L p m cur_p)"
    using c cands_ok_take[OF cands_ok_sort[OF L c]] by (auto simp: llama_sampler_min_p_apply_def Let_def)
qed (simp add: llama_sampler_min_p_apply_def Let_def sort_candidates_def)

text \<open>What becomes of the flag.\<close>

lemma softmax_sorted: "llama_sampler_softmax_impl F L cur_p = Inr cur_q \<Longrightarrow> cur_sorted cur_q"
  by (auto simp: llama_sampler_softmax_impl_def Let_def sort_candidates_def split: if_splits)

lemma temp_sorted: "llama_sampler_temp_impl F cur_p t = Inr cur_q \<Longrightarrow> cur_sorted cur_q = cur_sorted cur_p"
  by (auto simp: llama_sampler_temp_impl_def Let_def split: if_splits prod.splits)

lemma top_p_sorted:
  "llama_sampler_top_p_apply F L p m cur_p = Inr cur_q \<Longrightarrow> cur_sorted cur_p \<or> \<not> fl_one F \<le> p \<Longrightarrow> cur_sorted cur_q"
  by (auto simp: llama_sampler_top_p_apply_def Let_def rbind_Inr_iff dest: softmax_sorted split: if_splits)

lemma temp_ext_sorted:
  "llama_sampler_temp_ext_apply F L t d x cur_p = Inr cur_q \<Longrightarrow> cur_sorted cur_p \<Longrightarrow> cur_sorted cur_q"
  by (auto simp: llama_sampler_temp_ext_apply_def Let_def rbind_Inr_iff dest: softmax_sorted temp_sorted split: if_splits)

lemma xtc_sorted:
  "llama_sample_xtc_apply F L c cur_p = Inr (c', cur_q) \<Longrightarrow> cur_sorted cur_p \<Longrightarrow> cur_sorted cur_q"
  by (auto simp: llama_sample_xtc_apply_def Let_def rbind_Inr_iff dest: softmax_sorted split: if_splits prod.splits)

lemma dist_sorted: "llama_sampler_dist_apply F L c cur_p = Inr (c', cur_q) \<Longrightarrow> cur_sorted cur_q"
  by (auto simp: llama_sampler_dist_apply_def rbind_Inr_iff split_beta dest!: softmax_sorted)

lemma typical_same: "fl_one F \<le> p \<Longrightarrow> llama_sampler_typical_apply F L p m cur_p = Inr cur_p"
  by (simp add: llama_sampler_typical_apply_def)

lemma mirostat_sorted: "llama_sampler_mirostat_apply F L c cur_p = Inr (c', cur_q) \<Longrightarrow> cur_sorted cur_q"
  by (auto simp: llama_sampler_mirostat_apply_def Let_def rbind_Inr_iff split_beta dest!: softmax_sorted)

lemma mirostat_v2_sorted: "llama_sampler_mirostat_v2_apply F L c cur_p = Inr (c', cur_q) \<Longrightarrow> cur_sorted cur_q"
  by (auto simp: llama_sampler_mirostat_v2_apply_def Let_def rbind_Inr_iff split_beta dest!: softmax_sorted)


lemma typical_keeps:
  assumes L: "library_ok L" and c: "cands_ok n cur_p"
  shows "\<exists>cur_q. llama_sampler_typical_apply F L p m cur_p = Inr cur_q \<and> cands_ok n cur_q"
proof -
  obtain cur_q where q: "llama_sampler_softmax_impl F L cur_p = Inr cur_q" "cands_ok n cur_q"
    using softmax_keeps[OF L c] by blast
  let ?xs = "cur_data cur_q"
  have pick: "cands_ok n (cur_q\<lparr>cur_data := map (\<lambda>i. ?xs ! i) (take k is), cur_sorted := False\<rparr>)"
    if "mset is = mset [0..<length ?xs]" "0 < k" for k "is"
  proof -
    have "set is = {0..<length ?xs}" using mset_eq_setD[OF that(1)] by simp
    then show ?thesis using that(2) q(2)
      by (intro cands_ok_sub[OF q(2)]) (auto simp: cands_ok_def dest!: in_set_takeD)
  qed
  have "lb_sort_indices L ss \<noteq> []" if "length ss = length ?xs" for ss
    using L that q(2) mset_eq_length[of "lb_sort_indices L ss" "[0..<length ss]"] by (auto simp: library_ok_def cands_ok_def)
  then have "0 < typical_loop F ?xs p m 0 s (lb_sort_indices L ss)" if "length ss = length ?xs" for s ss
    using that typical_loop_pos by blast
  moreover have "mset (lb_sort_indices L ss) = mset [0..<length ?xs]" if "length ss = length ?xs" for ss
    using L that by (simp add: library_ok_def)
  ultimately show ?thesis using q(1) c pick by (auto simp: llama_sampler_typical_apply_def Let_def)
qed

lemma softmax_double_ids: "map tk_id (softmax_double F xs) = map tk_id xs"
  by (auto simp: softmax_double_def Let_def intro!: nth_equalityI)

lemma temp_ext_keeps:
  assumes L: "library_ok L" and c: "cands_ok n cur_p"
  shows "\<exists>cur_q. llama_sampler_temp_ext_apply F L t d x cur_p = Inr cur_q \<and> cands_ok n cur_q"
proof -
  obtain cur_q where q: "llama_sampler_softmax_impl F L cur_p = Inr cur_q" "cands_ok n cur_q"
    using softmax_keeps[OF L c] by blast
  have scaled: "\<exists>cur_r. rbind (llama_sampler_temp_impl F cur_q temp)
      (\<lambda>cur_p. Inr (cur_p\<lparr>cur_data := softmax_double F (cur_data cur_p)\<rparr>)) = Inr cur_r \<and> cands_ok n cur_r" for temp
  proof -
    obtain cur_r where r: "llama_sampler_temp_impl F cur_q temp = Inr cur_r" "cands_ok n cur_r"
      using temp_keeps[OF q(2)] by blast
    have "tk_id ` set (softmax_double F (cur_data cur_r)) = tk_id ` set (cur_data cur_r)"
      "length (softmax_double F (cur_data cur_r)) = length (cur_data cur_r)"
      using softmax_double_ids[of F "cur_data cur_r"] by (metis list.set_map, metis length_map)
    then have "cands_ok n (cur_r\<lparr>cur_data := softmax_double F (cur_data cur_r)\<rparr>)"
      using r(2) by (intro cands_ok_ids[OF r(2)]) (auto simp: cands_ok_def)
    then show ?thesis using r(1) by simp
  qed
  show ?thesis
  proof (cases "fl_zero F < d \<and> \<not> length (cur_data cur_p) \<le> 1")
    case True
    then show ?thesis
      using scaled by (simp only: llama_sampler_temp_ext_apply_def Let_def q(1) rbind.simps if_True if_False simp_thms)
  next
    case False
    then show ?thesis using c temp_keeps[OF c, of F t] by (auto simp: llama_sampler_temp_ext_apply_def)
  qed
qed

lemma xtc_keeps:
  assumes L: "library_ok L" and c: "cands_ok n cur_p"
  shows "\<exists>ctx' cur_q. llama_sample_xtc_apply F L ctx cur_p = Inr (ctx', cur_q) \<and> cands_ok n cur_q"
proof -
  obtain cur_q where q: "llama_sampler_softmax_impl F L cur_p = Inr cur_q" "cands_ok n cur_q"
    using softmax_keeps[OF L c] by blast
  then have "xtc_loop h 0 0 (cur_data cur_q) < length (cur_data cur_q)" for h
    using xtc_loop_less[of 0 0 "cur_data cur_q" h] by (simp add: cands_ok_def)
  then show ?thesis using q c cands_ok_drop[OF q(2)]
    by (auto simp: llama_sample_xtc_apply_def Let_def split: prod.split)
qed

lemma drawn_less:
  assumes "library_ok L" "cur_data cur_q \<noteq> []"
  shows "fst (llama_sample_dist L cur_q g) < length (cur_data cur_q)"
proof -
  have "fst (lb_discrete L ps g) < length ps" if "ps \<noteq> []" for ps
    using assms(1) that unfolding library_ok_def by blast
  from this[of "map tk_p (cur_data cur_q)"] show ?thesis using assms(2) by (simp add: llama_sample_dist_def)
qed

lemma drawn_token:
  assumes L: "library_ok L" and q: "cands_ok n cur_q"
  shows "\<exists>ctx' cur_r. (case llama_sample_dist L cur_q g of (idx, rng) \<Rightarrow>
      rbind (selected_token idx cur_q) (\<lambda>t. Inr (upd rng t, cur_q\<lparr>cur_selected := int idx\<rparr>))) = Inr (ctx', cur_r)
    \<and> cands_ok n cur_r \<and> selected_ok cur_r"
  using q drawn_less[OF L, of cur_q g]
  by (cases "llama_sample_dist L cur_q g") (auto simp: selected_token_def selected_ok_def cands_ok_def)

lemma dist_keeps:
  assumes L: "library_ok L" and c: "cands_ok n cur_p"
  shows "\<exists>ctx' cur_q. llama_sampler_dist_apply F L ctx cur_p = Inr (ctx', cur_q) \<and> cands_ok n cur_q \<and> selected_ok cur_q"
proof -
  obtain cur_q where q: "llama_sampler_softmax_impl F L cur_p = Inr cur_q" "cands_ok n cur_q"
    using softmax_keeps[OF L c] by blast
  then show ?thesis using drawn_less[OF L, of cur_q "di_rng ctx"]
    by (cases "llama_sample_dist L cur_q (di_rng ctx)")
      (auto simp: llama_sampler_dist_apply_def selected_ok_def cands_ok_def)
qed

lemma mirostat_keeps:
  assumes L: "library_ok L" and F: "buckets_mono F" and c: "cands_ok n cur_p"
  shows "\<exists>ctx' cur_q. llama_sampler_mirostat_apply F L ctx cur_p = Inr (ctx', cur_q) \<and> cands_ok n cur_q \<and> selected_ok cur_q"
proof -
  obtain cur_q where q: "llama_sampler_softmax_impl F L cur_p = Inr cur_q" "cands_ok n cur_q"
    using softmax_keeps[OF L c] by blast
  have "\<exists>cur_r. llama_sampler_softmax_impl F L (llama_sampler_top_k_impl F L cur_q k) = Inr cur_r \<and> cands_ok n cur_r" for k
    using softmax_keeps[OF L top_k_keeps[OF L F q(2)]] by blast
  then obtain r where r: "\<And>k. llama_sampler_softmax_impl F L (llama_sampler_top_k_impl F L cur_q k) = Inr (r k)"
    "\<And>k. cands_ok n (r k)" by metis
  show ?thesis unfolding llama_sampler_mirostat_apply_def q(1) rbind.simps Let_def r(1)
    by (rule drawn_token[OF L r(2)])
qed

lemma mirostat_v2_keeps:
  assumes L: "library_ok L" and c: "cands_ok n cur_p"
  shows "\<exists>ctx' cur_q. llama_sampler_mirostat_v2_apply F L ctx cur_p = Inr (ctx', cur_q) \<and> cands_ok n cur_q \<and> selected_ok cur_q"
proof -
  obtain cur_q where q: "llama_sampler_softmax_impl F L cur_p = Inr cur_q" "cands_ok n cur_q"
    using softmax_keeps[OF L c] by blast
  have kept: "cands_ok n (cur_q\<lparr>cur_data := if takeWhile P (cur_data cur_q) = [] then take 1 (cur_data cur_q)
      else takeWhile P (cur_data cur_q)\<rparr>)" for P
    using cands_ok_take[OF q(2), of 1] q(2) by (auto simp: cands_ok_def dest: set_takeWhileD)
  have "\<forall>P. \<exists>cur_r. llama_sampler_softmax_impl F L (cur_q\<lparr>cur_data := if takeWhile P (cur_data cur_q) = []
      then take 1 (cur_data cur_q) else takeWhile P (cur_data cur_q)\<rparr>) = Inr cur_r \<and> cands_ok n cur_r"
    using softmax_keeps[OF L kept] by blast
  from choice[OF this] obtain r where "\<forall>P. llama_sampler_softmax_impl F L (cur_q\<lparr>cur_data :=
      if takeWhile P (cur_data cur_q) = [] then take 1 (cur_data cur_q) else takeWhile P (cur_data cur_q)\<rparr>) = Inr (r P)
      \<and> cands_ok n (r P)" ..
  then have r: "\<And>P. llama_sampler_softmax_impl F L (cur_q\<lparr>cur_data := if takeWhile P (cur_data cur_q) = []
      then take 1 (cur_data cur_q) else takeWhile P (cur_data cur_q)\<rparr>) = Inr (r P)" "\<And>P. cands_ok n (r P)" by blast+
  show ?thesis unfolding llama_sampler_mirostat_v2_apply_def q(1) rbind.simps Let_def r(1)
    by (rule drawn_token[OF L r(2)])
qed

lemma greedy_keeps:
  assumes c: "cands_ok n cur_p"
  shows "cands_ok n (llama_sampler_greedy_apply cur_p)" "selected_ok (llama_sampler_greedy_apply cur_p)"
proof -
  have "fold (\<lambda>i sel. if P i sel then i else sel) is s < m" if "\<forall>i \<in> set is. i < m" "s < m" for P "is" s and m :: nat
    using that by (induction "is" arbitrary: s) auto
  then show "selected_ok (llama_sampler_greedy_apply cur_p)"
    using c by (auto simp: llama_sampler_greedy_apply_def selected_ok_def cands_ok_def Let_def)
qed (use c in \<open>simp add: llama_sampler_greedy_apply_def Let_def\<close>)

lemma penalties_keeps:
  assumes "penalties_ok ctx" and c: "cands_ok n cur_p"
  shows "\<exists>cur_q. llama_sampler_penalties_apply F ctx cur_p = Inr cur_q \<and> cands_ok n cur_q"
proof -
  have "cands_ok n (cur_p\<lparr>cur_data := map (penalized F a b d ts) (cur_data cur_p)\<rparr>)" for a b d ts
    by (rule cands_ok_map[OF c]) (simp add: penalized_def)
  then show ?thesis using c by (simp add: penalties_apply[OF assms(1)])
qed

definition dry_ok :: "('f::linorder, 'd) floats \<Rightarrow> 'f llama_sampler_dry \<Rightarrow> bool" where
  "dry_ok F ctx \<longleftrightarrow> ring_ok (dr_last_tokens ctx) \<and> 0 \<le> dr_allowed_length ctx
     \<and> (dry_off F (dr_multiplier ctx) (dr_base ctx) (dr_penalty_last_n ctx) \<or> 0 < rb_capacity (dr_last_tokens ctx))"

lemma dry_keeps:
  assumes d: "dry_ok F ctx" and c: "cands_ok n cur_p"
  shows "\<exists>ctx' cur_q. llama_sampler_dry_apply F ctx cur_p = Inr (ctx', cur_q) \<and> cands_ok n cur_q \<and> dry_ok F ctx'"
proof (cases "dry_off F (dr_multiplier ctx) (dr_base ctx) (dr_penalty_last_n ctx)")
  case True
  then show ?thesis using d c by (simp add: llama_sampler_dry_apply_def)
next
  case False
  have "cands_ok n (cur_p\<lparr>cur_data := map (dry_penalize F x) (cur_data cur_p)\<rparr>)" for x
    by (rule cands_ok_map[OF c]) (simp add: dry_penalize_def Let_def split: option.split)
  moreover obtain ctx' b count m where "llama_sampler_dry_apply F ctx cur_p =
      Inr (ctx', if b then cur_p else cur_p\<lparr>cur_data := map (dry_penalize F ctx') (cur_data cur_p), cur_sorted := False\<rparr>)"
    "ctx' = ctx\<lparr>dr_repeat_count := count, dr_max_token_repeat := m\<rparr>"
    using dry_apply_recent[OF False _ refl refl, of cur_p] d unfolding dry_ok_def by blast
  ultimately show ?thesis using d c by (auto simp: dry_ok_def)
qed

lemma logit_bias_keeps:
  assumes c: "cands_ok n cur_p"
  shows "cands_ok n (llama_sampler_logit_bias_apply F bs cur_p)"
proof -
  have "map tk_id (fst (fold (bias_in_place F) bs (xs, ss))) = map tk_id xs" for xs ss
  proof (induction bs arbitrary: xs ss)
    case (Cons b bs)
    have "map tk_id (xs[i := add_bias F x (xs ! i)]) = map tk_id xs" if "i < length xs" for i x
      using that by (simp add: map_update add_bias_def list_update_same_conv)
    then show ?case using Cons by (auto simp: bias_in_place_def Let_def)
  qed simp
  then have "map tk_id (fst (fold (bias_in_place F) bs (cur_data cur_p, []))) = map tk_id (cur_data cur_p)" by blast
  then have ids: "tk_id ` set (fst (fold (bias_in_place F) bs (cur_data cur_p, []))) = tk_id ` set (cur_data cur_p)"
    "length (fst (fold (bias_in_place F) bs (cur_data cur_p, []))) = length (cur_data cur_p)"
    by (metis list.set_map, metis length_map)
  let ?q = "cur_p\<lparr>cur_data := fst (fold (bias_in_place F) bs (cur_data cur_p, []))\<rparr>"
  have q: "cands_ok n ?q" using c ids by (intro cands_ok_ids[OF c]) (auto simp: cands_ok_def)
  have "tk_id (case find P to_search of None \<Rightarrow> t | Some lb \<Rightarrow> add_bias F (lb_bias lb) t) = tk_id t" for P to_search t
    by (auto simp: add_bias_def split: option.split)
  from cands_ok_map[OF q this] show ?thesis by (simp add: llama_sampler_logit_bias_apply_def split_beta)
qed

section \<open>Chains\<close>

text \<open>
  Which samplers leave the candidates marked as sorted, given whether they found them so: softmax, top-k
  and the samplers that draw sort them, a typical sampling that does anything and the two penalties
  may lose the order.
\<close>

fun sorts :: "('f::linorder, 'd) floats \<Rightarrow> bool \<Rightarrow> ('f, 'g) llama_sampler \<Rightarrow> bool"
  and chain_sorts :: "('f, 'd) floats \<Rightarrow> bool \<Rightarrow> ('f, 'g) llama_sampler list \<Rightarrow> bool" where
  "sorts F b (Smpl_chain ss k) = chain_sorts F b ss"
| "sorts F b Smpl_softmax = True"
| "sorts F b (Smpl_top_k k) = True"
| "sorts F b (Smpl_dist c) = True"
| "sorts F b (Smpl_mirostat c) = True"
| "sorts F b (Smpl_mirostat_v2 c) = True"
| "sorts F b (Smpl_top_p p m) = (b \<or> \<not> fl_one F \<le> p)"
| "sorts F b (Smpl_typical p m) = (b \<and> fl_one F \<le> p)"
| "sorts F b (Smpl_penalties c) = False"
| "sorts F b (Smpl_dry c) = False"
| "sorts F b (Smpl_grammar c) = False"
| "sorts F b (Smpl_infill c) = False"
| "sorts F b s = b"
| "chain_sorts F b [] = b"
| "chain_sorts F b (s # ss) = chain_sorts F (sorts F b s) ss"

text \<open>
  The samplers that cannot fail: a min-p that is off, keeps at least one candidate by min_keep or comes
  where the candidates are sorted, penalties and DRY in a state their operations lead to, no grammar
  and no infill.  A selecting sampler comes last.
\<close>

fun plain :: "('f::linorder, 'd) floats \<Rightarrow> bool \<Rightarrow> ('f, 'g) llama_sampler \<Rightarrow> bool"
  and all_plain :: "('f, 'd) floats \<Rightarrow> bool \<Rightarrow> ('f, 'g) llama_sampler list \<Rightarrow> bool" where
  "plain F b (Smpl_chain ss k) = all_plain F b ss"
| "plain F b (Smpl_min_p p m) = (p \<le> fl_zero F \<or> 0 < m \<or> b)"
| "plain F b (Smpl_penalties c) = penalties_ok c"
| "plain F b (Smpl_dry c) = dry_ok F c"
| "plain F b (Smpl_grammar c) = False"
| "plain F b (Smpl_infill c) = False"
| "plain F b s = True"
| "all_plain F b [] = True"
| "all_plain F b (s # ss) = (plain F b s \<and> all_plain F (sorts F b s) ss)"

fun selects :: "('f, 'g) llama_sampler \<Rightarrow> bool"
  and chain_selects :: "('f, 'g) llama_sampler list \<Rightarrow> bool" where
  "selects (Smpl_chain ss k) = chain_selects ss"
| "selects Smpl_greedy = True"
| "selects (Smpl_dist c) = True"
| "selects (Smpl_mirostat c) = True"
| "selects (Smpl_mirostat_v2 c) = True"
| "selects s = False"
| "chain_selects [] = False"
| "chain_selects (s # ss) = (if ss = [] then selects s else chain_selects ss)"

lemma top_k_sorted: "cur_sorted (llama_sampler_top_k_impl F L cur_p k)"
  by (simp add: llama_sampler_top_k_impl_def Let_def)

lemma greedy_sorted: "cur_sorted (llama_sampler_greedy_apply cur_p) = cur_sorted cur_p"
  by (simp add: llama_sampler_greedy_apply_def Let_def)

lemma bias_sorted: "cur_sorted (llama_sampler_logit_bias_apply F bs cur_p) = cur_sorted cur_p"
  by (simp add: llama_sampler_logit_bias_apply_def split_beta)

lemma plain_apply:
  shows "library_ok L \<Longrightarrow> buckets_mono F \<Longrightarrow> plain F b s \<Longrightarrow> cands_ok n cur_p \<Longrightarrow> b \<longrightarrow> cur_sorted cur_p \<Longrightarrow>
      \<exists>s' cur_q. llama_sampler_apply F L fuel s cur_p = Inr (s', cur_q)
      \<and> plain F b s' \<and> sorts F b s' = sorts F b s \<and> selects s' = selects s \<and> cands_ok n cur_q
      \<and> (selects s \<longrightarrow> selected_ok cur_q) \<and> (sorts F b s \<longrightarrow> cur_sorted cur_q)"
    and "library_ok L \<Longrightarrow> buckets_mono F \<Longrightarrow> all_plain F b ss \<Longrightarrow> cands_ok n cur_p \<Longrightarrow> b \<longrightarrow> cur_sorted cur_p \<Longrightarrow>
      \<exists>ss' cur_q. llama_sampler_chain_apply F L fuel ss cur_p = Inr (ss', cur_q)
      \<and> all_plain F b ss' \<and> chain_sorts F b ss' = chain_sorts F b ss \<and> chain_selects ss' = chain_selects ss
      \<and> length ss' = length ss \<and> cands_ok n cur_q
      \<and> (chain_selects ss \<longrightarrow> selected_ok cur_q) \<and> (chain_sorts F b ss \<longrightarrow> cur_sorted cur_q)"
proof (induction F L fuel s cur_p and F L fuel ss cur_p arbitrary: b and b
    rule: llama_sampler_apply_llama_sampler_chain_apply.induct)
  case (1 F L fuel ss k cur_p)
  from 1(1)[OF 1(2,3) _ 1(5,6)] 1(4) show ?case by fastforce
next
  case (3 F L fuel c cur_p)
  then show ?case using dist_keeps[of L n cur_p F c] by (auto dest: dist_sorted)
next
  case (4 F L fuel cur_p)
  then show ?case using softmax_keeps[of L n cur_p F] by auto
next
  case (5 F L fuel k cur_p)
  then show ?case using top_k_keeps[of L F n cur_p k] by (simp add: top_k_sorted)
next
  case (6 F L fuel p m cur_p)
  then show ?case using top_p_keeps[of L n cur_p F p m] top_p_sorted[of F L p m cur_p] by auto
next
  case (7 F L fuel p m cur_p)
  then show ?case using min_p_keeps[of L n cur_p p F m] by auto
next
  case (8 F L fuel p m cur_p)
  then show ?case using typical_keeps[of L n cur_p F p m] by (auto simp: typical_same)
next
  case (9 F L fuel t cur_p)
  then show ?case using temp_keeps[of n cur_p F t] by (auto dest: temp_sorted)
next
  case (10 F L fuel t d x cur_p)
  then show ?case using temp_ext_keeps[of L n cur_p F t d x] temp_ext_sorted[of F L t d x cur_p] by auto
next
  case (11 F L fuel c cur_p)
  then show ?case using xtc_keeps[of L n cur_p F c] xtc_sorted[of F L c cur_p] by auto
next
  case (12 F L fuel c cur_p)
  then show ?case using mirostat_keeps[of L F n cur_p c] by (auto dest: mirostat_sorted)
next
  case (13 F L fuel c cur_p)
  then show ?case using mirostat_v2_keeps[of L n cur_p F c] by (auto dest: mirostat_v2_sorted)
next
  case (15 F L fuel c cur_p)
  then show ?case using penalties_keeps[of c n cur_p F] by auto
next
  case (16 F L fuel c cur_p)
  then show ?case using dry_keeps[of F c n cur_p] by auto
next
  case (20 F L fuel s ss cur_p)
  have "plain F b s" "all_plain F (sorts F b s) ss" using 20(5) by simp_all
  from 20(1)[OF 20(3,4) this(1) 20(6,7)] obtain s' cur_q where s: "llama_sampler_apply F L fuel s cur_p = Inr (s', cur_q)"
    "plain F b s'" "sorts F b s' = sorts F b s" "selects s' = selects s" "cands_ok n cur_q" "selects s \<longrightarrow> selected_ok cur_q"
    "sorts F b s \<longrightarrow> cur_sorted cur_q" by blast
  from 20(2)[OF s(1) refl 20(3,4) \<open>all_plain F (sorts F b s) ss\<close> s(5,7)] obtain ss' cur_r where
    ss: "llama_sampler_chain_apply F L fuel ss cur_q = Inr (ss', cur_r)" "all_plain F (sorts F b s) ss'"
      "chain_sorts F (sorts F b s) ss' = chain_sorts F (sorts F b s) ss"
      "chain_selects ss' = chain_selects ss" "length ss' = length ss" "cands_ok n cur_r" "chain_selects ss \<longrightarrow> selected_ok cur_r"
      "chain_sorts F (sorts F b s) ss \<longrightarrow> cur_sorted cur_r"
    by blast
  show ?case
  proof (cases "ss = []")
    case True
    then show ?thesis using s ss by auto
  next
    case False
    then have "ss' \<noteq> []" using ss(5) by auto
    then show ?thesis using s ss False by auto
  qed
qed (simp_all add: greedy_keeps logit_bias_keeps greedy_sorted bias_sorted)

lemma capacity_make: "rb_capacity (make_ring_buffer d n) = n"
  by (simp add: make_ring_buffer_def)

text \<open>The state DRY starts in.\<close>

lemma dry_ok_init:
  assumes "make_llama_sampler_dry F context_size multiplier base allowed_length penalty_last_n breakers = Inr c"
    and "-1 \<le> penalty_last_n" "0 < context_size" "0 \<le> allowed_length"
  shows "dry_ok F c"
proof (cases "dry_off F multiplier base penalty_last_n")
  case False
  then have "penalty_last_n \<noteq> 0" by (simp add: dry_off_def)
  then show ?thesis
    using assms False
    by (auto simp: make_llama_sampler_dry_def Let_def dry_ok_def ring_ok_make capacity_make split: if_splits)
next
  case True
  then show ?thesis
    using assms by (auto simp: make_llama_sampler_dry_def Let_def dry_ok_def ring_ok_make split: if_splits)
qed

lemma penalties_accept_ok:
  assumes "penalties_ok c"
  shows "\<exists>c'. llama_sampler_penalties_accept tok c = Inr c' \<and> penalties_ok c'"
proof -
  have "ring_to_vector (pe_prev c) = last_n (nat (pe_last_n c)) (ring_to_vector (pe_prev c))"
    using assms ring.bounded[of "pe_prev c"] by (simp add: penalties_ok_def last_n_all)
  from penalties_accept[OF assms this, of tok] obtain r where "llama_sampler_penalties_accept tok c
      = Inr (c\<lparr>pe_prev := r, pe_token_count := token_counts (ring_to_vector r)\<rparr>)" "ring_ok r"
      "rb_capacity r = nat (pe_last_n c)" by blast
  then show ?thesis using assms by (simp add: penalties_ok_def)
qed

lemma dry_accept_ok:
  assumes "dry_ok F c"
  shows "\<exists>c'. llama_sampler_dry_accept F tok c = Inr c' \<and> dry_ok F c'"
proof (cases "dry_off F (dr_multiplier c) (dr_base c) (dr_penalty_last_n c)")
  case False
  then obtain r where "ring_push_back tok (dr_last_tokens c) = Inr r" "ring_ok r" "rb_capacity r = rb_capacity (dr_last_tokens c)"
    using assms ring.push_ok[of "dr_last_tokens c" tok] by (auto simp: dry_ok_def)
  then show ?thesis using False assms by (simp add: llama_sampler_dry_accept_def dry_ok_def)
qed (use assms in \<open>simp add: llama_sampler_dry_accept_def\<close>)

lemma plain_accept:
  fixes s :: "('f::linorder, 'g) llama_sampler" and ss :: "('f, 'g) llama_sampler list"
  shows "plain F b s \<Longrightarrow> \<exists>s'. llama_sampler_accept F fuel tok s = Inr s' \<and> plain F b s'
      \<and> sorts F b s' = sorts F b s \<and> selects s' = selects s"
    and "all_plain F b ss \<Longrightarrow> \<exists>ss'. llama_sampler_chain_accept F fuel tok ss = Inr ss' \<and> all_plain F b ss'
      \<and> chain_sorts F b ss' = chain_sorts F b ss \<and> chain_selects ss' = chain_selects ss \<and> length ss' = length ss"
proof (induction F fuel tok s and F fuel tok ss arbitrary: b and b rule: llama_sampler_accept_llama_sampler_chain_accept.induct)
  case (1 F fuel tok ss n)
  from 1(1)[of b] 1(2) show ?case by fastforce
next
  case (3 F fuel tok c)
  then show ?case using penalties_accept_ok[of c tok] by auto
next
  case (4 F fuel tok c)
  then show ?case using dry_accept_ok[of F c tok] by auto
next
  case (7 F fuel tok s ss)
  have "plain F b s" "all_plain F (sorts F b s) ss" using 7(3) by simp_all
  from 7(1)[OF this(1)] obtain s' where s: "llama_sampler_accept F fuel tok s = Inr s'" "plain F b s'"
    "sorts F b s' = sorts F b s" "selects s' = selects s" by blast
  from 7(2)[OF s(1) \<open>all_plain F (sorts F b s) ss\<close>] obtain ss' where ss: "llama_sampler_chain_accept F fuel tok ss = Inr ss'"
    "all_plain F (sorts F b s) ss'" "chain_sorts F (sorts F b s) ss' = chain_sorts F (sorts F b s) ss"
    "chain_selects ss' = chain_selects ss" "length ss' = length ss" by blast
  then have "ss' = [] \<longleftrightarrow> ss = []" by auto
  then show ?case using s ss by auto
qed simp_all

section \<open>Sampling\<close>

lemma sample_candidates_ok: "0 < n \<Longrightarrow> cands_ok n (sample_candidates F row n)"
  by (auto simp: cands_ok_def sample_candidates_def)

lemma sample_row_plain:
  assumes L: "library_ok L" and F: "buckets_mono F" and n: "0 < n" and s: "plain F False s" "selects s"
  shows "\<exists>tok s'. sample_row F L fuel s row n = Inr (tok, s') \<and> 0 \<le> tok \<and> tok < int n \<and> plain F False s' \<and> selects s'"
proof -
  obtain s1 cur_q where a: "llama_sampler_apply F L fuel s (sample_candidates F row n) = Inr (s1, cur_q)"
    "plain F False s1" "selects s1" "cands_ok n cur_q" "selected_ok cur_q"
    using plain_apply(1)[OF L F s(1) sample_candidates_ok[OF n]] s(2) by blast
  let ?tok = "tk_id (cur_data cur_q ! nat (cur_selected cur_q))"
  have tok: "0 \<le> ?tok" "?tok < int n" using a(4,5) by (auto simp: cands_ok_def selected_ok_def)
  obtain s2 where "llama_sampler_accept F fuel ?tok s1 = Inr s2" "plain F False s2" "selects s2"
    using plain_accept(1)[OF a(2), of fuel ?tok] a(3) by blast
  then show ?thesis using a tok by (simp add: sample_row_def selected_ok_def)
qed

text \<open>A whole generation: one row of logits after the other.\<close>

definition sample_rows ::
    "('f::linorder, 'd) floats \<Rightarrow> ('f, 'g, 'e) library \<Rightarrow> nat \<Rightarrow> nat \<Rightarrow> (nat \<Rightarrow> 'f) list \<Rightarrow> ('f, 'g) llama_sampler
      \<Rightarrow> (llama_token list \<times> ('f, 'g) llama_sampler) res" where
  "sample_rows F L fuel n rows s =
     rfold (\<lambda>row (toks, s). rbind (sample_row F L fuel s row n) (\<lambda>(tok, s). Inr (toks @ [tok], s))) rows ([], s)"

lemma sample_rows_plain:
  assumes L: "library_ok L" and F: "buckets_mono F" and n: "0 < n" and s: "plain F False s" "selects s"
  shows "\<exists>toks s'. sample_rows F L fuel n rows s = Inr (toks, s') \<and> length toks = length rows
    \<and> list_all (\<lambda>tok. 0 \<le> tok \<and> tok < int n) toks \<and> plain F False s' \<and> selects s'"
proof -
  have "\<exists>toks' s'. rfold (\<lambda>row (toks, s). rbind (sample_row F L fuel s row n) (\<lambda>(tok, s). Inr (toks @ [tok], s))) rows (toks, s)
      = Inr (toks @ toks', s') \<and> length toks' = length rows \<and> list_all (\<lambda>tok. 0 \<le> tok \<and> tok < int n) toks'
      \<and> plain F False s' \<and> selects s'" for toks
    using s
  proof (induction rows arbitrary: toks s)
    case (Cons row rows)
    obtain tok s1 where s1: "sample_row F L fuel s row n = Inr (tok, s1)" "0 \<le> tok" "tok < int n" "plain F False s1" "selects s1"
      using sample_row_plain[OF L F n Cons.prems] by blast
    from Cons.IH[OF s1(4,5), of "toks @ [tok]"] obtain toks' s' where
      "rfold (\<lambda>row (toks, s). rbind (sample_row F L fuel s row n) (\<lambda>(tok, s). Inr (toks @ [tok], s))) rows (toks @ [tok], s1)
        = Inr ((toks @ [tok]) @ toks', s')" "length toks' = length rows" "list_all (\<lambda>tok. 0 \<le> tok \<and> tok < int n) toks'"
      "plain F False s'" "selects s'" by blast
    then show ?case using s1 by (intro exI[of _ "tok # toks'"] exI[of _ s']) simp
  qed auto
  from this[of "[]"] show ?thesis by (auto simp: sample_rows_def)
qed

end
