(* ===== verification/SampleClaims.thy ===== *)
theory SampleClaims
  imports SampleChainProps GrammarTheorems
begin

text \<open>
  The properties of sampling: what the samplers that look back and top-k compute, that a chain goes
  on sampling, and that a grammar in the chain never rejects what was sampled under it; and the
  places where the source or its documentation is at odds with that.
\<close>

section \<open>Integers for floats\<close>

text \<open>An instance of the parameters to evaluate on; the drawn index is always the last one.\<close>

definition int_floats :: "(int, int) floats" where
  "int_floats =
     \<lparr>fl_add = (+), fl_sub = (-), fl_mul = (*), fl_div = (\<lambda>a b. a div b), fl_neg = uminus, fl_abs = abs,
      fl_exp = (\<lambda>a. max 0 (a + 8)), fl_log = (\<lambda>a. a - 8), fl_log2 = (\<lambda>a. a - 8), fl_pow = (\<lambda>a b. a ^ nat b),
      fl_dec = (\<lambda>m e. m div 10 ^ e), fl_of_int = (\<lambda>a. a), fl_to_int = (\<lambda>a. a), fl_neg_inf = -1000, fl_neg_max = -999,
      fl_double = (\<lambda>a. a), fl_float = (\<lambda>a. a), db_add = (+), db_sub = (-), db_mul = (*), db_div = (\<lambda>a b. a div b),
      db_exp = (\<lambda>a. max 0 (a + 8)), db_pow = (\<lambda>a b. a ^ nat b), db_of_int = (\<lambda>a. a)\<rparr>"

definition int_library :: "(int, nat, nat) library" where
  "int_library =
     \<lparr>lb_sort = sort_key (\<lambda>t. - tk_logit t), lb_partial_sort = (\<lambda>k. sort_key (\<lambda>t. - tk_logit t)),
      lb_sort_indices = (\<lambda>ss. sort_key ((!) ss) [0..<length ss]), lb_discrete = (\<lambda>ps g. (length ps - 1, Suc g)),
      lb_uniform = (\<lambda>g. (0, Suc g)), lb_seed = unat, lb_random = (\<lambda>e. (of_nat e, Suc e))\<rparr>"

lemma sorted_desc_sort: "sorted_desc (sort_key (\<lambda>t. - tk_logit t) (xs :: int llama_token_data list))"
proof -
  have "sorted (map (\<lambda>t. - tk_logit t) (sort_key (\<lambda>t. - tk_logit t) xs))" by simp
  then show ?thesis by (simp add: sorted_desc_def sorted_map)
qed

lemma int_library_ok: "library_ok int_library"
proof -
  have "sorted_desc (take k (sort_key (\<lambda>t. - tk_logit t) xs)) \<and> dominates (take k (sort_key (\<lambda>t. - tk_logit t) xs))
      (drop k (sort_key (\<lambda>t. - tk_logit t) xs))" for k and xs :: "int llama_token_data list"
    using sorted_desc_append[of "take k (sort_key (\<lambda>t. - tk_logit t) xs)" "drop k (sort_key (\<lambda>t. - tk_logit t) xs)"]
      sorted_desc_sort[of xs] by simp
  moreover have "sorted_wrt (\<lambda>i j. ss ! i \<le> ss ! j) (sort_key ((!) ss) [0..<length ss])" for ss :: "int list"
    using sorted_sort_key[of "(!) ss" "[0..<length ss]"] by (simp add: sorted_map)
  ultimately show ?thesis by (simp add: library_ok_def int_library_def sorted_desc_sort)
qed

lemma int_buckets_mono: "buckets_mono int_floats"
  by (auto simp: buckets_mono_def bucket_of_def int_floats_def Let_def)

section \<open>Repetition penalties\<close>

text \<open>
  C8. The penalties follow their window.  For a penalty_last_n that is not negative, after any tokens ts
  accepted from the start the penalties sampler has returned from each, its buffer holds the last
  penalty_last_n of them, its map counts exactly these, and applying it penalises exactly the
  candidates among them, each by its count: the assertion on the count never fails.  It changes
  nothing when the window is 0 or all three penalties are neutral.
\<close>

theorem penalties_follow_window:
  assumes "0 \<le> n"
  shows "\<exists>ctx. rfold llama_sampler_penalties_accept ts (llama_sampler_init_penalties n repeat freq present) = Inr ctx
    \<and> ring_to_vector (pe_prev ctx) = last_n (nat n) ts
    \<and> pe_token_count ctx = token_counts (last_n (nat n) ts)
    \<and> (\<forall>cur_p. llama_sampler_penalties_apply F ctx cur_p =
        Inr (if n = 0 \<or> (repeat = fl_one F \<and> freq = fl_zero F \<and> present = fl_zero F) then cur_p
             else cur_p\<lparr>cur_data := map (penalized F repeat freq present (last_n (nat n) ts)) (cur_data cur_p),
                        cur_sorted := False\<rparr>))"
proof -
  let ?c = "llama_sampler_init_penalties n repeat freq present"
  have c: "pe_last_n ?c = max n 0" "pe_repeat ?c = repeat" "pe_freq ?c = freq" "pe_present ?c = present"
    "ring_to_vector (pe_prev ?c) = []" by (simp_all add: llama_sampler_init_penalties_def Let_def)
  obtain r where r: "rfold llama_sampler_penalties_accept ts ?c
      = Inr (?c\<lparr>pe_prev := r, pe_token_count := token_counts (ring_to_vector r)\<rparr>)"
    "ring_ok r" "rb_capacity r = nat (pe_last_n ?c)" "ring_to_vector r = last_n (nat (pe_last_n ?c)) ([] @ ts)"
    using penalties_accept_all[OF penalties_ok_init, of n repeat freq present "[]" ts] c(5) by (auto simp: last_n_def)
  then obtain d where d: "rfold llama_sampler_penalties_accept ts ?c = Inr d" "pe_last_n d = max n 0" "pe_repeat d = repeat"
    "pe_freq d = freq" "pe_present d = present" "penalties_ok d" "ring_to_vector (pe_prev d) = last_n (nat n) ts"
    "pe_token_count d = token_counts (last_n (nat n) ts)"
    using c by (auto simp: penalties_ok_def max_def split: if_splits)
  have "(max n 0 = 0) = (n = 0)" using assms by auto
  then show ?thesis using d by (intro exI[of _ d]) (simp add: penalties_apply[OF d(6)])
qed

theorem penalties_follow_window_witness:
  "\<exists>ctx. rfold llama_sampler_penalties_accept [5, 1, 2, 1] (llama_sampler_init_penalties 3 2 1 (1 :: int)) = Inr ctx
    \<and> ring_to_vector (pe_prev ctx) = [1, 2, 1]
    \<and> llama_sampler_penalties_apply int_floats ctx (sample_candidates int_floats (\<lambda>i. [3, 9, 4] ! i) 3)
      = Inr ((sample_candidates int_floats (\<lambda>i. [3, 9, 4] ! i) 3)\<lparr>cur_data :=
          [\<lparr>tk_id = 0, tk_logit = 3, tk_p = 0\<rparr>, \<lparr>tk_id = 1, tk_logit = 1, tk_p = 0\<rparr>, \<lparr>tk_id = 2, tk_logit = 0, tk_p = 0\<rparr>],
        cur_sorted := False\<rparr>)"
proof -
  have last: "last_n (nat 3) [5, 1, 2, 1] = [1, 2, 1 :: int]" by (simp add: last_n_def)
  have data: "map (penalized int_floats 2 1 1 [1, 2, 1]) (cur_data (sample_candidates int_floats (\<lambda>i. [3, 9, 4] ! i) 3)) =
      [\<lparr>tk_id = 0, tk_logit = 3, tk_p = 0\<rparr>, \<lparr>tk_id = 1, tk_logit = 1, tk_p = 0\<rparr>, \<lparr>tk_id = 2, tk_logit = 0, tk_p = 0\<rparr>]"
    by code_simp
  have on: "\<not> (2 = fl_one int_floats \<and> 1 = fl_zero int_floats \<and> 1 = fl_zero int_floats)"
    by (simp add: int_floats_def)
  show ?thesis
    using penalties_follow_window[of 3 "[5, 1, 2, 1]" 2 1 "1 :: int" int_floats] data on by (auto simp only: last if_False) auto
qed

section \<open>DRY\<close>

lemma dry_accept_all:
  "\<not> dry_off F (dr_multiplier s) (dr_base s) (dr_penalty_last_n s) \<Longrightarrow> rfold ring_push_back ts (dr_last_tokens s) = Inr r \<Longrightarrow>
     rfold (llama_sampler_dry_accept F) ts s = Inr (s\<lparr>dr_last_tokens := r\<rparr>)"
proof (induction ts arbitrary: s)
  case (Cons t ts)
  then obtain q where q: "ring_push_back t (dr_last_tokens s) = Inr q" "rfold ring_push_back ts q = Inr r"
    by (auto simp: rbind_Inr_iff)
  then show ?case using Cons.IH[of "s\<lparr>dr_last_tokens := q\<rparr>"] Cons.prems(1) by (simp add: llama_sampler_dry_accept_def)
qed simp

lemma rev_last_n: "rev (last_n n xs) = take n (rev xs)"
  by (cases "n \<le> length xs") (simp_all add: last_n_def rev_drop)

text \<open>
  C5. DRY finds repetitions as its comments describe them.  With u the most recent tokens, newest
  first, as far as the penalty window and the context reach, applying it changes nothing when
  u is no longer than the allowed length or cut below it by a sequence breaker; otherwise its
  table maps every token to the length of the longest end of the context that an earlier
  occurrence of the token followed, cut at the breaker, if that is at least the allowed length,
  and the logits are penalised by that table.
\<close>

theorem dry_finds_repeats:
  assumes "make_llama_sampler_dry F context_size multiplier base allowed_length penalty_last_n breakers = Inr s0"
    and "\<not> dry_off F multiplier base penalty_last_n" "0 \<le> allowed_length"
    and "e = (if penalty_last_n = -1 then context_size else penalty_last_n)" "0 < e"
    and "u = take (nat (min e context_size)) (rev ts)"
  shows "\<exists>s s'. rfold (llama_sampler_dry_accept F) ts s0 = Inr s
    \<and> llama_sampler_dry_apply F s cur_p =
        Inr (s', if dry_quiet u breakers allowed_length then cur_p
                 else cur_p\<lparr>cur_data := map (dry_penalize F s') (cur_data cur_p), cur_sorted := False\<rparr>)
    \<and> (\<not> dry_quiet u breakers allowed_length \<longrightarrow>
         dr_max_token_repeat s' = longest_repeat u (cut_limit u breakers) allowed_length)"
proof -
  have s0: "s0 = \<lparr>dr_total_context_size = context_size, dr_multiplier = multiplier, dr_base = base,
      dr_allowed_length = allowed_length, dr_penalty_last_n = penalty_last_n, dr_breakers = breakers,
      dr_repeat_count = replicate (nat e) 0, dr_max_token_repeat = Map.empty, dr_last_tokens = make_ring_buffer 0 (nat e)\<rparr>"
    using assms(1,2,4,5) by (auto simp: make_llama_sampler_dry_def Let_def split: if_splits)
  let ?r = "make_ring_buffer (0 :: int) (nat e)"
  have make: "rb_capacity ?r = nat e" "ring_to_vector ?r = []" by (simp_all add: make_ring_buffer_def ring_to_vector_def)
  have cap: "0 < rb_capacity ?r" using assms(5) make(1) by simp
  obtain r where r: "rfold ring_push_back ts ?r = Inr r" "ring_ok r" "ring_to_vector r = last_n (nat e) ts"
    using ring.push_all[OF ring_ok_make cap, of "[]" ts] make by (auto simp: last_n_def)
  let ?s = "s0\<lparr>dr_last_tokens := r\<rparr>"
  have run: "rfold (llama_sampler_dry_accept F) ts s0 = Inr ?s"
    using dry_accept_all[of F s0 ts r] assms(2) r(1) s0 by simp
  have sz: "rb_sz r = min (nat e) (length ts)" using r(3) length_ring_to_vector[of r] by simp
  have u: "u = take (nat (min (min (int (rb_sz r)) e) context_size)) (rev (ring_to_vector r))"
    unfolding assms(6) r(3) rev_last_n sz using assms(5) by (auto simp: min_def)
  obtain s' where s': "llama_sampler_dry_apply F ?s cur_p = Inr (s', if dry_quiet u breakers allowed_length then cur_p
        else cur_p\<lparr>cur_data := map (dry_penalize F s') (cur_data cur_p), cur_sorted := False\<rparr>)"
    "\<not> dry_quiet u breakers allowed_length \<longrightarrow>
       dr_max_token_repeat s' = longest_repeat u (cut_limit u breakers) allowed_length"
  proof -
    have e: "e = (if dr_penalty_last_n ?s = -1 then dr_total_context_size ?s else max (dr_penalty_last_n ?s) 0)"
      using assms(4,5) s0 by (auto split: if_splits)
    have f: "dr_multiplier ?s = multiplier" "dr_base ?s = base" "dr_penalty_last_n ?s = penalty_last_n"
      "dr_allowed_length ?s = allowed_length" "dr_last_tokens ?s = r" "dr_breakers ?s = breakers"
      "dr_total_context_size ?s = context_size" using s0 by simp_all
    from dry_apply_recent[of F ?s e u cur_p, unfolded f] obtain c count m where
      "llama_sampler_dry_apply F ?s cur_p = Inr (c, if dry_quiet u breakers allowed_length then cur_p
        else cur_p\<lparr>cur_data := map (dry_penalize F c) (cur_data cur_p), cur_sorted := False\<rparr>)"
      "c = ?s\<lparr>dr_repeat_count := count, dr_max_token_repeat := m\<rparr>"
      "\<not> dry_quiet u breakers allowed_length \<longrightarrow> m = longest_repeat u (cut_limit u breakers) allowed_length"
      using e[unfolded f] u assms(2,3) r(2) by blast
    then show ?thesis using that[of c] by simp
  qed
  then show ?thesis using run by blast
qed

theorem dry_finds_repeats_witness:
  "\<exists>s s'. rfold (llama_sampler_dry_accept int_floats) [1, 2, 3, 1, 2]
        \<lparr>dr_total_context_size = 8, dr_multiplier = 1, dr_base = 2, dr_allowed_length = 1, dr_penalty_last_n = -1,
         dr_breakers = [], dr_repeat_count = replicate 8 0, dr_max_token_repeat = Map.empty,
         dr_last_tokens = make_ring_buffer 0 8\<rparr> = Inr s
    \<and> llama_sampler_dry_apply int_floats s (sample_candidates int_floats (\<lambda>i. 0) 4)
        = Inr (s', (sample_candidates int_floats (\<lambda>i. 0) 4)
            \<lparr>cur_data := map (dry_penalize int_floats s') (cur_data (sample_candidates int_floats (\<lambda>i. 0) 4)), cur_sorted := False\<rparr>)
    \<and> dr_max_token_repeat s' = [3 \<mapsto> 2]"
proof -
  have "\<not> dry_quiet [2, 1, 3, 2, 1] [] 1" by code_simp
  moreover have "longest_repeat [2, 1, 3, 2, 1] (cut_limit [2, 1, 3, 2, 1] []) 1 = [3 \<mapsto> 2]"
  proof
    fix t :: int
    have cut: "cut_limit [2, 1, 3, 2, 1] [] = 5" "[1..<length [2, 1, 3, 2, 1 :: int]] = [1, 2, 3, 4]" by code_simp+
    have "again [2, 1, 3, 2, 1 :: int] 1 = 0" "again [2, 1, 3, 2, 1 :: int] 2 = 0"
      "again [2, 1, 3, 2, 1 :: int] 3 = 2" "again [2, 1, 3, 2, 1 :: int] 4 = 0" by code_simp+
    then show "longest_repeat [2, 1, 3, 2, 1] (cut_limit [2, 1, 3, 2, 1] []) 1 t = [3 \<mapsto> 2] t"
      unfolding longest_repeat_def repeats_def cut by simp
  qed
  ultimately show ?thesis
    using dry_finds_repeats[of int_floats 8 1 2 1 "-1" "[]" _ 8 "[2, 1, 3, 2, 1]" "[1, 2, 3, 1, 2]"
        "sample_candidates int_floats (\<lambda>i. 0) 4"]
    by (simp add: make_llama_sampler_dry_def dry_off_def int_floats_def Let_def)
qed

section \<open>Top-k\<close>

text \<open>
  C9. Top-k keeps k candidates of highest logit in descending order, or all of them sorted when k is
  not positive or larger, also through the bucket sort it uses for more than 128: the buckets
  of equal logits need not be told apart, no candidate is lost or doubled, and the array is
  marked as sorted.  The array is one whose flag tells the truth: if it is marked as sorted it is in
  descending order (a logit bias on a sorted array breaks this, see bias_leaves_sorted).  The numbers
  are ordered without a NaN, a larger logit never falls into a lower bucket, and the library's sorts
  do what the standard documents.
\<close>

theorem top_k_selects_best:
  assumes "library_ok L" "buckets_mono F" "cur_sorted cur_p \<longrightarrow> sorted_desc (cur_data cur_p)"
  shows "best_k (if k \<le> 0 then length (cur_data cur_p) else min (nat k) (length (cur_data cur_p))) (cur_data cur_p)
      (cur_data (llama_sampler_top_k_impl F L cur_p k))
    \<and> cur_sorted (llama_sampler_top_k_impl F L cur_p k)"
  using top_k_best[OF assms] by blast

text \<open>The witness has 200 candidates for 150 places, so that the buckets are used.\<close>

theorem top_k_selects_best_witness:
  "best_k 150 (cur_data (sample_candidates int_floats (\<lambda>i. int (i * 7 mod 23)) 200))
      (cur_data (llama_sampler_top_k_impl int_floats int_library
        (sample_candidates int_floats (\<lambda>i. int (i * 7 mod 23)) 200) 150))
   \<and> cur_data (llama_sampler_top_k_impl int_floats int_library
        (sample_candidates int_floats (\<lambda>i. int (i * 7 mod 23)) 200) 150)
     = bucket_sort int_floats int_library 150 (cur_data (sample_candidates int_floats (\<lambda>i. int (i * 7 mod 23)) 200))"
proof
  show "best_k 150 (cur_data (sample_candidates int_floats (\<lambda>i. int (i * 7 mod 23)) 200))
      (cur_data (llama_sampler_top_k_impl int_floats int_library
        (sample_candidates int_floats (\<lambda>i. int (i * 7 mod 23)) 200) 150))"
    using top_k_selects_best[OF int_library_ok int_buckets_mono,
        of "sample_candidates int_floats (\<lambda>i. int (i * 7 mod 23)) 200" 150]
    by (simp add: sample_candidates_def)
qed (simp add: llama_sampler_top_k_impl_def sample_candidates_def Let_def)

section \<open>Generation\<close>

text \<open>
  C6. A chain that samples goes on for ever.  Take a chain, possibly of chains, that ends in a selecting
  sampler (greedy, dist, mirostat) and has no grammar and no infill in it.  Its penalties and DRY
  samplers are in a state their constructors give (for DRY with a window of at least -1 and an allowed
  length that is not negative) or accepting tokens leads to, and every min-p in it is off, has a
  positive min_keep, or comes where the samplers before it have sorted the candidates, as behind top-k
  or an active top-p with no active typical sampling in between: the order the default parameters
  have, where min_keep is 0.  The numbers are ordered without a NaN; sorting, drawing and rounding
  to a bucket behave as the standard library documents.  Then for any rows of logits of a vocabulary
  that is not empty llama_sampler_sample gives a token of the vocabulary for each: no assertion of a
  sampler fails, no vector is accessed out of bounds, no exception is thrown.
\<close>

theorem generation_never_fails:
  assumes "library_ok L" "buckets_mono F" "0 < n" "plain F False s" "selects s"
  shows "\<exists>toks s'. sample_rows F L fuel n rows s = Inr (toks, s') \<and> length toks = length rows
    \<and> list_all (\<lambda>tok. 0 \<le> tok \<and> tok < int n) toks"
  using sample_rows_plain[OF assms] by blast

text \<open>The default chain of \<open>common_sampler_init\<close>, with min_keep 0, and a DRY sampler that is on.\<close>

definition default_chain :: "(int, nat) llama_sampler" where
  "default_chain = Smpl_chain
     [Smpl_logit_bias 4 [], Smpl_penalties (llama_sampler_init_penalties 64 1 0 0),
      Smpl_dry (case make_llama_sampler_dry int_floats 8 1 2 2 (-1) [] of Inr c \<Rightarrow> c | Inl _ \<Rightarrow> undefined),
      Smpl_top_k 40, Smpl_typical 1 0, Smpl_top_p 0 0, Smpl_min_p 1 0,
      Smpl_xtc \<lparr>xt_probability = 0, xt_threshold = 0, xt_min_keep = 0, xt_seed = 7, xt_seed_cur = 7, xt_rng = 0\<rparr>,
      Smpl_temp_ext 1 0 1, Smpl_dist \<lparr>di_seed = 7, di_seed_cur = 7, di_rng = 0\<rparr>] 0"

theorem generation_never_fails_witness:
  "\<exists>toks s'. sample_rows int_floats int_library 0 4 [\<lambda>i. [3, 9, 4, 9] ! i, \<lambda>i. [9, 3, 4, 2] ! i, \<lambda>i. 0]
      default_chain = Inr (toks, s') \<and> length toks = 3 \<and> list_all (\<lambda>tok. 0 \<le> tok \<and> tok < 4) toks"
proof -
  have "\<exists>c. make_llama_sampler_dry int_floats 8 1 2 2 (-1) [] = Inr c"
    by (simp add: make_llama_sampler_dry_def Let_def)
  then obtain c where c: "make_llama_sampler_dry int_floats 8 1 2 2 (-1) [] = Inr c" by blast
  have "dry_ok int_floats c" by (rule dry_ok_init[OF c]) simp_all
  moreover have "fl_one int_floats = 1" "fl_zero int_floats = 0" by (simp_all add: int_floats_def)
  ultimately have "plain int_floats False default_chain" "selects default_chain"
    unfolding default_chain_def c sum.case by (simp_all add: penalties_ok_init)
  from generation_never_fails[OF int_library_ok int_buckets_mono _ this, of 4 0
      "[\<lambda>i. [3, 9, 4, 9] ! i, \<lambda>i. [9, 3, 4, 2] ! i, \<lambda>i. 0]"]
  show ?thesis by (simp add: numeral_3_eq_3)
qed

section \<open>Generation under a grammar\<close>

lemma fold_argmax:
  fixes f :: "nat \<Rightarrow> 'a::linorder"
  defines "m \<equiv> \<lambda>n. fold (\<lambda>i sel. if f i > f sel then i else sel) [1..<Suc n] 0"
  shows "m n \<le> n" "i \<le> n \<Longrightarrow> f i \<le> f (m n)"
proof (induction n arbitrary: i)
  case (Suc n)
  have m: "m (Suc n) = (if f (Suc n) > f (m n) then Suc n else m n)" by (simp add: m_def)
  { case 1 show ?case using Suc(1) m by simp }
  { case 2 show ?case
    proof (cases "i = Suc n")
      case False
      then have "f i \<le> f (m n)" using Suc(2) 2 by simp
      then show ?thesis using m by (auto intro: order.trans)
    qed (use m in auto) }
qed (simp_all add: m_def)

lemma greedy_best:
  assumes "cur_data cur_p \<noteq> []"
  shows "\<exists>j < length (cur_data cur_p). llama_sampler_greedy_apply cur_p = cur_p\<lparr>cur_selected := int j\<rparr>
    \<and> (\<forall>i < length (cur_data cur_p). tk_logit (cur_data cur_p ! i) \<le> tk_logit (cur_data cur_p ! j))"
proof -
  let ?f = "\<lambda>i. tk_logit (cur_data cur_p ! i)"
  obtain n where n: "length (cur_data cur_p) = Suc n" using assms by (metis length_greater_0_conv gr0_conv_Suc)
  let ?j = "fold (\<lambda>i sel. if ?f i > ?f sel then i else sel) [1..<Suc n] 0"
  have "?j < Suc n" using fold_argmax(1)[of ?f n] by linarith
  moreover have "\<forall>i < Suc n. ?f i \<le> ?f ?j" using fold_argmax(2)[of _ n ?f] by (simp only: less_Suc_eq_le) blast
  moreover have "llama_sampler_greedy_apply cur_p = cur_p\<lparr>cur_selected := int ?j\<rparr>"
    unfolding llama_sampler_greedy_apply_def Let_def n ..
  ultimately show ?thesis unfolding n by blast
qed

lemma grammar_apply_logits:
  assumes "gr_grammar c = Some g" "gr_vocab c = Some v" "length keep = n"
    and "llama_grammar_apply_impl fuel (Some v) g (map int [0..<n]) = Inr keep"
  shows "llama_sampler_grammar_apply F fuel c (sample_candidates F row n)
    = Inr (sample_candidates F (\<lambda>i. if keep ! i then row i else fl_neg_inf F) n)"
proof -
  let ?d = "\<lambda>i. \<lparr>tk_id = int i, tk_logit = row i, tk_p = fl_zero F\<rparr>"
  have ids: "map tk_id (cur_data (sample_candidates F row n)) = map int [0..<n]" by (simp add: sample_candidates_def)
  have keep: "keep = map (\<lambda>i. keep ! i) [0..<n]" using assms(3) map_nth[of keep] by simp
  have "zip (map ?d [0..<n]) keep = map (\<lambda>i. (?d i, keep ! i)) [0..<n]"
    by (subst keep) (simp add: zip_map_map zip_same_conv_map)
  then show ?thesis unfolding llama_sampler_grammar_apply_def ids assms(1,2,4) option.case rbind.simps
    by (simp add: sample_candidates_def if_distrib cong: if_cong)
qed

text \<open>
  C7. Sampling greedily under a grammar gives text of the grammar and does not get stuck.  Take a
  well-formed grammar without left recursion (hidden empty rules allowed) with at least one stack, and
  let keep be the verdicts of its filter on the whole vocabulary.  If some kept token has a logit above
  minus infinity, and the text of no kept token hides a code point 0, then llama_sampler_sample on the
  chain of the grammar and the greedy sampler returns with enough fuel: the token is a kept one, of the
  highest logit among the kept ones, the grammar has accepted it, so that its stacks are those the
  automaton reaches by reading the token's code points, and they are not empty: it can be sampled under
  again.
\<close>

theorem constrained_greedy:
  assumes "grammar_ok g" "\<not> left_recursive (g_rules g)" "g_stacks g \<noteq> []"
    and "gr_grammar c = Some g" "gr_vocab c = Some v"
    and "llama_grammar_apply_impl fuel0 (Some v) g (map int [0..<n]) = Inr keep"
    and "i < n" "keep ! i" "fl_neg_inf F < row i"
    and "\<And>t. t < n \<Longrightarrow> keep ! t \<Longrightarrow> 0 \<notin> set (butlast (fst (decode_utf8 (token_to_piece v (int t)) (g_utf8 g))))"
  shows "\<exists>N j g'. (\<forall>fuel \<ge> N. sample_row F L fuel (Smpl_chain [Smpl_grammar c, Smpl_greedy] k) row n
        = Inr (int j, Smpl_chain [Smpl_grammar (c\<lparr>gr_grammar := Some g'\<rparr>), Smpl_greedy] (k + 1)))
    \<and> j < n \<and> keep ! j \<and> (\<forall>i < n. keep ! i \<longrightarrow> row i \<le> row j)
    \<and> (\<not> token_is_eog v (int j) \<longrightarrow> set (g_stacks g') = reads_all (g_rules g)
          (butlast (fst (decode_utf8 (token_to_piece v (int j)) (g_utf8 g)))) (set (g_stacks g)))
    \<and> grammar_ok g' \<and> g_rules g' = g_rules g \<and> g_stacks g' \<noteq> []"
proof -
  have ex: "expands (g_rules g)" using assms(1,2) by (simp add: expands_def grammar_ok_def)
  let ?row = "\<lambda>i. if keep ! i then row i else fl_neg_inf F"
  let ?cur = "sample_candidates F ?row n"
  have kept: "keep = map (allowed v g) (map int [0..<n])" by (rule apply_spec[OF assms(1,3,6)])
  obtain N keep' where keep': "\<forall>fuel \<ge> N. llama_grammar_apply_impl fuel (Some v) g (map int [0..<n]) = Inr keep'"
    using apply_settles[OF ex assms(1,3), of v "map int [0..<n]"] unfolding settles_def by blast
  have N: "llama_sampler_grammar_apply F fuel c (sample_candidates F row n) = Inr ?cur" if "N \<le> fuel" for fuel
  proof -
    have run: "llama_grammar_apply_impl fuel (Some v) g (map int [0..<n]) = Inr keep'" using keep' that by blast
    have "keep' = keep" unfolding kept by (rule apply_spec[OF assms(1,3) run])
    moreover have "length keep = n" by (simp add: kept)
    ultimately show ?thesis using grammar_apply_logits[OF assms(4,5) _ run] by simp
  qed
  have len: "length (cur_data ?cur) = n" by (simp add: sample_candidates_def)
  have logit: "tk_logit (cur_data ?cur ! i) = ?row i" if "i < n" for i using that by (simp add: sample_candidates_def)
  have "cur_data ?cur \<noteq> []" using assms(7) len by auto
  from greedy_best[OF this, unfolded len] obtain j where j: "j < n"
    "llama_sampler_greedy_apply ?cur = ?cur\<lparr>cur_selected := int j\<rparr>"
    and top: "\<forall>i < n. tk_logit (cur_data ?cur ! i) \<le> tk_logit (cur_data ?cur ! j)" by (elim exE conjE)
  have row: "?row i \<le> ?row j" if "i < n" for i using top that logit[OF that] logit[OF j(1)] by fastforce
  have best1: "keep ! j" using row[OF assms(7)] assms(8,9) by (auto simp: not_le[symmetric] split: if_splits)
  have best2: "row l \<le> row j" if "l < n" "keep ! l" for l using row[OF that(1)] that(2) best1 by simp
  have allow: "allowed v g (int j)" using best1 j(1) by (simp add: kept)
  obtain M g' where g': "\<forall>fuel \<ge> M. llama_grammar_accept_impl fuel (Some v) g (int j) = Inr g'"
    "grammar_ok g'" "g_rules g' = g_rules g" "g_stacks g' \<noteq> []"
    using accept_allowed[OF ex assms(1) allow assms(10)[OF j(1) best1]] by blast
  have "set (g_stacks g') = reads_all (g_rules g)
      (butlast (fst (decode_utf8 (token_to_piece v (int j)) (g_utf8 g)))) (set (g_stacks g))" if "\<not> token_is_eog v (int j)"
    using accept_impl_spec[OF assms(1) that, of M g'] g'(1) by (simp add: case_prod_beta Let_def)
  moreover have "sample_row F L fuel (Smpl_chain [Smpl_grammar c, Smpl_greedy] k) row n
        = Inr (int j, Smpl_chain [Smpl_grammar (c\<lparr>gr_grammar := Some g'\<rparr>), Smpl_greedy] (k + 1))" if "max M N \<le> fuel" for fuel
  proof -
    have apply_chain: "llama_sampler_apply F L fuel (Smpl_chain [Smpl_grammar c, Smpl_greedy] k) (sample_candidates F row n)
      = Inr (Smpl_chain [Smpl_grammar c, Smpl_greedy] k, ?cur\<lparr>cur_selected := int j\<rparr>)"
      using that N[of fuel] j(2) by simp
    have accept: "llama_sampler_accept F fuel (int j) (Smpl_chain [Smpl_grammar c, Smpl_greedy] k)
      = Inr (Smpl_chain [Smpl_grammar (c\<lparr>gr_grammar := Some g'\<rparr>), Smpl_greedy] (k + 1))"
      using that g'(1) assms(4,5) by (simp add: llama_sampler_grammar_accept_impl_def)
    have sel: "cur_selected (?cur\<lparr>cur_selected := int j\<rparr>) = int j" "length (cur_data (?cur\<lparr>cur_selected := int j\<rparr>)) = n"
      "tk_id (cur_data (?cur\<lparr>cur_selected := int j\<rparr>) ! nat (int j)) = int j"
      using j(1) by (simp_all add: sample_candidates_def)
    show ?thesis unfolding sample_row_def apply_chain rbind.simps prod.case sel Let_def using j(1)
      by (simp add: accept del: llama_sampler_accept.simps llama_sampler_chain_accept.simps)
  qed
  ultimately show ?thesis using j(1) best1 best2 g'(2-) by blast
qed

text \<open>On the grammar with the hidden empty rule: the end token and \<open>bb\<close> have higher logits than \<open> b\<close>.\<close>

theorem constrained_greedy_witness:
  "\<exists>N j g'. (\<forall>fuel \<ge> N. sample_row int_floats int_library fuel (Smpl_chain [Smpl_grammar
          \<lparr>gr_vocab = Some ws_vocab, gr_str = [], gr_root = [], gr_grammar = Some ws_grammar\<rparr>, Smpl_greedy] 0)
          (\<lambda>i. [9, 5, 3, 9] ! i) 4
        = Inr (int j, Smpl_chain [Smpl_grammar \<lparr>gr_vocab = Some ws_vocab, gr_str = [], gr_root = [],
            gr_grammar = Some g'\<rparr>, Smpl_greedy] 1))
    \<and> j < 4 \<and> [False, True, True, False] ! j \<and> grammar_ok g' \<and> g_stacks g' \<noteq> []"
proof -
  let ?c = "\<lparr>gr_vocab = Some ws_vocab, gr_str = [], gr_root = [], gr_grammar = Some ws_grammar\<rparr>"
  have st: "g_stacks ws_grammar \<noteq> []" by code_simp
  have ids: "map int [0..<4] = [0, 1, 2, 3]" by (simp add: upt_rec)
  have run: "llama_grammar_apply_impl 9 (Some ws_vocab) ws_grammar (map int [0..<4]) = Inr [False, True, True, False]"
    unfolding ids by code_simp
  have nul: "0 \<notin> set (butlast (fst (decode_utf8 (token_to_piece ws_vocab (int t)) (g_utf8 ws_grammar))))"
    if "t < 4" "[False, True, True, False] ! t" for t
  proof -
    have "t = 1 \<or> t = 2" using that by (auto simp: less_Suc_eq numeral_eq_Suc)
    then show ?thesis by (elim disjE; hypsubst) code_simp+
  qed
  have row: "fl_neg_inf int_floats < [9, 5, 3, 9] ! 1" by (simp add: int_floats_def)
  show ?thesis
    using constrained_greedy[OF ws_grammar_ok ws_not_left_recursive st, of ?c ws_vocab 9 4 "[False, True, True, False]" 1
        int_floats "\<lambda>i. [9, 5, 3, 9] ! i" int_library 0] run row nul by simp blast
qed

section \<open>At odds with the intention\<close>

lemma typical_loop_wraps:
  "i + length is < 2 ^ 64 \<Longrightarrow> typical_loop F xs p 0 i cum_sum is = i + length is"
proof (induction "is" arbitrary: i cum_sum)
  case (Cons idx "is")
  then have "\<not> (0 + (2 ^ 64 - 1)) mod 2 ^ 64 \<le> i" by simp
  then show ?case using Cons.IH[of "i + 1"] Cons.prems by (simp add: Let_def)
qed simp

lemma softmax_same_logits:
  assumes L: "library_ok L" and cur: "cur_data cur_p \<noteq> []"
  shows "\<exists>cur_q. llama_sampler_softmax_impl F L cur_p = Inr cur_q
    \<and> image_mset (\<lambda>t. (tk_id t, tk_logit t)) (mset (cur_data cur_q)) = image_mset (\<lambda>t. (tk_id t, tk_logit t)) (mset (cur_data cur_p))"
proof -
  have "mset (cur_data (sort_candidates L cur_p)) = mset (cur_data cur_p)"
    using library_sort(1)[OF L] by (simp add: sort_candidates_def)
  then show ?thesis using cur
    by (simp add: llama_sampler_softmax_impl_def Let_def multiset.map_comp o_def)
qed

text \<open>
  C40. With min_keep 0, which the default parameters pass on to it, typical sampling keeps every
  candidate whatever the probability p: min_keep - 1 is computed in size_t, so that no index
  reaches it.
\<close>

theorem typical_keeps_everything:
  assumes "library_ok L" "cur_data cur_p \<noteq> []" "length (cur_data cur_p) < 2 ^ 64"
  shows "\<exists>cur_q. llama_sampler_typical_apply F L p 0 cur_p = Inr cur_q
    \<and> image_mset (\<lambda>t. (tk_id t, tk_logit t)) (mset (cur_data cur_q)) = image_mset (\<lambda>t. (tk_id t, tk_logit t)) (mset (cur_data cur_p))"
proof (cases "fl_one F \<le> p")
  case False
  obtain cur_q where q: "llama_sampler_softmax_impl F L cur_p = Inr cur_q"
    "image_mset (\<lambda>t. (tk_id t, tk_logit t)) (mset (cur_data cur_q)) = image_mset (\<lambda>t. (tk_id t, tk_logit t)) (mset (cur_data cur_p))"
    using softmax_same_logits[OF assms(1,2)] by blast
  let ?xs = "cur_data cur_q"
  have len: "length ?xs = length (cur_data cur_p)" using arg_cong[OF q(2), of size] by simp
  define js where "js = lb_sort_indices L (map (\<lambda>t. fl_abs F (fl_sub F (fl_neg F (fl_log F (tk_p t)))
    (foldl (\<lambda>e t. fl_add F e (fl_mul F (fl_neg F (tk_p t)) (fl_log F (tk_p t)))) (fl_zero F) ?xs))) ?xs)"
  have js: "mset js = mset [0..<length ?xs]" using assms(1) by (simp add: library_ok_def js_def)
  then have "length js = length ?xs" using mset_eq_length[OF js] by simp
  then have all: "typical_loop F ?xs p 0 0 (fl_zero F) js = length js" using typical_loop_wraps[of 0 js F ?xs p] assms(3) len by simp
  have "mset (map (\<lambda>idx. ?xs ! idx) js) = mset (map (\<lambda>idx. ?xs ! idx) [0..<length ?xs])" using js by simp
  then have "mset (map (\<lambda>idx. ?xs ! idx) js) = mset ?xs" by (simp add: map_nth)
  then show ?thesis using False q all by (simp add: llama_sampler_typical_apply_def Let_def js_def[symmetric])
qed (simp add: llama_sampler_typical_apply_def)

theorem typical_keeps_everything_witness:
  "\<exists>cur_q. llama_sampler_typical_apply int_floats int_library (-1) 0 (sample_candidates int_floats (\<lambda>i. [3, 9, 4] ! i) 3) = Inr cur_q
    \<and> image_mset (\<lambda>t. (tk_id t, tk_logit t)) (mset (cur_data cur_q)) = {#(0, 3), (1, 9), (2, 4)#}"
proof -
  have "image_mset (\<lambda>t. (tk_id t, tk_logit t)) (mset (cur_data (sample_candidates int_floats (\<lambda>i. [3, 9, 4] ! i) 3)))
      = {#(0, 3), (1, 9), (2, 4)#}" by (simp add: sample_candidates_def numeral_3_eq_3)
  then show ?thesis
    using typical_keeps_everything[OF int_library_ok, of "sample_candidates int_floats (\<lambda>i. [3, 9, 4] ! i) 3" int_floats "-1"]
    by (simp add: sample_candidates_def)
qed

text \<open>A min-keep of 1 does truncate.\<close>

lemma typical_truncates:
  "rbind (llama_sampler_typical_apply int_floats int_library (-1) 1 (sample_candidates int_floats (\<lambda>i. [3, 9, 4] ! i) 3))
     (\<lambda>q. Inr (map tk_id (cur_data q))) = Inr [1]"
  by code_simp

text \<open>\<open>back()\<close> reads the slot to be written next.\<close>

lemma ring_back_not_last:
  "rbind (rfold ring_push_back [1, 2] (make_ring_buffer 0 3)) ring_back = (Inr 0 :: nat res)"
  by code_simp

text \<open>A clone has the buffer without the counts, so that the tokens that leave it are counted below 0.\<close>

lemma penalties_clone_aborts:
  "rbind (rfold llama_sampler_penalties_accept [5, 6] (llama_sampler_init_penalties 2 2 0 (0 :: int))) (\<lambda>c.
   rbind (llama_sampler_penalties_accept 7 (llama_sampler_penalties_clone c)) (\<lambda>c.
     llama_sampler_penalties_apply int_floats c (sample_candidates int_floats (\<lambda>i. 0) 8))) = Inl Assert_failed"
  by code_simp

lemma mirostat_clone_forgets:
  "mi_mu (fst (llama_sampler_mirostat_clone F L ctx e)) = fl_mul F (fl_of_int F 2) (mi_tau ctx)"
  by (simp add: llama_sampler_mirostat_clone_def llama_sampler_init_mirostat_def split_beta Let_def)

lemma dry_negative_window_throws:
  assumes "\<not> dry_off F multiplier base penalty_last_n" "penalty_last_n < -1"
  shows "rbind (make_llama_sampler_dry F context_size multiplier base allowed_length penalty_last_n [])
    (llama_sampler_dry_accept F tok) = Inl (Runtime_error ''ring buffer: capacity is zero'')"
  using assms by (simp add: make_llama_sampler_dry_def llama_sampler_dry_accept_def make_ring_buffer_def ring_push_back_def Let_def)

text \<open>The biased array still claims to be sorted, and top-k keeps the candidate now worst.\<close>

lemma bias_leaves_sorted:
  "rbind (llama_sampler_chain_apply int_floats int_library 0
      [Smpl_top_k 2, Smpl_logit_bias 3 [\<lparr>lb_token = 1, lb_bias = -50\<rparr>], Smpl_top_k 1]
      (sample_candidates int_floats (\<lambda>i. [3, 9, 4] ! i) 3)) (\<lambda>(ss, q). Inr (map tk_logit (cur_data q))) = Inr [-41]"
  by code_simp

lemma xtc_seed_hidden:
  "llama_sampler_get_seed (Smpl_xtc c) = LLAMA_DEFAULT_SEED"
  by simp

lemma negative_window_disables:
  "rfold llama_sampler_penalties_accept ts (llama_sampler_init_penalties (-1) repeat freq present)
     = Inr (llama_sampler_init_penalties (-1) repeat freq present)"
proof (induction ts)
  case (Cons t ts)
  have "llama_sampler_penalties_accept t (llama_sampler_init_penalties (-1) repeat freq present)
      = Inr (llama_sampler_init_penalties (-1) repeat freq present)"
    by (simp add: llama_sampler_penalties_accept_def llama_sampler_init_penalties_def)
  then show ?case using Cons by simp
qed simp

text \<open>The documented loop accepts every token once more than \<open>llama_sampler_sample\<close> did.\<close>

lemma documented_loop_accepts_twice:
  "rbind (sample_row int_floats int_library 0 (Smpl_chain [Smpl_penalties (llama_sampler_init_penalties 4 1 0 0), Smpl_greedy] 0)
      (\<lambda>i. [3, 9, 4] ! i) 3) (\<lambda>(tok, s). rbind (llama_sampler_accept int_floats 0 tok s) (\<lambda>s.
     Inr (case s of Smpl_chain (Smpl_penalties c # ss) n \<Rightarrow> ring_to_vector (pe_prev c) | _ \<Rightarrow> []))) = Inr [1, 1]"
  by code_simp

end
