(* ===== verification/Chat.thy ===== *)
theory Chat
  imports Prelude "HOL-Library.Sublist"
begin

text \<open>
  Chat templates, llama-chat.h and llama-chat.cpp, and \<open>llama_chat_apply_template\<close> of llama.cpp:
  which template a text stands for, and the prompt it makes of a conversation.

  Strings are lists of bytes without a 0, as C strings are.  The classification of characters is that
  of the C locale; a byte above 0x7F, where the source hands a negative number to \<open>isspace\<close>, is no space.
  A string stream is what has been written to it.
\<close>

section \<open>Strings\<close>

definition isspace :: "char \<Rightarrow> bool" where
  "isspace c \<longleftrightarrow> c = CHR 0x20 \<or> (0x09 \<le> (of_char c :: nat) \<and> (of_char c :: nat) \<le> 0x0D)"

definition toupper :: "char \<Rightarrow> char" where
  "toupper c = (if 0x61 \<le> (of_char c :: nat) \<and> (of_char c :: nat) \<le> 0x7A then char_of ((of_char c :: nat) - 0x20) else c)"

definition trim :: "string \<Rightarrow> string" where
  "trim str = rev (dropWhile isspace (rev (dropWhile isspace str)))"

text \<open>\<open>role[0] = toupper(role[0])\<close>; of an empty string this is the final 0.\<close>

definition capitalize :: "string \<Rightarrow> string" where
  "capitalize role = (case role of [] \<Rightarrow> [] | c # s \<Rightarrow> toupper c # s)"

text \<open>\<open>find(needle) != npos\<close>\<close>

fun contains :: "string \<Rightarrow> string \<Rightarrow> bool" where
  "contains [] needle = (needle = [])"
| "contains (c # s) needle = (prefix needle (c # s) \<or> contains s needle)"

abbreviation nl :: string where
  "nl \<equiv> [CHR 0x0A]"

text \<open>The literals beyond ASCII: the tag of a user in MiniCPM, and the bars of DeepSeek.\<close>

definition minicpm_user :: string where
  "minicpm_user = ''<'' @ [CHR 0xE7, CHR 0x94, CHR 0xA8, CHR 0xE6, CHR 0x88, CHR 0xB7] @ ''>''"

definition wide_bar :: string where
  "wide_bar = [CHR 0xEF, CHR 0xBD, CHR 0x9C]"

definition low_block :: string where
  "low_block = [CHR 0xE2, CHR 0x96, CHR 0x81]"

definition deepseek_user :: string where
  "deepseek_user = ''<'' @ wide_bar @ ''User'' @ wide_bar @ ''>''"

definition deepseek_assistant :: string where
  "deepseek_assistant = ''<'' @ wide_bar @ ''Assistant'' @ wide_bar @ ''>''"

definition deepseek_end :: string where
  "deepseek_end = ''<'' @ wide_bar @ ''end'' @ low_block @ ''of'' @ low_block @ ''sentence'' @ wide_bar @ ''>''"

section \<open>Templates\<close>

datatype llm_chat_template =
    LLM_CHAT_TEMPLATE_CHATML
  | LLM_CHAT_TEMPLATE_LLAMA_2
  | LLM_CHAT_TEMPLATE_LLAMA_2_SYS
  | LLM_CHAT_TEMPLATE_LLAMA_2_SYS_BOS
  | LLM_CHAT_TEMPLATE_LLAMA_2_SYS_STRIP
  | LLM_CHAT_TEMPLATE_MISTRAL_V1
  | LLM_CHAT_TEMPLATE_MISTRAL_V3
  | LLM_CHAT_TEMPLATE_MISTRAL_V3_TEKKEN
  | LLM_CHAT_TEMPLATE_MISTRAL_V7
  | LLM_CHAT_TEMPLATE_PHI_3
  | LLM_CHAT_TEMPLATE_PHI_4
  | LLM_CHAT_TEMPLATE_FALCON_3
  | LLM_CHAT_TEMPLATE_ZEPHYR
  | LLM_CHAT_TEMPLATE_MONARCH
  | LLM_CHAT_TEMPLATE_GEMMA
  | LLM_CHAT_TEMPLATE_ORION
  | LLM_CHAT_TEMPLATE_OPENCHAT
  | LLM_CHAT_TEMPLATE_VICUNA
  | LLM_CHAT_TEMPLATE_VICUNA_ORCA
  | LLM_CHAT_TEMPLATE_DEEPSEEK
  | LLM_CHAT_TEMPLATE_DEEPSEEK_2
  | LLM_CHAT_TEMPLATE_DEEPSEEK_3
  | LLM_CHAT_TEMPLATE_COMMAND_R
  | LLM_CHAT_TEMPLATE_LLAMA_3
  | LLM_CHAT_TEMPLATE_CHATGML_3
  | LLM_CHAT_TEMPLATE_CHATGML_4
  | LLM_CHAT_TEMPLATE_MINICPM
  | LLM_CHAT_TEMPLATE_EXAONE_3
  | LLM_CHAT_TEMPLATE_RWKV_WORLD
  | LLM_CHAT_TEMPLATE_GRANITE
  | LLM_CHAT_TEMPLATE_GIGACHAT
  | LLM_CHAT_TEMPLATE_MEGREZ
  | LLM_CHAT_TEMPLATE_UNKNOWN

definition LLM_CHAT_TEMPLATES :: "(string \<times> llm_chat_template) list" where
  "LLM_CHAT_TEMPLATES =
     [(''chatml'', LLM_CHAT_TEMPLATE_CHATML),
      (''llama2'', LLM_CHAT_TEMPLATE_LLAMA_2),
      (''llama2-sys'', LLM_CHAT_TEMPLATE_LLAMA_2_SYS),
      (''llama2-sys-bos'', LLM_CHAT_TEMPLATE_LLAMA_2_SYS_BOS),
      (''llama2-sys-strip'', LLM_CHAT_TEMPLATE_LLAMA_2_SYS_STRIP),
      (''mistral-v1'', LLM_CHAT_TEMPLATE_MISTRAL_V1),
      (''mistral-v3'', LLM_CHAT_TEMPLATE_MISTRAL_V3),
      (''mistral-v3-tekken'', LLM_CHAT_TEMPLATE_MISTRAL_V3_TEKKEN),
      (''mistral-v7'', LLM_CHAT_TEMPLATE_MISTRAL_V7),
      (''phi3'', LLM_CHAT_TEMPLATE_PHI_3),
      (''phi4'', LLM_CHAT_TEMPLATE_PHI_4),
      (''falcon3'', LLM_CHAT_TEMPLATE_FALCON_3),
      (''zephyr'', LLM_CHAT_TEMPLATE_ZEPHYR),
      (''monarch'', LLM_CHAT_TEMPLATE_MONARCH),
      (''gemma'', LLM_CHAT_TEMPLATE_GEMMA),
      (''orion'', LLM_CHAT_TEMPLATE_ORION),
      (''openchat'', LLM_CHAT_TEMPLATE_OPENCHAT),
      (''vicuna'', LLM_CHAT_TEMPLATE_VICUNA),
      (''vicuna-orca'', LLM_CHAT_TEMPLATE_VICUNA_ORCA),
      (''deepseek'', LLM_CHAT_TEMPLATE_DEEPSEEK),
      (''deepseek2'', LLM_CHAT_TEMPLATE_DEEPSEEK_2),
      (''deepseek3'', LLM_CHAT_TEMPLATE_DEEPSEEK_3),
      (''command-r'', LLM_CHAT_TEMPLATE_COMMAND_R),
      (''llama3'', LLM_CHAT_TEMPLATE_LLAMA_3),
      (''chatglm3'', LLM_CHAT_TEMPLATE_CHATGML_3),
      (''chatglm4'', LLM_CHAT_TEMPLATE_CHATGML_4),
      (''minicpm'', LLM_CHAT_TEMPLATE_MINICPM),
      (''exaone3'', LLM_CHAT_TEMPLATE_EXAONE_3),
      (''rwkv-world'', LLM_CHAT_TEMPLATE_RWKV_WORLD),
      (''granite'', LLM_CHAT_TEMPLATE_GRANITE),
      (''gigachat'', LLM_CHAT_TEMPLATE_GIGACHAT),
      (''megrez'', LLM_CHAT_TEMPLATE_MEGREZ)]"

definition llm_chat_template_from_str :: "string \<Rightarrow> llm_chat_template res" where
  "llm_chat_template_from_str name =
     (case map_of LLM_CHAT_TEMPLATES name of None \<Rightarrow> Inl (Out_of_range ''map::at'') | Some t \<Rightarrow> Inr t)"

definition detect_mistral :: "string \<Rightarrow> llm_chat_template" where
  "detect_mistral tmpl =
     (if contains tmpl ''[SYSTEM_PROMPT]'' then LLM_CHAT_TEMPLATE_MISTRAL_V7
      else if contains tmpl ([CHR 0x27] @ '' [INST] ' + system_message'') \<or> contains tmpl ''[AVAILABLE_TOOLS]''
      then
        (if contains tmpl '' [INST]'' then LLM_CHAT_TEMPLATE_MISTRAL_V1
         else if contains tmpl ([CHR 0x22] @ ''[INST]'' @ [CHR 0x22]) then LLM_CHAT_TEMPLATE_MISTRAL_V3_TEKKEN
         else LLM_CHAT_TEMPLATE_MISTRAL_V3)
      else
        (let support_system_message = contains tmpl ''<<SYS>>'';
             add_bos_inside_history = contains tmpl ''bos_token + '[INST]'';
             strip_message = contains tmpl ''content.strip()''
         in if strip_message then LLM_CHAT_TEMPLATE_LLAMA_2_SYS_STRIP
            else if add_bos_inside_history then LLM_CHAT_TEMPLATE_LLAMA_2_SYS_BOS
            else if support_system_message then LLM_CHAT_TEMPLATE_LLAMA_2_SYS
            else LLM_CHAT_TEMPLATE_LLAMA_2))"

definition llm_chat_detect_template :: "string \<Rightarrow> llm_chat_template" where
  "llm_chat_detect_template tmpl =
     (case llm_chat_template_from_str tmpl of
        Inr t \<Rightarrow> t
      | Inl e \<Rightarrow>
          if contains tmpl ''<|im_start|>'' then
            (if contains tmpl ''<|im_sep|>'' then LLM_CHAT_TEMPLATE_PHI_4 else LLM_CHAT_TEMPLATE_CHATML)
          else if prefix ''mistral'' tmpl \<or> contains tmpl ''[INST]'' then detect_mistral tmpl
          else if contains tmpl ''<|assistant|>'' \<and> contains tmpl ''<|end|>'' then LLM_CHAT_TEMPLATE_PHI_3
          else if contains tmpl ''<|assistant|>'' \<and> contains tmpl ''<|user|>'' then LLM_CHAT_TEMPLATE_FALCON_3
          else if contains tmpl ''<|user|>'' \<and> contains tmpl ''<|endoftext|>'' then LLM_CHAT_TEMPLATE_ZEPHYR
          else if contains tmpl ''bos_token + message['role']'' then LLM_CHAT_TEMPLATE_MONARCH
          else if contains tmpl ''<start_of_turn>'' then LLM_CHAT_TEMPLATE_GEMMA
          else if contains tmpl ([CHR 0x27, CHR 0x5C] @ ''n'' @ [CHR 0x5C] @ ''nAssistant: ' + eos_token'')
          then LLM_CHAT_TEMPLATE_ORION
          else if contains tmpl ''GPT4 Correct '' then LLM_CHAT_TEMPLATE_OPENCHAT
          else if contains tmpl ''USER: '' \<and> contains tmpl ''ASSISTANT: '' then
            (if contains tmpl ''SYSTEM: '' then LLM_CHAT_TEMPLATE_VICUNA_ORCA else LLM_CHAT_TEMPLATE_VICUNA)
          else if contains tmpl ''### Instruction:'' \<and> contains tmpl ''<|EOT|>'' then LLM_CHAT_TEMPLATE_DEEPSEEK
          else if contains tmpl ''<|START_OF_TURN_TOKEN|>'' \<and> contains tmpl ''<|USER_TOKEN|>''
          then LLM_CHAT_TEMPLATE_COMMAND_R
          else if contains tmpl ''<|start_header_id|>'' \<and> contains tmpl ''<|end_header_id|>''
          then LLM_CHAT_TEMPLATE_LLAMA_3
          else if contains tmpl ''[gMASK]sop'' then LLM_CHAT_TEMPLATE_CHATGML_3
          else if contains tmpl ''[gMASK]<sop>'' then LLM_CHAT_TEMPLATE_CHATGML_4
          else if contains tmpl minicpm_user then LLM_CHAT_TEMPLATE_MINICPM
          else if contains tmpl ([CHR 0x27] @ ''Assistant: ' + message['content'] + eos_token'') then LLM_CHAT_TEMPLATE_DEEPSEEK_2
          else if contains tmpl deepseek_assistant \<and> contains tmpl deepseek_user \<and> contains tmpl deepseek_end
          then LLM_CHAT_TEMPLATE_DEEPSEEK_3
          else if contains tmpl ''[|system|]'' \<and> contains tmpl ''[|assistant|]'' \<and> contains tmpl ''[|endofturn|]''
          then LLM_CHAT_TEMPLATE_EXAONE_3
          else if contains tmpl ''rwkv-world'' then LLM_CHAT_TEMPLATE_RWKV_WORLD
          else if contains tmpl ''<|start_of_role|>'' then LLM_CHAT_TEMPLATE_GRANITE
          else if contains tmpl (''message['role'] + additional_special_tokens[0] + message['content']''
                                 @ '' + additional_special_tokens[1]'')
          then LLM_CHAT_TEMPLATE_GIGACHAT
          else if contains tmpl ''<|role_start|>'' then LLM_CHAT_TEMPLATE_MEGREZ
          else LLM_CHAT_TEMPLATE_UNKNOWN)"

section \<open>One message\<close>

record llama_chat_message =
  ms_role :: string
  ms_content :: string

text \<open>What the bodies of the loops write for a message, where this is all they do.\<close>

definition chatml_message :: "llama_chat_message \<Rightarrow> string" where
  "chatml_message m =
     ''<|im_start|>'' @ ms_role m @ nl @ ms_content m @ ''<|im_end|>'' @ nl"

definition mistral_v7_message :: "llama_chat_message \<Rightarrow> string" where
  "mistral_v7_message m =
     (if ms_role m = ''system'' then ''[SYSTEM_PROMPT] '' @ ms_content m @ ''[/SYSTEM_PROMPT]''
      else if ms_role m = ''user'' then ''[INST] '' @ ms_content m @ ''[/INST]''
      else '' '' @ ms_content m @ ''</s>'')"

definition phi_3_message :: "llama_chat_message \<Rightarrow> string" where
  "phi_3_message m =
     ''<|'' @ ms_role m @ ''|>'' @ nl @ ms_content m @ ''<|end|>'' @ nl"

definition phi_4_message :: "llama_chat_message \<Rightarrow> string" where
  "phi_4_message m =
     ''<|im_start|>'' @ ms_role m @ ''<|im_sep|>'' @ ms_content m @ ''<|im_end|>''"

definition falcon_3_message :: "llama_chat_message \<Rightarrow> string" where
  "falcon_3_message m =
     ''<|'' @ ms_role m @ ''|>'' @ nl @ ms_content m @ nl"

definition zephyr_message :: "llama_chat_message \<Rightarrow> string" where
  "zephyr_message m =
     ''<|'' @ ms_role m @ ''|>'' @ nl @ ms_content m @ ''<|endoftext|>'' @ nl"

definition openchat_message :: "llama_chat_message \<Rightarrow> string" where
  "openchat_message m =
     (if ms_role m = ''system'' then ms_content m @ ''<|end_of_turn|>''
      else ''GPT4 Correct '' @ capitalize (ms_role m) @ '': '' @ ms_content m @ ''<|end_of_turn|>'')"

definition vicuna_message :: "bool \<Rightarrow> llama_chat_message \<Rightarrow> string" where
  "vicuna_message orca m =
     (if ms_role m = ''system'' then if orca then ''SYSTEM: '' @ ms_content m @ nl else ms_content m @ nl @ nl
      else if ms_role m = ''user'' then ''USER: '' @ ms_content m @ nl
      else if ms_role m = ''assistant'' then ''ASSISTANT: '' @ ms_content m @ ''</s>'' @ nl
      else [])"

definition deepseek_message :: "llama_chat_message \<Rightarrow> string" where
  "deepseek_message m =
     (if ms_role m = ''system'' then ms_content m
      else if ms_role m = ''user'' then ''### Instruction:'' @ nl @ ms_content m @ nl
      else if ms_role m = ''assistant'' then ''### Response:'' @ nl @ ms_content m @ nl @ ''<|EOT|>'' @ nl
      else [])"

definition command_r_message :: "llama_chat_message \<Rightarrow> string" where
  "command_r_message m =
     (if ms_role m = ''system'' then ''<|START_OF_TURN_TOKEN|><|SYSTEM_TOKEN|>'' @ trim (ms_content m) @ ''<|END_OF_TURN_TOKEN|>''
      else if ms_role m = ''user'' then ''<|START_OF_TURN_TOKEN|><|USER_TOKEN|>'' @ trim (ms_content m) @ ''<|END_OF_TURN_TOKEN|>''
      else if ms_role m = ''assistant'' then ''<|START_OF_TURN_TOKEN|><|CHATBOT_TOKEN|>'' @ trim (ms_content m) @ ''<|END_OF_TURN_TOKEN|>''
      else [])"

definition llama_3_message :: "llama_chat_message \<Rightarrow> string" where
  "llama_3_message m =
     ''<|start_header_id|>'' @ ms_role m @ ''<|end_header_id|>'' @ nl @ nl @ trim (ms_content m) @ ''<|eot_id|>''"

definition chatglm_3_message :: "llama_chat_message \<Rightarrow> string" where
  "chatglm_3_message m =
     ''<|'' @ ms_role m @ ''|>'' @ nl @ '' '' @ ms_content m"

definition chatglm_4_message :: "llama_chat_message \<Rightarrow> string" where
  "chatglm_4_message m =
     ''<|'' @ ms_role m @ ''|>'' @ nl @ ms_content m"

definition minicpm_message :: "llama_chat_message \<Rightarrow> string" where
  "minicpm_message m =
     (if ms_role m = ''user'' then minicpm_user @ trim (ms_content m) @ ''<AI>'' else trim (ms_content m))"

definition deepseek_2_message :: "llama_chat_message \<Rightarrow> string" where
  "deepseek_2_message m =
     (if ms_role m = ''system'' then ms_content m @ nl @ nl
      else if ms_role m = ''user'' then ''User: '' @ ms_content m @ nl @ nl
      else if ms_role m = ''assistant'' then ''Assistant: '' @ ms_content m @ deepseek_end
      else [])"

definition deepseek_3_message :: "llama_chat_message \<Rightarrow> string" where
  "deepseek_3_message m =
     (if ms_role m = ''system'' then ms_content m @ nl @ nl
      else if ms_role m = ''user'' then deepseek_user @ ms_content m
      else if ms_role m = ''assistant'' then deepseek_assistant @ ms_content m @ deepseek_end
      else [])"

definition exaone_3_message :: "llama_chat_message \<Rightarrow> string" where
  "exaone_3_message m =
     (if ms_role m = ''system'' then ''[|system|]'' @ trim (ms_content m) @ ''[|endofturn|]'' @ nl
      else if ms_role m = ''user'' then ''[|user|]'' @ trim (ms_content m) @ nl
      else if ms_role m = ''assistant'' then ''[|assistant|]'' @ trim (ms_content m) @ ''[|endofturn|]'' @ nl
      else [])"

definition rwkv_world_message :: "llama_chat_message \<Rightarrow> string" where
  "rwkv_world_message m =
     (if ms_role m = ''user'' then ''User: '' @ ms_content m @ nl @ nl @ ''Assistant:'' else ms_content m @ nl @ nl)"

definition granite_message :: "llama_chat_message \<Rightarrow> string" where
  "granite_message m =
     ''<|start_of_role|>'' @ ms_role m @ ''<|end_of_role|>''
      @ (if ms_role m = ''assistant_tool_call'' then ''<|tool_call|>'' else []) @ ms_content m @ ''<|end_of_text|>'' @ nl"

definition gigachat_message :: "llama_chat_message \<Rightarrow> string" where
  "gigachat_message m =
     (if ms_role m = ''user'' then ''user<|role_sep|>'' @ ms_content m @ ''<|message_sep|>''
        @ ''available functions<|role_sep|>[]<|message_sep|>''
      else if ms_role m = ''assistant'' then ''assistant<|role_sep|>'' @ ms_content m @ ''<|message_sep|>''
      else [])"

definition megrez_message :: "llama_chat_message \<Rightarrow> string" where
  "megrez_message m =
     ''<|role_start|>'' @ ms_role m @ ''<|role_end|>'' @ ms_content m @ ''<|turn_end|>''"

text \<open>
  Loops with a variable beside the stream: whether the text is inside a turn, the system prompt that
  waits for a user.  A step gives the text it writes and the new value.
\<close>

definition mistral_step :: "llm_chat_template \<Rightarrow> llama_chat_message \<Rightarrow> bool \<Rightarrow> string \<times> bool" where
  "mistral_step tmpl m is_inside_turn =
     (let leading_space = (if tmpl = LLM_CHAT_TEMPLATE_MISTRAL_V1 then '' '' else []);
          trailing_space = (if tmpl = LLM_CHAT_TEMPLATE_MISTRAL_V3_TEKKEN then [] else '' '');
          trim_assistant_message = (tmpl = LLM_CHAT_TEMPLATE_MISTRAL_V3);
          start = (if is_inside_turn then [] else leading_space @ ''[INST]'' @ trailing_space);
          content = ms_content m
      in if ms_role m = ''system'' then (start @ content @ nl @ nl, True)
         else if ms_role m = ''user'' then (start @ content @ leading_space @ ''[/INST]'', True)
         else (start @ trailing_space @ (if trim_assistant_message then trim content else content) @ ''</s>'', False))"

definition llama_2_step :: "llm_chat_template \<Rightarrow> llama_chat_message \<Rightarrow> bool \<Rightarrow> string \<times> bool" where
  "llama_2_step tmpl m is_inside_turn =
     (let support_system_message = (tmpl \<noteq> LLM_CHAT_TEMPLATE_LLAMA_2);
          add_bos_inside_history = (tmpl = LLM_CHAT_TEMPLATE_LLAMA_2_SYS_BOS);
          strip_message = (tmpl = LLM_CHAT_TEMPLATE_LLAMA_2_SYS_STRIP);
          content = (if strip_message then trim (ms_content m) else ms_content m);
          start = (if is_inside_turn then [] else if add_bos_inside_history then ''<s>[INST] '' else ''[INST] '')
      in if ms_role m = ''system'' then
           (start @ (if support_system_message then ''<<SYS>>'' @ nl @ content @ nl @ ''<</SYS>>'' @ nl @ nl
                     else content @ nl), True)
         else if ms_role m = ''user'' then (start @ content @ '' [/INST]'', True)
         else (start @ content @ ''</s>'', False))"

text \<open>The pointers are those of \<open>llama_chat_apply_template\<close>, all different, so only the first is the front.\<close>

definition monarch_step :: "llama_chat_message \<Rightarrow> bool \<Rightarrow> string \<times> bool" where
  "monarch_step m front =
     ((if front then [] else ''<s>'') @ ms_role m @ nl @ ms_content m @ ''</s>'' @ nl, False)"

definition gemma_step :: "llama_chat_message \<Rightarrow> string \<Rightarrow> string \<times> string" where
  "gemma_step m system_prompt =
     (if ms_role m = ''system'' then ([], trim (ms_content m))
      else
        let role = (if ms_role m = ''assistant'' then ''model'' else ms_role m);
            merge = (system_prompt \<noteq> [] \<and> role \<noteq> ''model'')
        in (''<start_of_turn>'' @ role @ nl @ (if merge then system_prompt @ nl @ nl else [])
              @ trim (ms_content m) @ ''<end_of_turn>'' @ nl,
            if merge then [] else system_prompt))"

definition orion_step :: "llama_chat_message \<Rightarrow> string \<Rightarrow> string \<times> string" where
  "orion_step m system_prompt =
     (if ms_role m = ''system'' then ([], ms_content m)
      else if ms_role m = ''user'' then
        (''Human: '' @ (if system_prompt \<noteq> [] then system_prompt @ nl @ nl else []) @ ms_content m
           @ nl @ nl @ ''Assistant: </s>'', [])
      else (ms_content m @ ''</s>'', system_prompt))"

section \<open>The prompt\<close>

definition each_message :: "(llama_chat_message \<Rightarrow> string) \<Rightarrow> llama_chat_message list \<Rightarrow> string" where
  "each_message f chat = concat (map f chat)"

fun message_loop ::
    "(llama_chat_message \<Rightarrow> 's \<Rightarrow> string \<times> 's) \<Rightarrow> llama_chat_message list \<Rightarrow> 's \<Rightarrow> string" where
  "message_loop step [] st = []"
| "message_loop step (m # chat) st = (let (s, st) = step m st in s @ message_loop step chat st)"

definition gigachat_prompt :: "llama_chat_message list \<Rightarrow> string" where
  "gigachat_prompt chat =
     (case chat of
        [] \<Rightarrow> ''<s>''
      | m # ms \<Rightarrow>
          if ms_role m = ''system'' then ''<s>'' @ ms_content m @ ''<|message_sep|>'' @ each_message gigachat_message ms
          else ''<s>'' @ each_message gigachat_message chat)"

text \<open>The stream, and \<open>None\<close> for a template that is not supported.\<close>

definition chat_prompt ::
    "llm_chat_template \<Rightarrow> llama_chat_message list \<Rightarrow> bool \<Rightarrow> string option" where
  "chat_prompt tmpl chat add_ass =
     (let ass = (\<lambda>s. if add_ass then s else [])
      in case tmpl of
        LLM_CHAT_TEMPLATE_CHATML \<Rightarrow> Some (each_message chatml_message chat @ ass (''<|im_start|>assistant'' @ nl))
      | LLM_CHAT_TEMPLATE_MISTRAL_V7 \<Rightarrow> Some (each_message mistral_v7_message chat)
      | LLM_CHAT_TEMPLATE_MISTRAL_V1 \<Rightarrow> Some (message_loop (mistral_step tmpl) chat False)
      | LLM_CHAT_TEMPLATE_MISTRAL_V3 \<Rightarrow> Some (message_loop (mistral_step tmpl) chat False)
      | LLM_CHAT_TEMPLATE_MISTRAL_V3_TEKKEN \<Rightarrow> Some (message_loop (mistral_step tmpl) chat False)
      | LLM_CHAT_TEMPLATE_LLAMA_2 \<Rightarrow> Some (''[INST] '' @ message_loop (llama_2_step tmpl) chat True)
      | LLM_CHAT_TEMPLATE_LLAMA_2_SYS \<Rightarrow> Some (''[INST] '' @ message_loop (llama_2_step tmpl) chat True)
      | LLM_CHAT_TEMPLATE_LLAMA_2_SYS_BOS \<Rightarrow> Some (''[INST] '' @ message_loop (llama_2_step tmpl) chat True)
      | LLM_CHAT_TEMPLATE_LLAMA_2_SYS_STRIP \<Rightarrow> Some (''[INST] '' @ message_loop (llama_2_step tmpl) chat True)
      | LLM_CHAT_TEMPLATE_PHI_3 \<Rightarrow> Some (each_message phi_3_message chat @ ass (''<|assistant|>'' @ nl))
      | LLM_CHAT_TEMPLATE_PHI_4 \<Rightarrow> Some (each_message phi_4_message chat @ ass ''<|im_start|>assistant<|im_sep|>'')
      | LLM_CHAT_TEMPLATE_FALCON_3 \<Rightarrow> Some (each_message falcon_3_message chat @ ass (''<|assistant|>'' @ nl))
      | LLM_CHAT_TEMPLATE_ZEPHYR \<Rightarrow> Some (each_message zephyr_message chat @ ass (''<|assistant|>'' @ nl))
      | LLM_CHAT_TEMPLATE_MONARCH \<Rightarrow> Some (message_loop monarch_step chat True @ ass (''<s>assistant'' @ nl))
      | LLM_CHAT_TEMPLATE_GEMMA \<Rightarrow> Some (message_loop gemma_step chat [] @ ass (''<start_of_turn>model'' @ nl))
      | LLM_CHAT_TEMPLATE_ORION \<Rightarrow> Some (message_loop orion_step chat [])
      | LLM_CHAT_TEMPLATE_OPENCHAT \<Rightarrow> Some (each_message openchat_message chat @ ass ''GPT4 Correct Assistant:'')
      | LLM_CHAT_TEMPLATE_VICUNA \<Rightarrow> Some (each_message (vicuna_message False) chat @ ass ''ASSISTANT:'')
      | LLM_CHAT_TEMPLATE_VICUNA_ORCA \<Rightarrow> Some (each_message (vicuna_message True) chat @ ass ''ASSISTANT:'')
      | LLM_CHAT_TEMPLATE_DEEPSEEK \<Rightarrow> Some (each_message deepseek_message chat @ ass (''### Response:'' @ nl))
      | LLM_CHAT_TEMPLATE_COMMAND_R \<Rightarrow>
          Some (each_message command_r_message chat @ ass ''<|START_OF_TURN_TOKEN|><|CHATBOT_TOKEN|>'')
      | LLM_CHAT_TEMPLATE_LLAMA_3 \<Rightarrow>
          Some (each_message llama_3_message chat @ ass (''<|start_header_id|>assistant<|end_header_id|>'' @ nl @ nl))
      | LLM_CHAT_TEMPLATE_CHATGML_3 \<Rightarrow> Some (''[gMASK]sop'' @ each_message chatglm_3_message chat @ ass ''<|assistant|>'')
      | LLM_CHAT_TEMPLATE_CHATGML_4 \<Rightarrow> Some (''[gMASK]<sop>'' @ each_message chatglm_4_message chat @ ass ''<|assistant|>'')
      | LLM_CHAT_TEMPLATE_MINICPM \<Rightarrow> Some (each_message minicpm_message chat)
      | LLM_CHAT_TEMPLATE_DEEPSEEK_2 \<Rightarrow> Some (each_message deepseek_2_message chat @ ass ''Assistant:'')
      | LLM_CHAT_TEMPLATE_DEEPSEEK_3 \<Rightarrow> Some (each_message deepseek_3_message chat @ ass deepseek_assistant)
      | LLM_CHAT_TEMPLATE_EXAONE_3 \<Rightarrow> Some (each_message exaone_3_message chat @ ass ''[|assistant|]'')
      | LLM_CHAT_TEMPLATE_RWKV_WORLD \<Rightarrow> Some (each_message rwkv_world_message chat)
      | LLM_CHAT_TEMPLATE_GRANITE \<Rightarrow>
          Some (each_message granite_message chat @ ass (''<|start_of_role|>assistant<|end_of_role|>'' @ nl))
      | LLM_CHAT_TEMPLATE_GIGACHAT \<Rightarrow> Some (gigachat_prompt chat @ ass ''assistant<|role_sep|>'')
      | LLM_CHAT_TEMPLATE_MEGREZ \<Rightarrow> Some (each_message megrez_message chat @ ass ''<|role_start|>assistant<|role_end|>'')
      | LLM_CHAT_TEMPLATE_UNKNOWN \<Rightarrow> None)"

text \<open>The returned size is an \<open>int32_t\<close>; \<open>dest\<close> stays as it was when the template is not supported.\<close>

definition int32_of_size :: "nat \<Rightarrow> int" where
  "int32_of_size n = sint (of_nat n :: 32 word)"

definition llm_chat_apply_template ::
    "llm_chat_template \<Rightarrow> llama_chat_message list \<Rightarrow> string \<Rightarrow> bool \<Rightarrow> int \<times> string" where
  "llm_chat_apply_template tmpl chat dest add_ass =
     (case chat_prompt tmpl chat add_ass of
        None \<Rightarrow> (-1, dest)
      | Some s \<Rightarrow> (int32_of_size (length s), s))"

section \<open>The public interface\<close>

text \<open>\<open>strncpy\<close>: the rest of the \<open>n\<close> bytes is filled with 0, and there is none at the end of a longer text.\<close>

definition strncpy :: "string \<Rightarrow> nat \<Rightarrow> string \<Rightarrow> string" where
  "strncpy buf n s = take n (s @ replicate n (CHR 0x00)) @ drop n buf"

definition llama_chat_apply_template ::
    "string option \<Rightarrow> llama_chat_message list \<Rightarrow> bool \<Rightarrow> string option \<Rightarrow> int \<Rightarrow> int \<times> string option" where
  "llama_chat_apply_template tmpl chat add_ass buf len =
     (let curr_tmpl = (case tmpl of None \<Rightarrow> ''chatml'' | Some t \<Rightarrow> t);
          detected_tmpl = llm_chat_detect_template curr_tmpl
      in if detected_tmpl = LLM_CHAT_TEMPLATE_UNKNOWN then (-1, buf)
         else
           let (r, formatted_chat) = llm_chat_apply_template detected_tmpl chat [] add_ass
           in if r < 0 then (r, buf)
              else (r, if 0 < len then map_option (\<lambda>b. strncpy b (nat len) formatted_chat) buf else buf))"

text \<open>The keys of a \<open>std::map\<close>, in their order.\<close>

fun string_less :: "string \<Rightarrow> string \<Rightarrow> bool" where
  "string_less s [] = False"
| "string_less [] (d # t) = True"
| "string_less (c # s) (d # t) = ((of_char c :: nat) < of_char d \<or> (c = d \<and> string_less s t))"

fun insert_key :: "string \<Rightarrow> string list \<Rightarrow> string list" where
  "insert_key k [] = [k]"
| "insert_key k (x # xs) = (if string_less k x then k # x # xs else if k = x then x # xs else x # insert_key k xs)"

definition llama_chat_builtin_templates :: "nat \<Rightarrow> string list \<times> int" where
  "llama_chat_builtin_templates n =
     (let keys = fold insert_key (map fst LLM_CHAT_TEMPLATES) []
      in (take (min n (length keys)) keys, int (length keys)))"

end
