(* ===== verification/ChatTheorems.thy ===== *)
theory ChatTheorems
  imports Chat
begin

text \<open>
  The properties of chat templates: a prompt grows at its end only, it holds the contents of the
  conversation in their order, and what the caller's buffer gets of it.
\<close>

section \<open>Growing prompts\<close>

lemma each_message_append: "each_message f (xs @ ys) = each_message f xs @ each_message f ys"
  by (simp add: each_message_def)

lemma message_loop_append: "\<exists>st'. message_loop step (xs @ ys) st = message_loop step xs st @ message_loop step ys st'"
proof (induction xs arbitrary: st)
  case (Cons m xs)
  then show ?case by (auto simp: split_beta)
qed auto

lemma message_loop_grows:
  "\<exists>t. message_loop step (xs @ ys) st = message_loop step xs st @ t"
  "\<exists>t. message_loop step (xs @ ys) st @ a = message_loop step xs st @ t"
  using message_loop_append[of step xs ys st] by auto

lemma gigachat_grows:
  "\<exists>t. gigachat_prompt (xs @ ys) = gigachat_prompt xs @ t"
  "\<exists>t. gigachat_prompt (xs @ ys) @ a = gigachat_prompt xs @ t"
proof -
  show "\<exists>t. gigachat_prompt (xs @ ys) = gigachat_prompt xs @ t"
  proof (cases xs)
    case Nil
    then show ?thesis by (cases ys) (auto simp: gigachat_prompt_def)
  next
    case (Cons m ms)
    then show ?thesis by (auto simp: gigachat_prompt_def each_message_def)
  qed
  then show "\<exists>t. gigachat_prompt (xs @ ys) @ a = gigachat_prompt xs @ t" by auto
qed

text \<open>
  A prompt only grows at its end: the prompt of a conversation without the assistant's tag is a
  prefix of the prompt of every longer conversation in the same template, so that what was
  tokenized and decoded before stays valid and only the rest has to be evaluated.
\<close>

theorem chat_prompt_grows:
  assumes "chat_prompt tmpl chat False = Some s"
  shows "\<exists>t. chat_prompt tmpl (chat @ later) add_ass = Some (s @ t)"
  using assms
  by (cases tmpl) (auto simp: chat_prompt_def each_message_append Let_def message_loop_grows gigachat_grows)

theorem chat_prompt_grows_witness:
  "\<exists>t. chat_prompt LLM_CHAT_TEMPLATE_LLAMA_3
      ([\<lparr>ms_role = ''user'', ms_content = ''Hi''\<rparr>] @ [\<lparr>ms_role = ''assistant'', ms_content = '' Hello''\<rparr>]) True
     = Some ((''<|start_header_id|>user<|end_header_id|>'' @ nl @ nl @ ''Hi<|eot_id|>'') @ t)"
  by (rule chat_prompt_grows) code_simp

section \<open>Contents\<close>

text \<open>The texts \<open>cs\<close> stand in \<open>d\<close> one behind the other.\<close>

fun in_order :: "string list \<Rightarrow> string \<Rightarrow> bool" where
  "in_order [] d = True"
| "in_order (c # cs) d = (\<exists>a b. d = a @ c @ b \<and> in_order cs b)"

lemma in_order_append: "in_order cs d \<Longrightarrow> in_order ds e \<Longrightarrow> in_order (cs @ ds) (d @ e)"
proof (induction cs arbitrary: d)
  case Nil
  then show ?case by (cases ds) (auto, metis append.assoc)
next
  case (Cons c cs)
  then obtain a b where "d = a @ c @ b" "in_order cs b" by auto
  moreover from this have "in_order (cs @ ds) (b @ e)" using Cons.IH[of b] Cons.prems(2) by blast
  ultimately show ?case by (metis append.assoc append_Cons in_order.simps(2))
qed

lemma in_order_front: "in_order cs d \<Longrightarrow> in_order cs (a @ d)"
  using in_order_append[of "[]" a cs d] by simp

lemma in_order_back: "in_order cs d \<Longrightarrow> in_order cs (d @ b)"
  using in_order_append[of cs d "[]" b] by simp

lemma trim_inside: "\<exists>a b. s = a @ trim s @ b"
proof -
  let ?t = "dropWhile isspace s"
  have "s = takeWhile isspace s @ ?t" by simp
  moreover have "rev ?t = takeWhile isspace (rev ?t) @ dropWhile isspace (rev ?t)" by simp
  then have "?t = trim s @ rev (takeWhile isspace (rev ?t))" unfolding trim_def by (metis rev_append rev_rev_ident)
  ultimately show ?thesis by metis
qed

lemma sublist_trim: "sublist (trim s) s"
  using trim_inside[of s] by (auto simp: sublist_def)

text \<open>Finding the content in what is written for a message.\<close>

lemma sublist_trim_here:
  "sublist (trim s) (trim s)" "sublist (trim s) s" "sublist (trim s) (trim s @ b)" "sublist (trim s) (s @ b)"
  "sublist (trim s) ((if P then trim s else s) @ b)"
  using trim_inside[of s] by (auto simp: sublist_def) (metis append.assoc)+

lemma sublist_skip: "sublist c d \<Longrightarrow> sublist c (a @ d)"
  unfolding sublist_def by (metis append.assoc)

lemma sublist_if: "(P \<Longrightarrow> sublist c d) \<Longrightarrow> (\<not> P \<Longrightarrow> sublist c e) \<Longrightarrow> sublist c (if P then d else e)"
  by simp

lemma any_role_contents:
  fixes m :: llama_chat_message
  defines "c \<equiv> trim (ms_content m)"
  shows "sublist c (chatml_message m)" "sublist c (mistral_v7_message m)" "sublist c (phi_3_message m)"
    "sublist c (phi_4_message m)" "sublist c (falcon_3_message m)" "sublist c (zephyr_message m)"
    "sublist c (openchat_message m)" "sublist c (llama_3_message m)" "sublist c (chatglm_3_message m)"
    "sublist c (chatglm_4_message m)" "sublist c (minicpm_message m)" "sublist c (rwkv_world_message m)"
    "sublist c (granite_message m)" "sublist c (megrez_message m)"
  unfolding c_def chatml_message_def mistral_v7_message_def phi_3_message_def phi_4_message_def falcon_3_message_def
    zephyr_message_def openchat_message_def llama_3_message_def chatglm_3_message_def chatglm_4_message_def
    minicpm_message_def rwkv_world_message_def granite_message_def megrez_message_def
  by ((rule sublist_trim_here | rule sublist_if | rule sublist_skip)+)

lemma known_role_contents:
  fixes m :: llama_chat_message
  assumes role: "ms_role m \<in> {''system'', ''user'', ''assistant''}"
  defines "c \<equiv> trim (ms_content m)"
  shows "sublist c (vicuna_message orca m)" "sublist c (deepseek_message m)" "sublist c (command_r_message m)"
    "sublist c (deepseek_2_message m)" "sublist c (deepseek_3_message m)" "sublist c (exaone_3_message m)"
    "ms_role m \<noteq> ''system'' \<Longrightarrow> sublist c (gigachat_message m)"
  unfolding c_def vicuna_message_def deepseek_message_def command_r_message_def deepseek_2_message_def
    deepseek_3_message_def exaone_3_message_def gigachat_message_def
  by (insert role, (rule sublist_trim_here | rule sublist_if | rule sublist_skip | blast)+)

lemma step_contents:
  fixes m :: llama_chat_message
  defines "c \<equiv> trim (ms_content m)"
  shows "sublist c (fst (mistral_step tmpl m b))" "sublist c (fst (llama_2_step tmpl m b))"
    "sublist c (fst (monarch_step m b))"
    "ms_role m \<noteq> ''system'' \<Longrightarrow> sublist c (fst (gemma_step m s))"
    "ms_role m \<noteq> ''system'' \<Longrightarrow> sublist c (fst (orion_step m s))"
  unfolding c_def mistral_step_def llama_2_step_def monarch_step_def gemma_step_def orion_step_def Let_def
    if_distrib[of fst] fst_conv
  by ((rule sublist_trim_here | rule sublist_if | rule sublist_skip | blast)+)

lemma each_message_in_order:
  assumes "\<And>m. m \<in> set chat \<Longrightarrow> sublist (trim (ms_content m)) (f m)"
  shows "in_order (map (\<lambda>m. trim (ms_content m)) chat) (each_message f chat)"
  using assms
proof (induction chat)
  case (Cons m chat)
  then have "in_order ([trim (ms_content m)] @ map (\<lambda>m. trim (ms_content m)) chat) (f m @ each_message f chat)"
    by (intro in_order_append) (auto simp: sublist_def)
  then show ?case by (simp add: each_message_def)
qed (simp add: each_message_def)

lemma message_loop_in_order:
  assumes "\<And>m st. m \<in> set chat \<Longrightarrow> sublist (trim (ms_content m)) (fst (step m st))"
  shows "in_order (map (\<lambda>m. trim (ms_content m)) chat) (message_loop step chat st)"
  using assms
proof (induction chat arbitrary: st)
  case (Cons m chat)
  then have "in_order ([trim (ms_content m)] @ map (\<lambda>m. trim (ms_content m)) chat)
      (fst (step m st) @ message_loop step chat (snd (step m st)))" by (intro in_order_append) (auto simp: sublist_def)
  then show ?case by (simp add: split_beta)
qed simp

text \<open>
  No template loses or reorders what was said: for every supported template and a conversation
  of system, user and assistant messages, the prompt holds the contents of all messages, up to
  blanks at their ends, one behind the other.  Gemma, Orion and GigaChat do so when there is no
  system message.
\<close>

theorem chat_keeps_contents:
  assumes "tmpl \<noteq> LLM_CHAT_TEMPLATE_UNKNOWN"
    and "\<forall>m \<in> set chat. ms_role m \<in> {''system'', ''user'', ''assistant''}"
    and "tmpl \<in> {LLM_CHAT_TEMPLATE_GEMMA, LLM_CHAT_TEMPLATE_ORION, LLM_CHAT_TEMPLATE_GIGACHAT} \<longrightarrow>
      (\<forall>m \<in> set chat. ms_role m \<noteq> ''system'')"
  shows "\<exists>s. chat_prompt tmpl chat add_ass = Some s \<and> in_order (map (\<lambda>m. trim (ms_content m)) chat) s"
proof -
  let ?c = "map (\<lambda>m. trim (ms_content m)) chat"
  note each = each_message_in_order[of chat] and loop = message_loop_in_order[of chat]
  have giga: "in_order ?c (gigachat_prompt chat)" if "\<forall>m \<in> set chat. ms_role m \<noteq> ''system''"
  proof -
    have "in_order ?c (each_message gigachat_message chat)" using each known_role_contents(7) assms(2) that by blast
    then have "in_order ?c (''<s>'' @ each_message gigachat_message chat)" by (rule in_order_front)
    moreover have "gigachat_prompt chat = ''<s>'' @ each_message gigachat_message chat"
      using that by (cases chat) (simp_all add: gigachat_prompt_def each_message_def)
    ultimately show ?thesis by simp
  qed
  have one: "in_order ?c (each_message f chat)" if "\<And>m. m \<in> set chat \<Longrightarrow> sublist (trim (ms_content m)) (f m)" for f
    using that by (rule each)
  have role: "ms_role m \<in> {''system'', ''user'', ''assistant''}" if "m \<in> set chat" for m using assms(2) that by blast
  note msg = any_role_contents known_role_contents(1-6)[OF role]
  have all: "in_order ?c (each_message f chat)" if "f \<in> {chatml_message, mistral_v7_message, phi_3_message, phi_4_message,
      falcon_3_message, zephyr_message, openchat_message, llama_3_message, chatglm_3_message, chatglm_4_message,
      minicpm_message, rwkv_world_message, granite_message, megrez_message} \<union>
      {deepseek_message, command_r_message, deepseek_2_message, deepseek_3_message, exaone_3_message}"
    for f using that by (elim UnE insertE emptyE; hypsubst) (rule one, rule msg, assumption?)+
  have vicuna: "in_order ?c (each_message (vicuna_message orca) chat)" for orca by (rule one, rule msg)
  have turns: "in_order ?c (message_loop (mistral_step t) chat b)" "in_order ?c (message_loop (llama_2_step t) chat b)"
    "in_order ?c (message_loop monarch_step chat b)" for t b by (intro loop step_contents)+
  have merged: "in_order ?c (message_loop gemma_step chat [])" "in_order ?c (message_loop orion_step chat [])"
    if "\<forall>m \<in> set chat. ms_role m \<noteq> ''system''" using that by (intro loop step_contents; blast)+
  show ?thesis
  proof (cases tmpl)
    case LLM_CHAT_TEMPLATE_UNKNOWN
    then show ?thesis using assms(1) by simp
  next
    case LLM_CHAT_TEMPLATE_GEMMA
    then show ?thesis using assms(3) merged(1) by (simp add: chat_prompt_def in_order_back)
  next
    case LLM_CHAT_TEMPLATE_ORION
    then show ?thesis using assms(3) merged(2) by (simp add: chat_prompt_def)
  next
    case LLM_CHAT_TEMPLATE_GIGACHAT
    then show ?thesis using assms(3) giga by (simp add: chat_prompt_def in_order_back)
  qed (simp_all only: chat_prompt_def Let_def llm_chat_template.case option.inject ex_simps simp_thms turns vicuna all insert_iff Un_iff in_order_back in_order_front)
qed

text \<open>
  Without that condition it is wrong: of two system messages before a user's, Gemma keeps the second only,
  and of a conversation that ends with a system message it loses that one.
\<close>

lemma gemma_loses_system:
  "ms_role m = ''system'' \<Longrightarrow> ms_role n = ''system'' \<Longrightarrow>
    chat_prompt LLM_CHAT_TEMPLATE_GEMMA (m # n # chat) add_ass = chat_prompt LLM_CHAT_TEMPLATE_GEMMA (n # chat) add_ass"
  "ms_role m = ''system'' \<Longrightarrow>
    message_loop gemma_step [m] st = []"
  by (simp_all add: chat_prompt_def gemma_step_def)

section \<open>The public interface\<close>

lemma builtin_names_detected:
  "list_all (\<lambda>(name, tmpl). llm_chat_detect_template name = tmpl) LLM_CHAT_TEMPLATES"
  by code_simp

lemma unknown_has_no_prompt: "chat_prompt tmpl chat add_ass = None \<longleftrightarrow> tmpl = LLM_CHAT_TEMPLATE_UNKNOWN"
  by (cases tmpl) (simp_all add: chat_prompt_def Let_def)

lemma int32_of_size_small: "n < 2 ^ 31 \<Longrightarrow> int32_of_size n = int n"
  unfolding int32_of_size_def using sint_sbintrunc'[of "int n", where 'a = 32]
  by (simp add: signed_take_bit_int_eq_self)

text \<open>
  A text that is recognised gives the length of the prompt, whatever the size of the buffer, and a buffer
  that is large enough begins with the prompt; one that is too small holds a prefix without a final 0,
  and the caller asks again with the length it got.
\<close>

theorem apply_template_fills:
  assumes "llm_chat_detect_template (case tmpl of None \<Rightarrow> ''chatml'' | Some t \<Rightarrow> t) = d"
    and "chat_prompt d chat add_ass = Some s" and "length s < 2 ^ 31"
    and "nat len \<le> length b"
  shows "fst (llama_chat_apply_template tmpl chat add_ass buf len) = int (length s)"
    and "int (length s) \<le> len \<Longrightarrow>
      map_option (take (length s)) (snd (llama_chat_apply_template tmpl chat add_ass (Some b) len)) = Some s"
    and "0 < len \<Longrightarrow> len < int (length s) \<Longrightarrow>
      snd (llama_chat_apply_template tmpl chat add_ass (Some b) len) = Some (take (nat len) s @ drop (nat len) b)"
proof -
  have d: "d \<noteq> LLM_CHAT_TEMPLATE_UNKNOWN" using assms(2) unknown_has_no_prompt[of d chat add_ass] by auto
  have filled: "llama_chat_apply_template tmpl chat add_ass buf len =
      (int (length s), if 0 < len then map_option (\<lambda>b. strncpy b (nat len) s) buf else buf)" for buf
    using assms(1-3) d
    by (simp add: llama_chat_apply_template_def llm_chat_apply_template_def int32_of_size_small Let_def)
  show "fst (llama_chat_apply_template tmpl chat add_ass buf len) = int (length s)" by (simp add: filled)
  show "map_option (take (length s)) (snd (llama_chat_apply_template tmpl chat add_ass (Some b) len)) = Some s"
    if "int (length s) \<le> len" using that by (cases s) (auto simp: filled strncpy_def take_all)
  show "snd (llama_chat_apply_template tmpl chat add_ass (Some b) len) = Some (take (nat len) s @ drop (nat len) b)"
    if "0 < len" "len < int (length s)" using that by (auto simp: filled strncpy_def)
qed

lemma unknown_template_refused:
  "llm_chat_detect_template t = LLM_CHAT_TEMPLATE_UNKNOWN \<Longrightarrow>
    llama_chat_apply_template (Some t) chat add_ass buf len = (-1, buf)"
  by (simp add: llama_chat_apply_template_def)

text \<open>The names come out in the order of the map.\<close>

lemma builtin_templates_sorted:
  "sorted_wrt string_less (fst (llama_chat_builtin_templates 32)) \<and> snd (llama_chat_builtin_templates 0) = 32"
  by code_simp

end
