(* ===== verification/Spec2Isabelle.thy ===== *)
theory Spec2Isabelle
  imports KvTheorems BatchTheorems KvDefrag DecodeTheorems DecodeClaims
    GrammarTheorems GrammarUtf8 GrammarParseTheorems UnicodeTheorems VocabTheorems VocabClaims SampleClaims ChatTheorems
begin

text \<open>
  A verification development of the inference core that LLMFarm compiles into its Swift
  package: the files under
  \<^verbatim>\<open>src/llmfarm_core.swift/Sources/llmfarm_core_cpp/llama.cpp/src\<close>, below called by their
  names, with the public header \<^verbatim>\<open>../include/llama.h\<close>.

  \<^bold>\<open>The program.\<close>  To answer a prompt the application may lay out the conversation after a template
  (llama-chat.cpp), tokenizes the text (llama-vocab.cpp, on top of unicode.cpp), puts the tokens into a batch, and calls \<open>llama_decode\<close> (llama.cpp), which cuts the
  batch into micro-batches (llama-batch.cpp), finds room for each in the key-value cache
  (llama-kv-cache.cpp), runs the compute graph, and stores rows of logits (llama-context.cpp).  A
  chain of samplers (llama-sampling.cpp) turns a row into the next token, if wanted under a
  grammar (llama-grammar.cpp); the token goes into the next batch, and back to text for the user.
  The theories follow these components.

  \<^bold>\<open>Conventions.\<close>  A C++ struct is a record or datatype with its fields prefixed, an operation a
  function named as in the source that returns the new state, and whatever it can end in besides
  returning (a failed assertion, an abort, an exception, an access out of bounds) is the left of
  a result \<open>fault + 'a\<close> (Prelude).  Bytes and code points are words, 32-bit counters that can wrap
  do so in the model, and signed indices are integers where the source compares them with -1.
  \<open>Out_of_fuel\<close> is a run cut short by a bound of the model; the bounds, and the theorems that they
  are enough, are listed below.

  \<^bold>\<open>Theories and code.\<close>
  \<^item> Prelude: results, faults, 32-bit counters, list and fold lemmas.
  \<^item> KvCache, KvProps, KvTheorems: llama-kv-cache.h/.cpp.  Cells, \<open>llama_kv_cache_find_slot\<close> for
    attention and recurrent caches, the sequence operations, the slot restorer.  KvProps has the
    invariant \<open>kv_ok\<close> and the abstraction \<open>kv_entries\<close>, a set of (sequence, position) pairs; the
    locales \<open>seq_store\<close> and \<open>shift_store\<close> are the contract of the sequence operations, interpreted as
    \<open>kv\<close>; KvTheorems adds the step relation \<open>kv_step\<close> of all operations and its reachable caches.
  \<^item> KvDefrag: \<open>llama_kv_cache_defrag_impl\<close>, its copy graph and \<open>llama_kv_cache_update_impl\<close> of
    llama.cpp, over abstract rows of cell data.
  \<^item> Batch, BatchProps, BatchTheorems: llama-batch.h/.cpp.  \<open>llama_sbatch\<close> with its three splitters
    and \<open>llama_batch_allocr\<close>.  The locale \<open>splitter\<close> says that a splitter hands out rows until none
    is left (\<open>eq_split\<close>, \<open>seq_split\<close>), \<open>ordered_splitter\<close> that it keeps their order (\<open>simple_split\<close>).
  \<^item> Decode, DecodeProps, DecodeTheorems, DecodeClaims: \<open>llama_decode_impl\<close> and
    \<open>llama_encode_impl\<close> of llama.cpp with the output buffer, its reordering and the getters of
    llama-context.cpp.  DecodeProps has the invariant of the loop over the micro-batches.
  \<^item> Grammar, GrammarProps, GrammarHalts, GrammarAccept, GrammarPartial, GrammarFilter, GrammarLive,
    GrammarUtf8, GrammarTheorems: the engine of llama-grammar.cpp, from the streaming UTF-8
    decoder to \<open>llama_grammar_apply_impl\<close> and \<open>llama_grammar_accept_impl\<close>.  Its specification is the
    relation \<open>expand1\<close> of a pushdown automaton with \<open>closure\<close> and \<open>reads\<close>.  \<open>vanishes\<close> and \<open>front\<close> say which
    rules can be empty and what can come first in them, \<open>left_recursive\<close> is the absence of an order on
    that, \<open>ranked\<close> a certificate of the order; \<open>exposed\<close> is what the check of the source sees of it.
    \<open>readable\<close> says which tokens the automaton can read, pending bytes included (\<open>completes\<close>).
  \<^item> GrammarParse, GrammarParseProps, GrammarParseOk, GrammarParseTheorems: the parser of the same
    file, repetitions, validation, initialisation from text, and the printer.
  \<^item> Unicode, UnicodeProps, UnicodeSplit, UnicodeSplitProps, UnicodeRegex, UnicodeRegexLoop,
    UnicodeRegexProps, UnicodeTheorems: unicode.h/.cpp.  UnicodeRegex has the two pre-tokenizer
    expressions and a backtracking matcher as the reference; the locales \<open>forward_step\<close> and
    \<open>regex_step\<close> carry the loops of both hand-written splitters (\<open>gpt2\<close>, \<open>llama3\<close>).
  \<^item> Vocab, VocabPiece, VocabMerge, VocabSpm, VocabBpe, VocabTrie, VocabWpm, VocabUgm,
    VocabPartition, VocabTokenize: llama-vocab.cpp.  The vocabulary and its queries, pieces and
    detokenizing, the five tokenizers, the partition at special tokens and the dispatch.
  \<^item> VocabMergeProps, VocabGreedy, VocabSpmProps, VocabBpeProps, VocabBpeText: the merge loop.  The
    locale \<open>merger\<close> is what a session must promise of its bigrams, \<open>greedy_merger\<close> adds their order;
    \<open>spm\<close>, \<open>bpe\<close>, \<open>spm_greedy\<close> and \<open>bpe_greedy\<close> are the interpretations.  The reference is \<open>greedy\<close>: join
    the best pair, the leftmost of several, until none can be joined.
  \<^item> VocabTrieProps, VocabWpmProps, VocabUgmProps, VocabPartitionProps, VocabPieceProps,
    VocabTokenizeProps, VocabTheorems, VocabClaims: the other tokenizers against their references
    (longest prefixes, covers by longest tokens, best paths, cuts at the first matches), the size
    protocol of the pieces, and the way through \<open>tokenize\<close> and back.  The locale
    \<open>prefix_dictionary\<close> is the contract of the trie (\<open>trie\<close>).
  \<^item> Sample, SampleRing, SampleVocab, SampleChain: llama-sampling.h/.cpp.  Sample has the candidates
    and the samplers that only look at them, SampleRing the ring buffer, penalties and DRY,
    SampleVocab the samplers that ask the vocabulary, SampleChain the samplers as one datatype
    with accept, apply, reset and clone, the chain, and \<open>llama_sampler_sample\<close>.
  \<^item> SampleRingProps, SampleDryProps, SampleProps, SampleChainProps, SampleClaims: the ring as a
    window on the accepted tokens (locale \<open>window\<close>, interpreted as \<open>ring\<close>), the Z-algorithm of DRY
    against common prefixes, top-k against \<open>best_k\<close>, and chains that never fail.
  \<^item> Chat, ChatTheorems: llama-chat.h/.cpp and \<open>llama_chat_apply_template\<close> of llama.cpp.  Which template a
    text stands for, what each writes for a conversation, that a prompt only grows at its end and
    keeps the contents of the messages in their order, and what the buffer of the caller gets.

  \<^bold>\<open>What the properties show.\<close>  A decode returns, with the documented codes, leaves the cache with
  exactly the entries of the batch, and gives for every output token the row of the run that had this
  token among its rows and the tokens up to it in the cache (\<open>row_for\<close>).
  The cache keeps its invariant under every operation, the slot search ends and finds a slot when
  there is one, the sequence operations do to the entries what their documentation says, and
  defragmentation and shifting lose no row.  The splitters partition a batch.  BPE and SPM merge
  like the reference, WPM, UGM and RWKV compute theirs, the partition keeps the text, the pieces
  respect the buffer they are given, and BPE tokens spell the text again.  The pre-tokenizers cut
  as their expressions do.  The grammar parser returns well-formed rules, the engine computes the
  automaton, its filter keeps only what the automaton can read and all of it that ends with a whole
  code point, and a token it lets through is accepted.  Penalties and DRY
  compute what their comments say of the accepted tokens, top-k the best candidates, a chain such as
  the default one goes on sampling, and greedy sampling under a grammar never gets stuck.  The lemmas on faults
  show where the source falls short of that; each says how.

  \<^bold>\<open>Loops, bounds and fuel.\<close>  Recursion is structural or has a measure where the source's loop has
  one.  \<open>find_window\<close>, \<open>decode_loop\<close> and \<open>split_all\<close> may run on when their state is ill-formed and are
  partial functions, with theorems that they return on well-formed states.  Fuel bounds:
  \<^item> the merge loops get enough for every bigram the queue can ever hold (\<open>queue_bound\<close>), the walk
    over the final symbols one unit for each symbol, and \<open>spm_resegment\<close> may go as deep as there
    are symbols;
  \<^item> the partition's \<open>st_loop\<close> gets more than the length of the fragment, \<open>st_sweep\<close> one unit for each
    fragment of the buffer;
  \<^item> RWKV gets the length of the text, enough when the first byte of every token is itself a token
    (\<open>rwkv_closed\<close>); otherwise the source may not return, and no fuel suffices;
  \<^item> the UGM backtrack gets one unit for each place of the text;
  \<^item> \<open>llama_grammar_advance_stack\<close> and what calls it have a fuel for the depth of the recursion; on
    rules without left recursion, among them those that pass the check of the source and hide no empty
    rule, there is a fuel from which on the result is the same (\<open>settles\<close>); the check misses left
    recursion behind hidden empty rules, and there the source does recurse for ever;
  \<^item> the check for left recursion never goes deeper than the number of rules, and the grammar
    parser consumes input at every turn, so that the length of the text bounds it.

  \<^bold>\<open>Parameters.\<close>  Code outside the files modelled is an argument: the compute graph and the memory it
  needs (\<open>backend\<close>), the data of the cells as abstract rows, the tables of unicode-data.cpp
  (\<open>unicode_data\<close>), the expressions of the C++ library (\<open>std_regex\<close>), which equal maximal element
  a priority queue pops (\<open>pick\<close>), floats (\<open>float_ops\<close>, \<open>floats\<close>), and the library's sorts and random
  numbers (\<open>library\<close>).  Floats are values of a linear order without a NaN; no law of arithmetic is
  assumed of them, except that the bucket of a logit does not decrease with it (\<open>buckets_mono\<close>)
  and that the library sorts and draws indices in range (\<open>library_ok\<close>).

  \<^bold>\<open>Not modelled.\<close>  Loading models and vocabularies from files, quantization, adapters and state
  files are input, output and tensor work through ggml; the graph builders of llama.cpp only call
  ggml; hyperparameters and architectures are tables; logging and time measurement have no
  effect here.  ggml, the common library, the examples, the fine-tuning program, the Swift
  interface and the Markdown renderer are other programs.
\<close>

end
